(* ===== verification/PhpPrelude.thy ===== *)
theory PhpPrelude
  imports Main "HOL-Library.Word" "HOL-Library.Monad_Syntax"
begin

text \<open>
  Shared vocabulary of the development: names for the C integer types, the collection
  of unfolding facts of the hash table model, and generic lemmas on lists, words and the
  option monad that several components use.

  Unsigned C integers are words where their wrap-around matters (hash values, table
  masks, element numbers) and natural numbers where a proved bound excludes it (indices
  and counts below \<open>HT_MAX_SIZE\<close>).
\<close>

unbundle bit_operations_syntax

type_synonym u8 = "8 word"
type_synonym u32 = "32 word"
type_synonym u64 = "64 word"

named_theorems ht_simps \<open>unfolding rules of the small hash table macros\<close>

subsection \<open>Lists\<close>

lemma last_filter_upt_Suc:
  "filter P [0..<Suc n] = filter P [0..<n] @ (if P n then [n] else [])"
  by simp

lemma list_update_append_length:
  "(xs @ y # ys)[length xs := z] = xs @ z # ys"
  by simp

lemma take_Suc_update:
  "n < length xs \<Longrightarrow> take (Suc n) (xs[n := x]) = take n xs @ [x]"
  by (simp add: take_Suc_conv_app_nth)

lemma take_update_ge [simp]:
  "n \<le> i \<Longrightarrow> take n (xs[i := x]) = take n xs"
  by simp

lemma filter_cong_take:
  "(\<And>i. i < n \<Longrightarrow> i < length xs \<Longrightarrow> P (xs ! i) = Q (xs ! i)) \<Longrightarrow>
   filter P (take n xs) = filter Q (take n xs)"
  by (rule filter_cong) (auto simp: in_set_conv_nth)

lemma map_filter_take_upt:
  "n \<le> length xs \<Longrightarrow>
   map f (filter P (take n xs)) = map (\<lambda>i. f (xs ! i)) (filter (\<lambda>i. P (xs ! i)) [0..<n])"
proof (induction n)
  case (Suc n)
  then show ?case by (simp add: take_Suc_conv_app_nth)
qed simp

lemma length_filter_take_upt:
  "n \<le> length xs \<Longrightarrow>
   length (filter P (take n xs)) = length (filter (\<lambda>i. P (xs ! i)) [0..<n])"
  using map_filter_take_upt [of n xs id P] by (metis length_map)

lemma fold_upt_invariant:
  assumes "I 0 s"
    and "\<And>i s. i < n \<Longrightarrow> I i s \<Longrightarrow> I (Suc i) (f i s)"
  shows "I n (fold f [0..<n] s)"
  using assms(2)
proof (induction n)
  case 0
  show ?case using assms(1) by simp
next
  case (Suc n)
  have "I n (fold f [0..<n] s)" by (rule Suc.IH) (simp add: Suc.prems)
  then show ?case by (simp add: Suc.prems)
qed

subsection \<open>Words\<close>

lemma word_or_mask_minus_less:
  fixes x m :: "'a::len word"
  assumes "m \<noteq> 0"
  shows "unat ((x OR m) - m) < 2 ^ LENGTH('a) - unat m"
proof -
  have le: "m \<le> x OR m" by (rule le_word_or1)
  then have "unat ((x OR m) - m) = unat (x OR m) - unat m"
    by (simp add: unat_sub word_le_nat_alt)
  moreover have "unat (x OR m) - unat m < 2 ^ LENGTH('a) - unat m"
    using le by (intro diff_less_mono) (simp_all add: word_le_nat_alt)
  ultimately show ?thesis by simp
qed

lemma uint_bounded: "uint (c :: 'a::len word) < 2 ^ LENGTH('a)"
  by (rule unsigned_less)

lemma unat_bounded: "unat (c :: 'a::len word) < 2 ^ LENGTH('a)"
  by (rule unsigned_less)

lemma unat_pow2:
  assumes "k < LENGTH('a)"
  shows "unat (2 ^ k :: 'a::len word) = 2 ^ k"
proof -
  have "(2 :: 'a word) ^ k = of_nat (2 ^ k)" by simp
  moreover have "unat (of_nat (2 ^ k) :: 'a word) = 2 ^ k"
    using assms by (simp add: unat_of_nat take_bit_eq_mod del: of_nat_power)
  ultimately show ?thesis by simp
qed

lemma sint_unat:
  fixes c :: "'a::len word"
  shows "sint c = (if unat c < 2 ^ (LENGTH('a) - 1) then int (unat c)
                   else int (unat c) - 2 ^ LENGTH('a))"
proof -
  define H :: int where "H = 2 ^ (LENGTH('a) - 1)"
  have two: "2 ^ LENGTH('a) = 2 * H" unfolding H_def by (simp flip: power_Suc)
  have bound: "0 \<le> uint c" "uint c < 2 * H"
    using uint_bounded [of c] by (simp_all only: two uint_nonnegative)
  have "sint c = (uint c + H) mod (2 * H) - H"
    by (simp add: sint_uint signed_take_bit_eq_take_bit_shift take_bit_eq_mod two H_def)
  moreover have "(uint c + H) mod (2 * H) = (if uint c < H then uint c + H else uint c - H)"
  proof (cases "uint c < H")
    case False
    then have "(uint c - H + 2 * H) mod (2 * H) = uint c - H"
      using bound by (subst mod_add_self2) (simp add: mod_pos_pos_trivial)
    with False show ?thesis by (simp add: algebra_simps)
  next
    case True
    moreover have "0 < H" by (simp add: H_def)
    ultimately have "0 \<le> uint c + H" "uint c + H < 2 * H" using bound(1) by linarith+
    then have "(uint c + H) mod (2 * H) = uint c + H" by (rule mod_pos_pos_trivial)
    with True show ?thesis by simp
  qed
  moreover have "unat c < 2 ^ (LENGTH('a) - 1) \<longleftrightarrow> uint c < H"
    unfolding uint_nat H_def by (metis of_nat_less_iff of_nat_numeral of_nat_power)
  ultimately show ?thesis by (simp add: two)
qed

lemma unat_uminus:
  fixes c :: "'a::len word"
  assumes "c \<noteq> 0"
  shows "unat (- c) = 2 ^ LENGTH('a) - unat c"
proof -
  have "0 < unat c" using assms by (simp add: unat_gt_0)
  moreover have "unat c \<le> 2 ^ LENGTH('a)" by (simp add: less_imp_le)
  ultimately have "- c = of_nat (2 ^ LENGTH('a) - unat c)" by (simp add: of_nat_diff)
  also have "unat \<dots> = 2 ^ LENGTH('a) - unat c"
    using \<open>0 < unat c\<close> by (simp add: unat_of_nat take_bit_eq_mod del: of_nat_diff)
  finally show ?thesis .
qed

end
