(* ===== verification/ZendString.thy ===== *)
theory ZendString
  imports PhpPrelude
begin

text \<open>
  Zend strings as the hash table sees them (\<open>Zend/zend_string.h\<close>): the bytes, whether the
  string is interned, and the DJBX33A hash value that \<open>ZSTR_H\<close> caches. The hash function is
  modelled in both variants of the source: the unrolled multiplications compiled on x86-64
  and the portable shift-and-add loop. Numeric string keys
  (\<open>_zend_handle_numeric_str\<close>) and the printing of integers (\<open>zend_long_to_str\<close>) are here as
  well, since array keys are normalised with them. \<open>char\<close> is signed on x86-64, so a byte
  enters the hash sign-extended.
\<close>

record zstr =
  zs_val :: "u8 list"
  zs_interned :: bool

subsection \<open>The hash function\<close>

text \<open>The loop over blocks of eight bytes, and the switch over the remaining bytes.\<close>

fun hash_blocks :: "u64 \<Rightarrow> u8 list \<Rightarrow> u64 \<times> u8 list" where
  "hash_blocks hash (s0 # s1 # s2 # s3 # s4 # s5 # s6 # s7 # str) =
     (let hash = hash * (33 * 33 * 33 * 33) + scast s0 * (33 * 33 * 33)
                 + scast s1 * (33 * 33) + scast s2 * 33 + scast s3;
          hash = hash * (33 * 33 * 33 * 33) + scast s4 * (33 * 33 * 33)
                 + scast s5 * (33 * 33) + scast s6 * 33 + scast s7
      in hash_blocks hash str)"
| "hash_blocks hash str = (hash, str)"

definition hash_four :: "u64 \<times> u8 list \<Rightarrow> u64 \<times> u8 list" where
  "hash_four p = (case p of
     (hash, s0 # s1 # s2 # s3 # str) \<Rightarrow>
       (hash * (33 * 33 * 33 * 33) + scast s0 * (33 * 33 * 33)
        + scast s1 * (33 * 33) + scast s2 * 33 + scast s3, str)
   | (hash, str) \<Rightarrow> (hash, str))"

definition hash_rest :: "u64 \<times> u8 list \<Rightarrow> u64" where
  "hash_rest p = (case p of
     (hash, s0 # s1 # s2 # _) \<Rightarrow>
       hash * (33 * 33 * 33) + scast s0 * (33 * 33) + scast s1 * 33 + scast s2
   | (hash, [s0, s1]) \<Rightarrow> hash * (33 * 33) + scast s0 * 33 + scast s1
   | (hash, [s0]) \<Rightarrow> hash * 33 + scast s0
   | (hash, []) \<Rightarrow> hash)"

definition zend_inline_hash_func :: "u8 list \<Rightarrow> u64" where
  "zend_inline_hash_func str =
     hash_rest (hash_four (hash_blocks 5381 str)) OR 0x8000000000000000"

text \<open>The portable variant: eight shift-and-add steps per round, then a fall-through switch.\<close>

definition shift_step :: "u64 \<Rightarrow> u8 \<Rightarrow> u64" where
  "shift_step hash c = (push_bit 5 hash + hash) + scast c"

fun shift_blocks :: "u64 \<Rightarrow> u8 list \<Rightarrow> u64 \<times> u8 list" where
  "shift_blocks hash (s0 # s1 # s2 # s3 # s4 # s5 # s6 # s7 # str) =
     shift_blocks (shift_step (shift_step (shift_step (shift_step (shift_step (shift_step
       (shift_step (shift_step hash s0) s1) s2) s3) s4) s5) s6) s7) str"
| "shift_blocks hash str = (hash, str)"

definition zend_inline_hash_func_portable :: "u8 list \<Rightarrow> u64" where
  "zend_inline_hash_func_portable str =
     (case shift_blocks 5381 str of (hash, rest) \<Rightarrow>
        foldl shift_step hash rest OR 0x8000000000000000)"

definition ZSTR_H :: "zstr \<Rightarrow> u64" where
  "ZSTR_H s = zend_inline_hash_func (zs_val s)"

text \<open>The function the header's comment describes: \<open>hash(i) = hash(i-1) * 33 + str[i]\<close>.\<close>

definition djbx33a :: "u64 \<Rightarrow> u8 list \<Rightarrow> u64" where
  "djbx33a hash str = foldl (\<lambda>h c. h * 33 + scast c) hash str"

lemma djbx33a_simps [simp]:
  "djbx33a h [] = h"
  "djbx33a h (c # cs) = djbx33a (h * 33 + scast c) cs"
  by (simp_all add: djbx33a_def)

lemma hash_blocks_djbx33a:
  "djbx33a h str = (case hash_blocks h str of (h', rest) \<Rightarrow> djbx33a h' rest)"
  by (induction h str rule: hash_blocks.induct) (simp_all add: algebra_simps Let_def)

lemma hash_blocks_rest_length: "length (snd (hash_blocks h str)) < 8"
  by (induction h str rule: hash_blocks.induct) (simp_all add: Let_def)

lemma hash_four_djbx33a:
  "djbx33a (fst p) (snd p) = djbx33a (fst (hash_four p)) (snd (hash_four p))"
  by (simp add: hash_four_def algebra_simps split: prod.splits list.splits)

lemma hash_four_rest_length:
  "length (snd p) < 8 \<Longrightarrow> length (snd (hash_four p)) < 4"
  by (auto simp: hash_four_def split: prod.splits list.splits)

lemma hash_rest_djbx33a:
  assumes "length (snd p) < 4"
  shows "hash_rest p = djbx33a (fst p) (snd p)"
proof -
  obtain h s where p: "p = (h, s)" by (cases p)
  with assms have "length s < 4" by simp
  then consider "s = []" | a where "s = [a]" | a b where "s = [a, b]"
    | a b c where "s = [a, b, c]"
    by (auto simp: less_Suc_eq numeral_eq_Suc length_Suc_conv)
  then show ?thesis by cases (simp_all add: p hash_rest_def algebra_simps)
qed

lemma zend_inline_hash_func_eq:
  "zend_inline_hash_func str = djbx33a 5381 str OR 0x8000000000000000"
proof -
  let ?b = "hash_blocks 5381 str"
  have "hash_rest (hash_four ?b) = djbx33a (fst ?b) (snd ?b)"
    by (subst hash_rest_djbx33a)
      (simp_all add: hash_four_rest_length hash_blocks_rest_length flip: hash_four_djbx33a)
  also have "\<dots> = djbx33a 5381 str" by (subst (2) hash_blocks_djbx33a) (simp add: split_beta)
  finally show ?thesis by (simp add: zend_inline_hash_func_def)
qed

lemma shift_step_eq: "shift_step h c = h * 33 + scast c"
proof -
  have "push_bit 5 h + h = h * 33" by (simp add: push_bit_eq_mult algebra_simps)
  then show ?thesis by (simp add: shift_step_def)
qed

lemma shift_blocks_djbx33a:
  "djbx33a h str = (case shift_blocks h str of (h', rest) \<Rightarrow> djbx33a h' rest)"
  by (induction h str rule: shift_blocks.induct) (simp_all add: shift_step_eq)

lemma portable_hash_eq:
  "zend_inline_hash_func_portable str = djbx33a 5381 str OR 0x8000000000000000"
  by (subst shift_blocks_djbx33a)
    (simp add: zend_inline_hash_func_portable_def djbx33a_def shift_step_eq split_beta
       cong: foldl_cong)

lemma zend_hash_nonzero: "zend_inline_hash_func str \<noteq> 0"
proof
  assume "zend_inline_hash_func str = 0"
  then have "\<not> bit (zend_inline_hash_func str) 63" by simp
  then show False by (simp add: zend_inline_hash_func_eq bit_or_iff)
qed

subsection \<open>Printing integers\<close>

function zend_print_ulong_to_buf :: "u8 list \<Rightarrow> u64 \<Rightarrow> u8 list" where
  "zend_print_ulong_to_buf buf num =
     (let buf = (ucast (num mod 10) + 48) # buf;
          num = num div 10
      in if num > 0 then zend_print_ulong_to_buf buf num else buf)"
  by pat_completeness auto
termination
proof (relation "measure (\<lambda>(buf, num). unat num)")
  fix buf buf' :: "u8 list" and num num' :: u64
  assume "num' = num div 10" and "num' > 0"
  then show "((buf', num'), buf, num) \<in> measure (\<lambda>(buf, num). unat num)"
    by (simp add: unat_div word_greater_zero_iff unat_eq_0 [symmetric] del: unat_eq_0)
qed simp

declare zend_print_ulong_to_buf.simps [simp del]

definition zend_print_long_to_buf :: "u8 list \<Rightarrow> u64 \<Rightarrow> u8 list" where
  "zend_print_long_to_buf buf num =
     (if num <s 0 then 45 # zend_print_ulong_to_buf buf (NOT num + 1)
      else zend_print_ulong_to_buf buf num)"

definition zend_long_to_str :: "u64 \<Rightarrow> u8 list" where
  "zend_long_to_str num =
     (if num \<le> 9 then [48 + ucast num] else zend_print_long_to_buf [] num)"

subsection \<open>Numeric string keys\<close>

definition ZEND_LONG_MAX :: u64 where "ZEND_LONG_MAX = 0x7FFFFFFFFFFFFFFF"
definition ZEND_LONG_MIN :: u64 where "ZEND_LONG_MIN = 0x8000000000000000"
definition MAX_LENGTH_OF_LONG :: nat where "MAX_LENGTH_OF_LONG = 20"

text \<open>
  The digit loop from \<open>++tmp\<close> on: \<open>neg\<close> is \<open>*key == '-'\<close>, the list is what lies between
  \<open>tmp\<close> and \<open>end\<close>.
\<close>

fun numeric_loop :: "bool \<Rightarrow> u64 \<Rightarrow> u8 list \<Rightarrow> u64 option" where
  "numeric_loop neg idx [] =
     (if neg then (if idx - 1 > ZEND_LONG_MAX then None else Some (0 - idx))
      else if idx > ZEND_LONG_MAX then None else Some idx)"
| "numeric_loop neg idx (c # cs) =
     (if c \<le>s 57 \<and> 48 \<le>s c then numeric_loop neg (idx * 10 + (scast c - 48)) cs else None)"

text \<open>
  \<open>*tmp\<close> at \<open>end\<close> is the terminating NUL. The callers only pass a key whose first byte (after
  an optional minus) is a digit; on other keys the C code reads past the end, which the
  empty case below stands for.
\<close>

definition zend_handle_numeric_str_ex :: "u8 list \<Rightarrow> u64 option" where
  "zend_handle_numeric_str_ex key =
     (let neg = (key \<noteq> [] \<and> hd key = 45);
          tmp = (if neg then tl key else key)
      in case tmp of
           [] \<Rightarrow> None
         | d # ds \<Rightarrow>
             if d = 48 \<and> length key > 1 \<or> length tmp > MAX_LENGTH_OF_LONG - 1 then None
             else numeric_loop neg (scast d - 48) ds)"

definition char_at :: "u8 list \<Rightarrow> nat \<Rightarrow> u8" where
  "char_at s i = (if i < length s then s ! i else 0)"

definition zend_handle_numeric_str :: "u8 list \<Rightarrow> u64 option" where
  "zend_handle_numeric_str key =
     (let c = char_at key 0 in
      if 57 <s c then None
      else if c <s 48 \<and> c \<noteq> 45 then None
      else if c <s 48 \<and> (57 <s char_at key 1 \<or> char_at key 1 <s 48) then None
      else zend_handle_numeric_str_ex key)"


subsection \<open>Decimal digits\<close>

text \<open>
  The decimal representation on natural numbers, with which both directions of the
  conversion between integers and numeric keys are compared.
\<close>

definition digit :: "u8 \<Rightarrow> bool" where
  "digit c \<longleftrightarrow> 48 \<le> unat c \<and> unat c \<le> 57"

definition dval :: "nat \<Rightarrow> u8 list \<Rightarrow> nat" where
  "dval v cs = foldl (\<lambda>v c. v * 10 + (unat c - 48)) v cs"

fun print_nat :: "nat \<Rightarrow> u8 list" where
  "print_nat n = (if n < 10 then [of_nat (n + 48)] else print_nat (n div 10) @ [of_nat (n mod 10 + 48)])"

declare print_nat.simps [simp del]

lemma unat_u8_less: "unat (c :: u8) < 256"
  using unsigned_less [of c] by simp

lemma uint_u8_less: "uint (c :: u8) < 256"
  using unat_u8_less [of c] unfolding uint_nat by linarith

lemmas sint_u8 = sint_unat [where 'a = 8, simplified]
lemmas sint_u64 = sint_unat [where 'a = 64, simplified]

lemma digit_signed: "c \<le>s 57 \<and> 48 \<le>s c \<longleftrightarrow> digit c"
  using unat_u8_less [of c] by (auto simp: word_sle_eq sint_u8 digit_def simp del: uint_nat of_nat_unat split: if_splits)

lemma signed_less_48: "c <s (48 :: u8) \<longleftrightarrow> unat c < 48 \<or> 128 \<le> unat c"
  using unat_u8_less [of c] by (auto simp: word_sless_alt sint_u8 simp del: of_nat_unat split: if_splits)

lemma signed_greater_57: "(57 :: u8) <s c \<longleftrightarrow> 57 < unat c \<and> unat c < 128"
  using unat_u8_less [of c] by (auto simp: word_sless_alt sint_u8 simp del: of_nat_unat split: if_splits)

lemma scast_digit:
  assumes "digit c"
  shows "(scast c :: u64) - 48 = of_nat (unat c - 48)"
proof -
  have "(scast c :: u64) = of_int (sint c)" by simp
  also have "\<dots> = of_nat (unat c)" using assms by (simp add: sint_u8 digit_def)
  finally show ?thesis using assms by (simp add: digit_def of_nat_diff)
qed

lemma dval_simps [simp]:
  "dval v [] = v"
  "dval v (c # cs) = dval (v * 10 + (unat c - 48)) cs"
  "dval v (cs @ [c]) = dval v cs * 10 + (unat c - 48)"
  by (simp_all add: dval_def)

lemma dval_mono: "v \<le> dval v cs"
proof (induction cs arbitrary: v)
  case (Cons c cs)
  have "v \<le> v * 10 + (unat c - 48)" by simp
  also have "\<dots> \<le> dval (v * 10 + (unat c - 48)) cs" by (rule Cons.IH)
  finally show ?case by simp
qed simp

lemma dval_bound: "list_all digit cs \<Longrightarrow> dval 0 cs < 10 ^ length cs"
proof (induction cs rule: rev_induct)
  case (snoc c cs)
  then have "dval 0 cs < 10 ^ length cs" and "unat c - 48 \<le> 9" by (auto simp: digit_def)
  then show ?case by simp
qed simp

lemma dval_ge:
  "list_all digit cs \<Longrightarrow> cs \<noteq> [] \<Longrightarrow> hd cs \<noteq> 48 \<Longrightarrow> 0 < dval 0 cs"
proof (cases cs)
  case (Cons c ds)
  assume "list_all digit cs" "hd cs \<noteq> 48"
  with Cons have "unat c \<noteq> 48" and "48 \<le> unat c"
    using word_unat_eq_iff [of c 48] by (auto simp: digit_def)
  moreover have "unat c - 48 \<le> dval (unat c - 48) ds" by (rule dval_mono)
  ultimately show ?thesis using Cons by simp
qed simp

lemma unat_of_digit [simp]: "n < 10 \<Longrightarrow> unat (of_nat (n + 48) :: u8) = n + 48"
  by (simp add: unat_of_nat take_bit_eq_mod del: of_nat_add)

lemma print_nat_props:
  "list_all digit (print_nat n) \<and> print_nat n \<noteq> [] \<and> dval 0 (print_nat n) = n"
proof (induction n rule: print_nat.induct)
  case (1 n)
  show ?case
  proof (cases "n < 10")
    case True
    then show ?thesis using unat_of_digit [of n]
      by (simp add: print_nat.simps [of n] digit_def del: of_nat_add unat_of_digit)
  next
    case False
    then show ?thesis using 1 unat_of_digit [of "n mod 10"]
      by (simp add: print_nat.simps [of n] digit_def del: of_nat_add unat_of_digit)
  qed
qed

lemma print_nat_hd: "0 < n \<Longrightarrow> hd (print_nat n) \<noteq> 48"
proof (induction n rule: print_nat.induct)
  case (1 n)
  show ?case
  proof (cases "n < 10")
    case True
    have "hd (print_nat n) = of_nat (n + 48)" using True by (simp add: print_nat.simps [of n])
    then have "unat (hd (print_nat n)) = n + 48" using unat_of_digit [OF True] by simp
    with 1 show ?thesis by auto
  next
    case False
    then show ?thesis using 1 print_nat_props [of "n div 10"]
      by (simp add: print_nat.simps [of n])
  qed
qed

lemma print_nat_length: "n < 10 ^ k \<Longrightarrow> 0 < k \<Longrightarrow> length (print_nat n) \<le> k"
proof (induction n arbitrary: k rule: print_nat.induct)
  case (1 n)
  show ?case
  proof (cases "n < 10")
    case False
    then obtain j where k: "k = Suc j" and j: "0 < j" using "1.prems" by (cases k; cases "k - 1") auto
    then have "n div 10 < 10 ^ j" using "1.prems" by (simp add: less_mult_imp_div_less)
    then show ?thesis using "1.IH" [OF False _ j] False k by (simp add: print_nat.simps [of n])
  qed (use "1.prems" in \<open>simp add: print_nat.simps [of n]\<close>)
qed

lemma print_nat_dval:
  "list_all digit cs \<Longrightarrow> cs \<noteq> [] \<Longrightarrow> hd cs \<noteq> 48 \<or> length cs = 1 \<Longrightarrow> print_nat (dval 0 cs) = cs"
proof (induction cs rule: rev_induct)
  case (snoc c cs)
  have d: "48 \<le> unat c" "unat c - 48 < 10" using snoc.prems by (auto simp: digit_def)
  then have c: "of_nat (unat c - 48 + 48) = c" by simp
  show ?case
  proof (cases "cs = []")
    case True
    with d c show ?thesis by (simp add: print_nat.simps [of "unat c - 48"] del: of_nat_add)
  next
    case False
    with snoc.prems have hd: "hd cs \<noteq> 48" by simp
    then have pos: "0 < dval 0 cs" using snoc.prems False by (intro dval_ge) auto
    have "print_nat (dval 0 cs) = cs" using snoc False hd by auto
    moreover have "(dval 0 cs * 10 + r) div 10 = dval 0 cs"
      and "(dval 0 cs * 10 + r) mod 10 = r" if "r < 10" for r using that by auto
    from this [OF d(2)] have "(dval 0 cs * 10 + (unat c - 48)) div 10 = dval 0 cs"
      and "(dval 0 cs * 10 + (unat c - 48)) mod 10 = unat c - 48" by blast+
    ultimately show ?thesis using pos c
      by (subst print_nat.simps) (simp del: of_nat_add)
  qed
qed simp


subsection \<open>Numeric keys are the printed integers\<close>

lemma zend_print_ulong_eq: "zend_print_ulong_to_buf buf num = print_nat (unat num) @ buf"
proof (induction buf num rule: zend_print_ulong_to_buf.induct)
  case (1 buf num)
  have small: "num div 10 > 0 \<longleftrightarrow> \<not> unat num < 10"
    by (simp add: word_less_nat_alt unat_div) arith
  have d: "ucast (num mod 10) + 48 = (of_nat (unat num mod 10 + 48) :: u8)"
  proof -
    have "(of_nat (unat (num mod 10)) :: u8) = ucast (num mod 10)" by simp
    then show ?thesis by (simp add: unat_mod del: of_nat_unat)
  qed
  show ?case
  proof (cases "num div 10 > 0")
    case True
    then have "zend_print_ulong_to_buf buf num =
      print_nat (unat num div 10) @ (ucast (num mod 10) + 48) # buf"
      using 1 [of "(ucast (num mod 10) + 48) # buf" "num div 10"]
      by (simp add: zend_print_ulong_to_buf.simps [of buf num] Let_def unat_div)
    then show ?thesis using True small d
      by (simp add: print_nat.simps [of "unat num"] del: of_nat_add)
  next
    case False
    then show ?thesis using small d
      by (simp add: zend_print_ulong_to_buf.simps [of buf num] Let_def
            print_nat.simps [of "unat num"] del: of_nat_add)
  qed
qed

lemma numeric_loop_digits:
  "list_all digit cs \<Longrightarrow> numeric_loop neg (of_nat v) cs = numeric_loop neg (of_nat (dval v cs)) []"
proof (induction cs arbitrary: v)
  case (Cons c cs)
  then have c: "digit c" by simp
  then have "(of_nat v * 10 + (scast c - 48) :: u64) = of_nat (v * 10 + (unat c - 48))"
    by (simp add: scast_digit del: of_nat_diff)
  then have "numeric_loop neg (of_nat v) (c # cs) = numeric_loop neg (of_nat (v * 10 + (unat c - 48))) cs"
    using c by (simp only: numeric_loop.simps digit_signed simp_thms if_True)
  also have "\<dots> = numeric_loop neg (of_nat (dval (v * 10 + (unat c - 48)) cs)) []"
    using Cons.prems by (intro Cons.IH) simp
  finally show ?case by (simp only: dval_simps)
qed simp

lemma numeric_loop_SomeD: "numeric_loop neg idx cs = Some n \<Longrightarrow> list_all digit cs"
  by (induction neg idx cs rule: numeric_loop.induct) (auto simp: digit_signed split: if_splits)

lemma long_max_less: "ZEND_LONG_MAX < n \<longleftrightarrow> 2 ^ 63 \<le> unat n"
  by (simp add: ZEND_LONG_MAX_def word_less_nat_alt) linarith

lemma numeric_loop_end:
  assumes "v < 10 ^ 19"
  shows "numeric_loop False (of_nat v) [] = (if v < 2 ^ 63 then Some (of_nat v) else None)"
    and "0 < v \<Longrightarrow> numeric_loop True (of_nat v) [] = (if v \<le> 2 ^ 63 then Some (- of_nat v) else None)"
proof -
  have "v < 2 ^ 64" using assms by simp
  then have u: "unat (of_nat v :: u64) = v" by (simp add: unat_of_nat take_bit_eq_mod)
  show "numeric_loop False (of_nat v) [] = (if v < 2 ^ 63 then Some (of_nat v) else None)"
    using u by (simp add: long_max_less)
  assume "0 < v"
  then have nz: "of_nat v \<noteq> (0 :: u64)" using u by (metis less_irrefl unat_0)
  then have "unat (of_nat v - 1 :: u64) = v - 1"
    using u nz by (simp only: unat_minus_one)
  with \<open>0 < v\<close> show "numeric_loop True (of_nat v) [] = (if v \<le> 2 ^ 63 then Some (- of_nat v) else None)"
    by (auto simp: long_max_less)
qed

lemma zend_long_to_str_eq:
  "zend_long_to_str n = (if unat n < 2 ^ 63 then print_nat (unat n) else 45 # print_nat (2 ^ 64 - unat n))"
proof -
  have neg: "n <s 0 \<longleftrightarrow> \<not> unat n < 2 ^ 63"
    using uint_bounded [of n] by (simp add: word_sless_alt sint_u64)
  have minus: "NOT n + 1 = - n" by (simp add: minus_eq_not_plus_1)
  show ?thesis
  proof (cases "n \<le> 9")
    case True
    then have small: "unat n < 10" by (simp add: word_le_nat_alt)
    have "48 + ucast n = (of_nat (unat n + 48) :: u8)" by simp
    then show ?thesis using True small by (simp add: zend_long_to_str_def print_nat.simps [of "unat n"])
  next
    case False
    moreover have "unat (- n) = 2 ^ 64 - unat n" if "\<not> unat n < 2 ^ 63"
      using that by (subst unat_uminus) auto
    ultimately show ?thesis
      by (auto simp: zend_long_to_str_def zend_print_long_to_buf_def neg minus zend_print_ulong_eq)
  qed
qed

lemma numeric_loop_canonical:
  assumes d: "list_all digit (c # cs)" and len: "length (c # cs) \<le> 19"
  shows "numeric_loop neg (scast c - 48) cs = numeric_loop neg (of_nat (dval 0 (c # cs))) []"
  using d numeric_loop_digits [of cs neg "unat c - 48"] by (simp only: scast_digit list.pred_inject) simp

definition canonical_digits :: "u8 list \<Rightarrow> bool" where
  "canonical_digits ds \<longleftrightarrow> list_all digit ds \<and> ds \<noteq> [] \<and> (hd ds \<noteq> 48 \<or> length ds = 1) \<and> length ds \<le> 19"

lemma canonical_print: "canonical_digits ds \<Longrightarrow> print_nat (dval 0 ds) = ds"
  by (simp add: canonical_digits_def print_nat_dval)

lemma print_canonical: "n < 10 ^ 19 \<Longrightarrow> canonical_digits (print_nat n)"
  using print_nat_props [of n] print_nat_hd [of n] print_nat_length [of n 19]
  by (cases "n = 0") (auto simp: canonical_digits_def print_nat.simps [of 0])

lemma canonical_bound: "canonical_digits ds \<Longrightarrow> dval 0 ds < 10 ^ 19"
  using dval_bound [of ds] power_increasing [of "length ds" 19 "10 :: nat"]
  by (simp add: canonical_digits_def)

lemma handle_numeric_nonneg:
  assumes "key \<noteq> []" and "hd key \<noteq> 45"
  shows "zend_handle_numeric_str key = Some n \<longleftrightarrow>
    canonical_digits key \<and> dval 0 key < 2 ^ 63 \<and> n = of_nat (dval 0 key)"
proof -
  obtain c cs where key: "key = c # cs" using assms by (cases key) auto
  with assms have c: "c \<noteq> 45" by simp
  show ?thesis
  proof (cases "list_all digit key \<and> (c \<noteq> 48 \<or> cs = []) \<and> length key \<le> 19")
    case True
    then have can: "canonical_digits key" by (auto simp: canonical_digits_def key)
    have "\<not> 57 <s c" "\<not> c <s 48"
      using True digit_signed [of c] by (auto simp: key signed_less_48 signed_greater_57 digit_def)
    then have "zend_handle_numeric_str key = numeric_loop False (scast c - 48) cs"
      using True c by (auto simp: zend_handle_numeric_str_def zend_handle_numeric_str_ex_def
        key char_at_def MAX_LENGTH_OF_LONG_def Let_def)
    also have "\<dots> = numeric_loop False (of_nat (dval 0 key)) []"
      using True unfolding key by (intro numeric_loop_canonical) auto
    finally have "zend_handle_numeric_str key =
      (if dval 0 key < 2 ^ 63 then Some (of_nat (dval 0 key)) else None)"
      by (simp only: numeric_loop_end(1) [OF canonical_bound [OF can]])
    then show ?thesis using can by auto
  next
    case False
    have "zend_handle_numeric_str key \<noteq> Some n"
    proof
      assume a: "zend_handle_numeric_str key = Some n"
      then have "\<not> 57 <s c" "\<not> (c <s 48)" using c
        by (auto simp: zend_handle_numeric_str_def key char_at_def Let_def split: if_splits)
      then have "digit c" by (auto simp: signed_less_48 signed_greater_57 digit_def)
      moreover have "\<not> (c = 48 \<and> cs \<noteq> [])" "length key \<le> 19" "list_all digit cs" using a c
        by (auto simp: zend_handle_numeric_str_def zend_handle_numeric_str_ex_def key char_at_def
            MAX_LENGTH_OF_LONG_def Let_def dest: numeric_loop_SomeD split: if_splits)
      ultimately show False using False by (auto simp: key)
    qed
    moreover have "\<not> canonical_digits key" using False by (auto simp: canonical_digits_def key)
    ultimately show ?thesis by blast
  qed
qed

lemma handle_numeric_neg:
  "zend_handle_numeric_str (45 # ds) = Some n \<longleftrightarrow>
    canonical_digits ds \<and> hd ds \<noteq> 48 \<and> dval 0 ds \<le> 2 ^ 63 \<and> n = - of_nat (dval 0 ds)"
proof -
  have start: "\<not> (57 :: u8) <s 45" "(45 :: u8) <s 48" by (simp_all add: signed_less_48 signed_greater_57)
  have reads: "zend_handle_numeric_str (45 # ds) =
    (case ds of [] \<Rightarrow> None | c # cs \<Rightarrow>
       if \<not> digit c \<or> c = 48 \<or> 19 < length ds then None
       else numeric_loop True (scast c - 48) cs)"
    using start
    by (cases ds) (auto simp: zend_handle_numeric_str_def zend_handle_numeric_str_ex_def char_at_def
        MAX_LENGTH_OF_LONG_def Let_def signed_less_48 signed_greater_57 digit_def)
  show ?thesis
  proof (cases ds)
    case (Cons c cs)
    show ?thesis
    proof (cases "list_all digit ds \<and> c \<noteq> 48 \<and> length ds \<le> 19")
      case True
      then have can: "canonical_digits ds" by (auto simp: canonical_digits_def Cons)
      then have pos: "0 < dval 0 ds" using True by (intro dval_ge) (auto simp: canonical_digits_def Cons)
      have "zend_handle_numeric_str (45 # ds) = numeric_loop True (scast c - 48) cs"
        using True reads by (auto simp: Cons)
      also have "\<dots> = numeric_loop True (of_nat (dval 0 ds)) []"
        using True unfolding Cons by (intro numeric_loop_canonical) auto
      finally have "zend_handle_numeric_str (45 # ds) =
        (if dval 0 ds \<le> 2 ^ 63 then Some (- of_nat (dval 0 ds)) else None)"
        by (simp only: numeric_loop_end(2) [OF canonical_bound [OF can] pos])
      then show ?thesis using can True by (auto simp: Cons)
    next
      case False
      then have "zend_handle_numeric_str (45 # ds) \<noteq> Some n"
        unfolding reads by (auto simp: Cons dest: numeric_loop_SomeD split: if_splits)
      with False show ?thesis by (auto simp: canonical_digits_def Cons)
    qed
  qed (use reads in \<open>simp add: canonical_digits_def\<close>)
qed

text \<open>
  The array key normalisation is exact: a string key is turned into the integer \<open>n\<close> if and
  only if it is the string \<open>zend_long_to_str\<close> prints for \<open>n\<close>.
\<close>

lemma handle_numeric_iff_printed:
  "zend_handle_numeric_str key = Some n \<longleftrightarrow> key = zend_long_to_str n"
proof (cases "key = []")
  case True
  have "zend_long_to_str n \<noteq> []" using print_nat_props by (simp add: zend_long_to_str_eq)
  then show ?thesis using True
    by (auto simp: zend_handle_numeric_str_def char_at_def Let_def signed_less_48)
next
  case ne: False
  have u: "unat n < 2 ^ 64" using unsigned_less [of n] by simp
  show ?thesis
  proof (cases "hd key = 45")
    case True
    then obtain ds where key: "key = 45 # ds" using ne by (cases key) auto
    show ?thesis
    proof
      assume "zend_handle_numeric_str key = Some n"
      then have can: "canonical_digits ds" and hd: "hd ds \<noteq> 48"
        and le: "dval 0 ds \<le> 2 ^ 63" and n: "n = - of_nat (dval 0 ds)"
        unfolding key handle_numeric_neg by blast+
      have pos: "0 < dval 0 ds" using can hd by (intro dval_ge) (auto simp: canonical_digits_def)
      have v: "unat (of_nat (dval 0 ds) :: u64) = dval 0 ds"
        using le by (simp add: unat_of_nat take_bit_eq_mod)
      then have "unat n = 2 ^ 64 - dval 0 ds" unfolding n
        using pos by (subst unat_uminus) auto
      moreover from this le have "\<not> unat n < 2 ^ 63" by simp
      ultimately show "key = zend_long_to_str n"
        using le pos can by (simp add: zend_long_to_str_eq key canonical_print)
    next
      assume printed: "key = zend_long_to_str n"
      have "hd (print_nat (unat n)) \<noteq> 45"
        using print_nat_props [of "unat n"] by (cases "print_nat (unat n)") (auto simp: digit_def)
      then have big: "2 ^ 63 \<le> unat n" and ds: "ds = print_nat (2 ^ 64 - unat n)"
        using printed by (auto simp: zend_long_to_str_eq key not_less split: if_splits)
          (metis list.sel(1))+
      have nz: "n \<noteq> 0" using big by auto
      have "- of_nat (2 ^ 64 - unat n) = n" using u by (simp add: of_nat_diff)
      then show "zend_handle_numeric_str key = Some n"
        unfolding key handle_numeric_neg ds
        using big u print_nat_props [of "2 ^ 64 - unat n"] print_nat_hd [of "2 ^ 64 - unat n"]
        by (auto simp del: of_nat_diff intro!: print_canonical)
    qed
  next
    case False
    have "zend_long_to_str n = key \<longleftrightarrow> unat n < 2 ^ 63 \<and> key = print_nat (unat n)"
      using False by (auto simp: zend_long_to_str_eq)
    moreover have "canonical_digits key \<and> dval 0 key < 2 ^ 63 \<and> n = of_nat (dval 0 key)
      \<longleftrightarrow> unat n < 2 ^ 63 \<and> key = print_nat (unat n)"
      using print_nat_props [of "unat n"] print_canonical [of "unat n"] canonical_print [of key]
      by (auto simp: unat_of_nat take_bit_eq_mod)
    ultimately show ?thesis using handle_numeric_nonneg [OF ne False, of n] by auto
  qed
qed

end
