(* ===== verification/ZendHash.thy ===== *)
theory ZendHash
  imports ZendString
begin

text \<open>
  The data model of the Zend hash table (\<open>Zend/zend_types.h\<close>, \<open>Zend/zend_hash.h\<close>) and its
  construction (\<open>Zend/zend_hash.c\<close>): a \<open>hashtable\<close> record with the fields of
  \<open>struct _zend_array\<close>, its hash part (\<open>arHash\<close>, the \<open>uint32_t\<close> array below the data address)
  and its data part, either buckets (\<open>arData\<close>) or bare zvals (\<open>arPacked\<close>). Both data parts
  have \<open>nTableSize\<close> cells when allocated; a cell never written since its allocation holds
  \<open>UNINIT\<close>, so that reads of uninitialised memory are visible in the model. The global
  state the operations touch is the record \<open>eg\<close>: the iterator table of the executor, the
  slots \<open>IS_INDIRECT\<close> values point to, the calls of the destructor and the balance of
  references taken on keys. A fatal error (\<open>zend_error_noreturn\<close>) is \<open>None\<close>.
\<close>

subsection \<open>Values, buckets, tables\<close>

datatype 'v zval = UNINIT | IS_UNDEF | IS_NULL | IS_INDIRECT nat | ZVAL 'v

record 'v bucket =
  bval :: "'v zval"
  bh :: u64
  bkey :: "zstr option"
  bnext :: nat

text \<open>
  Indices into the data part and counts stay below \<open>HT_MAX_SIZE\<close>, so they are natural
  numbers; table masks and hash values are words. The flags are the bits of \<open>u.v.flags\<close> and
  the byte \<open>u.v.nIteratorsCount\<close>; \<open>HT_FLAGS(ht) = f\<close> assigns the whole 32-bit \<open>u.flags\<close> and
  so clears the iterator count, whereas \<open>ht->u.v.flags = f\<close> keeps it.
\<close>

record 'v hashtable =
  ht_id :: nat
  gc_persistent :: bool
  f_packed :: bool
  f_uninitialized :: bool
  f_static_keys :: bool
  f_has_empty_ind :: bool
  nIteratorsCount :: u8
  nTableMask :: u32
  arHash :: "nat list"
  arData :: "'v bucket list"
  arPacked :: "'v zval list"
  nNumUsed :: nat
  nNumOfElements :: nat
  nTableSize :: nat
  nInternalPointer :: nat
  nNextFreeElement :: u64
  pDestructor :: bool

datatype iter_ht = NoTable | Poisoned | OfTable nat

record iterator =
  it_ht :: iter_ht
  it_pos :: nat
  it_next_copy :: nat

record 'v eg =
  ht_iterators :: "iterator list"
  ht_iterators_used :: nat
  ind_slots :: "nat \<Rightarrow> 'v zval"
  dtor_log :: "'v zval list"
  key_refs :: "zstr \<Rightarrow> int"

definition HT_INVALID_IDX :: nat where "HT_INVALID_IDX = 4294967295"
definition HT_MIN_MASK :: u32 where "HT_MIN_MASK = - 2"
definition HT_MIN_SIZE :: nat where "HT_MIN_SIZE = 8"
definition HT_MAX_SIZE :: nat where "HT_MAX_SIZE = 0x40000000"

definition HT_SIZE_TO_MASK :: "nat \<Rightarrow> u32" where
  "HT_SIZE_TO_MASK n = - (of_nat n + of_nat n)"

text \<open>\<open>HT_HASH_SIZE(mask) / sizeof(uint32_t)\<close>: the number of hash slots of a mask.\<close>

definition ht_slots :: "u32 \<Rightarrow> nat" where
  "ht_slots m = unat (- m)"

text \<open>
  \<open>nIndex = h | ht->nTableMask\<close>, truncated to \<open>uint32_t\<close>, read as a negative \<open>int32_t\<close> offset from
  the data address; the slots are numbered from the lowest address.
\<close>

definition nIndex :: "'v hashtable \<Rightarrow> u64 \<Rightarrow> u32" where
  "nIndex ht h = ucast h OR nTableMask ht"

definition slot_of :: "u32 \<Rightarrow> u32 \<Rightarrow> nat" where
  "slot_of m i = unat (i - m)"

definition HT_HASH :: "'v hashtable \<Rightarrow> u32 \<Rightarrow> nat" where
  "HT_HASH ht i = arHash ht ! slot_of (nTableMask ht) i"

definition set_HT_HASH :: "'v hashtable \<Rightarrow> u32 \<Rightarrow> nat \<Rightarrow> 'v hashtable" where
  "set_HT_HASH ht i v = ht\<lparr>arHash := (arHash ht)[slot_of (nTableMask ht) i := v]\<rparr>"

definition HT_HASH_RESET :: "'v hashtable \<Rightarrow> 'v hashtable" where
  "HT_HASH_RESET ht = ht\<lparr>arHash := replicate (ht_slots (nTableMask ht)) HT_INVALID_IDX\<rparr>"

definition HT_IS_WITHOUT_HOLES :: "'v hashtable \<Rightarrow> bool" where
  "HT_IS_WITHOUT_HOLES ht \<longleftrightarrow> nNumUsed ht = nNumOfElements ht"

definition HT_HAS_STATIC_KEYS_ONLY :: "'v hashtable \<Rightarrow> bool" where
  "HT_HAS_STATIC_KEYS_ONLY ht \<longleftrightarrow> f_packed ht \<or> f_static_keys ht"

definition HT_HAS_ITERATORS :: "'v hashtable \<Rightarrow> bool" where
  "HT_HAS_ITERATORS ht \<longleftrightarrow> nIteratorsCount ht \<noteq> 0"

definition HT_ITERATORS_OVERFLOW :: "'v hashtable \<Rightarrow> bool" where
  "HT_ITERATORS_OVERFLOW ht \<longleftrightarrow> nIteratorsCount ht = 255"

definition HT_INC_ITERATORS_COUNT :: "'v hashtable \<Rightarrow> 'v hashtable" where
  "HT_INC_ITERATORS_COUNT ht = ht\<lparr>nIteratorsCount := nIteratorsCount ht + 1\<rparr>"

definition HT_DEC_ITERATORS_COUNT :: "'v hashtable \<Rightarrow> 'v hashtable" where
  "HT_DEC_ITERATORS_COUNT ht = ht\<lparr>nIteratorsCount := nIteratorsCount ht - 1\<rparr>"

text \<open>Memory the allocator hands out: \<open>n\<close> cells that have not been written.\<close>

definition fresh_bucket :: "'v bucket" where
  "fresh_bucket = \<lparr>bval = UNINIT, bh = 0, bkey = None, bnext = 0\<rparr>"

abbreviation is_undef :: "'v zval \<Rightarrow> bool" where
  "is_undef v \<equiv> v = IS_UNDEF"

definition live :: "'v bucket \<Rightarrow> bool" where
  "live b \<longleftrightarrow> \<not> is_undef (bval b)"

text \<open>Reference counting of keys and calls of the destructor.\<close>

definition zend_string_addref :: "zstr \<Rightarrow> 'v eg \<Rightarrow> 'v eg" where
  "zend_string_addref s g =
     (if zs_interned s then g else g\<lparr>key_refs := (key_refs g)(s := key_refs g s + 1)\<rparr>)"

definition zend_string_release :: "zstr \<Rightarrow> 'v eg \<Rightarrow> 'v eg" where
  "zend_string_release s g =
     (if zs_interned s then g else g\<lparr>key_refs := (key_refs g)(s := key_refs g s - 1)\<rparr>)"

definition call_dtor :: "'v hashtable \<Rightarrow> 'v zval \<Rightarrow> 'v eg \<Rightarrow> 'v eg" where
  "call_dtor ht v g = (if pDestructor ht then g\<lparr>dtor_log := dtor_log g @ [v]\<rparr> else g)"

subsection \<open>Construction\<close>

text \<open>\<open>zend_hash_check_size\<close>, with the portable bit smearing.\<close>

definition zend_hash_check_size :: "u32 \<Rightarrow> nat option" where
  "zend_hash_check_size nSize =
     (if nSize \<le> of_nat HT_MIN_SIZE then Some HT_MIN_SIZE
      else if nSize > of_nat HT_MAX_SIZE then None
      else
        (let n = nSize - 1;
             n = n OR drop_bit 1 n;
             n = n OR drop_bit 2 n;
             n = n OR drop_bit 4 n;
             n = n OR drop_bit 8 n;
             n = n OR drop_bit 16 n
         in Some (unat (n + 1))))"

text \<open>
  The variant for compilers with \<open>__builtin_clz\<close>, the number of leading zero bits:
  \<open>0x2u << (__builtin_clz(nSize - 1) ^ 0x1f)\<close>.
\<close>

definition builtin_clz :: "u32 \<Rightarrow> nat" where
  "builtin_clz n = length (takeWhile (\<lambda>i. \<not> bit n i) (rev [0..<32]))"

definition zend_hash_check_size_clz :: "u32 \<Rightarrow> nat option" where
  "zend_hash_check_size_clz nSize =
     (if nSize \<le> of_nat HT_MIN_SIZE then Some HT_MIN_SIZE
      else if nSize > of_nat HT_MAX_SIZE then None
      else Some (unat (push_bit (xor (builtin_clz (nSize - 1)) 31) (2 :: u32))))"

definition zend_hash_real_init_packed_ex :: "'v hashtable \<Rightarrow> 'v hashtable" where
  "zend_hash_real_init_packed_ex ht =
     ht\<lparr>arPacked := replicate (nTableSize ht) UNINIT, arData := [],
        f_packed := True, f_uninitialized := False, f_static_keys := True, f_has_empty_ind := False,
        arHash := replicate 2 HT_INVALID_IDX\<rparr>"

text \<open>
  For a non-persistent table of the minimal size the flags byte alone is written
  (\<open>u.v.flags\<close>); otherwise \<open>HT_FLAGS(ht)\<close> is assigned and the iterator count is lost.
\<close>

definition zend_hash_real_init_mixed_ex :: "'v hashtable \<Rightarrow> 'v hashtable" where
  "zend_hash_real_init_mixed_ex ht =
     (let nSize = nTableSize ht;
          ht' = ht\<lparr>nTableMask := HT_SIZE_TO_MASK nSize,
                   arData := replicate nSize fresh_bucket, arPacked := [],
                   f_packed := False, f_uninitialized := False, f_static_keys := True,
                   f_has_empty_ind := False\<rparr>
      in if \<not> gc_persistent ht \<and> nSize = HT_MIN_SIZE
         then ht'\<lparr>arHash := replicate 16 HT_INVALID_IDX\<rparr>
         else HT_HASH_RESET (ht'\<lparr>nIteratorsCount := 0\<rparr>))"

definition zend_hash_real_init_ex :: "'v hashtable \<Rightarrow> bool \<Rightarrow> 'v hashtable" where
  "zend_hash_real_init_ex ht packed =
     (if packed then zend_hash_real_init_packed_ex ht else zend_hash_real_init_mixed_ex ht)"

definition zend_hash_real_init :: "'v hashtable \<Rightarrow> bool \<Rightarrow> 'v hashtable" where
  "zend_hash_real_init ht packed = zend_hash_real_init_ex ht packed"

definition zend_hash_real_init_packed :: "'v hashtable \<Rightarrow> 'v hashtable" where
  "zend_hash_real_init_packed ht = zend_hash_real_init_packed_ex ht"

definition zend_hash_real_init_mixed :: "'v hashtable \<Rightarrow> 'v hashtable" where
  "zend_hash_real_init_mixed ht = zend_hash_real_init_mixed_ex ht"

text \<open>\<open>uninitialized_bucket\<close> is the static hash part shared by all tables without data.\<close>

definition zend_hash_init_int :: "nat \<Rightarrow> u32 \<Rightarrow> bool \<Rightarrow> bool \<Rightarrow> 'v hashtable option" where
  "zend_hash_init_int i nSize dtor persistent = do {
     size \<leftarrow> zend_hash_check_size nSize;
     Some \<lparr>ht_id = i, gc_persistent = persistent, f_packed = False, f_uninitialized = True,
           f_static_keys = False, f_has_empty_ind = False, nIteratorsCount = 0,
           nTableMask = HT_MIN_MASK, arHash = replicate 2 HT_INVALID_IDX, arData = [], arPacked = [],
           nNumUsed = 0, nNumOfElements = 0, nTableSize = size, nInternalPointer = 0,
           nNextFreeElement = ZEND_LONG_MIN, pDestructor = dtor\<rparr> }"

definition zend_hash_init :: "nat \<Rightarrow> u32 \<Rightarrow> bool \<Rightarrow> bool \<Rightarrow> 'v hashtable option" where
  "zend_hash_init i nSize dtor persistent = zend_hash_init_int i nSize dtor persistent"

definition zend_new_array :: "nat \<Rightarrow> u32 \<Rightarrow> 'v hashtable option" where
  "zend_new_array i nSize = zend_hash_init_int i nSize True False"

definition zend_new_pair :: "nat \<Rightarrow> 'v zval \<Rightarrow> 'v zval \<Rightarrow> 'v hashtable option" where
  "zend_new_pair i val1 val2 = do {
     ht \<leftarrow> zend_hash_init_int i (of_nat HT_MIN_SIZE) True False;
     let ht = ht\<lparr>nNumUsed := 2, nNumOfElements := 2, nNextFreeElement := 2\<rparr>;
     let ht = zend_hash_real_init_packed_ex ht;
     Some (ht\<lparr>arPacked := (arPacked ht)[0 := val1, 1 := val2]\<rparr>) }"

text \<open>\<open>perealloc2\<close> copies the used part only; the cells above it are new memory.\<close>

definition realloc_packed :: "nat \<Rightarrow> 'v hashtable \<Rightarrow> 'v hashtable" where
  "realloc_packed newTableSize ht =
     ht\<lparr>arPacked := take (nNumUsed ht) (arPacked ht) @ replicate (newTableSize - nNumUsed ht) UNINIT,
        nTableSize := newTableSize\<rparr>"

definition zend_hash_packed_grow :: "'v hashtable \<Rightarrow> 'v hashtable option" where
  "zend_hash_packed_grow ht =
     (if nTableSize ht \<ge> HT_MAX_SIZE then None
      else Some (realloc_packed (nTableSize ht * 2) ht))"

definition zend_hash_to_packed :: "'v hashtable \<Rightarrow> 'v hashtable" where
  "zend_hash_to_packed ht =
     ht\<lparr>f_packed := True, f_static_keys := True, nTableMask := HT_MIN_MASK,
        arHash := replicate 2 HT_INVALID_IDX, arData := [],
        arPacked := map bval (take (nNumUsed ht) (arData ht)) @
                    replicate (nTableSize ht - nNumUsed ht) UNINIT\<rparr>"

subsection \<open>Rounding up to a power of two\<close>

lemma smear_step:
  fixes x n :: u32
  assumes "\<And>m. bit x m \<longleftrightarrow> (\<exists>d<k. bit n (m + d))"
  shows "bit (x OR drop_bit k x) m \<longleftrightarrow> (\<exists>d<2 * k. bit n (m + d))"
proof -
  have "(\<exists>d<2 * k. bit n (m + d)) \<longleftrightarrow> (\<exists>d<k. bit n (m + d)) \<or> (\<exists>d<k. bit n (m + k + d))"
  proof
    assume "\<exists>d<2 * k. bit n (m + d)"
    then obtain d where d: "d < 2 * k" "bit n (m + d)" by blast
    show "(\<exists>d<k. bit n (m + d)) \<or> (\<exists>d<k. bit n (m + k + d))"
    proof (cases "d < k")
      case False
      then have "m + k + (d - k) = m + d" "d - k < k" using d by auto
      with d show ?thesis by metis
    qed (use d in blast)
  next
    assume "(\<exists>d<k. bit n (m + d)) \<or> (\<exists>d<k. bit n (m + k + d))"
    then consider d where "d < k" "bit n (m + d)" | d where "d < k" "bit n (m + (k + d))"
      by (auto simp: add.assoc)
    then show "\<exists>d<2 * k. bit n (m + d)"
    proof cases
      case (1 d) then show ?thesis by (intro exI [of _ d]) auto
    next
      case (2 d) then show ?thesis by (intro exI [of _ "k + d"]) auto
    qed
  qed
  then show ?thesis by (simp add: bit_or_iff bit_drop_bit_eq assms add.commute add.left_commute)
qed

definition smear :: "u32 \<Rightarrow> u32" where
  "smear n =
     (let n = n OR drop_bit 1 n; n = n OR drop_bit 2 n; n = n OR drop_bit 4 n;
          n = n OR drop_bit 8 n in n OR drop_bit 16 n)"

lemma bit_smear: "bit (smear n) m \<longleftrightarrow> (\<exists>d<32. bit n (m + d))"
proof -
  define n1 where "n1 = n OR drop_bit 1 n"
  define n2 where "n2 = n1 OR drop_bit 2 n1"
  define n4 where "n4 = n2 OR drop_bit 4 n2"
  define n8 where "n8 = n4 OR drop_bit 8 n4"
  have "bit n1 m \<longleftrightarrow> (\<exists>d<2. bit n (m + d))" for m
    unfolding n1_def using smear_step [of n 1 n] by simp
  then have "bit n2 m \<longleftrightarrow> (\<exists>d<4. bit n (m + d))" for m
    unfolding n2_def using smear_step [of n1 2 n] by simp
  then have "bit n4 m \<longleftrightarrow> (\<exists>d<8. bit n (m + d))" for m
    unfolding n4_def using smear_step [of n2 4 n] by simp
  then have "bit n8 m \<longleftrightarrow> (\<exists>d<16. bit n (m + d))" for m
    unfolding n8_def using smear_step [of n4 8 n] by simp
  then have "bit (n8 OR drop_bit 16 n8) m \<longleftrightarrow> (\<exists>d<32. bit n (m + d))"
    using smear_step [of n8 16 n] by simp
  then show ?thesis by (simp only: smear_def Let_def n1_def n2_def n4_def n8_def)
qed

lemma bit_word_unat: "bit (n :: 'a::len word) j \<longleftrightarrow> odd (unat n div 2 ^ j)"
proof -
  have "bit (unat n) j = bit n j" by (simp add: bit_unsigned_iff)
  then show ?thesis by (simp add: bit_iff_odd [of "unat n"])
qed

lemma smear_eq_mask:
  assumes "2 ^ k \<le> unat n" and "unat n < 2 ^ Suc k" and "k < 32"
  shows "smear n = mask (Suc k)"
proof (rule bit_eqI)
  fix m assume "possible_bit TYPE(u32) m"
  have hi: "\<not> bit n j" if "k < j" for j
  proof -
    have "unat n < 2 ^ j" using assms(2) that
      by (meson Suc_leI order_less_le_trans one_le_numeral power_increasing)
    then show ?thesis by (simp add: bit_word_unat)
  qed
  have "unat n div 2 ^ k = 1" using assms(1,2)
    by (intro div_nat_eqI) auto
  then have top: "bit n k" by (simp add: bit_word_unat)
  have "(\<exists>d<32. bit n (m + d)) \<longleftrightarrow> m \<le> k"
  proof
    assume "m \<le> k" with top assms(3) show "\<exists>d<32. bit n (m + d)"
      by (intro exI [of _ "k - m"]) auto
  qed (use hi in \<open>metis le_add1 not_le order_trans\<close>)
  then show "bit (smear n) m \<longleftrightarrow> bit (mask (Suc k) :: u32) m"
    using assms(3) by (auto simp: bit_smear bit_mask_iff less_Suc_eq_le)
qed

lemma top_bit_exists:
  assumes "0 < unat (n :: u32)"
  obtains k where "2 ^ k \<le> unat n" "unat n < 2 ^ Suc k" "k < 32"
proof -
  obtain k where k: "2 ^ k \<le> unat n" "unat n < 2 ^ (k + 1)"
    using ex_power_ivl1 [of 2 "unat n"] assms by auto
  have "(2::nat) ^ k < 2 ^ 32" using k(1) unat_bounded [of n] by simp
  then have "k < 32" by (rule power_less_imp_less_exp [rotated]) simp
  with k that show thesis by simp
qed

lemma takeWhile_rev_upt:
  assumes "k < n" and "P k" and "\<And>j. k < j \<Longrightarrow> \<not> P j"
  shows "length (takeWhile (\<lambda>i. \<not> P i) (rev [0..<n])) = n - Suc k"
  using assms(1)
proof (induction n)
  case (Suc n)
  show ?case
  proof (cases "k = n")
    case True
    then show ?thesis using assms(2) by simp
  next
    case False
    then have "k < n" using Suc.prems by simp
    then show ?thesis using Suc.IH assms(3) [of n] by simp
  qed
qed simp

lemma builtin_clz_eq:
  assumes "2 ^ k \<le> unat n" and "unat n < 2 ^ Suc k" and "k < 32"
  shows "builtin_clz n = 31 - k"
proof -
  have "unat n div 2 ^ k = 1" using assms(1,2) by (intro div_nat_eqI) auto
  then have "bit n k" by (simp add: bit_word_unat)
  moreover have "\<not> bit n j" if "k < j" for j
  proof -
    have "unat n < 2 ^ j" using assms(2) that
      by (meson Suc_leI order_less_le_trans one_le_numeral power_increasing)
    then show ?thesis by (simp add: bit_word_unat)
  qed
  ultimately show ?thesis unfolding builtin_clz_def
    using takeWhile_rev_upt [of k 32 "bit n"] assms(3) by simp
qed

lemma xor_31: "c < 32 \<Longrightarrow> xor c 31 = 31 - (c :: nat)"
proof -
  have "\<forall>c\<in>{..<32::nat}. xor c 31 = 31 - c" by code_simp
  then show "c < 32 \<Longrightarrow> xor c 31 = 31 - c" by simp
qed

lemma check_size_middle:
  assumes "\<not> nSize \<le> of_nat HT_MIN_SIZE" and "\<not> nSize > of_nat HT_MAX_SIZE"
  obtains k where "2 ^ k < unat nSize" "unat nSize \<le> 2 ^ Suc k" "3 \<le> k" "k < 30"
    "zend_hash_check_size nSize = Some (2 ^ Suc k)"
    "zend_hash_check_size_clz nSize = Some (2 ^ Suc k)"
proof -
  have b: "8 < unat nSize" "unat nSize \<le> 2 ^ 30"
    using assms by (simp_all add: word_le_nat_alt word_less_nat_alt HT_MIN_SIZE_def HT_MAX_SIZE_def)
  then have m: "unat (nSize - 1) = unat nSize - 1" by (intro unat_minus_one) auto
  then obtain k where k: "2 ^ k \<le> unat (nSize - 1)" "unat (nSize - 1) < 2 ^ Suc k" "k < 32"
    using top_bit_exists [of "nSize - 1"] b by auto
  have "(2::nat) ^ 3 < 2 ^ Suc k" using k(2) b m by simp
  then have "3 < Suc k" by (rule power_less_imp_less_exp [rotated]) simp
  moreover have "(2::nat) ^ k < 2 ^ 30" using k(1) b m by simp
  then have "k < 30" by (rule power_less_imp_less_exp [rotated]) simp
  moreover have "smear (nSize - 1) + 1 = 2 ^ Suc k"
    unfolding smear_eq_mask [OF k] by (simp add: mask_eq_exp_minus_1)
  moreover have "unat (2 ^ Suc k :: u32) = 2 ^ Suc k"
    using \<open>k < 30\<close> by (intro unat_pow2) simp
  moreover have "push_bit k (2 :: u32) = 2 ^ Suc k" by (simp add: push_bit_eq_mult)
  moreover have "xor (builtin_clz (nSize - 1)) 31 = k"
    using \<open>k < 32\<close> by (simp add: builtin_clz_eq [OF k] xor_31)
  ultimately show thesis
    using assms k b m
    by (intro that [of k])
      (simp_all add: zend_hash_check_size_def zend_hash_check_size_clz_def Let_def smear_def)
qed

end
