(* ===== verification/ZendHashRehash.thy ===== *)
theory ZendHashRehash
  imports ZendHashInv
begin

text \<open>
  Correctness of \<open>zend_hash_rehash\<close>, \<open>zend_hash_do_resize\<close>, \<open>zend_hash_extend\<close> and
  \<open>zend_hash_packed_to_hash\<close>: the rebuilt table is well formed, keeps the elements in their
  order, and has no holes left; the loop migrating iterator positions terminates.
\<close>

lemma ht_slots_size_to_mask:
  assumes "n \<le> HT_MAX_SIZE"
  shows "ht_slots (HT_SIZE_TO_MASK n) = 2 * n"
proof -
  have "(of_nat n + of_nat n :: u32) = of_nat (2 * n)" by simp
  then have "ht_slots (HT_SIZE_TO_MASK n) = unat (of_nat (2 * n) :: u32)"
    by (simp add: ht_slots_def HT_SIZE_TO_MASK_def)
  also have "\<dots> = 2 * n"
    using assms by (simp add: unat_of_nat take_bit_eq_mod HT_MAX_SIZE_def del: of_nat_mult)
  finally show ?thesis .
qed

lemma ht_slots_min_mask [simp]: "ht_slots HT_MIN_MASK = 2"
  by (simp add: ht_slots_def HT_MIN_MASK_def)

lemma ht_slots_pos: "0 < ht_slots m \<Longrightarrow> m \<noteq> 0"
  by (auto simp: ht_slots_def)

lemma mask_nonzero: "0 < n \<Longrightarrow> n \<le> HT_MAX_SIZE \<Longrightarrow> HT_SIZE_TO_MASK n \<noteq> 0"
  by (rule ht_slots_pos) (simp add: ht_slots_size_to_mask)

lemma min_mask_nonzero [simp]: "HT_MIN_MASK \<noteq> 0"
  by (simp add: HT_MIN_MASK_def)

lemma sizes_okD:
  assumes "sizes_ok ht"
  shows "8 \<le> nTableSize ht" "nTableSize ht \<le> HT_MAX_SIZE" "nNumUsed ht \<le> nTableSize ht"
    "nNumUsed ht < HT_INVALID_IDX"
proof -
  obtain k where k: "3 \<le> k" "k \<le> 30" "nTableSize ht = 2 ^ k" "nNumUsed ht \<le> nTableSize ht"
    using assms by (auto simp: sizes_ok_def)
  have "(8::nat) \<le> 2 ^ k" "(2::nat) ^ k \<le> 1073741824"
    using power_increasing [of 3 k "2::nat"] power_increasing [of k 30 "2::nat"] k(1,2)
    by (simp_all del: power_increasing_iff)
  then show "8 \<le> nTableSize ht" "nTableSize ht \<le> HT_MAX_SIZE" "nNumUsed ht \<le> nTableSize ht"
    "nNumUsed ht < HT_INVALID_IDX"
    using k by (auto simp: HT_MAX_SIZE_def HT_INVALID_IDX_def)
qed

subsection \<open>Linking and moving one bucket\<close>

lemma link_bucket_eq:
  "link_bucket i ht =
     ht\<lparr>arHash := (arHash ht)[bslot (nTableMask ht) (arData ht ! i) := i],
        arData := (arData ht)[i := (arData ht ! i)
                    \<lparr>bnext := arHash ht ! bslot (nTableMask ht) (arData ht ! i)\<rparr>]\<rparr>"
  by (simp add: link_bucket_def set_HT_HASH_def HT_HASH_def bslot_def nIndex_def Let_def)

lemma link_bucket_linked:
  assumes "linked (nTableMask ht) (arHash ht) (arData ht) i" and "live (arData ht ! i)"
    and "i < length (arData ht)" and "\<And>b :: 'v bucket. bslot (nTableMask ht) b < length (arHash ht)"
  shows "linked (nTableMask ht) (arHash (link_bucket i ht)) (arData (link_bucket i (ht :: 'v hashtable))) (Suc i)"
  using linked_link [OF assms(1-3) assms(4), of "(arData ht ! i)\<lparr>bnext := _\<rparr>"]
  by (simp add: link_bucket_eq)

lemma map_payload_update:
  assumes "payload b = payload (bs ! i)"
  shows "map payload (bs[i := b]) = map payload bs"
proof (cases "i < length bs")
  case True
  then show ?thesis using assms by (simp add: map_update) (metis list_update_id nth_map)
qed (simp add: list_update_beyond)

definition relinked :: "'v hashtable \<Rightarrow> 'v hashtable \<Rightarrow> bool" where
  "relinked ht ht' \<longleftrightarrow>
     (\<exists>hs bs. ht' = ht\<lparr>arHash := hs, arData := bs\<rparr> \<and> length hs = length (arHash ht) \<and>
              map payload bs = map payload (arData ht))"

lemma relinked_refl [simp]: "relinked ht ht"
  by (auto simp: relinked_def intro!: exI [of _ "arHash ht"] exI [of _ "arData ht"])

lemma relinked_trans:
  assumes "relinked a b" and "relinked b c"
  shows "relinked a c"
proof -
  obtain hs bs where c: "c = b\<lparr>arHash := hs, arData := bs\<rparr>" "length hs = length (arHash b)"
    "map payload bs = map payload (arData b)"
    using assms(2) by (auto simp: relinked_def)
  show ?thesis unfolding relinked_def
    by (rule exI [of _ hs], rule exI [of _ bs]) (use c assms(1) in \<open>auto simp: relinked_def\<close>)
qed

lemma relinked_link_bucket: "relinked ht (link_bucket i ht)"
  unfolding relinked_def link_bucket_eq
  by (intro exI [of _ "_ [_ := _]"] exI conjI, rule refl, simp, rule map_payload_update, simp)

lemma relinkedD:
  assumes "relinked ht ht'"
  shows "nTableMask ht' = nTableMask ht" "nNumUsed ht' = nNumUsed ht"
    "length (arHash ht') = length (arHash ht)" "length (arData ht') = length (arData ht)"
    "map payload (arData ht') = map payload (arData ht)"
    "nInternalPointer ht' = nInternalPointer ht" "nIteratorsCount ht' = nIteratorsCount ht"
    "ht_id ht' = ht_id ht"
  using assms by (auto simp: relinked_def dest: map_eq_imp_length_eq)

lemma payload_nth:
  "map payload bs = map payload bs' \<Longrightarrow> i < length bs \<Longrightarrow> payload (bs ! i) = payload (bs' ! i)"
  by (metis length_map nth_map)

subsection \<open>Rebuilding without holes\<close>

lemma fold_link_bucket:
  fixes ht :: "'v hashtable"
  assumes "linked (nTableMask ht) (arHash ht) (arData ht) 0"
    and "n \<le> length (arData ht)" and "\<And>i. i < n \<Longrightarrow> live (arData ht ! i)"
    and "\<And>b :: 'v bucket. bslot (nTableMask ht) b < length (arHash ht)"
  shows "relinked ht (fold link_bucket [0..<n] ht) \<and>
    linked (nTableMask ht) (arHash (fold link_bucket [0..<n] ht))
      (arData (fold link_bucket [0..<n] ht)) n"
proof (rule fold_upt_invariant [where I = "\<lambda>i t. relinked ht t \<and>
    linked (nTableMask ht) (arHash t) (arData t) i"])
  show "relinked ht ht \<and> linked (nTableMask ht) (arHash ht) (arData ht) 0"
    using assms(1) by simp
next
  fix i and t :: "'v hashtable"
  assume i: "i < n" and t: "relinked ht t \<and> linked (nTableMask ht) (arHash t) (arData t) i"
  note f = relinkedD [OF conjunct1 [OF t]]
  have live: "live (arData t ! i)"
    using payload_eqD(1) [OF payload_nth [OF f(5), of i]] i assms(2,3) f(4) by simp
  have "linked (nTableMask t) (arHash (link_bucket i t)) (arData (link_bucket i t)) (Suc i)"
    using t i assms(2,4) f by (intro link_bucket_linked live) auto
  then show "relinked ht (link_bucket i t) \<and>
    linked (nTableMask ht) (arHash (link_bucket i t)) (arData (link_bucket i t)) (Suc i)"
    using t f(1) by (auto intro: relinked_trans relinked_link_bucket)
qed

subsection \<open>Compaction\<close>

lemma move_bucket_eq:
  "move_bucket i j ht =
     (let b = (arData ht ! j)\<lparr>bval := bval (arData ht ! i), bh := bh (arData ht ! i),
                bkey := bkey (arData ht ! i)\<rparr>
      in (link_bucket j (ht\<lparr>arData := (arData ht)[j := b]\<rparr>))
           \<lparr>nInternalPointer := (if nInternalPointer ht = i then j else nInternalPointer ht)\<rparr>)"
  by (simp add: move_bucket_def Let_def link_bucket_eq)

definition moved :: "'v hashtable \<Rightarrow> 'v hashtable \<Rightarrow> bool" where
  "moved ht ht' \<longleftrightarrow>
     (\<exists>hs bs p. ht' = ht\<lparr>arHash := hs, arData := bs, nInternalPointer := p\<rparr> \<and>
        length hs = length (arHash ht) \<and> length bs = length (arData ht))"

lemma moved_refl [simp]: "moved ht ht"
  by (auto simp: moved_def intro!: exI [of _ "arHash ht"] exI [of _ "arData ht"]
      exI [of _ "nInternalPointer ht"])

lemma moved_trans:
  assumes "moved a b" and "moved b c"
  shows "moved a c"
proof -
  obtain hs bs p where c: "c = b\<lparr>arHash := hs, arData := bs, nInternalPointer := p\<rparr>"
    "length hs = length (arHash b)" "length bs = length (arData b)"
    using assms(2) by (auto simp: moved_def)
  show ?thesis unfolding moved_def
    by (rule exI [of _ hs], rule exI [of _ bs], rule exI [of _ p])
      (use c assms(1) in \<open>auto simp: moved_def\<close>)
qed

lemma movedD:
  assumes "moved ht ht'"
  shows "nTableMask ht' = nTableMask ht" "nNumUsed ht' = nNumUsed ht"
    "length (arHash ht') = length (arHash ht)" "length (arData ht') = length (arData ht)"
    "nIteratorsCount ht' = nIteratorsCount ht" "ht_id ht' = ht_id ht"
  using assms by (auto simp: moved_def)

lemma movedI:
  "ht' = ht\<lparr>arHash := arHash ht', arData := arData ht', nInternalPointer := nInternalPointer ht'\<rparr> \<Longrightarrow>
   length (arHash ht') = length (arHash ht) \<Longrightarrow> length (arData ht') = length (arData ht) \<Longrightarrow> moved ht ht'"
  unfolding moved_def by blast

lemma moved_link_bucket: "moved ht (link_bucket i ht)"
  by (rule movedI) (simp_all add: link_bucket_eq)

lemma moved_move_bucket: "moved ht (move_bucket i j ht)"
  by (rule movedI) (simp_all add: link_bucket_eq move_bucket_eq Let_def)

lemma relinked_moved: "relinked ht ht' \<Longrightarrow> moved ht ht'"
  by (rule movedI) (auto simp: relinked_def dest: map_eq_imp_length_eq)

text \<open>One step of the compaction, \<open>j \<le> i\<close>: the first \<open>j\<close> buckets grow by the bucket \<open>i\<close>.\<close>

lemma move_bucket_step:
  fixes ht :: "'v hashtable"
  assumes "linked (nTableMask ht) (arHash ht) (arData ht) j" and "live (arData ht ! i)"
    and "j \<le> i" and "i < length (arData ht)"
    and "\<And>b :: 'v bucket. bslot (nTableMask ht) b < length (arHash ht)"
  shows "linked (nTableMask ht) (arHash (move_bucket i j ht)) (arData (move_bucket i j ht)) (Suc j)"
    and "map payload (take (Suc j) (arData (move_bucket i j ht))) =
         map payload (take j (arData ht)) @ [payload (arData ht ! i)]"
    and "drop (Suc i) (arData (move_bucket i j ht)) = drop (Suc i) (arData ht)"
proof -
  let ?b = "(arData ht ! j)\<lparr>bval := bval (arData ht ! i), bh := bh (arData ht ! i),
                bkey := bkey (arData ht ! i)\<rparr>"
  let ?ht = "ht\<lparr>arData := (arData ht)[j := ?b]\<rparr>"
  have b: "payload ?b = payload (arData ht ! i)" by (simp add: payload_def)
  have "linked (nTableMask ?ht) (arHash ?ht) (arData ?ht) j"
    using assms(1) by simp (erule linked_cong, simp)
  moreover have "live (arData ?ht ! j)" using assms payload_eqD(1) [OF b] by simp
  ultimately have "linked (nTableMask ?ht) (arHash (link_bucket j ?ht)) (arData (link_bucket j ?ht)) (Suc j)"
    using assms by (intro link_bucket_linked) simp_all
  then show "linked (nTableMask ht) (arHash (move_bucket i j ht)) (arData (move_bucket i j ht)) (Suc j)"
    by (simp add: move_bucket_eq Let_def)
  show "map payload (take (Suc j) (arData (move_bucket i j ht))) =
         map payload (take j (arData ht)) @ [payload (arData ht ! i)]"
    using assms by (simp add: move_bucket_eq link_bucket_eq Let_def take_Suc_update payload_def)
  show "drop (Suc i) (arData (move_bucket i j ht)) = drop (Suc i) (arData ht)"
    using assms(3) by (simp add: move_bucket_eq link_bucket_eq Let_def)
qed

lemma take_Suc_map_payload:
  "i < length bs \<Longrightarrow> filter live (drop i (take n bs)) =
     (if i < n \<and> live (bs ! i) then [bs ! i] else []) @ filter live (drop (Suc i) (take n bs))"
proof (cases "i < n")
  case True
  assume "i < length bs"
  then have "drop i (take n bs) = bs ! i # drop (Suc i) (take n bs)"
    using True by (metis Cons_nth_drop_Suc length_take min_less_iff_conj nth_take)
  then show ?thesis using True by simp
qed simp

text \<open>
  The compaction without iterators: the new buckets are the already compacted ones followed
  by the live ones after \<open>i\<close>.
\<close>

lemma rehash_compact_correct:
  fixes ht :: "'v hashtable"
  assumes "rehash_compact i j ht = (j', ht')"
    and "linked (nTableMask ht) (arHash ht) (arData ht) j"
    and "j \<le> i" and "i < nNumUsed ht" and "nNumUsed ht \<le> length (arData ht)"
    and "\<And>b :: 'v bucket. bslot (nTableMask ht) b < length (arHash ht)"
  shows "moved ht ht' \<and> linked (nTableMask ht) (arHash ht') (arData ht') j' \<and> j' < nNumUsed ht \<and>
    map payload (take j' (arData ht')) = map payload (take j (arData ht)) @
      map payload (filter live (drop (Suc i) (take (nNumUsed ht) (arData ht))))"
  using assms
proof (induction i j ht rule: rehash_compact.induct)
  case (1 i j ht)
  show ?case
  proof (cases "Suc i < nNumUsed ht")
    case False
    then have "j' = j" "ht' = ht" using "1.prems"(1) by (auto simp: rehash_compact.simps [of i j ht])
    then show ?thesis using False "1.prems" by simp
  next
    case True
    note split = take_Suc_map_payload [of "Suc i" "arData ht" "nNumUsed ht"]
    show ?thesis
    proof (cases "live (arData ht ! Suc i)")
      case live: False
      have "rehash_compact (Suc i) j ht = (j', ht')"
        using "1.prems"(1) True live by (simp add: rehash_compact.simps [of i j ht])
      then show ?thesis using "1.IH"(2) [of "Suc i"] "1.prems" True live split by simp
    next
      case live: True
      let ?ht = "move_bucket (Suc i) j ht"
      note m = movedD [OF moved_move_bucket [of ht "Suc i" j]]
      note step = move_bucket_step [OF "1.prems"(2) live, OF _ _ "1.prems"(6)]
      have r: "rehash_compact (Suc i) (Suc j) ?ht = (j', ht')"
        using "1.prems"(1) True live by (simp add: rehash_compact.simps [of i j ht])
      have "moved ?ht ht' \<and> linked (nTableMask ?ht) (arHash ht') (arData ht') j' \<and>
        j' < nNumUsed ?ht \<and>
        map payload (take j' (arData ht')) = map payload (take (Suc j) (arData ?ht)) @
          map payload (filter live (drop (Suc (Suc i)) (take (nNumUsed ?ht) (arData ?ht))))"
        using "1.IH"(1) [of "Suc i"] "1.prems" True live r step(1) by (simp add: m)
      moreover have "drop (Suc (Suc i)) (take (nNumUsed ht) (arData ?ht)) =
          drop (Suc (Suc i)) (take (nNumUsed ht) (arData ht))"
        using step(3) "1.prems" True by (simp add: drop_take)
      ultimately show ?thesis
        using step(2) "1.prems" True live split moved_trans [OF moved_move_bucket] m by auto
    qed
  qed
qed

subsection \<open>Migrating iterators\<close>

lemma lower_pos_fold:
  "fold (\<lambda>it res. if it_ht it = t then (if it_pos it \<ge> start \<and> it_pos it < res then it_pos it else res)
                  else res) its r = r \<or>
   (start \<le> fold (\<lambda>it res. if it_ht it = t then
        (if it_pos it \<ge> start \<and> it_pos it < res then it_pos it else res) else res) its r \<and>
    fold (\<lambda>it res. if it_ht it = t then
        (if it_pos it \<ge> start \<and> it_pos it < res then it_pos it else res) else res) its r < r)"
proof (induction its arbitrary: r)
  case (Cons it its)
  show ?case using Cons.IH [of r] Cons.IH [of "it_pos it"] by (auto simp: not_le)
qed simp

lemma lower_pos_cases:
  "zend_hash_iterators_lower_pos g ht start = nNumUsed ht \<or>
   start \<le> zend_hash_iterators_lower_pos g ht start \<and> zend_hash_iterators_lower_pos g ht start < nNumUsed ht"
  unfolding zend_hash_iterators_lower_pos_def using lower_pos_fold by blast

lemma migrate_iterators_returns:
  "i < nNumUsed ht \<Longrightarrow> \<exists>g' p'. migrate_iterators ht i j p g = Some (g', p') \<and> i \<le> p'"
proof (induction "i - p" arbitrary: p g rule: less_induct)
  case less
  let ?g = "zend_hash_iterators_update ht p j g"
  let ?p = "zend_hash_iterators_lower_pos ?g ht (p + 1)"
  show ?case
  proof (cases "?p < i")
    case False
    then show ?thesis by (subst migrate_iterators.simps) (simp add: Let_def)
  next
    case True
    then have "p < ?p" using lower_pos_cases [of ?g ht "p + 1"] less.prems by auto
    then have "i - ?p < i - p" using True by simp
    then obtain g' p' where "migrate_iterators ht i j ?p ?g = Some (g', p')" "i \<le> p'"
      using less.hyps less.prems by blast
    then show ?thesis using True by (subst migrate_iterators.simps) (simp add: Let_def)
  qed
qed

lemma rehash_compact_iter_eq:
  "\<exists>g'. rehash_compact_iter i j p g ht =
     Some (fst (rehash_compact i j ht), g', snd (rehash_compact i j ht))"
proof (induction i j ht arbitrary: p g rule: rehash_compact.induct)
  case (1 i j ht)
  show ?case
  proof (cases "Suc i < nNumUsed ht \<and> live (arData ht ! Suc i)")
    case True
    let ?ht = "move_bucket (Suc i) j ht"
    have eq: "rehash_compact i j ht = rehash_compact (Suc i) (Suc j) ?ht"
      using True by (simp add: rehash_compact.simps [of i j ht])
    note IH = "1.IH"(1) [of "Suc i"]
    show ?thesis
    proof (cases "p \<le> Suc i")
      case le: True
      obtain g' p' where "migrate_iterators ?ht (Suc i) j p g = Some (g', p')"
        using migrate_iterators_returns [of "Suc i" ?ht j p g] True by auto
      then show ?thesis using True le IH [of p' g'] eq
        by (simp add: rehash_compact_iter.simps [of i j p g ht] Let_def)
    next
      case gt: False
      then show ?thesis using True IH [of p g] eq
        by (simp add: rehash_compact_iter.simps [of i j p g ht] Let_def)
    qed
  next
    case False
    then show ?thesis using "1.IH"(2) [of "Suc i" p g]
      by (auto simp: rehash_compact_iter.simps [of i j p g ht] rehash_compact.simps [of i j ht])
  qed
qed

subsection \<open>The whole rehash\<close>

text \<open>The scan before the first hole keeps the buckets below \<open>i\<close> linked.\<close>

lemma rehash_scan_correct:
  fixes ht :: "'v hashtable"
  assumes "linked (nTableMask ht) (arHash ht) (arData ht) i" and "i \<le> nNumUsed ht"
    and "nNumUsed ht \<le> length (arData ht)"
    and "\<And>b :: 'v bucket. bslot (nTableMask ht) b < length (arHash ht)"
    and "\<forall>k<i. live (arData ht ! k)"
  shows "\<exists>g' j ht'. rehash_scan i g ht = Some (g', ht'\<lparr>nNumUsed := j\<rparr>) \<and> moved ht ht' \<and>
    linked (nTableMask ht) (arHash ht') (arData ht') j \<and> j \<le> nNumUsed ht \<and>
    map payload (take j (arData ht')) = map payload (filter live (take (nNumUsed ht) (arData ht)))"
  using assms
proof (induction i g ht rule: rehash_scan.induct)
  case (1 i g ht)
  have prefix: "filter live (take i (arData ht)) = take i (arData ht)"
    using "1.prems"(2,3,5) by (auto simp: filter_id_conv in_set_conv_nth)
  have parts: "filter live (take (nNumUsed ht) (arData ht)) =
    take i (arData ht) @ filter live (drop i (take (nNumUsed ht) (arData ht)))"
    using "1.prems"(2) prefix
    by (metis append_take_drop_id filter_append min.absorb1 take_take)
  show ?case
  proof (cases "i < nNumUsed ht")
    case False
    then have "nNumUsed ht = i" using "1.prems"(2) by simp
    then show ?thesis using "1.prems"(1) parts prefix
      by (subst rehash_scan.simps)
        (auto intro!: exI [of _ ht] exI [of _ i] simp: hashtable.equality)
  next
    case used: True
    show ?thesis
    proof (cases "live (arData ht ! i)")
      case True
      let ?ht = "link_bucket i ht"
      note m = movedD [OF moved_link_bucket [of ht i]]
      note r = relinkedD [OF relinked_link_bucket [of ht i]]
      have lin: "linked (nTableMask ht) (arHash ?ht) (arData ?ht) (Suc i)"
        using "1.prems" used True by (intro link_bucket_linked) auto
      have lv: "\<forall>k<Suc i. live (arData ?ht ! k)"
        using payload_eqD(1) [OF payload_nth [OF r(5)]] "1.prems" used True by (auto simp: less_Suc_eq)
      have "map payload (filter live (take (nNumUsed ht) (arData ?ht))) =
          map payload (filter live (take (nNumUsed ht) (arData ht)))"
        using r(5) by (simp add: map_payload_filter_live flip: take_map)
      then obtain g' j ht' where
        "rehash_scan (Suc i) g ?ht = Some (g', ht'\<lparr>nNumUsed := j\<rparr>)" "moved ?ht ht'"
        "linked (nTableMask ht) (arHash ht') (arData ht') j" "j \<le> nNumUsed ht"
        "map payload (take j (arData ht')) = map payload (filter live (take (nNumUsed ht) (arData ht)))"
        using "1.IH" [OF used True] "1.prems" used lin lv by (auto simp: m)
      moreover have "moved ht ht'" using moved_trans [OF moved_link_bucket] calculation(2) by blast
      ultimately show ?thesis using used True by (subst rehash_scan.simps) auto
    next
      case False
      obtain j ht' where c: "rehash_compact i i ht = (j, ht')" by (cases "rehash_compact i i ht")
      note spec = rehash_compact_correct [OF c "1.prems"(1) order_refl used "1.prems"(3,4)]
      have "filter live (drop i (take (nNumUsed ht) (arData ht))) =
          filter live (drop (Suc i) (take (nNumUsed ht) (arData ht)))"
        using take_Suc_map_payload [of i "arData ht" "nNumUsed ht"] False used "1.prems"(3) by simp
      then have content: "map payload (take j (arData ht')) =
          map payload (filter live (take (nNumUsed ht) (arData ht)))"
        using spec parts by simp
      obtain g1 where "rehash_compact_iter i i (zend_hash_iterators_lower_pos g ht (i + 1)) g ht =
          Some (j, g1, ht')"
        using c rehash_compact_iter_eq [of i i "zend_hash_iterators_lower_pos g ht (i + 1)" g ht] by auto
      then have "\<exists>g'. rehash_scan i g ht = Some (g', ht'\<lparr>nNumUsed := j\<rparr>)"
        using used False c by (cases "HT_HAS_ITERATORS ht") (simp_all add: rehash_scan.simps [of i g ht])
      then obtain g' where "rehash_scan i g ht = Some (g', ht'\<lparr>nNumUsed := j\<rparr>)" by blast
      with spec content show ?thesis by (meson less_imp_le)
    qed
  qed
qed

lemma mixed_shapeD:
  assumes "mixed_shape ht"
  shows "\<not> f_packed ht" "nTableMask ht = HT_SIZE_TO_MASK (nTableSize ht)"
    "length (arHash ht) = ht_slots (nTableMask ht)" "length (arData ht) = nTableSize ht"
    "arPacked ht = []" "nNumOfElements ht = length (live_buckets ht)"
    "keys_ok (take (nNumUsed ht) (arData ht))" "distinct (map bucket_key (live_buckets ht))"
    "f_static_keys ht \<Longrightarrow> static_ok (take (nNumUsed ht) (arData ht))"
  using assms by (auto simp: mixed_shape_def)

lemma mixed_shape_count:
  assumes "mixed_shape ht"
  shows "nNumOfElements ht \<le> nNumUsed ht"
proof -
  have "length (live_buckets ht) \<le> length (take (nNumUsed ht) (arData ht))"
    unfolding live_buckets_def by (rule length_filter_le)
  then show ?thesis using mixed_shapeD(6) [OF assms] by simp
qed

lemma mixed_bslot_bound:
  assumes "sizes_ok ht" and "mixed_shape ht"
  shows "bslot (nTableMask ht) b < length (arHash ht)"
proof -
  have "nTableMask ht \<noteq> 0"
    using sizes_okD [OF assms(1)] mixed_shapeD(2) [OF assms(2)] by (simp add: mask_nonzero)
  then show ?thesis using mixed_shapeD(3) [OF assms(2)] by (simp add: bslot_bound)
qed

text \<open>What a rehash may change, and the table it leaves.\<close>

definition rehashed :: "'v hashtable \<Rightarrow> 'v hashtable \<Rightarrow> bool" where
  "rehashed ht ht' \<longleftrightarrow>
     (\<exists>ht1. moved ht ht1 \<and> ht' = ht1\<lparr>nNumUsed := nNumOfElements ht\<rparr>) \<and>
     linked (nTableMask ht') (arHash ht') (arData ht') (nNumUsed ht') \<and>
     map payload (take (nNumUsed ht') (arData ht')) = map payload (live_buckets ht)"

lemma HT_HASH_RESET_linked:
  "linked m (arHash (HT_HASH_RESET ht)) bs 0"
  by (simp add: HT_HASH_RESET_def linked_init)

lemma zend_hash_rehash_correct:
  fixes ht :: "'v hashtable"
  assumes "sizes_ok ht" and "mixed_shape ht" and "\<not> f_uninitialized ht"
  shows "\<exists>g' ht'. zend_hash_rehash g ht = Some (g', ht') \<and> rehashed ht ht'"
proof -
  let ?ht = "HT_HASH_RESET ht"
  note D = mixed_shapeD [OF assms(2)] and S = sizes_okD [OF assms(1)]
  have reset: "moved ht ?ht" using D(3) by (intro movedI) (simp_all add: HT_HASH_RESET_def)
  have lin0: "linked (nTableMask ht) (arHash ?ht) (arData ht) 0" by (rule HT_HASH_RESET_linked)
  have same: "arData ?ht = arData ht" "nNumUsed ?ht = nNumUsed ht" "nTableMask ?ht = nTableMask ht"
    "nNumOfElements ?ht = nNumOfElements ht" "length (arHash ?ht) = length (arHash ht)"
    using D(3) by (simp_all add: HT_HASH_RESET_def)
  have bound: "bslot (nTableMask ht) b < length (arHash ht)" for b :: "'v bucket"
    using assms(1,2) by (rule mixed_bslot_bound)
  consider "nNumOfElements ht = 0" | "nNumOfElements ht \<noteq> 0" "HT_IS_WITHOUT_HOLES ?ht"
    | "nNumOfElements ht \<noteq> 0" "\<not> HT_IS_WITHOUT_HOLES ?ht" by blast
  then show ?thesis
  proof cases
    case 1
    have "rehashed ht (HT_HASH_RESET (ht\<lparr>nNumUsed := 0\<rparr>))"
      unfolding rehashed_def using 1 D(6) reset
      by (auto simp: HT_HASH_RESET_def linked_init intro!: exI [of _ ?ht])
    then show ?thesis using 1 assms(3) by (simp add: zend_hash_rehash_def)
  next
    case 2
    have n: "nNumUsed ht = nNumOfElements ht" using 2(2) by (simp add: HT_IS_WITHOUT_HOLES_def same)
    then have all: "live_buckets ht = take (nNumUsed ht) (arData ht)"
      unfolding live_buckets_def using D(4,6) S(3)
      by (metis filter_id_conv length_filter_less length_take live_buckets_def min.absorb2 order_less_irrefl)
    have "live (arData ht ! i)" if "i < nNumUsed ht" for i
    proof -
      have "arData ht ! i \<in> set (take (nNumUsed ht) (arData ht))"
        using that D(4) S(3) by (auto simp: in_set_conv_nth intro!: exI [of _ i])
      then show ?thesis using all unfolding live_buckets_def by (metis filter_id_conv)
    qed
    then have f: "relinked ?ht (fold link_bucket [0..<nNumUsed ht] ?ht) \<and>
        linked (nTableMask ht) (arHash (fold link_bucket [0..<nNumUsed ht] ?ht))
          (arData (fold link_bucket [0..<nNumUsed ht] ?ht)) (nNumUsed ht)" (is "relinked _ ?new \<and> _")
      using fold_link_bucket [of ?ht "nNumUsed ht"] lin0 bound D(4) S(3) by (simp add: same)
    note r = relinkedD [OF conjunct1 [OF f]]
    have "moved ht ?new" using f by (blast intro: moved_trans [OF reset] relinked_moved)
    moreover have "?new = ?new\<lparr>nNumUsed := nNumOfElements ht\<rparr>"
      using r(2) n by (simp add: same hashtable.equality)
    moreover have "map payload (take (nNumUsed ht) (arData ?new)) = map payload (live_buckets ht)"
      unfolding all using r(5) by (simp add: same flip: take_map)
    ultimately have "rehashed ht ?new" unfolding rehashed_def using f r by (auto simp: same)
    then show ?thesis using 2 n by (auto simp: zend_hash_rehash_def Let_def same)
  next
    case 3
    obtain g' j ht' where s: "rehash_scan 0 g ?ht = Some (g', ht'\<lparr>nNumUsed := j\<rparr>)" "moved ?ht ht'"
      "linked (nTableMask ht) (arHash ht') (arData ht') j" "j \<le> nNumUsed ht"
      "map payload (take j (arData ht')) = map payload (live_buckets ht)"
      using rehash_scan_correct [of ?ht 0 g] lin0 bound D(4) S(3)
      by (auto simp: same live_buckets_def)
    have "length (take j (arData ht')) = length (live_buckets ht)"
      using s(5) by (rule map_eq_imp_length_eq)
    then have j: "j = nNumOfElements ht"
      using s(2,4) movedD(4) D(4,6) S(3) same(1) by fastforce
    have "rehashed ht (ht'\<lparr>nNumUsed := j\<rparr>)" unfolding rehashed_def
      using s j movedD [OF s(2)] moved_trans [OF reset s(2)] by (auto simp: same)
    then show ?thesis using 3 s(1) by (auto simp: zend_hash_rehash_def Let_def same)
  qed
qed

text \<open>A rehashed table is well formed, without holes, and has the same elements.\<close>

lemma rehashed_frame:
  assumes "rehashed ht ht'"
  shows "nTableMask ht' = nTableMask ht" "nTableSize ht' = nTableSize ht"
    "nNumUsed ht' = nNumOfElements ht" "nNumOfElements ht' = nNumOfElements ht"
    "length (arHash ht') = length (arHash ht)" "length (arData ht') = length (arData ht)"
    "nIteratorsCount ht' = nIteratorsCount ht" "ht_id ht' = ht_id ht"
    "f_packed ht' = f_packed ht" "f_uninitialized ht' = f_uninitialized ht"
    "f_static_keys ht' = f_static_keys ht" "nNextFreeElement ht' = nNextFreeElement ht"
    "pDestructor ht' = pDestructor ht" "arPacked ht' = arPacked ht"
    "f_has_empty_ind ht' = f_has_empty_ind ht" "gc_persistent ht' = gc_persistent ht"
  using assms by (auto simp: rehashed_def moved_def)

lemma rehashed_live_buckets:
  assumes "rehashed ht ht'"
  shows "live_buckets ht' = take (nNumUsed ht') (arData ht')"
    and "map payload (live_buckets ht') = map payload (live_buckets ht)"
proof -
  have eq: "map payload (take (nNumUsed ht') (arData ht')) = map payload (live_buckets ht)"
    using assms by (simp add: rehashed_def)
  then show all: "live_buckets ht' = take (nNumUsed ht') (arData ht')"
    unfolding live_buckets_def [of ht'] by (intro live_of_payload) (simp add: live_buckets_def)
  show "map payload (live_buckets ht') = map payload (live_buckets ht)"
    unfolding all by (rule eq)
qed

lemma rehashed_elems:
  "rehashed ht ht' \<Longrightarrow> \<not> f_packed ht \<Longrightarrow> elems ht' = elems ht"
  using rehashed_live_buckets(2) [of ht ht'] rehashed_frame(9) [of ht ht']
  by (simp add: elems_def map_bucket_elem_payload)

lemma live_buckets_subset: "set (live_buckets ht) \<subseteq> set (take (nNumUsed ht) (arData ht))"
  by (auto simp: live_buckets_def)

lemma keys_ok_subset: "keys_ok bs \<Longrightarrow> set bs' \<subseteq> set bs \<Longrightarrow> keys_ok bs'"
  by (auto simp: keys_ok_def)

lemma static_ok_subset: "static_ok bs \<Longrightarrow> set bs' \<subseteq> set bs \<Longrightarrow> static_ok bs'"
  by (auto simp: static_ok_def)

lemma rehashed_mixed_shape:
  assumes r: "rehashed ht ht'" and "mixed_shape ht"
  shows "mixed_shape ht'"
proof -
  note D = mixed_shapeD [OF assms(2)] and F = rehashed_frame [OF r]
  note L = rehashed_live_buckets [OF r]
  have "keys_ok (live_buckets ht)" using D(7) live_buckets_subset by (rule keys_ok_subset)
  then have "keys_ok (live_buckets ht')" using L(2) by (simp only: keys_ok_payload)
  moreover have "static_ok (live_buckets ht')" if "f_static_keys ht"
  proof -
    have "static_ok (live_buckets ht)" using D(9) [OF that] live_buckets_subset by (rule static_ok_subset)
    then show ?thesis using L(2) by (simp only: static_ok_payload)
  qed
  moreover have "map bucket_key (live_buckets ht') = map bucket_key (live_buckets ht)"
    using L(2) by (simp only: map_bucket_key_elem map_bucket_elem_payload)
  moreover have "length (live_buckets ht') = length (live_buckets ht)"
    using L(2) by (rule map_eq_imp_length_eq)
  ultimately show ?thesis using D F L(1) by (simp add: mixed_shape_def)
qed

lemma next_free_ok_cong:
  "elems a = elems b \<Longrightarrow> nNextFreeElement a = nNextFreeElement b \<Longrightarrow> next_free_ok a = next_free_ok b"
  unfolding next_free_ok_def by (erule ssubst)+ (rule refl)

lemma rehashed_wf:
  assumes "rehashed ht ht'" and "mixed_shape ht" and "sizes_ok ht" and "next_free_ok ht"
    and "\<not> f_uninitialized ht"
  shows "wf_ht ht'"
proof -
  note D = mixed_shapeD [OF assms(2)] and F = rehashed_frame [OF assms(1)]
  have "nNumOfElements ht \<le> nTableSize ht"
    using mixed_shape_count [OF assms(2)] sizes_okD(3) [OF assms(3)] by simp
  then have "sizes_ok ht'" using assms(3) F(2,3) by (simp add: sizes_ok_def)
  moreover have "next_free_ok ht'"
    using assms(4) next_free_ok_cong [OF rehashed_elems [OF assms(1) D(1)] F(12)] by blast
  moreover have "linked (nTableMask ht') (arHash ht') (arData ht') (nNumUsed ht')"
    using assms(1) by (simp add: rehashed_def)
  ultimately show ?thesis
    using rehashed_mixed_shape [OF assms(1,2)] F D(1) assms(5) by (simp add: wf_ht_def wf_mixed_def)
qed

subsection \<open>Growing\<close>

lemma realloc_mixed_fields [simp]:
  "f_packed (realloc_mixed n ht) = f_packed ht"
  "f_uninitialized (realloc_mixed n ht) = f_uninitialized ht"
  "nNumUsed (realloc_mixed n ht) = nNumUsed ht"
  "nNumOfElements (realloc_mixed n ht) = nNumOfElements ht"
  "nTableSize (realloc_mixed n ht) = n"
  "nNextFreeElement (realloc_mixed n ht) = nNextFreeElement ht"
  by (simp_all add: realloc_mixed_def)

lemma realloc_mixed_live_buckets:
  "nNumUsed ht \<le> length (arData ht) \<Longrightarrow> live_buckets (realloc_mixed n ht) = live_buckets ht"
  by (simp add: live_buckets_def realloc_mixed_def)

lemma realloc_mixed_shape:
  assumes "mixed_shape ht" and "sizes_ok ht" and "nNumUsed ht \<le> n"
  shows "mixed_shape (realloc_mixed n ht)" and "elems (realloc_mixed n ht) = elems ht"
proof -
  note D = mixed_shapeD [OF assms(1)] and S = sizes_okD [OF assms(2)]
  have le: "nNumUsed ht \<le> length (arData ht)" using D(4) S(3) by simp
  show "mixed_shape (realloc_mixed n ht)"
    using D assms(3) le unfolding mixed_shape_def realloc_mixed_live_buckets [OF le]
    by (simp add: realloc_mixed_def)
  show "elems (realloc_mixed n ht) = elems ht"
    using realloc_mixed_live_buckets [OF le] by (simp add: elems_def) (simp add: realloc_mixed_def)
qed

text \<open>
  What the operations that reorganise a table guarantee to their callers: the same elements
  and bookkeeping, in a well-formed mixed table.
\<close>

definition reorganised :: "'v hashtable \<Rightarrow> 'v hashtable \<Rightarrow> bool" where
  "reorganised ht ht' \<longleftrightarrow> wf_ht ht' \<and> \<not> f_uninitialized ht' \<and> \<not> f_packed ht' \<and>
     elems ht' = elems ht \<and> nNumOfElements ht' = nNumOfElements ht \<and>
     nNextFreeElement ht' = nNextFreeElement ht \<and> ht_id ht' = ht_id ht \<and>
     pDestructor ht' = pDestructor ht \<and> nIteratorsCount ht' = nIteratorsCount ht"

lemma rehash_reorganised:
  assumes "sizes_ok ht" and "mixed_shape ht" and "\<not> f_uninitialized ht" and "next_free_ok ht"
  obtains g' ht' where "zend_hash_rehash g ht = Some (g', ht')" "reorganised ht ht'"
    "nNumUsed ht' = nNumOfElements ht" "nTableSize ht' = nTableSize ht"
proof -
  obtain g' ht' where r: "zend_hash_rehash g ht = Some (g', ht')" "rehashed ht ht'"
    using zend_hash_rehash_correct [OF assms(1-3)] by blast
  note F = rehashed_frame [OF r(2)]
  have "reorganised ht ht'"
    unfolding reorganised_def
    using rehashed_wf [OF r(2) assms(2,1,4,3)] rehashed_elems [OF r(2)] mixed_shapeD(1) [OF assms(2)]
      F assms(3) by simp
  then show thesis using that r(1) F by blast
qed

lemma wf_htD:
  assumes "wf_ht ht"
  shows "sizes_ok ht" "next_free_ok ht"
    "f_uninitialized ht \<Longrightarrow> wf_uninit ht"
    "\<not> f_uninitialized ht \<Longrightarrow> f_packed ht \<Longrightarrow> wf_packed ht"
    "\<not> f_uninitialized ht \<Longrightarrow> \<not> f_packed ht \<Longrightarrow> mixed_shape ht"
    "\<not> f_uninitialized ht \<Longrightarrow> \<not> f_packed ht \<Longrightarrow>
       linked (nTableMask ht) (arHash ht) (arData ht) (nNumUsed ht)"
  using assms by (auto simp: wf_ht_def wf_mixed_def)

lemma sizes_ok_double:
  assumes "sizes_ok ht" and "nTableSize ht < HT_MAX_SIZE"
  shows "sizes_ok (ht\<lparr>nTableSize := nTableSize ht + nTableSize ht\<rparr>)"
proof -
  obtain k where k: "3 \<le> k" "k \<le> 30" "nTableSize ht = 2 ^ k" using assms(1) by (auto simp: sizes_ok_def)
  have "(2::nat) ^ k < 2 ^ 30" using assms(2) k(3) by (simp add: HT_MAX_SIZE_def)
  then have "k < 30" by (rule power_less_imp_less_exp [rotated]) simp
  then show ?thesis using k assms(1) by (auto simp: sizes_ok_def intro!: bexI [of _ "Suc k"])
qed

lemma sizes_ok_realloc:
  "sizes_ok (ht\<lparr>nTableSize := n\<rparr>) \<Longrightarrow> sizes_ok (realloc_mixed n ht)"
  by (simp add: sizes_ok_def)

lemma zend_hash_do_resize_correct:
  assumes "wf_ht ht" and "\<not> f_uninitialized ht" and "\<not> f_packed ht"
    and "zend_hash_do_resize g ht = Some (g', ht')"
  shows "reorganised ht ht'" and "nNumUsed ht' < nTableSize ht'"
proof -
  note W = wf_htD [OF assms(1)]
  note shape = W(5) [OF assms(2,3)] and S = sizes_okD [OF W(1)]
  note le = mixed_shape_count [OF shape]
  have "reorganised ht ht' \<and> nNumUsed ht' < nTableSize ht'"
  proof (cases "nNumUsed ht > nNumOfElements ht + nNumOfElements ht div 32")
    case True
    obtain g1 ht1 where "zend_hash_rehash g ht = Some (g1, ht1)" "reorganised ht ht1"
      "nNumUsed ht1 = nNumOfElements ht" "nTableSize ht1 = nTableSize ht"
      using rehash_reorganised [OF W(1) shape assms(2) W(2), of g] by blast
    then show ?thesis using True assms(4) S(3) by (auto simp: zend_hash_do_resize_def)
  next
    case False
    then have max: "nTableSize ht < HT_MAX_SIZE"
      using assms(4) by (simp add: zend_hash_do_resize_def split: if_splits)
    let ?n = "nTableSize ht + nTableSize ht" and ?ht = "realloc_mixed (nTableSize ht + nTableSize ht) ht"
    have sh: "mixed_shape ?ht" "elems ?ht = elems ht"
      using realloc_mixed_shape [OF shape W(1)] S(3) by auto
    have nf: "next_free_ok ?ht" using W(2) sh(2) next_free_ok_cong [of ?ht ht] by simp
    obtain g1 ht1 where "zend_hash_rehash g ?ht = Some (g1, ht1)" "reorganised ?ht ht1"
      "nNumUsed ht1 = nNumOfElements ?ht" "nTableSize ht1 = nTableSize ?ht"
      using rehash_reorganised [OF sizes_ok_realloc [OF sizes_ok_double [OF W(1) max]] sh(1) _ nf, of g]
        assms(2) by auto
    moreover from this have "reorganised ht ht1"
      using sh(2) by (simp add: reorganised_def realloc_mixed_def)
    ultimately show ?thesis using False max assms(4) S(1,3) le by (auto simp: zend_hash_do_resize_def)
  qed
  then show "reorganised ht ht'" and "nNumUsed ht' < nTableSize ht'" by auto
qed

subsection \<open>From packed to mixed\<close>

definition unpacked :: "'v hashtable \<Rightarrow> 'v hashtable" where
  "unpacked ht =
     ht\<lparr>f_packed := False, nTableMask := HT_SIZE_TO_MASK (nTableSize ht),
        arHash := replicate (ht_slots (HT_SIZE_TO_MASK (nTableSize ht))) 0,
        arData := map (\<lambda>i. \<lparr>bval = arPacked ht ! i, bh = of_nat i, bkey = None, bnext = 0\<rparr>) [0..<nNumUsed ht] @
                  replicate (nTableSize ht - nNumUsed ht) fresh_bucket,
        arPacked := []\<rparr>"

lemma zend_hash_packed_to_hash_eq: "zend_hash_packed_to_hash g ht = zend_hash_rehash g (unpacked ht)"
  by (simp add: zend_hash_packed_to_hash_def unpacked_def)

lemma unpacked_live_buckets:
  "live_buckets (unpacked ht) =
     map (\<lambda>i. \<lparr>bval = arPacked ht ! i, bh = of_nat i, bkey = None, bnext = 0\<rparr>)
       (filter (\<lambda>i. \<not> is_undef (arPacked ht ! i)) [0..<nNumUsed ht])"
  by (simp add: live_buckets_def unpacked_def filter_map comp_def live_def)

lemma unpacked_elems: "f_packed ht \<Longrightarrow> elems (unpacked ht) = elems ht"
  unfolding elems_def unpacked_live_buckets
  by (simp add: unpacked_def packed_elems_def bucket_elem_def bucket_key_def comp_def)

lemma unat_of_index: "i < HT_INVALID_IDX \<Longrightarrow> unat (of_nat i :: u64) = i"
  by (simp add: unat_of_nat take_bit_eq_mod HT_INVALID_IDX_def)

lemma of_nat_inj_u64:
  "(of_nat i :: u64) = of_nat j \<Longrightarrow> i < HT_INVALID_IDX \<Longrightarrow> j < HT_INVALID_IDX \<Longrightarrow> i = j"
  by (metis unat_of_index)

lemma unpacked_shape:
  assumes "sizes_ok ht" and "f_packed ht" and "nNumUsed ht \<le> length (arPacked ht)"
    and "UNINIT \<notin> set (take (nNumUsed ht) (arPacked ht))"
    and "nNumOfElements ht = length (filter (\<lambda>v. \<not> is_undef v) (take (nNumUsed ht) (arPacked ht)))"
  shows "mixed_shape (unpacked ht)"
proof -
  note S = sizes_okD [OF assms(1)]
  have "nNumOfElements ht = length (live_buckets (unpacked ht))"
    using assms(5) length_filter_take_upt [OF assms(3)] by (simp add: unpacked_live_buckets)
  moreover have "inj_on (\<lambda>i. KInt (of_nat i :: u64)) {0..<nNumUsed ht}"
    using S(4) by (intro inj_onI) (auto dest: of_nat_inj_u64)
  then have "distinct (map bucket_key (live_buckets (unpacked ht)))"
    unfolding unpacked_live_buckets by (auto simp: distinct_map comp_def bucket_key_def inj_on_def)
  moreover have "arPacked ht ! i \<noteq> UNINIT" if "i < nNumUsed ht" for i
    using assms(3,4) that by (metis in_set_conv_nth length_take min.absorb2 nth_take)
  then have "keys_ok (take (nNumUsed ht) (arData (unpacked ht)))"
    by (auto simp: keys_ok_def unpacked_def)
  moreover have "static_ok (take (nNumUsed ht) (arData (unpacked ht)))"
    by (auto simp: static_ok_def unpacked_def)
  ultimately show ?thesis
    using S(3) unfolding mixed_shape_def by (simp add: unpacked_def)
qed

lemma zend_hash_packed_to_hash_correct:
  assumes "sizes_ok ht" and "f_packed ht" and "\<not> f_uninitialized ht"
    and "nNumUsed ht \<le> length (arPacked ht)"
    and "UNINIT \<notin> set (take (nNumUsed ht) (arPacked ht))"
    and "nNumOfElements ht = length (filter (\<lambda>v. \<not> is_undef v) (take (nNumUsed ht) (arPacked ht)))"
    and "next_free_ok ht"
  obtains g' ht' where "zend_hash_packed_to_hash g ht = Some (g', ht')" "reorganised ht ht'"
    "nNumUsed ht' = nNumOfElements ht" "nTableSize ht' = nTableSize ht"
proof -
  have f: "f_uninitialized (unpacked ht) = f_uninitialized ht" "sizes_ok (unpacked ht) = sizes_ok ht"
    "nNumOfElements (unpacked ht) = nNumOfElements ht" "nTableSize (unpacked ht) = nTableSize ht"
    "nNextFreeElement (unpacked ht) = nNextFreeElement ht"
    by (simp_all add: unpacked_def sizes_ok_def)
  note e = unpacked_elems [OF assms(2)]
  note sh = unpacked_shape [OF assms(1,2,4,5,6)]
  have "next_free_ok (unpacked ht)" using assms(7) next_free_ok_cong [OF e] f(5) by blast
  then obtain g' ht' where r: "zend_hash_rehash g (unpacked ht) = Some (g', ht')"
    "reorganised (unpacked ht) ht'" "nNumUsed ht' = nNumOfElements (unpacked ht)"
    "nTableSize ht' = nTableSize (unpacked ht)"
    using rehash_reorganised [of "unpacked ht" g] sh assms(1,3) f by auto
  have "reorganised ht ht'" using r(2) e by (simp add: reorganised_def unpacked_def)
  with r show thesis using that f by (simp add: zend_hash_packed_to_hash_eq)
qed

lemma wf_packed_hash:
  assumes "wf_ht ht" and "f_packed ht"
  shows "\<not> f_uninitialized ht" "sizes_ok ht" "length (arPacked ht) = nTableSize ht"
    "nNumUsed ht \<le> length (arPacked ht)"
    "UNINIT \<notin> set (take (nNumUsed ht) (arPacked ht))"
    "nNumOfElements ht = length (filter (\<lambda>v. \<not> is_undef v) (take (nNumUsed ht) (arPacked ht)))"
    "next_free_ok ht"
  using assms sizes_okD(3) [of ht] by (auto simp: wf_ht_def wf_uninit_def wf_packed_def split: if_splits)

lemma packed_to_hash_wf:
  assumes "wf_ht ht" and "f_packed ht"
  obtains g' ht' where "zend_hash_packed_to_hash g ht = Some (g', ht')" "reorganised ht ht'"
    "nNumUsed ht' = nNumOfElements ht" "nTableSize ht' = nTableSize ht"
  using zend_hash_packed_to_hash_correct [of ht g] wf_packed_hash [OF assms] assms(2) by blast

end
