(* ===== verification/ZendHashFind.thy ===== *)
theory ZendHashFind
  imports ZendHashRehash
begin

text \<open>
  Lookups of \<open>Zend/zend_hash.c\<close>: by string object, by C string, by number. A result is a
  reference to the value found (a packed cell, a bucket, or the slot an \<open>IS_INDIRECT\<close> value
  points to), \<open>None\<close> being \<open>NULL\<close>; the outer option is the termination of the chain walk. On a
  well-formed table every lookup terminates and agrees with the abstract element list.
\<close>

datatype zref = PackedVal nat | BucketVal nat | IndirectVal nat

definition zref_val :: "'v eg \<Rightarrow> 'v hashtable \<Rightarrow> zref \<Rightarrow> 'v zval" where
  "zref_val g ht r = (case r of
     PackedVal i \<Rightarrow> arPacked ht ! i | BucketVal i \<Rightarrow> bval (arData ht ! i) | IndirectVal a \<Rightarrow> ind_slots g a)"

text \<open>The reference is the value cell of the element with key \<open>k\<close>.\<close>

definition refers :: "'v hashtable \<Rightarrow> hkey \<Rightarrow> zref \<Rightarrow> bool" where
  "refers ht k r \<longleftrightarrow> \<not> f_uninitialized ht \<and> (case r of
     PackedVal i \<Rightarrow> f_packed ht \<and> i < nNumUsed ht \<and> \<not> is_undef (arPacked ht ! i) \<and> k = KInt (of_nat i)
   | BucketVal p \<Rightarrow> \<not> f_packed ht \<and> p < nNumUsed ht \<and> live (arData ht ! p) \<and> bucket_key (arData ht ! p) = k
   | IndirectVal a \<Rightarrow> False)"

definition zend_hash_find :: "'v hashtable \<Rightarrow> zstr \<Rightarrow> zref option option" where
  "zend_hash_find ht key = map_option (map_option BucketVal) (zend_hash_find_bucket ht key)"

definition zend_hash_find_known_hash :: "'v hashtable \<Rightarrow> zstr \<Rightarrow> zref option option" where
  "zend_hash_find_known_hash ht key = map_option (map_option BucketVal) (zend_hash_find_bucket ht key)"

definition zend_hash_str_find :: "'v hashtable \<Rightarrow> u8 list \<Rightarrow> zref option option" where
  "zend_hash_str_find ht str =
     (let h = zend_inline_hash_func str
      in map_option (map_option BucketVal) (zend_hash_str_find_bucket ht str h))"

definition zend_hash_index_find :: "'v hashtable \<Rightarrow> u64 \<Rightarrow> zref option option" where
  "zend_hash_index_find ht h =
     (if f_packed ht then
        Some (if unat h < nNumUsed ht \<and> \<not> is_undef (arPacked ht ! unat h)
              then Some (PackedVal (unat h)) else None)
      else map_option (map_option BucketVal) (zend_hash_index_find_bucket ht h))"

text \<open>\<open>_zend_hash_index_find\<close>: the caller knows that the table is not packed.\<close>

definition zend_hash_index_find_mixed :: "'v hashtable \<Rightarrow> u64 \<Rightarrow> zref option option" where
  "zend_hash_index_find_mixed ht h = map_option (map_option BucketVal) (zend_hash_index_find_bucket ht h)"

text \<open>\<open>zend_hash_find_ind\<close>: an \<open>IS_INDIRECT\<close> value is followed, to \<open>NULL\<close> if its target is undefined.\<close>

definition zend_hash_find_ind :: "'v eg \<Rightarrow> 'v hashtable \<Rightarrow> zstr \<Rightarrow> zref option option" where
  "zend_hash_find_ind g ht key =
     map_option (\<lambda>r. case r of None \<Rightarrow> None
       | Some zv \<Rightarrow> (case zref_val g ht zv of
            IS_INDIRECT a \<Rightarrow> (if \<not> is_undef (ind_slots g a) then Some (IndirectVal a) else None)
          | _ \<Rightarrow> Some zv)) (zend_hash_find ht key)"

subsection \<open>Looking a key up in a mixed table\<close>

definition khash :: "hkey \<Rightarrow> u64" where
  "khash k = (case k of KInt h \<Rightarrow> h | KStr s \<Rightarrow> zend_inline_hash_func s)"

definition lookup_idx :: "'v hashtable \<Rightarrow> hkey \<Rightarrow> nat option" where
  "lookup_idx ht k =
     find_last (\<lambda>j. live (arData ht ! j) \<and> bucket_key (arData ht ! j) = k) (nNumUsed ht)"

lemma used_bucket_in_take:
  assumes "sizes_ok ht" and "mixed_shape ht" and "j < nNumUsed ht"
  shows "arData ht ! j \<in> set (take (nNumUsed ht) (arData ht))"
  using mixed_shapeD(4) [OF assms(2)] sizes_okD(3) [OF assms(1)] assms(3)
  by (auto simp: in_set_conv_nth intro!: exI [of _ j])

lemma keys_ok_hash:
  "keys_ok bs \<Longrightarrow> b \<in> set bs \<Longrightarrow> bh b = khash (bucket_key b)"
  by (auto simp: keys_ok_def khash_def bucket_key_def ZSTR_H_def split: option.splits)

lemma mixed_chain_find:
  fixes ht :: "'v hashtable"
  assumes "wf_ht ht" and "\<not> f_uninitialized ht" and "\<not> f_packed ht"
    and p: "\<And>b :: 'v bucket. bh b = khash (bucket_key b) \<Longrightarrow> p b \<longleftrightarrow> bucket_key b = k"
  shows "chain_find (arData ht) p (HT_HASH ht (nIndex ht (khash k))) = Some (lookup_idx ht k)"
proof -
  note W = wf_htD [OF assms(1)]
  note shape = W(5) [OF assms(2,3)]
  let ?s = "slot_of (nTableMask ht) (ucast (khash k) OR nTableMask ht)"
  have hash: "bh (arData ht ! j) = khash (bucket_key (arData ht ! j))" if "j < nNumUsed ht" for j
    using keys_ok_hash [OF mixed_shapeD(7) [OF shape] used_bucket_in_take [OF W(1) shape that]] .
  have "?s < length (arHash ht)"
    using mixed_bslot_bound [OF W(1) shape, of "fresh_bucket\<lparr>bh := khash k\<rparr>"] by (simp add: bslot_def)
  then have "chain_find (arData ht) p (arHash ht ! ?s) = Some (find_last (\<lambda>j. live (arData ht ! j) \<and>
      bslot (nTableMask ht) (arData ht ! j) = ?s \<and> p (arData ht ! j)) (nNumUsed ht))"
    using chain_find_linked [OF W(6) [OF assms(2,3)] _ sizes_okD(4) [OF W(1)]] by blast
  also have "find_last (\<lambda>j. live (arData ht ! j) \<and>
      bslot (nTableMask ht) (arData ht ! j) = ?s \<and> p (arData ht ! j)) (nNumUsed ht) = lookup_idx ht k"
    unfolding lookup_idx_def using hash p
    by (intro find_last_cong) (auto simp: bslot_def)
  finally show ?thesis by (simp add: HT_HASH_def nIndex_def)
qed

text \<open>A table without data has two empty slots, so every search fails.\<close>

lemma no_data_slot:
  assumes "no_data ht"
  shows "HT_HASH ht (nIndex ht h) = HT_INVALID_IDX"
proof -
  have "slot_of HT_MIN_MASK (ucast h OR HT_MIN_MASK) < 2"
    using slot_bound [of HT_MIN_MASK "ucast h"] by simp
  then show ?thesis using assms
    by (auto simp: HT_HASH_def nIndex_def no_data_def less_2_cases_iff nth_Cons' numeral_2_eq_2)
qed

lemma no_data_chain_find: "no_data ht \<Longrightarrow> chain_find bs p (HT_HASH ht (nIndex ht h)) = Some None"
  by (simp add: no_data_slot chain_find.simps)

lemma lookup_idx_unused: "nNumUsed ht = 0 \<Longrightarrow> lookup_idx ht k = None"
  by (simp add: lookup_idx_def)

lemma wf_uninitD:
  assumes "wf_ht ht" and "f_uninitialized ht"
  shows "no_data ht" "nNumUsed ht = 0" "\<not> f_packed ht" "elems ht = []" "arData ht = []" "arPacked ht = []"
    "nNumOfElements ht = 0"
  using wf_htD(3) [OF assms] by (auto simp: wf_uninit_def elems_def live_buckets_def)

lemma wf_packedD:
  assumes "wf_ht ht" and "f_packed ht"
  shows "no_data ht" "elems ht = packed_elems (arPacked ht) (nNumUsed ht)" "arData ht = []"
  using wf_htD(4) [OF assms(1) wf_packed_hash(1) [OF assms] assms(2)] assms(2)
  by (auto simp: wf_packed_def elems_def)

lemma key_match_iff:
  "bh b = khash (bucket_key b) \<Longrightarrow> key_match s (zend_inline_hash_func s) b \<longleftrightarrow> bucket_key b = KStr s"
  by (auto simp: key_match_def bucket_key_def khash_def split: option.splits)

lemma find_bucket_correct:
  assumes "wf_ht ht"
  shows "zend_hash_find_bucket ht key =
      Some (if f_packed ht then None else lookup_idx ht (KStr (zs_val key)))"
    and "zend_hash_str_find_bucket ht s (zend_inline_hash_func s) =
      Some (if f_packed ht then None else lookup_idx ht (KStr s))"
    and "\<not> f_packed ht \<Longrightarrow> zend_hash_index_find_bucket ht h = Some (lookup_idx ht (KInt h))"
proof -
  have nd: "no_data ht" if "f_packed ht \<or> f_uninitialized ht"
    using that assms by (auto dest: wf_uninitD(1) wf_packedD(1))
  have nl: "lookup_idx ht k = None" if "f_uninitialized ht" for k
    using that assms by (simp add: lookup_idx_unused wf_uninitD(2))
  have a: "(bkey b = Some key \<or> key_match (zs_val key) (ZSTR_H key) b) = (bucket_key b = KStr (zs_val key))"
    if "bh b = khash (bucket_key b)" for b :: "'a bucket"
    using key_match_iff [OF that, of "zs_val key"] by (auto simp: ZSTR_H_def bucket_key_def)
  have b: "(bh b = h \<and> bkey b = None) = (bucket_key b = KInt h)"
    if "bh b = khash (bucket_key b)" for b :: "'a bucket"
    by (auto simp: bucket_key_def split: option.splits)
  show "zend_hash_find_bucket ht key =
      Some (if f_packed ht then None else lookup_idx ht (KStr (zs_val key)))"
    using nd nl mixed_chain_find [OF assms, of _ "KStr (zs_val key)", OF _ _ a]
    by (cases "f_uninitialized ht"; cases "f_packed ht")
      (simp_all add: zend_hash_find_bucket_def no_data_chain_find khash_def ZSTR_H_def)
  show "zend_hash_str_find_bucket ht s (zend_inline_hash_func s) =
      Some (if f_packed ht then None else lookup_idx ht (KStr s))"
    using nd nl mixed_chain_find [OF assms, of _ "KStr s", OF _ _ key_match_iff]
    by (cases "f_uninitialized ht"; cases "f_packed ht")
      (simp_all add: zend_hash_str_find_bucket_def no_data_chain_find khash_def)
  show "\<not> f_packed ht \<Longrightarrow> zend_hash_index_find_bucket ht h = Some (lookup_idx ht (KInt h))"
    using nd nl mixed_chain_find [OF assms, of _ "KInt h", OF _ _ b]
    by (cases "f_uninitialized ht"; cases "f_packed ht")
      (simp_all add: zend_hash_index_find_bucket_def no_data_chain_find khash_def)
qed

subsection \<open>Lookups and the element list\<close>

lemma lookup_idx_SomeD:
  "lookup_idx ht k = Some j \<Longrightarrow> j < nNumUsed ht \<and> live (arData ht ! j) \<and> bucket_key (arData ht ! j) = k"
  using find_last_SomeD unfolding lookup_idx_def by blast

lemma live_bucketsI:
  "j < nNumUsed ht \<Longrightarrow> j < length (arData ht) \<Longrightarrow> live (arData ht ! j) \<Longrightarrow> arData ht ! j \<in> set (live_buckets ht)"
  by (auto simp: live_buckets_def in_set_conv_nth intro!: exI [of _ j])

lemma mixed_map_of:
  assumes "sizes_ok ht" and "mixed_shape ht"
  shows "map_of (elems ht) k = map_option (\<lambda>j. bval (arData ht ! j)) (lookup_idx ht k)"
proof (cases "lookup_idx ht k")
  case None
  have "k \<notin> set (map bucket_key (live_buckets ht))"
  proof
    assume "k \<in> set (map bucket_key (live_buckets ht))"
    then obtain j where "j < nNumUsed ht" "live (arData ht ! j)" "bucket_key (arData ht ! j) = k"
      by (auto simp: live_buckets_def in_set_conv_nth)
    then show False using None unfolding lookup_idx_def find_last_None_iff by blast
  qed
  then have "map_of (elems ht) k = None"
    using mixed_shapeD(1) [OF assms(2)]
    by (simp add: elems_def map_of_eq_None_iff bucket_elem_def comp_def image_image)
  with None show ?thesis by simp
next
  case (Some j)
  note j = lookup_idx_SomeD [OF Some]
  have len: "j < length (arData ht)"
    using j sizes_okD(3) [OF assms(1)] mixed_shapeD(4) [OF assms(2)] by simp
  have "arData ht ! j \<in> set (live_buckets ht)" using j len by (intro live_bucketsI) auto
  then have "(k, bval (arData ht ! j)) \<in> set (elems ht)"
    using j mixed_shapeD(1) [OF assms(2)] by (force simp: elems_def bucket_elem_def)
  moreover have "distinct (map fst (elems ht))"
    using mixed_shapeD(1,8) [OF assms(2)] by (simp add: elems_def map_bucket_key_elem)
  ultimately show ?thesis using Some by (simp add: map_of_eq_Some_iff)
qed

lemma packed_map_of:
  assumes "n < HT_INVALID_IDX"
  shows "map_of (packed_elems zs n) k = (case k of KStr s \<Rightarrow> None
    | KInt h \<Rightarrow> if unat h < n \<and> \<not> is_undef (zs ! unat h) then Some (zs ! unat h) else None)"
  using assms
proof (induction n)
  case 0
  show ?case by (simp add: packed_elems_def split: hkey.split)
next
  case (Suc n)
  have "h = of_nat n \<longleftrightarrow> unat h = n" for h :: u64
    using unat_of_index [of n] Suc.prems by (auto simp: Suc_lessD)
  moreover have "packed_elems zs (Suc n) =
      packed_elems zs n @ (if is_undef (zs ! n) then [] else [(KInt (of_nat n), zs ! n)])"
    by (simp add: packed_elems_def)
  ultimately show ?case using Suc
    by (auto simp: map_of_append map_add_def less_Suc_eq split: option.split hkey.split)
qed

definition abs_find :: "'v hashtable \<Rightarrow> hkey \<Rightarrow> 'v zval option" where
  "abs_find ht k = map_of (elems ht) k"

lemma abs_find_mixed:
  assumes "wf_ht ht" and "\<not> f_packed ht"
  shows "abs_find ht k = map_option (\<lambda>j. bval (arData ht ! j)) (lookup_idx ht k)"
proof (cases "f_uninitialized ht")
  case True
  then show ?thesis using assms by (simp add: abs_find_def wf_uninitD lookup_idx_unused)
next
  case False
  then show ?thesis unfolding abs_find_def
    using wf_htD [OF assms(1)] assms(2) by (intro mixed_map_of) auto
qed

lemma abs_find_packed:
  assumes "wf_ht ht" and "f_packed ht"
  shows "abs_find ht k = (case k of KStr s \<Rightarrow> None
    | KInt h \<Rightarrow> if unat h < nNumUsed ht \<and> \<not> is_undef (arPacked ht ! unat h)
                then Some (arPacked ht ! unat h) else None)"
  unfolding abs_find_def wf_packedD(2) [OF assms]
  using sizes_okD(4) [OF wf_htD(1) [OF assms(1)]] by (rule packed_map_of)

lemma find_correct:
  assumes "wf_ht ht"
  shows "\<exists>r. zend_hash_find ht key = Some r \<and>
           map_option (zref_val g ht) r = abs_find ht (KStr (zs_val key))"
    and "\<exists>r. zend_hash_str_find ht s = Some r \<and> map_option (zref_val g ht) r = abs_find ht (KStr s)"
    and "\<exists>r. zend_hash_index_find ht h = Some r \<and> map_option (zref_val g ht) r = abs_find ht (KInt h)"
  using find_bucket_correct [OF assms] abs_find_packed [OF assms] abs_find_mixed [OF assms]
  by (auto simp: zend_hash_find_def zend_hash_str_find_def zend_hash_index_find_def zref_val_def
      option.map_comp comp_def)

end
