(* ===== verification/ZendHashAdd.thy ===== *)
theory ZendHashAdd
  imports ZendHashFind "HOL-Library.AList"
begin

text \<open>
  Insertion and update (\<open>Zend/zend_hash.c\<close>, lines 812 to 1232): by string object, by C string and
  by number, with the \<open>HASH_*\<close> flags of \<open>Zend/zend_hash.h\<close>, and their public wrappers. A result
  \<open>Some (g, ht, r)\<close> is a normal return of the reference \<open>r\<close> (\<open>None\<close> is \<open>NULL\<close>); \<open>None\<close> is a
  fatal error (the table cannot grow). The lemmas show that each branch keeps the table well
  formed and that on the element list an insertion is \<open>AList.update\<close>: in place for a key that
  is there, at the end for a new one.
\<close>

definition HASH_UPDATE :: u32 where "HASH_UPDATE = 1"
definition HASH_ADD :: u32 where "HASH_ADD = 2"
definition HASH_UPDATE_INDIRECT :: u32 where "HASH_UPDATE_INDIRECT = 4"
definition HASH_ADD_NEW :: u32 where "HASH_ADD_NEW = 8"
definition HASH_ADD_NEXT :: u32 where "HASH_ADD_NEXT = 16"
definition HASH_LOOKUP :: u32 where "HASH_LOOKUP = 32"

lemmas hash_flags = HASH_UPDATE_def HASH_ADD_def HASH_UPDATE_INDIRECT_def HASH_ADD_NEW_def
  HASH_ADD_NEXT_def HASH_LOOKUP_def

definition flag_set :: "u32 \<Rightarrow> u32 \<Rightarrow> bool" where
  "flag_set flag f \<longleftrightarrow> flag AND f \<noteq> 0"

subsection \<open>Operations\<close>

text \<open>\<open>ZVAL_COPY_VALUE(data, pData)\<close> for a reference into the table or an indirect slot.\<close>

definition zval_copy_value :: "zref \<Rightarrow> 'v zval \<Rightarrow> 'v eg \<times> 'v hashtable \<Rightarrow> 'v eg \<times> 'v hashtable" where
  "zval_copy_value data v = (\<lambda>(g, ht). case data of
     PackedVal i \<Rightarrow> (g, ht\<lparr>arPacked := (arPacked ht)[i := v]\<rparr>)
   | BucketVal i \<Rightarrow> (g, ht\<lparr>arData := (arData ht)[i := (arData ht ! i)\<lparr>bval := v\<rparr>]\<rparr>)
   | IndirectVal a \<Rightarrow> (g\<lparr>ind_slots := (ind_slots g)(a := v)\<rparr>, ht))"

text \<open>The end of the branches that replace a value: destroy the old one, copy the new one.\<close>

definition replace_value :: "'v eg \<Rightarrow> 'v hashtable \<Rightarrow> zref \<Rightarrow> 'v zval \<Rightarrow> ('v eg \<times> 'v hashtable \<times> zref option) option" where
  "replace_value g ht data pData =
     (let g = call_dtor ht (zref_val g ht data) g;
          (g, ht) = zval_copy_value data pData (g, ht)
      in Some (g, ht, Some data))"

text \<open>The branch \<open>if (p)\<close> of both string insertions.\<close>

definition add_found :: "'v eg \<Rightarrow> 'v hashtable \<Rightarrow> nat \<Rightarrow> 'v zval \<Rightarrow> u32 \<Rightarrow> ('v eg \<times> 'v hashtable \<times> zref option) option" where
  "add_found g ht p pData flag =
     (if flag_set flag HASH_LOOKUP then Some (g, ht, Some (BucketVal p))
      else if flag_set flag HASH_ADD then
        (if \<not> flag_set flag HASH_UPDATE_INDIRECT then Some (g, ht, None)
         else case bval (arData ht ! p) of
             IS_INDIRECT a \<Rightarrow>
               (if \<not> is_undef (ind_slots g a) then Some (g, ht, None)
                else replace_value g ht (IndirectVal a) pData)
           | _ \<Rightarrow> Some (g, ht, None))
      else
        (let data = (case bval (arData ht ! p) of
               IS_INDIRECT a \<Rightarrow> if flag_set flag HASH_UPDATE_INDIRECT then IndirectVal a else BucketVal p
             | _ \<Rightarrow> BucketVal p)
         in replace_value g ht data pData))"

text \<open>Taking the next bucket, filling it and putting it in front of its chain.\<close>

definition add_bucket :: "'v hashtable \<Rightarrow> zstr option \<Rightarrow> u64 \<Rightarrow> 'v zval \<Rightarrow> 'v hashtable" where
  "add_bucket ht key h v =
     (let idx = nNumUsed ht;
          n = nIndex ht h;
          ht = ht\<lparr>nNumUsed := idx + 1, nNumOfElements := nNumOfElements ht + 1\<rparr>;
          ht = ht\<lparr>arData := (arData ht)[idx := \<lparr>bval = v, bh = h, bkey = key, bnext = HT_HASH ht n\<rparr>]\<rparr>
      in set_HT_HASH ht n idx)"

definition new_value :: "u32 \<Rightarrow> 'v zval \<Rightarrow> 'v zval" where
  "new_value flag pData = (if flag_set flag HASH_LOOKUP then IS_NULL else pData)"

definition zend_hash_add_or_update_i ::
  "'v eg \<Rightarrow> 'v hashtable \<Rightarrow> zstr \<Rightarrow> 'v zval \<Rightarrow> u32 \<Rightarrow> ('v eg \<times> 'v hashtable \<times> zref option) option" where
  "zend_hash_add_or_update_i g ht key pData flag =
     (let add_to_hash = (\<lambda>(g, ht).
            (let (g, ht) = (if \<not> zs_interned key
                            then (zend_string_addref key g, ht\<lparr>f_static_keys := False\<rparr>) else (g, ht));
                 idx = nNumUsed ht
             in Some (g, add_bucket ht (Some key) (ZSTR_H key) (new_value flag pData), Some (BucketVal idx))))
      in if f_uninitialized ht then add_to_hash (g, zend_hash_real_init_mixed ht)
      else if f_packed ht then do {
        (g, ht) \<leftarrow> zend_hash_packed_to_hash g ht;
        (g, ht) \<leftarrow> zend_hash_if_full_do_resize g ht;
        add_to_hash (g, ht) }
      else do {
        p \<leftarrow> (if \<not> flag_set flag HASH_ADD_NEW then zend_hash_find_bucket ht key else Some None);
        (case p of
           Some p \<Rightarrow> add_found g ht p pData flag
         | None \<Rightarrow> do {
             (g, ht) \<leftarrow> zend_hash_if_full_do_resize g ht;
             add_to_hash (g, ht) }) })"

text \<open>The key is a new string, created with the table's reference.\<close>

definition zend_hash_str_add_or_update_i ::
  "'v eg \<Rightarrow> 'v hashtable \<Rightarrow> u8 list \<Rightarrow> u64 \<Rightarrow> 'v zval \<Rightarrow> u32 \<Rightarrow> ('v eg \<times> 'v hashtable \<times> zref option) option" where
  "zend_hash_str_add_or_update_i g ht str h pData flag =
     (let add_to_hash = (\<lambda>(g, ht).
            (let idx = nNumUsed ht;
                 key = \<lparr>zs_val = str, zs_interned = False\<rparr>;
                 g = zend_string_addref key g;
                 ht = ht\<lparr>f_static_keys := False\<rparr>
             in Some (g, add_bucket ht (Some key) h (new_value flag pData), Some (BucketVal idx))))
      in if f_uninitialized ht then add_to_hash (g, zend_hash_real_init_mixed ht)
      else if f_packed ht then do {
        (g, ht) \<leftarrow> zend_hash_packed_to_hash g ht;
        (g, ht) \<leftarrow> zend_hash_if_full_do_resize g ht;
        add_to_hash (g, ht) }
      else do {
        p \<leftarrow> (if \<not> flag_set flag HASH_ADD_NEW then zend_hash_str_find_bucket ht str h else Some None);
        (case p of
           Some p \<Rightarrow> add_found g ht p pData flag
         | None \<Rightarrow> do {
             (g, ht) \<leftarrow> zend_hash_if_full_do_resize g ht;
             add_to_hash (g, ht) }) })"

definition zend_hash_add :: "'v eg \<Rightarrow> 'v hashtable \<Rightarrow> zstr \<Rightarrow> 'v zval \<Rightarrow> ('v eg \<times> 'v hashtable \<times> zref option) option" where
  "zend_hash_add g ht key pData = zend_hash_add_or_update_i g ht key pData HASH_ADD"

definition zend_hash_update :: "'v eg \<Rightarrow> 'v hashtable \<Rightarrow> zstr \<Rightarrow> 'v zval \<Rightarrow> ('v eg \<times> 'v hashtable \<times> zref option) option" where
  "zend_hash_update g ht key pData = zend_hash_add_or_update_i g ht key pData HASH_UPDATE"

definition zend_hash_update_ind :: "'v eg \<Rightarrow> 'v hashtable \<Rightarrow> zstr \<Rightarrow> 'v zval \<Rightarrow> ('v eg \<times> 'v hashtable \<times> zref option) option" where
  "zend_hash_update_ind g ht key pData =
     zend_hash_add_or_update_i g ht key pData (HASH_UPDATE OR HASH_UPDATE_INDIRECT)"

definition zend_hash_add_new :: "'v eg \<Rightarrow> 'v hashtable \<Rightarrow> zstr \<Rightarrow> 'v zval \<Rightarrow> ('v eg \<times> 'v hashtable \<times> zref option) option" where
  "zend_hash_add_new g ht key pData = zend_hash_add_or_update_i g ht key pData HASH_ADD_NEW"

definition zend_hash_lookup :: "'v eg \<Rightarrow> 'v hashtable \<Rightarrow> zstr \<Rightarrow> ('v eg \<times> 'v hashtable \<times> zref option) option" where
  "zend_hash_lookup g ht key = zend_hash_add_or_update_i g ht key UNINIT HASH_LOOKUP"

definition zend_hash_add_or_update :: "'v eg \<Rightarrow> 'v hashtable \<Rightarrow> zstr \<Rightarrow> 'v zval \<Rightarrow> u32 \<Rightarrow> ('v eg \<times> 'v hashtable \<times> zref option) option" where
  "zend_hash_add_or_update g ht key pData flag =
     (if flag = HASH_ADD then zend_hash_add g ht key pData
      else if flag = HASH_ADD_NEW then zend_hash_add_new g ht key pData
      else if flag = HASH_UPDATE then zend_hash_update g ht key pData
      else zend_hash_update_ind g ht key pData)"

definition zend_hash_str_update :: "'v eg \<Rightarrow> 'v hashtable \<Rightarrow> u8 list \<Rightarrow> 'v zval \<Rightarrow> ('v eg \<times> 'v hashtable \<times> zref option) option" where
  "zend_hash_str_update g ht str pData =
     (let h = zend_inline_hash_func str in zend_hash_str_add_or_update_i g ht str h pData HASH_UPDATE)"

definition zend_hash_str_update_ind :: "'v eg \<Rightarrow> 'v hashtable \<Rightarrow> u8 list \<Rightarrow> 'v zval \<Rightarrow> ('v eg \<times> 'v hashtable \<times> zref option) option" where
  "zend_hash_str_update_ind g ht str pData =
     (let h = zend_inline_hash_func str
      in zend_hash_str_add_or_update_i g ht str h pData (HASH_UPDATE OR HASH_UPDATE_INDIRECT))"

definition zend_hash_str_add :: "'v eg \<Rightarrow> 'v hashtable \<Rightarrow> u8 list \<Rightarrow> 'v zval \<Rightarrow> ('v eg \<times> 'v hashtable \<times> zref option) option" where
  "zend_hash_str_add g ht str pData =
     (let h = zend_inline_hash_func str in zend_hash_str_add_or_update_i g ht str h pData HASH_ADD)"

definition zend_hash_str_add_new :: "'v eg \<Rightarrow> 'v hashtable \<Rightarrow> u8 list \<Rightarrow> 'v zval \<Rightarrow> ('v eg \<times> 'v hashtable \<times> zref option) option" where
  "zend_hash_str_add_new g ht str pData =
     (let h = zend_inline_hash_func str in zend_hash_str_add_or_update_i g ht str h pData HASH_ADD_NEW)"

definition zend_hash_str_add_or_update :: "'v eg \<Rightarrow> 'v hashtable \<Rightarrow> u8 list \<Rightarrow> 'v zval \<Rightarrow> u32 \<Rightarrow> ('v eg \<times> 'v hashtable \<times> zref option) option" where
  "zend_hash_str_add_or_update g ht str pData flag =
     (if flag = HASH_ADD then zend_hash_str_add g ht str pData
      else if flag = HASH_ADD_NEW then zend_hash_str_add_new g ht str pData
      else if flag = HASH_UPDATE then zend_hash_str_update g ht str pData
      else zend_hash_str_update_ind g ht str pData)"

text \<open>
  \<open>add_to_packed\<close>: the cells between the last used one and \<open>h\<close> are set to \<open>IS_UNDEF\<close>, except
  when the caller inserts a new next element.
\<close>

definition add_to_packed :: "'v eg \<Rightarrow> 'v hashtable \<Rightarrow> u64 \<Rightarrow> 'v zval \<Rightarrow> u32 \<Rightarrow> ('v eg \<times> 'v hashtable \<times> zref option) option" where
  "add_to_packed g ht h pData flag =
     (let fill = flag AND (HASH_ADD_NEW OR HASH_ADD_NEXT) \<noteq> HASH_ADD_NEW OR HASH_ADD_NEXT;
          n = unat h;
          ht = (if fill then ht\<lparr>arPacked := fold (\<lambda>i zs. zs[i := IS_UNDEF]) [nNumUsed ht..<n] (arPacked ht)\<rparr>
                else ht);
          ht = ht\<lparr>nNumUsed := n + 1, nNextFreeElement := h + 1, nNumOfElements := nNumOfElements ht + 1\<rparr>;
          ht = ht\<lparr>arPacked := (arPacked ht)[n := new_value flag pData]\<rparr>
      in Some (g, ht, Some (PackedVal n)))"

text \<open>The common end for mixed tables.\<close>

definition index_add_bucket :: "'v eg \<Rightarrow> 'v hashtable \<Rightarrow> u64 \<Rightarrow> 'v zval \<Rightarrow> u32 \<Rightarrow> ('v eg \<times> 'v hashtable \<times> zref option) option" where
  "index_add_bucket g ht h pData flag =
     (let idx = nNumUsed ht;
          ht = add_bucket ht None h (new_value flag pData);
          ht = (if nNextFreeElement ht \<le>s h
                then ht\<lparr>nNextFreeElement := (if h <s ZEND_LONG_MAX then h + 1 else ZEND_LONG_MAX)\<rparr> else ht)
      in Some (g, ht, Some (BucketVal idx)))"

definition zend_hash_index_add_or_update_i ::
  "'v eg \<Rightarrow> 'v hashtable \<Rightarrow> u64 \<Rightarrow> 'v zval \<Rightarrow> u32 \<Rightarrow> ('v eg \<times> 'v hashtable \<times> zref option) option" where
  "zend_hash_index_add_or_update_i g ht h0 pData flag =
     (let h = (if flag_set flag HASH_ADD_NEXT \<and> h0 = ZEND_LONG_MIN then 0 else h0);
          replace = (\<lambda>r. if flag_set flag HASH_LOOKUP then Some (g, ht, Some r)
                         else if flag_set flag HASH_ADD then Some (g, ht, None)
                         else replace_value g ht r pData);
          convert = (\<lambda>ht. do {
             (g, ht) \<leftarrow> zend_hash_packed_to_hash g ht;
             index_add_bucket g ht h pData flag })
      in if f_packed ht then
        (if flag AND (HASH_ADD_NEW OR HASH_ADD_NEXT) \<noteq> HASH_ADD_NEW OR HASH_ADD_NEXT \<and> unat h < nNumUsed ht
         then (if \<not> is_undef (arPacked ht ! unat h) then replace (PackedVal (unat h)) else convert ht)
         else if unat h < nTableSize ht then add_to_packed g ht h pData flag
         else if unat (drop_bit 1 h) < nTableSize ht \<and> nTableSize ht div 2 < nNumOfElements ht then do {
           ht \<leftarrow> zend_hash_packed_grow ht;
           add_to_packed g ht h pData flag }
         else convert (if nNumUsed ht \<ge> nTableSize ht
                       then ht\<lparr>nTableSize := nTableSize ht + nTableSize ht\<rparr> else ht))
      else if f_uninitialized ht then
        (if unat h < nTableSize ht then add_to_packed g (zend_hash_real_init_packed_ex ht) h pData flag
         else index_add_bucket g (zend_hash_real_init_mixed ht) h pData flag)
      else do {
        p \<leftarrow> (if \<not> flag_set flag HASH_ADD_NEW then zend_hash_index_find_bucket ht h else Some None);
        (case p of
           Some p \<Rightarrow> replace (BucketVal p)
         | None \<Rightarrow> do {
             (g, ht) \<leftarrow> zend_hash_if_full_do_resize g ht;
             index_add_bucket g ht h pData flag }) })"

definition zend_hash_index_add :: "'v eg \<Rightarrow> 'v hashtable \<Rightarrow> u64 \<Rightarrow> 'v zval \<Rightarrow> ('v eg \<times> 'v hashtable \<times> zref option) option" where
  "zend_hash_index_add g ht h pData = zend_hash_index_add_or_update_i g ht h pData HASH_ADD"

definition zend_hash_index_add_new :: "'v eg \<Rightarrow> 'v hashtable \<Rightarrow> u64 \<Rightarrow> 'v zval \<Rightarrow> ('v eg \<times> 'v hashtable \<times> zref option) option" where
  "zend_hash_index_add_new g ht h pData =
     zend_hash_index_add_or_update_i g ht h pData (HASH_ADD OR HASH_ADD_NEW)"

definition zend_hash_index_update :: "'v eg \<Rightarrow> 'v hashtable \<Rightarrow> u64 \<Rightarrow> 'v zval \<Rightarrow> ('v eg \<times> 'v hashtable \<times> zref option) option" where
  "zend_hash_index_update g ht h pData = zend_hash_index_add_or_update_i g ht h pData HASH_UPDATE"

definition zend_hash_next_index_insert :: "'v eg \<Rightarrow> 'v hashtable \<Rightarrow> 'v zval \<Rightarrow> ('v eg \<times> 'v hashtable \<times> zref option) option" where
  "zend_hash_next_index_insert g ht pData =
     zend_hash_index_add_or_update_i g ht (nNextFreeElement ht) pData (HASH_ADD OR HASH_ADD_NEXT)"

definition zend_hash_next_index_insert_new :: "'v eg \<Rightarrow> 'v hashtable \<Rightarrow> 'v zval \<Rightarrow> ('v eg \<times> 'v hashtable \<times> zref option) option" where
  "zend_hash_next_index_insert_new g ht pData =
     zend_hash_index_add_or_update_i g ht (nNextFreeElement ht) pData (HASH_ADD OR HASH_ADD_NEW OR HASH_ADD_NEXT)"

definition zend_hash_index_lookup :: "'v eg \<Rightarrow> 'v hashtable \<Rightarrow> u64 \<Rightarrow> ('v eg \<times> 'v hashtable \<times> zref option) option" where
  "zend_hash_index_lookup g ht h = zend_hash_index_add_or_update_i g ht h UNINIT HASH_LOOKUP"

definition zend_hash_index_add_or_update :: "'v eg \<Rightarrow> 'v hashtable \<Rightarrow> u64 \<Rightarrow> 'v zval \<Rightarrow> u32 \<Rightarrow> ('v eg \<times> 'v hashtable \<times> zref option) option" where
  "zend_hash_index_add_or_update g ht h pData flag =
     (if flag = HASH_ADD then zend_hash_index_add g ht h pData
      else if flag = HASH_ADD OR HASH_ADD_NEW then zend_hash_index_add_new g ht h pData
      else if flag = HASH_ADD OR HASH_ADD_NEXT then zend_hash_next_index_insert g ht pData
      else if flag = HASH_ADD OR HASH_ADD_NEW OR HASH_ADD_NEXT then zend_hash_next_index_insert_new g ht pData
      else zend_hash_index_update g ht h pData)"

text \<open>Adding a \<open>NULL\<close> value.\<close>

definition zend_hash_index_add_empty_element :: "'v eg \<Rightarrow> 'v hashtable \<Rightarrow> u64 \<Rightarrow> ('v eg \<times> 'v hashtable \<times> zref option) option" where
  "zend_hash_index_add_empty_element g ht h = (let dummy = IS_NULL in zend_hash_index_add g ht h dummy)"

definition zend_hash_add_empty_element :: "'v eg \<Rightarrow> 'v hashtable \<Rightarrow> zstr \<Rightarrow> ('v eg \<times> 'v hashtable \<times> zref option) option" where
  "zend_hash_add_empty_element g ht key = (let dummy = IS_NULL in zend_hash_add g ht key dummy)"

definition zend_hash_str_add_empty_element :: "'v eg \<Rightarrow> 'v hashtable \<Rightarrow> u8 list \<Rightarrow> ('v eg \<times> 'v hashtable \<times> zref option) option" where
  "zend_hash_str_add_empty_element g ht str = (let dummy = IS_NULL in zend_hash_str_add g ht str dummy)"

subsection \<open>Appending a bucket\<close>

lemma linked_shape_cong:
  assumes "linked m hs bs n"
    and "\<And>j. j < n \<Longrightarrow> live (bs' ! j) = live (bs ! j) \<and> bh (bs' ! j) = bh (bs ! j) \<and> bnext (bs' ! j) = bnext (bs ! j)"
  shows "linked m hs bs' n"
proof -
  have slot: "bslot m (bs' ! j) = bslot m (bs ! j)" if "j < n" for j
    using assms(2) [OF that] by (simp add: bslot_def)
  have "chain_prev m bs' i s = chain_prev m bs i s" if "i \<le> n" for i s
    using that
  proof (induction i)
    case (Suc i)
    then show ?case using assms(2) [of i] slot [of i] by simp
  qed simp
  then show ?thesis using assms slot by (simp add: linked_def)
qed

lemma add_bucket_eq:
  "add_bucket ht k h v =
     (let s = slot_of (nTableMask ht) (ucast h OR nTableMask ht);
          b = \<lparr>bval = v, bh = h, bkey = k, bnext = arHash ht ! s\<rparr>
      in ht\<lparr>nNumUsed := Suc (nNumUsed ht), nNumOfElements := Suc (nNumOfElements ht),
            arData := (arData ht)[nNumUsed ht := b],
            arHash := (arHash ht)[s := nNumUsed ht]\<rparr>)"
  by (simp add: add_bucket_def set_HT_HASH_def HT_HASH_def nIndex_def Let_def)

lemma add_bucket_linked:
  assumes "linked (nTableMask ht) (arHash ht) (arData ht) (nNumUsed ht)"
    and "nNumUsed ht < length (arData ht)" and "v \<noteq> IS_UNDEF"
    and slots: "\<And>b :: 'v bucket. bslot (nTableMask ht) b < length (arHash ht)"
  shows "linked (nTableMask ht) (arHash (add_bucket ht k h v)) (arData (add_bucket ht k h (v :: 'v zval)))
           (Suc (nNumUsed ht))"
proof -
  let ?n = "nNumUsed ht" and ?m = "nTableMask ht"
  let ?b = "\<lparr>bval = v, bh = h, bkey = k, bnext = arHash ht ! slot_of ?m (ucast h OR ?m)\<rparr>"
  let ?bs = "(arData ht)[?n := ?b]"
  have "linked ?m (arHash ht) ?bs ?n" using assms(1) by (rule linked_cong) simp
  moreover have "live (?bs ! ?n)" using assms(2,3) by (simp add: live_def)
  ultimately have "linked ?m ((arHash ht)[bslot ?m (?bs ! ?n) := ?n]) (?bs[?n := ?b]) (Suc ?n)"
    using assms(2) slots [of ?b] by (intro linked_link) (simp_all add: bslot_def)
  then show ?thesis using assms(2) by (simp add: add_bucket_eq Let_def bslot_def)
qed

lemma add_bucket_shape:
  assumes "mixed_shape ht" and "nNumUsed ht < nTableSize ht"
    and v: "v \<noteq> IS_UNDEF" "v \<noteq> UNINIT"
    and key: "case k of None \<Rightarrow> True | Some s \<Rightarrow> h = ZSTR_H s \<and> (f_static_keys ht \<longrightarrow> zs_interned s)"
    and fresh: "kk = (case k of None \<Rightarrow> KInt h | Some s \<Rightarrow> KStr (zs_val s))" "kk \<notin> fst ` set (elems ht)"
  shows "mixed_shape (add_bucket ht k h v)"
    and "elems (add_bucket ht k h v) = elems ht @ [(kk, v)]"
proof -
  note D = mixed_shapeD [OF assms(1)]
  let ?n = "nNumUsed ht" and ?ht = "add_bucket ht k h v"
  obtain x where b: "arData ?ht = (arData ht)[?n := \<lparr>bval = v, bh = h, bkey = k, bnext = x\<rparr>]"
    by (simp add: add_bucket_eq Let_def)
  let ?b = "\<lparr>bval = v, bh = h, bkey = k, bnext = x\<rparr>"
  have f: "nNumUsed ?ht = Suc ?n" "nNumOfElements ?ht = Suc (nNumOfElements ht)" "f_packed ?ht = f_packed ht"
    "nTableMask ?ht = nTableMask ht" "nTableSize ?ht = nTableSize ht" "arPacked ?ht = arPacked ht"
    "length (arHash ?ht) = length (arHash ht)" "f_static_keys ?ht = f_static_keys ht"
    by (simp_all add: add_bucket_eq Let_def)
  have take: "take (Suc ?n) (arData ?ht) = take ?n (arData ht) @ [?b]"
    using assms(2) D(4) by (simp add: b take_Suc_conv_app_nth)
  have lb: "live_buckets ?ht = live_buckets ht @ [?b]"
    using v(1) by (simp add: live_buckets_def f(1) take live_def)
  have kb: "bucket_key ?b = kk" unfolding fresh(1) by (cases k) (simp_all add: bucket_key_def)
  show e: "elems ?ht = elems ht @ [(kk, v)]"
    using D(1) kb by (simp add: elems_def f(3) lb) (simp add: bucket_elem_def)
  have "kk \<notin> set (map bucket_key (live_buckets ht))"
    using fresh(2) D(1) by (auto simp: elems_def bucket_elem_def image_image)
  then have "distinct (map bucket_key (live_buckets ?ht))"
    using D(8) by (simp add: lb kb)
  moreover have "keys_ok (take (Suc ?n) (arData ?ht))"
    using D(7) v key by (auto simp: take keys_ok_def live_def split: option.splits)
  moreover have "f_static_keys ht \<longrightarrow> static_ok (take (Suc ?n) (arData ?ht))"
    using D(9) key by (auto simp: take static_ok_def split: option.splits)
  ultimately show "mixed_shape ?ht"
    unfolding mixed_shape_def f using D by (simp add: lb b)
qed

text \<open>Values a caller stores: initialised and not \<open>IS_UNDEF\<close>.\<close>

definition proper :: "'v zval \<Rightarrow> bool" where
  "proper v \<longleftrightarrow> v \<noteq> IS_UNDEF \<and> v \<noteq> UNINIT"

lemma proper_simps [simp]:
  "proper (ZVAL x)" "proper IS_NULL" "proper (IS_INDIRECT a)" "\<not> proper IS_UNDEF" "\<not> proper UNINIT"
  by (simp_all add: proper_def)

lemma proper_live: "proper (bval b) \<Longrightarrow> live b"
  by (simp add: proper_def live_def)

lemma add_bucket_wf:
  assumes "sizes_ok ht" "mixed_shape ht" "\<not> f_uninitialized ht"
    "linked (nTableMask ht) (arHash ht) (arData ht) (nNumUsed ht)"
    and "nNumUsed ht < nTableSize ht" and "proper v"
    and key: "case k of None \<Rightarrow> True | Some s \<Rightarrow> h = ZSTR_H s \<and> (f_static_keys ht \<longrightarrow> zs_interned s)"
    and fresh: "kk = (case k of None \<Rightarrow> KInt h | Some s \<Rightarrow> KStr (zs_val s))" "kk \<notin> fst ` set (elems ht)"
  shows "sizes_ok (add_bucket ht k h v)" "wf_mixed (add_bucket ht k h v)"
    "elems (add_bucket ht k h v) = elems ht @ [(kk, v)]"
proof -
  have v: "v \<noteq> IS_UNDEF" "v \<noteq> UNINIT" using assms(6) by (auto simp: proper_def)
  note shape = add_bucket_shape [OF assms(2,5) v key fresh]
  have "nNumUsed ht < length (arData ht)" using assms(5) mixed_shapeD(4) [OF assms(2)] by simp
  then have "linked (nTableMask ht) (arHash (add_bucket ht k h v)) (arData (add_bucket ht k h v))
           (Suc (nNumUsed ht))"
    using add_bucket_linked [OF assms(4) _ v(1) mixed_bslot_bound [OF assms(1,2)]] by blast
  then show "wf_mixed (add_bucket ht k h v)"
    using shape(1) unfolding wf_mixed_def by (simp add: add_bucket_eq Let_def)
  show "elems (add_bucket ht k h v) = elems ht @ [(kk, v)]" by (rule shape(2))
  show "sizes_ok (add_bucket ht k h v)"
    using assms(1,5) by (auto simp: sizes_ok_def add_bucket_eq Let_def)
qed

lemma add_bucket_frame [simp]:
  "f_uninitialized (add_bucket ht k h v) = f_uninitialized ht"
  "f_packed (add_bucket ht k h v) = f_packed ht"
  "nNextFreeElement (add_bucket ht k h v) = nNextFreeElement ht"
  "pDestructor (add_bucket ht k h v) = pDestructor ht"
  "ht_id (add_bucket ht k h v) = ht_id ht"
  "nNumUsed (add_bucket ht k h v) = Suc (nNumUsed ht)"
  "nTableSize (add_bucket ht k h v) = nTableSize ht"
  "nIteratorsCount (add_bucket ht k h v) = nIteratorsCount ht"
  by (simp_all add: add_bucket_eq Let_def)

lemma add_bucket_val:
  "mixed_shape ht \<Longrightarrow> nNumUsed ht < nTableSize ht \<Longrightarrow> bval (arData (add_bucket ht k h v) ! nNumUsed ht) = v"
  by (simp add: add_bucket_eq Let_def mixed_shape_def)

subsection \<open>Replacing a value in place\<close>

lemma AList_update_append:
  "AList.update k v (xs @ ys) =
     (if k \<in> fst ` set xs then AList.update k v xs @ ys else xs @ AList.update k v ys)"
  by (induction xs) auto

lemma AList_update_new: "k \<notin> fst ` set xs \<Longrightarrow> AList.update k v xs = xs @ [(k, v)]"
  using AList_update_append [of k v xs "[]"] by simp

lemma update_live_elems:
  assumes "distinct (map bucket_key (filter live xs))" and "j < length xs" and "live (xs ! j)"
    and "live b" and "bucket_key b = bucket_key (xs ! j)"
  shows "map bucket_elem (filter live (xs[j := b])) =
           AList.update (bucket_key b) (bval b) (map bucket_elem (filter live xs))"
  using assms
proof (induction xs arbitrary: j)
  case Nil
  then show ?case by simp
next
  case (Cons x xs)
  show ?case
  proof (cases j)
    case 0
    then show ?thesis using Cons.prems by (simp add: bucket_elem_def)
  next
    case (Suc i)
    have "xs ! i \<in> set (filter live xs)" using Cons.prems Suc by simp
    then have "live x \<Longrightarrow> bucket_key x \<noteq> bucket_key b"
      using Cons.prems(1,5) Suc by auto
    moreover have "map bucket_elem (filter live (xs[i := b])) =
           AList.update (bucket_key b) (bval b) (map bucket_elem (filter live xs))"
      using Cons.prems Suc by (intro Cons.IH) (auto split: if_splits)
    ultimately show ?thesis using Suc by (simp add: bucket_elem_def [of x])
  qed
qed

lemma take_list_update: "j < n \<Longrightarrow> take n (xs[j := y]) = (take n xs)[j := y]"
  by (simp add: take_update_swap)

lemma keys_ok_update:
  "keys_ok bs \<Longrightarrow> live b \<Longrightarrow> bval b \<noteq> UNINIT \<Longrightarrow> j < length bs \<Longrightarrow> bkey b = bkey (bs ! j) \<Longrightarrow>
   bh b = bh (bs ! j) \<Longrightarrow> keys_ok (bs[j := b])"
  unfolding keys_ok_def using set_update_subset_insert [of bs j b] nth_mem [of j bs]
  by (fastforce split: option.splits)

lemma static_ok_update:
  "static_ok bs \<Longrightarrow> j < length bs \<Longrightarrow> bkey b = bkey (bs ! j) \<Longrightarrow> static_ok (bs[j := b])"
  unfolding static_ok_def using set_update_subset_insert [of bs j b] nth_mem [of j bs]
  by (fastforce split: option.splits)


lemma next_free_ok_iff:
  "next_free_ok ht \<longleftrightarrow> (\<forall>k \<in> fst ` set (elems ht). case k of KStr s \<Rightarrow> True
        | KInt h \<Rightarrow> h <s nNextFreeElement ht \<or> nNextFreeElement ht = ZEND_LONG_MAX)"
  by (auto simp: next_free_ok_def split: prod.splits)

lemma next_free_ok_keys:
  "next_free_ok ht \<Longrightarrow> fst ` set (elems ht') \<subseteq> fst ` set (elems ht) \<Longrightarrow>
   nNextFreeElement ht' = nNextFreeElement ht \<Longrightarrow> next_free_ok ht'"
  unfolding next_free_ok_iff by (erule ssubst) blast

lemma bucket_key_cong: "bh a = bh b \<Longrightarrow> bkey a = bkey b \<Longrightarrow> bucket_key a = bucket_key b"
  by (simp add: bucket_key_def split: option.split)

lemma bucket_key_bval [simp]: "bucket_key (b\<lparr>bval := v\<rparr>) = bucket_key b"
  by (rule bucket_key_cong) simp_all

lemma set_bucket_val_wf:
  assumes "wf_ht ht" "\<not> f_uninitialized ht" "\<not> f_packed ht"
    and j: "j < nNumUsed ht" "live (arData ht ! j)" and v: "proper v"
    and ht': "ht' = ht\<lparr>arData := (arData ht)[j := (arData ht ! j)\<lparr>bval := v\<rparr>]\<rparr>"
  shows "wf_ht ht'" and "elems ht' = AList.update (bucket_key (arData ht ! j)) v (elems ht)"
proof -
  note W = wf_htD [OF assms(1)]
  note shape = W(5) [OF assms(2,3)] and S = sizes_okD [OF W(1)]
  note D = mixed_shapeD [OF shape]
  let ?b = "(arData ht ! j)\<lparr>bval := v\<rparr>" and ?bs = "take (nNumUsed ht) (arData ht)"
  have len: "j < length ?bs" "j < length (arData ht)" using j D(4) S(3) by simp_all
  have b: "live ?b" "bucket_key ?b = bucket_key (?bs ! j)" "bval ?b = v" "?bs ! j = arData ht ! j"
    using v j by (simp_all add: live_def proper_def)
  have take: "take (nNumUsed ht) ((arData ht)[j := ?b]) = ?bs[j := ?b]"
    using j(1) by (rule take_list_update)
  have dist: "distinct (map bucket_key (filter live ?bs))" using D(8) by (simp add: live_buckets_def)
  have f: "nNumUsed ht' = nNumUsed ht" "arData ht' = (arData ht)[j := ?b]" "f_packed ht' = f_packed ht"
    by (simp_all add: ht')
  have "map bucket_elem (live_buckets ht') = AList.update (bucket_key ?b) (bval ?b) (map bucket_elem (live_buckets ht))"
    unfolding live_buckets_def f take
    using dist len(1) _ b(1,2) by (rule update_live_elems) (use b j in simp)
  then show e: "elems ht' = AList.update (bucket_key (arData ht ! j)) v (elems ht)"
    using assms(3) b by (simp add: elems_def f)
  have mem: "(bucket_key (arData ht ! j)) \<in> fst ` set (elems ht)"
    using live_bucketsI [OF j(1) len(2) j(2)] assms(3)
    by (force simp: elems_def bucket_elem_def image_image)
  have keys: "map fst (elems ht') = map fst (elems ht)"
    unfolding e using mem by (simp add: update_keys)
  then have "length (live_buckets ht') = length (live_buckets ht)"
    using assms(3) by (metis elems_def f(3) length_map)
  moreover have "map bucket_key (live_buckets ht') = map bucket_key (live_buckets ht)"
    using keys assms(3) by (simp add: map_bucket_key_elem elems_def f(3))
  moreover have "keys_ok (?bs[j := ?b])"
    using D(7) b(1) v len(1) j by (intro keys_ok_update) (auto simp: proper_def)
  moreover have "f_static_keys ht \<longrightarrow> static_ok (?bs[j := ?b])"
    using D(9) len(1) j by (intro impI static_ok_update) auto
  ultimately have "mixed_shape ht'"
    using D unfolding mixed_shape_def f take by (simp add: ht')
  moreover have "linked (nTableMask ht') (arHash ht') (arData ht') (nNumUsed ht')"
  proof -
    have "linked (nTableMask ht) (arHash ht) ((arData ht)[j := ?b]) (nNumUsed ht)"
      by (rule linked_shape_cong [OF W(6) [OF assms(2,3)]])
        (use b(1) j len(2) in \<open>auto simp: nth_list_update\<close>)
    then show ?thesis by (simp add: ht')
  qed
  moreover have "next_free_ok ht'"
    using W(2) arg_cong [OF keys, of set] by (intro next_free_ok_keys [OF W(2)]) (simp_all add: ht')
  ultimately show "wf_ht ht'"
    using W(1) assms(2,3) by (simp add: wf_ht_def wf_mixed_def sizes_ok_def ht')
qed

lemma packed_elems_cong:
  "(\<And>i. i < n \<Longrightarrow> zs ! i = zs' ! i) \<Longrightarrow> packed_elems zs n = packed_elems zs' n"
  unfolding packed_elems_def by (intro map_cong filter_cong) auto

lemma packed_elems_Suc:
  "packed_elems zs (Suc n) =
     packed_elems zs n @ (if is_undef (zs ! n) then [] else [(KInt (of_nat n), zs ! n)])"
  by (simp add: packed_elems_def)

lemma packed_key_less:
  "KInt h \<in> fst ` set (packed_elems zs n) \<Longrightarrow> n < HT_INVALID_IDX \<Longrightarrow> unat h < n"
  by (auto simp: packed_elems_def unat_of_index)

lemma packed_elems_update:
  assumes "i < n" "n < HT_INVALID_IDX" "n \<le> length zs" "\<not> is_undef (zs ! i)" "\<not> is_undef v"
  shows "packed_elems (zs[i := v]) n = AList.update (KInt (of_nat i)) v (packed_elems zs n)"
  using assms
proof (induction n)
  case (Suc n)
  have old: "KInt (of_nat i) \<in> fst ` set (packed_elems zs n)" if "i < n"
    using that Suc.prems(4) by (force simp: packed_elems_def)
  have new: "KInt (of_nat n) \<notin> fst ` set (packed_elems zs n)"
    using packed_key_less [of "of_nat n" zs n] Suc.prems(2) by (auto simp: unat_of_index)
  show ?case
  proof (cases "i < n")
    case True
    then show ?thesis using Suc.prems Suc.IH old
      by (simp add: packed_elems_Suc AList_update_append)
  next
    case False
    then have i: "i = n" using Suc.prems by simp
    have "packed_elems (zs[i := v]) n = packed_elems zs n"
      by (rule packed_elems_cong) (simp add: i)
    then show ?thesis using Suc.prems new i
      by (simp add: packed_elems_Suc AList_update_append)
  qed
qed simp

lemma filter_live_update_length:
  "j < length xs \<Longrightarrow> P (xs ! j) = P y \<Longrightarrow> length (filter P (xs[j := y])) = length (filter P xs)"
proof (induction xs arbitrary: j)
  case (Cons x xs)
  then show ?case by (cases j) auto
qed simp

lemma set_packed_val_wf:
  assumes "wf_ht ht" "f_packed ht"
    and j: "j < nNumUsed ht" "\<not> is_undef (arPacked ht ! j)" and v: "proper v"
    and ht': "ht' = ht\<lparr>arPacked := (arPacked ht)[j := v]\<rparr>"
  shows "wf_ht ht'" and "elems ht' = AList.update (KInt (of_nat j)) v (elems ht)"
proof -
  note P = wf_packed_hash [OF assms(1,2)] and W = wf_htD [OF assms(1)]
  note S = sizes_okD [OF P(2)]
  have v': "\<not> is_undef v" "v \<noteq> UNINIT" using v by (auto simp: proper_def)
  have lt: "nNumUsed ht < HT_INVALID_IDX" using S(4) .
  show e: "elems ht' = AList.update (KInt (of_nat j)) v (elems ht)"
    using packed_elems_update [OF j(1) lt P(4) j(2) v'(1)] assms(2) by (simp add: elems_def ht')
  have wp: "wf_packed ht" using W(4) P(1) assms(2) by blast
  have take: "take (nNumUsed ht) ((arPacked ht)[j := v]) = (take (nNumUsed ht) (arPacked ht))[j := v]"
    using j(1) by (rule take_list_update)
  have "UNINIT \<notin> set ((take (nNumUsed ht) (arPacked ht))[j := v])"
    using P(5) v'(2) set_update_subset_insert by fastforce
  moreover have "length (filter (\<lambda>v. \<not> is_undef v) ((take (nNumUsed ht) (arPacked ht))[j := v])) =
      length (filter (\<lambda>v. \<not> is_undef v) (take (nNumUsed ht) (arPacked ht)))"
    using j P(4) v' by (intro filter_live_update_length) auto
  ultimately have "wf_packed ht'"
    using wp by (simp add: wf_packed_def ht' take no_data_def)
  moreover have "KInt (of_nat j) \<in> fst ` set (elems ht)"
    using j assms(2) by (force simp: elems_def packed_elems_def)
  then have "map fst (elems ht') = map fst (elems ht)" unfolding e by (simp add: update_keys)
  then have "next_free_ok ht'"
    using arg_cong [of _ _ set] by (intro next_free_ok_keys [OF P(7)]) (auto simp: ht' simp flip: set_map)
  ultimately show "wf_ht ht'" using P(1,2) assms(2) by (simp add: wf_ht_def sizes_ok_def ht')
qed

subsection \<open>What the operations leave of the global state\<close>

definition only_iterators :: "'v eg \<Rightarrow> 'v eg \<Rightarrow> bool" where
  "only_iterators g g' \<longleftrightarrow> (\<exists>its. g' = g\<lparr>ht_iterators := its\<rparr>)"

lemma only_iterators_refl [simp]: "only_iterators g g"
  unfolding only_iterators_def by (rule exI [of _ "ht_iterators g"]) simp

lemma only_iterators_trans [trans]:
  "only_iterators a b \<Longrightarrow> only_iterators b c \<Longrightarrow> only_iterators a c"
  unfolding only_iterators_def by force

lemma only_iteratorsD:
  assumes "only_iterators g g'"
  shows "ind_slots g' = ind_slots g" "dtor_log g' = dtor_log g" "key_refs g' = key_refs g"
    "ht_iterators_used g' = ht_iterators_used g"
  using assms by (auto simp: only_iterators_def)

lemma only_iterators_map_used: "only_iterators g (map_used_iterators f g)"
  unfolding only_iterators_def map_used_iterators_def by blast

lemma only_iterators_update: "only_iterators g (zend_hash_iterators_update ht a b g)"
  by (simp add: zend_hash_iterators_update_def zend_hash_iterators_update_all_def only_iterators_map_used)

lemma only_iterators_migrate:
  assumes "migrate_iterators ht i j p g = Some r"
  shows "only_iterators g (fst r)"
proof (rule migrate_iterators.raw_induct [where P = "\<lambda>_ _ _ _ g r. only_iterators g (fst r)", OF _ assms])
  fix rec :: "'a hashtable \<Rightarrow> nat \<Rightarrow> nat \<Rightarrow> nat \<Rightarrow> 'a eg \<Rightarrow> ('a eg \<times> nat) option"
    and ht :: "'a hashtable" and i j p and g :: "'a eg" and r
  assume IH: "\<And>ht i j p g r. rec ht i j p g = Some r \<Longrightarrow> only_iterators g (fst r)"
  let ?g = "zend_hash_iterators_update ht p j g"
  let ?p = "zend_hash_iterators_lower_pos ?g ht (p + 1)"
  assume *: "(let g = zend_hash_iterators_update ht p j g; p = zend_hash_iterators_lower_pos g ht (p + 1)
     in if p < i then rec ht i j p g else Some (g, p)) = Some r"
  show "only_iterators g (fst r)"
  proof (cases "?p < i")
    case True
    then have "only_iterators ?g (fst r)" using * IH by (simp add: Let_def)
    then show ?thesis using only_iterators_update only_iterators_trans by blast
  next
    case False
    then show ?thesis using * only_iterators_update by (auto simp: Let_def)
  qed
qed

lemma only_iterators_compact:
  "rehash_compact_iter i j p g ht = Some r \<Longrightarrow> only_iterators g (fst (snd r))"
proof (induction i j ht arbitrary: p g r rule: rehash_compact.induct)
  case (1 i j ht)
  show ?case
  proof (cases "Suc i < nNumUsed ht \<and> live (arData ht ! Suc i)")
    case True
    let ?ht = "move_bucket (Suc i) j ht"
    show ?thesis
    proof (cases "p \<le> Suc i")
      case le: True
      with "1.prems" True obtain m where m: "migrate_iterators ?ht (Suc i) j p g = Some m"
        "rehash_compact_iter (Suc i) (Suc j) (snd m) (fst m) ?ht = Some r"
        unfolding rehash_compact_iter.simps [of i j p g ht]
        by (auto simp: Let_def split: option.splits prod.splits)
      have "only_iterators (fst m) (fst (snd r))"
        using "1.IH"(1) [of "Suc i" "snd m" "fst m" r] True m by simp
      then show ?thesis using only_iterators_migrate [OF m(1)] only_iterators_trans by blast
    next
      case False
      then show ?thesis using "1.IH"(1) [of "Suc i" p g r] "1.prems" True
        unfolding rehash_compact_iter.simps [of i j p g ht] by (simp add: Let_def)
    qed
  next
    case False
    then show ?thesis using "1.IH"(2) [of "Suc i" p g r] "1.prems"
      unfolding rehash_compact_iter.simps [of i j p g ht] by (auto split: if_splits)
  qed
qed

lemma only_iterators_scan:
  "rehash_scan i g ht = Some r \<Longrightarrow> only_iterators g (fst r)"
proof (induction i g ht rule: rehash_scan.induct)
  case (1 i g ht)
  show ?case
  proof (cases "i < nNumUsed ht \<and> live (arData ht ! i)")
    case True
    then show ?thesis using "1.IH" "1.prems" unfolding rehash_scan.simps [of i g ht] by simp
  next
    case False
    then show ?thesis using "1.prems" unfolding rehash_scan.simps [of i g ht]
      by (auto split: if_splits option.splits prod.splits dest: only_iterators_compact)
  qed
qed

lemma only_iterators_rehash:
  "zend_hash_rehash g ht = Some (g', ht') \<Longrightarrow> only_iterators g g'"
  by (auto simp: zend_hash_rehash_def zend_hash_iterators_update_all_def Let_def
      split: if_splits option.splits prod.splits
      dest!: only_iterators_scan intro: only_iterators_trans only_iterators_map_used)

lemma only_iterators_resize:
  "zend_hash_if_full_do_resize g ht = Some (g', ht') \<Longrightarrow> only_iterators g g'"
  "zend_hash_packed_to_hash g ht = Some (g', ht') \<Longrightarrow> only_iterators g g'"
  by (auto simp: zend_hash_if_full_do_resize_def zend_hash_do_resize_def zend_hash_packed_to_hash_def
      split: if_splits dest: only_iterators_rehash)

end
