(* ===== verification/ZendHashInsert.thy ===== *)
theory ZendHashInsert
  imports ZendHashAdd
begin

text \<open>
  What the insertions of \<open>ZendHashAdd\<close> do to a well-formed table: \<open>ready\<close> describes the mixed table
  with room for one bucket that each of them works on (after the first allocation, the conversion
  of a packed table or the growth of a full one), and the lemmas below give the effect of each
  flag on the element list, the returned reference and the calls of the destructor.
\<close>

text \<open>How far an insertion may enlarge a table.\<close>

definition grown :: "'v hashtable \<Rightarrow> 'v hashtable \<Rightarrow> bool" where
  "grown ht ht' \<longleftrightarrow> \<not> f_uninitialized ht' \<and>
     (if f_packed ht' then (f_packed ht \<or> f_uninitialized ht) \<and>
        (nTableSize ht' = nTableSize ht \<or>
         nTableSize ht' = 2 * nTableSize ht \<and> nTableSize ht div 2 < nNumOfElements ht)
      else if f_packed ht \<or> f_uninitialized ht then nTableSize ht' \<le> 2 * nTableSize ht
      else nTableSize ht' = nTableSize ht \<or>
        nTableSize ht' = 2 * nTableSize ht \<and> nTableSize ht \<le> nNumOfElements ht + nNumOfElements ht div 32)"

lemma grown_same:
  "\<not> f_uninitialized ht' \<Longrightarrow> f_packed ht' = f_packed ht \<Longrightarrow> f_uninitialized ht = f_uninitialized ht' \<Longrightarrow>
   nTableSize ht' = nTableSize ht \<Longrightarrow> grown ht ht'"
  by (simp add: grown_def)

definition ready :: "'v hashtable \<Rightarrow> 'v hashtable \<Rightarrow> bool" where
  "ready ht0 ht \<longleftrightarrow> wf_ht ht \<and> \<not> f_uninitialized ht \<and> \<not> f_packed ht \<and> nNumUsed ht < nTableSize ht \<and>
     elems ht = elems ht0 \<and> nNextFreeElement ht = nNextFreeElement ht0 \<and>
     pDestructor ht = pDestructor ht0 \<and> ht_id ht = ht_id ht0 \<and> grown ht0 ht"

lemma reorganised_ready:
  "reorganised ht ht' \<Longrightarrow> nNumUsed ht' < nTableSize ht' \<Longrightarrow> grown ht ht' \<Longrightarrow> ready ht ht'"
  by (simp add: reorganised_def ready_def)

lemma real_init_mixed_ready:
  assumes "wf_ht ht" "f_uninitialized ht"
  shows "ready ht (zend_hash_real_init_mixed ht)"
proof -
  let ?ht = "zend_hash_real_init_mixed ht"
  note W = wf_htD [OF assms(1)] and U = wf_uninitD [OF assms]
  note S = sizes_okD [OF W(1)]
  have f: "nNumUsed ?ht = 0" "nTableSize ?ht = nTableSize ht" "nNumOfElements ?ht = 0" "\<not> f_packed ?ht"
    "\<not> f_uninitialized ?ht" "nNextFreeElement ?ht = nNextFreeElement ht" "arPacked ?ht = []"
    "arData ?ht = replicate (nTableSize ht) fresh_bucket" "pDestructor ?ht = pDestructor ht"
    "ht_id ?ht = ht_id ht" "nTableMask ?ht = HT_SIZE_TO_MASK (nTableSize ht)"
    using U by (simp_all add: zend_hash_real_init_mixed_def zend_hash_real_init_mixed_ex_def Let_def HT_HASH_RESET_def)
  have "HT_SIZE_TO_MASK HT_MIN_SIZE = (- 16 :: u32)" by (simp add: HT_SIZE_TO_MASK_def HT_MIN_SIZE_def)
  then have h: "arHash ?ht = replicate (ht_slots (nTableMask ?ht)) HT_INVALID_IDX"
    by (auto simp: zend_hash_real_init_mixed_def zend_hash_real_init_mixed_ex_def Let_def HT_HASH_RESET_def ht_slots_def)
  have lb: "live_buckets ?ht = []" by (simp add: live_buckets_def f)
  have e: "elems ?ht = elems ht" using U by (simp add: elems_def f lb)
  have "mixed_shape ?ht" by (simp add: mixed_shape_def f h lb keys_ok_def static_ok_def)
  moreover have "linked (nTableMask ?ht) (arHash ?ht) (arData ?ht) (nNumUsed ?ht)"
    by (simp add: f h linked_init)
  moreover have "sizes_ok ?ht" using W(1) by (simp add: sizes_ok_def f)
  moreover have "next_free_ok ?ht" using W(2) next_free_ok_cong [OF e f(6)] by blast
  moreover have "grown ht ?ht" using f U(3) by (simp add: grown_def)
  ultimately show ?thesis using S f e by (simp add: ready_def wf_ht_def wf_mixed_def)
qed

lemma do_resize_returns:
  assumes "wf_ht ht" "\<not> f_uninitialized ht" "\<not> f_packed ht" "nTableSize ht < HT_MAX_SIZE"
  shows "\<exists>g' ht'. zend_hash_do_resize g ht = Some (g', ht')"
proof -
  note W = wf_htD [OF assms(1)]
  note sh = W(5) [OF assms(2,3)]
  let ?ht = "realloc_mixed (nTableSize ht + nTableSize ht) ht"
  have "mixed_shape ?ht" "sizes_ok ?ht" "\<not> f_uninitialized ?ht"
    using realloc_mixed_shape [OF sh W(1)] sizes_okD(3) [OF W(1)]
      sizes_ok_realloc [OF sizes_ok_double [OF W(1) assms(4)]] assms(2) by simp_all
  then show ?thesis
    using zend_hash_rehash_correct [of ?ht g] zend_hash_rehash_correct [OF W(1) sh assms(2), of g] assms(4)
    by (auto simp: zend_hash_do_resize_def)
qed

lemma do_resize_grown:
  assumes "wf_ht ht" "\<not> f_uninitialized ht" "\<not> f_packed ht" "nNumUsed ht \<ge> nTableSize ht"
    and r: "zend_hash_do_resize g ht = Some (g', ht')"
  shows "grown ht ht'"
proof -
  note W = wf_htD [OF assms(1)]
  note sh = W(5) [OF assms(2,3)]
  have R: "reorganised ht ht'" using zend_hash_do_resize_correct(1) [OF assms(1-3) r] .
  have size: "nTableSize h' = nTableSize h" if "zend_hash_rehash g h = Some (g', h')" "sizes_ok h" "mixed_shape h" "\<not> f_uninitialized h"
    for h h' :: "'a hashtable" and g g'
    using zend_hash_rehash_correct [OF that(2-4), of g] that(1) rehashed_frame(2) by fastforce
  show ?thesis
  proof (cases "nNumUsed ht > nNumOfElements ht + nNumOfElements ht div 32")
    case True
    then have "nTableSize ht' = nTableSize ht"
      using r size [OF _ W(1) sh assms(2)] by (simp add: zend_hash_do_resize_def)
    then show ?thesis using R assms(2,3) by (simp add: grown_def reorganised_def)
  next
    case False
    let ?n = "nTableSize ht + nTableSize ht"
    have lt: "nTableSize ht < HT_MAX_SIZE" and r': "zend_hash_rehash g (realloc_mixed ?n ht) = Some (g', ht')"
      using False r by (simp_all add: zend_hash_do_resize_def split: if_splits)
    have "nTableSize ht' = nTableSize (realloc_mixed ?n ht)"
      using size [OF r'] realloc_mixed_shape [OF sh W(1)] sizes_okD(3) [OF W(1)]
        sizes_ok_realloc [OF sizes_ok_double [OF W(1) lt]] assms(2) by simp
    then show ?thesis using R False assms by (simp add: grown_def reorganised_def)
  qed
qed

lemma if_full_ready:
  assumes "wf_ht ht" "\<not> f_uninitialized ht" "\<not> f_packed ht" "nTableSize ht < HT_MAX_SIZE"
  obtains g' ht' where "zend_hash_if_full_do_resize g ht = Some (g', ht')" "ready ht ht'" "only_iterators g g'"
proof (cases "nNumUsed ht \<ge> nTableSize ht")
  case True
  obtain g' ht' where r: "zend_hash_do_resize g ht = Some (g', ht')"
    using do_resize_returns [OF assms] by blast
  then have "zend_hash_if_full_do_resize g ht = Some (g', ht')"
    using True by (simp add: zend_hash_if_full_do_resize_def)
  then show thesis
    using that only_iterators_resize(1) do_resize_grown [OF assms(1-3) True r]
      reorganised_ready [OF zend_hash_do_resize_correct [OF assms(1-3) r]] by blast
next
  case False
  then have "zend_hash_if_full_do_resize g ht = Some (g, ht)"
    by (simp add: zend_hash_if_full_do_resize_def)
  then show thesis using that assms False by (simp add: ready_def grown_same)
qed

lemma packed_ready:
  assumes "wf_ht ht" "f_packed ht" "nTableSize ht < HT_MAX_SIZE"
  obtains g1 ht1 g2 ht2 where "zend_hash_packed_to_hash g ht = Some (g1, ht1)"
    "zend_hash_if_full_do_resize g1 ht1 = Some (g2, ht2)" "ready ht ht2" "only_iterators g g2"
proof -
  obtain g1 ht1 where r: "zend_hash_packed_to_hash g ht = Some (g1, ht1)" "reorganised ht ht1"
    "nTableSize ht1 = nTableSize ht"
    using packed_to_hash_wf [OF assms(1,2)] by metis
  then obtain g2 ht2 where "zend_hash_if_full_do_resize g1 ht1 = Some (g2, ht2)" "ready ht1 ht2" "only_iterators g1 g2"
    using if_full_ready [of ht1 g1] assms(3) by (auto simp: reorganised_def)
  moreover have "ready ht ht2" using r(2,3) \<open>ready ht1 ht2\<close> assms(2)
    by (auto simp: reorganised_def ready_def grown_def)
  ultimately show thesis
    using that [OF r(1)] only_iterators_resize(2) [OF r(1)] only_iterators_trans by blast
qed

lemma ready_add:
  assumes "ready ht0 ht" and "proper v" and "b \<longrightarrow> f_static_keys ht"
    and key: "case k of None \<Rightarrow> True | Some s \<Rightarrow> h = ZSTR_H s \<and> (b \<longrightarrow> zs_interned s)"
    and fresh: "kk = (case k of None \<Rightarrow> KInt h | Some s \<Rightarrow> KStr (zs_val s))" "kk \<notin> fst ` set (elems ht0)"
    and ht': "ht' = add_bucket (ht\<lparr>f_static_keys := b\<rparr>) k h v"
  shows "sizes_ok ht'" "wf_mixed ht'" "elems ht' = elems ht0 @ [(kk, v)]"
    "bval (arData ht' ! nNumUsed ht) = v" "refers ht' kk (BucketVal (nNumUsed ht))"
proof -
  let ?ht = "ht\<lparr>f_static_keys := b\<rparr>"
  have R: "wf_ht ht" "\<not> f_uninitialized ht" "\<not> f_packed ht" "nNumUsed ht < nTableSize ht" "elems ht = elems ht0"
    using assms(1) by (auto simp: ready_def)
  note W = wf_htD [OF R(1)]
  have lb: "live_buckets ?ht = live_buckets ht" by (simp add: live_buckets_def)
  have sh: "mixed_shape ?ht"
    using W(5) [OF R(2,3)] assms(3) unfolding mixed_shape_def lb by (simp del: not_None_eq)
  have "elems ?ht = elems ht" by (simp add: elems_def lb)
  then have e: "elems ?ht = elems ht0" using R(5) by simp
  show "sizes_ok ht'" "wf_mixed ht'" "elems ht' = elems ht0 @ [(kk, v)]"
    unfolding ht' using add_bucket_wf [of ?ht v h k kk] R W(1) W(6) [OF R(2,3)] sh assms(2) key fresh e
    by (auto simp: sizes_ok_def split: option.splits)
  show "bval (arData ht' ! nNumUsed ht) = v"
    unfolding ht' using add_bucket_val [OF sh] R(4) by simp
  have "bkey (arData ht' ! nNumUsed ht) = k" "bh (arData ht' ! nNumUsed ht) = h"
    using mixed_shapeD(4) [OF sh] R(4) by (simp_all add: ht' add_bucket_eq Let_def)
  then have "bucket_key (arData ht' ! nNumUsed ht) = kk" unfolding fresh(1) by (simp add: bucket_key_def split: option.split)
  moreover have "\<not> f_uninitialized ht'" "\<not> f_packed ht'" "nNumUsed ht < nNumUsed ht'" using R by (simp_all add: ht')
  ultimately show "refers ht' kk (BucketVal (nNumUsed ht))"
    using \<open>bval (arData ht' ! nNumUsed ht) = v\<close> assms(2) by (simp add: refers_def live_def proper_def)
qed

lemma next_free_append:
  "next_free_ok ht0 \<Longrightarrow> elems ht = elems ht0 @ [(KStr s, v)] \<Longrightarrow>
   nNextFreeElement ht = nNextFreeElement ht0 \<Longrightarrow> next_free_ok ht"
  unfolding next_free_ok_iff by (auto split: hkey.splits)

lemma static_flag_same: "ht\<lparr>f_static_keys := f_static_keys ht\<rparr> = ht"
  by simp

text \<open>The block \<open>add_to_hash\<close> for a string key.\<close>

lemma ready_add_str:
  assumes "ready ht0 ht" and "wf_ht ht0" and "proper v" and "KStr (zs_val key) \<notin> fst ` set (elems ht0)"
    and b: "b \<longrightarrow> f_static_keys ht" "b \<longrightarrow> zs_interned key"
    and ht': "ht' = add_bucket (ht\<lparr>f_static_keys := b\<rparr>) (Some key) (ZSTR_H key) v"
  shows "wf_ht ht'" "elems ht' = elems ht0 @ [(KStr (zs_val key), v)]"
    "zref_val g ht' (BucketVal (nNumUsed ht)) = v" "pDestructor ht' = pDestructor ht0"
    "refers ht' (KStr (zs_val key)) (BucketVal (nNumUsed ht))"
proof -
  note A = ready_add [OF assms(1,3) b(1) _ _ assms(4), of "ZSTR_H key" "Some key"]
  have R: "\<not> f_uninitialized ht" "\<not> f_packed ht" "nNextFreeElement ht = nNextFreeElement ht0"
    "pDestructor ht = pDestructor ht0"
    using assms(1) by (auto simp: ready_def)
  show e: "elems ht' = elems ht0 @ [(KStr (zs_val key), v)]" using A(3) b(2) ht' by auto
  show "wf_ht ht'" unfolding wf_ht_def
    using A(1,2) b(2) R next_free_append [OF wf_htD(2) [OF assms(2)] e] by (simp add: ht')
  show "zref_val g ht' (BucketVal (nNumUsed ht)) = v"
    using A(4) b(2) ht' by (auto simp: zref_val_def)
  show "pDestructor ht' = pDestructor ht0" using R by (simp add: ht')
  show "refers ht' (KStr (zs_val key)) (BucketVal (nNumUsed ht))" using A(5) b(2) ht' by auto
qed

subsection \<open>A new string key\<close>

definition inserted :: "'v eg \<Rightarrow> 'v hashtable \<Rightarrow> hkey \<Rightarrow> 'v zval \<Rightarrow> ('v eg \<times> 'v hashtable \<times> zref option) option \<Rightarrow> bool" where
  "inserted g ht k v res \<longleftrightarrow> (\<exists>g' ht' r. res = Some (g', ht', Some r) \<and> wf_ht ht' \<and>
     elems ht' = elems ht @ [(k, v)] \<and> refers ht' k r \<and> zref_val g' ht' r = v \<and>
     dtor_log g' = dtor_log g \<and> ind_slots g' = ind_slots g \<and>
     pDestructor ht' = pDestructor ht \<and> ht_id ht' = ht_id ht \<and> grown ht ht')"

lemma grown_add_bucket:
  "grown ht ht1 \<Longrightarrow> \<not> f_packed ht1 \<Longrightarrow> grown ht (add_bucket (ht1\<lparr>f_static_keys := b\<rparr>) k h v)"
  by (simp add: grown_def)

lemma insert_paths:
  assumes "wf_ht ht" and "nTableSize ht < HT_MAX_SIZE"
    and add: "\<And>g1 ht1. ready ht ht1 \<Longrightarrow> only_iterators g g1 \<Longrightarrow> P (add (g1, ht1))"
  shows "f_uninitialized ht \<Longrightarrow> P (add (g, zend_hash_real_init_mixed ht))"
    and "f_packed ht \<Longrightarrow> P (do {
        (g, ht) \<leftarrow> zend_hash_packed_to_hash g ht;
        (g, ht) \<leftarrow> zend_hash_if_full_do_resize g ht;
        add (g, ht) })"
    and "\<not> f_uninitialized ht \<Longrightarrow> \<not> f_packed ht \<Longrightarrow> P (do {
        (g, ht) \<leftarrow> zend_hash_if_full_do_resize g ht;
        add (g, ht) })"
proof -
  show "f_uninitialized ht \<Longrightarrow> P (add (g, zend_hash_real_init_mixed ht))"
    using add [OF real_init_mixed_ready [OF assms(1)]] by simp
  show "f_packed ht \<Longrightarrow> P (do {
        (g, ht) \<leftarrow> zend_hash_packed_to_hash g ht;
        (g, ht) \<leftarrow> zend_hash_if_full_do_resize g ht;
        add (g, ht) })"
    using packed_ready [OF assms(1) _ assms(2), of g] add by fastforce
  show "\<not> f_uninitialized ht \<Longrightarrow> \<not> f_packed ht \<Longrightarrow> P (do {
        (g, ht) \<leftarrow> zend_hash_if_full_do_resize g ht;
        add (g, ht) })"
    using if_full_ready [OF assms(1) _ _ assms(2), of g] add by fastforce
qed

lemma string_addref_frame [simp]:
  "dtor_log (zend_string_addref s g) = dtor_log g" "ind_slots (zend_string_addref s g) = ind_slots g"
  "ht_iterators (zend_string_addref s g) = ht_iterators g"
  by (simp_all add: zend_string_addref_def)

lemma not_in_keys_lookup_idx:
  assumes "wf_ht ht" "\<not> f_packed ht" "k \<notin> fst ` set (elems ht)"
  shows "lookup_idx ht k = None"
  using abs_find_mixed [OF assms(1,2), of k] assms(3) map_of_eq_None_iff [of "elems ht" k]
  by (simp add: abs_find_def)

lemma add_or_update_new:
  assumes "wf_ht ht" and "nTableSize ht < HT_MAX_SIZE" and "proper (new_value flag pData)"
    and "KStr (zs_val key) \<notin> fst ` set (elems ht)"
  shows "inserted g ht (KStr (zs_val key)) (new_value flag pData) (zend_hash_add_or_update_i g ht key pData flag)"
proof -
  let ?add = "\<lambda>(g, ht).
      (let (g, ht) = (if \<not> zs_interned key
                      then (zend_string_addref key g, ht\<lparr>f_static_keys := False\<rparr>) else (g, ht));
           idx = nNumUsed ht
       in Some (g, add_bucket ht (Some key) (ZSTR_H key) (new_value flag pData), Some (BucketVal idx)))"
  have add: "inserted g ht (KStr (zs_val key)) (new_value flag pData) (?add (g1, ht1))"
    if "ready ht ht1" "only_iterators g g1" for g1 and ht1 :: "'a hashtable"
  proof -
    define b where "b = (f_static_keys ht1 \<and> zs_interned key)"
    have b: "b \<longrightarrow> f_static_keys ht1" "b \<longrightarrow> zs_interned key" by (auto simp: b_def)
    note A = ready_add_str [OF that(1) assms(1,3,4) b refl]
    have "ht_id ht1 = ht_id ht" "grown ht (add_bucket (ht1\<lparr>f_static_keys := b\<rparr>) (Some key) (ZSTR_H key) (new_value flag pData))"
      using that(1) by (auto simp: ready_def intro: grown_add_bucket)
    then show ?thesis
      using A only_iteratorsD [OF that(2)]
      by (cases "zs_interned key") (auto simp: inserted_def b_def static_flag_same)
  qed
  have "zend_hash_find_bucket ht key = Some None" if "\<not> f_packed ht"
    using find_bucket_correct(1) [OF assms(1)] not_in_keys_lookup_idx [OF assms(1) that assms(4)] that by simp
  then show ?thesis
    unfolding zend_hash_add_or_update_i_def Let_def [of ?add]
    using insert_paths [where P = "inserted g ht (KStr (zs_val key)) (new_value flag pData)" and add = ?add,
        OF assms(1,2) add]
    by (auto simp del: split_paired_All simp: wf_packed_hash)
qed

lemma str_add_or_update_new:
  assumes "wf_ht ht" and "nTableSize ht < HT_MAX_SIZE" and "proper (new_value flag pData)"
    and "KStr str \<notin> fst ` set (elems ht)" and "h = zend_inline_hash_func str"
  shows "inserted g ht (KStr str) (new_value flag pData) (zend_hash_str_add_or_update_i g ht str h pData flag)"
proof -
  let ?key = "\<lparr>zs_val = str, zs_interned = False\<rparr>"
  let ?add = "\<lambda>(g, ht).
      (let idx = nNumUsed ht;
           key = ?key;
           g = zend_string_addref key g;
           ht = ht\<lparr>f_static_keys := False\<rparr>
       in Some (g, add_bucket ht (Some key) h (new_value flag pData), Some (BucketVal idx)))"
  have add: "inserted g ht (KStr str) (new_value flag pData) (?add (g1, ht1))"
    if "ready ht ht1" "only_iterators g g1" for g1 and ht1 :: "'a hashtable"
  proof -
    note A = ready_add_str [OF that(1) assms(1,3) _ _ _ refl, of ?key False]
    have "ht_id ht1 = ht_id ht" "grown ht (add_bucket (ht1\<lparr>f_static_keys := False\<rparr>) (Some ?key) h (new_value flag pData))"
      using that(1) by (auto simp: ready_def intro: grown_add_bucket)
    then show ?thesis
      using A assms(4,5) only_iteratorsD [OF that(2)] by (simp add: inserted_def ZSTR_H_def Let_def)
  qed
  have "zend_hash_str_find_bucket ht str h = Some None" if "\<not> f_packed ht"
    using find_bucket_correct(2) [OF assms(1)] not_in_keys_lookup_idx [OF assms(1) that assms(4)] that assms(5) by simp
  then show ?thesis
    unfolding zend_hash_str_add_or_update_i_def Let_def [of ?add]
    using insert_paths [where P = "inserted g ht (KStr str) (new_value flag pData)" and add = ?add,
        OF assms(1,2) add]
    by (auto simp del: split_paired_All simp: wf_packed_hash)
qed


subsection \<open>A key that is there\<close>

definition dtor_calls :: "'v hashtable \<Rightarrow> hkey \<Rightarrow> 'v zval list" where
  "dtor_calls ht k = (case abs_find ht k of Some old \<Rightarrow> if pDestructor ht then [old] else [] | None \<Rightarrow> [])"

definition updates :: "'v eg \<Rightarrow> 'v hashtable \<Rightarrow> hkey \<Rightarrow> 'v zval \<Rightarrow> ('v eg \<times> 'v hashtable \<times> zref option) option \<Rightarrow> bool" where
  "updates g ht k v res \<longleftrightarrow> (\<exists>g' ht' r. res = Some (g', ht', Some r) \<and> wf_ht ht' \<and>
     elems ht' = AList.update k v (elems ht) \<and> refers ht' k r \<and> zref_val g' ht' r = v \<and>
     dtor_log g' = dtor_log g @ dtor_calls ht k \<and> ind_slots g' = ind_slots g \<and>
     pDestructor ht' = pDestructor ht \<and> ht_id ht' = ht_id ht \<and> grown ht ht')"

lemma abs_find_None_iff: "abs_find ht k = None \<longleftrightarrow> k \<notin> fst ` set (elems ht)"
  by (simp add: abs_find_def map_of_eq_None_iff)

lemma inserted_updates:
  assumes "inserted g ht k v res" and "k \<notin> fst ` set (elems ht)"
  shows "updates g ht k v res"
proof -
  have "dtor_calls ht k = []" using assms(2) abs_find_None_iff [of ht k] by (simp add: dtor_calls_def)
  then show ?thesis
    using assms unfolding updates_def inserted_def AList_update_new [OF assms(2)] by simp
qed

lemma present_mixed:
  assumes "wf_ht ht" "\<not> f_packed ht" "k \<in> fst ` set (elems ht)"
  obtains p where "\<not> f_uninitialized ht" "lookup_idx ht k = Some p" "p < nNumUsed ht" "live (arData ht ! p)"
    "bucket_key (arData ht ! p) = k" "abs_find ht k = Some (bval (arData ht ! p))" "p < length (arData ht)"
proof -
  have u: "\<not> f_uninitialized ht" using assms wf_uninitD(4) by fastforce
  obtain p where p: "lookup_idx ht k = Some p"
    using abs_find_mixed [OF assms(1,2), of k] assms(3) abs_find_None_iff [of ht k] by auto
  note W = wf_htD [OF assms(1)]
  show thesis
    using that [OF u p] lookup_idx_SomeD [OF p] abs_find_mixed [OF assms(1,2), of k] p
      mixed_shapeD(4) [OF W(5) [OF u assms(2)]] sizes_okD(3) [OF W(1)] by auto
qed

lemma str_key_mixed: "wf_ht ht \<Longrightarrow> KStr s \<in> fst ` set (elems ht) \<Longrightarrow> \<not> f_packed ht"
  using wf_packedD(2) by (fastforce simp: packed_elems_def)

lemma add_or_update_found:
  assumes "wf_ht ht" and "\<not> flag_set flag HASH_ADD_NEW" and "KStr (zs_val key) \<in> fst ` set (elems ht)"
    and "lookup_idx ht (KStr (zs_val key)) = Some p"
  shows "zend_hash_add_or_update_i g ht key pData flag = add_found g ht p pData flag"
proof -
  note m = str_key_mixed [OF assms(1,3)]
  have "\<not> f_uninitialized ht" using present_mixed [OF assms(1) m assms(3)] by blast
  then show ?thesis
    using m assms(2,4) find_bucket_correct(1) [OF assms(1), of key]
    by (simp add: zend_hash_add_or_update_i_def)
qed

lemma str_add_or_update_found:
  assumes "wf_ht ht" and "\<not> flag_set flag HASH_ADD_NEW" and "KStr str \<in> fst ` set (elems ht)"
    and "lookup_idx ht (KStr str) = Some p" and "h = zend_inline_hash_func str"
  shows "zend_hash_str_add_or_update_i g ht str h pData flag = add_found g ht p pData flag"
proof -
  note m = str_key_mixed [OF assms(1,3)]
  have "\<not> f_uninitialized ht" using present_mixed [OF assms(1) m assms(3)] by blast
  then show ?thesis
    using m assms(2,4,5) find_bucket_correct(2) [OF assms(1), of str]
    by (simp add: zend_hash_str_add_or_update_i_def)
qed

lemma call_dtor_frame [simp]:
  "ind_slots (call_dtor ht v g) = ind_slots g" "ht_iterators (call_dtor ht v g) = ht_iterators g"
  "key_refs (call_dtor ht v g) = key_refs g"
  by (simp_all add: call_dtor_def)

lemma replace_bucket_value:
  assumes "wf_ht ht" "\<not> f_packed ht" "k \<in> fst ` set (elems ht)" "lookup_idx ht k = Some p" "proper v"
  shows "updates g ht k v (replace_value g ht (BucketVal p) v)"
proof -
  obtain "\<not> f_uninitialized ht" "p < nNumUsed ht" "live (arData ht ! p)"
    "bucket_key (arData ht ! p) = k" "abs_find ht k = Some (bval (arData ht ! p))" "p < length (arData ht)"
    using present_mixed [OF assms(1-3)] assms(4) by (metis option.inject)
  note p = this
  note S = set_bucket_val_wf [OF assms(1) p(1) assms(2) p(2,3) assms(5) refl]
  show ?thesis
    using S p assms(2,5)
    by (simp add: grown_def updates_def replace_value_def zval_copy_value_def zref_val_def dtor_calls_def call_dtor_def
        refers_def live_def proper_def)
qed

lemma replace_packed_value:
  assumes "wf_ht ht" "f_packed ht" "unat h < nNumUsed ht" "\<not> is_undef (arPacked ht ! unat h)" "proper v"
  shows "updates g ht (KInt h) v (replace_value g ht (PackedVal (unat h)) v)"
proof -
  note S = set_packed_val_wf [OF assms refl]
  have "abs_find ht (KInt h) = Some (arPacked ht ! unat h)"
    using abs_find_packed [OF assms(1,2)] assms(3,4) by simp
  then show ?thesis
    using S assms(2,3,5) wf_packed_hash(1,4) [OF assms(1,2)]
    by (simp add: grown_def updates_def replace_value_def zval_copy_value_def zref_val_def dtor_calls_def call_dtor_def
        refers_def proper_def)
qed

subsection \<open>The effect of the string insertions\<close>

lemma flag_tests [simp]:
  "\<not> flag_set HASH_ADD HASH_LOOKUP" "\<not> flag_set HASH_UPDATE HASH_LOOKUP" "flag_set HASH_LOOKUP HASH_LOOKUP"
  "\<not> flag_set HASH_ADD_NEW HASH_LOOKUP" "\<not> flag_set (HASH_UPDATE OR HASH_UPDATE_INDIRECT) HASH_LOOKUP"
  "flag_set HASH_ADD HASH_ADD" "\<not> flag_set HASH_UPDATE HASH_ADD"
  "\<not> flag_set (HASH_UPDATE OR HASH_UPDATE_INDIRECT) HASH_ADD"
  "\<not> flag_set HASH_ADD HASH_UPDATE_INDIRECT" "\<not> flag_set HASH_UPDATE HASH_UPDATE_INDIRECT"
  "flag_set (HASH_UPDATE OR HASH_UPDATE_INDIRECT) HASH_UPDATE_INDIRECT"
  "\<not> flag_set HASH_ADD HASH_ADD_NEW" "\<not> flag_set HASH_UPDATE HASH_ADD_NEW" "\<not> flag_set HASH_LOOKUP HASH_ADD_NEW"
  "\<not> flag_set (HASH_UPDATE OR HASH_UPDATE_INDIRECT) HASH_ADD_NEW"
  by (simp_all add: flag_set_def hash_flags)

lemma new_value_simps [simp]:
  "new_value HASH_ADD v = v" "new_value HASH_UPDATE v = v" "new_value HASH_ADD_NEW v = v"
  "new_value (HASH_UPDATE OR HASH_UPDATE_INDIRECT) v = v" "new_value HASH_LOOKUP v = IS_NULL"
  by (simp_all add: new_value_def)

lemma add_found_simps:
  "add_found g ht p v HASH_UPDATE = replace_value g ht (BucketVal p) v"
  "add_found g ht p v HASH_ADD = Some (g, ht, None)"
  "add_found g ht p v HASH_LOOKUP = Some (g, ht, Some (BucketVal p))"
  "add_found g ht p v (HASH_UPDATE OR HASH_UPDATE_INDIRECT) =
     (case bval (arData ht ! p) of IS_INDIRECT a \<Rightarrow> replace_value g ht (IndirectVal a) v
      | _ \<Rightarrow> replace_value g ht (BucketVal p) v)"
  by (simp_all add: add_found_def split: zval.split)

lemma update_i_correct:
  assumes "wf_ht ht" "nTableSize ht < HT_MAX_SIZE" "proper v"
  shows "updates g ht (KStr (zs_val key)) v (zend_hash_add_or_update_i g ht key v HASH_UPDATE)"
    and "updates g ht (KStr s) v (zend_hash_str_add_or_update_i g ht s (zend_inline_hash_func s) v HASH_UPDATE)"
proof -
  let ?k = "KStr (zs_val key)"
  show "updates g ht ?k v (zend_hash_add_or_update_i g ht key v HASH_UPDATE)"
  proof (cases "?k \<in> fst ` set (elems ht)")
    case True
    note m = str_key_mixed [OF assms(1) True]
    obtain p where p: "lookup_idx ht ?k = Some p" using present_mixed [OF assms(1) m True] by metis
    show ?thesis
      unfolding add_or_update_found [OF assms(1) flag_tests(13) True p] add_found_simps
      by (rule replace_bucket_value [OF assms(1) m True p assms(3)])
  next
    case False
    show ?thesis using add_or_update_new [OF assms(1,2) _ False, of HASH_UPDATE v g] assms(3)
      by (intro inserted_updates [OF _ False]) simp
  qed
  show "updates g ht (KStr s) v (zend_hash_str_add_or_update_i g ht s (zend_inline_hash_func s) v HASH_UPDATE)"
  proof (cases "KStr s \<in> fst ` set (elems ht)")
    case True
    note m = str_key_mixed [OF assms(1) True]
    obtain p where p: "lookup_idx ht (KStr s) = Some p" using present_mixed [OF assms(1) m True] by metis
    show ?thesis
      unfolding str_add_or_update_found [OF assms(1) flag_tests(13) True p refl] add_found_simps
      by (rule replace_bucket_value [OF assms(1) m True p assms(3)])
  next
    case False
    show ?thesis using str_add_or_update_new [OF assms(1,2) _ False refl, of HASH_UPDATE v g] assms(3)
      by (intro inserted_updates [OF _ False]) simp
  qed
qed

lemma present_add:
  assumes "wf_ht ht" "KStr (zs_val key) \<in> fst ` set (elems ht)"
  shows "zend_hash_add_or_update_i g ht key v HASH_ADD = Some (g, ht, None)"
    and "zend_hash_str_add_or_update_i g ht (zs_val key) (zend_inline_hash_func (zs_val key)) v HASH_ADD = Some (g, ht, None)"
    and "\<exists>r. zend_hash_add_or_update_i g ht key v HASH_LOOKUP = Some (g, ht, Some r) \<and>
           abs_find ht (KStr (zs_val key)) = Some (zref_val g ht r)"
proof -
  let ?k = "KStr (zs_val key)"
  note m = str_key_mixed [OF assms]
  obtain p where p: "lookup_idx ht ?k = Some p" "abs_find ht ?k = Some (bval (arData ht ! p))"
    using present_mixed [OF assms(1) m assms(2)] by metis
  note F = add_or_update_found [OF assms(1) _ assms(2) p(1)]
  show "zend_hash_add_or_update_i g ht key v HASH_ADD = Some (g, ht, None)"
    by (simp add: F add_found_simps)
  show "zend_hash_str_add_or_update_i g ht (zs_val key) (zend_inline_hash_func (zs_val key)) v HASH_ADD = Some (g, ht, None)"
    by (simp add: str_add_or_update_found [OF assms(1) _ assms(2) p(1)] add_found_simps)
  show "\<exists>r. zend_hash_add_or_update_i g ht key v HASH_LOOKUP = Some (g, ht, Some r) \<and>
           abs_find ht ?k = Some (zref_val g ht r)"
    using p(2) by (intro exI [of _ "BucketVal p"]) (simp add: F add_found_simps zref_val_def)
qed

lemma update_ind_present:
  assumes "wf_ht ht" "abs_find ht (KStr (zs_val key)) = Some (IS_INDIRECT a)"
  shows "zend_hash_update_ind g ht key v =
    Some ((call_dtor ht (ind_slots g a) g)\<lparr>ind_slots := (ind_slots g)(a := v)\<rparr>, ht, Some (IndirectVal a))"
proof -
  let ?k = "KStr (zs_val key)"
  have k: "?k \<in> fst ` set (elems ht)" using assms(2) abs_find_None_iff [of ht ?k] by force
  note m = str_key_mixed [OF assms(1) k]
  obtain p where p: "lookup_idx ht ?k = Some p" "abs_find ht ?k = Some (bval (arData ht ! p))"
    using present_mixed [OF assms(1) m k] by metis
  have "bval (arData ht ! p) = IS_INDIRECT a" using p(2) assms(2) by simp
  then show ?thesis
    unfolding zend_hash_update_ind_def add_or_update_found [OF assms(1) flag_tests(15) k p(1)]
    by (simp add: add_found_simps replace_value_def zval_copy_value_def zref_val_def)
qed

end
