(* ===== verification/ZendHashIndex.thy ===== *)
theory ZendHashIndex
  imports ZendHashInsert
begin

text \<open>
  The effect of the insertions by number (\<open>_zend_hash_index_add_or_update_i\<close>): on packed tables, on
  packed tables that grow or are converted, on tables without data and on mixed tables.
\<close>

subsection \<open>Packed tables\<close>

lemma packed_count:
  "n \<le> length zs \<Longrightarrow> length (filter (\<lambda>v. \<not> is_undef v) (take n zs)) = length (packed_elems zs n)"
  by (simp add: packed_elems_def length_filter_take_upt)

lemma packed_elems_gap:
  "n \<le> m \<Longrightarrow> (\<And>i. n \<le> i \<Longrightarrow> i < m \<Longrightarrow> zs ! i = IS_UNDEF) \<Longrightarrow> packed_elems zs m = packed_elems zs n"
proof (induction m)
  case (Suc m)
  then show ?case by (cases "n = Suc m") (auto simp: packed_elems_Suc)
qed simp

definition fill_undef :: "nat \<Rightarrow> nat \<Rightarrow> 'v zval list \<Rightarrow> 'v zval list" where
  "fill_undef a b zs = fold (\<lambda>i zs. zs[i := IS_UNDEF]) [a..<b] zs"

lemma fill_undef_Suc:
  "fill_undef a (Suc b) zs = (if a \<le> b then (fill_undef a b zs)[b := IS_UNDEF] else zs)"
  by (simp add: fill_undef_def)

lemma fill_undef_length [simp]: "length (fill_undef a b zs) = length zs"
  by (induction b) (simp_all add: fill_undef_Suc, simp add: fill_undef_def)

lemma fill_undef_nth:
  "i < length zs \<Longrightarrow> fill_undef a b zs ! i = (if a \<le> i \<and> i < b then IS_UNDEF else zs ! i)"
  by (induction b) (auto simp: fill_undef_Suc nth_list_update less_Suc_eq, simp add: fill_undef_def)

lemma small_sless:
  "i < n \<Longrightarrow> n < HT_INVALID_IDX \<Longrightarrow> (of_nat i :: u64) <s of_nat n"
  by (simp add: word_sless_alt sint_unat unat_of_index HT_INVALID_IDX_def)

lemma packed_next_free:
  assumes "elems ht = packed_elems zs n" and "n < HT_INVALID_IDX" and "nNextFreeElement ht = of_nat n"
  shows "next_free_ok ht"
  unfolding next_free_ok_iff assms(1,3) using assms(2) small_sless by (auto simp: packed_elems_def)

definition new_next :: "u32 \<Rightarrow> bool" where
  "new_next flag \<longleftrightarrow> flag AND (HASH_ADD_NEW OR HASH_ADD_NEXT) = HASH_ADD_NEW OR HASH_ADD_NEXT"

lemma add_to_packed_correct:
  assumes "wf_ht ht" "f_packed ht" "unat h < nTableSize ht" "nNumUsed ht \<le> unat h"
    and "proper (new_value flag pData)" and gap: "new_next flag \<Longrightarrow> unat h = nNumUsed ht"
  shows "inserted g ht (KInt h) (new_value flag pData) (add_to_packed g ht h pData flag)"
proof -
  note P = wf_packed_hash [OF assms(1,2)] and W = wf_htD [OF assms(1)]
  have wp: "wf_packed ht" using W(4) P(1) assms(2) by blast
  let ?n = "unat h" and ?nv = "new_value flag pData"
  define zs where "zs = (if new_next flag then arPacked ht else fill_undef (nNumUsed ht) ?n (arPacked ht))"
  have zs: "length zs = nTableSize ht"
    "i < nTableSize ht \<Longrightarrow> zs ! i = (if nNumUsed ht \<le> i \<and> i < ?n then IS_UNDEF else arPacked ht ! i)" for i
    using P(3) gap by (auto simp: zs_def fill_undef_nth)
  let ?zs' = "zs[?n := ?nv]"
  let ?ht = "ht\<lparr>nNumUsed := ?n + 1, nNextFreeElement := h + 1, nNumOfElements := nNumOfElements ht + 1,
       arPacked := ?zs'\<rparr>"
  have v: "?nv \<noteq> IS_UNDEF" "?nv \<noteq> UNINIT" using assms(5) by (auto simp: proper_def)
  have run: "add_to_packed g ht h pData flag = Some (g, ?ht, Some (PackedVal ?n))"
    by (simp add: add_to_packed_def fill_undef_def new_next_def Let_def zs_def)
  have len: "length ?zs' = nTableSize ht" using zs(1) by simp
  have old: "?zs' ! i = arPacked ht ! i" if "i < nNumUsed ht" for i
    using that assms(3,4) zs by simp
  have gap: "?zs' ! i = IS_UNDEF" if "nNumUsed ht \<le> i" "i < ?n" for i
    using that assms(3) zs by simp
  have top: "?zs' ! ?n = ?nv" using assms(3) zs by simp
  have lt: "Suc ?n < HT_INVALID_IDX"
    using assms(3) sizes_okD(2) [OF P(2)] by (simp add: HT_MAX_SIZE_def HT_INVALID_IDX_def)
  have "packed_elems ?zs' ?n = packed_elems (arPacked ht) (nNumUsed ht)"
    using packed_elems_gap [OF assms(4) gap] packed_elems_cong [OF old] by simp
  then have pe: "packed_elems ?zs' (Suc ?n) = elems ht @ [(KInt h, ?nv)]"
    using top v(1) assms(2) by (simp add: packed_elems_Suc elems_def)
  then have e: "elems ?ht = elems ht @ [(KInt h, ?nv)]" using assms(2) unfolding elems_def [of ?ht] by simp
  have nh: "h + 1 = of_nat (Suc ?n)" "unat (h + 1) = Suc ?n"
    using lt unat_of_index [of "Suc ?n"] by (simp_all add: add.commute)
  have cells: "?zs' ! i \<noteq> UNINIT" if "i < Suc ?n" for i
    using that old [of i] gap [of i] top v(2) P(4,5) nth_mem [of i "take (nNumUsed ht) (arPacked ht)"]
    by (cases "i < nNumUsed ht"; cases "i = ?n") auto
  have "UNINIT \<notin> set (take (Suc ?n) ?zs')"
    using cells len assms(3) by (auto simp: in_set_conv_nth)
  moreover have "nNumOfElements ht = length (elems ht)"
    using P(6) packed_count [OF P(4)] assms(2) by (simp add: elems_def)
  then have "Suc (nNumOfElements ht) = length (filter (\<lambda>v. \<not> is_undef v) (take (Suc ?n) ?zs'))"
    using packed_count [of "Suc ?n" ?zs'] len assms(3) pe by simp
  ultimately have "wf_packed ?ht"
    using wp len assms(3) nh lt sizes_okD(2) [OF P(2)]
    by (simp add: wf_packed_def no_data_def word_le_nat_alt ZEND_LONG_MAX_def HT_INVALID_IDX_def)
  moreover have "next_free_ok ?ht"
    using packed_next_free [of ?ht ?zs' "Suc ?n"] lt nh(1) pe e by (simp add: add.commute)
  ultimately have "wf_ht ?ht"
    using P(1,2) assms(2,3) by (auto simp: wf_ht_def sizes_ok_def)
  moreover have "grown ht ?ht" using P(1) by (simp add: grown_def assms(2))
  ultimately show ?thesis unfolding inserted_def run using e top v(1) P(1) assms(2) by (simp add: zref_val_def refers_def)
qed

lemma real_init_packed_wf:
  assumes "wf_ht ht" "f_uninitialized ht"
  defines "ht' \<equiv> zend_hash_real_init_packed_ex ht"
  shows "wf_ht ht'" "f_packed ht'" "elems ht' = elems ht" "nNumUsed ht' = 0" "nTableSize ht' = nTableSize ht"
    "nNextFreeElement ht' = nNextFreeElement ht" "pDestructor ht' = pDestructor ht" "ht_id ht' = ht_id ht"
proof -
  note U = wf_uninitD [OF assms(1,2)] and W = wf_htD [OF assms(1)]
  show f: "f_packed ht'" "nNumUsed ht' = 0" "nTableSize ht' = nTableSize ht"
    "nNextFreeElement ht' = nNextFreeElement ht" "pDestructor ht' = pDestructor ht" "ht_id ht' = ht_id ht"
    using U by (simp_all add: ht'_def zend_hash_real_init_packed_ex_def)
  show e: "elems ht' = elems ht" using f U by (simp add: elems_def [of ht'] packed_elems_def)
  have "wf_packed ht'" using U
    by (simp add: ht'_def zend_hash_real_init_packed_ex_def wf_packed_def no_data_def)
  moreover have "next_free_ok ht'" using W(2) next_free_ok_cong [OF e f(4)] by blast
  ultimately show "wf_ht ht'" using W(1) f
    by (simp add: wf_ht_def sizes_ok_def ht'_def zend_hash_real_init_packed_ex_def)
qed

lemma packed_grow_wf:
  assumes "wf_ht ht" "f_packed ht" "nTableSize ht < HT_MAX_SIZE"
  defines "ht' \<equiv> realloc_packed (nTableSize ht * 2) ht"
  shows "zend_hash_packed_grow ht = Some ht'" "wf_ht ht'" "f_packed ht'" "elems ht' = elems ht"
    "nNumUsed ht' = nNumUsed ht" "nTableSize ht' = nTableSize ht * 2"
    "nNextFreeElement ht' = nNextFreeElement ht" "pDestructor ht' = pDestructor ht" "ht_id ht' = ht_id ht"
proof -
  note P = wf_packed_hash [OF assms(1,2)] and W = wf_htD [OF assms(1)]
  have wp: "wf_packed ht" using W(4) P(1) assms(2) by blast
  show "zend_hash_packed_grow ht = Some ht'"
    using assms(3) by (simp add: zend_hash_packed_grow_def ht'_def)
  show f: "f_packed ht'" "nNumUsed ht' = nNumUsed ht" "nTableSize ht' = nTableSize ht * 2"
    "nNextFreeElement ht' = nNextFreeElement ht" "pDestructor ht' = pDestructor ht" "ht_id ht' = ht_id ht"
    using assms(2) by (simp_all add: ht'_def realloc_packed_def)
  show e: "elems ht' = elems ht"
    using assms(2) P(4) by (auto simp: elems_def f ht'_def realloc_packed_def nth_append intro!: packed_elems_cong)
  have "wf_packed ht'" using wp P(3,4)
    by (simp add: ht'_def realloc_packed_def wf_packed_def no_data_def)
  moreover have "next_free_ok ht'" using W(2) next_free_ok_cong [OF e f(4)] by blast
  moreover have "sizes_ok ht'" using sizes_ok_double [OF P(2) assms(3)] f by (simp add: sizes_ok_def mult_2_right)
  ultimately show "wf_ht ht'" using P(1) assms(2)
    by (simp add: wf_ht_def ht'_def realloc_packed_def)
qed

subsection \<open>Mixed tables\<close>

lemma sless_sle_trans: "(a :: 'a::len word) <s b \<Longrightarrow> b \<le>s c \<Longrightarrow> a <s c"
  by (simp add: word_sless_alt word_sle_eq)

lemma sint_max: "sint ZEND_LONG_MAX = 2 ^ 63 - 1"
  by (simp add: ZEND_LONG_MAX_def)

lemma sless_succ: "(h :: u64) <s ZEND_LONG_MAX \<Longrightarrow> sint (h + 1) = sint h + 1"
  using sint_greater_eq [of h] by (simp add: word_sless_alt sint_max sint_word_ariths signed_take_bit_int_eq_self)


lemma next_free_update:
  fixes nf h :: u64
  defines "nf' \<equiv> if nf \<le>s h then (if h <s ZEND_LONG_MAX then h + 1 else ZEND_LONG_MAX) else nf"
  shows "h <s nf' \<or> nf' = ZEND_LONG_MAX"
    and "x <s nf \<or> nf = ZEND_LONG_MAX \<Longrightarrow> x <s nf' \<or> nf' = ZEND_LONG_MAX"
proof -
  have *: "h <s h + 1" if "h <s ZEND_LONG_MAX" using sless_succ [OF that] by (simp add: word_sless_alt)
  then show "h <s nf' \<or> nf' = ZEND_LONG_MAX"
    unfolding nf'_def by (auto simp: word_sle_eq word_sless_alt)
  assume x: "x <s nf \<or> nf = ZEND_LONG_MAX"
  show "x <s nf' \<or> nf' = ZEND_LONG_MAX"
  proof (cases "nf \<le>s h \<and> h <s ZEND_LONG_MAX")
    case True
    then have "nf \<noteq> ZEND_LONG_MAX" by (auto simp: word_sle_eq word_sless_alt)
    then have "sint x < sint nf" "sint nf \<le> sint h" using x True by (auto simp: word_sle_eq word_sless_alt)
    then show ?thesis using True sless_succ [of h] by (simp add: nf'_def word_sless_alt)
  qed (use x in \<open>auto simp: nf'_def\<close>)
qed

lemma wf_mixed_next_free: "wf_mixed (ht\<lparr>nNextFreeElement := x\<rparr>) = wf_mixed ht"
  by (simp add: wf_mixed_def mixed_shape_def live_buckets_def)

lemma index_add_bucket_correct:
  assumes "ready ht0 ht" and "wf_ht ht0" and "proper (new_value flag pData)"
    and "KInt h \<notin> fst ` set (elems ht0)" and "only_iterators g0 g"
  shows "inserted g0 ht0 (KInt h) (new_value flag pData) (index_add_bucket g ht h pData flag)"
proof -
  let ?nv = "new_value flag pData" and ?ht1 = "add_bucket ht None h (new_value flag pData)"
  define nf where "nf = (if nNextFreeElement ht \<le>s h
     then (if h <s ZEND_LONG_MAX then h + 1 else ZEND_LONG_MAX) else nNextFreeElement ht)"
  let ?ht = "?ht1\<lparr>nNextFreeElement := nf\<rparr>"
  have R: "\<not> f_uninitialized ht" "\<not> f_packed ht" "pDestructor ht = pDestructor ht0" "ht_id ht = ht_id ht0"
    "nNextFreeElement ht = nNextFreeElement ht0" "grown ht0 ht"
    using assms(1) by (auto simp: ready_def)
  have run: "index_add_bucket g ht h pData flag = Some (g, ?ht, Some (BucketVal (nNumUsed ht)))"
    using R(5) by (auto simp: index_add_bucket_def Let_def nf_def intro!: hashtable.equality)
  have A: "sizes_ok ?ht1" "wf_mixed ?ht1" "elems ?ht1 = elems ht0 @ [(KInt h, ?nv)]"
    "bval (arData ?ht1 ! nNumUsed ht) = ?nv" "refers ?ht1 (KInt h) (BucketVal (nNumUsed ht))"
    using ready_add [OF assms(1,3) _ _ _ assms(4), of "f_static_keys ht" h None ?ht1] by auto
  have lb: "live_buckets ?ht = live_buckets ?ht1" by (simp add: live_buckets_def)
  have e: "elems ?ht = elems ht0 @ [(KInt h, ?nv)]"
    unfolding A(3) [symmetric] elems_def [of ?ht] elems_def [of ?ht1] lb by simp
  have N: "h <s nf \<or> nf = ZEND_LONG_MAX"
    "x <s nNextFreeElement ht0 \<or> nNextFreeElement ht0 = ZEND_LONG_MAX \<Longrightarrow> x <s nf \<or> nf = ZEND_LONG_MAX" for x
    unfolding nf_def R(5) by (rule next_free_update(1), rule next_free_update(2))
  have "nNextFreeElement ?ht = nf" by simp
  then have "next_free_ok ?ht"
    using wf_htD(2) [OF assms(2)] N unfolding next_free_ok_iff e by (auto split: hkey.splits)
  moreover have "wf_mixed ?ht" using A(2) by (simp only: wf_mixed_next_free)
  ultimately have "wf_ht ?ht" using A(1) R by (simp add: wf_ht_def sizes_ok_def)
  moreover have "grown ht0 ?ht" using R(2,6) by (simp add: grown_def)
  ultimately show ?thesis
    unfolding inserted_def run using e A(4,5) R(3,4) only_iteratorsD [OF assms(5)] by (simp add: zref_val_def refers_def)
qed

subsection \<open>All paths\<close>

lemma packed_double_ready:
  assumes "wf_ht ht" "f_packed ht" "nTableSize ht < HT_MAX_SIZE"
    and n: "n = nTableSize ht \<and> (nNumUsed ht < n \<or> nNumOfElements ht < nNumUsed ht) \<or> n = nTableSize ht + nTableSize ht"
  obtains g' ht' where "zend_hash_packed_to_hash g (ht\<lparr>nTableSize := n\<rparr>) = Some (g', ht')" "ready ht ht'" "only_iterators g g'"
proof -
  note P = wf_packed_hash [OF assms(1,2)] and W = wf_htD [OF assms(1)]
  let ?ht = "ht\<lparr>nTableSize := n\<rparr>"
  have "sizes_ok ?ht" using n sizes_ok_double [OF P(2) assms(3)] P(2) by (auto simp: sizes_ok_def)
  moreover have e: "elems ?ht = elems ht" by (simp add: elems_def live_buckets_def)
  moreover have "next_free_ok ?ht" using W(2) next_free_ok_cong [OF e] by simp
  ultimately obtain g' ht' where r: "zend_hash_packed_to_hash g ?ht = Some (g', ht')" "reorganised ?ht ht'"
    "nNumUsed ht' = nNumOfElements ht" "nTableSize ht' = n"
    using zend_hash_packed_to_hash_correct [of ?ht g] P assms(2) by auto
  have "nNumOfElements ht \<le> nNumUsed ht"
    using P(6) length_filter_le [of "\<lambda>v. \<not> is_undef v" "take (nNumUsed ht) (arPacked ht)"] by simp
  then have "nNumUsed ht' < nTableSize ht'"
    using n r(3,4) sizes_okD(1,3) [OF P(2)] by auto
  moreover have "grown ?ht ht'" "grown ht ht'"
    using r(2,4) n assms(2) by (auto simp: grown_def reorganised_def)
  ultimately have "ready ht ht'" using reorganised_ready [OF r(2)] e by (simp add: ready_def)
  then show thesis using that r(1) only_iterators_resize(2) by blast
qed

lemma inserted_transfer:
  "inserted g ht' k v res \<Longrightarrow> elems ht' = elems ht \<Longrightarrow> pDestructor ht' = pDestructor ht \<Longrightarrow> ht_id ht' = ht_id ht \<Longrightarrow>
   (\<And>h. grown ht' h \<Longrightarrow> grown ht h) \<Longrightarrow> inserted g ht k v res"
  by (auto simp: inserted_def)


definition index_key :: "u32 \<Rightarrow> u64 \<Rightarrow> u64" where
  "index_key flag h = (if flag_set flag HASH_ADD_NEXT \<and> h = ZEND_LONG_MIN then 0 else h)"

lemma index_new:
  assumes "wf_ht ht" "nTableSize ht < HT_MAX_SIZE" "proper (new_value flag pData)"
    and h: "h = index_key flag h0" and fresh: "KInt h \<notin> fst ` set (elems ht)"
    and gap: "new_next flag \<Longrightarrow> f_packed ht \<or> f_uninitialized ht \<Longrightarrow> unat h = nNumUsed ht"
  shows "inserted g ht (KInt h) (new_value flag pData) (zend_hash_index_add_or_update_i g ht h0 pData flag)"
proof -
  note I = zend_hash_index_add_or_update_i_def [of g ht h0 pData flag, folded index_key_def h, unfolded Let_def, folded new_next_def]
  note R = index_add_bucket_correct [OF _ assms(1,3) fresh]
  consider (packed) "f_packed ht" | (uninit) "f_uninitialized ht" "\<not> f_packed ht"
    | (mixed) "\<not> f_packed ht" "\<not> f_uninitialized ht" by blast
  then show ?thesis
  proof cases
    case uninit
    note U = wf_uninitD [OF assms(1) uninit(1)]
    show ?thesis
    proof (cases "unat h < nTableSize ht")
      case True
      note P = real_init_packed_wf [OF assms(1) uninit(1)]
      have "inserted g (zend_hash_real_init_packed_ex ht) (KInt h) (new_value flag pData)
              (add_to_packed g (zend_hash_real_init_packed_ex ht) h pData flag)"
        using True gap uninit(1) P U(2) by (intro add_to_packed_correct [OF P(1,2) _ _ assms(3)]) auto
      moreover have "grown (zend_hash_real_init_packed_ex ht) h' \<Longrightarrow> grown ht h'" for h' :: "'a hashtable"
        using uninit(1) by (auto simp: grown_def zend_hash_real_init_packed_ex_def split: if_splits)
      ultimately show ?thesis using True uninit I inserted_transfer [OF _ P(3,7,8)] by simp
    next
      case False
      then show ?thesis using uninit I R [OF real_init_mixed_ready [OF assms(1) uninit(1)]]
        by (simp add: zend_hash_real_init_mixed_def)
    qed
  next
    case mixed
    have "zend_hash_index_find_bucket ht h = Some None"
      using find_bucket_correct(3) [OF assms(1) mixed(1)] not_in_keys_lookup_idx [OF assms(1) mixed(1) fresh] by simp
    moreover obtain g' ht' where "zend_hash_if_full_do_resize g ht = Some (g', ht')" "ready ht ht'" "only_iterators g g'"
      using if_full_ready [OF assms(1) mixed(2,1) assms(2)] by blast
    ultimately show ?thesis using mixed I R by simp
  next
    case packed
    note P = wf_packed_hash [OF assms(1) packed] and W = wf_htD [OF assms(1)]
    have hole: "is_undef (arPacked ht ! unat h)" if "unat h < nNumUsed ht"
      using that fresh abs_find_packed [OF assms(1) packed, of "KInt h"] abs_find_None_iff [of ht "KInt h"]
      by (auto split: if_splits)
    show ?thesis
    proof (cases "unat h < nNumUsed ht")
      case True
      have nn: "\<not> new_next flag" using gap packed True by auto
      have "arPacked ht ! unat h \<in> set (take (nNumUsed ht) (arPacked ht))"
        using True P(4) by (auto simp: in_set_conv_nth intro!: exI [of _ "unat h"])
      then have "nNumOfElements ht < nNumUsed ht"
        using P(4,6) hole [OF True] length_filter_less [of "arPacked ht ! unat h" "take (nNumUsed ht) (arPacked ht)" "\<lambda>v. \<not> is_undef v"]
        by simp
      then obtain g' ht' where "zend_hash_packed_to_hash g (ht\<lparr>nTableSize := nTableSize ht\<rparr>) = Some (g', ht')"
        "ready ht ht'" "only_iterators g g'"
        using packed_double_ready [OF assms(1) packed assms(2), of "nTableSize ht" g] by blast
      then show ?thesis using packed True nn hole [OF True] I R by simp
    next
      case ge: False
      show ?thesis
      proof (cases "unat h < nTableSize ht")
        case True
        then show ?thesis using ge packed I gap add_to_packed_correct [OF assms(1) packed True _ assms(3)] by simp
      next
        case big: False
        show ?thesis
        proof (cases "unat (drop_bit 1 h) < nTableSize ht \<and> nTableSize ht div 2 < nNumOfElements ht")
          case True
          note G = packed_grow_wf [OF assms(1) packed assms(2)]
          have "unat (drop_bit 1 h) = unat h div 2" by (simp add: drop_bit_Suc unat_div_distrib)
          then have "unat h < nTableSize ht * 2" using True by auto
          then have "inserted g (realloc_packed (nTableSize ht * 2) ht) (KInt h) (new_value flag pData)
              (add_to_packed g (realloc_packed (nTableSize ht * 2) ht) h pData flag)"
            using ge gap packed G by (intro add_to_packed_correct [OF G(2,3) _ _ assms(3)]) auto
          then obtain g' ht' r where A: "add_to_packed g (realloc_packed (nTableSize ht * 2) ht) h pData flag = Some (g', ht', Some r)"
            "inserted g (realloc_packed (nTableSize ht * 2) ht) (KInt h) (new_value flag pData) (Some (g', ht', Some r))"
            by (metis inserted_def)
          then have "nTableSize ht' = 2 * nTableSize ht" "f_packed ht'" "\<not> f_uninitialized ht'"
            using G(3,6) P(1) by (auto simp: add_to_packed_def realloc_packed_def Let_def split: if_splits)
          then have "grown ht ht'" using True packed by (simp add: grown_def)
          then have "inserted g ht (KInt h) (new_value flag pData) (Some (g', ht', Some r))"
            using A(2) G(4,8,9) by (simp add: inserted_def)
          then show ?thesis using True ge big packed G(1) I A(1) by simp
        next
          case False
          define n where "n = (if nNumUsed ht \<ge> nTableSize ht then nTableSize ht + nTableSize ht else nTableSize ht)"
          have n: "n = nTableSize ht \<and> (nNumUsed ht < n \<or> nNumOfElements ht < nNumUsed ht) \<or>
              n = nTableSize ht + nTableSize ht" by (auto simp: n_def)
          obtain g' ht' where "zend_hash_packed_to_hash g (ht\<lparr>nTableSize := n\<rparr>) = Some (g', ht')"
            "ready ht ht'" "only_iterators g g'"
            using packed_double_ready [OF assms(1) packed assms(2) n] by blast
          moreover have "(if nTableSize ht \<le> nNumUsed ht then ht\<lparr>nTableSize := nTableSize ht + nTableSize ht\<rparr> else ht) =
              ht\<lparr>nTableSize := n\<rparr>" by (simp add: n_def)
          moreover have "\<not> (unat (drop_bit 1 h) < nTableSize ht \<and> nTableSize ht div 2 < nNumOfElements ht)"
            by (rule False)
          ultimately show ?thesis using ge big packed I R by auto
        qed
      qed
    qed
  qed
qed

subsection \<open>The effect of the insertions by number\<close>

lemma index_flag_tests [simp]:
  "\<not> flag_set HASH_UPDATE HASH_ADD_NEXT" "\<not> flag_set HASH_ADD HASH_ADD_NEXT" "\<not> flag_set HASH_LOOKUP HASH_ADD_NEXT"
  "flag_set (HASH_ADD OR HASH_ADD_NEXT) HASH_ADD_NEXT" "flag_set (HASH_ADD OR HASH_ADD_NEXT) HASH_ADD"
  "\<not> flag_set (HASH_ADD OR HASH_ADD_NEXT) HASH_ADD_NEW" "\<not> flag_set (HASH_ADD OR HASH_ADD_NEXT) HASH_LOOKUP"
  "\<not> new_next HASH_UPDATE" "\<not> new_next HASH_ADD" "\<not> new_next HASH_LOOKUP" "\<not> new_next (HASH_ADD OR HASH_ADD_NEXT)"
  "new_value (HASH_ADD OR HASH_ADD_NEXT) v = v"
  "\<not> new_next (HASH_ADD OR HASH_ADD_NEW)" "\<not> flag_set (HASH_ADD OR HASH_ADD_NEW) HASH_ADD_NEXT"
  "new_value (HASH_ADD OR HASH_ADD_NEW) v = v"
  "new_value (HASH_ADD OR HASH_ADD_NEW OR HASH_ADD_NEXT) v = v"
  "flag_set (HASH_ADD OR HASH_ADD_NEW OR HASH_ADD_NEXT) HASH_ADD_NEXT"
  by (simp_all add: flag_set_def hash_flags new_next_def new_value_def)

text \<open>The number is there: the reference the code finds and the branch \<open>replace\<close>.\<close>

lemma index_present:
  assumes "wf_ht ht" "KInt h \<in> fst ` set (elems ht)" "\<not> flag_set flag HASH_ADD_NEW"
    and "h = index_key flag h0"
  obtains r where "abs_find ht (KInt h) = Some (zref_val g ht r)"
    "zend_hash_index_add_or_update_i g ht h0 v flag =
       (if flag_set flag HASH_LOOKUP then Some (g, ht, Some r)
        else if flag_set flag HASH_ADD then Some (g, ht, None) else replace_value g ht r v)"
    "proper v \<Longrightarrow> updates g ht (KInt h) v (replace_value g ht r v)"
proof -
  note I = zend_hash_index_add_or_update_i_def [of g ht h0 v flag, folded index_key_def assms(4), unfolded Let_def, folded new_next_def]
  have nn: "\<not> new_next flag"
  proof
    assume "new_next flag"
    then have "(flag AND 24) AND 8 = 24 AND 8" by (simp add: new_next_def hash_flags)
    then have "flag AND 8 \<noteq> 0" by (simp add: and.assoc)
    then show False using assms(3) by (simp add: flag_set_def hash_flags)
  qed
  show thesis
  proof (cases "f_packed ht")
    case True
    have p: "unat h < nNumUsed ht" "\<not> is_undef (arPacked ht ! unat h)"
      "abs_find ht (KInt h) = Some (arPacked ht ! unat h)"
      using abs_find_packed [OF assms(1) True, of "KInt h"] abs_find_None_iff [of ht "KInt h"] assms(2)
      by (auto split: if_splits)
    show thesis
      using p True nn I replace_packed_value [OF assms(1) True p(1,2)]
      by (intro that [of "PackedVal (unat h)"]) (simp_all add: zref_val_def)
  next
    case False
    obtain p where p: "\<not> f_uninitialized ht" "lookup_idx ht (KInt h) = Some p"
      "abs_find ht (KInt h) = Some (bval (arData ht ! p))"
      using present_mixed [OF assms(1) False assms(2)] by metis
    show thesis
      using p False assms(3) find_bucket_correct(3) [OF assms(1) False, of h] I
        replace_bucket_value [OF assms(1) False assms(2) p(2)]
      by (intro that [of "BucketVal p"]) (simp_all add: zref_val_def)
  qed
qed

lemma index_update_correct:
  assumes "wf_ht ht" "nTableSize ht < HT_MAX_SIZE" "proper v"
  shows "updates g ht (KInt h) v (zend_hash_index_update g ht h v)"
proof (cases "KInt h \<in> fst ` set (elems ht)")
  case True
  have "h = index_key HASH_UPDATE h" by (simp add: index_key_def)
  then obtain r where "zend_hash_index_add_or_update_i g ht h v HASH_UPDATE = replace_value g ht r v"
    "updates g ht (KInt h) v (replace_value g ht r v)"
    using index_present [OF assms(1) True flag_tests(13), of h g v] assms(3) by auto
  then show ?thesis by (simp add: zend_hash_index_update_def)
next
  case False
  have "inserted g ht (KInt h) (new_value HASH_UPDATE v) (zend_hash_index_add_or_update_i g ht h v HASH_UPDATE)"
    using assms False by (intro index_new) (simp_all add: index_key_def)
  then show ?thesis using inserted_updates [OF _ False] by (simp add: zend_hash_index_update_def)
qed

lemma index_add_correct:
  assumes "wf_ht ht" "nTableSize ht < HT_MAX_SIZE" "proper v"
  shows "if KInt h \<in> fst ` set (elems ht) then zend_hash_index_add g ht h v = Some (g, ht, None)
         else inserted g ht (KInt h) v (zend_hash_index_add g ht h v)"
proof (cases "KInt h \<in> fst ` set (elems ht)")
  case True
  have "h = index_key HASH_ADD h" by (simp add: index_key_def)
  then show ?thesis
    using True index_present [OF assms(1) True flag_tests(12), of h g v] by (auto simp: zend_hash_index_add_def)
next
  case False
  have "inserted g ht (KInt h) (new_value HASH_ADD v) (zend_hash_index_add_or_update_i g ht h v HASH_ADD)"
    using assms False by (intro index_new) (simp_all add: index_key_def)
  then show ?thesis using False by (simp add: zend_hash_index_add_def)
qed

lemma index_lookup_correct:
  assumes "wf_ht ht" "nTableSize ht < HT_MAX_SIZE"
  shows "if KInt h \<in> fst ` set (elems ht)
         then \<exists>r. zend_hash_index_lookup g ht h = Some (g, ht, Some r) \<and> abs_find ht (KInt h) = Some (zref_val g ht r)
         else inserted g ht (KInt h) IS_NULL (zend_hash_index_lookup g ht h)"
proof (cases "KInt h \<in> fst ` set (elems ht)")
  case True
  have "h = index_key HASH_LOOKUP h" by (simp add: index_key_def)
  then show ?thesis
    using True index_present [OF assms(1) True flag_tests(14), of h g UNINIT] by (auto simp: zend_hash_index_lookup_def)
next
  case False
  have "inserted g ht (KInt h) (new_value HASH_LOOKUP UNINIT) (zend_hash_index_add_or_update_i g ht h UNINIT HASH_LOOKUP)"
    using assms False by (intro index_new) (simp_all add: index_key_def)
  then show ?thesis using False by (simp add: zend_hash_index_lookup_def)
qed

text \<open>The number \<open>$a[] = v\<close> uses.\<close>

definition next_key :: "'v hashtable \<Rightarrow> u64" where
  "next_key ht = (if nNextFreeElement ht = ZEND_LONG_MIN then 0 else nNextFreeElement ht)"

lemma next_key_fresh:
  assumes "wf_ht ht" "nNextFreeElement ht \<noteq> ZEND_LONG_MAX"
  shows "KInt (next_key ht) \<notin> fst ` set (elems ht)"
proof
  assume "KInt (next_key ht) \<in> fst ` set (elems ht)"
  then have "next_key ht <s nNextFreeElement ht"
    using wf_htD(2) [OF assms(1)] assms(2) unfolding next_free_ok_iff by fastforce
  then show False
    by (auto simp: next_key_def word_sless_alt ZEND_LONG_MIN_def split: if_splits)
qed

lemma next_index_insert_correct:
  assumes "wf_ht ht" "nTableSize ht < HT_MAX_SIZE" "proper v"
  shows "if KInt (next_key ht) \<in> fst ` set (elems ht)
         then zend_hash_next_index_insert g ht v = Some (g, ht, None)
         else inserted g ht (KInt (next_key ht)) v (zend_hash_next_index_insert g ht v)"
proof -
  let ?f = "HASH_ADD OR HASH_ADD_NEXT"
  have k: "next_key ht = index_key ?f (nNextFreeElement ht)" by (simp add: index_key_def next_key_def)
  show ?thesis
  proof (cases "KInt (next_key ht) \<in> fst ` set (elems ht)")
    case True
    then show ?thesis
      using index_present [OF assms(1) True _ k, of g v] by (auto simp: zend_hash_next_index_insert_def)
  next
    case False
    have "inserted g ht (KInt (next_key ht)) (new_value ?f v) (zend_hash_index_add_or_update_i g ht (nNextFreeElement ht) v ?f)"
      using assms False k by (intro index_new) simp_all
    then show ?thesis using False by (simp add: zend_hash_next_index_insert_def)
  qed
qed

lemma next_index_insert_new_correct:
  assumes "wf_ht ht" "nTableSize ht < HT_MAX_SIZE" "proper v" "nNextFreeElement ht \<noteq> ZEND_LONG_MAX"
    and "f_packed ht \<or> f_uninitialized ht \<Longrightarrow> unat (next_key ht) = nNumUsed ht"
  shows "inserted g ht (KInt (next_key ht)) v (zend_hash_next_index_insert_new g ht v)"
proof -
  let ?f = "HASH_ADD OR HASH_ADD_NEW OR HASH_ADD_NEXT"
  have k: "next_key ht = index_key ?f (nNextFreeElement ht)" by (simp add: index_key_def next_key_def)
  have "inserted g ht (KInt (next_key ht)) (new_value ?f v) (zend_hash_index_add_or_update_i g ht (nNextFreeElement ht) v ?f)"
    using assms next_key_fresh [OF assms(1,4)] k by (intro index_new) simp_all
  then show ?thesis by (simp add: zend_hash_next_index_insert_new_def)
qed

end
