(* ===== verification/ZendHashDel.thy ===== *)
theory ZendHashDel
  imports ZendHashIndex
begin

text \<open>
  Deletion (\<open>Zend/zend_hash.c\<close>, lines 1415 to 1726). The walk of a chain keeps the bucket before the
  one it looks at (\<open>prev\<close>), which is relinked; the internal pointer and the iterators on the
  deleted position move to the next element, and deleted elements at the end are given back.
  The result is \<open>(g, ht, True)\<close> for \<open>SUCCESS\<close> and \<open>(g, ht, False)\<close> for \<open>FAILURE\<close>.
\<close>

subsection \<open>Operations\<close>

text \<open>\<open>while (1) { new_idx++; ... }\<close>\<close>

function next_used :: "(nat \<Rightarrow> bool) \<Rightarrow> nat \<Rightarrow> nat \<Rightarrow> nat" where
  "next_used undef n i =
     (let i = i + 1 in if i \<ge> n then i else if \<not> undef i then i else next_used undef n i)"
  by pat_completeness auto
termination by (relation "measure (\<lambda>(undef, n, i). n - i)") auto
declare next_used.simps [simp del]

text \<open>\<open>do { ht->nNumUsed--; } while (ht->nNumUsed > 0 && ...)\<close>\<close>

fun shrink_used :: "(nat \<Rightarrow> bool) \<Rightarrow> nat \<Rightarrow> nat" where
  "shrink_used undef 0 = 0"
| "shrink_used undef (Suc n) = (if 0 < n \<and> undef (n - 1) then shrink_used undef n else n)"

definition del_positions :: "(nat \<Rightarrow> bool) \<Rightarrow> nat \<Rightarrow> 'v eg \<Rightarrow> 'v hashtable \<Rightarrow> 'v eg \<times> 'v hashtable" where
  "del_positions undef idx g ht =
     (let (g, ht) =
            (if nInternalPointer ht = idx \<or> HT_HAS_ITERATORS ht
             then (let new_idx = next_used undef (nNumUsed ht) idx;
                       ht = (if nInternalPointer ht = idx then ht\<lparr>nInternalPointer := new_idx\<rparr> else ht)
                   in (zend_hash_iterators_update ht idx new_idx g, ht))
             else (g, ht));
          ht = (if nNumUsed ht - 1 = idx
                then (let n = shrink_used undef (nNumUsed ht)
                      in ht\<lparr>nNumUsed := n, nInternalPointer := min (nInternalPointer ht) n\<rparr>)
                else ht)
      in (g, ht))"

definition zend_hash_packed_del_val_i :: "'v eg \<Rightarrow> 'v hashtable \<Rightarrow> nat \<Rightarrow> 'v eg \<times> 'v hashtable" where
  "zend_hash_packed_del_val_i g ht idx =
     (let ht = ht\<lparr>nNumOfElements := nNumOfElements ht - 1\<rparr>;
          (g, ht) = del_positions (\<lambda>i. is_undef (arPacked ht ! i)) idx g ht;
          tmp = arPacked ht ! idx;
          ht = ht\<lparr>arPacked := (arPacked ht)[idx := IS_UNDEF]\<rparr>
      in (call_dtor ht tmp g, ht))"

definition zend_hash_packed_del_val :: "'v eg \<Rightarrow> 'v hashtable \<Rightarrow> nat \<Rightarrow> 'v eg \<times> 'v hashtable" where
  "zend_hash_packed_del_val g ht idx = zend_hash_packed_del_val_i g ht idx"

definition zend_hash_del_el_ex :: "'v eg \<Rightarrow> 'v hashtable \<Rightarrow> nat \<Rightarrow> nat option \<Rightarrow> 'v eg \<times> 'v hashtable" where
  "zend_hash_del_el_ex g ht idx prev =
     (let p = arData ht ! idx;
          ht = (case prev of
                  Some q \<Rightarrow> ht\<lparr>arData := (arData ht)[q := (arData ht ! q)\<lparr>bnext := bnext p\<rparr>]\<rparr>
                | None \<Rightarrow> set_HT_HASH ht (nIndex ht (bh p)) (bnext p));
          ht = ht\<lparr>nNumOfElements := nNumOfElements ht - 1\<rparr>;
          (g, ht) = del_positions (\<lambda>i. \<not> live (arData ht ! i)) idx g ht;
          ht = ht\<lparr>arData := (arData ht)[idx := (arData ht ! idx)\<lparr>bval := IS_UNDEF\<rparr>]\<rparr>
      in (call_dtor ht (bval p) g, ht))"

text \<open>\<open>while (Z_NEXT(prev->val) != idx)\<close>\<close>

partial_function (option) find_prev :: "'v bucket list \<Rightarrow> nat \<Rightarrow> nat \<Rightarrow> nat option" where
  "find_prev bs idx i = (if bnext (bs ! i) = idx then Some i else find_prev bs idx (bnext (bs ! i)))"

definition release_key :: "nat \<Rightarrow> 'v eg \<Rightarrow> 'v hashtable \<Rightarrow> 'v eg \<times> 'v hashtable" where
  "release_key idx g ht = (case bkey (arData ht ! idx) of
       None \<Rightarrow> (g, ht)
     | Some k \<Rightarrow> (zend_string_release k g, ht\<lparr>arData := (arData ht)[idx := (arData ht ! idx)\<lparr>bkey := None\<rparr>]\<rparr>))"

definition zend_hash_del_el :: "'v eg \<Rightarrow> 'v hashtable \<Rightarrow> nat \<Rightarrow> ('v eg \<times> 'v hashtable) option" where
  "zend_hash_del_el g ht idx =
     (let i = HT_HASH ht (nIndex ht (bh (arData ht ! idx)))
      in do {
        prev \<leftarrow> (if i \<noteq> idx then map_option Some (find_prev (arData ht) idx i) else Some None);
        (let (g, ht) = release_key idx g ht
         in Some (zend_hash_del_el_ex g ht idx prev)) })"

definition zend_hash_del_bucket :: "'v eg \<Rightarrow> 'v hashtable \<Rightarrow> nat \<Rightarrow> ('v eg \<times> 'v hashtable) option" where
  "zend_hash_del_bucket g ht idx = zend_hash_del_el g ht idx"

text \<open>The walk of the deletions: the bucket found and the one before it in the chain.\<close>

partial_function (option) chain_find_prev ::
  "'v bucket list \<Rightarrow> ('v bucket \<Rightarrow> bool) \<Rightarrow> nat option \<Rightarrow> nat \<Rightarrow> (nat \<times> nat option) option option" where
  "chain_find_prev bs p prev idx =
     (if idx = HT_INVALID_IDX then Some None
      else if p (bs ! idx) then Some (Some (idx, prev))
      else chain_find_prev bs p (Some idx) (bnext (bs ! idx)))"

definition zend_hash_del :: "'v eg \<Rightarrow> 'v hashtable \<Rightarrow> zstr \<Rightarrow> ('v eg \<times> 'v hashtable \<times> bool) option" where
  "zend_hash_del g ht key =
     (let h = ZSTR_H key in do {
        r \<leftarrow> chain_find_prev (arData ht) (\<lambda>p. bkey p = Some key \<or> key_match (zs_val key) h p) None
              (HT_HASH ht (nIndex ht h));
        (case r of
           None \<Rightarrow> Some (g, ht, False)
         | Some (idx, prev) \<Rightarrow>
             (let (g, ht) = release_key idx g ht;
                  (g, ht) = zend_hash_del_el_ex g ht idx prev
              in Some (g, ht, True))) })"

definition zend_hash_str_del :: "'v eg \<Rightarrow> 'v hashtable \<Rightarrow> u8 list \<Rightarrow> ('v eg \<times> 'v hashtable \<times> bool) option" where
  "zend_hash_str_del g ht str =
     (let h = zend_inline_hash_func str in do {
        r \<leftarrow> chain_find_prev (arData ht) (key_match str h) None (HT_HASH ht (nIndex ht h));
        (case r of
           None \<Rightarrow> Some (g, ht, False)
         | Some (idx, prev) \<Rightarrow>
             (let (g, ht) = release_key idx g ht;
                  (g, ht) = zend_hash_del_el_ex g ht idx prev
              in Some (g, ht, True))) })"

text \<open>
  Emptying the slot an \<open>IS_INDIRECT\<close> value points to. \<open>zend_hash_del_ind\<close> empties the slot before it
  calls the destructor, \<open>zend_hash_str_del_ind\<close> after; the destructor's log does not see the
  difference.
\<close>

definition zend_hash_del_ind :: "'v eg \<Rightarrow> 'v hashtable \<Rightarrow> zstr \<Rightarrow> ('v eg \<times> 'v hashtable \<times> bool) option" where
  "zend_hash_del_ind g ht key =
     (let h = ZSTR_H key in do {
        r \<leftarrow> chain_find_prev (arData ht) (\<lambda>p. bkey p = Some key \<or> key_match (zs_val key) h p) None
              (HT_HASH ht (nIndex ht h));
        (case r of
           None \<Rightarrow> Some (g, ht, False)
         | Some (idx, prev) \<Rightarrow>
             (case bval (arData ht ! idx) of
                IS_INDIRECT a \<Rightarrow>
                  (if is_undef (ind_slots g a) then Some (g, ht, False)
                   else (let tmp = ind_slots g a;
                             g = g\<lparr>ind_slots := (ind_slots g)(a := IS_UNDEF)\<rparr>;
                             g = call_dtor ht tmp g
                         in Some (g, ht\<lparr>f_has_empty_ind := True\<rparr>, True)))
              | _ \<Rightarrow>
                  (let (g, ht) = release_key idx g ht;
                       (g, ht) = zend_hash_del_el_ex g ht idx prev
                   in Some (g, ht, True)))) })"

definition zend_hash_str_del_ind :: "'v eg \<Rightarrow> 'v hashtable \<Rightarrow> u8 list \<Rightarrow> ('v eg \<times> 'v hashtable \<times> bool) option" where
  "zend_hash_str_del_ind g ht str =
     (let h = zend_inline_hash_func str in do {
        r \<leftarrow> chain_find_prev (arData ht) (key_match str h) None (HT_HASH ht (nIndex ht h));
        (case r of
           None \<Rightarrow> Some (g, ht, False)
         | Some (idx, prev) \<Rightarrow>
             (case bval (arData ht ! idx) of
                IS_INDIRECT a \<Rightarrow>
                  (if is_undef (ind_slots g a) then Some (g, ht, False)
                   else (let g = call_dtor ht (ind_slots g a) g;
                             g = g\<lparr>ind_slots := (ind_slots g)(a := IS_UNDEF)\<rparr>
                         in Some (g, ht\<lparr>f_has_empty_ind := True\<rparr>, True)))
              | _ \<Rightarrow>
                  (let (g, ht) = release_key idx g ht;
                       (g, ht) = zend_hash_del_el_ex g ht idx prev
                   in Some (g, ht, True)))) })"

definition zend_hash_index_del :: "'v eg \<Rightarrow> 'v hashtable \<Rightarrow> u64 \<Rightarrow> ('v eg \<times> 'v hashtable \<times> bool) option" where
  "zend_hash_index_del g ht h =
     (if f_packed ht then
        (if unat h < nNumUsed ht \<and> \<not> is_undef (arPacked ht ! unat h)
         then (case zend_hash_packed_del_val_i g ht (unat h) of (g, ht) \<Rightarrow> Some (g, ht, True))
         else Some (g, ht, False))
      else do {
        r \<leftarrow> chain_find_prev (arData ht) (\<lambda>p. bh p = h \<and> bkey p = None) None (HT_HASH ht (nIndex ht h));
        (case r of
           None \<Rightarrow> Some (g, ht, False)
         | Some (idx, prev) \<Rightarrow> (case zend_hash_del_el_ex g ht idx prev of (g, ht) \<Rightarrow> Some (g, ht, True))) })"

subsection \<open>Unlinking a bucket\<close>

lemma chain_prev_eq_iff:
  "j < HT_INVALID_IDX \<Longrightarrow> chain_prev m bs n s = j \<longleftrightarrow>
     j < n \<and> live (bs ! j) \<and> bslot m (bs ! j) = s \<and> (\<forall>i. j < i \<longrightarrow> i < n \<longrightarrow> \<not> (live (bs ! i) \<and> bslot m (bs ! i) = s))"
proof (induction n)
  case (Suc n)
  then show ?case by (auto simp: less_Suc_eq)
qed simp

lemma chain_prev_remove:
  assumes "\<And>i. i < n \<Longrightarrow> i \<noteq> j \<Longrightarrow> live (bs' ! i) = live (bs ! i) \<and> bslot m (bs' ! i) = bslot m (bs ! i)"
    and "\<not> live (bs' ! j)" and "n \<le> HT_INVALID_IDX" and "j < n"
  shows "chain_prev m bs' n s = (if chain_prev m bs n s = j then chain_prev m bs j s else chain_prev m bs n s)"
  using assms
proof (induction n)
  case (Suc n)
  have ne: "chain_prev m bs' n s \<noteq> n" "chain_prev m bs n s \<noteq> n"
    using chain_prev_cases [of m bs' n s] chain_prev_cases [of m bs n s] Suc.prems(3) by auto
  show ?case
  proof (cases "n = j")
    case True
    have "chain_prev m bs' n s = chain_prev m bs n s"
      using Suc.prems(1) True
    proof (induction n arbitrary: j)
      case (Suc k)
      then show ?case by (metis (no_types, lifting) chain_prev.simps(2) less_Suc_eq nat_neq_iff)
    qed simp
    then show ?thesis using True Suc.prems(2) ne by simp
  next
    case False
    then have "chain_prev m bs' n s = (if chain_prev m bs n s = j then chain_prev m bs j s else chain_prev m bs n s)"
      using Suc by simp
    then show ?thesis using Suc.prems(1) [of n] False by simp
  qed
qed simp

lemma chain_prev_remove_le:
  assumes "\<And>i. i < n \<Longrightarrow> i \<noteq> j \<Longrightarrow> live (bs' ! i) = live (bs ! i) \<and> bslot m (bs' ! i) = bslot m (bs ! i)"
    and "\<not> live (bs' ! j)" and "n < HT_INVALID_IDX" and "j < n" and "k \<le> n"
  shows "chain_prev m bs' k s = (if chain_prev m bs k s = j then chain_prev m bs j s else chain_prev m bs k s)"
proof (cases "j < k")
  case True
  show ?thesis by (rule chain_prev_remove) (use assms True in auto)
next
  case False
  then have "chain_prev m bs k s \<noteq> j" using chain_prev_cases [of m bs k s] assms(3,4) by auto
  moreover have "chain_prev m bs' k s = chain_prev m bs k s"
    using False assms(1,5)
  proof (induction k)
    case (Suc k)
    then show ?case by simp
  qed simp
  ultimately show ?thesis by simp
qed

definition prev_of :: "u32 \<Rightarrow> nat list \<Rightarrow> 'v bucket list \<Rightarrow> nat \<Rightarrow> nat \<Rightarrow> nat option \<Rightarrow> bool" where
  "prev_of m hs bs n j prev \<longleftrightarrow> j < n \<and> live (bs ! j) \<and> (case prev of
     None \<Rightarrow> hs ! bslot m (bs ! j) = j
   | Some q \<Rightarrow> q < n \<and> live (bs ! q) \<and> bslot m (bs ! q) = bslot m (bs ! j) \<and> bnext (bs ! q) = j)"

definition relink :: "nat option \<Rightarrow> u32 \<Rightarrow> nat \<Rightarrow> nat list \<times> 'v bucket list \<Rightarrow> nat list \<times> 'v bucket list" where
  "relink prev m j = (\<lambda>(hs, bs). case prev of
     None \<Rightarrow> (hs[bslot m (bs ! j) := bnext (bs ! j)], bs)
   | Some q \<Rightarrow> (hs, bs[q := (bs ! q)\<lparr>bnext := bnext (bs ! j)\<rparr>]))"

text \<open>Only the slot or the bucket \<open>prev\<close> names points to \<open>j\<close>.\<close>

lemma prev_unique:
  fixes bs :: "'v bucket list"
  assumes "linked m hs bs n" and "n < HT_INVALID_IDX" and "prev_of m hs bs n j prev"
    and "\<And>b. bslot m (b :: 'v bucket) < length hs"
  shows "s < length hs \<Longrightarrow> hs ! s = j \<longleftrightarrow> prev = None \<and> s = bslot m (bs ! j)"
    and "i < n \<Longrightarrow> live (bs ! i) \<Longrightarrow> bnext (bs ! i) = j \<longleftrightarrow> prev = Some i"
proof -
  have j: "j < n" "live (bs ! j)" "j < HT_INVALID_IDX" using assms(2,3) by (auto simp: prev_of_def)
  have hs: "hs ! s = chain_prev m bs n s" if "s < length hs" for s
    using assms(1) that by (simp add: linked_def)
  have nx: "bnext (bs ! i) = chain_prev m bs i (bslot m (bs ! i))" if "i < n" "live (bs ! i)" for i
    using assms(1) that by (simp add: linked_def)
  note iff = chain_prev_eq_iff [OF j(3), of m bs]
  show "hs ! s = j \<longleftrightarrow> prev = None \<and> s = bslot m (bs ! j)" if s: "s < length hs"
  proof
    assume *: "hs ! s = j"
    then have "bslot m (bs ! j) = s" and top: "\<And>i. j < i \<Longrightarrow> i < n \<Longrightarrow> \<not> (live (bs ! i) \<and> bslot m (bs ! i) = s)"
      using hs [OF s] iff by auto
    moreover have "prev = None"
    proof (rule ccontr)
      assume "prev \<noteq> None"
      then obtain q where q: "q < n" "live (bs ! q)" "bslot m (bs ! q) = bslot m (bs ! j)" "bnext (bs ! q) = j"
        using assms(3) by (auto simp: prev_of_def)
      then have "j < q" using nx [OF q(1,2)] iff by metis
      then show False using top q \<open>bslot m (bs ! j) = s\<close> by blast
    qed
    ultimately show "prev = None \<and> s = bslot m (bs ! j)" by simp
  qed (use assms(3) in \<open>auto simp: prev_of_def\<close>)
  show "bnext (bs ! i) = j \<longleftrightarrow> prev = Some i" if i: "i < n" "live (bs ! i)"
  proof
    assume *: "bnext (bs ! i) = j"
    then have ij: "j < i" "bslot m (bs ! j) = bslot m (bs ! i)"
      "\<And>k. j < k \<Longrightarrow> k < i \<Longrightarrow> \<not> (live (bs ! k) \<and> bslot m (bs ! k) = bslot m (bs ! i))"
      using nx [OF i] iff by auto
    show "prev = Some i"
    proof (cases prev)
      case None
      then have "chain_prev m bs n (bslot m (bs ! j)) = j"
        using assms(3,4) hs by (simp add: prev_of_def)
      then show ?thesis using iff ij i by metis
    next
      case (Some q)
      then have q: "q < n" "live (bs ! q)" "bslot m (bs ! q) = bslot m (bs ! j)" "bnext (bs ! q) = j"
        using assms(3) by (auto simp: prev_of_def)
      have qj: "j < q" "\<And>k. j < k \<Longrightarrow> k < q \<Longrightarrow> \<not> (live (bs ! k) \<and> bslot m (bs ! k) = bslot m (bs ! q))"
        using nx [OF q(1,2)] q(4) iff by auto
      have "q = i" using ij qj i q by (metis nat_neq_iff)
      then show ?thesis using Some by simp
    qed
  qed (use assms(3) in \<open>auto simp: prev_of_def\<close>)
qed

lemma payload_bnext_nth: "payload (bs[q := (bs ! q)\<lparr>bnext := x\<rparr>] ! i) = payload (bs ! i)"
  by (cases "q < length bs"; cases "i = q") (auto simp: list_update_beyond)

lemma linked_unlink:
  fixes bs :: "'v bucket list"
  assumes "linked m hs bs n" and "n < HT_INVALID_IDX" and "n \<le> length bs" and "prev_of m hs bs n j prev"
    and slots: "\<And>b. bslot m (b :: 'v bucket) < length hs"
    and r: "relink prev m j (hs, bs) = (hs', bs1)" and b: "\<not> live b"
  shows "linked m hs' (bs1[j := b]) n"
proof -
  have j: "j < n" "live (bs ! j)" using assms(4) by (auto simp: prev_of_def)
  note U = prev_unique [OF assms(1,2,4) slots]
  have hs: "hs ! s = chain_prev m bs n s" if "s < length hs" for s
    using assms(1) that by (simp add: linked_def)
  have nx: "bnext (bs ! i) = chain_prev m bs i (bslot m (bs ! i))" if "i < n" "live (bs ! i)" for i
    using assms(1) that by (simp add: linked_def)
  have len: "length hs' = length hs" "length bs1 = length bs"
    using r by (auto simp: relink_def split: option.splits)
  have "payload (bs1 ! i) = payload (bs ! i)" for i
    using r by (auto simp: relink_def payload_bnext_nth split: option.splits)
  then have same: "live (bs1 ! i) = live (bs ! i)" "bslot m (bs1 ! i) = bslot m (bs ! i)" for i
    using payload_eqD(1,2) by blast+
  let ?bs = "bs1[j := b]"
  have P: "chain_prev m ?bs k s = (if chain_prev m bs k s = j then chain_prev m bs j s else chain_prev m bs k s)"
    if "k \<le> n" for k s
    using that j(1) assms(2,3) len b same by (intro chain_prev_remove_le) auto
  have "hs' ! s = chain_prev m ?bs n s" if "s < length hs'" for s
  proof -
    have s: "s < length hs" using that len by simp
    have "hs' ! s = (if hs ! s = j then bnext (bs ! j) else hs ! s)"
      using U(1) [OF s] r s by (auto simp: relink_def nth_list_update split: option.splits)
    then show ?thesis
      using P [of n s] hs [OF s] nx [OF j] U(1) [OF s] by auto
  qed
  moreover have "bnext (?bs ! i) = chain_prev m ?bs i (bslot m (?bs ! i))" if "i < n" "live (?bs ! i)" for i
  proof -
    have ij: "i \<noteq> j" using that(2) b j(1) assms(3) len by auto
    then have i: "live (bs ! i)" using that(2) same by simp
    have "bnext (bs1 ! i) = (if bnext (bs ! i) = j then bnext (bs ! j) else bnext (bs ! i))"
      using U(2) [OF that(1) i] r that(1) assms(3)
      by (auto simp: relink_def nth_list_update split: option.splits)
    moreover have "bslot m (bs ! i) = bslot m (bs ! j)" if "bnext (bs ! i) = j"
      using U(2) [OF \<open>i < n\<close> i] that assms(4) by (auto simp: prev_of_def)
    ultimately show ?thesis
      using P [of i "bslot m (bs ! i)"] nx [OF that(1) i] nx [OF j] ij that(1) same by auto
  qed
  ultimately show ?thesis unfolding linked_def by blast
qed

lemma linked_truncate:
  assumes "linked m hs bs n" and "k \<le> n" and "\<And>i. k \<le> i \<Longrightarrow> i < n \<Longrightarrow> \<not> live (bs ! i)"
  shows "linked m hs bs k"
proof -
  have "chain_prev m bs n s = chain_prev m bs k s" for s
    using assms(2,3)
  proof (induction n)
    case (Suc n)
    then show ?case by (cases "k = Suc n") auto
  qed simp
  then show ?thesis using assms(1,2) by (auto simp: linked_def)
qed

subsection \<open>The walk\<close>

lemma chain_find_prev_linked:
  assumes "linked m hs bs n" and "s < length hs" and "n < HT_INVALID_IDX"
  shows "case find_last (\<lambda>j. live (bs ! j) \<and> bslot m (bs ! j) = s \<and> p (bs ! j)) n of
      None \<Rightarrow> chain_find_prev bs p None (hs ! s) = Some None
    | Some j \<Rightarrow> (\<exists>prev. chain_find_prev bs p None (hs ! s) = Some (Some (j, prev)) \<and> prev_of m hs bs n j prev)"
proof -
  let ?P = "\<lambda>j. live (bs ! j) \<and> bslot m (bs ! j) = s \<and> p (bs ! j)"
  have gen: "case find_last ?P k of None \<Rightarrow> chain_find_prev bs p prev (chain_prev m bs k s) = Some None
      | Some j \<Rightarrow> (\<exists>prev'. chain_find_prev bs p prev (chain_prev m bs k s) = Some (Some (j, prev')) \<and> prev_of m hs bs n j prev')"
    if "k \<le> n" and "case prev of None \<Rightarrow> hs ! s = chain_prev m bs k s
        | Some q \<Rightarrow> q < n \<and> live (bs ! q) \<and> bslot m (bs ! q) = s \<and> bnext (bs ! q) = chain_prev m bs k s" for k prev
    using that
  proof (induction k arbitrary: prev)
    case 0
    then show ?case by (simp add: chain_find_prev.simps)
  next
    case (Suc k)
    show ?case
    proof (cases "live (bs ! k) \<and> bslot m (bs ! k) = s")
      case True
      have k: "k < n" "k \<noteq> HT_INVALID_IDX" using Suc.prems(1) assms(3) by auto
      have nx: "bnext (bs ! k) = chain_prev m bs k s" using assms(1) k(1) True by (simp add: linked_def)
      show ?thesis
      proof (cases "p (bs ! k)")
        case True2: True
        have "prev_of m hs bs n k prev"
          using Suc.prems(2) True k(1) by (auto simp: prev_of_def split: option.splits)
        then show ?thesis using True True2 k(2) by (simp add: chain_find_prev.simps [of bs p prev k])
      next
        case False
        then have step: "chain_find_prev bs p prev (chain_prev m bs (Suc k) s) = chain_find_prev bs p (Some k) (chain_prev m bs k s)"
          "find_last ?P (Suc k) = find_last ?P k"
          using True k nx by (simp_all add: chain_find_prev.simps [of bs p prev k])
        show ?thesis unfolding step using True k nx by (intro Suc.IH) auto
      qed
    next
      case False
      then have eq: "chain_prev m bs (Suc k) s = chain_prev m bs k s" "find_last ?P (Suc k) = find_last ?P k"
        by auto
      show ?thesis unfolding eq using Suc.IH [of prev] Suc.prems unfolding eq by simp
    qed
  qed
  have hs: "hs ! s = chain_prev m bs n s" using assms(1,2) by (simp add: linked_def)
  show ?thesis unfolding hs by (rule gen) (simp_all add: hs)
qed

subsection \<open>Removing an element\<close>

lemma shrink_used_props:
  assumes "0 < n"
  shows "shrink_used undef n \<le> n - 1" and "shrink_used undef n \<le> i \<Longrightarrow> i < n - 1 \<Longrightarrow> undef i"
proof -
  have "shrink_used undef n \<le> n - 1 \<and> (\<forall>i. shrink_used undef n \<le> i \<longrightarrow> i < n - 1 \<longrightarrow> undef i)"
    using assms
  proof (induction n)
    case (Suc n)
    show ?case
    proof (cases "0 < n \<and> undef (n - 1)")
      case True
      then have IH: "shrink_used undef n \<le> n - 1" "\<forall>i. shrink_used undef n \<le> i \<longrightarrow> i < n - 1 \<longrightarrow> undef i"
        using Suc.IH by auto
      have "undef i" if "shrink_used undef n \<le> i" "i < n" for i
        using IH(2) that True by (cases "i = n - 1") auto
      then show ?thesis using IH(1) True by simp
    qed auto
  qed simp
  then show "shrink_used undef n \<le> n - 1" "shrink_used undef n \<le> i \<Longrightarrow> i < n - 1 \<Longrightarrow> undef i" by auto
qed

definition used_after :: "(nat \<Rightarrow> bool) \<Rightarrow> nat \<Rightarrow> nat \<Rightarrow> nat" where
  "used_after undef idx n = (if n - 1 = idx then shrink_used undef n else n)"

lemma used_after_props:
  assumes "idx < n"
  shows "used_after undef idx n \<le> n"
    and "used_after undef idx n \<le> i \<Longrightarrow> i < n \<Longrightarrow> i = idx \<or> undef i"
  using shrink_used_props [of n undef] assms
  by (auto simp: used_after_def split: if_splits) (metis Suc_pred less_antisym less_nat_zero_code neq0_conv)

lemma del_positions_form:
  obtains ip g' where "del_positions undef idx g ht =
      (g', ht\<lparr>nNumUsed := used_after undef idx (nNumUsed ht), nInternalPointer := ip\<rparr>)" "only_iterators g g'"
proof -
  obtain g' ht' where r: "del_positions undef idx g ht = (g', ht')" by fastforce
  have "ht' = ht\<lparr>nNumUsed := used_after undef idx (nNumUsed ht), nInternalPointer := nInternalPointer ht'\<rparr>"
    using r by (auto simp: del_positions_def used_after_def Let_def intro!: hashtable.equality split: if_splits)
  moreover have "only_iterators g g'"
    using r only_iterators_update by (auto simp: del_positions_def Let_def split: if_splits)
  ultimately show thesis using that r by metis
qed

lemma filter_update_dead:
  "j < length xs \<Longrightarrow> P (xs ! j) \<Longrightarrow> \<not> P y \<Longrightarrow> length (filter P (xs[j := y])) = length (filter P xs) - 1"
proof (induction xs arbitrary: j)
  case (Cons x xs)
  show ?case
  proof (cases j)
    case (Suc i)
    have "0 < length (filter P xs)" using Cons.prems Suc by (auto simp: filter_empty_conv)
    then show ?thesis using Cons Suc by simp
  qed (use Cons in simp)
qed simp

lemma delete_live_elems:
  assumes "distinct (map bucket_key (filter live xs))" and "j < length xs" and "live (xs ! j)" and "\<not> live b"
  shows "map bucket_elem (filter live (xs[j := b])) =
           AList.delete (bucket_key (xs ! j)) (map bucket_elem (filter live xs))"
  using assms
proof (induction xs arbitrary: j)
  case (Cons x xs)
  show ?case
  proof (cases j)
    case 0
    have "bucket_key x \<notin> fst ` set (map bucket_elem (filter live xs))"
      using Cons.prems 0 by (auto simp: bucket_elem_def image_image)
    then show ?thesis using Cons.prems 0 by (simp add: bucket_elem_def [of x] delete_idem)
  next
    case (Suc i)
    have "xs ! i \<in> set (filter live xs)" using Cons.prems Suc by simp
    then have "live x \<Longrightarrow> bucket_key x \<noteq> bucket_key (xs ! i)"
      using Cons.prems(1) by auto
    moreover have "map bucket_elem (filter live (xs[i := b])) =
           AList.delete (bucket_key (xs ! i)) (map bucket_elem (filter live xs))"
      using Cons.prems Suc by (intro Cons.IH) (auto split: if_splits)
    ultimately show ?thesis using Suc by (simp add: bucket_elem_def [of x])
  qed
qed simp

lemma filter_take_dead:
  "k \<le> n \<Longrightarrow> n \<le> length xs \<Longrightarrow> (\<And>i. k \<le> i \<Longrightarrow> i < n \<Longrightarrow> \<not> P (xs ! i)) \<Longrightarrow> filter P (take k xs) = filter P (take n xs)"
proof (induction n)
  case (Suc n)
  then show ?case by (cases "k = Suc n") (auto simp: take_Suc_conv_app_nth)
qed simp

lemma AList_delete_map_fst: "map fst (AList.delete k xs) = filter (\<lambda>k'. k \<noteq> k') (map fst xs)"
  by (simp add: AList.delete_eq filter_map comp_def case_prod_beta')

lemma del_core:
  fixes ht :: "'v hashtable"
  assumes "wf_ht ht" "\<not> f_uninitialized ht" "\<not> f_packed ht"
    and p: "prev_of (nTableMask ht) (arHash ht) (arData ht) (nNumUsed ht) idx prev"
    and r: "relink prev (nTableMask ht) idx (arHash ht, arData ht) = (hs', bs1)"
    and b: "bval b = IS_UNDEF" "bkey b = None"
    and n: "n \<le> nNumUsed ht" "\<And>i. n \<le> i \<Longrightarrow> i < nNumUsed ht \<Longrightarrow> \<not> live (bs1[idx := b] ! i)"
    and ht': "ht' = ht\<lparr>arHash := hs', arData := bs1[idx := b], nNumUsed := n,
       nNumOfElements := nNumOfElements ht - 1, nInternalPointer := ip\<rparr>"
  shows "wf_ht ht'" and "elems ht' = AList.delete (bucket_key (arData ht ! idx)) (elems ht)"
proof -
  note W = wf_htD [OF assms(1)]
  note shape = W(5) [OF assms(2,3)] and S = sizes_okD [OF W(1)]
  note D = mixed_shapeD [OF shape]
  let ?n = "nNumUsed ht" and ?bs = "arData ht" and ?bs' = "bs1[idx := b]"
  have len: "length bs1 = length ?bs" "length hs' = length (arHash ht)" "?n \<le> length ?bs"
    using r D(4) S(3) by (auto simp: relink_def split: option.splits)
  have idx: "idx < ?n" "live (?bs ! idx)" using p by (auto simp: prev_of_def)
  have nl: "\<not> live b" using b by (simp add: live_def)
  have "payload (bs1 ! i) = payload (?bs ! i)" for i
    using r by (auto simp: relink_def payload_bnext_nth split: option.splits)
  then have pay: "map payload bs1 = map payload ?bs" using len(1) by (intro nth_equalityI) simp_all
  let ?T = "take ?n ?bs" and ?T1 = "take ?n bs1"
  have payT: "map payload ?T1 = map payload ?T" using pay by (metis take_map)
  have payl: "map payload (filter live ?T1) = map payload (filter live ?T)"
    using payT by (simp only: map_payload_filter_live)
  have keysT: "map bucket_key (filter live ?T1) = map bucket_key (live_buckets ht)"
    using payl by (simp only: map_bucket_key_elem map_bucket_elem_payload live_buckets_def)
  have elT: "map bucket_elem (filter live ?T1) = map bucket_elem (live_buckets ht)"
    using payl by (simp only: map_bucket_elem_payload live_buckets_def)
  have p1: "payload (bs1 ! idx) = payload (?bs ! idx)"
    using pay len idx(1) by (metis nth_map order_less_le_trans)
  have idx1: "idx < length ?T1" "live (?T1 ! idx)" "bucket_key (?T1 ! idx) = bucket_key (?bs ! idx)"
    using payload_eqD [OF p1] idx len by (auto intro: bucket_key_cong)
  have take: "take ?n ?bs' = ?T1[idx := b]" using idx(1) by (rule take_list_update)
  have lb: "live_buckets ht' = filter live (?T1[idx := b])"
  proof -
    have "filter live (take n ?bs') = filter live (take ?n ?bs')"
      using n len by (intro filter_take_dead) auto
    then show ?thesis by (simp add: live_buckets_def ht' take)
  qed
  have dist: "distinct (map bucket_key (filter live ?T1))" using D(8) keysT by simp
  have "map bucket_elem (live_buckets ht') = AList.delete (bucket_key (?bs ! idx)) (map bucket_elem (live_buckets ht))"
    unfolding lb elT [symmetric] using delete_live_elems [OF dist idx1(1,2) nl] idx1(3) by simp
  then show e: "elems ht' = AList.delete (bucket_key (?bs ! idx)) (elems ht)"
    using assms(3) by (simp add: elems_def ht')
  have fp: "\<not> f_packed ht'" using assms(3) by (simp add: ht')
  have "nNumOfElements ht' = length (live_buckets ht')"
    unfolding lb filter_update_dead [OF idx1(1,2) nl] using D(6) map_eq_imp_length_eq [OF keysT] by (simp add: ht')
  moreover have "distinct (map bucket_key (live_buckets ht'))"
    using D(8) assms(3) fp e unfolding map_bucket_key_elem by (simp add: elems_def AList_delete_map_fst)
  moreover have "keys_ok ?T1" using D(7) payT by (simp only: keys_ok_payload)
  then have "keys_ok (take n ?bs')"
    using keys_ok_subset [of "?T1[idx := b]" "take n ?bs'"] n(1) b set_update_subset_insert [of ?T1 idx b]
      set_take_subset_set_take [OF n(1), of ?bs'] unfolding take keys_ok_def by fastforce
  moreover have "static_ok (take n ?bs')" if "f_static_keys ht"
  proof -
    have "static_ok ?T1" using D(9) [OF that] payT by (simp only: static_ok_payload)
    then show ?thesis
      using set_take_subset_set_take [OF n(1), of ?bs'] b set_update_subset_insert [of ?T1 idx b]
      unfolding take static_ok_def by fastforce
  qed
  ultimately have "mixed_shape ht'" using D len by (simp add: mixed_shape_def ht')
  moreover have "linked (nTableMask ht) hs' ?bs' ?n"
    by (rule linked_unlink [OF W(6) [OF assms(2,3)] S(4) len(3) p mixed_bslot_bound [OF W(1) shape] r nl])
  then have "linked (nTableMask ht) hs' ?bs' n" using n by (rule linked_truncate)
  moreover have "fst ` set (elems ht') \<subseteq> fst ` set (elems ht)"
    unfolding e by (auto simp: AList.delete_eq)
  then have "next_free_ok ht'" by (rule next_free_ok_keys [OF W(2)]) (simp add: ht')
  moreover have "sizes_ok ht'" using W(1) n(1) by (auto simp: sizes_ok_def ht')
  ultimately show "wf_ht ht'"
    using assms(2,3) by (simp add: wf_ht_def wf_mixed_def ht')
qed

lemma relink_update:
  assumes "relink prev m j (hs, bs) = (hs', bs1)" and "prev \<noteq> Some j" and "j < length bs"
    and "bh c = bh (bs ! j)" "bnext c = bnext (bs ! j)"
  shows "relink prev m j (hs, bs[j := c]) = (hs', bs1[j := c])"
  using assms by (auto simp: relink_def bslot_def list_update_swap split: option.splits)

lemma prev_of_not_self:
  assumes "linked m hs bs n" and "n < HT_INVALID_IDX" and "prev_of m hs bs n j prev"
  shows "prev \<noteq> Some j"
proof
  assume "prev = Some j"
  then have "bnext (bs ! j) = j" "j < n" "live (bs ! j)" using assms(3) by (auto simp: prev_of_def)
  then show False
    using assms(1,2) chain_prev_cases [of m bs j "bslot m (bs ! j)"] by (auto simp: linked_def)
qed

definition deletes :: "'v eg \<Rightarrow> 'v hashtable \<Rightarrow> hkey \<Rightarrow> 'v eg \<times> 'v hashtable \<Rightarrow> bool" where
  "deletes g ht k res \<longleftrightarrow> (\<exists>g' ht'. res = (g', ht') \<and> wf_ht ht' \<and>
     elems ht' = AList.delete k (elems ht) \<and> dtor_log g' = dtor_log g @ dtor_calls ht k \<and>
     ind_slots g' = ind_slots g \<and> pDestructor ht' = pDestructor ht \<and> ht_id ht' = ht_id ht)"

lemma call_dtor_log: "dtor_log (call_dtor ht v g) = dtor_log g @ (if pDestructor ht then [v] else [])"
  by (simp add: call_dtor_def)

lemma string_release_frame [simp]:
  "dtor_log (zend_string_release s g) = dtor_log g" "ind_slots (zend_string_release s g) = ind_slots g"
  "ht_iterators (zend_string_release s g) = ht_iterators g"
  by (simp_all add: zend_string_release_def)

text \<open>\<open>_zend_hash_del_el_ex\<close> on a bucket whose key has been released.\<close>

lemma del_el_ex_correct:
  fixes ht :: "'v hashtable"
  assumes "wf_ht ht" "\<not> f_uninitialized ht" "\<not> f_packed ht"
    and p: "prev_of (nTableMask ht) (arHash ht) (arData ht) (nNumUsed ht) idx prev"
    and abs: "abs_find ht k = Some (bval (arData ht ! idx))" "bucket_key (arData ht ! idx) = k"
    and c: "c = (arData ht ! idx)\<lparr>bkey := None\<rparr>" and ht0: "ht0 = ht\<lparr>arData := (arData ht)[idx := c]\<rparr>"
    and g0: "dtor_log g0 = dtor_log g" "ind_slots g0 = ind_slots g"
  shows "deletes g ht k (zend_hash_del_el_ex g0 ht0 idx prev)"
proof -
  note W = wf_htD [OF assms(1)]
  note shape = W(5) [OF assms(2,3)] and S = sizes_okD [OF W(1)]
  note D = mixed_shapeD [OF shape]
  have idx: "idx < nNumUsed ht" "idx < length (arData ht)" using p D(4) S(3) by (auto simp: prev_of_def)
  have ns: "prev \<noteq> Some idx" using prev_of_not_self [OF W(6) [OF assms(2,3)] S(4) p] .
  obtain hs' bs1 where r: "relink prev (nTableMask ht) idx (arHash ht, arData ht) = (hs', bs1)" by fastforce
  have len: "length bs1 = length (arData ht)" using r by (auto simp: relink_def split: option.splits)
  have r0: "relink prev (nTableMask ht) idx (arHash ht, (arData ht)[idx := c]) = (hs', bs1[idx := c])"
    by (rule relink_update [OF r ns idx(2)]) (simp_all add: c)
  let ?ht1 = "ht\<lparr>arHash := hs', arData := bs1[idx := c], nNumOfElements := nNumOfElements ht - 1\<rparr>"
  have relinked: "(case prev of Some q \<Rightarrow> ht0\<lparr>arData := (arData ht0)[q := (arData ht0 ! q)\<lparr>bnext := bnext c\<rparr>]\<rparr>
       | None \<Rightarrow> set_HT_HASH ht0 (nIndex ht0 (bh c)) (bnext c))\<lparr>nNumOfElements := nNumOfElements ht - 1\<rparr> = ?ht1"
    using r0 idx(2) by (cases prev) (simp_all add: relink_def ht0 set_HT_HASH_def nIndex_def bslot_def c)
  let ?U = "\<lambda>i. \<not> live (bs1[idx := c] ! i)"
  let ?n = "used_after ?U idx (nNumUsed ht)"
  have nu: "nNumUsed ?ht1 = nNumUsed ht" by simp
  obtain ip g' where P: "del_positions ?U idx g0 ?ht1 = (g', ?ht1\<lparr>nNumUsed := ?n, nInternalPointer := ip\<rparr>)"
    "only_iterators g0 g'"
    using del_positions_form [of ?U idx g0 ?ht1] unfolding nu by blast
  let ?b = "c\<lparr>bval := IS_UNDEF\<rparr>"
  let ?ht' = "ht\<lparr>arHash := hs', arData := bs1[idx := ?b], nNumUsed := ?n,
       nNumOfElements := nNumOfElements ht - 1, nInternalPointer := ip\<rparr>"
  have f0: "arData ht0 ! idx = c" "nNumOfElements (case prev of Some q \<Rightarrow> ht0\<lparr>arData := (arData ht0)[q := (arData ht0 ! q)\<lparr>bnext := bnext c\<rparr>]\<rparr>
       | None \<Rightarrow> set_HT_HASH ht0 (nIndex ht0 (bh c)) (bnext c)) = nNumOfElements ht"
    using idx(2) by (simp_all add: ht0 set_HT_HASH_def split: option.split)
  have run: "zend_hash_del_el_ex g0 ht0 idx prev = (call_dtor ht (bval c) g', ?ht')"
    unfolding zend_hash_del_el_ex_def Let_def f0 relinked
    using P(1) idx(2) len by (simp add: call_dtor_def c)
  have "\<not> live (bs1[idx := ?b] ! i)" if "?n \<le> i" "i < nNumUsed ht" for i
    using used_after_props(2) [OF idx(1) that] idx(2) len
    by (cases "i = idx") (auto simp: live_def nth_list_update)
  note C = del_core [OF assms(1-3) p r _ _ used_after_props(1) [OF idx(1)] this refl]
  have "wf_ht ?ht'" "elems ?ht' = AList.delete k (elems ht)"
    using C abs(2) by (simp_all add: c)
  then show ?thesis
    unfolding deletes_def run using only_iteratorsD [OF P(2)] g0 abs(1)
    by (simp add: call_dtor_log dtor_calls_def c)
qed

text \<open>Search and removal in a mixed table.\<close>

lemma mixed_chain_find_prev:
  fixes ht :: "'v hashtable"
  assumes "wf_ht ht" and "\<not> f_uninitialized ht" and "\<not> f_packed ht"
    and p: "\<And>b :: 'v bucket. bh b = khash (bucket_key b) \<Longrightarrow> p b \<longleftrightarrow> bucket_key b = k"
  shows "case lookup_idx ht k of
      None \<Rightarrow> chain_find_prev (arData ht) p None (HT_HASH ht (nIndex ht (khash k))) = Some None
    | Some j \<Rightarrow> (\<exists>prev. chain_find_prev (arData ht) p None (HT_HASH ht (nIndex ht (khash k))) = Some (Some (j, prev)) \<and>
        prev_of (nTableMask ht) (arHash ht) (arData ht) (nNumUsed ht) j prev)"
proof -
  note W = wf_htD [OF assms(1)]
  note shape = W(5) [OF assms(2,3)]
  let ?s = "slot_of (nTableMask ht) (ucast (khash k) OR nTableMask ht)"
  have hash: "bh (arData ht ! j) = khash (bucket_key (arData ht ! j))" if "j < nNumUsed ht" for j
    using keys_ok_hash [OF mixed_shapeD(7) [OF shape] used_bucket_in_take [OF W(1) shape that]] .
  have s: "?s < length (arHash ht)"
    using mixed_bslot_bound [OF W(1) shape, of "fresh_bucket\<lparr>bh := khash k\<rparr>"] by (simp add: bslot_def)
  have eq: "lookup_idx ht k = find_last (\<lambda>j. live (arData ht ! j) \<and>
      bslot (nTableMask ht) (arData ht ! j) = ?s \<and> p (arData ht ! j)) (nNumUsed ht)"
    unfolding lookup_idx_def using hash p by (intro find_last_cong) (auto simp: bslot_def)
  have h: "HT_HASH ht (nIndex ht (khash k)) = arHash ht ! ?s" by (simp add: HT_HASH_def nIndex_def)
  show ?thesis
    unfolding eq h
    using W(6) [OF assms(2,3)] s sizes_okD(4) [OF W(1)] by (rule chain_find_prev_linked)
qed

lemma bkey_None_same: "bkey b = None \<Longrightarrow> b\<lparr>bkey := None\<rparr> = b"
  by (cases b) simp

lemma release_key_eq:
  assumes "idx < length (arData ht)"
  obtains g0 where "release_key idx g ht = (g0, ht\<lparr>arData := (arData ht)[idx := (arData ht ! idx)\<lparr>bkey := None\<rparr>]\<rparr>)"
    "dtor_log g0 = dtor_log g" "ind_slots g0 = ind_slots g"
proof (cases "bkey (arData ht ! idx)")
  case None
  then show thesis using that [of g] by (simp add: release_key_def bkey_None_same)
next
  case (Some k)
  then show thesis using that [of "zend_string_release k g"] by (simp add: release_key_def)
qed

lemma delete_found:
  assumes "wf_ht ht" "\<not> f_uninitialized ht" "\<not> f_packed ht" "lookup_idx ht k = Some idx"
    and "prev_of (nTableMask ht) (arHash ht) (arData ht) (nNumUsed ht) idx prev"
  shows "deletes g ht k (case release_key idx g ht of (g, ht) \<Rightarrow> zend_hash_del_el_ex g ht idx prev)"
proof -
  note W = wf_htD [OF assms(1)]
  note L = lookup_idx_SomeD [OF assms(4)]
  have idx: "idx < length (arData ht)"
    using L mixed_shapeD(4) [OF W(5) [OF assms(2,3)]] sizes_okD(3) [OF W(1)] by simp
  have abs: "abs_find ht k = Some (bval (arData ht ! idx))"
    using abs_find_mixed [OF assms(1,3)] assms(4) by simp
  obtain g0 where "release_key idx g ht = (g0, ht\<lparr>arData := (arData ht)[idx := (arData ht ! idx)\<lparr>bkey := None\<rparr>]\<rparr>)"
    "dtor_log g0 = dtor_log g" "ind_slots g0 = ind_slots g"
    using release_key_eq [OF idx] by blast
  then show ?thesis
    using del_el_ex_correct [OF assms(1-3,5) abs _ refl refl] L by simp
qed

lemma index_delete_found:
  assumes "wf_ht ht" "\<not> f_uninitialized ht" "\<not> f_packed ht" "lookup_idx ht (KInt h) = Some idx"
    and "prev_of (nTableMask ht) (arHash ht) (arData ht) (nNumUsed ht) idx prev"
  shows "deletes g ht (KInt h) (zend_hash_del_el_ex g ht idx prev)"
proof -
  have "bkey (arData ht ! idx) = None"
    using lookup_idx_SomeD [OF assms(4)] by (auto simp: bucket_key_def split: option.splits)
  then show ?thesis using delete_found [OF assms, of g] by (simp add: release_key_def)
qed

lemma no_data_chain_find_prev:
  "no_data ht \<Longrightarrow> chain_find_prev bs p prev (HT_HASH ht (nIndex ht h)) = Some None"
  by (simp add: no_data_slot chain_find_prev.simps)

text \<open>A deletion by key: what it does to the elements, and the result code.\<close>

definition deletes_key :: "'v eg \<Rightarrow> 'v hashtable \<Rightarrow> hkey \<Rightarrow> ('v eg \<times> 'v hashtable \<times> bool) option \<Rightarrow> bool" where
  "deletes_key g ht k res \<longleftrightarrow> (if k \<in> fst ` set (elems ht)
     then \<exists>g' ht'. res = Some (g', ht', True) \<and> deletes g ht k (g', ht')
     else res = Some (g, ht, False))"

lemma search_outcome:
  fixes ht :: "'v hashtable"
  assumes "wf_ht ht" and p: "\<And>b :: 'v bucket. bh b = khash (bucket_key b) \<Longrightarrow> p b \<longleftrightarrow> bucket_key b = k"
    and packed: "f_packed ht \<Longrightarrow> k \<notin> fst ` set (elems ht)"
  obtains (absent) "k \<notin> fst ` set (elems ht)"
      "chain_find_prev (arData ht) p None (HT_HASH ht (nIndex ht (khash k))) = Some None"
  | (present) j prev where "k \<in> fst ` set (elems ht)"
      "chain_find_prev (arData ht) p None (HT_HASH ht (nIndex ht (khash k))) = Some (Some (j, prev))"
      "\<not> f_uninitialized ht" "\<not> f_packed ht" "lookup_idx ht k = Some j"
      "prev_of (nTableMask ht) (arHash ht) (arData ht) (nNumUsed ht) j prev"
      "abs_find ht k = Some (bval (arData ht ! j))"
proof (cases "f_uninitialized ht \<or> f_packed ht")
  case True
  then have "no_data ht" using assms(1) wf_uninitD(1) wf_packedD(1) by blast
  moreover have "k \<notin> fst ` set (elems ht)" using True packed wf_uninitD(4) [OF assms(1)] by auto
  ultimately show thesis using absent no_data_chain_find_prev by blast
next
  case False
  then have m: "\<not> f_uninitialized ht" "\<not> f_packed ht" by auto
  note C = mixed_chain_find_prev [OF assms(1) m p]
  note A = abs_find_mixed [OF assms(1) m(2), of k]
  show thesis
  proof (cases "lookup_idx ht k")
    case None
    then show thesis using C A absent abs_find_None_iff [of ht k] by simp
  next
    case (Some j)
    then have "k \<in> fst ` set (elems ht)" using A abs_find_None_iff [of ht k] by auto
    then show thesis using C A present m Some by auto
  qed
qed

lemma key_or_match_iff:
  "bh b = khash (bucket_key b) \<Longrightarrow>
   (bkey b = Some key \<or> key_match (zs_val key) (ZSTR_H key) b) \<longleftrightarrow> bucket_key b = KStr (zs_val key)"
  using key_match_iff [of b "zs_val key"] by (auto simp: ZSTR_H_def bucket_key_def)

lemma int_match_iff:
  "bh b = khash (bucket_key b) \<Longrightarrow> (bh b = h \<and> bkey b = None) \<longleftrightarrow> bucket_key b = KInt h"
  by (auto simp: bucket_key_def split: option.splits)

lemma khash_simps [simp]: "khash (KStr s) = zend_inline_hash_func s" "khash (KInt h) = h"
  by (simp_all add: khash_def)

lemma str_key_packed: "wf_ht ht \<Longrightarrow> f_packed ht \<Longrightarrow> KStr s \<notin> fst ` set (elems ht)"
  using str_key_mixed by blast

lemma del_correct:
  assumes "wf_ht ht"
  shows "deletes_key g ht (KStr (zs_val key)) (zend_hash_del g ht key)"
proof (rule search_outcome [OF assms key_or_match_iff str_key_packed [OF assms]])
  assume "KStr (zs_val key) \<notin> fst ` set (elems ht)"
    "chain_find_prev (arData ht) (\<lambda>b. bkey b = Some key \<or> key_match (zs_val key) (ZSTR_H key) b) None
       (HT_HASH ht (nIndex ht (khash (KStr (zs_val key))))) = Some None"
  then show ?thesis by (simp add: deletes_key_def zend_hash_del_def ZSTR_H_def)
next
  fix j prev
  assume *: "KStr (zs_val key) \<in> fst ` set (elems ht)"
    "chain_find_prev (arData ht) (\<lambda>b. bkey b = Some key \<or> key_match (zs_val key) (ZSTR_H key) b) None
       (HT_HASH ht (nIndex ht (khash (KStr (zs_val key))))) = Some (Some (j, prev))"
    "\<not> f_uninitialized ht" "\<not> f_packed ht" "lookup_idx ht (KStr (zs_val key)) = Some j"
    "prev_of (nTableMask ht) (arHash ht) (arData ht) (nNumUsed ht) j prev"
  then show ?thesis
    using delete_found [OF assms *(3-6), of g]
    by (auto simp: deletes_key_def zend_hash_del_def ZSTR_H_def deletes_def split: prod.splits)
qed

lemma str_del_correct:
  assumes "wf_ht ht"
  shows "deletes_key g ht (KStr s) (zend_hash_str_del g ht s)"
proof (rule search_outcome [OF assms key_match_iff str_key_packed [OF assms]])
  assume "KStr s \<notin> fst ` set (elems ht)"
    "chain_find_prev (arData ht) (key_match s (zend_inline_hash_func s)) None
       (HT_HASH ht (nIndex ht (khash (KStr s)))) = Some None"
  then show ?thesis by (simp add: deletes_key_def zend_hash_str_del_def)
next
  fix j prev
  assume *: "KStr s \<in> fst ` set (elems ht)"
    "chain_find_prev (arData ht) (key_match s (zend_inline_hash_func s)) None
       (HT_HASH ht (nIndex ht (khash (KStr s)))) = Some (Some (j, prev))"
    "\<not> f_uninitialized ht" "\<not> f_packed ht" "lookup_idx ht (KStr s) = Some j"
    "prev_of (nTableMask ht) (arHash ht) (arData ht) (nNumUsed ht) j prev"
  then show ?thesis
    using delete_found [OF assms *(3-6), of g]
    by (auto simp: deletes_key_def zend_hash_str_del_def deletes_def split: prod.splits)
qed

subsection \<open>Packed tables\<close>

lemma packed_elems_delete:
  assumes "i < n" "n < HT_INVALID_IDX" "n \<le> length zs"
  shows "packed_elems (zs[i := IS_UNDEF]) n = AList.delete (KInt (of_nat i)) (packed_elems zs n)"
  using assms
proof (induction n)
  case (Suc n)
  have app: "AList.delete k (xs @ ys) = AList.delete k xs @ AList.delete k ys" for k and xs ys :: "(hkey \<times> 'a zval) list"
    by (simp add: AList.delete_eq)
  have new: "KInt (of_nat n) \<notin> fst ` set (packed_elems zs n)"
    using packed_key_less [of "of_nat n" zs n] Suc.prems(2) by (auto simp: unat_of_index)
  show ?case
  proof (cases "i < n")
    case True
    then have "(of_nat i :: u64) \<noteq> of_nat n"
      using of_nat_inj_u64 [of i n] Suc.prems(2) by auto
    then show ?thesis using Suc True by (simp add: packed_elems_Suc app)
  next
    case False
    then have i: "i = n" using Suc.prems by simp
    have "packed_elems (zs[i := IS_UNDEF]) n = packed_elems zs n"
      by (rule packed_elems_cong) (simp add: i)
    then show ?thesis using Suc.prems new i by (simp add: packed_elems_Suc app delete_idem)
  qed
qed simp

lemma packed_del_val_correct:
  assumes "wf_ht ht" "f_packed ht" "idx < nNumUsed ht" "\<not> is_undef (arPacked ht ! idx)"
  shows "deletes g ht (KInt (of_nat idx)) (zend_hash_packed_del_val_i g ht idx)"
proof -
  note P = wf_packed_hash [OF assms(1,2)] and W = wf_htD [OF assms(1)]
  have wp: "wf_packed ht" using W(4) P(1) assms(2) by blast
  have lt: "nNumUsed ht < HT_INVALID_IDX" using sizes_okD(4) [OF P(2)] .
  let ?U = "\<lambda>i. is_undef (arPacked ht ! i)" and ?ht1 = "ht\<lparr>nNumOfElements := nNumOfElements ht - 1\<rparr>"
  let ?n = "used_after ?U idx (nNumUsed ht)" and ?zs = "(arPacked ht)[idx := IS_UNDEF]"
  have nu: "nNumUsed ?ht1 = nNumUsed ht" by simp
  obtain ip g' where D: "del_positions ?U idx g ?ht1 = (g', ?ht1\<lparr>nNumUsed := ?n, nInternalPointer := ip\<rparr>)"
    "only_iterators g g'"
    using del_positions_form [of ?U idx g ?ht1] unfolding nu by blast
  let ?ht' = "ht\<lparr>nNumOfElements := nNumOfElements ht - 1, nNumUsed := ?n, nInternalPointer := ip, arPacked := ?zs\<rparr>"
  have run: "zend_hash_packed_del_val_i g ht idx = (call_dtor ht (arPacked ht ! idx) g', ?ht')"
    using D(1) by (simp add: zend_hash_packed_del_val_i_def Let_def call_dtor_def)
  have n: "?n \<le> nNumUsed ht" by (rule used_after_props(1) [OF assms(3)])
  have dead: "is_undef (?zs ! i)" if "?n \<le> i" "i < nNumUsed ht" for i
    using used_after_props(2) [OF assms(3) that] assms(3) P(4) that by (cases "i = idx") auto
  have "packed_elems ?zs ?n = packed_elems ?zs (nNumUsed ht)"
    using packed_elems_gap [OF n dead] by simp
  then have pe: "packed_elems ?zs ?n = AList.delete (KInt (of_nat idx)) (packed_elems (arPacked ht) (nNumUsed ht))"
    using packed_elems_delete [OF assms(3) lt P(4)] by simp
  have e: "elems ?ht' = AList.delete (KInt (of_nat idx)) (elems ht)"
    using pe assms(2) by (simp add: elems_def)
  have "filter (\<lambda>v. \<not> is_undef v) (take ?n ?zs) = filter (\<lambda>v. \<not> is_undef v) (take (nNumUsed ht) ?zs)"
    using dead P(4) by (intro filter_take_dead [OF n]) auto
  moreover have "length (filter (\<lambda>v. \<not> is_undef v) ((take (nNumUsed ht) (arPacked ht))[idx := IS_UNDEF])) = nNumOfElements ht - 1"
    using P(4,6) assms(3,4) by (subst filter_update_dead) auto
  ultimately have cnt: "nNumOfElements ht - 1 = length (filter (\<lambda>v. \<not> is_undef v) (take ?n ?zs))"
    using take_list_update [OF assms(3)] by metis
  have "UNINIT \<notin> set (take ?n ?zs)"
    using P(5) set_take_subset_set_take [OF n, of ?zs] set_update_subset_insert [of "take (nNumUsed ht) (arPacked ht)" idx IS_UNDEF]
    unfolding take_list_update [OF assms(3)] by fastforce
  then have "wf_packed ?ht'" using wp cnt n by (auto simp: wf_packed_def no_data_def)
  moreover have "fst ` set (elems ?ht') \<subseteq> fst ` set (elems ht)" unfolding e by (auto simp: AList.delete_eq)
  then have "next_free_ok ?ht'" by (rule next_free_ok_keys [OF W(2)]) simp
  moreover have "sizes_ok ?ht'" using W(1) n by (auto simp: sizes_ok_def)
  ultimately have "wf_ht ?ht'" using P(1) assms(2) by (simp add: wf_ht_def)
  moreover have "abs_find ht (KInt (of_nat idx)) = Some (arPacked ht ! idx)"
    using abs_find_packed [OF assms(1,2)] assms(3,4) unat_of_index [of idx] lt by simp
  ultimately show ?thesis
    unfolding deletes_def run using e only_iteratorsD [OF D(2)] by (simp add: call_dtor_log dtor_calls_def)
qed

lemma index_del_correct:
  assumes "wf_ht ht"
  shows "deletes_key g ht (KInt h) (zend_hash_index_del g ht h)"
proof (cases "f_packed ht")
  case True
  note A = abs_find_packed [OF assms True, of "KInt h"]
  show ?thesis
  proof (cases "KInt h \<in> fst ` set (elems ht)")
    case True2: True
    then have p: "unat h < nNumUsed ht" "\<not> is_undef (arPacked ht ! unat h)"
      using A abs_find_None_iff [of ht "KInt h"] by (auto split: if_splits)
    show ?thesis
      using packed_del_val_correct [OF assms True p, of g] True True2 p
      by (auto simp: deletes_key_def zend_hash_index_del_def deletes_def split: prod.splits)
  next
    case False
    then have "\<not> (unat h < nNumUsed ht \<and> \<not> is_undef (arPacked ht ! unat h))"
      using A abs_find_None_iff [of ht "KInt h"] by (auto split: if_splits)
    then show ?thesis using True False by (auto simp: deletes_key_def zend_hash_index_del_def)
  qed
next
  case mixed: False
  then have np: "f_packed ht \<Longrightarrow> KInt h \<notin> fst ` set (elems ht)" by simp
  show ?thesis
  proof (rule search_outcome [OF assms int_match_iff np])
    assume "KInt h \<notin> fst ` set (elems ht)"
      "chain_find_prev (arData ht) (\<lambda>b. bh b = h \<and> bkey b = None) None
         (HT_HASH ht (nIndex ht (khash (KInt h)))) = Some None"
    then show ?thesis using mixed by (simp add: deletes_key_def zend_hash_index_del_def)
  next
    fix j prev
    assume *: "KInt h \<in> fst ` set (elems ht)"
      "chain_find_prev (arData ht) (\<lambda>b. bh b = h \<and> bkey b = None) None
         (HT_HASH ht (nIndex ht (khash (KInt h)))) = Some (Some (j, prev))"
      "\<not> f_uninitialized ht" "\<not> f_packed ht" "lookup_idx ht (KInt h) = Some j"
      "prev_of (nTableMask ht) (arHash ht) (arData ht) (nNumUsed ht) j prev"
    then show ?thesis
      using index_delete_found [OF assms *(3-6), of g]
      by (auto simp: deletes_key_def zend_hash_index_del_def deletes_def split: prod.splits)
  qed (use mixed in auto)
qed

subsection \<open>Deletion by position\<close>

lemma distinct_map_filter_eq:
  assumes "distinct (map f (filter P xs))" "i < length xs" "j < length xs" "P (xs ! i)" "P (xs ! j)" "f (xs ! i) = f (xs ! j)"
  shows "i = j"
  using assms
proof (induction xs arbitrary: i j)
  case (Cons x xs)
  have "f x \<noteq> f (xs ! k)" "f (xs ! k) \<noteq> f x" if "P x" "k < length xs" "P (xs ! k)" for k
  proof -
    have "f (xs ! k) \<in> f ` set (filter P xs)" using that by simp
    moreover have "f x \<notin> f ` set (filter P xs)" using Cons.prems(1) that(1) by simp
    ultimately show "f x \<noteq> f (xs ! k)" "f (xs ! k) \<noteq> f x" by metis+
  qed
  then show ?case using Cons.prems Cons.IH by (cases i; cases j) (auto split: if_splits)
qed simp

lemma find_prev_correct:
  assumes "linked m hs bs n" and "n < HT_INVALID_IDX" and "idx < k" "k \<le> n" "live (bs ! idx)"
    and "chain_prev m bs k (bslot m (bs ! idx)) \<noteq> idx"
  shows "\<exists>q. find_prev bs idx (chain_prev m bs k (bslot m (bs ! idx))) = Some q \<and> prev_of m hs bs n idx (Some q)"
  using assms(3,4,6)
proof (induction k)
  case (Suc k)
  let ?s = "bslot m (bs ! idx)"
  show ?case
  proof (cases "live (bs ! k) \<and> bslot m (bs ! k) = ?s")
    case True
    then have k: "k \<noteq> idx" "idx < k" "k < n" using Suc.prems by auto
    have nx: "bnext (bs ! k) = chain_prev m bs k ?s" using assms(1) k(3) True by (simp add: linked_def)
    show ?thesis
    proof (cases "chain_prev m bs k ?s = idx")
      case True2: True
      then show ?thesis using True k nx assms(5) by (simp add: find_prev.simps [of bs idx k] prev_of_def)
    next
      case False
      then show ?thesis using Suc.IH k True nx by (simp add: find_prev.simps [of bs idx k])
    qed
  next
    case False
    then have "idx \<noteq> k" using assms(5) by auto
    then show ?thesis using Suc False by auto
  qed
qed simp

lemma del_bucket_correct:
  assumes "wf_ht ht" "\<not> f_uninitialized ht" "\<not> f_packed ht" "idx < nNumUsed ht" "live (arData ht ! idx)"
  shows "\<exists>res. zend_hash_del_bucket g ht idx = Some res \<and> deletes g ht (bucket_key (arData ht ! idx)) res"
proof -
  note W = wf_htD [OF assms(1)]
  note shape = W(5) [OF assms(2,3)] and S = sizes_okD [OF W(1)]
  note L = W(6) [OF assms(2,3)]
  let ?k = "bucket_key (arData ht ! idx)" and ?s = "bslot (nTableMask ht) (arData ht ! idx)"
  have hh: "HT_HASH ht (nIndex ht (bh (arData ht ! idx))) = chain_prev (nTableMask ht) (arData ht) (nNumUsed ht) ?s"
    using L mixed_bslot_bound [OF W(1) shape, of "arData ht ! idx"]
    by (simp add: linked_def HT_HASH_def nIndex_def bslot_def)
  obtain prev where prev: "prev_of (nTableMask ht) (arHash ht) (arData ht) (nNumUsed ht) idx prev"
    "(if HT_HASH ht (nIndex ht (bh (arData ht ! idx))) \<noteq> idx
      then map_option Some (find_prev (arData ht) idx (HT_HASH ht (nIndex ht (bh (arData ht ! idx))))) else Some None) = Some prev"
  proof (cases "HT_HASH ht (nIndex ht (bh (arData ht ! idx))) = idx")
    case True
    then have "prev_of (nTableMask ht) (arHash ht) (arData ht) (nNumUsed ht) idx None"
      using assms(4,5) by (simp add: prev_of_def HT_HASH_def nIndex_def bslot_def)
    then show thesis using that [of None] True by simp
  next
    case False
    then obtain q where "find_prev (arData ht) idx (HT_HASH ht (nIndex ht (bh (arData ht ! idx)))) = Some q"
      "prev_of (nTableMask ht) (arHash ht) (arData ht) (nNumUsed ht) idx (Some q)"
      using find_prev_correct [OF L S(4) assms(4) order_refl assms(5)] unfolding hh by blast
    then show thesis using that [of "Some q"] False by simp
  qed
  have "?k \<in> fst ` set (elems ht)"
    using live_bucketsI [OF assms(4) _ assms(5)] mixed_shapeD(4) [OF shape] S(3) assms(3,4)
    by (force simp: elems_def bucket_elem_def image_image)
  then obtain p where p: "lookup_idx ht ?k = Some p" "p < nNumUsed ht" "live (arData ht ! p)" "bucket_key (arData ht ! p) = ?k"
    using present_mixed [OF assms(1,3)] by metis
  have "p = idx"
  proof (rule ccontr)
    assume ne: "p \<noteq> idx"
    have "distinct (map bucket_key (filter live (take (nNumUsed ht) (arData ht))))"
      using mixed_shapeD(8) [OF shape] by (simp add: live_buckets_def)
    moreover have "p < length (take (nNumUsed ht) (arData ht))" "idx < length (take (nNumUsed ht) (arData ht))"
      using p(2) assms(4) mixed_shapeD(4) [OF shape] S(3) by simp_all
    ultimately show False using ne p assms(4,5) distinct_map_filter_eq by fastforce
  qed
  then show ?thesis
    using delete_found [OF assms(1-3) _ prev(1), of ?k g] p(1) prev(2)
    by (auto simp: zend_hash_del_bucket_def zend_hash_del_el_def Let_def case_prod_beta')
qed

end
