(* ===== verification/ZendHashWalk.thy ===== *)
theory ZendHashWalk
  imports ZendHashDel
begin

text \<open>
  Positions in a table (\<open>Zend/zend_hash.c\<close>, lines 460 to 515 and 2734 to 2931): the internal pointer
  and external positions, moving them, and reading the element under them. A position may stand on
  a deleted cell; it then means the next element. \<open>rank\<close> turns a position into an index of the
  element list, on which moving forward is adding one.
\<close>

subsection \<open>Operations\<close>

definition undef_at :: "'v hashtable \<Rightarrow> nat \<Rightarrow> bool" where
  "undef_at ht i = (if f_packed ht then is_undef (arPacked ht ! i) else is_undef (bval (arData ht ! i)))"

function valid_pos :: "(nat \<Rightarrow> bool) \<Rightarrow> nat \<Rightarrow> nat \<Rightarrow> nat" where
  "valid_pos undef n pos = (if pos < n \<and> undef pos then valid_pos undef n (pos + 1) else pos)"
  by pat_completeness auto
termination by (relation "measure (\<lambda>(undef, n, pos). n - pos)") auto
declare valid_pos.simps [simp del]

definition zend_hash_get_valid_pos :: "'v hashtable \<Rightarrow> nat \<Rightarrow> nat" where
  "zend_hash_get_valid_pos ht pos = valid_pos (undef_at ht) (nNumUsed ht) pos"

definition zend_hash_get_current_pos :: "'v hashtable \<Rightarrow> nat" where
  "zend_hash_get_current_pos ht = zend_hash_get_valid_pos ht (nInternalPointer ht)"

definition zend_hash_internal_pointer_reset_ex :: "'v hashtable \<Rightarrow> nat" where
  "zend_hash_internal_pointer_reset_ex ht = zend_hash_get_valid_pos ht 0"

text \<open>The loops \<open>while (idx > 0) { idx--; if (...) { *pos = idx; return; } }\<close>.\<close>

primrec last_used :: "(nat \<Rightarrow> bool) \<Rightarrow> nat \<Rightarrow> nat option" where
  "last_used undef 0 = None"
| "last_used undef (Suc idx) = (if \<not> undef idx then Some idx else last_used undef idx)"

definition zend_hash_internal_pointer_end_ex :: "'v hashtable \<Rightarrow> nat" where
  "zend_hash_internal_pointer_end_ex ht =
     (case last_used (undef_at ht) (nNumUsed ht) of Some idx \<Rightarrow> idx | None \<Rightarrow> nNumUsed ht)"

text \<open>\<open>Some pos\<close> is \<open>SUCCESS\<close> with the new position, \<open>None\<close> is \<open>FAILURE\<close>.\<close>

definition zend_hash_move_forward_ex :: "'v hashtable \<Rightarrow> nat \<Rightarrow> nat option" where
  "zend_hash_move_forward_ex ht pos =
     (let idx = zend_hash_get_valid_pos ht pos
      in if idx < nNumUsed ht
         then (let idx = next_used (undef_at ht) (nNumUsed ht) idx
               in Some (if idx \<ge> nNumUsed ht then nNumUsed ht else idx))
         else None)"

definition zend_hash_move_backwards_ex :: "'v hashtable \<Rightarrow> nat \<Rightarrow> nat option" where
  "zend_hash_move_backwards_ex ht pos =
     (if pos < nNumUsed ht
      then (case last_used (undef_at ht) pos of Some idx \<Rightarrow> Some idx | None \<Rightarrow> Some (nNumUsed ht))
      else None)"

datatype cur_key = HASH_KEY_NON_EXISTENT | HASH_KEY_IS_LONG u64 | HASH_KEY_IS_STRING zstr

definition zend_hash_get_current_key_ex :: "'v hashtable \<Rightarrow> nat \<Rightarrow> cur_key" where
  "zend_hash_get_current_key_ex ht pos =
     (let idx = zend_hash_get_valid_pos ht pos
      in if idx < nNumUsed ht then
           (if f_packed ht then HASH_KEY_IS_LONG (of_nat idx)
            else (let p = arData ht ! idx
                  in case bkey p of Some k \<Rightarrow> HASH_KEY_IS_STRING k | None \<Rightarrow> HASH_KEY_IS_LONG (bh p)))
         else HASH_KEY_NON_EXISTENT)"

text \<open>The key as a value: \<open>None\<close> is \<open>NULL\<close>.\<close>

definition zend_hash_get_current_key_zval_ex :: "'v hashtable \<Rightarrow> nat \<Rightarrow> hkey option" where
  "zend_hash_get_current_key_zval_ex ht pos =
     (let idx = zend_hash_get_valid_pos ht pos
      in if idx \<ge> nNumUsed ht then None
         else if f_packed ht then Some (KInt (of_nat idx))
         else (let p = arData ht ! idx
               in case bkey p of Some k \<Rightarrow> Some (KStr (zs_val k)) | None \<Rightarrow> Some (KInt (bh p))))"

datatype key_type = KT_NON_EXISTENT | KT_LONG | KT_STRING

definition zend_hash_get_current_key_type_ex :: "'v hashtable \<Rightarrow> nat \<Rightarrow> key_type" where
  "zend_hash_get_current_key_type_ex ht pos =
     (let idx = zend_hash_get_valid_pos ht pos
      in if idx < nNumUsed ht then
           (if f_packed ht then KT_LONG
            else (let p = arData ht ! idx in if bkey p \<noteq> None then KT_STRING else KT_LONG))
         else KT_NON_EXISTENT)"

definition zend_hash_get_current_data_ex :: "'v hashtable \<Rightarrow> nat \<Rightarrow> zref option" where
  "zend_hash_get_current_data_ex ht pos =
     (let idx = zend_hash_get_valid_pos ht pos
      in if idx < nNumUsed ht
         then Some (if f_packed ht then PackedVal idx else BucketVal idx) else None)"

text \<open>Counting elements when slots of \<open>IS_INDIRECT\<close> values may be empty.\<close>

definition zend_array_recalc_elements :: "'v eg \<Rightarrow> 'v hashtable \<Rightarrow> nat" where
  "zend_array_recalc_elements g ht =
     fold (\<lambda>p num. case bval p of
                     IS_INDIRECT a \<Rightarrow> if is_undef (ind_slots g a) then num - 1 else num
                   | _ \<Rightarrow> num)
       (live_buckets ht) (nNumOfElements ht)"

definition zend_array_count :: "nat option \<Rightarrow> 'v eg \<Rightarrow> 'v hashtable \<Rightarrow> nat \<times> 'v hashtable" where
  "zend_array_count symbol_table g ht =
     (if f_has_empty_ind ht then
        (let num = zend_array_recalc_elements g ht
         in (num, if nNumOfElements ht = num then ht\<lparr>f_has_empty_ind := False\<rparr> else ht))
      else if symbol_table = Some (ht_id ht) then (zend_array_recalc_elements g ht, ht)
      else (nNumOfElements ht, ht))"

subsection \<open>Positions and ranks\<close>

definition key_at :: "'v hashtable \<Rightarrow> nat \<Rightarrow> hkey" where
  "key_at ht i = (if f_packed ht then KInt (of_nat i) else bucket_key (arData ht ! i))"

definition val_at :: "'v hashtable \<Rightarrow> nat \<Rightarrow> 'v zval" where
  "val_at ht i = (if f_packed ht then arPacked ht ! i else bval (arData ht ! i))"

definition used_positions :: "'v hashtable \<Rightarrow> nat \<Rightarrow> nat list" where
  "used_positions ht n = filter (\<lambda>i. \<not> undef_at ht i) [0..<n]"

definition rank :: "'v hashtable \<Rightarrow> nat \<Rightarrow> nat" where
  "rank ht pos = length (used_positions ht (min pos (nNumUsed ht)))"

lemma elems_positions:
  assumes "wf_ht ht"
  shows "elems ht = map (\<lambda>i. (key_at ht i, val_at ht i)) (used_positions ht (nNumUsed ht))"
proof (cases "f_packed ht")
  case True
  then show ?thesis
    by (simp add: elems_def packed_elems_def used_positions_def undef_at_def key_at_def val_at_def)
next
  case False
  have len: "nNumUsed ht \<le> length (arData ht)"
  proof (cases "f_uninitialized ht")
    case True
    then show ?thesis using wf_uninitD(2) [OF assms] by simp
  next
    case F: False
    then show ?thesis
      using sizes_okD(3) [OF wf_htD(1) [OF assms]] mixed_shapeD(4) [OF wf_htD(5) [OF assms F False]] by simp
  qed
  have "live_buckets ht = map ((!) (arData ht)) (used_positions ht (nNumUsed ht))"
  proof -
    have "(\<lambda>i. live (arData ht ! i)) = (\<lambda>i. \<not> undef_at ht i)" using False by (simp add: live_def undef_at_def)
    then show ?thesis using map_filter_take_upt [OF len, of id live]
      by (simp add: live_buckets_def used_positions_def)
  qed
  then have "elems ht = map (\<lambda>i. bucket_elem (arData ht ! i)) (used_positions ht (nNumUsed ht))"
    using False by (simp add: elems_def)
  then show ?thesis using False by (simp add: bucket_elem_def key_at_def val_at_def)
qed

lemma used_positions_nth:
  assumes "i < n" "\<not> undef_at ht i"
  shows "used_positions ht n ! length (used_positions ht i) = i"
    and "length (used_positions ht i) < length (used_positions ht n)"
proof -
  have "[0..<n] = [0..<i] @ i # [Suc i..<n]"
    using assms(1) by (metis le0 less_imp_le_nat upt_add_eq_append upt_conv_Cons le_add_diff_inverse)
  then have "used_positions ht n = used_positions ht i @ i # filter (\<lambda>i. \<not> undef_at ht i) [Suc i..<n]"
    using assms(2) by (simp add: used_positions_def)
  then show "used_positions ht n ! length (used_positions ht i) = i"
    "length (used_positions ht i) < length (used_positions ht n)" by simp_all
qed

lemma used_positions_skip:
  "m \<le> n \<Longrightarrow> (\<And>i. m \<le> i \<Longrightarrow> i < n \<Longrightarrow> undef_at ht i) \<Longrightarrow> used_positions ht n = used_positions ht m"
proof (induction n)
  case (Suc n)
  then show ?case by (cases "m = Suc n") (auto simp: used_positions_def)
qed simp

lemma rank_skip:
  assumes "p \<le> q" "\<And>i. p \<le> i \<Longrightarrow> i < q \<Longrightarrow> i < nNumUsed ht \<Longrightarrow> undef_at ht i"
  shows "rank ht q = rank ht p"
  unfolding rank_def using assms
  by (subst used_positions_skip [of "min p (nNumUsed ht)" "min q (nNumUsed ht)"]) auto

lemma rank_0 [simp]: "rank ht 0 = 0"
  by (simp add: rank_def used_positions_def)

lemma rank_end: "wf_ht ht \<Longrightarrow> nNumUsed ht \<le> p \<Longrightarrow> rank ht p = length (elems ht)"
  by (simp add: rank_def elems_positions min_absorb2)

lemma rank_Suc: "i < nNumUsed ht \<Longrightarrow> \<not> undef_at ht i \<Longrightarrow> rank ht (Suc i) = Suc (rank ht i)"
  by (simp add: rank_def used_positions_def min_def)

lemma rank_used:
  assumes "wf_ht ht" "i < nNumUsed ht" "\<not> undef_at ht i"
  shows "rank ht i < length (elems ht)" "elems ht ! rank ht i = (key_at ht i, val_at ht i)"
  using used_positions_nth [OF assms(2,3)] assms(2) elems_positions [OF assms(1)]
  by (simp_all add: rank_def min_def)

lemma valid_pos_props:
  "(\<forall>i. pos \<le> i \<longrightarrow> i < valid_pos undef n pos \<longrightarrow> i < n \<and> undef i) \<and> pos \<le> valid_pos undef n pos \<and>
   \<not> (valid_pos undef n pos < n \<and> undef (valid_pos undef n pos))"
proof (induction undef n pos rule: valid_pos.induct)
  case (1 undef n pos)
  show ?case
  proof (cases "pos < n \<and> undef pos")
    case True
    note IH = "1.IH" [OF True]
    have eq: "valid_pos undef n pos = valid_pos undef n (pos + 1)"
      using True by (subst valid_pos.simps) simp
    have "i < n \<and> undef i" if "pos \<le> i" "i < valid_pos undef n (pos + 1)" for i
      using IH that True by (cases "i = pos") auto
    then show ?thesis unfolding eq using IH by auto
  next
    case False
    then have "valid_pos undef n pos = pos" by (subst valid_pos.simps) auto
    then show ?thesis using False by auto
  qed
qed

lemma get_valid_pos_correct:
  assumes "wf_ht ht" and v_def: "v = zend_hash_get_valid_pos ht pos"
  shows "rank ht v = rank ht pos" "v < nNumUsed ht \<longleftrightarrow> rank ht pos < length (elems ht)"
    "v < nNumUsed ht \<Longrightarrow> \<not> undef_at ht v"
    "v < nNumUsed ht \<Longrightarrow> elems ht ! rank ht pos = (key_at ht v, val_at ht v)"
proof -
  note V = valid_pos_props [of pos "undef_at ht" "nNumUsed ht", folded zend_hash_get_valid_pos_def, folded v_def]
  show r: "rank ht v = rank ht pos" using V by (intro rank_skip) auto
  show u: "v < nNumUsed ht \<Longrightarrow> \<not> undef_at ht v" using V by auto
  show "v < nNumUsed ht \<longleftrightarrow> rank ht pos < length (elems ht)"
    using rank_used(1) [OF assms(1), of v] u rank_end [OF assms(1), of v] r
    by (cases "v < nNumUsed ht") simp_all
  show "v < nNumUsed ht \<Longrightarrow> elems ht ! rank ht pos = (key_at ht v, val_at ht v)"
    using rank_used(2) [OF assms(1)] u r by metis
qed

lemma next_used_props:
  "i < next_used undef n i \<and> (\<forall>j. i < j \<longrightarrow> j < next_used undef n i \<longrightarrow> j < n \<and> undef j)"
proof (induction undef n i rule: next_used.induct)
  case (1 undef n i)
  show ?case
  proof (cases "Suc i < n \<and> undef (Suc i)")
    case True
    then have IH: "Suc i < next_used undef n (Suc i)"
      "\<forall>j. Suc i < j \<longrightarrow> j < next_used undef n (Suc i) \<longrightarrow> j < n \<and> undef j"
      using 1 by auto
    have "j < n \<and> undef j" if "i < j" "j < next_used undef n (Suc i)" for j
      using IH(2) that True by (cases "j = Suc i") auto
    then show ?thesis using IH(1) True by (auto simp: next_used.simps [of undef n i])
  next
    case False
    then show ?thesis by (subst (1 2) next_used.simps) auto
  qed
qed

lemma move_forward_correct:
  assumes "wf_ht ht"
  shows "if rank ht pos < length (elems ht)
         then \<exists>p. zend_hash_move_forward_ex ht pos = Some p \<and> rank ht p = Suc (rank ht pos)
         else zend_hash_move_forward_ex ht pos = None"
proof -
  note V = get_valid_pos_correct [OF assms refl, of pos]
  let ?v = "zend_hash_get_valid_pos ht pos"
  let ?n = "next_used (undef_at ht) (nNumUsed ht) ?v"
  note N = next_used_props [of ?v "undef_at ht" "nNumUsed ht"]
  have "rank ht ?n = rank ht (Suc ?v)" using N by (intro rank_skip) auto
  moreover have "rank ht (min (nNumUsed ht) ?n) = rank ht ?n" by (simp add: rank_def min.commute)
  ultimately show ?thesis
    using V rank_Suc [of ?v ht]
    by (auto simp: zend_hash_move_forward_ex_def Let_def min_def split: if_splits)
qed

lemma last_used_props:
  "case last_used undef n of
     None \<Rightarrow> \<forall>i < n. undef i
   | Some j \<Rightarrow> j < n \<and> \<not> undef j \<and> (\<forall>i. j < i \<longrightarrow> i < n \<longrightarrow> undef i)"
proof (induction n)
  case (Suc n)
  then show ?case by (auto simp: less_Suc_eq split: option.splits)
qed simp

lemma move_backwards_correct:
  assumes "wf_ht ht" "pos < nNumUsed ht"
  shows "\<exists>p. zend_hash_move_backwards_ex ht pos = Some p \<and>
    (if rank ht pos = 0 then p = nNumUsed ht else rank ht p = rank ht pos - 1 \<and> p < pos \<and> \<not> undef_at ht p)"
proof (cases "last_used (undef_at ht) pos")
  case None
  then have "\<forall>i < pos. undef_at ht i" using last_used_props [of pos "undef_at ht"] by simp
  then have "rank ht pos = rank ht 0" by (intro rank_skip) auto
  then show ?thesis using None assms(2) by (simp add: zend_hash_move_backwards_ex_def)
next
  case (Some j)
  then have j: "j < pos" "\<not> undef_at ht j" "\<forall>i. j < i \<longrightarrow> i < pos \<longrightarrow> undef_at ht i"
    using last_used_props [of pos "undef_at ht"] by auto
  have "rank ht pos = rank ht (Suc j)" using j by (intro rank_skip) auto
  then show ?thesis using Some assms(2) j rank_Suc [of j ht] by (simp add: zend_hash_move_backwards_ex_def)
qed

lemma pointer_end_correct:
  assumes "wf_ht ht"
  shows "rank ht (zend_hash_internal_pointer_end_ex ht) = length (elems ht) - 1"
proof (cases "last_used (undef_at ht) (nNumUsed ht)")
  case None
  then have "rank ht (nNumUsed ht) = rank ht 0"
    using last_used_props [of "nNumUsed ht" "undef_at ht"] by (intro rank_skip) auto
  then show ?thesis using None rank_end [OF assms, of "nNumUsed ht"]
    by (simp add: zend_hash_internal_pointer_end_ex_def)
next
  case (Some j)
  then have j: "j < nNumUsed ht" "\<not> undef_at ht j" "\<forall>i. j < i \<longrightarrow> i < nNumUsed ht \<longrightarrow> undef_at ht i"
    using last_used_props [of "nNumUsed ht" "undef_at ht"] by auto
  have "rank ht (nNumUsed ht) = rank ht (Suc j)" using j by (intro rank_skip) auto
  then show ?thesis using Some j rank_Suc [of j ht] rank_end [OF assms, of "nNumUsed ht"]
    by (simp add: zend_hash_internal_pointer_end_ex_def)
qed

lemma current_correct:
  assumes "wf_ht ht"
  shows "zend_hash_get_current_key_zval_ex ht pos =
           (if rank ht pos < length (elems ht) then Some (fst (elems ht ! rank ht pos)) else None)"
    and "map_option (zref_val g ht) (zend_hash_get_current_data_ex ht pos) =
           (if rank ht pos < length (elems ht) then Some (snd (elems ht ! rank ht pos)) else None)"
proof -
  note V = get_valid_pos_correct [OF assms refl, of pos]
  show "zend_hash_get_current_key_zval_ex ht pos =
           (if rank ht pos < length (elems ht) then Some (fst (elems ht ! rank ht pos)) else None)"
    using V by (auto simp: zend_hash_get_current_key_zval_ex_def Let_def key_at_def bucket_key_def split: option.splits)
  show "map_option (zref_val g ht) (zend_hash_get_current_data_ex ht pos) =
           (if rank ht pos < length (elems ht) then Some (snd (elems ht ! rank ht pos)) else None)"
    using V by (auto simp: zend_hash_get_current_data_ex_def Let_def val_at_def zref_val_def)
qed

subsection \<open>A walk visits every element once, in order\<close>

text \<open>The loop of a client: from a position, read and move forward until there is no element.\<close>

fun walk :: "nat \<Rightarrow> 'v hashtable \<Rightarrow> nat \<Rightarrow> (hkey \<times> zref) list" where
  "walk 0 ht pos = []"
| "walk (Suc fuel) ht pos =
     (case (zend_hash_get_current_key_zval_ex ht pos, zend_hash_get_current_data_ex ht pos) of
        (Some k, Some r) \<Rightarrow> (k, r) # (case zend_hash_move_forward_ex ht pos of
                                         Some p \<Rightarrow> walk fuel ht p | None \<Rightarrow> [])
      | _ \<Rightarrow> [])"

lemma walk_from:
  assumes "wf_ht ht" and "length (elems ht) - rank ht pos \<le> fuel"
  shows "map (\<lambda>(k, r). (k, zref_val g ht r)) (walk fuel ht pos) = drop (rank ht pos) (elems ht)"
  using assms(2)
proof (induction fuel arbitrary: pos)
  case 0
  then show ?case by simp
next
  case (Suc fuel)
  note C = current_correct [OF assms(1)]
  show ?case
  proof (cases "rank ht pos < length (elems ht)")
    case True
    obtain p where p: "zend_hash_move_forward_ex ht pos = Some p" "rank ht p = Suc (rank ht pos)"
      using move_forward_correct [OF assms(1), of pos] True by auto
    obtain r where r: "zend_hash_get_current_data_ex ht pos = Some r"
      "zref_val g ht r = snd (elems ht ! rank ht pos)"
      using C(2) [of g pos] True by (auto simp: map_option_case split: option.splits)
    have "map (\<lambda>(k, r). (k, zref_val g ht r)) (walk fuel ht p) = drop (rank ht p) (elems ht)"
      using Suc p(2) by (intro Suc.IH) simp
    then show ?thesis
      using True p r C(1) [of pos] by (simp add: Cons_nth_drop_Suc [symmetric] split: prod.split)
  next
    case False
    then show ?thesis using C(1) [of pos] by simp
  qed
qed

end
