(* ===== verification/ZendHashApply.thy ===== *)
theory ZendHashApply
  imports ZendHashWalk
begin

text \<open>
  Operations over all elements that may delete them (\<open>Zend/zend_hash.c\<close>, lines 1728 to 2238):
  destruction, cleaning, and the \<open>apply\<close> family. The callback is a parameter that reads the key and
  the value and threads a state of its own; it does not touch the table. A loop over a packed table
  and the one over a mixed table differ in the deletion only (\<open>del_at\<close>).
\<close>

subsection \<open>Destroying and cleaning\<close>

text \<open>\<open>i_zval_ptr_dtor\<close> does nothing on \<open>IS_UNDEF\<close>.\<close>

definition i_zval_ptr_dtor :: "'v zval \<Rightarrow> 'v eg \<Rightarrow> 'v eg" where
  "i_zval_ptr_dtor v g = (if is_undef v then g else g\<lparr>dtor_log := dtor_log g @ [v]\<rparr>)"

definition run_dtor :: "'v zval \<Rightarrow> 'v eg \<Rightarrow> 'v eg" where
  "run_dtor v g = g\<lparr>dtor_log := dtor_log g @ [v]\<rparr>"

definition release_opt :: "zstr option \<Rightarrow> 'v eg \<Rightarrow> 'v eg" where
  "release_opt k g = (case k of Some s \<Rightarrow> zend_string_release s g | None \<Rightarrow> g)"

definition zend_hash_destroy :: "'v eg \<Rightarrow> 'v hashtable \<Rightarrow> 'v eg" where
  "zend_hash_destroy g ht =
     (if nNumUsed ht \<noteq> 0 then
        (if f_packed ht then
           (let zvs = take (nNumUsed ht) (arPacked ht);
                g = (if pDestructor ht then
                       (if HT_IS_WITHOUT_HOLES ht then fold run_dtor zvs g
                        else fold (\<lambda>zv g. if \<not> is_undef zv then run_dtor zv g else g) zvs g)
                     else g)
            in zend_hash_iterators_remove ht g)
         else
           (let ps = take (nNumUsed ht) (arData ht);
                g = (if pDestructor ht then
                       (if HT_HAS_STATIC_KEYS_ONLY ht then
                          (if HT_IS_WITHOUT_HOLES ht then fold (\<lambda>p. run_dtor (bval p)) ps g
                           else fold (\<lambda>p g. if \<not> is_undef (bval p) then run_dtor (bval p) g else g) ps g)
                        else if HT_IS_WITHOUT_HOLES ht then
                          fold (\<lambda>p g. release_opt (bkey p) (run_dtor (bval p) g)) ps g
                        else
                          fold (\<lambda>p g. if \<not> is_undef (bval p)
                                       then release_opt (bkey p) (run_dtor (bval p) g) else g) ps g)
                     else if \<not> HT_HAS_STATIC_KEYS_ONLY ht then fold (\<lambda>p. release_opt (bkey p)) ps g
                     else g)
            in zend_hash_iterators_remove ht g))
      else g)"

text \<open>The argument \<open>ptr_dtor\<close> says whether the destructor is \<open>ZVAL_PTR_DTOR\<close>.\<close>

definition zend_array_destroy :: "bool \<Rightarrow> 'v eg \<Rightarrow> 'v hashtable \<Rightarrow> 'v eg" where
  "zend_array_destroy ptr_dtor g ht =
     (let g = (if nNumUsed ht \<noteq> 0 then
                 (if \<not> ptr_dtor then zend_hash_destroy g ht
                  else if f_packed ht then fold i_zval_ptr_dtor (take (nNumUsed ht) (arPacked ht)) g
                  else
                    (let ps = take (nNumUsed ht) (arData ht)
                     in if HT_HAS_STATIC_KEYS_ONLY ht then fold (\<lambda>p. i_zval_ptr_dtor (bval p)) ps g
                        else if HT_IS_WITHOUT_HOLES ht then
                          fold (\<lambda>p g. release_opt (bkey p) (i_zval_ptr_dtor (bval p) g)) ps g
                        else
                          fold (\<lambda>p g. if \<not> is_undef (bval p)
                                       then release_opt (bkey p) (i_zval_ptr_dtor (bval p) g) else g) ps g))
               else g)
      in zend_hash_iterators_remove ht g)"

definition zend_hash_clean :: "'v eg \<Rightarrow> 'v hashtable \<Rightarrow> 'v eg \<times> 'v hashtable" where
  "zend_hash_clean g ht =
     (let (g, ht) =
        (if nNumUsed ht \<noteq> 0 then
           (if f_packed ht then
              (let zvs = take (nNumUsed ht) (arPacked ht)
               in (if pDestructor ht \<and> HT_HAS_STATIC_KEYS_ONLY ht then
                     (if HT_IS_WITHOUT_HOLES ht then fold run_dtor zvs g
                      else fold (\<lambda>zv g. if \<not> is_undef zv then run_dtor zv g else g) zvs g)
                   else g, ht))
            else
              (let ps = take (nNumUsed ht) (arData ht);
                   g = (if pDestructor ht then
                          (if HT_HAS_STATIC_KEYS_ONLY ht then
                             (if HT_IS_WITHOUT_HOLES ht then fold (\<lambda>p. run_dtor (bval p)) ps g
                              else fold (\<lambda>p g. if \<not> is_undef (bval p) then run_dtor (bval p) g else g) ps g)
                           else if HT_IS_WITHOUT_HOLES ht then
                             fold (\<lambda>p g. release_opt (bkey p) (run_dtor (bval p) g)) ps g
                           else
                             fold (\<lambda>p g. if \<not> is_undef (bval p)
                                          then release_opt (bkey p) (run_dtor (bval p) g) else g) ps g)
                        else if \<not> HT_HAS_STATIC_KEYS_ONLY ht then fold (\<lambda>p. release_opt (bkey p)) ps g
                        else g)
               in (g, HT_HASH_RESET ht)))
         else (g, ht))
      in (g, ht\<lparr>nNumUsed := 0, nNumOfElements := 0, nNextFreeElement := ZEND_LONG_MIN, nInternalPointer := 0\<rparr>))"

definition zend_symtable_clean :: "'v eg \<Rightarrow> 'v hashtable \<Rightarrow> 'v eg \<times> 'v hashtable" where
  "zend_symtable_clean g ht =
     (let (g, ht) =
        (if nNumUsed ht \<noteq> 0 then
           (let ps = take (nNumUsed ht) (arData ht);
                g = (if HT_HAS_STATIC_KEYS_ONLY ht then fold (\<lambda>p. i_zval_ptr_dtor (bval p)) ps g
                     else if HT_IS_WITHOUT_HOLES ht then
                       fold (\<lambda>p g. release_opt (bkey p) (i_zval_ptr_dtor (bval p) g)) ps g
                     else
                       fold (\<lambda>p g. if \<not> is_undef (bval p)
                                    then release_opt (bkey p) (i_zval_ptr_dtor (bval p) g) else g) ps g)
            in (g, HT_HASH_RESET ht))
         else (g, ht))
      in (g, ht\<lparr>nNumUsed := 0, nNumOfElements := 0, nNextFreeElement := ZEND_LONG_MIN, nInternalPointer := 0\<rparr>))"

subsection \<open>Loops with deletion\<close>

definition ZEND_HASH_APPLY_KEEP :: u32 where "ZEND_HASH_APPLY_KEEP = 0"
definition ZEND_HASH_APPLY_REMOVE :: u32 where "ZEND_HASH_APPLY_REMOVE = 1"
definition ZEND_HASH_APPLY_STOP :: u32 where "ZEND_HASH_APPLY_STOP = 2"

definition del_at :: "'v eg \<Rightarrow> 'v hashtable \<Rightarrow> nat \<Rightarrow> ('v eg \<times> 'v hashtable) option" where
  "del_at g ht idx = (if f_packed ht then Some (zend_hash_packed_del_val_i g ht idx) else zend_hash_del_el g ht idx)"

type_synonym ('v, 's) apply_func = "hkey \<Rightarrow> 'v zval \<Rightarrow> 's \<Rightarrow> u32 \<times> 's"

text \<open>One turn: call the callback on a used cell, delete it if asked to; the flag is \<open>STOP\<close>.\<close>

definition apply_turn :: "('v, 's) apply_func \<Rightarrow> nat \<Rightarrow> 's \<Rightarrow> 'v eg \<Rightarrow> 'v hashtable \<Rightarrow> ('s \<times> 'v eg \<times> 'v hashtable \<times> bool) option" where
  "apply_turn f idx s g ht =
     (let (result, s) = f (key_at ht idx) (val_at ht idx) s in do {
        (g, ht) \<leftarrow> (if result AND ZEND_HASH_APPLY_REMOVE \<noteq> 0 then del_at g ht idx else Some (g, ht));
        Some (s, g, ht, result AND ZEND_HASH_APPLY_STOP \<noteq> 0) })"

lemma release_key_used: "release_key idx g ht = (g', ht') \<Longrightarrow> nNumUsed ht' = nNumUsed ht"
  by (auto simp: release_key_def split: option.splits)

lemma del_positions_used:
  "del_positions U idx g ht = (g', ht') \<Longrightarrow> idx < nNumUsed ht \<Longrightarrow> nNumUsed ht' \<le> nNumUsed ht"
  by (rule del_positions_form [of U idx g ht]) (auto simp: used_after_props(1))

lemma del_at_used:
  assumes "del_at g ht idx = Some (g', ht')" "idx < nNumUsed ht"
  shows "nNumUsed ht' \<le> nNumUsed ht"
proof (cases "f_packed ht")
  case True
  then show ?thesis using assms
    by (auto simp: del_at_def zend_hash_packed_del_val_i_def Let_def split: prod.splits dest!: del_positions_used)
next
  case False
  have ex: "nNumUsed ht2 \<le> nNumUsed ht1" if "zend_hash_del_el_ex g1 ht1 idx prev = (g2, ht2)" "idx < nNumUsed ht1"
    for g1 g2 :: "'a eg" and ht1 ht2 :: "'a hashtable" and prev
    using that by (auto simp: zend_hash_del_el_ex_def Let_def set_HT_HASH_def split: prod.splits option.splits
        dest!: del_positions_used)
  obtain prev where "(case release_key idx g ht of (g, ht) \<Rightarrow> zend_hash_del_el_ex g ht idx prev) = (g', ht')"
    using assms(1) False
    by (auto simp: del_at_def zend_hash_del_el_def Let_def bind_eq_Some_conv case_prod_beta')
  moreover obtain g1 ht1 where "release_key idx g ht = (g1, ht1)" by fastforce
  ultimately show ?thesis
    using ex [of g1 ht1 prev g' ht'] release_key_used [of idx g ht g1 ht1] assms(2) by simp
qed

lemma apply_turn_used:
  assumes "apply_turn f idx s g ht = Some (s', g', ht', stop)" "idx < nNumUsed ht"
  shows "nNumUsed ht' \<le> nNumUsed ht"
  using assms del_at_used [OF _ assms(2)]
  by (auto simp: apply_turn_def Let_def bind_eq_Some_conv split: prod.splits if_splits)

function apply_loop :: "('v, 's) apply_func \<Rightarrow> nat \<Rightarrow> 's \<Rightarrow> 'v eg \<Rightarrow> 'v hashtable \<Rightarrow> ('s \<times> 'v eg \<times> 'v hashtable) option" where
  "apply_loop f idx s g ht =
     (if idx < nNumUsed ht then
        if undef_at ht idx then apply_loop f (idx + 1) s g ht
        else
          (case apply_turn f idx s g ht of
             None \<Rightarrow> None
           | Some (s, g, ht, stop) \<Rightarrow> if stop then Some (s, g, ht) else apply_loop f (idx + 1) s g ht)
      else Some (s, g, ht))"
  by pat_completeness auto
termination
  by (relation "measure (\<lambda>(f, idx, s, g, ht). nNumUsed ht - idx)") (auto dest!: apply_turn_used)
declare apply_loop.simps [simp del]

text \<open>The loops \<open>while (idx > 0) { idx--; ... }\<close>.\<close>

primrec reverse_loop :: "('v, 's) apply_func \<Rightarrow> nat \<Rightarrow> 's \<Rightarrow> 'v eg \<Rightarrow> 'v hashtable \<Rightarrow> ('s \<times> 'v eg \<times> 'v hashtable) option" where
  "reverse_loop f 0 s g ht = Some (s, g, ht)"
| "reverse_loop f (Suc idx) s g ht =
     (if undef_at ht idx then reverse_loop f idx s g ht
      else
        (case apply_turn f idx s g ht of
           None \<Rightarrow> None
         | Some (s, g, ht, stop) \<Rightarrow> if stop then Some (s, g, ht) else reverse_loop f idx s g ht))"

definition zend_hash_apply :: "('v zval \<Rightarrow> 's \<Rightarrow> u32 \<times> 's) \<Rightarrow> 's \<Rightarrow> 'v eg \<Rightarrow> 'v hashtable \<Rightarrow> ('s \<times> 'v eg \<times> 'v hashtable) option" where
  "zend_hash_apply apply_func s g ht = apply_loop (\<lambda>k. apply_func) 0 s g ht"

definition zend_hash_apply_with_argument ::
  "('v zval \<Rightarrow> 'a \<Rightarrow> 's \<Rightarrow> u32 \<times> 's) \<Rightarrow> 'a \<Rightarrow> 's \<Rightarrow> 'v eg \<Rightarrow> 'v hashtable \<Rightarrow> ('s \<times> 'v eg \<times> 'v hashtable) option" where
  "zend_hash_apply_with_argument apply_func argument s g ht =
     apply_loop (\<lambda>k zv. apply_func zv argument) 0 s g ht"

definition zend_hash_apply_with_arguments ::
  "('v zval \<Rightarrow> 'a list \<Rightarrow> hkey \<Rightarrow> 's \<Rightarrow> u32 \<times> 's) \<Rightarrow> 'a list \<Rightarrow> 's \<Rightarrow> 'v eg \<Rightarrow> 'v hashtable \<Rightarrow> ('s \<times> 'v eg \<times> 'v hashtable) option" where
  "zend_hash_apply_with_arguments apply_func args s g ht =
     apply_loop (\<lambda>hash_key zv. apply_func zv args hash_key) 0 s g ht"

definition zend_hash_reverse_apply :: "('v zval \<Rightarrow> 's \<Rightarrow> u32 \<times> 's) \<Rightarrow> 's \<Rightarrow> 'v eg \<Rightarrow> 'v hashtable \<Rightarrow> ('s \<times> 'v eg \<times> 'v hashtable) option" where
  "zend_hash_reverse_apply apply_func s g ht = reverse_loop (\<lambda>k. apply_func) (nNumUsed ht) s g ht"

text \<open>The graceful destructions delete every element; the memory is then freed.\<close>

definition zend_hash_graceful_destroy :: "'v eg \<Rightarrow> 'v hashtable \<Rightarrow> ('v eg \<times> 'v hashtable) option" where
  "zend_hash_graceful_destroy g ht = do {
     (s, g, ht) \<leftarrow> apply_loop (\<lambda>k zv s. (ZEND_HASH_APPLY_REMOVE, s)) 0 () g ht;
     Some (g, ht) }"

definition zend_hash_graceful_reverse_destroy :: "'v eg \<Rightarrow> 'v hashtable \<Rightarrow> ('v eg \<times> 'v hashtable) option" where
  "zend_hash_graceful_reverse_destroy g ht = do {
     (s, g, ht) \<leftarrow> reverse_loop (\<lambda>k zv s. (ZEND_HASH_APPLY_REMOVE, s)) (nNumUsed ht) () g ht;
     Some (g, ht) }"

subsection \<open>Destruction calls the destructor on every element and releases every key\<close>

definition destroy_elem :: "bool \<Rightarrow> 'v bucket \<Rightarrow> 'v eg \<Rightarrow> 'v eg" where
  "destroy_elem d p g = release_opt (bkey p) (if d then run_dtor (bval p) g else g)"

lemma fold_if_filter: "fold (\<lambda>x s. if P x then f x s else s) xs s = fold f (filter P xs) s"
  by (induction xs arbitrary: s) auto

lemma release_opt_dead: "keys_ok bs \<Longrightarrow> p \<in> set bs \<Longrightarrow> \<not> live p \<Longrightarrow> release_opt (bkey p) g = g"
  by (auto simp: keys_ok_def release_opt_def split: option.splits)

lemma release_opt_static: "static_ok bs \<Longrightarrow> p \<in> set bs \<Longrightarrow> release_opt (bkey p) g = g"
  by (auto simp: static_ok_def release_opt_def zend_string_release_def split: option.splits)

lemma fold_cong_mem: "(\<And>x s. x \<in> set xs \<Longrightarrow> f x s = h x s) \<Longrightarrow> fold f xs s = fold h xs s"
  by (rule fold_cong) auto

text \<open>The branches of the code on the buckets are the same reference loop.\<close>

definition destroy_buckets :: "bool \<Rightarrow> bool \<Rightarrow> bool \<Rightarrow> 'v bucket list \<Rightarrow> 'v eg \<Rightarrow> 'v eg" where
  "destroy_buckets dtor static no_holes ps g =
     (if dtor then
        (if static then
           (if no_holes then fold (\<lambda>p. run_dtor (bval p)) ps g
            else fold (\<lambda>p g. if \<not> is_undef (bval p) then run_dtor (bval p) g else g) ps g)
         else if no_holes then fold (\<lambda>p g. release_opt (bkey p) (run_dtor (bval p) g)) ps g
         else fold (\<lambda>p g. if \<not> is_undef (bval p) then release_opt (bkey p) (run_dtor (bval p) g) else g) ps g)
      else if \<not> static then fold (\<lambda>p. release_opt (bkey p)) ps g
      else g)"

lemma destroy_buckets_eq:
  assumes "keys_ok ps" and "static \<Longrightarrow> static_ok ps" and "no_holes \<Longrightarrow> filter live ps = ps"
  shows "destroy_buckets dtor static no_holes ps g = fold (destroy_elem dtor) (filter live ps) g"
proof -
  have dead: "fold (\<lambda>p. release_opt (bkey p)) ps g = fold (\<lambda>p. release_opt (bkey p)) (filter live ps) g"
    using release_opt_dead [OF assms(1)]
    by (subst fold_if_filter [symmetric]) (intro fold_cong_mem, auto)
  have mem: "p \<in> set ps" if "p \<in> set (filter live ps)" for p using that by simp
  have st: "release_opt (bkey p) g = g" if "static" "p \<in> set (filter live ps)" for p g
    using release_opt_static [OF assms(2)] that mem by blast
  have s1: "fold (\<lambda>p. run_dtor (bval p)) (filter live ps) g = fold (destroy_elem True) (filter live ps) g" if static
    by (rule fold_cong_mem) (simp only: destroy_elem_def st [OF that] if_True)
  have s2: "fold (destroy_elem False) (filter live ps) g = g" if static
  proof -
    have "fold (destroy_elem False) (filter live ps) g = fold (\<lambda>p g. g) (filter live ps) g"
      by (rule fold_cong_mem) (simp only: destroy_elem_def st [OF that] if_False)
    also have "fold (\<lambda>p g. g) xs g = g" for xs :: "'a bucket list" by (induction xs) simp_all
    finally show ?thesis .
  qed
  have fil: "filter (\<lambda>p. \<not> is_undef (bval p)) ps = filter live ps" by (simp add: live_def [abs_def])
  have ns: "fold (\<lambda>p. release_opt (bkey p)) (filter live ps) g = fold (destroy_elem False) (filter live ps) g"
    "fold (\<lambda>p g. release_opt (bkey p) (run_dtor (bval p) g)) (filter live ps) g = fold (destroy_elem True) (filter live ps) g"
    by (simp_all add: destroy_elem_def [abs_def])
  show ?thesis
  proof (cases dtor)
    case True
    show ?thesis
    proof (cases no_holes)
      case nh: True
      show ?thesis using True nh s1 ns(2) unfolding destroy_buckets_def assms(3) [OF nh] by simp
    next
      case False
      then show ?thesis using True s1 ns(2) unfolding destroy_buckets_def fold_if_filter fil by simp
    qed
  next
    case False
    then show ?thesis unfolding destroy_buckets_def dead ns(1) using s2 by simp
  qed
qed

lemma release_opt_frame [simp]:
  "dtor_log (release_opt k g) = dtor_log g" "ind_slots (release_opt k g) = ind_slots g"
  by (simp_all add: release_opt_def split: option.split)

lemma destroy_elem_effect:
  "dtor_log (destroy_elem d b g) = dtor_log g @ (if d then [bval b] else [])"
  "ind_slots (destroy_elem d b g) = ind_slots g"
  "key_refs (destroy_elem d b g) s = key_refs g s - (if zs_interned s \<or> bkey b \<noteq> Some s then 0 else 1)"
  by (auto simp: destroy_elem_def run_dtor_def release_opt_def zend_string_release_def split: option.split)

lemma destroy_elems_effect:
  "dtor_log (fold (destroy_elem d) bs g) = dtor_log g @ (if d then map bval bs else [])"
  "ind_slots (fold (destroy_elem d) bs g) = ind_slots g"
  "key_refs (fold (destroy_elem d) bs g) s =
     key_refs g s - (if zs_interned s then 0 else int (length (filter (\<lambda>b. bkey b = Some s) bs)))"
  by (induction bs arbitrary: g) (simp_all add: destroy_elem_effect)

definition held_refs :: "'v hashtable \<Rightarrow> zstr \<Rightarrow> int" where
  "held_refs ht s = (if f_packed ht \<or> zs_interned s then 0
     else int (length (filter (\<lambda>b. bkey b = Some s) (live_buckets ht))))"

lemma iterators_remove_frame [simp]:
  "dtor_log (zend_hash_iterators_remove ht g) = dtor_log g" "ind_slots (zend_hash_iterators_remove ht g) = ind_slots g"
  "key_refs (zend_hash_iterators_remove ht g) = key_refs g"
  by (simp_all add: zend_hash_iterators_remove_def map_used_iterators_def)

lemma fold_run_dtor:
  "fold run_dtor zvs g = g\<lparr>dtor_log := dtor_log g @ zvs\<rparr>"
  by (induction zvs arbitrary: g) (simp_all add: run_dtor_def)

lemma packed_live_values:
  "n \<le> length zs \<Longrightarrow> filter (\<lambda>v. \<not> is_undef v) (take n zs) = map snd (packed_elems zs n)"
  using map_filter_take_upt [of n zs id "\<lambda>v. \<not> is_undef v"] by (simp add: packed_elems_def comp_def)

lemma no_holes_packed:
  assumes "wf_ht ht" "f_packed ht" "HT_IS_WITHOUT_HOLES ht"
  shows "take (nNumUsed ht) (arPacked ht) = filter (\<lambda>v. \<not> is_undef v) (take (nNumUsed ht) (arPacked ht))"
proof -
  note P = wf_packed_hash [OF assms(1,2)]
  have "length (filter (\<lambda>v. \<not> is_undef v) (take (nNumUsed ht) (arPacked ht))) = length (take (nNumUsed ht) (arPacked ht))"
    using P(4,6) assms(3) by (simp add: HT_IS_WITHOUT_HOLES_def)
  then show ?thesis by (metis filter_id_conv length_filter_less less_irrefl)
qed

lemma no_holes_mixed:
  assumes "sizes_ok ht" "mixed_shape ht" "HT_IS_WITHOUT_HOLES ht"
  shows "filter live (take (nNumUsed ht) (arData ht)) = take (nNumUsed ht) (arData ht)"
proof -
  have "length (filter live (take (nNumUsed ht) (arData ht))) = length (take (nNumUsed ht) (arData ht))"
    using mixed_shapeD(4,6) [OF assms(2)] sizes_okD(3) [OF assms(1)] assms(3)
    by (simp add: HT_IS_WITHOUT_HOLES_def live_buckets_def)
  then show ?thesis by (metis filter_id_conv length_filter_less less_irrefl)
qed

lemma mixed_destroy:
  assumes "wf_ht ht" "\<not> f_packed ht"
  shows "destroy_buckets d (HT_HAS_STATIC_KEYS_ONLY ht) (HT_IS_WITHOUT_HOLES ht) (take (nNumUsed ht) (arData ht)) g =
     fold (destroy_elem d) (live_buckets ht) g"
proof (cases "f_uninitialized ht")
  case True
  then show ?thesis using wf_uninitD [OF assms(1)]
    by (simp add: live_buckets_def destroy_buckets_def)
next
  case False
  note W = wf_htD [OF assms(1)]
  note D = mixed_shapeD [OF W(5) [OF False assms(2)]]
  show ?thesis unfolding live_buckets_def
    using D(7,9) no_holes_mixed [OF W(1) W(5) [OF False assms(2)]] assms(2)
    by (intro destroy_buckets_eq) (auto simp: HT_HAS_STATIC_KEYS_ONLY_def)
qed

lemma mixed_live_values: "\<not> f_packed ht \<Longrightarrow> map bval (live_buckets ht) = map snd (elems ht)"
  by (simp add: elems_def bucket_elem_def comp_def)

lemma destroy_correct:
  assumes "wf_ht ht"
  shows "dtor_log (zend_hash_destroy g ht) = dtor_log g @ (if pDestructor ht then map snd (elems ht) else [])"
    and "key_refs (zend_hash_destroy g ht) s = key_refs g s - held_refs ht s"
    and "ind_slots (zend_hash_destroy g ht) = ind_slots g"
proof -
  have "dtor_log (zend_hash_destroy g ht) = dtor_log g @ (if pDestructor ht then map snd (elems ht) else []) \<and>
      key_refs (zend_hash_destroy g ht) s = key_refs g s - held_refs ht s \<and> ind_slots (zend_hash_destroy g ht) = ind_slots g"
  proof (cases "nNumUsed ht = 0")
    case True
    then have "elems ht = []" "live_buckets ht = []"
      by (auto simp: elems_def live_buckets_def packed_elems_def)
    then show ?thesis using True by (simp add: zend_hash_destroy_def held_refs_def)
  next
    case used: False
    show ?thesis
    proof (cases "f_packed ht")
      case True
      note P = wf_packed_hash [OF assms True]
      have v: "filter (\<lambda>v. \<not> is_undef v) (take (nNumUsed ht) (arPacked ht)) = map snd (elems ht)"
        using packed_live_values [OF P(4)] True by (simp add: elems_def)
      have "HT_IS_WITHOUT_HOLES ht \<Longrightarrow> take (nNumUsed ht) (arPacked ht) = map snd (elems ht)"
        using no_holes_packed [OF assms True] v by simp
      then show ?thesis
        using used True v by (simp add: zend_hash_destroy_def fold_if_filter fold_run_dtor held_refs_def Let_def)
    next
      case False
      have "zend_hash_destroy g ht = zend_hash_iterators_remove ht
          (destroy_buckets (pDestructor ht) (HT_HAS_STATIC_KEYS_ONLY ht) (HT_IS_WITHOUT_HOLES ht) (take (nNumUsed ht) (arData ht)) g)"
        using used False by (simp add: zend_hash_destroy_def destroy_buckets_def Let_def)
      then show ?thesis
        using False by (simp add: mixed_destroy [OF assms False] destroy_elems_effect mixed_live_values held_refs_def)
    qed
  qed
  then show "dtor_log (zend_hash_destroy g ht) = dtor_log g @ (if pDestructor ht then map snd (elems ht) else [])"
    "key_refs (zend_hash_destroy g ht) s = key_refs g s - held_refs ht s"
    "ind_slots (zend_hash_destroy g ht) = ind_slots g" by auto
qed

lemma clean_correct:
  assumes "wf_ht ht"
  obtains g' ht' where "zend_hash_clean g ht = (g', ht')" "wf_ht ht'" "elems ht' = []"
    "dtor_log g' = dtor_log g @ (if pDestructor ht then map snd (elems ht) else [])"
    "\<And>s. key_refs g' s = key_refs g s - held_refs ht s" "nNextFreeElement ht' = ZEND_LONG_MIN"
    "nNumUsed ht' = 0" "nInternalPointer ht' = 0"
proof -
  note W = wf_htD [OF assms]
  let ?z = "\<lambda>ht. ht\<lparr>nNumUsed := 0, nNumOfElements := 0, nNextFreeElement := ZEND_LONG_MIN, nInternalPointer := 0\<rparr>"
  have e0: "elems (?z h) = []" for h :: "'a hashtable"
    by (simp add: elems_def live_buckets_def packed_elems_def)
  have nf: "next_free_ok (?z h)" for h :: "'a hashtable" by (simp add: next_free_ok_iff e0)
  have sz: "sizes_ok (?z ht)" using W(1) by (simp add: sizes_ok_def)
  consider (empty) "nNumUsed ht = 0" | (packed) "nNumUsed ht \<noteq> 0" "f_packed ht" | (mixed) "nNumUsed ht \<noteq> 0" "\<not> f_packed ht"
    by blast
  then show thesis
  proof cases
    case empty
    then have "elems ht = []" "live_buckets ht = []"
      by (auto simp: elems_def live_buckets_def packed_elems_def)
    moreover have "wf_ht (?z ht)"
      using assms empty calculation sz nf
      by (auto simp: wf_ht_def wf_uninit_def wf_packed_def wf_mixed_def mixed_shape_def no_data_def live_buckets_def linked_def)
    moreover have "zend_hash_clean g ht = (g, ?z ht)" using empty by (simp add: zend_hash_clean_def)
    ultimately show thesis using that e0 by (simp add: held_refs_def)
  next
    case packed
    note P = wf_packed_hash [OF assms packed(2)]
    have v: "filter (\<lambda>v. \<not> is_undef v) (take (nNumUsed ht) (arPacked ht)) = map snd (elems ht)"
      using packed_live_values [OF P(4)] packed by (simp add: elems_def)
    have "HT_IS_WITHOUT_HOLES ht \<Longrightarrow> take (nNumUsed ht) (arPacked ht) = map snd (elems ht)"
      using no_holes_packed [OF assms packed(2)] v by simp
    then have "zend_hash_clean g ht = (g\<lparr>dtor_log := dtor_log g @ (if pDestructor ht then map snd (elems ht) else [])\<rparr>, ?z ht)"
      using packed v by (simp add: zend_hash_clean_def fold_if_filter fold_run_dtor HT_HAS_STATIC_KEYS_ONLY_def Let_def)
    moreover have "wf_ht (?z ht)"
      using W(4) [OF P(1) packed(2)] sz nf P(1) packed(2) by (simp add: wf_ht_def wf_packed_def no_data_def)
    ultimately show thesis using that e0 packed by (simp add: held_refs_def)
  next
    case mixed
    have u: "\<not> f_uninitialized ht" using mixed(1) wf_uninitD(2) [OF assms] by auto
    note D = mixed_shapeD [OF W(5) [OF u mixed(2)]]
    let ?g = "fold (destroy_elem (pDestructor ht)) (live_buckets ht) g"
    have "zend_hash_clean g ht = (?g, ?z (HT_HASH_RESET ht))"
      using mixed mixed_destroy [OF assms mixed(2), of "pDestructor ht" g]
      by (simp add: zend_hash_clean_def destroy_buckets_def Let_def)
    moreover have "wf_ht (?z (HT_HASH_RESET ht))"
      using D sz nf u mixed(2)
      by (simp add: wf_ht_def wf_mixed_def mixed_shape_def HT_HASH_RESET_def linked_init live_buckets_def
          keys_ok_def static_ok_def sizes_ok_def next_free_ok_iff elems_def)
    ultimately show thesis
      using that e0 mixed(2) by (simp add: destroy_elems_effect mixed_live_values held_refs_def)
  qed
qed

subsection \<open>What a deletion does to the other positions\<close>

lemma del_el_ex_positions:
  assumes "zend_hash_del_el_ex g ht idx prev = (g', ht')" "idx < length (arData ht)"
  shows "f_packed ht' = f_packed ht" "nNumUsed ht' = used_after (\<lambda>i. \<not> live (arData ht ! i)) idx (nNumUsed ht)"
    "i \<noteq> idx \<Longrightarrow> payload (arData ht' ! i) = payload (arData ht ! i)" "\<not> live (arData ht' ! idx)"
    "arPacked ht' = arPacked ht"
proof -
  define ht1 where "ht1 = (case prev of
      Some q \<Rightarrow> ht\<lparr>arData := (arData ht)[q := (arData ht ! q)\<lparr>bnext := bnext (arData ht ! idx)\<rparr>]\<rparr>
    | None \<Rightarrow> set_HT_HASH ht (nIndex ht (bh (arData ht ! idx))) (bnext (arData ht ! idx)))"
  define ht2 where "ht2 = ht1\<lparr>nNumOfElements := nNumOfElements ht1 - 1\<rparr>"
  have pay: "payload (arData ht2 ! i) = payload (arData ht ! i)" for i
    by (auto simp: ht2_def ht1_def set_HT_HASH_def payload_bnext_nth split: option.split)
  have f: "f_packed ht2 = f_packed ht" "nNumUsed ht2 = nNumUsed ht" "length (arData ht2) = length (arData ht)"
    "arPacked ht2 = arPacked ht"
    by (auto simp: ht2_def ht1_def set_HT_HASH_def split: option.split)
  have U: "(\<lambda>i. \<not> live (arData ht2 ! i)) = (\<lambda>i. \<not> live (arData ht ! i))"
    using payload_eqD(1) [OF pay] by simp
  obtain ip g1 where D: "del_positions (\<lambda>i. \<not> live (arData ht2 ! i)) idx g ht2 =
      (g1, ht2\<lparr>nNumUsed := used_after (\<lambda>i. \<not> live (arData ht2 ! i)) idx (nNumUsed ht2), nInternalPointer := ip\<rparr>)"
    using del_positions_form by blast
  have run: "zend_hash_del_el_ex g ht idx prev =
      (let (g, ht3) = del_positions (\<lambda>i. \<not> live (arData ht2 ! i)) idx g ht2;
           ht3 = ht3\<lparr>arData := (arData ht3)[idx := (arData ht3 ! idx)\<lparr>bval := IS_UNDEF\<rparr>]\<rparr>
       in (call_dtor ht3 (bval (arData ht ! idx)) g, ht3))"
    by (simp add: zend_hash_del_el_ex_def ht2_def ht1_def Let_def)
  then have ht': "ht' = ht2\<lparr>nNumUsed := used_after (\<lambda>i. \<not> live (arData ht ! i)) idx (nNumUsed ht),
      nInternalPointer := ip, arData := (arData ht2)[idx := (arData ht2 ! idx)\<lparr>bval := IS_UNDEF\<rparr>]\<rparr>"
    using assms(1) unfolding D unfolding U f(2) by (simp add: Let_def)
  show "f_packed ht' = f_packed ht" "nNumUsed ht' = used_after (\<lambda>i. \<not> live (arData ht ! i)) idx (nNumUsed ht)"
    "arPacked ht' = arPacked ht" by (simp_all add: ht' f)
  show "i \<noteq> idx \<Longrightarrow> payload (arData ht' ! i) = payload (arData ht ! i)" using pay by (simp add: ht')
  show "\<not> live (arData ht' ! idx)" using assms(2) f by (simp add: ht' live_def)
qed

definition deleted_at :: "'v hashtable \<Rightarrow> nat \<Rightarrow> 'v hashtable \<Rightarrow> bool" where
  "deleted_at ht idx ht' \<longleftrightarrow> f_packed ht' = f_packed ht \<and> nNumUsed ht' \<le> nNumUsed ht \<and> undef_at ht' idx \<and>
     (\<forall>i. i \<noteq> idx \<longrightarrow> undef_at ht' i = undef_at ht i \<and> key_at ht' i = key_at ht i \<and> val_at ht' i = val_at ht i) \<and>
     (\<forall>i. nNumUsed ht' \<le> i \<longrightarrow> i < nNumUsed ht \<longrightarrow> i \<noteq> idx \<longrightarrow> undef_at ht i)"

lemma used_initialised: "wf_ht ht \<Longrightarrow> i < nNumUsed ht \<Longrightarrow> \<not> f_uninitialized ht"
  using wf_uninitD(2) by force

lemma used_length:
  "wf_ht ht \<Longrightarrow> i < nNumUsed ht \<Longrightarrow> \<not> f_packed ht \<Longrightarrow> i < length (arData ht)"
  using mixed_shapeD(4) [OF wf_htD(5)] used_initialised sizes_okD(3) [OF wf_htD(1)] by fastforce

lemma del_at_correct:
  assumes "wf_ht ht" "idx < nNumUsed ht" "\<not> undef_at ht idx"
  obtains g' ht' where "del_at g ht idx = Some (g', ht')" "deletes g ht (key_at ht idx) (g', ht')"
    "deleted_at ht idx ht'"
proof (cases "f_packed ht")
  case True
  note P = wf_packed_hash [OF assms(1) True]
  have nu: "\<not> is_undef (arPacked ht ! idx)" using assms(3) True by (simp add: undef_at_def)
  obtain g' ht' where r: "zend_hash_packed_del_val_i g ht idx = (g', ht')" by fastforce
  let ?U = "\<lambda>i. is_undef (arPacked ht ! i)"
  let ?ht1 = "ht\<lparr>nNumOfElements := nNumOfElements ht - 1\<rparr>"
  obtain ip g1 where "del_positions ?U idx g ?ht1 =
      (g1, ?ht1\<lparr>nNumUsed := used_after ?U idx (nNumUsed ?ht1), nInternalPointer := ip\<rparr>)"
    using del_positions_form by blast
  then have ht': "ht' = ht\<lparr>nNumOfElements := nNumOfElements ht - 1, nNumUsed := used_after ?U idx (nNumUsed ht),
      nInternalPointer := ip, arPacked := (arPacked ht)[idx := IS_UNDEF]\<rparr>"
    using r by (simp add: zend_hash_packed_del_val_i_def Let_def)
  have "deleted_at ht idx ht'"
    using True assms(2) P(4) used_after_props [OF assms(2), of ?U]
    by (auto simp: deleted_at_def ht' undef_at_def key_at_def val_at_def)
  then show thesis
    using that [of g' ht'] packed_del_val_correct [OF assms(1) True assms(2) nu, of g] r True
    by (simp add: del_at_def key_at_def)
next
  case False
  note u = used_initialised [OF assms(1,2)]
  have lv: "live (arData ht ! idx)" using assms(3) False by (simp add: undef_at_def live_def)
  have len: "idx < length (arData ht)" by (rule used_length [OF assms(1,2) False])
  obtain g' ht' where r: "zend_hash_del_bucket g ht idx = Some (g', ht')" "deletes g ht (key_at ht idx) (g', ht')"
    using del_bucket_correct [OF assms(1) u False assms(2) lv, of g] False by (auto simp: key_at_def)
  then obtain prev where p: "(case release_key idx g ht of (g, ht) \<Rightarrow> zend_hash_del_el_ex g ht idx prev) = (g', ht')"
    by (auto simp: zend_hash_del_bucket_def zend_hash_del_el_def Let_def bind_eq_Some_conv case_prod_beta')
  obtain g0 ht0 where r0: "release_key idx g ht = (g0, ht0)"
    "ht0 = ht\<lparr>arData := (arData ht)[idx := (arData ht ! idx)\<lparr>bkey := None\<rparr>]\<rparr>"
    using release_key_eq [OF len] by metis
  have ex: "zend_hash_del_el_ex g0 ht0 idx prev = (g', ht')" using p r0(1) by simp
  have len0: "idx < length (arData ht0)" using len r0(2) by simp
  note X = del_el_ex_positions [OF ex len0]
  have live0: "live (arData ht0 ! i) = live (arData ht ! i)" for i
    using len by (cases "i = idx") (simp_all add: r0(2) live_def)
  have nn: "nNumUsed ht' = used_after (\<lambda>i. \<not> live (arData ht ! i)) idx (nNumUsed ht)"
    using X(2) unfolding live0 by (simp add: r0(2))
  have oth: "payload (arData ht' ! i) = payload (arData ht ! i)" if "i \<noteq> idx" for i
    using X(3) [OF that] that by (simp add: r0(2))
  have fp: "\<not> f_packed ht'" "\<not> f_packed ht" using X(1) False r0(2) by simp_all
  have "undef_at ht' i = undef_at ht i" "key_at ht' i = key_at ht i" "val_at ht' i = val_at ht i" if "i \<noteq> idx" for i
    using payload_eqD [OF oth [OF that]] fp
    by (auto simp: undef_at_def key_at_def val_at_def live_def intro: bucket_key_cong)
  moreover have "undef_at ht' idx" using X(4) fp by (simp add: undef_at_def live_def)
  ultimately have "deleted_at ht idx ht'"
    using used_after_props [OF assms(2), of "\<lambda>i. \<not> live (arData ht ! i)"] fp
    by (auto simp: deleted_at_def nn) (auto simp: undef_at_def live_def)
  then show thesis
    using that r False by (simp add: del_at_def zend_hash_del_bucket_def)
qed

subsection \<open>The apply loops on the element list\<close>

text \<open>The reference: a fold over the elements with early stop; the elements kept, and those removed.\<close>

fun apply_spec :: "('v, 's) apply_func \<Rightarrow> 's \<Rightarrow> (hkey \<times> 'v zval) list \<Rightarrow>
    's \<times> (hkey \<times> 'v zval) list \<times> (hkey \<times> 'v zval) list" where
  "apply_spec f s [] = (s, [], [])"
| "apply_spec f s ((k, v) # xs) =
     (let (result, s) = f k v s;
          (s, kept, removed) = (if result AND ZEND_HASH_APPLY_STOP \<noteq> 0 then (s, xs, []) else apply_spec f s xs)
      in if result AND ZEND_HASH_APPLY_REMOVE \<noteq> 0 then (s, kept, (k, v) # removed)
         else (s, (k, v) # kept, removed))"

definition elems_from :: "'v hashtable \<Rightarrow> nat \<Rightarrow> (hkey \<times> 'v zval) list" where
  "elems_from ht idx = map (\<lambda>i. (key_at ht i, val_at ht i)) (filter (\<lambda>i. \<not> undef_at ht i) [idx..<nNumUsed ht])"

lemma elems_from_0: "wf_ht ht \<Longrightarrow> elems_from ht 0 = elems ht"
  by (simp add: elems_from_def elems_positions used_positions_def)

lemma elems_from_step:
  assumes "idx < nNumUsed ht"
  shows "elems_from ht idx =
    (if undef_at ht idx then elems_from ht (Suc idx) else (key_at ht idx, val_at ht idx) # elems_from ht (Suc idx))"
  using assms by (simp add: elems_from_def upt_conv_Cons)

lemma filter_upt_shrink:
  "m \<le> n \<Longrightarrow> (\<And>i. m \<le> i \<Longrightarrow> i < n \<Longrightarrow> k \<le> i \<Longrightarrow> \<not> P i) \<Longrightarrow> filter P [k..<n] = filter P [k..<m]"
proof (induction n)
  case (Suc n)
  then show ?case by (cases "m = Suc n") auto
qed simp

lemma elems_from_deleted:
  assumes "deleted_at ht idx ht'"
  shows "elems_from ht' (Suc idx) = elems_from ht (Suc idx)"
proof -
  have "filter (\<lambda>i. \<not> undef_at ht' i) [Suc idx..<nNumUsed ht'] = filter (\<lambda>i. \<not> undef_at ht i) [Suc idx..<nNumUsed ht']"
    using assms by (intro filter_cong) (auto simp: deleted_at_def)
  also have "\<dots> = filter (\<lambda>i. \<not> undef_at ht i) [Suc idx..<nNumUsed ht]"
    using assms by (intro filter_upt_shrink [symmetric]) (auto simp: deleted_at_def)
  finally show ?thesis
    using assms unfolding elems_from_def by (intro map_cong) (auto simp: deleted_at_def)
qed

lemma elems_distinct: "wf_ht ht \<Longrightarrow> distinct (map fst (elems ht))"
proof -
  assume wf: "wf_ht ht"
  note W = wf_htD [OF wf]
  consider "f_uninitialized ht" | "f_packed ht" | "\<not> f_uninitialized ht" "\<not> f_packed ht" by blast
  then show ?thesis
  proof cases
    case 1
    then show ?thesis using wf_uninitD(4) [OF wf] by simp
  next
    case 2
    have "inj_on (\<lambda>i. KInt (of_nat i :: u64)) {0..<nNumUsed ht}"
      using sizes_okD(4) [OF W(1)] by (intro inj_onI) (auto dest: of_nat_inj_u64)
    then show ?thesis
      using wf_packedD(2) [OF wf 2] by (auto simp: packed_elems_def comp_def distinct_map inj_on_def)
  next
    case 3
    then show ?thesis using mixed_shapeD(8) [OF W(5) [OF 3]]
      by (simp add: elems_def map_bucket_key_elem)
  qed
qed

lemma AList_delete_middle:
  "distinct (map fst (A @ (k, v) # B)) \<Longrightarrow> AList.delete k (A @ (k, v) # B) = A @ B"
  by (induction A) (auto simp: delete_idem)

lemma apply_turn_correct:
  assumes "wf_ht ht" "idx < nNumUsed ht" "\<not> undef_at ht idx" "f (key_at ht idx) (val_at ht idx) s = (result, s')"
    and "elems ht = A @ (key_at ht idx, val_at ht idx) # B"
  obtains g' ht' where "apply_turn f idx s g ht = Some (s', g', ht', result AND ZEND_HASH_APPLY_STOP \<noteq> 0)" "wf_ht ht'"
    "elems ht' = A @ (if result AND ZEND_HASH_APPLY_REMOVE \<noteq> 0 then [] else [(key_at ht idx, val_at ht idx)]) @ B"
    "dtor_log g' = dtor_log g @ (if result AND ZEND_HASH_APPLY_REMOVE \<noteq> 0 \<and> pDestructor ht then [val_at ht idx] else [])"
    "elems_from ht' (Suc idx) = elems_from ht (Suc idx)" "pDestructor ht' = pDestructor ht" "ind_slots g' = ind_slots g"
    "nNumUsed ht' \<le> nNumUsed ht"
    "\<And>i. i < idx \<Longrightarrow> undef_at ht' i = undef_at ht i \<and> key_at ht' i = key_at ht i \<and> val_at ht' i = val_at ht i"
    "nNumUsed ht' = nNumUsed ht \<or> (\<forall>i. nNumUsed ht' \<le> i \<longrightarrow> i < idx \<longrightarrow> undef_at ht' i)"
proof (cases "result AND ZEND_HASH_APPLY_REMOVE \<noteq> 0")
  case False
  then show thesis using assms that [of g ht] by (simp add: apply_turn_def)
next
  case True
  let ?k = "key_at ht idx"
  obtain g' ht' where d: "del_at g ht idx = Some (g', ht')" "deletes g ht ?k (g', ht')" "deleted_at ht idx ht'"
    using del_at_correct [OF assms(1-3)] by blast
  have dist: "distinct (map fst (A @ (?k, val_at ht idx) # B))"
    using elems_distinct [OF assms(1)] assms(5) by simp
  have "(?k, val_at ht idx) \<in> set (elems ht)" using assms(5) by simp
  then have "abs_find ht ?k = Some (val_at ht idx)"
    using elems_distinct [OF assms(1)] by (simp add: abs_find_def)
  moreover have "\<forall>i. nNumUsed ht' \<le> i \<longrightarrow> i < idx \<longrightarrow> undef_at ht' i"
    using d(3) assms(2) by (auto simp: deleted_at_def)
  ultimately show thesis
    using that [of g' ht'] d True assms(4,5) AList_delete_middle [OF dist] elems_from_deleted [OF d(3)]
    by (simp add: apply_turn_def deletes_def dtor_calls_def deleted_at_def)
qed

lemma apply_loop_correct:
  fixes ht :: "'v hashtable"
  assumes "wf_ht ht" "elems ht = A @ elems_from ht idx" "apply_spec f s (elems_from ht idx) = (s', kept, removed)"
  shows "\<exists>g' ht'. apply_loop f idx s g ht = Some (s', g', ht') \<and> wf_ht ht' \<and> elems ht' = A @ kept \<and>
    dtor_log g' = dtor_log g @ (if pDestructor ht then map snd removed else []) \<and> ind_slots g' = ind_slots g"
  using assms
proof (induction "nNumUsed ht - idx" arbitrary: idx s g ht A s' kept removed rule: less_induct)
  case less
  show ?case
  proof (cases "idx < nNumUsed ht")
    case False
    then show ?thesis using less.prems by (simp add: apply_loop.simps [of f idx] elems_from_def)
  next
    case used: True
    show ?thesis
    proof (cases "undef_at ht idx")
      case True
      have "apply_loop f idx s g ht = apply_loop f (Suc idx) s g ht"
        using used True by (simp add: apply_loop.simps [of f idx])
      moreover have "nNumUsed ht - Suc idx < nNumUsed ht - idx" using used by simp
      ultimately show ?thesis
        using less.hyps [of ht "Suc idx" A s s' kept removed g] less.prems elems_from_step [OF used] True by simp
    next
      case False
      let ?k = "key_at ht idx" and ?v = "val_at ht idx"
      obtain result s1 where f: "f ?k ?v s = (result, s1)" by fastforce
      have ef: "elems_from ht idx = (?k, ?v) # elems_from ht (Suc idx)"
        using elems_from_step [OF used] False by simp
      obtain s2 kept2 removed2 where rest: "(if result AND ZEND_HASH_APPLY_STOP \<noteq> 0 then (s1, elems_from ht (Suc idx), [])
          else apply_spec f s1 (elems_from ht (Suc idx))) = (s2, kept2, removed2)"
        by (metis prod_cases3)
      have res: "s' = s2" "kept = (if result AND ZEND_HASH_APPLY_REMOVE \<noteq> 0 then [] else [(?k, ?v)]) @ kept2"
        "removed = (if result AND ZEND_HASH_APPLY_REMOVE \<noteq> 0 then [(?k, ?v)] else []) @ removed2"
        using less.prems(3) unfolding ef by (auto simp: f rest split: if_splits)
      obtain g1 ht1 where T: "apply_turn f idx s g ht = Some (s1, g1, ht1, result AND ZEND_HASH_APPLY_STOP \<noteq> 0)" "wf_ht ht1"
        "elems ht1 = A @ (if result AND ZEND_HASH_APPLY_REMOVE \<noteq> 0 then [] else [(?k, ?v)]) @ elems_from ht (Suc idx)"
        "dtor_log g1 = dtor_log g @ (if result AND ZEND_HASH_APPLY_REMOVE \<noteq> 0 \<and> pDestructor ht then [?v] else [])"
        "elems_from ht1 (Suc idx) = elems_from ht (Suc idx)" "pDestructor ht1 = pDestructor ht" "ind_slots g1 = ind_slots g"
        "nNumUsed ht1 \<le> nNumUsed ht"
        using apply_turn_correct [of ht idx f s result s1 A "elems_from ht (Suc idx)" g] less.prems(1,2) used False f ef by metis
      show ?thesis
      proof (cases "result AND ZEND_HASH_APPLY_STOP \<noteq> 0")
        case stop: True
        then have "apply_loop f idx s g ht = Some (s1, g1, ht1)"
          using used False T(1) by (simp add: apply_loop.simps [of f idx])
        then show ?thesis using stop T rest res by auto
      next
        case go: False
        let ?A = "A @ (if result AND ZEND_HASH_APPLY_REMOVE \<noteq> 0 then [] else [(?k, ?v)])"
        have "apply_loop f idx s g ht = apply_loop f (Suc idx) s1 g1 ht1"
          using used False T(1) go by (simp add: apply_loop.simps [of f idx])
        moreover have "nNumUsed ht1 - Suc idx < nNumUsed ht - idx" using used T(8) by linarith
        then obtain g2 ht2 where "apply_loop f (Suc idx) s1 g1 ht1 = Some (s2, g2, ht2)" "wf_ht ht2" "elems ht2 = ?A @ kept2"
          "dtor_log g2 = dtor_log g1 @ (if pDestructor ht1 then map snd removed2 else [])" "ind_slots g2 = ind_slots g1"
          using less.hyps [of ht1 "Suc idx" ?A s1 s2 kept2 removed2 g1] T rest go by auto
        ultimately show ?thesis using res T(4,6,7) by auto
      qed
    qed
  qed
qed

definition elems_upto :: "'v hashtable \<Rightarrow> nat \<Rightarrow> (hkey \<times> 'v zval) list" where
  "elems_upto ht idx = map (\<lambda>i. (key_at ht i, val_at ht i)) (filter (\<lambda>i. \<not> undef_at ht i) [0..<idx])"

lemma elems_upto_Suc:
  "elems_upto ht (Suc idx) = elems_upto ht idx @ (if undef_at ht idx then [] else [(key_at ht idx, val_at ht idx)])"
  by (simp add: elems_upto_def)

lemma elems_upto_cong:
  "(\<And>i. i < idx \<Longrightarrow> undef_at ht' i = undef_at ht i \<and> key_at ht' i = key_at ht i \<and> val_at ht' i = val_at ht i) \<Longrightarrow>
   elems_upto ht' idx = elems_upto ht idx"
  unfolding elems_upto_def by (intro map_cong filter_cong) auto

lemma reverse_loop_correct:
  assumes "wf_ht ht" "elems ht = elems_upto ht idx @ C" "\<forall>i. nNumUsed ht \<le> i \<longrightarrow> i < idx \<longrightarrow> undef_at ht i"
    "apply_spec f s (rev (elems_upto ht idx)) = (s', kept, removed)"
  shows "\<exists>g' ht'. reverse_loop f idx s g ht = Some (s', g', ht') \<and> wf_ht ht' \<and> elems ht' = rev kept @ C \<and>
    dtor_log g' = dtor_log g @ (if pDestructor ht then map snd removed else []) \<and> ind_slots g' = ind_slots g"
  using assms
proof (induction idx arbitrary: s g ht C s' kept removed)
  case 0
  then show ?case by (simp add: elems_upto_def)
next
  case (Suc idx)
  show ?case
  proof (cases "undef_at ht idx")
    case True
    then show ?thesis using Suc.IH [of ht C s s' kept removed g] Suc.prems by (simp add: elems_upto_Suc)
  next
    case False
    have used: "idx < nNumUsed ht" using Suc.prems(3) False by (meson lessI not_less)
    let ?k = "key_at ht idx" and ?v = "val_at ht idx"
    obtain result s1 where f: "f ?k ?v s = (result, s1)" by fastforce
    have eu: "elems_upto ht (Suc idx) = elems_upto ht idx @ [(?k, ?v)]" using False by (simp add: elems_upto_Suc)
    obtain s2 kept2 removed2 where rest: "(if result AND ZEND_HASH_APPLY_STOP \<noteq> 0 then (s1, rev (elems_upto ht idx), [])
        else apply_spec f s1 (rev (elems_upto ht idx))) = (s2, kept2, removed2)"
      by (metis prod_cases3)
    have res: "s' = s2" "kept = (if result AND ZEND_HASH_APPLY_REMOVE \<noteq> 0 then [] else [(?k, ?v)]) @ kept2"
      "removed = (if result AND ZEND_HASH_APPLY_REMOVE \<noteq> 0 then [(?k, ?v)] else []) @ removed2"
      using Suc.prems(4) unfolding eu by (auto simp: f rest split: if_splits)
    have "elems ht = elems_upto ht idx @ (?k, ?v) # C" using Suc.prems(2) eu by simp
    then obtain g1 ht1 where T: "apply_turn f idx s g ht = Some (s1, g1, ht1, result AND ZEND_HASH_APPLY_STOP \<noteq> 0)" "wf_ht ht1"
      "elems ht1 = elems_upto ht idx @ (if result AND ZEND_HASH_APPLY_REMOVE \<noteq> 0 then [] else [(?k, ?v)]) @ C"
      "dtor_log g1 = dtor_log g @ (if result AND ZEND_HASH_APPLY_REMOVE \<noteq> 0 \<and> pDestructor ht then [?v] else [])"
      "pDestructor ht1 = pDestructor ht" "ind_slots g1 = ind_slots g" "nNumUsed ht1 \<le> nNumUsed ht"
      "\<And>i. i < idx \<Longrightarrow> undef_at ht1 i = undef_at ht i \<and> key_at ht1 i = key_at ht i \<and> val_at ht1 i = val_at ht i"
      "nNumUsed ht1 = nNumUsed ht \<or> (\<forall>i. nNumUsed ht1 \<le> i \<longrightarrow> i < idx \<longrightarrow> undef_at ht1 i)"
      using apply_turn_correct [of ht idx f s result s1 "elems_upto ht idx" C g] Suc.prems(1) used False f
      by metis
    have eu1: "elems_upto ht1 idx = elems_upto ht idx" using T(8) by (intro elems_upto_cong) blast
    show ?thesis
    proof (cases "result AND ZEND_HASH_APPLY_STOP \<noteq> 0")
      case stop: True
      then show ?thesis using False T rest res by auto
    next
      case go: False
      let ?C = "(if result AND ZEND_HASH_APPLY_REMOVE \<noteq> 0 then [] else [(?k, ?v)]) @ C"
      have "\<forall>i. nNumUsed ht1 \<le> i \<longrightarrow> i < idx \<longrightarrow> undef_at ht1 i" using T(9) used by auto
      then obtain g2 ht2 where "reverse_loop f idx s1 g1 ht1 = Some (s2, g2, ht2)" "wf_ht ht2" "elems ht2 = rev kept2 @ ?C"
        "dtor_log g2 = dtor_log g1 @ (if pDestructor ht1 then map snd removed2 else [])" "ind_slots g2 = ind_slots g1"
        using Suc.IH [of ht1 ?C s1 s2 kept2 removed2 g1] T(2,3) eu1 rest go by auto
      then show ?thesis using False T(1,4,5,6) go res by auto
    qed
  qed
qed

lemma apply_correct:
  assumes "wf_ht ht" "apply_spec f s (elems ht) = (s', kept, removed)"
  obtains g' ht' where "apply_loop f 0 s g ht = Some (s', g', ht')" "wf_ht ht'" "elems ht' = kept"
    "dtor_log g' = dtor_log g @ (if pDestructor ht then map snd removed else [])" "ind_slots g' = ind_slots g"
  using apply_loop_correct [of ht "[]" 0 f s s' kept removed g] assms by (auto simp: elems_from_0)

lemma reverse_apply_correct:
  assumes "wf_ht ht" "apply_spec f s (rev (elems ht)) = (s', kept, removed)"
  obtains g' ht' where "reverse_loop f (nNumUsed ht) s g ht = Some (s', g', ht')" "wf_ht ht'" "elems ht' = rev kept"
    "dtor_log g' = dtor_log g @ (if pDestructor ht then map snd removed else [])" "ind_slots g' = ind_slots g"
proof -
  have "elems ht = elems_upto ht (nNumUsed ht)"
    using elems_positions [OF assms(1)] by (simp add: elems_upto_def used_positions_def)
  then show thesis
    using reverse_loop_correct [of ht "nNumUsed ht" "[]" f s s' kept removed g] assms that by auto
qed

lemma apply_spec_remove_all:
  "apply_spec (\<lambda>k v s. (ZEND_HASH_APPLY_REMOVE, s)) s xs = (s, [], xs)"
  by (induction xs) (auto simp: ZEND_HASH_APPLY_REMOVE_def ZEND_HASH_APPLY_STOP_def)

lemma graceful_destroy_correct:
  assumes "wf_ht ht"
  obtains g' ht' where "zend_hash_graceful_destroy g ht = Some (g', ht')" "wf_ht ht'" "elems ht' = []"
    "dtor_log g' = dtor_log g @ (if pDestructor ht then map snd (elems ht) else [])"
  by (rule apply_correct [OF assms apply_spec_remove_all, of "()" g])
    (auto simp: zend_hash_graceful_destroy_def intro: that)

lemma graceful_reverse_destroy_correct:
  assumes "wf_ht ht"
  obtains g' ht' where "zend_hash_graceful_reverse_destroy g ht = Some (g', ht')" "wf_ht ht'" "elems ht' = []"
    "dtor_log g' = dtor_log g @ (if pDestructor ht then map snd (rev (elems ht)) else [])"
  by (rule reverse_apply_correct [OF assms apply_spec_remove_all, of "()" g])
    (auto simp: zend_hash_graceful_reverse_destroy_def intro: that)

end
