(* ===== verification/ZendHashDemo.thy ===== *)
theory ZendHashDemo
  imports ZendHashApply
begin

text \<open>
  Three concrete tables the witnesses of the properties are evaluated on: an empty one, a packed
  one with a hole, and a mixed one with a deleted bucket, a collision chain and a string key.
\<close>

definition demo_eg :: "nat eg" where
  "demo_eg = \<lparr>ht_iterators = [], ht_iterators_used = 0, ind_slots = (\<lambda>_. IS_UNDEF), dtor_log = [], key_refs = (\<lambda>_. 0)\<rparr>"

definition foo_key :: zstr where "foo_key = \<lparr>zs_val = [102, 111, 111], zs_interned = False\<rparr>"
definition bar_key :: zstr where "bar_key = \<lparr>zs_val = [98, 97, 114], zs_interned = True\<rparr>"

definition demo_empty :: "nat hashtable" where
  "demo_empty = \<lparr>ht_id = 1, gc_persistent = False, f_packed = False, f_uninitialized = True, f_static_keys = False,
     f_has_empty_ind = False, nIteratorsCount = 0, nTableMask = HT_MIN_MASK, arHash = [HT_INVALID_IDX, HT_INVALID_IDX],
     arData = [], arPacked = [], nNumUsed = 0, nNumOfElements = 0, nTableSize = 8, nInternalPointer = 0,
     nNextFreeElement = ZEND_LONG_MIN, pDestructor = True\<rparr>"

definition demo_packed :: "nat hashtable" where
  "demo_packed = \<lparr>ht_id = 1, gc_persistent = False, f_packed = True, f_uninitialized = False, f_static_keys = True,
     f_has_empty_ind = False, nIteratorsCount = 0, nTableMask = HT_MIN_MASK, arHash = [HT_INVALID_IDX, HT_INVALID_IDX],
     arData = [], arPacked = [ZVAL 10, IS_UNDEF, ZVAL 12, UNINIT, UNINIT, UNINIT, UNINIT, UNINIT],
     nNumUsed = 3, nNumOfElements = 2, nTableSize = 8, nInternalPointer = 0, nNextFreeElement = 3, pDestructor = True\<rparr>"

definition demo_mixed :: "nat hashtable" where
  "demo_mixed = \<lparr>ht_id = 1, gc_persistent = False, f_packed = False, f_uninitialized = False, f_static_keys = False,
     f_has_empty_ind = False, nIteratorsCount = 0, nTableMask = - 16,
     arHash = [HT_INVALID_IDX, HT_INVALID_IDX, HT_INVALID_IDX, HT_INVALID_IDX, HT_INVALID_IDX, 3, HT_INVALID_IDX, HT_INVALID_IDX,
       HT_INVALID_IDX, 2, HT_INVALID_IDX, HT_INVALID_IDX, HT_INVALID_IDX, HT_INVALID_IDX, HT_INVALID_IDX, HT_INVALID_IDX],
     arData = [\<lparr>bval = ZVAL 50, bh = 5, bkey = None, bnext = HT_INVALID_IDX\<rparr>,
       \<lparr>bval = IS_UNDEF, bh = 7, bkey = None, bnext = HT_INVALID_IDX\<rparr>,
       \<lparr>bval = ZVAL 51, bh = 9223372037048267657, bkey = Some foo_key, bnext = HT_INVALID_IDX\<rparr>,
       \<lparr>bval = ZVAL 52, bh = 21, bkey = None, bnext = 0\<rparr>,
       fresh_bucket, fresh_bucket, fresh_bucket, fresh_bucket],
     arPacked = [], nNumUsed = 4, nNumOfElements = 3, nTableSize = 8, nInternalPointer = 0, nNextFreeElement = 22,
     pDestructor = True\<rparr>"

lemma replicate_2: "replicate 2 x = [x, x]"
  by (simp add: numeral_2_eq_2)

lemma demo_size: "\<exists>k\<in>{3..30}. 8 = (2::nat) ^ k"
  by (rule bexI [of _ 3]) auto

lemma demo_empty_elems: "elems demo_empty = []"
  by (simp add: elems_def demo_empty_def live_buckets_def)

lemma demo_empty_wf: "wf_ht demo_empty"
  unfolding wf_ht_def sizes_ok_def next_free_ok_def demo_empty_elems
  using demo_size by (simp add: demo_empty_def wf_uninit_def no_data_def replicate_2)

lemma demo_packed_elems: "elems demo_packed = [(KInt 0, ZVAL 10), (KInt 2, ZVAL 12)]"
  by (simp add: elems_def demo_packed_def packed_elems_def upt_rec numeral_eq_Suc)

lemma demo_packed_wf: "wf_ht demo_packed"
  unfolding wf_ht_def sizes_ok_def next_free_ok_def demo_packed_elems
  using demo_size by (simp add: demo_packed_def wf_packed_def no_data_def ZEND_LONG_MAX_def word_sless_alt replicate_2)

lemma foo_hash: "ZSTR_H foo_key = 9223372037048267657"
  by (simp add: ZSTR_H_def foo_key_def zend_inline_hash_func_def hash_rest_def hash_four_def Let_def)

lemma demo_mixed_live: "live_buckets demo_mixed =
   [\<lparr>bval = ZVAL 50, bh = 5, bkey = None, bnext = HT_INVALID_IDX\<rparr>,
    \<lparr>bval = ZVAL 51, bh = 9223372037048267657, bkey = Some foo_key, bnext = HT_INVALID_IDX\<rparr>,
    \<lparr>bval = ZVAL 52, bh = 21, bkey = None, bnext = 0\<rparr>]"
  by (simp add: live_buckets_def demo_mixed_def live_def)

lemma demo_mixed_elems: "elems demo_mixed = [(KInt 5, ZVAL 50), (KStr [102, 111, 111], ZVAL 51), (KInt 21, ZVAL 52)]"
  unfolding elems_def demo_mixed_live by (simp add: demo_mixed_def bucket_elem_def bucket_key_def foo_key_def)

lemma demo_mixed_shape: "mixed_shape demo_mixed"
  unfolding mixed_shape_def demo_mixed_live
  by (simp add: demo_mixed_def HT_SIZE_TO_MASK_def ht_slots_def keys_ok_def bucket_key_def live_def foo_hash)

lemma demo_mixed_slots:
  "bslot (- 16) \<lparr>bval = v, bh = 5, bkey = k, bnext = n\<rparr> = 5"
  "bslot (- 16) \<lparr>bval = v, bh = 21, bkey = k, bnext = n\<rparr> = 5"
  "bslot (- 16) \<lparr>bval = v, bh = 9223372037048267657, bkey = k, bnext = n\<rparr> = 9"
  by (simp_all add: bslot_def slot_of_def)

lemma all_less_numeral: "(\<forall>i < numeral n. P i) \<longleftrightarrow> P 0 \<and> (\<forall>i < pred_numeral n. P (Suc i))"
  by (simp add: numeral_eq_Suc All_less_Suc2)

lemma demo_mixed_linked: "linked (nTableMask demo_mixed) (arHash demo_mixed) (arData demo_mixed) (nNumUsed demo_mixed)"
  by (simp add: linked_def demo_mixed_def demo_mixed_slots numeral_eq_Suc All_less_Suc2 live_def)

lemma demo_mixed_wf: "wf_ht demo_mixed"
  unfolding wf_ht_def sizes_ok_def next_free_ok_def demo_mixed_elems wf_mixed_def
  using demo_size demo_mixed_shape demo_mixed_linked
  by (simp add: demo_mixed_def word_sless_alt)

lemma demo_facts:
  "dtor_log demo_eg = []" "zs_val foo_key = [102, 111, 111]" "zs_val bar_key = [98, 97, 114]"
  "pDestructor demo_mixed" "pDestructor demo_packed" "pDestructor demo_empty"
  "nTableSize demo_mixed = 8" "nTableSize demo_packed = 8" "nTableSize demo_empty = 8"
  "\<not> f_packed demo_mixed" "f_packed demo_packed" "\<not> f_packed demo_empty"
  "\<not> f_uninitialized demo_mixed" "\<not> f_uninitialized demo_packed" "f_uninitialized demo_empty"
  "nNumUsed demo_mixed = 4" "nNumUsed demo_packed = 3" "nNumUsed demo_empty = 0"
  "nNextFreeElement demo_mixed = 22" "nNextFreeElement demo_packed = 3" "nNextFreeElement demo_empty = ZEND_LONG_MIN"
  by (simp_all add: demo_eg_def foo_key_def bar_key_def demo_mixed_def demo_packed_def demo_empty_def)

lemmas demo_simps = demo_facts demo_mixed_elems demo_packed_elems demo_empty_elems dtor_calls_def abs_find_def

lemma demo_small: "8 < HT_MAX_SIZE"
  by (simp add: HT_MAX_SIZE_def)

end
