(* ===== verification/ZendHashDup.thy ===== *)
theory ZendHashDup
  imports ZendHashApply
begin

text \<open>
  Duplication of arrays (\<open>zend_array_dup\<close>, \<open>Zend/zend_hash.c\<close>, lines 2288 to 2525), the operation
  behind copy on write, with the registration of iterators (\<open>zend_hash_iterator_add\<close>). What
  duplicating does to a value is the parameter \<open>unref\<close>: it takes a reference, or the referent of a
  reference nobody else holds. Duplicating drops holes and \<open>IS_INDIRECT\<close> values whose slot is empty.
\<close>

subsection \<open>Registering an iterator\<close>

definition first_free :: "iterator list \<Rightarrow> nat option" where
  "first_free its = (case dropWhile (\<lambda>i. it_ht (its ! i) \<noteq> NoTable) [0..<length its] of [] \<Rightarrow> None | i # _ \<Rightarrow> Some i)"

definition zero_iterator :: iterator where
  "zero_iterator = \<lparr>it_ht = NoTable, it_pos = 0, it_next_copy = 0\<rparr>"

definition zend_hash_iterator_add :: "'v eg \<Rightarrow> 'v hashtable \<Rightarrow> nat \<Rightarrow> 'v eg \<times> 'v hashtable \<times> nat" where
  "zend_hash_iterator_add g ht pos =
     (let ht = (if \<not> HT_ITERATORS_OVERFLOW ht then HT_INC_ITERATORS_COUNT ht else ht)
      in case first_free (ht_iterators g) of
           Some idx \<Rightarrow>
             (g\<lparr>ht_iterators := (ht_iterators g)[idx := \<lparr>it_ht = OfTable (ht_id ht), it_pos = pos, it_next_copy = idx\<rparr>],
                ht_iterators_used := (if idx + 1 > ht_iterators_used g then idx + 1 else ht_iterators_used g)\<rparr>, ht, idx)
         | None \<Rightarrow>
             (let idx = length (ht_iterators g)
              in (g\<lparr>ht_iterators := ht_iterators g @ \<lparr>it_ht = OfTable (ht_id ht), it_pos = pos, it_next_copy = idx\<rparr> #
                                    replicate 7 zero_iterator,
                    ht_iterators_used := idx + 1\<rparr>, ht, idx)))"

text \<open>Every iterator on \<open>source\<close> gets a copy on \<open>target\<close>, linked into the ring of its copies.\<close>

definition dup_iterator :: "'v hashtable \<Rightarrow> nat \<Rightarrow> 'v eg \<times> 'v hashtable \<Rightarrow> 'v eg \<times> 'v hashtable" where
  "dup_iterator source iter_index = (\<lambda>(g, target).
     (let iter = ht_iterators g ! iter_index
      in if it_ht iter = OfTable (ht_id source) then
           (let (g, target, copy_idx) = zend_hash_iterator_add g target (it_pos iter);
                iter = ht_iterators g ! iter_index;
                its = (ht_iterators g)[copy_idx := (ht_iterators g ! copy_idx)\<lparr>it_next_copy := it_next_copy iter\<rparr>];
                its = its[iter_index := (its ! iter_index)\<lparr>it_next_copy := copy_idx\<rparr>]
            in (g\<lparr>ht_iterators := its\<rparr>, target))
         else (g, target)))"

definition zend_array_dup_ht_iterators :: "'v hashtable \<Rightarrow> 'v eg \<times> 'v hashtable \<Rightarrow> 'v eg \<times> 'v hashtable" where
  "zend_array_dup_ht_iterators source = (\<lambda>(g, target).
     fold (dup_iterator source) [0..<ht_iterators_used g] (g, target))"

subsection \<open>Duplicating the elements\<close>

definition zend_array_dup_value :: "('v zval \<Rightarrow> 'v zval) \<Rightarrow> 'v eg \<Rightarrow> 'v zval \<Rightarrow> bool \<Rightarrow> bool \<Rightarrow> 'v zval option" where
  "zend_array_dup_value unref g data packed with_holes =
     (if with_holes then
        (let data = (if \<not> packed then (case data of IS_INDIRECT a \<Rightarrow> ind_slots g a | _ \<Rightarrow> data) else data)
         in if is_undef data then None else Some (unref data))
      else if \<not> packed then
        (case data of
           IS_INDIRECT a \<Rightarrow> (let data = ind_slots g a in if is_undef data then None else Some (unref data))
         | _ \<Rightarrow> Some (unref data))
      else Some (unref data))"

definition zend_array_dup_element ::
  "('v zval \<Rightarrow> 'v zval) \<Rightarrow> bool \<Rightarrow> bool \<Rightarrow> nat \<Rightarrow> 'v bucket \<Rightarrow> 'v eg \<Rightarrow> 'v hashtable \<Rightarrow> ('v eg \<times> 'v hashtable) option" where
  "zend_array_dup_element unref static_keys with_holes idx p g target =
     (case zend_array_dup_value unref g (bval p) False with_holes of
        None \<Rightarrow> None
      | Some v \<Rightarrow>
          (let g = (case bkey p of Some k \<Rightarrow> if \<not> static_keys then zend_string_addref k g else g | None \<Rightarrow> g);
               n = nIndex target (bh p);
               target = target\<lparr>arData := (arData target)[idx := \<lparr>bval = v, bh = bh p, bkey = bkey p, bnext = HT_HASH target n\<rparr>]\<rparr>
           in Some (g, set_HT_HASH target n idx)))"

definition dup_packed_cells :: "('v zval \<Rightarrow> 'v zval) \<Rightarrow> 'v eg \<Rightarrow> bool \<Rightarrow> 'v zval list \<Rightarrow> 'v zval list \<Rightarrow> 'v zval list" where
  "dup_packed_cells unref g with_holes ps qs =
     map (\<lambda>(p, q). case zend_array_dup_value unref g p True with_holes of
                      Some v \<Rightarrow> v | None \<Rightarrow> if with_holes then IS_UNDEF else q) (zip ps qs)"

definition zend_array_dup_packed_elements ::
  "('v zval \<Rightarrow> 'v zval) \<Rightarrow> 'v hashtable \<Rightarrow> bool \<Rightarrow> 'v eg \<Rightarrow> 'v hashtable \<Rightarrow> 'v eg \<times> 'v hashtable" where
  "zend_array_dup_packed_elements unref source with_holes g target =
     (let n = nNumUsed source;
          target = target\<lparr>arPacked := dup_packed_cells unref g with_holes (take n (arPacked source)) (arPacked target) @
                                     drop n (arPacked target)\<rparr>
      in if HT_HAS_ITERATORS source then zend_array_dup_ht_iterators source (g, target) else (g, target))"

text \<open>The loop after the first element left out, without iterators on the target.\<close>

function dup_compact ::
  "('v zval \<Rightarrow> 'v zval) \<Rightarrow> bool \<Rightarrow> bool \<Rightarrow> 'v hashtable \<Rightarrow> nat \<Rightarrow> nat \<Rightarrow> 'v eg \<Rightarrow> 'v hashtable \<Rightarrow> nat \<times> 'v eg \<times> 'v hashtable" where
  "dup_compact unref static_keys with_holes source idx target_idx g target =
     (if idx < nNumUsed source then
        (case zend_array_dup_element unref static_keys with_holes target_idx (arData source ! idx) g target of
           Some (g, target) \<Rightarrow>
             dup_compact unref static_keys with_holes source (idx + 1) (target_idx + 1) g
               (if nInternalPointer source = idx then target\<lparr>nInternalPointer := target_idx\<rparr> else target)
         | None \<Rightarrow> dup_compact unref static_keys with_holes source (idx + 1) target_idx g target)
      else (target_idx, g, target))"
  by pat_completeness auto
termination
  by (relation "measure (\<lambda>(unref, static_keys, with_holes, source, idx, target_idx, g, target). nNumUsed source - idx)") auto

function dup_compact_iter ::
  "('v zval \<Rightarrow> 'v zval) \<Rightarrow> bool \<Rightarrow> bool \<Rightarrow> 'v hashtable \<Rightarrow> nat \<Rightarrow> nat \<Rightarrow> nat \<Rightarrow> 'v eg \<Rightarrow> 'v hashtable \<Rightarrow> (nat \<times> 'v eg \<times> 'v hashtable) option" where
  "dup_compact_iter unref static_keys with_holes source idx target_idx iter_pos g target =
     (if idx < nNumUsed source then
        (case zend_array_dup_element unref static_keys with_holes target_idx (arData source ! idx) g target of
           Some (g, target) \<Rightarrow>
             (let target = (if nInternalPointer source = idx then target\<lparr>nInternalPointer := target_idx\<rparr> else target)
              in if idx \<ge> iter_pos then
                   (case migrate_iterators target idx target_idx iter_pos g of
                      None \<Rightarrow> None
                    | Some (g, iter_pos) \<Rightarrow>
                        dup_compact_iter unref static_keys with_holes source (idx + 1) (target_idx + 1) iter_pos g target)
                 else dup_compact_iter unref static_keys with_holes source (idx + 1) (target_idx + 1) iter_pos g target)
         | None \<Rightarrow> dup_compact_iter unref static_keys with_holes source (idx + 1) target_idx iter_pos g target)
      else Some (target_idx, g, target))"
  by pat_completeness auto
termination
  by (relation "measure (\<lambda>(unref, static_keys, with_holes, source, idx, target_idx, ip, g, target). nNumUsed source - idx)") auto

function dup_scan ::
  "('v zval \<Rightarrow> 'v zval) \<Rightarrow> bool \<Rightarrow> bool \<Rightarrow> 'v hashtable \<Rightarrow> nat \<Rightarrow> 'v eg \<Rightarrow> 'v hashtable \<Rightarrow> (nat \<times> 'v eg \<times> 'v hashtable) option" where
  "dup_scan unref static_keys with_holes source idx g target =
     (if idx < nNumUsed source then
        (case zend_array_dup_element unref static_keys with_holes idx (arData source ! idx) g target of
           Some (g, target) \<Rightarrow> dup_scan unref static_keys with_holes source (idx + 1) g target
         | None \<Rightarrow>
             (if \<not> HT_HAS_ITERATORS target
              then Some (dup_compact unref static_keys with_holes source (idx + 1) idx g target)
              else (let target = target\<lparr>nNumUsed := nNumUsed source\<rparr>
                    in dup_compact_iter unref static_keys with_holes source (idx + 1) idx
                         (zend_hash_iterators_lower_pos g target (idx + 1)) g target)))
      else Some (idx, g, target))"
  by pat_completeness auto
termination
  by (relation "measure (\<lambda>(unref, static_keys, with_holes, source, idx, g, target). nNumUsed source - idx)") auto

declare dup_compact.simps [simp del] dup_compact_iter.simps [simp del] dup_scan.simps [simp del]

definition zend_array_dup_elements ::
  "('v zval \<Rightarrow> 'v zval) \<Rightarrow> 'v hashtable \<Rightarrow> bool \<Rightarrow> bool \<Rightarrow> 'v eg \<Rightarrow> 'v hashtable \<Rightarrow> (nat \<times> 'v eg \<times> 'v hashtable) option" where
  "zend_array_dup_elements unref source static_keys with_holes g target =
     (let (g, target) = (if HT_HAS_ITERATORS source then zend_array_dup_ht_iterators source (g, target) else (g, target))
      in dup_scan unref static_keys with_holes source 0 g target)"

text \<open>
  \<open>i\<close> is the identity of the new table; \<open>immutable\<close> says whether the source is an immutable array,
  whose memory is copied as it is.
\<close>

definition zend_array_dup ::
  "('v zval \<Rightarrow> 'v zval) \<Rightarrow> bool \<Rightarrow> nat \<Rightarrow> 'v eg \<Rightarrow> 'v hashtable \<Rightarrow> ('v eg \<times> 'v hashtable) option" where
  "zend_array_dup unref immutable i g source =
     (let target = source\<lparr>ht_id := i, gc_persistent := False, nIteratorsCount := 0, pDestructor := True\<rparr>
      in if nNumOfElements source = 0 then
        Some (g, target\<lparr>f_packed := False, f_uninitialized := True, f_static_keys := False, f_has_empty_ind := False,
           nTableMask := HT_MIN_MASK, nNumUsed := 0, nNumOfElements := 0, nInternalPointer := 0, nTableSize := HT_MIN_SIZE,
           arHash := replicate 2 HT_INVALID_IDX, arData := [], arPacked := []\<rparr>)
      else if immutable then
        Some (g, if f_packed source
          then target\<lparr>arPacked := take (nNumUsed source) (arPacked source) @ replicate (nTableSize source - nNumUsed source) UNINIT\<rparr>
          else target\<lparr>arData := take (nNumUsed source) (arData source) @ replicate (nTableSize source - nNumUsed source) fresh_bucket\<rparr>)
      else if f_packed source then
        (let target = target\<lparr>nTableMask := HT_MIN_MASK, arPacked := replicate (nTableSize source) UNINIT,
               nInternalPointer := (if nInternalPointer source < nNumUsed source then nInternalPointer source else 0),
               arHash := replicate 2 HT_INVALID_IDX\<rparr>
         in Some (zend_array_dup_packed_elements unref source (\<not> HT_IS_WITHOUT_HOLES target) g target))
      else
        (let target = HT_HASH_RESET (target\<lparr>nNumUsed := 0, nNumOfElements := 0, arData := replicate (nTableSize source) fresh_bucket,
               nInternalPointer := (if nInternalPointer source < nNumUsed source then nInternalPointer source else 0)\<rparr>)
         in do {
           (idx, g, target) \<leftarrow> zend_array_dup_elements unref source (HT_HAS_STATIC_KEYS_ONLY target)
                                 (\<not> HT_IS_WITHOUT_HOLES source) g target;
           Some (g, target\<lparr>nNumUsed := idx, nNumOfElements := idx\<rparr>) }))"

subsection \<open>What duplication keeps\<close>

definition dup_spec :: "('v zval \<Rightarrow> 'v zval) \<Rightarrow> 'v eg \<Rightarrow> 'v zval \<Rightarrow> 'v zval option" where
  "dup_spec unref g v = (case v of
     IS_INDIRECT a \<Rightarrow> if is_undef (ind_slots g a) then None else Some (unref (ind_slots g a))
   | _ \<Rightarrow> if is_undef v then None else Some (unref v))"

lemma dup_value_mixed:
  "with_holes \<or> \<not> is_undef v \<Longrightarrow> zend_array_dup_value unref g v False with_holes = dup_spec unref g v"
  by (auto simp: zend_array_dup_value_def dup_spec_def Let_def split: zval.splits)

definition dup_payload :: "('v zval \<Rightarrow> 'v zval) \<Rightarrow> 'v eg \<Rightarrow> 'v bucket \<Rightarrow> ('v zval \<times> u64 \<times> zstr option) option" where
  "dup_payload unref g b = map_option (\<lambda>v. (v, bh b, bkey b)) (dup_spec unref g (bval b))"

definition unref_ok :: "('v zval \<Rightarrow> 'v zval) \<Rightarrow> 'v eg \<Rightarrow> bool" where
  "unref_ok unref g \<longleftrightarrow> (\<forall>v. proper v \<longrightarrow> proper (unref v)) \<and> (\<forall>a. ind_slots g a \<noteq> UNINIT)"

lemma dup_spec_proper: "unref_ok unref g \<Longrightarrow> v \<noteq> UNINIT \<Longrightarrow> dup_spec unref g v = Some w \<Longrightarrow> proper w"
  by (auto simp: dup_spec_def unref_ok_def proper_def split: zval.splits if_splits)

lemma dup_spec_cong: "ind_slots g' = ind_slots g \<Longrightarrow> dup_spec unref g' = dup_spec unref g"
  by (auto simp: dup_spec_def fun_eq_iff split: zval.split)

lemma dup_payload_cong: "ind_slots g' = ind_slots g \<Longrightarrow> dup_payload unref g' = dup_payload unref g"
  using dup_spec_cong by (metis dup_payload_def ext)

text \<open>The target while it is being filled: its first \<open>n\<close> buckets carry the payloads \<open>ps\<close> and are linked.\<close>

definition filled :: "'v hashtable \<Rightarrow> nat \<Rightarrow> ('v zval \<times> u64 \<times> zstr option) list \<Rightarrow> 'v hashtable \<Rightarrow> bool" where
  "filled t0 n ps t \<longleftrightarrow> n \<le> length (arData t) \<and>
     linked (nTableMask t) (arHash t) (arData t) n \<and> map payload (take n (arData t)) = ps \<and>
     (\<exists>hs bs c u ip. t = t0\<lparr>arHash := hs, arData := bs, nIteratorsCount := c, nNumUsed := u, nInternalPointer := ip\<rparr> \<and>
       length hs = length (arHash t0) \<and> length bs = length (arData t0))"

lemma filled_frame:
  assumes "filled t0 n ps t"
  shows "nTableMask t = nTableMask t0" "length (arHash t) = length (arHash t0)" "length (arData t) = length (arData t0)"
    "length ps = n"
proof -
  have "n \<le> length (arData t)" "map payload (take n (arData t)) = ps" using assms by (auto simp: filled_def)
  then show "length ps = n" by auto
qed (use assms in \<open>auto simp: filled_def\<close>)

lemma filledI:
  "n \<le> length bs \<Longrightarrow> linked (nTableMask t0) hs bs n \<Longrightarrow> map payload (take n bs) = ps \<Longrightarrow> length hs = length (arHash t0) \<Longrightarrow>
   length bs = length (arData t0) \<Longrightarrow>
   filled t0 n ps (t0\<lparr>arHash := hs, arData := bs, nIteratorsCount := c, nNumUsed := u, nInternalPointer := ip\<rparr>)"
  unfolding filled_def
  by (intro conjI exI [of _ hs] exI [of _ bs] exI [of _ c] exI [of _ u] exI [of _ ip]) simp_all

lemma filled_bookkeeping:
  assumes "filled t0 n ps t"
  shows "filled t0 n ps (t\<lparr>nInternalPointer := ip\<rparr>)" "filled t0 n ps (t\<lparr>nNumUsed := u\<rparr>)" "filled t0 n ps (t\<lparr>nIteratorsCount := c\<rparr>)"
proof -
  obtain hs bs c' u' ip' where t: "t = t0\<lparr>arHash := hs, arData := bs, nIteratorsCount := c', nNumUsed := u', nInternalPointer := ip'\<rparr>"
    and len: "length hs = length (arHash t0)" "length bs = length (arData t0)"
    using assms by (auto simp: filled_def)
  have *: "n \<le> length bs" "linked (nTableMask t0) hs bs n" "map payload (take n bs) = ps"
    using assms by (auto simp: filled_def t)
  have ex: "filled t0 n ps (t0\<lparr>arHash := hs, arData := bs, nIteratorsCount := c, nNumUsed := u, nInternalPointer := ip\<rparr>)" for c u ip
    using * len by (intro filledI) simp_all
  show "filled t0 n ps (t\<lparr>nInternalPointer := ip\<rparr>)" using ex [where c = c' and u = u' and ip = ip] by (simp add: t)
  show "filled t0 n ps (t\<lparr>nNumUsed := u\<rparr>)"
  proof -
    have "t\<lparr>nNumUsed := u\<rparr> = t0\<lparr>arHash := hs, arData := bs, nIteratorsCount := c', nNumUsed := u, nInternalPointer := ip'\<rparr>"
      by (rule hashtable.equality) (simp_all add: t)
    then show ?thesis using ex by simp
  qed
  show "filled t0 n ps (t\<lparr>nIteratorsCount := c\<rparr>)" 
  proof -
    have "t\<lparr>nIteratorsCount := c\<rparr> = t0\<lparr>arHash := hs, arData := bs, nIteratorsCount := c, nNumUsed := u', nInternalPointer := ip'\<rparr>"
      by (rule hashtable.equality) (simp_all add: t)
    then show ?thesis using ex by simp
  qed
qed

lemma linked_append:
  assumes "linked m hs bs n" "n < length bs" "live b" "bslot m b < length hs" "bnext b = hs ! bslot m b"
  shows "linked m (hs[bslot m b := n]) (bs[n := b]) (Suc n)"
proof -
  have l: "linked m hs (bs[n := b]) n" using assms(1) by (rule linked_cong) simp
  have "linked m (hs[bslot m (bs[n := b] ! n) := n]) ((bs[n := b])[n := b]) (Suc n)"
    by (rule linked_link [OF l]) (use assms in \<open>simp_all add: bslot_def\<close>)
  then show ?thesis using assms(2) by simp
qed

lemma dup_element_filled:
  fixes p :: "'v bucket"
  assumes "filled t0 n ps t" "n < length (arData t0)" "bval p \<noteq> UNINIT" "unref_ok unref g" "with_holes \<or> live p"
    and slots: "\<And>b :: 'v bucket. bslot (nTableMask t0) b < length (arHash t0)"
  shows "case dup_payload unref g p of
      None \<Rightarrow> zend_array_dup_element unref static_keys with_holes n p g t = None
    | Some q \<Rightarrow> (\<exists>g' t'. zend_array_dup_element unref static_keys with_holes n p g t = Some (g', t') \<and>
        filled t0 (Suc n) (ps @ [q]) t' \<and> ind_slots g' = ind_slots g \<and> dtor_log g' = dtor_log g \<and>
        ht_iterators g' = ht_iterators g \<and> nNumUsed t' = nNumUsed t \<and> nIteratorsCount t' = nIteratorsCount t)"
proof (cases "dup_spec unref g (bval p)")
  case None
  then show ?thesis
    using assms(5) by (simp add: dup_payload_def zend_array_dup_element_def dup_value_mixed live_def)
next
  case (Some v)
  obtain hs bs c u ip where t: "t = t0\<lparr>arHash := hs, arData := bs, nIteratorsCount := c, nNumUsed := u, nInternalPointer := ip\<rparr>"
    and len: "length hs = length (arHash t0)" "length bs = length (arData t0)"
    using assms(1) by (auto simp: filled_def)
  have f: "linked (nTableMask t0) hs bs n" "map payload (take n bs) = ps" using assms(1) by (auto simp: filled_def t)
  let ?s = "slot_of (nTableMask t0) (ucast (bh p) OR nTableMask t0)"
  let ?b = "\<lparr>bval = v, bh = bh p, bkey = bkey p, bnext = hs ! ?s\<rparr>"
  have bs: "bslot (nTableMask t0) ?b = ?s" by (simp add: bslot_def)
  have pv: "proper v" using dup_spec_proper [OF assms(4,3) Some] .
  define g' where "g' = (case bkey p of Some k \<Rightarrow> if \<not> static_keys then zend_string_addref k g else g | None \<Rightarrow> g)"
  have g': "ind_slots g' = ind_slots g" "dtor_log g' = dtor_log g" "ht_iterators g' = ht_iterators g"
    by (auto simp: g'_def split: option.split)
  let ?t' = "t0\<lparr>arHash := hs[?s := n], arData := bs[n := ?b], nIteratorsCount := c, nNumUsed := u, nInternalPointer := ip\<rparr>"
  have run: "zend_array_dup_element unref static_keys with_holes n p g t = Some (g', ?t')"
    using assms(5) Some
    by (simp add: zend_array_dup_element_def dup_value_mixed live_def g'_def t set_HT_HASH_def HT_HASH_def nIndex_def Let_def)
  have "linked (nTableMask t0) (hs[bslot (nTableMask t0) ?b := n]) (bs[n := ?b]) (Suc n)"
    using f(1) assms(2) len slots [of ?b] proper_live [of ?b] pv by (intro linked_append) (simp_all add: bs)
  then have l: "linked (nTableMask t0) (hs[?s := n]) (bs[n := ?b]) (Suc n)" by (simp only: bs)
  have "map payload (take (Suc n) (bs[n := ?b])) = ps @ [(v, bh p, bkey p)]"
    using f(2) assms(2) len by (simp add: take_Suc_conv_app_nth payload_def)
  then have "filled t0 (Suc n) (ps @ [(v, bh p, bkey p)]) ?t'"
    using assms(2) len l by (intro filledI) simp_all
  then show ?thesis using Some run g' by (simp add: dup_payload_def t)
qed

lemma map_filter_take_Suc:
  "n < length xs \<Longrightarrow> List.map_filter f (take (Suc n) xs) =
     List.map_filter f (take n xs) @ (case f (xs ! n) of None \<Rightarrow> [] | Some y \<Rightarrow> [y])"
  by (simp add: take_Suc_conv_app_nth List.map_filter_def split: option.split)

definition dup_loop_ok ::
  "('v zval \<Rightarrow> 'v zval) \<Rightarrow> 'v eg \<Rightarrow> 'v hashtable \<Rightarrow> 'v hashtable \<Rightarrow> nat \<times> 'v eg \<times> 'v hashtable \<Rightarrow> bool" where
  "dup_loop_ok unref g t0 source = (\<lambda>(k, g', t).
     filled t0 k (List.map_filter (dup_payload unref g) (take (nNumUsed source) (arData source))) t \<and>
     ind_slots g' = ind_slots g \<and> dtor_log g' = dtor_log g)"

text \<open>What the loops need: enough room, initialised source buckets, no undefined ones unless holes are expected.\<close>

definition dup_ready :: "('v zval \<Rightarrow> 'v zval) \<Rightarrow> bool \<Rightarrow> 'v eg \<Rightarrow> 'v hashtable \<Rightarrow> 'v hashtable \<Rightarrow> bool" where
  "dup_ready unref with_holes g t0 source \<longleftrightarrow> unref_ok unref g \<and> nNumUsed source \<le> length (arData source) \<and>
     nNumUsed source \<le> length (arData t0) \<and>
     (\<forall>i < nNumUsed source. bval (arData source ! i) \<noteq> UNINIT \<and> (with_holes \<or> live (arData source ! i))) \<and>
     (\<forall>b :: 'v bucket. bslot (nTableMask t0) b < length (arHash t0))"

lemma dup_step:
  assumes "dup_ready unref with_holes g0 t0 source" "idx < nNumUsed source"
    and "filled t0 k (List.map_filter (dup_payload unref g0) (take idx (arData source))) t"
    and "ind_slots g = ind_slots g0"
  shows "k \<le> idx" and "case dup_payload unref g0 (arData source ! idx) of
      None \<Rightarrow> zend_array_dup_element unref static_keys with_holes k (arData source ! idx) g t = None \<and>
        filled t0 k (List.map_filter (dup_payload unref g0) (take (Suc idx) (arData source))) t
    | Some q \<Rightarrow> (\<exists>g' t'. zend_array_dup_element unref static_keys with_holes k (arData source ! idx) g t = Some (g', t') \<and>
        filled t0 (Suc k) (List.map_filter (dup_payload unref g0) (take (Suc idx) (arData source))) t' \<and>
        ind_slots g' = ind_slots g0 \<and> dtor_log g' = dtor_log g \<and> nNumUsed t' = nNumUsed t \<and> nIteratorsCount t' = nIteratorsCount t)"
proof -
  note R = assms(1) [unfolded dup_ready_def]
  have "length (List.map_filter (dup_payload unref g0) (take idx (arData source))) \<le> length (take idx (arData source))"
    by (simp add: List.map_filter_def del: length_take)
  then show le: "k \<le> idx" using filled_frame(4) [OF assms(3)] by simp
  have uo: "unref_ok unref g" using R assms(4) by (simp add: unref_ok_def)
  have dp: "dup_payload unref g = dup_payload unref g0" by (rule dup_payload_cong [OF assms(4)])
  have idx: "idx < length (arData source)" "k < length (arData t0)" using R assms(2) le by auto
  note E = dup_element_filled [OF assms(3) idx(2) _ uo, of "arData source ! idx" with_holes static_keys, unfolded dp]
  show "case dup_payload unref g0 (arData source ! idx) of
      None \<Rightarrow> zend_array_dup_element unref static_keys with_holes k (arData source ! idx) g t = None \<and>
        filled t0 k (List.map_filter (dup_payload unref g0) (take (Suc idx) (arData source))) t
    | Some q \<Rightarrow> (\<exists>g' t'. zend_array_dup_element unref static_keys with_holes k (arData source ! idx) g t = Some (g', t') \<and>
        filled t0 (Suc k) (List.map_filter (dup_payload unref g0) (take (Suc idx) (arData source))) t' \<and>
        ind_slots g' = ind_slots g0 \<and> dtor_log g' = dtor_log g \<and> nNumUsed t' = nNumUsed t \<and> nIteratorsCount t' = nIteratorsCount t)"
  proof (cases "dup_payload unref g0 (arData source ! idx)")
    case None
    then show ?thesis using E R assms(2,3) map_filter_take_Suc [OF idx(1), of "dup_payload unref g0"] by simp
  next
    case (Some q)
    then obtain g' t' where X: "zend_array_dup_element unref static_keys with_holes k (arData source ! idx) g t = Some (g', t')"
      "filled t0 (Suc k) (List.map_filter (dup_payload unref g0) (take idx (arData source)) @ [q]) t'" "ind_slots g' = ind_slots g"
      "dtor_log g' = dtor_log g" "nNumUsed t' = nNumUsed t" "nIteratorsCount t' = nIteratorsCount t"
      using E R assms(2) by auto
    moreover have "List.map_filter (dup_payload unref g0) (take (Suc idx) (arData source)) =
        List.map_filter (dup_payload unref g0) (take idx (arData source)) @ [q]"
      using map_filter_take_Suc [OF idx(1), of "dup_payload unref g0"] Some by simp
    ultimately show ?thesis using Some assms(4) by simp
  qed
qed

lemma dup_compact_ok:
  fixes source :: "'v hashtable"
  assumes R: "dup_ready unref with_holes g0 t0 source"
  shows "filled t0 k (List.map_filter (dup_payload unref g0) (take idx (arData source))) t \<Longrightarrow> ind_slots g = ind_slots g0 \<Longrightarrow>
     dtor_log g = dtor_log g0 \<Longrightarrow> idx \<le> nNumUsed source \<Longrightarrow>
     dup_loop_ok unref g0 t0 source (dup_compact unref static_keys with_holes source idx k g t)"
proof (induction "nNumUsed source - idx" arbitrary: idx k g t)
  case 0
  then show ?case by (simp add: dup_compact.simps dup_loop_ok_def)
next
  case (Suc m)
  then have idx: "idx < nNumUsed source" by simp
  note S = dup_step(2) [OF R idx Suc.prems(1,2), of static_keys]
  have m: "m = nNumUsed source - Suc idx" "Suc idx \<le> nNumUsed source" using Suc.hyps(2) by simp_all
  show ?case
  proof (cases "dup_payload unref g0 (arData source ! idx)")
    case None
    then show ?thesis using S idx Suc.hyps(1) [OF m(1)] Suc.prems(2,3) m(2)
      by (simp add: dup_compact.simps [of unref static_keys with_holes source idx])
  next
    case (Some q)
    then obtain g' t' where X: "zend_array_dup_element unref static_keys with_holes k (arData source ! idx) g t = Some (g', t')"
      "filled t0 (Suc k) (List.map_filter (dup_payload unref g0) (take (Suc idx) (arData source))) t'"
      "ind_slots g' = ind_slots g0" "dtor_log g' = dtor_log g" using S by auto
    have "filled t0 (Suc k) (List.map_filter (dup_payload unref g0) (take (Suc idx) (arData source)))
        (if nInternalPointer source = idx then t'\<lparr>nInternalPointer := k\<rparr> else t')"
      using X(2) filled_bookkeeping(1) by auto
    from Suc.hyps(1) [OF m(1) this X(3)] show ?thesis using X Suc.prems(3) m(2) idx
      by (simp add: dup_compact.simps [of unref static_keys with_holes source idx])
  qed
qed

lemma dup_compact_iter_ok:
  fixes source :: "'v hashtable"
  assumes R: "dup_ready unref with_holes g0 t0 source"
  shows "filled t0 k (List.map_filter (dup_payload unref g0) (take idx (arData source))) t \<Longrightarrow> ind_slots g = ind_slots g0 \<Longrightarrow>
     dtor_log g = dtor_log g0 \<Longrightarrow> idx \<le> nNumUsed source \<Longrightarrow> nNumUsed t = nNumUsed source \<Longrightarrow>
     \<exists>r. dup_compact_iter unref static_keys with_holes source idx k p g t = Some r \<and> dup_loop_ok unref g0 t0 source r"
proof (induction "nNumUsed source - idx" arbitrary: idx k p g t)
  case 0
  then show ?case by (simp add: dup_compact_iter.simps dup_loop_ok_def)
next
  case (Suc m)
  then have idx: "idx < nNumUsed source" by simp
  note S = dup_step(2) [OF R idx Suc.prems(1,2), of static_keys]
  have m: "m = nNumUsed source - Suc idx" "Suc idx \<le> nNumUsed source" using Suc.hyps(2) by simp_all
  show ?case
  proof (cases "dup_payload unref g0 (arData source ! idx)")
    case None
    then show ?thesis using S idx Suc.hyps(1) [OF m(1)] Suc.prems(2,3,5) m(2)
      by (simp add: dup_compact_iter.simps [of unref static_keys with_holes source idx])
  next
    case (Some q)
    then obtain g' t' where X: "zend_array_dup_element unref static_keys with_holes k (arData source ! idx) g t = Some (g', t')"
      "filled t0 (Suc k) (List.map_filter (dup_payload unref g0) (take (Suc idx) (arData source))) t'"
      "ind_slots g' = ind_slots g0" "dtor_log g' = dtor_log g" "nNumUsed t' = nNumUsed t" using S by auto
    define t'' where "t'' = (if nInternalPointer source = idx then t'\<lparr>nInternalPointer := k\<rparr> else t')"
    have F: "filled t0 (Suc k) (List.map_filter (dup_payload unref g0) (take (Suc idx) (arData source))) t''"
      and nn: "nNumUsed t'' = nNumUsed source"
      using X(2,5) Suc.prems(5) filled_bookkeeping(1) by (auto simp: t''_def)
    note IH = Suc.hyps(1) [OF m(1) F _ _ m(2) nn]
    obtain g2 p2 where M: "migrate_iterators t'' idx k p g' = Some (g2, p2)"
      using migrate_iterators_returns [of idx t'' k p g'] idx nn by auto
    have g2: "ind_slots g2 = ind_slots g0" "dtor_log g2 = dtor_log g0"
      using only_iteratorsD [OF only_iterators_migrate [OF M]] X(3,4) Suc.prems(3) by simp_all
    show ?thesis using X IH [of g' p] IH [OF g2, of p2] M idx Suc.prems(3)
      by (simp add: dup_compact_iter.simps [of unref static_keys with_holes source idx] Let_def flip: t''_def)
  qed
qed

lemma dup_scan_ok:
  fixes source :: "'v hashtable"
  assumes R: "dup_ready unref with_holes g0 t0 source"
  shows "filled t0 idx (List.map_filter (dup_payload unref g0) (take idx (arData source))) t \<Longrightarrow> ind_slots g = ind_slots g0 \<Longrightarrow>
     dtor_log g = dtor_log g0 \<Longrightarrow> idx \<le> nNumUsed source \<Longrightarrow>
     \<exists>r. dup_scan unref static_keys with_holes source idx g t = Some r \<and> dup_loop_ok unref g0 t0 source r"
proof (induction "nNumUsed source - idx" arbitrary: idx g t)
  case 0
  then show ?case by (simp add: dup_scan.simps dup_loop_ok_def)
next
  case (Suc m)
  then have idx: "idx < nNumUsed source" by simp
  note S = dup_step(2) [OF R idx Suc.prems(1,2), of static_keys]
  have m: "m = nNumUsed source - Suc idx" "Suc idx \<le> nNumUsed source" using Suc.hyps(2) by simp_all
  show ?case
  proof (cases "dup_payload unref g0 (arData source ! idx)")
    case None
    then have X: "zend_array_dup_element unref static_keys with_holes idx (arData source ! idx) g t = None"
      "filled t0 idx (List.map_filter (dup_payload unref g0) (take (Suc idx) (arData source))) t" using S by simp_all
    show ?thesis using X idx m(2) Suc.prems(2,3)
        dup_compact_ok [OF R X(2) Suc.prems(2,3) m(2), of static_keys]
        dup_compact_iter_ok [OF R filled_bookkeeping(2) [OF X(2), of "nNumUsed source"] Suc.prems(2,3) m(2), of static_keys]
      by (simp add: dup_scan.simps [of unref static_keys with_holes source idx] Let_def del: split_paired_Ex)
  next
    case (Some q)
    then obtain g' t' where X: "zend_array_dup_element unref static_keys with_holes idx (arData source ! idx) g t = Some (g', t')"
      "filled t0 (Suc idx) (List.map_filter (dup_payload unref g0) (take (Suc idx) (arData source))) t'"
      "ind_slots g' = ind_slots g0" "dtor_log g' = dtor_log g" using S by auto
    from Suc.hyps(1) [OF m(1) X(2,3) _ m(2)] show ?thesis using X Suc.prems(3) idx
      by (simp add: dup_scan.simps [of unref static_keys with_holes source idx])
  qed
qed

subsection \<open>Registering iterators touches the iterator table only\<close>

definition same_but_count :: "'v hashtable \<Rightarrow> 'v hashtable \<Rightarrow> bool" where
  "same_but_count t t' \<longleftrightarrow> (\<exists>c. t' = t\<lparr>nIteratorsCount := c\<rparr>)"

lemma same_but_count_refl [simp]: "same_but_count t t"
  unfolding same_but_count_def by (rule exI [of _ "nIteratorsCount t"]) simp

lemma same_but_count_trans: "same_but_count a b \<Longrightarrow> same_but_count b c \<Longrightarrow> same_but_count a c"
  unfolding same_but_count_def by force

lemma iterator_add_frame:
  assumes "zend_hash_iterator_add g t pos = (g', t', k)"
  shows "ind_slots g' = ind_slots g" "dtor_log g' = dtor_log g" "same_but_count t t'"
  using assms
  by (auto simp: zend_hash_iterator_add_def Let_def HT_INC_ITERATORS_COUNT_def same_but_count_def
      split: option.splits if_splits intro: exI [of _ "nIteratorsCount t"])

lemma dup_iterators_frame:
  assumes "zend_array_dup_ht_iterators source (g, t) = (g', t')"
  shows "ind_slots g' = ind_slots g \<and> dtor_log g' = dtor_log g \<and> same_but_count t t'"
proof -
  have "ind_slots (fst r) = ind_slots g \<and> dtor_log (fst r) = dtor_log g \<and> same_but_count t (snd r)"
    if "r = fold (dup_iterator source) is (g, t)" for r "is"
    using that
  proof (induction "is" arbitrary: g t r)
    case (Cons i is')
    obtain g1 t1 where 1: "dup_iterator source i (g, t) = (g1, t1)" by (cases "dup_iterator source i (g, t)")
    then have "ind_slots g1 = ind_slots g" "dtor_log g1 = dtor_log g" "same_but_count t t1"
      using iterator_add_frame [of g t] by (fastforce simp: dup_iterator_def Let_def split: if_splits prod.splits)+
    then show ?case using Cons.IH [of r g1 t1] Cons.prems 1 same_but_count_trans by auto
  qed simp
  from this [OF refl, of "[0..<ht_iterators_used g]"] show ?thesis
    using assms by (simp add: zend_array_dup_ht_iterators_def)
qed

subsection \<open>The duplicate has the elements of the source\<close>

definition dup_content ::
  "('v zval \<Rightarrow> 'v zval) \<Rightarrow> 'v eg \<Rightarrow> 'v hashtable \<Rightarrow> (hkey \<times> 'v zval) list" where
  "dup_content unref g ht = List.map_filter
     (\<lambda>(k, v). map_option (Pair k) (if f_packed ht then Some (unref v) else dup_spec unref g v)) (elems ht)"

lemma map_filter_payload:
  "map payload_elem (List.map_filter (dup_payload unref g) bs) =
   List.map_filter (\<lambda>(k, v). map_option (Pair k) (dup_spec unref g v)) (map bucket_elem (filter live bs))"
proof (induction bs)
  case (Cons b bs)
  show ?case
  proof (cases "live b")
    case True
    then show ?thesis using Cons
      by (cases "dup_spec unref g (bval b)")
        (simp_all add: List.map_filter_simps dup_payload_def bucket_elem_payload payload_elem_def payload_def split: option.split)
  next
    case False
    then have "dup_payload unref g b = None" by (simp add: dup_payload_def dup_spec_def live_def)
    then show ?thesis using Cons False by (simp add: List.map_filter_simps)
  qed
qed (simp add: List.map_filter_simps)

lemma map_filter_keys:
  "set (map fst (List.map_filter (\<lambda>(k, v). map_option (Pair k) (f v)) xs)) \<subseteq> set (map fst xs)"
  by (force simp: List.map_filter_def)

lemma map_filter_keys_distinct:
  "distinct (map fst xs) \<Longrightarrow> distinct (map fst (List.map_filter (\<lambda>(k, v). map_option (Pair k) (f v)) xs))"
proof (induction xs)
  case (Cons x xs)
  then show ?case using map_filter_keys [of f xs]
    by (cases x; cases "f (snd x)") (auto simp: List.map_filter_simps)
qed (simp add: List.map_filter_simps)

lemma packed_elems_map:
  assumes "\<And>i. i < n \<Longrightarrow> zs ! i = IS_UNDEF \<Longrightarrow> zs' ! i = IS_UNDEF"
    and "\<And>i. i < n \<Longrightarrow> zs ! i \<noteq> IS_UNDEF \<Longrightarrow> zs' ! i = f (zs ! i) \<and> f (zs ! i) \<noteq> IS_UNDEF"
  shows "packed_elems zs' n = map (\<lambda>(k, v). (k, f v)) (packed_elems zs n)"
  using assms
proof (induction n)
  case (Suc n)
  then have "packed_elems zs' n = map (\<lambda>(k, v). (k, f v)) (packed_elems zs n)" by simp
  then show ?case using Suc.prems(1,2) [of n] by (simp add: packed_elems_Suc)
qed (simp add: packed_elems_def)

lemma dup_empty_correct:
  assumes "nNumOfElements source = 0"
  shows "\<exists>t. zend_array_dup unref immutable i g source = Some (g, t) \<and> wf_ht t \<and> ht_id t = i \<and> elems t = [] \<and>
     nNextFreeElement t = nNextFreeElement source"
  using assms
  by (simp add: zend_array_dup_def wf_ht_def sizes_ok_def next_free_ok_def elems_def live_buckets_def wf_uninit_def no_data_def
      HT_MIN_SIZE_def bexI [of _ 3])

lemma dup_immutable_correct:
  assumes "wf_ht source" "nNumOfElements source \<noteq> 0"
  shows "\<exists>t. zend_array_dup unref True i g source = Some (g, t) \<and> wf_ht t \<and> ht_id t = i \<and> elems t = elems source \<and>
     nNextFreeElement t = nNextFreeElement source"
proof -
  note W = assms(1) [unfolded wf_ht_def]
  have u: "\<not> f_uninitialized source" using W assms(2) by (auto simp: wf_uninit_def)
  have n: "nNumUsed source \<le> nTableSize source" using W by (simp add: sizes_ok_def)
  show ?thesis
  proof (cases "f_packed source")
    case True
    define t where "t = source\<lparr>ht_id := i, gc_persistent := False, nIteratorsCount := 0, pDestructor := True,
      arPacked := take (nNumUsed source) (arPacked source) @ replicate (nTableSize source - nNumUsed source) UNINIT\<rparr>"
    have P: "wf_packed source" using W u True by simp
    then have len: "length (arPacked source) = nTableSize source" by (simp add: wf_packed_def)
    have e: "elems t = elems source" using True len n
      by (auto simp: t_def elems_def nth_append intro!: packed_elems_cong)
    have "wf_packed t" using P len n by (simp add: wf_packed_def no_data_def t_def)
    moreover have "next_free_ok t" by (rule next_free_ok_keys [OF wf_htD(2) [OF assms(1)]]) (simp_all add: e, simp add: t_def)
    moreover have "sizes_ok t" using wf_htD(1) [OF assms(1)] by (simp add: sizes_ok_def t_def)
    moreover have "f_packed t" "\<not> f_uninitialized t" using u True by (simp_all add: t_def)
    ultimately have "wf_ht t" by (simp add: wf_ht_def)
    moreover have "zend_array_dup unref True i g source = Some (g, t)" using assms(2) True by (simp add: zend_array_dup_def t_def)
    ultimately show ?thesis using e by (simp add: t_def)
  next
    case False
    define t where "t = source\<lparr>ht_id := i, gc_persistent := False, nIteratorsCount := 0, pDestructor := True,
      arData := take (nNumUsed source) (arData source) @ replicate (nTableSize source - nNumUsed source) fresh_bucket\<rparr>"
    have M: "wf_mixed source" using W u False by simp
    then have len: "length (arData source) = nTableSize source" by (simp add: wf_mixed_def mixed_shape_def)
    have tk: "take (nNumUsed source) (arData t) = take (nNumUsed source) (arData source)" using len n by (simp add: t_def)
    have nu: "nNumUsed t = nNumUsed source" by (simp add: t_def)
    have lb: "live_buckets t = live_buckets source" by (simp add: live_buckets_def nu tk)
    have e: "elems t = elems source" using False by (simp add: elems_def lb, simp add: t_def)
    have "linked (nTableMask source) (arHash source) (arData t) (nNumUsed source)"
      by (rule linked_cong [of _ _ "arData source"]) (use M len n in \<open>simp_all add: wf_mixed_def nth_append t_def\<close>)
    moreover have "nTableMask t = nTableMask source" "arHash t = arHash source" "nNumUsed t = nNumUsed source"
      "nTableSize t = nTableSize source" "arPacked t = arPacked source" "nNumOfElements t = nNumOfElements source"
      "f_static_keys t = f_static_keys source" "f_packed t = f_packed source" by (simp_all add: t_def)
    moreover have "length (arData t) = nTableSize t" using n len by (simp add: t_def)
    ultimately have "wf_mixed t" using M lb tk by (simp add: wf_mixed_def mixed_shape_def)
    moreover have "next_free_ok t" by (rule next_free_ok_keys [OF wf_htD(2) [OF assms(1)]]) (simp_all add: e, simp add: t_def)
    moreover have "sizes_ok t" using wf_htD(1) [OF assms(1)] by (simp add: sizes_ok_def t_def)
    moreover have "\<not> f_packed t" "\<not> f_uninitialized t" using u False by (simp_all add: t_def)
    ultimately have "wf_ht t" by (simp add: wf_ht_def)
    moreover have "zend_array_dup unref True i g source = Some (g, t)" using assms(2) False by (simp add: zend_array_dup_def t_def)
    ultimately show ?thesis using e by (simp add: t_def)
  qed
qed

lemma dup_packed_correct:
  fixes source :: "'v hashtable"
  assumes "wf_ht source" "nNumOfElements source \<noteq> 0" "f_packed source" "unref_ok unref g"
  shows "\<exists>g' t. zend_array_dup unref False i g source = Some (g', t) \<and> wf_ht t \<and> ht_id t = i \<and>
     elems t = dup_content unref g source \<and> nNextFreeElement t = nNextFreeElement source \<and>
     dtor_log g' = dtor_log g \<and> ind_slots g' = ind_slots g"
proof -
  have u: "\<not> f_uninitialized source" using wf_htD(3) [OF assms(1)] assms(2) by (auto simp: wf_uninit_def)
  note P = wf_htD(4) [OF assms(1) u assms(3), unfolded wf_packed_def]
  note S = wf_htD(1) [OF assms(1)]
  let ?n = "nNumUsed source" and ?zs = "arPacked source" and ?h = "\<not> HT_IS_WITHOUT_HOLES source"
  have n: "?n \<le> nTableSize source" using S by (simp add: sizes_ok_def)
  have len: "length ?zs = nTableSize source" using P by simp
  have full: "?zs ! j \<noteq> IS_UNDEF" if "\<not> ?h" "j < ?n" for j
  proof -
    have "length (filter (\<lambda>v. \<not> is_undef v) (take ?n ?zs)) = length (take ?n ?zs)"
      using P that(1) len n by (simp add: HT_IS_WITHOUT_HOLES_def)
    moreover have "?zs ! j \<in> set (take ?n ?zs)" using that(2) len n by (auto simp: in_set_conv_nth)
    ultimately show ?thesis using length_filter_less [of "?zs ! j" "take ?n ?zs" "\<lambda>v. \<not> is_undef v"] by auto
  qed
  define cells where "cells = dup_packed_cells unref g ?h (take ?n ?zs) (replicate (nTableSize source) UNINIT)"
  define cs where "cs = cells @ replicate (nTableSize source - ?n) UNINIT"
  have lc: "length cells = ?n" using len n by (simp add: cells_def dup_packed_cells_def)
  have cell: "cells ! j = (if ?zs ! j = IS_UNDEF then IS_UNDEF else unref (?zs ! j))" if "j < ?n" for j
    using that full [OF _ that] len n by (auto simp: cells_def dup_packed_cells_def zend_array_dup_value_def)
  have init: "?zs ! j \<noteq> UNINIT" if "j < ?n" for j
    using P that len n by (metis in_set_conv_nth length_take min.absorb2 nth_take)
  have prp: "proper (unref (?zs ! j))" if "j < ?n" "?zs ! j \<noteq> IS_UNDEF" for j
    using assms(4) init [OF that(1)] that(2) by (simp add: unref_ok_def proper_def)
  have e: "packed_elems cs ?n = map (\<lambda>(k, v). (k, unref v)) (packed_elems ?zs ?n)"
    using prp by (intro packed_elems_map) (auto simp: cs_def nth_append lc cell proper_def)
  have tk: "take ?n cs = cells" by (simp add: cs_def lc)
  have ui: "UNINIT \<notin> set cells" using prp by (auto simp: in_set_conv_nth lc cell proper_def split: if_splits)
  have "map (\<lambda>v. \<not> is_undef v) cells = map (\<lambda>v. \<not> is_undef v) (take ?n ?zs)"
    using prp len n by (intro nth_equalityI) (auto simp: lc cell proper_def)
  then have cnt: "length (filter (\<lambda>v. \<not> is_undef v) cells) = length (filter (\<lambda>v. \<not> is_undef v) (take ?n ?zs))"
    by (metis (no_types, lifting) filter_map length_map o_def filter_cong id_apply)
  define t0 where "t0 = source\<lparr>ht_id := i, gc_persistent := False, nIteratorsCount := 0, pDestructor := True,
      nTableMask := HT_MIN_MASK, nInternalPointer := (if nInternalPointer source < ?n then nInternalPointer source else 0),
      arHash := replicate 2 HT_INVALID_IDX, arPacked := cs\<rparr>"
  have run: "zend_array_dup unref False i g source =
      Some (if HT_HAS_ITERATORS source then zend_array_dup_ht_iterators source (g, t0) else (g, t0))"
    using assms(2,3) n
    by (simp add: zend_array_dup_def zend_array_dup_packed_elements_def Let_def t0_def cs_def cells_def HT_IS_WITHOUT_HOLES_def)
  obtain g' t where r: "(if HT_HAS_ITERATORS source then zend_array_dup_ht_iterators source (g, t0) else (g, t0)) = (g', t)"
    by fastforce
  have F: "ind_slots g' = ind_slots g" "dtor_log g' = dtor_log g" "same_but_count t0 t"
    using r dup_iterators_frame [of source g t0 g' t] by (auto split: if_splits)
  obtain c where t: "t = t0\<lparr>nIteratorsCount := c\<rparr>" using F(3) by (auto simp: same_but_count_def)
  have el: "elems t = dup_content unref g source" using assms(3) e
    by (simp add: elems_def t t0_def dup_content_def List.map_filter_def comp_def split_def)
  have "wf_packed t" using P n by (simp add: wf_packed_def no_data_def t t0_def tk ui cnt cs_def lc del: length_filter_conv_card)
  moreover have "next_free_ok t"
  proof (rule next_free_ok_keys [OF wf_htD(2) [OF assms(1)]])
    show "fst ` set (elems t) \<subseteq> fst ` set (elems source)"
      using map_filter_keys [of "\<lambda>v. Some (unref v)" "elems source"] assms(3) unfolding el dup_content_def by simp
  qed (simp add: t t0_def)
  ultimately have "wf_ht t" using S u assms(3) by (simp add: wf_ht_def sizes_ok_def t t0_def)
  then show ?thesis using run r F el by (simp add: t t0_def)
qed

lemma dup_mixed_correct:
  fixes source :: "'v hashtable"
  assumes "wf_ht source" "nNumOfElements source \<noteq> 0" "\<not> f_packed source" "unref_ok unref g"
  shows "\<exists>g' t. zend_array_dup unref False i g source = Some (g', t) \<and> wf_ht t \<and> ht_id t = i \<and>
     elems t = dup_content unref g source \<and> nNextFreeElement t = nNextFreeElement source \<and>
     dtor_log g' = dtor_log g \<and> ind_slots g' = ind_slots g"
proof -
  have u: "\<not> f_uninitialized source" using wf_htD(3) [OF assms(1)] assms(2) by (auto simp: wf_uninit_def)
  note S = wf_htD(1) [OF assms(1)]
  note M = wf_htD(5) [OF assms(1) u assms(3)]
  let ?n = "nNumUsed source" and ?h = "\<not> HT_IS_WITHOUT_HOLES source"
  have n: "?n \<le> nTableSize source" using S by (simp add: sizes_ok_def)
  define t0 where "t0 = HT_HASH_RESET (source\<lparr>ht_id := i, gc_persistent := False, nIteratorsCount := 0, pDestructor := True,
      nNumUsed := 0, nNumOfElements := 0, arData := replicate (nTableSize source) fresh_bucket,
      nInternalPointer := (if nInternalPointer source < ?n then nInternalPointer source else 0)\<rparr>)"
  have run: "zend_array_dup unref False i g source =
      do { (idx, g, target) \<leftarrow> zend_array_dup_elements unref source (HT_HAS_STATIC_KEYS_ONLY t0) ?h g t0;
           Some (g, target\<lparr>nNumUsed := idx, nNumOfElements := idx\<rparr>) }"
    using assms(2,3) by (simp add: zend_array_dup_def t0_def Let_def)
  have T0: "nTableMask t0 = nTableMask source" "arHash t0 = replicate (ht_slots (nTableMask source)) HT_INVALID_IDX"
      "length (arData t0) = nTableSize source" "nTableSize t0 = nTableSize source" "ht_id t0 = i" "\<not> f_packed t0"
      "arPacked t0 = []" "f_static_keys t0 = f_static_keys source" "nNextFreeElement t0 = nNextFreeElement source" "\<not> f_uninitialized t0"
    using mixed_shapeD [OF M] u assms(3) by (simp_all add: t0_def HT_HASH_RESET_def)
  have live_all: "live (arData source ! j)" if "\<not> ?h" "j < ?n" for j
  proof -
    have "length (filter live (take ?n (arData source))) = length (take ?n (arData source))"
      using mixed_shapeD(4,6) [OF M] that(1) n by (simp add: HT_IS_WITHOUT_HOLES_def live_buckets_def)
    moreover have "arData source ! j \<in> set (take ?n (arData source))" using that(2) mixed_shapeD(4) [OF M] n by (auto simp: in_set_conv_nth)
    ultimately show ?thesis using length_filter_less [of "arData source ! j" "take ?n (arData source)" live] by auto
  qed
  have init: "bval (arData source ! j) \<noteq> UNINIT" if "j < ?n" for j
    using mixed_shapeD(7,4) [OF M] that n by (fastforce simp: keys_ok_def in_set_conv_nth)
  have R: "dup_ready unref ?h g t0 source"
    unfolding dup_ready_def
    using assms(4) mixed_shapeD(3,4) [OF M] n T0 live_all init mixed_bslot_bound [OF S M] by auto
  obtain g1 t1 where r1: "(if HT_HAS_ITERATORS source then zend_array_dup_ht_iterators source (g, t0) else (g, t0)) = (g1, t1)"
    by fastforce
  have F1: "ind_slots g1 = ind_slots g" "dtor_log g1 = dtor_log g" "same_but_count t0 t1"
    using r1 dup_iterators_frame [of source g t0 g1 t1] by (auto split: if_splits)
  have "filled t0 0 [] (t0\<lparr>arHash := arHash t0, arData := arData t0, nIteratorsCount := nIteratorsCount t0, nNumUsed := nNumUsed t0,
      nInternalPointer := nInternalPointer t0\<rparr>)"
    by (rule filledI) (simp_all add: T0 linked_init)
  then have fill: "filled t0 0 (List.map_filter (dup_payload unref g) (take 0 (arData source))) t1"
    using F1(3) filled_bookkeeping(3) [of t0 0 "[]" t0] by (auto simp: same_but_count_def List.map_filter_simps)
  from dup_scan_ok [OF R fill F1(1,2), of "HT_HAS_STATIC_KEYS_ONLY t0"]
  obtain k g' t where r: "dup_scan unref (HT_HAS_STATIC_KEYS_ONLY t0) ?h source 0 g1 t1 = Some (k, g', t)"
    and L: "dup_loop_ok unref g t0 source (k, g', t)" by auto
  define ps where "ps = List.map_filter (dup_payload unref g) (take ?n (arData source))"
  have K: "filled t0 k ps t" "ind_slots g' = ind_slots g" "dtor_log g' = dtor_log g"
    using L by (simp_all add: dup_loop_ok_def ps_def)
  have k: "k \<le> ?n"
  proof -
    have "length ps \<le> length (take ?n (arData source))" by (simp add: ps_def List.map_filter_def del: length_take)
    then show ?thesis using filled_frame(4) [OF K(1)] by simp
  qed
  define t' where "t' = t\<lparr>nNumUsed := k, nNumOfElements := k\<rparr>"
  have run': "zend_array_dup unref False i g source = Some (g', t')"
    unfolding run zend_array_dup_elements_def r1 using r by (simp add: t'_def)
  have pay: "map payload (take k (arData t)) = ps" "linked (nTableMask t) (arHash t) (arData t) k" "k \<le> length (arData t)"
    using K(1) by (simp_all add: filled_def)
  have T: "nTableSize t = nTableSize source" "ht_id t = i" "\<not> f_packed t" "arPacked t = []" "f_static_keys t = f_static_keys source"
      "nNextFreeElement t = nNextFreeElement source" "\<not> f_uninitialized t" "nTableMask t = nTableMask source"
      "length (arHash t) = ht_slots (nTableMask source)" "length (arData t) = nTableSize source"
    using K(1) T0 by (auto simp: filled_def)
  have ps_mem: "\<exists>b \<in> set (take ?n (arData source)). live b \<and> proper (fst p) \<and> snd p = (bh b, bkey b)" if "p \<in> set ps" for p
  proof -
    from that obtain b where b: "b \<in> set (take ?n (arData source))" "dup_payload unref g b = Some p"
      by (auto simp: ps_def List.map_filter_def)
    moreover have "bval b \<noteq> UNINIT" using mixed_shapeD(7) [OF M] b(1) by (simp add: keys_ok_def)
    ultimately show ?thesis using dup_spec_proper [OF assms(4)]
      by (intro bexI [of _ b]) (auto simp: dup_payload_def dup_spec_def live_def)
  qed
  have lv: "filter live (take k (arData t)) = take k (arData t)"
  proof -
    have "live b" if "b \<in> set (take k (arData t))" for b
    proof -
      have "payload b \<in> set ps" using that pay(1) by (metis image_eqI list.set_map)
      from ps_mem [OF this] show ?thesis by (auto simp: payload_def live_def proper_def)
    qed
    then show ?thesis by simp
  qed
  have el: "map bucket_elem (take k (arData t)) = dup_content unref g source"
    using map_filter_payload [of unref g "take ?n (arData source)"] pay(1) assms(3)
    by (simp add: map_bucket_elem_payload ps_def dup_content_def elems_def live_buckets_def)
  have lb: "live_buckets t' = take k (arData t)" by (simp add: live_buckets_def t'_def lv)
  have e: "elems t' = dup_content unref g source" using el T(3) by (simp add: elems_def lb) (simp add: t'_def)
  have "keys_ok (take k (arData t))"
    unfolding keys_ok_payload pay(1) using ps_mem mixed_shapeD(7) [OF M] by (fastforce simp: keys_ok_def proper_def split: option.splits)
  moreover have "static_ok (take k (arData t))" if "f_static_keys source"
    unfolding static_ok_payload pay(1) using ps_mem mixed_shapeD(9) [OF M that] by (fastforce simp: static_ok_def split: option.splits)
  moreover have "distinct (map bucket_key (take k (arData t)))"
  proof -
    have "distinct (map fst (elems source))"
      using mixed_shapeD(8) [OF M] assms(3) by (simp add: elems_def comp_def bucket_elem_def)
    then show ?thesis unfolding map_bucket_key_elem el using assms(3) by (simp add: dup_content_def map_filter_keys_distinct)
  qed
  ultimately have "mixed_shape t'"
    using T pay(3) mixed_shapeD(2) [OF M] by (simp add: mixed_shape_def lb, simp add: t'_def)
  then have "wf_mixed t'" using pay(2) by (simp add: wf_mixed_def, simp add: t'_def)
  moreover have "next_free_ok t'"
  proof (rule next_free_ok_keys [OF wf_htD(2) [OF assms(1)]])
    show "fst ` set (elems t') \<subseteq> fst ` set (elems source)"
      using map_filter_keys [of "dup_spec unref g" "elems source"] assms(3) unfolding e dup_content_def by simp
  qed (simp add: t'_def T)
  moreover have "sizes_ok t'" using S T(1) k by (simp add: sizes_ok_def t'_def)
  moreover have "\<not> f_packed t'" "\<not> f_uninitialized t'" using T by (simp_all add: t'_def)
  ultimately have "wf_ht t'" by (simp add: wf_ht_def)
  then show ?thesis using run' e K T by (simp add: t'_def)
qed

lemma elems_count:
  assumes "wf_ht ht"
  shows "nNumOfElements ht = length (elems ht)"
proof -
  note W = assms [unfolded wf_ht_def]
  consider "f_uninitialized ht" | "\<not> f_uninitialized ht" "f_packed ht" | "\<not> f_uninitialized ht" "\<not> f_packed ht" by blast
  then show ?thesis
  proof cases
    case 1
    then show ?thesis using W by (simp add: wf_uninit_def elems_def live_buckets_def)
  next
    case 2
    then have "wf_packed ht" "nNumUsed ht \<le> length (arPacked ht)" using W by (auto simp: wf_packed_def sizes_ok_def)
    then show ?thesis using 2 by (simp add: wf_packed_def elems_def packed_elems_def length_filter_take_upt)
  next
    case 3
    then show ?thesis using W by (simp add: wf_mixed_def mixed_shape_def elems_def)
  qed
qed

lemma array_dup_correct:
  fixes source :: "'v hashtable"
  assumes "wf_ht source" "unref_ok unref g"
  shows "\<exists>g' t. zend_array_dup unref immutable i g source = Some (g', t) \<and> wf_ht t \<and> ht_id t = i \<and>
     elems t = (if immutable then elems source else dup_content unref g source) \<and>
     nNextFreeElement t = nNextFreeElement source \<and> dtor_log g' = dtor_log g \<and> ind_slots g' = ind_slots g"
proof (cases "nNumOfElements source = 0")
  case True
  then have "elems source = []" using elems_count [OF assms(1)] by simp
  then show ?thesis using dup_empty_correct [OF True, of unref immutable i g] by (auto simp: dup_content_def List.map_filter_simps)
next
  case False
  then show ?thesis
    using dup_immutable_correct [OF assms(1) False, of unref i g] dup_packed_correct [OF assms(1) False _ assms(2), of i]
      dup_mixed_correct [OF assms(1) False _ assms(2), of i]
    by (cases immutable; cases "f_packed source") auto
qed

end
