(* ===== verification/ZendHashStore.thy ===== *)
theory ZendHashStore
  imports ZendHashDup
begin

text \<open>
  The interface through which whole-table operations (copying, merging, converting keys) use a hash
  table: a store with an operation that puts one value under one key, as long as there is room. The
  locale \<open>keyed_fold\<close> states the law of that operation and proves what a loop of such puts does;
  \<open>keyed_store\<close> is the case in which a put is an update of the association list.
\<close>

primrec opt_fold :: "('a \<Rightarrow> 's \<Rightarrow> 's option) \<Rightarrow> 'a list \<Rightarrow> 's \<Rightarrow> 's option" where
  "opt_fold f [] s = Some s"
| "opt_fold f (x # xs) s = (case f x s of None \<Rightarrow> None | Some s \<Rightarrow> opt_fold f xs s)"

lemma opt_fold_append:
  "opt_fold f (xs @ ys) s = (case opt_fold f xs s of None \<Rightarrow> None | Some s \<Rightarrow> opt_fold f ys s)"
  by (induction xs arbitrary: s) (simp_all split: option.split)

locale keyed_fold =
  fixes room :: "'s \<Rightarrow> nat \<Rightarrow> bool" and contents :: "'s \<Rightarrow> ('k \<times> 'a) list" and frame :: "'s \<Rightarrow> 'f"
    and put :: "'r \<Rightarrow> 'a \<Rightarrow> 's \<Rightarrow> 's option" and ok :: "'r \<Rightarrow> 'a \<Rightarrow> bool"
    and ins :: "'r \<Rightarrow> 'a \<Rightarrow> ('k \<times> 'a) list \<Rightarrow> ('k \<times> 'a) list"
  assumes put: "room s (Suc n) \<Longrightarrow> ok r v \<Longrightarrow>
    \<exists>s'. put r v s = Some s' \<and> contents s' = ins r v (contents s) \<and> frame s' = frame s \<and> room s' n"
begin

text \<open>A loop each of whose steps puts the pair \<open>f i\<close>, if there is one.\<close>

lemma steps:
  assumes "room s (n + length (List.map_filter f is))" and "\<And>i r v. i \<in> set is \<Longrightarrow> f i = Some (r, v) \<Longrightarrow> ok r v"
    and "\<And>i s'. i \<in> set is \<Longrightarrow> frame s' = frame s \<Longrightarrow>
      step i s' = (case f i of None \<Rightarrow> Some s' | Some (r, v) \<Rightarrow> put r v s')"
  shows "\<exists>s'. opt_fold step is s = Some s' \<and>
     contents s' = fold (\<lambda>(r, v). ins r v) (List.map_filter f is) (contents s) \<and> frame s' = frame s \<and> room s' n"
  using assms
proof (induction "is" arbitrary: s)
  case (Cons i "is")
  have P2: "\<And>j r v. j \<in> set is \<Longrightarrow> f j = Some (r, v) \<Longrightarrow> ok r v" using Cons.prems(2) by auto
  have P3: "\<And>j s'. j \<in> set is \<Longrightarrow> frame s' = frame s \<Longrightarrow>
      step j s' = (case f j of None \<Rightarrow> Some s' | Some (r, v) \<Rightarrow> put r v s')" using Cons.prems(3) by auto
  show ?case
  proof (cases "f i")
    case None
    have "room s (n + length (List.map_filter f is))" using Cons.prems(1) None by (simp add: List.map_filter_simps)
    then have "\<exists>s'. opt_fold step is s = Some s' \<and> contents s' = fold (\<lambda>(r, v). ins r v) (List.map_filter f is) (contents s) \<and>
        frame s' = frame s \<and> room s' n"
      by (rule Cons.IH) (use P2 P3 in auto)
    then show ?thesis using None Cons.prems(3) [of i s] by (simp add: List.map_filter_simps)
  next
    case (Some p)
    obtain r v where p: "p = (r, v)" by fastforce
    have "room s (Suc (n + length (List.map_filter f is)))" using Cons.prems(1) Some by (simp add: List.map_filter_simps)
    from put [OF this Cons.prems(2)] Some p obtain s1 where s1: "put r v s = Some s1"
      "contents s1 = ins r v (contents s)" "frame s1 = frame s" "room s1 (n + length (List.map_filter f is))" by fastforce
    have "\<exists>s'. opt_fold step is s1 = Some s' \<and> contents s' = fold (\<lambda>(r, v). ins r v) (List.map_filter f is) (contents s1) \<and>
        frame s' = frame s1 \<and> room s' n"
      by (rule Cons.IH [OF s1(4)]) (use P2 P3 s1(3) in auto)
    then show ?thesis using Some p s1 Cons.prems(3) [of i s] by (auto simp: List.map_filter_simps)
  qed
qed (simp add: List.map_filter_simps)

end

locale keyed_store = keyed_fold room contents frame put ok "\<lambda>r v. AList.update (key r) (store v)"
  for room :: "'s \<Rightarrow> nat \<Rightarrow> bool" and contents :: "'s \<Rightarrow> ('k \<times> 'a) list" and frame :: "'s \<Rightarrow> 'f"
    and put :: "'r \<Rightarrow> 'a \<Rightarrow> 's \<Rightarrow> 's option" and ok :: "'r \<Rightarrow> 'a \<Rightarrow> bool" and key :: "'r \<Rightarrow> 'k" and store :: "'a \<Rightarrow> 'a"
begin

lemma fold_update_map_of:
  "map_of (fold (\<lambda>(r, v). AList.update (key r) (store v)) rvs xs) =
   map_of xs ++ map_of (rev (map (\<lambda>(r, v). (key r, store v)) rvs))"
  by (induction rvs arbitrary: xs) (auto simp: update_conv' map_add_upd_left map_add_assoc)

lemma fold_update_fresh:
  "distinct (map (\<lambda>(r, v). key r) rvs) \<Longrightarrow> (\<And>r v. (r, v) \<in> set rvs \<Longrightarrow> key r \<notin> fst ` set xs) \<Longrightarrow>
   fold (\<lambda>(r, v). AList.update (key r) (store v)) rvs xs = xs @ map (\<lambda>(r, v). (key r, store v)) rvs"
proof (induction rvs arbitrary: xs)
  case (Cons p rvs)
  obtain r v where p: "p = (r, v)" by fastforce
  have "AList.update (key r) (store v) xs = xs @ [(key r, store v)]"
    using Cons.prems(2) p by (intro AList_update_new) auto
  moreover have "key r' \<notin> fst ` set (xs @ [(key r, store v)])" if "(r', v') \<in> set rvs" for r' v'
  proof -
    have "key r' \<in> set (map (\<lambda>(r, v). key r) rvs)" using that by force
    then have "key r' \<noteq> key r" using Cons.prems(1) p by auto
    then show ?thesis using Cons.prems(2) [of r' v'] that by auto
  qed
  ultimately show ?case using Cons.IH [of "xs @ [(key r, store v)]"] Cons.prems p by simp
qed simp

text \<open>Putting pairs with distinct keys into an empty store lists them in order.\<close>

lemma steps_fresh:
  assumes "room s (length (List.map_filter f is))" "contents s = []" and "\<And>i r v. i \<in> set is \<Longrightarrow> f i = Some (r, v) \<Longrightarrow> ok r v"
    and "\<And>i s'. i \<in> set is \<Longrightarrow> frame s' = frame s \<Longrightarrow>
      step i s' = (case f i of None \<Rightarrow> Some s' | Some (r, v) \<Rightarrow> put r v s')"
    and "distinct (map (\<lambda>(r, v). key r) (List.map_filter f is))"
  shows "\<exists>s'. opt_fold step is s = Some s' \<and> contents s' = map (\<lambda>(r, v). (key r, store v)) (List.map_filter f is) \<and>
    frame s' = frame s"
  using steps [of s 0 f "is" step] fold_update_fresh [OF assms(5), of "contents s"] assms by auto

end

subsection \<open>Room in a hash table\<close>

text \<open>Room for \<open>n\<close> more elements: far enough from \<open>HT_MAX_SIZE\<close> that no growth fails.\<close>

definition hash_room :: "'v hashtable \<Rightarrow> nat \<Rightarrow> bool" where
  "hash_room ht n \<longleftrightarrow> wf_ht ht \<and> 16 * (length (elems ht) + n) \<le> HT_MAX_SIZE \<and>
     nTableSize ht \<le> HT_MAX_SIZE div (if f_packed ht \<or> f_uninitialized ht then 4 else 2)"

lemma hash_room_size: "hash_room ht n \<Longrightarrow> nTableSize ht < HT_MAX_SIZE"
  by (auto simp: hash_room_def HT_MAX_SIZE_def split: if_splits)

lemma hash_room_mono: "hash_room ht (Suc n) \<Longrightarrow> hash_room ht n"
  by (simp add: hash_room_def)

lemma hash_room_grown:
  assumes "hash_room ht (Suc n)" "wf_ht ht'" "grown ht ht'" "length (elems ht') \<le> Suc (length (elems ht))"
  shows "hash_room ht' n"
proof -
  have c: "nNumOfElements ht = length (elems ht)" using elems_count assms(1) by (auto simp: hash_room_def)
  have "16 * (length (elems ht') + n) \<le> HT_MAX_SIZE" using assms(1,4) by (simp add: hash_room_def)
  moreover have "nTableSize ht' \<le> HT_MAX_SIZE div (if f_packed ht' then 4 else 2)"
    using assms(1,3) unfolding grown_def hash_room_def c by (auto simp: HT_MAX_SIZE_def split: if_splits)
  ultimately show ?thesis using assms(2,3) by (auto simp: hash_room_def grown_def)
qed

lemma length_update_le: "length (AList.update k v xs) \<le> Suc (length xs)"
  by (induction xs) auto

text \<open>Writing through a reference to an element.\<close>

lemma write_ref:
  assumes "wf_ht ht" "refers ht k r" "proper w"
  obtains ht' where "zval_copy_value r w (g, ht) = (g, ht')" "wf_ht ht'" "elems ht' = AList.update k w (elems ht)"
    "pDestructor ht' = pDestructor ht" "ht_id ht' = ht_id ht" "nTableSize ht' = nTableSize ht"
    "f_packed ht' = f_packed ht" "f_uninitialized ht' = f_uninitialized ht" "refers ht' k r" "zref_val g ht' r = w"
proof (cases r)
  case (PackedVal i)
  then have P: "f_packed ht" "i < nNumUsed ht" "\<not> is_undef (arPacked ht ! i)" "k = KInt (of_nat i)" "\<not> f_uninitialized ht"
    using assms(2) by (auto simp: refers_def)
  let ?ht = "ht\<lparr>arPacked := (arPacked ht)[i := w]\<rparr>"
  note S = set_packed_val_wf [OF assms(1) P(1-3) assms(3) refl]
  have "i < length (arPacked ht)" using P(2) wf_packed_hash(4) [OF assms(1) P(1)] by simp
  then show thesis using that [of ?ht] S P PackedVal assms(3)
    by (simp add: zval_copy_value_def refers_def zref_val_def proper_def)
next
  case (BucketVal p)
  then have P: "\<not> f_packed ht" "p < nNumUsed ht" "live (arData ht ! p)" "bucket_key (arData ht ! p) = k" "\<not> f_uninitialized ht"
    using assms(2) by (auto simp: refers_def)
  let ?ht = "ht\<lparr>arData := (arData ht)[p := (arData ht ! p)\<lparr>bval := w\<rparr>]\<rparr>"
  note S = set_bucket_val_wf [OF assms(1) P(5,1,2,3) assms(3) refl]
  note W = wf_htD [OF assms(1)]
  have "p < length (arData ht)" using P(2) mixed_shapeD(4) [OF W(5) [OF P(5,1)]] sizes_okD(3) [OF W(1)] by simp
  then show thesis using that [of ?ht] S P BucketVal assms(3)
    by (simp add: zval_copy_value_def refers_def zref_val_def proper_def live_def)
qed (use assms(2) in \<open>simp add: refers_def\<close>)

end
