(* ===== verification/ZendHashCopy.thy ===== *)
theory ZendHashCopy
  imports ZendHashStore
begin

text \<open>
  Whole-table operations that fill one table from another (\<open>Zend/zend_hash.c\<close>): \<open>zend_hash_copy\<close>,
  \<open>zend_hash_merge\<close>, \<open>zend_hash_merge_ex\<close>, \<open>zend_array_to_list\<close>, the conversions between symbol
  tables (integer and non-numeric string keys) and property tables (string keys only), and the loop
  macro \<open>ZEND_HASH_FOREACH\<close> they walk their source with. The insertions are an interpretation of
  the interface of \<open>ZendHashStore\<close>; the lemmas give the element list each operation leaves.
\<close>

subsection \<open>Operations\<close>

text \<open>A copy constructor is a function on the value cell; \<open>None\<close> is \<open>NULL\<close>.\<close>

type_synonym 'v ctor = "('v zval \<Rightarrow> 'v zval) option"

definition after_ctor :: "'v ctor \<Rightarrow> ('v eg \<times> 'v hashtable \<times> zref option) option \<Rightarrow> ('v eg \<times> 'v hashtable) option" where
  "after_ctor ctor res = (case res of None \<Rightarrow> None
     | Some (g, ht, t) \<Rightarrow> Some (case t of None \<Rightarrow> (g, ht)
        | Some r \<Rightarrow> (case ctor of None \<Rightarrow> (g, ht) | Some f \<Rightarrow> zval_copy_value r (f (zref_val g ht r)) (g, ht))))"

definition zend_hash_copy :: "'v ctor \<Rightarrow> 'v hashtable \<Rightarrow> 'v eg \<times> 'v hashtable \<Rightarrow> ('v eg \<times> 'v hashtable) option" where
  "zend_hash_copy ctor source =
     (if f_packed source then
        opt_fold (\<lambda>idx (g, target).
          let zv = arPacked source ! idx
          in if is_undef zv then Some (g, target)
             else after_ctor ctor (zend_hash_index_update g target (of_nat idx) zv)) [0..<nNumUsed source]
      else
        opt_fold (\<lambda>idx (g, target).
          let p = arData source ! idx
          in if is_undef (bval p) then Some (g, target)
             else
               (let data = (case bval p of IS_INDIRECT a \<Rightarrow> ind_slots g a | _ \<Rightarrow> bval p)
                in if is_undef data then Some (g, target)
                   else after_ctor ctor
                     (case bkey p of Some k \<Rightarrow> zend_hash_update g target k data
                      | None \<Rightarrow> zend_hash_index_update g target (bh p) data))) [0..<nNumUsed source])"

definition zend_hash_merge :: "'v ctor \<Rightarrow> bool \<Rightarrow> 'v hashtable \<Rightarrow> 'v eg \<times> 'v hashtable \<Rightarrow> ('v eg \<times> 'v hashtable) option" where
  "zend_hash_merge ctor overwrite source =
     (let add_packed = (\<lambda>add idx (g, target).
            let s = arPacked source ! idx
            in if is_undef s then Some (g, target) else after_ctor ctor (add g target (of_nat idx) s));
          add_mixed = (\<lambda>add_str add idx (g, target).
            let p = arData source ! idx;
                s = (case bval p of IS_INDIRECT a \<Rightarrow> ind_slots g a | _ \<Rightarrow> bval p)
            in if is_undef s then Some (g, target)
               else after_ctor ctor (case bkey p of Some k \<Rightarrow> add_str g target k s | None \<Rightarrow> add g target (bh p) s))
      in if overwrite then
           (if f_packed source then opt_fold (add_packed zend_hash_index_update) [0..<nNumUsed source]
            else opt_fold (add_mixed (\<lambda>g t k s. zend_hash_add_or_update_i g t k s (HASH_UPDATE OR HASH_UPDATE_INDIRECT))
                             zend_hash_index_update) [0..<nNumUsed source])
         else
           (if f_packed source then opt_fold (add_packed zend_hash_index_add) [0..<nNumUsed source]
            else opt_fold (add_mixed (\<lambda>g t k s. zend_hash_add_or_update_i g t k s (HASH_ADD OR HASH_UPDATE_INDIRECT))
                             zend_hash_index_add) [0..<nNumUsed source]))"

text \<open>The checker is the callback of the caller; every bucket of the source has a string key.\<close>

definition zend_hash_replace_checker_wrapper ::
  "('v hashtable \<Rightarrow> 'v zval \<Rightarrow> u64 \<times> zstr option \<Rightarrow> bool) \<Rightarrow> 'v hashtable \<Rightarrow> 'v zval \<Rightarrow> u64 \<Rightarrow> zstr option \<Rightarrow> bool" where
  "zend_hash_replace_checker_wrapper merge_checker_func target source_data h key =
     merge_checker_func target source_data (h, key)"

definition zend_hash_merge_ex ::
  "'v ctor \<Rightarrow> ('v hashtable \<Rightarrow> 'v zval \<Rightarrow> u64 \<times> zstr option \<Rightarrow> bool) \<Rightarrow> 'v hashtable \<Rightarrow> 'v eg \<times> 'v hashtable \<Rightarrow>
   ('v eg \<times> 'v hashtable) option" where
  "zend_hash_merge_ex ctor pMergeSource source =
     opt_fold (\<lambda>idx (g, target).
       let p = arData source ! idx
       in if is_undef (bval p) then Some (g, target)
          else if zend_hash_replace_checker_wrapper pMergeSource target (bval p) (bh p) (bkey p)
          then (case bkey p of Some k \<Rightarrow> after_ctor ctor (zend_hash_update g target k (bval p)) | None \<Rightarrow> None)
          else Some (g, target)) [0..<nNumUsed source]"

text \<open>The entries \<open>ZEND_HASH_FOREACH\<close> visits: number, key, value, with indirect values followed on demand.\<close>

definition foreach_entry :: "bool \<Rightarrow> 'v eg \<Rightarrow> 'v hashtable \<Rightarrow> nat \<Rightarrow> (u64 \<times> zstr option \<times> 'v zval) option" where
  "foreach_entry indirect g ht idx =
     (let (h, key, z) =
            (if f_packed ht then (of_nat idx, None, arPacked ht ! idx)
             else
               (let p = arData ht ! idx
                in (bh p, bkey p,
                    (case bval p of IS_INDIRECT a \<Rightarrow> if indirect then ind_slots g a else bval p | _ \<Rightarrow> bval p))))
      in if is_undef z then None else Some (h, key, z))"

definition foreach_entries :: "bool \<Rightarrow> 'v eg \<Rightarrow> 'v hashtable \<Rightarrow> (u64 \<times> zstr option \<times> 'v zval) list" where
  "foreach_entries indirect g ht = List.map_filter (foreach_entry indirect g ht) [0..<nNumUsed ht]"

text \<open>
  The key made of a number; the reference \<open>zend_long_to_str\<close> returns is given back by
  \<open>zend_string_delref\<close>. Strings of one character are interned.
\<close>

definition long_key :: "u64 \<Rightarrow> zstr" where
  "long_key num = \<lparr>zs_val = zend_long_to_str num, zs_interned = (num \<le> 9)\<rparr>"

text \<open>A result \<open>None\<close> for the table stands for the argument itself, with one more reference.\<close>

definition zend_symtable_to_proptable ::
  "('v zval \<Rightarrow> 'v zval) \<Rightarrow> nat \<Rightarrow> 'v eg \<Rightarrow> 'v hashtable \<Rightarrow> ('v eg \<times> 'v hashtable option) option" where
  "zend_symtable_to_proptable unref i g ht =
     (if \<not> f_packed ht \<and> list_all (\<lambda>(h, str_key, zv). str_key \<noteq> None) (foreach_entries False g ht)
      then Some (g, None)
      else do {
        new_ht \<leftarrow> zend_new_array i (of_nat (nNumOfElements ht));
        (g, new_ht) \<leftarrow> opt_fold (\<lambda>(num_key, str_key, zv) (g, new_ht).
            let str_key = (case str_key of Some k \<Rightarrow> k | None \<Rightarrow> long_key num_key)
            in after_ctor None (zend_hash_update g new_ht str_key (unref zv)))
          (foreach_entries False g ht) (g, new_ht);
        Some (g, Some new_ht) })"

definition zend_proptable_to_symtable ::
  "('v zval \<Rightarrow> 'v zval) \<Rightarrow> bool \<Rightarrow> nat \<Rightarrow> 'v eg \<Rightarrow> 'v hashtable \<Rightarrow> bool \<Rightarrow> ('v eg \<times> 'v hashtable option) option" where
  "zend_proptable_to_symtable unref immutable i g ht always_duplicate =
     (if \<not> f_packed ht \<and>
         list_ex (\<lambda>(h, str_key, zv). case str_key of Some k \<Rightarrow> zend_handle_numeric_str (zs_val k) \<noteq> None | None \<Rightarrow> False)
           (foreach_entries False g ht)
      then do {
        new_ht \<leftarrow> zend_new_array i (of_nat (nNumOfElements ht));
        (g, new_ht) \<leftarrow> opt_fold (\<lambda>(num_key, str_key, zv) (g, new_ht).
            after_ctor None
              (case str_key of
                 None \<Rightarrow> zend_hash_index_update g new_ht num_key (unref zv)
               | Some k \<Rightarrow>
                   (case zend_handle_numeric_str (zs_val k) of
                      Some num_key \<Rightarrow> zend_hash_index_update g new_ht num_key (unref zv)
                    | None \<Rightarrow> zend_hash_update g new_ht k (unref zv))))
          (foreach_entries True g ht) (g, new_ht);
        Some (g, Some new_ht) }
      else if always_duplicate then
        map_option (\<lambda>(g, t). (g, Some t)) (zend_array_dup unref immutable i g ht)
      else Some (g, None))"

text \<open>\<open>ZEND_HASH_FILL_PACKED\<close> writes the values from the first free cell on and sets the counts at the end.\<close>

definition fill_packed :: "'v zval list \<Rightarrow> 'v hashtable \<Rightarrow> 'v hashtable" where
  "fill_packed vs ht =
     (let (cells, fill_idx) = fold (\<lambda>v (cells, idx). (cells[idx := v], idx + 1)) vs (arPacked ht, nNumUsed ht)
      in ht\<lparr>arPacked := cells, nNumOfElements := nNumOfElements ht + (fill_idx - nNumUsed ht), nNumUsed := fill_idx,
            nNextFreeElement := of_nat fill_idx, nInternalPointer := 0\<rparr>)"

definition zend_array_to_list :: "('v zval \<Rightarrow> 'v zval) \<Rightarrow> nat \<Rightarrow> 'v eg \<Rightarrow> 'v hashtable \<Rightarrow> 'v hashtable option" where
  "zend_array_to_list unref i g source = do {
     result \<leftarrow> zend_new_array i (of_nat (nNumOfElements source));
     let result = zend_hash_real_init_packed result;
     Some (fill_packed (map (\<lambda>(h, key, entry). unref entry) (foreach_entries False g source)) result) }"

definition zend_array_is_list :: "'v eg \<Rightarrow> 'v hashtable \<Rightarrow> bool" where
  "zend_array_is_list g ht =
     (if nNumOfElements ht = 0 then True
      else if f_packed ht \<and> HT_IS_WITHOUT_HOLES ht then True
      else snd (fold (\<lambda>(num_idx, str_idx, zv) (expected_idx, ok).
             if \<not> ok then (expected_idx, ok)
             else if str_idx \<noteq> None \<or> expected_idx \<noteq> num_idx then (expected_idx, False)
             else (expected_idx + 1, True)) (foreach_entries False g ht) (0, True)))"

subsection \<open>The entries a loop visits\<close>

definition entry_key :: "u64 \<Rightarrow> zstr option \<Rightarrow> hkey" where
  "entry_key h k = (case k of None \<Rightarrow> KInt h | Some k \<Rightarrow> KStr (zs_val k))"

definition entry_elem :: "u64 \<times> zstr option \<times> 'v zval \<Rightarrow> hkey \<times> 'v zval" where
  "entry_elem = (\<lambda>(h, k, v). (entry_key h k, v))"

lemma map_filter_nth_upt:
  "n \<le> length xs \<Longrightarrow> List.map_filter (\<lambda>i. f (xs ! i)) [0..<n] = List.map_filter f (take n xs)"
proof (induction n)
  case (Suc n)
  then show ?case by (simp add: take_Suc_conv_app_nth List.map_filter_def)
qed (simp add: List.map_filter_simps)

lemma map_map_filter: "map h (List.map_filter f xs) = List.map_filter (\<lambda>x. map_option h (f x)) xs"
  by (induction xs) (simp_all add: List.map_filter_simps split: option.split)

lemma map_filter_map': "List.map_filter f (map h xs) = List.map_filter (\<lambda>x. f (h x)) xs"
  by (induction xs) (simp_all add: List.map_filter_simps split: option.split)

lemma map_filter_cong_set: "(\<And>x. x \<in> set xs \<Longrightarrow> f x = h x) \<Longrightarrow> List.map_filter f xs = List.map_filter h xs"
  by (induction xs) (simp_all add: List.map_filter_simps split: option.split)

lemma map_filter_filter: "List.map_filter f (filter P xs) = List.map_filter (\<lambda>x. if P x then f x else None) xs"
  by (induction xs) (simp_all add: List.map_filter_simps split: option.split)

lemma map_filter_map_filter:
  "List.map_filter f (List.map_filter h xs) = List.map_filter (\<lambda>x. case h x of None \<Rightarrow> None | Some y \<Rightarrow> f y) xs"
  by (induction xs) (simp_all add: List.map_filter_simps split: option.split)

lemma elems_map_filter:
  assumes "wf_ht ht"
  shows "elems ht = List.map_filter (\<lambda>i. map_option entry_elem (foreach_entry False g ht i)) [0..<nNumUsed ht]"
proof (cases "f_packed ht")
  case True
  then show ?thesis
    by (auto simp: elems_def packed_elems_def List.map_filter_def foreach_entry_def entry_elem_def entry_key_def o_def
        intro!: filter_cong map_cong)
next
  case False
  have n: "nNumUsed ht \<le> length (arData ht)"
  proof (cases "f_uninitialized ht")
    case True
    then show ?thesis using wf_uninitD [OF assms] by simp
  next
    case F: False
    note W = wf_htD [OF assms]
    then show ?thesis using mixed_shapeD(4) [OF W(5) [OF F False]] sizes_okD(3) [OF W(1)] by simp
  qed
  have "List.map_filter (\<lambda>i. map_option entry_elem (foreach_entry False g ht i)) [0..<nNumUsed ht] =
      List.map_filter (\<lambda>b. if live b then Some (bucket_elem b) else None) (take (nNumUsed ht) (arData ht))"
    using False
    by (subst map_filter_nth_upt [OF n, symmetric], intro map_filter_cong_set)
      (auto simp: foreach_entry_def entry_elem_def entry_key_def bucket_elem_def bucket_key_def live_def Let_def split: zval.split)
  also have "\<dots> = map bucket_elem (live_buckets ht)"
    by (simp add: live_buckets_def List.map_filter_def o_def cong: filter_cong)
  finally show ?thesis using False by (simp add: elems_def)
qed

lemma foreach_entries_elems:
  "wf_ht ht \<Longrightarrow> map entry_elem (foreach_entries False g ht) = elems ht"
  by (simp add: foreach_entries_def map_map_filter elems_map_filter [of ht g])

text \<open>Following indirect values is what duplicating with the identity does.\<close>

lemma foreach_entries_ind:
  assumes "wf_ht ht"
  shows "map entry_elem (foreach_entries True g ht) = dup_content id g ht"
proof -
  have *: "map_option entry_elem (foreach_entry True g ht i) =
      (case map_option entry_elem (foreach_entry False g ht i) of None \<Rightarrow> None
       | Some (k, v) \<Rightarrow> map_option (Pair k) (if f_packed ht then Some (id v) else dup_spec id g v))" for i
    by (auto simp: foreach_entry_def entry_elem_def dup_spec_def Let_def split: zval.split)
  show ?thesis
    unfolding dup_content_def elems_map_filter [OF assms, of g] foreach_entries_def map_map_filter map_filter_map_filter *
    by simp
qed

subsection \<open>Hash tables as stores\<close>

definition store :: "'v ctor \<Rightarrow> 'v zval \<Rightarrow> 'v zval" where
  "store ctor v = (case ctor of None \<Rightarrow> v | Some f \<Rightarrow> f v)"

definition hash_put :: "'v ctor \<Rightarrow> u64 \<times> zstr option \<Rightarrow> 'v zval \<Rightarrow> 'v eg \<times> 'v hashtable \<Rightarrow> ('v eg \<times> 'v hashtable) option" where
  "hash_put ctor = (\<lambda>(h, k) v (g, ht). after_ctor ctor
     (case k of Some k \<Rightarrow> zend_hash_update g ht k v | None \<Rightarrow> zend_hash_index_update g ht h v))"

definition table_frame :: "'v eg \<times> 'v hashtable \<Rightarrow> (nat \<Rightarrow> 'v zval) \<times> nat \<times> bool" where
  "table_frame = (\<lambda>(g, ht). (ind_slots g, ht_id ht, pDestructor ht))"

lemma updates_after_ctor:
  assumes "updates g ht k v res" "hash_room ht (Suc n)" "proper (store ctor v)"
  shows "\<exists>g' ht'. after_ctor ctor res = Some (g', ht') \<and> elems ht' = AList.update k (store ctor v) (elems ht) \<and>
     table_frame (g', ht') = table_frame (g, ht) \<and> hash_room ht' n"
proof -
  obtain g1 ht1 r where U: "res = Some (g1, ht1, Some r)" "wf_ht ht1" "elems ht1 = AList.update k v (elems ht)"
    "refers ht1 k r" "zref_val g1 ht1 r = v" "ind_slots g1 = ind_slots g" "pDestructor ht1 = pDestructor ht"
    "ht_id ht1 = ht_id ht" "grown ht ht1"
    using assms(1) by (auto simp: updates_def)
  have room: "hash_room ht1 n" using hash_room_grown [OF assms(2) U(2,9)] U(3) length_update_le by metis
  show ?thesis
  proof (cases ctor)
    case None
    then show ?thesis using U room by (simp add: after_ctor_def store_def table_frame_def)
  next
    case (Some f)
    have "proper (f v)" using assms(3) Some by (simp add: store_def)
    from write_ref [OF U(2,4) this, of g1] obtain ht2 where W: "zval_copy_value r (f v) (g1, ht1) = (g1, ht2)"
      "wf_ht ht2" "elems ht2 = AList.update k (f v) (elems ht1)" "pDestructor ht2 = pDestructor ht1" "ht_id ht2 = ht_id ht1"
      "nTableSize ht2 = nTableSize ht1" "f_packed ht2 = f_packed ht1" "f_uninitialized ht2 = f_uninitialized ht1" by metis
    have e: "elems ht2 = AList.update k (f v) (elems ht)" using W(3) U(3) by simp
    have "map fst (elems ht2) = map fst (elems ht1)" by (simp add: e U(3) update_keys)
    then have "length (elems ht2) = length (elems ht1)" by (metis length_map)
    then have "hash_room ht2 n" using room W by (simp add: hash_room_def)
    then show ?thesis using Some U W e by (simp add: after_ctor_def store_def table_frame_def)
  qed
qed

lemma hash_put_law:
  assumes "hash_room ht (Suc n)" "proper v" "proper (store ctor v)"
  shows "\<exists>g' ht'. hash_put ctor (h, k) v (g, ht) = Some (g', ht') \<and>
     elems ht' = AList.update (entry_key h k) (store ctor v) (elems ht) \<and>
     table_frame (g', ht') = table_frame (g, ht) \<and> hash_room ht' n"
proof -
  have wf: "wf_ht ht" "nTableSize ht < HT_MAX_SIZE" using hash_room_size [OF assms(1)] assms(1) by (simp_all add: hash_room_def)
  show ?thesis
  proof (cases k)
    case None
    then show ?thesis
      using updates_after_ctor [OF index_update_correct [OF wf assms(2)] assms(1,3)] by (simp add: hash_put_def entry_key_def)
  next
    case (Some s)
    have "updates g ht (KStr (zs_val s)) v (zend_hash_update g ht s v)"
      using update_i_correct(1) [OF wf assms(2)] by (simp add: zend_hash_update_def)
    from updates_after_ctor [OF this assms(1,3)] show ?thesis using Some by (simp add: hash_put_def entry_key_def)
  qed
qed

interpretation hash_store: keyed_store "\<lambda>s. hash_room (snd s)" "\<lambda>s. elems (snd s)" table_frame "hash_put ctor"
    "\<lambda>_ v. proper v \<and> proper (store ctor v)" "\<lambda>r. entry_key (fst r) (snd r)" "store ctor"
  for ctor :: "'v ctor"
proof
  fix s :: "'v eg \<times> 'v hashtable" and n and r :: "u64 \<times> zstr option" and v :: "'v zval"
  assume "hash_room (snd s) (Suc n)" "proper v \<and> proper (store ctor v)"
  then show "\<exists>s'. hash_put ctor r v s = Some s' \<and>
      elems (snd s') = AList.update (entry_key (fst r) (snd r)) (store ctor v) (elems (snd s)) \<and>
      table_frame s' = table_frame s \<and> hash_room (snd s') n"
    using hash_put_law [of "snd s" n v ctor "fst r" "snd r" "fst s"] by auto
qed

subsection \<open>Copying\<close>

lemma entry_proper:
  assumes "wf_ht ht" "i < nNumUsed ht" "foreach_entry ind g ht i = Some (h, k, v)" "\<forall>a. ind_slots g a \<noteq> UNINIT"
  shows "proper v"
proof -
  have "v \<noteq> IS_UNDEF" using assms(3) by (auto simp: foreach_entry_def Let_def split: if_splits prod.splits)
  moreover have "v \<noteq> UNINIT"
  proof (cases "f_packed ht")
    case True
    note P = wf_packed_hash [OF assms(1) True]
    have "arPacked ht ! i \<in> set (take (nNumUsed ht) (arPacked ht))"
      using assms(2) P(4) by (auto simp: in_set_conv_nth intro!: exI [of _ i])
    then show ?thesis using P(5) True assms(3) by (auto simp: foreach_entry_def Let_def split: if_splits)
  next
    case False
    have u: "\<not> f_uninitialized ht" using assms(1,2) wf_uninitD(2) by fastforce
    note W = wf_htD [OF assms(1)]
    have "arData ht ! i \<in> set (take (nNumUsed ht) (arData ht))"
      using used_bucket_in_take [OF W(1) W(5) [OF u False] assms(2)] .
    then have "bval (arData ht ! i) \<noteq> UNINIT" using mixed_shapeD(7) [OF W(5) [OF u False]] by (simp add: keys_ok_def)
    then show ?thesis using False assms(3,4)
      by (cases "bval (arData ht ! i)") (auto simp: foreach_entry_def Let_def split: if_splits)
  qed
  ultimately show ?thesis by (simp add: proper_def)
qed

text \<open>What the loop body does is one put of the entry, if there is one.\<close>

definition put_entry :: "'v ctor \<Rightarrow> 'v hashtable \<Rightarrow> nat \<Rightarrow> 'v eg \<times> 'v hashtable \<Rightarrow> ('v eg \<times> 'v hashtable) option" where
  "put_entry ctor source i = (\<lambda>(g, t). case foreach_entry True g source i of
     None \<Rightarrow> Some (g, t) | Some (h, k, v) \<Rightarrow> hash_put ctor (h, k) v (g, t))"

lemma copy_as_puts: "zend_hash_copy ctor source = opt_fold (put_entry ctor source) [0..<nNumUsed source]"
proof (cases "f_packed source")
  case True
  then show ?thesis
    by (auto simp: zend_hash_copy_def put_entry_def foreach_entry_def hash_put_def Let_def fun_eq_iff
        intro!: arg_cong [of _ _ "\<lambda>f. opt_fold f [0..<nNumUsed source] _"])
next
  case False
  then show ?thesis
    by (auto simp: zend_hash_copy_def put_entry_def foreach_entry_def hash_put_def Let_def fun_eq_iff
        intro!: arg_cong [of _ _ "\<lambda>f. opt_fold f [0..<nNumUsed source] _"] split: zval.split)
qed

definition entry_pair :: "bool \<Rightarrow> 'v eg \<Rightarrow> 'v hashtable \<Rightarrow> nat \<Rightarrow> ((u64 \<times> zstr option) \<times> 'v zval) option" where
  "entry_pair ind g ht i = map_option (\<lambda>(h, k, v). ((h, k), v)) (foreach_entry ind g ht i)"

lemma entry_pairs: "List.map_filter (entry_pair ind g ht) [0..<nNumUsed ht] = map (\<lambda>(h, k, v). ((h, k), v)) (foreach_entries ind g ht)"
  by (simp add: entry_pair_def [abs_def] foreach_entries_def map_map_filter)

lemma entry_pair_cong: "ind_slots g' = ind_slots g \<Longrightarrow> foreach_entry ind g' ht i = foreach_entry ind g ht i"
  by (auto simp: foreach_entry_def Let_def split: zval.split)

lemma fold_entries:
  "fold (\<lambda>(r, v). F (entry_key (fst r) (snd r)) v) (map (\<lambda>(h, k, v). ((h, k), v)) es) xs =
   fold (\<lambda>(k, v). F k v) (map entry_elem es) xs"
  by (induction es arbitrary: xs) (auto simp: entry_elem_def)

definition slots_ok :: "'v eg \<Rightarrow> bool" where
  "slots_ok g \<longleftrightarrow> (\<forall>a. ind_slots g a \<noteq> UNINIT)"

definition ctor_ok :: "'v ctor \<Rightarrow> bool" where
  "ctor_ok ctor \<longleftrightarrow> (\<forall>v. proper v \<longrightarrow> proper (store ctor v))"

lemma copy_correct:
  fixes source :: "'v hashtable"
  assumes "wf_ht source" "slots_ok g" "ctor_ok ctor" "hash_room target (length (dup_content id g source))"
  shows "\<exists>g' t. zend_hash_copy ctor source (g, target) = Some (g', t) \<and> wf_ht t \<and>
    elems t = fold (\<lambda>(k, v). AList.update k (store ctor v)) (dup_content id g source) (elems target) \<and>
    ind_slots g' = ind_slots g \<and> ht_id t = ht_id target \<and> pDestructor t = pDestructor target"
proof -
  note E = foreach_entries_ind [OF assms(1), of g]
  let ?f = "entry_pair True g source" and ?is = "[0..<nNumUsed source]"
  have len: "length (List.map_filter ?f ?is) = length (dup_content id g source)"
    by (simp add: entry_pairs flip: E)
  have "\<exists>s'. opt_fold (put_entry ctor source) ?is (g, target) = Some s' \<and> elems (snd s') =
      fold (\<lambda>(r, v). AList.update (entry_key (fst r) (snd r)) (store ctor v)) (List.map_filter ?f ?is)
        (elems (snd (g, target))) \<and>
      table_frame s' = table_frame (g, target) \<and> hash_room (snd s') 0"
  proof (rule hash_store.steps)
    show "hash_room (snd (g, target)) (0 + length (List.map_filter ?f ?is))"
      using assms(4) by (simp add: len)
    show "proper v \<and> proper (store ctor v)" if "i \<in> set ?is" "?f i = Some (r, v)" for i r v
      using that assms(2,3) entry_proper [OF assms(1), of i True g "fst r" "snd r" v]
      by (auto simp: entry_pair_def slots_ok_def ctor_ok_def)
    show "put_entry ctor source i s' = (case ?f i of None \<Rightarrow> Some s' | Some (r, v) \<Rightarrow> hash_put ctor r v s')"
      if "table_frame s' = table_frame (g, target)" for i and s' :: "'v eg \<times> 'v hashtable"
      using that entry_pair_cong [of "fst s'" g True source i]
      by (cases s') (auto simp: put_entry_def entry_pair_def table_frame_def split: option.split)
  qed
  then obtain g' t where "opt_fold (put_entry ctor source) ?is (g, target) = Some (g', t)"
    "elems t = fold (\<lambda>(r, v). AList.update (entry_key (fst r) (snd r)) (store ctor v)) (List.map_filter ?f ?is) (elems target)"
    "table_frame (g', t) = table_frame (g, target)" "hash_room t 0" by auto
  then show ?thesis unfolding copy_as_puts entry_pairs fold_entries [of "\<lambda>k v. AList.update k (store ctor v)"] E
    by (simp add: table_frame_def hash_room_def)
qed

text \<open>For a lookup: an element of the source wins.\<close>

lemma copy_map_of:
  "map_of (fold (\<lambda>(k, v). AList.update k (f v)) ys xs) = map_of xs ++ map_of (rev (map (\<lambda>(k, v). (k, f v)) ys))"
  by (induction ys arbitrary: xs) (auto simp: update_conv' map_add_upd_left map_add_assoc)

end
