(* ===== verification/ZendHashMerge.thy ===== *)
theory ZendHashMerge
  imports ZendHashCopy
begin

text \<open>
  \<open>zend_hash_merge\<close> into a target without indirect values: with \<open>overwrite\<close> every element of the source is
  put, without it only those whose key the target lacks. Both loops are interpretations of the store
  interface, the second one with its own law of insertion.
\<close>

subsection \<open>Insertions with \<open>HASH_UPDATE_INDIRECT\<close>\<close>

definition direct :: "'v zval \<Rightarrow> bool" where
  "direct v \<longleftrightarrow> (\<forall>a. v \<noteq> IS_INDIRECT a)"

definition all_direct :: "(hkey \<times> 'v zval) list \<Rightarrow> bool" where
  "all_direct xs \<longleftrightarrow> (\<forall>(k, v) \<in> set xs. direct v)"

lemma all_direct_update: "all_direct xs \<Longrightarrow> direct v \<Longrightarrow> all_direct (AList.update k v xs)"
  by (induction xs) (auto simp: all_direct_def)

lemma all_direct_find: "all_direct (elems ht) \<Longrightarrow> abs_find ht k = Some v \<Longrightarrow> direct v"
  by (auto simp: abs_find_def all_direct_def dest: map_of_SomeD)

lemma ind_flag_tests [simp]:
  "\<not> flag_set (HASH_UPDATE OR HASH_UPDATE_INDIRECT) HASH_ADD_NEW"
  "\<not> flag_set (HASH_ADD OR HASH_UPDATE_INDIRECT) HASH_ADD_NEW" "flag_set (HASH_ADD OR HASH_UPDATE_INDIRECT) HASH_ADD"
  "\<not> flag_set (HASH_ADD OR HASH_UPDATE_INDIRECT) HASH_LOOKUP"
  "new_value (HASH_ADD OR HASH_UPDATE_INDIRECT) v = v"
  by (simp_all add: flag_set_def new_value_def hash_flags)

lemma update_ind_correct:
  assumes "wf_ht ht" "nTableSize ht < HT_MAX_SIZE" "proper v" "all_direct (elems ht)"
  shows "updates g ht (KStr (zs_val key)) v (zend_hash_add_or_update_i g ht key v (HASH_UPDATE OR HASH_UPDATE_INDIRECT))"
proof (cases "KStr (zs_val key) \<in> fst ` set (elems ht)")
  case True
  note m = str_key_mixed [OF assms(1) True]
  obtain p where p: "lookup_idx ht (KStr (zs_val key)) = Some p" "abs_find ht (KStr (zs_val key)) = Some (bval (arData ht ! p))"
    using present_mixed [OF assms(1) m True] by metis
  have "direct (bval (arData ht ! p))" using all_direct_find [OF assms(4) p(2)] .
  then have "zend_hash_add_or_update_i g ht key v (HASH_UPDATE OR HASH_UPDATE_INDIRECT) = replace_value g ht (BucketVal p) v"
    using add_or_update_found [OF assms(1) ind_flag_tests(1) True p(1)]
    by (simp add: add_found_simps direct_def split: zval.split)
  then show ?thesis using replace_bucket_value [OF assms(1) m True p(1) assms(3)] by simp
next
  case False
  show ?thesis using add_or_update_new [OF assms(1,2) _ False, of "HASH_UPDATE OR HASH_UPDATE_INDIRECT" v g] assms(3)
    by (intro inserted_updates [OF _ False]) simp
qed

lemma add_ind_correct:
  assumes "wf_ht ht" "nTableSize ht < HT_MAX_SIZE" "proper v" "all_direct (elems ht)"
  shows "if KStr (zs_val key) \<in> fst ` set (elems ht)
    then zend_hash_add_or_update_i g ht key v (HASH_ADD OR HASH_UPDATE_INDIRECT) = Some (g, ht, None)
    else inserted g ht (KStr (zs_val key)) v (zend_hash_add_or_update_i g ht key v (HASH_ADD OR HASH_UPDATE_INDIRECT))"
proof (cases "KStr (zs_val key) \<in> fst ` set (elems ht)")
  case True
  note m = str_key_mixed [OF assms(1) True]
  obtain p where p: "lookup_idx ht (KStr (zs_val key)) = Some p" "abs_find ht (KStr (zs_val key)) = Some (bval (arData ht ! p))"
    using present_mixed [OF assms(1) m True] by metis
  have "direct (bval (arData ht ! p))" using all_direct_find [OF assms(4) p(2)] .
  then have "zend_hash_add_or_update_i g ht key v (HASH_ADD OR HASH_UPDATE_INDIRECT) = Some (g, ht, None)"
    using add_or_update_found [OF assms(1) ind_flag_tests(2) True p(1), of g v]
    by (simp add: add_found_def direct_def split: zval.split)
  then show ?thesis using True by simp
next
  case False
  then show ?thesis
    using add_or_update_new [OF assms(1,2) _ False, of "HASH_ADD OR HASH_UPDATE_INDIRECT" v g] assms(3) by simp
qed

subsection \<open>The two ways to put an element\<close>

definition merge_put :: "'v ctor \<Rightarrow> bool \<Rightarrow> u64 \<times> zstr option \<Rightarrow> 'v zval \<Rightarrow> 'v eg \<times> 'v hashtable \<Rightarrow> ('v eg \<times> 'v hashtable) option" where
  "merge_put ctor overwrite = (\<lambda>(h, k) v (g, ht). after_ctor ctor
     (case k of
        Some k \<Rightarrow> zend_hash_add_or_update_i g ht k v (if overwrite then HASH_UPDATE OR HASH_UPDATE_INDIRECT else HASH_ADD OR HASH_UPDATE_INDIRECT)
      | None \<Rightarrow> if overwrite then zend_hash_index_update g ht h v else zend_hash_index_add g ht h v))"

definition merge_elem :: "bool \<Rightarrow> hkey \<Rightarrow> 'v zval \<Rightarrow> (hkey \<times> 'v zval) list \<Rightarrow> (hkey \<times> 'v zval) list" where
  "merge_elem overwrite k v xs = (if \<not> overwrite \<and> k \<in> fst ` set xs then xs else AList.update k v xs)"

lemma merge_put_law:
  assumes "hash_room ht (Suc n)" "all_direct (elems ht)" "proper v" "proper (store ctor v)" "direct (store ctor v)"
  shows "\<exists>g' ht'. merge_put ctor overwrite (h, k) v (g, ht) = Some (g', ht') \<and>
     elems ht' = merge_elem overwrite (entry_key h k) (store ctor v) (elems ht) \<and>
     table_frame (g', ht') = table_frame (g, ht) \<and> hash_room ht' n \<and> all_direct (elems ht')"
proof -
  define res where "res = (case k of
        Some k \<Rightarrow> zend_hash_add_or_update_i g ht k v (if overwrite then HASH_UPDATE OR HASH_UPDATE_INDIRECT else HASH_ADD OR HASH_UPDATE_INDIRECT)
      | None \<Rightarrow> if overwrite then zend_hash_index_update g ht h v else zend_hash_index_add g ht h v)"
  have put: "merge_put ctor overwrite (h, k) v (g, ht) = after_ctor ctor res" by (simp add: merge_put_def res_def)
  have wf: "wf_ht ht" "nTableSize ht < HT_MAX_SIZE" using hash_room_size [OF assms(1)] assms(1) by (simp_all add: hash_room_def)
  let ?k = "entry_key h k"
  have I: "inserted g ht ?k v res \<Longrightarrow> ?k \<notin> fst ` set (elems ht) \<Longrightarrow> updates g ht ?k v res" by (rule inserted_updates)
  consider (skip) "\<not> overwrite" "?k \<in> fst ` set (elems ht)" "res = Some (g, ht, None)"
    | (put) "overwrite \<or> ?k \<notin> fst ` set (elems ht)" "updates g ht ?k v res"
    using I index_update_correct [OF wf assms(3)] index_add_correct [OF wf assms(3)]
      update_ind_correct [OF wf assms(3,2)] add_ind_correct [OF wf assms(3,2)]
    by (cases k; cases overwrite; cases "?k \<in> fst ` set (elems ht)") (auto simp: res_def entry_key_def)
  then show ?thesis
  proof cases
    case skip
    then show ?thesis using assms(1,2) hash_room_mono [OF assms(1)] unfolding put by (simp add: after_ctor_def merge_elem_def)
  next
    case 2: put
    from updates_after_ctor [OF 2(2) assms(1,4)] show ?thesis
      using 2(1) all_direct_update [OF assms(2,5)] unfolding put by (auto simp: merge_elem_def)
  qed
qed

interpretation merge_store: keyed_fold "\<lambda>s n. hash_room (snd s) n \<and> all_direct (elems (snd s))" "\<lambda>s. elems (snd s)" table_frame
    "merge_put ctor overwrite" "\<lambda>_ v. proper v \<and> proper (store ctor v) \<and> direct (store ctor v)"
    "\<lambda>r v. merge_elem overwrite (entry_key (fst r) (snd r)) (store ctor v)"
  for ctor :: "'v ctor" and overwrite
proof
  fix s :: "'v eg \<times> 'v hashtable" and n and r :: "u64 \<times> zstr option" and v :: "'v zval"
  assume "hash_room (snd s) (Suc n) \<and> all_direct (elems (snd s))" "proper v \<and> proper (store ctor v) \<and> direct (store ctor v)"
  then show "\<exists>s'. merge_put ctor overwrite r v s = Some s' \<and>
      elems (snd s') = merge_elem overwrite (entry_key (fst r) (snd r)) (store ctor v) (elems (snd s)) \<and>
      table_frame s' = table_frame s \<and> hash_room (snd s') n \<and> all_direct (elems (snd s'))"
    using merge_put_law [of "snd s" n v ctor overwrite "fst r" "snd r" "fst s"] by auto
qed

subsection \<open>Merging\<close>

definition merge_entry :: "'v ctor \<Rightarrow> bool \<Rightarrow> 'v hashtable \<Rightarrow> nat \<Rightarrow> 'v eg \<times> 'v hashtable \<Rightarrow> ('v eg \<times> 'v hashtable) option" where
  "merge_entry ctor overwrite source i = (\<lambda>(g, t). case foreach_entry True g source i of
     None \<Rightarrow> Some (g, t) | Some (h, k, v) \<Rightarrow> merge_put ctor overwrite (h, k) v (g, t))"

lemma merge_as_puts: "zend_hash_merge ctor overwrite source = opt_fold (merge_entry ctor overwrite source) [0..<nNumUsed source]"
  by (cases "f_packed source"; cases overwrite)
    (auto simp: zend_hash_merge_def merge_entry_def foreach_entry_def merge_put_def Let_def fun_eq_iff
      intro!: arg_cong [of _ _ "\<lambda>f. opt_fold f [0..<nNumUsed source] _"] split: zval.split)

lemma merge_correct:
  fixes source :: "'v hashtable"
  assumes "wf_ht source" "slots_ok g" "ctor_ok ctor" "hash_room target (length (dup_content id g source))"
    and "all_direct (elems target)" "\<And>k v. (k, v) \<in> set (dup_content id g source) \<Longrightarrow> direct (store ctor v)"
  shows "\<exists>g' t. zend_hash_merge ctor overwrite source (g, target) = Some (g', t) \<and> wf_ht t \<and>
    elems t = fold (\<lambda>(k, v). merge_elem overwrite k (store ctor v)) (dup_content id g source) (elems target) \<and>
    ind_slots g' = ind_slots g \<and> ht_id t = ht_id target \<and> pDestructor t = pDestructor target"
proof -
  note E = foreach_entries_ind [OF assms(1), of g]
  let ?f = "entry_pair True g source" and ?is = "[0..<nNumUsed source]"
  have len: "length (List.map_filter ?f ?is) = length (dup_content id g source)"
    by (simp add: entry_pairs flip: E)
  have "\<exists>s'. opt_fold (merge_entry ctor overwrite source) ?is (g, target) = Some s' \<and> elems (snd s') =
      fold (\<lambda>(r, v). merge_elem overwrite (entry_key (fst r) (snd r)) (store ctor v)) (List.map_filter ?f ?is)
        (elems (snd (g, target))) \<and>
      table_frame s' = table_frame (g, target) \<and> hash_room (snd s') 0 \<and> all_direct (elems (snd s'))"
  proof (rule merge_store.steps)
    show "hash_room (snd (g, target)) (0 + length (List.map_filter ?f ?is)) \<and> all_direct (elems (snd (g, target)))"
      using assms(4,5) by (simp add: len)
    show "proper v \<and> proper (store ctor v) \<and> direct (store ctor v)" if i: "i \<in> set ?is" "?f i = Some (r, v)" for i r v
    proof -
      have e: "foreach_entry True g source i = Some (fst r, snd r, v)" using i(2) by (auto simp: entry_pair_def)
      then have "(fst r, snd r, v) \<in> set (foreach_entries True g source)"
        using i(1) by (force simp: foreach_entries_def List.map_filter_def image_iff)
      then have "(entry_key (fst r) (snd r), v) \<in> set (dup_content id g source)"
        unfolding E [symmetric] by (force simp: entry_elem_def)
      then have "direct (store ctor v)" by (rule assms(6))
      then show ?thesis using i(1) e assms(2,3) entry_proper [OF assms(1), of i True g "fst r" "snd r" v]
        by (auto simp: slots_ok_def ctor_ok_def)
    qed
    show "merge_entry ctor overwrite source i s' = (case ?f i of None \<Rightarrow> Some s' | Some (r, v) \<Rightarrow> merge_put ctor overwrite r v s')"
      if "table_frame s' = table_frame (g, target)" for i and s' :: "'v eg \<times> 'v hashtable"
      using that entry_pair_cong [of "fst s'" g True source i]
      by (cases s') (auto simp: merge_entry_def entry_pair_def table_frame_def split: option.split)
  qed
  then obtain g' t where "opt_fold (merge_entry ctor overwrite source) ?is (g, target) = Some (g', t)"
    "elems t = fold (\<lambda>(r, v). merge_elem overwrite (entry_key (fst r) (snd r)) (store ctor v)) (List.map_filter ?f ?is) (elems target)"
    "table_frame (g', t) = table_frame (g, target)" "hash_room t 0" by auto
  then show ?thesis unfolding merge_as_puts entry_pairs fold_entries [of "\<lambda>k v. merge_elem overwrite k (store ctor v)"] E
    by (simp add: table_frame_def hash_room_def)
qed

text \<open>As maps: with \<open>overwrite\<close> the source wins, without it the target.\<close>

lemma fold_merge_map_of:
  "map_of (fold (\<lambda>(k, v). merge_elem overwrite k (f v)) ys xs) =
     (if overwrite then map_of xs ++ map_of (rev (map (\<lambda>(k, v). (k, f v)) ys))
      else map_of (map (\<lambda>(k, v). (k, f v)) ys) ++ map_of xs)"
proof (induction ys arbitrary: xs)
  case (Cons p ys)
  obtain k v where p: "p = (k, v)" by fastforce
  show ?case
  proof (cases "overwrite")
    case True
    then show ?thesis using Cons by (simp add: p merge_elem_def update_conv' map_add_upd_left map_add_assoc)
  next
    case False
    show ?thesis
    proof (cases "k \<in> fst ` set xs")
      case in_xs: True
      then obtain w where "map_of xs k = Some w" using map_of_eq_None_iff [of xs k] by fastforce
      then show ?thesis using Cons False in_xs by (auto simp: p merge_elem_def map_add_def fun_eq_iff split: option.split)
    next
      case not_in: False
      then have "map_of xs k = None" using map_of_eq_None_iff [of xs k] by simp
      then show ?thesis using Cons False not_in by (auto simp: p merge_elem_def update_conv' map_add_def fun_eq_iff split: option.split)
    qed
  qed
qed simp

end
