(* ===== verification/ZendHashConvert.thy ===== *)
theory ZendHashConvert
  imports ZendHashMerge
begin

text \<open>
  Conversions between symbol tables and property tables, and of an array to a list. Converting a
  symbol table to a property table and back gives the keys it had: the two key translations are
  inverse to each other because a string is numeric exactly when it is the printed form of an
  integer (\<open>handle_numeric_iff_printed\<close>).
\<close>

subsection \<open>A new table has room\<close>

lemma unat_of_nat_u32: "n < 2 ^ 32 \<Longrightarrow> unat (of_nat n :: u32) = n"
  by (simp add: unat_of_nat take_bit_eq_mod)

lemma new_array_room:
  assumes "16 * n \<le> HT_MAX_SIZE"
  shows "\<exists>ht. zend_new_array i (of_nat n) = Some ht \<and> hash_room ht n \<and> elems ht = [] \<and> f_uninitialized ht \<and>
    n \<le> nTableSize ht \<and> ht_id ht = i \<and> nNumUsed ht = 0 \<and> nNumOfElements ht = 0"
proof -
  have n: "n \<le> 67108864" "unat (of_nat n :: u32) = n"
    using assms by (simp_all add: HT_MAX_SIZE_def unat_of_nat_u32)
  obtain k where k: "zend_hash_check_size (of_nat n) = Some (2 ^ k)" "3 \<le> k" "k \<le> 28" "n \<le> 2 ^ k"
  proof (cases "(of_nat n :: u32) \<le> of_nat HT_MIN_SIZE")
    case True
    then have "n \<le> 8" using n by (simp add: word_le_nat_alt HT_MIN_SIZE_def)
    then show thesis using that [of 3] True by (simp add: zend_hash_check_size_def HT_MIN_SIZE_def)
  next
    case False
    have "\<not> of_nat n > (of_nat HT_MAX_SIZE :: u32)" using n by (simp add: word_less_nat_alt HT_MAX_SIZE_def)
    from check_size_middle [OF False this] obtain k where k: "2 ^ k < n" "n \<le> 2 ^ Suc k" "3 \<le> k"
      "zend_hash_check_size (of_nat n) = Some (2 ^ Suc k)" using n(2) by metis
    have "(2::nat) ^ k < 2 ^ 27" using k(1) n(1) by simp
    then have "k < 27" by (rule power_less_imp_less_exp [rotated]) simp
    then show thesis using that [of "Suc k"] k by simp
  qed
  have "(2::nat) ^ k \<le> 2 ^ 28" using k(3) by (intro power_increasing) auto
  then have "(2::nat) ^ k \<le> HT_MAX_SIZE div 4" by (simp add: HT_MAX_SIZE_def)
  moreover have "\<exists>j \<in> {3..30}. (2::nat) ^ k = 2 ^ j" using k by (intro bexI [of _ k]) auto
  ultimately show ?thesis
    using k assms
    by (simp add: zend_new_array_def zend_hash_init_int_def hash_room_def wf_ht_def sizes_ok_def next_free_ok_def elems_def
        live_buckets_def wf_uninit_def no_data_def)
qed

subsection \<open>Keys\<close>

definition prop_key :: "hkey \<Rightarrow> hkey" where
  "prop_key k = (case k of KInt n \<Rightarrow> KStr (zend_long_to_str n) | KStr s \<Rightarrow> KStr s)"

definition sym_key :: "hkey \<Rightarrow> hkey" where
  "sym_key k = (case k of KInt n \<Rightarrow> KInt n
     | KStr s \<Rightarrow> (case zend_handle_numeric_str s of Some n \<Rightarrow> KInt n | None \<Rightarrow> KStr s))"

definition symtable_key :: "hkey \<Rightarrow> bool" where
  "symtable_key k \<longleftrightarrow> (case k of KInt n \<Rightarrow> True | KStr s \<Rightarrow> zend_handle_numeric_str s = None)"

lemma sym_prop_key: "symtable_key k \<Longrightarrow> sym_key (prop_key k) = k"
  using handle_numeric_iff_printed [of "zend_long_to_str n" n for n]
  by (cases k) (auto simp: sym_key_def prop_key_def symtable_key_def)

lemma prop_key_inj: "inj_on prop_key {k. symtable_key k}"
  by (rule inj_on_inverseI [where g = sym_key]) (simp add: sym_prop_key)

definition symtable :: "'v hashtable \<Rightarrow> bool" where
  "symtable ht \<longleftrightarrow> (\<forall>k \<in> fst ` set (elems ht). symtable_key k)"

lemma elems_distinct_keys: "wf_ht ht \<Longrightarrow> distinct (map fst (elems ht))"
  by (rule elems_distinct)

definition unref_proper :: "('v zval \<Rightarrow> 'v zval) \<Rightarrow> bool" where
  "unref_proper unref \<longleftrightarrow> (\<forall>v. proper v \<longrightarrow> proper (unref v))"

lemma foreach_proper:
  assumes "wf_ht ht" "slots_ok g"
  shows "list_all (\<lambda>e. proper (snd (snd e))) (foreach_entries ind g ht)"
proof -
  have "proper v" if e: "(h, k, v) \<in> set (foreach_entries ind g ht)" for h k v
  proof -
    obtain i where "i < nNumUsed ht" "foreach_entry ind g ht i = Some (h, k, v)"
      using e by (auto simp: foreach_entries_def List.map_filter_def)
    then show ?thesis using entry_proper [OF assms(1), of i ind g h k v] assms(2) by (auto simp: slots_ok_def)
  qed
  then show ?thesis by (auto simp: list_all_iff)
qed

text \<open>Filling a new table from the entries of another one, with the keys renamed to distinct ones.\<close>

lemma fill_new:
  fixes es :: "(u64 \<times> zstr option \<times> 'v zval) list" and f :: "u64 \<times> zstr option \<times> 'v zval \<Rightarrow> u64 \<times> zstr option"
  assumes "16 * n \<le> HT_MAX_SIZE" "length es \<le> n" "list_all (\<lambda>e. proper (snd (snd e))) es" "unref_proper unref"
    and "distinct (map (\<lambda>e. entry_key (fst (f e)) (snd (f e))) es)"
    and step: "\<And>e s. step e s = hash_put None (f e) (unref (snd (snd e))) s"
  shows "\<exists>ht0 g' t. zend_new_array i (of_nat n) = Some ht0 \<and> opt_fold step es (g, ht0) = Some (g', t) \<and> wf_ht t \<and>
    elems t = map (\<lambda>e. (entry_key (fst (f e)) (snd (f e)), unref (snd (snd e)))) es \<and> ind_slots g' = ind_slots g \<and> ht_id t = i"
proof -
  obtain ht0 :: "'v hashtable" where N: "zend_new_array i (of_nat n) = Some ht0" "hash_room ht0 n" "elems ht0 = []" "ht_id ht0 = i"
    using new_array_room [OF assms(1), of i] by metis
  have room: "hash_room ht0 (length es)" using N(2) assms(2) by (simp add: hash_room_def)
  let ?F = "\<lambda>e. Some (f e, unref (snd (snd e)))"
  have all: "List.map_filter ?F es = map (\<lambda>e. (f e, unref (snd (snd e)))) es" by (simp add: List.map_filter_def o_def)
  have wf: "\<exists>s'. opt_fold step es (g, ht0) = Some s' \<and>
      elems (snd s') = fold (\<lambda>(r, v). AList.update (entry_key (fst r) (snd r)) (store None v)) (List.map_filter ?F es) (elems (snd (g, ht0))) \<and>
      table_frame s' = table_frame (g, ht0) \<and> hash_room (snd s') 0"
    by (rule hash_store.steps) (use room assms(3,4) step in \<open>auto simp: all store_def unref_proper_def list_all_iff\<close>)
  then obtain g' t where R: "opt_fold step es (g, ht0) = Some (g', t)" "table_frame (g', t) = table_frame (g, ht0)" "hash_room t 0"
    "elems t = fold (\<lambda>(r, v). AList.update (entry_key (fst r) (snd r)) (store None v)) (List.map_filter ?F es) []"
    using N(3) by auto
  have "elems t = map (\<lambda>e. (entry_key (fst (f e)) (snd (f e)), unref (snd (snd e)))) es"
    unfolding R(4) using hash_store.fold_update_fresh [where ctor = None and rvs = "List.map_filter ?F es" and xs = "[]"] assms(5)
    by (simp add: all o_def store_def)
  then show ?thesis using N R by (auto simp: table_frame_def hash_room_def)
qed

subsection \<open>The conversions\<close>

definition prop_entry :: "u64 \<times> zstr option \<times> 'v zval \<Rightarrow> u64 \<times> zstr option" where
  "prop_entry = (\<lambda>(h, k, v). (h, Some (case k of Some k \<Rightarrow> k | None \<Rightarrow> long_key h)))"

definition sym_entry :: "u64 \<times> zstr option \<times> 'v zval \<Rightarrow> u64 \<times> zstr option" where
  "sym_entry = (\<lambda>(h, k, v). case k of None \<Rightarrow> (h, None)
     | Some s \<Rightarrow> (case zend_handle_numeric_str (zs_val s) of Some n \<Rightarrow> (n, None) | None \<Rightarrow> (h, Some s)))"

lemma prop_entry_key: "entry_key (fst (prop_entry e)) (snd (prop_entry e)) = prop_key (fst (entry_elem e))"
  by (cases e) (auto simp: prop_entry_def entry_elem_def entry_key_def prop_key_def long_key_def split: option.split)

lemma sym_entry_key: "entry_key (fst (sym_entry e)) (snd (sym_entry e)) = sym_key (fst (entry_elem e))"
  by (cases e) (auto simp: sym_entry_def entry_elem_def entry_key_def sym_key_def split: option.split)

lemma map_entry_keys: "map (\<lambda>e. F (fst (entry_elem e))) es = map (\<lambda>(k, v). F k) (map entry_elem es)"
  by (simp add: split_def)

lemma symtable_to_proptable_correct:
  fixes ht :: "'v hashtable"
  assumes "wf_ht ht" "slots_ok g" "unref_proper unref" "symtable ht" "16 * length (elems ht) \<le> HT_MAX_SIZE"
  shows "\<exists>g' r. zend_symtable_to_proptable unref i g ht = Some (g', r) \<and> ind_slots g' = ind_slots g \<and>
    (case r of
       None \<Rightarrow> \<forall>k \<in> fst ` set (elems ht). prop_key k = k
     | Some t \<Rightarrow> wf_ht t \<and> ht_id t = i \<and> elems t = map (\<lambda>(k, v). (prop_key k, unref v)) (elems ht))"
proof (cases "\<not> f_packed ht \<and> list_all (\<lambda>(h, str_key, zv). str_key \<noteq> None) (foreach_entries False g ht)")
  case True
  have "prop_key k = k" if "k \<in> fst ` set (elems ht)" for k
  proof -
    from that obtain h s v where e: "(h, s, v) \<in> set (foreach_entries False g ht)" "k = entry_key h s"
      unfolding foreach_entries_elems [OF assms(1), of g, symmetric] by (auto simp: entry_elem_def)
    then have "s \<noteq> None" using True by (auto simp: list_all_iff)
    then show ?thesis using e(2) by (auto simp: entry_key_def prop_key_def)
  qed
  then show ?thesis using True by (simp add: zend_symtable_to_proptable_def)
next
  case False
  let ?es = "foreach_entries False g ht"
  note E = foreach_entries_elems [OF assms(1), of g]
  have n: "nNumOfElements ht = length (elems ht)" by (rule elems_count [OF assms(1)])
  have "set (map fst (elems ht)) \<subseteq> {k. symtable_key k}" using assms(4) by (auto simp: symtable_def)
  then have "distinct (map prop_key (map fst (elems ht)))"
    unfolding distinct_map using elems_distinct_keys [OF assms(1)] prop_key_inj by (meson distinct_map inj_on_subset)
  then have D: "distinct (map (\<lambda>e. entry_key (fst (prop_entry e)) (snd (prop_entry e))) ?es)"
    unfolding prop_entry_key by (simp add: o_def flip: E)
  let ?step = "(\<lambda>(num_key, str_key, zv) (g, new_ht).
            let str_key = (case str_key of Some k \<Rightarrow> k | None \<Rightarrow> long_key num_key)
            in after_ctor None (zend_hash_update g new_ht str_key (unref zv)))"
  have L: "length ?es \<le> length (elems ht)" by (simp flip: E)
  have S: "?step e s = hash_put None (prop_entry e) (unref (snd (snd e))) s" for e and s :: "'v eg \<times> 'v hashtable"
    by (cases e; cases s) (simp add: prop_entry_def hash_put_def Let_def split: option.split)
  obtain ht0 g' t where N: "zend_new_array i (of_nat (length (elems ht))) = Some ht0"
    and R: "opt_fold ?step ?es (g, ht0) = Some (g', t)"
    and T: "wf_ht t" "elems t = map (\<lambda>e. (entry_key (fst (prop_entry e)) (snd (prop_entry e)), unref (snd (snd e)))) ?es"
      "ind_slots g' = ind_slots g" "ht_id t = i"
    using fill_new [OF assms(5) L foreach_proper [OF assms(1,2)] assms(3) D S, of i g]
    by blast
  have "elems t = map (\<lambda>(k, v). (prop_key k, unref v)) (elems ht)"
    unfolding T(2) prop_entry_key E [symmetric] by (auto simp: entry_elem_def)
  then show ?thesis using False N R T(1,3,4) n by (auto simp: zend_symtable_to_proptable_def)
qed

lemma proptable_to_symtable_correct:
  fixes ht :: "'v hashtable"
  assumes "wf_ht ht" "slots_ok g" "unref_proper unref" "16 * length (elems ht) \<le> HT_MAX_SIZE"
    and "distinct (map sym_key (map fst (elems ht)))" "all_direct (elems ht)"
  shows "\<exists>g' r. zend_proptable_to_symtable unref immutable i g ht False = Some (g', r) \<and> ind_slots g' = ind_slots g \<and>
    (case r of
       None \<Rightarrow> \<forall>k \<in> fst ` set (elems ht). sym_key k = k
     | Some t \<Rightarrow> wf_ht t \<and> ht_id t = i \<and> elems t = map (\<lambda>(k, v). (sym_key k, unref v)) (elems ht))"
proof (cases "\<not> f_packed ht \<and>
         list_ex (\<lambda>(h, str_key, zv). case str_key of Some k \<Rightarrow> zend_handle_numeric_str (zs_val k) \<noteq> None | None \<Rightarrow> False)
           (foreach_entries False g ht)")
  case False
  have "sym_key k = k" if "k \<in> fst ` set (elems ht)" for k
  proof (cases "f_packed ht")
    case True
    then show ?thesis using that by (auto simp: elems_def packed_elems_def sym_key_def)
  next
    case mixed: False
    from that obtain h s v where e: "(h, s, v) \<in> set (foreach_entries False g ht)" "k = entry_key h s"
      unfolding foreach_entries_elems [OF assms(1), of g, symmetric] by (auto simp: entry_elem_def)
    then show ?thesis using False mixed by (fastforce simp: list_ex_iff entry_key_def sym_key_def split: option.splits)
  qed
  then show ?thesis by (simp only: zend_proptable_to_symtable_def if_not_P [OF False]) simp
next
  case True
  let ?es = "foreach_entries True g ht"
  have E: "map entry_elem ?es = elems ht"
  proof -
    have "dup_spec id g v = Some v" if "(k, v) \<in> set (elems ht)" for k v
    proof -
      have "direct v" using assms(6) that by (auto simp: all_direct_def)
      moreover have "v \<noteq> IS_UNDEF" using that True by (auto simp: elems_def live_buckets_def bucket_elem_def live_def)
      ultimately show ?thesis by (auto simp: dup_spec_def direct_def split: zval.split)
    qed
    then have "dup_content id g ht = List.map_filter Some (elems ht)"
      unfolding dup_content_def by (intro map_filter_cong_set) auto
    then show ?thesis using foreach_entries_ind [OF assms(1), of g] by (simp add: List.map_filter_def)
  qed
  have n: "nNumOfElements ht = length (elems ht)" by (rule elems_count [OF assms(1)])
  have D: "distinct (map (\<lambda>e. entry_key (fst (sym_entry e)) (snd (sym_entry e))) ?es)"
    unfolding sym_entry_key using assms(5) by (simp add: o_def flip: E)
  let ?step = "(\<lambda>(num_key, str_key, zv) (g, new_ht).
            after_ctor None
              (case str_key of
                 None \<Rightarrow> zend_hash_index_update g new_ht num_key (unref zv)
               | Some k \<Rightarrow>
                   (case zend_handle_numeric_str (zs_val k) of
                      Some num_key \<Rightarrow> zend_hash_index_update g new_ht num_key (unref zv)
                    | None \<Rightarrow> zend_hash_update g new_ht k (unref zv))))"
  have L: "length ?es \<le> length (elems ht)" by (simp flip: E)
  have S: "?step e s = hash_put None (sym_entry e) (unref (snd (snd e))) s" for e and s :: "'v eg \<times> 'v hashtable"
    by (cases e; cases s) (simp add: sym_entry_def hash_put_def Let_def split: option.split)
  obtain ht0 g' t where N: "zend_new_array i (of_nat (length (elems ht))) = Some ht0"
    and R: "opt_fold ?step ?es (g, ht0) = Some (g', t)"
    and T: "wf_ht t" "elems t = map (\<lambda>e. (entry_key (fst (sym_entry e)) (snd (sym_entry e)), unref (snd (snd e)))) ?es"
      "ind_slots g' = ind_slots g" "ht_id t = i"
    using fill_new [OF assms(4) L foreach_proper [OF assms(1,2)] assms(3) D S, of i g]
    by blast
  have "elems t = map (\<lambda>(k, v). (sym_key k, unref v)) (elems ht)"
    unfolding T(2) sym_entry_key E [symmetric] by (auto simp: entry_elem_def)
  then show ?thesis using True N R T(1,3,4) n by (auto simp: zend_proptable_to_symtable_def)
qed

text \<open>The table a conversion leaves the caller with.\<close>

definition result_table :: "'v hashtable \<Rightarrow> 'v hashtable option \<Rightarrow> 'v hashtable" where
  "result_table ht r = (case r of None \<Rightarrow> ht | Some t \<Rightarrow> t)"

lemma result_table_simps [simp]: "result_table ht None = ht" "result_table ht (Some t) = t"
  by (simp_all add: result_table_def)

lemma conversion_round_trip:
  fixes ht :: "'v hashtable"
  assumes "wf_ht ht" "slots_ok g" "unref_proper unref" "symtable ht" "16 * length (elems ht) \<le> HT_MAX_SIZE"
    and "all_direct (elems ht)" and no_refs: "\<forall>(k, v) \<in> set (elems ht). unref v = v"
  shows "\<exists>g1 r1 g2 r2. zend_symtable_to_proptable unref i g ht = Some (g1, r1) \<and>
    wf_ht (result_table ht r1) \<and> elems (result_table ht r1) = map (\<lambda>(k, v). (prop_key k, v)) (elems ht) \<and>
    zend_proptable_to_symtable unref immutable j g1 (result_table ht r1) False = Some (g2, r2) \<and>
    wf_ht (result_table (result_table ht r1) r2) \<and> elems (result_table (result_table ht r1) r2) = elems ht"
proof -
  obtain g1 r1 where P: "zend_symtable_to_proptable unref i g ht = Some (g1, r1)" "ind_slots g1 = ind_slots g"
    "case r1 of None \<Rightarrow> \<forall>k \<in> fst ` set (elems ht). prop_key k = k
     | Some t \<Rightarrow> wf_ht t \<and> ht_id t = i \<and> elems t = map (\<lambda>(k, v). (prop_key k, unref v)) (elems ht)"
    using symtable_to_proptable_correct [OF assms(1-5)] by blast
  let ?p = "result_table ht r1"
  have p: "wf_ht ?p" "elems ?p = map (\<lambda>(k, v). (prop_key k, v)) (elems ht)"
  proof -
    have "map (\<lambda>(k, v). (prop_key k, unref v)) (elems ht) = map (\<lambda>(k, v). (prop_key k, v)) (elems ht)"
      using no_refs by auto
    moreover have "elems ht = map (\<lambda>(k, v). (prop_key k, v)) (elems ht)" if "\<forall>k \<in> fst ` set (elems ht). prop_key k = k"
      using that by (intro map_idI [symmetric]) force
    ultimately show "wf_ht ?p" "elems ?p = map (\<lambda>(k, v). (prop_key k, v)) (elems ht)"
      using P(3) assms(1) by (auto simp: result_table_def split: option.splits)
  qed
  have sym: "sym_key (prop_key k) = k" if "k \<in> fst ` set (elems ht)" for k
    using assms(4) that unfolding symtable_def by (blast intro: sym_prop_key)
  then have keys: "map sym_key (map fst (elems ?p)) = map fst (elems ht)" by (force simp: p(2))
  have undo: "map (\<lambda>(k, v). (sym_key k, unref v)) (elems ?p) = elems ht"
    unfolding p(2) map_map using sym no_refs by (intro map_idI) force
  have so: "slots_ok g1" using assms(2) P(2) by (simp add: slots_ok_def)
  have room: "16 * length (elems ?p) \<le> HT_MAX_SIZE" using assms(5) by (simp add: p(2))
  have d: "distinct (map sym_key (map fst (elems ?p)))" unfolding keys by (rule elems_distinct_keys [OF assms(1)])
  have dir: "all_direct (elems ?p)" using assms(6) by (auto simp: p(2) all_direct_def)
  obtain g2 r2 where S: "zend_proptable_to_symtable unref immutable j g1 ?p False = Some (g2, r2)"
    "case r2 of None \<Rightarrow> \<forall>k \<in> fst ` set (elems ?p). sym_key k = k
     | Some t \<Rightarrow> wf_ht t \<and> ht_id t = j \<and> elems t = map (\<lambda>(k, v). (sym_key k, unref v)) (elems ?p)"
    using proptable_to_symtable_correct [OF p(1) so assms(3) room d dir, of immutable j] by blast
  have "elems (result_table ?p r2) = elems ht"
  proof (cases r2)
    case None
    then have "\<forall>k \<in> fst ` set (elems ?p). sym_key k = k" using S(2) by simp
    then have "elems ?p = map (\<lambda>(k, v). (sym_key k, unref v)) (elems ?p)"
      using no_refs by (intro map_idI [symmetric]) (auto simp: p(2))
    then show ?thesis using undo None by simp
  next
    case (Some t)
    then show ?thesis using S(2) undo by simp
  qed
  moreover have "wf_ht (result_table ?p r2)" using S(2) p(1) by (cases r2) auto
  ultimately show ?thesis using P(1) S(1) p by blast
qed

subsection \<open>Lists\<close>

lemma fill_cells:
  "idx + length vs \<le> length cells \<Longrightarrow> fold (\<lambda>v (cells, idx). (cells[idx := v], idx + 1)) vs (cells, idx) =
     (take idx cells @ vs @ drop (idx + length vs) cells, idx + length vs)"
proof (induction vs arbitrary: cells idx)
  case (Cons v vs)
  then have "fold (\<lambda>v (cells, idx). (cells[idx := v], idx + 1)) vs (cells[idx := v], Suc idx) =
     (take (Suc idx) (cells[idx := v]) @ vs @ drop (Suc idx + length vs) (cells[idx := v]), Suc idx + length vs)" by simp
  moreover have "take (Suc idx) (cells[idx := v]) = take idx cells @ [v]" using Cons.prems by (simp add: take_Suc_conv_app_nth)
  ultimately show ?case by simp
qed simp

lemma array_to_list_correct:
  fixes source :: "'v hashtable"
  assumes "wf_ht source" "slots_ok g" "unref_proper unref" "16 * length (elems source) \<le> HT_MAX_SIZE"
  shows "\<exists>t. zend_array_to_list unref i g source = Some t \<and> wf_ht t \<and> f_packed t \<and> ht_id t = i \<and>
    elems t = map (\<lambda>n. (KInt (of_nat n), unref (snd (elems source ! n)))) [0..<length (elems source)]"
proof -
  let ?es = "foreach_entries False g source" and ?n = "length (elems source)"
  note E = foreach_entries_elems [OF assms(1), of g]
  have len: "length ?es = ?n" by (simp flip: E)
  have cnt: "nNumOfElements source = ?n" by (rule elems_count [OF assms(1)])
  obtain ht0 :: "'v hashtable" where N: "zend_new_array i (of_nat ?n) = Some ht0" "hash_room ht0 ?n" "f_uninitialized ht0"
    "?n \<le> nTableSize ht0" "ht_id ht0 = i" "nNumUsed ht0 = 0" "nNumOfElements ht0 = 0"
    using new_array_room [OF assms(4), of i] by metis
  define ht1 where "ht1 = zend_hash_real_init_packed_ex ht0"
  note R = real_init_packed_wf [of ht0, folded ht1_def]
  have W: "wf_ht ht1" "f_packed ht1" "nNumUsed ht1 = 0" "nTableSize ht1 = nTableSize ht0" "ht_id ht1 = i"
    using R N by (simp_all add: hash_room_def)
  note P = wf_packed_hash [OF W(1,2)]
  have wp: "wf_packed ht1" using wf_htD(4) [OF W(1) _ W(2)] P(1) by blast
  define vs where "vs = map (\<lambda>(h, key, entry). unref entry) ?es"
  have vs: "length vs = ?n" "list_all proper vs"
    using foreach_proper [OF assms(1,2), of False] assms(3) by (auto simp: vs_def len list_all_iff unref_proper_def)
  define t where "t = fill_packed vs ht1"
  have ne: "nNumOfElements ht1 = 0" using N by (simp add: ht1_def zend_hash_real_init_packed_ex_def)
  have la: "length (arPacked ht1) = nTableSize ht1" using wp by (simp add: wf_packed_def)
  have t: "t = ht1\<lparr>arPacked := vs @ drop ?n (arPacked ht1), nNumOfElements := ?n, nNumUsed := ?n,
            nNextFreeElement := of_nat ?n, nInternalPointer := 0\<rparr>"
    using fill_cells [of 0 vs "arPacked ht1"] vs(1) la W(3,4) N(4) ne by (simp add: t_def fill_packed_def)
  have vn: "vs ! k = unref (snd (elems source ! k))" "proper (vs ! k)" if "k < ?n" for k
  proof -
    have "elems source ! k = entry_elem (?es ! k)" using that len E by (metis nth_map)
    then show "vs ! k = unref (snd (elems source ! k))" using that len by (simp add: vs_def entry_elem_def split_def)
    show "proper (vs ! k)" using that vs by (simp add: list_all_length)
  qed
  have e: "elems t = map (\<lambda>n. (KInt (of_nat n), unref (snd (elems source ! n)))) [0..<?n]"
  proof -
    have "filter (\<lambda>i. \<not> is_undef ((vs @ drop ?n (arPacked ht1)) ! i)) [0..<?n] = [0..<?n]"
      by (rule filter_True) (use vn(2) vs(1) in \<open>auto simp: nth_append proper_def\<close>)
    then have "elems t = map (\<lambda>i. (KInt (of_nat i), (vs @ drop ?n (arPacked ht1)) ! i)) [0..<?n]"
      using W(2) by (simp add: elems_def packed_elems_def t)
    also have "\<dots> = map (\<lambda>n. (KInt (of_nat n), unref (snd (elems source ! n)))) [0..<?n]"
      using vn(1) vs(1) by (intro map_cong) (simp_all add: nth_append)
    finally show ?thesis .
  qed
  have n: "?n < HT_INVALID_IDX" using assms(4) by (simp add: HT_MAX_SIZE_def HT_INVALID_IDX_def)
  have "wf_packed t"
    using wp N(4) W(4) vs la n
    by (auto simp: wf_packed_def no_data_def t list_all_iff proper_def unat_of_index word_le_nat_alt ZEND_LONG_MAX_def HT_INVALID_IDX_def
        filter_id_conv [THEN iffD2])
  moreover have "next_free_ok t" by (rule packed_next_free [OF _ n]) (simp_all add: elems_def W(2) t)
  ultimately have "wf_ht t" using P(1,2) W(2,4) N(4) by (simp add: wf_ht_def sizes_ok_def t)
  moreover have "zend_array_to_list unref i g source = Some t"
    using N(1) by (simp add: zend_array_to_list_def cnt zend_hash_real_init_packed_def t_def ht1_def vs_def)
  ultimately show ?thesis using e W by (simp add: t)
qed

lemma is_list_loop:
  "(let (e, ok) = fold (\<lambda>(num_idx, str_idx, zv) (expected_idx, ok).
             if \<not> ok then (expected_idx, ok)
             else if str_idx \<noteq> None \<or> expected_idx \<noteq> num_idx then (expected_idx, False)
             else (expected_idx + 1, True)) es (of_nat n, True)
    in ok \<longleftrightarrow> map fst (map entry_elem es) = map (\<lambda>i. KInt (of_nat i)) [n..<n + length es])"
proof (induction es arbitrary: n)
  case (Cons p es)
  obtain h k v where p: "p = (h, k, v)" by (cases p)
  have stop: "fold (\<lambda>(num_idx, str_idx, zv) (expected_idx, ok).
             if \<not> ok then (expected_idx, ok)
             else if str_idx \<noteq> None \<or> expected_idx \<noteq> num_idx then (expected_idx, False)
             else (expected_idx + 1, True)) es (x, False) = (x, False)" for x :: u64
    by (induction es) auto
  have upt: "[n..<n + length (p # es)] = n # [Suc n..<Suc n + length es]" by (simp add: upt_conv_Cons del: upt_Suc)
  show ?case
  proof (cases "k = None \<and> h = of_nat n")
    case True
    have "(of_nat n + 1 :: u64) = of_nat (Suc n)" by simp
    then show ?thesis using True Cons.IH [of "Suc n"] unfolding upt
      by (simp add: p entry_elem_def entry_key_def split_def del: of_nat_Suc upt_Suc)
  next
    case False
    then show ?thesis unfolding upt by (auto simp: p stop entry_elem_def entry_key_def split: option.splits)
  qed
qed simp

lemma is_list_correct:
  assumes "wf_ht ht"
  shows "zend_array_is_list g ht \<longleftrightarrow> map fst (elems ht) = map (\<lambda>i. KInt (of_nat i)) [0..<length (elems ht)]"
proof -
  note E = foreach_entries_elems [OF assms, of g] and cnt = elems_count [OF assms]
  have len: "length (foreach_entries False g ht) = length (elems ht)" by (simp flip: E)
  have loop: "snd (fold (\<lambda>(num_idx, str_idx, zv) (expected_idx, ok).
             if \<not> ok then (expected_idx, ok)
             else if str_idx \<noteq> None \<or> expected_idx \<noteq> num_idx then (expected_idx, False)
             else (expected_idx + 1, True)) (foreach_entries False g ht) (0, True)) \<longleftrightarrow>
      map fst (elems ht) = map (\<lambda>i. KInt (of_nat i)) [0..<length (elems ht)]"
    using is_list_loop [of "foreach_entries False g ht" 0] by (simp add: split_def E len del: upt_Suc)
  have "map fst (elems ht) = map (\<lambda>i. KInt (of_nat i)) [0..<length (elems ht)]" if "f_packed ht" "HT_IS_WITHOUT_HOLES ht"
  proof -
    let ?is = "filter (\<lambda>i. \<not> is_undef (arPacked ht ! i)) [0..<nNumUsed ht]"
    have "length ?is = length [0..<nNumUsed ht]"
      using that cnt by (simp add: HT_IS_WITHOUT_HOLES_def elems_def packed_elems_def)
    then have "?is = [0..<nNumUsed ht]" by (metis filter_True length_filter_less nat_neq_iff)
    then show ?thesis using that(1) by (simp add: elems_def packed_elems_def)
  qed
  then show ?thesis unfolding zend_array_is_list_def using loop cnt by (auto simp del: upt_Suc)
qed

end
