(* ===== verification/ZendSortPerm.thy ===== *)
theory ZendSortPerm
  imports ZendSort
begin

text \<open>
  The sort for an arbitrary comparison function: it returns, permutes its segment and leaves the
  rest of the array alone. Every position it touches lies in the segment, so a broken user
  comparison cannot make it write out of bounds.
\<close>

definition permutes :: "nat \<Rightarrow> nat \<Rightarrow> 'a list \<Rightarrow> 'a list \<Rightarrow> bool" where
  "permutes b n xs ys \<longleftrightarrow> mset ys = mset xs \<and> (\<forall>k < length xs. k < b \<or> b + n \<le> k \<longrightarrow> ys ! k = xs ! k)"

lemma permutes_refl [simp]: "permutes b n xs xs"
  by (simp add: permutes_def)

lemma permutes_length: "permutes b n xs ys \<Longrightarrow> length ys = length xs"
  unfolding permutes_def by (metis size_mset)

lemma permutes_trans [trans]: "permutes b n xs ys \<Longrightarrow> permutes b n ys zs \<Longrightarrow> permutes b n xs zs"
  using permutes_length [of b n xs ys] by (simp add: permutes_def)

lemma permutes_mono: "permutes b n xs ys \<Longrightarrow> b' \<le> b \<Longrightarrow> b + n \<le> b' + n' \<Longrightarrow> permutes b' n' xs ys"
  by (auto simp: permutes_def)

lemma swp_length [simp]: "length (swp a c xs) = length xs"
  by (simp add: swp_def)

lemma swp_nth: "a < length xs \<Longrightarrow> c < length xs \<Longrightarrow>
   swp a c xs ! k = (if k = c then xs ! a else if k = a then xs ! c else xs ! k)"
  by (auto simp: swp_def nth_list_update)

lemma swp_permutes:
  assumes "b \<le> a" "a < b + n" "b \<le> c" "c < b + n" "b + n \<le> length xs"
  shows "permutes b n xs (swp a c xs)"
proof -
  have "mset (swp a c xs) = mset xs" unfolding swp_def using assms by (intro mset_swap) auto
  then show ?thesis using assms by (auto simp: permutes_def swp_nth)
qed

lemma permutes_swp:
  assumes "permutes b n xs ys" "b \<le> a" "a < b + n" "b \<le> c" "c < b + n" "b + n \<le> length xs"
  shows "permutes b n xs (swp a c ys)"
  using permutes_trans [OF assms(1) swp_permutes] assms permutes_length by metis

text \<open>The cells of a segment are permuted among themselves.\<close>

definition seg :: "nat \<Rightarrow> nat \<Rightarrow> 'a list \<Rightarrow> 'a list" where
  "seg b n xs = take n (drop b xs)"

lemma permutes_seg:
  assumes "permutes b n xs ys" "b + n \<le> length xs"
  shows "mset (seg b n ys) = mset (seg b n xs)"
proof -
  have len: "length ys = length xs" by (rule permutes_length [OF assms(1)])
  have t: "take b ys = take b xs" using assms len by (intro nth_equalityI) (auto simp: permutes_def)
  have d: "drop (b + n) ys = drop (b + n) xs" using assms len by (intro nth_equalityI) (auto simp: permutes_def)
  have split: "zs = take b zs @ seg b n zs @ drop (b + n) zs" for zs :: "'a list"
    unfolding seg_def by (metis append_take_drop_id drop_drop add.commute)
  have "mset (take b xs) + mset (seg b n ys) + mset (drop (b + n) xs) = mset (take b xs) + mset (seg b n xs) + mset (drop (b + n) xs)"
    using assms(1) split [of xs] split [of ys] t d unfolding permutes_def by (metis (no_types) mset_append union_assoc)
  then show ?thesis by simp
qed

lemma seg_set: "b + n \<le> length xs \<Longrightarrow> set (seg b n xs) = {xs ! k | k. b \<le> k \<and> k < b + n}"
proof -
  assume n: "b + n \<le> length xs"
  have "seg b n xs = map (\<lambda>i. xs ! (b + i)) [0..<n]" using n by (intro nth_equalityI) (simp_all add: seg_def)
  then have "set (seg b n xs) = (\<lambda>i. xs ! (b + i)) ` {..<n}" by (simp add: atLeast0LessThan)
  also have "\<dots> = {xs ! k | k. b \<le> k \<and> k < b + n}"
  proof (intro set_eqI iffI)
    fix x assume "x \<in> {xs ! k | k. b \<le> k \<and> k < b + n}"
    then obtain k where "x = xs ! k" "b \<le> k" "k < b + n" by blast
    then show "x \<in> (\<lambda>i. xs ! (b + i)) ` {..<n}" by (intro image_eqI [of _ _ "k - b"]) auto
  qed force
  finally show ?thesis .
qed

lemma permutes_all:
  assumes "permutes b n xs ys" "b + n \<le> length xs" "\<And>k. b \<le> k \<Longrightarrow> k < b + n \<Longrightarrow> P (xs ! k)" "b \<le> k" "k < b + n"
  shows "P (ys ! k)"
proof -
  have "set (seg b n ys) = set (seg b n xs)" using permutes_seg [OF assms(1,2)] by (metis set_mset_mset)
  moreover have "ys ! k \<in> set (seg b n ys)"
    using assms(2,4,5) permutes_length [OF assms(1)] by (auto simp: seg_set)
  ultimately obtain k' where "ys ! k = xs ! k'" "b \<le> k'" "k' < b + n"
    using assms(2) by (auto simp: seg_set)
  then show ?thesis using assms(3) by simp
qed

subsection \<open>Networks and insertion\<close>

lemma networks_permute:
  assumes "permutes b n xs ys" "b + n \<le> length xs"
  shows "{x, y, z} \<subseteq> {b..<b + n} \<Longrightarrow> permutes b n xs (zend_sort_2 cmp x y ys)"
    and "{x, y, z} \<subseteq> {b..<b + n} \<Longrightarrow> permutes b n xs (zend_sort_3 cmp x y z ys)"
    and "{w, x, y, z} \<subseteq> {b..<b + n} \<Longrightarrow> permutes b n xs (zend_sort_4 cmp w x y z ys)"
    and "{v, w, x, y, z} \<subseteq> {b..<b + n} \<Longrightarrow> permutes b n xs (zend_sort_5 cmp v w x y z ys)"
proof -
  note S = permutes_swp [OF _ _ _ _ _ assms(2)]
  show s3: "permutes b n xs (zend_sort_3 cmp x y z ys)" if "{x, y, z} \<subseteq> {b..<b + n}" for x y z
    using that assms(1) by (auto simp: zend_sort_3_def Let_def intro!: S)
  show s4: "permutes b n xs (zend_sort_4 cmp w x y z ys)" if "{w, x, y, z} \<subseteq> {b..<b + n}" for w x y z
    using that s3 [of w x y] by (auto simp: zend_sort_4_def Let_def intro!: S)
  show "permutes b n xs (zend_sort_5 cmp v w x y z ys)" if "{v, w, x, y, z} \<subseteq> {b..<b + n}"
    using that s4 [of v w x y] by (auto simp: zend_sort_5_def Let_def intro!: S)
  show "permutes b n xs (zend_sort_2 cmp x y ys)" if "{x, y, z} \<subseteq> {b..<b + n}"
    using that assms(1) by (auto simp: zend_sort_2_def intro!: S)
qed

lemma shift_down_permutes:
  "k < n \<Longrightarrow> b + n \<le> length xs \<Longrightarrow> permutes b n xs (shift_down b j k xs)"
proof (induction b j k xs rule: shift_down.induct)
  case (1 base j k xs)
  show ?case
  proof (cases "k > j")
    case True
    have "permutes base n xs (swp (base + k) (base + (k - 1)) xs)" using "1.prems" by (intro swp_permutes) auto
    moreover have "permutes base n (swp (base + k) (base + (k - 1)) xs) (shift_down base j (k - 1) (swp (base + k) (base + (k - 1)) xs))"
      using "1.IH" [OF True] "1.prems" by simp
    ultimately show ?thesis using True permutes_trans by (simp add: shift_down.simps [of base j k]) blast
  qed (simp add: shift_down.simps [of base j k])
qed

lemma insert_permutes:
  assumes "i < n" "b + n \<le> length xs"
  shows "permutes b n xs (insert_linear cmp b i xs)" "permutes b n xs (insert_stride cmp b i xs)"
  using shift_down_permutes [OF assms] by (simp_all add: insert_linear_def insert_stride_def Let_def)

lemma fold_permutes:
  assumes "\<And>i ys. i \<in> set is \<Longrightarrow> length ys = length xs \<Longrightarrow> permutes b n ys (f i ys)"
  shows "permutes b n xs (fold f is xs)"
  using assms
proof (induction "is" arbitrary: xs)
  case (Cons i "is")
  have 1: "permutes b n xs (f i xs)" using Cons.prems by simp
  have "permutes b n (f i xs) (fold f is (f i xs))"
    using Cons.prems permutes_length [OF 1] by (intro Cons.IH) simp
  then show ?case using 1 permutes_trans by simp blast
qed simp

lemma insert_sort_permutes:
  assumes "b + n \<le> length xs"
  shows "permutes b n xs (zend_insert_sort cmp b n xs)"
proof -
  note N = networks_permute [OF permutes_refl assms, where cmp = cmp]
  have "permutes b n xs (fold (insert_stride cmp b) [6..<n] (fold (insert_linear cmp b) [1..<6] xs))" if "6 \<le> n"
  proof -
    have 1: "permutes b n xs (fold (insert_linear cmp b) [1..<6] xs)"
      using assms that by (intro fold_permutes insert_permutes) auto
    moreover have "permutes b n (fold (insert_linear cmp b) [1..<6] xs) (fold (insert_stride cmp b) [6..<n] (fold (insert_linear cmp b) [1..<6] xs))"
      using assms permutes_length [OF 1] by (intro fold_permutes insert_permutes) auto
    ultimately show ?thesis by (rule permutes_trans)
  qed
  moreover have "permutes b n xs (zend_sort_2 cmp b (b + 1) xs)" if "n = 2"
    by (rule N(1) [of b "b + 1" b]) (use that in auto)
  moreover have "permutes b n xs (zend_sort_3 cmp b (b + 1) (b + 2) xs)" if "n = 3"
    by (rule N(2)) (use that in auto)
  moreover have "permutes b n xs (zend_sort_4 cmp b (b + 1) (b + 2) (b + 3) xs)" if "n = 4"
    by (rule N(3)) (use that in auto)
  moreover have "permutes b n xs (zend_sort_5 cmp b (b + 1) (b + 2) (b + 3) (b + 4) xs)" if "n = 5"
    by (rule N(4)) (use that in auto)
  moreover have "n = 0 \<or> n = 1 \<or> n = 2 \<or> n = 3 \<or> n = 4 \<or> n = 5 \<or> 6 \<le> n" by linarith
  ultimately show ?thesis by (auto simp: zend_insert_sort_def Let_def)
qed

end
