(* ===== verification/ZendSortSorted.thy ===== *)
theory ZendSortSorted
  imports ZendSortPerm
begin

text \<open>
  The sort under a comparison function that is a total preorder (locale \<open>comparator\<close>): the segment
  is sorted. The partition of the quicksort is analysed for an arbitrary function, so that the theorem
  on the whole sort covers both cases at once.
\<close>

locale comparator =
  fixes cmp :: "'a \<Rightarrow> 'a \<Rightarrow> int"
  assumes asym: "cmp x y > 0 \<Longrightarrow> \<not> cmp y x > 0"
    and trans: "\<not> cmp x y > 0 \<Longrightarrow> \<not> cmp y z > 0 \<Longrightarrow> \<not> cmp x z > 0"

definition sorted_seg :: "('a \<Rightarrow> 'a \<Rightarrow> int) \<Rightarrow> nat \<Rightarrow> nat \<Rightarrow> 'a list \<Rightarrow> bool" where
  "sorted_seg cmp b n xs \<longleftrightarrow> (\<forall>i j. i < j \<and> j < n \<longrightarrow> \<not> cmp (xs ! (b + i)) (xs ! (b + j)) > 0)"

lemma sorted_segD: "sorted_seg cmp b n xs \<Longrightarrow> i < j \<Longrightarrow> j < n \<Longrightarrow> \<not> cmp (xs ! (b + i)) (xs ! (b + j)) > 0"
  by (simp add: sorted_seg_def)

lemma sorted_seg_small: "n \<le> 1 \<Longrightarrow> sorted_seg cmp b n xs"
  by (simp add: sorted_seg_def)

lemma shift_down_nth:
  "k < n \<Longrightarrow> b + n \<le> length xs \<Longrightarrow> j \<le> k \<Longrightarrow> m < n \<Longrightarrow>
   shift_down b j k xs ! (b + m) =
     (if m = j then xs ! (b + k) else if j < m \<and> m \<le> k then xs ! (b + (m - 1)) else xs ! (b + m))"
proof (induction b j k xs rule: shift_down.induct)
  case (1 base j k xs)
  show ?case
  proof (cases "k > j")
    case True
    let ?ys = "swp (base + k) (base + (k - 1)) xs"
    have A: "shift_down base j (k - 1) ?ys ! (base + m) =
      (if m = j then ?ys ! (base + (k - 1)) else if j < m \<and> m \<le> k - 1 then ?ys ! (base + (m - 1)) else ?ys ! (base + m))"
      using True "1.prems" by (intro "1.IH") auto
    have e: "shift_down base j k xs = shift_down base j (k - 1) ?ys" using True by (simp add: shift_down.simps [of base j k])
    have y: "?ys ! (base + l) = (if l = k - 1 then xs ! (base + k) else if l = k then xs ! (base + (k - 1)) else xs ! (base + l))"
      if "l < n" for l
      using that "1.prems" True swp_nth [of "base + k" xs "base + (k - 1)" "base + l"] by auto
    have "k - 1 < n" "m - 1 < n" using "1.prems" by simp_all
    then show ?thesis unfolding e A y [OF \<open>k - 1 < n\<close>] y [OF \<open>m - 1 < n\<close>] y [OF \<open>m < n\<close>]
      using True by (cases k; cases m) (auto, metis le_antisym not_less_eq_eq)
  next
    case False
    then have "shift_down base j k xs = xs" by (simp add: shift_down.simps [of base j k xs])
    then show ?thesis using False "1.prems" by auto
  qed
qed

context comparator
begin

lemma refl: "\<not> cmp x x > 0"
  using asym [of x x] by blast

lemma sort_3_ordered:
  assumes "distinct [a, b, c]" "{a, b, c} \<subseteq> {..<length xs}"
  shows "\<not> cmp (zend_sort_3 cmp a b c xs ! a) (zend_sort_3 cmp a b c xs ! b) > 0"
    and "\<not> cmp (zend_sort_3 cmp a b c xs ! b) (zend_sort_3 cmp a b c xs ! c) > 0"
  using assms asym [of "xs ! a" "xs ! b"] asym [of "xs ! b" "xs ! c"] asym [of "xs ! a" "xs ! c"] asym [of "xs ! c" "xs ! b"]
  by (simp_all add: zend_sort_3_def Let_def swp_nth)

lemma sort_4_ordered:
  assumes "distinct [a, b, c, d]" "{a, b, c, d} \<subseteq> {..<length xs}"
  shows "\<not> cmp (zend_sort_4 cmp a b c d xs ! a) (zend_sort_4 cmp a b c d xs ! b) > 0"
    and "\<not> cmp (zend_sort_4 cmp a b c d xs ! b) (zend_sort_4 cmp a b c d xs ! c) > 0"
    and "\<not> cmp (zend_sort_4 cmp a b c d xs ! c) (zend_sort_4 cmp a b c d xs ! d) > 0"
proof -
  define ys where "ys = zend_sort_3 cmp a b c xs"
  have len: "length ys = length xs"
    unfolding ys_def using networks_permute(2) [OF permutes_refl, of 0 "length xs" xs a b c cmp] assms(2) permutes_length by auto
  have o: "\<not> cmp (ys ! a) (ys ! b) > 0" "\<not> cmp (ys ! b) (ys ! c) > 0"
    unfolding ys_def using sort_3_ordered [of a b c xs] assms by auto
  show "\<not> cmp (zend_sort_4 cmp a b c d xs ! a) (zend_sort_4 cmp a b c d xs ! b) > 0"
    and "\<not> cmp (zend_sort_4 cmp a b c d xs ! b) (zend_sort_4 cmp a b c d xs ! c) > 0"
    and "\<not> cmp (zend_sort_4 cmp a b c d xs ! c) (zend_sort_4 cmp a b c d xs ! d) > 0"
    unfolding zend_sort_4_def ys_def [symmetric] Let_def
    using assms o len asym [of "ys ! c" "ys ! d"] asym [of "ys ! b" "ys ! d"] asym [of "ys ! a" "ys ! d"]
    by (simp_all add: swp_nth)
qed

lemma sort_5_ordered:
  assumes "distinct [a, b, c, d, e]" "{a, b, c, d, e} \<subseteq> {..<length xs}"
  shows "\<not> cmp (zend_sort_5 cmp a b c d e xs ! a) (zend_sort_5 cmp a b c d e xs ! b) > 0"
    and "\<not> cmp (zend_sort_5 cmp a b c d e xs ! b) (zend_sort_5 cmp a b c d e xs ! c) > 0"
    and "\<not> cmp (zend_sort_5 cmp a b c d e xs ! c) (zend_sort_5 cmp a b c d e xs ! d) > 0"
    and "\<not> cmp (zend_sort_5 cmp a b c d e xs ! d) (zend_sort_5 cmp a b c d e xs ! e) > 0"
proof -
  have ne: "b \<noteq> a" "c \<noteq> a" "d \<noteq> a" "e \<noteq> a" "c \<noteq> b" "d \<noteq> b" "e \<noteq> b" "d \<noteq> c" "e \<noteq> c" "e \<noteq> d" using assms(1) by auto
  define ys where "ys = zend_sort_4 cmp a b c d xs"
  have len: "length ys = length xs"
    unfolding ys_def using networks_permute(3) [OF permutes_refl, of 0 "length xs" xs a b c d cmp] assms(2) permutes_length by auto
  have o: "\<not> cmp (ys ! a) (ys ! b) > 0" "\<not> cmp (ys ! b) (ys ! c) > 0" "\<not> cmp (ys ! c) (ys ! d) > 0"
    unfolding ys_def using sort_4_ordered [of a b c d xs] assms by auto
  show "\<not> cmp (zend_sort_5 cmp a b c d e xs ! a) (zend_sort_5 cmp a b c d e xs ! b) > 0"
    and "\<not> cmp (zend_sort_5 cmp a b c d e xs ! b) (zend_sort_5 cmp a b c d e xs ! c) > 0"
    and "\<not> cmp (zend_sort_5 cmp a b c d e xs ! c) (zend_sort_5 cmp a b c d e xs ! d) > 0"
    and "\<not> cmp (zend_sort_5 cmp a b c d e xs ! d) (zend_sort_5 cmp a b c d e xs ! e) > 0"
    unfolding zend_sort_5_def ys_def [symmetric] Let_def
    using assms ne o len asym [of "ys ! d" "ys ! e"] asym [of "ys ! c" "ys ! e"] asym [of "ys ! b" "ys ! e"] asym [of "ys ! a" "ys ! e"]
    by (simp_all add: swp_nth)
qed

text \<open>Where an insertion goes: every earlier cell is at most the new element, every later one at least.\<close>

lemma search_linear_spec:
  assumes "cmp (xs ! (b + j)) (xs ! (b + i)) > 0"
  shows "search_linear cmp xs b i j \<le> j \<and> \<not> cmp (xs ! (b + i)) (xs ! (b + search_linear cmp xs b i j)) > 0 \<and>
    (search_linear cmp xs b i j = 0 \<or> \<not> cmp (xs ! (b + (search_linear cmp xs b i j - 1))) (xs ! (b + i)) > 0)"
  using assms
proof (induction j)
  case 0
  then show ?case using asym by (auto simp: search_linear.simps [of cmp xs b i 0])
next
  case (Suc j)
  show ?case
  proof (cases "cmp (xs ! (b + j)) (xs ! (b + i)) > 0")
    case True
    then have "search_linear cmp xs b i (Suc j) = search_linear cmp xs b i j" by (simp add: search_linear.simps [of cmp xs b i "Suc j"])
    then show ?thesis using Suc.IH [OF True] by auto
  next
    case False
    then have "search_linear cmp xs b i (Suc j) = Suc j" by (simp add: search_linear.simps [of cmp xs b i "Suc j"])
    then show ?thesis using False asym [OF Suc.prems] by simp
  qed
qed

lemma search_stride_spec:
  assumes "cmp (xs ! (b + j)) (xs ! (b + i)) > 0" "2 \<le> j"
  shows "search_stride cmp xs b i j \<le> j \<and> \<not> cmp (xs ! (b + i)) (xs ! (b + search_stride cmp xs b i j)) > 0 \<and>
    (search_stride cmp xs b i j = 0 \<or> \<not> cmp (xs ! (b + (search_stride cmp xs b i j - 1))) (xs ! (b + i)) > 0)"
  using assms
proof (induction j rule: less_induct)
  case (less j)
  let ?r = "search_stride cmp xs b i j"
  note E = search_stride.simps [of cmp xs b i j]
  show ?case
  proof (cases "cmp (xs ! (b + (j - 2))) (xs ! (b + i)) > 0")
    case gt: True
    consider "j - 2 = 0" | "j - 2 = 1" | "2 \<le> j - 2" by linarith
    then show ?thesis
    proof cases
      case 1
      then have "?r = 0" using gt by (simp add: E)
      then show ?thesis using gt 1 asym by auto
    next
      case 2
      then have r: "?r = (if cmp (xs ! (b + i)) (xs ! (b + 0)) > 0 then 1 else 0)" using gt by (simp add: E Let_def)
      show ?thesis using 2 gt asym less.prems(2) unfolding r by auto
    next
      case 3
      then have nz: "(j - 2 = 0) = False" "(j - 2 = 1) = False" by simp_all
      then have "?r = search_stride cmp xs b i (j - 2)" by (simp only: E Let_def gt nz simp_thms if_True if_False)
      then show ?thesis using less.IH [of "j - 2"] gt 3 less.prems(2) by auto
    qed
  next
    case le: False
    show ?thesis
    proof (cases "cmp (xs ! (b + (j - 2 + 1))) (xs ! (b + i)) > 0")
      case True
      then have "?r = j - 2 + 1" using le by (simp add: E Let_def)
      then show ?thesis using le True asym less.prems(2) by auto
    next
      case False
      then have "?r = j" using le less.prems(2) by (simp add: E Let_def)
      moreover have "j - 2 + 1 = j - 1" using less.prems(2) by simp
      ultimately show ?thesis using False less.prems(1) asym by auto
    qed
  qed
qed

lemma insert_sorted:
  assumes "sorted_seg cmp b i xs" "Suc i \<le> n" "b + n \<le> length xs" "r < i"
    and "\<not> cmp (xs ! (b + i)) (xs ! (b + r)) > 0" "r = 0 \<or> \<not> cmp (xs ! (b + (r - 1))) (xs ! (b + i)) > 0"
  shows "sorted_seg cmp b (Suc i) (shift_down b r i xs)"
  unfolding sorted_seg_def
proof (intro allI impI)
  fix k l assume kl: "k < l \<and> l < Suc i"
  let ?x = "xs ! (b + i)"
  have N: "shift_down b r i xs ! (b + m) =
     (if m = r then ?x else if r < m \<and> m \<le> i then xs ! (b + (m - 1)) else xs ! (b + m))" if "m < Suc i" for m
    using that assms(2-4) by (intro shift_down_nth [where n = n]) auto
  have lo: "\<not> cmp (xs ! (b + m)) ?x > 0" if "m < r" for m
  proof (cases "m = r - 1")
    case False
    then have "\<not> cmp (xs ! (b + m)) (xs ! (b + (r - 1))) > 0" using that assms(1,4) by (intro sorted_segD) auto
    then show ?thesis using assms(6) that trans by (metis less_nat_zero_code)
  qed (use assms(6) that in auto)
  have hi: "\<not> cmp ?x (xs ! (b + m)) > 0" if "r \<le> m" "m < i" for m
  proof (cases "m = r")
    case False
    then have "\<not> cmp (xs ! (b + r)) (xs ! (b + m)) > 0" using that assms(1) by (intro sorted_segD) auto
    then show ?thesis using assms(5) trans by blast
  qed (use assms(5) in auto)
  have srt: "\<not> cmp (xs ! (b + m)) (xs ! (b + m')) > 0" if "m < m'" "m' < i" for m m'
    using assms(1) that by (rule sorted_segD)
  show "\<not> cmp (shift_down b r i xs ! (b + k)) (shift_down b r i xs ! (b + l)) > 0"
  proof -
    have nk: "k < Suc i" "l < Suc i" using kl by auto
    consider "l < r" | "l = r" | "k < r" "r < l" | "k = r" "r < l" | "r < k" using kl by linarith
    then show ?thesis
    proof cases
      case 1 then show ?thesis using kl srt [of k l] assms(4) unfolding N [OF nk(1)] N [OF nk(2)] by auto
    next
      case 2 then show ?thesis using kl lo [of k] unfolding N [OF nk(1)] N [OF nk(2)] by auto
    next
      case 3 then show ?thesis using kl srt [of k "l - 1"] unfolding N [OF nk(1)] N [OF nk(2)] by auto
    next
      case 4
      then have "r \<le> l - 1" "l - 1 < i" using kl by auto
      then show ?thesis using 4 kl hi [of "l - 1"] unfolding N [OF nk(1)] N [OF nk(2)] by simp
    next
      case 5
      then have "k - 1 < l - 1" "l - 1 < i" using kl by auto
      then show ?thesis using 5 kl srt [of "k - 1" "l - 1"] unfolding N [OF nk(1)] N [OF nk(2)] by simp
    qed
  qed
qed

lemma insert_steps_sorted:
  assumes "sorted_seg cmp b i xs" "Suc i \<le> n" "b + n \<le> length xs" "0 < i"
  shows "sorted_seg cmp b (Suc i) (insert_linear cmp b i xs)"
    and "3 \<le> i \<Longrightarrow> sorted_seg cmp b (Suc i) (insert_stride cmp b i xs)"
proof -
  have skip: "sorted_seg cmp b (Suc i) xs" if "\<not> cmp (xs ! (b + (i - 1))) (xs ! (b + i)) > 0"
    unfolding sorted_seg_def
  proof (intro allI impI)
    fix k l assume kl: "k < l \<and> l < Suc i"
    show "\<not> cmp (xs ! (b + k)) (xs ! (b + l)) > 0"
    proof (cases "l < i")
      case True
      then show ?thesis using kl assms(1) sorted_segD by blast
    next
      case False
      then have l: "l = i" using kl by simp
      show ?thesis
      proof (cases "k = i - 1")
        case True
        then show ?thesis using that l by simp
      next
        case False
        then have "\<not> cmp (xs ! (b + k)) (xs ! (b + (i - 1))) > 0" using kl l by (intro sorted_segD [OF assms(1)]) auto
        then show ?thesis using that l trans by blast
      qed
    qed
  qed
  note I = insert_sorted [OF assms(1-3)]
  show "sorted_seg cmp b (Suc i) (insert_linear cmp b i xs)"
  proof (cases "cmp (xs ! (b + (i - 1))) (xs ! (b + i)) > 0")
    case True
    have "sorted_seg cmp b (Suc i) (shift_down b (search_linear cmp xs b i (i - 1)) i xs)"
      using search_linear_spec [where xs = xs and b = b and i = i and j = "i - 1", OF True] assms(4) by (intro I) auto
    then show ?thesis using True by (simp add: insert_linear_def Let_def)
  qed (use skip in \<open>simp add: insert_linear_def Let_def\<close>)
  show "sorted_seg cmp b (Suc i) (insert_stride cmp b i xs)" if "3 \<le> i"
  proof (cases "cmp (xs ! (b + (i - 1))) (xs ! (b + i)) > 0")
    case True
    have "sorted_seg cmp b (Suc i) (shift_down b (search_stride cmp xs b i (i - 1)) i xs)"
      using search_stride_spec [where xs = xs and b = b and i = i and j = "i - 1", OF True] that
      by (intro I) (auto simp: le_diff_conv2)
    then show ?thesis using True by (simp add: insert_stride_def Let_def)
  qed (use skip in \<open>simp add: insert_stride_def Let_def\<close>)
qed

lemma sorted_seg_adjacent:
  assumes "\<And>i. Suc i < n \<Longrightarrow> \<not> cmp (xs ! (b + i)) (xs ! (b + Suc i)) > 0"
  shows "sorted_seg cmp b n xs"
proof -
  have "i < j \<Longrightarrow> j < n \<Longrightarrow> \<not> cmp (xs ! (b + i)) (xs ! (b + j)) > 0" for i j
  proof (induction j)
    case (Suc j)
    have step: "\<not> cmp (xs ! (b + j)) (xs ! (b + Suc j)) > 0" using assms Suc.prems by simp
    show ?case
    proof (cases "i = j")
      case False
      then have "\<not> cmp (xs ! (b + i)) (xs ! (b + j)) > 0" using Suc by simp
      then show ?thesis using step by (rule trans)
    qed (use step in simp)
  qed simp
  then show ?thesis by (simp add: sorted_seg_def)
qed

lemma fold_insert_sorted:
  assumes "\<And>i ys. a \<le> i \<Longrightarrow> i < c \<Longrightarrow> length ys = length xs \<Longrightarrow> sorted_seg cmp b i ys \<Longrightarrow>
      sorted_seg cmp b (Suc i) (f i ys) \<and> length (f i ys) = length xs"
    and "sorted_seg cmp b a xs" "a \<le> c"
  shows "sorted_seg cmp b c (fold f [a..<c] xs) \<and> length (fold f [a..<c] xs) = length xs"
  using assms(3,1)
proof (induction c rule: dec_induct)
  case base
  then show ?case using assms(2) by simp
next
  case (step c)
  have "sorted_seg cmp b c (fold f [a..<c] xs) \<and> length (fold f [a..<c] xs) = length xs"
    using step.prems by (intro step.IH) auto
  then show ?case using step.prems [of c "fold f [a..<c] xs"] step.hyps by simp
qed

lemma insert_sort_sorted:
  assumes "b + n \<le> length xs"
  shows "sorted_seg cmp b n (zend_insert_sort cmp b n xs)"
proof -
  have len: "length (insert_linear cmp b i ys) = length xs" "length (insert_stride cmp b i ys) = length xs"
    if "i < n" "length ys = length xs" for i ys
    using that insert_permutes [of i n b ys cmp] assms permutes_length by fastforce+
  have big: "sorted_seg cmp b n (fold (insert_stride cmp b) [6..<n] (fold (insert_linear cmp b) [1..<6] xs))" if "6 \<le> n"
  proof -
    have 1: "sorted_seg cmp b 6 (fold (insert_linear cmp b) [1..<6] xs) \<and> length (fold (insert_linear cmp b) [1..<6] xs) = length xs"
      by (rule fold_insert_sorted) (use that assms len in \<open>auto intro: insert_steps_sorted(1) [where n = n] simp: sorted_seg_small\<close>)
    have "sorted_seg cmp b n (fold (insert_stride cmp b) [6..<n] (fold (insert_linear cmp b) [1..<6] xs)) \<and>
        length (fold (insert_stride cmp b) [6..<n] (fold (insert_linear cmp b) [1..<6] xs)) = length (fold (insert_linear cmp b) [1..<6] xs)"
      using that assms len 1 by (intro fold_insert_sorted conjI insert_steps_sorted(2) [where n = n]) auto
    then show ?thesis by blast
  qed
  have S2: "sorted_seg cmp b 2 (zend_sort_2 cmp b (b + 1) xs)" if "n = 2"
    using that assms asym [of "xs ! b" "xs ! (b + 1)"] by (auto simp: sorted_seg_def zend_sort_2_def swp_nth less_Suc_eq numeral_2_eq_2)
  have S3: "sorted_seg cmp b 3 (zend_sort_3 cmp b (b + 1) (b + 2) xs)" if "n = 3"
    using sort_3_ordered [of b "b + 1" "b + 2" xs] that assms
    by (intro sorted_seg_adjacent) (auto simp: less_Suc_eq numeral_eq_Suc)
  have S4: "sorted_seg cmp b 4 (zend_sort_4 cmp b (b + 1) (b + 2) (b + 3) xs)" if "n = 4"
    using sort_4_ordered [of b "b + 1" "b + 2" "b + 3" xs] that assms
    by (intro sorted_seg_adjacent) (auto simp: less_Suc_eq numeral_eq_Suc)
  have S5: "sorted_seg cmp b 5 (zend_sort_5 cmp b (b + 1) (b + 2) (b + 3) (b + 4) xs)" if "n = 5"
    using sort_5_ordered [of b "b + 1" "b + 2" "b + 3" "b + 4" xs] that assms
    by (intro sorted_seg_adjacent) (auto simp: less_Suc_eq numeral_eq_Suc)
  have "n = 0 \<or> n = 1 \<or> n = 2 \<or> n = 3 \<or> n = 4 \<or> n = 5 \<or> 6 \<le> n" by linarith
  then show ?thesis using big S2 S3 S4 S5 by (auto simp: zend_insert_sort_def Let_def sorted_seg_small)
qed

end

subsection \<open>Partitioning\<close>

lemma scan_up_returns:
  "i < j \<Longrightarrow> \<exists>i' d. scan_up cmp xs b i j = Some (i', d) \<and> i \<le> i' \<and> i' \<le> j \<and> (d \<longleftrightarrow> i' = j) \<and>
     (\<forall>k. i \<le> k \<and> k < i' \<longrightarrow> cmp (xs ! (b + 1)) (xs ! (b + k)) > 0) \<and>
     (\<not> d \<longrightarrow> \<not> cmp (xs ! (b + 1)) (xs ! (b + i')) > 0)"
proof (induction "j - i" arbitrary: i rule: less_induct)
  case less
  note E = scan_up.simps [of cmp xs b i j]
  show ?case
  proof (cases "cmp (xs ! (b + 1)) (xs ! (b + i)) > 0")
    case gt: True
    show ?thesis
    proof (cases "i + 1 = j")
      case True
      then show ?thesis using gt by (simp add: E less_Suc_eq) (metis le_antisym less_Suc_eq_le)
    next
      case False
      then have sm: "j - (i + 1) < j - i" "i + 1 < j" using less.prems by auto
      from less.hyps [OF this] obtain i' d where R: "scan_up cmp xs b (i + 1) j = Some (i', d)" "i + 1 \<le> i'" "i' \<le> j" "d \<longleftrightarrow> i' = j"
        "\<forall>k. i + 1 \<le> k \<and> k < i' \<longrightarrow> cmp (xs ! (b + 1)) (xs ! (b + k)) > 0"
        "\<not> d \<longrightarrow> \<not> cmp (xs ! (b + 1)) (xs ! (b + i')) > 0"
        by blast
      have "scan_up cmp xs b i j = Some (i', d)" using gt False R(1) by (simp add: E)
      moreover have "cmp (xs ! (b + 1)) (xs ! (b + k)) > 0" if "i \<le> k" "k < i'" for k
        using R(5) gt that by (cases "k = i") auto
      ultimately show ?thesis using R by auto
    qed
  next
    case False
    then show ?thesis using less.prems by (simp add: E)
  qed
qed

lemma scan_down_returns:
  "i < j \<Longrightarrow> \<exists>j' d. scan_down cmp xs b i j = Some (j', d) \<and> i \<le> j' \<and> j' \<le> j \<and> (d \<longleftrightarrow> j' = i) \<and>
     (\<forall>k. j' < k \<and> k \<le> j \<longrightarrow> cmp (xs ! (b + k)) (xs ! (b + 1)) > 0) \<and>
     (\<not> d \<longrightarrow> \<not> cmp (xs ! (b + j')) (xs ! (b + 1)) > 0)"
proof (induction "j - i" arbitrary: j rule: less_induct)
  case less
  note E = scan_down.simps [of cmp xs b i j]
  show ?case
  proof (cases "cmp (xs ! (b + j)) (xs ! (b + 1)) > 0")
    case gt: True
    show ?thesis
    proof (cases "j - 1 = i")
      case True
      then have "j = k" if "i < k" "k \<le> j" for k using that by simp
      then show ?thesis using gt True less.prems by (intro exI [of _ i] exI [of _ True]) (auto simp: E)
    next
      case False
      then have sm: "(j - 1) - i < j - i" "i < j - 1" using less.prems by auto
      from less.hyps [OF this] obtain j' d where R: "scan_down cmp xs b i (j - 1) = Some (j', d)" "i \<le> j'" "j' \<le> j - 1" "d \<longleftrightarrow> j' = i"
        "\<forall>k. j' < k \<and> k \<le> j - 1 \<longrightarrow> cmp (xs ! (b + k)) (xs ! (b + 1)) > 0"
        "\<not> d \<longrightarrow> \<not> cmp (xs ! (b + j')) (xs ! (b + 1)) > 0"
        by blast
      have "scan_down cmp xs b i j = Some (j', d)" using gt False R(1) by (simp add: E)
      moreover have "cmp (xs ! (b + k)) (xs ! (b + 1)) > 0" if "j' < k" "k \<le> j" for k
        using R(5) gt that by (cases "k = j") auto
      ultimately show ?thesis using R by auto
    qed
  next
    case False
    then show ?thesis using less.prems by (auto simp: E)
  qed
qed

text \<open>On the left nothing is above the pivot as far as the answers tell, on the right nothing below.\<close>

definition low :: "('a \<Rightarrow> 'a \<Rightarrow> int) \<Rightarrow> 'a \<Rightarrow> 'a \<Rightarrow> bool" where
  "low cmp p x \<longleftrightarrow> cmp p x > 0 \<or> \<not> cmp x p > 0"

definition high :: "('a \<Rightarrow> 'a \<Rightarrow> int) \<Rightarrow> 'a \<Rightarrow> 'a \<Rightarrow> bool" where
  "high cmp p x \<longleftrightarrow> cmp x p > 0 \<or> \<not> cmp p x > 0"

lemma partition_returns:
  assumes "i < j" "2 \<le> i" "j \<le> n" "b + n \<le> length xs"
  shows "\<exists>i' ys. partition_loop cmp b i j xs = Some (i', ys) \<and> i \<le> i' \<and> i' \<le> j \<and> permutes (b + i) (j - i) xs ys \<and>
    (\<forall>k. i \<le> k \<and> k < i' \<longrightarrow> low cmp (xs ! (b + 1)) (ys ! (b + k))) \<and>
    (\<forall>k. i' \<le> k \<and> k < j \<longrightarrow> high cmp (xs ! (b + 1)) (ys ! (b + k)))"
  using assms
proof (induction "j - i" arbitrary: i j xs rule: less_induct)
  case less
  let ?p = "xs ! (b + 1)"
  note E = partition_loop.simps [of cmp b i j xs]
  obtain i1 d where U: "scan_up cmp xs b i j = Some (i1, d)" "i \<le> i1" "i1 \<le> j" "d \<longleftrightarrow> i1 = j"
     "\<And>k. i \<le> k \<Longrightarrow> k < i1 \<Longrightarrow> cmp ?p (xs ! (b + k)) > 0" "\<not> d \<longrightarrow> \<not> cmp ?p (xs ! (b + i1)) > 0"
    using scan_up_returns [OF less.prems(1), of cmp xs b] by blast
  show ?case
  proof (cases "i1 = j \<or> j - 1 = i1")
    case True
    then have "partition_loop cmp b i j xs = Some (i1, xs)" using U(1,4) by (auto simp: E Let_def)
    moreover have "k = i1" if "i1 \<le> k" "k < j" for k using True that by auto
    ultimately show ?thesis using U True by (intro exI [of _ i1] exI [of _ xs]) (auto simp: low_def high_def)
  next
    case False
    then have lt: "i1 < j - 1" "\<not> d" using U(3,4) by auto
    obtain j2 d2 where D: "scan_down cmp xs b i1 (j - 1) = Some (j2, d2)" "i1 \<le> j2" "j2 \<le> j - 1" "d2 \<longleftrightarrow> j2 = i1"
     "\<And>k. j2 < k \<Longrightarrow> k \<le> j - 1 \<Longrightarrow> cmp (xs ! (b + k)) ?p > 0" "\<not> d2 \<longrightarrow> \<not> cmp (xs ! (b + j2)) ?p > 0"
      using scan_down_returns [OF lt(1), of cmp xs b] by blast
    have hi1: "high cmp ?p (xs ! (b + i1))" using U(6) lt(2) by (simp add: high_def)
    show ?thesis
    proof (cases d2)
      case True
      then have "partition_loop cmp b i j xs = Some (i1, xs)" using U(1) D(1) False lt by (simp add: E Let_def)
      moreover have "high cmp ?p (xs ! (b + k))" if "i1 \<le> k" "k < j" for k
        using D(4) D(5) [of k] hi1 True that by (cases "k = i1") (auto simp: high_def)
      ultimately show ?thesis using U by (intro exI [of _ i1] exI [of _ xs]) (auto simp: low_def)
    next
      case nd: False
      then have lt2: "i1 < j2" using D(2,4) by auto
      let ?ys = "swp (b + i1) (b + j2) xs"
      have bnd: "b + i1 < length xs" "b + j2 < length xs" using D(3) lt less.prems(3,4) by auto
      have ys1: "?ys ! (b + 1) = ?p" using U(2) lt2 less.prems(2) bnd by (simp add: swp_nth)
      have ysi: "?ys ! (b + i1) = xs ! (b + j2)" "?ys ! (b + j2) = xs ! (b + i1)" using bnd lt2 by (simp_all add: swp_nth)
      have yso: "?ys ! (b + k) = xs ! (b + k)" if "k \<noteq> i1" "k \<noteq> j2" for k using bnd that by (simp add: swp_nth)
      have lo: "low cmp ?p (xs ! (b + j2))" using D(6) nd by (simp add: low_def)
      have perm: "permutes (b + i) (j - i) xs ?ys"
        using U(2) lt2 D(3) lt less.prems by (intro swp_permutes) auto
      have loy: "low cmp ?p (?ys ! (b + k))" if "i \<le> k" "k < Suc i1" for k
        using that U(5) [of k] lo ysi(1) yso [of k] lt2 by (cases "k = i1") (auto simp: low_def)
      have hiy: "high cmp ?p (?ys ! (b + k))" if "j2 \<le> k" "k < j" for k
        using that D(5) [of k] hi1 ysi(2) yso [of k] lt2 by (cases "k = j2") (auto simp: high_def)
      have eq: "partition_loop cmp b i j xs = (if Suc i1 = j2 then Some (Suc i1, ?ys) else partition_loop cmp b (Suc i1) j2 ?ys)"
        using U(1) D(1) False lt nd by (simp add: E Let_def)
      show ?thesis
      proof (cases "Suc i1 = j2")
        case True
        then show ?thesis using eq U(2) D(3) lt perm loy hiy
          by (intro exI [of _ "Suc i1"] exI [of _ ?ys]) auto
      next
        case False
        have smaller: "j2 - Suc i1 < j - i" using D(3) U(2) lt by linarith
        have "Suc i1 < j2" "2 \<le> Suc i1" "j2 \<le> n" "b + n \<le> length ?ys"
          using lt2 False U(2) D(3) lt less.prems by auto
        from less.hyps [OF smaller this, unfolded ys1] obtain i' zs where R: "partition_loop cmp b (Suc i1) j2 ?ys = Some (i', zs)" "Suc i1 \<le> i'" "i' \<le> j2"
          "permutes (b + Suc i1) (j2 - Suc i1) ?ys zs"
          "\<And>k. Suc i1 \<le> k \<Longrightarrow> k < i' \<Longrightarrow> low cmp ?p (zs ! (b + k))" "\<And>k. i' \<le> k \<Longrightarrow> k < j2 \<Longrightarrow> high cmp ?p (zs ! (b + k))"
          by blast
        have zs: "zs ! (b + k) = ?ys ! (b + k)" if "k < Suc i1 \<or> j2 \<le> k" "k < n" for k
          using R(4) that less.prems(4) lt2 by (auto simp: permutes_def)
        have "permutes (b + i) (j - i) ?ys zs"
          using R(4) U(2) D(3) lt lt2 by (elim permutes_mono) auto
        then have "permutes (b + i) (j - i) xs zs" using perm permutes_trans by blast
        moreover have "low cmp ?p (zs ! (b + k))" if "i \<le> k" "k < i'" for k
          using that R(3) R(5) [of k] loy [of k] zs [of k] D(3) less.prems(3) lt by (cases "k < Suc i1") auto
        moreover have "high cmp ?p (zs ! (b + k))" if "i' \<le> k" "k < j" for k
          using that R(6) [of k] hiy [of k] zs [of k] less.prems(3) by (cases "j2 \<le> k") auto
        ultimately show ?thesis using eq False R(1-3) U(2) D(3) lt by (intro exI [of _ i'] exI [of _ zs]) auto
      qed
    qed
  qed
qed

end
