(* ===== verification/ZendSortCorrect.thy ===== *)
theory ZendSortCorrect
  imports ZendSortSorted
begin

text \<open>
  \<open>zend_sort\<close> as a whole, by induction on the number of elements: it returns a permutation of its
  segment for every comparison function, and a sorted one for a comparator. The comparator the
  engine sorts configuration entries with (\<open>ini_key_compare\<close>, \<open>Zend/zend_ini.c\<close>) is an
  interpretation of the contract.
\<close>

lemma choose_pivot_permutes:
  assumes "16 < n" "b + n \<le> length xs"
  shows "permutes b n xs (choose_pivot cmp b n xs)"
proof -
  note N = networks_permute [OF permutes_refl assms(2), where cmp = cmp]
  have in5: "{b, b + n div 2 div 2, b + n div 2, b + n div 2 + n div 2 div 2, b + n - 1} \<subseteq> {b..<b + n}" using assms(1) by auto
  have in3: "{b, b + n div 2, b + n - 1} \<subseteq> {b..<b + n}" using assms(1) by auto
  have "1 < n" "n div 2 < n" using assms(1) by auto
  then show ?thesis using N(2) [OF in3] N(4) [OF in5] assms(2)
    by (auto simp: choose_pivot_def Let_def intro!: permutes_swp)
qed

lemma swp_other: "k \<noteq> a \<Longrightarrow> k \<noteq> c \<Longrightarrow> swp a c xs ! k = xs ! k"
  by (simp add: swp_def)

context comparator
begin

lemma choose_pivot_ordered:
  assumes "16 < n" "b + n \<le> length xs"
  shows "\<not> cmp (choose_pivot cmp b n xs ! b) (choose_pivot cmp b n xs ! (b + 1)) > 0"
    and "\<not> cmp (choose_pivot cmp b n xs ! (b + 1)) (choose_pivot cmp b n xs ! (b + n - 1)) > 0"
proof -
  let ?o = "n div 2"
  define ys where "ys = (if n div 1024 \<noteq> 0 then zend_sort_5 cmp b (b + ?o div 2) (b + ?o) (b + ?o + ?o div 2) (b + n - 1) xs
    else zend_sort_3 cmp b (b + ?o) (b + n - 1) xs)"
  note N = networks_permute [OF permutes_refl assms(2), where cmp = cmp]
  have in5: "{b, b + ?o div 2, b + ?o, b + ?o + ?o div 2, b + n - 1} \<subseteq> {b..<b + n}"
    "distinct [b, b + ?o div 2, b + ?o, b + ?o + ?o div 2, b + n - 1]"
    "{b, b + ?o div 2, b + ?o, b + ?o + ?o div 2, b + n - 1} \<subseteq> {..<length xs}" using assms by auto
  have in3: "{b, b + ?o, b + n - 1} \<subseteq> {b..<b + n}" "distinct [b, b + ?o, b + n - 1]"
    "{b, b + ?o, b + n - 1} \<subseteq> {..<length xs}" using assms by auto
  have len: "length ys = length xs"
    using N(2) [OF in3(1)] N(4) [OF in5(1)] permutes_length by (auto simp: ys_def)
  have o: "\<not> cmp (ys ! b) (ys ! (b + ?o)) > 0 \<and> \<not> cmp (ys ! (b + ?o)) (ys ! (b + n - 1)) > 0"
  proof (cases "n div 1024 \<noteq> 0")
    case True
    then show ?thesis using sort_5_ordered [OF in5(2,3)] trans unfolding ys_def if_P [OF True] by meson
  next
    case False
    show ?thesis using sort_3_ordered [OF in3(2,3)] unfolding ys_def if_not_P [OF False] by blast
  qed
  have c: "choose_pivot cmp b n xs = swp (b + 1) (b + ?o) ys" by (simp add: choose_pivot_def ys_def Let_def)
  have "swp (b + 1) (b + ?o) ys ! (b + 1) = ys ! (b + ?o)"
    using assms len by (subst swp_nth) auto
  then show "\<not> cmp (choose_pivot cmp b n xs ! b) (choose_pivot cmp b n xs ! (b + 1)) > 0"
    and "\<not> cmp (choose_pivot cmp b n xs ! (b + 1)) (choose_pivot cmp b n xs ! (b + n - 1)) > 0"
    using o assms(1) unfolding c by (simp_all add: swp_other)
qed

lemma low_le: "low cmp p x \<Longrightarrow> \<not> cmp x p > 0"
  using asym by (auto simp: low_def)

lemma high_ge: "high cmp p x \<Longrightarrow> \<not> cmp p x > 0"
  using asym by (auto simp: high_def)

lemma combine_sorted:
  assumes "sorted_seg cmp b (i - 1) ws" "sorted_seg cmp (b + i) (n - i) ws" "1 \<le> i"
    and "\<And>k. k < i - 1 \<Longrightarrow> \<not> cmp (ws ! (b + k)) (ws ! (b + (i - 1))) > 0"
    and "\<And>k. i \<le> k \<Longrightarrow> k < n \<Longrightarrow> \<not> cmp (ws ! (b + (i - 1))) (ws ! (b + k)) > 0"
  shows "sorted_seg cmp b n ws"
proof (rule sorted_seg_adjacent)
  fix k assume k: "Suc k < n"
  consider "Suc k < i - 1" | "Suc k = i - 1" | "k = i - 1" | "i \<le> k" by linarith
  then show "\<not> cmp (ws ! (b + k)) (ws ! (b + Suc k)) > 0"
  proof cases
    case 1 then show ?thesis using sorted_segD [OF assms(1), of k "Suc k"] by simp
  next
    case 2 then show ?thesis using assms(4) [of k] by simp
  next
    case 3 then show ?thesis using assms(5) [of "Suc k"] k assms(3) by simp
  next
    case 4
    then show ?thesis using sorted_segD [OF assms(2), of "k - i" "Suc k - i"] k by (simp add: Suc_diff_le)
  qed
qed

end

text \<open>The two recursive calls work on disjoint segments, in either order.\<close>

lemma disjoint_segments:
  assumes "permutes b1 n1 us vs" "permutes b2 n2 vs ws" "b1 + n1 \<le> b2 \<or> b2 + n2 \<le> b1"
    and "b1 + n1 \<le> length us" "b2 + n2 \<le> length us"
  shows "permutes b1 n1 us vs" "\<And>k. b1 \<le> k \<Longrightarrow> k < b1 + n1 \<Longrightarrow> ws ! k = vs ! k"
    and "\<And>k P. (\<And>j. b1 \<le> j \<Longrightarrow> j < b1 + n1 \<Longrightarrow> P (us ! j)) \<Longrightarrow> b1 \<le> k \<Longrightarrow> k < b1 + n1 \<Longrightarrow> P (ws ! k)"
    and "\<And>k P. (\<And>j. b2 \<le> j \<Longrightarrow> j < b2 + n2 \<Longrightarrow> P (us ! j)) \<Longrightarrow> b2 \<le> k \<Longrightarrow> k < b2 + n2 \<Longrightarrow> P (ws ! k)"
    and "\<And>k. k < length us \<Longrightarrow> (k < b1 \<or> b1 + n1 \<le> k) \<Longrightarrow> (k < b2 \<or> b2 + n2 \<le> k) \<Longrightarrow> ws ! k = us ! k"
proof -
  have len: "length vs = length us" using assms(1) by (rule permutes_length)
  show "permutes b1 n1 us vs" by fact
  show eq: "ws ! k = vs ! k" if "b1 \<le> k" "k < b1 + n1" for k
    using assms(2,3,4) that len by (auto simp: permutes_def)
  show "P (ws ! k)" if "\<And>j. b1 \<le> j \<Longrightarrow> j < b1 + n1 \<Longrightarrow> P (us ! j)" "b1 \<le> k" "k < b1 + n1" for P k
    using permutes_all [where P = P, OF assms(1,4) that(1,2,3)] eq [OF that(2,3)] by simp
  show "P (ws ! k)" if "\<And>j. b2 \<le> j \<Longrightarrow> j < b2 + n2 \<Longrightarrow> P (us ! j)" "b2 \<le> k" "k < b2 + n2" for P k
  proof (rule permutes_all [where P = P, OF assms(2) _ _ that(2,3)])
    show "b2 + n2 \<le> length vs" using assms(5) len by simp
    show "P (vs ! j)" if j: "b2 \<le> j" "j < b2 + n2" for j
    proof -
      have "vs ! j = us ! j" using assms(1,3,5) j by (auto simp: permutes_def)
      then show ?thesis using \<open>\<And>j. b2 \<le> j \<Longrightarrow> j < b2 + n2 \<Longrightarrow> P (us ! j)\<close> j by simp
    qed
  qed
  show "ws ! k = us ! k" if "k < length us" "k < b1 \<or> b1 + n1 \<le> k" "k < b2 \<or> b2 + n2 \<le> k" for k
    using assms(1,2) that len by (auto simp: permutes_def)
qed

lemma sorted_seg_cong: "(\<And>k. b \<le> k \<Longrightarrow> k < b + n \<Longrightarrow> ys ! k = xs ! k) \<Longrightarrow> sorted_seg cmp b n xs \<Longrightarrow> sorted_seg cmp b n ys"
  by (simp add: sorted_seg_def)

lemma zend_sort_step:
  assumes IH: "\<And>b m xs. m < n \<Longrightarrow> b + m \<le> length xs \<Longrightarrow>
      \<exists>ys. zend_sort cmp b m xs = Some ys \<and> permutes b m xs ys \<and> (comparator cmp \<longrightarrow> sorted_seg cmp b m ys)"
    and "16 < n" "b + n \<le> length xs"
  shows "\<exists>ys. zend_sort cmp b n xs = Some ys \<and> permutes b n xs ys \<and> (comparator cmp \<longrightarrow> sorted_seg cmp b n ys)"
proof -
  define ys where "ys = choose_pivot cmp b n xs"
  have pys: "permutes b n xs ys" unfolding ys_def by (rule choose_pivot_permutes [OF assms(2,3)])
  then have ly: "length ys = length xs" by (rule permutes_length)
  let ?p = "ys ! (b + 1)"
  have pre: "2 < n - 1" "2 \<le> (2::nat)" "n - 1 \<le> n" "b + n \<le> length ys" using assms(2,3) ly by auto
  obtain i zs where P: "partition_loop cmp b 2 (n - 1) ys = Some (i, zs)" "2 \<le> i" "i \<le> n - 1"
    "permutes (b + 2) (n - 1 - 2) ys zs"
    "\<And>k. 2 \<le> k \<Longrightarrow> k < i \<Longrightarrow> low cmp ?p (zs ! (b + k))" "\<And>k. i \<le> k \<Longrightarrow> k < n - 1 \<Longrightarrow> high cmp ?p (zs ! (b + k))"
    using partition_returns [OF pre, of cmp] by blast
  have lz: "length zs = length xs" using permutes_length [OF P(4)] ly by simp
  have zo: "zs ! (b + k) = ys ! (b + k)" if "k < 2 \<or> n - 1 \<le> k" "k < n" for k
    using P(4) that assms(3) ly assms(2) by (auto simp: permutes_def)
  define us where "us = swp (b + 1) (b + (i - 1)) zs"
  have i: "1 < n" "i - 1 < n" "i \<le> n" "i < n" using P(2,3) assms(2) by auto
  have "permutes b n ys zs" using P(4) assms(2) by (elim permutes_mono) auto
  moreover have "permutes b n zs us" unfolding us_def using i assms(3) lz by (intro swp_permutes) auto
  ultimately have pus: "permutes b n xs us" using pys permutes_trans by blast
  then have lu: "length us = length xs" by (rule permutes_length)
  have un: "us ! (b + k) = (if k = i - 1 then ?p else if k = 1 then zs ! (b + (i - 1)) else zs ! (b + k))" if "k < n" for k
    unfolding us_def using swp_nth [of "b + 1" zs "b + (i - 1)" "b + k"] that i assms(3) lz zo [of 1] by auto
  have lo: "\<not> cmp (us ! (b + k)) ?p > 0" if c: "comparator cmp" and k: "k < i - 1" for k
  proof -
    consider "k = 0" | "k = 1" | "2 \<le> k" by linarith
    then show ?thesis
    proof cases
      case 1
      then show ?thesis
        using comparator.choose_pivot_ordered(1) [OF c assms(2,3)] un [of 0] zo [of 0] k i(1) P(2) by (simp flip: ys_def)
    next
      case 2
      then show ?thesis using comparator.low_le [OF c P(5) [of "i - 1"]] un [of 1] k i(1) by auto
    next
      case 3
      then show ?thesis using comparator.low_le [OF c P(5) [of k]] un [of k] k i by auto
    qed
  qed
  have hi: "\<not> cmp ?p (us ! (b + k)) > 0" if c: "comparator cmp" and k: "i \<le> k" "k < n" for k
  proof (cases "k = n - 1")
    case True
    then have "k \<noteq> i - 1" "k \<noteq> 1" "b + n - 1 = b + k" using k P(2,3) by auto
    then have "us ! (b + k) = ys ! (b + n - 1)" using un [of k] zo [of k] True k by simp
    then show ?thesis
      using comparator.choose_pivot_ordered(2) [OF c assms(2,3)] by (simp flip: ys_def)
  next
    case False
    then show ?thesis using comparator.high_ge [OF c P(6) [of k]] un [of k] k P(2) by auto
  qed
  have bounds: "i - 1 < n" "n - i < n" "b + (i - 1) \<le> length us" "b + i + (n - i) \<le> length us"
    using i P(2) assms(3) lu by auto
  have fin: ?thesis if run: "zend_sort cmp b n xs = Some ws" and perm: "permutes b n us ws"
    and srt: "comparator cmp \<Longrightarrow> sorted_seg cmp b (i - 1) ws" "comparator cmp \<Longrightarrow> sorted_seg cmp (b + i) (n - i) ws"
    and keep: "\<And>k Q. (\<And>j. b \<le> j \<Longrightarrow> j < b + (i - 1) \<Longrightarrow> Q (us ! j)) \<Longrightarrow> b \<le> k \<Longrightarrow> k < b + (i - 1) \<Longrightarrow> Q (ws ! k)"
      "\<And>k Q. (\<And>j. b + i \<le> j \<Longrightarrow> j < b + i + (n - i) \<Longrightarrow> Q (us ! j)) \<Longrightarrow> b + i \<le> k \<Longrightarrow> k < b + i + (n - i) \<Longrightarrow> Q (ws ! k)"
      "ws ! (b + (i - 1)) = us ! (b + (i - 1))" for ws
  proof -
    have pv: "ws ! (b + (i - 1)) = ?p" using keep(3) un [of "i - 1"] i by simp
    have "sorted_seg cmp b n ws" if c: "comparator cmp"
    proof (rule comparator.combine_sorted [OF c srt(1) [OF c] srt(2) [OF c]])
      show "1 \<le> i" using P(2) by simp
      show "\<not> cmp (ws ! (b + k)) (ws ! (b + (i - 1))) > 0" if "k < i - 1" for k
        unfolding pv
      proof (rule keep(1) [where Q = "\<lambda>x. \<not> cmp x ?p > 0"])
        fix j assume "b \<le> j" "j < b + (i - 1)"
        then show "\<not> cmp (us ! j) ?p > 0" using lo [OF c, of "j - b"] by simp
      qed (use that in auto)
      show "\<not> cmp (ws ! (b + (i - 1))) (ws ! (b + k)) > 0" if "i \<le> k" "k < n" for k
        unfolding pv
      proof (rule keep(2) [where Q = "\<lambda>x. \<not> cmp ?p x > 0"])
        fix j assume "b + i \<le> j" "j < b + i + (n - i)"
        then show "\<not> cmp ?p (us ! j) > 0" using hi [OF c, of "j - b"] by simp
      qed (use that in auto)
    qed
    then show ?thesis using run pus perm permutes_trans by blast
  qed
  note E = zend_sort.simps [of cmp b n xs, folded ys_def]
  show ?thesis
  proof (cases "i - 1 < n - i")
    case True
    obtain vs where V: "zend_sort cmp b (i - 1) us = Some vs" "permutes b (i - 1) us vs"
      "comparator cmp \<longrightarrow> sorted_seg cmp b (i - 1) vs" using IH [OF bounds(1,3)] by blast
    have "b + i + (n - i) \<le> length vs" using bounds(4) permutes_length [OF V(2)] by simp
    from IH [OF bounds(2) this] obtain ws where W: "zend_sort cmp (b + i) (n - i) vs = Some ws"
      "permutes (b + i) (n - i) vs ws" "comparator cmp \<longrightarrow> sorted_seg cmp (b + i) (n - i) ws" by blast
    have disj: "b + (i - 1) \<le> b + i \<or> b + i + (n - i) \<le> b" by auto
    note D = disjoint_segments [OF V(2) W(2) disj bounds(3,4)]
    have "zend_sort cmp b n xs = Some ws" using assms(2) P(1) True V(1) W(1) by (simp add: E us_def Let_def)
    moreover have "permutes b n us vs" "permutes b n vs ws" using V(2) W(2) i by (auto elim!: permutes_mono)
    then have "permutes b n us ws" by (rule permutes_trans)
    moreover have "comparator cmp \<Longrightarrow> sorted_seg cmp b (i - 1) ws" using V(3) D(2) sorted_seg_cong by blast
    moreover have "ws ! (b + (i - 1)) = us ! (b + (i - 1))" using P(2) i bounds(3) lu assms(3) by (intro D(5)) auto
    ultimately show ?thesis using W(3) D(3,4) by (intro fin) blast+
  next
    case False
    obtain vs where V: "zend_sort cmp (b + i) (n - i) us = Some vs" "permutes (b + i) (n - i) us vs"
      "comparator cmp \<longrightarrow> sorted_seg cmp (b + i) (n - i) vs" using IH [OF bounds(2,4)] by blast
    have "b + (i - 1) \<le> length vs" using bounds(3) permutes_length [OF V(2)] by simp
    from IH [OF bounds(1) this] obtain ws where W: "zend_sort cmp b (i - 1) vs = Some ws"
      "permutes b (i - 1) vs ws" "comparator cmp \<longrightarrow> sorted_seg cmp b (i - 1) ws" by blast
    have disj: "b + i + (n - i) \<le> b \<or> b + (i - 1) \<le> b + i" by auto
    note D = disjoint_segments [OF V(2) W(2) disj bounds(4,3)]
    have "zend_sort cmp b n xs = Some ws" using assms(2) P(1) False V(1) W(1) by (simp add: E us_def Let_def)
    moreover have "permutes b n us vs" "permutes b n vs ws" using V(2) W(2) i by (auto elim!: permutes_mono)
    then have "permutes b n us ws" by (rule permutes_trans)
    moreover have "comparator cmp \<Longrightarrow> sorted_seg cmp (b + i) (n - i) ws" using V(3) D(2) sorted_seg_cong by blast
    moreover have "ws ! (b + (i - 1)) = us ! (b + (i - 1))" using P(2) i bounds(3) lu assms(3) by (intro D(5)) auto
    ultimately show ?thesis using W(3) D(3,4) by (intro fin) blast+
  qed
qed

lemma zend_sort_correct:
  "b + n \<le> length xs \<Longrightarrow>
   \<exists>ys. zend_sort cmp b n xs = Some ys \<and> permutes b n xs ys \<and> (comparator cmp \<longrightarrow> sorted_seg cmp b n ys)"
proof (induction n arbitrary: b xs rule: less_induct)
  case (less n)
  show ?case
  proof (cases "n \<le> 16")
    case True
    then show ?thesis
      using insert_sort_permutes [OF less.prems] comparator.insert_sort_sorted [OF _ less.prems]
      by (simp add: zend_sort.simps [of cmp b n xs])
  next
    case False
    then show ?thesis using zend_sort_step [OF less.IH _ less.prems] by simp
  qed
qed

end
