(* ===== verification/ZendCase.thy ===== *)
theory ZendCase
  imports ZendString "HOL-Library.List_Lexorder"
begin

text \<open>
  ASCII case conversion and the byte string comparisons of \<open>Zend/zend_operators.c\<close>: the 256-entry
  tables, the SSE2 variant that converts sixteen bytes at a time with a biased signed comparison,
  the conversions built on it, and the \<open>zend_binary_str*cmp\<close> family. The block conversion agrees
  with the tables, and every comparison is the lexicographic order of the (converted) byte lists.
\<close>

subsection \<open>Tables and block conversion\<close>

definition zend_tolower_map :: "u8 list" where
  "zend_tolower_map =
  [0x00, 0x01, 0x02, 0x03, 0x04, 0x05, 0x06, 0x07, 0x08, 0x09, 0x0a, 0x0b, 0x0c, 0x0d, 0x0e, 0x0f,
   0x10, 0x11, 0x12, 0x13, 0x14, 0x15, 0x16, 0x17, 0x18, 0x19, 0x1a, 0x1b, 0x1c, 0x1d, 0x1e, 0x1f,
   0x20, 0x21, 0x22, 0x23, 0x24, 0x25, 0x26, 0x27, 0x28, 0x29, 0x2a, 0x2b, 0x2c, 0x2d, 0x2e, 0x2f,
   0x30, 0x31, 0x32, 0x33, 0x34, 0x35, 0x36, 0x37, 0x38, 0x39, 0x3a, 0x3b, 0x3c, 0x3d, 0x3e, 0x3f,
   0x40, 0x61, 0x62, 0x63, 0x64, 0x65, 0x66, 0x67, 0x68, 0x69, 0x6a, 0x6b, 0x6c, 0x6d, 0x6e, 0x6f,
   0x70, 0x71, 0x72, 0x73, 0x74, 0x75, 0x76, 0x77, 0x78, 0x79, 0x7a, 0x5b, 0x5c, 0x5d, 0x5e, 0x5f,
   0x60, 0x61, 0x62, 0x63, 0x64, 0x65, 0x66, 0x67, 0x68, 0x69, 0x6a, 0x6b, 0x6c, 0x6d, 0x6e, 0x6f,
   0x70, 0x71, 0x72, 0x73, 0x74, 0x75, 0x76, 0x77, 0x78, 0x79, 0x7a, 0x7b, 0x7c, 0x7d, 0x7e, 0x7f,
   0x80, 0x81, 0x82, 0x83, 0x84, 0x85, 0x86, 0x87, 0x88, 0x89, 0x8a, 0x8b, 0x8c, 0x8d, 0x8e, 0x8f,
   0x90, 0x91, 0x92, 0x93, 0x94, 0x95, 0x96, 0x97, 0x98, 0x99, 0x9a, 0x9b, 0x9c, 0x9d, 0x9e, 0x9f,
   0xa0, 0xa1, 0xa2, 0xa3, 0xa4, 0xa5, 0xa6, 0xa7, 0xa8, 0xa9, 0xaa, 0xab, 0xac, 0xad, 0xae, 0xaf,
   0xb0, 0xb1, 0xb2, 0xb3, 0xb4, 0xb5, 0xb6, 0xb7, 0xb8, 0xb9, 0xba, 0xbb, 0xbc, 0xbd, 0xbe, 0xbf,
   0xc0, 0xc1, 0xc2, 0xc3, 0xc4, 0xc5, 0xc6, 0xc7, 0xc8, 0xc9, 0xca, 0xcb, 0xcc, 0xcd, 0xce, 0xcf,
   0xd0, 0xd1, 0xd2, 0xd3, 0xd4, 0xd5, 0xd6, 0xd7, 0xd8, 0xd9, 0xda, 0xdb, 0xdc, 0xdd, 0xde, 0xdf,
   0xe0, 0xe1, 0xe2, 0xe3, 0xe4, 0xe5, 0xe6, 0xe7, 0xe8, 0xe9, 0xea, 0xeb, 0xec, 0xed, 0xee, 0xef,
   0xf0, 0xf1, 0xf2, 0xf3, 0xf4, 0xf5, 0xf6, 0xf7, 0xf8, 0xf9, 0xfa, 0xfb, 0xfc, 0xfd, 0xfe, 0xff]"

definition zend_toupper_map :: "u8 list" where
  "zend_toupper_map =
  [0x00, 0x01, 0x02, 0x03, 0x04, 0x05, 0x06, 0x07, 0x08, 0x09, 0x0a, 0x0b, 0x0c, 0x0d, 0x0e, 0x0f,
   0x10, 0x11, 0x12, 0x13, 0x14, 0x15, 0x16, 0x17, 0x18, 0x19, 0x1a, 0x1b, 0x1c, 0x1d, 0x1e, 0x1f,
   0x20, 0x21, 0x22, 0x23, 0x24, 0x25, 0x26, 0x27, 0x28, 0x29, 0x2a, 0x2b, 0x2c, 0x2d, 0x2e, 0x2f,
   0x30, 0x31, 0x32, 0x33, 0x34, 0x35, 0x36, 0x37, 0x38, 0x39, 0x3a, 0x3b, 0x3c, 0x3d, 0x3e, 0x3f,
   0x40, 0x41, 0x42, 0x43, 0x44, 0x45, 0x46, 0x47, 0x48, 0x49, 0x4a, 0x4b, 0x4c, 0x4d, 0x4e, 0x4f,
   0x50, 0x51, 0x52, 0x53, 0x54, 0x55, 0x56, 0x57, 0x58, 0x59, 0x5a, 0x5b, 0x5c, 0x5d, 0x5e, 0x5f,
   0x60, 0x41, 0x42, 0x43, 0x44, 0x45, 0x46, 0x47, 0x48, 0x49, 0x4a, 0x4b, 0x4c, 0x4d, 0x4e, 0x4f,
   0x50, 0x51, 0x52, 0x53, 0x54, 0x55, 0x56, 0x57, 0x58, 0x59, 0x5a, 0x7b, 0x7c, 0x7d, 0x7e, 0x7f,
   0x80, 0x81, 0x82, 0x83, 0x84, 0x85, 0x86, 0x87, 0x88, 0x89, 0x8a, 0x8b, 0x8c, 0x8d, 0x8e, 0x8f,
   0x90, 0x91, 0x92, 0x93, 0x94, 0x95, 0x96, 0x97, 0x98, 0x99, 0x9a, 0x9b, 0x9c, 0x9d, 0x9e, 0x9f,
   0xa0, 0xa1, 0xa2, 0xa3, 0xa4, 0xa5, 0xa6, 0xa7, 0xa8, 0xa9, 0xaa, 0xab, 0xac, 0xad, 0xae, 0xaf,
   0xb0, 0xb1, 0xb2, 0xb3, 0xb4, 0xb5, 0xb6, 0xb7, 0xb8, 0xb9, 0xba, 0xbb, 0xbc, 0xbd, 0xbe, 0xbf,
   0xc0, 0xc1, 0xc2, 0xc3, 0xc4, 0xc5, 0xc6, 0xc7, 0xc8, 0xc9, 0xca, 0xcb, 0xcc, 0xcd, 0xce, 0xcf,
   0xd0, 0xd1, 0xd2, 0xd3, 0xd4, 0xd5, 0xd6, 0xd7, 0xd8, 0xd9, 0xda, 0xdb, 0xdc, 0xdd, 0xde, 0xdf,
   0xe0, 0xe1, 0xe2, 0xe3, 0xe4, 0xe5, 0xe6, 0xe7, 0xe8, 0xe9, 0xea, 0xeb, 0xec, 0xed, 0xee, 0xef,
   0xf0, 0xf1, 0xf2, 0xf3, 0xf4, 0xf5, 0xf6, 0xf7, 0xf8, 0xf9, 0xfa, 0xfb, 0xfc, 0xfd, 0xfe, 0xff]"

definition zend_tolower_ascii :: "u8 \<Rightarrow> u8" where
  "zend_tolower_ascii c = zend_tolower_map ! unat c"

definition zend_toupper_ascii :: "u8 \<Rightarrow> u8" where
  "zend_toupper_ascii c = zend_toupper_map ! unat c"

definition BLOCKCONV_STRIDE :: nat where "BLOCKCONV_STRIDE = 16"

text \<open>
  One lane of the vector code: \<open>blconv_mask\<close> is all ones when the byte, shifted so that the first
  letter of the range becomes \<open>SCHAR_MIN\<close>, is signed-less than the threshold.
\<close>

definition blconv_mask :: "u8 \<Rightarrow> u8 \<Rightarrow> u8 \<Rightarrow> u8" where
  "blconv_mask start fin operand =
     (let blconv_offset = 0x80 - start; blconv_threshold = 0x80 + (fin - start) + 1
      in if sint (operand + blconv_offset) < sint blconv_threshold then 0xff else 0)"

definition blconv_result :: "u8 \<Rightarrow> u8 \<Rightarrow> u8 \<Rightarrow> u8 \<Rightarrow> u8" where
  "blconv_result start fin delta operand = operand + (blconv_mask start fin operand AND delta)"

definition BLOCKCONV_FOUND :: "u8 \<Rightarrow> u8 \<Rightarrow> u8 list \<Rightarrow> bool" where
  "BLOCKCONV_FOUND start fin block = (\<exists>c \<in> set block. blconv_mask start fin c \<noteq> 0)"

function str_convert :: "u8 \<Rightarrow> u8 \<Rightarrow> u8 \<Rightarrow> (u8 \<Rightarrow> u8) \<Rightarrow> u8 list \<Rightarrow> u8 list" where
  "str_convert start fin delta table p =
     (if BLOCKCONV_STRIDE \<le> length p
      then map (blconv_result start fin delta) (take BLOCKCONV_STRIDE p)
           @ str_convert start fin delta table (drop BLOCKCONV_STRIDE p)
      else map table p)"
  by auto
termination
  by (relation "measure (\<lambda>(_, _, _, _, p). length p)") (auto simp: BLOCKCONV_STRIDE_def)

declare str_convert.simps [simp del]

definition zend_str_tolower_impl :: "u8 list \<Rightarrow> u8 list" where
  "zend_str_tolower_impl str = str_convert 65 90 (97 - 65) zend_tolower_ascii str"

definition zend_str_toupper_impl :: "u8 list \<Rightarrow> u8 list" where
  "zend_str_toupper_impl str = str_convert 97 122 (65 - 97) zend_toupper_ascii str"

text \<open>The copying variants terminate the result with a NUL byte.\<close>

definition zend_str_tolower_copy :: "u8 list \<Rightarrow> u8 list" where
  "zend_str_tolower_copy source = zend_str_tolower_impl source @ [0]"

definition zend_str_toupper_copy :: "u8 list \<Rightarrow> u8 list" where
  "zend_str_toupper_copy source = zend_str_toupper_impl source @ [0]"

definition zend_str_tolower_dup :: "u8 list \<Rightarrow> u8 list" where
  "zend_str_tolower_dup source = zend_str_tolower_copy source"

definition zend_str_toupper_dup :: "u8 list \<Rightarrow> u8 list" where
  "zend_str_toupper_dup source = zend_str_toupper_copy source"

definition zend_str_tolower :: "u8 list \<Rightarrow> u8 list" where
  "zend_str_tolower str = zend_str_tolower_impl str"

definition zend_str_toupper :: "u8 list \<Rightarrow> u8 list" where
  "zend_str_toupper str = zend_str_toupper_impl str"

text \<open>
  The \<open>_dup_ex\<close> variants return \<open>NULL\<close> when nothing has to change; \<open>done\<close> is the prefix before \<open>p\<close>.
\<close>

fun str_dup_from :: "(u8 \<Rightarrow> u8) \<Rightarrow> (u8 list \<Rightarrow> u8 list) \<Rightarrow> u8 list \<Rightarrow> u8 list \<Rightarrow> u8 list option" where
  "str_dup_from table impl seen [] = None"
| "str_dup_from table impl seen (c # p) =
     (if c \<noteq> table c then Some (seen @ impl (c # p) @ [0])
      else str_dup_from table impl (seen @ [c]) p)"

definition zend_str_tolower_dup_ex :: "u8 list \<Rightarrow> u8 list option" where
  "zend_str_tolower_dup_ex source = str_dup_from zend_tolower_ascii zend_str_tolower_impl [] source"

definition zend_str_toupper_dup_ex :: "u8 list \<Rightarrow> u8 list option" where
  "zend_str_toupper_dup_ex source = str_dup_from zend_toupper_ascii zend_str_toupper_impl [] source"

text \<open>
  \<open>zend_string_tolower_ex\<close> looks for a letter block by block, then byte by byte, and returns the
  string itself (with one more reference) when there is none.
\<close>

fun string_tail_convert :: "(u8 \<Rightarrow> u8) \<Rightarrow> u8 list \<Rightarrow> u8 list \<Rightarrow> u8 list option" where
  "string_tail_convert table seen [] = None"
| "string_tail_convert table seen (c # p) =
     (if c \<noteq> table c then Some (seen @ map table (c # p))
      else string_tail_convert table (seen @ [c]) p)"

function string_convert :: "u8 \<Rightarrow> u8 \<Rightarrow> u8 \<Rightarrow> (u8 \<Rightarrow> u8) \<Rightarrow> (u8 list \<Rightarrow> u8 list) \<Rightarrow> u8 list \<Rightarrow> u8 list
    \<Rightarrow> u8 list option" where
  "string_convert start fin delta table impl seen p =
     (if BLOCKCONV_STRIDE \<le> length p
      then (let block = take BLOCKCONV_STRIDE p; rest = drop BLOCKCONV_STRIDE p
            in if BLOCKCONV_FOUND start fin block
               then Some (seen @ map (blconv_result start fin delta) block @ impl rest)
               else string_convert start fin delta table impl (seen @ block) rest)
      else string_tail_convert table seen p)"
  by auto
termination
  by (relation "measure (\<lambda>(_, _, _, _, _, _, p). length p)") (auto simp: BLOCKCONV_STRIDE_def)

declare string_convert.simps [simp del]

definition zend_string_tolower_ex :: "zstr \<Rightarrow> zstr" where
  "zend_string_tolower_ex str =
     (case string_convert 65 90 (97 - 65) zend_tolower_ascii zend_str_tolower_impl [] (zs_val str) of
        None \<Rightarrow> str
      | Some res \<Rightarrow> \<lparr>zs_val = res, zs_interned = False\<rparr>)"

definition zend_string_toupper_ex :: "zstr \<Rightarrow> zstr" where
  "zend_string_toupper_ex str =
     (case string_convert 97 122 (65 - 97) zend_toupper_ascii zend_str_toupper_impl [] (zs_val str) of
        None \<Rightarrow> str
      | Some res \<Rightarrow> \<lparr>zs_val = res, zs_interned = False\<rparr>)"

subsection \<open>Comparison\<close>

text \<open>
  \<open>memcmp\<close> of the C library promises only the sign of its result; the model answers -1, 0 or 1. The
  argument \<open>same\<close> says whether the two pointers are equal, which the functions test first.
\<close>

fun memcmp :: "u8 list \<Rightarrow> u8 list \<Rightarrow> nat \<Rightarrow> int" where
  "memcmp (a # s1) (b # s2) (Suc n) = (if a < b then -1 else if b < a then 1 else memcmp s1 s2 n)"
| "memcmp _ _ _ = 0"

definition ZEND_THREEWAY_COMPARE :: "nat \<Rightarrow> nat \<Rightarrow> int" where
  "ZEND_THREEWAY_COMPARE a b = (if a = b then 0 else if a < b then -1 else 1)"

definition zend_binary_strcmp :: "bool \<Rightarrow> u8 list \<Rightarrow> u8 list \<Rightarrow> int" where
  "zend_binary_strcmp same s1 s2 =
     (if same then 0
      else (let retval = memcmp s1 s2 (min (length s1) (length s2))
            in if retval = 0 then ZEND_THREEWAY_COMPARE (length s1) (length s2) else retval))"

definition zend_binary_strncmp :: "bool \<Rightarrow> u8 list \<Rightarrow> u8 list \<Rightarrow> nat \<Rightarrow> int" where
  "zend_binary_strncmp same s1 s2 n =
     (if same then 0
      else (let retval = memcmp s1 s2 (min n (min (length s1) (length s2)))
            in if retval = 0 then ZEND_THREEWAY_COMPARE (min n (length s1)) (min n (length s2)) else retval))"

text \<open>The loop of the case-insensitive comparisons; \<open>None\<close> when it runs out.\<close>

fun strcase_loop :: "(u8 \<Rightarrow> int) \<Rightarrow> u8 list \<Rightarrow> u8 list \<Rightarrow> nat \<Rightarrow> int option" where
  "strcase_loop low (a # s1) (b # s2) (Suc n) =
     (let c1 = low a; c2 = low b in if c1 \<noteq> c2 then Some (c1 - c2) else strcase_loop low s1 s2 n)"
| "strcase_loop low _ _ _ = None"

definition zend_binary_strcasecmp :: "bool \<Rightarrow> u8 list \<Rightarrow> u8 list \<Rightarrow> int" where
  "zend_binary_strcasecmp same s1 s2 =
     (if same then 0
      else case strcase_loop (uint \<circ> zend_tolower_ascii) s1 s2 (min (length s1) (length s2)) of
             Some r \<Rightarrow> r
           | None \<Rightarrow> ZEND_THREEWAY_COMPARE (length s1) (length s2))"

definition zend_binary_strncasecmp :: "bool \<Rightarrow> u8 list \<Rightarrow> u8 list \<Rightarrow> nat \<Rightarrow> int" where
  "zend_binary_strncasecmp same s1 s2 n =
     (if same then 0
      else case strcase_loop (uint \<circ> zend_tolower_ascii) s1 s2 (min n (min (length s1) (length s2))) of
             Some r \<Rightarrow> r
           | None \<Rightarrow> ZEND_THREEWAY_COMPARE (min n (length s1)) (min n (length s2)))"

text \<open>The locale-aware variants; \<open>tolower\<close> is the C library's, a parameter.\<close>

definition zend_binary_strcasecmp_l :: "(int \<Rightarrow> int) \<Rightarrow> bool \<Rightarrow> u8 list \<Rightarrow> u8 list \<Rightarrow> int" where
  "zend_binary_strcasecmp_l tolower same s1 s2 =
     (if same then 0
      else case strcase_loop (tolower \<circ> uint) s1 s2 (min (length s1) (length s2)) of
             Some r \<Rightarrow> r
           | None \<Rightarrow> ZEND_THREEWAY_COMPARE (length s1) (length s2))"

definition zend_binary_strncasecmp_l :: "(int \<Rightarrow> int) \<Rightarrow> bool \<Rightarrow> u8 list \<Rightarrow> u8 list \<Rightarrow> nat \<Rightarrow> int" where
  "zend_binary_strncasecmp_l tolower same s1 s2 n =
     (if same then 0
      else case strcase_loop (tolower \<circ> uint) s1 s2 (min n (min (length s1) (length s2))) of
             Some r \<Rightarrow> r
           | None \<Rightarrow> ZEND_THREEWAY_COMPARE (min n (length s1)) (min n (length s2)))"

subsection \<open>The conversions agree with the tables\<close>

lemma zend_tolower_map_upt:
  "zend_tolower_map = map (\<lambda>n. let c = of_nat n in if 65 \<le> c \<and> c \<le> 90 then c + 32 else c) [0..<256]"
  by (simp add: zend_tolower_map_def upt_rec) (simp add: word_le_nat_alt)

lemma zend_toupper_map_upt:
  "zend_toupper_map = map (\<lambda>n. let c = of_nat n in if 97 \<le> c \<and> c \<le> 122 then c - 32 else c) [0..<256]"
  by (simp add: zend_toupper_map_def upt_rec) (simp add: word_le_nat_alt)

lemma unat_byte: "unat (c :: u8) < 256"
  using unat_bounded [of c] by simp

lemma zend_tolower_ascii_eq: "zend_tolower_ascii c = (if 65 \<le> c \<and> c \<le> 90 then c + 32 else c)"
  using unat_byte [of c] by (simp add: zend_tolower_ascii_def zend_tolower_map_upt Let_def)

lemma zend_toupper_ascii_eq: "zend_toupper_ascii c = (if 97 \<le> c \<and> c \<le> 122 then c - 32 else c)"
  using unat_byte [of c] by (simp add: zend_toupper_ascii_def zend_toupper_map_upt Let_def)

lemma sint_byte_shift:
  "sint (c + k :: u8) = (let n = (unat c + unat k) mod 256 in if n < 128 then int n else int n - 256)"
  by (simp add: sint_unat unat_word_ariths Let_def)

lemma blconv_lower: "blconv_result 65 90 32 c = zend_tolower_ascii c"
proof -
  have "blconv_mask 65 90 c = (if 65 \<le> c \<and> c \<le> 90 then 0xff else 0)"
    using unat_byte [of c]
    by (simp add: blconv_mask_def sint_byte_shift Let_def word_le_nat_alt mod_if)
      (auto simp: uint_nat simp del: of_nat_unat)
  then show ?thesis by (simp add: blconv_result_def zend_tolower_ascii_eq)
qed

lemma blconv_upper: "blconv_result 97 122 (-32) c = zend_toupper_ascii c"
proof -
  have "blconv_mask 97 122 c = (if 97 \<le> c \<and> c \<le> 122 then 0xff else 0)"
    using unat_byte [of c]
    by (simp add: blconv_mask_def sint_byte_shift Let_def word_le_nat_alt mod_if)
      (auto simp: uint_nat simp del: of_nat_unat)
  then show ?thesis by (simp add: blconv_result_def zend_toupper_ascii_eq)
qed

lemma str_convert_map:
  assumes "\<And>c. blconv_result start fin delta c = table c"
  shows "str_convert start fin delta table p = map table p"
proof (induction p rule: length_induct)
  case (1 p)
  have lane: "blconv_result start fin delta = table" by (simp add: fun_eq_iff assms)
  show ?case
  proof (cases "BLOCKCONV_STRIDE \<le> length p")
    case True
    with 1 have "str_convert start fin delta table (drop BLOCKCONV_STRIDE p) = map table (drop BLOCKCONV_STRIDE p)"
      by (auto simp: BLOCKCONV_STRIDE_def)
    with True show ?thesis
      by (simp add: str_convert.simps [of _ _ _ _ p] lane flip: take_map drop_map)
  qed (simp add: str_convert.simps)
qed


lemma tolower_impl_map: "zend_str_tolower_impl s = map zend_tolower_ascii s"
  by (simp add: zend_str_tolower_impl_def str_convert_map blconv_lower)

lemma toupper_impl_map: "zend_str_toupper_impl s = map zend_toupper_ascii s"
  by (simp add: zend_str_toupper_impl_def str_convert_map blconv_upper)

lemma map_table_id: "map f xs = xs \<longleftrightarrow> (\<forall>x \<in> set xs. f x = x)"
  by (induction xs) auto

lemma str_dup_from_eq:
  "str_dup_from table (map table) seen p =
     (if map table p = p then None else Some (seen @ map table p @ [0]))"
  by (induction p arbitrary: seen) auto

lemma string_tail_convert_eq:
  "string_tail_convert table seen p = (if map table p = p then None else Some (seen @ map table p))"
  by (induction p arbitrary: seen) auto

lemma blconv_result_id:
  "blconv_mask start fin c = 0 \<Longrightarrow> blconv_result start fin delta c = c"
  by (simp add: blconv_result_def)

lemma string_convert_eq:
  assumes lane: "\<And>c. blconv_result start fin delta c = table c"
    and moved: "\<And>c. blconv_mask start fin c \<noteq> 0 \<Longrightarrow> table c \<noteq> c"
  shows "string_convert start fin delta table (map table) seen p =
     (if map table p = p then None else Some (seen @ map table p))"
proof (induction p arbitrary: seen rule: length_induct)
  case (1 p)
  show ?case
  proof (cases "BLOCKCONV_STRIDE \<le> length p")
    case True
    define a b where "a = take BLOCKCONV_STRIDE p" and "b = drop BLOCKCONV_STRIDE p"
    have p: "p = a @ b" by (simp add: a_def b_def)
    have len: "length a = BLOCKCONV_STRIDE" using True by (simp add: a_def)
    have same: "map table p = p \<longleftrightarrow> map table a = a \<and> map table b = b"
      unfolding p by (simp only: map_append) (rule append_eq_append_conv, simp)
    have found: "BLOCKCONV_FOUND start fin a \<longleftrightarrow> map table a \<noteq> a"
      using lane moved blconv_result_id [of start fin _ delta]
      by (fastforce simp: BLOCKCONV_FOUND_def map_table_id)
    have "length b < length p" using True by (simp add: b_def BLOCKCONV_STRIDE_def)
    then have IH: "string_convert start fin delta table (map table) s b =
        (if map table b = b then None else Some (s @ map table b))" for s
      using 1 by blast
    show ?thesis
      using True by (subst string_convert.simps)
        (auto simp: Let_def IH found same lane simp flip: a_def b_def, simp_all add: p lane)
  next
    case False
    then show ?thesis by (subst string_convert.simps) (simp add: string_tail_convert_eq)
  qed
qed

lemma lower_moves: "blconv_mask 65 90 c \<noteq> 0 \<Longrightarrow> zend_tolower_ascii c \<noteq> c"
  using blconv_lower [of c] by (auto simp: blconv_result_def blconv_mask_def Let_def split: if_splits)

lemma upper_moves: "blconv_mask 97 122 c \<noteq> 0 \<Longrightarrow> zend_toupper_ascii c \<noteq> c"
  using blconv_upper [of c] by (auto simp: blconv_result_def blconv_mask_def Let_def split: if_splits)

lemma string_tolower_val: "zs_val (zend_string_tolower_ex str) = map zend_tolower_ascii (zs_val str)"
proof -
  have "zend_str_tolower_impl = map zend_tolower_ascii" by (simp add: fun_eq_iff tolower_impl_map)
  have "string_convert 65 90 32 zend_tolower_ascii zend_str_tolower_impl [] p =
      (if map zend_tolower_ascii p = p then None else Some (map zend_tolower_ascii p))" for p
    unfolding \<open>zend_str_tolower_impl = _\<close>
    by (subst string_convert_eq; simp add: blconv_lower lower_moves)
  then show ?thesis by (simp add: zend_string_tolower_ex_def)
qed

lemma string_toupper_val: "zs_val (zend_string_toupper_ex str) = map zend_toupper_ascii (zs_val str)"
proof -
  have "zend_str_toupper_impl = map zend_toupper_ascii" by (simp add: fun_eq_iff toupper_impl_map)
  have "string_convert 97 122 (-32) zend_toupper_ascii zend_str_toupper_impl [] p =
      (if map zend_toupper_ascii p = p then None else Some (map zend_toupper_ascii p))" for p
    unfolding \<open>zend_str_toupper_impl = _\<close>
    by (subst string_convert_eq; simp add: blconv_upper upper_moves)
  then show ?thesis by (simp add: zend_string_toupper_ex_def)
qed

lemma tolower_idem [simp]: "zend_tolower_ascii (zend_tolower_ascii c) = zend_tolower_ascii c"
  using unat_byte [of c] by (auto simp: zend_tolower_ascii_eq word_le_nat_alt unat_word_ariths mod_if)

subsection \<open>The comparisons are lexicographic\<close>

text \<open>The reference: three-way lexicographic comparison of lists.\<close>

fun lex_cmp :: "'a::linorder list \<Rightarrow> 'a list \<Rightarrow> int" where
  "lex_cmp [] [] = 0"
| "lex_cmp [] (_ # _) = -1"
| "lex_cmp (_ # _) [] = 1"
| "lex_cmp (x # xs) (y # ys) = (if x < y then -1 else if y < x then 1 else lex_cmp xs ys)"

lemma lex_cmp_less: "lex_cmp xs ys = (if xs < ys then -1 else if ys < xs then 1 else 0)"
  by (induction xs ys rule: lex_cmp.induct) auto

lemma THREEWAY_Suc [simp]:
  "ZEND_THREEWAY_COMPARE (Suc m) (Suc n) = ZEND_THREEWAY_COMPARE m n"
  "ZEND_THREEWAY_COMPARE 0 0 = 0"
  "ZEND_THREEWAY_COMPARE 0 (Suc n) = -1"
  "ZEND_THREEWAY_COMPARE (Suc n) 0 = 1"
  by (simp_all add: ZEND_THREEWAY_COMPARE_def)

lemma memcmp_lex:
  "(let r = memcmp s1 s2 (min n (min (length s1) (length s2)))
    in if r = 0 then ZEND_THREEWAY_COMPARE (min n (length s1)) (min n (length s2)) else r) =
   lex_cmp (take n s1) (take n s2)"
proof (induction s1 s2 arbitrary: n rule: list_induct2')
  case (4 x xs y ys)
  then show ?case
  proof (cases n)
    case (Suc m)
    then show ?thesis using 4 [of m] by (auto simp: Let_def split: if_splits)
  qed simp
qed (case_tac n; simp add: Let_def)+

lemma strcase_lex:
  "sgn (case strcase_loop low s1 s2 (min n (min (length s1) (length s2))) of
          Some r \<Rightarrow> r | None \<Rightarrow> ZEND_THREEWAY_COMPARE (min n (length s1)) (min n (length s2))) =
   lex_cmp (take n (map low s1)) (take n (map low s2))"
proof (induction s1 s2 arbitrary: n rule: list_induct2')
  case (4 x xs y ys)
  then show ?case
  proof (cases n)
    case (Suc m)
    then show ?thesis using 4 [of m] by (simp add: Let_def split: option.splits)
  qed simp
qed (case_tac n; simp add: Let_def)+

lemma lex_cmp_refl [simp]: "lex_cmp xs xs = 0"
  by (simp add: lex_cmp_less)

lemma min_max_lengths:
  "min (max a b) (min a b) = min (a :: nat) b" "min (max a b) a = a" "min (max a b) b = b"
  by (simp_all add: min_def max_def)

lemma strcmp_lex:
  "same \<longrightarrow> s1 = s2 \<Longrightarrow> zend_binary_strcmp same s1 s2 = lex_cmp s1 s2"
  using memcmp_lex [of s1 s2 "max (length s1) (length s2)", unfolded min_max_lengths]
  by (cases same) (simp_all add: zend_binary_strcmp_def min_max_lengths Let_def)

lemma strncmp_lex:
  "same \<longrightarrow> s1 = s2 \<Longrightarrow> zend_binary_strncmp same s1 s2 n = lex_cmp (take n s1) (take n s2)"
  using memcmp_lex [of s1 s2 n] by (cases same) (simp_all add: zend_binary_strncmp_def Let_def)

lemma lex_cmp_mono:
  "strict_mono f \<Longrightarrow> lex_cmp (map f xs) (map f ys) = lex_cmp xs ys"
  by (induction xs ys rule: lex_cmp.induct) (auto simp: strict_mono_less)

lemma lex_cmp_low:
  "lex_cmp (map (uint \<circ> zend_tolower_ascii) s1) (map (uint \<circ> zend_tolower_ascii) s2) =
   lex_cmp (map zend_tolower_ascii s1) (map zend_tolower_ascii s2)"
proof -
  have "strict_mono (uint :: u8 \<Rightarrow> int)" by (auto simp: strict_mono_def word_less_def)
  from lex_cmp_mono [OF this, of "map zend_tolower_ascii s1" "map zend_tolower_ascii s2"]
  show ?thesis by simp
qed

lemma strcasecmp_lex:
  "same \<longrightarrow> s1 = s2 \<Longrightarrow>
   sgn (zend_binary_strcasecmp same s1 s2) = lex_cmp (map zend_tolower_ascii s1) (map zend_tolower_ascii s2)"
  using strcase_lex [where low = "uint \<circ> zend_tolower_ascii" and ?s1.0 = s1 and ?s2.0 = s2 and
      n = "max (length s1) (length s2)", unfolded min_max_lengths]
  by (cases same) (simp_all add: zend_binary_strcasecmp_def min_max_lengths lex_cmp_low)

lemma strncasecmp_lex:
  "same \<longrightarrow> s1 = s2 \<Longrightarrow>
   sgn (zend_binary_strncasecmp same s1 s2 n) =
   lex_cmp (map zend_tolower_ascii (take n s1)) (map zend_tolower_ascii (take n s2))"
  using strcase_lex [where low = "uint \<circ> zend_tolower_ascii" and ?s1.0 = s1 and ?s2.0 = s2 and n = n]
  by (cases same) (simp_all add: zend_binary_strncasecmp_def take_map lex_cmp_low)

end
