(* ===== verification/ZendHashSort.thy ===== *)
theory ZendHashSort
  imports ZendHashConvert ZendSortCorrect ZendCase
begin

text \<open>
  Sorting a hash table (\<open>zend_hash_sort_ex\<close>) and its one engine-level client, the sort of the INI
  directives. The sort routine is an argument of \<open>zend_hash_sort_ex\<close>; what the table needs of it is
  the locale \<open>sort_func\<close>, which \<open>zend_sort\<close> and \<open>zend_insert_sort\<close> are shown to satisfy. \<open>Z_EXTRA\<close>
  shares its memory with \<open>Z_NEXT\<close> (both are \<open>u2\<close> of the zval), so the original order is stored in
  \<open>bnext\<close> and the chains are rebuilt afterwards.
\<close>

subsection \<open>The contract of a sort routine\<close>

locale sort_func =
  fixes sort_fn :: "('a \<Rightarrow> 'a \<Rightarrow> int) \<Rightarrow> nat \<Rightarrow> 'a list \<Rightarrow> 'a list option"
  assumes returns: "n \<le> length xs \<Longrightarrow>
      \<exists>ys. sort_fn cmp n xs = Some ys \<and> mset (take n ys) = mset (take n xs) \<and> drop n ys = drop n xs"
    and ordered: "n \<le> length xs \<Longrightarrow> comparator cmp \<Longrightarrow> sort_fn cmp n xs = Some ys \<Longrightarrow>
      sorted_wrt (\<lambda>x y. \<not> cmp x y > 0) (take n ys)"
begin

lemma sort_cases:
  assumes "n \<le> length xs"
  obtains ys where "sort_fn cmp n xs = Some ys" "mset (take n ys) = mset (take n xs)" "length ys = length xs"
    "drop n ys = drop n xs" "comparator cmp \<Longrightarrow> sorted_wrt (\<lambda>x y. \<not> cmp x y > 0) (take n ys)"
proof -
  obtain ys where ys: "sort_fn cmp n xs = Some ys" "mset (take n ys) = mset (take n xs)" "drop n ys = drop n xs"
    using returns [OF assms] by blast
  have "length (take n ys) = length (take n xs)" using ys(2) by (rule mset_eq_length)
  moreover have "length (drop n ys) = length (drop n xs)" using ys(3) by simp
  ultimately have "length ys = length xs" by (metis append_take_drop_id length_append)
  then show thesis using that ys ordered [OF assms _ ys(1)] by blast
qed

end

lemma permutes_segment:
  assumes "permutes 0 n xs ys" and "n \<le> length xs"
  shows "mset (take n ys) = mset (take n xs)" "drop n ys = drop n xs"
proof -
  have len: "length ys = length xs" using assms(1) by (rule permutes_length)
  show drop: "drop n ys = drop n xs"
    using assms len by (intro nth_equalityI) (auto simp: permutes_def)
  have "mset (take n ys) + mset (drop n ys) = mset (take n xs) + mset (drop n xs)"
    using assms(1) unfolding permutes_def by (metis append_take_drop_id mset_append)
  then show "mset (take n ys) = mset (take n xs)" using drop by simp
qed

lemma sorted_seg_take:
  "sorted_seg cmp 0 n ys \<Longrightarrow> n \<le> length ys \<Longrightarrow> sorted_wrt (\<lambda>x y. \<not> cmp x y > 0) (take n ys)"
  by (auto simp: sorted_wrt_iff_nth_less sorted_seg_def)

interpretation engine_sort: sort_func "\<lambda>cmp. zend_sort cmp 0"
proof
  fix n and xs :: "'a list" and cmp
  assume n: "n \<le> length xs"
  obtain ys where ys: "zend_sort cmp 0 n xs = Some ys" "permutes 0 n xs ys" "comparator cmp \<longrightarrow> sorted_seg cmp 0 n ys"
    using zend_sort_correct [of 0 n xs cmp] n by auto
  then show "\<exists>ys. zend_sort cmp 0 n xs = Some ys \<and> mset (take n ys) = mset (take n xs) \<and> drop n ys = drop n xs"
    using permutes_segment n by blast
  show "sorted_wrt (\<lambda>x y. \<not> cmp x y > 0) (take n zs)" if "comparator cmp" "zend_sort cmp 0 n xs = Some zs" for zs
    using ys that n permutes_length [OF ys(2)] by (intro sorted_seg_take) auto
qed

interpretation insertion_sort: sort_func "\<lambda>cmp n xs. Some (zend_insert_sort cmp 0 n xs)"
proof
  fix n and xs :: "'a list" and cmp
  assume n: "n \<le> length xs"
  have p: "permutes 0 n xs (zend_insert_sort cmp 0 n xs)" using n by (intro insert_sort_permutes) simp
  show "\<exists>ys. Some (zend_insert_sort cmp 0 n xs) = Some ys \<and> mset (take n ys) = mset (take n xs) \<and>
      drop n ys = drop n xs"
    by (intro exI conjI) (rule refl permutes_segment [OF p n])+
  show "sorted_wrt (\<lambda>x y. \<not> cmp x y > 0) (take n zs)"
    if "comparator cmp" "Some (zend_insert_sort cmp 0 n xs) = Some zs" for zs
    using comparator.insert_sort_sorted [OF that(1), of 0 n xs] that(2) n permutes_length [OF p]
    by (auto intro: sorted_seg_take)
qed

subsection \<open>Sorting the buckets\<close>

definition store_order :: "nat \<Rightarrow> 'v bucket list \<Rightarrow> 'v bucket list" where
  "store_order i bs = bs[i := (bs ! i)\<lparr>bnext := i\<rparr>]"

text \<open>One step of the loop that removes the holes and stores the original order.\<close>

definition sort_compact_step :: "nat \<Rightarrow> nat \<times> 'v bucket list \<Rightarrow> nat \<times> 'v bucket list" where
  "sort_compact_step j s = (case s of (i, bs) \<Rightarrow>
     if is_undef (bval (bs ! j)) then (i, bs)
     else (let bs = (if i \<noteq> j then bs[i := bs ! j] else bs) in (i + 1, store_order i bs)))"

definition sort_prepare :: "'v hashtable \<Rightarrow> 'v hashtable" where
  "sort_prepare ht =
     (if HT_IS_WITHOUT_HOLES ht then ht\<lparr>arData := fold store_order [0..<nNumUsed ht] (arData ht)\<rparr>
      else (case fold sort_compact_step [0..<nNumUsed ht] (0, arData ht) of
              (i, bs) \<Rightarrow> ht\<lparr>arData := bs, nNumUsed := i\<rparr>))"

text \<open>
  \<open>zend_hash_bucket_swap\<close> exchanges whole buckets, which is what the sort routine's exchange does.
  \<open>zend_hash_bucket_renum_swap\<close> exchanges the values only and leaves the keys in place; the
  renumbering then overwrites every key, so for comparison functions that do not read the keys the
  two exchanges give the same table, and the model uses the first.
\<close>

definition renumber_bucket :: "nat \<Rightarrow> 'v eg \<times> 'v bucket list \<Rightarrow> 'v eg \<times> 'v bucket list" where
  "renumber_bucket j s = (case s of (g, bs) \<Rightarrow>
     ((case bkey (bs ! j) of None \<Rightarrow> g | Some key \<Rightarrow> zend_string_release key g),
      bs[j := (bs ! j)\<lparr>bh := of_nat j, bkey := None\<rparr>]))"

definition sorted_to_packed :: "'v hashtable \<Rightarrow> 'v hashtable" where
  "sorted_to_packed ht =
     ht\<lparr>f_packed := True, f_static_keys := True, nTableMask := HT_MIN_MASK,
        arHash := replicate 2 HT_INVALID_IDX,
        arPacked := map bval (take (nTableSize ht) (arData ht)), arData := []\<rparr>"

definition zend_hash_sort_ex :: "'v eg \<Rightarrow> 'v hashtable
    \<Rightarrow> (('v bucket \<Rightarrow> 'v bucket \<Rightarrow> int) \<Rightarrow> nat \<Rightarrow> 'v bucket list \<Rightarrow> 'v bucket list option)
    \<Rightarrow> ('v bucket \<Rightarrow> 'v bucket \<Rightarrow> int) \<Rightarrow> bool \<Rightarrow> ('v eg \<times> 'v hashtable) option" where
  "zend_hash_sort_ex g ht sort_fn compar renumber =
     (if \<not> nNumOfElements ht > 1 \<and> \<not> (renumber \<and> nNumOfElements ht > 0) then Some (g, ht)
      else do {
        (g, ht) \<leftarrow> (if f_packed ht then zend_hash_packed_to_hash g ht else Some (g, ht));
        let ht = sort_prepare ht;
        let ht = (if \<not> f_packed ht then HT_HASH_RESET ht else ht);
        bs \<leftarrow> sort_fn compar (nNumUsed ht) (arData ht);
        let ht = ht\<lparr>arData := bs, nInternalPointer := 0\<rparr>;
        if renumber then
          (case fold renumber_bucket [0..<nNumUsed ht] (g, arData ht) of (g, bs) \<Rightarrow>
             let ht = ht\<lparr>arData := bs, nNextFreeElement := of_nat (nNumUsed ht)\<rparr>
             in Some (g, if f_packed ht then ht else sorted_to_packed ht))
        else if f_packed ht then zend_hash_packed_to_hash g ht
        else zend_hash_rehash g ht })"

definition zend_hash_sort :: "'v eg \<Rightarrow> 'v hashtable \<Rightarrow> ('v bucket \<Rightarrow> 'v bucket \<Rightarrow> int) \<Rightarrow> bool
    \<Rightarrow> ('v eg \<times> 'v hashtable) option" where
  "zend_hash_sort g ht compar renumber = zend_hash_sort_ex g ht (\<lambda>cmp. zend_sort cmp 0) compar renumber"

subsection \<open>Preparation\<close>

lemma store_order_length [simp]: "length (store_order i bs) = length bs"
  by (simp add: store_order_def)

lemma map_payload_store [simp]: "map payload (store_order i bs) = map payload bs"
proof (cases "i < length bs")
  case True
  then show ?thesis by (simp add: store_order_def map_update) (metis list_update_id map_update)
qed (simp add: store_order_def list_update_beyond)

lemma fold_store_order:
  "length (fold store_order is bs) = length bs \<and> map payload (fold store_order is bs) = map payload bs"
  by (induction "is" arbitrary: bs) auto

lemma sort_compact_loop:
  assumes "n \<le> length bs"
  shows "\<exists>i bs'. fold sort_compact_step [0..<n] (0, bs) = (i, bs') \<and> length bs' = length bs \<and> i \<le> n \<and>
     map payload (take i bs') = map payload (filter live (take n bs)) \<and> (\<forall>k \<ge> n. k < length bs \<longrightarrow> bs' ! k = bs ! k)"
  using assms
proof (induction n)
  case (Suc n)
  then obtain i bs' where IH: "fold sort_compact_step [0..<n] (0, bs) = (i, bs')" "length bs' = length bs" "i \<le> n"
    "map payload (take i bs') = map payload (filter live (take n bs))" "\<forall>k \<ge> n. k < length bs \<longrightarrow> bs' ! k = bs ! k"
    by auto
  have n: "n < length bs'" "bs' ! n = bs ! n" using IH(2,5) Suc.prems by auto
  define bs1 where "bs1 = (if i \<noteq> n then bs'[i := bs' ! n] else bs')"
  have b1: "length bs1 = length bs'" "take i bs1 = take i bs'" "bs1 ! i = bs ! n"
    "k > n \<Longrightarrow> bs1 ! k = bs' ! k" for k
    using n IH(3) by (auto simp: bs1_def nth_list_update)
  show ?case
  proof (cases "is_undef (bval (bs ! n))")
    case True
    then have "sort_compact_step n (i, bs') = (i, bs')" using n by (simp add: sort_compact_step_def)
    then show ?thesis using IH True Suc.prems by (simp add: take_Suc_conv_app_nth live_def [of "bs ! n"])
  next
    case False
    have "sort_compact_step n (i, bs') = (Suc i, store_order i bs1)"
      using False n by (simp add: sort_compact_step_def bs1_def)
    moreover have "take (Suc i) (store_order i bs1) = take i bs' @ [(bs ! n)\<lparr>bnext := i\<rparr>]"
      using b1 IH(3) n by (simp add: store_order_def take_Suc_update)
    moreover have "store_order i bs1 ! k = bs ! k" if "Suc n \<le> k" "k < length bs" for k
      using that b1(4) IH(3,5) by (simp add: store_order_def)
    ultimately show ?thesis
      using IH False Suc.prems b1(1) by (simp add: take_Suc_conv_app_nth live_def [of "bs ! n"])
  qed
qed simp

lemma sort_prepare_props:
  assumes "mixed_shape ht" and "nNumUsed ht \<le> nTableSize ht"
  shows "\<exists>bs. sort_prepare ht = ht\<lparr>arData := bs, nNumUsed := nNumOfElements ht\<rparr> \<and> length bs = length (arData ht) \<and>
    nNumOfElements ht \<le> nNumUsed ht \<and>
    map payload (take (nNumOfElements ht) bs) = map payload (live_buckets ht)"
proof (cases "HT_IS_WITHOUT_HOLES ht")
  case True
  note D = mixed_shapeD [OF assms(1)]
  have used: "nNumUsed ht = nNumOfElements ht" using True by (simp add: HT_IS_WITHOUT_HOLES_def)
  define bs where "bs = fold store_order [0..<nNumUsed ht] (arData ht)"
  have bs: "length bs = length (arData ht)" "map payload bs = map payload (arData ht)"
    using fold_store_order [of "[0..<nNumUsed ht]" "arData ht"] by (auto simp: bs_def)
  have "length (filter live (take (nNumUsed ht) (arData ht))) = length (take (nNumUsed ht) (arData ht))"
    using D(4,6) used assms(2) by (simp add: live_buckets_def)
  then have "filter live (take (nNumUsed ht) (arData ht)) = take (nNumUsed ht) (arData ht)"
    by (metis length_filter_less filter_True less_irrefl)
  then have "map payload (take (nNumOfElements ht) bs) = map payload (live_buckets ht)"
    unfolding live_buckets_def used by (simp add: bs(2) flip: take_map)
  moreover have "sort_prepare ht = ht\<lparr>arData := bs, nNumUsed := nNumOfElements ht\<rparr>"
    using True used by (simp add: sort_prepare_def bs_def)
  ultimately show ?thesis using bs(1) used by auto
next
  case False
  note D = mixed_shapeD [OF assms(1)]
  obtain i bs where l: "fold sort_compact_step [0..<nNumUsed ht] (0, arData ht) = (i, bs)"
    "length bs = length (arData ht)" "i \<le> nNumUsed ht"
    "map payload (take i bs) = map payload (live_buckets ht)"
    using sort_compact_loop [of "nNumUsed ht" "arData ht"] assms(2) D(4) by (auto simp: live_buckets_def)
  have "length (take i bs) = length (live_buckets ht)" using l(4) by (rule map_eq_imp_length_eq)
  then have "i = nNumOfElements ht" using l(2,3) D(4,6) assms(2) by simp
  then show ?thesis using l False by (auto simp: sort_prepare_def)
qed

subsection \<open>The sorted table\<close>

lemma filter_payload_set:
  "mset (map payload bs) = mset (map payload (filter live bs')) \<Longrightarrow> filter live bs = bs"
proof -
  assume eq: "mset (map payload bs) = mset (map payload (filter live bs'))"
  have "live b" if "b \<in> set bs" for b
  proof -
    have "payload b \<in> set (map payload (filter live bs'))"
      using that mset_eq_setD [OF eq] by (metis image_eqI set_map)
    then show ?thesis using payload_eqD(1) by fastforce
  qed
  then show ?thesis by (simp add: filter_id_conv)
qed

definition permuted :: "'v hashtable \<Rightarrow> 'v bucket list \<Rightarrow> 'v hashtable" where
  "permuted ht bs =
     (HT_HASH_RESET (ht\<lparr>nNumUsed := nNumOfElements ht\<rparr>))\<lparr>arData := bs, nInternalPointer := 0\<rparr>"

lemma permuted_fields:
  "nNumUsed (permuted ht bs) = nNumOfElements ht" "nNumOfElements (permuted ht bs) = nNumOfElements ht"
  "arData (permuted ht bs) = bs" "f_packed (permuted ht bs) = f_packed ht"
  "f_uninitialized (permuted ht bs) = f_uninitialized ht" "nTableSize (permuted ht bs) = nTableSize ht"
  "nNextFreeElement (permuted ht bs) = nNextFreeElement ht" "nInternalPointer (permuted ht bs) = 0"
  "pDestructor (permuted ht bs) = pDestructor ht" "ht_id (permuted ht bs) = ht_id ht"
  "nIteratorsCount (permuted ht bs) = nIteratorsCount ht"
  by (simp_all add: permuted_def HT_HASH_RESET_def)

lemma permuted_shape:
  assumes "mixed_shape ht" and "nNumUsed ht \<le> nTableSize ht" and "length bs = length (arData ht)"
    and m: "mset (map payload (take (nNumOfElements ht) bs)) = mset (map payload (live_buckets ht))"
  shows "mixed_shape (permuted ht bs)" and "live_buckets (permuted ht bs) = take (nNumOfElements ht) bs"
    and "mset (elems (permuted ht bs)) = mset (elems ht)"
proof -
  let ?n = "nNumOfElements ht"
  note D = mixed_shapeD [OF assms(1)]
  note F = permuted_fields
  show L: "live_buckets (permuted ht bs) = take ?n bs"
    unfolding live_buckets_def F using m unfolding live_buckets_def by (rule filter_payload_set)
  have set: "set (map payload (take ?n bs)) = set (map payload (live_buckets ht))"
    using m by (rule mset_eq_setD)
  have len: "length (take ?n bs) = length (live_buckets ht)"
    using mset_eq_length [OF m] by simp
  have "mset (map payload_elem (map payload (take ?n bs))) = mset (map payload_elem (map payload (live_buckets ht)))"
    using m by (simp only: mset_map)
  then show e: "mset (elems (permuted ht bs)) = mset (elems ht)"
    using D(1) L by (simp add: elems_def F map_bucket_elem_payload del: map_map)
  have "mset (map fst (elems (permuted ht bs))) = mset (map fst (elems ht))"
    using e by (simp only: mset_map)
  then have "mset (map bucket_key (take ?n bs)) = mset (map bucket_key (live_buckets ht))"
    using D(1) L by (simp add: elems_def F map_bucket_key_elem del: map_map)
  then have "distinct (map bucket_key (take ?n bs))"
    using D(8) mset_eq_imp_distinct_iff by blast
  moreover have "keys_ok (live_buckets ht)" using D(7) live_buckets_subset by (rule keys_ok_subset)
  then have "keys_ok (take ?n bs)" using set by (simp only: keys_ok_payload)
  moreover have "static_ok (take ?n bs)" if "f_static_keys ht"
  proof -
    have "static_ok (live_buckets ht)" using D(9) [OF that] live_buckets_subset by (rule static_ok_subset)
    then show ?thesis using set by (simp only: static_ok_payload)
  qed
  moreover have "length bs = nTableSize ht" using assms(3) D(4) by simp
  ultimately show "mixed_shape (permuted ht bs)"
    using D L len unfolding mixed_shape_def by (simp add: F) (simp add: permuted_def HT_HASH_RESET_def)
qed

lemma next_free_ok_mset:
  "mset (elems a) = mset (elems b) \<Longrightarrow> nNextFreeElement a = nNextFreeElement b \<Longrightarrow> next_free_ok a = next_free_ok b"
  unfolding next_free_ok_def by (drule mset_eq_setD) (simp only:)

text \<open>The common part: up to the call of the sort routine.\<close>

definition sort_input :: "'v eg \<Rightarrow> 'v hashtable \<Rightarrow> 'v eg \<Rightarrow> 'v hashtable \<Rightarrow> 'v bucket list \<Rightarrow> bool" where
  "sort_input g ht g1 ht1 bs \<longleftrightarrow>
     (if f_packed ht then zend_hash_packed_to_hash g ht else Some (g, ht)) = Some (g1, ht1) \<and>
     (ht1 = ht \<or> reorganised ht ht1) \<and>
     sizes_ok ht1 \<and> mixed_shape ht1 \<and> \<not> f_uninitialized ht1 \<and> next_free_ok ht1 \<and> elems ht1 = elems ht \<and>
     nNumOfElements ht1 = nNumOfElements ht \<and> nNextFreeElement ht1 = nNextFreeElement ht \<and>
     ht_id ht1 = ht_id ht \<and> pDestructor ht1 = pDestructor ht \<and>
     sort_prepare ht1 = ht1\<lparr>arData := bs, nNumUsed := nNumOfElements ht\<rparr> \<and> length bs = length (arData ht1) \<and>
     nNumOfElements ht \<le> length bs \<and>
     map payload (take (nNumOfElements ht) bs) = map payload (live_buckets ht1)"

lemma sort_input:
  assumes "wf_ht ht" and "0 < nNumOfElements ht"
  obtains g1 ht1 bs where "sort_input g ht g1 ht1 bs"
proof -
  have init: "\<not> f_uninitialized ht" using wf_htD(3) [OF assms(1)] assms(2) by (auto simp: wf_uninit_def)
  have "\<exists>g1 ht1. (if f_packed ht then zend_hash_packed_to_hash g ht else Some (g, ht)) = Some (g1, ht1) \<and>
      (ht1 = ht \<or> reorganised ht ht1) \<and> wf_ht ht1 \<and> \<not> f_packed ht1 \<and> \<not> f_uninitialized ht1"
  proof (cases "f_packed ht")
    case True
    then show ?thesis
      using packed_to_hash_wf [OF assms(1), of g] by (fastforce simp: reorganised_def)
  qed (use assms init in auto)
  then obtain g1 ht1 where 1: "(if f_packed ht then zend_hash_packed_to_hash g ht else Some (g, ht)) = Some (g1, ht1)"
    "ht1 = ht \<or> reorganised ht ht1" "wf_ht ht1" "\<not> f_packed ht1" "\<not> f_uninitialized ht1" by blast
  have same: "elems ht1 = elems ht" "nNumOfElements ht1 = nNumOfElements ht"
    "nNextFreeElement ht1 = nNextFreeElement ht" "ht_id ht1 = ht_id ht" "pDestructor ht1 = pDestructor ht"
    using 1(2) by (auto simp: reorganised_def)
  note W = wf_htD [OF 1(3)]
  have shape: "mixed_shape ht1" using W(5) 1 by blast
  note S = sizes_okD [OF W(1)] and D = mixed_shapeD [OF shape]
  obtain bs where "sort_prepare ht1 = ht1\<lparr>arData := bs, nNumUsed := nNumOfElements ht1\<rparr>"
    "length bs = length (arData ht1)" "nNumOfElements ht1 \<le> nNumUsed ht1"
    "map payload (take (nNumOfElements ht1) bs) = map payload (live_buckets ht1)"
    using sort_prepare_props [OF shape S(3)] by blast
  then have "sort_input g ht g1 ht1 bs"
    unfolding sort_input_def using 1 same W(1,2) shape S(3) D(4) by auto
  then show thesis by (rule that)
qed

definition sorted_elems :: "('v bucket \<Rightarrow> 'v bucket \<Rightarrow> int) \<Rightarrow> (hkey \<times> 'v zval \<Rightarrow> hkey \<times> 'v zval \<Rightarrow> int)
    \<Rightarrow> (hkey \<times> 'v zval) list \<Rightarrow> bool" where
  "sorted_elems compar cmp es \<longleftrightarrow>
     (comparator compar \<and> (\<forall>p q. compar p q > 0 \<longleftrightarrow> cmp (bucket_elem p) (bucket_elem q) > 0) \<longrightarrow>
      sorted_wrt (\<lambda>x y. \<not> cmp x y > 0) es)"

lemma sorted_elemsI:
  assumes "comparator compar \<Longrightarrow> sorted_wrt (\<lambda>x y. \<not> compar x y > 0) bs"
  shows "sorted_elems compar cmp (map bucket_elem bs)"
  using assms by (auto simp: sorted_elems_def sorted_wrt_map)

subsection \<open>Sorting in place\<close>

lemma HT_HASH_RESET_update:
  "(HT_HASH_RESET (ht\<lparr>arData := bs, nNumUsed := n\<rparr>))\<lparr>arData := bs', nInternalPointer := 0\<rparr> =
   (HT_HASH_RESET (ht\<lparr>nNumUsed := n\<rparr>))\<lparr>arData := bs', nInternalPointer := 0\<rparr>"
  by (simp add: HT_HASH_RESET_def)

lemma HT_HASH_RESET_arData: "arData (HT_HASH_RESET ht) = arData ht" "nNumUsed (HT_HASH_RESET ht) = nNumUsed ht"
  by (simp_all add: HT_HASH_RESET_def)

lemma sort_run:
  assumes "sort_func sort_fn" and "sort_input g ht g1 ht1 bs"
  obtains ys where "sort_fn compar (nNumOfElements ht) bs = Some ys"
    "mixed_shape (permuted ht1 ys)" "live_buckets (permuted ht1 ys) = take (nNumOfElements ht) ys"
    "mset (elems (permuted ht1 ys)) = mset (elems ht)"
    "comparator compar \<longrightarrow> sorted_wrt (\<lambda>x y. \<not> compar x y > 0) (take (nNumOfElements ht) ys)"
    "length ys = nTableSize ht1" "\<not> f_packed ht1"
proof -
  note I = assms(2) [unfolded sort_input_def]
  obtain ys where ys: "sort_fn compar (nNumOfElements ht) bs = Some ys"
    "mset (take (nNumOfElements ht) ys) = mset (take (nNumOfElements ht) bs)" "length ys = length bs"
    "comparator compar \<longrightarrow> sorted_wrt (\<lambda>x y. \<not> compar x y > 0) (take (nNumOfElements ht) ys)"
    using sort_func.sort_cases [OF assms(1), of "nNumOfElements ht" bs compar] I by metis
  have shape: "mixed_shape ht1" and n: "nNumOfElements ht1 = nNumOfElements ht" using I by auto
  have "mset (map payload (take (nNumOfElements ht) ys)) = mset (map payload (take (nNumOfElements ht) bs))"
    using ys(2) by (simp only: mset_map)
  then have m: "mset (map payload (take (nNumOfElements ht1) ys)) = mset (map payload (live_buckets ht1))"
    using I n by simp
  have used: "nNumUsed ht1 \<le> nTableSize ht1" using I sizes_okD(3) by blast
  have len: "length ys = length (arData ht1)" using ys(3) I by simp
  note P = permuted_shape [OF shape used len m]
  show thesis
    by (rule that [OF ys(1) P(1)])
      (use P n I len mixed_shapeD(1,4) [OF shape] ys(4) in auto)
qed

lemma sort_ex_correct:
  assumes "sort_func sort_fn" and "wf_ht ht"
  shows "\<exists>g' ht'. zend_hash_sort_ex g ht sort_fn compar False = Some (g', ht') \<and> wf_ht ht' \<and>
    mset (elems ht') = mset (elems ht) \<and> sorted_elems compar cmp (elems ht') \<and>
    nNextFreeElement ht' = nNextFreeElement ht"
proof (cases "nNumOfElements ht > 1")
  case False
  have "length (elems ht) = nNumOfElements ht" using assms(2) by (rule elems_count [symmetric])
  then have "length (elems ht) \<le> 1" using False by simp
  then have "sorted_wrt (\<lambda>x y. \<not> cmp x y > 0) (elems ht)"
    by (cases "elems ht") auto
  then show ?thesis using False assms(2) by (auto simp: zend_hash_sort_ex_def sorted_elems_def)
next
  case True
  have "0 < nNumOfElements ht" using True by simp
  then obtain g1 ht1 bs where inp: "sort_input g ht g1 ht1 bs" using sort_input [OF assms(2)] by blast
  note I = inp [unfolded sort_input_def]
  obtain ys where ys: "sort_fn compar (nNumOfElements ht) bs = Some ys"
    "mixed_shape (permuted ht1 ys)" "live_buckets (permuted ht1 ys) = take (nNumOfElements ht) ys"
    "mset (elems (permuted ht1 ys)) = mset (elems ht)"
    "comparator compar \<longrightarrow> sorted_wrt (\<lambda>x y. \<not> compar x y > 0) (take (nNumOfElements ht) ys)"
    "length ys = nTableSize ht1" "\<not> f_packed ht1"
    by (rule sort_run [OF assms(1) inp, where compar = compar])
  note F = permuted_fields [of ht1 ys]
  have run: "zend_hash_sort_ex g ht sort_fn compar False = zend_hash_rehash g1 (permuted ht1 ys)"
    using True I ys(1,7) unfolding zend_hash_sort_ex_def
    by (simp add: HT_HASH_RESET_arData HT_HASH_RESET_update permuted_def Let_def HT_HASH_RESET_def)
  have "sizes_ok (permuted ht1 ys)"
    using I ys(6) F mixed_shape_count [of ht1] sizes_okD(3) [of ht1] by (auto simp: sizes_ok_def)
  moreover have "\<not> f_uninitialized (permuted ht1 ys)" using I F by simp
  moreover have "next_free_ok (permuted ht1 ys)"
    using next_free_ok_mset [of "permuted ht1 ys" ht1] ys(4) I F by simp
  ultimately obtain g' ht' where r: "zend_hash_rehash g1 (permuted ht1 ys) = Some (g', ht')"
    "reorganised (permuted ht1 ys) ht'"
    using rehash_reorganised [OF _ ys(2), of g1] by blast
  have "elems ht' = elems (permuted ht1 ys)" using r(2) by (simp add: reorganised_def)
  also have "\<dots> = map bucket_elem (take (nNumOfElements ht) ys)"
    using ys(3,7) F by (simp add: elems_def)
  finally have "elems ht' = map bucket_elem (take (nNumOfElements ht) ys)" .
  then have "sorted_elems compar cmp (elems ht')" using ys(5) by (simp add: sorted_elemsI)
  then show ?thesis using run r ys(4) F I by (auto simp: reorganised_def)
qed

subsection \<open>Sorting with renumbering\<close>

lemma renumber_loop:
  assumes "n \<le> length bs"
  shows "\<exists>g' bs'. fold renumber_bucket [0..<n] (g, bs) = (g', bs') \<and> length bs' = length bs \<and>
    map bval bs' = map bval bs"
  using assms
proof (induction n)
  case (Suc n)
  then obtain g' bs' where IH: "fold renumber_bucket [0..<n] (g, bs) = (g', bs')" "length bs' = length bs"
    "map bval bs' = map bval bs" by auto
  have n: "n < length bs'" using IH(2) Suc.prems by simp
  have "map bval (bs'[n := (bs' ! n)\<lparr>bh := of_nat n, bkey := None\<rparr>]) = map bval bs'"
    using n by (simp add: map_update) (metis list_update_id nth_map)
  moreover have "fold renumber_bucket [0..<Suc n] (g, bs) = renumber_bucket n (g', bs')" using IH by simp
  ultimately show ?case
    using IH by (simp add: renumber_bucket_def [of n "(g', bs')"] del: upt_Suc)
qed simp

lemma packed_elems_full:
  assumes "n \<le> length zs" and "\<And>i. i < n \<Longrightarrow> \<not> is_undef (zs ! i)"
  shows "packed_elems zs n = zip (map (\<lambda>i. KInt (of_nat i)) [0..<n]) (take n zs)"
proof -
  have f: "filter (\<lambda>i. \<not> is_undef (zs ! i)) [0..<n] = [0..<n]" using assms(2) by (simp add: filter_id_conv)
  show ?thesis unfolding packed_elems_def f
    using assms(1) by (intro nth_equalityI) simp_all
qed

lemma sort_renumber_correct:
  assumes "sort_func sort_fn" and "wf_ht ht" and "0 < nNumOfElements ht"
  shows "\<exists>g' ht'. zend_hash_sort_ex g ht sort_fn compar True = Some (g', ht') \<and> wf_ht ht' \<and> f_packed ht' \<and>
    map fst (elems ht') = map (\<lambda>i. KInt (of_nat i)) [0..<nNumOfElements ht] \<and>
    mset (map snd (elems ht')) = mset (map snd (elems ht)) \<and>
    (comparator compar \<and> (\<forall>p q. compar p q > 0 \<longleftrightarrow> cmp (bval p) (bval q) > 0) \<longrightarrow>
       sorted_wrt (\<lambda>x y. \<not> cmp x y > 0) (map snd (elems ht'))) \<and>
    (\<exists>es. mset es = mset (elems ht) \<and> map snd (elems ht') = map snd es \<and> sorted_elems compar ecmp es) \<and>
    nNextFreeElement ht' = of_nat (nNumOfElements ht)"
proof -
  let ?n = "nNumOfElements ht"
  obtain g1 ht1 bs where inp: "sort_input g ht g1 ht1 bs" using sort_input [OF assms(2,3)] by blast
  note I = inp [unfolded sort_input_def]
  obtain ys where ys: "sort_fn compar ?n bs = Some ys"
    "mixed_shape (permuted ht1 ys)" "live_buckets (permuted ht1 ys) = take ?n ys"
    "mset (elems (permuted ht1 ys)) = mset (elems ht)"
    "comparator compar \<longrightarrow> sorted_wrt (\<lambda>x y. \<not> compar x y > 0) (take ?n ys)"
    "length ys = nTableSize ht1" "\<not> f_packed ht1"
    by (rule sort_run [OF assms(1) inp, where compar = compar])
  note F = permuted_fields [of ht1 ys]
  have used: "?n \<le> nTableSize ht1" using I mixed_shape_count [of ht1] sizes_okD(3) [of ht1] by auto
  then have n: "?n \<le> length ys" using ys(6) by simp
  obtain g' bs' where loop: "fold renumber_bucket [0..<?n] (g1, ys) = (g', bs')" "length bs' = length ys"
    "map bval bs' = map bval ys"
    using renumber_loop [OF n, of g1] by blast
  define t where "t = sorted_to_packed ((permuted ht1 ys)\<lparr>arData := bs', nNextFreeElement := of_nat ?n\<rparr>)"
  have run: "zend_hash_sort_ex g ht sort_fn compar True = Some (g', t)"
    using assms(3) I ys(1,7) loop(1) unfolding zend_hash_sort_ex_def t_def
    by (simp add: permuted_def Let_def HT_HASH_RESET_def)
  define zs where "zs = map bval ys"
  have t: "f_packed t" "nNumUsed t = ?n" "nNumOfElements t = ?n" "arPacked t = zs" "arData t = []"
    "nTableSize t = nTableSize ht1" "nNextFreeElement t = of_nat ?n" "\<not> f_uninitialized t" "no_data t"
    using I F loop(2,3) ys(6)
    by (simp_all add: t_def sorted_to_packed_def no_data_def zs_def)
  have live: "\<not> is_undef (zs ! i)" "zs ! i \<noteq> UNINIT" if "i < ?n" for i
  proof -
    have "ys ! i \<in> set (take ?n ys)" using that n by (metis in_set_conv_nth length_take min.absorb2 nth_take)
    moreover have "\<forall>b \<in> set (take ?n ys). live b"
      unfolding ys(3) [symmetric] by (simp add: live_buckets_def)
    moreover have "keys_ok (take ?n ys)" using mixed_shapeD(7) [OF ys(2)] F I by simp
    ultimately show "\<not> is_undef (zs ! i)" "zs ! i \<noteq> UNINIT"
      using that n by (auto simp: keys_ok_def live_def zs_def)
  qed
  have len: "length zs = nTableSize ht1" "?n \<le> length zs" using ys(6) n by (simp_all add: zs_def)
  have e: "elems t = zip (map (\<lambda>i. KInt (of_nat i)) [0..<?n]) (take ?n zs)"
    using packed_elems_full [OF len(2) live(1)] t by (simp add: elems_def)
  have k: "map fst (elems t) = map (\<lambda>i. KInt (of_nat i)) [0..<?n]" "map snd (elems t) = take ?n zs"
    using len(2) by (simp_all add: e)
  have es: "elems (permuted ht1 ys) = map bucket_elem (take ?n ys)" using ys(3,7) F by (simp add: elems_def)
  then have "map snd (elems (permuted ht1 ys)) = map bval (take ?n ys)" by (simp add: bucket_elem_def)
  then have vals: "mset (take ?n zs) = mset (map snd (elems ht))"
    using ys(4) unfolding zs_def by (metis mset_map take_map)
  have sorted: "sorted_wrt (\<lambda>x y. \<not> cmp x y > 0) (take ?n zs)"
    if "comparator compar" "\<forall>p q. compar p q > 0 \<longleftrightarrow> cmp (bval p) (bval q) > 0"
    using ys(5) that by (simp add: zs_def take_map sorted_wrt_map)
  have "?n \<le> HT_MAX_SIZE" using used I sizes_okD(2) [of ht1] by linarith
  then have small: "?n < 2 ^ 63" "unat (of_nat ?n :: u64) = ?n" "?n < HT_INVALID_IDX"
    by (simp_all add: HT_MAX_SIZE_def HT_INVALID_IDX_def unat_of_nat take_bit_eq_mod)
  have "next_free_ok t"
    by (rule packed_next_free [of _ zs ?n]) (use t small e packed_elems_full [OF len(2) live(1)] in simp_all)
  moreover have "sizes_ok t" using I t used by (auto simp: sizes_ok_def)
  moreover have "wf_packed t"
  proof -
    have "filter (\<lambda>v. \<not> is_undef v) (take ?n zs) = take ?n zs"
      using live(1) by (auto simp: filter_id_conv in_set_conv_nth)
    moreover have "UNINIT \<notin> set (take ?n zs)" using live(2) by (auto simp: in_set_conv_nth)
    ultimately show ?thesis
      using t len small unfolding wf_packed_def by (simp add: ZEND_LONG_MAX_def word_le_nat_alt)
  qed
  ultimately have "wf_ht t" using t by (simp add: wf_ht_def)
  moreover have "mset (map snd (elems t)) = mset (map snd (elems ht))" using k(2) vals by (simp only:)
  moreover have "comparator compar \<and> (\<forall>p q. compar p q > 0 \<longleftrightarrow> cmp (bval p) (bval q) > 0) \<longrightarrow>
      sorted_wrt (\<lambda>x y. \<not> cmp x y > 0) (map snd (elems t))"
    using sorted k(2) by simp
  moreover have "\<exists>es. mset es = mset (elems ht) \<and> map snd (elems t) = map snd es \<and> sorted_elems compar ecmp es"
  proof (intro exI conjI)
    show "mset (map bucket_elem (take ?n ys)) = mset (elems ht)" using ys(4) by (simp only: es)
    show "map snd (elems t) = map snd (map bucket_elem (take ?n ys))"
      by (simp add: k(2) zs_def take_map bucket_elem_def o_def)
    show "sorted_elems compar ecmp (map bucket_elem (take ?n ys))" using ys(5) by (simp add: sorted_elemsI)
  qed
  ultimately show ?thesis using run t(1,7) k(1) by blast
qed

subsection \<open>The INI directives\<close>

text \<open>
  \<open>ini_key_compare\<close> (\<open>Zend/zend_ini.c\<close>): numeric keys first, in descending order, then the string
  keys without regard to case. The first test of \<open>zend_binary_strcasecmp\<close> compares pointers; two
  equal pointers have equal contents, which is what the model tests.
\<close>

definition ini_key_compare :: "'v bucket \<Rightarrow> 'v bucket \<Rightarrow> int" where
  "ini_key_compare f s =
     (case (bkey f, bkey s) of
        (None, None) \<Rightarrow> if bh f > bh s then -1 else if bh f < bh s then 1 else 0
      | (None, Some _) \<Rightarrow> -1
      | (Some _, None) \<Rightarrow> 1
      | (Some k1, Some k2) \<Rightarrow> zend_binary_strcasecmp (k1 = k2) (zs_val k1) (zs_val k2))"

definition zend_ini_sort_entries :: "'v eg \<Rightarrow> 'v hashtable \<Rightarrow> ('v eg \<times> 'v hashtable) option" where
  "zend_ini_sort_entries g ini_directives = zend_hash_sort g ini_directives ini_key_compare False"

text \<open>The order on keys it stands for.\<close>

definition ini_key_le :: "hkey \<Rightarrow> hkey \<Rightarrow> bool" where
  "ini_key_le a b =
     (case (a, b) of
        (KInt m, KInt n) \<Rightarrow> n \<le> m
      | (KInt _, KStr _) \<Rightarrow> True
      | (KStr _, KInt _) \<Rightarrow> False
      | (KStr s, KStr t) \<Rightarrow> map zend_tolower_ascii s \<le> map zend_tolower_ascii t)"

lemma strcasecmp_pos:
  "zend_binary_strcasecmp (k1 = k2) (zs_val k1) (zs_val k2) > 0 \<longleftrightarrow>
   map zend_tolower_ascii (zs_val k2) < map zend_tolower_ascii (zs_val k1)"
proof -
  have "sgn (zend_binary_strcasecmp (k1 = k2) (zs_val k1) (zs_val k2)) =
      lex_cmp (map zend_tolower_ascii (zs_val k1)) (map zend_tolower_ascii (zs_val k2))"
    by (rule strcasecmp_lex) simp
  then show ?thesis unfolding lex_cmp_less by (auto simp: sgn_if split: if_splits)
qed

lemma ini_key_compare_le: "ini_key_compare f s > 0 \<longleftrightarrow> \<not> ini_key_le (bucket_key f) (bucket_key s)"
  by (auto simp: ini_key_compare_def ini_key_le_def bucket_key_def strcasecmp_pos split: option.split)

interpretation ini_order: comparator ini_key_compare
proof
  show "\<not> ini_key_compare y x > 0" if "ini_key_compare x y > 0" for x y :: "'v bucket"
    using that unfolding ini_key_compare_le by (auto simp: ini_key_le_def split: hkey.splits)
  show "\<not> ini_key_compare x z > 0" if "\<not> ini_key_compare x y > 0" "\<not> ini_key_compare y z > 0"
    for x y z :: "'v bucket"
    using that unfolding ini_key_compare_le by (auto simp: ini_key_le_def split: hkey.splits)
qed

lemma ini_sort_correct:
  fixes ht :: "'v hashtable"
  assumes "wf_ht ht"
  shows "\<exists>g' ht'. zend_ini_sort_entries g ht = Some (g', ht') \<and> wf_ht ht' \<and> mset (elems ht') = mset (elems ht) \<and>
    sorted_wrt ini_key_le (map fst (elems ht'))"
proof -
  define cmp :: "hkey \<times> 'v zval \<Rightarrow> hkey \<times> 'v zval \<Rightarrow> int" where
    "cmp x y = (if ini_key_le (fst x) (fst y) then 0 else 1)" for x y
  obtain g' ht' where s: "zend_ini_sort_entries g ht = Some (g', ht')"
    "wf_ht ht'" "mset (elems ht') = mset (elems ht)" "sorted_elems ini_key_compare cmp (elems ht')"
    using sort_ex_correct [OF engine_sort.sort_func_axioms assms, of g ini_key_compare cmp]
    by (auto simp: zend_ini_sort_entries_def zend_hash_sort_def)
  have "comparator (ini_key_compare :: 'v bucket \<Rightarrow> 'v bucket \<Rightarrow> int)" by (rule ini_order.comparator_axioms)
  then have "sorted_wrt (\<lambda>x y. \<not> cmp x y > 0) (elems ht')"
    using s(4) by (simp add: sorted_elems_def cmp_def ini_key_compare_le bucket_elem_def)
  then have "sorted_wrt ini_key_le (map fst (elems ht'))"
    unfolding sorted_wrt_map by (rule sorted_wrt_mono_rel [rotated]) (auto simp: cmp_def split: if_splits)
  then show ?thesis using s by blast
qed

end
