(* ===== verification/ZendHashCompare.thy ===== *)
theory ZendHashCompare
  imports ZendHashSort
begin

text \<open>
  Comparison of two hash tables (\<open>zend_hash_compare\<close>) and the smallest or largest element
  (\<open>zend_hash_minmax\<close>). The comparison of two values is a parameter, as in the code. The loops
  over cells, with their holes and the two data layouts, compute the comparison of the two element
  lists; the assertion that the second table does not run out never fails.
\<close>

subsection \<open>Cells\<close>

definition hash_cell :: "'v hashtable \<Rightarrow> nat \<Rightarrow> 'v zval \<times> u64 \<times> zstr option" where
  "hash_cell ht idx =
     (if f_packed ht then (arPacked ht ! idx, of_nat idx, None)
      else (bval (arData ht ! idx), bh (arData ht ! idx), bkey (arData ht ! idx)))"

text \<open>The inner \<open>while (1)\<close>; running into \<open>nNumUsed\<close> is a failed assertion, \<open>None\<close>.\<close>

function seek_defined :: "'v hashtable \<Rightarrow> nat \<Rightarrow> nat option" where
  "seek_defined ht idx =
     (if idx \<ge> nNumUsed ht then None
      else if \<not> is_undef (fst (hash_cell ht idx)) then Some idx
      else seek_defined ht (idx + 1))"
  by pat_completeness auto
termination by (relation "measure (\<lambda>(ht, idx). nNumUsed ht - idx)") auto

declare seek_defined.simps [simp del]

subsection \<open>Comparison\<close>

definition compare_keys :: "u64 \<Rightarrow> zstr option \<Rightarrow> u64 \<Rightarrow> zstr option \<Rightarrow> int" where
  "compare_keys h1 key1 h2 key2 =
     (case (key1, key2) of
        (None, None) \<Rightarrow> if h1 \<noteq> h2 then (if h1 > h2 then 1 else -1) else 0
      | (Some k1, Some k2) \<Rightarrow>
          if length (zs_val k1) \<noteq> length (zs_val k2)
          then (if length (zs_val k1) > length (zs_val k2) then 1 else -1)
          else memcmp (zs_val k1) (zs_val k2) (length (zs_val k1))
      | (Some _, None) \<Rightarrow> 1
      | (None, Some _) \<Rightarrow> -1)"

definition deref_indirect :: "'v eg \<Rightarrow> 'v zval \<Rightarrow> 'v zval" where
  "deref_indirect g v = (case v of IS_INDIRECT a \<Rightarrow> ind_slots g a | _ \<Rightarrow> v)"

definition compare_data :: "('v zval \<Rightarrow> 'v zval \<Rightarrow> int) \<Rightarrow> 'v zval \<Rightarrow> 'v zval \<Rightarrow> int" where
  "compare_data compar d1 d2 =
     (if is_undef d1 then (if \<not> is_undef d2 then -1 else 0)
      else if is_undef d2 then 1 else compar d1 d2)"

definition compare_find :: "'v eg \<Rightarrow> 'v hashtable \<Rightarrow> u64 \<Rightarrow> zstr option \<Rightarrow> nat \<Rightarrow> (int \<times> 'v zval \<times> nat) option" where
  "compare_find g ht2 h1 key1 idx2 =
     map_option (\<lambda>r. case r of None \<Rightarrow> (1, IS_UNDEF, idx2) | Some zv \<Rightarrow> (0, zref_val g ht2 zv, idx2))
       (case key1 of None \<Rightarrow> zend_hash_index_find ht2 h1 | Some key \<Rightarrow> zend_hash_find ht2 key)"

definition compare_next :: "'v hashtable \<Rightarrow> u64 \<Rightarrow> zstr option \<Rightarrow> nat \<Rightarrow> (int \<times> 'v zval \<times> nat) option" where
  "compare_next ht2 h1 key1 idx2 = do {
     idx2 \<leftarrow> seek_defined ht2 idx2;
     case hash_cell ht2 idx2 of (pData2, h2, key2) \<Rightarrow> Some (compare_keys h1 key1 h2 key2, pData2, idx2 + 1) }"

function hash_compare_loop :: "'v eg \<Rightarrow> 'v hashtable \<Rightarrow> 'v hashtable \<Rightarrow> ('v zval \<Rightarrow> 'v zval \<Rightarrow> int) \<Rightarrow> bool
    \<Rightarrow> nat \<Rightarrow> nat \<Rightarrow> int option" where
  "hash_compare_loop g ht1 ht2 compar ordered idx1 idx2 =
     (if idx1 < nNumUsed ht1 then
        (case hash_cell ht1 idx1 of (pData1, h1, key1) \<Rightarrow>
           if is_undef pData1 then hash_compare_loop g ht1 ht2 compar ordered (idx1 + 1) idx2
           else
             (case (if ordered then compare_next ht2 h1 key1 idx2 else compare_find g ht2 h1 key1 idx2) of
                None \<Rightarrow> None
              | Some (result, pData2, idx2) \<Rightarrow>
                  if result \<noteq> 0 then Some result
                  else
                    (let result = compare_data compar (deref_indirect g pData1) (deref_indirect g pData2)
                     in if result \<noteq> 0 then Some result
                        else hash_compare_loop g ht1 ht2 compar ordered (idx1 + 1) idx2)))
      else Some 0)"
  by pat_completeness auto
termination by (relation "measure (\<lambda>(g, ht1, ht2, compar, ordered, idx1, idx2). nNumUsed ht1 - idx1)") auto

declare hash_compare_loop.simps [simp del]

definition zend_hash_compare_impl :: "'v eg \<Rightarrow> 'v hashtable \<Rightarrow> 'v hashtable \<Rightarrow> ('v zval \<Rightarrow> 'v zval \<Rightarrow> int) \<Rightarrow> bool
    \<Rightarrow> int option" where
  "zend_hash_compare_impl g ht1 ht2 compar ordered =
     (if nNumOfElements ht1 \<noteq> nNumOfElements ht2
      then Some (if nNumOfElements ht1 > nNumOfElements ht2 then 1 else -1)
      else hash_compare_loop g ht1 ht2 compar ordered 0 0)"

text \<open>
  \<open>recursive\<close> is \<open>GC_IS_RECURSIVE(ht1)\<close>, the protection flag of the table; a recursive comparison is
  a fatal error.
\<close>

definition zend_hash_compare :: "'v eg \<Rightarrow> bool \<Rightarrow> 'v hashtable \<Rightarrow> 'v hashtable \<Rightarrow> ('v zval \<Rightarrow> 'v zval \<Rightarrow> int) \<Rightarrow> bool
    \<Rightarrow> int option" where
  "zend_hash_compare g recursive ht1 ht2 compar ordered =
     (if ht_id ht1 = ht_id ht2 then Some 0
      else if recursive then None
      else zend_hash_compare_impl g ht1 ht2 compar ordered)"

subsection \<open>Smallest and largest element\<close>

definition cell_ref :: "'v hashtable \<Rightarrow> nat \<Rightarrow> zref" where
  "cell_ref ht idx = (if f_packed ht then PackedVal idx else BucketVal idx)"

definition minmax_step :: "'v hashtable \<Rightarrow> ('v zval \<Rightarrow> 'v zval \<Rightarrow> int) \<Rightarrow> bool \<Rightarrow> nat \<Rightarrow> nat \<Rightarrow> nat" where
  "minmax_step ht compar flag idx res =
     (let zv = fst (hash_cell ht idx); r = fst (hash_cell ht res)
      in if is_undef zv then res
         else if flag then (if compar r zv < 0 then idx else res)
         else (if compar r zv > 0 then idx else res))"

definition zend_hash_minmax :: "'v hashtable \<Rightarrow> ('v zval \<Rightarrow> 'v zval \<Rightarrow> int) \<Rightarrow> bool \<Rightarrow> zref option" where
  "zend_hash_minmax ht compar flag =
     (if nNumOfElements ht = 0 then None
      else case seek_defined ht 0 of
        None \<Rightarrow> None
      | Some idx \<Rightarrow> Some (cell_ref ht (fold (minmax_step ht compar flag) [idx..<nNumUsed ht] idx)))"

subsection \<open>The elements from a position on\<close>

definition cell_elem :: "'v zval \<times> u64 \<times> zstr option \<Rightarrow> hkey \<times> 'v zval" where
  "cell_elem c = (case c of (v, h, key) \<Rightarrow> (case key of None \<Rightarrow> KInt h | Some k \<Rightarrow> KStr (zs_val k), v))"

lemma hash_cell_fst: "fst (hash_cell ht i) = val_at ht i" "cell_elem (hash_cell ht i) = (key_at ht i, val_at ht i)"
  by (simp_all add: hash_cell_def val_at_def cell_elem_def key_at_def bucket_key_def)

lemma undef_cell: "undef_at ht i \<longleftrightarrow> is_undef (fst (hash_cell ht i))"
  by (simp add: undef_at_def hash_cell_def)

lemma elems_from_end: "nNumUsed ht \<le> i \<Longrightarrow> elems_from ht i = []"
  by (simp add: elems_from_def)

lemma elems_from_cell:
  "i < nNumUsed ht \<Longrightarrow> elems_from ht i =
     (if is_undef (fst (hash_cell ht i)) then elems_from ht (Suc i)
      else cell_elem (hash_cell ht i) # elems_from ht (Suc i))"
  by (simp add: elems_from_step undef_cell hash_cell_fst)

lemma seek_defined_correct:
  "case seek_defined ht i of
     None \<Rightarrow> elems_from ht i = []
   | Some j \<Rightarrow> i \<le> j \<and> j < nNumUsed ht \<and> \<not> is_undef (fst (hash_cell ht j)) \<and>
       elems_from ht i = cell_elem (hash_cell ht j) # elems_from ht (Suc j)"
proof (induction ht i rule: seek_defined.induct)
  case (1 ht i)
  consider "nNumUsed ht \<le> i" | "i < nNumUsed ht" "\<not> is_undef (fst (hash_cell ht i))"
    | "i < nNumUsed ht" "is_undef (fst (hash_cell ht i))" by linarith
  then show ?case
  proof cases
    case 3
    then show ?thesis using 1 by (subst seek_defined.simps) (auto simp: elems_from_cell split: option.splits)
  qed (simp_all add: seek_defined.simps [of ht i] elems_from_end elems_from_cell)
qed

subsection \<open>Reference: comparing element lists\<close>

definition key_cmp :: "hkey \<Rightarrow> hkey \<Rightarrow> int" where
  "key_cmp a b =
     (case (a, b) of
        (KInt m, KInt n) \<Rightarrow> if m = n then 0 else if m > n then 1 else -1
      | (KStr s, KStr t) \<Rightarrow>
          if length s = length t then lex_cmp s t else if length s > length t then 1 else -1
      | (KStr _, KInt _) \<Rightarrow> 1
      | (KInt _, KStr _) \<Rightarrow> -1)"

definition data_cmp :: "'v eg \<Rightarrow> ('v zval \<Rightarrow> 'v zval \<Rightarrow> int) \<Rightarrow> 'v zval \<Rightarrow> 'v zval \<Rightarrow> int" where
  "data_cmp g compar v w = compare_data compar (deref_indirect g v) (deref_indirect g w)"

fun ordered_cmp :: "'v eg \<Rightarrow> ('v zval \<Rightarrow> 'v zval \<Rightarrow> int) \<Rightarrow> (hkey \<times> 'v zval) list \<Rightarrow> (hkey \<times> 'v zval) list \<Rightarrow> int" where
  "ordered_cmp g compar ((k, v) # xs) ((l, w) # ys) =
     (if key_cmp k l \<noteq> 0 then key_cmp k l
      else if data_cmp g compar v w \<noteq> 0 then data_cmp g compar v w
      else ordered_cmp g compar xs ys)"
| "ordered_cmp g compar _ _ = 0"

fun unordered_cmp :: "'v eg \<Rightarrow> ('v zval \<Rightarrow> 'v zval \<Rightarrow> int) \<Rightarrow> (hkey \<Rightarrow> 'v zval option) \<Rightarrow> (hkey \<times> 'v zval) list \<Rightarrow> int" where
  "unordered_cmp g compar look ((k, v) # xs) =
     (case look k of
        None \<Rightarrow> 1
      | Some w \<Rightarrow> if data_cmp g compar v w \<noteq> 0 then data_cmp g compar v w else unordered_cmp g compar look xs)"
| "unordered_cmp g compar look [] = 0"

definition elems_cmp :: "'v eg \<Rightarrow> ('v zval \<Rightarrow> 'v zval \<Rightarrow> int) \<Rightarrow> bool \<Rightarrow> 'v hashtable \<Rightarrow> 'v hashtable \<Rightarrow> int" where
  "elems_cmp g compar ordered ht1 ht2 =
     (if length (elems ht1) \<noteq> length (elems ht2)
      then (if length (elems ht1) > length (elems ht2) then 1 else -1)
      else if ordered then ordered_cmp g compar (elems ht1) (elems ht2)
      else unordered_cmp g compar (abs_find ht2) (elems ht1))"

lemma memcmp_full: "length s = length t \<Longrightarrow> memcmp s t (length t) = lex_cmp s t"
  by (induction s t rule: list_induct2) auto

lemma compare_keys_cell:
  "compare_keys h1 k1 h2 k2 = key_cmp (fst (cell_elem (v, h1, k1))) (fst (cell_elem (w, h2, k2)))"
  by (auto simp: compare_keys_def key_cmp_def cell_elem_def memcmp_full split: option.split)

lemma compare_loop_ordered:
  "length (elems_from ht1 i) \<le> length (elems_from ht2 j) \<Longrightarrow>
   hash_compare_loop g ht1 ht2 compar True i j =
   Some (ordered_cmp g compar (elems_from ht1 i) (elems_from ht2 j))"
proof (induction g ht1 ht2 compar True i j rule: hash_compare_loop.induct)
  case (1 g ht1 ht2 compar i j)
  obtain d1 h1 k1 where c1: "hash_cell ht1 i = (d1, h1, k1)" by (cases "hash_cell ht1 i")
  show ?case
  proof (cases "i < nNumUsed ht1")
    case True
    note step = elems_from_cell [OF True, unfolded c1]
    show ?thesis
    proof (cases "is_undef d1")
      case u: True
      then show ?thesis
        using 1(1) [OF True c1 [symmetric] refl u] 1(3) True step c1
        by (simp add: hash_compare_loop.simps [of g ht1 ht2 compar True i j])
    next
      case d: False
      then have "elems_from ht2 j \<noteq> []" using 1(3) step by auto
      then obtain m where m: "seek_defined ht2 j = Some m"
        "elems_from ht2 j = cell_elem (hash_cell ht2 m) # elems_from ht2 (Suc m)"
        using seek_defined_correct [of ht2 j] by (auto split: option.splits)
      obtain d2 h2 k2 where c2: "hash_cell ht2 m = (d2, h2, k2)" by (cases "hash_cell ht2 m")
      have n: "compare_next ht2 h1 k1 j = Some (compare_keys h1 k1 h2 k2, d2, Suc m)"
        using m c2 by (simp add: compare_next_def)
      obtain k v l w where e: "cell_elem (d1, h1, k1) = (k, v)" "cell_elem (d2, h2, k2) = (l, w)" "v = d1" "w = d2"
        by (simp add: cell_elem_def)
      have keys: "compare_keys h1 k1 h2 k2 = key_cmp k l"
        using compare_keys_cell [of h1 k1 h2 k2 d1 d2] e by simp
      have IH: "key_cmp k l = 0 \<Longrightarrow> data_cmp g compar d1 d2 = 0 \<Longrightarrow>
          hash_compare_loop g ht1 ht2 compar True (Suc i) (Suc m) =
          Some (ordered_cmp g compar (elems_from ht1 (Suc i)) (elems_from ht2 (Suc m)))"
        using 1(2) [OF True c1 [symmetric] refl d, of "(0, d2, Suc m)" 0 "(d2, Suc m)" d2 "Suc m" 0] n keys 1(3) step m d
        by (simp add: data_cmp_def)
      show ?thesis
        using True d c1 n step m c2 e keys IH
        by (simp add: hash_compare_loop.simps [of g ht1 ht2 compar True i j] data_cmp_def Let_def)
    qed
  qed (simp add: hash_compare_loop.simps elems_from_end)
qed

lemma find_result:
  assumes "\<exists>r. look = Some r \<and> map_option (zref_val g ht) r = found"
  shows "map_option (\<lambda>r. case r of None \<Rightarrow> (1, IS_UNDEF, j) | Some zv \<Rightarrow> (0, zref_val g ht zv, j)) look =
    Some (case found of None \<Rightarrow> (1 :: int, IS_UNDEF, j) | Some w \<Rightarrow> (0, w, j))"
proof -
  obtain r where "look = Some r" "map_option (zref_val g ht) r = found" using assms by blast
  then show ?thesis by (cases r) auto
qed

lemma compare_find_correct:
  assumes "wf_ht ht2"
  shows "compare_find g ht2 h key j =
    Some (case abs_find ht2 (fst (cell_elem (v, h, key))) of None \<Rightarrow> (1, IS_UNDEF, j) | Some w \<Rightarrow> (0, w, j))"
proof (cases key)
  case None
  then show ?thesis
    using find_result [OF find_correct(3) [OF assms, of h g]] by (simp add: compare_find_def cell_elem_def)
next
  case (Some k)
  then show ?thesis
    using find_result [OF find_correct(1) [OF assms, of k g]] by (simp add: compare_find_def cell_elem_def)
qed

lemma compare_loop_unordered:
  "wf_ht ht2 \<Longrightarrow> hash_compare_loop g ht1 ht2 compar False i j =
   Some (unordered_cmp g compar (abs_find ht2) (elems_from ht1 i))"
proof (induction g ht1 ht2 compar False i j rule: hash_compare_loop.induct)
  case (1 g ht1 ht2 compar i j)
  obtain d1 h1 k1 where c1: "hash_cell ht1 i = (d1, h1, k1)" by (cases "hash_cell ht1 i")
  show ?case
  proof (cases "i < nNumUsed ht1")
    case True
    note step = elems_from_cell [OF True, unfolded c1]
    show ?thesis
    proof (cases "is_undef d1")
      case u: True
      then show ?thesis
        using 1(1) [OF True c1 [symmetric] refl u] 1(3) True step c1
        by (simp add: hash_compare_loop.simps [of g ht1 ht2 compar False i j])
    next
      case d: False
      define k where "k = fst (cell_elem (d1, h1, k1))"
      have e: "cell_elem (d1, h1, k1) = (k, d1)" by (simp add: k_def cell_elem_def)
      have n: "compare_find g ht2 h1 k1 j =
          Some (case abs_find ht2 k of None \<Rightarrow> (1, IS_UNDEF, j) | Some w \<Rightarrow> (0, w, j))"
        unfolding k_def by (rule compare_find_correct [OF 1(3)])
      have IH: "hash_compare_loop g ht1 ht2 compar False (Suc i) j =
          Some (unordered_cmp g compar (abs_find ht2) (elems_from ht1 (Suc i)))"
        if "abs_find ht2 k = Some w" "data_cmp g compar d1 w = 0" for w
        using 1(2) [OF True c1 [symmetric] refl d, of "(0, w, j)" 0 "(w, j)" w j 0] n that 1(3)
        by (simp add: data_cmp_def)
      show ?thesis
        using True d c1 n step e IH
        by (cases "abs_find ht2 k")
          (simp_all add: hash_compare_loop.simps [of g ht1 ht2 compar False i j] data_cmp_def Let_def)
    qed
  qed (simp add: hash_compare_loop.simps elems_from_end)
qed

lemma compare_impl_correct:
  assumes "wf_ht ht1" and "wf_ht ht2"
  shows "zend_hash_compare_impl g ht1 ht2 compar ordered = Some (elems_cmp g compar ordered ht1 ht2)"
  using compare_loop_ordered [of ht1 0 ht2 0] compare_loop_unordered [OF assms(2)] elems_count [OF assms(1)] elems_count [OF assms(2)]
  by (cases ordered) (simp_all add: zend_hash_compare_impl_def elems_cmp_def elems_from_0 assms)

text \<open>What a result of zero means.\<close>

lemma lex_cmp_0: "lex_cmp s t = 0 \<longleftrightarrow> s = t"
  by (auto simp: lex_cmp_less)

lemma key_cmp_0: "key_cmp k l = 0 \<longleftrightarrow> k = l"
  by (auto simp: key_cmp_def lex_cmp_0 split: hkey.splits)

lemma ordered_cmp_0:
  "length xs = length ys \<Longrightarrow>
   ordered_cmp g compar xs ys = 0 \<longleftrightarrow> list_all2 (\<lambda>(k, v) (l, w). k = l \<and> data_cmp g compar v w = 0) xs ys"
  by (induction xs ys rule: list_induct2) (auto simp: key_cmp_0 split: if_splits)

lemma unordered_cmp_0:
  "unordered_cmp g compar look xs = 0 \<longleftrightarrow>
   (\<forall>(k, v) \<in> set xs. \<exists>w. look k = Some w \<and> data_cmp g compar v w = 0)"
  by (induction g compar look xs rule: unordered_cmp.induct) (auto split: option.split)

lemma elems_cmp_0:
  "elems_cmp g compar ordered ht1 ht2 = 0 \<longleftrightarrow> length (elems ht1) = length (elems ht2) \<and>
     (if ordered then list_all2 (\<lambda>(k, v) (l, w). k = l \<and> data_cmp g compar v w = 0) (elems ht1) (elems ht2)
      else (\<forall>(k, v) \<in> set (elems ht1). \<exists>w. abs_find ht2 k = Some w \<and> data_cmp g compar v w = 0))"
  by (auto simp: elems_cmp_def ordered_cmp_0 unordered_cmp_0)

subsection \<open>The extreme element is extreme\<close>

lemma minmax_loop:
  assumes c: "comparator cmp" "\<And>v w. (if flag then compar v w < 0 else compar v w > 0) \<longleftrightarrow> cmp v w > 0"
    and start: "\<not> undef_at ht i" "i < n"
  shows "\<exists>m. fold (minmax_step ht compar flag) [i..<n] i = m \<and> i \<le> m \<and> m < n \<and> \<not> undef_at ht m \<and>
    (\<forall>j. i \<le> j \<longrightarrow> j < n \<longrightarrow> \<not> undef_at ht j \<longrightarrow> \<not> cmp (val_at ht m) (val_at ht j) > 0)"
  using start(2)
proof (induction n)
  case (Suc n)
  have irr: "\<not> cmp v v > 0" for v using comparator.asym [OF c(1), of v v] by blast
  have step: "minmax_step ht compar flag n m =
      (if undef_at ht n then m else if cmp (val_at ht m) (val_at ht n) > 0 then n else m)" for m
    using c(2) [of "val_at ht m" "val_at ht n"]
    by (auto simp: minmax_step_def Let_def hash_cell_fst undef_cell split: if_splits)
  show ?case
  proof (cases "i = n")
    case True
    then show ?thesis using start(1) irr by (auto simp: step less_Suc_eq intro!: exI [of _ i])
  next
    case False
    then obtain m where m: "fold (minmax_step ht compar flag) [i..<n] i = m" "i \<le> m" "m < n" "\<not> undef_at ht m"
      "\<forall>j. i \<le> j \<longrightarrow> j < n \<longrightarrow> \<not> undef_at ht j \<longrightarrow> \<not> cmp (val_at ht m) (val_at ht j) > 0"
      using Suc by auto
    have f: "fold (minmax_step ht compar flag) [i..<Suc n] i = minmax_step ht compar flag n m"
      using Suc.prems m(1) by simp
    show ?thesis
    proof (cases "\<not> undef_at ht n \<and> cmp (val_at ht m) (val_at ht n) > 0")
      case better: True
      have "\<not> cmp (val_at ht n) (val_at ht j) > 0" if "i \<le> j" "j < Suc n" "\<not> undef_at ht j" for j
      proof (cases "j = n")
        case False
        then have "\<not> cmp (val_at ht m) (val_at ht j) > 0" using m(5) that by simp
        moreover have "\<not> cmp (val_at ht n) (val_at ht m) > 0"
          using comparator.asym [OF c(1)] better by blast
        ultimately show ?thesis using comparator.trans [OF c(1)] by blast
      qed (use irr in simp)
      then show ?thesis unfolding f using better Suc.prems by (auto simp: step)
    next
      case worse: False
      then show ?thesis unfolding f using m by (auto simp: step less_Suc_eq)
    qed
  qed
qed simp

lemma minmax_correct:
  assumes "wf_ht ht" and "comparator cmp"
    and "\<And>v w. (if flag then compar v w < 0 else compar v w > 0) \<longleftrightarrow> cmp v w > 0"
  shows "case zend_hash_minmax ht compar flag of
      None \<Rightarrow> elems ht = []
    | Some r \<Rightarrow> zref_val g ht r \<in> snd ` set (elems ht) \<and> (\<forall>v \<in> snd ` set (elems ht). \<not> cmp (zref_val g ht r) v > 0)"
proof (cases "elems ht = []")
  case True
  then show ?thesis using elems_count [OF assms(1)] by (simp add: zend_hash_minmax_def)
next
  case False
  then have n: "nNumOfElements ht \<noteq> 0" using elems_count [OF assms(1)] by simp
  obtain i where i: "seek_defined ht 0 = Some i" "i < nNumUsed ht" "\<not> undef_at ht i"
    "elems ht = cell_elem (hash_cell ht i) # elems_from ht (Suc i)"
    using seek_defined_correct [of ht 0] False elems_from_0 [OF assms(1)]
    by (auto simp: undef_cell split: option.splits)
  obtain m where m: "fold (minmax_step ht compar flag) [i..<nNumUsed ht] i = m" "i \<le> m" "m < nNumUsed ht" "\<not> undef_at ht m"
    "\<forall>j. i \<le> j \<longrightarrow> j < nNumUsed ht \<longrightarrow> \<not> undef_at ht j \<longrightarrow> \<not> cmp (val_at ht m) (val_at ht j) > 0"
    using minmax_loop [OF assms(2,3) i(3,2)] by blast
  have e: "snd ` set (elems ht) = val_at ht ` {j. i \<le> j \<and> j < nNumUsed ht \<and> \<not> undef_at ht j}"
    unfolding i(4) using i(2,3)
    by (auto simp: elems_from_def hash_cell_fst image_iff intro: Suc_leD)
      (metis Suc_leI atLeastLessThan_iff le_neq_implies_less)
  have r: "zref_val g ht (cell_ref ht m) = val_at ht m"
    by (simp add: cell_ref_def zref_val_def val_at_def)
  show ?thesis using n i(1) m by (auto simp: zend_hash_minmax_def r e)
qed

end
