(* ===== verification/ZendHashReach.thy ===== *)
theory ZendHashReach
  imports ZendHashCompare
begin

text \<open>
  The hash table as a labelled machine. A label \<open>hash_call\<close> is one call of the interface with its arguments;
  \<open>run_call\<close> makes it on the code's model and \<open>list_call\<close> says, for this label, what the ordered list of
  key/value pairs must be afterwards and what the caller must be told. Every call simulates its label's
  specification, and so does every sequence of calls. \<open>hash_step\<close> relates the states before and after a
  call, and every table that a sequence of calls can produce from \<open>zend_hash_init\<close> is well formed.
\<close>

subsection \<open>The interface as a step relation\<close>

inductive hash_step :: "'v eg \<times> 'v hashtable \<Rightarrow> 'v eg \<times> 'v hashtable \<Rightarrow> bool" where
  update: "zend_hash_update g ht key v = Some (g', ht', r) \<Longrightarrow> proper v \<Longrightarrow> nTableSize ht < HT_MAX_SIZE \<Longrightarrow>
    hash_step (g, ht) (g', ht')"
| str_update: "zend_hash_str_update g ht s v = Some (g', ht', r) \<Longrightarrow> proper v \<Longrightarrow> nTableSize ht < HT_MAX_SIZE \<Longrightarrow>
    hash_step (g, ht) (g', ht')"
| add: "zend_hash_add g ht key v = Some (g', ht', r) \<Longrightarrow> proper v \<Longrightarrow> nTableSize ht < HT_MAX_SIZE \<Longrightarrow>
    hash_step (g, ht) (g', ht')"
| lookup: "zend_hash_lookup g ht key = Some (g', ht', r) \<Longrightarrow> nTableSize ht < HT_MAX_SIZE \<Longrightarrow>
    hash_step (g, ht) (g', ht')"
| index_update: "zend_hash_index_update g ht h v = Some (g', ht', r) \<Longrightarrow> proper v \<Longrightarrow> nTableSize ht < HT_MAX_SIZE \<Longrightarrow>
    hash_step (g, ht) (g', ht')"
| index_add: "zend_hash_index_add g ht h v = Some (g', ht', r) \<Longrightarrow> proper v \<Longrightarrow> nTableSize ht < HT_MAX_SIZE \<Longrightarrow>
    hash_step (g, ht) (g', ht')"
| next_index_insert: "zend_hash_next_index_insert g ht v = Some (g', ht', r) \<Longrightarrow> proper v \<Longrightarrow> nTableSize ht < HT_MAX_SIZE \<Longrightarrow>
    hash_step (g, ht) (g', ht')"
| index_lookup: "zend_hash_index_lookup g ht h = Some (g', ht', r) \<Longrightarrow> nTableSize ht < HT_MAX_SIZE \<Longrightarrow>
    hash_step (g, ht) (g', ht')"
| del: "zend_hash_del g ht key = Some (g', ht', b) \<Longrightarrow> hash_step (g, ht) (g', ht')"
| str_del: "zend_hash_str_del g ht s = Some (g', ht', b) \<Longrightarrow> hash_step (g, ht) (g', ht')"
| index_del: "zend_hash_index_del g ht h = Some (g', ht', b) \<Longrightarrow> hash_step (g, ht) (g', ht')"
| clean: "zend_hash_clean g ht = (g', ht') \<Longrightarrow> hash_step (g, ht) (g', ht')"
| packed_to_hash: "zend_hash_packed_to_hash g ht = Some (g', ht') \<Longrightarrow> f_packed ht \<Longrightarrow> hash_step (g, ht) (g', ht')"
| rehash: "zend_hash_rehash g ht = Some (g', ht') \<Longrightarrow> \<not> f_packed ht \<Longrightarrow> \<not> f_uninitialized ht \<Longrightarrow> hash_step (g, ht) (g', ht')"
| sort: "zend_hash_sort g ht compar renumber = Some (g', ht') \<Longrightarrow> hash_step (g, ht) (g', ht')"
| graceful_destroy: "zend_hash_graceful_destroy g ht = Some (g', ht') \<Longrightarrow> hash_step (g, ht) (g', ht')"

inductive hash_reachable :: "'v eg \<times> 'v hashtable \<Rightarrow> bool" where
  init: "zend_hash_init i nSize dtor persistent = Some ht \<Longrightarrow> hash_reachable (g, ht)"
| step: "hash_reachable s \<Longrightarrow> hash_step s s' \<Longrightarrow> hash_reachable s'"

subsection \<open>Calls and what they answer\<close>

datatype 'v hash_call =
    HUpdate zstr "'v zval" | HStrUpdate "u8 list" "'v zval" | HAdd zstr "'v zval" | HLookup zstr
  | HIndexUpdate u64 "'v zval" | HIndexAdd u64 "'v zval" | HNextIndexInsert "'v zval" | HIndexLookup u64
  | HFind zstr | HStrFind "u8 list" | HIndexFind u64
  | HDel zstr | HStrDel "u8 list" | HIndexDel u64
  | HClean | HGracefulDestroy | HPackedToHash | HRehash
  | HSort "hkey \<times> 'v zval \<Rightarrow> hkey \<times> 'v zval \<Rightarrow> int" bool

text \<open>The value of the cell that was returned, nothing, a truth value, or no result.\<close>

datatype 'v outcome = Cell "'v zval" | Refused | Answer bool | Done

definition cell_outcome :: "'v eg \<Rightarrow> 'v hashtable \<Rightarrow> zref option \<Rightarrow> 'v outcome" where
  "cell_outcome g ht r = (case r of None \<Rightarrow> Refused | Some r \<Rightarrow> Cell (zref_val g ht r))"

definition with_cell :: "('v eg \<times> 'v hashtable \<times> zref option) option \<Rightarrow> ('v outcome \<times> 'v eg \<times> 'v hashtable) option" where
  "with_cell = map_option (\<lambda>(g, ht, r). (cell_outcome g ht r, g, ht))"

definition with_flag :: "('v eg \<times> 'v hashtable \<times> bool) option \<Rightarrow> ('v outcome \<times> 'v eg \<times> 'v hashtable) option" where
  "with_flag = map_option (\<lambda>(g, ht, b). (Answer b, g, ht))"

definition found_cell :: "'v eg \<Rightarrow> 'v hashtable \<Rightarrow> zref option option \<Rightarrow> ('v outcome \<times> 'v eg \<times> 'v hashtable) option" where
  "found_cell g ht = map_option (\<lambda>r. (cell_outcome g ht r, g, ht))"

fun run_call :: "'v hash_call \<Rightarrow> 'v eg \<times> 'v hashtable \<Rightarrow> ('v outcome \<times> 'v eg \<times> 'v hashtable) option" where
  "run_call (HUpdate key v) (g, ht) = with_cell (zend_hash_update g ht key v)"
| "run_call (HStrUpdate s v) (g, ht) = with_cell (zend_hash_str_update g ht s v)"
| "run_call (HAdd key v) (g, ht) = with_cell (zend_hash_add g ht key v)"
| "run_call (HLookup key) (g, ht) = with_cell (zend_hash_lookup g ht key)"
| "run_call (HIndexUpdate h v) (g, ht) = with_cell (zend_hash_index_update g ht h v)"
| "run_call (HIndexAdd h v) (g, ht) = with_cell (zend_hash_index_add g ht h v)"
| "run_call (HNextIndexInsert v) (g, ht) = with_cell (zend_hash_next_index_insert g ht v)"
| "run_call (HIndexLookup h) (g, ht) = with_cell (zend_hash_index_lookup g ht h)"
| "run_call (HFind key) (g, ht) = found_cell g ht (zend_hash_find ht key)"
| "run_call (HStrFind s) (g, ht) = found_cell g ht (zend_hash_str_find ht s)"
| "run_call (HIndexFind h) (g, ht) = found_cell g ht (zend_hash_index_find ht h)"
| "run_call (HDel key) (g, ht) = with_flag (zend_hash_del g ht key)"
| "run_call (HStrDel s) (g, ht) = with_flag (zend_hash_str_del g ht s)"
| "run_call (HIndexDel h) (g, ht) = with_flag (zend_hash_index_del g ht h)"
| "run_call HClean (g, ht) = Some (Done, zend_hash_clean g ht)"
| "run_call HGracefulDestroy (g, ht) = map_option (Pair Done) (zend_hash_graceful_destroy g ht)"
| "run_call HPackedToHash (g, ht) = map_option (Pair Done) (zend_hash_packed_to_hash g ht)"
| "run_call HRehash (g, ht) = map_option (Pair Done) (zend_hash_rehash g ht)"
| "run_call (HSort cmp renumber) (g, ht) =
     map_option (Pair Done) (zend_hash_sort g ht (\<lambda>p q. cmp (bucket_elem p) (bucket_elem q)) renumber)"

text \<open>
  What a caller has to see to: values are proper, an insertion finds the table below its largest size, and the
  two reorganisations are called on the representation they are for.
\<close>

fun call_ok :: "'v hash_call \<Rightarrow> 'v hashtable \<Rightarrow> bool" where
  "call_ok (HUpdate key v) ht \<longleftrightarrow> proper v \<and> nTableSize ht < HT_MAX_SIZE"
| "call_ok (HStrUpdate s v) ht \<longleftrightarrow> proper v \<and> nTableSize ht < HT_MAX_SIZE"
| "call_ok (HAdd key v) ht \<longleftrightarrow> proper v \<and> nTableSize ht < HT_MAX_SIZE"
| "call_ok (HLookup key) ht \<longleftrightarrow> nTableSize ht < HT_MAX_SIZE"
| "call_ok (HIndexUpdate h v) ht \<longleftrightarrow> proper v \<and> nTableSize ht < HT_MAX_SIZE"
| "call_ok (HIndexAdd h v) ht \<longleftrightarrow> proper v \<and> nTableSize ht < HT_MAX_SIZE"
| "call_ok (HNextIndexInsert v) ht \<longleftrightarrow> proper v \<and> nTableSize ht < HT_MAX_SIZE"
| "call_ok (HIndexLookup h) ht \<longleftrightarrow> nTableSize ht < HT_MAX_SIZE"
| "call_ok HPackedToHash ht \<longleftrightarrow> f_packed ht"
| "call_ok HRehash ht \<longleftrightarrow> \<not> f_packed ht \<and> \<not> f_uninitialized ht"
| "call_ok _ ht \<longleftrightarrow> True"

subsection \<open>The specification of each call, on ordered lists of pairs\<close>

definition list_add :: "hkey \<Rightarrow> 'v zval \<Rightarrow> (hkey \<times> 'v zval) list \<Rightarrow> 'v outcome \<Rightarrow> (hkey \<times> 'v zval) list \<Rightarrow> bool" where
  "list_add k v xs out ys \<longleftrightarrow>
     (if k \<in> fst ` set xs then ys = xs \<and> out = Refused else ys = xs @ [(k, v)] \<and> out = Cell v)"

definition list_lookup :: "hkey \<Rightarrow> (hkey \<times> 'v zval) list \<Rightarrow> 'v outcome \<Rightarrow> (hkey \<times> 'v zval) list \<Rightarrow> bool" where
  "list_lookup k xs out ys \<longleftrightarrow>
     (case map_of xs k of Some v \<Rightarrow> ys = xs \<and> out = Cell v | None \<Rightarrow> ys = xs @ [(k, IS_NULL)] \<and> out = Cell IS_NULL)"

definition list_find :: "hkey \<Rightarrow> (hkey \<times> 'v zval) list \<Rightarrow> 'v outcome \<Rightarrow> (hkey \<times> 'v zval) list \<Rightarrow> bool" where
  "list_find k xs out ys \<longleftrightarrow> ys = xs \<and> out = (case map_of xs k of Some v \<Rightarrow> Cell v | None \<Rightarrow> Refused)"

definition list_del :: "hkey \<Rightarrow> (hkey \<times> 'v zval) list \<Rightarrow> 'v outcome \<Rightarrow> (hkey \<times> 'v zval) list \<Rightarrow> bool" where
  "list_del k xs out ys \<longleftrightarrow> ys = AList.delete k xs \<and> out = Answer (k \<in> fst ` set xs)"

text \<open>
  The next number lies above every integer key, compared with signs; there is none when the largest integer is a
  key. A sort gives a permutation, ordered when the comparison is a total preorder, and then numbers it if
  it is asked to.
\<close>

definition list_next :: "'v zval \<Rightarrow> (hkey \<times> 'v zval) list \<Rightarrow> 'v outcome \<Rightarrow> (hkey \<times> 'v zval) list \<Rightarrow> bool" where
  "list_next v xs out ys \<longleftrightarrow>
     (if KInt ZEND_LONG_MAX \<in> fst ` set xs then ys = xs \<and> out = Refused
      else \<exists>n. (\<forall>h. KInt h \<in> fst ` set xs \<longrightarrow> h <s n) \<and> ys = xs @ [(KInt n, v)] \<and> out = Cell v)"

definition list_sort :: "(hkey \<times> 'v zval \<Rightarrow> hkey \<times> 'v zval \<Rightarrow> int) \<Rightarrow> bool \<Rightarrow> (hkey \<times> 'v zval) list \<Rightarrow> (hkey \<times> 'v zval) list \<Rightarrow> bool" where
  "list_sort cmp renumber xs ys \<longleftrightarrow>
     (\<exists>zs. mset zs = mset xs \<and> (comparator cmp \<longrightarrow> sorted_wrt (\<lambda>x y. \<not> cmp x y > 0) zs) \<and>
        ys = (if renumber then zip (map (\<lambda>i. KInt (of_nat i)) [0..<length zs]) (map snd zs) else zs))"

fun list_call :: "'v hash_call \<Rightarrow> (hkey \<times> 'v zval) list \<Rightarrow> 'v outcome \<Rightarrow> (hkey \<times> 'v zval) list \<Rightarrow> bool" where
  "list_call (HUpdate key v) xs out ys \<longleftrightarrow> ys = AList.update (KStr (zs_val key)) v xs \<and> out = Cell v"
| "list_call (HStrUpdate s v) xs out ys \<longleftrightarrow> ys = AList.update (KStr s) v xs \<and> out = Cell v"
| "list_call (HAdd key v) xs out ys \<longleftrightarrow> list_add (KStr (zs_val key)) v xs out ys"
| "list_call (HLookup key) xs out ys \<longleftrightarrow> list_lookup (KStr (zs_val key)) xs out ys"
| "list_call (HIndexUpdate h v) xs out ys \<longleftrightarrow> ys = AList.update (KInt h) v xs \<and> out = Cell v"
| "list_call (HIndexAdd h v) xs out ys \<longleftrightarrow> list_add (KInt h) v xs out ys"
| "list_call (HNextIndexInsert v) xs out ys \<longleftrightarrow> list_next v xs out ys"
| "list_call (HIndexLookup h) xs out ys \<longleftrightarrow> list_lookup (KInt h) xs out ys"
| "list_call (HFind key) xs out ys \<longleftrightarrow> list_find (KStr (zs_val key)) xs out ys"
| "list_call (HStrFind s) xs out ys \<longleftrightarrow> list_find (KStr s) xs out ys"
| "list_call (HIndexFind h) xs out ys \<longleftrightarrow> list_find (KInt h) xs out ys"
| "list_call (HDel key) xs out ys \<longleftrightarrow> list_del (KStr (zs_val key)) xs out ys"
| "list_call (HStrDel s) xs out ys \<longleftrightarrow> list_del (KStr s) xs out ys"
| "list_call (HIndexDel h) xs out ys \<longleftrightarrow> list_del (KInt h) xs out ys"
| "list_call HClean xs out ys \<longleftrightarrow> ys = [] \<and> out = Done"
| "list_call HGracefulDestroy xs out ys \<longleftrightarrow> ys = [] \<and> out = Done"
| "list_call HPackedToHash xs out ys \<longleftrightarrow> ys = xs \<and> out = Done"
| "list_call HRehash xs out ys \<longleftrightarrow> ys = xs \<and> out = Done"
| "list_call (HSort cmp renumber) xs out ys \<longleftrightarrow> list_sort cmp renumber xs ys \<and> out = Done"

subsection \<open>The simulation\<close>

text \<open>A call ran: its outcome and a well-formed table whose elements satisfy \<open>P\<close>.\<close>

definition ran :: "('v outcome \<times> 'v eg \<times> 'v hashtable) option \<Rightarrow> ('v outcome \<Rightarrow> (hkey \<times> 'v zval) list \<Rightarrow> bool) \<Rightarrow> bool" where
  "ran res P \<longleftrightarrow> (\<exists>out g' ht'. res = Some (out, g', ht') \<and> wf_ht ht' \<and> P out (elems ht'))"

lemma ranI: "res = Some (out, g', ht') \<Longrightarrow> wf_ht ht' \<Longrightarrow> P out (elems ht') \<Longrightarrow> ran res P"
  by (auto simp: ran_def)

lemma updates_ran: "updates g ht k v res \<Longrightarrow> ran (with_cell res) (\<lambda>out ys. ys = AList.update k v (elems ht) \<and> out = Cell v)"
  by (auto simp: ran_def updates_def with_cell_def cell_outcome_def)

lemma inserted_ran: "inserted g ht k v res \<Longrightarrow> ran (with_cell res) (\<lambda>out ys. ys = elems ht @ [(k, v)] \<and> out = Cell v)"
  by (auto simp: ran_def inserted_def with_cell_def cell_outcome_def)

lemma deletes_key_ran: "wf_ht ht \<Longrightarrow> deletes_key g ht k res \<Longrightarrow> ran (with_flag res) (list_del k (elems ht))"
  by (auto simp: ran_def deletes_key_def deletes_def with_flag_def list_del_def AList.delete_id split: if_splits)

lemma find_ran:
  assumes "wf_ht ht" "\<exists>r. res = Some r \<and> map_option (zref_val g ht) r = abs_find ht k"
  shows "ran (found_cell g ht res) (list_find k (elems ht))"
proof -
  obtain r where r: "res = Some r" "map_option (zref_val g ht) r = map_of (elems ht) k" using assms(2) by (auto simp: abs_find_def)
  have "ran (found_cell g ht res) (\<lambda>out ys. list_find k (elems ht) out ys)"
    using assms(1) r(1) by (intro ranI) (auto simp: found_cell_def cell_outcome_def list_find_def r(2) [symmetric] split: option.split)
  then show ?thesis .
qed

lemma add_ran:
  assumes "wf_ht ht" "if k \<in> fst ` set (elems ht) then res = Some (g, ht, None) else inserted g ht k v res"
  shows "ran (with_cell res) (list_add k v (elems ht))"
proof (cases "k \<in> fst ` set (elems ht)")
  case True
  then show ?thesis using assms by (simp add: ran_def with_cell_def cell_outcome_def list_add_def)
next
  case False
  then show ?thesis using inserted_ran [of g ht k v res] assms(2) by (simp add: ran_def list_add_def)
qed

lemma lookup_ran:
  assumes "wf_ht ht" "if k \<in> fst ` set (elems ht) then \<exists>r. res = Some (g, ht, Some r) \<and> abs_find ht k = Some (zref_val g ht r)
    else inserted g ht k IS_NULL res"
  shows "ran (with_cell res) (list_lookup k (elems ht))"
proof (cases "k \<in> fst ` set (elems ht)")
  case True
  then show ?thesis using assms by (auto simp: ran_def with_cell_def cell_outcome_def list_lookup_def abs_find_def)
next
  case False
  then have "map_of (elems ht) k = None" by (simp add: map_of_eq_None_iff)
  then show ?thesis using False inserted_ran [of g ht k IS_NULL res] assms(2) by (simp add: ran_def list_lookup_def)
qed

lemma long_extremes: "\<not> h <s ZEND_LONG_MIN" "h \<noteq> ZEND_LONG_MAX \<Longrightarrow> h <s ZEND_LONG_MAX" "\<not> ZEND_LONG_MAX <s h"
proof -
  have b: "- (2 ^ 63) \<le> sint h" "sint h \<le> 2 ^ 63 - 1" using sint_ge [of h] sint_lt [of h] by simp_all
  have "sint ZEND_LONG_MIN = - (2 ^ 63)" "sint ZEND_LONG_MAX = 2 ^ 63 - 1" by (simp_all add: ZEND_LONG_MIN_def ZEND_LONG_MAX_def)
  then show "\<not> h <s ZEND_LONG_MIN" "\<not> ZEND_LONG_MAX <s h" using b by (simp_all add: word_sless_alt)
  show "h <s ZEND_LONG_MAX" if "h \<noteq> ZEND_LONG_MAX"
  proof -
    have "sint h \<noteq> sint ZEND_LONG_MAX" using that signed_word_eqI [of h ZEND_LONG_MAX] by blast
    then show ?thesis using b \<open>sint ZEND_LONG_MAX = 2 ^ 63 - 1\<close> by (simp add: word_sless_alt)
  qed
qed

lemma next_ran:
  assumes "wf_ht ht" "nTableSize ht < HT_MAX_SIZE" "proper v"
  shows "ran (with_cell (zend_hash_next_index_insert g ht v)) (list_next v (elems ht))"
proof (cases "KInt (next_key ht) \<in> fst ` set (elems ht)")
  case True
  then have "nNextFreeElement ht = ZEND_LONG_MAX" using next_key_fresh [OF assms(1)] by blast
  then have "KInt ZEND_LONG_MAX \<in> fst ` set (elems ht)" using True by (simp add: next_key_def ZEND_LONG_MIN_def ZEND_LONG_MAX_def)
  then show ?thesis using True assms(1) next_index_insert_correct [OF assms, of g]
    by (simp add: ran_def with_cell_def cell_outcome_def list_next_def)
next
  case False
  have above: "h <s next_key ht" if h: "KInt h \<in> fst ` set (elems ht)" for h
  proof -
    have "h \<noteq> next_key ht" using False h by metis
    moreover have "h <s nNextFreeElement ht \<or> nNextFreeElement ht = ZEND_LONG_MAX"
      using wf_htD(2) [OF assms(1)] h unfolding next_free_ok_iff by fastforce
    moreover have "\<not> h <s ZEND_LONG_MIN" "h \<noteq> ZEND_LONG_MAX \<Longrightarrow> h <s ZEND_LONG_MAX" by (rule long_extremes)+
    moreover have "ZEND_LONG_MIN \<noteq> ZEND_LONG_MAX" by (simp add: ZEND_LONG_MIN_def ZEND_LONG_MAX_def)
    ultimately show ?thesis by (auto simp: next_key_def split: if_splits)
  qed
  then have "KInt ZEND_LONG_MAX \<notin> fst ` set (elems ht)" using long_extremes(3) by blast
  then show ?thesis
    using False above inserted_ran [of g ht "KInt (next_key ht)" v "zend_hash_next_index_insert g ht v"]
      next_index_insert_correct [OF assms, of g]
    by (auto simp: ran_def list_next_def)
qed

lemma element_comparator:
  "comparator cmp \<Longrightarrow> comparator (\<lambda>p q. cmp (bucket_elem p) (bucket_elem q))"
  using comparator.asym [of cmp] comparator.trans [of cmp] by unfold_locales blast+

lemma sort_ran:
  assumes "wf_ht ht"
  shows "ran (map_option (Pair Done) (zend_hash_sort g ht (\<lambda>p q. cmp (bucket_elem p) (bucket_elem q)) renumber))
    (\<lambda>out ys. list_sort cmp renumber (elems ht) ys \<and> out = Done)"
proof -
  note E = engine_sort.sort_func_axioms
  let ?compar = "\<lambda>p q. cmp (bucket_elem p) (bucket_elem q)"
  have sorted: "comparator cmp \<longrightarrow> sorted_wrt (\<lambda>x y. \<not> cmp x y > 0) es" if "sorted_elems ?compar cmp es" for es
    using that element_comparator [of cmp] by (simp add: sorted_elems_def)
  consider (plain) "\<not> renumber" | (none) "renumber" "nNumOfElements ht = 0" | (numbered) "renumber" "0 < nNumOfElements ht" by auto
  then show ?thesis
  proof cases
    case plain
    obtain g' ht' where "zend_hash_sort_ex g ht (\<lambda>cmp. zend_sort cmp 0) ?compar False = Some (g', ht')" "wf_ht ht'"
      "mset (elems ht') = mset (elems ht)" "sorted_elems ?compar cmp (elems ht')"
      using sort_ex_correct [OF E assms, of g ?compar cmp] by blast
    then show ?thesis using plain sorted by (auto simp: ran_def zend_hash_sort_def list_sort_def)
  next
    case none
    then have "elems ht = []" using elems_count [OF assms] by simp
    then show ?thesis using none assms by (simp add: ran_def zend_hash_sort_def zend_hash_sort_ex_def list_sort_def)
  next
    case numbered
    obtain g' ht' es where R: "zend_hash_sort_ex g ht (\<lambda>cmp. zend_sort cmp 0) ?compar True = Some (g', ht')" "wf_ht ht'"
      "map fst (elems ht') = map (\<lambda>i. KInt (of_nat i)) [0..<nNumOfElements ht]"
      "mset es = mset (elems ht)" "map snd (elems ht') = map snd es" "sorted_elems ?compar cmp es"
      using sort_renumber_correct [OF E assms numbered(2), of g ?compar _ cmp] by blast
    have "nNumOfElements ht = length es" using elems_count [OF assms] mset_eq_length [OF R(4)] by simp
    then have "elems ht' = zip (map (\<lambda>i. KInt (of_nat i)) [0..<length es]) (map snd es)"
      using R(3,5) by (metis zip_map_fst_snd)
    then show ?thesis using numbered R(1,2,4) sorted [OF R(6)] by (auto simp: ran_def zend_hash_sort_def list_sort_def)
  qed
qed

lemma reorganised_ran: "reorganised ht ht' \<Longrightarrow> ran (Some (Done, g', ht')) (\<lambda>out ys. ys = elems ht \<and> out = Done)"
  by (simp add: ran_def reorganised_def)

text \<open>Each call runs, on a well-formed table, and does what its label says.\<close>

lemma call_simulates:
  assumes "wf_ht ht" "call_ok c ht"
  shows "ran (run_call c (g, ht)) (list_call c (elems ht))"
proof (cases c)
  case (HUpdate key v)
  then show ?thesis using updates_ran [OF update_i_correct(1) [OF assms(1), of v g key]] assms(2) by (simp add: ran_def zend_hash_update_def)
next
  case (HStrUpdate s v)
  then show ?thesis using updates_ran [OF update_i_correct(2) [OF assms(1), of v g s]] assms(2) by (simp add: ran_def zend_hash_str_update_def Let_def)
next
  case (HIndexUpdate h v)
  then show ?thesis using updates_ran [OF index_update_correct [OF assms(1), of v g h]] assms(2) by (simp add: ran_def)
next
  case (HAdd key v)
  then show ?thesis
    using add_ran [OF assms(1), of "KStr (zs_val key)" "zend_hash_add g ht key v" g v] assms add_or_update_new [of ht HASH_ADD v key g]
      present_add(1) [OF assms(1), of key g v] by (simp add: ran_def zend_hash_add_def)
next
  case (HIndexAdd h v)
  then show ?thesis using add_ran [OF assms(1) index_add_correct] assms by (simp add: ran_def)
next
  case (HLookup key)
  then show ?thesis
    using lookup_ran [OF assms(1), of "KStr (zs_val key)" "zend_hash_lookup g ht key" g] assms add_or_update_new [of ht HASH_LOOKUP UNINIT key g]
      present_add(3) [OF assms(1), of key g UNINIT] by (simp add: ran_def zend_hash_lookup_def)
next
  case (HIndexLookup h)
  then show ?thesis using lookup_ran [OF assms(1) index_lookup_correct] assms by (simp add: ran_def)
next
  case (HNextIndexInsert v)
  then show ?thesis using next_ran [OF assms(1)] assms by (simp add: ran_def)
next
  case (HFind key)
  then show ?thesis using find_ran [OF assms(1) find_correct(1) [OF assms(1)]] by (simp add: ran_def)
next
  case (HStrFind s)
  then show ?thesis using find_ran [OF assms(1) find_correct(2) [OF assms(1)]] by (simp add: ran_def)
next
  case (HIndexFind h)
  then show ?thesis using find_ran [OF assms(1) find_correct(3) [OF assms(1)]] by (simp add: ran_def)
next
  case (HDel key)
  then show ?thesis using deletes_key_ran [OF assms(1) del_correct [OF assms(1)]] by (simp add: ran_def)
next
  case (HStrDel s)
  then show ?thesis using deletes_key_ran [OF assms(1) str_del_correct [OF assms(1)]] by (simp add: ran_def)
next
  case (HIndexDel h)
  then show ?thesis using deletes_key_ran [OF assms(1) index_del_correct [OF assms(1)]] by (simp add: ran_def)
next
  case HClean
  obtain g1 ht1 where "zend_hash_clean g ht = (g1, ht1)" "wf_ht ht1" "elems ht1 = []" by (rule clean_correct [OF assms(1), of g])
  then show ?thesis using HClean by (simp add: ran_def)
next
  case HGracefulDestroy
  obtain g1 ht1 where "zend_hash_graceful_destroy g ht = Some (g1, ht1)" "wf_ht ht1" "elems ht1 = []"
    by (rule graceful_destroy_correct [OF assms(1), of g])
  then show ?thesis using HGracefulDestroy by (simp add: ran_def)
next
  case HPackedToHash
  then have p: "f_packed ht" using assms(2) by simp
  obtain g1 ht1 where "zend_hash_packed_to_hash g ht = Some (g1, ht1)" "reorganised ht ht1" by (rule packed_to_hash_wf [OF assms(1) p, of g])
  then show ?thesis using HPackedToHash reorganised_ran by (simp add: ran_def)
next
  case HRehash
  then have m: "\<not> f_packed ht" "\<not> f_uninitialized ht" using assms(2) by simp_all
  note W = wf_htD [OF assms(1)]
  obtain g1 ht1 where "zend_hash_rehash g ht = Some (g1, ht1)" "reorganised ht ht1"
    by (rule rehash_reorganised [OF W(1) W(5) [OF m(2,1)] m(2) W(2), of g])
  then show ?thesis using HRehash reorganised_ran by (simp add: ran_def)
next
  case (HSort cmp renumber)
  then show ?thesis using sort_ran [OF assms(1)] by (simp add: ran_def)
qed

text \<open>Sequences of calls with their outcomes, on the table and on the list.\<close>

inductive hash_trace :: "'v eg \<times> 'v hashtable \<Rightarrow> ('v hash_call \<times> 'v outcome) list \<Rightarrow> 'v eg \<times> 'v hashtable \<Rightarrow> bool" for s where
  nil: "hash_trace s [] s"
| snoc: "hash_trace s tr s' \<Longrightarrow> call_ok c (snd s') \<Longrightarrow> run_call c s' = Some (out, s'') \<Longrightarrow> hash_trace s (tr @ [(c, out)]) s''"

inductive list_trace :: "(hkey \<times> 'v zval) list \<Rightarrow> ('v hash_call \<times> 'v outcome) list \<Rightarrow> (hkey \<times> 'v zval) list \<Rightarrow> bool" for xs where
  nil: "list_trace xs [] xs"
| snoc: "list_trace xs tr ys \<Longrightarrow> list_call c ys out zs \<Longrightarrow> list_trace xs (tr @ [(c, out)]) zs"

lemma traces_simulate:
  assumes "hash_trace s tr s'" "wf_ht (snd s)"
  shows "wf_ht (snd s') \<and> list_trace (elems (snd s)) tr (elems (snd s'))"
  using assms
proof (induction rule: hash_trace.induct)
  case (snoc tr s' c out s'')
  then have "wf_ht (snd s')" "list_trace (elems (snd s)) tr (elems (snd s'))" by simp_all
  moreover have "wf_ht (snd s'')" "list_call c (elems (snd s')) out (elems (snd s''))"
    using call_simulates [of "snd s'" c "fst s'"] calculation(1) snoc(2,3) by (auto simp: ran_def)
  ultimately show ?case by (blast intro: list_trace.snoc)
qed (simp add: list_trace.nil)

subsection \<open>Every step keeps the table well formed\<close>

lemma ran_wf: "ran (run_call c (g, ht)) P \<Longrightarrow> run_call c (g, ht) = Some (out, g', ht') \<Longrightarrow> wf_ht ht'"
  by (auto simp: ran_def)

lemma hash_step_wf:
  assumes "hash_step (g, ht) (g', ht')" and "wf_ht ht"
  shows "wf_ht ht'"
  using assms
proof (induction "(g, ht)" "(g', ht')" rule: hash_step.induct)
  case (sort compar renumber)
  note E = engine_sort.sort_func_axioms
  show ?case
  proof (cases "renumber \<and> 0 < nNumOfElements ht")
    case True
    then show ?thesis using sort sort_renumber_correct [OF E sort(2), of g compar] by (auto simp: zend_hash_sort_def)
  next
    case False
    then show ?thesis using sort sort_ex_correct [OF E sort(2), of g compar] by (cases renumber) (auto simp: zend_hash_sort_def zend_hash_sort_ex_def)
  qed
next
  case (update key v r)
  then show ?case using ran_wf [OF call_simulates [of ht "HUpdate key v" g]] by (auto simp: with_cell_def)
next
  case (str_update s v r)
  then show ?case using ran_wf [OF call_simulates [of ht "HStrUpdate s v" g]] by (auto simp: with_cell_def)
next
  case (add key v r)
  then show ?case using ran_wf [OF call_simulates [of ht "HAdd key v" g]] by (auto simp: with_cell_def)
next
  case (lookup key r)
  then show ?case using ran_wf [OF call_simulates [of ht "HLookup key" g]] by (auto simp: with_cell_def)
next
  case (index_update h v r)
  then show ?case using ran_wf [OF call_simulates [of ht "HIndexUpdate h v" g]] by (auto simp: with_cell_def)
next
  case (index_add h v r)
  then show ?case using ran_wf [OF call_simulates [of ht "HIndexAdd h v" g]] by (auto simp: with_cell_def)
next
  case (next_index_insert v r)
  then show ?case using ran_wf [OF call_simulates [of ht "HNextIndexInsert v" g]] by (auto simp: with_cell_def)
next
  case (index_lookup h r)
  then show ?case using ran_wf [OF call_simulates [of ht "HIndexLookup h" g]] by (auto simp: with_cell_def)
next
  case (del key b)
  then show ?case using ran_wf [OF call_simulates [of ht "HDel key" g]] by (auto simp: with_flag_def)
next
  case (str_del s b)
  then show ?case using ran_wf [OF call_simulates [of ht "HStrDel s" g]] by (auto simp: with_flag_def)
next
  case (index_del h b)
  then show ?case using ran_wf [OF call_simulates [of ht "HIndexDel h" g]] by (auto simp: with_flag_def)
next
  case clean
  then show ?case using ran_wf [OF call_simulates [of ht HClean g]] by auto
next
  case packed_to_hash
  then show ?case using ran_wf [OF call_simulates [of ht HPackedToHash g]] by auto
next
  case rehash
  then show ?case using ran_wf [OF call_simulates [of ht HRehash g]] by auto
next
  case graceful_destroy
  then show ?case using ran_wf [OF call_simulates [of ht HGracefulDestroy g]] by auto
qed

subsection \<open>Reachable tables\<close>

lemma zend_hash_init_wf:
  assumes "zend_hash_init i nSize dtor persistent = Some ht"
  shows "wf_ht ht" "elems ht = []"
proof -
  obtain n where n: "zend_hash_check_size nSize = Some n"
    using assms by (auto simp: zend_hash_init_def zend_hash_init_int_def split: Option.bind_splits)
  have "\<exists>k \<in> {3..30}. n = 2 ^ k"
  proof (cases "nSize \<le> of_nat HT_MIN_SIZE")
    case True
    then show ?thesis using n by (auto simp: zend_hash_check_size_def HT_MIN_SIZE_def intro!: bexI [of _ 3])
  next
    case False
    then have "\<not> nSize > of_nat HT_MAX_SIZE" using n by (auto simp: zend_hash_check_size_def split: if_splits)
    from check_size_middle [OF False this] obtain k where "3 \<le> k" "k < 30" "n = 2 ^ Suc k" using n by auto
    then show ?thesis by (intro bexI [of _ "Suc k"]) auto
  qed
  then show "wf_ht ht" "elems ht = []"
    using assms n by (auto simp: zend_hash_init_def zend_hash_init_int_def wf_ht_def sizes_ok_def next_free_ok_def elems_def
        live_buckets_def wf_uninit_def no_data_def)
qed

lemma reachable_wf: "hash_reachable s \<Longrightarrow> wf_ht (snd s)"
proof (induction rule: hash_reachable.induct)
  case (init i nSize dtor persistent ht g)
  then show ?case using zend_hash_init_wf by simp
next
  case (step s s')
  then show ?case using hash_step_wf [of "fst s" "snd s" "fst s'" "snd s'"] by simp
qed

end
