(* ===== verification/BcNum.thy ===== *)
theory BcNum
  imports PhpPrelude Complex_Main
begin

text \<open>
  The decimal numbers of \<open>ext/bcmath/libbcmath/src\<close>: the record of a number, allocation, removal of
  leading zeros, the tests for zero, and comparison.

  \<open>n_value\<close> is the digits from the pointer of that name to the end of the storage, so moving the
  pointer forward drops digits, and storage may hold more digits than \<open>n_len + n_scale\<close>. Digits are
  C chars, here integers. The routines walk the digits from the last one to the first; the
  models of such loops are recursions on the reversed digit list. Numbers are shared by reference
  counts in the code; every routine writes only to numbers it has just allocated, so the counts
  are not modelled.
\<close>

datatype sign = PLUS | MINUS

record bc_num =
  n_sign :: sign
  n_len :: nat
  n_scale :: nat
  n_value :: "int list"

definition BASE :: int where "BASE = 10"

definition bc_new_num :: "nat \<Rightarrow> nat \<Rightarrow> bc_num" where
  "bc_new_num len scale = \<lparr>n_sign = PLUS, n_len = len, n_scale = scale, n_value = replicate (len + scale) 0\<rparr>"

text \<open>The constants \<open>bc_init_numbers\<close> makes.\<close>

definition BCG_zero :: bc_num where "BCG_zero = bc_new_num 1 0"
definition BCG_one :: bc_num where "BCG_one = (let n = bc_new_num 1 0 in n\<lparr>n_value := (n_value n)[0 := 1]\<rparr>)"
definition BCG_two :: bc_num where "BCG_two = (let n = bc_new_num 1 0 in n\<lparr>n_value := (n_value n)[0 := 2]\<rparr>)"

function bc_rm_leading_zeros :: "bc_num \<Rightarrow> bc_num" where
  "bc_rm_leading_zeros num =
     (if n_value num ! 0 = 0 \<and> n_len num > 1
      then bc_rm_leading_zeros (num\<lparr>n_value := tl (n_value num), n_len := n_len num - 1\<rparr>) else num)"
  by pat_completeness auto
termination by (relation "measure n_len") auto
declare bc_rm_leading_zeros.simps [simp del]

text \<open>\<open>while ((count > 0) && (*nptr++ == 0)) count--;\<close> with the final count.\<close>

fun skip_zeros :: "int list \<Rightarrow> nat \<Rightarrow> nat" where
  "skip_zeros nptr 0 = 0"
| "skip_zeros (d # nptr) (Suc count) = (if d = 0 then skip_zeros nptr count else Suc count)"
| "skip_zeros [] (Suc count) = Suc count"

text \<open>The shortcut compares with the shared zero; a number equal to it is zero as well.\<close>

definition bc_is_zero_for_scale :: "bc_num \<Rightarrow> nat \<Rightarrow> bool" where
  "bc_is_zero_for_scale num scale =
     (if num = BCG_zero then True else skip_zeros (n_value num) (n_len num + scale) = 0)"

definition bc_is_zero :: "bc_num \<Rightarrow> bool" where
  "bc_is_zero num = bc_is_zero_for_scale num (n_scale num)"

definition bc_is_neg :: "bc_num \<Rightarrow> bool" where
  "bc_is_neg num \<longleftrightarrow> n_sign num = MINUS"

text \<open>\<open>while ((count > 0) && (*n1ptr == *n2ptr))\<close> with the final count and pointers.\<close>

fun same_prefix :: "int list \<Rightarrow> int list \<Rightarrow> nat \<Rightarrow> nat \<times> int list \<times> int list" where
  "same_prefix (d1 # n1ptr) (d2 # n2ptr) (Suc count) =
     (if d1 = d2 then same_prefix n1ptr n2ptr count else (Suc count, d1 # n1ptr, d2 # n2ptr))"
| "same_prefix n1ptr n2ptr count = (count, n1ptr, n2ptr)"

definition bc_do_compare :: "bc_num \<Rightarrow> bc_num \<Rightarrow> bool \<Rightarrow> bool \<Rightarrow> int" where
  "bc_do_compare n1 n2 use_sign ignore_last =
     (let greater = (if \<not> use_sign \<or> n_sign n1 = PLUS then 1 else - 1);
          less = (if \<not> use_sign \<or> n_sign n1 = PLUS then - 1 else 1)
      in if use_sign \<and> n_sign n1 \<noteq> n_sign n2 then (if n_sign n1 = PLUS then 1 else - 1)
         else if n_len n1 \<noteq> n_len n2 then (if n_len n1 > n_len n2 then greater else less)
         else case same_prefix (n_value n1) (n_value n2) (n_len n1 + min (n_scale n1) (n_scale n2)) of
             (count, n1ptr, n2ptr) \<Rightarrow>
               if ignore_last \<and> count = 1 \<and> n_scale n1 = n_scale n2 then 0
               else if count \<noteq> 0 then (if hd n1ptr > hd n2ptr then greater else less)
               else if n_scale n1 > n_scale n2 then
                 (if skip_zeros n1ptr (n_scale n1 - n_scale n2) \<noteq> 0 then greater else 0)
               else if n_scale n1 < n_scale n2 then
                 (if skip_zeros n2ptr (n_scale n2 - n_scale n1) \<noteq> 0 then less else 0)
               else 0)"

definition bc_compare :: "bc_num \<Rightarrow> bc_num \<Rightarrow> int" where
  "bc_compare n1 n2 = bc_do_compare n1 n2 True False"

text \<open>The last digit is the one \<open>scale\<close> names; \<open>*--nptr\<close> is the digit the loop stopped at.\<close>

definition bc_is_near_zero :: "bc_num \<Rightarrow> nat \<Rightarrow> bool" where
  "bc_is_near_zero num scale =
     (let scale = (if scale > n_scale num then n_scale num else scale);
          count = skip_zeros (n_value num) (n_len num + scale)
      in count = 0 \<or> (count = 1 \<and> n_value num ! (n_len num + scale - 1) = 1))"

subsection \<open>Values\<close>

named_theorems bc_simps \<open>unfolding rules of the bcmath model\<close>

text \<open>The value of digits, last one first, and first one first.\<close>

primrec lval :: "int list \<Rightarrow> int" where
  "lval [] = 0"
| "lval (d # ds) = d + 10 * lval ds"

definition mval :: "int list \<Rightarrow> int" where "mval ds = lval (rev ds)"

definition digits_ok :: "int list \<Rightarrow> bool" where "digits_ok ds \<longleftrightarrow> (\<forall>d \<in> set ds. 0 \<le> d \<and> d < 10)"

lemma digits_ok_simps [simp]:
  "digits_ok []" "digits_ok (d # ds) \<longleftrightarrow> 0 \<le> d \<and> d < 10 \<and> digits_ok ds"
  "digits_ok (xs @ ys) \<longleftrightarrow> digits_ok xs \<and> digits_ok ys" "digits_ok (rev xs) \<longleftrightarrow> digits_ok xs"
  "digits_ok (replicate n 0)"
  by (auto simp: digits_ok_def)

lemma digits_ok_take [simp, intro]: "digits_ok ds \<Longrightarrow> digits_ok (take n ds)"
  by (auto simp: digits_ok_def dest: in_set_takeD)

lemma digits_ok_drop [simp, intro]: "digits_ok ds \<Longrightarrow> digits_ok (drop n ds)"
  by (auto simp: digits_ok_def dest: in_set_dropD)

lemma digits_ok_nth: "digits_ok ds \<Longrightarrow> i < length ds \<Longrightarrow> 0 \<le> ds ! i \<and> ds ! i < 10"
  by (auto simp: digits_ok_def)

lemma lval_append [simp]: "lval (xs @ ys) = lval xs + 10 ^ length xs * lval ys"
  by (induction xs) (auto simp: algebra_simps)

lemma lval_zeros [simp]: "lval (replicate n 0) = 0"
  by (induction n) auto

lemma mval_simps [simp]:
  "mval [] = 0" "mval [d] = d" "mval (xs @ ys) = mval xs * 10 ^ length ys + mval ys" "mval (replicate n 0) = 0"
  by (simp_all add: mval_def)

lemma mval_Cons: "mval (d # ds) = d * 10 ^ length ds + mval ds"
  by (simp add: mval_def)

lemma lval_bounds: "digits_ok ds \<Longrightarrow> 0 \<le> lval ds \<and> lval ds < 10 ^ length ds"
  by (induction ds) auto

lemma mval_bounds: "digits_ok ds \<Longrightarrow> 0 \<le> mval ds \<and> mval ds < 10 ^ length ds"
  using lval_bounds [of "rev ds"] by (simp add: mval_def)

lemma mval_eq_0: "digits_ok ds \<Longrightarrow> mval ds = 0 \<longleftrightarrow> (\<forall>d \<in> set ds. d = 0)"
proof (induction ds)
  case (Cons d ds)
  then show ?case using mval_bounds [of ds] by (auto simp: mval_Cons add_nonneg_eq_0_iff)
qed simp

lemma mval_hd: "digits_ok ds \<Longrightarrow> ds \<noteq> [] \<Longrightarrow> hd ds \<noteq> 0 \<Longrightarrow> 10 ^ (length ds - 1) \<le> mval ds"
proof (cases ds)
  case (Cons d es)
  assume a: "digits_ok ds" "hd ds \<noteq> 0"
  then have "1 \<le> d" "0 \<le> mval es" using Cons mval_bounds [of es] by auto
  moreover have "1 * 10 ^ length es \<le> d * (10::int) ^ length es" by (intro mult_right_mono) (use calculation in auto)
  ultimately have "10 ^ length es \<le> d * 10 ^ length es + mval es" by linarith
  then show ?thesis using Cons by (simp add: mval_Cons)
qed simp

text \<open>The digits of a number, its magnitude as an integer, and its value.\<close>

definition bc_digits :: "bc_num \<Rightarrow> int list" where
  "bc_digits num = take (n_len num + n_scale num) (n_value num)"

definition bc_mag :: "bc_num \<Rightarrow> int" where
  "bc_mag num = mval (bc_digits num)"

definition sgn_val :: "sign \<Rightarrow> rat" where
  "sgn_val s = (if s = PLUS then 1 else - 1)"

definition num_val :: "bc_num \<Rightarrow> rat" where
  "num_val num = sgn_val (n_sign num) * of_int (bc_mag num) / 10 ^ n_scale num"

text \<open>The storage holds decimal digits, at least as many as the number has.\<close>

definition bc_ok :: "bc_num \<Rightarrow> bool" where
  "bc_ok num \<longleftrightarrow> digits_ok (n_value num) \<and> n_len num + n_scale num \<le> length (n_value num)"

text \<open>No leading zeros: what \<open>_bc_rm_leading_zeros\<close> leaves and the parser makes.\<close>

definition stripped :: "bc_num \<Rightarrow> bool" where
  "stripped num \<longleftrightarrow> n_len num \<le> 1 \<or> n_value num ! 0 \<noteq> 0"

definition bc_canonical :: "bc_num \<Rightarrow> bool" where
  "bc_canonical num \<longleftrightarrow> bc_ok num \<and> n_len num \<ge> 1 \<and> stripped num"

lemma bc_okD: "bc_ok num \<Longrightarrow> digits_ok (n_value num)" "bc_ok num \<Longrightarrow> n_len num + n_scale num \<le> length (n_value num)"
  by (auto simp: bc_ok_def)

lemma length_bc_digits [simp]: "bc_ok num \<Longrightarrow> length (bc_digits num) = n_len num + n_scale num"
  by (simp add: bc_digits_def bc_ok_def)

lemma digits_ok_bc_digits [simp]: "bc_ok num \<Longrightarrow> digits_ok (bc_digits num)"
  by (auto simp: bc_digits_def bc_ok_def)

lemma bc_mag_bounds: "bc_ok num \<Longrightarrow> 0 \<le> bc_mag num \<and> bc_mag num < 10 ^ (n_len num + n_scale num)"
  using mval_bounds [of "bc_digits num"] by (simp add: bc_mag_def)

lemma bc_mag_pos: "bc_ok num \<Longrightarrow> 0 \<le> bc_mag num"
  using bc_mag_bounds by blast

lemma sgn_val_simps [simp]: "sgn_val PLUS = 1" "sgn_val MINUS = - 1" "sgn_val s * sgn_val s = 1" "sgn_val s \<noteq> 0"
  by (auto simp: sgn_val_def)

lemma sgn_val_mult: "sgn_val (if s = t then PLUS else MINUS) = sgn_val s * sgn_val t"
  by (cases s; cases t) auto

lemma bc_new_num_ok [simp]: "bc_ok (bc_new_num len scale)"
  by (simp add: bc_ok_def bc_new_num_def)

lemma bc_new_num_mag [simp]: "bc_mag (bc_new_num len scale) = 0"
  by (simp add: bc_mag_def bc_digits_def bc_new_num_def)

lemma BCG_ok [simp]: "bc_canonical BCG_zero" "bc_canonical BCG_one" "bc_canonical BCG_two"
  by (simp_all add: bc_canonical_def bc_ok_def stripped_def BCG_zero_def BCG_one_def BCG_two_def bc_new_num_def)

lemma BCG_val [simp]: "num_val BCG_zero = 0" "num_val BCG_one = 1" "num_val BCG_two = 2"
  by (simp_all add: num_val_def bc_mag_def bc_digits_def BCG_zero_def BCG_one_def BCG_two_def bc_new_num_def)

subsection \<open>Leading zeros\<close>

lemma rm_leading_zeros_fields [simp]:
  "n_sign (bc_rm_leading_zeros num) = n_sign num" "n_scale (bc_rm_leading_zeros num) = n_scale num"
  by (induction num rule: bc_rm_leading_zeros.induct; subst bc_rm_leading_zeros.simps; simp)+

lemma rm_leading_zeros_len: "n_len (bc_rm_leading_zeros num) \<le> n_len num"
proof (induction num rule: bc_rm_leading_zeros.induct)
  case (1 num)
  then show ?case by (subst bc_rm_leading_zeros.simps) force
qed

lemma rm_leading_zeros_stripped: "stripped (bc_rm_leading_zeros num)"
proof (induction num rule: bc_rm_leading_zeros.induct)
  case (1 num)
  then show ?case by (subst bc_rm_leading_zeros.simps) (auto simp: stripped_def)
qed

lemma rm_leading_zeros_ok:
  assumes "bc_ok num"
  shows "bc_ok (bc_rm_leading_zeros num) \<and> bc_mag (bc_rm_leading_zeros num) = bc_mag num \<and>
    (1 \<le> n_len num \<longrightarrow> 1 \<le> n_len (bc_rm_leading_zeros num))"
  using assms
proof (induction num rule: bc_rm_leading_zeros.induct)
  case (1 num)
  show ?case
  proof (cases "n_value num ! 0 = 0 \<and> n_len num > 1")
    case True
    then obtain ds where v: "n_value num = 0 # ds" using 1(2) by (cases "n_value num") (auto simp: bc_ok_def)
    let ?n = "num\<lparr>n_value := tl (n_value num), n_len := n_len num - 1\<rparr>"
    have "bc_ok ?n" using 1(2) v True by (auto simp: bc_ok_def)
    moreover have "bc_mag ?n = bc_mag num"
      using v True by (cases "n_len num") (auto simp: bc_mag_def bc_digits_def mval_Cons)
    ultimately show ?thesis using 1(1) [OF True] True by (subst (1 2 3) bc_rm_leading_zeros.simps) auto
  next
    case False
    then show ?thesis using 1(2) by (subst (1 2 3) bc_rm_leading_zeros.simps) auto
  qed
qed

lemma rm_leading_zeros_val: "bc_ok num \<Longrightarrow> num_val (bc_rm_leading_zeros num) = num_val num"
  using rm_leading_zeros_ok [of num] by (simp add: num_val_def)

lemma rm_leading_zeros_canonical: "bc_ok num \<Longrightarrow> 1 \<le> n_len num \<Longrightarrow> bc_canonical (bc_rm_leading_zeros num)"
  using rm_leading_zeros_ok [of num] rm_leading_zeros_stripped [of num] by (simp add: bc_canonical_def)

subsection \<open>Zero\<close>

lemma skip_zeros_0: "c \<le> length ds \<Longrightarrow> skip_zeros ds c = 0 \<longleftrightarrow> (\<forall>d \<in> set (take c ds). d = 0)"
  by (induction ds c rule: skip_zeros.induct) auto

lemma skip_zeros_pos:
  assumes "digits_ok ds" "c \<le> length ds"
  shows "skip_zeros ds c \<noteq> 0 \<longleftrightarrow> mval (take c ds) > 0"
  using skip_zeros_0 [OF assms(2)] mval_eq_0 [of "take c ds"] mval_bounds [of "take c ds"] assms(1) by force

lemma is_zero_for_scale_iff:
  assumes "bc_ok num" "scale \<le> n_scale num"
  shows "bc_is_zero_for_scale num scale \<longleftrightarrow> mval (take (n_len num + scale) (n_value num)) = 0"
  using assms mval_eq_0 [of "take (n_len num + scale) (n_value num)"]
  by (auto simp: bc_is_zero_for_scale_def bc_ok_def skip_zeros_0 BCG_zero_def bc_new_num_def)

lemma is_zero_iff: "bc_ok num \<Longrightarrow> bc_is_zero num \<longleftrightarrow> bc_mag num = 0"
  by (simp add: bc_is_zero_def is_zero_for_scale_iff bc_mag_def bc_digits_def)

lemma num_val_0_iff: "num_val num = 0 \<longleftrightarrow> bc_mag num = 0"
  by (simp add: num_val_def)

subsection \<open>Comparison\<close>

text \<open>What the routines need of the numbers they compare; the parts of a split number may be empty.\<close>

definition bc_norm :: "bc_num \<Rightarrow> bool" where
  "bc_norm num \<longleftrightarrow> bc_ok num \<and> stripped num \<and> (n_len num = 0 \<longrightarrow> n_scale num = 0)"

lemma bc_normD: "bc_norm num \<Longrightarrow> bc_ok num" by (simp add: bc_norm_def)

lemma canonical_norm [simp]: "bc_canonical num \<Longrightarrow> bc_norm num"
  by (auto simp: bc_norm_def bc_canonical_def)

lemma canonical_ok [simp]: "bc_canonical num \<Longrightarrow> bc_ok num"
  by (simp add: bc_canonical_def)

text \<open>The magnitude of a number brought to the scale of both.\<close>

definition common_mag :: "bc_num \<Rightarrow> bc_num \<Rightarrow> int" where
  "common_mag n1 n2 = bc_mag n1 * 10 ^ n_scale n2"

lemma same_prefix_spec:
  "same_prefix xs ys c = (k, p, q) \<Longrightarrow> c \<le> length xs \<Longrightarrow> c \<le> length ys \<Longrightarrow>
   \<exists>pre. xs = pre @ p \<and> ys = pre @ q \<and> c = length pre + k \<and> (k \<noteq> 0 \<longrightarrow> p \<noteq> [] \<and> q \<noteq> [] \<and> hd p \<noteq> hd q)"
proof (induction xs ys c rule: same_prefix.induct)
  case (1 d1 n1ptr d2 n2ptr count)
  show ?case
  proof (cases "d1 = d2")
    case True
    then obtain pre where "n1ptr = pre @ p \<and> n2ptr = pre @ q \<and> count = length pre + k \<and> (k \<noteq> 0 \<longrightarrow> p \<noteq> [] \<and> q \<noteq> [] \<and> hd p \<noteq> hd q)"
      using 1 by auto
    then show ?thesis using True by (intro exI [of _ "d1 # pre"]) auto
  qed (use 1 in auto)
qed auto

lemma first_digit_decides:
  fixes x y u w B :: int
  assumes "y < x" "0 \<le> u" "w < B" "0 \<le> B"
  shows "y * B + w < x * B + u"
proof -
  have "(y + 1) * B \<le> x * B" using assms by (intro mult_right_mono) auto
  then show ?thesis using assms by (simp add: algebra_simps)
qed

lemma compare_lengths:
  assumes "bc_norm n1" "bc_norm n2" "n_len n2 < n_len n1"
  shows "common_mag n2 n1 \<le> common_mag n1 n2" "1 \<le> n_len n2 \<Longrightarrow> common_mag n2 n1 < common_mag n1 n2"
proof -
  have ok: "bc_ok n1" "bc_ok n2" using assms by (auto simp: bc_norm_def)
  show less: "common_mag n2 n1 < common_mag n1 n2" if "1 \<le> n_len n2"
  proof -
    let ?e = "n_len n1 - 1 + n_scale n1 + n_scale n2"
    have "bc_digits n1 \<noteq> [] \<and> hd (bc_digits n1) \<noteq> 0"
      using assms that ok(1) by (cases "n_value n1") (auto simp: bc_digits_def bc_norm_def stripped_def bc_ok_def hd_conv_nth)
    then have "10 ^ (n_len n1 - 1 + n_scale n1) \<le> bc_mag n1"
      using mval_hd [of "bc_digits n1"] ok that assms(3) by (simp add: bc_mag_def)
    then have "(10::int) ^ ?e \<le> common_mag n1 n2" by (simp add: common_mag_def power_add)
    moreover have "common_mag n2 n1 < 10 ^ (n_len n2 + n_scale n2) * 10 ^ n_scale n1"
      using bc_mag_bounds [OF ok(2)] by (simp add: common_mag_def)
    moreover have "(10::int) ^ (n_len n2 + n_scale n2) * 10 ^ n_scale n1 \<le> 10 ^ ?e"
      unfolding power_add [symmetric] using assms(3) by (intro power_increasing) auto
    ultimately show ?thesis by linarith
  qed
  show "common_mag n2 n1 \<le> common_mag n1 n2"
  proof (cases "n_len n2 = 0")
    case True
    then have "bc_mag n2 = 0" using assms(2) by (simp add: bc_norm_def bc_mag_def bc_digits_def)
    then show ?thesis using bc_mag_pos [OF ok(1)] by (simp add: common_mag_def)
  qed (use less in simp)
qed

lemma compare_same_length:
  assumes "bc_ok n1" "bc_ok n2" "n_len n1 = n_len n2"
  shows "bc_do_compare n1 n2 False False = sgn (common_mag n1 n2 - common_mag n2 n1)"
proof -
  let ?m = "min (n_scale n1) (n_scale n2)" and ?a = "n_scale n1 - n_scale n2" and ?b = "n_scale n2 - n_scale n1"
  obtain k p q where sp: "same_prefix (n_value n1) (n_value n2) (n_len n1 + ?m) = (k, p, q)"
    by (cases "same_prefix (n_value n1) (n_value n2) (n_len n1 + ?m)")
  have bound: "n_len n1 + ?m \<le> length (n_value n1)" "n_len n1 + ?m \<le> length (n_value n2)"
    using bc_okD(2) [OF assms(1)] bc_okD(2) [OF assms(2)] assms(3) by linarith+
  obtain pre where pre: "n_value n1 = pre @ p" "n_value n2 = pre @ q" "n_len n1 + ?m = length pre + k"
    "k \<noteq> 0 \<longrightarrow> p \<noteq> [] \<and> q \<noteq> [] \<and> hd p \<noteq> hd q"
    using same_prefix_spec [OF sp bound] by blast
  have dp: "digits_ok p" "digits_ok q" using assms pre by (auto simp: bc_ok_def)
  define E where "E = ?a + n_scale n2"
  have E: "?b + n_scale n1 = E" unfolding E_def by simp
  let ?U = "mval (take (k + ?a) p)" and ?W = "mval (take (k + ?b) q)"
  have len: "k + ?a \<le> length p" "k + ?b \<le> length q" using assms pre by (auto simp: bc_ok_def)
  have "n_len n1 + n_scale n1 = length pre + (k + ?a)" "n_len n2 + n_scale n2 = length pre + (k + ?b)"
    using pre(3) assms(3) by linarith+
  then have "bc_digits n1 = pre @ take (k + ?a) p" "bc_digits n2 = pre @ take (k + ?b) q"
    unfolding bc_digits_def pre by (auto simp: pre)
  then have "common_mag n1 n2 = mval pre * 10 ^ (k + ?a) * 10 ^ n_scale n2 + ?U * 10 ^ n_scale n2"
    "common_mag n2 n1 = mval pre * 10 ^ (k + ?b) * 10 ^ n_scale n1 + ?W * 10 ^ n_scale n1"
    using len by (simp_all add: common_mag_def bc_mag_def algebra_simps)
  moreover have "(10::int) ^ (k + ?a) * 10 ^ n_scale n2 = 10 ^ (k + E)" "(10::int) ^ (k + ?b) * 10 ^ n_scale n1 = 10 ^ (k + E)"
    by (simp add: E_def power_add) (simp add: E [symmetric] power_add)
  ultimately have M: "common_mag n1 n2 - common_mag n2 n1 = ?U * 10 ^ n_scale n2 - ?W * 10 ^ n_scale n1"
    by (simp add: mult.assoc)
  show ?thesis
  proof (cases k)
    case 0
    have U: "skip_zeros p ?a \<noteq> 0 \<longleftrightarrow> ?U > 0" "skip_zeros q ?b \<noteq> 0 \<longleftrightarrow> ?W > 0"
      using skip_zeros_pos [of p ?a] skip_zeros_pos [of q ?b] dp len 0 by simp_all
    have U0: "?U \<ge> 0" "?W \<ge> 0"
      using mval_bounds [of "take (k + ?a) p"] mval_bounds [of "take (k + ?b) q"] dp by auto
    show ?thesis unfolding M
      using sp assms(3) U 0 U0 by (auto simp: bc_do_compare_def sgn_if zero_less_mult_iff mult_less_0_iff)
  next
    case (Suc j)
    then obtain x p' y q' where pq: "p = x # p'" "q = y # q'" "x \<noteq> y" using pre(4) by (cases p; cases q) auto
    define u w where "u = mval (take (j + ?a) p') * 10 ^ n_scale n2" and "w = mval (take (j + ?b) q') * 10 ^ n_scale n1"
    have e: "(10::int) ^ (j + ?a) * 10 ^ n_scale n2 = 10 ^ (j + E)" "(10::int) ^ (j + ?b) * 10 ^ n_scale n1 = 10 ^ (j + E)"
      by (simp add: E_def power_add) (simp add: E [symmetric] power_add)
    have l: "length (take (j + ?a) p') = j + ?a" "length (take (j + ?b) q') = j + ?b" using len Suc pq by auto
    have UW: "?U * 10 ^ n_scale n2 = x * 10 ^ (j + E) + u" "?W * 10 ^ n_scale n1 = y * 10 ^ (j + E) + w"
      unfolding u_def w_def using Suc pq e l by (auto simp: mval_Cons distrib_right mult.assoc)
    have "0 \<le> mval (take (j + ?a) p') \<and> mval (take (j + ?a) p') < 10 ^ (j + ?a)"
      "0 \<le> mval (take (j + ?b) q') \<and> mval (take (j + ?b) q') < 10 ^ (j + ?b)"
      using mval_bounds [of "take (j + ?a) p'"] mval_bounds [of "take (j + ?b) q'"] dp pq l by auto
    then have "0 \<le> u" "0 \<le> w" "u < 10 ^ (j + ?a) * 10 ^ n_scale n2" "w < 10 ^ (j + ?b) * 10 ^ n_scale n1"
      unfolding u_def w_def by (auto intro!: mult_strict_right_mono)
    then have "x > y \<Longrightarrow> ?U * 10 ^ n_scale n2 - ?W * 10 ^ n_scale n1 > 0" "x < y \<Longrightarrow> ?U * 10 ^ n_scale n2 - ?W * 10 ^ n_scale n1 < 0"
      unfolding UW e using first_digit_decides [of y x u w] first_digit_decides [of x y w u] by auto
    then show ?thesis unfolding M using sp assms(3) Suc pq by (auto simp: bc_do_compare_def sgn_if)
  qed
qed

text \<open>The comparison of magnitudes, as far as addition and subtraction rely on it.\<close>

lemma compare_magnitudes:
  assumes "bc_norm n1" "bc_norm n2"
  shows "bc_do_compare n1 n2 False False = - 1 \<and> common_mag n1 n2 \<le> common_mag n2 n1 \<and> n_len n1 \<le> n_len n2 \<or>
    bc_do_compare n1 n2 False False = 0 \<and> common_mag n1 n2 = common_mag n2 n1 \<or>
    bc_do_compare n1 n2 False False = 1 \<and> common_mag n2 n1 \<le> common_mag n1 n2 \<and> n_len n2 \<le> n_len n1"
proof (cases "n_len n1 = n_len n2")
  case True
  then show ?thesis using compare_same_length [of n1 n2] assms by (auto simp: bc_norm_def sgn_if split: if_splits)
next
  case False
  then show ?thesis using compare_lengths [OF assms] compare_lengths [OF assms(2,1)] by (auto simp: bc_do_compare_def Let_def)
qed

lemma compare_unsigned:
  assumes "bc_canonical n1" "bc_canonical n2"
  shows "bc_do_compare n1 n2 False False = sgn (common_mag n1 n2 - common_mag n2 n1)"
proof (cases "n_len n1 = n_len n2")
  case True
  then show ?thesis using compare_same_length [of n1 n2] assms by simp
next
  case False
  have "1 \<le> n_len n1" "1 \<le> n_len n2" using assms by (auto simp: bc_canonical_def)
  then show ?thesis using compare_lengths(2) [of n1 n2] compare_lengths(2) [of n2 n1] assms False
    by (auto simp: bc_do_compare_def Let_def sgn_if)
qed

lemma compare_signed:
  "bc_do_compare n1 n2 True False =
     (if n_sign n1 \<noteq> n_sign n2 then (if n_sign n1 = PLUS then 1 else - 1)
      else if n_sign n1 = PLUS then bc_do_compare n1 n2 False False else - bc_do_compare n1 n2 False False)"
  by (auto simp: bc_do_compare_def Let_def split: prod.split)

lemma common_mag_val:
  "of_int (common_mag n1 n2) = \<bar>of_int (bc_mag n1)\<bar> / 10 ^ n_scale n1 * (10 ^ (n_scale n1 + n_scale n2) :: rat)" if "bc_ok n1"
  using bc_mag_pos [OF that] by (simp add: common_mag_def power_add)

lemma abs_num_val: "bc_ok n \<Longrightarrow> \<bar>num_val n\<bar> = of_int (bc_mag n) / 10 ^ n_scale n"
  using bc_mag_pos [of n] by (cases "n_sign n") (auto simp: num_val_def abs_mult)

lemma common_mag_cmp:
  assumes "bc_ok n1" "bc_ok n2"
  shows "sgn (common_mag n1 n2 - common_mag n2 n1) = (if \<bar>num_val n1\<bar> < \<bar>num_val n2\<bar> then - 1 else if \<bar>num_val n2\<bar> < \<bar>num_val n1\<bar> then 1 else 0)"
proof -
  have c: "rat_of_int (common_mag n1 n2) = \<bar>num_val n1\<bar> * 10 ^ (n_scale n1 + n_scale n2)"
    "rat_of_int (common_mag n2 n1) = \<bar>num_val n2\<bar> * 10 ^ (n_scale n1 + n_scale n2)"
    using assms by (simp_all add: abs_num_val common_mag_def power_add)
  have "common_mag n1 n2 < common_mag n2 n1 \<longleftrightarrow> \<bar>num_val n1\<bar> < \<bar>num_val n2\<bar>"
    "common_mag n2 n1 < common_mag n1 n2 \<longleftrightarrow> \<bar>num_val n2\<bar> < \<bar>num_val n1\<bar>"
    unfolding of_int_less_iff [where 'a = rat, symmetric] c by simp_all
  then show ?thesis by (auto simp: sgn_if)
qed

text \<open>A number without a negative zero: what the parser and the operations except powers return.\<close>

definition proper_sign :: "bc_num \<Rightarrow> bool" where
  "proper_sign num \<longleftrightarrow> n_sign num = PLUS \<or> bc_mag num \<noteq> 0"

lemma bc_compare_correct:
  assumes "bc_canonical n1" "bc_canonical n2" "proper_sign n1" "proper_sign n2"
  shows "bc_compare n1 n2 = (if num_val n1 < num_val n2 then - 1 else if num_val n2 < num_val n1 then 1 else 0)"
proof -
  have m: "0 \<le> bc_mag n1" "0 \<le> bc_mag n2" using assms bc_mag_pos by auto
  have s: "num_val n \<ge> 0" if "n_sign n = PLUS" "bc_mag n \<ge> 0" for n using that by (simp add: num_val_def)
  have s': "num_val n < 0" if "n_sign n \<noteq> PLUS" "bc_mag n \<ge> 0" "proper_sign n" for n
    using that by (simp add: num_val_def sgn_val_def proper_sign_def)
  note c = compare_unsigned [OF assms(1,2), unfolded common_mag_cmp [OF canonical_ok [OF assms(1)] canonical_ok [OF assms(2)]]]
  show ?thesis
    using s [of n1] s [of n2] s' [of n1] s' [of n2] m assms(3,4)
    unfolding bc_compare_def compare_signed c by (cases "n_sign n1"; cases "n_sign n2"; auto split: if_splits)
qed

subsection \<open>Truncation\<close>

text \<open>Cutting a value to \<open>k\<close> digits after the point, towards zero.\<close>

definition bc_trunc :: "rat \<Rightarrow> nat \<Rightarrow> rat" where
  "bc_trunc x k = (if x < 0 then - of_int \<lfloor>- x * 10 ^ k\<rfloor> else of_int \<lfloor>x * 10 ^ k\<rfloor>) / 10 ^ k"

lemma floor_scaled: "\<lfloor>rat_of_int M / 10 ^ (k + e) * 10 ^ k\<rfloor> = M div 10 ^ e"
proof -
  have "rat_of_int M / 10 ^ (k + e) * 10 ^ k = of_int M / of_int (10 ^ e)" by (simp add: power_add)
  then show ?thesis by (simp only: floor_divide_of_int_eq)
qed

lemma trunc_signed:
  assumes "0 \<le> M"
  shows "bc_trunc (sgn_val s * (of_int M / 10 ^ (k + e))) k = sgn_val s * of_int (M div 10 ^ e) / 10 ^ k"
proof (cases "s = PLUS \<or> M = 0")
  case True
  then show ?thesis using assms floor_scaled [of M k e] by (auto simp: bc_trunc_def divide_less_0_iff)
next
  case False
  then have "s = MINUS" "0 < M" using assms by (cases s; simp)+
  then show ?thesis using floor_scaled [of M k e] by (simp add: bc_trunc_def)
qed

lemma mval_take: "digits_ok ds \<Longrightarrow> k \<le> length ds \<Longrightarrow> mval (take (length ds - k) ds) = mval ds div 10 ^ k"
proof -
  assume a: "digits_ok ds" "k \<le> length ds"
  have "mval ds = mval (take (length ds - k) ds) * 10 ^ k + mval (drop (length ds - k) ds)"
    using mval_simps(3) [of "take (length ds - k) ds" "drop (length ds - k) ds"] a by simp
  moreover have "0 \<le> mval (drop (length ds - k) ds)" "mval (drop (length ds - k) ds) < 10 ^ k"
    using mval_bounds [of "drop (length ds - k) ds"] a by auto
  ultimately show ?thesis by simp
qed

text \<open>Scale cut down: the digits after it are no longer read.\<close>

lemma cut_scale:
  assumes "bc_ok num" "k \<le> n_scale num"
  shows "bc_ok (num\<lparr>n_scale := k\<rparr>)" "num_val (num\<lparr>n_scale := k\<rparr>) = bc_trunc (num_val num) k"
proof -
  show ok: "bc_ok (num\<lparr>n_scale := k\<rparr>)" using assms by (simp add: bc_ok_def)
  have "n_len num + k = length (bc_digits num) - (n_scale num - k)" using assms by simp
  moreover have "bc_digits (num\<lparr>n_scale := k\<rparr>) = take (n_len num + k) (bc_digits num)"
    using assms by (simp add: bc_digits_def min_absorb1)
  ultimately have "bc_mag (num\<lparr>n_scale := k\<rparr>) = bc_mag num div 10 ^ (n_scale num - k)"
    using mval_take [of "bc_digits num" "n_scale num - k"] assms by (simp add: bc_mag_def)
  moreover have v: "num_val num = sgn_val (n_sign num) * (of_int (bc_mag num) / 10 ^ (k + (n_scale num - k)))"
    using assms by (simp add: num_val_def)
  ultimately show "num_val (num\<lparr>n_scale := k\<rparr>) = bc_trunc (num_val num) k"
    unfolding v trunc_signed [OF bc_mag_pos [OF assms(1)]] by (simp add: num_val_def)
qed

text \<open>\<open>if (bc_is_zero(n)) n->n_sign = PLUS;\<close>\<close>

lemma plus_zero:
  assumes "bc_ok num"
  shows "num_val (if bc_is_zero num then num\<lparr>n_sign := PLUS\<rparr> else num) = num_val num"
    "proper_sign (if bc_is_zero num then num\<lparr>n_sign := PLUS\<rparr> else num)"
  using is_zero_iff [OF assms] by (auto simp: num_val_def bc_mag_def bc_digits_def proper_sign_def)

end
