(* ===== verification/BcAdd.thy ===== *)
theory BcAdd
  imports BcNum
begin

text \<open>
  Addition and subtraction (\<open>doaddsub.c\<close>, \<open>add.c\<close>, \<open>sub.c\<close>). \<open>r1\<close> and \<open>r2\<close> are the digits still to be
  read, the next one first; the digits written so far come out in the same order.
\<close>

text \<open>\<open>while ((n1bytes > 0) && (n2bytes > 0))\<close>: the digits written, the carry, the digits left.\<close>

fun add_both :: "int list \<Rightarrow> int list \<Rightarrow> int \<Rightarrow> int list \<times> int \<times> int list \<times> int list" where
  "add_both (d1 # r1) (d2 # r2) carry =
     (let s = d1 + d2 + carry;
          (s, carry) = (if s > BASE - 1 then (s - BASE, 1) else (s, 0));
          (out, carry, r1, r2) = add_both r1 r2 carry
      in (s # out, carry, r1, r2))"
| "add_both r1 r2 carry = ([], carry, r1, r2)"

text \<open>\<open>while (n1bytes-- > 0)\<close>\<close>

fun add_rest :: "int list \<Rightarrow> int \<Rightarrow> int list \<times> int" where
  "add_rest (d1 # r1) carry =
     (let s = d1 + carry;
          (s, carry) = (if s > BASE - 1 then (s - BASE, 1) else (s, 0));
          (out, carry) = add_rest r1 carry
      in (s # out, carry))"
| "add_rest [] carry = ([], carry)"

definition bc_do_add :: "bc_num \<Rightarrow> bc_num \<Rightarrow> nat \<Rightarrow> bc_num" where
  "bc_do_add n1 n2 scale_min =
     (let sum_scale = max (n_scale n1) (n_scale n2);
          sum_digits = max (n_len n1) (n_len n2) + 1;
          sum = bc_new_num sum_digits (max sum_scale scale_min);
          r1 = rev (bc_digits n1); r2 = rev (bc_digits n2);
          k1 = n_scale n1 - n_scale n2; k2 = n_scale n2 - n_scale n1;
          copied = take k1 r1 @ take k2 r2;
          (out, carry, r1, r2) = add_both (drop k1 r1) (drop k2 r2) 0;
          (rest, carry) = add_rest (if r1 = [] then r2 else r1) carry;
          top = (if carry \<noteq> 0 then 1 else 0)
      in bc_rm_leading_zeros
           (sum\<lparr>n_value := rev (replicate (scale_min - sum_scale) 0 @ copied @ out @ rest @ [top])\<rparr>))"

text \<open>\<open>if (val < 0) { val += BASE; borrow = 1; } else { borrow = 0; }\<close>\<close>

definition borrow_digit :: "int \<Rightarrow> int \<times> int" where
  "borrow_digit val = (if val < 0 then (val + BASE, 1) else (val, 0))"

text \<open>The three loops: below the end of \<open>n1\<close>, both numbers, above the start of \<open>n2\<close>.\<close>

fun sub_below :: "int list \<Rightarrow> int \<Rightarrow> int list \<times> int" where
  "sub_below (d2 # r2) borrow =
     (let (val, borrow) = borrow_digit (- d2 - borrow); (out, borrow) = sub_below r2 borrow in (val # out, borrow))"
| "sub_below [] borrow = ([], borrow)"

fun sub_both :: "nat \<Rightarrow> int list \<Rightarrow> int list \<Rightarrow> int \<Rightarrow> int list \<times> int \<times> int list" where
  "sub_both (Suc count) (d1 # r1) (d2 # r2) borrow =
     (let (val, borrow) = borrow_digit (d1 - d2 - borrow);
          (out, borrow, r1) = sub_both count r1 r2 borrow
      in (val # out, borrow, r1))"
| "sub_both count r1 r2 borrow = ([], borrow, r1)"

fun sub_rest :: "int list \<Rightarrow> int \<Rightarrow> int list \<times> int" where
  "sub_rest (d1 # r1) borrow =
     (let (val, borrow) = borrow_digit (d1 - borrow); (out, borrow) = sub_rest r1 borrow in (val # out, borrow))"
| "sub_rest [] borrow = ([], borrow)"

definition bc_do_sub :: "bc_num \<Rightarrow> bc_num \<Rightarrow> nat \<Rightarrow> bc_num" where
  "bc_do_sub n1 n2 scale_min =
     (let diff_len = max (n_len n1) (n_len n2);
          diff_scale = max (n_scale n1) (n_scale n2);
          min_len = min (n_len n1) (n_len n2);
          min_scale = min (n_scale n1) (n_scale n2);
          diff = bc_new_num diff_len (max diff_scale scale_min);
          r1 = rev (bc_digits n1); r2 = rev (bc_digits n2);
          k1 = n_scale n1 - min_scale; k2 = n_scale n2 - min_scale;
          (low, borrow) = (if n_scale n1 \<noteq> min_scale then (take k1 r1, 0) else sub_below (take k2 r2) 0);
          r1 = drop k1 r1; r2 = drop k2 r2;
          (out, borrow, r1) = sub_both (min_len + min_scale) r1 r2 borrow;
          (rest, borrow) = (if diff_len \<noteq> min_len then sub_rest (take (diff_len - min_len) r1) borrow else ([], borrow))
      in bc_rm_leading_zeros
           (diff\<lparr>n_value := rev (replicate (scale_min - diff_scale) 0 @ low @ out @ rest)\<rparr>))"

definition bc_add :: "bc_num \<Rightarrow> bc_num \<Rightarrow> nat \<Rightarrow> bc_num" where
  "bc_add n1 n2 scale_min =
     (if n_sign n1 = n_sign n2 then (bc_do_add n1 n2 scale_min)\<lparr>n_sign := n_sign n1\<rparr>
      else let c = bc_do_compare n1 n2 False False in
        if c = - 1 then (bc_do_sub n2 n1 scale_min)\<lparr>n_sign := n_sign n2\<rparr>
        else if c = 0 then bc_new_num 1 (max scale_min (max (n_scale n1) (n_scale n2)))
        else (bc_do_sub n1 n2 scale_min)\<lparr>n_sign := n_sign n1\<rparr>)"

definition bc_sub :: "bc_num \<Rightarrow> bc_num \<Rightarrow> nat \<Rightarrow> bc_num" where
  "bc_sub n1 n2 scale_min =
     (if n_sign n1 \<noteq> n_sign n2 then (bc_do_add n1 n2 scale_min)\<lparr>n_sign := n_sign n1\<rparr>
      else let c = bc_do_compare n1 n2 False False in
        if c = - 1 then (bc_do_sub n2 n1 scale_min)\<lparr>n_sign := (if n_sign n2 = PLUS then MINUS else PLUS)\<rparr>
        else if c = 0 then bc_new_num 1 (max scale_min (max (n_scale n1) (n_scale n2)))
        else (bc_do_sub n1 n2 scale_min)\<lparr>n_sign := n_sign n1\<rparr>)"

subsection \<open>Addition of magnitudes\<close>

lemma add_both_Cons:
  "add_both (d1 # r1) (d2 # r2) c =
     (let c' = (if d1 + d2 + c > 9 then 1 else 0)
      in case add_both r1 r2 c' of (out, c1, q1, q2) \<Rightarrow> ((d1 + d2 + c - 10 * c') # out, c1, q1, q2))"
  by (auto simp: BASE_def)

lemma add_rest_Cons:
  "add_rest (d1 # r1) c =
     (let c' = (if d1 + c > 9 then 1 else 0) in case add_rest r1 c' of (out, c1) \<Rightarrow> ((d1 + c - 10 * c') # out, c1))"
  by (auto simp: BASE_def)

lemma add_both_correct:
  assumes "add_both r1 r2 c = (out, c', q1, q2)" "digits_ok r1" "digits_ok r2" "c \<in> {0, 1}"
  shows "lval out + 10 ^ length out * (c' + lval q1 + lval q2) = lval r1 + lval r2 + c \<and> digits_ok out \<and> c' \<in> {0, 1} \<and>
    digits_ok q1 \<and> digits_ok q2 \<and> length out = min (length r1) (length r2) \<and>
    length q1 = length r1 - length out \<and> length q2 = length r2 - length out"
  using assms
proof (induction r1 arbitrary: r2 c out c' q1 q2)
  case (Cons d1 r1)
  show ?case
  proof (cases r2)
    case r2: (Cons d2 r2')
    define e where "e = (if d1 + d2 + c > 9 then 1 else 0 :: int)"
    obtain out' where rec: "add_both r1 r2' e = (out', c', q1, q2)" "out = (d1 + d2 + c - 10 * e) # out'"
      using Cons(2) unfolding r2 add_both_Cons by (auto simp: e_def [symmetric] Let_def split: prod.splits)
    have e: "e \<in> {0, 1}" "0 \<le> d1 + d2 + c - 10 * e" "d1 + d2 + c - 10 * e < 10"
      using Cons(3-5) r2 by (auto simp: e_def)
    note IH = Cons(1) [OF rec(1) _ _ e(1)]
    have "lval out + 10 ^ length out * (c' + lval q1 + lval q2) =
        (d1 + d2 + c - 10 * e) + 10 * (lval out' + 10 ^ length out' * (c' + lval q1 + lval q2))"
      unfolding rec(2) by (simp add: algebra_simps)
    then show ?thesis using IH Cons(3,4) e r2 rec(2) by auto
  qed (use Cons in auto)
qed auto

lemma add_rest_correct:
  assumes "add_rest r c = (out, c')" "digits_ok r" "c \<in> {0, 1}"
  shows "lval out + 10 ^ length out * c' = lval r + c \<and> digits_ok out \<and> c' \<in> {0, 1} \<and> length out = length r"
  using assms
proof (induction r arbitrary: c out c')
  case (Cons d r)
  define e where "e = (if d + c > 9 then 1 else 0 :: int)"
  obtain out' where rec: "add_rest r e = (out', c')" "out = (d + c - 10 * e) # out'"
    using Cons(2) unfolding add_rest_Cons by (auto simp: e_def [symmetric] Let_def split: prod.splits)
  have e: "e \<in> {0, 1}" "0 \<le> d + c - 10 * e" "d + c - 10 * e < 10" using Cons(3,4) by (auto simp: e_def)
  have "lval out + 10 ^ length out * c' = (d + c - 10 * e) + 10 * (lval out' + 10 ^ length out' * c')"
    unfolding rec(2) by (simp add: algebra_simps)
  then show ?case using Cons(1) [OF rec(1) _ e(1)] Cons(3) e rec(2) by auto
qed auto

text \<open>The magnitude as a fraction.\<close>

definition abs_val :: "bc_num \<Rightarrow> rat" where
  "abs_val num = of_int (bc_mag num) / 10 ^ n_scale num"

lemma num_val_abs: "num_val num = sgn_val (n_sign num) * abs_val num"
  by (simp add: num_val_def abs_val_def)

lemma abs_val_scale: "of_int (bc_mag num * 10 ^ k) / 10 ^ (n_scale num + k) = abs_val num"
  by (simp add: abs_val_def power_add)

text \<open>A number made of reversed digits.\<close>

lemma made_number:
  assumes "num = (bc_new_num len scale)\<lparr>n_value := rev ds\<rparr>" "length ds = len + scale" "digits_ok ds"
  shows "bc_ok num" "bc_mag num = lval ds" "n_scale num = scale" "n_len num = len" "n_sign num = PLUS"
  using assms by (simp_all add: bc_ok_def bc_mag_def bc_digits_def bc_new_num_def mval_def)

lemma rev_digits_split:
  assumes "bc_ok num" "k \<le> n_scale num"
  shows "bc_mag num = lval (take k (rev (bc_digits num))) + 10 ^ k * lval (drop k (rev (bc_digits num)))"
proof -
  have l: "length (take k (rev (bc_digits num))) = k" using assms by simp
  show ?thesis
    using lval_append [of "take k (rev (bc_digits num))" "drop k (rev (bc_digits num))"] unfolding l
    by (simp add: bc_mag_def mval_def)
qed

lemma do_add_correct:
  fixes scale_min :: nat
  assumes "bc_ok n1" "bc_ok n2"
  defines "res \<equiv> bc_do_add n1 n2 scale_min"
  shows "bc_canonical res \<and> n_scale res = max (max (n_scale n1) (n_scale n2)) scale_min \<and> n_sign res = PLUS \<and>
    n_len res \<le> max (n_len n1) (n_len n2) + 1 \<and> abs_val res = abs_val n1 + abs_val n2"
proof -
  define S where "S = max (n_scale n1) (n_scale n2)"
  define L where "L = max (n_len n1) (n_len n2)"
  define r1 r2 where "r1 = rev (bc_digits n1)" and "r2 = rev (bc_digits n2)"
  define k1 k2 where "k1 = n_scale n1 - n_scale n2" and "k2 = n_scale n2 - n_scale n1"
  obtain out c q1 q2 where both: "add_both (drop k1 r1) (drop k2 r2) 0 = (out, c, q1, q2)"
    by (metis prod_cases4)
  obtain rest c' where rest: "add_rest (if q1 = [] then q2 else q1) c = (rest, c')" by fastforce
  define ds where "ds = replicate (scale_min - S) 0 @ (take k1 r1 @ take k2 r2) @ out @ rest @ [if c' \<noteq> 0 then 1 else 0]"
  define num where "num = (bc_new_num (L + 1) (max S scale_min))\<lparr>n_value := rev ds\<rparr>"
  have res: "res = bc_rm_leading_zeros num"
    unfolding res_def bc_do_add_def Let_def num_def ds_def S_def L_def
    by (simp add: both rest r1_def [symmetric] r2_def [symmetric] k1_def [symmetric] k2_def [symmetric])
  have ok: "digits_ok r1" "digits_ok r2" "length r1 = n_len n1 + n_scale n1" "length r2 = n_len n2 + n_scale n2"
    using assms(1,2) by (simp_all add: r1_def r2_def)
  then have B: "lval out + 10 ^ length out * (c + lval q1 + lval q2) = lval (drop k1 r1) + lval (drop k2 r2)" "digits_ok out"
    "c \<in> {0, 1}" "digits_ok q1" "digits_ok q2" "length out = min (length (drop k1 r1)) (length (drop k2 r2))"
    "length q1 = length (drop k1 r1) - length out" "length q2 = length (drop k2 r2) - length out"
    using add_both_correct [OF both] by auto
  have "length q1 = 0 \<or> length q2 = 0" unfolding B(6,7,8) by linarith
  then have q: "lval (if q1 = [] then q2 else q1) = lval q1 + lval q2" "digits_ok (if q1 = [] then q2 else q1)"
    "length (if q1 = [] then q2 else q1) = length q1 + length q2"
    using B(4,5) by auto
  have R: "lval rest + 10 ^ length rest * c' = lval q1 + lval q2 + c" "digits_ok rest" "c' \<in> {0, 1}"
    "length rest = length q1 + length q2"
    using add_rest_correct [OF rest q(2) B(3)] unfolding q by blast+
  have k: "k1 = 0 \<or> k2 = 0" "n_scale n1 + k2 = S" "n_scale n2 + k1 = S" "k1 \<le> n_scale n1" "k2 \<le> n_scale n2"
    by (auto simp: k1_def k2_def S_def)
  have low: "length (take k1 r1 @ take k2 r2) = k1 + k2" using k ok by auto
  define m where "m = S - (k1 + k2)"
  have m: "length (drop k1 r1) = n_len n1 + m" "length (drop k2 r2) = n_len n2 + m" "k1 + k2 + m = S"
    unfolding m_def length_drop ok using k by linarith+
  have "length out + length rest = L + m"
    unfolding R(4) B(6,7,8) m L_def by linarith
  then have len: "length ds = (L + 1) + max S scale_min"
    unfolding ds_def length_append length_replicate list.size
    using m(3) low [unfolded length_append] by linarith
  have dok: "digits_ok ds" using ok(1,2) B(2) R(2,3) unfolding ds_def by simp
  have c01: "(if c' \<noteq> 0 then 1 else 0) = c'" using R(3) by auto
  have "lval ds = 10 ^ (scale_min - S) * (lval (take k1 r1 @ take k2 r2) + 10 ^ (k1 + k2) *
      (lval out + 10 ^ length out * (lval rest + 10 ^ length rest * c')))"
    unfolding ds_def c01 using low by (simp only: lval_append lval_zeros length_replicate lval.simps add_0) simp
  also have "\<dots> = 10 ^ (scale_min - S) * (lval (take k1 r1 @ take k2 r2) + 10 ^ (k1 + k2) * (lval (drop k1 r1) + lval (drop k2 r2)))"
    unfolding R(1) using B(1) by (simp add: ac_simps)
  also have "\<dots> = 10 ^ (scale_min - S) * (bc_mag n1 * 10 ^ k2 + bc_mag n2 * 10 ^ k1)"
    using rev_digits_split [OF assms(1) k(4)] rev_digits_split [OF assms(2) k(5)] k(1)
    by (auto simp: r1_def [symmetric] r2_def [symmetric] algebra_simps)
  finally have mag: "lval ds = bc_mag n1 * 10 ^ (k2 + (scale_min - S)) + bc_mag n2 * 10 ^ (k1 + (scale_min - S))"
    by (simp add: algebra_simps power_add)
  note N = made_number [OF num_def len(1) dok]
  have sc: "n_scale num = n_scale n1 + (k2 + (scale_min - S))" "n_scale num = n_scale n2 + (k1 + (scale_min - S))"
    unfolding N(3) using k by linarith+
  have "of_int (bc_mag num) / 10 ^ n_scale num = abs_val n1 + abs_val n2"
    unfolding N(2) mag of_int_add add_divide_distrib
    using abs_val_scale [of n1 "k2 + (scale_min - S)", folded sc(1)] abs_val_scale [of n2 "k1 + (scale_min - S)", folded sc(2)] by simp
  then have "abs_val res = abs_val n1 + abs_val n2"
    using rm_leading_zeros_ok [OF N(1)] by (simp add: res abs_val_def)
  then show ?thesis
    using rm_leading_zeros_canonical [OF N(1)] rm_leading_zeros_len [of num] N by (simp add: res S_def L_def)
qed

subsection \<open>Subtraction of magnitudes\<close>

lemma borrow_digit_correct:
  assumes "borrow_digit v = (d, b)" "- 10 \<le> v" "v < 10"
  shows "d - 10 * b = v" "0 \<le> d" "d < 10" "b \<in> {0, 1}"
  using assms by (auto simp: borrow_digit_def BASE_def split: if_splits)

lemma sub_below_correct:
  assumes "sub_below r b = (out, b')" "digits_ok r" "b \<in> {0, 1}"
  shows "lval out - 10 ^ length out * b' = - lval r - b \<and> digits_ok out \<and> b' \<in> {0, 1} \<and> length out = length r"
  using assms
proof (induction r arbitrary: b out b')
  case (Cons d r)
  obtain v e where v: "borrow_digit (- d - b) = (v, e)" by fastforce
  obtain out' where rec: "sub_below r e = (out', b')" "out = v # out'"
    using Cons(2) v by (auto split: prod.splits)
  have e: "v - 10 * e = - d - b" "0 \<le> v" "v < 10" "e \<in> {0, 1}"
    using borrow_digit_correct [OF v] Cons(3,4) by auto
  have "lval out - 10 ^ length out * b' = v + 10 * (lval out' - 10 ^ length out' * b')"
    unfolding rec(2) by (simp add: algebra_simps)
  then show ?case using Cons(1) [OF rec(1) _ e(4)] Cons(3) e rec(2) by auto
qed auto

lemma sub_rest_correct:
  assumes "sub_rest r b = (out, b')" "digits_ok r" "b \<in> {0, 1}"
  shows "lval out - 10 ^ length out * b' = lval r - b \<and> digits_ok out \<and> b' \<in> {0, 1} \<and> length out = length r"
  using assms
proof (induction r arbitrary: b out b')
  case (Cons d r)
  obtain v e where v: "borrow_digit (d - b) = (v, e)" by fastforce
  obtain out' where rec: "sub_rest r e = (out', b')" "out = v # out'"
    using Cons(2) v by (auto split: prod.splits)
  have e: "v - 10 * e = d - b" "0 \<le> v" "v < 10" "e \<in> {0, 1}"
    using borrow_digit_correct [OF v] Cons(3,4) by auto
  have "lval out - 10 ^ length out * b' = v + 10 * (lval out' - 10 ^ length out' * b')"
    unfolding rec(2) by (simp add: algebra_simps)
  then show ?case using Cons(1) [OF rec(1) _ e(4)] Cons(3) e rec(2) by auto
qed auto

lemma sub_both_correct:
  assumes "sub_both n r1 r2 b = (out, b', q)" "digits_ok r1" "digits_ok r2" "b \<in> {0, 1}" "n \<le> length r1" "length r2 = n"
  shows "lval out - 10 ^ length out * b' + 10 ^ length out * lval q = lval r1 - lval r2 - b \<and> digits_ok out \<and> b' \<in> {0, 1} \<and>
    length out = n \<and> q = drop n r1"
  using assms
proof (induction n r1 r2 b arbitrary: out b' q rule: sub_both.induct)
  case (1 n d1 r1 d2 r2 b)
  obtain v e where v: "borrow_digit (d1 - d2 - b) = (v, e)" by fastforce
  obtain out' where rec: "sub_both n r1 r2 e = (out', b', q)" "out = v # out'"
    using 1(2) v by (auto split: prod.splits)
  have e: "v - 10 * e = d1 - d2 - b" "0 \<le> v" "v < 10" "e \<in> {0, 1}"
    using borrow_digit_correct [OF v] 1(3-5) by auto
  have IH: "lval out' - 10 ^ length out' * b' + 10 ^ length out' * lval q = lval r1 - lval r2 - e \<and> digits_ok out' \<and> b' \<in> {0, 1} \<and>
    length out' = n \<and> q = drop n r1"
    using 1(1) [OF v [symmetric] refl, of out' b' q] 1(3-7) rec(1) e(4) by auto
  have "lval out - 10 ^ length out * b' + 10 ^ length out * lval q =
      v + 10 * (lval out' - 10 ^ length out' * b' + 10 ^ length out' * lval q)"
    unfolding rec(2) by (simp add: algebra_simps)
  then show ?case using IH 1(3,4) e rec(2) by auto
qed auto

lemma do_sub_correct:
  fixes scale_min :: nat
  assumes "bc_ok n1" "bc_ok n2" "n_len n2 \<le> n_len n1" "common_mag n2 n1 \<le> common_mag n1 n2"
  defines "res \<equiv> bc_do_sub n1 n2 scale_min"
  shows "bc_ok res \<and> stripped res \<and> (1 \<le> n_len n1 \<longrightarrow> 1 \<le> n_len res) \<and>
    n_scale res = max (max (n_scale n1) (n_scale n2)) scale_min \<and> n_sign res = PLUS \<and>
    n_len res \<le> n_len n1 \<and> abs_val res = abs_val n1 - abs_val n2"
proof -
  define S m where "S = max (n_scale n1) (n_scale n2)" and "m = min (n_scale n1) (n_scale n2)"
  define r1 r2 where "r1 = rev (bc_digits n1)" and "r2 = rev (bc_digits n2)"
  define k1 k2 where "k1 = n_scale n1 - m" and "k2 = n_scale n2 - m"
  obtain low b where low: "(if n_scale n1 \<noteq> m then (take k1 r1, 0) else sub_below (take k2 r2) 0) = (low, b)"
    by fastforce
  obtain out b1 q where both: "sub_both (n_len n2 + m) (drop k1 r1) (drop k2 r2) b = (out, b1, q)" by (metis prod_cases3)
  obtain rest b2 where rest: "(if n_len n1 \<noteq> n_len n2 then sub_rest (take (n_len n1 - n_len n2) q) b1 else ([], b1)) = (rest, b2)"
    by fastforce
  define ds where "ds = replicate (scale_min - S) 0 @ low @ out @ rest"
  define num where "num = (bc_new_num (n_len n1) (max S scale_min))\<lparr>n_value := rev ds\<rparr>"
  have lens: "max (n_len n1) (n_len n2) = n_len n1" "min (n_len n1) (n_len n2) = n_len n2" using assms(3) by auto
  have res: "res = bc_rm_leading_zeros num"
    unfolding res_def bc_do_sub_def Let_def num_def ds_def lens
    unfolding S_def [symmetric] m_def [symmetric] r1_def [symmetric] r2_def [symmetric] k1_def [symmetric] k2_def [symmetric]
    by (simp add: low both rest)
  have ok: "digits_ok r1" "digits_ok r2" "length r1 = n_len n1 + n_scale n1" "length r2 = n_len n2 + n_scale n2"
    using assms(1,2) by (simp_all add: r1_def r2_def)
  have k: "k1 = 0 \<or> k2 = 0" "n_scale n1 + k2 = S" "n_scale n2 + k1 = S" "k1 \<le> n_scale n1" "k2 \<le> n_scale n2"
    "n_scale n1 - k1 = m" "n_scale n2 - k2 = m" "n_scale n1 \<noteq> m \<longleftrightarrow> k1 \<noteq> 0" "k1 + k2 + m = S"
    by (auto simp: k1_def k2_def S_def m_def)
  have l: "length (drop k1 r1) = n_len n1 + m" "length (drop k2 r2) = n_len n2 + m" "length (take k1 r1) = k1" "length (take k2 r2) = k2"
    unfolding length_drop length_take ok using k by linarith+
  have L: "lval low - 10 ^ (k1 + k2) * b = lval (take k1 r1) - lval (take k2 r2)" "digits_ok low" "b \<in> {0, 1}" "length low = k1 + k2"
  proof -
    have "lval low - 10 ^ (k1 + k2) * b = lval (take k1 r1) - lval (take k2 r2) \<and> digits_ok low \<and> b \<in> {0, 1} \<and> length low = k1 + k2"
    proof (cases "k1 = 0")
      case True
      then have "sub_below (take k2 r2) 0 = (low, b)" using low k by simp
      then show ?thesis using sub_below_correct [of "take k2 r2" 0 low b] ok(2) l(4) True by auto
    next
      case False
      then have "low = take k1 r1" "b = 0" "k2 = 0" using low k by auto
      then show ?thesis using ok(1) l(3) by simp
    qed
    then show "lval low - 10 ^ (k1 + k2) * b = lval (take k1 r1) - lval (take k2 r2)" "digits_ok low" "b \<in> {0, 1}" "length low = k1 + k2"
      by auto
  qed
  have B: "lval out - 10 ^ length out * b1 + 10 ^ length out * lval q = lval (drop k1 r1) - lval (drop k2 r2) - b" "digits_ok out"
    "b1 \<in> {0, 1}" "length out = n_len n2 + m" "q = drop (n_len n2 + m) (drop k1 r1)"
    using sub_both_correct [OF both _ _ L(3)] ok(1,2) l(1,2) assms(3) by auto
  have q: "digits_ok q" "length q = n_len n1 - n_len n2"
    unfolding B(5) length_drop [of "n_len n2 + m"] l using ok(1) by auto
  have R: "lval rest - 10 ^ length rest * b2 = lval q - b1" "digits_ok rest" "b2 \<in> {0, 1}" "length rest = n_len n1 - n_len n2"
  proof -
    have "lval rest - 10 ^ length rest * b2 = lval q - b1 \<and> digits_ok rest \<and> b2 \<in> {0, 1} \<and> length rest = n_len n1 - n_len n2"
    proof (cases "n_len n1 = n_len n2")
      case True
      then show ?thesis using rest q B(3) by simp
    next
      case False
      then have "sub_rest q b1 = (rest, b2)" using rest q by simp
      then show ?thesis using sub_rest_correct [of q b1 rest b2] q B(3) by auto
    qed
    then show "lval rest - 10 ^ length rest * b2 = lval q - b1" "digits_ok rest" "b2 \<in> {0, 1}" "length rest = n_len n1 - n_len n2"
      by auto
  qed
  define D where "D = low @ out @ rest"
  have D: "length D = n_len n1 + S" "digits_ok D"
    unfolding D_def length_append L(4) B(4) R(4) using k(9) assms(3) L(2) B(2) R(2) by simp_all
  have "lval D - 10 ^ length D * b2 =
      (lval low - 10 ^ (k1 + k2) * b) + 10 ^ (k1 + k2) * ((lval out - 10 ^ length out * b1 + 10 ^ length out * lval q) + b
        + 10 ^ length out * ((lval rest - 10 ^ length rest * b2) - lval q + b1))"
    unfolding D_def lval_append length_append L(4) power_add by (simp add: algebra_simps)
  also have "\<dots> = bc_mag n1 * 10 ^ k2 - bc_mag n2 * 10 ^ k1"
    unfolding L(1) B(1) R(1)
    using rev_digits_split [OF assms(1) k(4)] rev_digits_split [OF assms(2) k(5)] k(1)
    by (auto simp: r1_def [symmetric] r2_def [symmetric] algebra_simps)
  finally have mag: "lval D - 10 ^ length D * b2 = bc_mag n1 * 10 ^ k2 - bc_mag n2 * 10 ^ k1" .
  have c: "common_mag n1 n2 = bc_mag n1 * 10 ^ k2 * 10 ^ m" "common_mag n2 n1 = bc_mag n2 * 10 ^ k1 * 10 ^ m"
    using k unfolding common_mag_def mult.assoc power_add [symmetric] by (metis le_add_diff_inverse2 add.commute)+
  have "bc_mag n2 * 10 ^ k1 \<le> bc_mag n1 * 10 ^ k2"
    using assms(4) unfolding c by (simp only: mult_le_cancel_right_pos zero_less_power zero_less_numeral)
  then have "0 \<le> lval D - 10 ^ length D * b2" unfolding mag by simp
  moreover have "lval D < 10 ^ length D" using lval_bounds [OF D(2)] by simp
  ultimately have "b2 = 0" using R(3) by auto
  then have magD: "lval D = bc_mag n1 * 10 ^ k2 - bc_mag n2 * 10 ^ k1" using mag by simp
  have ds: "ds = replicate (scale_min - S) 0 @ D" unfolding ds_def D_def by simp
  have dl: "length ds = n_len n1 + max S scale_min" "digits_ok ds" unfolding ds using D by auto
  have lds: "lval ds = bc_mag n1 * 10 ^ (k2 + (scale_min - S)) - bc_mag n2 * 10 ^ (k1 + (scale_min - S))"
    unfolding ds lval_append lval_zeros length_replicate magD by (simp add: algebra_simps power_add)
  note N = made_number [OF num_def dl]
  have sc: "n_scale num = n_scale n1 + (k2 + (scale_min - S))" "n_scale num = n_scale n2 + (k1 + (scale_min - S))"
    unfolding N(3) using k by linarith+
  have "of_int (bc_mag num) / 10 ^ n_scale num = abs_val n1 - abs_val n2"
    unfolding N(2) lds of_int_diff diff_divide_distrib
    using abs_val_scale [of n1 "k2 + (scale_min - S)", folded sc(1)] abs_val_scale [of n2 "k1 + (scale_min - S)", folded sc(2)] by simp
  then have "abs_val res = abs_val n1 - abs_val n2"
    using rm_leading_zeros_ok [OF N(1)] by (simp add: res abs_val_def)
  then show ?thesis
    using rm_leading_zeros_ok [OF N(1)] rm_leading_zeros_len [of num] rm_leading_zeros_stripped [of num] N by (simp add: res S_def)
qed

subsection \<open>Signed addition and subtraction\<close>

lemma common_mag_le:
  assumes "bc_ok n1" "bc_ok n2"
  shows "common_mag n1 n2 \<le> common_mag n2 n1 \<longleftrightarrow> abs_val n1 \<le> abs_val n2"
    "common_mag n1 n2 = common_mag n2 n1 \<longleftrightarrow> abs_val n1 = abs_val n2"
proof -
  have c: "rat_of_int (common_mag n1 n2) = abs_val n1 * 10 ^ (n_scale n1 + n_scale n2)"
    "rat_of_int (common_mag n2 n1) = abs_val n2 * 10 ^ (n_scale n1 + n_scale n2)"
    using assms by (simp_all add: abs_val_def common_mag_def power_add)
  show "common_mag n1 n2 \<le> common_mag n2 n1 \<longleftrightarrow> abs_val n1 \<le> abs_val n2"
    unfolding of_int_le_iff [where 'a = rat, symmetric] c by simp
  show "common_mag n1 n2 = common_mag n2 n1 \<longleftrightarrow> abs_val n1 = abs_val n2"
    unfolding of_int_eq_iff [where 'a = rat, symmetric] c by simp
qed

text \<open>The result of an operation: a canonical number with the value and at least the scale asked for.\<close>

definition result_is :: "bc_num \<Rightarrow> rat \<Rightarrow> nat \<Rightarrow> bool" where
  "result_is num v scale \<longleftrightarrow> bc_canonical num \<and> num_val num = v \<and> n_scale num = scale"

text \<open>What one comparison of magnitudes decides, and the subtraction that follows it.\<close>

lemma compare_then_sub:
  assumes "bc_norm n1" "bc_norm n2"
  shows "bc_do_compare n1 n2 False False = - 1 \<and> result_is (bc_do_sub n2 n1 sm) (abs_val n2 - abs_val n1) (max (max (n_scale n1) (n_scale n2)) sm) \<and>
      n_sign (bc_do_sub n2 n1 sm) = PLUS \<and> n_len (bc_do_sub n2 n1 sm) \<le> n_len n2 \<or>
    bc_do_compare n1 n2 False False = 0 \<and> abs_val n1 = abs_val n2 \<or>
    bc_do_compare n1 n2 False False = 1 \<and> result_is (bc_do_sub n1 n2 sm) (abs_val n1 - abs_val n2) (max (max (n_scale n1) (n_scale n2)) sm) \<and>
      n_sign (bc_do_sub n1 n2 sm) = PLUS \<and> n_len (bc_do_sub n1 n2 sm) \<le> n_len n1"
proof -
  have ok: "bc_ok n1" "bc_ok n2" using assms by (auto simp: bc_norm_def)
  have zero: "bc_do_compare n1 n2 False False = 0" if "n_len n1 = 0" "n_len n2 = 0"
    using compare_same_length [OF ok] that assms by (auto simp: bc_norm_def common_mag_def bc_mag_def bc_digits_def)
  note S1 = do_sub_correct [OF ok, of sm] and S2 = do_sub_correct [OF ok(2,1), of sm]
  from compare_magnitudes [OF assms] consider
      (less) "bc_do_compare n1 n2 False False = - 1" "common_mag n1 n2 \<le> common_mag n2 n1" "n_len n1 \<le> n_len n2"
    | (same) "bc_do_compare n1 n2 False False = 0" "common_mag n1 n2 = common_mag n2 n1"
    | (more) "bc_do_compare n1 n2 False False = 1" "common_mag n2 n1 \<le> common_mag n1 n2" "n_len n2 \<le> n_len n1"
    by blast
  then show ?thesis
  proof cases
    case less
    then have "1 \<le> n_len n2" using zero by (cases "n_len n2") auto
    with S2 [OF less(3,2)] less(1) show ?thesis
      by (auto simp: result_is_def bc_canonical_def num_val_abs max.commute)
  next
    case same
    then show ?thesis using common_mag_le(2) [OF ok] by blast
  next
    case more
    then have "1 \<le> n_len n1" using zero by (cases "n_len n1") auto
    with S1 [OF more(3,2)] more(1) show ?thesis
      by (auto simp: result_is_def bc_canonical_def num_val_abs)
  qed
qed

lemma with_sign:
  assumes "bc_canonical num"
  shows "result_is (num\<lparr>n_sign := s\<rparr>) (sgn_val s * abs_val num) (n_scale num)"
proof -
  have "bc_canonical (num\<lparr>n_sign := s\<rparr>)"
    using assms by (simp add: bc_canonical_def bc_ok_def stripped_def)
  moreover have "abs_val (num\<lparr>n_sign := s\<rparr>) = abs_val num" by (simp add: abs_val_def bc_mag_def bc_digits_def)
  ultimately show ?thesis by (simp add: result_is_def num_val_abs)
qed

lemma with_sign_plus:
  assumes "result_is num v scale" "n_sign num = PLUS" "w = sgn_val s * v"
  shows "result_is (num\<lparr>n_sign := s\<rparr>) w scale"
  using with_sign [of num s] assms by (simp add: result_is_def num_val_abs)

lemma do_add_signed:
  assumes "bc_ok n1" "bc_ok n2"
  shows "result_is ((bc_do_add n1 n2 sm)\<lparr>n_sign := s\<rparr>) (sgn_val s * (abs_val n1 + abs_val n2)) (max (max (n_scale n1) (n_scale n2)) sm)"
  using do_add_correct [OF assms, of sm] with_sign [of "bc_do_add n1 n2 sm" s] by simp

lemma new_zero: "result_is (bc_new_num 1 k) 0 k"
  by (simp add: result_is_def bc_canonical_def stripped_def num_val_def) (simp add: bc_new_num_def)

lemma add_correct:
  assumes "bc_norm n1" "bc_norm n2"
  shows "result_is (bc_add n1 n2 sm) (num_val n1 + num_val n2) (max (max (n_scale n1) (n_scale n2)) sm)"
proof (cases "n_sign n1 = n_sign n2")
  case True
  then show ?thesis using do_add_signed [of n1 n2 "n_sign n1" sm] assms
    by (simp add: bc_add_def num_val_abs bc_norm_def distrib_left)
next
  case False
  then have s: "sgn_val (n_sign n2) = - sgn_val (n_sign n1)" by (cases "n_sign n1"; cases "n_sign n2") auto
  show ?thesis
    using compare_then_sub [OF assms, of sm]
    by (elim disjE conjE)
      (use False s new_zero in \<open>auto simp: bc_add_def num_val_abs max.commute algebra_simps intro!: with_sign_plus\<close>)
qed

lemma sub_correct:
  assumes "bc_norm n1" "bc_norm n2"
  shows "result_is (bc_sub n1 n2 sm) (num_val n1 - num_val n2) (max (max (n_scale n1) (n_scale n2)) sm)"
proof (cases "n_sign n1 = n_sign n2")
  case False
  then have s: "sgn_val (n_sign n2) = - sgn_val (n_sign n1)" by (cases "n_sign n1"; cases "n_sign n2") auto
  show ?thesis using do_add_signed [of n1 n2 "n_sign n1" sm] assms False s
    by (simp add: bc_sub_def num_val_abs bc_norm_def distrib_left)
next
  case True
  define t where "t = (if n_sign n2 = PLUS then MINUS else PLUS)"
  have s: "sgn_val t = - sgn_val (n_sign n1)" using True by (cases "n_sign n2") (auto simp: t_def)
  show ?thesis
    using compare_then_sub [OF assms, of sm]
    by (elim disjE conjE)
      (use True s new_zero in \<open>auto simp: bc_sub_def t_def [symmetric] num_val_abs max.commute algebra_simps intro!: with_sign_plus\<close>)
qed

text \<open>The length of the difference of two numbers of the same sign.\<close>

lemma sub_len:
  assumes "bc_norm n1" "bc_norm n2" "n_sign n1 = n_sign n2"
  shows "n_len (bc_sub n1 n2 sm) \<le> max 1 (max (n_len n1) (n_len n2))"
  using compare_then_sub [OF assms(1,2), of sm] assms(3)
  by (elim disjE conjE) (auto simp: bc_sub_def bc_new_num_def)

end
