(* ===== verification/BcMul.thy ===== *)
theory BcMul
  imports BcAdd
begin

text \<open>
  Multiplication (\<open>recmul.c\<close>): the schoolbook product of short numbers, column by column, and the
  recursive one of long numbers, which splits both and needs three products of half the length.
  A failed \<open>assert\<close> and a carry that runs off the front of the accumulator are \<open>None\<close>.
\<close>

definition mul_base_digits :: nat where "mul_base_digits = 80"
definition MUL_SMALL_DIGITS :: nat where "MUL_SMALL_DIGITS = mul_base_digits div 4"

definition new_sub_num :: "nat \<Rightarrow> nat \<Rightarrow> int list \<Rightarrow> bc_num" where
  "new_sub_num len scale value = \<lparr>n_sign = PLUS, n_len = len, n_scale = scale, n_value = value\<rparr>"

text \<open>
  The inner loop of \<open>_bc_simp_mul\<close>: \<open>a\<close> and \<open>b\<close> are the distances of \<open>n1ptr\<close> and \<open>n2ptr\<close> from the last
  digits.
\<close>

function mul_column :: "int list \<Rightarrow> int list \<Rightarrow> nat \<Rightarrow> int \<Rightarrow> int \<Rightarrow> int" where
  "mul_column r1 r2 a b acc =
     (if a < length r1 \<and> 0 \<le> b then mul_column r1 r2 (a + 1) (b - 1) (acc + r1 ! a * r2 ! nat b) else acc)"
  by pat_completeness auto
termination by (relation "measure (\<lambda>(r1, r2, a, b, acc). length r1 - a)") auto
declare mul_column.simps [simp del]

definition mul_step :: "int list \<Rightarrow> int list \<Rightarrow> nat \<Rightarrow> int list \<times> int \<Rightarrow> int list \<times> int" where
  "mul_step r1 r2 index = (\<lambda>(out, acc).
     (let acc = mul_column r1 r2 (nat (max 0 (int index - int (length r2) + 1))) (min (int index) (int (length r2) - 1)) acc
      in (out @ [acc mod BASE], acc div BASE)))"

definition bc_simp_mul :: "bc_num \<Rightarrow> nat \<Rightarrow> bc_num \<Rightarrow> nat \<Rightarrow> bc_num" where
  "bc_simp_mul n1 n1len n2 n2len =
     (let prodlen = n1len + n2len + 1;
          prod = bc_new_num prodlen 0;
          (out, acc) = fold (mul_step (rev (take n1len (n_value n1))) (rev (take n2len (n_value n2)))) [0..<prodlen - 1] ([], 0)
      in prod\<lparr>n_value := rev (out @ [acc])\<rparr>)"

text \<open>The two halves of \<open>_bc_shift_addsub\<close>, on the digits of the accumulator from position \<open>shift\<close> on.\<close>

fun carry_on :: "int list \<Rightarrow> int \<Rightarrow> int list option" where
  "carry_on accp carry =
     (if carry = 0 then Some accp
      else case accp of [] \<Rightarrow> None
        | a # accp \<Rightarrow> (let a = a + carry
             in if a > BASE - 1 then map_option ((#) (a - BASE)) (carry_on accp carry) else Some (a # accp)))"

fun borrow_on :: "int list \<Rightarrow> int \<Rightarrow> int list option" where
  "borrow_on accp carry =
     (if carry = 0 then Some accp
      else case accp of [] \<Rightarrow> None
        | a # accp \<Rightarrow> (let a = a - carry
             in if a < 0 then map_option ((#) (a + BASE)) (borrow_on accp carry) else Some (a # accp)))"

declare carry_on.simps [simp del] borrow_on.simps [simp del]

fun shift_add :: "int list \<Rightarrow> int list \<Rightarrow> int \<Rightarrow> int list option" where
  "shift_add (a # accp) (v # valp) carry =
     (let a = a + (v + carry)
      in if a > BASE - 1 then map_option ((#) (a - BASE)) (shift_add accp valp 1)
         else map_option ((#) a) (shift_add accp valp 0))"
| "shift_add [] (v # valp) carry = None"
| "shift_add accp [] carry = carry_on accp carry"

fun shift_sub :: "int list \<Rightarrow> int list \<Rightarrow> int \<Rightarrow> int list option" where
  "shift_sub (a # accp) (v # valp) carry =
     (let a = a - (v + carry)
      in if a < 0 then map_option ((#) (a + BASE)) (shift_sub accp valp 1)
         else map_option ((#) a) (shift_sub accp valp 0))"
| "shift_sub [] (v # valp) carry = None"
| "shift_sub accp [] carry = borrow_on accp carry"

definition bc_shift_addsub :: "bc_num \<Rightarrow> bc_num \<Rightarrow> nat \<Rightarrow> bool \<Rightarrow> bc_num option" where
  "bc_shift_addsub accum val shift subtract =
     (let count = n_len val;
          count = (if n_value val ! 0 = 0 then count - 1 else count)
      in if \<not> n_len accum + n_scale accum \<ge> shift + count then None
         else (let racc = rev (bc_digits accum);
                   valp = take count (rev (take (n_len val) (n_value val)))
               in do {
                 accp \<leftarrow> (if subtract then shift_sub (drop shift racc) valp 0 else shift_add (drop shift racc) valp 0);
                 Some (accum\<lparr>n_value := rev (take shift racc @ accp) @ drop (n_len accum + n_scale accum) (n_value accum)\<rparr>) }))"

text \<open>The parts \<open>u1\<close> and \<open>u0\<close> of \<open>u\<close>, without leading zeros.\<close>

definition bc_split :: "bc_num \<Rightarrow> nat \<Rightarrow> nat \<Rightarrow> bc_num \<times> bc_num" where
  "bc_split u ulen n =
     (let (u1, u0) = (if ulen < n then (BCG_zero, new_sub_num ulen 0 (n_value u))
                      else (new_sub_num (ulen - n) 0 (n_value u), new_sub_num n 0 (drop (ulen - n) (n_value u))))
      in (bc_rm_leading_zeros u1, bc_rm_leading_zeros u0))"

text \<open>The sizes of the parts, which make the recursion end.\<close>

lemma do_sub_len: "n_len (bc_do_sub n1 n2 k) \<le> max (n_len n1) (n_len n2)"
  unfolding bc_do_sub_def Let_def
  by (auto split: prod.split intro!: order_trans [OF rm_leading_zeros_len] simp: bc_new_num_def)

lemma sub_len_plus:
  assumes "n_sign n1 = n_sign n2"
  shows "n_len (bc_sub n1 n2 k) \<le> max 1 (max (n_len n1) (n_len n2))"
  using assms do_sub_len [of n1 n2 k] do_sub_len [of n2 n1 k] by (auto simp: bc_sub_def Let_def bc_new_num_def)

lemma split_len:
  assumes "bc_split u ulen n = (u1, u0)" "1 \<le> n"
  shows "n_len u1 \<le> max 1 (ulen - n)" "n_len u0 \<le> min ulen n" "n_sign u1 = PLUS" "n_sign u0 = PLUS"
    "n_scale u1 = 0" "n_scale u0 = 0"
  using assms rm_leading_zeros_len [of "new_sub_num (ulen - n) 0 (n_value u)"] rm_leading_zeros_len [of "BCG_zero"]
    rm_leading_zeros_len [of "new_sub_num ulen 0 (n_value u)"] rm_leading_zeros_len [of "new_sub_num n 0 (drop (ulen - n) (n_value u))"]
  by (auto simp: bc_split_def new_sub_num_def BCG_zero_def bc_new_num_def split: if_splits)

lemma rec_mul_ends:
  assumes "\<not> (ulen + vlen < mul_base_digits \<or> ulen < MUL_SMALL_DIGITS \<or> vlen < MUL_SMALL_DIGITS)"
    and "bc_split u ulen ((max ulen vlen + 1) div 2) = (u1, u0)" "bc_split v vlen ((max ulen vlen + 1) div 2) = (v1, v0)"
  shows "n_len u1 + n_len v1 < ulen + vlen" "n_len u0 + n_len v0 < ulen + vlen"
    "n_len (bc_sub u1 u0 0) + n_len (bc_sub v0 v1 0) < ulen + vlen"
proof -
  define n where "n = (max ulen vlen + 1) div 2"
  have n: "1 \<le> n" "n < max ulen vlen" "max ulen vlen \<le> 2 * n" "2 * n \<le> max ulen vlen + 1" "20 \<le> ulen" "20 \<le> vlen"
    using assms(1) by (auto simp: n_def mul_base_digits_def MUL_SMALL_DIGITS_def)
  note u = split_len [OF assms(2) [folded n_def] n(1)] and v = split_len [OF assms(3) [folded n_def] n(1)]
  have part1: "n_len u1 < ulen" "n_len v1 < vlen" using u(1) v(1) n(1,5,6) by linarith+
  have part0: "n_len u0 \<le> ulen" "n_len u0 \<le> n" "n_len v0 \<le> vlen" "n_len v0 \<le> n" using u(2) v(2) by linarith+
  show "n_len u1 + n_len v1 < ulen + vlen" using part1 by linarith
  show "n_len u0 + n_len v0 < ulen + vlen" using part0 n(2) by linarith
  have "ulen \<le> 2 * n" "vlen \<le> 2 * n" using n(3) by linarith+
  then have "n_len u1 \<le> n" "n_len v1 \<le> n" using u(1) v(1) n(1) by linarith+
  moreover have "n_len (bc_sub u1 u0 0) \<le> max 1 (max (n_len u1) (n_len u0))" "n_len (bc_sub v0 v1 0) \<le> max 1 (max (n_len v0) (n_len v1))"
    by (rule sub_len_plus; simp add: u v)+
  ultimately have "n_len (bc_sub u1 u0 0) \<le> n" "n_len (bc_sub v0 v1 0) \<le> n" using part0 n(1) by linarith+
  then show "n_len (bc_sub u1 u0 0) + n_len (bc_sub v0 v1 0) < ulen + vlen" using n(4,5,6) by linarith
qed

function bc_rec_mul :: "bc_num \<Rightarrow> nat \<Rightarrow> bc_num \<Rightarrow> nat \<Rightarrow> bc_num option" where
  "bc_rec_mul u ulen v vlen =
     (if ulen + vlen < mul_base_digits \<or> ulen < MUL_SMALL_DIGITS \<or> vlen < MUL_SMALL_DIGITS
      then Some (bc_simp_mul u ulen v vlen)
      else (let n = (max ulen vlen + 1) div 2;
                (u1, u0) = bc_split u ulen n;
                (v1, v0) = bc_split v vlen n;
                m1zero = (bc_is_zero u1 \<or> bc_is_zero v1);
                d1 = bc_sub u1 u0 0;
                d2 = bc_sub v0 v1 0
            in do {
              m1 \<leftarrow> (if m1zero then Some BCG_zero else bc_rec_mul u1 (n_len u1) v1 (n_len v1));
              m2 \<leftarrow> (if bc_is_zero d1 \<or> bc_is_zero d2 then Some BCG_zero else bc_rec_mul d1 (n_len d1) d2 (n_len d2));
              m3 \<leftarrow> (if bc_is_zero u0 \<or> bc_is_zero v0 then Some BCG_zero else bc_rec_mul u0 (n_len u0) v0 (n_len v0));
              prod \<leftarrow> Some (bc_new_num (ulen + vlen + 1) 0);
              prod \<leftarrow> (if \<not> m1zero then do { prod \<leftarrow> bc_shift_addsub prod m1 (2 * n) False; bc_shift_addsub prod m1 n False }
                      else Some prod);
              prod \<leftarrow> bc_shift_addsub prod m3 n False;
              prod \<leftarrow> bc_shift_addsub prod m3 0 False;
              bc_shift_addsub prod m2 n (n_sign d1 \<noteq> n_sign d2) }))"
  by pat_completeness auto
termination
  apply (relation "measure (\<lambda>(u, ulen, v, vlen). ulen + vlen)")
  apply (simp_all only: in_measure prod.case wf_measure)
  subgoal by (rule rec_mul_ends(1)) (assumption | erule sym)+
  subgoal by (rule rec_mul_ends(3)) (assumption | erule sym)+
  subgoal by (rule rec_mul_ends(2)) (assumption | erule sym)+
  done
declare bc_rec_mul.simps [simp del]

definition bc_multiply :: "bc_num \<Rightarrow> bc_num \<Rightarrow> nat \<Rightarrow> bc_num option" where
  "bc_multiply n1 n2 scale =
     (let len1 = n_len n1 + n_scale n1;
          len2 = n_len n2 + n_scale n2;
          full_scale = n_scale n1 + n_scale n2;
          prod_scale = min full_scale (max scale (max (n_scale n1) (n_scale n2)))
      in do {
        pval \<leftarrow> bc_rec_mul n1 len1 n2 len2;
        (let pval = pval\<lparr>n_sign := (if n_sign n1 = n_sign n2 then PLUS else MINUS),
               n_len := len2 + len1 + 1 - full_scale, n_scale := prod_scale\<rparr>;
             pval = bc_rm_leading_zeros pval
         in Some (if bc_is_zero pval then pval\<lparr>n_sign := PLUS\<rparr> else pval)) })"

subsection \<open>The schoolbook product\<close>

definition dig :: "int list \<Rightarrow> nat \<Rightarrow> int" where
  "dig r i = (if i < length r then r ! i else 0)"

lemma dig_Cons [simp]: "dig (d # r) 0 = d" "dig (d # r) (Suc i) = dig r i" "dig [] i = 0"
  by (simp_all add: dig_def)

lemma lval_sum: "length r \<le> Suc m \<Longrightarrow> lval r = (\<Sum>i\<le>m. dig r i * 10 ^ i)"
proof (induction r arbitrary: m)
  case (Cons d r)
  show ?case
  proof (cases m)
    case 0
    then show ?thesis using Cons by simp
  next
    case (Suc k)
    have "(\<Sum>i\<le>m. dig (d # r) i * 10 ^ i) = d + (\<Sum>i\<le>k. dig (d # r) (Suc i) * 10 ^ Suc i)"
      unfolding Suc by (subst sum.atMost_Suc_shift) simp
    also have "\<dots> = d + 10 * (\<Sum>i\<le>k. dig r i * 10 ^ i)"
      by (simp add: sum_distrib_left ac_simps)
    finally show ?thesis using Cons Suc by simp
  qed
qed simp

definition column :: "int list \<Rightarrow> int list \<Rightarrow> nat \<Rightarrow> int" where
  "column r1 r2 i = (\<Sum>k\<le>i. dig r1 k * dig r2 (i - k))"

lemma lval_product: "lval r1 * lval r2 = (\<Sum>i<length r1 + length r2. column r1 r2 i * 10 ^ i)"
proof -
  have "lval r1 * lval r2 = (\<Sum>i\<le>length r1. dig r1 i * 10 ^ i) * (\<Sum>j\<le>length r2. dig r2 j * 10 ^ j)"
    using lval_sum [of r1 "length r1"] lval_sum [of r2 "length r2"] by simp
  also have "\<dots> = (\<Sum>i\<le>length r1 + length r2. column r1 r2 i * 10 ^ i)"
    unfolding column_def by (rule polynomial_product) (auto simp: dig_def)
  also have "column r1 r2 (length r1 + length r2) = 0"
    by (auto simp: column_def dig_def intro!: sum.neutral)
  then have "(\<Sum>i\<le>length r1 + length r2. column r1 r2 i * 10 ^ i) = (\<Sum>i<length r1 + length r2. column r1 r2 i * 10 ^ i)"
    unfolding lessThan_Suc_atMost [symmetric] by simp
  finally show ?thesis .
qed

lemma mul_column_sum:
  assumes "int a + b + 1 = int t" "b < int (length r2)" "- 1 \<le> b"
  shows "mul_column r1 r2 a b s = s + (\<Sum>k\<in>{a..<t}. dig r1 k * dig r2 (t - 1 - k))"
  using assms
proof (induction r1 r2 a b s rule: mul_column.induct)
  case (1 r1 r2 a b s)
  show ?case
  proof (cases "a < length r1 \<and> 0 \<le> b")
    case True
    then have "mul_column r1 r2 a b s = s + r1 ! a * r2 ! nat b + (\<Sum>k\<in>{Suc a..<t}. dig r1 k * dig r2 (t - 1 - k))"
      using 1 by (subst mul_column.simps) simp
    moreover have "t - 1 - a = nat b" "a < t" using 1(2) True by auto
    moreover have "nat b < length r2" using True 1(3) by linarith
    then have "dig r1 a * dig r2 (nat b) = r1 ! a * r2 ! nat b" using True by (simp add: dig_def)
    ultimately show ?thesis by (simp add: sum.atLeast_Suc_lessThan)
  next
    case False
    then have "(\<Sum>k\<in>{a..<t}. dig r1 k * dig r2 (t - 1 - k)) = 0"
      using 1(2,4) by (auto simp: dig_def intro!: sum.neutral)
    then show ?thesis using False by (subst mul_column.simps) auto
  qed
qed

lemma mul_step_eq:
  "mul_step r1 r2 index (out, s) =
     (out @ [(s + column r1 r2 index) mod 10], (s + column r1 r2 index) div 10)"
proof -
  let ?a = "nat (max 0 (int index - int (length r2) + 1))" and ?b = "min (int index) (int (length r2) - 1)"
  have "int ?a + ?b + 1 = int (Suc index)" "?b < int (length r2)" "- 1 \<le> ?b" by linarith+
  from mul_column_sum [OF this, of r1 s]
  have "mul_column r1 r2 ?a ?b s = s + (\<Sum>k\<in>{?a..<Suc index}. dig r1 k * dig r2 (index - k))" by simp
  also have "(\<Sum>k\<in>{?a..<Suc index}. dig r1 k * dig r2 (index - k)) = column r1 r2 index"
    unfolding column_def by (rule sum.mono_neutral_left) (auto simp: dig_def)
  finally show ?thesis by (simp add: mul_step_def Let_def BASE_def)
qed

lemma column_nonneg: "digits_ok r1 \<Longrightarrow> digits_ok r2 \<Longrightarrow> 0 \<le> column r1 r2 i"
  unfolding column_def by (intro sum_nonneg mult_nonneg_nonneg) (auto simp: dig_def digits_ok_nth)

lemma mul_columns:
  assumes "digits_ok r1" "digits_ok r2"
  shows "\<exists>out s. fold (mul_step r1 r2) [0..<K] ([], 0) = (out, s) \<and> digits_ok out \<and> length out = K \<and> 0 \<le> s \<and>
    lval out + 10 ^ K * s = (\<Sum>i<K. column r1 r2 i * 10 ^ i)"
proof (induction K)
  case (Suc K)
  then obtain out s where IH: "fold (mul_step r1 r2) [0..<K] ([], 0) = (out, s)" "digits_ok out" "length out = K" "0 \<le> s"
    "lval out + 10 ^ K * s = (\<Sum>i<K. column r1 r2 i * 10 ^ i)" by blast
  define c where "c = s + column r1 r2 K"
  have "0 \<le> c" using IH(4) column_nonneg [OF assms] by (simp add: c_def)
  have "\<And>m q. lval (out @ [m]) + 10 ^ Suc K * q = lval out + 10 ^ K * (m + 10 * q)"
    using IH(3) by (simp add: algebra_simps)
  then have "lval (out @ [c mod 10]) + 10 ^ Suc K * (c div 10) = lval out + 10 ^ K * (c mod 10 + 10 * (c div 10))" .
  also have "c mod 10 + 10 * (c div 10) = s + column r1 r2 K" unfolding c_def by simp
  also have "lval out + 10 ^ K * (s + column r1 r2 K) = lval out + 10 ^ K * s + column r1 r2 K * 10 ^ K" by (simp add: algebra_simps)
  finally have "lval (out @ [c mod 10]) + 10 ^ Suc K * (c div 10) = (\<Sum>i<Suc K. column r1 r2 i * 10 ^ i)"
    using IH(5) by simp
  moreover have "fold (mul_step r1 r2) [0..<Suc K] ([], 0) = (out @ [c mod 10], c div 10)"
    using IH(1) by (simp add: mul_step_eq c_def)
  ultimately show ?case using IH(2,3) \<open>0 \<le> c\<close> by (auto simp: digits_ok_def)
qed simp

text \<open>A product of the multiplication: its storage is its digits, and there is room for one more.\<close>

definition product_is :: "bc_num \<Rightarrow> int \<Rightarrow> nat \<Rightarrow> bool" where
  "product_is num v len \<longleftrightarrow> digits_ok (n_value num) \<and> length (n_value num) = len \<and> n_len num = len \<and> n_scale num = 0 \<and>
     mval (n_value num) = v"

lemma simp_mul_correct:
  assumes "digits_ok (n_value u)" "digits_ok (n_value v)" "ulen \<le> length (n_value u)" "vlen \<le> length (n_value v)"
  shows "product_is (bc_simp_mul u ulen v vlen) (mval (take ulen (n_value u)) * mval (take vlen (n_value v))) (ulen + vlen + 1)"
proof -
  define r1 r2 where "r1 = rev (take ulen (n_value u))" and "r2 = rev (take vlen (n_value v))"
  have r: "digits_ok r1" "digits_ok r2" "length r1 = ulen" "length r2 = vlen"
    using assms by (auto simp: r1_def r2_def)
  obtain out s where f: "fold (mul_step r1 r2) [0..<ulen + vlen] ([], 0) = (out, s)" "digits_ok out" "length out = ulen + vlen"
    "0 \<le> s" "lval out + 10 ^ (ulen + vlen) * s = lval r1 * lval r2"
    using mul_columns [OF r(1,2), of "ulen + vlen"] lval_product [of r1 r2] r by auto
  have "lval r1 * lval r2 < 10 ^ ulen * 10 ^ vlen"
    using lval_bounds [OF r(1)] lval_bounds [OF r(2)] r by (intro mult_strict_mono') auto
  moreover have "0 \<le> lval out" using lval_bounds [OF f(2)] by simp
  ultimately have "10 ^ (ulen + vlen) * s < 10 ^ (ulen + vlen) * 1"
    using f(5) unfolding power_add [symmetric] mult_1_right by linarith
  then have "s < 1" by (simp only: mult_less_cancel_left_pos zero_less_power zero_less_numeral)
  then have "s = 0" using f(4) by simp
  then have "n_value (bc_simp_mul u ulen v vlen) = rev (out @ [0])" "n_len (bc_simp_mul u ulen v vlen) = ulen + vlen + 1"
    "n_scale (bc_simp_mul u ulen v vlen) = 0"
    using f(1) by (simp_all add: bc_simp_mul_def Let_def r1_def [symmetric] r2_def [symmetric] bc_new_num_def)
  then show ?thesis using f \<open>s = 0\<close> by (simp add: product_is_def mval_def r1_def r2_def)
qed

subsection \<open>Adding to the accumulator\<close>

lemma carry_on_correct:
  assumes "digits_ok acc" "c \<in> {0, 1}" "lval acc + c < 10 ^ length acc"
  shows "\<exists>new. carry_on acc c = Some new \<and> digits_ok new \<and> length new = length acc \<and> lval new = lval acc + c"
  using assms
proof (induction acc)
  case (Cons a acc)
  show ?case
  proof (cases "c = 1 \<and> a = 9")
    case True
    moreover obtain new where "carry_on acc c = Some new" "digits_ok new" "length new = length acc" "lval new = lval acc + c"
      using Cons True by auto
    ultimately show ?thesis by (subst carry_on.simps) (simp add: BASE_def)
  next
    case False
    then show ?thesis using Cons(2,3) by (subst carry_on.simps) (auto simp: BASE_def)
  qed
qed (auto simp: carry_on.simps)

lemma borrow_on_correct:
  assumes "digits_ok acc" "c \<in> {0, 1}" "c \<le> lval acc"
  shows "\<exists>new. borrow_on acc c = Some new \<and> digits_ok new \<and> length new = length acc \<and> lval new = lval acc - c"
  using assms
proof (induction acc)
  case (Cons a acc)
  show ?case
  proof (cases "c = 1 \<and> a = 0")
    case True
    moreover obtain new where "borrow_on acc c = Some new" "digits_ok new" "length new = length acc" "lval new = lval acc - c"
      using Cons True by auto
    ultimately show ?thesis by (subst borrow_on.simps) (simp add: BASE_def)
  next
    case False
    then show ?thesis using Cons(2,3) by (subst borrow_on.simps) (auto simp: BASE_def)
  qed
qed (auto simp: borrow_on.simps)

lemma shift_add_correct:
  assumes "digits_ok acc" "digits_ok vs" "c \<in> {0, 1}" "length vs \<le> length acc" "lval acc + lval vs + c < 10 ^ length acc"
  shows "\<exists>new. shift_add acc vs c = Some new \<and> digits_ok new \<and> length new = length acc \<and> lval new = lval acc + lval vs + c"
  using assms
proof (induction acc vs c rule: shift_add.induct)
  case (1 a acc v vs c)
  define e where "e = (if a + (v + c) > 9 then 1 else 0 :: int)"
  define d where "d = a + (v + c) - 10 * e"
  have e: "e \<in> {0, 1}" "0 \<le> d" "d < 10" using 1(3,4,5) by (auto simp: e_def d_def)
  have "d + 10 * (lval acc + lval vs + e) < 10 * 10 ^ length acc" using 1(7) by (simp add: d_def)
  then have "lval acc + lval vs + e < 10 ^ length acc" using e(2) by simp
  then obtain new where new: "shift_add acc vs e = Some new" "digits_ok new" "length new = length acc" "lval new = lval acc + lval vs + e"
    using 1(1) [OF refl] 1(2) [OF refl] 1(3-6) e by (auto simp: e_def BASE_def split: if_splits)
  have "shift_add (a # acc) (v # vs) c = Some (d # new)"
    using new(1) by (auto simp: e_def d_def BASE_def Let_def)
  then show ?case using new e by (simp add: d_def)
next
  case (3 acc c)
  then show ?case using carry_on_correct [of acc c] by simp
qed auto

lemma shift_sub_correct:
  assumes "digits_ok acc" "digits_ok vs" "c \<in> {0, 1}" "length vs \<le> length acc" "lval vs + c \<le> lval acc"
  shows "\<exists>new. shift_sub acc vs c = Some new \<and> digits_ok new \<and> length new = length acc \<and> lval new = lval acc - lval vs - c"
  using assms
proof (induction acc vs c rule: shift_sub.induct)
  case (1 a acc v vs c)
  define e where "e = (if a - (v + c) < 0 then 1 else 0 :: int)"
  define d where "d = a - (v + c) + 10 * e"
  have e: "e \<in> {0, 1}" "0 \<le> d" "d < 10" using 1(3,4,5) by (auto simp: e_def d_def)
  have "0 \<le> d + 10 * (lval acc - lval vs - e)" using 1(7) by (simp add: d_def)
  then have "0 \<le> lval acc - lval vs - e" using e(3) by simp
  then have "lval vs + e \<le> lval acc" by simp
  then obtain new where new: "shift_sub acc vs e = Some new" "digits_ok new" "length new = length acc" "lval new = lval acc - lval vs - e"
    using 1(1) [OF refl] 1(2) [OF refl] 1(3-6) e by (auto simp: e_def BASE_def split: if_splits)
  have "shift_sub (a # acc) (v # vs) c = Some (d # new)"
    using new(1) by (auto simp: e_def d_def BASE_def Let_def)
  then show ?case using new e by (simp add: d_def)
next
  case (3 acc c)
  then show ?case using borrow_on_correct [of acc c] by simp
qed auto

lemma product_zero: "product_is BCG_zero 0 1"
  by (simp add: product_is_def BCG_zero_def bc_new_num_def)

lemma product_new: "product_is (bc_new_num len 0) 0 len"
  by (simp add: product_is_def bc_new_num_def)

lemma addsub_correct:
  assumes acc: "product_is acc A len" and val: "product_is val V (Suc l)" "V < 10 ^ l"
    and "shift + l \<le> len" and "if subtract then V * 10 ^ shift \<le> A else A + V * 10 ^ shift < 10 ^ len"
  shows "\<exists>acc'. bc_shift_addsub acc val shift subtract = Some acc' \<and>
    product_is acc' (if subtract then A - V * 10 ^ shift else A + V * 10 ^ shift) len"
proof -
  note P = acc [unfolded product_is_def] and Q = val(1) [unfolded product_is_def]
  obtain d ds where d: "n_value val = d # ds" "length ds = l" "digits_ok ds" "0 \<le> d" using Q by (cases "n_value val") auto
  have "d * 10 ^ l + mval ds < 10 ^ l" using val(2) Q d by (simp add: mval_Cons)
  then have "d * 10 ^ l < 1 * 10 ^ l" using mval_bounds [OF d(3)] unfolding mult_1 by linarith
  then have d0: "d = 0" using d(4) by (simp only: mult_less_cancel_right_pos zero_less_power zero_less_numeral)
  then have V: "lval (rev ds) = V" using Q d by (simp add: mval_Cons mval_def)
  define racc where "racc = rev (n_value acc)"
  have r: "digits_ok racc" "length racc = len" "lval racc = A" "bc_digits acc = n_value acc"
    using P by (simp_all add: racc_def mval_def bc_digits_def)
  have A: "A = lval (take shift racc) + 10 ^ shift * lval (drop shift racc)"
    using lval_append [of "take shift racc" "drop shift racc"] r assms(4) by simp
  have low: "0 \<le> lval (take shift racc)" "lval (take shift racc) < 10 ^ shift"
    using lval_bounds [of "take shift racc"] r assms(4) by auto
  have ex: "\<exists>new. (if subtract then shift_sub (drop shift racc) (rev ds) 0 else shift_add (drop shift racc) (rev ds) 0) = Some new \<and>
      digits_ok new \<and> length new = len - shift \<and> lval new = (if subtract then lval (drop shift racc) - V else lval (drop shift racc) + V)"
  proof (cases subtract)
    case True
    then have "V * 10 ^ shift < (lval (drop shift racc) + 1) * 10 ^ shift" using assms(5) low A by (simp add: algebra_simps)
    then have "V \<le> lval (drop shift racc)" by (simp only: mult_less_cancel_right_pos zero_less_power zero_less_numeral)
    then show ?thesis
      using shift_sub_correct [of "drop shift racc" "rev ds" 0] True r d(2,3) V assms(4) by auto
  next
    case False
    have "(10::int) ^ len = 10 ^ (len - shift) * 10 ^ shift"
      unfolding power_add [symmetric] using assms(4) by simp
    then have "(lval (drop shift racc) + V) * 10 ^ shift < 10 ^ (len - shift) * 10 ^ shift"
      using False assms(5) low A by (simp add: algebra_simps)
    then have "lval (drop shift racc) + V < 10 ^ (len - shift)"
      by (simp only: mult_less_cancel_right_pos zero_less_power zero_less_numeral)
    then show ?thesis
      using shift_add_correct [of "drop shift racc" "rev ds" 0] False r d(2,3) V assms(4) by auto
  qed
  then obtain new where new: "(if subtract then shift_sub (drop shift racc) (rev ds) 0 else shift_add (drop shift racc) (rev ds) 0) = Some new"
    "digits_ok new" "length new = len - shift" "lval new = (if subtract then lval (drop shift racc) - V else lval (drop shift racc) + V)"
    by blast
  have "bc_shift_addsub acc val shift subtract = Some (acc\<lparr>n_value := rev (take shift racc @ new)\<rparr>)"
    using new(1) P Q d d0 r assms(4)
    by (simp add: bc_shift_addsub_def Let_def racc_def [symmetric] split del: if_split)
  moreover have "product_is (acc\<lparr>n_value := rev (take shift racc @ new)\<rparr>) (if subtract then A - V * 10 ^ shift else A + V * 10 ^ shift) len"
    using new(2-4) r assms(4) P A by (auto simp: product_is_def mval_def algebra_simps)
  ultimately show ?thesis by blast
qed

subsection \<open>The recursive product\<close>

text \<open>The parts of a split number: their values, and that both are numbers without leading zeros.\<close>

definition part_is :: "bc_num \<Rightarrow> int \<Rightarrow> bool" where
  "part_is x v \<longleftrightarrow> bc_norm x \<and> n_scale x = 0 \<and> n_sign x = PLUS \<and> bc_mag x = v"

lemma part_rm_zeros:
  assumes "digits_ok ds" "len \<le> length ds"
  shows "part_is (bc_rm_leading_zeros (new_sub_num len 0 ds)) (mval (take len ds))"
proof -
  have "bc_ok (new_sub_num len 0 ds)" "bc_mag (new_sub_num len 0 ds) = mval (take len ds)"
    using assms by (simp_all add: bc_ok_def new_sub_num_def bc_mag_def bc_digits_def)
  then show ?thesis
    using rm_leading_zeros_ok [of "new_sub_num len 0 ds"] rm_leading_zeros_stripped [of "new_sub_num len 0 ds"]
    by (simp add: part_is_def bc_norm_def new_sub_num_def)
qed

lemma split_correct:
  assumes "bc_split u ulen n = (u1, u0)" "digits_ok (n_value u)" "ulen \<le> length (n_value u)"
  obtains U1 U0 where "mval (take ulen (n_value u)) = U1 * 10 ^ n + U0" "0 \<le> U1" "U1 < 10 ^ (ulen - n)"
    "0 \<le> U0" "U0 < 10 ^ min ulen n" "part_is u1 U1" "part_is u0 U0"
proof (cases "ulen < n")
  case True
  have "bc_rm_leading_zeros BCG_zero = BCG_zero"
    by (subst bc_rm_leading_zeros.simps) (simp add: BCG_zero_def bc_new_num_def)
  then have "u1 = BCG_zero" "u0 = bc_rm_leading_zeros (new_sub_num ulen 0 (n_value u))"
    using assms(1) True by (simp_all add: bc_split_def)
  moreover have "part_is BCG_zero 0"
    by (simp add: part_is_def) (simp add: BCG_zero_def bc_new_num_def bc_mag_def bc_digits_def)
  moreover have "0 \<le> mval (take ulen (n_value u)) \<and> mval (take ulen (n_value u)) < 10 ^ ulen"
    using mval_bounds [of "take ulen (n_value u)"] assms(2,3) by (simp add: min_absorb2)
  ultimately show ?thesis
    using that [of 0 "mval (take ulen (n_value u))"] part_rm_zeros [OF assms(2,3)] True by simp
next
  case False
  let ?v = "n_value u"
  have u: "u1 = bc_rm_leading_zeros (new_sub_num (ulen - n) 0 ?v)" "u0 = bc_rm_leading_zeros (new_sub_num n 0 (drop (ulen - n) ?v))"
    using assms(1) False by (simp_all add: bc_split_def)
  have "take ulen ?v = take (ulen - n) ?v @ take n (drop (ulen - n) ?v)"
    using False take_add [of "ulen - n" n ?v] by simp
  moreover have l: "length (take n (drop (ulen - n) ?v)) = n" "length (take (ulen - n) ?v) = ulen - n" using assms(3) False by auto
  moreover have "0 \<le> mval (take (ulen - n) ?v) \<and> mval (take (ulen - n) ?v) < 10 ^ (ulen - n)"
    "0 \<le> mval (take n (drop (ulen - n) ?v)) \<and> mval (take n (drop (ulen - n) ?v)) < 10 ^ n"
    using mval_bounds [of "take (ulen - n) ?v", unfolded l] mval_bounds [of "take n (drop (ulen - n) ?v)", unfolded l] assms(2) by auto
  moreover have "min ulen n = n" using False by simp
  moreover have "ulen - n \<le> length ?v" "n \<le> length (drop (ulen - n) ?v)" using assms(3) False by auto
  then have "part_is u1 (mval (take (ulen - n) ?v))" "part_is u0 (mval (take n (drop (ulen - n) ?v)))"
    unfolding u using part_rm_zeros assms(2) by blast+
  ultimately show ?thesis
    using that [of "mval (take (ulen - n) ?v)" "mval (take n (drop (ulen - n) ?v))"] by (simp only: mval_simps)
qed

text \<open>One of the three products, skipped when a factor is zero.\<close>

lemma sub_product:
  assumes "bc_ok x" "bc_ok y" "n_scale x = 0" "n_scale y = 0"
    and "\<not> (bc_is_zero x \<or> bc_is_zero y) \<Longrightarrow> \<exists>p. f = Some p \<and> product_is p (bc_mag x * bc_mag y) (n_len x + n_len y + 1)"
  shows "\<exists>m l. (if bc_is_zero x \<or> bc_is_zero y then Some BCG_zero else f) = Some m \<and> product_is m (bc_mag x * bc_mag y) (Suc l) \<and>
    bc_mag x * bc_mag y < 10 ^ l \<and> (if bc_is_zero x \<or> bc_is_zero y then l = 0 else l = n_len x + n_len y)"
proof (cases "bc_is_zero x \<or> bc_is_zero y")
  case True
  then have "bc_mag x * bc_mag y = 0" using is_zero_iff assms(1,2) by auto
  then show ?thesis using True product_zero by auto
next
  case False
  have "bc_mag x < 10 ^ n_len x" "bc_mag y < 10 ^ n_len y" "0 \<le> bc_mag x" "0 \<le> bc_mag y"
    using bc_mag_bounds [OF assms(1)] bc_mag_bounds [OF assms(2)] assms(3,4) by auto
  then have "bc_mag x * bc_mag y < 10 ^ (n_len x + n_len y)"
    unfolding power_add by (intro mult_strict_mono') auto
  then show ?thesis using assms(5) [OF False] False by auto
qed

text \<open>The sum of the four shifted products fits into the accumulator.\<close>

lemma low_product_fits:
  fixes U0 V0 :: int
  assumes "0 \<le> U0" "U0 < 10 ^ a" "0 \<le> V0" "V0 < 10 ^ n"
  shows "U0 * V0 * (10 ^ n + 1) < 10 ^ (n + n + a)"
proof -
  have "U0 * (V0 * (10 ^ n + 1)) \<le> 10 ^ a * ((10 ^ n - 1) * (10 ^ n + 1))"
    using assms by (intro mult_mono) auto
  also have "(10 ^ n - 1) * (10 ^ n + 1) = 10 ^ (n + n) - (1::int)" by (simp add: power_add algebra_simps)
  also have "10 ^ a * (10 ^ (n + n) - 1) < (10::int) ^ (n + n + a)" by (simp add: power_add algebra_simps)
  finally show ?thesis by (simp add: ac_simps)
qed

lemma karatsuba_fits:
  fixes U0 U1 V0 V1 :: int
  assumes "n \<le> max ulen vlen" "2 * n \<le> max ulen vlen + 1"
    and "0 \<le> U1" "U1 < 10 ^ (ulen - n)" "0 \<le> V1" "V1 < 10 ^ (vlen - n)"
    and "0 \<le> U0" "U0 < 10 ^ min ulen n" "0 \<le> V0" "V0 < 10 ^ min vlen n"
  shows "U1 * V1 * 10 ^ (2 * n) + U1 * V1 * 10 ^ n + U0 * V0 * 10 ^ n + U0 * V0 < 10 ^ (ulen + vlen + 1)"
proof -
  have low: "U0 * V0 * (10 ^ n + 1) < 10 ^ (n + min ulen n + min vlen n)"
  proof (cases "n \<le> vlen")
    case True
    then have m: "min vlen n = n" by simp
    have e: "n + min ulen n + n = n + n + min ulen n" by simp
    show ?thesis using low_product_fits [of U0 "min ulen n" V0 n] assms(7-10) unfolding m e by simp
  next
    case False
    then have "n \<le> ulen" using assms(1) by linarith
    then have m: "min ulen n = n" by simp
    then show ?thesis using low_product_fits [of V0 "min vlen n" U0 n] assms(7-10) unfolding m by (simp add: mult.commute)
  qed
  show ?thesis
  proof (cases "U1 = 0 \<or> V1 = 0")
    case True
    have "n + min ulen n + min vlen n \<le> ulen + vlen + 1" using assms(1,2) by linarith
    then have "(10::int) ^ (n + min ulen n + min vlen n) \<le> 10 ^ (ulen + vlen + 1)" by (intro power_increasing) auto
    then show ?thesis using low True by (auto simp: algebra_simps)
  next
    case False
    then have "ulen - n \<noteq> 0" "vlen - n \<noteq> 0" using assms(3-6) by (auto intro: ccontr)
    then have n: "n < ulen" "n < vlen" by auto
    then have "n + min ulen n + min vlen n \<le> ulen + vlen" using assms(2) by linarith
    then have "(10::int) ^ (n + min ulen n + min vlen n) \<le> 10 ^ (ulen + vlen)" by (intro power_increasing) auto
    with low have l: "U0 * V0 * (10 ^ n + 1) < 10 ^ (ulen + vlen)" by linarith
    have "U1 * V1 < 10 ^ (ulen - n) * 10 ^ (vlen - n)" using assms(3-6) by (intro mult_strict_mono') auto
    then have "U1 * V1 * 10 ^ (2 * n) < 10 ^ (ulen - n) * 10 ^ (vlen - n) * 10 ^ (2 * n)" by simp
    also have "\<dots> = 10 ^ (ulen + vlen)" unfolding power_add [symmetric] using n by (intro arg_cong2 [where f = power]) auto
    finally have h: "U1 * V1 * 10 ^ (2 * n) < 10 ^ (ulen + vlen)" .
    have "U1 * V1 * 10 ^ n \<le> U1 * V1 * 10 ^ (2 * n)"
      using assms(3,5) by (intro mult_left_mono power_increasing) auto
    moreover have "0 < (10::int) ^ (ulen + vlen)" "(10::int) ^ (ulen + vlen + 1) = 10 * 10 ^ (ulen + vlen)" by simp_all
    moreover have "U0 * V0 * (10 ^ n + 1) = U0 * V0 * 10 ^ n + U0 * V0" by (simp add: algebra_simps)
    ultimately show ?thesis using h l by linarith
  qed
qed

text \<open>The five steps that put the product together.\<close>

lemma assemble_correct:
  assumes m1: "product_is m1 P1 (Suc l1)" "P1 < 10 ^ l1" "0 \<le> P1" "if zero1 then P1 = 0 else 2 * n + l1 \<le> len"
    and m3: "product_is m3 P3 (Suc l3)" "P3 < 10 ^ l3" "0 \<le> P3" "n + l3 \<le> len"
    and m2: "product_is m2 P2 (Suc l2)" "P2 < 10 ^ l2" "0 \<le> P2" "n + l2 \<le> len"
    and total: "T = P1 * 10 ^ (2 * n) + P1 * 10 ^ n + P3 * 10 ^ n + P3" "T < 10 ^ len"
    and result: "R = (if neg then T - P2 * 10 ^ n else T + P2 * 10 ^ n)" "0 \<le> R" "R < 10 ^ len"
  shows "\<exists>p. (do {
      prod \<leftarrow> Some (bc_new_num len 0);
      prod \<leftarrow> (if \<not> zero1 then do { prod \<leftarrow> bc_shift_addsub prod m1 (2 * n) False; bc_shift_addsub prod m1 n False } else Some prod);
      prod \<leftarrow> bc_shift_addsub prod m3 n False;
      prod \<leftarrow> bc_shift_addsub prod m3 0 False;
      bc_shift_addsub prod m2 n neg }) = Some p \<and> product_is p R len"
proof -
  have nonneg: "0 \<le> P1 * 10 ^ (2 * n)" "0 \<le> P1 * 10 ^ n" "0 \<le> P3 * 10 ^ n" using m1(3) m3(3) by auto
  have "\<exists>q. (if \<not> zero1 then do { prod \<leftarrow> bc_shift_addsub (bc_new_num len 0) m1 (2 * n) False; bc_shift_addsub prod m1 n False }
      else Some (bc_new_num len 0)) = Some q \<and> product_is q (P1 * 10 ^ (2 * n) + P1 * 10 ^ n) len"
  proof (cases zero1)
    case True
    then show ?thesis using m1(4) product_new by auto
  next
    case False
    then have "2 * n + l1 \<le> len" "n + l1 \<le> len" using m1(4) by auto
    moreover obtain q1 where q1: "bc_shift_addsub (bc_new_num len 0) m1 (2 * n) False = Some q1" "product_is q1 (P1 * 10 ^ (2 * n)) len"
      using addsub_correct [OF product_new m1(1,2), of "2 * n" len False] calculation nonneg total m3(3) by auto
    ultimately obtain q2 where "bc_shift_addsub q1 m1 n False = Some q2" "product_is q2 (P1 * 10 ^ (2 * n) + P1 * 10 ^ n) len"
      using addsub_correct [OF q1(2) m1(1,2), of n False] nonneg total m3(3) by auto
    then show ?thesis using False q1 by auto
  qed
  then obtain q where q: "(if \<not> zero1 then do { prod \<leftarrow> bc_shift_addsub (bc_new_num len 0) m1 (2 * n) False; bc_shift_addsub prod m1 n False }
      else Some (bc_new_num len 0)) = Some q" "product_is q (P1 * 10 ^ (2 * n) + P1 * 10 ^ n) len" by blast
  obtain q3 where q3: "bc_shift_addsub q m3 n False = Some q3" "product_is q3 (P1 * 10 ^ (2 * n) + P1 * 10 ^ n + P3 * 10 ^ n) len"
    using addsub_correct [OF q(2) m3(1,2), of n False] m3(3,4) nonneg total by auto
  obtain q4 where q4: "bc_shift_addsub q3 m3 0 False = Some q4" "product_is q4 T len"
    using addsub_correct [OF q3(2) m3(1,2), of 0 False] m3(3,4) nonneg total by auto
  obtain q5 where q5: "bc_shift_addsub q4 m2 n neg = Some q5" "product_is q5 R len"
    using addsub_correct [OF q4(2) m2(1,2), of n neg] m2(4) result by (auto split: if_splits)
  show ?thesis using q(1) q3(1) q4(1) q5 by (simp split del: if_split)
qed

lemma part_isD:
  assumes "part_is x v"
  shows "bc_ok x" "n_scale x = 0" "bc_mag x = v" "num_val x = of_int v" "digits_ok (n_value x)" "n_len x \<le> length (n_value x)"
    "mval (take (n_len x) (n_value x)) = v" "bc_norm x"
  using assms by (auto simp: part_is_def bc_norm_def bc_ok_def num_val_def bc_mag_def bc_digits_def)

lemma diff_is:
  assumes "part_is x X" "part_is y Y" "d = bc_sub x y 0"
  shows "bc_ok d" "n_scale d = 0" "(if n_sign d = PLUS then bc_mag d else - bc_mag d) = X - Y"
    "digits_ok (n_value d)" "n_len d \<le> length (n_value d)" "mval (take (n_len d) (n_value d)) = bc_mag d" "0 \<le> bc_mag d"
proof -
  have r: "result_is d (of_int (X - Y)) 0"
    using sub_correct [OF part_isD(8) [OF assms(1)] part_isD(8) [OF assms(2)], of 0] assms part_isD [OF assms(1)] part_isD [OF assms(2)]
    by simp
  then show ok: "bc_ok d" and s: "n_scale d = 0" by (auto simp: result_is_def)
  have "num_val d = of_int (if n_sign d = PLUS then bc_mag d else - bc_mag d)"
    by (simp add: num_val_def s sgn_val_def)
  with r have "rat_of_int (if n_sign d = PLUS then bc_mag d else - bc_mag d) = of_int (X - Y)"
    unfolding result_is_def by (simp only:)
  then show "(if n_sign d = PLUS then bc_mag d else - bc_mag d) = X - Y"
    unfolding of_int_eq_iff .
  show "digits_ok (n_value d)" "n_len d \<le> length (n_value d)" "mval (take (n_len d) (n_value d)) = bc_mag d"
    using ok s by (auto simp: bc_ok_def bc_mag_def bc_digits_def)
  show "0 \<le> bc_mag d" by (rule bc_mag_pos [OF ok])
qed

lemma rec_mul_correct:
  assumes "digits_ok (n_value u)" "digits_ok (n_value v)" "ulen \<le> length (n_value u)" "vlen \<le> length (n_value v)"
  shows "\<exists>p. bc_rec_mul u ulen v vlen = Some p \<and>
    product_is p (mval (take ulen (n_value u)) * mval (take vlen (n_value v))) (ulen + vlen + 1)"
  using assms
proof (induction u ulen v vlen rule: bc_rec_mul.induct)
  case (1 u ulen v vlen)
  show ?case
  proof (cases "ulen + vlen < mul_base_digits \<or> ulen < MUL_SMALL_DIGITS \<or> vlen < MUL_SMALL_DIGITS")
    case True
    then show ?thesis using simp_mul_correct [OF 1(4-7)] by (subst bc_rec_mul.simps) simp
  next
    case False
    define n where "n = (max ulen vlen + 1) div 2"
    have n: "1 \<le> n" "n \<le> max ulen vlen" "max ulen vlen \<le> 2 * n" "2 * n \<le> max ulen vlen + 1" "20 \<le> ulen" "20 \<le> vlen"
      using False by (auto simp: n_def mul_base_digits_def MUL_SMALL_DIGITS_def)
    obtain u1 u0 where su: "bc_split u ulen n = (u1, u0)" by fastforce
    obtain v1 v0 where sv: "bc_split v vlen n = (v1, v0)" by fastforce
    obtain U1 U0 where U: "mval (take ulen (n_value u)) = U1 * 10 ^ n + U0" "0 \<le> U1" "U1 < 10 ^ (ulen - n)"
      "0 \<le> U0" "U0 < 10 ^ min ulen n" "part_is u1 U1" "part_is u0 U0" using split_correct [OF su 1(4,6)] by blast
    obtain V1 V0 where V: "mval (take vlen (n_value v)) = V1 * 10 ^ n + V0" "0 \<le> V1" "V1 < 10 ^ (vlen - n)"
      "0 \<le> V0" "V0 < 10 ^ min vlen n" "part_is v1 V1" "part_is v0 V0" using split_correct [OF sv 1(5,7)] by blast
    define d1 d2 where "d1 = bc_sub u1 u0 0" and "d2 = bc_sub v0 v1 0"
    note pu1 = part_isD [OF U(6)] and pu0 = part_isD [OF U(7)] and pv1 = part_isD [OF V(6)] and pv0 = part_isD [OF V(7)]
    note pd1 = diff_is [OF U(6,7) d1_def] and pd2 = diff_is [OF V(7,6) d2_def]
    note lu = split_len [OF su n(1)] and lv = split_len [OF sv n(1)]
    note ctx = False n_def refl su [symmetric] refl sv [symmetric] refl d1_def d2_def
    let ?zero = "bc_is_zero u1 \<or> bc_is_zero v1"
    let ?f1 = "bc_rec_mul u1 (n_len u1) v1 (n_len v1)" and ?f2 = "bc_rec_mul d1 (n_len d1) d2 (n_len d2)"
      and ?f3 = "bc_rec_mul u0 (n_len u0) v0 (n_len v0)"
    have "\<exists>p. ?f1 = Some p \<and> product_is p (bc_mag u1 * bc_mag v1) (n_len u1 + n_len v1 + 1)" if "\<not> ?zero"
      using 1(1) [OF ctx that] pu1 pv1 by simp
    from sub_product [OF pu1(1) pv1(1) pu1(2) pv1(2) this] obtain m1 l1 where m1: "(if ?zero then Some BCG_zero else ?f1) = Some m1"
      "product_is m1 (U1 * V1) (Suc l1)" "U1 * V1 < 10 ^ l1" "if ?zero then l1 = 0 else l1 = n_len u1 + n_len v1"
      unfolding pu1(3) pv1(3) by blast
    have "\<exists>p. ?f2 = Some p \<and> product_is p (bc_mag d1 * bc_mag d2) (n_len d1 + n_len d2 + 1)" if "\<not> (bc_is_zero d1 \<or> bc_is_zero d2)"
      using 1(2) [OF ctx m1(1) that] pd1 pd2 by simp
    from sub_product [OF pd1(1) pd2(1) pd1(2) pd2(2) this] obtain m2 l2
      where m2: "(if bc_is_zero d1 \<or> bc_is_zero d2 then Some BCG_zero else ?f2) = Some m2"
      "product_is m2 (bc_mag d1 * bc_mag d2) (Suc l2)" "bc_mag d1 * bc_mag d2 < 10 ^ l2"
      "if bc_is_zero d1 \<or> bc_is_zero d2 then l2 = 0 else l2 = n_len d1 + n_len d2" by blast
    have "\<exists>p. ?f3 = Some p \<and> product_is p (bc_mag u0 * bc_mag v0) (n_len u0 + n_len v0 + 1)" if "\<not> (bc_is_zero u0 \<or> bc_is_zero v0)"
      using 1(3) [OF ctx m1(1) m2(1) that] pu0 pv0 by simp
    from sub_product [OF pu0(1) pv0(1) pu0(2) pv0(2) this] obtain m3 l3
      where m3: "(if bc_is_zero u0 \<or> bc_is_zero v0 then Some BCG_zero else ?f3) = Some m3"
      "product_is m3 (U0 * V0) (Suc l3)" "U0 * V0 < 10 ^ l3"
      "if bc_is_zero u0 \<or> bc_is_zero v0 then l3 = 0 else l3 = n_len u0 + n_len v0" unfolding pu0(3) pv0(3) by blast
    let ?T = "U1 * V1 * 10 ^ (2 * n) + U1 * V1 * 10 ^ n + U0 * V0 * 10 ^ n + U0 * V0"
    let ?neg = "n_sign d1 \<noteq> n_sign d2" and ?R = "(U1 * 10 ^ n + U0) * (V1 * 10 ^ n + V0)"
    have z1: "if ?zero then U1 * V1 = 0 else 2 * n + l1 \<le> ulen + vlen + 1"
    proof (cases ?zero)
      case True
      then show ?thesis using is_zero_iff pu1 pv1 by auto
    next
      case False
      then have "U1 \<noteq> 0" "V1 \<noteq> 0" using is_zero_iff pu1 pv1 by auto
      then have "ulen - n \<noteq> 0" "vlen - n \<noteq> 0" using U(2,3) V(2,3) by (auto intro: ccontr)
      then show ?thesis using m1(4) False lu(1) lv(1) by simp
    qed
    have parts: "n_len u1 \<le> min ulen n" "n_len v1 \<le> min vlen n" using lu(1) lv(1) n by linarith+
    have "n_len d1 \<le> max 1 (max (n_len u1) (n_len u0))" "n_len d2 \<le> max 1 (max (n_len v0) (n_len v1))"
      unfolding d1_def d2_def by (rule sub_len_plus; simp add: lu lv)+
    then have "n_len d1 \<le> min ulen n" "n_len d2 \<le> min vlen n" using parts lu(2) lv(2) n(1,5,6) by linarith+
    then have z23: "n + l2 \<le> ulen + vlen + 1" "n + l3 \<le> ulen + vlen + 1"
      using m2(4) m3(4) lu(2) lv(2) n(2,4) by (auto split: if_splits)
    have "0 \<le> U1 * 10 ^ n + U0" "0 \<le> V1 * 10 ^ n + V0"
      "U1 * 10 ^ n + U0 < 10 ^ ulen" "V1 * 10 ^ n + V0 < 10 ^ vlen"
      using mval_bounds [of "take ulen (n_value u)"] mval_bounds [of "take vlen (n_value v)"] 1(4-7) U(1) V(1) by (auto simp: min_absorb2)
    then have R: "0 \<le> ?R" "?R < 10 ^ ulen * 10 ^ vlen" by (auto intro: mult_strict_mono')
    moreover have "(10::int) ^ ulen * 10 ^ vlen \<le> 10 ^ (ulen + vlen + 1)"
      unfolding power_add [symmetric] by (intro power_increasing) auto
    ultimately have R': "?R < 10 ^ (ulen + vlen + 1)" by linarith
    have c: "(U1 - U0) * (V0 - V1) = (if ?neg then - (bc_mag d1 * bc_mag d2) else bc_mag d1 * bc_mag d2)"
      unfolding pd1(3) [symmetric] pd2(3) [symmetric] by (cases "n_sign d1"; cases "n_sign d2") auto
    have e: "?R = ?T + (U1 - U0) * (V0 - V1) * 10 ^ n" by (simp add: algebra_simps mult_2_right power_add)
    have RT: "?R = (if ?neg then ?T - bc_mag d1 * bc_mag d2 * 10 ^ n else ?T + bc_mag d1 * bc_mag d2 * 10 ^ n)"
      unfolding e c by simp
    have "0 \<le> U1 * V1" "0 \<le> U0 * V0" "0 \<le> bc_mag d1 * bc_mag d2" using U V pd1(7) pd2(7) by auto
    from assemble_correct [OF m1(2,3) this(1) z1 m3(2,3) this(2) z23(2) m2(2,3) this(3) z23(1) refl
        karatsuba_fits [OF n(2,4) U(2,3) V(2,3) U(4,5) V(4,5)] RT R(1) R']
    show ?thesis
      unfolding U(1) V(1) using False m1(1) m2(1) [unfolded d1_def d2_def] m3(1) unfolding d1_def d2_def
      by (subst bc_rec_mul.simps) (simp add: Let_def n_def [symmetric, simplified] su sv split del: if_split)
  qed
qed

subsection \<open>The product of two numbers\<close>

definition prod_scale :: "bc_num \<Rightarrow> bc_num \<Rightarrow> nat \<Rightarrow> nat" where
  "prod_scale n1 n2 scale = min (n_scale n1 + n_scale n2) (max scale (max (n_scale n1) (n_scale n2)))"

lemma multiply_correct:
  assumes "bc_ok n1" "bc_ok n2"
  shows "\<exists>p. bc_multiply n1 n2 scale = Some p \<and> proper_sign p \<and>
    result_is p (bc_trunc (num_val n1 * num_val n2) (prod_scale n1 n2 scale)) (prod_scale n1 n2 scale)"
proof -
  define len where "len = n_len n2 + n_scale n2 + (n_len n1 + n_scale n1) + 1"
  define full where "full = n_scale n1 + n_scale n2"
  define ps where "ps = prod_scale n1 n2 scale"
  have ps: "ps \<le> full" "full < len" by (auto simp: ps_def prod_scale_def full_def len_def)
  obtain q where q: "bc_rec_mul n1 (n_len n1 + n_scale n1) n2 (n_len n2 + n_scale n2) = Some q"
    "product_is q (bc_mag n1 * bc_mag n2) len"
    using rec_mul_correct [of n1 n2 "n_len n1 + n_scale n1" "n_len n2 + n_scale n2"] assms
    by (auto simp: bc_ok_def bc_mag_def bc_digits_def len_def ac_simps)
  define s where "s = (if n_sign n1 = n_sign n2 then PLUS else MINUS)"
  define whole where "whole = q\<lparr>n_sign := s, n_len := len - full, n_scale := full\<rparr>"
  define cut where "cut = whole\<lparr>n_scale := ps\<rparr>"
  have wok: "bc_ok whole" "n_scale whole = full" "bc_mag whole = bc_mag n1 * bc_mag n2"
    using q(2) ps by (auto simp: whole_def product_is_def bc_ok_def bc_mag_def bc_digits_def)
  have "num_val whole = num_val n1 * num_val n2"
    unfolding num_val_def wok(2,3) by (simp add: whole_def s_def full_def power_add sgn_val_mult)
  then have cv: "bc_ok cut" "num_val cut = bc_trunc (num_val n1 * num_val n2) ps"
    using cut_scale [OF wok(1), of ps] ps wok(2) by (simp_all add: cut_def)
  have ce: "cut = q\<lparr>n_sign := s, n_len := len - full, n_scale := ps\<rparr>" by (simp add: cut_def whole_def)
  let ?r = "bc_rm_leading_zeros cut"
  have "1 \<le> n_len cut" "n_scale cut = ps" using ps by (simp_all add: ce)
  then have r: "bc_canonical ?r" "bc_ok ?r" "num_val ?r = num_val cut" "n_scale ?r = ps"
    using rm_leading_zeros_canonical [OF cv(1)] rm_leading_zeros_val [OF cv(1)] by simp_all
  let ?p = "if bc_is_zero ?r then ?r\<lparr>n_sign := PLUS\<rparr> else ?r"
  have "bc_multiply n1 n2 scale = Some ?p"
    unfolding bc_multiply_def Let_def q(1) ce s_def len_def full_def ps_def prod_scale_def by simp
  moreover have "bc_canonical ?p" using r(1) by (simp add: bc_canonical_def bc_ok_def stripped_def)
  ultimately show ?thesis
    using plus_zero [OF r(2)] r(3,4) cv(2) by (auto simp: result_is_def ps_def)
qed

text \<open>Products whose scale is not cut are exact.\<close>

lemma multiply_exact:
  assumes "bc_ok n1" "bc_ok n2" "n_scale n1 + n_scale n2 \<le> max scale (max (n_scale n1) (n_scale n2))"
  shows "\<exists>p. bc_multiply n1 n2 scale = Some p \<and> proper_sign p \<and> result_is p (num_val n1 * num_val n2) (n_scale n1 + n_scale n2)"
proof -
  let ?k = "n_scale n1 + n_scale n2" and ?s = "if n_sign n1 = n_sign n2 then PLUS else MINUS"
  have k: "prod_scale n1 n2 scale = ?k" using assms(3) by (simp add: prod_scale_def)
  have v: "num_val n1 * num_val n2 = sgn_val ?s * (of_int (bc_mag n1 * bc_mag n2) / 10 ^ (?k + 0))"
    by (simp add: num_val_def sgn_val_mult power_add)
  have "bc_trunc (num_val n1 * num_val n2) ?k = num_val n1 * num_val n2"
    unfolding v using trunc_signed [of "bc_mag n1 * bc_mag n2" ?s ?k 0] bc_mag_pos assms(1,2) by simp
  then show ?thesis using multiply_correct [OF assms(1,2), of scale] unfolding k by simp
qed

end
