(* ===== verification/BcDiv.thy ===== *)
theory BcDiv
  imports BcMul
begin

text \<open>
  Division (\<open>div.c\<close>), by the normalised long division of Knuth, and division with remainder
  (\<open>divmod.c\<close>). The buffers \<open>num1\<close>, \<open>num2\<close> and \<open>qval->n_value\<close> are lists; an access outside one is \<open>None\<close>.
  The lengths of \<open>bc_divide\<close> are \<open>unsigned int\<close> and its scales \<open>int\<close>; a value that leaves its type is
  \<open>None\<close> as well.
\<close>

definition INT_MAX :: int where "INT_MAX = 2 ^ 31 - 1"
definition UINT_MAX :: int where "UINT_MAX = 2 ^ 32 - 1"

definition fits_int :: "int \<Rightarrow> bool" where "fits_int x \<longleftrightarrow> - INT_MAX - 1 \<le> x \<and> x \<le> INT_MAX"
definition fits_uint :: "int \<Rightarrow> bool" where "fits_uint x \<longleftrightarrow> 0 \<le> x \<and> x \<le> UINT_MAX"

text \<open>The loop of \<open>_one_mult\<close> on the reversed digits, and its digits with the carry written before them.\<close>

fun one_mult_loop :: "int list \<Rightarrow> int \<Rightarrow> int \<Rightarrow> int list \<times> int" where
  "one_mult_loop (d # nptr) digit carry =
     (let value = d * digit + carry; (out, carry) = one_mult_loop nptr digit (value div BASE)
      in (value mod BASE # out, carry))"
| "one_mult_loop [] digit carry = ([], carry)"

definition one_mult :: "int list \<Rightarrow> int \<Rightarrow> int \<times> int list" where
  "one_mult num digit =
     (if digit = 0 then (0, replicate (length num) 0)
      else if digit = 1 then (0, num)
      else (let (out, carry) = one_mult_loop (rev num) digit 0 in (carry, rev out)))"

text \<open>\<open>while (*n2ptr == 0) { n2ptr++; len2--; }\<close>\<close>

fun skip_leading :: "int list \<Rightarrow> nat \<Rightarrow> int list \<times> nat" where
  "skip_leading (d # n2ptr) len2 = (if d = 0 then skip_leading n2ptr (len2 - 1) else (d # n2ptr, len2))"
| "skip_leading [] len2 = ([], len2)"

text \<open>The guess of a quotient digit and its two tests.\<close>

definition guess_too_big :: "int list \<Rightarrow> int list \<Rightarrow> nat \<Rightarrow> int \<Rightarrow> bool" where
  "guess_too_big n2ptr num1 qdig qguess \<longleftrightarrow>
     n2ptr ! 1 * qguess > (num1 ! qdig * 10 + num1 ! (qdig + 1) - n2ptr ! 0 * qguess) * 10 + num1 ! (qdig + 2)"

definition guess_digit :: "int list \<Rightarrow> int list \<Rightarrow> nat \<Rightarrow> int" where
  "guess_digit n2ptr num1 qdig =
     (let qguess = (if n2ptr ! 0 = num1 ! qdig then 9 else (num1 ! qdig * 10 + num1 ! (qdig + 1)) div n2ptr ! 0)
      in if guess_too_big n2ptr num1 qdig qguess
         then (let qguess = qguess - 1 in if guess_too_big n2ptr num1 qdig qguess then qguess - 1 else qguess)
         else qguess)"

text \<open>Multiply and subtract, on the \<open>len2 + 1\<close> digits from \<open>qdig\<close> on.\<close>

definition divide_sub :: "int list \<Rightarrow> nat \<Rightarrow> int list \<Rightarrow> int \<Rightarrow> int list \<times> int" where
  "divide_sub n2ptr len2 window qguess =
     (if qguess \<noteq> 0 then
        (let (carry, product) = one_mult (take len2 n2ptr) qguess;
             mval = carry # product;
             (out, borrow, _) = sub_both (len2 + 1) (rev window) (rev mval) 0
         in (rev out, borrow))
      else (window, 0))"

definition divide_add_back :: "int list \<Rightarrow> nat \<Rightarrow> int list \<Rightarrow> int list" where
  "divide_add_back n2ptr len2 window =
     (let (out, carry, _, _) = add_both (rev (tl window)) (rev (take len2 n2ptr)) 0;
          top = (if carry = 1 then (hd window + 1) mod 10 else hd window)
      in top # rev out)"

definition divide_step :: "int list \<Rightarrow> nat \<Rightarrow> nat \<Rightarrow> int list \<times> int list \<Rightarrow> int list \<times> int list" where
  "divide_step n2ptr len2 qdig = (\<lambda>(num1, qs).
     (let qguess = guess_digit n2ptr num1 qdig;
          window = take (len2 + 1) (drop qdig num1);
          (window, borrow) = divide_sub n2ptr len2 window qguess;
          (window, qguess) = (if borrow = 1 then (divide_add_back n2ptr len2 window, qguess - 1) else (window, qguess))
      in (take qdig num1 @ window @ drop (qdig + (len2 + 1)) num1, qs @ [qguess])))"

text \<open>The normalisation: both buffers times \<open>norm\<close>.\<close>

definition scale_digits :: "int list \<Rightarrow> nat \<Rightarrow> int \<Rightarrow> int list option" where
  "scale_digits num len factor =
     (if factor \<noteq> 1 then
        (let (carry, ds) = one_mult (take len num) factor in if carry \<noteq> 0 then None else Some (ds @ drop len num))
      else Some num)"

text \<open>\<open>*qptr++ = ...\<close> into the digits of the quotient, from \<open>pos\<close> on.\<close>

definition store_digits :: "int list \<Rightarrow> nat \<Rightarrow> int list \<Rightarrow> int list option" where
  "store_digits buf pos ds = (if pos + length ds \<le> length buf then Some (take pos buf @ ds @ drop (pos + length ds) buf) else None)"

text \<open>
  The general case: normalise by \<open>norm\<close>, then one step for each digit of the quotient. The last step is the
  one of \<open>qdig = len1 + scale - len2\<close>: it reads and writes up to \<open>num1[qdig + len2]\<close> and reads \<open>num1[qdig + 2]\<close>
  and \<open>n2ptr[1]\<close>.
\<close>

definition divide_in_bounds :: "int list \<Rightarrow> int list \<Rightarrow> nat \<Rightarrow> nat \<Rightarrow> nat \<Rightarrow> bool" where
  "divide_in_bounds num1 n2ptr len2 numlen qdig \<longleftrightarrow>
     numlen \<le> length num1 \<and> len2 \<le> length n2ptr \<and> 1 < length n2ptr \<and> qdig + len2 < length num1 \<and> qdig + 2 < length num1"

definition divide_general :: "int list \<Rightarrow> int list \<Rightarrow> nat \<Rightarrow> nat \<Rightarrow> nat \<Rightarrow> nat \<Rightarrow> bc_num \<Rightarrow> bc_num option" where
  "divide_general num1 n2ptr len1 len2 scale numlen qval =
     (let norm = 10 div (n2ptr ! 0 + 1)
      in if \<not> divide_in_bounds num1 n2ptr len2 numlen (len1 + scale - len2) then None
         else do {
           num1 \<leftarrow> scale_digits num1 numlen norm;
           n2ptr \<leftarrow> scale_digits n2ptr len2 norm;
           (let (num1, qs) = fold (divide_step n2ptr len2) [0..<len1 + scale - len2 + 1] (num1, [])
            in do {
              value \<leftarrow> store_digits (n_value qval) (if len2 > len1 then len2 - len1 else 0) qs;
              Some (qval\<lparr>n_value := value\<rparr>) }) })"

text \<open>
  The shortcut for a divisor of one stores a quotient and goes on; the store at the end replaces it,
  so it has no part in the result. \<open>Some None\<close> is the answer \<open>false\<close>.
\<close>

definition divide_widths :: "bc_num \<Rightarrow> bc_num \<Rightarrow> nat \<Rightarrow> nat \<Rightarrow> int \<Rightarrow> nat \<Rightarrow> nat \<Rightarrow> nat \<Rightarrow> nat \<Rightarrow> bool" where
  "divide_widths n1 n2 scale len1 scale1 extra digits2 len2 qdigits \<longleftrightarrow>
     fits_int (int scale) \<and> fits_uint (int (n_scale n2)) \<and> fits_uint (int len1) \<and> fits_int scale1 \<and>
     fits_int (int scale - scale1) \<and> fits_uint (int extra + 2) \<and> fits_uint (int digits2) \<and>
     fits_uint (int len1 + int scale) \<and> fits_uint (int len1 + scale1 + int extra + 1) \<and>
     (len2 > len1 \<longrightarrow> fits_int (int scale + 1)) \<and> fits_uint (int qdigits)"

definition bc_divide :: "bc_num \<Rightarrow> bc_num \<Rightarrow> nat \<Rightarrow> bc_num option option" where
  "bc_divide n1 n2 scale =
     (if bc_is_zero n2 then Some None
      else (let scale2 = skip_zeros (rev (bc_digits n2)) (n_scale n2);
                len1 = n_len n1 + scale2;
                scale1 = int (n_scale n1) - int scale2;
                extra = nat (max (int scale - scale1) 0);
                num1 = 0 # bc_digits n1 @ replicate (extra + 1) 0;
                num2 = take (n_len n2 + scale2) (n_value n2) @ [0];
                (n2ptr, len2) = skip_leading num2 (n_len n2 + scale2);
                zero = (len2 > len1 + scale);
                qdigits = (if len2 > len1 then scale + 1 else len1 - len2 + scale + 1);
                qval = bc_new_num (qdigits - scale) scale
            in if \<not> divide_widths n1 n2 scale len1 scale1 extra (n_len n2 + scale2) len2 qdigits then None
            else do {
              qval \<leftarrow> (if \<not> zero then divide_general num1 n2ptr len1 len2 scale (nat (int len1 + scale1 + int extra + 1)) qval
                      else Some qval);
              (let qval = qval\<lparr>n_sign := (if n_sign n1 = n_sign n2 then PLUS else MINUS)\<rparr>;
                   qval = (if bc_is_zero qval then qval\<lparr>n_sign := PLUS\<rparr> else qval)
               in Some (Some (bc_rm_leading_zeros qval))) }))"

text \<open>\<open>None\<close> is the answer \<open>false\<close> for a zero divisor; the quotient is stored when it is asked for.\<close>

definition bc_divmod :: "bc_num \<Rightarrow> bc_num \<Rightarrow> nat \<Rightarrow> (bc_num \<times> bc_num) option option" where
  "bc_divmod num1 num2 scale =
     (if bc_is_zero num2 then Some None
      else (let rscale = max (n_scale num1) (n_scale num2 + scale) in do {
              q \<leftarrow> bc_divide num1 num2 0;
              (case q of None \<Rightarrow> None
               | Some quot \<Rightarrow> do {
                   temp \<leftarrow> bc_multiply quot num2 rscale;
                   Some (Some (quot, bc_sub num1 temp rscale)) }) }))"

definition bc_modulo :: "bc_num \<Rightarrow> bc_num \<Rightarrow> nat \<Rightarrow> bc_num option option" where
  "bc_modulo num1 num2 scale = map_option (map_option snd) (bc_divmod num1 num2 scale)"

subsection \<open>One digit times a number\<close>

lemma one_mult_loop_correct:
  assumes "one_mult_loop r digit c = (out, c')" "digits_ok r" "0 \<le> digit" "digit < 10" "0 \<le> c" "c < 10"
  shows "lval out + 10 ^ length out * c' = lval r * digit + c \<and> digits_ok out \<and> length out = length r \<and> 0 \<le> c' \<and> c' < 10"
  using assms
proof (induction r arbitrary: c out c')
  case (Cons d r)
  define v where "v = d * digit + c"
  obtain out' where rec: "one_mult_loop r digit (v div 10) = (out', c')" "out = v mod 10 # out'"
    using Cons(2) by (auto simp: v_def BASE_def Let_def split: prod.splits)
  have "d * digit \<le> 9 * 9" using Cons(3-5) by (intro mult_mono) auto
  then have v: "0 \<le> v" "v < 100" using Cons(3-7) by (auto simp: v_def)
  have IH: "lval out' + 10 ^ length out' * c' = lval r * digit + v div 10 \<and> digits_ok out' \<and> length out' = length r \<and> 0 \<le> c' \<and> c' < 10"
    by (rule Cons(1) [OF rec(1)]) (use Cons v in auto)
  have "lval out + 10 ^ length out * c' = v mod 10 + 10 * (lval out' + 10 ^ length out' * c')"
    unfolding rec(2) by (simp add: algebra_simps)
  also have "lval out' + 10 ^ length out' * c' = lval r * digit + v div 10" using IH by blast
  also have "v mod 10 + 10 * (lval r * digit + v div 10) = v mod 10 + 10 * (v div 10) + 10 * (lval r * digit)" by simp
  also have "v mod 10 + 10 * (v div 10) = v" by simp
  finally show ?case using IH rec(2) by (auto simp: v_def algebra_simps)
qed auto

lemma one_mult_correct:
  assumes "one_mult num digit = (c, ds)" "digits_ok num" "0 \<le> digit" "digit < 10"
  shows "c * 10 ^ length num + mval ds = mval num * digit" "digits_ok ds" "length ds = length num" "0 \<le> c" "c < 10"
proof -
  have "c * 10 ^ length num + mval ds = mval num * digit \<and> digits_ok ds \<and> length ds = length num \<and> 0 \<le> c \<and> c < 10"
  proof (cases "digit = 0 \<or> digit = 1")
    case True
    then show ?thesis using assms by (auto simp: one_mult_def)
  next
    case False
    then obtain out where "one_mult_loop (rev num) digit 0 = (out, c)" "ds = rev out"
      using assms(1) by (auto simp: one_mult_def split: prod.splits)
    then show ?thesis using one_mult_loop_correct [of "rev num" digit 0 out c] assms(2-4) by (auto simp: mval_def mult.commute)
  qed
  then show "c * 10 ^ length num + mval ds = mval num * digit" "digits_ok ds" "length ds = length num" "0 \<le> c" "c < 10" by auto
qed

lemma skip_leading_spec:
  "skip_leading ds n = (es, m) \<Longrightarrow> \<exists>k. ds = replicate k 0 @ es \<and> m = n - k \<and> (es = [] \<or> es ! 0 \<noteq> 0)"
proof (induction ds n rule: skip_leading.induct)
  case (1 d ds n)
  show ?case
  proof (cases "d = 0")
    case True
    then obtain k where "ds = replicate k 0 @ es \<and> m = n - 1 - k \<and> (es = [] \<or> es ! 0 \<noteq> 0)" using 1 by auto
    then show ?thesis using True by (intro exI [of _ "Suc k"]) auto
  next
    case False
    then show ?thesis using 1(2) by (intro exI [of _ 0]) auto
  qed
qed auto

subsection \<open>The guess\<close>

text \<open>
  The quotient digit \<open>w div V\<close> for a window \<open>w\<close> whose first three digits are \<open>a b c\<close> and a normalised
  divisor \<open>V\<close> whose first two are \<open>v0 v1\<close>: the guess is it, or one more.
\<close>

definition guess_window :: "int \<Rightarrow> int \<Rightarrow> int \<Rightarrow> int \<Rightarrow> int \<Rightarrow> int \<Rightarrow> int \<Rightarrow> int \<Rightarrow> bool" where
  "guess_window a b c v0 v1 w V B \<longleftrightarrow>
     (100 * a + 10 * b + c) * B \<le> w \<and> w < (100 * a + 10 * b + c + 1) * B \<and>
     (10 * v0 + v1) * B \<le> V \<and> V < (10 * v0 + v1 + 1) * B \<and>
     0 \<le> a \<and> 0 \<le> b \<and> b < 10 \<and> 0 \<le> c \<and> c < 10 \<and> 0 \<le> v1 \<and> v1 < 10 \<and> v0 < 10 \<and>
     5 \<le> v0 \<and> w < 10 * V \<and> 0 < B"

lemma guess_windowD:
  assumes "guess_window a b c v0 v1 w V B"
  shows "(100 * a + 10 * b + c) * B \<le> w" "w < (100 * a + 10 * b + c + 1) * B" "(10 * v0 + v1) * B \<le> V" "V < (10 * v0 + v1 + 1) * B"
    "0 \<le> a" "0 \<le> b" "b < 10" "0 \<le> c" "c < 10" "0 \<le> v1" "v1 < 10" "v0 < 10" "5 \<le> v0" "w < 10 * V" "0 < B" "0 \<le> w" "0 < V"
proof -
  show F: "(100 * a + 10 * b + c) * B \<le> w" "w < (100 * a + 10 * b + c + 1) * B" "(10 * v0 + v1) * B \<le> V" "V < (10 * v0 + v1 + 1) * B"
    "0 \<le> a" "0 \<le> b" "b < 10" "0 \<le> c" "c < 10" "0 \<le> v1" "v1 < 10" "v0 < 10" "5 \<le> v0" "w < 10 * V" "0 < B"
    using assms by (simp_all add: guess_window_def)
  have "0 \<le> (100 * a + 10 * b + c) * B" "0 < (10 * v0 + v1) * B" using F by simp_all
  then show "0 \<le> w" "0 < V" using F(1,3) by linarith+
qed

definition first_guess :: "int \<Rightarrow> int \<Rightarrow> int \<Rightarrow> int" where
  "first_guess a b v0 = (if v0 = a then 9 else (a * 10 + b) div v0)"

definition too_big :: "int \<Rightarrow> int \<Rightarrow> int \<Rightarrow> int \<Rightarrow> int \<Rightarrow> int \<Rightarrow> bool" where
  "too_big a b c v0 v1 q \<longleftrightarrow> v1 * q > (a * 10 + b - v0 * q) * 10 + c"

lemma quotient_bounds:
  fixes w V q :: int
  assumes "0 < V"
  shows "q \<le> w div V \<longleftrightarrow> q * V \<le> w" "w div V < q \<longleftrightarrow> w < q * V"
proof -
  have w: "w div V * V \<le> w" "w < (w div V + 1) * V"
    unfolding distrib_right using pos_mod_bound [OF assms, of w] pos_mod_sign [OF assms, of w] div_mult_mod_eq [of w V] by linarith+
  have "q * V \<le> w" if "q \<le> w div V" using mult_right_mono [OF that, of V] assms w(1) by linarith
  moreover have "w < q * V" if "w div V < q" using mult_right_mono [of "w div V + 1" q V] assms w(2) that by linarith
  ultimately show "q \<le> w div V \<longleftrightarrow> q * V \<le> w" "w div V < q \<longleftrightarrow> w < q * V" by force+
qed

lemma too_big_iff: "too_big a b c v0 v1 q \<longleftrightarrow> 100 * a + 10 * b + c < q * (10 * v0 + v1)"
  by (auto simp: too_big_def algebra_simps)

lemma guess_a_le:
  assumes "guess_window a b c v0 v1 w V B"
  shows "a \<le> v0"
proof (rule ccontr)
  note F = guess_windowD [OF assms]
  assume "\<not> a \<le> v0"
  then have "10 * (10 * v0 + v1 + 1) \<le> 100 * a + 10 * b + c" using F(6,8,11) by (simp add: distrib_left)
  then have "10 * (10 * v0 + v1 + 1) * B \<le> (100 * a + 10 * b + c) * B" using F(15) by (intro mult_right_mono) auto
  then show False using F(1,4,14) by linarith
qed

lemma first_guess_range:
  assumes "guess_window a b c v0 v1 w V B"
  shows "0 \<le> first_guess a b v0" "first_guess a b v0 \<le> 9" "first_guess a b v0 * v0 \<le> 10 * a + b"
proof -
  note F = guess_windowD [OF assms] and le = guess_a_le [OF assms]
  have v0: "0 < v0" using F(13) by simp
  note d = quotient_bounds [OF v0, where w = "a * 10 + b"]
  show "0 \<le> first_guess a b v0" using d(1) [of 0] F(5,6) by (simp add: first_guess_def)
  have "v0 \<noteq> a \<Longrightarrow> a * 10 + b < 10 * v0" using le F(7) by linarith
  then show "first_guess a b v0 \<le> 9" using d(2) [of 10] by (auto simp: first_guess_def)
  show "first_guess a b v0 * v0 \<le> 10 * a + b"
    using d(1) [of "(a * 10 + b) div v0"] F(5,6) by (auto simp: first_guess_def algebra_simps)
qed

text \<open>A guess that is too big is above the digit; one that is not is at most one above it.\<close>

lemma too_big_above:
  assumes "guess_window a b c v0 v1 w V B" "too_big a b c v0 v1 q" "0 \<le> q"
  shows "w div V < q"
proof -
  note F = guess_windowD [OF assms(1)]
  have "100 * a + 10 * b + c + 1 \<le> q * (10 * v0 + v1)" using assms(2) too_big_iff by auto
  then have "(100 * a + 10 * b + c + 1) * B \<le> q * (10 * v0 + v1) * B" using F(15) by (intro mult_right_mono) auto
  moreover have "q * ((10 * v0 + v1) * B) \<le> q * V" using F(3) assms(3) by (intro mult_left_mono) auto
  ultimately have "w < q * V" using F(2) unfolding mult.assoc by linarith
  then show ?thesis using quotient_bounds(2) [OF F(17)] by simp
qed

lemma not_too_big_close:
  assumes "guess_window a b c v0 v1 w V B" "\<not> too_big a b c v0 v1 q" "0 \<le> q" "q \<le> 9"
  shows "q \<le> w div V + 1"
proof -
  note F = guess_windowD [OF assms(1)]
  have "q * (10 * v0 + v1) \<le> 100 * a + 10 * b + c" using assms(2) too_big_iff by auto
  then have "q * (10 * v0 + v1) * B \<le> (100 * a + 10 * b + c) * B" using F(15) by (intro mult_right_mono) auto
  then have "q * ((10 * v0 + v1) * B) \<le> w" using F(1) unfolding mult.assoc by linarith
  moreover have "q * V \<le> q * ((10 * v0 + v1 + 1) * B)" using F(4) assms(3) by (intro mult_left_mono) auto
  moreover have "q * ((10 * v0 + v1 + 1) * B) = q * ((10 * v0 + v1) * B) + q * B" by (simp add: algebra_simps)
  moreover have "q * B \<le> 9 * B" using assms(4) F(15) by (intro mult_right_mono) auto
  moreover have "50 * B \<le> (10 * v0 + v1) * B" using F(10,13,15) by (intro mult_right_mono) auto
  ultimately have "q * V < w + V" using F(3,15) by linarith
  then have "(q - 1) * V \<le> w" by (simp add: left_diff_distrib)
  then show ?thesis using quotient_bounds(1) [OF F(17), of "q - 1" w] by simp
qed

lemma digit_le_guess:
  assumes "guess_window a b c v0 v1 w V B"
  shows "0 \<le> w div V" "w div V \<le> first_guess a b v0"
proof -
  note F = guess_windowD [OF assms]
  let ?q = "w div V"
  show q0: "0 \<le> ?q" using quotient_bounds(1) [OF F(17), of 0] F(16) by simp
  show "?q \<le> first_guess a b v0"
  proof (cases "v0 = a")
    case True
    then show ?thesis using quotient_bounds(2) [OF F(17), of w 10] F(14) by (simp add: first_guess_def)
  next
    case False
    have "0 \<le> v1 * B" using F(10,15) by simp
    then have "10 * v0 * B \<le> V" using F(3) by (simp add: distrib_right)
    then have "?q * (10 * v0 * B) \<le> ?q * V" using q0 by (intro mult_left_mono) auto
    also have "\<dots> \<le> w" using quotient_bounds(1) [OF F(17), of ?q w] by simp
    also have "w < (100 * a + 10 * b + c + 1) * B" by (rule F(2))
    also have "\<dots> \<le> (10 * a + b + 1) * 10 * B" using F(9,15) by (intro mult_right_mono) auto
    finally have "?q * v0 * (10 * B) < (10 * a + b + 1) * (10 * B)" by (simp add: ac_simps)
    moreover have "0 < 10 * B" using F(15) by simp
    ultimately have "?q * v0 < 10 * a + b + 1" by (simp only: mult_less_cancel_right_pos)
    then show ?thesis using False quotient_bounds(1) [of v0 ?q "a * 10 + b"] F(13) by (simp add: first_guess_def)
  qed
qed

lemma guess_le:
  assumes "guess_window a b c v0 v1 w V B"
  shows "first_guess a b v0 \<le> w div V + 2"
proof (rule ccontr)
  note F = guess_windowD [OF assms] and R = first_guess_range [OF assms]
  let ?g = "first_guess a b v0"
  assume "\<not> ?thesis"
  then have g: "w div V < ?g - 2" "0 \<le> ?g - 2" using digit_le_guess(1) [OF assms] by auto
  then have "w < (?g - 2) * V" using quotient_bounds(2) [OF F(17)] by simp
  also have "(10 * v0 + v1 + 1) * B \<le> (v0 + 1) * (10 * B)"
    using mult_right_mono [of "10 * v0 + v1 + 1" "(v0 + 1) * 10" B] F(11,15) by simp
  then have "(?g - 2) * V \<le> (?g - 2) * ((v0 + 1) * (10 * B))" using F(4) g(2) by (intro mult_left_mono) auto
  finally have upper: "w < (?g - 2) * ((v0 + 1) * (10 * B))" .
  have "?g * v0 * (10 * B) \<le> (10 * a + b) * (10 * B)" using R(3) F(15) by (intro mult_right_mono) auto
  also have "\<dots> \<le> (100 * a + 10 * b + c) * B" using mult_right_mono [of "(10 * a + b) * 10" "100 * a + 10 * b + c" B] F(8,15) by simp
  also have "\<dots> \<le> w" by (rule F(1))
  finally have "?g * v0 * (10 * B) < (?g - 2) * (v0 + 1) * (10 * B)" using upper by (simp add: mult.assoc)
  moreover have "0 < 10 * B" using F(15) by simp
  ultimately have "?g * v0 < (?g - 2) * (v0 + 1)" by (simp only: mult_less_cancel_right_pos)
  then show False using R(2) F(13) by (simp add: algebra_simps)
qed

definition final_guess :: "int \<Rightarrow> int \<Rightarrow> int \<Rightarrow> int \<Rightarrow> int \<Rightarrow> int" where
  "final_guess a b c v0 v1 =
     (let q = first_guess a b v0
      in if too_big a b c v0 v1 q then (let q = q - 1 in if too_big a b c v0 v1 q then q - 1 else q) else q)"

lemma guess_close:
  assumes "guess_window a b c v0 v1 w V B"
  defines "q \<equiv> final_guess a b c v0 v1"
  shows "q = w div V \<or> q = w div V + 1" "0 \<le> q" "q \<le> 9"
proof -
  let ?g = "first_guess a b v0"
  note R = first_guess_range [OF assms(1)] and L = guess_le [OF assms(1)] and G = digit_le_guess [OF assms(1)]
  note A = too_big_above [OF assms(1)] and N = not_too_big_close [OF assms(1)]
  consider "\<not> too_big a b c v0 v1 ?g" | "too_big a b c v0 v1 ?g" "\<not> too_big a b c v0 v1 (?g - 1)"
    | "too_big a b c v0 v1 ?g" "too_big a b c v0 v1 (?g - 1)" by blast
  then have "(q = w div V \<or> q = w div V + 1) \<and> 0 \<le> q \<and> q \<le> 9"
  proof cases
    case 1
    then show ?thesis using N [OF 1 R(1,2)] R G by (auto simp: q_def final_guess_def)
  next
    case 2
    have g: "w div V < ?g" using A [OF 2(1) R(1)] .
    then show ?thesis using N [OF 2(2)] 2 R G by (auto simp: q_def final_guess_def Let_def)
  next
    case 3
    have g: "w div V < ?g" using A [OF 3(1) R(1)] .
    then have "w div V < ?g - 1" using A [OF 3(2)] G(1) by simp
    then show ?thesis using 3 R G L by (auto simp: q_def final_guess_def Let_def)
  qed
  then show "q = w div V \<or> q = w div V + 1" "0 \<le> q" "q \<le> 9" by blast+
qed

subsection \<open>One step of the long division\<close>

lemma divide_sub_correct:
  assumes "divide_sub n2ptr m window q = (win, b)" "digits_ok n2ptr" "m \<le> length n2ptr" "digits_ok window" "length window = m + 1"
    and "0 \<le> q" "q < 10"
  shows "digits_ok win" "length win = m + 1" "b \<in> {0, 1}" "mval win - 10 ^ (m + 1) * b = mval window - q * mval (take m n2ptr)"
proof -
  have "digits_ok win \<and> length win = m + 1 \<and> b \<in> {0, 1} \<and> mval win - 10 ^ (m + 1) * b = mval window - q * mval (take m n2ptr)"
  proof (cases "q = 0")
    case True
    then show ?thesis using assms by (simp add: divide_sub_def)
  next
    case False
    obtain c ds where c: "one_mult (take m n2ptr) q = (c, ds)" by fastforce
    obtain out b' r where s: "sub_both (m + 1) (rev window) (rev (c # ds)) 0 = (out, b', r)" by (metis prod_cases3)
    have win: "win = rev out" "b = b'" using assms(1) False c s by (auto simp: divide_sub_def)
    have l: "length (take m n2ptr) = m" using assms(3) by simp
    note O = one_mult_correct [OF c digits_ok_take [OF assms(2)] assms(6,7), unfolded l]
    have "lval out - 10 ^ length out * b' + 10 ^ length out * lval r = lval (rev window) - lval (rev (c # ds)) - 0 \<and> digits_ok out \<and>
        b' \<in> {0, 1} \<and> length out = m + 1 \<and> r = drop (m + 1) (rev window)"
      by (rule sub_both_correct [OF s]) (use assms(4,5) O in auto)
    moreover have "lval (rev (c # ds)) = q * mval (take m n2ptr)" using O by (simp add: mval_def [symmetric] mult.commute)
    ultimately show ?thesis using win assms(5) by (auto simp: mval_def)
  qed
  then show "digits_ok win" "length win = m + 1" "b \<in> {0, 1}" "mval win - 10 ^ (m + 1) * b = mval window - q * mval (take m n2ptr)"
    by blast+
qed

lemma divide_add_back_correct:
  assumes "digits_ok n2ptr" "m \<le> length n2ptr" "digits_ok window" "length window = m + 1"
  shows "digits_ok (divide_add_back n2ptr m window)" "length (divide_add_back n2ptr m window) = m + 1"
    "mval (divide_add_back n2ptr m window) = (mval window + mval (take m n2ptr)) mod 10 ^ (m + 1)"
proof -
  obtain h t where w: "window = h # t" "length t = m" "digits_ok t" "0 \<le> h" "h < 10" using assms(3,4) by (cases window) auto
  obtain out c q1 q2 where a: "add_both (rev t) (rev (take m n2ptr)) 0 = (out, c, q1, q2)" by (metis prod_cases4)
  define top where "top = (if c = 1 then (h + 1) mod 10 else h)"
  have r: "divide_add_back n2ptr m window = top # rev out" using w a by (simp add: divide_add_back_def top_def)
  have A: "lval out + 10 ^ m * c = mval t + mval (take m n2ptr)" "digits_ok out" "c \<in> {0, 1}" "length out = m"
    using add_both_correct [OF a] w assms(1,2) by (auto simp: mval_def)
  have top: "0 \<le> top" "top < 10" "top = h + c - (if c = 1 \<and> h = 9 then 10 else 0)" using w(4,5) A(3) by (auto simp: top_def)
  show ok: "digits_ok (divide_add_back n2ptr m window)" "length (divide_add_back n2ptr m window) = m + 1"
    using r A(2,4) top by auto
  have "mval (top # rev out) = top * 10 ^ m + lval out" using A(4) by (simp add: mval_def)
  also have "\<dots> = (h + c) * 10 ^ m + lval out - (if c = 1 \<and> h = 9 then 1 else 0) * 10 ^ (m + 1)"
    unfolding top(3) by (simp add: left_diff_distrib)
  also have "\<dots> = mval window + mval (take m n2ptr) - (if c = 1 \<and> h = 9 then 1 else 0) * 10 ^ (m + 1)"
    using A(1) w by (simp add: mval_Cons distrib_right mult.commute)
  finally have e: "mval window + mval (take m n2ptr) = mval (top # rev out) + (if c = 1 \<and> h = 9 then 1 else 0) * 10 ^ (m + 1)" by simp
  have "0 \<le> mval (top # rev out)" "mval (top # rev out) < 10 ^ (m + 1)"
    using mval_bounds [OF ok(1)] ok(2) unfolding r by auto
  then show "mval (divide_add_back n2ptr m window) = (mval window + mval (take m n2ptr)) mod 10 ^ (m + 1)"
    unfolding r e by simp
qed

lemma take_3:
  assumes "digits_ok ds" "n + 3 \<le> length ds"
  shows "(100 * ds ! 0 + 10 * ds ! 1 + ds ! 2) * 10 ^ n \<le> mval (take (n + 3) ds)"
    "mval (take (n + 3) ds) < (100 * ds ! 0 + 10 * ds ! 1 + ds ! 2 + 1) * 10 ^ n"
proof -
  obtain a b c es where ds: "ds = a # b # c # es" "n \<le> length es"
    using assms(2) by (cases ds; cases "tl ds"; cases "tl (tl ds)") auto
  have "mval (take (n + 3) ds) = (100 * a + 10 * b + c) * 10 ^ n + mval (take n es)"
    using ds by (simp add: mval_Cons numeral_3_eq_3 algebra_simps)
  moreover have "0 \<le> mval (take n es) \<and> mval (take n es) < 10 ^ n" using mval_bounds [of "take n es"] assms(1) ds by auto
  ultimately show "(100 * ds ! 0 + 10 * ds ! 1 + ds ! 2) * 10 ^ n \<le> mval (take (n + 3) ds)"
    "mval (take (n + 3) ds) < (100 * ds ! 0 + 10 * ds ! 1 + ds ! 2 + 1) * 10 ^ n"
    using ds by (auto simp: distrib_right)
qed

lemma take_2:
  assumes "digits_ok ds" "n + 2 \<le> length ds"
  shows "(10 * ds ! 0 + ds ! 1) * 10 ^ n \<le> mval (take (n + 2) ds)" "mval (take (n + 2) ds) < (10 * ds ! 0 + ds ! 1 + 1) * 10 ^ n"
proof -
  obtain a b es where ds: "ds = a # b # es" "n \<le> length es"
    using assms(2) by (cases ds; cases "tl ds") auto
  have "mval (take (n + 2) ds) = (10 * a + b) * 10 ^ n + mval (take n es)"
    using ds by (simp add: mval_Cons numeral_2_eq_2 algebra_simps)
  moreover have "0 \<le> mval (take n es) \<and> mval (take n es) < 10 ^ n" using mval_bounds [of "take n es"] assms(1) ds by auto
  ultimately show "(10 * ds ! 0 + ds ! 1) * 10 ^ n \<le> mval (take (n + 2) ds)" "mval (take (n + 2) ds) < (10 * ds ! 0 + ds ! 1 + 1) * 10 ^ n"
    using ds by (auto simp: distrib_right)
qed

lemma mval_take_Suc: "digits_ok ds \<Longrightarrow> n < length ds \<Longrightarrow> mval (take (Suc n) ds) = 10 * mval (take n ds) + ds ! n"
  by (simp add: take_Suc_conv_app_nth)

text \<open>The divisor after normalisation, with the zero behind it.\<close>

definition normal_divisor :: "int list \<Rightarrow> nat \<Rightarrow> int \<Rightarrow> bool" where
  "normal_divisor n2ptr m V \<longleftrightarrow> digits_ok n2ptr \<and> 1 \<le> m \<and> length n2ptr = m + 1 \<and> n2ptr ! m = 0 \<and> 5 \<le> n2ptr ! 0 \<and> V = mval (take m n2ptr)"

lemma guess_digit_correct:
  assumes d: "normal_divisor n2ptr m V" and n: "digits_ok num1" "j + m + 1 < length num1"
    and w: "w = mval (take (m + 1) (drop j num1))" "w < 10 * V"
  shows "guess_digit n2ptr num1 j = w div V \<or> guess_digit n2ptr num1 j = w div V + 1"
    "0 \<le> guess_digit n2ptr num1 j" "guess_digit n2ptr num1 j < 10"
proof -
  note D = d [unfolded normal_divisor_def]
  obtain k where m: "m = Suc k" using D by (cases m) auto
  let ?ds = "drop j num1"
  define a b c where "a = num1 ! j" and "b = num1 ! (j + 1)" and "c = num1 ! (j + 2)"
  have ds: "digits_ok ?ds" "k + 3 \<le> length ?ds" "?ds ! 0 = a" "?ds ! 1 = b" "?ds ! 2 = c"
    using n m by (auto simp: a_def b_def c_def)
  have dig: "0 \<le> a" "0 \<le> b" "b < 10" "0 \<le> c" "c < 10" "0 \<le> n2ptr ! 1" "n2ptr ! 1 < 10" "n2ptr ! 0 < 10"
    using digits_ok_nth [OF ds(1), of 0] digits_ok_nth [OF ds(1), of 1] digits_ok_nth [OF ds(1), of 2] ds
      digits_ok_nth [of n2ptr 0] digits_ok_nth [of n2ptr 1] D m by simp_all
  define W where "W = mval (take (k + 3) ?ds)"
  have W: "W = 10 * w + ?ds ! (k + 2)" "0 \<le> ?ds ! (k + 2)" "?ds ! (k + 2) < 10"
    using mval_take_Suc [of ?ds "k + 2"] ds digits_ok_nth [OF ds(1), of "k + 2"] w m by (auto simp: W_def numeral_3_eq_3 numeral_2_eq_2)
  have V: "mval (take (k + 2) n2ptr) = 10 * V" using mval_take_Suc [of n2ptr "k + 1"] D m by simp
  have g: "guess_window a b c (n2ptr ! 0) (n2ptr ! 1) W (10 * V) (10 ^ k)"
    unfolding guess_window_def
    using take_3 [OF ds(1,2)] take_2 [of n2ptr k] D dig W w(2) V m ds(3-5) by (simp add: W_def)
  have Vp: "0 < V" using guess_windowD(17) [OF g] by simp
  have tb: "guess_too_big n2ptr num1 j q = too_big a b c (n2ptr ! 0) (n2ptr ! 1) q" for q
    by (simp add: guess_too_big_def too_big_def a_def b_def c_def)
  have q: "guess_digit n2ptr num1 j = final_guess a b c (n2ptr ! 0) (n2ptr ! 1)"
    unfolding guess_digit_def final_guess_def first_guess_def Let_def tb a_def b_def by simp
  have "W div (10 * V) = (W div 10) div V" by (rule zdiv_zmult2_eq) (use Vp in simp)
  also have "W div 10 = w" using W by simp
  finally show "guess_digit n2ptr num1 j = w div V \<or> guess_digit n2ptr num1 j = w div V + 1"
    "0 \<le> guess_digit n2ptr num1 j" "guess_digit n2ptr num1 j < 10"
    using guess_close [OF g] unfolding q by auto
qed

lemma divide_step_correct:
  assumes d: "normal_divisor n2ptr m V" and n: "digits_ok num1" "j + m + 1 < length num1"
    and w: "w = mval (take (m + 1) (drop j num1))" "w < 10 * V"
  obtains win where "divide_step n2ptr m j (num1, qs) = (take j num1 @ win @ drop (j + (m + 1)) num1, qs @ [w div V])"
    "digits_ok win" "length win = m + 1" "mval win = w mod V"
proof -
  note D = d [unfolded normal_divisor_def]
  let ?win = "take (m + 1) (drop j num1)" and ?q = "guess_digit n2ptr num1 j"
  note G = guess_digit_correct [OF d n w]
  obtain win1 b where s: "divide_sub n2ptr m ?win ?q = (win1, b)" by fastforce
  have wl: "digits_ok ?win" "length ?win = m + 1" using n by auto
  have "m \<le> length n2ptr" using D by simp
  note S = divide_sub_correct [OF s _ this wl G(2,3)]
  have Vb: "0 < V" "V < 10 ^ (m + 1)"
  proof -
    have "0 \<le> w" using mval_bounds [OF wl(1)] w(1) by simp
    then show "0 < V" using w(2) by linarith
    have "V < 10 ^ m" using mval_bounds [of "take m n2ptr"] D by (simp add: min_absorb2)
    also have "(10::int) ^ m \<le> 10 ^ (m + 1)" by simp
    finally show "V < 10 ^ (m + 1)" .
  qed
  have r: "0 \<le> w mod V" "w mod V < V" "w - w div V * V = w mod V" using Vb by (auto simp: minus_div_mult_eq_mod)
  have Sv: "digits_ok win1" "length win1 = m + 1" "b \<in> {0, 1}" "mval win1 - 10 ^ (m + 1) * b = w - ?q * V"
    using S D w(1) by auto
  have mb: "0 \<le> mval win1" "mval win1 < 10 ^ (m + 1)" using mval_bounds [OF Sv(1)] Sv(2) by auto
  show ?thesis
  proof (cases "?q = w div V")
    case True
    then have "mval win1 - 10 ^ (m + 1) * b = w mod V" using Sv(4) r(3) by simp
    then have "b = 0" "mval win1 = w mod V" using Sv(3) mb r(1,2) Vb(2) by auto
    then show ?thesis using that [of win1] Sv s True by (simp add: divide_step_def)
  next
    case False
    then have q: "?q = w div V + 1" using G(1) by simp
    then have "w - ?q * V = w mod V - V" using r(3) by (simp add: distrib_right)
    then have e: "mval win1 - 10 ^ (m + 1) * b = w mod V - V" using Sv(4) by simp
    then have b: "b = 1" using Sv(3) mb r(1,2) by auto
    then have "mval win1 + V = w mod V + 10 ^ (m + 1)" using e by simp
    moreover have "w mod V < 10 ^ (m + 1)" using r(2) Vb(2) by simp
    ultimately have "(mval win1 + V) mod 10 ^ (m + 1) = w mod V" using r(1) by simp
    then show ?thesis
      using that [of "divide_add_back n2ptr m win1"] divide_add_back_correct [of n2ptr m win1] Sv(1,2) D s b q
      by (simp add: divide_step_def)
  qed
qed

subsection \<open>The division\<close>

lemma divide_loop_correct:
  assumes d: "normal_divisor n2ptr m V" and n: "digits_ok num0" "mval (take m num0) < V" and K: "K + m < length num0"
  shows "\<exists>num1 qs. fold (divide_step n2ptr m) [0..<K] (num0, []) = (num1, qs) \<and> digits_ok num1 \<and> length num1 = length num0 \<and>
    drop (K + m) num1 = drop (K + m) num0 \<and> mval (take m (drop K num1)) < V \<and> digits_ok qs \<and> length qs = K \<and>
    mval qs * V + mval (take m (drop K num1)) = mval (take (K + m) num0)"
  using K
proof (induction K)
  case 0
  then show ?case using n by simp
next
  case (Suc K)
  note D = d [unfolded normal_divisor_def]
  obtain num1 qs where IH: "fold (divide_step n2ptr m) [0..<K] (num0, []) = (num1, qs)" "digits_ok num1" "length num1 = length num0"
    "drop (K + m) num1 = drop (K + m) num0" "mval (take m (drop K num1)) < V" "digits_ok qs" "length qs = K"
    "mval qs * V + mval (take m (drop K num1)) = mval (take (K + m) num0)" using Suc by auto
  define R where "R = mval (take m (drop K num1))"
  define x where "x = num0 ! (K + m)"
  define w where "w = mval (take (m + 1) (drop K num1))"
  have x: "num1 ! (K + m) = x" "0 \<le> x" "x < 10"
    using IH(4) Suc(2) IH(3) digits_ok_nth [OF n(1), of "K + m"] by (auto simp: x_def Cons_nth_drop_Suc [symmetric])
  have w: "w = 10 * R + x" using mval_take_Suc [of "drop K num1" m] IH(2,3) Suc(2) x(1) by (simp add: w_def R_def add.commute)
  have w10: "w < 10 * V" using w x IH(5) by (simp add: R_def)
  have "K + m + 1 < length num1" using Suc(2) IH(3) by simp
  from divide_step_correct [OF d IH(2) this w_def w10] obtain win
    where s: "divide_step n2ptr m K (num1, qs) = (take K num1 @ win @ drop (K + (m + 1)) num1, qs @ [w div V])"
      "digits_ok win" "length win = m + 1" "mval win = w mod V" by blast
  have V: "0 < V" "V < 10 ^ m" "0 \<le> w"
    using mval_bounds [of "take (m + 1) (drop K num1)"] IH(2) w10 mval_bounds [of "take m n2ptr"] D by (auto simp: w_def min_absorb2)
  obtain h t where ht: "win = h # t" "length t = m" using s(3) by (cases win) auto
  have "0 \<le> mval t" using mval_bounds [of t] s(2) ht by simp
  moreover have "h * 10 ^ m + mval t = w mod V" using s(4) ht by (simp add: mval_Cons)
  moreover have "w mod V < 10 ^ m" using pos_mod_bound [OF V(1), of w] V(2) by linarith
  ultimately have "h * 10 ^ m < 1 * 10 ^ m" by linarith
  then have "h < 1" by (simp only: mult_less_cancel_right_pos zero_less_power zero_less_numeral)
  then have h0: "h = 0" using s(2) ht by simp
  let ?num = "take K num1 @ win @ drop (K + (m + 1)) num1"
  have l: "length ?num = length num0" using s(3) IH(3) Suc(2) by simp
  have dr: "drop (Suc K) ?num = t @ drop (K + (m + 1)) num1" using ht IH(3) Suc(2) by (simp add: min_absorb2)
  then have tk: "take m (drop (Suc K) ?num) = t" "drop m (drop (Suc K) ?num) = drop (K + (m + 1)) num1" using ht by simp_all
  have q: "mval (qs @ [w div V]) = 10 * mval qs + w div V" by simp
  have "0 \<le> w div V" "w div V < 10" using V w10 by (auto simp: quotient_bounds)
  then have qd: "digits_ok (qs @ [w div V])" using IH(6) by simp
  have "(10 * mval qs + w div V) * V + w mod V = 10 * (mval qs * V) + w" by (simp add: distrib_right mult.assoc)
  also have "\<dots> = 10 * (mval qs * V + R) + x" using w by simp
  also have "\<dots> = mval (take (Suc K + m) num0)"
    using IH(8) mval_take_Suc [OF n(1), of "K + m"] Suc(2) by (simp add: R_def x_def)
  finally have val: "mval (qs @ [w div V]) * V + mval (take m (drop (Suc K) ?num)) = mval (take (Suc K + m) num0)"
    unfolding q tk using s(4) ht h0 by (simp add: mval_Cons)
  have "drop (Suc K + m) ?num = drop m (drop (Suc K) ?num)" by (simp add: add.commute del: drop_append)
  also have "\<dots> = drop (Suc K + m) num0"
    unfolding tk using arg_cong [OF IH(4), of "drop 1"] by simp
  finally have dd: "drop (Suc K + m) ?num = drop (Suc K + m) num0" .
  have "mval t < V" using s(4) ht h0 pos_mod_bound [OF V(1), of w] by (simp add: mval_Cons)
  moreover have "digits_ok ?num" using s(2) IH(2) by simp
  ultimately show ?case
    using IH(1) s(1) l dd tk(1) val qd IH(7) by (intro exI [of _ ?num] exI [of _ "qs @ [w div V]"]) simp
qed

lemma skip_zeros_spec:
  "c \<le> length ds \<Longrightarrow> skip_zeros ds c \<le> c \<and> (\<forall>d \<in> set (take (c - skip_zeros ds c) ds). d = 0)"
proof (induction ds c rule: skip_zeros.induct)
  case (2 d ds c)
  then show ?case by (auto simp: Suc_diff_le)
qed auto

text \<open>Dropping the zeros at the end of the fraction.\<close>

lemma trimmed_divisor:
  assumes "bc_ok num" "k = skip_zeros (rev (bc_digits num)) (n_scale num)"
  shows "k \<le> n_scale num" "bc_mag num = mval (take (n_len num + k) (n_value num)) * 10 ^ (n_scale num - k)"
proof -
  let ?z = "n_scale num - k"
  have z: "k \<le> n_scale num \<and> (\<forall>d \<in> set (take ?z (rev (bc_digits num))). d = 0)"
    using skip_zeros_spec [of "n_scale num" "rev (bc_digits num)"] assms by simp
  then show k: "k \<le> n_scale num" by blast
  have l: "length (bc_digits num) = n_len num + k + ?z" using k assms(1) by simp
  have "set (drop (n_len num + k) (bc_digits num)) = set (take ?z (rev (bc_digits num)))"
    using l by (simp add: take_rev)
  then have "mval (drop (n_len num + k) (bc_digits num)) = 0"
    using z mval_eq_0 [of "drop (n_len num + k) (bc_digits num)"] assms(1) by auto
  moreover have "take (n_len num + k) (bc_digits num) = take (n_len num + k) (n_value num)"
    using k by (simp add: bc_digits_def min_absorb1)
  moreover have "mval (bc_digits num) = mval (take (n_len num + k) (bc_digits num)) * 10 ^ length (drop (n_len num + k) (bc_digits num)) +
      mval (drop (n_len num + k) (bc_digits num))"
    by (metis append_take_drop_id mval_simps(3))
  ultimately show "bc_mag num = mval (take (n_len num + k) (n_value num)) * 10 ^ ?z"
    using l by (simp add: bc_mag_def)
qed

lemma strip_divisor:
  assumes "digits_ok ds" "mval ds \<noteq> 0" "skip_leading (ds @ [0]) (length ds) = (n2ptr, m)"
  obtains es where "n2ptr = es @ [0]" "length es = m" "mval es = mval ds" "digits_ok es" "es \<noteq> []" "es ! 0 \<noteq> 0"
proof -
  obtain k where k: "ds @ [0] = replicate k 0 @ n2ptr" "m = length ds - k" "n2ptr = [] \<or> n2ptr ! 0 \<noteq> 0"
    using skip_leading_spec [OF assms(3)] by blast
  have "n2ptr \<noteq> []"
  proof
    assume "n2ptr = []"
    then have "set ds \<subseteq> {0}" using k(1) by (metis append_Nil2 set_append set_replicate_conv_if Un_upper1 empty_subsetI subset_trans)
    then show False using mval_eq_0 [OF assms(1)] assms(2) by auto
  qed
  then obtain es x where es: "n2ptr = es @ [x]" by (cases n2ptr rule: rev_cases) auto
  then have e: "ds = replicate k 0 @ es" "x = 0" using k(1) by auto
  have "es \<noteq> []" using e assms(2) by auto
  moreover have "es ! 0 \<noteq> 0" using k(3) es \<open>es \<noteq> []\<close> by (simp add: nth_append)
  ultimately show ?thesis using that [of es] es e k(2) assms(1) by simp
qed

text \<open>The factor \<open>10 div (v0 + 1)\<close> makes the first digit of the divisor at least 5 without making it longer.\<close>

lemma norm_factor:
  fixes v0 :: int
  assumes "1 \<le> v0" "v0 < 10"
  shows "1 \<le> 10 div (v0 + 1)" "10 div (v0 + 1) \<le> 5" "10 div (v0 + 1) * (v0 + 1) \<le> 10" "5 \<le> 10 div (v0 + 1) * v0"
proof -
  have "v0 \<in> {1, 2, 3, 4, 5, 6, 7, 8, 9}" using assms by auto
  then show "1 \<le> 10 div (v0 + 1)" "10 div (v0 + 1) \<le> 5" "10 div (v0 + 1) * (v0 + 1) \<le> 10" "5 \<le> 10 div (v0 + 1) * v0"
    by auto
qed

lemma scale_digits_correct:
  assumes "digits_ok ds" "0 \<le> f" "f < 10" "mval ds * f < 10 ^ length ds"
  shows "\<exists>es. scale_digits (ds @ zs) (length ds) f = Some (es @ zs) \<and> digits_ok es \<and> length es = length ds \<and> mval es = mval ds * f"
proof (cases "f = 1")
  case True
  then show ?thesis using assms by (auto simp: scale_digits_def)
next
  case False
  obtain c es where o: "one_mult ds f = (c, es)" by fastforce
  note O = one_mult_correct [OF o assms(1-3)]
  have "0 \<le> mval es" using mval_bounds [OF O(2)] by simp
  then have "c * 10 ^ length ds < 1 * 10 ^ length ds" using O(1) assms(4) by linarith
  then have "c < 1" by (simp only: mult_less_cancel_right_pos zero_less_power zero_less_numeral)
  then have "c = 0" using O(4) by simp
  then show ?thesis using False o O by (simp add: scale_digits_def)
qed

lemma scale_divisor:
  assumes "digits_ok es" "es \<noteq> []" "es ! 0 \<noteq> 0" "f = 10 div (es ! 0 + 1)"
  shows "\<exists>n2. scale_digits (es @ [0]) (length es) f = Some n2 \<and> normal_divisor n2 (length es) (mval es * f)" "1 \<le> f" "f \<le> 5"
    "10 ^ (length es - 1) \<le> mval es"
proof -
  obtain v0 ds where e: "es = v0 # ds" using assms(2) by (cases es) auto
  have v0: "1 \<le> v0" "v0 < 10" "digits_ok ds" using assms(1,3) e by auto
  have f: "1 \<le> f" "f \<le> 5" "f * (v0 + 1) \<le> 10" "5 \<le> f * v0" using norm_factor [OF v0(1,2)] assms(4) e by simp_all
  then show "1 \<le> f" "f \<le> 5" by simp_all
  have m: "mval es = v0 * 10 ^ length ds + mval ds" "0 \<le> mval ds" "mval ds < 10 ^ length ds"
    using e mval_bounds [OF v0(3)] by (simp_all add: mval_Cons)
  show "10 ^ (length es - 1) \<le> mval es" using mval_hd [OF assms(1,2)] assms(2,3) by (simp add: hd_conv_nth)
  have "mval es < (v0 + 1) * 10 ^ length ds" using m by (simp add: distrib_right)
  then have "mval es * f < (v0 + 1) * 10 ^ length ds * f" using f(1) by simp
  also have "\<dots> = (f * (v0 + 1)) * 10 ^ length ds" by simp
  also have "\<dots> \<le> 10 * 10 ^ length ds" using f(3) by (intro mult_right_mono) auto
  finally have "mval es * f < 10 ^ length es" using e by simp
  then obtain es2 where s: "scale_digits (es @ [0]) (length es) f = Some (es2 @ [0])" "digits_ok es2" "length es2 = length es" "mval es2 = mval es * f"
    using scale_digits_correct [OF assms(1), of f "[0]"] f by auto
  then obtain t ts where t: "es2 = t # ts" "length ts = length ds" using e by (cases es2) auto
  have "5 * 10 ^ length ds \<le> f * v0 * 10 ^ length ds" using f(4) by (intro mult_right_mono) auto
  also have "\<dots> \<le> mval es * f" using m(1,2) f(1) by (simp add: algebra_simps)
  also have "\<dots> = t * 10 ^ length ds + mval ts" using s(4) t by (simp add: mval_Cons)
  also have "\<dots> < (t + 1) * 10 ^ length ds" using mval_bounds [of ts] s(2) t by (simp add: distrib_right)
  finally have "5 < t + 1" by (simp only: mult_less_cancel_right_pos zero_less_power zero_less_numeral)
  then show "\<exists>n2. scale_digits (es @ [0]) (length es) f = Some n2 \<and> normal_divisor n2 (length es) (mval es * f)"
    using s t e by (intro exI [of _ "es2 @ [0]"]) (auto simp: normal_divisor_def nth_append)
qed

lemma trunc_sgn:
  assumes "0 \<le> x"
  shows "bc_trunc (sgn_val s * x) k = sgn_val s * of_int \<lfloor>x * 10 ^ k\<rfloor> / 10 ^ k"
  using assms by (cases s) (auto simp: bc_trunc_def)

text \<open>The floor of the quotient as a division of integers.\<close>

lemma quotient_floor:
  assumes "0 < V" "e + k2 + scale = s1 + extra"
  shows "\<lfloor>(rat_of_int M / 10 ^ s1) / (of_int V / 10 ^ k2) * 10 ^ scale\<rfloor> = (M * 10 ^ extra) div (10 ^ e * V)"
proof -
  have p: "(10::rat) ^ e * 10 ^ k2 * 10 ^ scale = 10 ^ s1 * 10 ^ extra"
    unfolding power_add [symmetric] using assms(2) by simp
  have "rat_of_int M * 10 ^ k2 * 10 ^ scale * (10 ^ e * of_int V) = rat_of_int M * of_int V * (10 ^ e * 10 ^ k2 * 10 ^ scale)"
    by (simp only: ac_simps)
  also have "\<dots> = rat_of_int M * 10 ^ extra * (10 ^ s1 * of_int V)" unfolding p by (simp only: ac_simps)
  finally have "rat_of_int M * 10 ^ k2 * 10 ^ scale / (10 ^ s1 * of_int V) = rat_of_int M * 10 ^ extra / (10 ^ e * of_int V)"
    using assms(1) by (simp add: frac_eq_eq)
  then have "(rat_of_int M / 10 ^ s1) / (of_int V / 10 ^ k2) * 10 ^ scale = of_int (M * 10 ^ extra) / of_int (10 ^ e * V)"
    by simp
  then show ?thesis by (simp only: floor_divide_of_int_eq)
qed

text \<open>The digits of the quotient, in the case that is not zero at once.\<close>

lemma divide_digits:
  assumes ds: "digits_ok ds" and es: "digits_ok es" "es \<noteq> []" "es ! 0 \<noteq> 0" and len: "length es \<le> L" "L \<le> length ds"
  defines "f \<equiv> 10 div (es ! 0 + 1)"
  shows "\<exists>num1 n2ptr num2 qs. scale_digits (0 # ds @ [0]) (length ds + 1) f = Some num1 \<and>
    scale_digits (es @ [0]) (length es) f = Some n2ptr \<and>
    fold (divide_step n2ptr (length es)) [0..<L - length es + 1] (num1, []) = (num2, qs) \<and> digits_ok qs \<and>
    length qs = L - length es + 1 \<and> mval qs = mval ds div (10 ^ (length ds - L) * mval es)"
proof -
  let ?m = "length es" and ?n = "length ds"
  obtain n2 where n2: "scale_digits (es @ [0]) ?m f = Some n2" "normal_divisor n2 ?m (mval es * f)" and
    f: "1 \<le> f" "f \<le> 5" and low: "10 ^ (?m - 1) \<le> mval es"
    using scale_divisor [OF es f_def [THEN meta_eq_to_obj_eq]] by blast
  have dsb: "0 \<le> mval ds" "mval ds < 10 ^ ?n" using mval_bounds [OF ds] by auto
  have "mval ds * f \<le> 10 ^ ?n * 5" "(0::int) < 10 ^ ?n" using dsb f mult_mono [of "mval ds" "10 ^ ?n" f 5] by simp_all
  then have "mval ds * f < 10 * 10 ^ ?n" by linarith
  then have fit: "mval (0 # ds) * f < 10 ^ length (0 # ds)" by (simp add: mval_Cons)
  obtain xs where xs: "scale_digits (0 # ds @ [0]) (?n + 1) f = Some (xs @ [0])" "digits_ok xs" "length xs = ?n + 1" "mval xs = mval ds * f"
    using scale_digits_correct [of "0 # ds" f "[0]"] ds f fit by (auto simp: mval_Cons)
  have tk: "mval (take k xs) = mval ds * f div 10 ^ (?n + 1 - k)" if "k \<le> ?n + 1" for k
    using mval_take [OF xs(2), of "?n + 1 - k"] xs(3,4) that by simp
  have start: "mval (take ?m (xs @ [0])) < mval es * f"
  proof -
    have "1 \<le> ?m" using es(2) by (cases es) auto
    then have p: "(10::int) ^ (?m - 1) * 10 ^ (?n + 1 - ?m) = 10 ^ ?n"
      unfolding power_add [symmetric] using len by simp
    have "mval ds * f < 10 ^ ?n * f" using dsb(2) f(1) by simp
    also have "\<dots> = (10 ^ (?m - 1) * f) * 10 ^ (?n + 1 - ?m)" unfolding p [symmetric] by (simp only: ac_simps)
    finally have "mval ds * f div 10 ^ (?n + 1 - ?m) < 10 ^ (?m - 1) * f"
      by (subst quotient_bounds(2)) auto
    also have "\<dots> \<le> mval es * f" using low f(1) by (intro mult_right_mono) auto
    finally show ?thesis using tk [of ?m] len xs(3) by simp
  qed
  let ?K = "L - ?m + 1"
  have K: "?K + ?m = L + 1" using len by simp
  then have "?K + ?m < length (xs @ [0])" using len xs(3) by simp
  moreover have "digits_ok (xs @ [0])" using xs(2) by simp
  ultimately obtain num2 qs where r: "fold (divide_step n2 ?m) [0..<?K] (xs @ [0], []) = (num2, qs)" "digits_ok num2"
    "mval (take ?m (drop ?K num2)) < mval es * f" "digits_ok qs" "length qs = ?K"
    "mval qs * (mval es * f) + mval (take ?m (drop ?K num2)) = mval (take (?K + ?m) (xs @ [0]))"
    using divide_loop_correct [OF n2(2) _ start, of ?K] by blast
  have Vp: "0 < mval es * f" using low f(1) less_le_trans [of 0 "10 ^ (?m - 1)" "mval es"] by simp
  have e: "mval (take (?K + ?m) (xs @ [0])) = mval ds * f div 10 ^ (?n - L)"
    unfolding K using tk [of "L + 1"] len xs(3) by simp
  have "0 \<le> mval (take ?m (drop ?K num2))" using mval_bounds [of "take ?m (drop ?K num2)"] r(2) by auto
  then have "mval qs = mval (take (?K + ?m) (xs @ [0])) div (mval es * f)"
    using int_div_pos_eq [OF r(6) [unfolded mult.commute [of "mval qs"], symmetric] _ r(3)] by simp
  also have "\<dots> = mval ds * f div (10 ^ (?n - L) * (mval es * f))"
    unfolding e by (rule zdiv_zmult2_eq [symmetric]) (use Vp in simp)
  also have "\<dots> = (mval ds * f) div ((10 ^ (?n - L) * mval es) * f)" by (simp only: mult.assoc)
  also have "\<dots> = mval ds div (10 ^ (?n - L) * mval es)" using f(1) by simp
  finally show ?thesis using xs(1) n2(1) r(1,4,5) by blast
qed

lemma quotient_zero:
  fixes N V :: int
  assumes "0 \<le> N" "N < 10 ^ n" "10 ^ (m - 1) \<le> V" "L < m" "L \<le> n"
  shows "N div (10 ^ (n - L) * V) = 0"
proof -
  have "(10::int) ^ L \<le> 10 ^ (m - 1)" using assms(4) by (intro power_increasing) auto
  then have "10 ^ L \<le> V" using assms(3) by linarith
  then have "(10::int) ^ (n - L) * 10 ^ L \<le> 10 ^ (n - L) * V" by (intro mult_left_mono) auto
  then have "10 ^ n \<le> 10 ^ (n - L) * V" using assms(5) by (simp add: power_add [symmetric])
  then show ?thesis using assms(1,2) by (intro div_pos_pos_trivial) auto
qed

lemma divide_by_zero: "bc_is_zero n2 \<Longrightarrow> bc_divide n1 n2 scale = Some None"
  by (simp add: bc_divide_def)

text \<open>A sum of lengths and scales that leaves room for the few places added to it.\<close>

definition has_room :: "nat \<Rightarrow> bool" where "has_room k \<longleftrightarrow> int k + 8 \<le> INT_MAX"

lemma divide_widths_room:
  assumes "has_room (n_len n1 + n_scale n1 + n_len n2 + n_scale n2 + scale)" "k2 \<le> n_scale n2" "extra = nat (max (int scale - (int (n_scale n1) - int k2)) 0)"
    "qdigits = (if m > n_len n1 + k2 then scale + 1 else n_len n1 + k2 - m + scale + 1)"
  shows "divide_widths n1 n2 scale (n_len n1 + k2) (int (n_scale n1) - int k2) extra (n_len n2 + k2) m qdigits"
  using assms unfolding divide_widths_def has_room_def fits_int_def fits_uint_def INT_MAX_def UINT_MAX_def
  by (intro conjI impI) (simp_all split: if_splits)

lemma divide_correct:
  assumes "bc_ok n1" "bc_ok n2" "bc_mag n2 \<noteq> 0" "has_room (n_len n1 + n_scale n1 + n_len n2 + n_scale n2 + scale)"
  shows "\<exists>q. bc_divide n1 n2 scale = Some (Some q) \<and> proper_sign q \<and> result_is q (bc_trunc (num_val n1 / num_val n2) scale) scale"
proof -
  define k2 where "k2 = skip_zeros (rev (bc_digits n2)) (n_scale n2)"
  define len1 where "len1 = n_len n1 + k2"
  define extra where "extra = nat (max (int scale - (int (n_scale n1) - int k2)) 0)"
  define vs where "vs = take (n_len n2 + k2) (n_value n2)"
  define ds where "ds = bc_digits n1 @ replicate extra 0"
  define L where "L = len1 + scale"
  note T = trimmed_divisor [OF assms(2) k2_def]
  have vl: "length vs = n_len n2 + k2" "digits_ok vs" "mval vs \<noteq> 0"
    using T assms(2,3) by (auto simp: vs_def bc_ok_def)
  obtain n2ptr m where sk: "skip_leading (vs @ [0]) (length vs) = (n2ptr, m)" by fastforce
  obtain es where es: "n2ptr = es @ [0]" "length es = m" "mval es = mval vs" "digits_ok es" "es \<noteq> []" "es ! 0 \<noteq> 0"
    using strip_divisor [OF vl(2,3) sk] .
  have d: "digits_ok ds" "length ds = n_len n1 + n_scale n1 + extra" "mval ds = bc_mag n1 * 10 ^ extra"
    using assms(1) by (simp_all add: ds_def bc_mag_def)
  have Ld: "L \<le> length ds" "length ds - L + k2 + scale = n_scale n1 + extra"
    using d(2) by (auto simp: L_def len1_def extra_def)
  have low: "10 ^ (m - 1) \<le> mval es" using mval_hd [of es] es by (simp add: hd_conv_nth)
  then have Vp: "0 < mval vs" using es(3) less_le_trans [of 0 "10 ^ (m - 1)" "mval es"] by simp
  have size: "nat (int len1 + (int (n_scale n1) - int k2) + int extra + 1) = length ds + 1" using d(2) by (simp add: len1_def)
  have num1: "0 # bc_digits n1 @ replicate (extra + 1) 0 = 0 # ds @ [0]" by (simp add: ds_def replicate_append_same)
  define Q where "Q = mval ds div (10 ^ (length ds - L) * mval es)"
  define qdigits where "qdigits = (if m > len1 then scale + 1 else len1 - m + scale + 1)"
  have qd: "qdigits - scale + scale = qdigits" "1 \<le> qdigits - scale" by (auto simp: qdigits_def)
  define qval where "qval = bc_new_num (qdigits - scale) scale"
  have "\<exists>q1. (if \<not> m > len1 + scale then divide_general (0 # ds @ [0]) n2ptr len1 m scale (length ds + 1) qval else Some qval) = Some q1 \<and>
      bc_ok q1 \<and> bc_mag q1 = Q \<and> n_len q1 = qdigits - scale \<and> n_scale q1 = scale"
  proof (cases "m > len1 + scale")
    case True
    have "Q = 0" unfolding Q_def using mval_bounds [OF d(1)] True Ld(1) low
      by (intro quotient_zero) (auto simp: L_def)
    then show ?thesis using True by (simp add: qval_def) (simp add: bc_new_num_def)
  next
    case False
    then have "length es \<le> L" using es(2) by (simp add: L_def)
    from divide_digits [OF d(1) es(4-6) this Ld(1)] obtain num1 n2' num2 qs where
      "scale_digits (0 # ds @ [0]) (length ds + 1) (10 div (es ! 0 + 1)) = Some num1"
      "scale_digits (es @ [0]) m (10 div (es ! 0 + 1)) = Some n2'"
      "fold (divide_step n2' m) [0..<len1 + scale - m + 1] (num1, []) = (num2, qs)" and
      qs: "digits_ok qs" "length qs = len1 + scale - m + 1" "mval qs = Q"
      unfolding es(2) L_def Q_def by blast
    moreover define q1 where "q1 = qval\<lparr>n_value := replicate (if m > len1 then m - len1 else 0) 0 @ qs\<rparr>"
    moreover have "store_digits (n_value qval) (if m > len1 then m - len1 else 0) qs = Some (n_value q1)"
      using qs(2) False by (auto simp: store_digits_def qval_def bc_new_num_def q1_def qdigits_def)
    moreover have "divide_in_bounds (0 # ds @ [0]) n2ptr m (length ds + 1) (len1 + scale - m)"
      using False Ld(1) es(1,2,5) by (cases es) (auto simp: divide_in_bounds_def L_def)
    moreover have "n2ptr ! 0 = es ! 0" using es(1,5) by (simp add: nth_append)
    moreover have "bc_ok q1 \<and> bc_mag q1 = Q \<and> n_len q1 = qdigits - scale \<and> n_scale q1 = scale"
      using qs False by (auto simp: q1_def qval_def bc_new_num_def bc_ok_def bc_mag_def bc_digits_def qdigits_def)
    ultimately show ?thesis using False es(1) by (simp add: divide_general_def Let_def q1_def)
  qed
  then obtain q1 where q1: "(if \<not> m > len1 + scale then divide_general (0 # ds @ [0]) n2ptr len1 m scale (length ds + 1) qval else Some qval) = Some q1"
    "bc_ok q1" "bc_mag q1 = Q" "n_len q1 = qdigits - scale" "n_scale q1 = scale" by blast
  define s where "s = (if n_sign n1 = n_sign n2 then PLUS else MINUS)"
  define q2 where "q2 = q1\<lparr>n_sign := s\<rparr>"
  define q3 where "q3 = (if bc_is_zero q2 then q2\<lparr>n_sign := PLUS\<rparr> else q2)"
  have nz: "\<not> bc_is_zero n2" using is_zero_iff [OF assms(2)] assms(3) by simp
  have wd: "divide_widths n1 n2 scale len1 (int (n_scale n1) - int k2) extra (n_len n2 + k2) m qdigits"
    unfolding len1_def by (rule divide_widths_room [OF assms(4) T(1) extra_def]) (simp add: qdigits_def len1_def)
  have res: "bc_divide n1 n2 scale = Some (Some (bc_rm_leading_zeros q3))"
    unfolding bc_divide_def Let_def k2_def [symmetric] len1_def [symmetric] extra_def [symmetric] vs_def [symmetric] size num1
      sk [unfolded vl(1)] prod.case qdigits_def [symmetric] qval_def [symmetric] s_def [symmetric] q1(1)
    using nz wd by (simp add: q3_def q2_def)
  have q3: "bc_ok q3" "num_val q3 = num_val q2" "proper_sign q3" "n_len q3 = qdigits - scale" "n_scale q3 = scale" "bc_ok q2"
    using q1(2,4,5) plus_zero [of q2] by (auto simp: q3_def q2_def bc_ok_def)
  let ?r = "bc_rm_leading_zeros q3"
  have r: "bc_canonical ?r" "num_val ?r = num_val q2" "n_scale ?r = scale"
    using rm_leading_zeros_canonical [of q3] rm_leading_zeros_val [of q3] q3 qd(2) by simp_all
  have "proper_sign ?r" using q3(1,3) rm_leading_zeros_ok [of q3] by (simp add: proper_sign_def)
  moreover have "num_val q2 = bc_trunc (num_val n1 / num_val n2) scale"
  proof -
    define x where "x = (rat_of_int (bc_mag n1) / 10 ^ n_scale n1) / (of_int (mval es) / 10 ^ k2)"
    have m2: "rat_of_int (bc_mag n2) / 10 ^ n_scale n2 = of_int (mval es) / 10 ^ k2"
    proof -
      have "(10::rat) ^ n_scale n2 = 10 ^ k2 * 10 ^ (n_scale n2 - k2)" unfolding power_add [symmetric] using T(1) by simp
      moreover have "rat_of_int (bc_mag n2) = of_int (mval es) * 10 ^ (n_scale n2 - k2)" using T(2) es(3) by (simp only: vs_def) simp
      ultimately show ?thesis by simp
    qed
    have "num_val n1 / num_val n2 = sgn_val (n_sign n1) * (of_int (bc_mag n1) / 10 ^ n_scale n1) / (sgn_val (n_sign n2) * (of_int (mval es) / 10 ^ k2))"
      by (simp only: num_val_def m2 times_divide_eq_right [symmetric])
    also have "\<dots> = sgn_val s * x" unfolding s_def sgn_val_mult x_def by (cases "n_sign n2") simp_all
    finally have v: "num_val n1 / num_val n2 = sgn_val s * x" .
    have "0 \<le> x" using bc_mag_pos [OF assms(1)] es(3) Vp by (simp add: x_def)
    moreover have "\<lfloor>x * 10 ^ scale\<rfloor> = Q"
      unfolding x_def Q_def d(3) using es(3) Vp Ld(2) by (intro quotient_floor) auto
    ultimately show ?thesis unfolding v using q1(3,5) by (simp add: trunc_sgn num_val_def q2_def bc_mag_def bc_digits_def)
  qed
  ultimately show ?thesis using res r by (auto simp: result_is_def)
qed

subsection \<open>Division with remainder\<close>

lemma divmod_by_zero: "bc_is_zero num2 \<Longrightarrow> bc_divmod num1 num2 scale = Some None"
  by (simp add: bc_divmod_def)

text \<open>Beyond the range of \<open>int\<close> the width of \<open>scale - scale1\<close> is exceeded, and the model has no answer.\<close>

lemma divide_overflows:
  assumes "bc_ok n2" "bc_mag n2 \<noteq> 0"
    and "INT_MAX < int scale - (int (n_scale n1) - int (skip_zeros (rev (bc_digits n2)) (n_scale n2)))"
  shows "bc_divide n1 n2 scale = None"
  using assms is_zero_iff [OF assms(1)] by (auto simp: bc_divide_def Let_def divide_widths_def fits_int_def split: prod.split)

lemma divmod_correct:
  assumes "bc_norm num1" "bc_ok num2" "bc_mag num2 \<noteq> 0" "has_room (n_len num1 + n_scale num1 + n_len num2 + n_scale num2)"
  shows "\<exists>quot rem. bc_divmod num1 num2 scale = Some (Some (quot, rem)) \<and>
    result_is quot (bc_trunc (num_val num1 / num_val num2) 0) 0 \<and> proper_sign quot \<and>
    result_is rem (num_val num1 - bc_trunc (num_val num1 / num_val num2) 0 * num_val num2) (max (n_scale num1) (n_scale num2 + scale))"
proof -
  let ?t = "bc_trunc (num_val num1 / num_val num2) 0" and ?rs = "max (n_scale num1) (n_scale num2 + scale)"
  obtain q where q: "bc_divide num1 num2 0 = Some (Some q)" "proper_sign q" "result_is q ?t 0"
    using divide_correct [OF bc_normD [OF assms(1)] assms(2,3), of 0] assms(4) by auto
  then have qc: "bc_canonical q" "num_val q = ?t" "n_scale q = 0" by (simp_all add: result_is_def)
  have "n_scale q + n_scale num2 \<le> max ?rs (max (n_scale q) (n_scale num2))" using qc by simp
  from multiply_exact [OF canonical_ok [OF qc(1)] assms(2) this] obtain p where
    p: "bc_multiply q num2 ?rs = Some p" "result_is p (?t * num_val num2) (n_scale num2)" using qc by auto
  then have pc: "bc_norm p" "num_val p = ?t * num_val num2" "n_scale p = n_scale num2" by (simp_all add: result_is_def)
  have "result_is (bc_sub num1 p ?rs) (num_val num1 - ?t * num_val num2) ?rs"
    using sub_correct [OF assms(1) pc(1), of ?rs] pc by (simp add: max_def split: if_splits)
  then show ?thesis using q p(1) is_zero_iff [OF assms(2)] assms(3) by (auto simp: bc_divmod_def)
qed

text \<open>The remainder is smaller than the divisor and has the sign of the dividend.\<close>

lemma trunc_close: "\<bar>x - bc_trunc x 0\<bar> < 1" "0 \<le> x * (x - bc_trunc x 0)"
proof -
  have f: "of_int \<lfloor>x\<rfloor> \<le> x" "x < of_int \<lfloor>x\<rfloor> + 1" "of_int \<lfloor>- x\<rfloor> \<le> - x" "- x < of_int \<lfloor>- x\<rfloor> + 1" by linarith+
  show "\<bar>x - bc_trunc x 0\<bar> < 1" using f unfolding bc_trunc_def by (cases "x < 0") (simp_all del: of_int_floor_le)
  show "0 \<le> x * (x - bc_trunc x 0)"
    using f unfolding bc_trunc_def by (cases "x < 0") (simp_all add: zero_le_mult_iff del: of_int_floor_le)
qed

lemma trunc_remainder:
  assumes "b \<noteq> 0"
  shows "\<bar>a - bc_trunc (a / b) 0 * b\<bar> < \<bar>b\<bar>" "0 \<le> a * (a - bc_trunc (a / b) 0 * b)"
proof -
  define x where "x = a / b"
  have a: "a = x * b" using assms by (simp add: x_def)
  have d: "a - bc_trunc (a / b) 0 * b = (x - bc_trunc x 0) * b" unfolding x_def [symmetric] a by (simp add: left_diff_distrib)
  have "\<bar>x - bc_trunc x 0\<bar> * \<bar>b\<bar> < 1 * \<bar>b\<bar>" using trunc_close(1) [of x] assms by (intro mult_strict_right_mono) auto
  then show "\<bar>a - bc_trunc (a / b) 0 * b\<bar> < \<bar>b\<bar>" unfolding d abs_mult by simp
  have "0 \<le> x * (x - bc_trunc x 0) * (b * b)" using trunc_close(2) [of x] by (rule mult_nonneg_nonneg) simp
  then show "0 \<le> a * (a - bc_trunc (a / b) 0 * b)" unfolding d by (simp add: a mult.assoc mult.left_commute)
qed

subsection \<open>How long a number is\<close>

lemma value_below: "bc_ok x \<Longrightarrow> \<bar>num_val x\<bar> < 10 ^ n_len x"
proof -
  assume x: "bc_ok x"
  have "bc_mag x < 10 ^ (n_len x + n_scale x)" using bc_mag_bounds [OF x] by simp
  then have "rat_of_int (bc_mag x) < of_int (10 ^ (n_len x + n_scale x))" by (simp only: of_int_less_iff)
  then show ?thesis unfolding abs_num_val [OF x] by (simp add: pos_divide_less_eq power_add)
qed

lemma length_of_value:
  assumes "bc_canonical x" "\<bar>num_val x\<bar> < 10 ^ k" "1 \<le> k"
  shows "n_len x \<le> k"
proof (cases "n_len x \<le> 1")
  case False
  have ok: "bc_ok x" "n_value x ! 0 \<noteq> 0" using assms(1) False by (auto simp: bc_canonical_def stripped_def)
  then have d: "digits_ok (bc_digits x)" "length (bc_digits x) = n_len x + n_scale x" by simp_all
  then have ne: "bc_digits x \<noteq> []" using False by auto
  then have "hd (bc_digits x) \<noteq> 0" using ok(2) by (auto simp: bc_digits_def hd_conv_nth)
  from mval_hd [OF d(1) ne this] have "10 ^ (n_len x - 1 + n_scale x) \<le> bc_mag x" using d(2) False by (simp add: bc_mag_def)
  then have "rat_of_int (10 ^ (n_len x - 1 + n_scale x)) \<le> of_int (bc_mag x)" by (simp only: of_int_le_iff)
  then have "(10::rat) ^ (n_len x - 1) \<le> \<bar>num_val x\<bar>" unfolding abs_num_val [OF ok(1)] by (simp add: pos_le_divide_eq power_add)
  from le_less_trans [OF this assms(2)] have "n_len x - 1 < k" by (rule power_less_imp_less_exp [rotated]) simp
  then show ?thesis by simp
qed (use assms(3) in simp)

lemma has_room_le: "has_room k \<Longrightarrow> j \<le> k \<Longrightarrow> has_room j"
  by (simp add: has_room_def)

end
