(* ===== verification/BcText.thy ===== *)
theory BcText
  imports BcDiv
begin

text \<open>
  Conversions of decimal numbers: \<open>bc_num2long\<close>, \<open>bc_int2num\<close>, the parser \<open>bc_str2num\<close> and the printer
  \<open>bc_num2str_ex\<close>. A C string is the list of its characters up to the NUL; a pointer into it is the
  rest of the list, and reading at the end gives the NUL.
\<close>

subsection \<open>Machine integers\<close>

definition LONG_MAX :: int where "LONG_MAX = 2 ^ 63 - 1"

text \<open>The loop of \<open>bc_num2long\<close>; \<open>None\<close> is its early \<open>return 0\<close>.\<close>

fun num2long_loop :: "int list \<Rightarrow> int \<Rightarrow> int option" where
  "num2long_loop (n # nptr) val =
     (if val > LONG_MAX div BASE then None
      else (let val = val * BASE in
        if val > LONG_MAX - n then None else num2long_loop nptr (val + n)))"
| "num2long_loop [] val = Some val"

definition bc_num2long :: "bc_num \<Rightarrow> int" where
  "bc_num2long num =
     (case num2long_loop (take (n_len num) (n_value num)) 0 of
        None \<Rightarrow> 0
      | Some val \<Rightarrow> (if n_sign num = PLUS then val else - val))"

text \<open>The digits left after the first, in the order they are put into the buffer.\<close>

fun int2num_loop :: "nat \<Rightarrow> int list" where
  "int2num_loop val = (if val \<noteq> 0 then int (val mod 10) # int2num_loop (val div 10) else [])"
declare int2num_loop.simps [simp del]

definition bc_int2num :: "int \<Rightarrow> bc_num" where
  "bc_int2num val =
     (let neg = (val < 0); val = (if neg then - val else val);
          buffer = val mod BASE # int2num_loop (nat (val div BASE));
          num = bc_new_num (length buffer) 0;
          num = (if neg then num\<lparr>n_sign := MINUS\<rparr> else num)
      in num\<lparr>n_value := rev buffer\<rparr>)"

subsection \<open>The parser\<close>

definition at_ptr :: "string \<Rightarrow> char" where
  "at_ptr ptr = (case ptr of [] \<Rightarrow> CHR 0x00 | c # _ \<Rightarrow> c)"

definition CH_VAL :: "char \<Rightarrow> int" where "CH_VAL c = int (of_char c) - 48"

definition is_decimal :: "char \<Rightarrow> bool" where
  "is_decimal c \<longleftrightarrow> 0 \<le> CH_VAL c \<and> CH_VAL c \<le> 9"

definition BCD_CHAR :: "int \<Rightarrow> char" where "BCD_CHAR d = char_of (nat (d + 48))"

fun skip_nulls :: "string \<Rightarrow> string" where
  "skip_nulls (c # ptr) = (if c = CHR ''0'' then skip_nulls ptr else c # ptr)"
| "skip_nulls [] = []"

fun count_digits :: "string \<Rightarrow> nat \<Rightarrow> string \<times> nat" where
  "count_digits (c # ptr) digits = (if is_decimal c then count_digits ptr (digits + 1) else (c # ptr, digits))"
| "count_digits [] digits = ([], digits)"

fun count_fraction :: "string \<Rightarrow> nat \<Rightarrow> nat \<Rightarrow> string \<times> nat \<times> nat" where
  "count_fraction (c # ptr) trailing_zeros strscale =
     (if is_decimal c then count_fraction ptr (if c = CHR ''0'' then trailing_zeros + 1 else 0) (strscale + 1)
      else (c # ptr, trailing_zeros, strscale))"
| "count_fraction [] trailing_zeros strscale = ([], trailing_zeros, strscale)"

definition build_number :: "string \<Rightarrow> nat \<Rightarrow> nat \<Rightarrow> bc_num" where
  "build_number str digits strscale =
     (let zero_int = (digits = 0);
          num = bc_new_num (if zero_int then 1 else digits) strscale;
          (sgn, ptr) = (if at_ptr str = CHR ''-'' then (MINUS, tl str)
                        else (PLUS, if at_ptr str = CHR ''+'' then tl str else str));
          ptr = skip_nulls ptr;
          whole = (if zero_int then [0] else map CH_VAL (take digits ptr));
          ptr = drop digits ptr;
          fraction = (if strscale > 0 then map CH_VAL (take strscale (tl ptr)) else []);
          num = num\<lparr>n_sign := sgn, n_value := whole @ fraction\<rparr>
      in if bc_is_zero num then num\<lparr>n_sign := PLUS\<rparr> else num)"

definition bc_str2num :: "string \<Rightarrow> nat \<Rightarrow> bc_num \<times> bool" where
  "bc_str2num str scale =
     (let ptr = str;
          ptr = (if at_ptr ptr = CHR ''+'' \<or> at_ptr ptr = CHR ''-'' then tl ptr else ptr);
          ptr = skip_nulls ptr;
          (ptr, digits) = count_digits ptr 0;
          ptr = (if at_ptr ptr = CHR ''.'' then tl ptr else ptr);
          (ptr, trailing_zeros, strscale) = count_fraction ptr 0 0;
          strscale = (if trailing_zeros > 0 then strscale - trailing_zeros else strscale)
      in if at_ptr ptr \<noteq> CHR 0x00 \<or> digits + strscale = 0
         then (BCG_zero, at_ptr ptr = CHR 0x00)
         else (build_number str digits (min strscale scale), True))"

subsection \<open>The printer\<close>

definition bc_num2str_ex :: "bc_num \<Rightarrow> nat \<Rightarrow> string" where
  "bc_num2str_ex num scale =
     (let signch = (n_sign num \<noteq> PLUS \<and> \<not> bc_is_zero_for_scale num (min (n_scale num) scale))
      in (if signch then ''-'' else '''') @ map BCD_CHAR (take (n_len num) (n_value num)) @
         (if scale > 0
          then CHR ''.'' # map BCD_CHAR (take (min scale (n_scale num)) (drop (n_len num) (n_value num))) @
               replicate (scale - n_scale num) (BCD_CHAR 0)
          else []))"

subsection \<open>Conversions to and from integers\<close>

lemma num2long_loop_correct:
  assumes "digits_ok ds" "0 \<le> val"
  shows "num2long_loop ds val =
    (if ds = [] \<or> val * 10 ^ length ds + mval ds \<le> LONG_MAX then Some (val * 10 ^ length ds + mval ds) else None)"
  using assms
proof (induction ds arbitrary: val)
  case (Cons n ds)
  have n: "0 \<le> n" "n < 10" "digits_ok ds" using Cons(2) by auto
  note b = mval_bounds [OF n(3)]
  have e: "val * 10 ^ length (n # ds) + mval (n # ds) = (val * 10 + n) * 10 ^ length ds + mval ds"
    by (simp add: mval_Cons algebra_simps)
  have p: "(1::int) \<le> 10 ^ length ds" by simp
  have small: "val * 10 + n \<le> LONG_MAX" if "(val * 10 + n) * 10 ^ length ds + mval ds \<le> LONG_MAX"
    using mult_left_mono [OF p, of "val * 10 + n"] n Cons(3) b that by simp
  have d: "val > LONG_MAX div BASE \<Longrightarrow> val * 10 + n > LONG_MAX" using n by (simp add: BASE_def LONG_MAX_def)
  have IH: "num2long_loop ds (val * 10 + n) =
    (if ds = [] \<or> (val * 10 + n) * 10 ^ length ds + mval ds \<le> LONG_MAX then Some ((val * 10 + n) * 10 ^ length ds + mval ds) else None)"
    using Cons(1) [OF n(3)] n Cons(3) by simp
  show ?case
  proof (cases "val * 10 + n \<le> LONG_MAX")
    case True
    then have "num2long_loop (n # ds) val = num2long_loop ds (val * 10 + n)" using d by (auto simp: BASE_def Let_def)
    then show ?thesis unfolding e using IH True by (cases ds) auto
  next
    case False
    then have "num2long_loop (n # ds) val = None" using d by (auto simp: BASE_def Let_def)
    then show ?thesis unfolding e using small False by auto
  qed
qed simp

lemma int2num_loop_correct: "lval (int2num_loop n) = int n \<and> digits_ok (int2num_loop n) \<and>
    (int2num_loop n \<noteq> [] \<longrightarrow> last (int2num_loop n) \<noteq> 0) \<and> (int2num_loop n = [] \<longleftrightarrow> n = 0)"
proof (induction n rule: int2num_loop.induct)
  case (1 val)
  show ?case
  proof (cases "val = 0")
    case True
    then show ?thesis by (simp add: int2num_loop.simps)
  next
    case False
    have "int (val mod 10) + 10 * int (val div 10) = int val" by (simp add: zmod_int zdiv_int)
    moreover have "val div 10 = 0 \<Longrightarrow> val mod 10 \<noteq> 0" using False by (simp add: div_eq_0_iff)
    ultimately show ?thesis using 1 [OF False] False by (subst (1 2 3 4 5) int2num_loop.simps) auto
  qed
qed

text \<open>The integer part, when it is a \<open>long\<close>.\<close>

lemma num2long_correct:
  assumes "bc_ok num"
  shows "bc_num2long num = (let v = mval (take (n_len num) (n_value num)) in
    if v \<le> LONG_MAX then (if n_sign num = PLUS then v else - v) else 0)"
  using num2long_loop_correct [of "take (n_len num) (n_value num)" 0] assms
  by (auto simp: bc_num2long_def Let_def bc_ok_def LONG_MAX_def)

lemma int2num_correct: "result_is (bc_int2num val) (of_int val) 0" "proper_sign (bc_int2num val)"
proof -
  define v where "v = (if val < 0 then - val else val)"
  define buffer where "buffer = v mod BASE # int2num_loop (nat (v div BASE))"
  have v: "0 \<le> v" by (simp add: v_def)
  note l = int2num_loop_correct [of "nat (v div BASE)"]
  have "0 \<le> v div 10" using v by (simp add: pos_imp_zdiv_nonneg_iff)
  then have b: "lval buffer = v" "digits_ok buffer" using l v by (simp_all add: buffer_def BASE_def)
  have h: "hd (rev buffer) \<noteq> 0 \<or> length buffer = 1" using l by (auto simp: buffer_def hd_rev)
  have n: "bc_int2num val = \<lparr>n_sign = (if val < 0 then MINUS else PLUS), n_len = length buffer, n_scale = 0, n_value = rev buffer\<rparr>"
    by (simp add: bc_int2num_def Let_def buffer_def v_def bc_new_num_def)
  have m: "bc_mag (bc_int2num val) = v" using b by (simp add: n bc_mag_def bc_digits_def mval_def)
  show "proper_sign (bc_int2num val)" unfolding proper_sign_def m by (simp add: n v_def)
  show "result_is (bc_int2num val) (of_int val) 0"
    using m b(2) h by (auto simp: result_is_def bc_canonical_def bc_ok_def stripped_def num_val_def n v_def hd_conv_nth buffer_def)
qed

subsection \<open>The parser reads decimal texts\<close>

text \<open>
  The texts the parser takes: a sign or none, digits, a point or none, digits; each part may be empty.
  The value is that of the digits, with those after the point as the fraction.
\<close>

definition text_sign :: "string \<Rightarrow> sign" where
  "text_sign s = (if at_ptr s = CHR ''-'' then MINUS else PLUS)"

definition text_body :: "string \<Rightarrow> string" where
  "text_body s = (if at_ptr s = CHR ''+'' \<or> at_ptr s = CHR ''-'' then tl s else s)"

definition after_point :: "string \<Rightarrow> string" where
  "after_point s = (if at_ptr s = CHR ''.'' then tl s else s)"

definition text_whole :: "string \<Rightarrow> string" where
  "text_whole s = takeWhile is_decimal (text_body s)"

definition text_after :: "string \<Rightarrow> string" where
  "text_after s = after_point (dropWhile is_decimal (text_body s))"

definition text_fraction :: "string \<Rightarrow> string" where
  "text_fraction s = takeWhile is_decimal (text_after s)"

definition decimal_text :: "string \<Rightarrow> bool" where
  "decimal_text s \<longleftrightarrow> dropWhile is_decimal (text_after s) = []"

definition text_val :: "string \<Rightarrow> rat" where
  "text_val s = sgn_val (text_sign s) * of_int (mval (map CH_VAL (text_whole s @ text_fraction s))) / 10 ^ length (text_fraction s)"

lemma char_facts [simp]: "CH_VAL CHR ''0'' = 0" "is_decimal CHR ''0''" "\<not> is_decimal CHR ''.''" "\<not> is_decimal CHR 0x00"
    "\<not> is_decimal CHR ''-''" "\<not> is_decimal CHR ''+''"
  by (simp_all add: CH_VAL_def is_decimal_def)

lemma at_ptr_simps [simp]: "at_ptr [] = CHR 0x00" "at_ptr (c # s) = c"
  by (simp_all add: at_ptr_def)

lemma at_ptr_end: "CHR 0x00 \<notin> set s \<Longrightarrow> at_ptr s = CHR 0x00 \<longleftrightarrow> s = []"
  by (cases s) auto

lemma CH_VAL_ok: "\<forall>c \<in> set s. is_decimal c \<Longrightarrow> digits_ok (map CH_VAL s)"
  by (induction s) (auto simp: is_decimal_def)

lemma CH_VAL_0: "CH_VAL c = 0 \<longleftrightarrow> c = CHR ''0''"
proof
  assume "CH_VAL c = 0"
  then have "(of_char c :: nat) = of_char CHR ''0''" by (simp add: CH_VAL_def)
  then show "c = CHR ''0''" by (simp only: of_char_eq_iff)
qed simp

lemma skip_nulls_spec: "\<exists>k. s = replicate k CHR ''0'' @ skip_nulls s \<and> at_ptr (skip_nulls s) \<noteq> CHR ''0''"
proof (induction s)
  case (Cons c s)
  then obtain k where k: "s = replicate k CHR ''0'' @ skip_nulls s" "at_ptr (skip_nulls s) \<noteq> CHR ''0''" by blast
  show ?case
  proof (cases "c = CHR ''0''")
    case True
    then show ?thesis using k by (intro exI [of _ "Suc k"]) simp
  qed (intro exI [of _ 0], simp)
qed simp

lemma count_digits_spec: "count_digits s n = (dropWhile is_decimal s, n + length (takeWhile is_decimal s))"
  by (induction s arbitrary: n) auto

lemma count_fraction_spec:
  "\<exists>fs tz. count_fraction s t n = (dropWhile is_decimal s, tz, n + length (takeWhile is_decimal s)) \<and>
     (fs \<noteq> [] \<and> last fs \<noteq> CHR ''0'' \<and> takeWhile is_decimal s = fs @ replicate tz CHR ''0'' \<or>
      takeWhile is_decimal s = replicate (tz - t) CHR ''0'' \<and> t \<le> tz)"
proof (induction s arbitrary: t n)
  case (Cons c s)
  show ?case
  proof (cases "is_decimal c")
    case True
    define t' where "t' = (if c = CHR ''0'' then t + 1 else 0)"
    obtain fs tz where IH: "count_fraction s t' (n + 1) = (dropWhile is_decimal s, tz, n + 1 + length (takeWhile is_decimal s))"
      "fs \<noteq> [] \<and> last fs \<noteq> CHR ''0'' \<and> takeWhile is_decimal s = fs @ replicate tz CHR ''0'' \<or>
       takeWhile is_decimal s = replicate (tz - t') CHR ''0'' \<and> t' \<le> tz"
      using Cons [of t' "n + 1"] by blast
    have "fs \<noteq> [] \<and> last fs \<noteq> CHR ''0'' \<and> takeWhile is_decimal (c # s) = (c # fs) @ replicate tz CHR ''0'' \<or>
       c = CHR ''0'' \<and> takeWhile is_decimal (c # s) = replicate (tz - t) CHR ''0'' \<and> t \<le> tz \<or>
       last [c] \<noteq> CHR ''0'' \<and> takeWhile is_decimal (c # s) = [c] @ replicate tz CHR ''0''"
      using IH(2) True by (auto simp: t'_def replicate_Suc [symmetric] Suc_diff_Suc simp del: replicate_Suc split: if_splits)
    moreover have "count_fraction (c # s) t n = (dropWhile is_decimal (c # s), tz, n + length (takeWhile is_decimal (c # s)))"
      using IH(1) True by (simp add: t'_def)
    ultimately show ?thesis by (metis last_ConsR list.distinct(1))
  qed auto
qed auto

lemma trunc_exact:
  assumes "0 \<le> M" "k \<le> j"
  shows "bc_trunc (sgn_val s * of_int M / 10 ^ k) j = sgn_val s * of_int M / 10 ^ k"
proof -
  have "(10::rat) ^ j = 10 ^ k * 10 ^ (j - k)" unfolding power_add [symmetric] using assms(2) by simp
  then have v: "sgn_val s * of_int M / 10 ^ k = sgn_val s * (of_int (M * 10 ^ (j - k)) / 10 ^ (j + 0))" by simp
  show ?thesis unfolding v using assms(1) trunc_signed [of "M * 10 ^ (j - k)" s j 0] by simp
qed

text \<open>The number built for the digits \<open>ds\<close> before the point and the first \<open>sc\<close> digits \<open>ff\<close> after it.\<close>

lemma build_number_correct:
  assumes str: "text_body str = replicate k CHR ''0'' @ ds @ aft" "at_ptr (ds @ aft) \<noteq> CHR ''0''" and
    dig: "\<forall>c \<in> set ds. is_decimal c" and frac: "0 < sc \<longrightarrow> take sc (tl aft) = take sc ff" "sc \<le> length ff" "\<forall>c \<in> set ff. is_decimal c"
  defines "r \<equiv> build_number str (length ds) sc"
  shows "bc_canonical r" "proper_sign r" "n_scale r = sc"
    "num_val r = sgn_val (text_sign str) * of_int (mval (map CH_VAL (ds @ take sc ff))) / 10 ^ sc"
proof -
  define whole where "whole = (if ds = [] then [0] else map CH_VAL ds)"
  define num where "num = \<lparr>n_sign = text_sign str, n_len = length whole, n_scale = sc, n_value = whole @ map CH_VAL (take sc ff)\<rparr>"
  have "skip_nulls (replicate k CHR ''0'' @ ds @ aft) = ds @ aft"
    using str(2) by (induction k) (auto simp: at_ptr_def split: list.splits)
  then have sk: "skip_nulls (text_body str) = ds @ aft" using str(1) by simp
  have "(if at_ptr str = CHR ''-'' then (MINUS, tl str) else (PLUS, if at_ptr str = CHR ''+'' then tl str else str)) = (text_sign str, text_body str)"
    by (auto simp: text_sign_def text_body_def)
  then have r: "r = (if bc_is_zero num then num\<lparr>n_sign := PLUS\<rparr> else num)"
    unfolding r_def build_number_def Let_def using sk frac(1) by (auto simp: num_def whole_def bc_new_num_def)
  have "digits_ok (map CH_VAL ds)" "digits_ok (map CH_VAL (take sc ff))"
    using dig frac(3) by (auto intro!: CH_VAL_ok dest: in_set_takeD)
  then have w: "digits_ok whole" "digits_ok (n_value num)" by (simp_all add: whole_def num_def)
  have "n_value num ! 0 = 0 \<Longrightarrow> length whole \<le> 1" using str(2) CH_VAL_0
    by (cases ds) (auto simp: num_def whole_def)
  then have num: "bc_canonical num" using w(2) frac(2)
    by (auto simp: bc_canonical_def bc_ok_def stripped_def num_def whole_def Suc_le_eq)
  show "bc_canonical r" using num unfolding r by (auto simp: bc_canonical_def bc_ok_def stripped_def)
  show "proper_sign r" using plus_zero(2) [of num] num unfolding r by simp
  show "n_scale r = sc" unfolding r by (simp add: num_def)
  have "bc_mag num = mval (map CH_VAL (ds @ take sc ff))" using frac(2) by (auto simp: bc_mag_def bc_digits_def num_def whole_def mval_Cons)
  then show "num_val r = sgn_val (text_sign str) * of_int (mval (map CH_VAL (ds @ take sc ff))) / 10 ^ sc"
    using plus_zero(1) [of num] num unfolding r by (simp add: num_val_def) (simp add: num_def)
qed

text \<open>A fraction whose last digit is not zero is not an integer.\<close>

lemma mval_mod:
  assumes "fs \<noteq> []" "0 \<le> CH_VAL (last fs)" "CH_VAL (last fs) < 10"
  shows "mval (map CH_VAL (ds @ fs)) mod 10 = CH_VAL (last fs)"
proof -
  have "map CH_VAL (ds @ fs) = map CH_VAL (ds @ butlast fs) @ [CH_VAL (last fs)]"
    using assms(1) by (metis append.assoc append_butlast_last_id list.simps(8,9) map_append)
  then have e: "mval (map CH_VAL (ds @ fs)) = mval (map CH_VAL (ds @ butlast fs)) * 10 + CH_VAL (last fs)"
    by (simp only: mval_simps) simp
  show ?thesis unfolding e mod_mult_self3 using assms(2,3) by simp
qed

lemma not_whole:
  assumes "M mod 10 \<noteq> 0" "0 < k"
  shows "sgn_val s * of_int M / 10 ^ k \<notin> \<int>"
proof
  assume "sgn_val s * of_int M / 10 ^ k \<in> \<int>"
  then obtain z where "sgn_val s * rat_of_int M / 10 ^ k = of_int z" by (auto elim: Ints_cases)
  then have "sgn_val s * rat_of_int M = of_int (z * 10 ^ k)" by (simp add: divide_eq_eq)
  then have "rat_of_int M = of_int (z * 10 ^ k) \<or> rat_of_int M = of_int (- z * 10 ^ k)" by (cases s) auto
  then have "M = z * 10 ^ k \<or> M = - z * 10 ^ k" by (simp only: of_int_eq_iff)
  then show False using assms by (cases k) auto
qed

lemma str2num_correct:
  assumes "CHR 0x00 \<notin> set str"
  shows "\<exists>num. bc_str2num str scale = (num, decimal_text str) \<and> bc_canonical num \<and> proper_sign num \<and> n_scale num \<le> scale \<and>
    (length (text_fraction str) \<le> scale \<and> 0 < n_scale num \<longrightarrow> num_val num \<notin> \<int>) \<and>
    num_val num = (if decimal_text str then bc_trunc (text_val str) scale else 0)"
proof -
  define body where "body = text_body str"
  obtain k where k: "body = replicate k CHR ''0'' @ skip_nulls body" "at_ptr (skip_nulls body) \<noteq> CHR ''0''"
    using skip_nulls_spec by blast
  define ds where "ds = takeWhile is_decimal (skip_nulls body)"
  define aft where "aft = dropWhile is_decimal (skip_nulls body)"
  have da: "skip_nulls body = ds @ aft" by (simp add: ds_def aft_def)
  have tw: "takeWhile is_decimal body = replicate k CHR ''0'' @ ds" "dropWhile is_decimal body = aft"
    by (subst k(1), simp add: takeWhile_append dropWhile_append ds_def aft_def)+
  define ff where "ff = text_fraction str"
  define rest where "rest = dropWhile is_decimal (text_after str)"
  have ta: "text_after str = after_point aft" using tw(2) by (simp add: text_after_def body_def)
  obtain tz fs where cf: "count_fraction (text_after str) 0 0 = (rest, tz, length ff)" "ff = fs @ replicate tz CHR ''0''"
    "fs = [] \<or> last fs \<noteq> CHR ''0''"
    using count_fraction_spec [of "text_after str" 0 0] unfolding ff_def text_fraction_def rest_def
    by (metis add_0 append_Nil diff_zero)
  have sc: "(if tz > 0 then length ff - tz else length ff) = length fs" using cf(2) by auto
  have "set (tl str) \<subseteq> set str" by (cases str) auto
  then have "set body \<subseteq> set str" by (auto simp: body_def text_body_def)
  moreover have "set aft \<subseteq> set body" unfolding tw(2) [symmetric] by (meson set_dropWhileD subsetI)
  moreover have "set (after_point aft) \<subseteq> set aft" by (cases aft) (auto simp: after_point_def)
  moreover have "set rest \<subseteq> set (after_point aft)" unfolding rest_def ta by (meson set_dropWhileD subsetI)
  ultimately have "CHR 0x00 \<notin> set rest" using assms by blast
  then have rest: "at_ptr rest = CHR 0x00 \<longleftrightarrow> decimal_text str"
    using at_ptr_end [of rest] by (simp add: decimal_text_def rest_def)
  have run: "bc_str2num str scale = (if at_ptr rest \<noteq> CHR 0x00 \<or> length ds + length fs = 0 then (BCG_zero, at_ptr rest = CHR 0x00)
      else (build_number str (length ds) (min (length fs) scale), True))"
    using cf(1) sc unfolding bc_str2num_def Let_def text_body_def [symmetric] body_def [symmetric] count_digits_spec
      ds_def [symmetric] aft_def [symmetric] prod.case after_point_def [symmetric] ta [symmetric] by simp
  have "\<forall>c \<in> set (text_whole str @ ff). is_decimal c"
    by (auto simp: text_whole_def ff_def text_fraction_def dest: set_takeWhileD)
  then have dok: "digits_ok (map CH_VAL (ds @ ff))" "\<forall>c \<in> set ff. is_decimal c" "\<forall>c \<in> set ds. is_decimal c"
    using CH_VAL_ok [of "ds @ ff"] tw(1) by (auto simp: text_whole_def body_def)
  define M where "M = mval (map CH_VAL (ds @ ff))"
  have M: "0 \<le> M" using mval_bounds [OF dok(1)] by (simp add: M_def)
  have mw: "mval (map CH_VAL (text_whole str @ ff)) = M"
    using tw(1) by (simp add: M_def text_whole_def body_def [symmetric])
  have tv: "text_val str = sgn_val (text_sign str) * of_int M / 10 ^ length ff"
    unfolding text_val_def ff_def [symmetric] mw ..
  let ?sc = "min (length fs) scale"
  show ?thesis
  proof (cases "at_ptr rest = CHR 0x00 \<and> length ds + length fs \<noteq> 0")
    case False
    have "n_scale BCG_zero = 0" "proper_sign BCG_zero" by (auto simp: BCG_zero_def bc_new_num_def proper_sign_def)
    moreover have "decimal_text str \<Longrightarrow> text_val str = 0" using False rest cf(2) unfolding tv by (simp add: M_def)
    ultimately show ?thesis using run False rest by (auto simp: bc_trunc_def)
  next
    case True
    have "0 < length fs \<Longrightarrow> tl aft = after_point aft"
    proof -
      assume "0 < length fs"
      then have "takeWhile is_decimal (after_point aft) \<noteq> []" using cf(2) ta by (auto simp: ff_def text_fraction_def)
      moreover have "takeWhile is_decimal (dropWhile is_decimal s) = []" for s by (induction s) auto
      ultimately show ?thesis unfolding aft_def by (auto simp: after_point_def)
    qed
    moreover have "after_point aft = ff @ rest" unfolding ta [symmetric] by (simp add: ff_def rest_def text_fraction_def)
    ultimately have fr: "0 < ?sc \<longrightarrow> take ?sc (tl aft) = take ?sc ff" using cf(2) by simp
    have pre: "text_body str = replicate k CHR ''0'' @ ds @ aft" "at_ptr (ds @ aft) \<noteq> CHR ''0''" "?sc \<le> length ff"
      using k da cf(2) by (simp_all add: body_def)
    note b = build_number_correct [OF pre(1,2) dok(3) fr pre(3) dok(2)]
    have "ds @ take ?sc ff = take (length (ds @ ff) - (length ff - ?sc)) (ds @ ff)" using cf(2) by simp
    then have m: "mval (map CH_VAL (ds @ take ?sc ff)) = M div 10 ^ (length ff - ?sc)"
      using mval_take [OF dok(1), of "length ff - ?sc"] by (simp add: M_def take_map)
    have "num_val (build_number str (length ds) ?sc) = bc_trunc (text_val str) scale"
    proof (cases "scale \<le> length fs")
      case le: True
      then have "text_val str = sgn_val (text_sign str) * (of_int M / 10 ^ (scale + (length ff - scale)))" unfolding tv using cf(2) by simp
      then show ?thesis using b(4) [unfolded m] le trunc_signed [OF M, of "text_sign str" scale "length ff - scale"] by (simp add: min_absorb2)
    next
      case False
      define Q where "Q = mval (map CH_VAL (ds @ fs))"
      have "M = Q * 10 ^ tz" by (simp add: M_def Q_def cf(2) power_add distrib_right mult.assoc)
      then have "text_val str = sgn_val (text_sign str) * of_int Q / 10 ^ length fs" unfolding tv using cf(2) by (simp add: power_add)
      moreover have "0 \<le> Q" using mval_bounds [of "map CH_VAL (ds @ fs)"] dok(1) cf(2) by (simp add: Q_def)
      moreover have "num_val (build_number str (length ds) ?sc) = sgn_val (text_sign str) * of_int Q / 10 ^ length fs"
        using b(4) False cf(2) by (simp add: Q_def min_absorb1)
      ultimately show ?thesis using trunc_exact [of Q "length fs" scale "text_sign str"] False by simp
    qed
    moreover have "num_val (build_number str (length ds) ?sc) \<notin> \<int>" if "length ff \<le> scale" "0 < ?sc"
    proof -
      have fs: "fs \<noteq> []" "?sc = length fs" "take ?sc ff = fs" using that cf(2) by auto
      have "mval (map CH_VAL (ds @ fs)) mod 10 = CH_VAL (last fs)"
        using fs(1) bspec [OF dok(2), of "last fs"] cf(2) by (intro mval_mod) (auto simp: is_decimal_def)
      then have "mval (map CH_VAL (ds @ fs)) mod 10 \<noteq> 0" using cf(3) fs(1) CH_VAL_0 by auto
      from not_whole [OF this, of "length fs"] show ?thesis unfolding b(4) fs(3) unfolding fs(2) using fs(1) by simp
    qed
    ultimately show ?thesis using run True rest b by (auto simp: ff_def)
  qed
qed


subsection \<open>The printer writes what the parser reads\<close>

lemma BCD_CHAR_digit:
  assumes "0 \<le> d" "d < 10"
  shows "is_decimal (BCD_CHAR d)" "CH_VAL (BCD_CHAR d) = d" "BCD_CHAR d \<noteq> CHR 0x00" "BCD_CHAR d \<noteq> CHR ''.''"
    "BCD_CHAR d \<noteq> CHR ''+''" "BCD_CHAR d \<noteq> CHR ''-''"
proof -
  have "nat (d + 48) < 256" using assms by simp
  then show v: "CH_VAL (BCD_CHAR d) = d" using assms by (simp add: CH_VAL_def BCD_CHAR_def of_char_of)
  then show c: "is_decimal (BCD_CHAR d)" using assms by (simp add: is_decimal_def)
  then show "BCD_CHAR d \<noteq> CHR 0x00" "BCD_CHAR d \<noteq> CHR ''.''" "BCD_CHAR d \<noteq> CHR ''+''" "BCD_CHAR d \<noteq> CHR ''-''"
    by (metis char_facts(3-6))+
qed

lemma BCD_CHARs:
  assumes "digits_ok ds"
  shows "\<forall>c \<in> set (map BCD_CHAR ds). is_decimal c" "map CH_VAL (map BCD_CHAR ds) = ds" "CHR 0x00 \<notin> set (map BCD_CHAR ds)"
    "at_ptr (map BCD_CHAR ds) \<noteq> CHR ''-''" "at_ptr (map BCD_CHAR ds) \<noteq> CHR ''+''"
  using assms by (induction ds) (auto simp: BCD_CHAR_digit, metis BCD_CHAR_digit(3))

text \<open>A text put together from its parts.\<close>

lemma text_parts:
  assumes "\<forall>c \<in> set w. is_decimal c" "\<forall>c \<in> set f. is_decimal c" "sg = (if s = PLUS then '''' else ''-'')"
  defines "str \<equiv> sg @ w @ (if f = [] then [] else CHR ''.'' # f)"
  shows "decimal_text str" "text_val str = sgn_val s * of_int (mval (map CH_VAL (w @ f))) / 10 ^ length f"
proof -
  let ?t = "if f = [] then [] else CHR ''.'' # f"
  have "at_ptr (w @ ?t) \<noteq> CHR ''-''" "at_ptr (w @ ?t) \<noteq> CHR ''+''"
    using assms(1) by (cases w; auto)+
  then have b: "text_body str = w @ ?t" "text_sign str = s"
    using assms(3) by (cases s; auto simp: str_def text_body_def text_sign_def)+
  have t: "takeWhile is_decimal (w @ ?t) = w" "dropWhile is_decimal (w @ ?t) = ?t"
    using assms(1) by (simp_all add: takeWhile_append2 dropWhile_append2)
  have a: "text_after str = f" by (simp add: text_after_def b(1) t after_point_def)
  show "decimal_text str" using assms(2) by (simp add: decimal_text_def a)
  have "text_fraction str = f" using assms(2) by (simp add: text_fraction_def a)
  moreover have "text_whole str = w" by (simp add: text_whole_def b(1) t)
  ultimately show "text_val str = sgn_val s * of_int (mval (map CH_VAL (w @ f))) / 10 ^ length f"
    by (simp add: text_val_def b(2))
qed

lemma num2str_text:
  assumes "bc_ok num"
  shows "CHR 0x00 \<notin> set (bc_num2str_ex num scale)" "decimal_text (bc_num2str_ex num scale)"
    "text_val (bc_num2str_ex num scale) = bc_trunc (num_val num) scale"
proof -
  define sc where "sc = min scale (n_scale num)"
  define w where "w = take (n_len num) (n_value num)"
  define f where "f = take sc (drop (n_len num) (n_value num)) @ replicate (scale - n_scale num) 0"
  define s where "s = (if n_sign num \<noteq> PLUS \<and> \<not> bc_is_zero_for_scale num (min (n_scale num) scale) then MINUS else PLUS)"
  define Q where "Q = mval (w @ take sc (drop (n_len num) (n_value num)))"
  have wf: "digits_ok w" "digits_ok f" using assms by (simp_all add: w_def f_def bc_ok_def)
  have l: "length f = scale" "n_len num + sc \<le> length (n_value num)" using assms by (auto simp: f_def sc_def bc_ok_def)
  have str: "bc_num2str_ex num scale =
      (if s = PLUS then '''' else ''-'') @ map BCD_CHAR w @ (if map BCD_CHAR f = [] then [] else CHR ''.'' # map BCD_CHAR f)"
    using l(1) unfolding bc_num2str_ex_def Let_def w_def [symmetric] sc_def [symmetric]
    by (cases "scale = 0") (auto simp: s_def f_def sc_def map_replicate_const)
  show "CHR 0x00 \<notin> set (bc_num2str_ex num scale)" unfolding str using BCD_CHARs(3) [OF wf(1)] BCD_CHARs(3) [OF wf(2)] by auto
  note P = text_parts [OF BCD_CHARs(1) [OF wf(1)] BCD_CHARs(1) [OF wf(2)], of _ s, OF refl, folded str]
  show "decimal_text (bc_num2str_ex num scale)" by (rule P(1))
  have wd: "w @ take sc (drop (n_len num) (n_value num)) = take (n_len num + sc) (n_value num)"
    by (simp add: w_def take_add)
  have z: "bc_is_zero_for_scale num (min (n_scale num) scale) \<longleftrightarrow> Q = 0"
    using is_zero_for_scale_iff [OF assms, of sc] wd by (simp add: Q_def sc_def min.commute)
  have "Q = bc_mag (num\<lparr>n_scale := sc\<rparr>)" by (simp add: Q_def wd bc_mag_def bc_digits_def)
  then have v: "sgn_val (n_sign num) * of_int Q / 10 ^ sc = bc_trunc (num_val num) sc"
    using cut_scale(2) [OF assms, of sc] by (simp add: num_val_def sc_def)
  have sv: "sgn_val s * of_int Q = sgn_val (n_sign num) * of_int Q" using z by (cases "n_sign num") (auto simp: s_def)
  have "mval (w @ f) = Q * 10 ^ (scale - n_scale num)" by (simp add: f_def Q_def append_assoc [symmetric] del: append_assoc)
  moreover have "text_val (bc_num2str_ex num scale) = sgn_val s * of_int (mval (w @ f)) / 10 ^ scale"
    using P(2) BCD_CHARs(2) [OF wf(1)] BCD_CHARs(2) [OF wf(2)] l(1) by (simp only: map_append length_map)
  ultimately have "text_val (bc_num2str_ex num scale) = sgn_val (n_sign num) * of_int Q * 10 ^ (scale - n_scale num) / 10 ^ scale"
    using sv by simp
  also have "\<dots> = sgn_val (n_sign num) * of_int Q / 10 ^ sc"
  proof -
    have "(10::rat) ^ scale = 10 ^ sc * 10 ^ (scale - n_scale num)" unfolding power_add [symmetric] by (simp add: sc_def)
    then show ?thesis by simp
  qed
  also have "\<dots> = bc_trunc (num_val num) scale"
  proof (cases "scale \<le> n_scale num")
    case False
    then have "bc_trunc (num_val num) scale = num_val num" "bc_trunc (num_val num) sc = num_val num"
      unfolding num_val_def using bc_mag_pos [OF assms] by (auto intro!: trunc_exact simp: sc_def)
    then show ?thesis using v by simp
  qed (use v in \<open>simp add: sc_def\<close>)
  finally show "text_val (bc_num2str_ex num scale) = bc_trunc (num_val num) scale" .
qed

lemma trunc_idem: "bc_trunc (bc_trunc x k) k = bc_trunc x k"
proof (cases "x < 0")
  case True
  then have "0 \<le> \<lfloor>- x * 10 ^ k\<rfloor>" by (simp add: mult_le_0_iff)
  then show ?thesis using trunc_exact [of "\<lfloor>- x * 10 ^ k\<rfloor>" k k MINUS] True by (simp add: bc_trunc_def)
next
  case False
  then have "0 \<le> \<lfloor>x * 10 ^ k\<rfloor>" by simp
  then show ?thesis using trunc_exact [of "\<lfloor>x * 10 ^ k\<rfloor>" k k PLUS] False by (simp add: bc_trunc_def)
qed

end
