(* ===== verification/BcRaise.thy ===== *)
theory BcRaise
  imports BcText
begin

text \<open>
  Powers (\<open>raise.c\<close>) and powers modulo a number (\<open>raisemod.c\<close>), both by repeated squaring. A negative
  exponent of \<open>bc_raise\<close> is a \<open>long\<close>; the one whose negation overflows is \<open>None\<close>. The scales are
  \<open>size_t\<close> and wrap around (\<open>to_size\<close>).
\<close>

subsection \<open>Powers\<close>

definition to_size :: "nat \<Rightarrow> nat" where "to_size k = k mod 2 ^ 64"

lemma to_size_small [simp]: "k < 2 ^ 64 \<Longrightarrow> to_size k = k"
  by (simp add: to_size_def)

text \<open>\<open>while ((exponent & 1) == 0)\<close>; the exponent is not zero there.\<close>

function raise_even :: "bc_num \<Rightarrow> nat \<Rightarrow> nat \<Rightarrow> (bc_num \<times> nat \<times> nat) option" where
  "raise_even pwr pwrscale exponent =
     (if exponent mod 2 = 0 \<and> exponent \<noteq> 0 then do {
        pwr \<leftarrow> bc_multiply pwr pwr (to_size (2 * pwrscale));
        raise_even pwr (to_size (2 * pwrscale)) (exponent div 2) }
      else Some (pwr, pwrscale, exponent))"
  by pat_completeness auto
termination by (relation "measure (\<lambda>(pwr, pwrscale, exponent). exponent)") auto
declare raise_even.simps [simp del]

function raise_loop :: "bc_num \<Rightarrow> nat \<Rightarrow> bc_num \<Rightarrow> nat \<Rightarrow> nat \<Rightarrow> bc_num option" where
  "raise_loop pwr pwrscale temp calcscale exponent =
     (if exponent > 0 then do {
        pwr \<leftarrow> bc_multiply pwr pwr (to_size (2 * pwrscale));
        (temp, calcscale) \<leftarrow>
          (if exponent mod 2 = 1 then do {
             temp \<leftarrow> bc_multiply temp pwr (to_size (to_size (2 * pwrscale) + calcscale));
             Some (temp, to_size (to_size (2 * pwrscale) + calcscale)) }
           else Some (temp, calcscale));
        raise_loop pwr (to_size (2 * pwrscale)) temp calcscale (exponent div 2) }
      else Some temp)"
  by pat_completeness auto
termination by (relation "measure (\<lambda>(pwr, pwrscale, temp, calcscale, exponent). exponent)") auto
declare raise_loop.simps [simp del]

text \<open>When the division by zero answers \<open>false\<close>, \<open>result\<close> keeps what it was.\<close>

definition bc_raise :: "bc_num \<Rightarrow> int \<Rightarrow> bc_num \<Rightarrow> nat \<Rightarrow> bc_num option" where
  "bc_raise num1 exponent result scale =
     (if exponent = 0 then Some BCG_one
      else if exponent = - LONG_MAX - 1 then None
      else (let is_neg = (exponent < 0);
                exponent = nat (if is_neg then - exponent else exponent);
                rscale = (if is_neg then scale else min (to_size (n_scale num1 * exponent)) (max scale (n_scale num1)))
            in do {
              (pwr, pwrscale, exponent) \<leftarrow> raise_even num1 (n_scale num1) exponent;
              temp \<leftarrow> raise_loop pwr pwrscale pwr pwrscale (exponent div 2);
              (if is_neg then do {
                 q \<leftarrow> bc_divide BCG_one temp rscale;
                 Some (case q of Some quot \<Rightarrow> quot | None \<Rightarrow> result) }
               else Some (if n_scale temp > rscale then temp\<lparr>n_scale := rscale\<rparr> else temp)) }))"

text \<open>A failing assertion is \<open>None\<close>.\<close>

definition bc_raise_bc_exponent :: "bc_num \<Rightarrow> bc_num \<Rightarrow> bc_num \<Rightarrow> nat \<Rightarrow> bc_num option" where
  "bc_raise_bc_exponent base expo result scale =
     (if n_scale expo \<noteq> 0 then None
      else (let exponent = bc_num2long expo
            in if exponent = 0 \<and> (n_len expo > 1 \<or> n_value expo ! 0 \<noteq> 0) then None
               else bc_raise base exponent result scale))"

subsection \<open>Powers modulo a number\<close>

datatype raise_mod_status = OK | BASE_HAS_FRACTIONAL | EXPO_HAS_FRACTIONAL | EXPO_IS_NEGATIVE | MOD_HAS_FRACTIONAL | MOD_IS_ZERO

text \<open>The calls whose answer is not looked at: on \<open>false\<close> the targets keep what they hold.\<close>

definition divmod_into :: "bc_num \<Rightarrow> bc_num \<Rightarrow> bc_num \<Rightarrow> bc_num \<Rightarrow> nat \<Rightarrow> (bc_num \<times> bc_num) option" where
  "divmod_into num1 num2 quot rem scale =
     map_option (\<lambda>r. case r of Some (q, m) \<Rightarrow> (q, m) | None \<Rightarrow> (quot, rem)) (bc_divmod num1 num2 scale)"

definition modulo_into :: "bc_num \<Rightarrow> bc_num \<Rightarrow> bc_num \<Rightarrow> nat \<Rightarrow> bc_num option" where
  "modulo_into num1 num2 result scale =
     map_option (\<lambda>r. case r of Some m \<Rightarrow> m | None \<Rightarrow> result) (bc_modulo num1 num2 scale)"

partial_function (option) raisemod_loop :: "bc_num \<Rightarrow> nat \<Rightarrow> nat \<Rightarrow> bc_num \<Rightarrow> bc_num \<Rightarrow> bc_num \<Rightarrow> bc_num \<Rightarrow> bc_num option" where
  "raisemod_loop modulus rscale scale exponent parity pwr temp =
     (if \<not> bc_is_zero exponent then
        Option.bind (divmod_into exponent BCG_two exponent parity 0) (\<lambda>(exponent, parity).
        Option.bind (if \<not> bc_is_zero parity
                     then Option.bind (bc_multiply temp pwr rscale) (\<lambda>temp. modulo_into temp modulus temp scale)
                     else Some temp) (\<lambda>temp.
        Option.bind (bc_multiply pwr pwr rscale) (\<lambda>pwr.
        Option.bind (modulo_into pwr modulus pwr scale) (\<lambda>pwr.
        raisemod_loop modulus rscale scale exponent parity pwr temp))))
      else Some temp)"

definition bc_raisemod :: "bc_num \<Rightarrow> bc_num \<Rightarrow> bc_num \<Rightarrow> bc_num \<Rightarrow> nat \<Rightarrow> (raise_mod_status \<times> bc_num) option" where
  "bc_raisemod base expo modulus result scale =
     (if n_scale base \<noteq> 0 then Some (BASE_HAS_FRACTIONAL, result)
      else if n_scale expo \<noteq> 0 then Some (EXPO_HAS_FRACTIONAL, result)
      else if bc_is_neg expo then Some (EXPO_IS_NEGATIVE, result)
      else if n_scale modulus \<noteq> 0 then Some (MOD_HAS_FRACTIONAL, result)
      else if bc_is_zero modulus then Some (MOD_IS_ZERO, result)
      else (let rscale = max scale (n_scale base)
            in do {
              temp \<leftarrow> (if bc_do_compare modulus BCG_one False False = 0 then Some (bc_new_num 1 scale)
                       else raisemod_loop modulus rscale scale expo BCG_zero base BCG_one);
              Some (OK, temp) }))"

subsection \<open>Exact powers\<close>

lemma multiply_result:
  assumes "result_is x v s" "result_is y w t" "s + t \<le> k"
  shows "\<exists>p. bc_multiply x y k = Some p \<and> result_is p (v * w) (s + t)"
proof -
  have c: "bc_ok x" "bc_ok y" "num_val x = v" "num_val y = w" "n_scale x = s" "n_scale y = t"
    using assms(1,2) by (simp_all add: result_is_def)
  have "n_scale x + n_scale y \<le> max k (max (n_scale x) (n_scale y))" using assms(3) c by simp
  from multiply_exact [OF c(1,2) this] show ?thesis using c by auto
qed

lemma raise_even_correct:
  assumes "result_is pwr v s" "0 < e" "s * e < 2 ^ 64"
  shows "\<exists>p k e'. raise_even pwr s e = Some (p, 2 ^ k * s, e') \<and> odd e' \<and> e = 2 ^ k * e' \<and> result_is p (v ^ (2 ^ k)) (2 ^ k * s)"
  using assms
proof (induction pwr s e arbitrary: v rule: raise_even.induct)
  case (1 pwr s e)
  show ?case
  proof (cases "even e")
    case True
    then have c: "e mod 2 = 0 \<and> e \<noteq> 0" "0 < e div 2" using 1(3) by auto
    have se: "2 * s * (e div 2) = s * e" using c(1) by auto
    have "2 * s * 1 \<le> 2 * s * (e div 2)" using c(2) by (intro mult_le_mono2) simp
    then have "2 * s \<le> s * e" unfolding se by (simp only: mult_1_right)
    then have "2 * s < 2 ^ 64" using 1(4) by linarith
    then have ts: "to_size (2 * s) = 2 * s" by (rule to_size_small)
    have lt: "2 * s * (e div 2) < 2 ^ 64" unfolding se by (rule 1(4))
    obtain p where p: "bc_multiply pwr pwr (2 * s) = Some p" "result_is p (v * v) (s + s)"
      using multiply_result [OF 1(2) 1(2), of "2 * s"] by auto
    have p2: "result_is p (v * v) (2 * s)" using p(2) by (simp add: mult_2)
    from 1(1) [OF c(1), unfolded ts, OF p(1) p2 c(2) lt] obtain q k e' where
      q: "raise_even p (2 * s) (e div 2) = Some (q, 2 ^ k * (2 * s), e')" "odd e'" "e div 2 = 2 ^ k * e'"
        "result_is q ((v * v) ^ (2 ^ k)) (2 ^ k * (2 * s))" by blast
    have "raise_even pwr s e = Some (q, 2 ^ Suc k * s, e')"
      by (subst raise_even.simps) (use c p q ts in \<open>simp add: ac_simps\<close>)
    moreover have "e = 2 ^ Suc k * e'" using q(3) True by auto
    moreover have "(v * v) ^ (2 ^ k) = v ^ (2 ^ Suc k)" unfolding power2_eq_square [symmetric] power_mult [symmetric] by simp
    ultimately show ?thesis using q by (intro exI [of _ q] exI [of _ "Suc k"] exI [of _ e']) (simp add: ac_simps)
  next
    case False
    then have "raise_even pwr s e = Some (pwr, s, e)" by (subst raise_even.simps) auto
    then show ?thesis using False 1(2) by (intro exI [of _ pwr] exI [of _ 0] exI [of _ e]) simp
  qed
qed

lemma square_pow: "(u::rat) ^ (e mod 2) * (u * u) ^ (e div 2) = u ^ e"
proof -
  have "u ^ e = u ^ (e mod 2 + 2 * (e div 2))" by simp
  also have "\<dots> = u ^ (e mod 2) * (u * u) ^ (e div 2)" by (simp only: power_add power_mult power2_eq_square)
  finally show ?thesis ..
qed

lemma raise_loop_correct:
  assumes "result_is pwr v s" "result_is temp w t" "t + 2 * s * e < 2 ^ 64"
  shows "\<exists>r. raise_loop pwr s temp t e = Some r \<and> result_is r (w * (v * v) ^ e) (t + 2 * s * e)"
  using assms
proof (induction pwr s temp t e arbitrary: v w rule: raise_loop.induct)
  case (1 pwr s temp t e)
  show ?case
  proof (cases "0 < e")
    case True
    obtain p where p: "bc_multiply pwr pwr (2 * s) = Some p" "result_is p (v * v) (s + s)"
      using multiply_result [OF 1(2) 1(2), of "2 * s"] by auto
    have p2: "result_is p (v * v) (2 * s)" using p(2) by (simp add: mult_2)
    have "2 * s * 1 \<le> 2 * s * e" using True by (intro mult_le_mono2) simp
    then have "2 * s \<le> 2 * s * e" by (simp only: mult_1_right)
    then have "2 * s < 2 ^ 64" "2 * s + t < 2 ^ 64" using 1(4) by linarith+
    then have ts: "to_size (2 * s) = 2 * s" "to_size (2 * s + t) = 2 * s + t" by (simp_all only: to_size_small)
    obtain q t' where q: "(if e mod 2 = 1 then do {
             temp \<leftarrow> bc_multiply temp p (2 * s + t);
             Some (temp, 2 * s + t) } else Some (temp, t)) = Some (q, t')"
      "result_is q (w * (v * v) ^ (e mod 2)) t'" "t' = t + 2 * s * (e mod 2)"
    proof (cases "e mod 2 = 1")
      case True
      have "t + 2 * s \<le> 2 * s + t" by simp
      from multiply_result [OF 1(3) p2 this] obtain q where
        "bc_multiply temp p (2 * s + t) = Some q" "result_is q (w * (v * v)) (t + 2 * s)" by blast
      then show ?thesis using that [of q "2 * s + t"] True by (simp add: add.commute)
    next
      case False
      then have "e mod 2 = 0" by simp
      then show ?thesis using that [of temp t] 1(3) by simp
    qed
    have e: "e = e mod 2 + 2 * (e div 2)" by simp
    have sum: "t' + 2 * (2 * s) * (e div 2) = t + 2 * s * e"
    proof -
      have "2 * s * e = 2 * s * (e mod 2) + 2 * s * (2 * (e div 2))" by (metis e distrib_left)
      then show ?thesis unfolding q(3) by (simp add: ac_simps)
    qed
    obtain r where r: "raise_loop p (2 * s) q t' (e div 2) = Some r"
      "result_is r (w * (v * v) ^ (e mod 2) * ((v * v) * (v * v)) ^ (e div 2)) (t' + 2 * (2 * s) * (e div 2))"
      using 1(1) [OF True, unfolded ts, OF p(1) q(1) refl p2 q(2)] 1(4) unfolding sum by blast
    have "raise_loop pwr s temp t e = Some r" by (subst raise_loop.simps) (simp only: if_P [OF True] ts p(1) bind.bind_lunit q(1) prod.case r(1))
    moreover note sum
    ultimately show ?thesis using r(2) [unfolded mult.assoc [of w] square_pow] by simp
  next
    case False
    then show ?thesis using 1(3) by (subst raise_loop.simps) simp
  qed
qed

lemma raise_power:
  assumes "result_is x v s" "0 < e" "s * e < 2 ^ 64"
  shows "\<exists>p k e' t. raise_even x s e = Some (p, k, e') \<and> raise_loop p k p k (e' div 2) = Some t \<and> result_is t (v ^ e) (s * e)"
proof -
  obtain p k e' where p: "raise_even x s e = Some (p, 2 ^ k * s, e')" "odd e'" "e = 2 ^ k * e'" "result_is p (v ^ (2 ^ k)) (2 ^ k * s)"
    using raise_even_correct [OF assms] by blast
  have e': "e' = 1 + 2 * (e' div 2)" using p(2) by auto
  have "2 ^ k * s + 2 * (2 ^ k * s) * (e' div 2) = (2 ^ k * s) * (1 + 2 * (e' div 2))" by (simp add: distrib_left)
  also have "\<dots> = s * e" unfolding e' [symmetric] p(3) by simp
  finally have size: "2 ^ k * s + 2 * (2 ^ k * s) * (e' div 2) = s * e" .
  obtain t where t: "raise_loop p (2 ^ k * s) p (2 ^ k * s) (e' div 2) = Some t"
    "result_is t (v ^ (2 ^ k) * (v ^ (2 ^ k) * v ^ (2 ^ k)) ^ (e' div 2)) (2 ^ k * s + 2 * (2 ^ k * s) * (e' div 2))"
    using raise_loop_correct [OF p(4) p(4), of "e' div 2"] assms(3) unfolding size by blast
  have "v ^ e = (v ^ (2 ^ k)) ^ e'" unfolding p(3) power_mult ..
  also have "\<dots> = v ^ (2 ^ k) * (v ^ (2 ^ k) * v ^ (2 ^ k)) ^ (e' div 2)"
    by (subst e') (simp add: power_mult power2_eq_square)
  finally have v: "v ^ (2 ^ k) * (v ^ (2 ^ k) * v ^ (2 ^ k)) ^ (e' div 2) = v ^ e" ..
  show ?thesis using p(1) t unfolding v size by auto
qed

lemma raise_correct:
  assumes "bc_canonical num1" "- LONG_MAX \<le> exponent" "n_scale num1 * nat \<bar>exponent\<bar> < 2 ^ 64"
  shows "0 < exponent \<Longrightarrow> (let k = min (n_scale num1 * nat exponent) (max scale (n_scale num1)) in
      \<exists>r. bc_raise num1 exponent old scale = Some r \<and> result_is r (bc_trunc (num_val num1 ^ nat exponent) k) k)"
    "exponent < 0 \<Longrightarrow> num_val num1 \<noteq> 0 \<Longrightarrow> has_room (1 + (n_len num1 + n_scale num1) * nat (- exponent) + scale) \<Longrightarrow>
      \<exists>r. bc_raise num1 exponent old scale = Some r \<and> result_is r (bc_trunc (1 / num_val num1 ^ nat (- exponent)) scale) scale"
    "exponent < 0 \<Longrightarrow> num_val num1 = 0 \<Longrightarrow> bc_raise num1 exponent old scale = Some old"
    "bc_raise num1 0 old scale = Some BCG_one"
proof -
  have x: "result_is num1 (num_val num1) (n_scale num1)" using assms(1) by (simp add: result_is_def)
  have lm: "exponent \<noteq> - LONG_MAX - 1" using assms(2) by simp
  show "bc_raise num1 0 old scale = Some BCG_one" by (simp add: bc_raise_def)
  {
    assume e: "0 < exponent"
    define k where "k = min (n_scale num1 * nat exponent) (max scale (n_scale num1))"
    from e obtain p j e' t where r: "raise_even num1 (n_scale num1) (nat exponent) = Some (p, j, e')" "raise_loop p j p j (e' div 2) = Some t"
      "result_is t (num_val num1 ^ nat exponent) (n_scale num1 * nat exponent)"
      using raise_power [OF x, of "nat exponent"] assms(3) by auto
    have run: "bc_raise num1 exponent old scale = Some (if n_scale t > k then t\<lparr>n_scale := k\<rparr> else t)"
      using e lm r(1,2) assms(3) by (simp add: bc_raise_def Let_def k_def)
    have t: "bc_canonical t" "num_val t = num_val num1 ^ nat exponent" "n_scale t = n_scale num1 * nat exponent"
      using r(3) by (simp_all add: result_is_def)
    have "k \<le> n_scale t" using t(3) by (simp add: k_def)
    from cut_scale [OF canonical_ok [OF t(1)] this] have "result_is (t\<lparr>n_scale := k\<rparr>) (bc_trunc (num_val t) k) k"
      using t(1) by (simp add: result_is_def bc_canonical_def stripped_def)
    moreover have "(if n_scale t > k then t\<lparr>n_scale := k\<rparr> else t) = t\<lparr>n_scale := k\<rparr>"
    proof (cases "n_scale t > k")
      case False
      then have "n_scale t = k" using t(3) by (simp add: k_def)
      then show ?thesis by auto
    qed simp
    ultimately have "bc_raise num1 exponent old scale = Some (t\<lparr>n_scale := k\<rparr>)"
      "result_is (t\<lparr>n_scale := k\<rparr>) (bc_trunc (num_val num1 ^ nat exponent) k) k" using run t(2) by simp_all
    then show "let k = min (n_scale num1 * nat exponent) (max scale (n_scale num1)) in
      \<exists>r. bc_raise num1 exponent old scale = Some r \<and> result_is r (bc_trunc (num_val num1 ^ nat exponent) k) k"
      unfolding Let_def k_def [symmetric] by blast
  }
  assume e: "exponent < 0"
  from e obtain p j e' t where r: "raise_even num1 (n_scale num1) (nat (- exponent)) = Some (p, j, e')" "raise_loop p j p j (e' div 2) = Some t"
    "result_is t (num_val num1 ^ nat (- exponent)) (n_scale num1 * nat (- exponent))"
    using raise_power [OF x, of "nat (- exponent)"] assms(3) by auto
  have run: "bc_raise num1 exponent old scale = Option.bind (bc_divide BCG_one t scale) (\<lambda>q. Some (case q of Some quot \<Rightarrow> quot | None \<Rightarrow> old))"
    using e lm r(1,2) by (simp add: bc_raise_def Let_def)
  have t: "bc_canonical t" "num_val t = num_val num1 ^ nat (- exponent)" using r(3) by (simp_all add: result_is_def)
  show "bc_raise num1 exponent old scale = Some old" if "num_val num1 = 0"
    using run t that e is_zero_iff [of t] num_val_0_iff [of t] by (simp add: divide_by_zero)
  show "\<exists>r. bc_raise num1 exponent old scale = Some r \<and> result_is r (bc_trunc (1 / num_val num1 ^ nat (- exponent)) scale) scale"
    if "num_val num1 \<noteq> 0" "has_room (1 + (n_len num1 + n_scale num1) * nat (- exponent) + scale)"
  proof -
    have "bc_mag t \<noteq> 0" using t that num_val_0_iff [of t] by simp
    have len: "1 \<le> n_len num1" using assms(1) by (simp add: bc_canonical_def)
    have "\<bar>num_val num1\<bar> ^ nat (- exponent) < (10 ^ n_len num1) ^ nat (- exponent)"
      using value_below [of num1] assms(1) e by (intro power_strict_mono) simp_all
    then have "\<bar>num_val t\<bar> < 10 ^ (n_len num1 * nat (- exponent))" unfolding t(2) power_abs power_mult .
    then have "n_len t \<le> n_len num1 * nat (- exponent)" using t(1) len e by (intro length_of_value) simp_all
    moreover have "n_scale t = n_scale num1 * nat (- exponent)" using r(3) by (simp add: result_is_def)
    moreover have "n_len BCG_one = 1" "n_scale BCG_one = 0" by (simp_all add: BCG_one_def bc_new_num_def)
    ultimately have "has_room (n_len BCG_one + n_scale BCG_one + n_len t + n_scale t + scale)"
      using that(2) by (elim has_room_le) (simp add: distrib_right)
    then show ?thesis using divide_correct [of BCG_one t scale] t run \<open>bc_mag t \<noteq> 0\<close> by auto
  qed
qed

subsection \<open>Remainders\<close>

text \<open>The remainder of the truncating division, and that it can be taken at any time.\<close>

definition trem :: "int \<Rightarrow> int \<Rightarrow> int" where "trem a m = sgn a * (\<bar>a\<bar> mod \<bar>m\<bar>)"

lemma trem_bounds: "m \<noteq> 0 \<Longrightarrow> \<bar>trem a m\<bar> < \<bar>m\<bar>"
  by (auto simp: trem_def abs_mult sgn_if)

lemma trem_small: "\<bar>a\<bar> < \<bar>m\<bar> \<Longrightarrow> trem a m = a"
  by (simp add: trem_def sgn_if)

lemma trem_mult:
  assumes "m \<noteq> 0"
  shows "trem (trem a m * b) m = trem (a * b) m"
proof (cases "\<bar>a\<bar> mod \<bar>m\<bar> = 0")
  case True
  then have "\<bar>a\<bar> * \<bar>b\<bar> mod \<bar>m\<bar> = 0" by (simp add: mod_eq_0_iff_dvd)
  then show ?thesis using True by (simp add: trem_def abs_mult)
next
  case False
  have "0 \<le> \<bar>a\<bar> mod \<bar>m\<bar>" using assms by simp
  with False have p: "0 < \<bar>a\<bar> mod \<bar>m\<bar>" by linarith
  then have "sgn (trem a m) = sgn a" "\<bar>trem a m\<bar> = \<bar>a\<bar> mod \<bar>m\<bar>"
    using False by (auto simp: trem_def sgn_mult abs_mult sgn_if)
  then show ?thesis by (simp add: trem_def [of "_ * b"] abs_mult sgn_mult mod_mult_left_eq)
qed

lemma trem_mult_both: "m \<noteq> 0 \<Longrightarrow> trem (trem a m * trem b m) m = trem (a * b) m"
  by (metis mult.commute trem_mult)

lemma trem_power: "m \<noteq> 0 \<Longrightarrow> trem (a * trem b m ^ n) m = trem (a * b ^ n) m"
proof (induction n)
  case (Suc n)
  have "trem (a * trem b m ^ Suc n) m = trem (trem (a * trem b m ^ n) m * trem b m) m"
    unfolding trem_mult [OF Suc(2)] by (simp add: ac_simps)
  also have "\<dots> = trem ((a * b ^ n) * b) m" unfolding Suc(1) [OF Suc(2)] trem_mult_both [OF Suc(2)] ..
  finally show ?case by (simp add: ac_simps)
qed simp

lemma trunc_int: "bc_trunc (of_int z) k = of_int z"
proof (cases "0 \<le> z")
  case True
  then show ?thesis using trunc_exact [of z 0 k PLUS] by simp
next
  case False
  then show ?thesis using trunc_exact [of "- z" 0 k MINUS] by simp
qed

lemma trunc_quotient:
  assumes "m \<noteq> 0"
  shows "rat_of_int a - bc_trunc (of_int a / of_int m) 0 * of_int m = of_int (trem a m)"
proof -
  define s where "s = (if sgn a = sgn m then PLUS else MINUS)"
  have q: "rat_of_int a / of_int m = sgn_val s * (of_int \<bar>a\<bar> / of_int \<bar>m\<bar>)"
    using assms by (auto simp: s_def sgn_if split: if_splits)
  have "bc_trunc (rat_of_int a / of_int m) 0 = sgn_val s * of_int (\<bar>a\<bar> div \<bar>m\<bar>)"
    unfolding q using floor_divide_of_int_eq [where 'a = rat, of "\<bar>a\<bar>" "\<bar>m\<bar>"] by (subst trunc_sgn) simp_all
  also have "\<dots> = of_int (sgn a * sgn m * (\<bar>a\<bar> div \<bar>m\<bar>))"
    using assms by (auto simp: s_def sgn_if)
  finally have t: "rat_of_int a - bc_trunc (of_int a / of_int m) 0 * of_int m = of_int (a - sgn a * sgn m * (\<bar>a\<bar> div \<bar>m\<bar>) * m)"
    by simp
  have sm: "sgn m * m = \<bar>m\<bar>" by (simp add: sgn_if)
  have "a - sgn a * sgn m * (\<bar>a\<bar> div \<bar>m\<bar>) * m = sgn a * \<bar>a\<bar> - sgn a * (\<bar>a\<bar> div \<bar>m\<bar> * (sgn m * m))"
    using sgn_mult_abs [of a] by (simp only: ac_simps)
  also have "\<dots> = sgn a * (\<bar>a\<bar> - \<bar>a\<bar> div \<bar>m\<bar> * \<bar>m\<bar>)"
    unfolding right_diff_distrib sm ..
  also have "\<dots> = trem a m" by (simp add: trem_def minus_div_mult_eq_mod)
  finally show ?thesis using t by simp
qed

subsection \<open>Powers modulo a number\<close>

text \<open>A number with an integer value, in at most \<open>s\<close> places after the point.\<close>

definition int_num :: "bc_num \<Rightarrow> int \<Rightarrow> nat \<Rightarrow> bool" where
  "int_num x v s \<longleftrightarrow> bc_canonical x \<and> num_val x = of_int v \<and> n_scale x \<le> s"

lemma int_num_result: "int_num x v 0 \<longleftrightarrow> result_is x (of_int v) 0"
  by (auto simp: int_num_def result_is_def)

lemma multiply_int:
  assumes "int_num x v s" "int_num y w s"
  shows "\<exists>p. bc_multiply x y s = Some p \<and> int_num p (v * w) s"
proof -
  have c: "bc_ok x" "bc_ok y" "num_val x * num_val y = of_int (v * w)" "prod_scale x y s \<le> s"
    using assms by (auto simp: int_num_def prod_scale_def)
  from multiply_correct [OF c(1,2), of s] show ?thesis
    unfolding c(3) trunc_int using c(4) by (auto simp: int_num_def result_is_def)
qed

lemma divmod_int:
  assumes "int_num x v s" "result_is m (of_int M) 0" "M \<noteq> 0" "has_room (n_len x + s + n_len m)"
  shows "\<exists>q r. bc_divmod x m k = Some (Some (q, r)) \<and> result_is q (bc_trunc (of_int v / of_int M) 0) 0 \<and>
    result_is r (of_int (trem v M)) (max (n_scale x) k)"
proof -
  have c: "bc_norm x" "bc_ok m" "num_val x = of_int v" "num_val m = of_int M" "n_scale m = 0"
    using assms(1,2) by (simp_all add: int_num_def result_is_def)
  have "bc_mag m \<noteq> 0" using num_val_0_iff [of m] c(4) assms(3) by simp
  moreover have "n_scale x \<le> s" using assms(1) by (simp add: int_num_def)
  then have "has_room (n_len x + n_scale x + n_len m + n_scale m)" using assms(4) c(5) by (elim has_room_le) simp
  ultimately show ?thesis using divmod_correct [OF c(1,2), of k]
    unfolding c(3-5) trunc_quotient [OF assms(3)] by auto
qed

lemma modulo_int:
  assumes "int_num x v s" "result_is m (of_int M) 0" "M \<noteq> 0" "has_room (n_len x + s + n_len m)"
  shows "\<exists>r. modulo_into x m x s = Some r \<and> int_num r (trem v M) s"
proof -
  obtain q r where r: "bc_divmod x m s = Some (Some (q, r))" "result_is r (of_int (trem v M)) (max (n_scale x) s)"
    using divmod_int [OF assms] by blast
  then have "int_num r (trem v M) s" using assms(1) by (simp add: int_num_def result_is_def)
  then show ?thesis using r(1) by (simp add: modulo_into_def bc_modulo_def)
qed

lemma halve_int:
  assumes "int_num x (int E) 0" "has_room (n_len x + 1)"
  shows "\<exists>q r. divmod_into x BCG_two x old 0 = Some (q, r) \<and> int_num q (int (E div 2)) 0 \<and> (bc_is_zero r \<longleftrightarrow> even E)"
proof -
  have "result_is BCG_two (of_int 2) 0" by (simp add: result_is_def) (simp add: BCG_two_def bc_new_num_def)
  moreover have "has_room (n_len x + 0 + n_len BCG_two)" using assms(2) by (simp add: BCG_two_def bc_new_num_def)
  ultimately obtain q r where
    r: "bc_divmod x BCG_two 0 = Some (Some (q, r))" "result_is q (bc_trunc (of_int (int E) / of_int 2) 0) 0"
      "result_is r (of_int (trem (int E) 2)) (max (n_scale x) 0)" using divmod_int [OF assms(1), of BCG_two 2 0] by auto
  have "bc_trunc (of_int (int E) / of_int 2) 0 = of_int (int E div 2)"
    using floor_divide_of_int_eq [where 'a = rat, of "int E" 2] by (simp add: bc_trunc_def)
  then have "int_num q (int (E div 2)) 0" using r(2) unfolding int_num_result by (simp add: zdiv_int)
  moreover have "bc_is_zero r \<longleftrightarrow> even E"
  proof -
    have "bc_is_zero r \<longleftrightarrow> trem (int E) 2 = 0"
      using r(3) is_zero_iff [of r] num_val_0_iff [of r] by (auto simp: result_is_def)
    also have "\<dots> \<longleftrightarrow> int E mod 2 = 0" by (auto simp: trem_def sgn_if)
    also have "\<dots> \<longleftrightarrow> even E" by presburger
    finally show ?thesis .
  qed
  ultimately show ?thesis using r(1) by (simp add: divmod_into_def)
qed

lemma raisemod_loop_correct:
  assumes "int_num expo (int E) 0" "int_num pwr P s" "int_num temp T s" "\<bar>T\<bar> < \<bar>M\<bar>" "\<bar>P\<bar> < 10 ^ K" "E < 10 ^ ke" "result_is m (of_int M) 0"
    and room: "\<bar>M\<bar> \<le> 10 ^ K" "1 \<le> K" "has_room (2 * K + s + n_len m)" "1 \<le> ke" "has_room (ke + 1)"
  shows "\<exists>r. raisemod_loop m s s expo parity pwr temp = Some r \<and> int_num r (trem (T * P ^ E) M) s"
  using assms(1-6)
proof (induction E arbitrary: expo parity pwr P temp T rule: less_induct)
  case (less E)
  have reduce: "\<exists>r. modulo_into x m x s = Some r \<and> int_num r (trem (V * P) M) s"
    if "int_num x (V * P) s" "\<bar>V\<bar> \<le> 10 ^ K" for x V
  proof -
    have "\<bar>V\<bar> * \<bar>P\<bar> \<le> 10 ^ K * \<bar>P\<bar>" using that(2) by (intro mult_right_mono) simp_all
    also have "\<dots> < 10 ^ K * 10 ^ K" using less(6) by (intro mult_strict_left_mono) simp_all
    finally have "\<bar>V * P\<bar> < 10 ^ K * 10 ^ K" unfolding abs_mult .
    then have "rat_of_int \<bar>V * P\<bar> < of_int (10 ^ K * 10 ^ K)" by (simp only: of_int_less_iff)
    then have "\<bar>num_val x\<bar> < 10 ^ (2 * K)" using that(1) by (simp add: int_num_def mult_2 power_add)
    then have "n_len x \<le> 2 * K" using that(1) room(2) by (intro length_of_value) (simp_all add: int_num_def)
    then have "has_room (n_len x + s + n_len m)" using room(3) by (elim has_room_le) simp
    then show ?thesis using modulo_int [OF that(1) assms(7)] less(5) by auto
  qed
  have z: "bc_is_zero expo \<longleftrightarrow> E = 0"
    using less(2) is_zero_iff [of expo] num_val_0_iff [of expo] by (simp add: int_num_def)
  have M: "M \<noteq> 0" using less(5) by auto
  show ?case
  proof (cases "E = 0")
    case True
    then show ?thesis using z less(4,5) by (subst raisemod_loop.simps) (simp add: trem_small)
  next
    case False
    have "rat_of_nat E < of_nat (10 ^ ke)" using less(7) by (simp only: of_nat_less_iff)
    then have "n_len expo \<le> ke" using less(2) room(4) by (intro length_of_value) (simp_all add: int_num_def)
    then have long: "has_room (n_len expo + 1)" using room(5) by (elim has_room_le) simp
    obtain q r where h: "divmod_into expo BCG_two expo parity 0 = Some (q, r)" "int_num q (int (E div 2)) 0" "bc_is_zero r \<longleftrightarrow> even E"
      using halve_int [OF less(2)] long by blast
    obtain t T' where t: "(if \<not> bc_is_zero r then Option.bind (bc_multiply temp pwr s) (\<lambda>temp. modulo_into temp m temp s) else Some temp) = Some t"
      "int_num t T' s" "\<bar>T'\<bar> < \<bar>M\<bar>" "trem (T' * (P * P) ^ (E div 2)) M = trem (T * P ^ E) M"
    proof (cases "even E")
      case True
      then have "P ^ E = (P * P) ^ (E div 2)" by (elim evenE) (simp add: power_mult power2_eq_square)
      then show ?thesis using that [of temp T] h(3) True less(4,5) by simp
    next
      case False
      obtain t where t: "bc_multiply temp pwr s = Some t" "int_num t (T * P) s" using multiply_int [OF less(4,3)] by blast
      obtain u where u: "modulo_into t m t s = Some u" "int_num u (trem (T * P) M) s" using reduce [OF t(2)] less(5) room(1) by auto
      have "P ^ E = P * (P * P) ^ (E div 2)" using False
        by (elim oddE) (simp add: power_mult power2_eq_square)
      then have "trem (trem (T * P) M * (P * P) ^ (E div 2)) M = trem (T * P ^ E) M" using trem_mult [OF M] by (simp add: mult.assoc)
      then show ?thesis using that [of u "trem (T * P) M"] t u h(3) False trem_bounds [OF M] by simp
    qed
    obtain p where p: "bc_multiply pwr pwr s = Some p" "int_num p (P * P) s" using multiply_int [OF less(3,3)] by blast
    obtain p2 where p2: "modulo_into p m p s = Some p2" "int_num p2 (trem (P * P) M) s" using reduce [OF p(2)] less(6) by auto
    have "\<bar>trem (P * P) M\<bar> < 10 ^ K" using trem_bounds [OF M, of "P * P"] room(1) by linarith
    moreover have "E div 2 < 10 ^ ke" using less(7) by (rule le_less_trans [rotated]) simp
    moreover have "E div 2 < E" using False by simp
    note le = this
    ultimately have IH: "\<exists>r'. raisemod_loop m s s q r p2 t = Some r' \<and> int_num r' (trem (T' * trem (P * P) M ^ (E div 2)) M) s"
      using less(1) [OF le h(2) p2(2) t(2,3)] by blast
    from IH obtain res where
      res: "raisemod_loop m s s q r p2 t = Some res" "int_num res (trem (T' * trem (P * P) M ^ (E div 2)) M) s" by blast
    have "raisemod_loop m s s expo parity pwr temp = Some res"
      by (subst raisemod_loop.simps) (use z False h(1) t(1) p(1) p2(1) res(1) in \<open>simp split del: if_split\<close>)
    then show ?thesis using res(2) unfolding trem_power [OF M] t(4) by blast
  qed
qed

lemma int_of_num:
  assumes "bc_canonical x" "n_scale x = 0"
  obtains v where "int_num x v 0" "n_sign x = PLUS \<Longrightarrow> 0 \<le> v"
proof (cases "n_sign x")
  case PLUS
  then show ?thesis using that [of "bc_mag x"] assms bc_mag_pos [of x] by (simp add: int_num_def num_val_def)
next
  case MINUS
  then show ?thesis using that [of "- bc_mag x"] assms by (simp add: int_num_def num_val_def)
qed

lemma raisemod_correct:
  assumes "bc_canonical base" "n_scale base = 0" "bc_canonical expo" "n_scale expo = 0" "n_sign expo = PLUS"
    "bc_canonical m" "n_scale m = 0" "num_val m \<noteq> 0"
    and room: "has_room (2 * (n_len base + n_len m) + scale + n_len m)" "has_room (n_len expo + 1)"
  shows "\<exists>r B E M. bc_raisemod base expo m old scale = Some (OK, r) \<and> num_val base = of_int B \<and> num_val expo = of_nat E \<and>
    num_val m = of_int M \<and> int_num r (trem (B ^ E) M) scale"
proof -
  obtain B where B: "int_num base B 0" using int_of_num [OF assms(1,2)] by blast
  obtain E' where E': "int_num expo E' 0" "0 \<le> E'" using int_of_num [OF assms(3,4)] assms(5) by blast
  define E where "E = nat E'"
  then have E: "int_num expo (int E) 0" using E' by simp
  obtain M where M: "int_num m M 0" using int_of_num [OF assms(6,7)] by blast
  then have M': "result_is m (of_int M) 0" by (simp add: int_num_result)
  have M0: "M \<noteq> 0" using M assms(8) by (auto simp: int_num_def)
  have nz: "\<not> bc_is_zero m" using assms(6,8) is_zero_iff [of m] num_val_0_iff [of m] by simp
  have cmp: "bc_do_compare m BCG_one False False = 0 \<longleftrightarrow> \<bar>M\<bar> = 1"
  proof -
    have "bc_do_compare m BCG_one False False = 0 \<longleftrightarrow> \<bar>num_val m\<bar> = \<bar>num_val BCG_one\<bar>"
      unfolding compare_unsigned [OF assms(6) BCG_ok(2)] common_mag_cmp [OF canonical_ok [OF assms(6)] canonical_ok [OF BCG_ok(2)]]
      by (auto split: if_splits)
    also have "\<dots> \<longleftrightarrow> \<bar>M\<bar> = 1" using M by (auto simp: int_num_def abs_if split: if_splits)
    finally show ?thesis .
  qed
  have start: "bc_raisemod base expo m old scale = Option.bind (if \<bar>M\<bar> = 1 then Some (bc_new_num 1 scale)
      else raisemod_loop m scale scale expo BCG_zero base BCG_one) (\<lambda>t. Some (OK, t))"
    using assms(2,4,5,7) nz cmp by (simp add: bc_raisemod_def bc_is_neg_def)
  obtain r where r: "(if \<bar>M\<bar> = 1 then Some (bc_new_num 1 scale) else raisemod_loop m scale scale expo BCG_zero base BCG_one) = Some r"
    "int_num r (trem (B ^ E) M) scale"
  proof (cases "\<bar>M\<bar> = 1")
    case True
    then have "int_num (bc_new_num 1 scale) (trem (B ^ E) M) scale"
      using new_zero [of scale] by (simp add: int_num_def result_is_def trem_def)
    then show ?thesis using that True by simp
  next
    case False
    have p: "int_num base B scale" "int_num BCG_one 1 scale"
      using B by (simp_all add: int_num_def) (simp add: BCG_one_def bc_new_num_def)
    have "\<bar>1\<bar> < \<bar>M\<bar>" using False M0 by linarith
    moreover have "\<bar>B\<bar> < 10 ^ n_len base" "\<bar>M\<bar> < 10 ^ n_len m" "int E < 10 ^ n_len expo"
    proof -
      have "rat_of_int \<bar>B\<bar> < of_int (10 ^ n_len base)" "rat_of_int \<bar>M\<bar> < of_int (10 ^ n_len m)" "rat_of_int (int E) < of_int (10 ^ n_len expo)"
        using value_below [of base] value_below [of m] value_below [of expo] assms(1,3,6) B M E by (simp_all add: int_num_def)
      then show "\<bar>B\<bar> < 10 ^ n_len base" "\<bar>M\<bar> < 10 ^ n_len m" "int E < 10 ^ n_len expo" by (simp_all only: of_int_less_iff)
    qed
    note bounds = this
    have "(10::int) ^ n_len base \<le> 10 ^ (n_len base + n_len m)" "(10::int) ^ n_len m \<le> 10 ^ (n_len base + n_len m)"
      by (intro power_increasing; simp)+
    then have "\<bar>B\<bar> < 10 ^ (n_len base + n_len m)" "\<bar>M\<bar> \<le> 10 ^ (n_len base + n_len m)" using bounds by linarith+
    moreover have "int E < int (10 ^ n_len expo)" using bounds(3) by simp
    then have "E < 10 ^ n_len expo" by (simp only: of_nat_less_iff)
    moreover have "1 \<le> n_len base + n_len m" "1 \<le> n_len expo" using assms(1,3) by (simp_all add: bc_canonical_def)
    ultimately show ?thesis using raisemod_loop_correct [OF E p, of M "n_len base + n_len m" "n_len expo" m BCG_zero] M' room that False by auto
  qed
  then show ?thesis using start B E M by (auto simp: int_num_def)
qed

end
