(* ===== verification/BcMath.thy ===== *)
theory BcMath
  imports BcRaise
begin

text \<open>
  The PHP functions of \<open>ext/bcmath/bcmath.c\<close>, from texts to texts. \<open>bc_precision\<close> is the default scale,
  \<open>None\<close> for \<open>scale_param\<close> the omitted argument. A function returns an error or the text of its result;
  the outer \<open>None\<close> is a failed assertion, an access out of bounds or a value that leaves its type in the library. A text is what C
  reads of the string, up to its first NUL.
\<close>

datatype bc_error =
    argument_value_error nat string
  | division_by_zero_error string

type_synonym bc_answer = "(bc_error + string) option"

definition get_scale :: "nat \<Rightarrow> nat \<Rightarrow> int option \<Rightarrow> bc_error + nat" where
  "get_scale bc_precision arg scale_param =
     (case scale_param of
        None \<Rightarrow> Inr bc_precision
      | Some scale_param \<Rightarrow>
          (if scale_param < 0 \<or> scale_param > INT_MAX
           then Inl (argument_value_error arg ''must be between 0 and 2147483647'')
           else Inr (nat scale_param)))"

text \<open>\<open>None\<close> is \<open>FAILURE\<close>.\<close>

definition php_str2num :: "string \<Rightarrow> bc_num option" where
  "php_str2num str =
     (case dropWhile (\<lambda>c. c \<noteq> CHR ''.'') str of
        [] \<Rightarrow> (case bc_str2num str 0 of (num, ok) \<Rightarrow> if \<not> ok then None else Some num)
      | _ # p1 \<Rightarrow> (case bc_str2num str (length p1) of (num, ok) \<Rightarrow> if \<not> ok then None else Some num))"

text \<open>The beginning all functions with two operands have.\<close>

definition with_operands :: "nat \<Rightarrow> string \<Rightarrow> string \<Rightarrow> int option \<Rightarrow> (bc_num \<Rightarrow> bc_num \<Rightarrow> nat \<Rightarrow> bc_answer) \<Rightarrow> bc_answer" where
  "with_operands bc_precision left right scale_param body =
     (case get_scale bc_precision 3 scale_param of
        Inl e \<Rightarrow> Some (Inl e)
      | Inr scale \<Rightarrow>
          (case php_str2num left of
             None \<Rightarrow> Some (Inl (argument_value_error 1 ''is not well-formed''))
           | Some first \<Rightarrow>
               (case php_str2num right of
                  None \<Rightarrow> Some (Inl (argument_value_error 2 ''is not well-formed''))
                | Some second \<Rightarrow> body first second scale)))"

definition bcadd :: "nat \<Rightarrow> string \<Rightarrow> string \<Rightarrow> int option \<Rightarrow> bc_answer" where
  "bcadd bc_precision left right scale_param = with_operands bc_precision left right scale_param
     (\<lambda>first second scale. let result = bc_add first second scale in Some (Inr (bc_num2str_ex result scale)))"

definition bcsub :: "nat \<Rightarrow> string \<Rightarrow> string \<Rightarrow> int option \<Rightarrow> bc_answer" where
  "bcsub bc_precision left right scale_param = with_operands bc_precision left right scale_param
     (\<lambda>first second scale. let result = bc_sub first second scale in Some (Inr (bc_num2str_ex result scale)))"

definition bcmul :: "nat \<Rightarrow> string \<Rightarrow> string \<Rightarrow> int option \<Rightarrow> bc_answer" where
  "bcmul bc_precision left right scale_param = with_operands bc_precision left right scale_param
     (\<lambda>first second scale. do {
        result \<leftarrow> bc_multiply first second scale;
        Some (Inr (bc_num2str_ex result scale)) })"

definition bcdiv :: "nat \<Rightarrow> string \<Rightarrow> string \<Rightarrow> int option \<Rightarrow> bc_answer" where
  "bcdiv bc_precision left right scale_param = with_operands bc_precision left right scale_param
     (\<lambda>first second scale. do {
        quot \<leftarrow> bc_divide first second scale;
        (case quot of
           None \<Rightarrow> Some (Inl (division_by_zero_error ''Division by zero''))
         | Some result \<Rightarrow> Some (Inr (bc_num2str_ex result scale))) })"

definition bcmod :: "nat \<Rightarrow> string \<Rightarrow> string \<Rightarrow> int option \<Rightarrow> bc_answer" where
  "bcmod bc_precision left right scale_param = with_operands bc_precision left right scale_param
     (\<lambda>first second scale. do {
        rem \<leftarrow> bc_modulo first second scale;
        (case rem of
           None \<Rightarrow> Some (Inl (division_by_zero_error ''Modulo by zero''))
         | Some result \<Rightarrow> Some (Inr (bc_num2str_ex result scale))) })"

definition bcpowmod :: "nat \<Rightarrow> string \<Rightarrow> string \<Rightarrow> string \<Rightarrow> int option \<Rightarrow> bc_answer" where
  "bcpowmod bc_precision base_str exponent_str modulus_str scale_param =
     (case get_scale bc_precision 4 scale_param of
        Inl e \<Rightarrow> Some (Inl e)
      | Inr scale \<Rightarrow>
          (case php_str2num base_str of
             None \<Rightarrow> Some (Inl (argument_value_error 1 ''is not well-formed''))
           | Some bc_base \<Rightarrow>
          (case php_str2num exponent_str of
             None \<Rightarrow> Some (Inl (argument_value_error 2 ''is not well-formed''))
           | Some bc_expo \<Rightarrow>
          (case php_str2num modulus_str of
             None \<Rightarrow> Some (Inl (argument_value_error 3 ''is not well-formed''))
           | Some bc_modulus \<Rightarrow> do {
               (status, result) \<leftarrow> bc_raisemod bc_base bc_expo bc_modulus BCG_zero scale;
               (case status of
                  BASE_HAS_FRACTIONAL \<Rightarrow> Some (Inl (argument_value_error 1 ''cannot have a fractional part''))
                | EXPO_HAS_FRACTIONAL \<Rightarrow> Some (Inl (argument_value_error 2 ''cannot have a fractional part''))
                | EXPO_IS_NEGATIVE \<Rightarrow> Some (Inl (argument_value_error 2 ''must be greater than or equal to 0''))
                | MOD_HAS_FRACTIONAL \<Rightarrow> Some (Inl (argument_value_error 3 ''cannot have a fractional part''))
                | MOD_IS_ZERO \<Rightarrow> Some (Inl (division_by_zero_error ''Modulo by zero''))
                | OK \<Rightarrow> Some (Inr (bc_num2str_ex result scale))) }))))"

definition bcpow :: "nat \<Rightarrow> string \<Rightarrow> string \<Rightarrow> int option \<Rightarrow> bc_answer" where
  "bcpow bc_precision base_str exponent_str scale_param = with_operands bc_precision base_str exponent_str scale_param
     (\<lambda>first bc_exponent scale.
        if n_scale bc_exponent \<noteq> 0 then Some (Inl (argument_value_error 2 ''cannot have a fractional part''))
        else (let exponent = bc_num2long bc_exponent
              in if exponent = 0 \<and> (n_len bc_exponent > 1 \<or> n_value bc_exponent ! 0 \<noteq> 0)
                 then Some (Inl (argument_value_error 2 ''is too large''))
                 else do {
                   result \<leftarrow> bc_raise first exponent BCG_zero scale;
                   Some (Inr (bc_num2str_ex result scale)) }))"

definition bccomp :: "nat \<Rightarrow> string \<Rightarrow> string \<Rightarrow> int option \<Rightarrow> bc_error + int" where
  "bccomp bc_precision left right scale_param =
     (case get_scale bc_precision 3 scale_param of
        Inl e \<Rightarrow> Inl e
      | Inr scale \<Rightarrow>
          (case bc_str2num left scale of (first, ok) \<Rightarrow>
             if \<not> ok then Inl (argument_value_error 1 ''is not well-formed'')
             else (case bc_str2num right scale of (second, ok) \<Rightarrow>
                     if \<not> ok then Inl (argument_value_error 2 ''is not well-formed'')
                     else Inr (bc_compare first second))))"

subsection \<open>Reading the operands\<close>

lemma floor_div:
  fixes x :: rat
  assumes "0 < m"
  shows "\<lfloor>x / of_int m\<rfloor> = \<lfloor>x\<rfloor> div m"
proof (rule floor_unique)
  let ?q = "\<lfloor>x\<rfloor> div m"
  have "?q * m \<le> \<lfloor>x\<rfloor>" "\<lfloor>x\<rfloor> < (?q + 1) * m"
    using quotient_bounds [OF assms, of ?q "\<lfloor>x\<rfloor>"] quotient_bounds [OF assms, of "?q + 1" "\<lfloor>x\<rfloor>"] by auto
  then have "of_int (?q * m) \<le> x" "x < of_int ((?q + 1) * m)" by (simp_all only: le_floor_iff floor_less_iff)
  then show "of_int ?q \<le> x / of_int m" "x / of_int m < of_int ?q + 1"
    using assms by (simp_all add: pos_le_divide_eq pos_divide_less_eq)
qed

lemma trunc_trunc:
  assumes "k \<le> j"
  shows "bc_trunc (bc_trunc x j) k = bc_trunc x k"
proof -
  have p: "(10::rat) ^ j = 10 ^ k * 10 ^ (j - k)" unfolding power_add [symmetric] using assms by simp
  have nn: "bc_trunc (bc_trunc (sgn_val s * y) j) k = bc_trunc (sgn_val s * y) k" if "0 \<le> y" for y s
  proof -
    have "0 \<le> \<lfloor>y * 10 ^ j\<rfloor>" using that by simp
    then have "bc_trunc (bc_trunc (sgn_val s * y) j) k = sgn_val s * of_int (\<lfloor>y * 10 ^ j\<rfloor> div 10 ^ (j - k)) / 10 ^ k"
      using trunc_signed [of "\<lfloor>y * 10 ^ j\<rfloor>" s k "j - k"] assms that by (simp add: trunc_sgn)
    moreover have "\<lfloor>y * 10 ^ j\<rfloor> div 10 ^ (j - k) = \<lfloor>y * 10 ^ k\<rfloor>"
      using floor_div [of "10 ^ (j - k)" "y * 10 ^ j"] p by simp
    ultimately show ?thesis using that by (simp add: trunc_sgn)
  qed
  show ?thesis using nn [of x PLUS] nn [of "- x" MINUS] by (cases "0 \<le> x") simp_all
qed

text \<open>A text without NUL is read in full: its scale is the number of characters after the point.\<close>

lemma decimal_text_form:
  assumes "decimal_text str"
  obtains sg w where "str = sg @ w" "text_fraction str = []" "CHR ''.'' \<notin> set (sg @ w)"
  | sg w where "str = (sg @ w) @ CHR ''.'' # text_fraction str" "CHR ''.'' \<notin> set (sg @ w)"
proof -
  obtain sg where sg: "str = sg @ text_body str" "CHR ''.'' \<notin> set sg"
  proof (cases str)
    case (Cons c p)
    then show ?thesis using that [of "if c = CHR ''+'' \<or> c = CHR ''-'' then [c] else []"] 
      by (cases "c = CHR ''+'' \<or> c = CHR ''-''") (auto simp: text_body_def)
  qed (use that [of "[]"] in \<open>simp add: text_body_def\<close>)
  define w where "w = takeWhile is_decimal (text_body str)"
  define r where "r = dropWhile is_decimal (text_body str)"
  have wr: "text_body str = w @ r" by (simp add: w_def r_def)
  have w: "CHR ''.'' \<notin> set w" by (auto simp: w_def dest: set_takeWhileD)
  have d: "dropWhile is_decimal (after_point r) = []" using assms by (simp add: decimal_text_def text_after_def r_def)
  have fr: "text_fraction str = takeWhile is_decimal (after_point r)" by (simp add: text_fraction_def text_after_def r_def)
  show ?thesis
  proof (cases r)
    case Nil
    then show ?thesis using that(1) [of sg w] sg w wr fr by (simp add: after_point_def)
  next
    case (Cons c p)
    then have "\<not> is_decimal c" using hd_dropWhile [of is_decimal "text_body str"] by (auto simp: r_def)
    then have c: "c = CHR ''.''" using d Cons by (auto simp: after_point_def split: if_splits)
    then have "\<forall>x \<in> set p. is_decimal x" using d Cons by (simp add: after_point_def)
    then have "takeWhile is_decimal p = p" by simp
    then have "text_fraction str = p" using fr Cons c by (simp add: after_point_def)
    then show ?thesis using that(2) [of sg w] sg w wr Cons c by simp
  qed
qed

lemma text_val_trunc: "bc_trunc (text_val str) (length (text_fraction str)) = text_val str"
proof -
  have "\<forall>c \<in> set (text_whole str @ text_fraction str). is_decimal c"
    by (auto simp: text_whole_def text_fraction_def dest: set_takeWhileD)
  then have "0 \<le> mval (map CH_VAL (text_whole str @ text_fraction str))" using mval_bounds [OF CH_VAL_ok] by blast
  then show ?thesis unfolding text_val_def by (rule trunc_exact) simp
qed

lemma text_lengths: "length (text_whole str) + length (text_fraction str) \<le> length str"
proof -
  have "length (text_body str) \<le> length str" by (cases str) (simp_all add: text_body_def)
  moreover have "length (text_whole str) + length (dropWhile is_decimal (text_body str)) = length (text_body str)"
    unfolding text_whole_def by (metis length_append takeWhile_dropWhile_id)
  moreover have "length (after_point r) \<le> length r" for r by (cases r) (simp_all add: after_point_def)
  then have "length (text_fraction str) \<le> length (dropWhile is_decimal (text_body str))"
    unfolding text_fraction_def text_after_def using length_takeWhile_le le_trans by blast
  ultimately show ?thesis by linarith
qed

lemma text_val_below: "\<bar>text_val str\<bar> < 10 ^ length (text_whole str)"
proof -
  let ?ds = "map CH_VAL (text_whole str @ text_fraction str)"
  have "\<forall>c \<in> set (text_whole str @ text_fraction str). is_decimal c"
    by (auto simp: text_whole_def text_fraction_def dest: set_takeWhileD)
  then have b: "0 \<le> mval ?ds" "mval ?ds < 10 ^ (length (text_whole str) + length (text_fraction str))"
    using mval_bounds [OF CH_VAL_ok, of "text_whole str @ text_fraction str"] by auto
  from b(2) have "rat_of_int (mval ?ds) < of_int (10 ^ (length (text_whole str) + length (text_fraction str)))" by (simp only: of_int_less_iff)
  then have "rat_of_int (mval ?ds) / 10 ^ length (text_fraction str) < 10 ^ length (text_whole str)"
    by (simp add: pos_divide_less_eq power_add)
  moreover have "\<bar>text_val str\<bar> = of_int (mval ?ds) / 10 ^ length (text_fraction str)"
  proof -
    define v where "v = rat_of_int (mval ?ds)"
    have "0 \<le> v" using b(1) by (simp only: v_def of_int_0_le_iff)
    then show ?thesis unfolding text_val_def v_def [symmetric] by (cases "text_sign str") simp_all
  qed
  ultimately show ?thesis by simp
qed

lemma php_str2num_correct:
  assumes "CHR 0x00 \<notin> set str"
  shows "if decimal_text str then \<exists>num. php_str2num str = Some num \<and> bc_canonical num \<and> proper_sign num \<and> num_val num = text_val str \<and>
      (n_scale num = 0 \<longleftrightarrow> num_val num \<in> \<int>) \<and> n_scale num \<le> length (text_fraction str)
    else php_str2num str = None"
proof -
  define k where "k = (case dropWhile (\<lambda>c. c \<noteq> CHR ''.'') str of [] \<Rightarrow> 0 | _ # p1 \<Rightarrow> length p1)"
  have run: "php_str2num str = (case bc_str2num str k of (num, ok) \<Rightarrow> if \<not> ok then None else Some num)"
    by (cases "dropWhile (\<lambda>c. c \<noteq> CHR ''.'') str") (simp_all only: php_str2num_def k_def list.case)
  obtain num where num: "bc_str2num str k = (num, decimal_text str)" "bc_canonical num" "proper_sign num" "n_scale num \<le> k"
    "length (text_fraction str) \<le> k \<and> 0 < n_scale num \<longrightarrow> num_val num \<notin> \<int>"
    "num_val num = (if decimal_text str then bc_trunc (text_val str) k else 0)"
    using str2num_correct [OF assms, of k] by blast
  have "n_scale num = 0 \<Longrightarrow> num_val num \<in> \<int>" using int_of_num [OF num(2)] by (metis Ints_of_int int_num_def)
  moreover have "k = length (text_fraction str)" if dt: "decimal_text str"
  proof (cases rule: decimal_text_form [OF dt])
    case (1 sg w)
    have "CHR ''.'' \<notin> set str" using 1(3) unfolding 1(1) .
    then have dn: "dropWhile (\<lambda>c. c \<noteq> CHR ''.'') str = []" by (auto simp: dropWhile_eq_Nil_conv)
    have "k = 0" unfolding k_def dn by simp
    then show ?thesis using 1(2) by simp
  next
    case (2 sg w)
    have dw: "dropWhile (\<lambda>c. c \<noteq> CHR ''.'') ((sg @ w) @ CHR ''.'' # f) = CHR ''.'' # f" for f
      using 2(2) by (subst dropWhile_append2) auto
    have "dropWhile (\<lambda>c. c \<noteq> CHR ''.'') str = CHR ''.'' # text_fraction str"
      using arg_cong [OF 2(1), of "dropWhile (\<lambda>c. c \<noteq> CHR ''.'')"] dw [of "text_fraction str"] by (rule trans)
    then show ?thesis by (simp add: k_def)
  qed
  ultimately show ?thesis using run num text_val_trunc [of str] by auto
qed

lemma php_str2num_cases:
  assumes "CHR 0x00 \<notin> set str"
  obtains (bad) "\<not> decimal_text str" "php_str2num str = None"
  | (good) num where "decimal_text str" "php_str2num str = Some num" "bc_canonical num" "proper_sign num" "num_val num = text_val str"
      "n_scale num = 0 \<longleftrightarrow> text_val str \<in> \<int>" "n_len num + n_scale num \<le> length str + 1" "n_scale num \<le> length (text_fraction str)"
proof (cases "decimal_text str")
  case True
  then obtain num where num: "php_str2num str = Some num" "bc_canonical num" "proper_sign num" "num_val num = text_val str"
    "n_scale num = 0 \<longleftrightarrow> num_val num \<in> \<int>" "n_scale num \<le> length (text_fraction str)"
    using php_str2num_correct [OF assms] by auto
  have "(10::rat) ^ length (text_whole str) \<le> 10 ^ max 1 (length (text_whole str))" by (intro power_increasing) simp_all
  then have "\<bar>num_val num\<bar> < 10 ^ max 1 (length (text_whole str))" using text_val_below [of str] unfolding num(4) by linarith
  then have "n_len num \<le> max 1 (length (text_whole str))" using num(2) by (intro length_of_value) simp_all
  then have "n_len num + n_scale num \<le> length str + 1" using num(6) text_lengths [of str] by linarith
  then show ?thesis using good [OF True num(1-4)] num(5,6) by (simp add: num(4))
qed (use php_str2num_correct [OF assms] bad in simp)

text \<open>What a number prints as.\<close>

definition text_is :: "string \<Rightarrow> rat \<Rightarrow> bool" where
  "text_is out v \<longleftrightarrow> CHR 0x00 \<notin> set out \<and> decimal_text out \<and> text_val out = v"

lemma print_result: "result_is r v k \<Longrightarrow> text_is (bc_num2str_ex r scale) (bc_trunc v scale)"
  using num2str_text [of r scale] by (auto simp: text_is_def result_is_def)

lemma print_trunc: "result_is r (bc_trunc v k) k \<Longrightarrow> scale \<le> k \<Longrightarrow> text_is (bc_num2str_ex r scale) (bc_trunc v scale)"
  using print_result [of r "bc_trunc v k" k scale] by (simp add: trunc_trunc)

subsection \<open>The functions\<close>

text \<open>The answers of a function of two operands: the errors of the arguments first, then its own.\<close>

definition answers :: "nat \<Rightarrow> string \<Rightarrow> string \<Rightarrow> int option \<Rightarrow> bc_answer \<Rightarrow> (rat \<Rightarrow> rat \<Rightarrow> nat \<Rightarrow> bc_answer \<Rightarrow> bool) \<Rightarrow> bool" where
  "answers bc_precision left right scale_param answer good \<longleftrightarrow>
     (case get_scale bc_precision 3 scale_param of
        Inl e \<Rightarrow> answer = Some (Inl e)
      | Inr scale \<Rightarrow>
          if \<not> decimal_text left then answer = Some (Inl (argument_value_error 1 ''is not well-formed''))
          else if \<not> decimal_text right then answer = Some (Inl (argument_value_error 2 ''is not well-formed''))
          else good (text_val left) (text_val right) scale answer)"

definition prints :: "rat \<Rightarrow> bc_answer \<Rightarrow> bool" where
  "prints v answer \<longleftrightarrow> (\<exists>out. answer = Some (Inr out) \<and> text_is out v)"

lemma printsI [intro]: "text_is out v \<Longrightarrow> prints v (Some (Inr out))"
  by (simp add: prints_def)

lemma with_operands_answers:
  assumes "CHR 0x00 \<notin> set left" "CHR 0x00 \<notin> set right"
    "\<And>n1 n2 scale. bc_canonical n1 \<Longrightarrow> bc_canonical n2 \<Longrightarrow> (n_scale n2 = 0 \<longleftrightarrow> num_val n2 \<in> \<int>) \<Longrightarrow>
       n_len n1 + n_scale n1 \<le> length left + 1 \<Longrightarrow> n_len n2 + n_scale n2 \<le> length right + 1 \<Longrightarrow>
       n_scale n1 \<le> length (text_fraction left) \<Longrightarrow>
       good (num_val n1) (num_val n2) scale (body n1 n2 scale)"
  shows "answers bc_precision left right scale_param (with_operands bc_precision left right scale_param body) good"
proof (cases "get_scale bc_precision 3 scale_param")
  case (Inl e)
  then show ?thesis by (simp add: answers_def with_operands_def)
next
  case (Inr scale)
  note d = answers_def with_operands_def
  show ?thesis
    using assms(1)
  proof (cases rule: php_str2num_cases)
    case bad
    then show ?thesis using Inr by (simp add: d)
  next
    case l: (good n1)
    show ?thesis
      using assms(2)
    proof (cases rule: php_str2num_cases)
      case bad
      then show ?thesis using Inr l by (simp add: d)
    next
      case r: (good n2)
      from assms(3) [OF l(3) r(3) r(6) [folded r(5)] l(7) r(7) l(8), of scale] show ?thesis using Inr l r by (simp add: d)
    qed
  qed
qed

lemma add_answers:
  assumes "CHR 0x00 \<notin> set left" "CHR 0x00 \<notin> set right"
  shows "answers bc_precision left right scale_param (bcadd bc_precision left right scale_param) (\<lambda>x y scale. prints (bc_trunc (x + y) scale))"
    "answers bc_precision left right scale_param (bcsub bc_precision left right scale_param) (\<lambda>x y scale. prints (bc_trunc (x - y) scale))"
  unfolding bcadd_def bcsub_def Let_def
  by (rule with_operands_answers [OF assms], rule printsI, rule print_result, rule add_correct; simp)
    (rule with_operands_answers [OF assms], rule printsI, rule print_result, rule sub_correct; simp)

lemma mul_answers:
  assumes "CHR 0x00 \<notin> set left" "CHR 0x00 \<notin> set right"
  shows "answers bc_precision left right scale_param (bcmul bc_precision left right scale_param) (\<lambda>x y scale. prints (bc_trunc (x * y) scale))"
  unfolding bcmul_def
proof (rule with_operands_answers [OF assms])
  fix n1 n2 scale
  assume c: "bc_canonical n1" "bc_canonical n2"
  define k where "k = prod_scale n1 n2 scale"
  obtain p where p: "bc_multiply n1 n2 scale = Some p" "result_is p (bc_trunc (num_val n1 * num_val n2) k) k"
    using multiply_correct [of n1 n2 scale] c k_def by auto
  have "text_is (bc_num2str_ex p scale) (bc_trunc (num_val n1 * num_val n2) scale)"
  proof (cases "scale \<le> k")
    case True
    then show ?thesis using print_trunc [OF p(2)] by simp
  next
    case False
    then have "n_scale n1 + n_scale n2 \<le> max scale (max (n_scale n1) (n_scale n2))" by (simp add: k_def prod_scale_def)
    then have "result_is p (num_val n1 * num_val n2) (n_scale n1 + n_scale n2)"
      using multiply_exact [of n1 n2 scale] c p(1) by auto
    then show ?thesis by (rule print_result)
  qed
  then show "prints (bc_trunc (num_val n1 * num_val n2) scale)
    (do { result \<leftarrow> bc_multiply n1 n2 scale; Some (Inr (bc_num2str_ex result scale)) })" using p(1) by auto
qed

text \<open>A divisor that is zero is an error of its own.\<close>

definition unless_zero :: "rat \<Rightarrow> string \<Rightarrow> (bc_answer \<Rightarrow> bool) \<Rightarrow> bc_answer \<Rightarrow> bool" where
  "unless_zero y msg good answer \<longleftrightarrow> (if y = 0 then answer = Some (Inl (division_by_zero_error msg)) else good answer)"

text \<open>An answer that is promised when the lengths leave room in the types of the library.\<close>

definition when_room :: "nat \<Rightarrow> (bc_answer \<Rightarrow> bool) \<Rightarrow> bc_answer \<Rightarrow> bool" where
  "when_room k good answer \<longleftrightarrow> (has_room k \<longrightarrow> good answer)"

lemma div_answers:
  assumes "CHR 0x00 \<notin> set left" "CHR 0x00 \<notin> set right"
  shows "answers bc_precision left right scale_param (bcdiv bc_precision left right scale_param)
      (\<lambda>x y scale. unless_zero y ''Division by zero''
        (when_room (length left + length right + scale + 2) (prints (bc_trunc (x / y) scale))))"
  unfolding bcdiv_def
proof (rule with_operands_answers [OF assms], goal_cases)
  case c: (1 n1 n2 scale)
  show ?case
  proof (cases "num_val n2 = 0")
    case True
    then show ?thesis using c is_zero_iff [of n2] num_val_0_iff [of n2] by (simp add: divide_by_zero unless_zero_def)
  next
    case False
    show ?thesis
    proof (cases "has_room (length left + length right + scale + 2)")
      case True
      then have "has_room (n_len n1 + n_scale n1 + n_len n2 + n_scale n2 + scale)" using c(4,5) by (elim has_room_le) simp
      then obtain q where q: "bc_divide n1 n2 scale = Some (Some q)" "result_is q (bc_trunc (num_val n1 / num_val n2) scale) scale"
        using divide_correct [of n1 n2 scale] c(1,2) num_val_0_iff [of n2] False by auto
      show ?thesis using False print_trunc [OF q(2)] q(1) by (auto simp: unless_zero_def when_room_def)
    qed (use False in \<open>simp add: unless_zero_def when_room_def\<close>)
  qed
qed

lemma mod_answers:
  assumes "CHR 0x00 \<notin> set left" "CHR 0x00 \<notin> set right"
  shows "answers bc_precision left right scale_param (bcmod bc_precision left right scale_param)
      (\<lambda>x y scale. unless_zero y ''Modulo by zero''
        (when_room (length left + length right + 2) (prints (bc_trunc (x - bc_trunc (x / y) 0 * y) scale))))"
  unfolding bcmod_def
proof (rule with_operands_answers [OF assms], goal_cases)
  case c: (1 n1 n2 scale)
  show ?case
  proof (cases "num_val n2 = 0")
    case True
    then show ?thesis using c is_zero_iff [of n2] num_val_0_iff [of n2] by (simp add: divmod_by_zero bc_modulo_def unless_zero_def)
  next
    case nz: False
    show ?thesis
    proof (cases "has_room (length left + length right + 2)")
      case False
      then show ?thesis using nz by (simp add: unless_zero_def when_room_def)
    next
    case True
    then have "has_room (n_len n1 + n_scale n1 + n_len n2 + n_scale n2)" using c(4,5) by (elim has_room_le) simp
    then obtain q m where q: "bc_divmod n1 n2 scale = Some (Some (q, m))"
      "result_is m (num_val n1 - bc_trunc (num_val n1 / num_val n2) 0 * num_val n2) (max (n_scale n1) (n_scale n2 + scale))"
      using divmod_correct [of n1 n2 scale] c(1,2) nz num_val_0_iff [of n2] by auto
    show ?thesis using nz print_result [OF q(2)] q(1) by (auto simp: bc_modulo_def unless_zero_def when_room_def)
    qed
  qed
qed

text \<open>A power of a number has no more digits after the point than its scale times the exponent.\<close>

lemma trunc_of_num: "bc_ok t \<Longrightarrow> n_scale t \<le> j \<Longrightarrow> bc_trunc (num_val t) j = num_val t"
  unfolding num_val_def by (rule trunc_exact) (simp_all add: bc_mag_pos)

lemma raise_print:
  assumes "bc_canonical x" "- LONG_MAX \<le> e" "n_scale x * nat \<bar>e\<bar> < 2 ^ 64"
    and room: "e < 0 \<Longrightarrow> has_room (1 + (n_len x + n_scale x) * nat (- e) + scale)"
  shows "\<exists>r. bc_raise x e BCG_zero scale = Some r \<and> text_is (bc_num2str_ex r scale) (bc_trunc (num_val x powi e) scale)"
proof (cases e "0 :: int" rule: linorder_cases)
  case equal
  have "result_is BCG_one 1 0" by (simp add: result_is_def) (simp add: BCG_one_def bc_new_num_def)
  then show ?thesis using raise_correct(4) [OF assms(1-3)] print_result [of BCG_one 1 0 scale] equal by simp
next
  case greater
  define k where "k = min (n_scale x * nat e) (max scale (n_scale x))"
  obtain r where r: "bc_raise x e BCG_zero scale = Some r" "result_is r (bc_trunc (num_val x ^ nat e) k) k"
    using raise_correct(1) [OF assms(1-3) greater, of scale] unfolding Let_def k_def [symmetric] by blast
  have pw: "num_val x powi e = num_val x ^ nat e" using greater by (simp add: power_int_def)
  show ?thesis
  proof (cases "scale \<le> k")
    case True
    then show ?thesis using r print_trunc [OF r(2)] unfolding pw by blast
  next
    case False
    then have k: "k = n_scale x * nat e" by (simp add: k_def)
    have "result_is x (num_val x) (n_scale x)" using assms(1) by (simp add: result_is_def)
    from raise_power [OF this, of "nat e"] greater assms(3) obtain t where "result_is t (num_val x ^ nat e) k" unfolding k by auto
    then have "bc_trunc (num_val x ^ nat e) k = num_val x ^ nat e" using trunc_of_num [of t k] by (auto simp: result_is_def)
    then show ?thesis using r print_result [of r "num_val x ^ nat e" k scale] unfolding pw by auto
  qed
next
  case less
  have pw: "num_val x powi e = 1 / num_val x ^ nat (- e)" using less by (simp add: power_int_def inverse_eq_divide power_one_over)
  show ?thesis
  proof (cases "num_val x = 0")
    case True
    have "result_is BCG_zero 0 0" by (simp add: result_is_def) (simp add: BCG_zero_def bc_new_num_def)
    moreover have "num_val x powi e = 0" using True less by (simp add: power_int_def)
    ultimately show ?thesis using raise_correct(3) [OF assms(1-3) less True] print_result [of BCG_zero 0 0 scale] by simp
  next
    case False
    then obtain r where "bc_raise x e BCG_zero scale = Some r" "result_is r (bc_trunc (1 / num_val x ^ nat (- e)) scale) scale"
      using raise_correct(2) [OF assms(1-3) less False room [OF less]] by blast
    then show ?thesis using print_trunc [of r _ scale scale] unfolding pw by auto
  qed
qed

text \<open>The exponent as a \<open>long\<close>; zero stands for one that is too large.\<close>

lemma num2long_int:
  assumes "bc_canonical x" "n_scale x = 0"
  shows "if \<bar>num_val x\<bar> \<le> of_int LONG_MAX
    then num_val x = of_int (bc_num2long x) \<and> - LONG_MAX \<le> bc_num2long x \<and> \<not> (bc_num2long x = 0 \<and> (n_len x > 1 \<or> n_value x ! 0 \<noteq> 0))
    else bc_num2long x = 0 \<and> (n_len x > 1 \<or> n_value x ! 0 \<noteq> 0)"
proof -
  have m: "mval (take (n_len x) (n_value x)) = bc_mag x" using assms(2) by (simp add: bc_mag_def bc_digits_def)
  have ok: "bc_ok x" "0 \<le> bc_mag x" "1 \<le> n_len x" "stripped x" using assms(1) bc_mag_pos [of x] by (auto simp: bc_canonical_def)
  have v: "num_val x = sgn_val (n_sign x) * of_int (bc_mag x)" using assms(2) by (simp add: num_val_def)
  have l: "bc_num2long x = (if bc_mag x \<le> LONG_MAX then if n_sign x = PLUS then bc_mag x else - bc_mag x else 0)"
    using num2long_correct [OF ok(1)] by (simp add: m Let_def)
  have "n_value x \<noteq> []" using ok(1,3) by (auto simp: bc_ok_def)
  then obtain d ds where ds: "n_value x = d # ds" by (cases "n_value x") auto
  have z: "bc_mag x = 0 \<longleftrightarrow> \<not> (n_len x > 1 \<or> n_value x ! 0 \<noteq> 0)"
  proof
    assume "bc_mag x = 0"
    then have "\<forall>d \<in> set (take (n_len x) (n_value x)). d = 0" using mval_eq_0 [of "take (n_len x) (n_value x)"] m ok(1) by (simp add: bc_ok_def)
    then have "d = 0" using ds ok(3) by (cases "n_len x") auto
    then show "\<not> (n_len x > 1 \<or> n_value x ! 0 \<noteq> 0)" using ok(4) ds by (auto simp: stripped_def)
  next
    assume "\<not> (n_len x > 1 \<or> n_value x ! 0 \<noteq> 0)"
    then have "take (n_len x) (n_value x) = [0]" using ds ok(3) by (cases "n_len x") auto
    then show "bc_mag x = 0" using m by simp
  qed
  have "\<bar>num_val x\<bar> \<le> of_int LONG_MAX \<longleftrightarrow> bc_mag x \<le> LONG_MAX"
    using ok(2) by (cases "n_sign x") (simp_all add: v)
  moreover have "bc_mag x > LONG_MAX \<Longrightarrow> bc_mag x \<noteq> 0" by (simp add: LONG_MAX_def)
  ultimately show ?thesis using l v z ok(2) by (cases "n_sign x") auto
qed

text \<open>An argument that has a fraction is refused.\<close>

definition unless_fraction :: "rat \<Rightarrow> nat \<Rightarrow> (bc_answer \<Rightarrow> bool) \<Rightarrow> bc_answer \<Rightarrow> bool" where
  "unless_fraction y arg good answer \<longleftrightarrow>
     (if y \<notin> \<int> then answer = Some (Inl (argument_value_error arg ''cannot have a fractional part'')) else good answer)"

text \<open>
  The sizes of a power: the scale of the result counts in a \<open>size_t\<close>, and the number that a negative exponent divides by
  has to leave room in the types of the division.
\<close>

definition when_power_fits :: "string \<Rightarrow> int \<Rightarrow> nat \<Rightarrow> (bc_answer \<Rightarrow> bool) \<Rightarrow> bc_answer \<Rightarrow> bool" where
  "when_power_fits base e scale good answer \<longleftrightarrow>
     (length (text_fraction base) * nat \<bar>e\<bar> < 2 ^ 64 \<and> (e < 0 \<longrightarrow> has_room (1 + (length base + 1) * nat (- e) + scale)) \<longrightarrow> good answer)"

lemma pow_answers:
  assumes "CHR 0x00 \<notin> set base" "CHR 0x00 \<notin> set expo"
  shows "answers bc_precision base expo scale_param (bcpow bc_precision base expo scale_param)
      (\<lambda>x y scale. unless_fraction y 2 (\<lambda>answer.
        if \<bar>y\<bar> > of_int LONG_MAX then answer = Some (Inl (argument_value_error 2 ''is too large''))
        else when_power_fits base \<lfloor>y\<rfloor> scale (prints (bc_trunc (x powi \<lfloor>y\<rfloor>) scale)) answer))"
  unfolding bcpow_def
proof (rule with_operands_answers [OF assms], goal_cases)
  case c: (1 n1 n2 scale)
  show ?case
  proof (cases "num_val n2 \<in> \<int>")
    case False
    then show ?thesis using c(3) by (simp add: unless_fraction_def)
  next
    case True
    then have s0: "n_scale n2 = 0" using c(3) by simp
    note L = num2long_int [OF c(2) s0]
    show ?thesis
    proof (cases "\<bar>num_val n2\<bar> \<le> of_int LONG_MAX")
      case False
      then show ?thesis using L True s0 by (simp add: Let_def unless_fraction_def)
    next
      case le: True
      then have L: "num_val n2 = of_int (bc_num2long n2)" "- LONG_MAX \<le> bc_num2long n2"
        "\<not> (bc_num2long n2 = 0 \<and> (n_len n2 > 1 \<or> n_value n2 ! 0 \<noteq> 0))" using L by auto
      have fl: "\<lfloor>num_val n2\<rfloor> = bc_num2long n2" unfolding L(1) by simp
      have "when_power_fits base (bc_num2long n2) scale (\<lambda>answer. \<exists>r. bc_raise n1 (bc_num2long n2) BCG_zero scale = Some r \<and>
        text_is (bc_num2str_ex r scale) (bc_trunc (num_val n1 powi bc_num2long n2) scale)) answer" for answer
        unfolding when_power_fits_def
      proof (intro impI, elim conjE)
        assume f: "length (text_fraction base) * nat \<bar>bc_num2long n2\<bar> < 2 ^ 64"
          "bc_num2long n2 < 0 \<longrightarrow> has_room (1 + (length base + 1) * nat (- bc_num2long n2) + scale)"
        have "n_scale n1 * nat \<bar>bc_num2long n2\<bar> \<le> length (text_fraction base) * nat \<bar>bc_num2long n2\<bar>"
          using c(6) by (rule mult_le_mono1)
        then have "n_scale n1 * nat \<bar>bc_num2long n2\<bar> < 2 ^ 64" using f(1) by (rule le_less_trans)
        moreover have "has_room (1 + (n_len n1 + n_scale n1) * nat (- bc_num2long n2) + scale)" if "bc_num2long n2 < 0"
        proof -
          have "(n_len n1 + n_scale n1) * nat (- bc_num2long n2) \<le> (length base + 1) * nat (- bc_num2long n2)"
            using c(4) by (rule mult_le_mono1)
          then have "1 + (n_len n1 + n_scale n1) * nat (- bc_num2long n2) + scale \<le> 1 + (length base + 1) * nat (- bc_num2long n2) + scale"
            by (intro add_mono) simp_all
          from has_room_le [OF _ this] show ?thesis using f(2) that by blast
        qed
        ultimately show "\<exists>r. bc_raise n1 (bc_num2long n2) BCG_zero scale = Some r \<and>
          text_is (bc_num2str_ex r scale) (bc_trunc (num_val n1 powi bc_num2long n2) scale)"
          by (intro raise_print [OF c(1) L(2)])
      qed
      then show ?thesis unfolding Let_def fl unless_fraction_def using L(3) True le s0 by (auto simp: when_power_fits_def)
    qed
  qed
qed

subsection \<open>Powers modulo a number and comparisons\<close>

lemma powmod_answer:
  assumes "CHR 0x00 \<notin> set base" "CHR 0x00 \<notin> set expo" "CHR 0x00 \<notin> set modulus" "decimal_text base" "decimal_text expo" "decimal_text modulus"
    "get_scale bc_precision 4 scale_param = Inr scale"
  shows "unless_fraction (text_val base) 1 (unless_fraction (text_val expo) 2 (\<lambda>answer.
      if text_val expo < 0 then answer = Some (Inl (argument_value_error 2 ''must be greater than or equal to 0''))
      else unless_fraction (text_val modulus) 3 (unless_zero (text_val modulus) ''Modulo by zero''
        (when_room (3 * (length base + length expo + length modulus + 3) + scale)
          (prints (of_int (trem (\<lfloor>text_val base\<rfloor> ^ nat \<lfloor>text_val expo\<rfloor>) \<lfloor>text_val modulus\<rfloor>))))) answer))
      (bcpowmod bc_precision base expo modulus scale_param)"
proof -
  obtain b where b: "php_str2num base = Some b" "bc_canonical b" "num_val b = text_val base" "n_scale b = 0 \<longleftrightarrow> text_val base \<in> \<int>"
    "n_len b + n_scale b \<le> length base + 1"
    using php_str2num_cases [OF assms(1)] assms(4) by metis
  obtain e where e: "php_str2num expo = Some e" "bc_canonical e" "proper_sign e" "num_val e = text_val expo" "n_scale e = 0 \<longleftrightarrow> text_val expo \<in> \<int>"
    "n_len e + n_scale e \<le> length expo + 1"
    using php_str2num_cases [OF assms(2)] assms(5) by metis
  obtain m where m: "php_str2num modulus = Some m" "bc_canonical m" "num_val m = text_val modulus" "n_scale m = 0 \<longleftrightarrow> text_val modulus \<in> \<int>"
    "n_len m + n_scale m \<le> length modulus + 1"
    using php_str2num_cases [OF assms(3)] assms(6) by metis
  have neg: "bc_is_neg e \<longleftrightarrow> text_val expo < 0"
    using e(3) bc_mag_pos [of e] e(2) unfolding e(4) [symmetric]
    by (cases "n_sign e") (auto simp: bc_is_neg_def num_val_def proper_sign_def divide_less_0_iff)
  have z: "bc_is_zero m \<longleftrightarrow> text_val modulus = 0" using is_zero_iff [of m] num_val_0_iff [of m] m(2,3) by simp
  note run = bcpowmod_def assms(7) b(1) e(1) m(1) bc_raisemod_def
  show ?thesis
  proof (cases "text_val base \<in> \<int> \<and> text_val expo \<in> \<int> \<and> \<not> text_val expo < 0 \<and> text_val modulus \<in> \<int> \<and> text_val modulus \<noteq> 0")
    case False
    then show ?thesis using b(4) e(5) m(4) neg z
      by (cases "n_scale b = 0"; cases "n_scale e = 0"; cases "bc_is_neg e"; cases "n_scale m = 0"; cases "bc_is_zero m")
        (simp_all add: run unless_fraction_def unless_zero_def)
  next
    case True
    note good = this
    show ?thesis
    proof (cases "has_room (3 * (length base + length expo + length modulus + 3) + scale)")
    case False
    then show ?thesis using good by (simp add: unless_fraction_def unless_zero_def when_room_def)
    next
    case room: True
    have rooms: "has_room (2 * (n_len b + n_len m) + scale + n_len m)" "has_room (n_len e + 1)"
      using b(5) e(6) m(5) by (auto intro: has_room_le [OF room])
    note True = good
    have s: "n_scale b = 0" "n_scale e = 0" "n_sign e = PLUS" "n_scale m = 0" "num_val m \<noteq> 0"
      using True b(4) e(5) m(3,4) neg by (auto simp: bc_is_neg_def intro: sign.exhaust)
    obtain r B E M where r: "bc_raisemod b e m BCG_zero scale = Some (OK, r)" "num_val b = of_int B" "num_val e = of_nat E" "num_val m = of_int M"
      "int_num r (trem (B ^ E) M) scale" using raisemod_correct [OF b(2) s(1) e(2) s(2,3) m(2) s(4,5) rooms, of BCG_zero] by blast
    have fl: "\<lfloor>text_val base\<rfloor> = B" "nat \<lfloor>text_val expo\<rfloor> = E" "\<lfloor>text_val modulus\<rfloor> = M"
      unfolding b(3) [symmetric] e(4) [symmetric] m(3) [symmetric] r(2-4) by simp_all
    have "result_is r (of_int (trem (B ^ E) M)) (n_scale r)" using r(5) by (simp add: int_num_def result_is_def)
    from print_result [OF this, of scale] have "text_is (bc_num2str_ex r scale) (of_int (trem (B ^ E) M))" by (simp only: trunc_int)
    moreover have "bcpowmod bc_precision base expo modulus scale_param = Some (Inr (bc_num2str_ex r scale))"
      using r(1) by (simp add: bcpowmod_def assms(7) b(1) e(1) m(1))
    ultimately show ?thesis using True fl by (auto simp: unless_fraction_def unless_zero_def when_room_def)
    qed
  qed
qed

lemma comp_answer:
  assumes "CHR 0x00 \<notin> set left" "CHR 0x00 \<notin> set right" "get_scale bc_precision 3 scale_param = Inr scale"
  shows "bccomp bc_precision left right scale_param =
    (if \<not> decimal_text left then Inl (argument_value_error 1 ''is not well-formed'')
     else if \<not> decimal_text right then Inl (argument_value_error 2 ''is not well-formed'')
     else Inr (if bc_trunc (text_val left) scale < bc_trunc (text_val right) scale then - 1
       else if bc_trunc (text_val right) scale < bc_trunc (text_val left) scale then 1 else 0))"
proof -
  obtain n1 where n1: "bc_str2num left scale = (n1, decimal_text left)" "bc_canonical n1" "proper_sign n1"
    "decimal_text left \<Longrightarrow> num_val n1 = bc_trunc (text_val left) scale"
    using str2num_correct [OF assms(1), of scale] by auto
  obtain n2 where n2: "bc_str2num right scale = (n2, decimal_text right)" "bc_canonical n2" "proper_sign n2"
    "decimal_text right \<Longrightarrow> num_val n2 = bc_trunc (text_val right) scale"
    using str2num_correct [OF assms(2), of scale] by auto
  show ?thesis using bc_compare_correct [OF n1(2) n2(2) n1(3) n2(3)] n1(1,4) n2(1,4) by (simp add: bccomp_def assms(3))
qed

end
