(* ===== verification/BcSqrt.thy ===== *)
theory BcSqrt
  imports BcMath
begin

text \<open>
  The square root (\<open>sqrt.c\<close>), by Newton's iteration with a precision that grows in three steps, and the
  function \<open>bcsqrt\<close>. The loop has no bound in the code; \<open>None\<close> would be a loop that does not end.
\<close>

definition sqrt_point5 :: bc_num where
  "sqrt_point5 = (let point5 = bc_new_num 1 1 in point5\<lparr>n_value := (n_value point5)[1 := 5]\<rparr>)"

text \<open>
  One turn of the loop: the new guess and whether it is near the old one. \<open>cscale\<close> is a \<open>size_t\<close> that becomes the
  \<open>int\<close> of \<open>bc_divide\<close>; one that does not fit is \<open>None\<close> there.
\<close>

definition sqrt_turn :: "bc_num \<Rightarrow> bc_num \<Rightarrow> nat \<Rightarrow> (bc_num \<times> bool) option" where
  "sqrt_turn num guess cscale =
     (let guess1 = guess in do {
        q \<leftarrow> bc_divide num guess cscale;
        (let guess = (case q of Some quot \<Rightarrow> quot | None \<Rightarrow> guess);
             guess = bc_add guess guess1 0
         in do {
           guess \<leftarrow> bc_multiply guess sqrt_point5 cscale;
           (let diff = bc_sub guess guess1 (cscale + 1)
            in Some (guess, bc_is_near_zero diff cscale)) }) })"

partial_function (option) sqrt_loop :: "bc_num \<Rightarrow> nat \<Rightarrow> bc_num \<Rightarrow> nat \<Rightarrow> bc_num option" where
  "sqrt_loop num rscale guess cscale =
     Option.bind (sqrt_turn num guess cscale) (\<lambda>(guess, near).
       if near then
         (if cscale < rscale + 1 then sqrt_loop num rscale guess (min (cscale * 3) (rscale + 1)) else Some guess)
       else sqrt_loop num rscale guess cscale)"

definition sqrt_start :: "bc_num \<Rightarrow> int \<Rightarrow> (bc_num \<times> nat) option" where
  "sqrt_start num cmp_res =
     (if cmp_res < 0 then Some (BCG_one, n_scale num)
      else (let guess = bc_int2num 10; guess1 = bc_int2num (int (n_len num)) in do {
        guess1 \<leftarrow> bc_multiply guess1 sqrt_point5 0;
        (let guess1 = guess1\<lparr>n_scale := 0\<rparr> in do {
           guess \<leftarrow> bc_raise_bc_exponent guess guess1 guess 0;
           Some (guess, 3) }) }))"

definition bc_sqrt :: "bc_num \<Rightarrow> nat \<Rightarrow> (bc_num \<times> bool) option" where
  "bc_sqrt num scale =
     (let cmp_res = bc_compare num BCG_zero
      in if cmp_res < 0 then Some (num, False)
         else if cmp_res = 0 then Some (BCG_zero, True)
         else (let cmp_res = bc_compare num BCG_one
               in if cmp_res = 0 then Some (BCG_one, True)
                  else (let rscale = max scale (n_scale num) in do {
                    (guess, cscale) \<leftarrow> sqrt_start num cmp_res;
                    guess \<leftarrow> sqrt_loop num rscale guess cscale;
                    q \<leftarrow> bc_divide guess BCG_one rscale;
                    Some (case q of Some quot \<Rightarrow> quot | None \<Rightarrow> num, True) })))"

definition bcsqrt :: "nat \<Rightarrow> string \<Rightarrow> int option \<Rightarrow> bc_answer" where
  "bcsqrt bc_precision left scale_param =
     (case get_scale bc_precision 2 scale_param of
        Inl e \<Rightarrow> Some (Inl e)
      | Inr scale \<Rightarrow>
          (case php_str2num left of
             None \<Rightarrow> Some (Inl (argument_value_error 1 ''is not well-formed''))
           | Some result \<Rightarrow> do {
               (result, ok) \<leftarrow> bc_sqrt result scale;
               (if ok then Some (Inr (bc_num2str_ex result scale))
                else Some (Inl (argument_value_error 1 ''must be greater than or equal to 0''))) }))"

subsection \<open>Newton's iteration on integers\<close>

text \<open>\<open>G\<close> is the integer root of \<open>N\<close>, or the root of \<open>N + 1\<close>.\<close>

definition near_root :: "int \<Rightarrow> int \<Rightarrow> bool" where
  "near_root N G \<longleftrightarrow> (G * G \<le> N \<and> N < (G + 1) * (G + 1)) \<or> G * G = N + 1"

lemma int_root:
  assumes "0 \<le> (N::int)"
  obtains s where "0 \<le> s" "s * s \<le> N" "N < (s + 1) * (s + 1)"
proof -
  have "\<exists>s\<ge>0. s * s \<le> N \<and> N < (s + 1) * (s + 1)"
    using assms
  proof (induction N rule: int_ge_induct)
    case base
    show ?case by (intro exI [of _ 0]) simp
  next
    case (step i)
    then obtain s where s: "0 \<le> s" "s * s \<le> i" "i < (s + 1) * (s + 1)" by blast
    have e: "(s + 1 + 1) * (s + 1 + 1) = (s + 1) * (s + 1) + 2 * s + 3" by (simp add: algebra_simps)
    show ?case
    proof (cases "i + 1 < (s + 1) * (s + 1)")
      case True
      then show ?thesis using s by (intro exI [of _ s]) simp
    next
      case False
      then have "0 \<le> s + 1" "(s + 1) * (s + 1) \<le> i + 1" "i + 1 < (s + 1 + 1) * (s + 1 + 1)" unfolding e using s by linarith+
      then show ?thesis by blast
    qed
  qed
  then show ?thesis using that by blast
qed

lemma newton_step:
  fixes s N G :: int
  assumes "0 \<le> s" "s * s \<le> N" "N < (s + 1) * (s + 1)" "1 \<le> G"
  defines "G' \<equiv> (N div G + G) div 2"
  shows "s \<le> G'" "s < G \<Longrightarrow> G' < G" "G = s \<Longrightarrow> \<bar>G' - G\<bar> \<le> 1" "\<bar>G' - G\<bar> \<le> 1 \<Longrightarrow> near_root N G'"
proof -
  have G: "0 < G" using assms(4) by simp
  note q = quotient_bounds [OF G, where w = N]
  have "0 \<le> (s - G) * (s - G)" by simp
  then have "(2 * s - G) * G \<le> s * s" by (simp add: algebra_simps)
  then have "2 * s - G \<le> N div G" using q(1) assms(2) by simp
  then show sG: "s \<le> G'" unfolding G'_def by linarith
  show down: "G' < G" if "s < G"
  proof -
    have "(s + 1) * (s + 1) \<le> G * G" using that assms(1) by (intro mult_mono) auto
    then have "N div G < G" using q(2) assms(3) by simp
    then show ?thesis unfolding G'_def by linarith
  qed
  have up: "G' \<le> s + 1" if "G = s"
  proof -
    have "N < (s + 3) * s" using assms(3,4) that by (simp add: algebra_simps)
    then have "N div G < s + 3" using q(2) that by simp
    then show ?thesis unfolding G'_def using that by linarith
  qed
  then show "\<bar>G' - G\<bar> \<le> 1" if "G = s" using sG that by auto
  have sq: "(G' + 1) * (G' + 1) \<ge> (s + 1) * (s + 1)" using sG assms(1) by (intro mult_mono) auto
  have hit: "near_root N G'" if "G' * G' \<le> N + 1" using that sq assms(3) by (auto simp: near_root_def)
  show "near_root N G'" if near: "\<bar>G' - G\<bar> \<le> 1"
  proof (cases G s rule: linorder_cases)
    case less
    then have "G' = s" using near sG by linarith
    then show ?thesis using hit assms(2) by simp
  next
    case equal
    show ?thesis
    proof (cases "G' = s")
      case True
      then show ?thesis using hit assms(2) by simp
    next
      case False
      then have e: "G' = s + 1" using up [OF equal] sG by simp
      then have "s + 2 \<le> N div G" using equal unfolding G'_def by linarith
      then have "(s + 2) * s \<le> N" using q(1) equal by simp
      then show ?thesis using e by (intro hit) (simp add: algebra_simps)
    qed
  next
    case greater
    then have e: "G' = G - 1" using down near by linarith
    then have "G - 2 \<le> N div G" unfolding G'_def by linarith
    then have "(G - 2) * G \<le> N" using q(1) by simp
    moreover have "G = G' + 1" using e by simp
    then have "(G - 2) * G = (G' + 1 - 2) * (G' + 1)" by simp
    then have "(G - 2) * G = G' * G' - 1" by (simp add: algebra_simps)
    ultimately show ?thesis by (intro hit) simp
  qed
qed

subsection \<open>Near zero\<close>

lemma skip_zeros_near:
  assumes "digits_ok ds" "k \<le> length ds"
  shows "skip_zeros ds k = 0 \<or> (skip_zeros ds k = 1 \<and> ds ! (k - 1) = 1) \<longleftrightarrow> mval (take k ds) \<le> 1"
  using assms
proof (induction ds k rule: skip_zeros.induct)
  case (2 d ds k)
  have b: "0 \<le> mval (take k ds)" using mval_bounds [of "take k ds"] 2(2) by auto
  show ?case
  proof (cases "d = 0")
    case True
    then show ?thesis using 2 by (cases k) (auto simp: mval_Cons)
  next
    case False
    then have d: "1 \<le> d" using 2(2) by simp
    show ?thesis
    proof (cases k)
      case 0
      then show ?thesis using d False by auto
    next
      case (Suc j)
      have "1 * 10 ^ k \<le> d * (10::int) ^ k" using d by (intro mult_right_mono) auto
      moreover have "(10::int) ^ k = 10 * 10 ^ j" "(1::int) \<le> 10 ^ j" using Suc by simp_all
      ultimately have "1 < d * 10 ^ k + mval (take k ds)" using b by linarith
      then show ?thesis using False Suc 2(3) by (simp add: mval_Cons min_absorb2)
    qed
  qed
qed auto

lemma near_zero_iff:
  assumes "bc_ok num" "scale \<le> n_scale num"
  shows "bc_is_near_zero num scale \<longleftrightarrow> mval (take (n_len num + scale) (n_value num)) \<le> 1"
  using skip_zeros_near [of "n_value num" "n_len num + scale"] assms by (auto simp: bc_is_near_zero_def bc_ok_def Let_def)

subsection \<open>One turn\<close>

text \<open>A guess of \<open>G\<close> units of the place \<open>c\<close>.\<close>

definition guess_is :: "bc_num \<Rightarrow> int \<Rightarrow> nat \<Rightarrow> bool" where
  "guess_is g G c \<longleftrightarrow> bc_canonical g \<and> num_val g = of_int G / 10 ^ c \<and> n_scale g \<le> c"

lemma point5: "result_is sqrt_point5 (1 / 2) 1"
  by (simp add: result_is_def bc_canonical_def bc_ok_def stripped_def num_val_def bc_mag_def bc_digits_def mval_def sqrt_point5_def bc_new_num_def)

lemma diff_near:
  assumes "result_is d (of_int D / 10 ^ c) (c + 1)"
  shows "bc_is_near_zero d c \<longleftrightarrow> \<bar>D\<bar> \<le> 1"
proof -
  have d: "bc_ok d" "num_val d = of_int D / 10 ^ c" "n_scale d = c + 1" using assms by (simp_all add: result_is_def)
  let ?cut = "d\<lparr>n_scale := c\<rparr>"
  have cut: "bc_ok ?cut" "num_val ?cut = bc_trunc (num_val d) c" using cut_scale [OF d(1), of c] d(3) by simp_all
  have "bc_trunc (of_int D / 10 ^ c) c = rat_of_int D / 10 ^ c"
    using trunc_exact [of D c c PLUS] trunc_exact [of "- D" c c MINUS] by (cases "0 \<le> D") simp_all
  then have "sgn_val (n_sign d) * rat_of_int (bc_mag ?cut) / 10 ^ c = of_int D / 10 ^ c" using cut(2) d(2) by (simp add: num_val_def)
  then have "sgn_val (n_sign d) * rat_of_int (bc_mag ?cut) = of_int D" by simp
  then have "rat_of_int (bc_mag ?cut) = of_int D \<or> rat_of_int (bc_mag ?cut) = of_int (- D)" by (cases "n_sign d") auto
  then have "bc_mag ?cut = D \<or> bc_mag ?cut = - D" by (simp only: of_int_eq_iff)
  then have "bc_mag ?cut = \<bar>D\<bar>" using bc_mag_pos [OF cut(1)] by auto
  moreover have "bc_mag ?cut = mval (take (n_len d + c) (n_value d))" by (simp add: bc_mag_def bc_digits_def)
  ultimately show ?thesis using near_zero_iff [OF d(1), of c] d(3) by simp
qed

lemma sqrt_turn_correct:
  assumes "bc_canonical num" "0 < num_val num" "guess_is g G c" "1 \<le> c" "1 \<le> G"
    and room: "has_room (n_len num + n_scale num + n_len g + n_scale g + c)"
  defines "N \<equiv> \<lfloor>num_val num * 10 ^ (2 * c)\<rfloor>"
  defines "G' \<equiv> (N div G + G) div 2"
  shows "\<exists>g'. sqrt_turn num g c = Some (g', \<bar>G' - G\<bar> \<le> 1) \<and> guess_is g' G' c"
proof -
  have g: "bc_canonical g" "num_val g = of_int G / 10 ^ c" "n_scale g \<le> c" using assms(3) by (simp_all add: guess_is_def)
  have "bc_mag g \<noteq> 0" using num_val_0_iff [of g] g(2) assms(5) by simp
  then obtain q where q: "bc_divide num g c = Some (Some q)" "result_is q (bc_trunc (num_val num / num_val g) c) c"
    using divide_correct [of num g c] assms(1) g(1) room by auto
  have "num_val num / num_val g * 10 ^ c = num_val num * 10 ^ (2 * c) / of_int G" by (simp add: g(2) mult_2 power_add)
  then have "\<lfloor>num_val num / num_val g * 10 ^ c\<rfloor> = N div G" using floor_div [of G "num_val num * 10 ^ (2 * c)"] assms(5) by (simp add: N_def)
  moreover have "0 \<le> num_val num / num_val g" using assms(2,5) g(2) by simp
  ultimately have "bc_trunc (num_val num / num_val g) c = of_int (N div G) / 10 ^ c" using trunc_sgn [of _ PLUS c] by fastforce
  then have qv: "result_is q (of_int (N div G) / 10 ^ c) c" using q(2) by simp
  define s where "s = bc_add q g 0"
  have "result_is s (num_val q + num_val g) c" using add_correct [of q g 0] qv g by (simp add: s_def result_is_def)
  then have sv: "result_is s (of_int (N div G + G) / 10 ^ c) c" using qv g(2) by (simp add: result_is_def add_divide_distrib)
  define X where "X = N div G + G"
  have "0 < num_val num * 10 ^ (2 * c)" using assms(2) by simp
  then have "0 \<le> N" by (simp add: N_def)
  then have X: "0 \<le> X" using assms(5) by (simp add: X_def pos_imp_zdiv_nonneg_iff)
  have sc: "bc_ok s" "num_val s = of_int X / 10 ^ c" "n_scale s = c" using sv by (simp_all add: result_is_def X_def)
  have pc: "bc_ok sqrt_point5" "num_val sqrt_point5 = 1 / 2" "n_scale sqrt_point5 = 1" using point5 by (simp_all add: result_is_def)
  obtain p where p: "bc_multiply s sqrt_point5 c = Some p" "result_is p (bc_trunc (num_val s * num_val sqrt_point5) c) c"
    using multiply_correct [OF sc(1) pc(1), of c] assms(4) sc(3) pc(3) by (auto simp: prod_scale_def max_def)
  have "bc_trunc (num_val s * num_val sqrt_point5) c = of_int \<lfloor>num_val s * num_val sqrt_point5 * 10 ^ c\<rfloor> / 10 ^ c"
    unfolding sc(2) pc(2) using trunc_sgn [of "of_int X / 10 ^ c * (1 / 2)" PLUS c] X by simp
  also have "\<lfloor>num_val s * num_val sqrt_point5 * 10 ^ c\<rfloor> = X div 2"
    using floor_divide_of_int_eq [where 'a = rat, of X 2] by (simp add: sc(2) pc(2))
  finally have pv: "result_is p (of_int G' / 10 ^ c) c" using p(2) by (simp add: G'_def X_def)
  have "result_is (bc_sub p g (c + 1)) (num_val p - num_val g) (c + 1)"
    using sub_correct [of p g "c + 1"] pv g by (simp add: result_is_def)
  then have "result_is (bc_sub p g (c + 1)) (of_int (G' - G) / 10 ^ c) (c + 1)" using pv g(2) by (simp add: result_is_def diff_divide_distrib)
  from diff_near [OF this] have "sqrt_turn num g c = Some (p, \<bar>G' - G\<bar> \<le> 1)"
    using q(1) p(1) by (simp add: sqrt_turn_def Let_def s_def)
  then show ?thesis using pv by (auto simp: guess_is_def result_is_def)
qed

text \<open>
  How long a guess can be: below \<open>10 ^ L\<close>, and not so small that the quotient is not. One turn keeps both.
\<close>

definition guess_bounds :: "bc_num \<Rightarrow> int \<Rightarrow> nat \<Rightarrow> bool" where
  "guess_bounds num G c \<longleftrightarrow> rat_of_int G < 10 ^ (n_len num + 1 + c) \<and> num_val num * 10 ^ c < of_int G * 10 ^ (n_len num + 1)"

lemma guess_length:
  assumes "guess_is g G c" "guess_bounds num G c" "0 \<le> G"
  shows "n_len g \<le> n_len num + 1"
proof -
  have "rat_of_int G / 10 ^ c < 10 ^ (n_len num + 1)" using assms(2) by (simp add: guess_bounds_def pos_divide_less_eq power_add)
  then have "\<bar>num_val g\<bar> < 10 ^ (n_len num + 1)" using assms(1,3) by (simp add: guess_is_def)
  then show ?thesis using assms(1) by (intro length_of_value) (simp_all add: guess_is_def)
qed

lemma newton_bounds:
  assumes num: "bc_canonical num" "0 < num_val num" and "guess_bounds num G c" "1 \<le> G" "1 \<le> \<lfloor>num_val num * 10 ^ (2 * c)\<rfloor>"
  defines "N \<equiv> \<lfloor>num_val num * 10 ^ (2 * c)\<rfloor>"
  shows "guess_bounds num ((N div G + G) div 2) c"
proof -
  define L where "L = n_len num + 1"
  define v where "v = num_val num"
  define G' where "G' = (N div G + G) div 2"
  have N: "1 \<le> N" "0 \<le> N" using assms(5) by (simp_all add: N_def)
  obtain s where s: "0 \<le> s" "s * s \<le> N" "N < (s + 1) * (s + 1)" using int_root [OF N(2)] .
  have sG: "s \<le> G'" unfolding G'_def by (rule newton_step(1) [OF s assms(4)])
  have v: "0 < v" "v < 10 ^ n_len num" using num value_below [of num] by (simp_all add: v_def)
  have b: "rat_of_int G < 10 ^ (L + c)" "v * 10 ^ c < of_int G * 10 ^ L" using assms(3) by (simp_all add: guess_bounds_def L_def v_def)
  have pc: "(10::rat) ^ (2 * c) = 10 ^ c * 10 ^ c" by (simp add: mult_2 power_add)
  have Nv: "rat_of_int N \<le> v * 10 ^ (2 * c)" "v * 10 ^ (2 * c) < of_int (N + 1)"
    using floor_correct [of "v * 10 ^ (2 * c)"] by (simp_all add: N_def v_def)
  have "v * 10 ^ (2 * c) < of_int G * 10 ^ L * 10 ^ c"
    unfolding pc mult.assoc [symmetric] using b(2) by (intro mult_strict_right_mono) simp_all
  then have "rat_of_int N < of_int (10 ^ (L + c) * G)" using Nv(1) by (simp add: power_add ac_simps)
  then have "N < 10 ^ (L + c) * G" by (simp only: of_int_less_iff)
  then have q: "N div G < 10 ^ (L + c)" using quotient_bounds(2) [of G N "10 ^ (L + c)"] assms(4) by simp
  have "rat_of_int G < of_int (10 ^ (L + c))" using b(1) by simp
  then have "G < 10 ^ (L + c)" by (simp only: of_int_less_iff)
  then have "G' < 10 ^ (L + c)" using q unfolding G'_def by linarith
  then have "rat_of_int G' < of_int (10 ^ (L + c))" by (simp only: of_int_less_iff)
  then have one: "rat_of_int G' < 10 ^ (L + c)" by simp
  have s1: "1 \<le> s" using s N(1) by (cases "s = 0") auto
  have "s < 10 ^ (n_len num + c)"
  proof (rule ccontr)
    assume "\<not> s < 10 ^ (n_len num + c)"
    then have "10 ^ (n_len num + c) * 10 ^ (n_len num + c) \<le> s * s" using s(1) by (intro mult_mono) simp_all
    then have "10 ^ (n_len num + c) * 10 ^ (n_len num + c) \<le> N" using s(2) by linarith
    then have "rat_of_int (10 ^ (n_len num + c) * 10 ^ (n_len num + c)) \<le> of_int N" by (simp only: of_int_le_iff)
    moreover have "rat_of_int (10 ^ (n_len num + c) * 10 ^ (n_len num + c)) = (10 ^ n_len num * 10 ^ n_len num) * 10 ^ (2 * c)"
      unfolding pc by (simp add: power_add ac_simps)
    ultimately have "(10 ^ n_len num * 10 ^ n_len num) * 10 ^ (2 * c) \<le> v * 10 ^ (2 * c)" using Nv(1) by (simp only:)
    then have "10 ^ n_len num * 10 ^ n_len num \<le> v" by (simp only: mult_le_cancel_right_pos zero_less_power zero_less_numeral)
    moreover have "(10::rat) ^ n_len num * 1 \<le> 10 ^ n_len num * 10 ^ n_len num" by (intro mult_left_mono) simp_all
    ultimately show False using v(2) by simp
  qed
  then have s4: "4 * s \<le> 10 ^ (L + c)" using s(1) by (simp add: L_def)
  have "(s + 1) * (s + 1) \<le> (2 * s) * (2 * s)" using s1 by (intro mult_mono) simp_all
  also have "\<dots> = 4 * s * s" by simp
  also have "\<dots> \<le> 10 ^ (L + c) * G'" using s4 sG s(1) by (intro mult_mono) simp_all
  finally have "N + 1 \<le> 10 ^ (L + c) * G'" using s(3) by linarith
  then have "rat_of_int (N + 1) \<le> of_int (10 ^ (L + c) * G')" by (simp only: of_int_le_iff)
  with Nv(2) have "v * 10 ^ (2 * c) < of_int (10 ^ (L + c) * G')" by (rule less_le_trans)
  moreover have "rat_of_int (10 ^ (L + c) * G') = of_int G' * 10 ^ L * 10 ^ c" by (simp add: power_add ac_simps)
  ultimately have "v * 10 ^ c * 10 ^ c < of_int G' * 10 ^ L * 10 ^ c" by (simp only: pc mult.assoc)
  then have "v * 10 ^ c < of_int G' * 10 ^ L" by (simp only: mult_less_cancel_right_pos zero_less_power zero_less_numeral)
  then show ?thesis using one unfolding guess_bounds_def G'_def [symmetric] L_def v_def by simp
qed

lemma bounds_finer:
  assumes "guess_bounds num G c" "c \<le> d"
  shows "guess_bounds num (G * 10 ^ (d - c)) d"
proof -
  have p: "(10::rat) ^ d = 10 ^ c * 10 ^ (d - c)" unfolding power_add [symmetric] using assms(2) by simp
  have "rat_of_int G * 10 ^ (d - c) < 10 ^ (n_len num + 1 + c) * 10 ^ (d - c)"
    "num_val num * 10 ^ c * 10 ^ (d - c) < of_int G * 10 ^ (n_len num + 1) * 10 ^ (d - c)"
    using assms(1) unfolding guess_bounds_def by (intro mult_strict_right_mono; simp)+
  then show ?thesis unfolding guess_bounds_def by (simp add: p power_add ac_simps)
qed

text \<open>A guess in finer units.\<close>

lemma guess_finer:
  assumes "guess_is g G c" "c \<le> d"
  shows "guess_is g (G * 10 ^ (d - c)) d"
proof -
  have "(10::rat) ^ d = 10 ^ c * 10 ^ (d - c)" unfolding power_add [symmetric] using assms(2) by simp
  then show ?thesis using assms by (auto simp: guess_is_def)
qed

subsection \<open>The loop ends with the root\<close>

lemma sqrt_loop_correct:
  assumes num: "bc_canonical num" "0 < num_val num" and "guess_is g G c" "1 \<le> c" "1 \<le> G" "1 \<le> num_val num * 10 ^ c"
    "guess_bounds num G c" "c \<le> R + 3" and room: "has_room (2 * n_len num + n_scale num + 2 * R + 7)"
  shows "\<exists>r c' G'. sqrt_loop num R g c = Some r \<and> guess_is r G' c' \<and> R + 1 \<le> c' \<and> c \<le> c' \<and> 0 \<le> G' \<and>
    near_root \<lfloor>num_val num * 10 ^ (2 * c')\<rfloor> G' \<and> n_len r \<le> n_len num + 1 \<and> c' \<le> R + 3"
  using assms(3-8)
proof (induction "R + 1 - c" arbitrary: g G c rule: less_induct)
  case (less c g G)
  define N where "N = \<lfloor>num_val num * 10 ^ (2 * c)\<rfloor>"
  have "num_val num * 10 ^ c * 1 \<le> num_val num * 10 ^ c * 10 ^ c" using num(2) by (intro mult_left_mono) simp_all
  then have "1 \<le> num_val num * 10 ^ (2 * c)" using less(5) by (simp add: mult_2 power_add)
  then have N: "1 \<le> N" by (simp add: N_def)
  then have "0 \<le> N" by simp
  then obtain s where s: "0 \<le> s" "s * s \<le> N" "N < (s + 1) * (s + 1)" by (rule int_root)
  let ?goal = "\<lambda>g. \<exists>r c' G'. sqrt_loop num R g c = Some r \<and> guess_is r G' c' \<and> R + 1 \<le> c' \<and> c \<le> c' \<and> 0 \<le> G' \<and> near_root \<lfloor>num_val num * 10 ^ (2 * c')\<rfloor> G' \<and> n_len r \<le> n_len num + 1 \<and> c' \<le> R + 3"
  have bnd: "guess_bounds num ((N div G + G) div 2) c" if "guess_bounds num G c" "1 \<le> G" for G
    using newton_bounds [OF num that] N unfolding N_def by simp
  have pos: "1 \<le> (N div G + G) div 2" if "1 \<le> G" for G
  proof (cases "G = 1")
    case False
    have "0 \<le> N div G" using N that by (simp add: pos_imp_zdiv_nonneg_iff)
    then show ?thesis using False that by linarith
  qed (use N in simp)
  have turn: "?goal g" if g: "guess_is g G c" "1 \<le> G" "guess_bounds num G c" and
    nxt: "\<And>g'. \<not> \<bar>(N div G + G) div 2 - G\<bar> \<le> 1 \<Longrightarrow> guess_is g' ((N div G + G) div 2) c \<Longrightarrow> ?goal g'" for g G
  proof -
    let ?G' = "(N div G + G) div 2"
    have "n_len g \<le> n_len num + 1" using guess_length [OF g(1,3)] g(2) by simp
    moreover have "n_scale g \<le> c" using g(1) by (simp add: guess_is_def)
    ultimately have small: "has_room (n_len num + n_scale num + n_len g + n_scale g + c)"
      using room less(7) by (elim has_room_le) linarith
    obtain g' where t: "sqrt_turn num g c = Some (g', \<bar>?G' - G\<bar> \<le> 1)" "guess_is g' ?G' c"
      using sqrt_turn_correct [OF num g(1) less(3) g(2) small, folded N_def] by blast
    have bG: "guess_bounds num ?G' c" by (rule bnd [OF g(3,2)])
    have lg: "n_len g' \<le> n_len num + 1" using guess_length [OF t(2) bG] pos [OF g(2)] by linarith
    note unfold = sqrt_loop.simps [of num R g c]
    show "?goal g"
    proof (cases "\<bar>?G' - G\<bar> \<le> 1")
      case False
      then have "sqrt_loop num R g c = sqrt_loop num R g' c" using t(1) unfold by simp
      then show ?thesis using nxt [OF False t(2)] by simp
    next
      case near: True
      show ?thesis
      proof (cases "c < R + 1")
        case True
        define d where "d = min (c * 3) (R + 1)"
        have d: "c < d" "d \<le> R + 1" using True less(3) by (auto simp: d_def)
        have "1 * 1 \<le> ?G' * 10 ^ (d - c)" using pos [OF g(2)] by (intro mult_mono) simp_all
        then have G1: "1 \<le> ?G' * 10 ^ (d - c)" by simp
        have "num_val num * 10 ^ c \<le> num_val num * 10 ^ d" using num(2) d(1) by (intro mult_left_mono power_increasing) simp_all
        then have v1: "1 \<le> num_val num * 10 ^ d" using less(5) by simp
        have "R + 1 - d < R + 1 - c" "c \<le> d" "1 \<le> d" "d \<le> R + 3" using d less(3) by simp_all
        from less(1) [OF this(1) guess_finer [OF t(2) this(2)] this(3) G1 v1 bounds_finer [OF bG this(2)] this(4)] obtain r c' G'' where
          "sqrt_loop num R g' d = Some r" "guess_is r G'' c'" "R + 1 \<le> c'" "d \<le> c'" "0 \<le> G''"
          "near_root \<lfloor>num_val num * 10 ^ (2 * c')\<rfloor> G''" "n_len r \<le> n_len num + 1" "c' \<le> R + 3" by blast
        moreover have "sqrt_loop num R g c = sqrt_loop num R g' d" using t(1) near True unfold by (simp add: d_def)
        ultimately show ?thesis using d(1) by (intro exI [of _ r] exI [of _ c'] exI [of _ G'']) simp
      next
        case False
        then have "sqrt_loop num R g c = Some g'" using t(1) near unfold by simp
        moreover have "near_root N ?G'" by (rule newton_step(4) [OF s g(2) near])
        moreover have "0 \<le> ?G'" using newton_step(1) [OF s g(2)] s(1) by simp
        ultimately show ?thesis using t(2) False unfolding N_def [symmetric] by (intro exI [of _ g'] exI [of _ c] exI [of _ ?G']) (use lg less(7) in \<open>simp add: N_def\<close>)
      qed
    qed
  qed
  have above: "?goal g" if "guess_is g G c" "1 \<le> G" "s \<le> G" "guess_bounds num G c" for g G
    using that
  proof (induction "nat (G - s)" arbitrary: g G rule: less_induct)
    case (less G g)
    note st = newton_step [OF s less(3)]
    show ?case
    proof (rule turn [OF less(2,3,5)])
      fix g'
      assume a: "\<not> \<bar>(N div G + G) div 2 - G\<bar> \<le> 1" "guess_is g' ((N div G + G) div 2) c"
      have "G \<noteq> s" using st(3) a(1) by blast
      then have "s < G" using less(4) by simp
      then have "nat ((N div G + G) div 2 - s) < nat (G - s)" using st(1,2) by linarith
      then show "?goal g'" using less(1) a(2) pos [OF less(3)] st(1) bnd [OF less(5,3)] by blast
    qed
  qed
  show ?case
  proof (rule turn [OF less(2,4,6)])
    fix g'
    assume "guess_is g' ((N div G + G) div 2) c"
    then show "?goal g'" using above pos [OF less(4)] newton_step(1) [OF s less(4)] bnd [OF less(6,4)] by blast
  qed
qed

subsection \<open>The result is the root cut to its scale\<close>

text \<open>The largest number of \<open>k\<close> places after the point whose square is not above \<open>v\<close>.\<close>

definition is_root :: "rat \<Rightarrow> rat \<Rightarrow> nat \<Rightarrow> bool" where
  "is_root x v k \<longleftrightarrow> 0 \<le> x \<and> bc_trunc x k = x \<and> x * x \<le> v \<and> v < (x + 1 / 10 ^ k) * (x + 1 / 10 ^ k)"

lemma root_digits:
  assumes "near_root N G" "0 \<le> G" "N mod 10 = 0" "1 \<le> k"
  defines "t \<equiv> G div 10 ^ k"
  shows "0 \<le> t" "(t * 10 ^ k) * (t * 10 ^ k) \<le> N" "N < ((t + 1) * 10 ^ k) * ((t + 1) * 10 ^ k)"
proof -
  have p: "(0::int) < 10 ^ k" by simp
  show t0: "0 \<le> t" using assms(2) by (simp add: t_def pos_imp_zdiv_nonneg_iff)
  have b: "t * 10 ^ k \<le> G" "G < (t + 1) * 10 ^ k"
    using quotient_bounds [OF p, of t G] quotient_bounds [OF p, of "t + 1" G] by (auto simp: t_def)
  have low: "(t * 10 ^ k) * (t * 10 ^ k) \<le> H * H" if "t * 10 ^ k \<le> H" for H
  proof -
    have "0 \<le> t * 10 ^ k" using t0 by simp
    then show ?thesis using that by (intro mult_mono) linarith+
  qed
  have "(G + 1) * (G + 1) \<le> ((t + 1) * 10 ^ k) * ((t + 1) * 10 ^ k)" "G * G \<le> ((t + 1) * 10 ^ k) * ((t + 1) * 10 ^ k) "
    using b(2) assms(2) by (auto intro!: mult_mono)
  moreover have "(t * 10 ^ k) * (t * 10 ^ k) \<le> N" if sq: "G * G = N + 1"
  proof -
    have "G mod 10 \<noteq> 0"
    proof
      assume "G mod 10 = 0"
      then have "(G * G) mod 10 = 0" by auto
      then show False using sq assms(3) by presburger
    qed
    moreover have "(t * 10 ^ k) mod 10 = 0" using assms(4) by (cases k) simp_all
    ultimately have "t * 10 ^ k \<noteq> G" by metis
    then have "t * 10 ^ k \<le> G - 1" using b(1) by simp
    from low [OF this] have "(t * 10 ^ k) * (t * 10 ^ k) \<le> N + 2 - 2 * G" using sq by (simp add: algebra_simps)
    moreover have "G \<noteq> 0" using \<open>G mod 10 \<noteq> 0\<close> by auto
    ultimately show ?thesis using assms(2) by linarith
  qed
  ultimately show "(t * 10 ^ k) * (t * 10 ^ k) \<le> N" "N < ((t + 1) * 10 ^ k) * ((t + 1) * 10 ^ k)"
    using assms(1) low [OF b(1)] by (auto simp: near_root_def)
qed

lemma near_root_trunc:
  assumes "bc_ok num" "n_scale num \<le> R" "R + 1 \<le> c" "near_root \<lfloor>num_val num * 10 ^ (2 * c)\<rfloor> G" "0 \<le> G" "0 \<le> num_val num"
  shows "is_root (bc_trunc (of_int G / 10 ^ c) R) (num_val num) R"
proof -
  define k where "k = c - R"
  define e where "e = 2 * c - n_scale num"
  define t where "t = G div 10 ^ k"
  define V where "V = (if n_sign num = PLUS then bc_mag num else - bc_mag num)"
  have kc: "c = R + k" "1 \<le> k" "1 \<le> e" "2 * c = n_scale num + e" using assms(2,3) by (simp_all add: k_def e_def)
  have v: "num_val num = of_int V / 10 ^ n_scale num" by (cases "n_sign num") (simp_all add: V_def num_val_def)
  have N1: "num_val num * 10 ^ (2 * c) = of_int (V * 10 ^ e)" unfolding kc(4) v by (simp add: power_add)
  have "\<lfloor>num_val num * 10 ^ (2 * c)\<rfloor> = V * 10 ^ e" unfolding N1 by (rule floor_of_int)
  note N = N1 this
  have "(V * 10 ^ e) mod 10 = 0" using kc(3) by (cases e) simp_all
  note d = root_digits [OF assms(4) [unfolded N(2)] assms(5) this kc(2), folded t_def]
  have tr: "bc_trunc (of_int G / 10 ^ c) R = of_int t / 10 ^ R"
    using trunc_signed [OF assms(5), of PLUS R k] by (simp add: kc(1) t_def)
  have p: "(10::rat) ^ (2 * c) = (10 ^ R * 10 ^ k) * (10 ^ R * 10 ^ k)" by (simp add: kc(1) power_add mult_2)
  have sq: "(of_int a / 10 ^ R) * (of_int a / 10 ^ R) * 10 ^ (2 * c) = rat_of_int ((a * 10 ^ k) * (a * 10 ^ k))" for a
    unfolding p by simp
  have q: "(0::rat) < 10 ^ (2 * c)" by simp
  have "of_int t / 10 ^ R * (of_int t / 10 ^ R) \<le> num_val num"
  proof -
    have "of_int t / 10 ^ R * (of_int t / 10 ^ R) * 10 ^ (2 * c) \<le> num_val num * 10 ^ (2 * c)" unfolding N(1) sq of_int_le_iff by (rule d(2))
    then show ?thesis using q by (simp only: mult_le_cancel_right_pos)
  qed
  moreover have "num_val num < (of_int t / 10 ^ R + 1 / 10 ^ R) * (of_int t / 10 ^ R + 1 / 10 ^ R)"
  proof -
    have "num_val num * 10 ^ (2 * c) < of_int (t + 1) / 10 ^ R * (of_int (t + 1) / 10 ^ R) * 10 ^ (2 * c)" unfolding N(1) sq of_int_less_iff by (rule d(3))
    then have "num_val num < of_int (t + 1) / 10 ^ R * (of_int (t + 1) / 10 ^ R)" using q by (simp only: mult_less_cancel_right_pos)
    then show ?thesis by (simp add: add_divide_distrib)
  qed
  ultimately show ?thesis unfolding is_root_def tr using d(1) trunc_exact [of t R R PLUS] by simp
qed

lemma start_guess:
  assumes "bc_canonical num" "int (n_len num) \<le> LONG_MAX"
  shows "\<exists>g. sqrt_start num 1 = Some (g, 3) \<and> guess_is g (10 ^ (n_len num div 2) * 10 ^ 3) 3"
proof -
  let ?e = "int (n_len num) div 2"
  have l: "result_is (bc_int2num (int (n_len num))) (of_int (int (n_len num))) 0" by (rule int2num_correct(1))
  obtain p where p: "bc_multiply (bc_int2num (int (n_len num))) sqrt_point5 0 = Some p" "bc_canonical p" "num_val p = of_int (int (n_len num)) / 2" "n_scale p = 1"
    using multiply_correct [of "bc_int2num (int (n_len num))" sqrt_point5 0] multiply_exact [of "bc_int2num (int (n_len num))" sqrt_point5 0] l point5
    by (auto simp: result_is_def)
  let ?x = "p\<lparr>n_scale := 0\<rparr>"
  have "num_val ?x = bc_trunc (num_val p) 0" using cut_scale(2) [of p 0] p(2) by simp
  also have "\<dots> = of_int ?e" using floor_divide_of_int_eq [where 'a = rat, of "int (n_len num)" 2] by (simp add: p(3) bc_trunc_def)
  finally have xv: "num_val ?x = of_int ?e" .
  have x: "bc_canonical ?x" "n_scale ?x = 0" using cut_scale(1) [of p 0] p(2) by (simp_all add: bc_canonical_def stripped_def)
  have e: "0 \<le> ?e" "?e \<le> LONG_MAX" using assms(2) by linarith+
  then have "bc_num2long ?x = ?e" "\<not> (bc_num2long ?x = 0 \<and> (n_len ?x > 1 \<or> n_value ?x ! 0 \<noteq> 0))"
    using num2long_int [OF x] unfolding xv by auto
  then have run: "bc_raise_bc_exponent (bc_int2num 10) ?x (bc_int2num 10) 0 = bc_raise (bc_int2num 10) ?e (bc_int2num 10) 0"
    by (auto simp: bc_raise_bc_exponent_def Let_def)
  have ten: "bc_canonical (bc_int2num 10)" "num_val (bc_int2num 10) = 10" "n_scale (bc_int2num 10) = 0"
    using int2num_correct(1) [of 10] by (simp_all add: result_is_def)
  have "\<exists>g. bc_raise (bc_int2num 10) ?e (bc_int2num 10) 0 = Some g \<and> result_is g (10 ^ nat ?e) 0"
  proof (cases "?e = 0")
    case True
    have "result_is BCG_one 1 0" by (simp add: result_is_def) (simp add: BCG_one_def bc_new_num_def)
    then show ?thesis using raise_correct(4) [OF ten(1), of 0] unfolding True by (simp add: LONG_MAX_def)
  next
    case False
    have "bc_trunc (10 ^ nat ?e) 0 = (10::rat) ^ nat ?e" using trunc_int [of "10 ^ nat ?e" 0] by simp
    then show ?thesis using raise_correct(1) [OF ten(1), of ?e 0 "bc_int2num 10"] False e ten(2,3) by (simp add: LONG_MAX_def)
  qed
  then obtain g where g: "bc_raise (bc_int2num 10) ?e (bc_int2num 10) 0 = Some g" "result_is g (10 ^ nat ?e) 0" by blast
  have "sqrt_start num 1 = Some (g, 3)" unfolding sqrt_start_def Let_def p(1) using run g(1) by simp
  moreover have "guess_is g (10 ^ (n_len num div 2) * 10 ^ 3) 3"
    using g(2) by (simp add: guess_is_def result_is_def nat_div_distrib)
  ultimately show ?thesis by blast
qed

lemma sqrt_correct:
  assumes "bc_canonical num" "proper_sign num" "has_room (2 * n_len num + n_scale num + 2 * max scale (n_scale num) + 7)"
  shows "num_val num < 0 \<Longrightarrow> bc_sqrt num scale = Some (num, False)"
    "0 \<le> num_val num \<Longrightarrow> \<exists>r. bc_sqrt num scale = Some (r, True) \<and> bc_canonical r \<and> n_scale r \<le> max scale (n_scale num) \<and>
      is_root (num_val r) (num_val num) (max scale (n_scale num))"
proof -
  have cs: "proper_sign BCG_zero" "proper_sign BCG_one" "n_scale BCG_zero = 0" "n_scale BCG_one = 0"
    by (simp_all add: proper_sign_def BCG_zero_def BCG_one_def bc_new_num_def)
  have c0: "bc_compare num BCG_zero = (if num_val num < 0 then - 1 else if 0 < num_val num then 1 else 0)"
    using bc_compare_correct [OF assms(1) BCG_ok(1) assms(2) cs(1)] by simp
  have c1: "bc_compare num BCG_one = (if num_val num < 1 then - 1 else if 1 < num_val num then 1 else 0)"
    using bc_compare_correct [OF assms(1) BCG_ok(2) assms(2) cs(2)] by simp
  show "bc_sqrt num scale = Some (num, False)" if "num_val num < 0" using that c0 by (simp add: bc_sqrt_def)
  assume nn: "0 \<le> num_val num"
  define R where "R = max scale (n_scale num)"
  have int_root: "bc_trunc 0 R = 0" "bc_trunc 1 R = 1" using trunc_int [of 0 R] trunc_int [of 1 R] by simp_all
  consider "num_val num = 0" | "num_val num = 1" | "0 < num_val num" "num_val num \<noteq> 1" using nn by fastforce
  then show "\<exists>r. bc_sqrt num scale = Some (r, True) \<and> bc_canonical r \<and> n_scale r \<le> max scale (n_scale num) \<and>
      is_root (num_val r) (num_val num) (max scale (n_scale num))"
    unfolding R_def [symmetric]
  proof cases
    case 1
    then have "bc_sqrt num scale = Some (BCG_zero, True)" using c0 by (simp add: bc_sqrt_def)
    moreover have "is_root 0 0 R" by (simp add: is_root_def int_root)
    ultimately show "\<exists>r. bc_sqrt num scale = Some (r, True) \<and> bc_canonical r \<and> n_scale r \<le> R \<and> is_root (num_val r) (num_val num) R"
      using 1 cs by simp
  next
    case 2
    then have "bc_sqrt num scale = Some (BCG_one, True)" using c0 c1 by (simp add: bc_sqrt_def)
    moreover have "is_root 1 1 R" by (simp add: is_root_def int_root algebra_simps add_pos_pos)
    ultimately show "\<exists>r. bc_sqrt num scale = Some (r, True) \<and> bc_canonical r \<and> n_scale r \<le> R \<and> is_root (num_val r) (num_val num) R"
      using 2 cs by simp
  next
    case 3
    define cmp where "cmp = (if num_val num < 1 then - 1 else (1::int))"
    have vb: "num_val num < 10 ^ n_len num" using value_below [of num] assms(1) by simp
    have lm: "int (n_len num) \<le> LONG_MAX" using assms(3) by (simp add: has_room_def INT_MAX_def LONG_MAX_def)
    have "\<exists>g c G. sqrt_start num cmp = Some (g, c) \<and> guess_is g G c \<and> 1 \<le> c \<and> 1 \<le> G \<and> 1 \<le> num_val num * 10 ^ c \<and>
        guess_bounds num G c \<and> c \<le> R + 3"
    proof (cases "num_val num < 1")
      case True
      have s: "n_sign num = PLUS" using 3(1) bc_mag_pos [of num] assms(1)
        by (cases "n_sign num") (auto simp: num_val_def zero_less_divide_iff divide_less_0_iff)
      then have v: "num_val num * 10 ^ n_scale num = of_int (bc_mag num)" by (simp add: num_val_def)
      have m: "1 \<le> bc_mag num" using 3(1) s by (simp add: num_val_def zero_less_divide_iff)
      have "n_scale num \<noteq> 0"
      proof
        assume "n_scale num = 0"
        then show False using True m s by (simp add: num_val_def)
      qed
      moreover have "guess_is BCG_one (10 ^ n_scale num) (n_scale num)" by (simp add: guess_is_def cs)
      moreover have "1 \<le> num_val num * 10 ^ n_scale num" unfolding v using m by simp
      moreover have "guess_bounds num (10 ^ n_scale num) (n_scale num)"
      proof -
        have "(1::rat) * 10 ^ n_scale num < 10 ^ (n_len num + 1) * 10 ^ n_scale num" by (intro mult_strict_right_mono one_less_power) simp_all
        moreover have "num_val num * 10 ^ n_scale num < 10 ^ n_scale num * 1" using True by simp
        then have "num_val num * 10 ^ n_scale num < 10 ^ n_scale num * 10 ^ (n_len num + 1)"
          by (rule less_le_trans) (intro mult_left_mono one_le_power; simp)
        ultimately show ?thesis by (simp add: guess_bounds_def power_add)
      qed
      moreover have "n_scale num \<le> R + 3" by (simp add: R_def)
      ultimately show ?thesis using True
        by (intro exI [of _ BCG_one] exI [of _ "n_scale num"] exI [of _ "10 ^ n_scale num"]) (simp add: sqrt_start_def cmp_def)
    next
      case False
      then have "1 \<le> num_val num * 10 ^ 3" by simp
      moreover obtain g where "sqrt_start num 1 = Some (g, 3)" "guess_is g (10 ^ (n_len num div 2) * 10 ^ 3) 3"
        using start_guess [OF assms(1) lm] by blast
      moreover have "(1::int) * 1 \<le> 10 ^ (n_len num div 2) * 10 ^ 3" by (intro mult_mono) simp_all
      moreover have "cmp = 1" using False by (simp add: cmp_def)
      moreover have "guess_bounds num (10 ^ (n_len num div 2) * 10 ^ 3) 3"
      proof -
        have "(10::rat) ^ (n_len num div 2) * 10 ^ 3 < 10 ^ (n_len num + 1) * 10 ^ 3"
          by (intro mult_strict_right_mono power_strict_increasing) simp_all
        moreover have "(10::rat) ^ n_len num * 1 \<le> 10 ^ n_len num * 10 ^ (n_len num div 2 + 1)" by (intro mult_left_mono one_le_power) simp_all
        then have "num_val num < 10 ^ n_len num * 10 ^ (n_len num div 2 + 1)" using vb unfolding mult_1_right by (rule less_le_trans [rotated])
        then have "num_val num * 10 ^ 3 < 10 ^ n_len num * 10 ^ (n_len num div 2 + 1) * 10 ^ 3" by (intro mult_strict_right_mono) simp_all
        ultimately show ?thesis by (simp add: guess_bounds_def power_add ac_simps)
      qed
      ultimately have "sqrt_start num cmp = Some (g, 3) \<and> guess_is g (10 ^ (n_len num div 2) * 10 ^ 3) 3 \<and> 1 \<le> (3::nat) \<and>
        1 \<le> (10::int) ^ (n_len num div 2) * 10 ^ 3 \<and> 1 \<le> num_val num * 10 ^ 3 \<and>
        guess_bounds num (10 ^ (n_len num div 2) * 10 ^ 3) 3 \<and> 3 \<le> R + 3" by simp
      then show ?thesis by blast
    qed
    then obtain g c G where g: "sqrt_start num cmp = Some (g, c)" "guess_is g G c" "1 \<le> c" "1 \<le> G" "1 \<le> num_val num * 10 ^ c"
      "guess_bounds num G c" "c \<le> R + 3" by blast
    obtain x c' G' where x: "sqrt_loop num R g c = Some x" "guess_is x G' c'" "R + 1 \<le> c'" "0 \<le> G'"
      "near_root \<lfloor>num_val num * 10 ^ (2 * c')\<rfloor> G'" "n_len x \<le> n_len num + 1" "c' \<le> R + 3"
      using sqrt_loop_correct [OF assms(1) 3(1) g(2-7)] assms(3) unfolding R_def by blast
    have one: "bc_mag BCG_one \<noteq> 0" using num_val_0_iff [of BCG_one] by simp
    have "n_scale x \<le> R + 3" "n_len BCG_one = 1" "n_scale BCG_one = 0" using x(2,7) by (simp_all add: guess_is_def BCG_one_def bc_new_num_def)
    then have last: "has_room (n_len x + n_scale x + n_len BCG_one + n_scale BCG_one + R)"
      using assms(3) x(6) unfolding R_def [symmetric] by (elim has_room_le) linarith
    obtain r where r: "bc_divide x BCG_one R = Some (Some r)" "result_is r (bc_trunc (num_val x / num_val BCG_one) R) R"
      using divide_correct [OF _ _ one, of x R] x(2) last by (auto simp: guess_is_def)
    have cc: "bc_compare num BCG_zero = 1" "bc_compare num BCG_one = cmp" "cmp \<noteq> 0" using 3 c0 c1 by (auto simp: cmp_def)
    have "bc_sqrt num scale = Some (r, True)"
      unfolding bc_sqrt_def Let_def R_def [symmetric] cc(1,2) using cc(3) g(1) x(1) r(1) by simp
    moreover have "is_root (num_val r) (num_val num) R"
      using near_root_trunc [OF canonical_ok [OF assms(1)] _ x(3,5,4) nn] r(2) x(2) by (simp add: result_is_def guess_is_def R_def)
    ultimately show "\<exists>r. bc_sqrt num scale = Some (r, True) \<and> bc_canonical r \<and> n_scale r \<le> R \<and> is_root (num_val r) (num_val num) R"
      using r(2) by (auto simp: result_is_def)
  qed
qed

text \<open>The function on texts.\<close>

lemma root_trunc:
  assumes "is_root x v k" "scale \<le> k"
  shows "is_root (bc_trunc x scale) v scale"
proof -
  have x: "0 \<le> x" "x * x \<le> v" "v < (x + 1 / 10 ^ k) * (x + 1 / 10 ^ k)" "bc_trunc x k = x" using assms(1) by (simp_all add: is_root_def)
  define t where "t = \<lfloor>x * 10 ^ scale\<rfloor>"
  define n where "n = \<lfloor>x * 10 ^ k\<rfloor>"
  have t0: "0 \<le> t" using x(1) by (simp add: t_def)
  have tr: "bc_trunc x scale = of_int t / 10 ^ scale" using x(1) by (simp add: bc_trunc_def t_def)
  have xn: "x = of_int n / 10 ^ k" using x(1,4) by (simp add: bc_trunc_def n_def)
  have p: "(10::rat) ^ k = 10 ^ scale * 10 ^ (k - scale)" unfolding power_add [symmetric] using assms(2) by simp
  have ps: "(0::rat) < 10 ^ scale" by simp
  have "of_int t \<le> x * 10 ^ scale" by (simp add: t_def)
  then have le: "of_int t / 10 ^ scale \<le> x" using ps by (simp add: pos_divide_le_eq)
  have "t = n div 10 ^ (k - scale)" using floor_div [of "10 ^ (k - scale)" "of_int n"] by (simp add: t_def xn p)
  then have "n < (t + 1) * 10 ^ (k - scale)" using quotient_bounds(2) [of "10 ^ (k - scale)" n "t + 1"] by simp
  then have "n + 1 \<le> (t + 1) * 10 ^ (k - scale)" by simp
  then have "rat_of_int (n + 1) \<le> of_int ((t + 1) * 10 ^ (k - scale))" by (simp only: of_int_le_iff)
  then have "rat_of_int (n + 1) / 10 ^ k \<le> of_int ((t + 1) * 10 ^ (k - scale)) / 10 ^ k" by (intro divide_right_mono) simp_all
  then have up: "x + 1 / 10 ^ k \<le> of_int t / 10 ^ scale + 1 / 10 ^ scale"
    unfolding xn p by (simp add: add_divide_distrib)
  have "of_int t / 10 ^ scale * (of_int t / 10 ^ scale) \<le> x * x" using le t0 x(1) by (intro mult_mono) simp_all
  moreover have "(x + 1 / 10 ^ k) * (x + 1 / 10 ^ k) \<le> (of_int t / 10 ^ scale + 1 / 10 ^ scale) * (of_int t / 10 ^ scale + 1 / 10 ^ scale)"
    using up x(1) t0 by (intro mult_mono) simp_all
  ultimately show ?thesis unfolding is_root_def using x tr t0 trunc_idem [of x scale] by simp
qed

lemma sqrt_answer:
  assumes "CHR 0x00 \<notin> set left" "get_scale bc_precision 2 scale_param = Inr scale"
    "has_room (2 * length left + 3 * length (text_fraction left) + 2 * scale + 9)"
  shows "if \<not> decimal_text left then bcsqrt bc_precision left scale_param = Some (Inl (argument_value_error 1 ''is not well-formed''))
    else if text_val left < 0 then bcsqrt bc_precision left scale_param = Some (Inl (argument_value_error 1 ''must be greater than or equal to 0''))
    else \<exists>root. prints root (bcsqrt bc_precision left scale_param) \<and> is_root root (text_val left) scale"
  using assms(1)
proof (cases rule: php_str2num_cases)
  case bad
  then show ?thesis by (simp add: bcsqrt_def assms(2))
next
  case (good num)
  have "2 * n_len num + n_scale num + 2 * max scale (n_scale num) + 7 \<le> 2 * length left + 3 * length (text_fraction left) + 2 * scale + 9"
    using good(7,8) by linarith
  note S = sqrt_correct [OF good(3,4) has_room_le [OF assms(3) this], unfolded good(5)]
  show ?thesis
  proof (cases "text_val left < 0")
    case True
    then show ?thesis using S(1) good(1,2) by (simp add: bcsqrt_def assms(2))
  next
    case False
    then obtain r where r: "bc_sqrt num scale = Some (r, True)" "bc_canonical r" "is_root (num_val r) (text_val left) (max scale (n_scale num))"
      using S(2) by fastforce
    have "result_is r (num_val r) (n_scale r)" using r(2) by (simp add: result_is_def)
    then have "prints (bc_trunc (num_val r) scale) (bcsqrt bc_precision left scale_param)"
      using r(1) good(2) by (auto simp: bcsqrt_def assms(2) intro: print_result)
    moreover have "is_root (bc_trunc (num_val r) scale) (text_val left) scale" using root_trunc [OF r(3)] by simp
    ultimately show ?thesis using False good(1) by auto
  qed
qed

end
