(* ===== verification/CalSolar.thy ===== *)
theory CalSolar
  imports PhpPrelude "HOL-Library.Signed_Division"
begin

text \<open>
  The solar calendars of \<open>ext/calendar\<close>: conversions between serial day numbers and dates of the
  Gregorian (\<open>gregor.c\<close>), Julian (\<open>julian.c\<close>) and French republican (\<open>french.c\<close>) calendars, and the day
  of the week (\<open>dow.c\<close>).

  A conversion from a day number stores a year, a month and a day; here it returns them. Numbers are
  integers; \<open>to_int\<close> is the conversion of a \<open>zend_long\<close> to an \<open>int\<close>, and is written at each such place.
  Divisions whose operands are not negative are \<open>div\<close> and \<open>mod\<close>.
\<close>

definition to_int :: "int \<Rightarrow> int" where "to_int x = signed_take_bit 31 x"

definition CLONG_MAX :: int where "CLONG_MAX = 2 ^ 63 - 1"
definition CLONG_MIN :: int where "CLONG_MIN = - (2 ^ 63)"
definition CINT_MAX :: int where "CINT_MAX = 2 ^ 31 - 1"
definition CINT_MIN :: int where "CINT_MIN = - (2 ^ 31)"

type_synonym ymd = "int \<times> int \<times> int"

subsection \<open>Gregorian calendar\<close>

definition GREGOR_SDN_OFFSET :: int where "GREGOR_SDN_OFFSET = 32045"
definition DAYS_PER_5_MONTHS :: int where "DAYS_PER_5_MONTHS = 153"
definition DAYS_PER_4_YEARS :: int where "DAYS_PER_4_YEARS = 1461"
definition DAYS_PER_400_YEARS :: int where "DAYS_PER_400_YEARS = 146097"

text \<open>The end both conversions share: from the day of a year that begins in March to month and day.\<close>

definition civil_date :: "int \<Rightarrow> int \<Rightarrow> ymd" where
  "civil_date year dayOfYear =
     (let temp = dayOfYear * 5 - 3;
          month = temp div DAYS_PER_5_MONTHS;
          day = (temp mod DAYS_PER_5_MONTHS) div 5 + 1;
          (year, month) = (if month < 10 then (year, month + 3) else (year + 1, month - 9));
          year = year - 4800;
          year = (if year \<le> 0 then year - 1 else year)
      in (year, month, day))"

definition SdnToGregorian :: "int \<Rightarrow> ymd" where
  "SdnToGregorian sdn =
     (if sdn \<le> 0 \<or> sdn > (CLONG_MAX - 4 * GREGOR_SDN_OFFSET) div 4 then (0, 0, 0)
      else (let temp = (sdn + GREGOR_SDN_OFFSET) * 4 - 1;
                century = to_int (temp div DAYS_PER_400_YEARS);
                temp = ((temp mod DAYS_PER_400_YEARS) div 4) * 4 + 3;
                year = to_int (to_int (century * 100) + temp div DAYS_PER_4_YEARS);
                dayOfYear = (temp mod DAYS_PER_4_YEARS) div 4 + 1
            in civil_date year dayOfYear))"

text \<open>The year and month counted from March, as both conversions to a day number begin.\<close>

definition march_year :: "int \<Rightarrow> int \<Rightarrow> int \<times> int" where
  "march_year inputYear inputMonth =
     (let year = (if inputYear < 0 then inputYear + 4801 else inputYear + 4800)
      in if inputMonth > 2 then (year, inputMonth - 3) else (year - 1, inputMonth + 9))"

definition GregorianToSdn :: "int \<Rightarrow> int \<Rightarrow> int \<Rightarrow> int" where
  "GregorianToSdn inputYear inputMonth inputDay =
     (if inputYear = 0 \<or> inputYear < - 4714 \<or> inputMonth \<le> 0 \<or> inputMonth > 12 \<or> inputDay \<le> 0 \<or> inputDay > 31 then 0
      else if inputYear = - 4714 \<and> inputMonth < 11 then 0
      else if inputYear = - 4714 \<and> inputMonth = 11 \<and> inputDay < 25 then 0
      else (let (year, month) = march_year inputYear inputMonth
            in ((year div 100) * DAYS_PER_400_YEARS) div 4 + ((year mod 100) * DAYS_PER_4_YEARS) div 4 +
               (month * DAYS_PER_5_MONTHS + 2) div 5 + inputDay - GREGOR_SDN_OFFSET))"

subsection \<open>Julian calendar\<close>

definition JULIAN_SDN_OFFSET :: int where "JULIAN_SDN_OFFSET = 32083"

definition SdnToJulian :: "int \<Rightarrow> ymd" where
  "SdnToJulian sdn =
     (if sdn \<le> 0 then (0, 0, 0)
      else if sdn > (CLONG_MAX - JULIAN_SDN_OFFSET * 4 + 1) div 4 \<or> sdn < CLONG_MIN sdiv 4 then (0, 0, 0)
      else (let temp = sdn * 4 + (JULIAN_SDN_OFFSET * 4 - 1);
                yearl = temp div DAYS_PER_4_YEARS
            in if yearl > CINT_MAX \<or> yearl < CINT_MIN then (0, 0, 0)
               else (let year = to_int yearl;
                         dayOfYear = (temp mod DAYS_PER_4_YEARS) div 4 + 1
                     in civil_date year dayOfYear)))"

definition JulianToSdn :: "int \<Rightarrow> int \<Rightarrow> int \<Rightarrow> int" where
  "JulianToSdn inputYear inputMonth inputDay =
     (if inputYear = 0 \<or> inputYear < - 4713 \<or> inputMonth \<le> 0 \<or> inputMonth > 12 \<or> inputDay \<le> 0 \<or> inputDay > 31 then 0
      else if inputYear = - 4713 \<and> inputMonth = 1 \<and> inputDay = 1 then 0
      else (let (year, month) = march_year inputYear inputMonth
            in (year * DAYS_PER_4_YEARS) div 4 + (month * DAYS_PER_5_MONTHS + 2) div 5 + inputDay - JULIAN_SDN_OFFSET))"

subsection \<open>French republican calendar\<close>

definition FRENCH_SDN_OFFSET :: int where "FRENCH_SDN_OFFSET = 2375474"
definition DAYS_PER_MONTH :: int where "DAYS_PER_MONTH = 30"
definition FIRST_VALID :: int where "FIRST_VALID = 2375840"
definition LAST_VALID :: int where "LAST_VALID = 2380952"

definition SdnToFrench :: "int \<Rightarrow> ymd" where
  "SdnToFrench sdn =
     (if sdn < FIRST_VALID \<or> sdn > LAST_VALID then (0, 0, 0)
      else (let temp = (sdn - FRENCH_SDN_OFFSET) * 4 - 1;
                dayOfYear = (temp mod DAYS_PER_4_YEARS) div 4
            in (temp div DAYS_PER_4_YEARS, dayOfYear div DAYS_PER_MONTH + 1, dayOfYear mod DAYS_PER_MONTH + 1)))"

definition FrenchToSdn :: "int \<Rightarrow> int \<Rightarrow> int \<Rightarrow> int" where
  "FrenchToSdn year month day =
     (if year < 1 \<or> year > 14 \<or> month < 1 \<or> month > 13 \<or> day < 1 \<or> day > 30 then 0
      else (year * DAYS_PER_4_YEARS) div 4 + (month - 1) * DAYS_PER_MONTH + day + FRENCH_SDN_OFFSET)"

subsection \<open>Day of the week\<close>

definition DayOfWeek :: "int \<Rightarrow> int" where
  "DayOfWeek sdn = to_int (sdn smod 7 + 8) smod 7"

lemmas cal_simps = GREGOR_SDN_OFFSET_def DAYS_PER_5_MONTHS_def DAYS_PER_4_YEARS_def DAYS_PER_400_YEARS_def JULIAN_SDN_OFFSET_def
  FRENCH_SDN_OFFSET_def DAYS_PER_MONTH_def FIRST_VALID_def LAST_VALID_def CLONG_MAX_def CLONG_MIN_def CINT_MAX_def CINT_MIN_def

subsection \<open>The pieces\<close>

lemma to_int_id: "- (2 ^ 31) \<le> x \<Longrightarrow> x < 2 ^ 31 \<Longrightarrow> to_int x = x"
  by (simp add: to_int_def signed_take_bit_int_eq_self_iff)

lemma div_is: "(0::int) < b \<Longrightarrow> b * q \<le> a \<Longrightarrow> a < b * q + b \<Longrightarrow> a div b = q"
  by (rule int_div_pos_eq [of a b q "a - b * q"]) auto

lemma div_bounds: "(0::int) < b \<Longrightarrow> b * (a div b) \<le> a \<and> a < b * (a div b) + b"
  using pos_mod_bound [of b a] pos_mod_sign [of b a] mult_div_mod_eq [of b a] by linarith

text \<open>Months from March: month \<open>m\<close> begins on day \<open>(153 * m + 2) div 5 + 1\<close> of its year.\<close>

lemma month_of_day:
  fixes doy :: int
  assumes "1 \<le> doy" "doy \<le> 366" "mon = (doy * 5 - 3) div 153" "day = ((doy * 5 - 3) mod 153) div 5 + 1"
  shows "0 \<le> mon" "mon \<le> 11" "1 \<le> day" "day \<le> 31" "(mon * 153 + 2) div 5 + day = doy"
    "day \<le> (if mon = 11 then if doy = 366 then 29 else 28 else (153 * (mon + 1) + 2) div 5 - (153 * mon + 2) div 5)"
proof -
  have m: "153 * mon \<le> doy * 5 - 3" "doy * 5 - 3 < 153 * mon + 153"
    using div_bounds [of 153 "doy * 5 - 3"] assms(3) by simp_all
  have "(doy * 5 - 3) mod 153 = doy * 5 - 3 - 153 * mon" using assms(3) by (simp add: minus_mult_div_eq_mod)
  then have d: "5 * day - 5 \<le> doy * 5 - 3 - 153 * mon" "doy * 5 - 3 - 153 * mon < 5 * day"
    using div_bounds [of 5 "doy * 5 - 3 - 153 * mon"] assms(4) by simp_all
  show "0 \<le> mon" "mon \<le> 11" "1 \<le> day" "day \<le> 31" using m d assms(1,2) by linarith+
  have q: "(mon * 153 + 2) div 5 = doy - day" using d by (intro div_is) (simp_all add: right_diff_distrib)
  then show "(mon * 153 + 2) div 5 + day = doy" by simp
  have "153 * (mon + 1) + 2 < 5 * ((153 * (mon + 1) + 2) div 5) + 5" using div_bounds [of 5 "153 * (mon + 1) + 2"] by simp
  then have "doy \<le> (153 * (mon + 1) + 2) div 5" using m by (simp add: distrib_left)
  then show "day \<le> (if mon = 11 then if doy = 366 then 29 else 28 else (153 * (mon + 1) + 2) div 5 - (153 * mon + 2) div 5)"
    using q assms(1,2) by (auto simp: mult.commute)
qed

lemma day_of_month:
  fixes mon day :: int
  assumes "0 \<le> mon" "mon \<le> 11" "1 \<le> day" "day \<le> (if mon = 11 then 29 else (153 * (mon + 1) + 2) div 5 - (153 * mon + 2) div 5)"
  defines "doy \<equiv> (mon * 153 + 2) div 5 + day"
  shows "(doy * 5 - 3) div 153 = mon" "((doy * 5 - 3) mod 153) div 5 + 1 = day" "1 \<le> doy" "doy \<le> 366" "mon \<noteq> 11 \<or> day \<noteq> 29 \<Longrightarrow> doy \<le> 365"
proof -
  define p where "p = (mon * 153 + 2) div 5"
  have p: "5 * p \<le> mon * 153 + 2" "mon * 153 + 2 < 5 * p + 5" using div_bounds [of 5 "mon * 153 + 2"] by (simp_all add: p_def)
  define p' where "p' = ((mon + 1) * 153 + 2) div 5"
  have p': "5 * p' \<le> (mon + 1) * 153 + 2" using div_bounds [of 5 "(mon + 1) * 153 + 2"] by (simp add: p'_def)
  have d: "mon = 11 \<and> day \<le> 29 \<or> mon \<le> 10 \<and> p + day \<le> p'" using assms(2,4) by (auto simp: p_def p'_def mult.commute split: if_splits)
  have e: "doy = p + day" "doy * 5 = 5 * p + 5 * day" by (simp_all add: doy_def p_def)
  have p'2: "5 * p' \<le> mon * 153 + 155" using p' by (simp add: distrib_right)
  have up: "doy * 5 - 3 < 153 * mon + 153" using d p p'2 e by auto
  then show m: "(doy * 5 - 3) div 153 = mon" using p assms(3) e by (intro div_is) linarith+
  have "(doy * 5 - 3) mod 153 = doy * 5 - 3 - 153 * mon" using m minus_mult_div_eq_mod [of "doy * 5 - 3" 153] by simp
  moreover have "(doy * 5 - 3 - 153 * mon) div 5 = day - 1" using p e by (intro div_is) (simp_all add: right_diff_distrib)
  ultimately show "((doy * 5 - 3) mod 153) div 5 + 1 = day" by simp
  show "1 \<le> doy" using p assms(1,3) e by linarith
  show "doy \<le> 366" using d p p'2 e by auto
  show "doy \<le> 365" if "mon \<noteq> 11 \<or> day \<noteq> 29" using d p p'2 that e by auto
qed

text \<open>
  Cycles of four: parts of \<open>l\<close> days, the fourth one longer by a day, so that part \<open>y\<close> begins after
  \<open>(y * (4 * l + 1)) div 4\<close> days. With \<open>l = 365\<close> these are years, with \<open>l = 36524\<close> centuries.
\<close>

lemma cycle_of_day:
  fixes r l :: int
  assumes "0 < l" "y = (4 * r + 3) div (4 * l + 1)" "d = ((4 * r + 3) mod (4 * l + 1)) div 4"
  shows "0 \<le> d" "d \<le> l" "(y * (4 * l + 1)) div 4 + d = r" "d = l \<Longrightarrow> y mod 4 = 3" "0 \<le> r \<Longrightarrow> 0 \<le> y"
proof -
  define P where "P = l * y"
  have P: "(4 * l + 1) * y = 4 * P + y" "y * (4 * l + 1) = 4 * P + y" by (simp_all add: P_def algebra_simps)
  have b: "4 * P + y \<le> 4 * r + 3" "4 * r + 3 < 4 * P + y + 4 * l + 1"
    using div_bounds [of "4 * l + 1" "4 * r + 3"] assms(1,2) P(1) by simp_all
  have "(4 * r + 3) mod (4 * l + 1) = 4 * r + 3 - (4 * P + y)"
    using minus_mult_div_eq_mod [of "4 * r + 3" "4 * l + 1"] assms(2) P(1) by simp
  then have d: "4 * d \<le> 4 * r + 3 - (4 * P + y)" "4 * r + 3 - (4 * P + y) < 4 * d + 4"
    using div_bounds [of 4 "4 * r + 3 - (4 * P + y)"] assms(3) by simp_all
  show "0 \<le> d" "d \<le> l" using b d by linarith+
  have "(4 * P + y) div 4 = r - d" using d by (intro div_is) (simp_all add: right_diff_distrib)
  then show "(y * (4 * l + 1)) div 4 + d = r" by (simp add: P(2))
  show "y mod 4 = 3" if "d = l"
  proof -
    have "y = 3 + 4 * (r - l - P)" using b d that by (simp add: right_diff_distrib)
    then have "y mod 4 = (3 + 4 * (r - l - P)) mod 4" by simp
    then show ?thesis unfolding mod_mult_self2 by simp
  qed
  show "0 \<le> y" if "0 \<le> r"
  proof (rule ccontr)
    assume "\<not> 0 \<le> y"
    then have "(4 * l + 1) * y \<le> (4 * l + 1) * (- 1)" using assms(1) by (intro mult_left_mono) simp_all
    then show False using b(2) P(1) that by simp
  qed
qed

lemma day_of_cycle:
  fixes y d l :: int
  assumes "0 < l" "0 \<le> d" "d < l \<or> d = l \<and> y mod 4 = 3" "r = (y * (4 * l + 1)) div 4 + d"
  shows "(4 * r + 3) div (4 * l + 1) = y" "((4 * r + 3) mod (4 * l + 1)) div 4 = d"
proof -
  define P where "P = l * y"
  have P: "(4 * l + 1) * y = 4 * P + y" "y * (4 * l + 1) = 4 * P + y" by (simp_all add: P_def algebra_simps)
  have q: "4 * (y div 4) + y mod 4 = y" "0 \<le> y mod 4" "y mod 4 < 4" by simp_all
  have "(4 * P + y) div 4 = P + y div 4" by simp
  then have e: "4 * r = 4 * P + 4 * (y div 4) + 4 * d" by (simp add: assms(4) P(2))
  have up: "4 * r + 3 < (4 * l + 1) * y + (4 * l + 1)" "(4 * l + 1) * y \<le> 4 * r + 3"
    using assms(2,3) q e unfolding P(1) by linarith+
  then show y: "(4 * r + 3) div (4 * l + 1) = y" using assms(1) by (intro div_is) linarith+
  have "(4 * r + 3) mod (4 * l + 1) = 4 * r + 3 - (4 * P + y)"
    using y minus_mult_div_eq_mod [of "4 * r + 3" "4 * l + 1"] P(1) by simp
  moreover have "(4 * r + 3 - (4 * P + y)) div 4 = d" using q e by (intro div_is) linarith+
  ultimately show "((4 * r + 3) mod (4 * l + 1)) div 4 = d" by simp
qed

lemmas year_of_day = cycle_of_day [where l = 365, simplified]
lemmas day_of_year = day_of_cycle [where l = 365, simplified]
lemmas century_of_day = cycle_of_day [where l = 36524, simplified]
lemmas day_of_century = day_of_cycle [where l = 36524, simplified]

subsection \<open>Dates that exist\<close>

text \<open>Leap years, with the year before year 1 written \<open>-1\<close>, and the lengths of the months.\<close>

definition astronomical :: "int \<Rightarrow> int" where "astronomical y = (if y < 0 then y + 1 else y)"

definition gregorian_leap :: "int \<Rightarrow> bool" where
  "gregorian_leap y \<longleftrightarrow> 4 dvd astronomical y \<and> (\<not> 100 dvd astronomical y \<or> 400 dvd astronomical y)"

definition julian_leap :: "int \<Rightarrow> bool" where "julian_leap y \<longleftrightarrow> 4 dvd astronomical y"

definition month_length :: "bool \<Rightarrow> int \<Rightarrow> int" where
  "month_length leap m = (if m = 2 then if leap then 29 else 28 else if m \<in> {4, 6, 9, 11} then 30 else 31)"

definition date_exists :: "(int \<Rightarrow> bool) \<Rightarrow> ymd \<Rightarrow> bool" where
  "date_exists leap = (\<lambda>(y, m, d). y \<noteq> 0 \<and> 1 \<le> m \<and> m \<le> 12 \<and> 1 \<le> d \<and> d \<le> month_length (leap y) m)"

text \<open>The month from March and its length.\<close>

lemma march_month_length:
  assumes "1 \<le> m" "m \<le> 12" "mon = (if m > 2 then m - 3 else m + 9)"
  shows "0 \<le> mon" "mon \<le> 11" "mon = 11 \<longleftrightarrow> m = 2"
    "m \<noteq> 2 \<Longrightarrow> (153 * (mon + 1) + 2) div 5 - (153 * mon + 2) div 5 = month_length leap m"
proof -
  have "m = 1 \<or> m = 2 \<or> m = 3 \<or> m = 4 \<or> m = 5 \<or> m = 6 \<or> m = 7 \<or> m = 8 \<or> m = 9 \<or> m = 10 \<or> m = 11 \<or> m = 12"
    using assms(1,2) by presburger
  then show "m \<noteq> 2 \<Longrightarrow> (153 * (mon + 1) + 2) div 5 - (153 * mon + 2) div 5 = month_length leap m"
    using assms(3) by (elim disjE) (simp_all add: month_length_def)
qed (use assms in auto)

text \<open>The date of a day of a year that begins in March, and back.\<close>

lemma civil_date_correct:
  assumes "1 \<le> doy" "doy \<le> 366"
  obtains y m d mon where "civil_date year doy = (y, m, d)" "y \<noteq> 0" "1 \<le> m" "m \<le> 12" "1 \<le> d" "d \<le> 31"
    "march_year y m = (year, mon)" "(mon * 153 + 2) div 5 + d = doy" "year - 4801 \<le> y" "y \<le> year - 4799"
    "d \<le> month_length (doy = 366) m" "m = 2 \<Longrightarrow> astronomical y = year - 4799"
proof -
  define mon where "mon = (doy * 5 - 3) div 153"
  define d where "d = ((doy * 5 - 3) mod 153) div 5 + 1"
  note M = month_of_day [OF assms mon_def d_def]
  define m where "m = (if mon < 10 then mon + 3 else mon - 9)"
  define yr where "yr = (if mon < 10 then year else year + 1)"
  define y where "y = (if yr - 4800 \<le> 0 then yr - 4800 - 1 else yr - 4800)"
  have c: "civil_date year doy = (y, m, d)"
    by (simp add: civil_date_def DAYS_PER_5_MONTHS_def Let_def y_def yr_def m_def mon_def d_def)
  have y: "y \<noteq> 0" "(if y < 0 then y + 4801 else y + 4800) = yr" "yr - 4801 \<le> y" "y \<le> yr - 4800" by (auto simp: y_def)
  have m: "1 \<le> m" "m \<le> 12" "m > 2 \<longleftrightarrow> mon < 10" "mon = (if m > 2 then m - 3 else m + 9)" using M by (auto simp: m_def)
  have my: "march_year y m = (year, mon)" using y(2) m(3) by (auto simp: march_year_def Let_def yr_def m_def)
  note ml = march_month_length [OF m(1,2,4)]
  have len: "d \<le> month_length (doy = 366) m"
  proof (cases "m = 2")
    case True
    then show ?thesis using M(6) ml(3) by (simp add: month_length_def)
  next
    case False
    then show ?thesis using M(6) ml(3) ml(4) [OF False, of "doy = 366"] by simp
  qed
  have "m = 2 \<Longrightarrow> astronomical y = year - 4799" using y(2) m(3) by (auto simp: astronomical_def yr_def split: if_splits)
  then show ?thesis using that [OF c y(1) m(1,2) M(3,4) my] M(5) y(3,4) len by (auto simp: yr_def split: if_splits)
qed

lemma civil_date_back:
  assumes "date_exists leap (y, m, d)"
  obtains year mon doy where "march_year y m = (year, mon)" "(mon * 153 + 2) div 5 + d = doy" "1 \<le> doy" "doy \<le> 366"
    "civil_date year doy = (y, m, d)" "doy = 366 \<Longrightarrow> leap y \<and> astronomical y = year - 4799" "y + 4799 \<le> year" "year \<le> y + 4801"
proof -
  have e: "y \<noteq> 0" "1 \<le> m" "m \<le> 12" "1 \<le> d" "d \<le> month_length (leap y) m" using assms by (auto simp: date_exists_def)
  define mon where "mon = (if m > 2 then m - 3 else m + 9)"
  note ml = march_month_length [OF e(2,3) mon_def]
  define yr where "yr = (if y < 0 then y + 4801 else y + 4800)"
  define year where "year = (if m > 2 then yr else yr - 1)"
  define doy where "doy = (mon * 153 + 2) div 5 + d"
  have d: "d \<le> (if mon = 11 then 29 else (153 * (mon + 1) + 2) div 5 - (153 * mon + 2) div 5)"
    using e(5) ml(3,4) by (cases "m = 2") (auto simp: month_length_def split: if_splits)
  note D = day_of_month [OF ml(1,2) e(4) d, folded doy_def]
  have my: "march_year y m = (year, mon)" by (simp add: march_year_def Let_def yr_def year_def mon_def)
  have "civil_date year doy = (y, m, d)"
    unfolding civil_date_def DAYS_PER_5_MONTHS_def Let_def D(1,2) using e(1-3) by (auto simp: mon_def year_def yr_def)
  moreover have "leap y \<and> astronomical y = year - 4799" if "doy = 366"
  proof -
    have "mon = 11 \<and> d = 29" using D(5) that by auto
    then have "m = 2" "leap y" using ml(3) e(5) by (auto simp: month_length_def split: if_splits)
    then show ?thesis by (simp add: astronomical_def year_def yr_def)
  qed
  moreover have "y + 4799 \<le> year" "year \<le> y + 4801" by (auto simp: year_def yr_def)
  ultimately show ?thesis using that [OF my doy_def [symmetric] D(3,4)] by blast
qed

lemma leap_length: "d \<le> month_length (doy = 366) m \<Longrightarrow> (doy = 366 \<and> m = 2 \<longrightarrow> leap) \<Longrightarrow> d \<le> month_length leap m"
  by (auto simp: month_length_def split: if_splits)

lemma march_yearD:
  assumes "march_year y m = (year, mon)"
  shows "y < 0 \<Longrightarrow> year = (if m > 2 then y + 4801 else y + 4800)" "\<not> y < 0 \<Longrightarrow> year = (if m > 2 then y + 4800 else y + 4799)"
    "mon = (if m > 2 then m - 3 else m + 9)"
  using assms by (auto simp: march_year_def Let_def split: if_splits)

text \<open>The day number of a date whose year from March is \<open>100 * c + yr\<close>.\<close>

lemma gregorian_value:
  assumes my: "march_year y m = (year, mon)" and md: "(mon * 153 + 2) div 5 + d = doy" "doy \<le> 366" "d \<le> 31"
    and yr: "year = c * 100 + yr" "0 \<le> c" "0 \<le> yr" "yr \<le> 99" and ymd: "y \<noteq> 0" "1 \<le> m" "m \<le> 12" "1 \<le> d"
  shows "GregorianToSdn y m d = max 0 ((c * 146097) div 4 + (yr * 1461) div 4 + doy - 32045)"
proof -
  have yd: "year div 100 = c" "year mod 100 = yr" using yr by simp_all
  let ?v = "(c * 146097) div 4 + (yr * 1461) div 4 + doy - 32045"
  have q: "4 * ((yr * 1461) div 4) \<le> yr * 1461" using div_bounds [of 4 "yr * 1461"] by simp
  note M = march_yearD [OF my]
  have early: "?v \<le> 0" if "y < - 4714 \<or> y = - 4714 \<and> (m < 11 \<or> m = 11 \<and> d < 25)"
  proof -
    have "year \<le> 87" using M(1) that by (auto split: if_splits)
    then have c: "c = 0" "yr = year" using yr by auto
    show ?thesis
    proof (cases "year \<le> 86")
      case True
      then show ?thesis using q md(2) c by simp
    next
      case False
      then have y: "y = - 4714" "m > 2" using M(1) that \<open>year \<le> 87\<close> by (auto split: if_splits)
      then have mon: "mon = m - 3" using M(3) by simp
      have "m < 11 \<or> m = 11 \<and> d < 25" using that y by simp
      moreover have "doy \<le> 245" if "m < 11"
        using div_bounds [of 5 "mon * 153 + 2"] md(1,3) that mon by simp
      moreover have "doy < 270" if "m = 11" "d < 25" using md(1) that mon by simp
      ultimately have "doy < 270" by auto
      then show ?thesis using q c False \<open>year \<le> 87\<close> by simp
    qed
  qed
  have late: "?v > 0" if ok: "\<not> (y < - 4714 \<or> y = - 4714 \<and> (m < 11 \<or> m = 11 \<and> d < 25))"
  proof -
    have doy: "1 \<le> doy" using div_bounds [of 5 "mon * 153 + 2"] md(1) M(3) ymd(2,4) by (simp split: if_splits)
    have y87: "87 \<le> year" using M(1,2) ok by (cases "y < 0") (auto split: if_splits)
    have q2: "yr * 1461 < 4 * ((yr * 1461) div 4) + 4" using div_bounds [of 4 "yr * 1461"] by simp
    have c: "36524 \<le> (c * 146097) div 4" if "1 \<le> c" using div_bounds [of 4 "c * 146097"] that by simp
    have p0: "0 \<le> (yr * 1461) div 4" using yr(3) by simp
    show ?thesis
    proof (cases "c = 0")
      case False
      then show ?thesis using c p0 doy yr(2) by simp
    next
      case c0: True
      show ?thesis
      proof (cases "year = 87")
        case False
        then show ?thesis using q2 doy c0 yr(1) y87 by simp
      next
        case True
        have "270 \<le> doy"
        proof (cases "m > 2")
          case m: True
          then have "y = - 4714" using M(1,2) True by (cases "y < 0") auto
          then have "m = 12 \<or> m = 11 \<and> 25 \<le> d" using ok ymd(3) by presburger
          then show ?thesis using md(1) M(3) m ymd(4) by auto
        next
          case False
          then have "mon \<ge> 10" using M(3) ymd(2) by simp
          then show ?thesis using div_bounds [of 5 "mon * 153 + 2"] md(1) ymd(4) by simp
        qed
        then show ?thesis using q2 True c0 yr(1) by simp
      qed
    qed
  qed
  show ?thesis
  proof (cases "y < - 4714 \<or> y = - 4714 \<and> (m < 11 \<or> m = 11 \<and> d < 25)")
    case True
    then show ?thesis using early ymd by (auto simp: GregorianToSdn_def)
  next
    case False
    then have n: "\<not> (y = 0 \<or> y < - 4714 \<or> m \<le> 0 \<or> m > 12 \<or> d \<le> 0 \<or> d > 31)" "\<not> (y = - 4714 \<and> m < 11)" "\<not> (y = - 4714 \<and> m = 11 \<and> d < 25)"
      using ymd md(3) by auto
    have "GregorianToSdn y m d = (c * 146097) div 4 + (yr * 1461) div 4 + (mon * 153 + 2) div 5 + d - 32045"
      unfolding GregorianToSdn_def if_not_P [OF n(1)] if_not_P [OF n(2)] if_not_P [OF n(3)] my prod.case Let_def yd
      by (simp add: cal_simps)
    then show ?thesis using late [OF False] md(1) by simp
  qed
qed

lemma gregorian_to_date:
  assumes "0 < sdn" "sdn \<le> 784000000000"
  shows "case SdnToGregorian sdn of (y, m, d) \<Rightarrow> date_exists gregorian_leap (y, m, d) \<and> GregorianToSdn y m d = sdn"
proof -
  define R where "R = sdn + 32045 - 1"
  define c where "c = (4 * R + 3) div 146097"
  define r where "r = ((4 * R + 3) mod 146097) div 4"
  define yr where "yr = (r * 4 + 3) div 1461"
  define doy where "doy = ((r * 4 + 3) mod 1461) div 4 + 1"
  note C = century_of_day [OF c_def r_def]
  have "yr = (4 * r + 3) div 1461" "doy - 1 = ((4 * r + 3) mod 1461) div 4" by (simp_all add: yr_def doy_def mult.commute)
  note Y = year_of_day [OF this]
  have r4: "(sdn + 32045) * 4 - 1 = 4 * R + 3" by (simp add: R_def)
  have c0: "0 \<le> c" "c \<le> 21466700"
    using C(5) assms div_bounds [of 146097 "4 * R + 3"] by (simp_all add: R_def c_def)
  have y0: "0 \<le> yr" "yr \<le> 99" using Y(5) C(1,2) div_bounds [of 1461 "r * 4 + 3"] by (simp_all add: yr_def)
  define year where "year = c * 100 + yr"
  have i: "to_int c = c" "to_int (c * 100) = c * 100" "to_int (c * 100 + yr) = year" using c0 y0 by (simp_all add: to_int_id year_def)
  have run: "SdnToGregorian sdn = civil_date year doy"
    unfolding SdnToGregorian_def Let_def GREGOR_SDN_OFFSET_def DAYS_PER_400_YEARS_def DAYS_PER_4_YEARS_def r4
      c_def [symmetric] r_def [symmetric] yr_def [symmetric] doy_def [symmetric] i using assms by (simp add: CLONG_MAX_def)
  have "1 \<le> doy" "doy \<le> 366" using Y(1,2) by simp_all
  then obtain y m d mon where cd: "civil_date year doy = (y, m, d)" "y \<noteq> 0" "1 \<le> m" "m \<le> 12" "1 \<le> d" "d \<le> 31"
    "march_year y m = (year, mon)" "(mon * 153 + 2) div 5 + d = doy" "d \<le> month_length (doy = 366) m" "m = 2 \<Longrightarrow> astronomical y = year - 4799"
    by (rule civil_date_correct) blast
  have "gregorian_leap y" if "doy = 366" "m = 2"
  proof -
    have a: "astronomical y = 100 * (c - 48) + (yr + 1)" using cd(10) [OF that(2)] by (simp add: year_def)
    have k: "yr mod 4 = 3" using Y(4) that(1) by simp
    show ?thesis
    proof (cases "yr = 99")
      case True
      then have "r = 36524" using Y(3) that(1) by simp
      then have "c mod 4 = 3" using C(4) by simp
      then have "4 dvd c - 47" by presburger
      then obtain j where "c - 47 = 4 * j" by (auto elim: dvdE)
      then have "astronomical y = 400 * j" unfolding a True by simp
      then show ?thesis by (simp add: gregorian_leap_def)
    next
      case False
      have "4 dvd yr + 1" using k by presburger
      then have "4 dvd 4 * (25 * (c - 48)) + (yr + 1)" by (rule dvd_add [OF dvd_triv_left])
      then have "4 dvd astronomical y" unfolding a by simp
      moreover have "\<not> 100 dvd yr + 1" using y0 False by (intro zdvd_not_zless) simp_all
      then have "\<not> 100 dvd 100 * (c - 48) + (yr + 1)" by (simp only: dvd_add_right_iff dvd_triv_left) simp
      then have "\<not> 100 dvd astronomical y" unfolding a .
      ultimately show ?thesis by (simp add: gregorian_leap_def)
    qed
  qed
  then have ex: "date_exists gregorian_leap (y, m, d)" using cd(2-5) leap_length [OF cd(9), of "gregorian_leap y"] by (auto simp: date_exists_def)
  have "GregorianToSdn y m d = max 0 ((c * 146097) div 4 + (yr * 1461) div 4 + doy - 32045)"
    using \<open>doy \<le> 366\<close> cd c0 y0 by (intro gregorian_value [OF cd(7,8)]) (simp_all add: year_def)
  also have "(c * 146097) div 4 + (yr * 1461) div 4 + doy - 32045 = sdn" using C(3) Y(3) by (simp add: R_def)
  finally show ?thesis using run cd(1) ex assms(1) by simp
qed

lemma gregorian_from_date:
  assumes "date_exists gregorian_leap (y, m, d)" "y \<le> 2146000000" "0 < GregorianToSdn y m d"
  shows "SdnToGregorian (GregorianToSdn y m d) = (y, m, d)"
proof -
  from assms(1) obtain year mon doy where b: "march_year y m = (year, mon)" "(mon * 153 + 2) div 5 + d = doy" "1 \<le> doy" "doy \<le> 366"
    "civil_date year doy = (y, m, d)" "doy = 366 \<Longrightarrow> gregorian_leap y \<and> astronomical y = year - 4799" "y + 4799 \<le> year" "year \<le> y + 4801"
    by (rule civil_date_back) blast
  have e: "y \<noteq> 0" "1 \<le> m" "m \<le> 12" "1 \<le> d" "d \<le> 31" using assms(1) by (auto simp: date_exists_def month_length_def split: if_splits)
  have "- 4714 \<le> y" using assms(3) by (auto simp: GregorianToSdn_def split: if_splits)
  then have y0: "0 \<le> year" "year \<le> 2146004801" using b(7,8) assms(2) by simp_all
  define c where "c = year div 100"
  define yr where "yr = year mod 100"
  have yr: "year = c * 100 + yr" "0 \<le> c" "0 \<le> yr" "yr \<le> 99" using y0 by (simp_all add: c_def yr_def pos_imp_zdiv_nonneg_iff)
  have cm: "c \<le> 21460048" using yr y0 by linarith
  define r where "r = (yr * 1461) div 4 + (doy - 1)"
  have leap: "yr mod 4 = 3 \<and> (yr = 99 \<longrightarrow> c mod 4 = 3)" if "doy = 366"
  proof -
    have g: "gregorian_leap y" "astronomical y = 100 * (c - 48) + (yr + 1)" using b(6) [OF that] yr(1) by simp_all
    have "4 dvd 4 * (25 * (c - 48)) + (yr + 1)" using g by (simp add: gregorian_leap_def)
    then have "4 dvd yr + 1" by (simp only: dvd_add_right_iff dvd_triv_left)
    then have "yr mod 4 = 3" by presburger
    moreover have "c mod 4 = 3" if "yr = 99"
    proof -
      have a: "astronomical y = 100 * (c - 47)" using g(2) that by simp
      then have "400 dvd 100 * (c - 47)" using g(1) by (auto simp: gregorian_leap_def)
      then obtain j where "100 * (c - 47) = 400 * j" by (auto elim: dvdE)
      then have "c = 4 * j + 47" by simp
      then show ?thesis by presburger
    qed
    ultimately show ?thesis by blast
  qed
  have "doy - 1 < 365 \<or> doy - 1 = 365 \<and> yr mod 4 = 3" using b(4) leap by auto
  note Y = day_of_year [OF _ this r_def]
  have q: "4 * ((yr * 1461) div 4) \<le> yr * 1461" using div_bounds [of 4 "yr * 1461"] by simp
  have r0: "0 \<le> r" using yr(3) b(3) by (simp add: r_def pos_imp_zdiv_nonneg_iff)
  have r1: "r < 36524 \<or> r = 36524 \<and> c mod 4 = 3"
  proof (cases "doy = 366 \<and> yr = 99")
    case True
    then show ?thesis using leap q by (auto simp: r_def)
  next
    case False
    then show ?thesis using b(4) q yr(4) by (auto simp: r_def)
  qed
  define R where "R = (c * 146097) div 4 + r"
  note C = day_of_century [OF r0 r1 R_def]
  have val: "GregorianToSdn y m d = max 0 ((c * 146097) div 4 + (yr * 1461) div 4 + doy - 32045)"
    using b(4) e yr by (intro gregorian_value [OF b(1,2)]) simp_all
  define sdn where "sdn = R + 1 - 32045"
  have sdn: "GregorianToSdn y m d = sdn" "0 < sdn" using val assms(3) by (simp_all add: sdn_def R_def r_def)
  have r4: "(sdn + 32045) * 4 - 1 = 4 * R + 3" by (simp add: sdn_def)
  have "4 * ((c * 146097) div 4) \<le> c * 146097" using div_bounds [of 4 "c * 146097"] by simp
  then have big: "sdn \<le> 784000000000" using cm r1 by (auto simp: sdn_def R_def)
  have i: "to_int c = c" "to_int (c * 100) = c * 100" "to_int (c * 100 + yr) = year" using cm yr by (simp_all add: to_int_id)
  have Y': "(r * 4 + 3) div 1461 = yr" "((r * 4 + 3) mod 1461) div 4 + 1 = doy"
    using Y b(3) by (simp_all add: mult.commute)
  have "SdnToGregorian sdn = civil_date year doy"
    unfolding SdnToGregorian_def Let_def GREGOR_SDN_OFFSET_def DAYS_PER_400_YEARS_def DAYS_PER_4_YEARS_def r4 C Y' i
    using sdn(2) big by (simp add: CLONG_MAX_def)
  then show ?thesis using sdn(1) b(5) by simp
qed

subsection \<open>The Julian calendar\<close>

lemma julian_value:
  assumes my: "march_year y m = (year, mon)" and md: "(mon * 153 + 2) div 5 + d = doy" "doy \<le> 366" "d \<le> 31"
    and ymd: "y \<noteq> 0" "1 \<le> m" "m \<le> 12" "1 \<le> d"
  shows "JulianToSdn y m d = max 0 ((year * 1461) div 4 + doy - 32083)"
proof -
  let ?v = "(year * 1461) div 4 + doy - 32083"
  have q: "4 * ((year * 1461) div 4) \<le> year * 1461" "year * 1461 < 4 * ((year * 1461) div 4) + 4"
    using div_bounds [of 4 "year * 1461"] by simp_all
  note M = march_yearD [OF my]
  have mb: "5 * ((mon * 153 + 2) div 5) \<le> mon * 153 + 2" "mon * 153 + 2 < 5 * ((mon * 153 + 2) div 5) + 5"
    using div_bounds [of 5 "mon * 153 + 2"] by simp_all
  have early: "?v \<le> 0" if "y < - 4713 \<or> y = - 4713 \<and> m = 1 \<and> d = 1"
  proof (cases "year \<le> 86")
    case True
    then show ?thesis using q md(2) by simp
  next
    case False
    then have "year = 87" "m > 2 \<or> m = 1 \<and> d = 1" using M(1) that by (auto split: if_splits)
    moreover have "doy \<le> 307" using calculation(2) M(3) mb md(1,3) ymd(3) by (auto split: if_splits)
    ultimately show ?thesis using q by simp
  qed
  have late: "?v > 0" if ok: "\<not> (y < - 4713 \<or> y = - 4713 \<and> m = 1 \<and> d = 1)"
  proof -
    have doy: "1 \<le> doy" using mb md(1) M(3) ymd(2,4) by (simp split: if_splits)
    have y87: "87 \<le> year" using M(1,2) ok by (cases "y < 0") (auto split: if_splits)
    show ?thesis
    proof (cases "year = 87")
      case False
      then show ?thesis using q doy y87 by simp
    next
      case True
      have "\<not> m > 2" "y = - 4713" using M(1,2) True ok by (cases "y < 0"; auto split: if_splits)+
      then have "m = 2 \<or> m = 1 \<and> 2 \<le> d" using ok ymd(2,4) by presburger
      then have "308 \<le> doy" using M(3) md(1) ymd(4) by auto
      then show ?thesis using q True by simp
    qed
  qed
  show ?thesis
  proof (cases "y < - 4713 \<or> y = - 4713 \<and> m = 1 \<and> d = 1")
    case True
    then show ?thesis using early ymd by (auto simp: JulianToSdn_def)
  next
    case False
    then have n: "\<not> (y = 0 \<or> y < - 4713 \<or> m \<le> 0 \<or> m > 12 \<or> d \<le> 0 \<or> d > 31)" "\<not> (y = - 4713 \<and> m = 1 \<and> d = 1)"
      using ymd md(3) by auto
    have "JulianToSdn y m d = (year * 1461) div 4 + (mon * 153 + 2) div 5 + d - 32083"
      unfolding JulianToSdn_def if_not_P [OF n(1)] if_not_P [OF n(2)] my prod.case Let_def by (simp add: cal_simps)
    then show ?thesis using late [OF False] md(1) by simp
  qed
qed

text \<open>The conversion to a date, from the day \<open>R\<close> counted from the beginning of year 0 of the calculation.\<close>

lemma julian_run:
  assumes "0 < sdn" "sdn \<le> 784000000000" "R = sdn + 32083 - 1" "year = (4 * R + 3) div 1461" "doy = ((4 * R + 3) mod 1461) div 4 + 1"
  shows "SdnToJulian sdn = civil_date year doy"
proof -
  have r4: "sdn * 4 + (32083 * 4 - 1) = 4 * R + 3" using assms(3) by simp
  have y: "0 \<le> year" "year \<le> 2147000000" using div_bounds [of 1461 "4 * R + 3"] assms(1-4) by simp_all
  then have i: "to_int year = year" by (simp add: to_int_id)
  have c: "\<not> sdn \<le> 0" "\<not> (sdn > (CLONG_MAX - JULIAN_SDN_OFFSET * 4 + 1) div 4 \<or> sdn < CLONG_MIN sdiv 4)"
    "\<not> (year > CINT_MAX \<or> year < CINT_MIN)"
    using assms(1,2) y by (simp_all add: cal_simps signed_divide_int_def)
  show ?thesis
    unfolding SdnToJulian_def if_not_P [OF c(1)] if_not_P [OF c(2)] Let_def
    unfolding JULIAN_SDN_OFFSET_def DAYS_PER_4_YEARS_def r4 assms(4) [symmetric] assms(5) [symmetric] i if_not_P [OF c(3)] ..
qed

lemma julian_to_date:
  assumes "0 < sdn" "sdn \<le> 784000000000"
  shows "case SdnToJulian sdn of (y, m, d) \<Rightarrow> date_exists julian_leap (y, m, d) \<and> JulianToSdn y m d = sdn"
proof -
  define R where "R = sdn + 32083 - 1"
  define year where "year = (4 * R + 3) div 1461"
  define doy where "doy = ((4 * R + 3) mod 1461) div 4 + 1"
  have "doy - 1 = ((4 * R + 3) mod 1461) div 4" by (simp add: doy_def)
  note Y = year_of_day [OF year_def this]
  note run = julian_run [OF assms R_def year_def doy_def]
  have "1 \<le> doy" "doy \<le> 366" using Y(1,2) by simp_all
  then obtain y m d mon where cd: "civil_date year doy = (y, m, d)" "y \<noteq> 0" "1 \<le> m" "m \<le> 12" "1 \<le> d" "d \<le> 31"
    "march_year y m = (year, mon)" "(mon * 153 + 2) div 5 + d = doy" "d \<le> month_length (doy = 366) m" "m = 2 \<Longrightarrow> astronomical y = year - 4799"
    by (rule civil_date_correct) blast
  have "julian_leap y" if "doy = 366" "m = 2"
  proof -
    have "year mod 4 = 3" using Y(4) that(1) by simp
    then show ?thesis using cd(10) [OF that(2)] unfolding julian_leap_def by presburger
  qed
  then have ex: "date_exists julian_leap (y, m, d)" using cd(2-5) leap_length [OF cd(9), of "julian_leap y"] by (auto simp: date_exists_def)
  have "JulianToSdn y m d = max 0 ((year * 1461) div 4 + doy - 32083)"
    using \<open>doy \<le> 366\<close> cd by (intro julian_value [OF cd(7,8)]) simp_all
  also have "(year * 1461) div 4 + doy - 32083 = sdn" using Y(3) by (simp add: R_def)
  finally show ?thesis using run cd(1) ex assms(1) by simp
qed

lemma julian_from_date:
  assumes "date_exists julian_leap (y, m, d)" "y \<le> 2146000000" "0 < JulianToSdn y m d"
  shows "SdnToJulian (JulianToSdn y m d) = (y, m, d)"
proof -
  from assms(1) obtain year mon doy where b: "march_year y m = (year, mon)" "(mon * 153 + 2) div 5 + d = doy" "1 \<le> doy" "doy \<le> 366"
    "civil_date year doy = (y, m, d)" "doy = 366 \<Longrightarrow> julian_leap y \<and> astronomical y = year - 4799" "y + 4799 \<le> year" "year \<le> y + 4801"
    by (rule civil_date_back) blast
  have e: "y \<noteq> 0" "1 \<le> m" "m \<le> 12" "1 \<le> d" "d \<le> 31" using assms(1) by (auto simp: date_exists_def month_length_def split: if_splits)
  define R where "R = (year * 1461) div 4 + (doy - 1)"
  have "doy - 1 < 365 \<or> doy - 1 = 365 \<and> year mod 4 = 3"
  proof (cases "doy = 366")
    case True
    then have l: "4 dvd astronomical y" "astronomical y = year - 4799" using b(6) by (auto simp: julian_leap_def)
    have "4 dvd year - 4799" using l(1) unfolding l(2) .
    then have "year mod 4 = 3" by presburger
    then show ?thesis using True by simp
  qed (use b(4) in simp)
  note Y = day_of_year [OF _ this R_def]
  define sdn where "sdn = R + 1 - 32083"
  have sdn: "JulianToSdn y m d = sdn" "0 < sdn"
    using julian_value [OF b(1,2,4) e(5,1-4)] assms(3) by (simp_all add: sdn_def R_def)
  have "4 * ((year * 1461) div 4) \<le> year * 1461" using div_bounds [of 4 "year * 1461"] by simp
  then have big: "sdn \<le> 784000000000" using b(4,8) assms(2) by (simp add: sdn_def R_def)
  have "SdnToJulian sdn = civil_date year doy"
    using Y b(3) by (intro julian_run [OF sdn(2) big, of R]) (simp_all add: sdn_def)
  then show ?thesis using sdn(1) b(5) by simp
qed

subsection \<open>The French republican calendar\<close>

definition french_exists :: "ymd \<Rightarrow> bool" where
  "french_exists = (\<lambda>(y, m, d). 1 \<le> y \<and> y \<le> 14 \<and> 1 \<le> m \<and> m \<le> 13 \<and> 1 \<le> d \<and>
     d \<le> (if m = 13 then if y mod 4 = 3 then 6 else 5 else 30))"

lemma french_to_date:
  assumes "FIRST_VALID \<le> sdn" "sdn \<le> LAST_VALID"
  shows "case SdnToFrench sdn of (y, m, d) \<Rightarrow> french_exists (y, m, d) \<and> FrenchToSdn y m d = sdn"
proof -
  define R where "R = sdn - 2375474 - 1"
  define y where "y = (4 * R + 3) div 1461"
  define doy where "doy = ((4 * R + 3) mod 1461) div 4"
  note Y = year_of_day [OF y_def doy_def]
  define m where "m = doy div 30 + 1"
  define d where "d = doy mod 30 + 1"
  have r4: "(sdn - 2375474) * 4 - 1 = 4 * R + 3" by (simp add: R_def)
  have run: "SdnToFrench sdn = (y, m, d)"
    unfolding SdnToFrench_def Let_def FRENCH_SDN_OFFSET_def DAYS_PER_4_YEARS_def DAYS_PER_MONTH_def r4 y_def [symmetric] doy_def [symmetric]
      m_def [symmetric] d_def [symmetric] using assms by simp
  have y: "1 \<le> y" "y \<le> 14"
    using div_bounds [of 1461 "4 * R + 3"] assms by (simp_all add: y_def R_def FIRST_VALID_def LAST_VALID_def)
  have md: "1 \<le> m" "m \<le> 13" "1 \<le> d" "d \<le> 30" "(m - 1) * 30 + d = doy + 1"
    using Y(1,2) div_bounds [of 30 doy] mult_div_mod_eq [of 30 doy] by (simp_all add: m_def d_def pos_imp_zdiv_nonneg_iff)
  have "d \<le> (if y mod 4 = 3 then 6 else 5)" if "m = 13"
    using Y(2,4) md(5) that by (cases "doy = 365") auto
  then have "french_exists (y, m, d)" using y md by (simp add: french_exists_def)
  moreover have "FrenchToSdn y m d = sdn"
    using y md Y(3) by (simp add: FrenchToSdn_def cal_simps R_def)
  ultimately show ?thesis using run by simp
qed

lemma french_from_date:
  assumes "french_exists (y, m, d)"
  shows "FIRST_VALID \<le> FrenchToSdn y m d" "FrenchToSdn y m d \<le> LAST_VALID" "SdnToFrench (FrenchToSdn y m d) = (y, m, d)"
proof -
  have e: "1 \<le> y" "y \<le> 14" "1 \<le> m" "m \<le> 13" "1 \<le> d" "d \<le> (if m = 13 then if y mod 4 = 3 then 6 else 5 else 30)"
    using assms by (auto simp: french_exists_def)
  then have d30: "d \<le> 30" by (auto split: if_splits)
  define doy where "doy = (m - 1) * 30 + d - 1"
  define R where "R = (y * 1461) div 4 + doy"
  have doy: "0 \<le> doy" "doy < 365 \<or> doy = 365 \<and> y mod 4 = 3"
  proof -
    show "0 \<le> doy" using e(3,5) by (simp add: doy_def)
    show "doy < 365 \<or> doy = 365 \<and> y mod 4 = 3"
    proof (cases "m = 13")
      case True
      then show ?thesis using e(6) by (auto simp: doy_def split: if_splits)
    next
      case False
      then show ?thesis using e(4) d30 by (simp add: doy_def)
    qed
  qed
  note Y = day_of_year [OF doy R_def]
  define sdn where "sdn = R + 1 + 2375474"
  have v: "FrenchToSdn y m d = sdn" using e d30 by (simp add: FrenchToSdn_def cal_simps sdn_def R_def doy_def)
  have r4: "(sdn - 2375474) * 4 - 1 = 4 * R + 3" by (simp add: sdn_def)
  have q: "4 * ((y * 1461) div 4) \<le> y * 1461" "y * 1461 < 4 * ((y * 1461) div 4) + 4" using div_bounds [of 4 "y * 1461"] by simp_all
  have y14: "y = 14 \<Longrightarrow> doy < 365" using doy(2) by auto
  have range: "FIRST_VALID \<le> sdn" "sdn \<le> LAST_VALID"
  proof -
    show "FIRST_VALID \<le> sdn" using q e(1) doy(1) by (simp add: sdn_def R_def FIRST_VALID_def)
    show "sdn \<le> LAST_VALID"
    proof (cases "y = 14")
      case True
      then show ?thesis using y14 q by (simp add: sdn_def R_def LAST_VALID_def)
    next
      case False
      then show ?thesis using doy(2) q e(2) by (auto simp: sdn_def R_def LAST_VALID_def)
    qed
  qed
  then show "FIRST_VALID \<le> FrenchToSdn y m d" "FrenchToSdn y m d \<le> LAST_VALID" using v by simp_all
  have "doy div 30 = m - 1" using e(5) d30 by (intro div_is) (simp_all add: doy_def)
  moreover have "doy mod 30 = d - 1" using calculation minus_mult_div_eq_mod [of doy 30] by (simp add: doy_def)
  ultimately have "SdnToFrench sdn = (y, m, d)"
    unfolding SdnToFrench_def Let_def FRENCH_SDN_OFFSET_def DAYS_PER_4_YEARS_def DAYS_PER_MONTH_def r4 Y using range by simp
  then show "SdnToFrench (FrenchToSdn y m d) = (y, m, d)" using v by simp
qed

subsection \<open>The day of the week\<close>

lemma day_of_week: "DayOfWeek sdn = (sdn + 1) mod 7"
proof -
  have s: "sdn smod 7 = sdn mod 7 \<or> sdn smod 7 = sdn mod 7 - 7"
  proof (cases "0 \<le> sdn")
    case True
    then show ?thesis by (cases "sdn = 0") (simp_all add: signed_modulo_int_def)
  next
    case False
    then have "sdn smod 7 = - ((- sdn) mod 7)" by (simp add: signed_modulo_int_def)
    then show ?thesis by presburger
  qed
  have r: "- 7 \<le> sdn smod 7" "sdn smod 7 \<le> 6" using s by auto
  then have i: "to_int (sdn smod 7 + 8) = sdn smod 7 + 8" by (intro to_int_id) simp_all
  have pos: "z smod 7 = z mod 7" if "0 < z" for z :: int using that by (simp add: signed_modulo_int_def)
  have "DayOfWeek sdn = (sdn smod 7 + 8) mod 7" unfolding DayOfWeek_def i using r by (intro pos) simp
  also have "\<dots> = (sdn + 1) mod 7"
  proof -
    have "sdn mod 7 = sdn - 7 * (sdn div 7)" by (simp add: minus_mult_div_eq_mod)
    then have "sdn smod 7 + 8 = sdn + 1 + 7 * (1 - sdn div 7) \<or> sdn smod 7 + 8 = sdn + 1 + 7 * (0 - sdn div 7)" using s by auto
    then show ?thesis by (elim disjE) (simp_all only: mod_mult_self2)
  qed
  finally show ?thesis .
qed

end
