(* ===== verification/CalEaster.thy ===== *)
theory CalEaster
  imports CalSolar
begin

text \<open>
  The date of Easter (\<open>easter.c\<close>). The current year and \<open>mktime\<close> are arguments; divisions of numbers
  that may be negative are C's, \<open>sdiv\<close> and \<open>smod\<close>. The sums of the year that may leave \<open>zend_long\<close> are checked:
  \<open>None\<close> is an overflow.
\<close>

definition CAL_EASTER_DEFAULT :: int where "CAL_EASTER_DEFAULT = 0"
definition CAL_EASTER_ROMAN :: int where "CAL_EASTER_ROMAN = 1"
definition CAL_EASTER_ALWAYS_GREGORIAN :: int where "CAL_EASTER_ALWAYS_GREGORIAN = 2"
definition CAL_EASTER_ALWAYS_JULIAN :: int where "CAL_EASTER_ALWAYS_JULIAN = 3"

definition easter_in_julian :: "int \<Rightarrow> int \<Rightarrow> bool" where
  "easter_in_julian year method \<longleftrightarrow>
     (year \<le> 1582 \<and> method \<noteq> CAL_EASTER_ALWAYS_GREGORIAN) \<or>
     (year \<ge> 1583 \<and> year \<le> 1752 \<and> method \<noteq> CAL_EASTER_ROMAN \<and> method \<noteq> CAL_EASTER_ALWAYS_GREGORIAN) \<or>
     method = CAL_EASTER_ALWAYS_JULIAN"

text \<open>\<open>x %= m; if (x < 0) x += m;\<close>\<close>

definition mod_up :: "int \<Rightarrow> int \<Rightarrow> int" where
  "mod_up x m = (let r = x smod m in if r < 0 then r + m else r)"

definition in_long :: "int \<Rightarrow> bool" where "in_long x \<longleftrightarrow> CLONG_MIN \<le> x \<and> x \<le> CLONG_MAX"

text \<open>The number of days after March 21.\<close>

definition easter_day :: "int \<Rightarrow> int \<Rightarrow> int option" where
  "easter_day year method =
     (let golden = (year smod 19) + 1 in do {
          (dom, pfm) \<leftarrow>
            (if easter_in_julian year method
             then (if \<not> in_long (year + (year sdiv 4)) \<or> \<not> in_long (year + (year sdiv 4) + 5) then None
                   else Some (mod_up (year + (year sdiv 4) + 5) 7, mod_up (3 - (11 * golden) - 7) 30))
             else (let solar = (year - 1600) sdiv 100 - (year - 1600) sdiv 400;
                       lunar = (((year - 1400) sdiv 100) * 8) sdiv 25
                   in if \<not> in_long (year + (year sdiv 4)) then None
                      else Some (mod_up (year + (year sdiv 4) - (year sdiv 100) + (year sdiv 400)) 7,
                             mod_up (3 - (11 * golden) + solar - lunar) 30)));
          (let pfm = (if pfm = 29 \<or> (pfm = 28 \<and> golden > 11) then pfm - 1 else pfm);
               tmp = mod_up (4 - pfm - dom) 7
           in Some (pfm + tmp + 1)) })"

datatype easter_error = year_error string

text \<open>\<open>mktime\<close> gets year, month and day of the month, at midnight.\<close>

definition cal_easter :: "(int \<times> int \<times> int \<Rightarrow> int) \<Rightarrow> int \<Rightarrow> int option \<Rightarrow> int \<Rightarrow> bool \<Rightarrow> (easter_error + int) option" where
  "cal_easter mktime current_year year_param method gm =
     (let max_year = (CLONG_MAX div 5) * 4;
          year = (case year_param of None \<Rightarrow> current_year | Some year \<Rightarrow> year)
      in if year \<le> 0 \<or> year > max_year then Some (Inl (year_error ''must be between 1 and 7378697629483820644''))
         else if gm \<and> year < 1970 then Some (Inl (year_error ''must be a year after 1970 (inclusive)''))
         else if gm \<and> year > 2000000000 then Some (Inl (year_error ''must be a year before 2.000.000.000 (inclusive)''))
         else do {
           easter \<leftarrow> easter_day year method;
           (if gm then Some (Inr (if easter < 11 then mktime (year - 1900, 2, easter + 21) else mktime (year - 1900, 3, easter - 10)))
            else Some (Inr easter)) })"

definition easter_date :: "(int \<times> int \<times> int \<Rightarrow> int) \<Rightarrow> int \<Rightarrow> int option \<Rightarrow> int \<Rightarrow> (easter_error + int) option" where
  "easter_date mktime current_year year_param method = cal_easter mktime current_year year_param method True"

definition easter_days :: "int \<Rightarrow> int option \<Rightarrow> int \<Rightarrow> (easter_error + int) option" where
  "easter_days current_year year_param method = cal_easter (\<lambda>_. 0) current_year year_param method False"

lemma mod_up: "0 < m \<Longrightarrow> mod_up x m = x mod m"
proof (cases "0 \<le> x")
  case True
  assume m: "0 < m"
  with True have "x smod m = x mod m" "0 \<le> x mod m" by (cases "x = 0"; simp add: signed_modulo_int_def)+
  then show ?thesis by (simp add: mod_up_def Let_def)
next
  case False
  assume m: "0 < m"
  have b: "0 \<le> (- x) mod m" "(- x) mod m < m" using m by simp_all
  have e: "x smod m = - ((- x) mod m)" using False m by (simp add: signed_modulo_int_def)
  show ?thesis
  proof (cases "(- x) mod m = 0")
    case True
    then show ?thesis using zmod_zminus1_eq_if [of "- x" m] unfolding mod_up_def e Let_def by simp
  next
    case False
    then have "- ((- x) mod m) < 0" using b(1) by linarith
    then show ?thesis using False zmod_zminus1_eq_if [of "- x" m] unfolding mod_up_def e Let_def by simp
  qed
qed

lemma pos_sdiv: "0 < x \<Longrightarrow> 0 < m \<Longrightarrow> x sdiv m = x div (m::int)" "0 < x \<Longrightarrow> 0 < m \<Longrightarrow> x smod m = x mod (m::int)"
  by (simp_all add: signed_divide_int_def signed_modulo_int_def)

text \<open>The Sunday number, as both calendars compute it.\<close>

definition easter_dom :: "int \<Rightarrow> int \<Rightarrow> int" where
  "easter_dom year method =
     (if easter_in_julian year method then (year + year div 4 + 5) mod 7 else (year + year div 4 - year div 100 + year div 400) mod 7)"

text \<open>The full moon: the days after March 21, before and after its correction.\<close>

definition easter_raw :: "int \<Rightarrow> int \<Rightarrow> int" where
  "easter_raw year method =
     (if easter_in_julian year method then (3 - 11 * (year mod 19 + 1) - 7) mod 30
      else (3 - 11 * (year mod 19 + 1) + ((year - 1600) sdiv 100 - (year - 1600) sdiv 400) - (((year - 1400) sdiv 100) * 8) sdiv 25) mod 30)"

definition full_moon :: "int \<Rightarrow> int \<Rightarrow> int" where
  "full_moon raw a = (if raw = 29 \<or> raw = 28 \<and> a > 10 then raw - 1 else raw)"

definition easter_from :: "int \<Rightarrow> int \<Rightarrow> int \<Rightarrow> int" where
  "easter_from dn raw a = full_moon raw a + (4 - full_moon raw a - dn) mod 7 + 1"

text \<open>No overflow but for the last two years of the Julian branch.\<close>

definition easter_fits :: "int \<Rightarrow> int \<Rightarrow> bool" where
  "easter_fits year method \<longleftrightarrow> year \<le> 7378697629483820644 \<and> (easter_in_julian year method \<longrightarrow> year \<le> 7378697629483820642)"

lemma easter_shape:
  assumes "0 < year" "easter_fits year method"
  shows "easter_day year method = Some (easter_from (easter_dom year method) (easter_raw year method) (year mod 19))"
proof -
  have mu: "mod_up x 7 = x mod 7" "mod_up x 30 = x mod 30" for x by (simp_all add: mod_up)
  have sd: "year sdiv 4 = year div 4" "year sdiv 100 = year div 100" "year sdiv 400 = year div 400" "year smod 19 = year mod 19"
    using assms(1) by (simp_all add: pos_sdiv)
  have g: "year mod 19 + 1 > 11 \<longleftrightarrow> year mod 19 > 10" by linarith
  have q: "0 \<le> year div 4" "4 * (year div 4) \<le> year" using assms(1) by (simp_all add: pos_imp_zdiv_nonneg_iff)
  show ?thesis
  proof (cases "easter_in_julian year method")
    case True
    have "in_long (year + year div 4)" "in_long (year + year div 4 + 5)"
      using assms q True by (simp_all add: in_long_def CLONG_MAX_def CLONG_MIN_def easter_fits_def)
    then show ?thesis unfolding easter_from_def full_moon_def easter_raw_def easter_dom_def easter_day_def Let_def mu sd if_P [OF True] g by (simp only: not_True_eq_False simp_thms if_False bind.bind_lunit prod.case)
  next
    case False
    have "in_long (year + year div 4)"
      using assms q by (simp add: in_long_def CLONG_MAX_def CLONG_MIN_def easter_fits_def)
    then show ?thesis unfolding easter_from_def full_moon_def easter_raw_def easter_dom_def easter_day_def Let_def mu sd if_not_P [OF False] g by (simp only: not_True_eq_False simp_thms if_False bind.bind_lunit prod.case)
  qed
qed

lemma easter_overflows:
  assumes "easter_in_julian year method" "7378697629483820642 < year"
  shows "easter_day year method = None"
proof -
  have "year sdiv 4 = year div 4" using assms(2) by (simp add: pos_sdiv)
  moreover have "year < 4 * (year div 4) + 4" by presburger
  then have "CLONG_MAX < year + year div 4 + 5" using assms(2) by (simp add: CLONG_MAX_def)
  ultimately have "\<not> in_long (year + year sdiv 4 + 5)" by (simp add: in_long_def)
  then show ?thesis using assms(1) by (simp add: easter_day_def Let_def)
qed

lemma full_moon_range: "0 \<le> raw \<Longrightarrow> raw < 30 \<Longrightarrow> 0 \<le> full_moon raw a \<and> full_moon raw a \<le> 28"
  by (auto simp: full_moon_def)

lemma easter_raw_range: "0 \<le> easter_raw year method" "easter_raw year method < 30"
  by (simp_all add: easter_raw_def)

lemma easter_from_bounds:
  assumes "0 \<le> raw" "raw < 30"
  shows "1 \<le> easter_from dn raw a \<and> easter_from dn raw a \<le> 35"
proof -
  have "0 \<le> (4 - full_moon raw a - dn) mod 7" "(4 - full_moon raw a - dn) mod 7 < 7" by simp_all
  then show ?thesis using full_moon_range [OF assms, of a] unfolding easter_from_def by linarith
qed

lemma easter_bounds:
  assumes "0 < year" "easter_fits year method"
  shows "\<exists>n. easter_day year method = Some n \<and> 1 \<le> n \<and> n \<le> 35"
  using easter_shape [OF assms] easter_from_bounds [OF easter_raw_range] by auto

text \<open>The day of the week of March 21.\<close>

lemma mod7_cong: "(a :: int) = b + 7 * k \<Longrightarrow> a mod 7 = b mod 7"
  by simp

lemma march21_gregorian:
  assumes "0 < year"
  shows "(GregorianToSdn year 3 21) mod 7 = ((year + year div 4 - year div 100 + year div 400) mod 7 + 1) mod 7"
proof -
  define c where "c = year div 100"
  define yr where "yr = year mod 100"
  have y: "year = 100 * c + yr" "0 \<le> yr" "yr < 100" "0 \<le> c" using assms by (simp_all add: c_def yr_def pos_imp_zdiv_nonneg_iff)
  have d1: "(year + 4800) div 100 = c + 48" unfolding y(1) using y(2,3) by simp
  have "(year + 4800) mod 100 = yr" using minus_mult_div_eq_mod [of "year + 4800" 100] y(1) unfolding d1 by simp
  note d = d1 this
  have s: "GregorianToSdn year 3 21 = ((c + 48) * 146097) div 4 + (yr * 1461) div 4 + 21 - 32045"
    using assms d by (simp add: GregorianToSdn_def march_year_def cal_simps Let_def)
  have e: "((c + 48) * 146097) div 4 = 36524 * c + c div 4 + 1753164" "(yr * 1461) div 4 = 365 * yr + yr div 4"
    using div_bounds [of 4 c] div_bounds [of 4 yr] by (auto intro!: div_is)
  have f: "year div 4 = 25 * c + yr div 4" "year div 400 = c div 4"
    using div_bounds [of 4 yr] div_bounds [of 4 c] y by (auto intro!: div_is)
  define k where "k = 5200 * c + 52 * yr + 245877"
  have "GregorianToSdn year 3 21 = (year + year div 4 - year div 100 + year div 400 + 1) + 7 * k"
    using s e f y(1) c_def k_def by linarith
  from mod7_cong [OF this] show ?thesis by (simp only: mod_simps)
qed

lemma march21_julian:
  assumes "0 < year"
  shows "(JulianToSdn year 3 21) mod 7 = ((year + year div 4 + 5) mod 7 + 1) mod 7"
proof -
  have s: "JulianToSdn year 3 21 = ((year + 4800) * 1461) div 4 + 21 - 32083"
    using assms by (simp add: JulianToSdn_def march_year_def cal_simps Let_def)
  have "((year + 4800) * 1461) div 4 = 365 * year + year div 4 + 1753200"
    using div_bounds [of 4 year] by (auto intro!: div_is)
  then have "JulianToSdn year 3 21 = (year + year div 4 + 5 + 1) + 7 * (52 * year + 245876)" using s by simp
  from mod7_cong [OF this] show ?thesis by (simp only: mod_simps)
qed

text \<open>Easter is a Sunday in both calendars.\<close>

lemma sunday_arith:
  assumes "(s :: int) mod 7 = (d + 1) mod 7" and "e = pfm + (4 - pfm - d) mod 7 + 1"
  shows "(s + e + 1) mod 7 = 0"
proof -
  define A B C where "A = s div 7" and "B = (d + 1) div 7" and "C = (4 - pfm - d) div 7"
  define R where "R = (d + 1) mod 7"
  define Q where "Q = (4 - pfm - d) mod 7"
  have "7 * A + s mod 7 = s" unfolding A_def by (rule mult_div_mod_eq)
  then have "s = 7 * A + R" unfolding assms(1) R_def [symmetric] by (rule sym)
  moreover have "d + 1 = 7 * B + R" unfolding B_def R_def by (rule mult_div_mod_eq [symmetric])
  moreover have "4 - pfm - d = 7 * C + Q" unfolding C_def Q_def by (rule mult_div_mod_eq [symmetric])
  moreover have "e = pfm + Q + 1" using assms(2) unfolding Q_def .
  ultimately have "s + e + 1 = 7 * (A - B - C + 1)" by (simp add: right_diff_distrib distrib_left)
  then show ?thesis by simp
qed

lemma easter_is_sunday:
  assumes "0 < year" "easter_day year method = Some n" "easter_fits year method"
  shows "DayOfWeek ((if easter_in_julian year method then JulianToSdn year 3 21 else GregorianToSdn year 3 21) + n) = 0"
proof -
  let ?S = "if easter_in_julian year method then JulianToSdn year 3 21 else GregorianToSdn year 3 21"
  let ?D = "easter_dom year method"
  have p: "n = full_moon (easter_raw year method) (year mod 19) + (4 - full_moon (easter_raw year method) (year mod 19) - ?D) mod 7 + 1"
    using easter_shape [OF assms(1,3)] assms(2) by (simp add: easter_from_def)
  have "?S mod 7 = (?D + 1) mod 7"
  proof (cases "easter_in_julian year method")
    case True
    show ?thesis unfolding easter_dom_def if_P [OF True] by (rule march21_julian [OF assms(1)])
  next
    case False
    show ?thesis unfolding easter_dom_def if_not_P [OF False] by (rule march21_gregorian [OF assms(1)])
  qed
  from sunday_arith [OF this p] show ?thesis unfolding day_of_week .
qed

subsection \<open>The rules of the calendars\<close>

text \<open>
  Easter by the rules of Meeus: the Julian rule, and the Gregorian one (of Butcher) with its own corrections for the century,
  as days after March 21.
\<close>

definition julian_easter :: "int \<Rightarrow> int" where
  "julian_easter y = (let a = y mod 4; b = y mod 7; c = y mod 19; d = (19 * c + 15) mod 30; e = (2 * a + 4 * b - d + 34) mod 7 in d + e + 1)"

definition gregorian_easter :: "int \<Rightarrow> int" where
  "gregorian_easter y =
     (let a = y mod 19; b = y div 100; c = y mod 100; d = b div 4; e = b mod 4; f = (b + 8) div 25; g = (b - f + 1) div 3;
          h = (19 * a + b - d - g + 15) mod 30; i = c div 4; k = c mod 4; l = (32 + 2 * e + 2 * i - h - k) mod 7;
          m = (a + 11 * h + 22 * l) div 451
      in h + l - 7 * m + 1)"

lemma easter_from_sum:
  assumes "0 \<le> raw" "raw < 30" "0 \<le> a" "a < 19"
  shows "easter_from dn raw a =
    (let l = (4 - raw - dn) mod 7; m = (a + 11 * raw + 22 * l) div 451 in raw + l - 7 * m + 1)"
proof -
  define l where "l = (4 - raw - dn) mod 7"
  have l: "0 \<le> l" "l < 7" by (simp_all add: l_def)
  have next_l: "(4 - (raw - 1) - dn) mod 7 = (if l = 6 then 0 else l + 1)"
  proof -
    have "(4 - (raw - 1) - dn) mod 7 = (l + 1) mod 7" unfolding l_def by (simp add: mod_simps algebra_simps)
    then show ?thesis using l by auto
  qed
  show ?thesis
  proof (cases "raw = 29 \<or> raw = 28 \<and> a > 10")
    case True
    have m: "(a + 11 * raw + 22 * l) div 451 = (if l = 6 then 1 else 0)"
    proof (cases "l = 6")
      case True
      have "451 * 1 \<le> a + 11 * raw + 22 * l" "a + 11 * raw + 22 * l < 451 * (1 + 1)"
        using \<open>raw = 29 \<or> raw = 28 \<and> a > 10\<close> True assms by auto
      then have "(a + 11 * raw + 22 * l) div 451 = 1" by (intro div_is) simp_all
      then show ?thesis using True by simp
    next
      case False
      have "0 \<le> a + 11 * raw + 22 * l" "a + 11 * raw + 22 * l < 451" using False l assms by linarith+
      then show ?thesis using False by simp
    qed
    show ?thesis using True m next_l unfolding easter_from_def full_moon_def Let_def l_def [symmetric] by auto
  next
    case False
    have "a + 11 * raw + 22 * l < 451"
    proof (cases "raw = 28")
      case True
      then show ?thesis using False l assms by auto
    next
      case raw: False
      then have "raw \<le> 27" using False assms by auto
      then show ?thesis using l assms by linarith
    qed
    moreover have "0 \<le> a + 11 * raw + 22 * l" using l assms by linarith
    ultimately show ?thesis using False unfolding easter_from_def full_moon_def Let_def l_def by auto
  qed
qed

lemma julian_rule:
  assumes "easter_in_julian y method"
  shows "easter_from (easter_dom y method) (easter_raw y method) (y mod 19) = julian_easter y"
proof -
  define c where "c = y mod 19"
  have c: "0 \<le> c" "c < 19" by (simp_all add: c_def)
  have raw: "easter_raw y method = (19 * c + 15) mod 30"
  proof -
    have "3 - 11 * (c + 1) - 7 = (19 * c + 15) + 30 * (- c - 1)" by simp
    then have "(3 - 11 * (c + 1) - 7) mod 30 = (19 * c + 15) mod 30" by (simp only: mod_mult_self2)
    then show ?thesis using assms by (simp add: easter_raw_def c_def)
  qed
  define d where "d = (19 * c + 15) mod 30"
  have d: "0 \<le> d" "d < 30" by (simp_all add: d_def)
  have e: "(4 - d - easter_dom y method) mod 7 = (2 * (y mod 4) + 4 * (y mod 7) - d + 34) mod 7"
  proof -
    have "(4 - d - (y + y div 4 + 5) mod 7) mod 7 = (4 - d - (y + y div 4 + 5)) mod 7" by (simp only: mod_simps)
    moreover have "2 * (y mod 4) + 4 * (y mod 7) - d + 34 = (4 - d - (y + y div 4 + 5)) + 7 * (y - y div 4 - 4 * (y div 7) + 5)"
      unfolding minus_mult_div_eq_mod [symmetric] by (simp add: algebra_simps)
    ultimately show ?thesis using assms by (simp only: easter_dom_def if_True mod_mult_self2)
  qed
  have "\<not> (d = 29 \<or> d = 28 \<and> c > 10)"
  proof -
    have "\<forall>c \<in> set [0..18]. \<not> ((19 * c + 15) mod 30 = 29 \<or> (19 * c + 15) mod 30 = 28 \<and> c > 10)" by code_simp
    moreover have "c \<in> set [0..18]" using c unfolding set_upto by simp
    ultimately show ?thesis unfolding d_def by blast
  qed
  then have fm: "full_moon d c = d" by (simp add: full_moon_def)
  show ?thesis unfolding easter_from_def raw d_def [symmetric] c_def [symmetric] fm e julian_easter_def Let_def by simp
qed

lemma lunar_correction: "14 \<le> b \<Longrightarrow> (b - (b + 8) div 25 + 1) div 3 = (b - 14) * 8 div 25 + (5 :: int)"
proof -
  assume b: "14 \<le> b"
  define q where "q = (b + 8) div 25"
  define r where "r = (b + 8) mod 25"
  have br: "b = 25 * q + r - 8" using mult_div_mod_eq [of 25 "b + 8"] by (simp add: q_def r_def)
  have r: "0 \<le> r" "r < 25" by (simp_all add: r_def)
  have l: "(b - q + 1) div 3 = 8 * q + (r - 7) div 3"
  proof -
    have "b - q + 1 = (r - 7) + 3 * (8 * q)" unfolding br by simp
    then show ?thesis by simp
  qed
  have h: "(b - 14) * 8 div 25 = 8 * q + (8 * r - 176) div 25"
  proof -
    have "(b - 14) * 8 = (8 * r - 176) + 25 * (8 * q)" unfolding br by simp
    then show ?thesis by simp
  qed
  have "\<forall>r \<in> set [0..24]. (r - 7) div 3 = (8 * r - 176) div 25 + (5::int)" by code_simp
  moreover have "r \<in> set [0..24]" using r unfolding set_upto by simp
  ultimately have "(r - 7) div 3 = (8 * r - 176) div 25 + 5" by blast
  then show ?thesis unfolding q_def [symmetric] l h by simp
qed

lemma gregorian_rule:
  assumes "\<not> easter_in_julian y method" "1583 \<le> y"
  shows "easter_from (easter_dom y method) (easter_raw y method) (y mod 19) = gregorian_easter y"
proof -
  define a b c where "a = y mod 19" and "b = y div 100" and "c = y mod 100"
  have a: "0 \<le> a" "a < 19" by (simp_all add: a_def)
  have y: "y = 100 * b + c" "0 \<le> c" "c < 100" by (simp_all add: b_def c_def)
  have b: "15 \<le> b" using y assms(2) by linarith
  have y4: "y div 4 = 25 * b + c div 4" "y div 400 = b div 4"
    using div_bounds [of 4 c] div_bounds [of 4 b] y by (auto intro!: div_is)
  have solar: "(y - 1600) sdiv 100 - (y - 1600) sdiv 400 = b - b div 4 - 12"
  proof (cases "1600 < y")
    case True
    have "(y - 1600) div 100 = b - 16" "(y - 1600) div 400 = b div 4 - 4" using y y4(2) div_bounds [of 4 b] by (auto intro!: div_is)
    then show ?thesis using True by (simp add: pos_sdiv)
  next
    case False
    then have "y \<in> set [1583..1600]" using assms(2) unfolding set_upto by simp
    moreover have "\<forall>y \<in> set [1583..1600]. (y - 1600) sdiv 100 - (y - 1600) sdiv 400 = y div 100 - y div 100 div 4 - (12::int)" by code_simp
    ultimately show ?thesis unfolding b_def by blast
  qed
  have lunar: "((y - 1400) sdiv 100) * 8 sdiv 25 = (b - (b + 8) div 25 + 1) div 3 - 5"
  proof -
    have "(y - 1400) sdiv 100 = b - 14" using y assms(2) by (subst pos_sdiv(1)) (auto intro!: div_is)
    moreover have "0 < (b - 14) * 8" using b by simp
    ultimately show ?thesis using lunar_correction [of b] b by (simp add: pos_sdiv(1))
  qed
  define g where "g = (b - (b + 8) div 25 + 1) div 3"
  define h where "h = (19 * a + b - b div 4 - g + 15) mod 30"
  have h: "0 \<le> h" "h < 30" by (simp_all add: h_def)
  have raw: "easter_raw y method = h"
  proof -
    have "3 - 11 * (a + 1) + (b - b div 4 - 12) - (g - 5) = (19 * a + b - b div 4 - g + 15) + 30 * (- a - 1)" by simp
    then have "(3 - 11 * (a + 1) + (b - b div 4 - 12) - (g - 5)) mod 30 = h" unfolding h_def by (simp only: mod_mult_self2)
    then show ?thesis using assms(1) unfolding easter_raw_def solar lunar g_def [symmetric] a_def [symmetric] by simp
  qed
  have l: "(4 - h - easter_dom y method) mod 7 = (32 + 2 * (b mod 4) + 2 * (c div 4) - h - c mod 4) mod 7"
  proof -
    define Q where "Q = y + y div 4 - y div 100 + y div 400"
    have "(4 - h - Q mod 7) mod 7 = (4 - h - Q) mod 7" by (simp only: mod_simps)
    moreover have "32 + 2 * (b mod 4) + 2 * (c div 4) - h - c mod 4 = (4 - h - Q) + 7 * (18 * b + c div 4 - b div 4 + 4)"
      unfolding Q_def y4 b_def [symmetric] unfolding minus_mult_div_eq_mod [symmetric] y(1) by (simp add: algebra_simps)
    ultimately show ?thesis using assms(1) unfolding easter_dom_def Q_def [symmetric] by (simp only: if_False mod_mult_self2)
  qed
  show ?thesis
    unfolding raw easter_from_sum [OF h a, folded a_def] a_def [symmetric] gregorian_easter_def Let_def l g_def [symmetric]
      b_def [symmetric] c_def [symmetric] h_def [symmetric] by simp
qed

lemma easter_days_correct:
  assumes "(case year of None \<Rightarrow> now | Some y \<Rightarrow> y) = y"
  shows "if y \<notin> {1 .. 7378697629483820644}
      then easter_days now year how = Some (Inl (year_error ''must be between 1 and 7378697629483820644''))
    else if easter_in_julian y how \<and> y > 7378697629483820642 then easter_days now year how = None
    else \<exists>n. easter_days now year how = Some (Inr n) \<and> n \<in> {1 .. 35} \<and>
      DayOfWeek ((if easter_in_julian y how then JulianToSdn y 3 21 else GregorianToSdn y 3 21) + n) = 0 \<and>
      n = (if easter_in_julian y how then julian_easter y else if 1583 \<le> y then gregorian_easter y else n)"
proof -
  have m: "(CLONG_MAX div 5) * 4 = 7378697629483820644" by (simp add: CLONG_MAX_def)
  note run = easter_days_def cal_easter_def Let_def m assms
  show ?thesis
  proof (cases "y \<in> {1 .. 7378697629483820644}")
    case True
    then have y: "0 < y" "\<not> (y \<le> 0 \<or> y > 7378697629483820644)" by auto
    show ?thesis
    proof (cases "easter_in_julian y how \<and> y > 7378697629483820642")
      case False
      then have f: "easter_fits y how" using True by (auto simp: easter_fits_def)
      obtain n where n: "easter_day y how = Some n" "1 \<le> n" "n \<le> 35" using easter_bounds [OF y(1) f] by blast
      have "n = (if easter_in_julian y how then julian_easter y else if 1583 \<le> y then gregorian_easter y else n)"
        using easter_shape [OF y(1) f] n(1) julian_rule [of y how] gregorian_rule [of y how] by simp
      then show ?thesis using True False y n easter_is_sunday [OF y(1) n(1) f] by (auto simp: run)
    qed (use True y in \<open>simp add: run easter_overflows\<close>)
  qed (auto simp: run)
qed


end
