(* ===== verification/CalJewish.thy ===== *)
theory CalJewish
  imports CalSolar
begin

text \<open>
  The Jewish calendar (\<open>jewish.c\<close>): the molads (new moons) that start the years, the rules that delay the
  first day of a year, and the conversions between serial day numbers and dates.

  As in \<open>CalSolar\<close> the numbers are integers and each conversion to an \<open>int\<close> is written out;
  \<open>MoladOfMetonicCycle\<close>, which multiplies in two halves, works on unsigned 64-bit words.
\<close>

unbundle bit_operations_syntax

definition HALAKIM_PER_HOUR :: int where "HALAKIM_PER_HOUR = 1080"
definition HALAKIM_PER_DAY :: int where "HALAKIM_PER_DAY = 25920"
definition HALAKIM_PER_LUNAR_CYCLE :: int where "HALAKIM_PER_LUNAR_CYCLE = 29 * HALAKIM_PER_DAY + 13753"
definition HALAKIM_PER_METONIC_CYCLE :: int where "HALAKIM_PER_METONIC_CYCLE = HALAKIM_PER_LUNAR_CYCLE * (12 * 19 + 7)"
definition JEWISH_SDN_OFFSET :: int where "JEWISH_SDN_OFFSET = 347997"
definition JEWISH_SDN_MAX :: int where "JEWISH_SDN_MAX = 324542846"
definition NEW_MOON_OF_CREATION :: int where "NEW_MOON_OF_CREATION = 31524"
definition NOON :: int where "NOON = 18 * HALAKIM_PER_HOUR"
definition AM3_11_20 :: int where "AM3_11_20 = 9 * HALAKIM_PER_HOUR + 204"
definition AM9_32_43 :: int where "AM9_32_43 = 15 * HALAKIM_PER_HOUR + 589"

definition SUNDAY :: int where "SUNDAY = 0"
definition MONDAY :: int where "MONDAY = 1"
definition TUESDAY :: int where "TUESDAY = 2"
definition WEDNESDAY :: int where "WEDNESDAY = 3"
definition FRIDAY :: int where "FRIDAY = 5"

definition monthsPerYear :: "int list" where
  "monthsPerYear = [12, 12, 13, 12, 12, 13, 12, 13, 12, 12, 13, 12, 12, 13, 12, 12, 13, 12, 13]"

definition yearOffset :: "int list" where
  "yearOffset = [0, 12, 24, 37, 49, 61, 74, 86, 99, 111, 123, 136, 148, 160, 173, 185, 197, 210, 222]"

text \<open>The first day of a year, from the molad that starts it.\<close>

definition Tishri1 :: "int \<Rightarrow> int \<Rightarrow> int \<Rightarrow> int" where
  "Tishri1 metonicYear moladDay moladHalakim =
     (let tishri1 = moladDay;
          dow = to_int (tishri1 smod 7);
          leapYear = metonicYear = 2 \<or> metonicYear = 5 \<or> metonicYear = 7 \<or> metonicYear = 10 \<or> metonicYear = 13 \<or>
            metonicYear = 16 \<or> metonicYear = 18;
          lastWasLeapYear = metonicYear = 3 \<or> metonicYear = 6 \<or> metonicYear = 8 \<or> metonicYear = 11 \<or> metonicYear = 14 \<or>
            metonicYear = 17 \<or> metonicYear = 0;
          (tishri1, dow) =
            (if moladHalakim \<ge> NOON \<or> (\<not> leapYear \<and> dow = TUESDAY \<and> moladHalakim \<ge> AM3_11_20) \<or>
                (lastWasLeapYear \<and> dow = MONDAY \<and> moladHalakim \<ge> AM9_32_43)
             then (tishri1 + 1, if dow + 1 = 7 then 0 else dow + 1) else (tishri1, dow))
      in if dow = WEDNESDAY \<or> dow = FRIDAY \<or> dow = SUNDAY then tishri1 + 1 else tishri1)"

text \<open>Day and time of the molad that starts a cycle of 19 years.\<close>

definition MoladOfMetonicCycle :: "int \<Rightarrow> int \<times> int" where
  "MoladOfMetonicCycle metonicCycle =
     (let r1 = (word_of_int NEW_MOON_OF_CREATION :: u64);
          chk = metonicCycle;
          low = HALAKIM_PER_METONIC_CYCLE AND 0xFFFF;
          high = drop_bit 16 HALAKIM_PER_METONIC_CYCLE AND 0xFFFF
      in if chk > (CLONG_MAX - NEW_MOON_OF_CREATION) sdiv low then (0, 0)
         else (let r1 = r1 + word_of_int (chk * low)
               in if word_of_int chk > (word_of_int CLONG_MAX - drop_bit 16 r1) div word_of_int high then (0, 0)
                  else (let r2 = drop_bit 16 r1 + word_of_int (chk * high);
                            d2 = r2 div word_of_int HALAKIM_PER_DAY;
                            r2 = r2 - d2 * word_of_int HALAKIM_PER_DAY;
                            r1 = push_bit 16 r2 OR (r1 AND 0xFFFF);
                            d1 = r1 div word_of_int HALAKIM_PER_DAY;
                            r1 = r1 - d1 * word_of_int HALAKIM_PER_DAY
                        in (sint (push_bit 16 d2 OR d1), sint r1))))"

text \<open>\<open>moladHalakim += h; moladDay += moladHalakim / HALAKIM_PER_DAY; moladHalakim = moladHalakim % HALAKIM_PER_DAY;\<close>\<close>

definition add_halakim :: "int \<Rightarrow> int \<times> int \<Rightarrow> int \<times> int" where
  "add_halakim h = (\<lambda>(moladDay, moladHalakim).
     let moladHalakim = moladHalakim + h
     in (moladDay + moladHalakim sdiv HALAKIM_PER_DAY, moladHalakim smod HALAKIM_PER_DAY))"

text \<open>The two loops of \<open>FindTishriMolad\<close>: over cycles, then over the years of one.\<close>

partial_function (option) find_cycle :: "int \<Rightarrow> int \<Rightarrow> int \<times> int \<Rightarrow> (int \<times> int \<times> int) option" where
  "find_cycle inputDay metonicCycle molad =
     (if fst molad < inputDay - 6940 + 310
      then find_cycle inputDay (metonicCycle + 1) (add_halakim HALAKIM_PER_METONIC_CYCLE molad)
      else Some (metonicCycle, molad))"

function find_year :: "int \<Rightarrow> int \<Rightarrow> int \<times> int \<Rightarrow> int \<times> int \<times> int" where
  "find_year inputDay metonicYear molad =
     (if metonicYear < 18
      then if fst molad > inputDay - 74 then (metonicYear, molad)
           else find_year inputDay (metonicYear + 1) (add_halakim (HALAKIM_PER_LUNAR_CYCLE * monthsPerYear ! nat metonicYear) molad)
      else (metonicYear, molad))"
  by pat_completeness auto
termination by (relation "measure (\<lambda>(_, metonicYear, _). nat (18 - metonicYear))") auto

declare find_year.simps [simp del]

text \<open>Metonic cycle, metonic year, day and time of the molad of Tishri near a day.\<close>

definition FindTishriMolad :: "int \<Rightarrow> (int \<times> int \<times> int \<times> int) option" where
  "FindTishriMolad inputDay =
     (let metonicCycle = to_int ((inputDay + 310) sdiv 6940)
      in map_option (\<lambda>(metonicCycle, molad). (metonicCycle, find_year inputDay 0 molad))
           (find_cycle inputDay metonicCycle (MoladOfMetonicCycle metonicCycle)))"

text \<open>Metonic cycle and year, molad and first day of a year.\<close>

definition FindStartOfYear :: "int \<Rightarrow> int \<times> int \<times> int \<times> int \<times> int" where
  "FindStartOfYear year =
     (let metonicCycle = (year - 1) sdiv 19;
          metonicYear = (year - 1) smod 19;
          (moladDay, moladHalakim) =
            add_halakim (HALAKIM_PER_LUNAR_CYCLE * yearOffset ! nat metonicYear) (MoladOfMetonicCycle metonicCycle)
      in (metonicCycle, metonicYear, moladDay, moladHalakim, to_int (Tishri1 metonicYear moladDay moladHalakim)))"

text \<open>
  \<open>SdnToJewish\<close> stores a date and returns in many places; \<open>late_months\<close> holds those in the second half of
  a year, found from the year's end, and \<open>early_months\<close> the end of the function, for Heshvan and Kislev.
\<close>

definition late_months :: "int \<Rightarrow> int \<Rightarrow> int \<times> int" where
  "late_months inputDay tishri1 =
     (if inputDay > tishri1 - 30 then (13, to_int (inputDay - tishri1 + 30))
      else if inputDay > tishri1 - 60 then (12, to_int (inputDay - tishri1 + 60))
      else if inputDay > tishri1 - 89 then (11, to_int (inputDay - tishri1 + 89))
      else if inputDay > tishri1 - 119 then (10, to_int (inputDay - tishri1 + 119))
      else if inputDay > tishri1 - 148 then (9, to_int (inputDay - tishri1 + 148))
      else (8, to_int (inputDay - tishri1 + 178)))"

text \<open>Adar and the months before it; the last component tells whether the function returned.\<close>

definition middle_months :: "bool \<Rightarrow> int \<Rightarrow> int \<Rightarrow> (int \<times> int) \<times> bool" where
  "middle_months leap inputDay tishri1 =
     (let day = to_int (inputDay - tishri1 + 207)
      in if leap
         then if day > 0 then ((7, day), True)
              else if day + 30 > 0 then ((6, day + 30), True)
              else if day + 30 + 30 > 0 then ((5, day + 30 + 30), True)
              else ((4, day + 30 + 30 + 29), day + 30 + 30 + 29 > 0)
         else if day > 0 then ((7, day), True)
              else if day + 30 > 0 then ((5, day + 30), True)
              else ((4, day + 30 + 29), day + 30 + 29 > 0))"

definition early_months :: "int \<Rightarrow> int \<Rightarrow> int \<Rightarrow> int \<times> int" where
  "early_months inputDay tishri1 tishri1After =
     (let yearLength = tishri1After - tishri1;
          day = inputDay - tishri1 - 29
      in if yearLength = 355 \<or> yearLength = 385
         then if day \<le> 30 then (2, to_int day) else (3, to_int (day - 30))
         else if day \<le> 29 then (2, to_int day) else (3, to_int (day - 29)))"

definition SdnToJewish :: "int \<Rightarrow> ymd option" where
  "SdnToJewish sdn =
     (if sdn \<le> JEWISH_SDN_OFFSET \<or> sdn > JEWISH_SDN_MAX then Some (0, 0, 0)
      else (let inputDay = sdn - JEWISH_SDN_OFFSET
            in case FindTishriMolad inputDay of
                 None \<Rightarrow> None
               | Some (metonicCycle, metonicYear, day, halakim) \<Rightarrow>
                   (let tishri1 = to_int (Tishri1 metonicYear day halakim)
                    in if inputDay \<ge> tishri1
                       then (let year = metonicCycle * 19 + metonicYear + 1
                             in if inputDay < tishri1 + 59
                                then if inputDay < tishri1 + 30 then Some (year, 1, to_int (inputDay - tishri1 + 1))
                                     else Some (year, 2, to_int (inputDay - tishri1 - 29))
                                else (let (day, halakim) =
                                            add_halakim (HALAKIM_PER_LUNAR_CYCLE * monthsPerYear ! nat metonicYear) (day, halakim);
                                          tishri1After = to_int (Tishri1 ((metonicYear + 1) smod 19) day halakim)
                                      in Some (year, early_months inputDay tishri1 tishri1After)))
                       else (let year = metonicCycle * 19 + metonicYear
                             in if inputDay \<ge> tishri1 - 177 then Some (year, late_months inputDay tishri1)
                                else (case middle_months (monthsPerYear ! nat ((year - 1) smod 19) = 13) inputDay tishri1 of
                                        (date, True) \<Rightarrow> Some (year, date)
                                      | (date, False) \<Rightarrow>
                                          (let tishri1After = tishri1
                                           in case FindTishriMolad (day - 365) of
                                                None \<Rightarrow> None
                                              | Some (metonicCycle, metonicYear, day, halakim) \<Rightarrow>
                                                  (let tishri1 = to_int (Tishri1 metonicYear day halakim)
                                                   in Some (year, early_months inputDay tishri1 tishri1After))))))))"

definition JewishToSdn :: "int \<Rightarrow> int \<Rightarrow> int \<Rightarrow> int" where
  "JewishToSdn year month day =
     (if year \<le> 0 \<or> day \<le> 0 \<or> day > 30 then 0
      else if month = 1 \<or> month = 2
      then (case FindStartOfYear year of (_, _, _, _, tishri1) \<Rightarrow>
              (if month = 1 then tishri1 + day - 1 else tishri1 + day + 29) + JEWISH_SDN_OFFSET)
      else if month = 3
      then (case FindStartOfYear year of (_, metonicYear, moladDay, moladHalakim, tishri1) \<Rightarrow>
              (let (moladDay, moladHalakim) =
                     add_halakim (HALAKIM_PER_LUNAR_CYCLE * monthsPerYear ! nat metonicYear) (moladDay, moladHalakim);
                   tishri1After = to_int (Tishri1 ((metonicYear + 1) smod 19) moladDay moladHalakim);
                   yearLength = tishri1After - tishri1
               in (if yearLength = 355 \<or> yearLength = 385 then tishri1 + day + 59 else tishri1 + day + 58) + JEWISH_SDN_OFFSET))
      else if month = 4 \<or> month = 5 \<or> month = 6
      then (case FindStartOfYear (year + 1) of (_, _, _, _, tishri1After) \<Rightarrow>
              (let lengthOfAdarIAndII = (if monthsPerYear ! nat ((year - 1) smod 19) = 12 then 29 else 59)
               in (if month = 4 then tishri1After + day - lengthOfAdarIAndII - 237
                   else if month = 5 then tishri1After + day - lengthOfAdarIAndII - 208
                   else tishri1After + day - lengthOfAdarIAndII - 178) + JEWISH_SDN_OFFSET))
      else (case FindStartOfYear (year + 1) of (_, _, _, _, tishri1After) \<Rightarrow>
              if month = 7 then tishri1After + day - 207 + JEWISH_SDN_OFFSET
              else if month = 8 then tishri1After + day - 178 + JEWISH_SDN_OFFSET
              else if month = 9 then tishri1After + day - 148 + JEWISH_SDN_OFFSET
              else if month = 10 then tishri1After + day - 119 + JEWISH_SDN_OFFSET
              else if month = 11 then tishri1After + day - 89 + JEWISH_SDN_OFFSET
              else if month = 12 then tishri1After + day - 60 + JEWISH_SDN_OFFSET
              else if month = 13 then tishri1After + day - 30 + JEWISH_SDN_OFFSET
              else 0))"

lemmas jewish_simps = HALAKIM_PER_HOUR_def HALAKIM_PER_DAY_def HALAKIM_PER_LUNAR_CYCLE_def HALAKIM_PER_METONIC_CYCLE_def
  JEWISH_SDN_OFFSET_def JEWISH_SDN_MAX_def NEW_MOON_OF_CREATION_def NOON_def AM3_11_20_def AM9_32_43_def SUNDAY_def MONDAY_def
  TUESDAY_def WEDNESDAY_def FRIDAY_def

subsection \<open>Words that hold small numbers\<close>

lemma small_uint: "0 \<le> a \<Longrightarrow> a < 2 ^ 64 \<Longrightarrow> uint (word_of_int a :: u64) = a"
  by (simp add: uint_word_of_int)

lemma small_word:
  assumes "0 \<le> a" "a < 2 ^ 64" "0 \<le> b" "b < 2 ^ 64"
  shows "drop_bit 16 (word_of_int a :: u64) = word_of_int (a div 65536)" "word_of_int a div word_of_int b = (word_of_int (a div b) :: u64)"
    "(word_of_int a :: u64) AND 0xFFFF = word_of_int (a mod 65536)" "push_bit 16 (word_of_int a :: u64) = word_of_int (a * 65536)"
    "(word_of_int a :: u64) < word_of_int b \<longleftrightarrow> a < b"
proof -
  note u = small_uint [OF assms(1,2)] small_uint [OF assms(3,4)]
  have t: "take_bit 64 a = a" using assms by (simp add: take_bit_int_eq_self_iff)
  show "drop_bit 16 (word_of_int a :: u64) = word_of_int (a div 65536)"
    by (rule word_uint_eqI) (use assms in \<open>simp add: unsigned_drop_bit_eq uint_word_of_int drop_bit_eq_div uint_div u t\<close>)
  show "word_of_int a div word_of_int b = (word_of_int (a div b) :: u64)" by (simp add: word_div_def u)
  show "(word_of_int a :: u64) AND 0xFFFF = word_of_int (a mod 65536)"
  proof (rule word_uint_eqI)
    have m: "(0xFFFF :: u64) = mask 16" by (simp add: mask_eq_exp_minus_1)
    show "uint ((word_of_int a :: u64) AND 0xFFFF) = uint (word_of_int (a mod 65536) :: u64)"
      unfolding m take_bit_eq_mask [symmetric] using u by (simp add: take_bit_eq_mod uint_mod uint_word_of_int)
  qed
  show "push_bit 16 (word_of_int a :: u64) = word_of_int (a * 65536)" by (simp add: push_bit_eq_mult)
  show "(word_of_int a :: u64) < word_of_int b \<longleftrightarrow> a < b" by (simp add: word_less_def u)
qed

lemma halves_join:
  assumes "0 \<le> a" "a < 2 ^ 48" "0 \<le> b" "b < 65536"
  shows "(word_of_int (a * 65536) :: u64) OR word_of_int b = word_of_int (a * 65536 + b)"
proof -
  have "a * 65536 OR b = a * 65536 + b"
  proof -
    have "concat_bit 16 b a = take_bit 16 b + push_bit 16 a" by (rule concat_bit_eq)
    moreover have "concat_bit 16 b a = take_bit 16 b OR push_bit 16 a" by (rule concat_bit_def)
    moreover have "take_bit 16 b = b" using assms by (simp add: take_bit_int_eq_self_iff)
    ultimately show ?thesis by (simp add: push_bit_eq_mult or.commute add.commute)
  qed
  then show ?thesis by (simp only: word_wi_log_defs)
qed

lemma small_sint: "0 \<le> a \<Longrightarrow> a < 2 ^ 63 \<Longrightarrow> sint (word_of_int a :: u64) = a"
  by (simp add: sint_uint uint_word_of_int signed_take_bit_int_eq_self_iff)

text \<open>Multiplying and dividing in halves is exact.\<close>

lemma halves_div:
  fixes t :: int
  assumes "0 < d" "r = (t div 65536) mod d * 65536 + t mod 65536"
  shows "(t div 65536) div d * 65536 + r div d = t div d" "r - r div d * d = t mod d"
proof -
  define H q m l where "H = t div 65536" and "q = H div d" and "m = H mod d" and "l = t mod 65536"
  have t: "t = r + d * (q * 65536)"
  proof -
    have "d * q + m = H" unfolding q_def m_def by simp
    moreover have "65536 * H + l = t" unfolding H_def l_def by simp
    moreover have "d * (q * 65536) = 65536 * (d * q)" by simp
    moreover have "r = m * 65536 + l" unfolding assms(2) H_def m_def l_def ..
    ultimately show ?thesis by linarith
  qed
  show "(t div 65536) div d * 65536 + r div d = t div d"
    unfolding H_def [symmetric] q_def [symmetric] by (subst t) (use assms(1) in simp)
  have "t mod d = r mod d" by (subst t) simp
  then show "r - r div d * d = t mod d" by (simp add: minus_div_mult_eq_mod)
qed

lemma molad_of_cycle:
  assumes "0 \<le> c" "c < 2 ^ 31" "t = 31524 + c * 179876755"
  shows "MoladOfMetonicCycle c = (t div 25920, t mod 25920)"
proof -
  have k: "HALAKIM_PER_METONIC_CYCLE AND 0xFFFF = 45971" "drop_bit 16 HALAKIM_PER_METONIC_CYCLE AND 0xFFFF = 2744"
    by (simp_all add: jewish_simps)
  define r1 where "r1 = 31524 + c * 45971"
  define h1 where "h1 = r1 div 65536"
  define r2 where "r2 = h1 + c * 2744"
  define r where "r = r2 mod 25920 * 65536 + r1 mod 65536"
  have c: "c * 45971 < 2 ^ 31 * 45971" using assms(2) by simp
  have r1: "0 \<le> r1" "r1 < 2 ^ 48" using assms(1) c by (simp_all add: r1_def)
  have h1: "0 \<le> h1" "h1 < 2 ^ 32" using r1 div_bounds [of 65536 r1] by (simp_all add: h1_def pos_imp_zdiv_nonneg_iff)
  have r2: "0 \<le> r2" "r2 < 2 ^ 44" using h1 assms(1,2) by (simp_all add: r2_def)
  have r2': "0 \<le> r2 mod 25920" "r2 mod 25920 < 25920" "0 \<le> r1 mod 65536" "r1 mod 65536 < 65536" by simp_all
  then have r: "0 \<le> r" "r < 25920 * 65536" by (simp_all add: r_def)
  have t: "t div 65536 = r2" "t mod 65536 = r1 mod 65536"
  proof -
    have e: "t = r1 + c * 2744 * 65536" using assms(3) by (simp add: r1_def)
    show "t div 65536 = r2" unfolding e r2_def h1_def by (simp only: div_mult_self1 zero_neq_numeral not_False_eq_True add.commute)
    show "t mod 65536 = r1 mod 65536" unfolding e by (rule mod_mult_self1)
  qed
  note W = halves_div [of 25920 r t, unfolded t, OF _ r_def, simplified]
  have d1: "0 \<le> r div 25920" "r div 25920 < 65536" using r div_bounds [of 25920 r] by (simp_all add: pos_imp_zdiv_nonneg_iff)
  have d2: "0 \<le> r2 div 25920" "r2 div 25920 < 2 ^ 44" using r2 div_bounds [of 25920 r2] by (simp_all add: pos_imp_zdiv_nonneg_iff)
  let ?w = "word_of_int :: int \<Rightarrow> u64"
  have w1: "?w 31524 + ?w (c * 45971) = ?w r1" by (simp add: r1_def)
  have w2: "drop_bit 16 (?w r1) = ?w h1" using small_word(1) [of r1 0] r1 by (simp add: h1_def)
  have g: "\<not> ?w c > (?w CLONG_MAX - ?w h1) div ?w 2744"
  proof -
    have "?w CLONG_MAX - ?w h1 = ?w (CLONG_MAX - h1)" by simp
    moreover have "?w (CLONG_MAX - h1) div ?w 2744 = ?w ((CLONG_MAX - h1) div 2744)"
      using h1 by (intro small_word(2)) (simp_all add: CLONG_MAX_def)
    moreover have "c \<le> (CLONG_MAX - h1) div 2744" using div_bounds [of 2744 "CLONG_MAX - h1"] h1 assms(2) by (simp add: CLONG_MAX_def)
    moreover have "(CLONG_MAX - h1) div 2744 < 2 ^ 64" using div_bounds [of 2744 "CLONG_MAX - h1"] h1 by (simp add: CLONG_MAX_def)
    ultimately show ?thesis using small_word(5) [of "(CLONG_MAX - h1) div 2744" c] assms(1,2) by simp
  qed
  have w3: "?w h1 + ?w (c * 2744) = ?w r2" by (simp add: r2_def)
  have w4: "?w r2 div ?w 25920 = ?w (r2 div 25920)" using r2 by (intro small_word(2)) simp_all
  have w5: "?w r2 - ?w (r2 div 25920) * ?w 25920 = ?w (r2 mod 25920)" by (simp add: minus_div_mult_eq_mod [symmetric])
  have w6: "push_bit 16 (?w (r2 mod 25920)) OR (?w r1 AND 0xFFFF) = ?w r"
    using small_word(4) [of "r2 mod 25920" 0] small_word(3) [of r1 0] halves_join [of "r2 mod 25920" "r1 mod 65536"] r2' r1 by (simp add: r_def)
  have w7: "?w r div ?w 25920 = ?w (r div 25920)" using r by (intro small_word(2)) simp_all
  have w8: "?w r - ?w (r div 25920) * ?w 25920 = ?w (r mod 25920)" by (simp add: minus_div_mult_eq_mod [symmetric])
  have w9: "push_bit 16 (?w (r2 div 25920)) OR ?w (r div 25920) = ?w (t div 25920)"
    using small_word(4) [of "r2 div 25920" 0] halves_join [of "r2 div 25920" "r div 25920"] d1 d2 W(1) by simp
  have f: "\<not> c > (CLONG_MAX - 31524) sdiv 45971" using assms(2) by (simp add: CLONG_MAX_def signed_divide_int_def)
  have T: "0 \<le> t div 25920" "t div 25920 < 2 ^ 63"
    using assms div_bounds [of 25920 t] by (simp_all add: pos_imp_zdiv_nonneg_iff)
  have s: "sint (?w (t div 25920)) = t div 25920" "sint (?w (r mod 25920)) = t mod 25920"
    using small_sint [OF T] small_sint [of "r mod 25920"] pos_mod_bound [of 25920 r] W(2) by (simp_all add: minus_div_mult_eq_mod)
  show ?thesis
    unfolding MoladOfMetonicCycle_def Let_def k NEW_MOON_OF_CREATION_def HALAKIM_PER_DAY_def if_not_P [OF f] w1 w2 if_not_P [OF g] w3 w4 w5 w6 w7 w8 w9 s ..
qed

subsection \<open>The sequence of molads\<close>

text \<open>Year \<open>k + 1\<close> begins with molad \<open>k\<close>: the time in halakim, the months before it, and its day.\<close>

definition year_months :: "int \<Rightarrow> int" where "year_months k = monthsPerYear ! nat (k mod 19)"

definition molad :: "int \<Rightarrow> int" where
  "molad k = 31524 + 765433 * (235 * (k div 19) + yearOffset ! nat (k mod 19))"

definition molad_day :: "int \<Rightarrow> int" where "molad_day k = molad k div 25920"

definition molad_at :: "int \<Rightarrow> int \<times> int" where "molad_at k = (molad_day k, molad k mod 25920)"

lemma mod19_cases: "(k :: int) mod 19 \<in> {0, 1, 2, 3, 4, 5, 6, 7, 8, 9, 10, 11, 12, 13, 14, 15, 16, 17, 18}"
proof -
  have "set [0..18] = {0 :: int, 1, 2, 3, 4, 5, 6, 7, 8, 9, 10, 11, 12, 13, 14, 15, 16, 17, 18}"
    by (simp add: upto_rec_numeral upto.simps del: set_upto)
  moreover have "k mod 19 \<in> set [0..18]" by (simp only: set_upto) simp
  ultimately show ?thesis by (simp only:)
qed

lemma nth_numeral_Cons: "(x # xs) ! numeral n = xs ! pred_numeral n"
  by (simp add: nth_Cons')

lemmas table_simps = monthsPerYear_def yearOffset_def nth_numeral_Cons

lemma next_index:
  "(k :: int) mod 19 < 18 \<Longrightarrow> (k + 1) div 19 = k div 19 \<and> (k + 1) mod 19 = k mod 19 + 1"
  "k mod 19 = 18 \<Longrightarrow> (k + 1) div 19 = k div 19 + 1 \<and> (k + 1) mod 19 = 0"
proof -
  have b: "k = 19 * (k div 19) + k mod 19" "0 \<le> k mod 19" by simp_all
  show "(k + 1) div 19 = k div 19 \<and> (k + 1) mod 19 = k mod 19 + 1" if "k mod 19 < 18"
  proof
    show "(k + 1) div 19 = k div 19" using b that by (intro div_is) linarith+
    then show "(k + 1) mod 19 = k mod 19 + 1" using mult_div_mod_eq [of 19 "k + 1"] b by linarith
  qed
  show "(k + 1) div 19 = k div 19 + 1 \<and> (k + 1) mod 19 = 0" if "k mod 19 = 18"
  proof
    have "19 * (k div 19 + 1) = 19 * (k div 19) + 19" by (simp add: distrib_left)
    then show "(k + 1) div 19 = k div 19 + 1" using b that by (intro div_is) linarith+
    then show "(k + 1) mod 19 = 0" using mult_div_mod_eq [of 19 "k + 1"] b that by linarith
  qed
qed

lemma offset_Suc: "(r :: int) \<in> {0, 1, 2, 3, 4, 5, 6, 7, 8, 9, 10, 11, 12, 13, 14, 15, 16, 17, 18} \<Longrightarrow> r < 18 \<Longrightarrow>
    yearOffset ! nat (r + 1) = yearOffset ! nat r + monthsPerYear ! nat r"
  unfolding insert_iff empty_iff by (elim disjE) (simp_all add: table_simps)

lemma molad_Suc: "molad (k + 1) = molad k + 765433 * year_months k"
proof (cases "k mod 19 < 18")
  case True
  show ?thesis using offset_Suc [OF mod19_cases True] next_index(1) [OF True] by (simp add: molad_def year_months_def)
next
  case False
  then have "k mod 19 = 18" using mod19_cases [of k] by auto
  then show ?thesis using next_index(2) [of k] by (simp add: molad_def year_months_def table_simps)
qed

lemma year_months_cases: "year_months k = 12 \<or> year_months k = 13"
  using mod19_cases [of k] unfolding year_months_def insert_iff empty_iff by (elim disjE) (simp_all add: table_simps)

lemma add_halakim_at:
  assumes "0 \<le> t" "0 \<le> h"
  shows "add_halakim h (t div 25920, t mod 25920) = ((t + h) div 25920, (t + h) mod 25920)"
proof -
  have p: "0 \<le> t mod 25920 + h" using assms(2) by simp
  have e: "t + h = t mod 25920 + h + 25920 * (t div 25920)" by simp
  have "(t mod 25920 + h) sdiv 25920 = (t mod 25920 + h) div 25920" "(t mod 25920 + h) smod 25920 = (t mod 25920 + h) mod 25920"
    using p by (cases "t mod 25920 + h = 0"; simp add: signed_divide_int_def signed_modulo_int_def)+
  moreover have "(t + h) div 25920 = t div 25920 + (t mod 25920 + h) div 25920" "(t + h) mod 25920 = (t mod 25920 + h) mod 25920"
    unfolding e by (simp_all only: div_mult_self2 mod_mult_self2 zero_neq_numeral not_False_eq_True add.commute)
  ultimately show ?thesis unfolding add_halakim_def Let_def HALAKIM_PER_DAY_def prod.case by (simp only:)
qed

lemma molad_nonneg: "0 \<le> k \<Longrightarrow> 0 \<le> molad k"
proof -
  assume "0 \<le> k"
  moreover have "0 \<le> yearOffset ! nat (k mod 19)"
    using mod19_cases [of k] unfolding insert_iff empty_iff by (elim disjE) (simp_all add: table_simps)
  ultimately show ?thesis by (simp add: molad_def pos_imp_zdiv_nonneg_iff)
qed

lemma add_halakim_molad:
  assumes "0 \<le> k" "0 \<le> h" "molad k' = molad k + h"
  shows "add_halakim h (molad_at k) = molad_at k'"
  unfolding molad_at_def molad_day_def assms(3) by (rule add_halakim_at [OF molad_nonneg [OF assms(1)] assms(2)])

lemma next_year: "0 \<le> k \<Longrightarrow> add_halakim (HALAKIM_PER_LUNAR_CYCLE * year_months k) (molad_at k) = molad_at (k + 1)"
  using year_months_cases [of k] by (intro add_halakim_molad) (auto simp: molad_Suc jewish_simps)

lemma next_cycle: "0 \<le> c \<Longrightarrow> add_halakim HALAKIM_PER_METONIC_CYCLE (molad_at (19 * c)) = molad_at (19 * (c + 1))"
  by (intro add_halakim_molad) (simp_all add: molad_def jewish_simps table_simps distrib_left)

lemma cycle_start: "0 \<le> c \<Longrightarrow> c < 2 ^ 31 \<Longrightarrow> MoladOfMetonicCycle c = molad_at (19 * c)"
  using molad_of_cycle [of c "molad (19 * c)"] by (simp add: molad_at_def molad_day_def molad_def table_simps)

lemma year_in_cycle:
  "0 \<le> k \<Longrightarrow> add_halakim (HALAKIM_PER_LUNAR_CYCLE * yearOffset ! nat (k mod 19)) (molad_at (19 * (k div 19))) = molad_at k"
proof (rule add_halakim_molad)
  have o: "0 \<le> yearOffset ! nat (k mod 19)"
    using mod19_cases [of k] unfolding insert_iff empty_iff by (elim disjE) (simp_all add: table_simps)
  then show "0 \<le> HALAKIM_PER_LUNAR_CYCLE * yearOffset ! nat (k mod 19)" by (simp add: jewish_simps)
  have "molad (19 * (k div 19)) = 31524 + 765433 * (235 * (k div 19))" by (simp add: molad_def table_simps)
  then show "molad k = molad (19 * (k div 19)) + HALAKIM_PER_LUNAR_CYCLE * yearOffset ! nat (k mod 19)"
    by (simp add: molad_def [of k] jewish_simps distrib_left)
qed (simp add: pos_imp_zdiv_nonneg_iff)

text \<open>Days between molads.\<close>

lemma molad_at_day: "25920 * molad_day k \<le> molad k" "molad k < 25920 * molad_day k + 25920"
  using div_bounds [of 25920 "molad k"] by (simp_all add: molad_day_def)

lemma molad_day_Suc: "molad_day k + 354 \<le> molad_day (k + 1)" "molad_day (k + 1) \<le> molad_day k + 384"
  using molad_at_day [of k] molad_at_day [of "k + 1"] molad_Suc [of k] year_months_cases [of k] by linarith+

lemma molad_day_less: "j < k \<Longrightarrow> molad_day j + 354 \<le> molad_day k"
proof (induction "nat (k - j)" arbitrary: k)
  case (Suc n)
  show ?case
  proof (cases "k = j + 1")
    case False
    then have "molad_day j + 354 \<le> molad_day (k - 1)" using Suc(2,3) by (intro Suc(1)) simp_all
    then show ?thesis using molad_day_Suc(1) [of "k - 1"] by simp
  qed (use molad_day_Suc(1) [of j] in simp)
qed simp

text \<open>The search for the molad near a day.\<close>

lemma find_cycle_correct:
  assumes "0 \<le> c"
  shows "\<exists>c'. find_cycle x c (molad_at (19 * c)) = Some (c', molad_at (19 * c')) \<and> c \<le> c' \<and> x - 6630 \<le> molad_day (19 * c') \<and>
    (c' = c \<or> molad_day (19 * c') \<le> x + 310)"
  using assms
proof (induction "nat (x - molad_day (19 * c))" arbitrary: c rule: less_induct)
  case less
  show ?case
  proof (cases "molad_day (19 * c) < x - 6940 + 310")
    case True
    have m: "molad (19 * (c + 1)) = molad (19 * c) + 179876755" by (simp add: molad_def table_simps distrib_left)
    then have d: "molad_day (19 * c) + 6939 \<le> molad_day (19 * (c + 1))" "molad_day (19 * (c + 1)) \<le> molad_day (19 * c) + 6940"
      using molad_at_day [of "19 * c"] molad_at_day [of "19 * (c + 1)"] by linarith+
    then have "nat (x - molad_day (19 * (c + 1))) < nat (x - molad_day (19 * c))" using True by simp
    from less.hyps [OF this] less.prems obtain c' where c': "find_cycle x (c + 1) (molad_at (19 * (c + 1))) = Some (c', molad_at (19 * c'))"
      "c + 1 \<le> c'" "x - 6630 \<le> molad_day (19 * c')" "c' = c + 1 \<or> molad_day (19 * c') \<le> x + 310" by auto
    have "find_cycle x c (molad_at (19 * c)) = Some (c', molad_at (19 * c'))"
      using True c'(1) next_cycle [OF less.prems] by (subst find_cycle.simps) (simp add: molad_at_def)
    then show ?thesis using c' d True by auto
  next
    case False
    then have "find_cycle x c (molad_at (19 * c)) = Some (c, molad_at (19 * c))" by (subst find_cycle.simps) (simp add: molad_at_def)
    then show ?thesis using False by auto
  qed
qed

lemma find_year_correct:
  assumes "0 \<le> c" "0 \<le> m" "m \<le> 18"
  shows "\<exists>m'. find_year x m (molad_at (19 * c + m)) = (m', molad_at (19 * c + m')) \<and> m \<le> m' \<and> m' \<le> 18 \<and>
    (m' = 18 \<or> x - 74 < molad_day (19 * c + m')) \<and> (m' = m \<or> molad_day (19 * c + m') \<le> x + 310)"
  using assms
proof (induction "nat (18 - m)" arbitrary: m)
  case 0
  then show ?case by (subst find_year.simps) simp
next
  case (Suc n)
  show ?case
  proof (cases "molad_day (19 * c + m) > x - 74")
    case True
    then show ?thesis using Suc(2,5) by (subst find_year.simps) (auto simp: molad_at_def)
  next
    case False
    have m18: "m < 18" using Suc(2) by simp
    have i: "(19 * c + m) mod 19 = m" using Suc(2,4,5) by simp
    have n: "add_halakim (HALAKIM_PER_LUNAR_CYCLE * monthsPerYear ! nat m) (molad_at (19 * c + m)) = molad_at (19 * c + (m + 1))"
      using next_year [of "19 * c + m"] Suc(3,4) i by (simp add: year_months_def add.assoc)
    obtain m' where m': "find_year x (m + 1) (molad_at (19 * c + (m + 1))) = (m', molad_at (19 * c + m'))" "m + 1 \<le> m'" "m' \<le> 18"
      "m' = 18 \<or> x - 74 < molad_day (19 * c + m')" "m' = m + 1 \<or> molad_day (19 * c + m') \<le> x + 310"
    proof -
      have "n = nat (18 - (m + 1))" "m + 1 \<le> 18" using Suc(2) by simp_all
      then show ?thesis using Suc(1) [of "m + 1"] Suc(3,4) that by auto
    qed
    have "find_year x m (molad_at (19 * c + m)) = (m', molad_at (19 * c + m'))"
      using False m'(1) n m18 by (subst find_year.simps) (simp add: molad_at_def)
    moreover have "molad_day (19 * c + (m + 1)) \<le> x + 310" using molad_day_Suc(2) [of "19 * c + m"] False by (simp add: add.assoc)
    ultimately show ?thesis using m' by auto
  qed
qed

lemma find_molad:
  assumes "- 310 \<le> x" "x < 2 ^ 31"
  obtains k where "FindTishriMolad x = Some (k div 19, k mod 19, molad_at k)" "0 \<le> k" "x - 75 \<le> molad_day k" "molad_day k \<le> x + 311"
proof -
  define c where "c = (x + 310) div 6940"
  have s: "(x + 310) sdiv 6940 = c" using assms(1) by (cases "x + 310 = 0") (simp_all add: signed_divide_int_def c_def)
  have c: "0 \<le> c" "6940 * c \<le> x + 310" using assms(1) div_bounds [of 6940 "x + 310"] by (simp_all add: c_def pos_imp_zdiv_nonneg_iff)
  then have c31: "c < 2 ^ 31 - 1" using assms(2) by simp
  then have i: "to_int c = c" using c(1) by (intro to_int_id) simp_all
  have d: "molad_day (19 * c) \<le> x + 311"
    using molad_at_day(1) [of "19 * c"] c by (simp add: molad_def table_simps)
  obtain c' where c': "find_cycle x c (molad_at (19 * c)) = Some (c', molad_at (19 * c'))" "c \<le> c'" "x - 6630 \<le> molad_day (19 * c')"
    "c' = c \<or> molad_day (19 * c') \<le> x + 310" using find_cycle_correct [OF c(1)] by blast
  have "0 \<le> c'" using c(1) c'(2) by simp
  from find_year_correct [OF this, of 0 x] obtain m where m: "find_year x 0 (molad_at (19 * c')) = (m, molad_at (19 * c' + m))"
    "0 \<le> m" "m \<le> 18" "m = 18 \<or> x - 74 < molad_day (19 * c' + m)" "m = 0 \<or> molad_day (19 * c' + m) \<le> x + 310" by auto
  have ix: "(19 * c' + m) div 19 = c'" "(19 * c' + m) mod 19 = m" using m(2,3) by simp_all
  have "FindTishriMolad x = Some (c', m, molad_at (19 * c' + m))"
    using c'(1) m(1) cycle_start [OF c(1)] c31 by (simp add: FindTishriMolad_def Let_def s i)
  moreover have "molad_day (19 * c' + m) \<le> x + 311" using m(5) c'(4) d by auto
  moreover have "x - 75 \<le> molad_day (19 * c' + m)"
  proof (cases "m = 18")
    case True
    have "molad (19 * c' + m) = molad (19 * c') + 169926126" using ix True by (simp add: molad_def table_simps)
    then show ?thesis using c'(3) molad_at_day(1) [of "19 * c'"] molad_at_day(2) [of "19 * c' + m"] by linarith
  next
    case False
    then show ?thesis using m(4) by simp
  qed
  ultimately show ?thesis using that [of "19 * c' + m"] ix \<open>0 \<le> c'\<close> m(2) by simp
qed

subsection \<open>The first day of a year and its length\<close>

text \<open>
  The delay of the first day after the molad, for a leap year or not, a year after one or not, a day of the week,
  and a molad after 18h (\<open>n\<close>), after 9h 204p (\<open>p\<close>), after 15h 589p (\<open>q\<close>).
\<close>

definition delay :: "bool \<Rightarrow> bool \<Rightarrow> int \<Rightarrow> bool \<Rightarrow> bool \<Rightarrow> bool \<Rightarrow> int" where
  "delay leap after_leap dow n p q =
     (let late = n \<or> (\<not> leap \<and> dow = 2 \<and> p) \<or> (after_leap \<and> dow = 1 \<and> q);
          day = (if late then (dow + 1) mod 7 else dow)
      in (if late then 1 else 0) + (if day = 3 \<or> day = 5 \<or> day = 0 then 1 else 0))"

definition delay_at :: "bool \<Rightarrow> bool \<Rightarrow> int \<Rightarrow> int \<Rightarrow> int" where
  "delay_at leap after_leap dow h = delay leap after_leap dow (h \<ge> 19440) (h \<ge> 9924) (h \<ge> 16789)"

lemma delay_bounds: "0 \<le> delay_at l a r h" "delay_at l a r h \<le> 2" by (simp_all add: delay_at_def delay_def Let_def)

definition new_year :: "int \<Rightarrow> int" where
  "new_year k = Tishri1 (k mod 19) (molad_day k) (molad k mod 25920)"

lemma leap_years:
  "(k mod 19 = 2 \<or> k mod 19 = 5 \<or> k mod 19 = 7 \<or> k mod 19 = 10 \<or> k mod 19 = 13 \<or> k mod 19 = 16 \<or> k mod 19 = 18) = (year_months k = 13)"
  "(k mod 19 = 3 \<or> k mod 19 = 6 \<or> k mod 19 = 8 \<or> k mod 19 = 11 \<or> k mod 19 = 14 \<or> k mod 19 = 17 \<or> k mod 19 = 0) = (year_months (k - 1) = 13)"
proof -
  show l: "(k mod 19 = 2 \<or> k mod 19 = 5 \<or> k mod 19 = 7 \<or> k mod 19 = 10 \<or> k mod 19 = 13 \<or> k mod 19 = 16 \<or> k mod 19 = 18) = (year_months k = 13)" for k
    using mod19_cases [of k] unfolding year_months_def insert_iff empty_iff by (elim disjE) (simp_all add: table_simps)
  show "(k mod 19 = 3 \<or> k mod 19 = 6 \<or> k mod 19 = 8 \<or> k mod 19 = 11 \<or> k mod 19 = 14 \<or> k mod 19 = 17 \<or> k mod 19 = 0) = (year_months (k - 1) = 13)"
    using mod19_cases [of "k - 1"] next_index [of "k - 1"] unfolding l [of "k - 1", symmetric] insert_iff empty_iff
    by (elim disjE) simp_all
qed

lemma to_int_mod: "0 \<le> d \<Longrightarrow> to_int (d smod 7) = d mod 7"
proof -
  assume "0 \<le> d"
  then have "d smod 7 = d mod 7" by (cases "d = 0") (simp_all add: signed_modulo_int_def)
  moreover have "0 \<le> d mod 7" "d mod 7 < 7" by simp_all
  then have "to_int (d mod 7) = d mod 7" by (intro to_int_id) simp_all
  ultimately show ?thesis by simp
qed

lemma mod7_cases: "(d :: int) mod 7 = 0 \<or> d mod 7 = 1 \<or> d mod 7 = 2 \<or> d mod 7 = 3 \<or> d mod 7 = 4 \<or> d mod 7 = 5 \<or> d mod 7 = 6"
proof -
  have "0 \<le> d mod 7" "d mod 7 < 7" by simp_all
  then show ?thesis by linarith
qed

lemma molad_day_nonneg: "0 \<le> k \<Longrightarrow> 0 \<le> molad_day k"
  using molad_nonneg [of k] by (simp add: molad_day_def pos_imp_zdiv_nonneg_iff)

lemma new_year_delay:
  assumes "0 \<le> k"
  shows "new_year k = molad_day k + delay_at (year_months k = 13) (year_months (k - 1) = 13) (molad_day k mod 7) (molad k mod 25920)"
  unfolding new_year_def Tishri1_def Let_def leap_years to_int_mod [OF molad_day_nonneg [OF assms]] delay_at_def delay_def
  using mod7_cases [of "molad_day k"] by (elim disjE) (simp_all add: jewish_simps)

text \<open>No two leap years follow each other.\<close>

lemma no_two_leaps: "year_months k = 13 \<Longrightarrow> year_months (k + 1) = 12"
proof -
  assume "year_months k = 13"
  then have "\<not> year_months (k + 1) = 13"
    using mod19_cases [of k] next_index [of k] unfolding leap_years(1) [symmetric] insert_iff empty_iff by (elim disjE) simp_all
  then show ?thesis using year_months_cases [of "k + 1"] by simp
qed

lemma delay_ordinary:
  assumes "r = 0 \<or> r = 1 \<or> r = 2 \<or> r = 3 \<or> r = 4 \<or> r = 5 \<or> r = 6"
  shows "\<not> n \<Longrightarrow> \<not> q \<Longrightarrow> n' = p \<Longrightarrow> delay l' False ((r + 4) mod 7) n' p' q' - delay False a r n p q \<in> {- 1, 0, 1}"
    and "p \<Longrightarrow> \<not> n' \<Longrightarrow> \<not> p' \<Longrightarrow> delay l' False ((r + 5) mod 7) n' p' q' - delay False a r n p q \<in> {- 2, - 1, 0}"
  using assms by (elim disjE; cases n; cases p; cases q; simp add: delay_def Let_def)+

lemma delay_leap:
  assumes "r = 0 \<or> r = 1 \<or> r = 2 \<or> r = 3 \<or> r = 4 \<or> r = 5 \<or> r = 6"
  shows "\<not> n \<Longrightarrow> n' \<Longrightarrow> delay False True ((r + 5) mod 7) n' p' q' - delay True False r n p q \<in> {0, 1, 2}"
    and "n' \<longrightarrow> n \<Longrightarrow> n \<longrightarrow> q' \<Longrightarrow> n \<longrightarrow> p' \<Longrightarrow> delay False True ((r + 6) mod 7) n' p' q' - delay True False r n p q \<in> {- 1, 0, 1}"
  using assms by (elim disjE; cases n; cases n'; cases p'; simp add: delay_def Let_def)+

lemma mod7_add: "(d + x) mod 7 = (d mod 7 + x mod 7) mod (7 :: int)" by (simp only: mod_add_eq)

lemma year_length:
  assumes "0 \<le> k"
  shows "new_year (k + 1) - new_year k \<in> (if year_months k = 13 then {383, 384, 385} else {353, 354, 355})"
proof -
  define h h' where "h = molad k mod 25920" and "h' = molad (k + 1) mod 25920"
  have b: "0 \<le> h" "h < 25920" "0 \<le> h'" "h' < 25920" by (simp_all add: h_def h'_def)
  have d: "molad k = 25920 * molad_day k + h" "molad (k + 1) = 25920 * molad_day (k + 1) + h'" by (simp_all add: molad_day_def h_def h'_def)
  have n: "new_year k = molad_day k + delay_at (year_months k = 13) (year_months (k - 1) = 13) (molad_day k mod 7) h"
    "new_year (k + 1) = molad_day (k + 1) + delay_at (year_months (k + 1) = 13) (year_months k = 13) (molad_day (k + 1) mod 7) h'"
    using new_year_delay [OF assms] new_year_delay [of "k + 1"] assms by (simp_all add: h_def h'_def)
  let ?r = "molad_day k mod 7"
  show ?thesis
  proof (cases "year_months k = 13")
    case True
    have m: "molad (k + 1) = molad k + 9950629" using molad_Suc [of k] True by simp
    have p: "(year_months (k - 1) = 13) = False" "(year_months (k + 1) = 13) = False"
      using no_two_leaps [of "k - 1"] no_two_leaps [of k] True by auto
    show ?thesis
    proof (cases "h < 2651")
      case True
      then have e1: "molad_day (k + 1) = molad_day k + 383" using m d b by linarith
      then have e: "molad_day (k + 1) = molad_day k + 383" "h' = h + 23269" using m d by simp_all
      have "molad_day (k + 1) mod 7 = (?r + 5) mod 7" unfolding e(1) mod7_add [of _ 383] by simp
      then show ?thesis
        using delay_leap(1) [OF mod7_cases [of "molad_day k"], of "19440 \<le> h" "19440 \<le> h'"] True e(2) b \<open>year_months k = 13\<close>
        unfolding n e(1) p delay_at_def by auto
    next
      case False
      then have e1: "molad_day (k + 1) = molad_day k + 384" using m d b by linarith
      then have e: "molad_day (k + 1) = molad_day k + 384" "h' = h - 2651" using m d by simp_all
      have "molad_day (k + 1) mod 7 = (?r + 6) mod 7" unfolding e(1) mod7_add [of _ 384] by simp
      then show ?thesis
        using delay_leap(2) [OF mod7_cases [of "molad_day k"], of "19440 \<le> h'" "19440 \<le> h" "16789 \<le> h'" "9924 \<le> h'" "9924 \<le> h" "16789 \<le> h"] e(2) b \<open>year_months k = 13\<close>
        unfolding n e(1) p delay_at_def by auto
    qed
  next
    case False
    have m: "molad (k + 1) = molad k + 9185196" using molad_Suc [of k] False year_months_cases [of k] by simp
    show ?thesis
    proof (cases "h < 16404")
      case True
      then have e1: "molad_day (k + 1) = molad_day k + 354" using m d b by linarith
      then have e: "molad_day (k + 1) = molad_day k + 354" "h' = h + 9516" using m d by simp_all
      have "molad_day (k + 1) mod 7 = (?r + 4) mod 7" unfolding e(1) mod7_add [of _ 354] by simp
      then show ?thesis
        using delay_ordinary(1) [OF mod7_cases [of "molad_day k"], of "19440 \<le> h" "16789 \<le> h" "19440 \<le> h'" "9924 \<le> h"
            "year_months (k + 1) = 13" "9924 \<le> h'" "16789 \<le> h'" "year_months (k - 1) = 13"] True e(2) False
        unfolding n e(1) delay_at_def by auto
    next
      case f: False
      then have e1: "molad_day (k + 1) = molad_day k + 355" using m d b by linarith
      then have e: "molad_day (k + 1) = molad_day k + 355" "h' = h - 16404" using m d by simp_all
      have "molad_day (k + 1) mod 7 = (?r + 5) mod 7" unfolding e(1) mod7_add [of _ 355] by simp
      then show ?thesis
        using delay_ordinary(2) [OF mod7_cases [of "molad_day k"], of "9924 \<le> h" "19440 \<le> h'" "9924 \<le> h'"
            "year_months (k + 1) = 13" "16789 \<le> h'" "year_months (k - 1) = 13" "19440 \<le> h" "16789 \<le> h"] e(2) b f False
        unfolding n e(1) delay_at_def by auto
    qed
  qed
qed

end
