(* ===== verification/CalJewishDates.thy ===== *)
theory CalJewishDates
  imports CalJewish
begin

text \<open>
  The conversions of \<open>jewish.c\<close> between serial day numbers and dates are inverse to each other, on the
  dates of the calendar whose years begin with \<open>new_year\<close>.
\<close>

text \<open>Months of a year of \<open>len\<close> days: the days before a month and its length; month 6 only in leap years.\<close>

definition heshvan_days :: "int \<Rightarrow> int" where "heshvan_days len = (if len = 355 \<or> len = 385 then 30 else 29)"

definition kislev_days :: "int \<Rightarrow> int" where "kislev_days len = (if len = 353 \<or> len = 383 then 29 else 30)"

definition jewish_month :: "int \<Rightarrow> int \<Rightarrow> (int \<times> int) option" where
  "jewish_month len m =
     (if m = 1 then Some (0, 30) else if m = 2 then Some (30, heshvan_days len)
      else if m = 3 then Some (30 + heshvan_days len, kislev_days len)
      else if m = 4 then Some (30 + heshvan_days len + kislev_days len, 29)
      else if m = 5 then Some (59 + heshvan_days len + kislev_days len, 30)
      else if m = 6 then (if len > 380 then Some (89 + heshvan_days len + kislev_days len, 30) else None)
      else if m = 7 then Some (len - 206, 29) else if m = 8 then Some (len - 177, 30)
      else if m = 9 then Some (len - 147, 29) else if m = 10 then Some (len - 118, 30)
      else if m = 11 then Some (len - 88, 29) else if m = 12 then Some (len - 59, 30)
      else if m = 13 then Some (len - 29, 29) else None)"

definition year_days :: "int \<Rightarrow> int" where "year_days y = new_year y - new_year (y - 1)"

definition jewish_exists :: "ymd \<Rightarrow> bool" where
  "jewish_exists = (\<lambda>(y, m, d). 1 \<le> y \<and>
     (case jewish_month (year_days y) m of None \<Rightarrow> False | Some (_, days) \<Rightarrow> 1 \<le> d \<and> d \<le> days))"

text \<open>The day of the year of a date, counted from zero, and its day number.\<close>

definition jewish_day :: "ymd \<Rightarrow> int" where
  "jewish_day = (\<lambda>(y, m, d). case jewish_month (year_days y) m of None \<Rightarrow> 0 | Some (before, _) \<Rightarrow> before + d - 1)"

lemma year_days_cases:
  "1 \<le> y \<Longrightarrow> year_months (y - 1) = 13 \<and> (year_days y = 383 \<or> year_days y = 384 \<or> year_days y = 385) \<or>
    year_months (y - 1) = 12 \<and> (year_days y = 353 \<or> year_days y = 354 \<or> year_days y = 355)"
  using year_length [of "y - 1"] year_months_cases [of "y - 1"] by (auto simp: year_days_def split: if_splits)

lemma jewish_day_range:
  assumes "jewish_exists (y, m, d)"
  shows "0 \<le> jewish_day (y, m, d)" "jewish_day (y, m, d) < year_days y" "1 \<le> m" "m \<le> 13" "1 \<le> d" "d \<le> 30"
  using year_days_cases [of y] assms
  by (auto simp: jewish_exists_def jewish_day_def jewish_month_def heshvan_days_def kislev_days_def split: if_splits)

text \<open>The month a day of the year belongs to.\<close>

definition month_of_day :: "int \<Rightarrow> int \<Rightarrow> int" where
  "month_of_day len n =
     (if n < 30 then 1 else if n < 30 + heshvan_days len then 2 else if n < 30 + heshvan_days len + kislev_days len then 3
      else if n < 59 + heshvan_days len + kislev_days len then 4 else if n < 89 + heshvan_days len + kislev_days len then 5
      else if n < len - 206 then 6 else if n < len - 177 then 7 else if n < len - 147 then 8 else if n < len - 118 then 9
      else if n < len - 88 then 10 else if n < len - 59 then 11 else if n < len - 29 then 12 else 13)"

lemma month_of_day_in:
  assumes "len = 383 \<or> len = 384 \<or> len = 385 \<or> len = 353 \<or> len = 354 \<or> len = 355"
    "jewish_month len m = Some (b, days)" "b \<le> n" "n < b + days"
  shows "month_of_day len n = m"
  using assms by (elim disjE; simp add: jewish_month_def heshvan_days_def kislev_days_def month_of_day_def split: if_splits)

lemma jewish_day_inj:
  assumes "jewish_exists (y, m, d)" "jewish_exists (y, m', d')" "jewish_day (y, m, d) = jewish_day (y, m', d')"
  shows "m = m' \<and> d = d'"
proof -
  obtain b n where m: "jewish_month (year_days y) m = Some (b, n)" "1 \<le> d" "d \<le> n" "1 \<le> y"
    using assms(1) by (auto simp: jewish_exists_def split: option.splits)
  obtain b' n' where m': "jewish_month (year_days y) m' = Some (b', n')" "1 \<le> d'" "d' \<le> n'"
    using assms(2) by (auto simp: jewish_exists_def split: option.splits)
  have len: "year_days y = 383 \<or> year_days y = 384 \<or> year_days y = 385 \<or> year_days y = 353 \<or> year_days y = 354 \<or> year_days y = 355"
    using year_days_cases [OF m(4)] by blast
  have e: "b + d - 1 = b' + d' - 1" using assms(3) m(1) m'(1) by (simp add: jewish_day_def)
  have "month_of_day (year_days y) (b + d - 1) = m" by (rule month_of_day_in [OF len m(1)]) (use m in simp_all)
  moreover have "month_of_day (year_days y) (b' + d' - 1) = m'" by (rule month_of_day_in [OF len m'(1)]) (use m' in simp_all)
  ultimately have "m = m'" using e by simp
  then show ?thesis using e m(1) m'(1) by simp
qed

subsection \<open>Dates to day numbers\<close>

lemma new_year_bounds: "0 \<le> k \<Longrightarrow> molad_day k \<le> new_year k \<and> new_year k \<le> molad_day k + 2"
  using new_year_delay [of k] delay_bounds by simp

lemma molad_day_bound: "0 \<le> k \<Longrightarrow> molad_day k \<le> 384 * k + 6600"
proof -
  assume "0 \<le> k"
  moreover have "yearOffset ! nat (k mod 19) \<le> 222"
    using mod19_cases [of k] unfolding insert_iff empty_iff by (elim disjE) (simp_all add: table_simps)
  moreover have "19 * (k div 19) \<le> k" "0 \<le> k div 19" using div_bounds [of 19 k] \<open>0 \<le> k\<close> by (simp_all add: pos_imp_zdiv_nonneg_iff)
  ultimately have "molad k \<le> 31524 + 765433 * (13 * k + 222)" unfolding molad_def by simp
  then show ?thesis using molad_at_day(1) [of k] \<open>0 \<le> k\<close> by (simp add: distrib_left)
qed

lemma start_of_year:
  assumes "1 \<le> y" "y < 2 ^ 22"
  shows "FindStartOfYear y = ((y - 1) div 19, (y - 1) mod 19, molad_day (y - 1), molad (y - 1) mod 25920, new_year (y - 1))"
    and "to_int (new_year (y - 1)) = new_year (y - 1)"
proof -
  have s: "(y - 1) sdiv 19 = (y - 1) div 19" "(y - 1) smod 19 = (y - 1) mod 19"
    using assms(1) by (cases "y = 1"; simp add: signed_divide_int_def signed_modulo_int_def)+
  have c: "0 \<le> (y - 1) div 19" "(y - 1) div 19 < 2 ^ 31"
    using assms div_bounds [of 19 "y - 1"] by (simp_all add: pos_imp_zdiv_nonneg_iff)
  have "molad_day (y - 1) < 2 ^ 31 - 2" using molad_day_bound [of "y - 1"] assms by simp
  then show i: "to_int (new_year (y - 1)) = new_year (y - 1)"
    using new_year_bounds [of "y - 1"] molad_day_nonneg [of "y - 1"] assms(1) by (intro to_int_id) simp_all
  show "FindStartOfYear y = ((y - 1) div 19, (y - 1) mod 19, molad_day (y - 1), molad (y - 1) mod 25920, new_year (y - 1))"
    using year_in_cycle [of "y - 1"] assms(1) i
    by (simp add: FindStartOfYear_def Let_def s cycle_start [OF c] molad_at_def new_year_def)
qed

lemma next_start:
  assumes "0 \<le> k" "k < 2 ^ 22 - 2"
  shows "(case add_halakim (HALAKIM_PER_LUNAR_CYCLE * monthsPerYear ! nat (k mod 19)) (molad_at k) of
    (d, h) \<Rightarrow> to_int (Tishri1 ((k mod 19 + 1) smod 19) d h)) = new_year (k + 1)"
proof -
  have "0 < k mod 19 + 1" using pos_mod_sign [of 19 k] by linarith
  then have "(k mod 19 + 1) smod 19 = (k mod 19 + 1) mod 19" by (simp add: signed_modulo_int_def)
  then have "(k mod 19 + 1) smod 19 = (k + 1) mod 19" by (simp only: mod_add_left_eq)
  then show ?thesis using next_year [OF assms(1)] start_of_year(2) [of "k + 2"] assms
    by (simp add: year_months_def molad_at_def new_year_def add.commute)
qed

lemma jewish_to_sdn:
  assumes "jewish_exists (y, m, d)" "y < 2 ^ 22 - 1"
  shows "JewishToSdn y m d = 347997 + new_year (y - 1) + jewish_day (y, m, d)"
proof -
  have y: "1 \<le> y" using assms(1) by (simp add: jewish_exists_def)
  have r: "\<not> (y \<le> 0 \<or> d \<le> 0 \<or> d > 30)" using jewish_day_range [OF assms(1)] y by simp
  note S = start_of_year [of y] start_of_year [of "y + 1"]
  have s: "FindStartOfYear y = ((y - 1) div 19, (y - 1) mod 19, molad_day (y - 1), molad (y - 1) mod 25920, new_year (y - 1))"
    "FindStartOfYear (y + 1) = (y div 19, y mod 19, molad_day y, molad y mod 25920, new_year y)"
    using S y assms(2) by simp_all
  have n: "(case add_halakim (HALAKIM_PER_LUNAR_CYCLE * monthsPerYear ! nat ((y - 1) mod 19)) (molad_day (y - 1), molad (y - 1) mod 25920) of
    (d, h) \<Rightarrow> to_int (Tishri1 (((y - 1) mod 19 + 1) smod 19) d h)) = new_year y"
    using next_start [of "y - 1"] y assms(2) by (simp add: molad_at_def)
  have sm: "(y - 1) smod 19 = (y - 1) mod 19" using y by (cases "y = 1") (simp_all add: signed_modulo_int_def)
  have t: "monthsPerYear ! nat ((y - 1) mod 19) = year_months (y - 1)" by (simp add: year_months_def)
  have l: "new_year y = new_year (y - 1) + year_days y" by (simp add: year_days_def)
  have m: "1 \<le> m" "m \<le> 13" using jewish_day_range [OF assms(1)] by simp_all
  show ?thesis
  proof (cases "m = 3")
    case True
    obtain d' h' where dh: "add_halakim (HALAKIM_PER_LUNAR_CYCLE * monthsPerYear ! nat ((y - 1) mod 19)) (molad_day (y - 1), molad (y - 1) mod 25920) = (d', h')"
      by fastforce
    have "to_int (Tishri1 (((y - 1) mod 19 + 1) smod 19) d' h') = new_year y" using n unfolding dh by simp
    then show ?thesis using True unfolding JewishToSdn_def if_not_P [OF r] s
      by (simp add: dh jewish_day_def jewish_month_def heshvan_days_def JEWISH_SDN_OFFSET_def year_days_def)
  next
    case False
    then have "m = 1 \<or> m = 2 \<or> m = 4 \<or> m = 5 \<or> m = 6 \<or> m = 7 \<or> m = 8 \<or> m = 9 \<or> m = 10 \<or> m = 11 \<or> m = 12 \<or> m = 13" using m by presburger
    then show ?thesis using year_days_cases [OF y] l assms(1) unfolding JewishToSdn_def if_not_P [OF r] s sm t
      by (elim disjE conjE; simp add: jewish_exists_def jewish_day_def jewish_month_def heshvan_days_def kislev_days_def JEWISH_SDN_OFFSET_def)
  qed
qed

subsection \<open>Day numbers to dates\<close>

definition is_day :: "int \<Rightarrow> int \<times> int \<Rightarrow> int \<Rightarrow> bool" where
  "is_day len date n \<longleftrightarrow> (case date of (m, d) \<Rightarrow>
     case jewish_month len m of None \<Rightarrow> False | Some (b, days) \<Rightarrow> 1 \<le> d \<and> d \<le> days \<and> b + d - 1 = n)"

lemma is_day_exists:
  assumes "is_day (year_days y) (m, d) n" "1 \<le> y"
  shows "jewish_exists (y, m, d)" "jewish_day (y, m, d) = n"
  using assms by (auto simp: is_day_def jewish_exists_def jewish_day_def split: option.splits)

lemma early_months_correct:
  assumes "len = 383 \<or> len = 384 \<or> len = 385 \<or> len = 353 \<or> len = 354 \<or> len = 355" "30 \<le> n" "n < 30 + heshvan_days len + kislev_days len"
  shows "is_day len (early_months (t + n) t (t + len)) n"
proof -
  have i: "to_int (n - 29) = n - 29" "to_int (n - 58) = n - 58" "to_int (n - 59) = n - 59"
    using assms(2,3) by (simp_all add: to_int_id heshvan_days_def kislev_days_def split: if_splits)
  show ?thesis using assms i
    by (elim disjE) (auto simp: early_months_def is_day_def jewish_month_def heshvan_days_def kislev_days_def Let_def)
qed

lemma late_months_correct:
  assumes "1 \<le> n" "n \<le> 177"
  shows "is_day len (late_months (t - n) t) (len - n)"
proof -
  have i: "to_int (x - n) = x - n" if "0 \<le> x" "x < 300" for x using assms that by (intro to_int_id) simp_all
  show ?thesis using assms by (auto simp: late_months_def is_day_def jewish_month_def i)
qed

lemma middle_months_correct:
  assumes "len = 383 \<or> len = 384 \<or> len = 385 \<or> len = 353 \<or> len = 354 \<or> len = 355" "178 \<le> n" "n \<le> 330"
  shows "case middle_months (len > 380) (t - n) t of
    (date, True) \<Rightarrow> is_day len date (len - n) | (_, False) \<Rightarrow> len - n < 30 + heshvan_days len + kislev_days len"
proof -
  have i: "to_int (207 - n) = 207 - n" using assms(2,3) by (intro to_int_id) simp_all
  show ?thesis using assms
    by (elim disjE) (auto simp: middle_months_def is_day_def jewish_month_def heshvan_days_def kislev_days_def i Let_def split: prod.splits bool.splits)
qed

lemma found_year:
  assumes "- 310 \<le> x" "x < 2 ^ 30"
  obtains k where "FindTishriMolad x = Some (k div 19, k mod 19, molad_day k, molad k mod 25920)" "0 \<le> k" "k < 2 ^ 22 - 4"
    "x - 75 \<le> molad_day k" "molad_day k \<le> x + 311" "to_int (Tishri1 (k mod 19) (molad_day k) (molad k mod 25920)) = new_year k"
proof -
  obtain k where k: "FindTishriMolad x = Some (k div 19, k mod 19, molad_at k)" "0 \<le> k" "x - 75 \<le> molad_day k" "molad_day k \<le> x + 311"
    using find_molad [of x] assms by auto
  have "12 * (k mod 19) \<le> yearOffset ! nat (k mod 19)"
    using mod19_cases [of k] unfolding insert_iff empty_iff by (elim disjE) (simp_all add: table_simps)
  moreover have "19 * (k div 19) + k mod 19 = k" "0 \<le> k div 19" using k(2) by (simp_all add: pos_imp_zdiv_nonneg_iff)
  ultimately have "12 * k \<le> 235 * (k div 19) + yearOffset ! nat (k mod 19)" by linarith
  then have "354 * k \<le> molad_day k" using molad_at_day(2) [of k] k(2) by (simp add: molad_def)
  then have b: "k < 2 ^ 22 - 4" using k(4) assms(2) by simp
  show ?thesis using that [of k] k b start_of_year(2) [of "k + 1"] by (simp add: molad_at_def new_year_def)
qed

lemma new_year_first: "new_year 0 = 1"
  using new_year_delay [of 0]
  by (simp add: new_year_def molad_day_def molad_def Tishri1_def Let_def to_int_mod table_simps jewish_simps)

lemma sdn_to_jewish:
  assumes "347997 < sdn" "sdn \<le> 324542846"
  obtains y m d where "SdnToJewish sdn = Some (y, m, d)" "jewish_exists (y, m, d)" "y < 2 ^ 22 - 1"
    "new_year (y - 1) + jewish_day (y, m, d) = sdn - 347997"
proof -
  note result = that
  define x where "x = sdn - 347997"
  have x: "1 \<le> x" "x < 2 ^ 29" using assms by (simp_all add: x_def)
  obtain k where k: "FindTishriMolad x = Some (k div 19, k mod 19, molad_day k, molad k mod 25920)" "0 \<le> k" "k < 2 ^ 22 - 4"
    "x - 75 \<le> molad_day k" "molad_day k \<le> x + 311" "to_int (Tishri1 (k mod 19) (molad_day k) (molad k mod 25920)) = new_year k"
    using found_year [of x] x by auto
  note nb = new_year_bounds [OF k(2)]
  have g: "\<not> (sdn \<le> JEWISH_SDN_OFFSET \<or> sdn > JEWISH_SDN_MAX)" using assms by (simp add: jewish_simps)
  have o: "sdn - JEWISH_SDN_OFFSET = x" by (simp add: x_def jewish_simps)
  have y: "k div 19 * 19 + k mod 19 = k" by simp
  note run = SdnToJewish_def if_not_P [OF g] Let_def o k(1) option.case prod.case k(6) y
  have finish: thesis if "SdnToJewish sdn = Some (y, md)" "is_day (year_days y) md n" "1 \<le> y" "y \<le> k + 1" "new_year (y - 1) + n = x" for y md n
  proof -
    obtain m d where md: "md = (m, d)" by fastforce
    note E = is_day_exists [OF that(2) [unfolded md] that(3)]
    show thesis
      by (rule result [OF that(1) [unfolded md] E(1)]) (use E(2) that(4,5) k(3) in \<open>simp_all add: x_def\<close>)
  qed
  show thesis
  proof (cases "new_year k \<le> x")
    case True
    define n where "n = x - new_year k"
    have n: "0 \<le> n" "n \<le> 75" "x = new_year k + n" using True k(4) nb by (simp_all add: n_def)
    define len where "len = year_days (k + 1)"
    have nk: "new_year (k + 1) = new_year k + len" by (simp add: len_def year_days_def)
    have len: "len = 383 \<or> len = 384 \<or> len = 385 \<or> len = 353 \<or> len = 354 \<or> len = 355"
      using year_days_cases [of "k + 1"] k(2) unfolding len_def by auto
    have i: "to_int (x - new_year k + 1) = n + 1" "to_int (x - new_year k - 29) = n - 29"
      using n by (simp_all add: to_int_id)
    consider "n < 30" | "30 \<le> n" "n < 59" | "59 \<le> n" by linarith
    then show thesis
    proof cases
      case 1
      then have "SdnToJewish sdn = Some (k + 1, 1, n + 1)" unfolding run if_P [OF True] i using n by simp
      moreover have "is_day len (1, n + 1) n" using 1 n by (simp add: is_day_def jewish_month_def)
      ultimately show thesis using n k(2) unfolding len_def by (intro finish [of "k + 1" "(1, n + 1)" n]) simp_all
    next
      case 2
      then have "SdnToJewish sdn = Some (k + 1, 2, n - 29)" unfolding run if_P [OF True] i using n by simp
      moreover have "is_day len (2, n - 29) n" using 2 n by (simp add: is_day_def jewish_month_def heshvan_days_def)
      ultimately show thesis using n k(2) unfolding len_def by (intro finish [of "k + 1" "(2, n - 29)" n]) simp_all
    next
      case 3
      obtain d' h' where dh: "add_halakim (HALAKIM_PER_LUNAR_CYCLE * monthsPerYear ! nat (k mod 19)) (molad_day k, molad k mod 25920) = (d', h')"
        by fastforce
      have t: "to_int (Tishri1 ((k mod 19 + 1) smod 19) d' h') = new_year (k + 1)"
        using next_start [of k] k(2,3) dh by (simp add: molad_at_def)
      have "SdnToJewish sdn = Some (k + 1, early_months x (new_year k) (new_year k + len))"
        unfolding run if_P [OF True] dh t nk using 3 n by simp
      moreover have "is_day len (early_months x (new_year k) (new_year k + len)) n"
        unfolding n(3) using 3 n by (intro early_months_correct [OF len]) (auto simp: heshvan_days_def kislev_days_def)
      ultimately show thesis using n k(2) unfolding len_def by (intro finish [of "k + 1" _ n]) simp_all
    qed
  next
    case False
    have k1: "1 \<le> k" using False new_year_first x(1) k(2) by (cases "k = 0") auto
    define n where "n = new_year k - x"
    have n: "1 \<le> n" "n \<le> 313" "x = new_year k - n" using False k(5) nb by (simp_all add: n_def)
    define len where "len = year_days k"
    have nk: "new_year k = new_year (k - 1) + len" by (simp add: len_def year_days_def)
    have len: "len = 383 \<or> len = 384 \<or> len = 385 \<or> len = 353 \<or> len = 354 \<or> len = 355"
      and leap: "(monthsPerYear ! nat ((k - 1) smod 19) = 13) = (len > 380)"
    proof -
      have "(k - 1) smod 19 = (k - 1) mod 19" using k1 by (cases "k = 1") (simp_all add: signed_modulo_int_def)
      then have "monthsPerYear ! nat ((k - 1) smod 19) = year_months (k - 1)" by (simp add: year_months_def)
      then show "len = 383 \<or> len = 384 \<or> len = 385 \<or> len = 353 \<or> len = 354 \<or> len = 355"
        "(monthsPerYear ! nat ((k - 1) smod 19) = 13) = (len > 380)"
        using year_days_cases [OF k1] unfolding len_def by auto
    qed
    have b: "new_year (k - 1) + (len - n) = x" using nk n by simp
    obtain md returned where mm: "middle_months (len > 380) x (new_year k) = (md, returned)" by fastforce
    consider "n \<le> 177" | "178 \<le> n" "middle_months (len > 380) x (new_year k) = (md, True)"
      | "178 \<le> n" "middle_months (len > 380) x (new_year k) = (md, False)"
      using mm by (cases "n \<le> 177"; cases returned) auto
    then show thesis
    proof cases
      case 1
      then have "SdnToJewish sdn = Some (k, late_months x (new_year k))" unfolding run if_not_P [OF False] using n by simp
      moreover have "is_day len (late_months x (new_year k)) (len - n)" unfolding n(3) using n(1) 1 by (rule late_months_correct)
      ultimately show thesis using b k1 unfolding len_def by (intro finish [of k _ "len - n"]) (simp_all add: len_def)
    next
      case 2
      then have "SdnToJewish sdn = Some (k, md)" unfolding run if_not_P [OF False] leap 2(2) using n by simp
      moreover have "is_day len md (len - n)"
        using middle_months_correct [OF len 2(1), of "new_year k"] n(2) 2(2) unfolding n(3) [symmetric] by simp
      ultimately show thesis using b k1 unfolding len_def by (intro finish [of k _ "len - n"]) (simp_all add: len_def)
    next
      case 3
      have early: "len - n < 30 + heshvan_days len + kislev_days len"
        using middle_months_correct [OF len 3(1), of "new_year k"] n(2) 3(2) unfolding n(3) [symmetric] by simp
      have m0: "molad_day 0 = 1" by (simp add: molad_day_def molad_def table_simps)
      have "355 \<le> molad_day k" using molad_day_less [of 0 k] k1 m0 by simp
      then obtain j where j: "FindTishriMolad (molad_day k - 365) = Some (j div 19, j mod 19, molad_day j, molad j mod 25920)" "0 \<le> j"
        "molad_day k - 440 \<le> molad_day j" "molad_day j \<le> molad_day k - 54" "to_int (Tishri1 (j mod 19) (molad_day j) (molad j mod 25920)) = new_year j"
        using found_year [of "molad_day k - 365"] k(5) x(2) by auto
      have "j = k - 1"
        using molad_day_less [of k j] molad_day_less [of j "k - 1"] molad_day_Suc(1) [of "k - 1"] j(3,4) by (cases "j < k - 1"; cases "k < j"; cases "j = k") auto
      then have "SdnToJewish sdn = Some (k, early_months x (new_year (k - 1)) (new_year k))"
        unfolding run if_not_P [OF False] leap 3(2) j(1) j(5) using n 3(1) by simp
      moreover have "is_day len (early_months x (new_year (k - 1)) (new_year k)) (len - n)"
        unfolding b [symmetric] nk using early len n(2) by (intro early_months_correct [OF len]) auto
      ultimately show thesis using b k1 unfolding len_def by (intro finish [of k _ "len - n"]) (simp_all add: len_def)
    qed
  qed
qed

subsection \<open>Both ways\<close>

lemma jewish_to_date:
  assumes "347997 < sdn" "sdn \<le> 324542846"
  shows "case SdnToJewish sdn of None \<Rightarrow> False | Some (y, m, d) \<Rightarrow> jewish_exists (y, m, d) \<and> JewishToSdn y m d = sdn"
proof -
  obtain y m d where "SdnToJewish sdn = Some (y, m, d)" "jewish_exists (y, m, d)" "y < 2 ^ 22 - 1"
    "new_year (y - 1) + jewish_day (y, m, d) = sdn - 347997" by (rule sdn_to_jewish [OF assms])
  then show ?thesis using jewish_to_sdn [of y m d] by simp
qed

lemma new_year_less: "0 \<le> j \<Longrightarrow> j < k \<Longrightarrow> new_year (j + 1) \<le> new_year k"
proof (induction "nat (k - j)" arbitrary: k)
  case (Suc n)
  show ?case
  proof (cases "k = j + 1")
    case False
    then have "new_year (j + 1) \<le> new_year (k - 1)" using Suc(2-4) by (intro Suc(1)) simp_all
    moreover have "new_year (k - 1) \<le> new_year k" using year_length [of "k - 1"] Suc(3,4) by (auto split: if_splits)
    ultimately show ?thesis by simp
  qed simp
qed simp

lemma jewish_from_date:
  assumes "jewish_exists (y, m, d)" "y < 2 ^ 22 - 1" "JewishToSdn y m d \<le> 324542846"
  shows "SdnToJewish (JewishToSdn y m d) = Some (y, m, d)"
proof -
  have y: "1 \<le> y" using assms(1) by (simp add: jewish_exists_def)
  define s where "s = JewishToSdn y m d"
  have s: "s = 347997 + new_year (y - 1) + jewish_day (y, m, d)" unfolding s_def by (rule jewish_to_sdn [OF assms(1,2)])
  note r = jewish_day_range [OF assms(1)]
  have "1 \<le> new_year (y - 1)" using new_year_less [of 0 "y - 1"] year_length [of 0] new_year_first y
    by (cases "y = 1") (auto split: if_splits)
  then have "347997 < s" using s r(1) by simp
  then obtain y' m' d' where j: "SdnToJewish s = Some (y', m', d')" "jewish_exists (y', m', d')"
    "new_year (y' - 1) + jewish_day (y', m', d') = s - 347997"
    using sdn_to_jewish [of s] assms(3) unfolding s_def by blast
  have y': "1 \<le> y'" using j(2) by (simp add: jewish_exists_def)
  note r' = jewish_day_range [OF j(2)]
  have "y' = y"
  proof (rule ccontr)
    assume "y' \<noteq> y"
    then consider "y - 1 < y' - 1" | "y' - 1 < y - 1" by linarith
    then show False
    proof cases
      case 1
      from new_year_less [OF _ this] show False using y r r' j(3) s by (simp add: year_days_def)
    next
      case 2
      from new_year_less [OF _ this] show False using y' r r' j(3) s by (simp add: year_days_def)
    qed
  qed
  moreover have "m' = m \<and> d' = d" using jewish_day_inj [of y m' d' m d] j(2,3) assms(1) s calculation by simp
  ultimately show ?thesis using j(1) unfolding s_def by simp
qed

end
