(* ===== verification/CalFunctions.thy ===== *)
theory CalFunctions
  imports CalEaster CalJewishDates
begin

text \<open>
  The functions of the calendar extension (\<open>calendar.c\<close>, \<open>cal_unix.c\<close>) over the conversions: the table of
  calendars, the days of a month, dates as text, names of months and days, Hebrew numerals, and timestamps.

  Arguments are \<open>zend_long\<close> numbers; the conversions to a day number take \<open>int\<close> ones, and \<open>to_int\<close> is
  written where the code passes a \<open>zend_long\<close> to them. Texts are strings of bytes (ISO-8859-8 for Hebrew);
  \<open>print_int\<close> is what the format \<open>%i\<close> prints.
\<close>

subsection \<open>Names\<close>

definition MonthNameShort :: "string list" where
  "MonthNameShort = ['''', ''Jan'', ''Feb'', ''Mar'', ''Apr'', ''May'', ''Jun'', ''Jul'', ''Aug'', ''Sep'', ''Oct'', ''Nov'', ''Dec'']"

definition MonthNameLong :: "string list" where
  "MonthNameLong = ['''', ''January'', ''February'', ''March'', ''April'', ''May'', ''June'', ''July'', ''August'', ''September'', ''October'', ''November'', ''December'']"

definition FrenchMonthName :: "string list" where
  "FrenchMonthName = ['''', ''Vendemiaire'', ''Brumaire'', ''Frimaire'', ''Nivose'', ''Pluviose'', ''Ventose'', ''Germinal'', ''Floreal'', ''Prairial'', ''Messidor'', ''Thermidor'', ''Fructidor'', ''Extra'']"

definition DayNameShort :: "string list" where
  "DayNameShort = [''Sun'', ''Mon'', ''Tue'', ''Wed'', ''Thu'', ''Fri'', ''Sat'']"

definition DayNameLong :: "string list" where
  "DayNameLong = [''Sunday'', ''Monday'', ''Tuesday'', ''Wednesday'', ''Thursday'', ''Friday'', ''Saturday'']"

definition JewishMonthNameLeap :: "string list" where
  "JewishMonthNameLeap = ['''', ''Tishri'', ''Heshvan'', ''Kislev'', ''Tevet'', ''Shevat'', ''Adar I'', ''Adar II'', ''Nisan'', ''Iyyar'', ''Sivan'', ''Tammuz'', ''Av'', ''Elul'']"

definition JewishMonthName :: "string list" where
  "JewishMonthName = ['''', ''Tishri'', ''Heshvan'', ''Kislev'', ''Tevet'', ''Shevat'', '''', ''Adar'', ''Nisan'', ''Iyyar'', ''Sivan'', ''Tammuz'', ''Av'', ''Elul'']"

definition JewishMonthHebNameLeap :: "string list" where
  "JewishMonthHebNameLeap =
   [[],
    [CHR 0xFA, CHR 0xF9, CHR 0xF8, CHR 0xE9],
    [CHR 0xE7, CHR 0xF9, CHR 0xE5, CHR 0xEF],
    [CHR 0xEB, CHR 0xF1, CHR 0xEC, CHR 0xE5],
    [CHR 0xE8, CHR 0xE1, CHR 0xFA],
    [CHR 0xF9, CHR 0xE1, CHR 0xE8],
    [CHR 0xE0, CHR 0xE3, CHR 0xF8, CHR 0x20, CHR 0xE0, CHR 0x27],
    [CHR 0xE0, CHR 0xE3, CHR 0xF8, CHR 0x20, CHR 0xE1, CHR 0x27],
    [CHR 0xF0, CHR 0xE9, CHR 0xF1, CHR 0xEF],
    [CHR 0xE0, CHR 0xE9, CHR 0xE9, CHR 0xF8],
    [CHR 0xF1, CHR 0xE9, CHR 0xE5, CHR 0xEF],
    [CHR 0xFA, CHR 0xEE, CHR 0xE5, CHR 0xE6],
    [CHR 0xE0, CHR 0xE1],
    [CHR 0xE0, CHR 0xEC, CHR 0xE5, CHR 0xEC]]"

definition JewishMonthHebName :: "string list" where
  "JewishMonthHebName =
   [[],
    [CHR 0xFA, CHR 0xF9, CHR 0xF8, CHR 0xE9],
    [CHR 0xE7, CHR 0xF9, CHR 0xE5, CHR 0xEF],
    [CHR 0xEB, CHR 0xF1, CHR 0xEC, CHR 0xE5],
    [CHR 0xE8, CHR 0xE1, CHR 0xFA],
    [CHR 0xF9, CHR 0xE1, CHR 0xE8],
    [],
    [CHR 0xE0, CHR 0xE3, CHR 0xF8],
    [CHR 0xF0, CHR 0xE9, CHR 0xF1, CHR 0xEF],
    [CHR 0xE0, CHR 0xE9, CHR 0xE9, CHR 0xF8],
    [CHR 0xF1, CHR 0xE9, CHR 0xE5, CHR 0xEF],
    [CHR 0xFA, CHR 0xEE, CHR 0xE5, CHR 0xE6],
    [CHR 0xE0, CHR 0xE1],
    [CHR 0xE0, CHR 0xEC, CHR 0xE5, CHR 0xEC]]"

definition JEWISH_MONTH_NAME :: "int \<Rightarrow> string list" where
  "JEWISH_MONTH_NAME year = (if monthsPerYear ! nat ((year - 1) smod 19) = 13 then JewishMonthNameLeap else JewishMonthName)"

definition JEWISH_HEB_MONTH_NAME :: "int \<Rightarrow> string list" where
  "JEWISH_HEB_MONTH_NAME year = (if monthsPerYear ! nat ((year - 1) smod 19) = 13 then JewishMonthHebNameLeap else JewishMonthHebName)"

subsection \<open>The table of calendars\<close>

definition CAL_GREGORIAN :: int where "CAL_GREGORIAN = 0"
definition CAL_JULIAN :: int where "CAL_JULIAN = 1"
definition CAL_JEWISH :: int where "CAL_JEWISH = 2"
definition CAL_FRENCH :: int where "CAL_FRENCH = 3"
definition CAL_NUM_CALS :: int where "CAL_NUM_CALS = 4"

record cal_entry_t =
  name :: string
  symbol :: string
  to_jd :: "int \<Rightarrow> int \<Rightarrow> int \<Rightarrow> int"
  from_jd :: "int \<Rightarrow> ymd option"
  num_months :: nat
  max_days_in_month :: int
  month_name_short :: "string list"
  month_name_long :: "string list"

definition cal_conversion_table :: "cal_entry_t list" where
  "cal_conversion_table =
     [\<lparr> name = ''Gregorian'', symbol = ''CAL_GREGORIAN'', to_jd = GregorianToSdn, from_jd = (\<lambda>sdn. Some (SdnToGregorian sdn)),
        num_months = 12, max_days_in_month = 31, month_name_short = MonthNameShort, month_name_long = MonthNameLong \<rparr>,
      \<lparr> name = ''Julian'', symbol = ''CAL_JULIAN'', to_jd = JulianToSdn, from_jd = (\<lambda>sdn. Some (SdnToJulian sdn)),
        num_months = 12, max_days_in_month = 31, month_name_short = MonthNameShort, month_name_long = MonthNameLong \<rparr>,
      \<lparr> name = ''Jewish'', symbol = ''CAL_JEWISH'', to_jd = JewishToSdn, from_jd = SdnToJewish,
        num_months = 13, max_days_in_month = 30, month_name_short = JewishMonthNameLeap, month_name_long = JewishMonthNameLeap \<rparr>,
      \<lparr> name = ''French'', symbol = ''CAL_FRENCH'', to_jd = FrenchToSdn, from_jd = (\<lambda>sdn. Some (SdnToFrench sdn)),
        num_months = 13, max_days_in_month = 30, month_name_short = FrenchMonthName, month_name_long = FrenchMonthName \<rparr>]"

datatype cal_error = cal_argument_error nat string | cal_value_error string

definition cal_entry :: "int \<Rightarrow> nat \<Rightarrow> cal_error + cal_entry_t" where
  "cal_entry cal argument =
     (if cal < 0 \<or> cal \<ge> CAL_NUM_CALS then Inl (cal_argument_error argument ''must be a valid calendar ID'')
      else Inr (cal_conversion_table ! nat cal))"

subsection \<open>Information, days of a month, conversions\<close>

record calendar_info =
  months :: "(nat \<times> string) list"
  abbrevmonths :: "(nat \<times> string) list"
  maxdaysinmonth :: int
  calname :: string
  calsymbol :: string

definition php_cal_info :: "nat \<Rightarrow> calendar_info" where
  "php_cal_info cal =
     (let calendar = cal_conversion_table ! cal
      in \<lparr> months = map (\<lambda>i. (i, month_name_long calendar ! i)) [1..<num_months calendar + 1],
           abbrevmonths = map (\<lambda>i. (i, month_name_short calendar ! i)) [1..<num_months calendar + 1],
           maxdaysinmonth = max_days_in_month calendar, calname = name calendar, calsymbol = symbol calendar \<rparr>)"

text \<open>The information on every calendar, or on one.\<close>

definition cal_info :: "int \<Rightarrow> cal_error + (nat \<times> calendar_info) list + calendar_info" where
  "cal_info cal =
     (if cal = - 1 then Inr (Inl (map (\<lambda>i. (i, php_cal_info i)) [0..<nat CAL_NUM_CALS]))
      else if cal < 0 \<or> cal \<ge> CAL_NUM_CALS then Inl (cal_argument_error 1 ''must be a valid calendar ID'')
      else Inr (Inr (php_cal_info (nat cal))))"

definition cal_days_in_month :: "int \<Rightarrow> int \<Rightarrow> int \<Rightarrow> cal_error + int" where
  "cal_days_in_month cal month year =
     (case cal_entry cal 1 of
        Inl e \<Rightarrow> Inl e
      | Inr calendar \<Rightarrow>
          (let sdn_start = to_jd calendar (to_int year) (to_int month) 1
           in if sdn_start = 0 then Inl (cal_value_error ''Invalid date'')
              else (let sdn_next = to_jd calendar (to_int year) (to_int (1 + month)) 1;
                        sdn_next =
                          (if sdn_next = 0
                           then if year = - 1 then to_jd calendar 1 1 1
                                else (let sdn_next = to_jd calendar (to_int (year + 1)) 1 1
                                      in if cal = CAL_FRENCH \<and> sdn_next = 0 then 2380953 else sdn_next)
                           else sdn_next)
                    in Inr (sdn_next - sdn_start))))"

definition cal_to_jd :: "int \<Rightarrow> int \<Rightarrow> int \<Rightarrow> int \<Rightarrow> cal_error + int" where
  "cal_to_jd cal month day year =
     (case cal_entry cal 1 of Inl e \<Rightarrow> Inl e | Inr calendar \<Rightarrow> Inr (to_jd calendar (to_int year) (to_int month) (to_int day)))"

fun print_digits :: "nat \<Rightarrow> string" where
  "print_digits n = (if n < 10 then [char_of (48 + n)] else print_digits (n div 10) @ [char_of (48 + n mod 10)])"

declare print_digits.simps [simp del]

definition print_int :: "int \<Rightarrow> string" where
  "print_int i = (if i < 0 then CHR 0x2D # print_digits (nat (- i)) else print_digits (nat i))"

text \<open>The format \<open>%i/%i/%i\<close>.\<close>

definition print_date :: "ymd \<Rightarrow> string" where
  "print_date = (\<lambda>(year, month, day). print_int month @ CHR 0x2F # print_int day @ CHR 0x2F # print_int year)"

record jd_info =
  jd_date :: string
  jd_month :: int
  jd_day :: int
  jd_year :: int
  dow :: "int option"
  abbrevdayname :: string
  dayname :: string
  abbrevmonth :: string
  monthname :: string

definition cal_from_jd :: "int \<Rightarrow> int \<Rightarrow> (cal_error + jd_info) option" where
  "cal_from_jd jd cal =
     (case cal_entry cal 2 of
        Inl e \<Rightarrow> Some (Inl e)
      | Inr calendar \<Rightarrow>
          map_option (\<lambda>(year, month, day).
            let (day_of_week, short_day, long_day) =
                  (if cal \<noteq> CAL_JEWISH \<or> year > 0
                   then (Some (DayOfWeek jd), DayNameShort ! nat (DayOfWeek jd), DayNameLong ! nat (DayOfWeek jd))
                   else (None, [], []));
                (short_month, long_month) =
                  (if cal = CAL_JEWISH
                   then (if year > 0 then JEWISH_MONTH_NAME year ! nat month else [], if year > 0 then JEWISH_MONTH_NAME year ! nat month else [])
                   else (month_name_short calendar ! nat month, month_name_long calendar ! nat month))
            in Inr \<lparr> jd_date = print_date (year, month, day), jd_month = month, jd_day = day, jd_year = year,
                     dow = day_of_week, abbrevdayname = short_day, dayname = long_day,
                     abbrevmonth = short_month, monthname = long_month \<rparr>) (from_jd calendar jd))"

definition jdtogregorian :: "int \<Rightarrow> string" where "jdtogregorian julday = print_date (SdnToGregorian julday)"

definition gregoriantojd :: "int \<Rightarrow> int \<Rightarrow> int \<Rightarrow> int" where
  "gregoriantojd month day year = GregorianToSdn (to_int year) (to_int month) (to_int day)"

definition jdtojulian :: "int \<Rightarrow> string" where "jdtojulian julday = print_date (SdnToJulian julday)"

definition juliantojd :: "int \<Rightarrow> int \<Rightarrow> int \<Rightarrow> int" where
  "juliantojd month day year = JulianToSdn (to_int year) (to_int month) (to_int day)"

definition jewishtojd :: "int \<Rightarrow> int \<Rightarrow> int \<Rightarrow> int" where
  "jewishtojd month day year = JewishToSdn (to_int year) (to_int month) (to_int day)"

definition jdtofrench :: "int \<Rightarrow> string" where "jdtofrench julday = print_date (SdnToFrench julday)"

definition frenchtojd :: "int \<Rightarrow> int \<Rightarrow> int \<Rightarrow> int" where
  "frenchtojd month day year = FrenchToSdn (to_int year) (to_int month) (to_int day)"

subsection \<open>Hebrew numerals\<close>

definition alef_bet :: string where
  "alef_bet = [CHR 0x30, CHR 0xE0, CHR 0xE1, CHR 0xE2, CHR 0xE3, CHR 0xE4, CHR 0xE5, CHR 0xE6, CHR 0xE7, CHR 0xE8, CHR 0xE9, CHR 0xEB, CHR 0xEC, CHR 0xEE, CHR 0xF0, CHR 0xF1, CHR 0xF2, CHR 0xF4, CHR 0xF6, CHR 0xF7, CHR 0xF8, CHR 0xF9, CHR 0xFA]"

definition CAL_JEWISH_ADD_ALAFIM_GERESH :: int where "CAL_JEWISH_ADD_ALAFIM_GERESH = 2"
definition CAL_JEWISH_ADD_ALAFIM :: int where "CAL_JEWISH_ADD_ALAFIM = 4"
definition CAL_JEWISH_ADD_GERESHAYIM :: int where "CAL_JEWISH_ADD_GERESHAYIM = 8"

text \<open>The buffer \<open>old\<close> is the list of the bytes written so far; \<open>p\<close> is its end.\<close>

function heb_tav :: "int \<Rightarrow> string \<Rightarrow> int \<times> string" where
  "heb_tav n old = (if n \<ge> 400 then heb_tav (n - 400) (old @ [alef_bet ! 22]) else (n, old))"
  by pat_completeness auto
termination by (relation "measure (\<lambda>(n, _). nat n)") auto

declare heb_tav.simps [simp del]

definition heb_number_to_chars :: "int \<Rightarrow> int \<Rightarrow> string option" where
  "heb_number_to_chars n fl =
     (if n > 9999 \<or> n < 1 then None
      else (let (old, n) =
                  (if n sdiv 1000 \<noteq> 0
                   then ([alef_bet ! nat (n sdiv 1000)] @
                         (if CAL_JEWISH_ADD_ALAFIM_GERESH AND fl \<noteq> 0 then [CHR 0x27] else []) @
                         (if CAL_JEWISH_ADD_ALAFIM AND fl \<noteq> 0 then [CHR 0x20, CHR 0xE0, CHR 0xEC, CHR 0xF4, CHR 0xE9, CHR 0xED, CHR 0x20] else []),
                         n smod 1000)
                   else ([], n));
                endofalafim = length old;
                (n, old) = heb_tav n old;
                (n, old) = (if n \<ge> 100 then (n smod 100, old @ [alef_bet ! nat (18 + n sdiv 100)]) else (n, old));
                old =
                  (if n = 15 \<or> n = 16 then old @ [alef_bet ! 9] @ [alef_bet ! nat (n - 9)]
                   else (let (n, old) = (if n \<ge> 10 then (n smod 10, old @ [alef_bet ! nat (9 + n sdiv 10)]) else (n, old))
                         in if n > 0 then old @ [alef_bet ! nat n] else old));
                old =
                  (if CAL_JEWISH_ADD_GERESHAYIM AND fl \<noteq> 0
                   then if length old - endofalafim = 0 then old
                        else if length old - endofalafim = 1 then old @ [CHR 0x27]
                        else butlast old @ [CHR 0x22] @ [last old]
                   else old)
            in Some old))"

definition jdtojewish :: "int \<Rightarrow> bool \<Rightarrow> int \<Rightarrow> (cal_error + string) option" where
  "jdtojewish julday heb fl =
     (case SdnToJewish julday of
        None \<Rightarrow> None
      | Some (year, month, day) \<Rightarrow>
          if \<not> heb then Some (Inr (print_date (year, month, day)))
          else if year \<le> 0 \<or> year > 9999 then Some (Inl (cal_value_error ''Year out of range (0-9999)''))
          else (case (heb_number_to_chars day (to_int fl), heb_number_to_chars year (to_int fl)) of
                  (Some dayp, Some yearp) \<Rightarrow>
                    Some (Inr (dayp @ CHR 0x20 # JEWISH_HEB_MONTH_NAME year ! nat month @ CHR 0x20 # yearp))
                | _ \<Rightarrow> None))"

subsection \<open>Names for a day number\<close>

definition CAL_DOW_DAYNO :: int where "CAL_DOW_DAYNO = 0"
definition CAL_DOW_LONG :: int where "CAL_DOW_LONG = 1"
definition CAL_DOW_SHORT :: int where "CAL_DOW_SHORT = 2"

definition jddayofweek :: "int \<Rightarrow> int \<Rightarrow> string + int" where
  "jddayofweek julday mode =
     (let day = DayOfWeek julday;
          daynamel = DayNameLong ! nat day;
          daynames = DayNameShort ! nat day
      in if mode = CAL_DOW_LONG then Inl daynamel
         else if mode = CAL_DOW_SHORT then Inl daynames
         else Inr day)"

definition CAL_MONTH_GREGORIAN_SHORT :: int where "CAL_MONTH_GREGORIAN_SHORT = 0"
definition CAL_MONTH_GREGORIAN_LONG :: int where "CAL_MONTH_GREGORIAN_LONG = 1"
definition CAL_MONTH_JULIAN_SHORT :: int where "CAL_MONTH_JULIAN_SHORT = 2"
definition CAL_MONTH_JULIAN_LONG :: int where "CAL_MONTH_JULIAN_LONG = 3"
definition CAL_MONTH_JEWISH :: int where "CAL_MONTH_JEWISH = 4"
definition CAL_MONTH_FRENCH :: int where "CAL_MONTH_FRENCH = 5"

definition jdmonthname :: "int \<Rightarrow> int \<Rightarrow> string option" where
  "jdmonthname julday mode =
     (if mode = CAL_MONTH_GREGORIAN_LONG
      then (case SdnToGregorian julday of (year, month, day) \<Rightarrow> Some (MonthNameLong ! nat month))
      else if mode = CAL_MONTH_JULIAN_SHORT
      then (case SdnToJulian julday of (year, month, day) \<Rightarrow> Some (MonthNameShort ! nat month))
      else if mode = CAL_MONTH_JULIAN_LONG
      then (case SdnToJulian julday of (year, month, day) \<Rightarrow> Some (MonthNameLong ! nat month))
      else if mode = CAL_MONTH_JEWISH
      then map_option (\<lambda>(year, month, day). if year > 0 then JEWISH_MONTH_NAME year ! nat month else []) (SdnToJewish julday)
      else if mode = CAL_MONTH_FRENCH
      then (case SdnToFrench julday of (year, month, day) \<Rightarrow> Some (FrenchMonthName ! nat month))
      else (case SdnToGregorian julday of (year, month, day) \<Rightarrow> Some (MonthNameShort ! nat month)))"

subsection \<open>Timestamps\<close>

definition SECS_PER_DAY :: int where "SECS_PER_DAY = 24 * 3600"

text \<open>
  \<open>php_localtime_r\<close>, an argument, gives the fields \<open>tm_year\<close>, \<open>tm_mon\<close>, \<open>tm_mday\<close> of a timestamp, or fails; \<open>now\<close>
  is the current time.
\<close>

definition unixtojd :: "(int \<Rightarrow> (int \<times> int \<times> int) option) \<Rightarrow> int \<Rightarrow> int option \<Rightarrow> cal_error + int option" where
  "unixtojd php_localtime_r now timestamp =
     (let to_sdn = (\<lambda>ts. case php_localtime_r ts of
            None \<Rightarrow> Inr None
          | Some (tm_year, tm_mon, tm_mday) \<Rightarrow> Inr (Some (GregorianToSdn (tm_year + 1900) (tm_mon + 1) tm_mday)))
      in case timestamp of
           None \<Rightarrow> to_sdn now
         | Some timestamp \<Rightarrow> if timestamp \<ge> 0 then to_sdn timestamp else Inl (cal_argument_error 1 ''must be greater than or equal to 0''))"

definition jdtounix :: "int \<Rightarrow> cal_error + int" where
  "jdtounix uday =
     (if uday < 2440588 \<or> uday - 2440588 > CLONG_MAX div SECS_PER_DAY
      then Inl (cal_value_error (''jday must be between 2440588 and '' @ print_int (CLONG_MAX div SECS_PER_DAY + 2440588)))
      else (let uday = uday - 2440588 in Inr (uday * SECS_PER_DAY)))"

end
