(* ===== verification/CalMonths.thy ===== *)
theory CalMonths
  imports CalFunctions
begin

text \<open>
  The days of a month: \<open>cal_days_in_month\<close> subtracts the day numbers of the first days of two months. The
  Gregorian and the Julian calendar share the months and differ in the leap years: the locale
  \<open>civil_calendar\<close> states what is needed of the conversion, and is interpreted on both.
\<close>

locale civil_calendar =
  fixes to_sdn :: "int \<Rightarrow> int \<Rightarrow> int \<Rightarrow> int" and base :: "int \<Rightarrow> int" and leap :: "int \<Rightarrow> bool"
  assumes first_of_month: "march_year y m = (year, mon) \<Longrightarrow> y \<noteq> 0 \<Longrightarrow> 1 \<le> m \<Longrightarrow> m \<le> 12 \<Longrightarrow> 0 \<le> year \<Longrightarrow>
      to_sdn y m 1 = max 0 (base year + (mon * 153 + 2) div 5)"
    and base_step: "base (year + 1) = base year + (if leap (year + 1) then 366 else 365)"
    and first_year: "0 < to_sdn y m 1 \<Longrightarrow> - 4714 \<le> y"
begin

lemma same_march_year:
  assumes "march_year y m = (year, mon)" "march_year y' m' = (year, mon + 1)" "y \<noteq> 0" "y' \<noteq> 0" "1 \<le> m" "m \<le> 12" "1 \<le> m'" "m' \<le> 12"
    "m \<noteq> 2" "0 < to_sdn y m 1" "0 \<le> year"
  shows "to_sdn y' m' 1 = to_sdn y m 1 + month_length l m"
proof -
  have mon: "mon = (if m > 2 then m - 3 else m + 9)" using march_yearD(3) [OF assms(1)] .
  have l: "(153 * (mon + 1) + 2) div 5 - (153 * mon + 2) div 5 = month_length l m"
    by (rule march_month_length(4) [OF assms(5,6) mon assms(9)])
  have "0 \<le> month_length l m" by (simp add: month_length_def)
  then show ?thesis
    using first_of_month [OF assms(1,3,5,6,11)] first_of_month [OF assms(2,4,7,8,11)] l assms(10) by (simp add: mult.commute)
qed

lemma next_month:
  assumes "y \<noteq> 0" "1 \<le> m" "m \<le> 12" "0 < to_sdn y m 1"
  shows "m < 12 \<Longrightarrow> to_sdn y (m + 1) 1 = to_sdn y m 1 + month_length (leap (astronomical y + 4800)) m"
    and "m = 12 \<Longrightarrow> to_sdn (if y = - 1 then 1 else y + 1) 1 1 = to_sdn y m 1 + month_length (leap (astronomical y + 4800)) m"
proof -
  have y: "- 4714 \<le> y" by (rule first_year [OF assms(4)])
  obtain year mon where my: "march_year y m = (year, mon)" by fastforce
  note D = march_yearD [OF my]
  have year: "0 \<le> year" using D(1,2) y by (cases "y < 0") (auto split: if_splits)
  show "to_sdn y (m + 1) 1 = to_sdn y m 1 + month_length (leap (astronomical y + 4800)) m" if "m < 12"
  proof (cases "m = 2")
    case True
    have n: "march_year y (m + 1) = (year + 1, 0)" using D True assms(1) by (simp add: march_year_def Let_def)
    have l: "astronomical y + 4800 = year + 1" using D(1,2) True assms(1) by (auto simp: astronomical_def)
    show ?thesis unfolding l
      using first_of_month [OF my assms(1-3) year] first_of_month [OF n assms(1)] base_step [of year] D(3) year True assms(4)
      by (auto simp: month_length_def)
  next
    case False
    have "march_year y (m + 1) = (year, mon + 1)"
      using my False assms(2) by (auto simp: march_year_def Let_def split: if_splits)
    then show ?thesis using that assms year False by (intro same_march_year [OF my]) simp_all
  qed
  show "to_sdn (if y = - 1 then 1 else y + 1) 1 1 = to_sdn y m 1 + month_length (leap (astronomical y + 4800)) m" if "m = 12"
  proof (rule same_march_year [OF my])
    show "march_year (if y = - 1 then 1 else y + 1) 1 = (year, mon + 1)" using my that by (auto simp: march_year_def Let_def)
  qed (use assms year that in auto)
qed

end

lemma div_step: "0 < n \<Longrightarrow> (y + 1) div n = y div n + (if n dvd y + 1 then 1 else 0 :: int)"
proof -
  assume n: "0 < n"
  show ?thesis
  proof (cases "n dvd y + 1")
    case True
    then obtain k where k: "y + 1 = n * k" by blast
    have "(y + 1) div n = k" using n unfolding k by simp
    moreover have "y div n = k - 1" using n k by (intro div_is) (simp_all add: right_diff_distrib)
    ultimately show ?thesis using True by simp
  next
    case False
    have b: "n * (y div n) \<le> y" "y < n * (y div n) + n" using div_bounds [OF n, of y] by simp_all
    moreover have "y + 1 \<noteq> n * (y div n) + n"
    proof
      assume "y + 1 = n * (y div n) + n"
      then have "y + 1 = n * (y div n + 1)" by (simp add: distrib_left)
      then show False using False by simp
    qed
    ultimately have "(y + 1) div n = y div n" using n by (intro div_is) linarith+
    then show ?thesis using False by simp
  qed
qed

definition leap_rule :: "int \<Rightarrow> bool" where "leap_rule y \<longleftrightarrow> 4 dvd y \<and> (\<not> 100 dvd y \<or> 400 dvd y)"

lemma gregorian_base:
  fixes c yr :: int
  assumes "0 \<le> yr" "yr \<le> 99" "year = c * 100 + yr"
  shows "(c * 146097) div 4 + (yr * 1461) div 4 = 365 * year + year div 4 - year div 100 + year div 400"
proof -
  define q r where "q = c div 4" and "r = yr div 4"
  have b: "4 * q \<le> c" "c < 4 * q + 4" "4 * r \<le> yr" "yr < 4 * r + 4"
    using div_bounds [of 4 c] div_bounds [of 4 yr] by (simp_all add: q_def r_def)
  have "(c * 146097) div 4 = 36524 * c + q" by (intro div_is) (use b in simp_all)
  moreover have "(yr * 1461) div 4 = 365 * yr + r" by (intro div_is) (use b in simp_all)
  moreover have "year div 4 = 25 * c + r" by (intro div_is) (use b assms in simp_all)
  moreover have "year div 100 = c" by (intro div_is) (use assms in simp_all)
  moreover have "year div 400 = q" by (intro div_is) (use b assms in simp_all)
  ultimately show ?thesis using assms(3) by linarith
qed

lemma positive_year:
  "0 < GregorianToSdn y m 1 \<Longrightarrow> - 4714 \<le> y" "0 < JulianToSdn y m 1 \<Longrightarrow> - 4714 \<le> y"
  by (auto simp: GregorianToSdn_def JulianToSdn_def split: if_splits)

lemma march_day: "march_year y m = (year, mon) \<Longrightarrow> 1 \<le> m \<Longrightarrow> m \<le> 12 \<Longrightarrow> (mon * 153 + 2) div 5 + 1 \<le> 366"
  using march_yearD(3) [of y m year mon] div_bounds [of 5 "mon * 153 + 2"] by (auto split: if_splits)

lemma first_day: "(a :: int) + (b + 1) - 32045 = a - 32044 + b" "a + (b + 1) - 32083 = a - 32082 + b" by simp_all

interpretation gregorian: civil_calendar GregorianToSdn "\<lambda>y. 365 * y + y div 4 - y div 100 + y div 400 - 32044" leap_rule
proof
  fix y m year mon :: int
  assume a: "march_year y m = (year, mon)" "y \<noteq> 0" "1 \<le> m" "m \<le> 12" "0 \<le> year"
  have y: "year = year div 100 * 100 + year mod 100" "0 \<le> year mod 100" "year mod 100 \<le> 99" "0 \<le> year div 100"
    using a(5) pos_mod_bound [of 100 year] by (simp_all add: pos_imp_zdiv_nonneg_iff)
  have one: "(1 :: int) \<le> 31" by simp
  show "GregorianToSdn y m 1 = max 0 (365 * year + year div 4 - year div 100 + year div 400 - 32044 + (mon * 153 + 2) div 5)"
    unfolding gregorian_value [OF a(1) refl march_day [OF a(1,3,4)] one y(1,4,2,3) a(2-4) order_refl] gregorian_base [OF y(2,3,1)]
    by (simp only: first_day)
next
  show "365 * (y + 1) + (y + 1) div 4 - (y + 1) div 100 + (y + 1) div 400 - 32044 =
      365 * y + y div 4 - y div 100 + y div 400 - 32044 + (if leap_rule (y + 1) then 366 else 365)" for y :: int
  proof -
    define z where "z = y + 1"
    have d: "400 dvd z \<Longrightarrow> 100 dvd z" "100 dvd z \<Longrightarrow> 4 dvd z" by (auto elim!: dvd_trans [rotated])
    have s: "z div 4 = y div 4 + (if 4 dvd z then 1 else 0)" "z div 100 = y div 100 + (if 100 dvd z then 1 else 0)"
      "z div 400 = y div 400 + (if 400 dvd z then 1 else 0)" unfolding z_def by (rule div_step, simp)+
    show ?thesis unfolding z_def [symmetric] s leap_rule_def using d
      by (cases "4 dvd z"; cases "100 dvd z"; cases "400 dvd z") (simp_all add: z_def)
  qed
qed (rule positive_year)

interpretation julian: civil_calendar JulianToSdn "\<lambda>y. 365 * y + y div 4 - 32082" "\<lambda>y. 4 dvd y"
proof
  fix y m year mon :: int
  assume a: "march_year y m = (year, mon)" "y \<noteq> 0" "1 \<le> m" "m \<le> 12" "0 \<le> year"
  have one: "(1 :: int) \<le> 31" by simp
  have "(year * 1461) div 4 = 365 * year + year div 4" using div_bounds [of 4 year] by (auto intro!: div_is)
  then show "JulianToSdn y m 1 = max 0 (365 * year + year div 4 - 32082 + (mon * 153 + 2) div 5)"
    unfolding julian_value [OF a(1) refl march_day [OF a(1,3,4)] one a(2-4) order_refl]
    by (simp only: first_day)
next
  show "365 * (y + 1) + (y + 1) div 4 - 32082 = 365 * y + y div 4 - 32082 + (if 4 dvd y + 1 then 366 else 365)" for y :: int
    by (simp add: div_step)
qed (rule positive_year)

subsection \<open>The length of a month that exists\<close>

text \<open>
  The months of each calendar and their days. The Gregorian and the Julian calendar begin with the day number
  1, on November 25 of 4714 B.C. and on January 2 of 4713 B.C.; a month exists when its first day does.
\<close>

definition calendar_month :: "int \<Rightarrow> int \<Rightarrow> int \<Rightarrow> int option" where
  "calendar_month cal y m =
     (if cal = CAL_GREGORIAN
      then (if date_exists gregorian_leap (y, m, 1) \<and> (- 4714 < y \<or> y = - 4714 \<and> m = 12) then Some (month_length (gregorian_leap y) m) else None)
      else if cal = CAL_JULIAN
      then (if date_exists julian_leap (y, m, 1) \<and> (- 4713 < y \<or> y = - 4713 \<and> 1 < m) then Some (month_length (julian_leap y) m) else None)
      else if cal = CAL_JEWISH then (if 1 \<le> y then map_option snd (jewish_month (year_days y) m) else None)
      else if cal = CAL_FRENCH
      then (if french_exists (y, m, 1) then Some (if m = 13 then if y mod 4 = 3 then 6 else 5 else 30) else None)
      else None)"

lemmas cal_ids = CAL_GREGORIAN_def CAL_JULIAN_def CAL_JEWISH_def CAL_FRENCH_def CAL_NUM_CALS_def

lemma to_int_small: "- 2000000 \<le> x \<Longrightarrow> x \<le> 2147478847 \<Longrightarrow> to_int x = x"
  by (rule to_int_id) simp_all

lemma days_civil:
  assumes entry: "cal_entry cal 1 = Inr calendar" "to_jd calendar = to_sdn" "cal \<noteq> CAL_FRENCH"
    and y: "y \<noteq> 0" "- 4714 \<le> y" "y \<le> 2147478846" "1 \<le> m" "m \<le> 12" "0 < to_sdn y m 1" "0 < len"
    and succ: "m < 12 \<Longrightarrow> to_sdn y (m + 1) 1 = to_sdn y m 1 + len"
      "m = 12 \<Longrightarrow> to_sdn (if y = - 1 then 1 else y + 1) 1 1 = to_sdn y m 1 + len" "to_sdn y 13 1 = 0"
  shows "cal_days_in_month cal m y = Inr len"
proof -
  have i: "to_int y = y" "to_int m = m" "to_int (1 + m) = m + 1" "to_int (y + 1) = y + 1" using y by (simp_all add: to_int_small)
  show ?thesis
  proof (cases "m = 12")
    case True
    then show ?thesis using y succ(2,3) i entry by (auto simp: cal_days_in_month_def Let_def)
  next
    case False
    then have "m < 12" using y(5) by simp
    then show ?thesis using y succ(1) i entry by (auto simp: cal_days_in_month_def Let_def)
  qed
qed

lemma leap_shift: "leap_rule (astronomical y + 4800) = gregorian_leap y" "4 dvd astronomical y + 4800 \<longleftrightarrow> julian_leap y"
proof -
  have d: "n dvd 4800 \<Longrightarrow> n dvd x + 4800 \<longleftrightarrow> n dvd x" for n x :: int by (rule dvd_add_left_iff)
  show "leap_rule (astronomical y + 4800) = gregorian_leap y" "4 dvd astronomical y + 4800 \<longleftrightarrow> julian_leap y"
    by (simp_all add: leap_rule_def gregorian_leap_def julian_leap_def d)
qed

lemma month_length_pos: "0 < month_length l m" by (simp add: month_length_def)

lemma thirteenth: "GregorianToSdn y 13 1 = 0" "JulianToSdn y 13 1 = 0"
  by (simp_all add: GregorianToSdn_def JulianToSdn_def)

lemma month_cases: "1 \<le> m \<Longrightarrow> m \<le> 13 \<Longrightarrow> m = 1 \<or> m = 2 \<or> m = 3 \<or> m = 4 \<or> m = 5 \<or> m = 6 \<or> m = 7 \<or> m = 8 \<or> m = 9 \<or> m = 10 \<or> m = 11 \<or>
    m = 12 \<or> m = (13 :: int)"
  by presburger

lemma first_of_month_positive:
  "date_exists gregorian_leap (y, m, 1) \<Longrightarrow> - 4714 < y \<or> y = - 4714 \<and> m = 12 \<Longrightarrow> 0 < GregorianToSdn y m 1"
  "date_exists julian_leap (y, m, 1) \<Longrightarrow> - 4713 < y \<or> y = - 4713 \<and> 1 < m \<Longrightarrow> 0 < JulianToSdn y m 1"
proof -
  obtain year mon where my: "march_year y m = (year, mon)" by fastforce
  note D = march_yearD [OF my]
  show "0 < GregorianToSdn y m 1" if e: "date_exists gregorian_leap (y, m, 1)" "- 4714 < y \<or> y = - 4714 \<and> m = 12"
  proof -
    have m: "y \<noteq> 0" "1 \<le> m" "m \<le> 12" using e(1) by (auto simp: date_exists_def)
    have year: "87 \<le> year" "0 \<le> year" "year = 87 \<Longrightarrow> 9 \<le> mon" using D(1,2,3) e(2) m by (cases "y < 0"; auto split: if_splits)+
    have mon: "0 \<le> mon" using D(3) m by (auto split: if_splits)
    have "0 \<le> (mon * 153 + 2) div 5" "9 \<le> mon \<Longrightarrow> 275 \<le> (mon * 153 + 2) div 5" using mon by linarith+
    moreover have "year div 100 \<le> year div 4" "0 \<le> year div 400" "year = 87 \<Longrightarrow> year div 4 = 21 \<and> year div 100 = 0" using year(2) by linarith+
    ultimately have "0 < 365 * year + year div 4 - year div 100 + year div 400 - 32044 + (mon * 153 + 2) div 5"
      using year by (cases "year = 87") linarith+
    then show ?thesis using gregorian.first_of_month [OF my m year(2)] by simp
  qed
  show "0 < JulianToSdn y m 1" if e: "date_exists julian_leap (y, m, 1)" "- 4713 < y \<or> y = - 4713 \<and> 1 < m"
  proof -
    have m: "y \<noteq> 0" "1 \<le> m" "m \<le> 12" using e(1) by (auto simp: date_exists_def)
    have year: "87 \<le> year" "0 \<le> year" "year = 87 \<Longrightarrow> 11 \<le> mon" using D(1,2,3) e(2) m by (cases "y < 0"; auto split: if_splits)+
    have mon: "0 \<le> mon" using D(3) m by (auto split: if_splits)
    have "0 \<le> (mon * 153 + 2) div 5" "11 \<le> mon \<Longrightarrow> 337 \<le> (mon * 153 + 2) div 5" using mon by linarith+
    moreover have "22 \<le> year div 4 \<or> year = 87 \<and> year div 4 = 21" using year(1) by linarith
    ultimately have "0 < 365 * year + year div 4 - 32082 + (mon * 153 + 2) div 5" using year by (cases "year = 87") linarith+
    then show ?thesis using julian.first_of_month [OF my m year(2)] by simp
  qed
qed

lemma days_gregorian:
  assumes "date_exists gregorian_leap (y, m, 1)" "0 < GregorianToSdn y m 1" "y \<le> 2147478846"
  shows "cal_days_in_month CAL_GREGORIAN m y = Inr (month_length (gregorian_leap y) m)"
proof -
  have e: "y \<noteq> 0" "1 \<le> m" "m \<le> 12" using assms(1) by (auto simp: date_exists_def)
  have c: "cal_entry CAL_GREGORIAN 1 = Inr (cal_conversion_table ! 0)" "to_jd (cal_conversion_table ! 0) = GregorianToSdn"
    by (simp_all add: cal_entry_def cal_ids cal_conversion_table_def)
  show ?thesis
    by (rule days_civil [OF c]; use gregorian.next_month [OF e assms(2)] e assms positive_year(1) [OF assms(2)] in
      \<open>simp add: leap_shift month_length_pos thirteenth cal_ids\<close>)
qed

lemma days_julian:
  assumes "date_exists julian_leap (y, m, 1)" "0 < JulianToSdn y m 1" "y \<le> 2147478846"
  shows "cal_days_in_month CAL_JULIAN m y = Inr (month_length (julian_leap y) m)"
proof -
  have e: "y \<noteq> 0" "1 \<le> m" "m \<le> 12" using assms(1) by (auto simp: date_exists_def)
  have c: "cal_entry CAL_JULIAN 1 = Inr (cal_conversion_table ! 1)" "to_jd (cal_conversion_table ! 1) = JulianToSdn"
    by (simp_all add: cal_entry_def cal_ids cal_conversion_table_def)
  show ?thesis
    by (rule days_civil [OF c]; use julian.next_month [OF e assms(2)] e assms positive_year(2) [OF assms(2)] in
      \<open>simp add: leap_shift month_length_pos thirteenth cal_ids\<close>)
qed

lemma days_french:
  assumes "french_exists (y, m, 1)"
  shows "cal_days_in_month CAL_FRENCH m y = Inr (if m = 13 then if y mod 4 = 3 then 6 else 5 else 30)"
proof -
  have e: "1 \<le> y" "y \<le> 14" "1 \<le> m" "m \<le> 13" using assms by (auto simp: french_exists_def split: if_splits)
  have i: "to_int y = y" "to_int m = m" "to_int (1 + m) = m + 1" "to_int (y + 1) = y + 1" using e by (simp_all add: to_int_small)
  have c: "cal_entry CAL_FRENCH 1 = Inr (cal_conversion_table ! 3)" "to_jd (cal_conversion_table ! 3) = FrenchToSdn"
    by (simp_all add: cal_entry_def cal_ids cal_conversion_table_def)
  have v: "FrenchToSdn y' m' 1 = (y' * 1461) div 4 + (m' - 1) * 30 + 2375475" if "1 \<le> y'" "y' \<le> 14" "1 \<le> m'" "m' \<le> 13" for y' m'
    using that by (simp add: FrenchToSdn_def cal_simps)
  have pos: "0 \<le> (y' * 1461) div 4" if "1 \<le> y'" for y' :: int using that by (simp add: pos_imp_zdiv_nonneg_iff)
  show ?thesis
  proof (cases "m = 13")
    case False
    then have "FrenchToSdn y (m + 1) 1 = FrenchToSdn y m 1 + 30" "0 < FrenchToSdn y m 1"
      using e pos [of y] by (simp_all add: v add_nonneg_pos)
    then show ?thesis using i c False by (simp add: cal_days_in_month_def Let_def)
  next
    case True
    have z: "FrenchToSdn y 14 1 = 0" "FrenchToSdn 15 1 1 = 0" by (simp_all add: FrenchToSdn_def)
    have "y = 1 \<or> y = 2 \<or> y = 3 \<or> y = 4 \<or> y = 5 \<or> y = 6 \<or> y = 7 \<or> y = 8 \<or> y = 9 \<or> y = 10 \<or> y = 11 \<or> y = 12 \<or> y = 13 \<or> y = 14"
      using e(1,2) by presburger
    then show ?thesis using i c True z
      by (elim disjE) (simp_all add: cal_days_in_month_def Let_def v CAL_FRENCH_def)
  qed
qed

lemma days_jewish:
  assumes "jewish_month (year_days y) m = Some (b, n)" "1 \<le> y" "y < 2 ^ 22 - 2"
  shows "cal_days_in_month CAL_JEWISH m y = Inr n"
proof -
  define len where "len = year_days y"
  have len: "len = 383 \<or> len = 384 \<or> len = 385 \<or> len = 353 \<or> len = 354 \<or> len = 355"
    and ord: "year_months (y - 1) = 13 \<longleftrightarrow> 380 < len"
    using year_days_cases [OF assms(2)] unfolding len_def by auto
  have m: "1 \<le> m" "m \<le> 13" "0 < n" using assms(1) len unfolding len_def [symmetric]
    by (auto simp: jewish_month_def heshvan_days_def kislev_days_def split: if_splits)
  have i: "to_int y = y" "to_int m = m" "to_int (1 + m) = m + 1" "to_int (y + 1) = y + 1" using assms(2,3) m by (simp_all add: to_int_small)
  have c: "cal_entry CAL_JEWISH 1 = Inr (cal_conversion_table ! 2)" "to_jd (cal_conversion_table ! 2) = JewishToSdn"
    by (simp_all add: cal_entry_def cal_ids cal_conversion_table_def)
  have first: "JewishToSdn y m' 1 = 347997 + new_year (y - 1) + b'" if "jewish_month len m' = Some (b', n')" "0 < n'" for m' b' n'
    using jewish_to_sdn [of y m' 1] that assms(2,3) by (simp add: jewish_exists_def jewish_day_def len_def)
  have ny: "1 \<le> new_year (y - 1)" using new_year_less [of 0 "y - 1"] year_length [of 0] new_year_first assms(2)
    by (cases "y = 1") (auto split: if_splits)
  have b: "0 \<le> b" using assms(1) len unfolding len_def [symmetric]
    by (auto simp: jewish_month_def heshvan_days_def kislev_days_def split: if_splits)
  have start: "JewishToSdn y m 1 = 347997 + new_year (y - 1) + b" by (rule first [OF assms(1) [folded len_def] m(3)])
  have succ: "m < 13 \<Longrightarrow> JewishToSdn y (m + 1) 1 = 347997 + new_year (y - 1) + b + n"
  proof -
    assume m13: "m < 13"
    show ?thesis
    proof (cases "jewish_month len (m + 1)")
      case (Some p)
      then obtain b' n' where p: "jewish_month len (m + 1) = Some (b', n')" by (cases p) simp
      have "0 < n'" "b' = b + n" using p assms(1) len unfolding len_def [symmetric]
        by (elim disjE; auto simp: jewish_month_def heshvan_days_def kislev_days_def split: if_splits)+
      then show ?thesis using first [OF p] by simp
    next
      case None
      have five: "m = 5" "\<not> 380 < len" using month_cases [OF m(1,2)] None m13 by (elim disjE; simp add: jewish_month_def split: if_splits)+
      have bn: "b + n = len - 206" using assms(1) five len unfolding len_def [symmetric]
        by (auto simp: jewish_month_def heshvan_days_def kislev_days_def)
      have "(y - 1) smod 19 = (y - 1) mod 19" using assms(2) by (cases "y = 1") (simp_all add: signed_modulo_int_def)
      then have t: "monthsPerYear ! nat ((y - 1) smod 19) = 12" using ord five(2) year_months_cases [of "y - 1"] by (simp add: year_months_def)
      have "JewishToSdn y 6 1 = new_year y - 206 + 347997"
        using start_of_year(1) [of "y + 1"] assms(2,3) t by (simp add: JewishToSdn_def JEWISH_SDN_OFFSET_def)
      moreover have "new_year y = new_year (y - 1) + len" by (simp add: len_def year_days_def)
      ultimately show ?thesis using five bn by simp
    qed
  qed
  show ?thesis
  proof (cases "m = 13")
    case True
    have z: "JewishToSdn y 14 1 = 0" using assms(2) by (simp add: JewishToSdn_def split: prod.splits)
    have "JewishToSdn (y + 1) 1 1 = 347997 + new_year y"
      using jewish_to_sdn [of "y + 1" 1 1] assms(2,3) by (simp add: jewish_exists_def jewish_day_def jewish_month_def)
    moreover have "new_year y = new_year (y - 1) + len" by (simp add: len_def year_days_def)
    moreover have "b = len - 29" "n = 29" using assms(1) True unfolding len_def [symmetric] by (simp_all add: jewish_month_def)
    ultimately show ?thesis using True z start ny b i c assms(2) by (simp add: cal_days_in_month_def Let_def cal_ids)
  next
    case False
    then show ?thesis using succ m start ny b i c by (simp add: cal_days_in_month_def Let_def)
  qed
qed

lemma days_in_month_correct:
  assumes "calendar_month cal y m = Some n" "y \<le> 2147478846" "cal = CAL_JEWISH \<Longrightarrow> y < 2 ^ 22 - 2"
  shows "cal_days_in_month cal m y = Inr n"
  using assms days_gregorian [of y m] days_julian [of y m] days_french [of y m] days_jewish [of y m] first_of_month_positive [of y m]
  by (auto simp: calendar_month_def split: if_splits)

lemma days_in_month_errors:
  shows "cal < 0 \<or> 4 \<le> cal \<Longrightarrow> cal_days_in_month cal m y = Inl (cal_argument_error 1 ''must be a valid calendar ID'')"
    and "cal_entry cal 1 = Inr calendar \<Longrightarrow> to_jd calendar (to_int y) (to_int m) 1 = 0 \<Longrightarrow>
      cal_days_in_month cal m y = Inl (cal_value_error ''Invalid date'')"
  by (simp_all add: cal_days_in_month_def cal_entry_def cal_ids)

text \<open>
  The first day of a month that does not exist has no day number, but for the sixth month of a Jewish year
  without it.
\<close>

lemma missing_month:
  assumes "calendar_month cal y m = None" "cal_entry cal 1 = Inr calendar" "\<not> (cal = CAL_JEWISH \<and> 1 \<le> y \<and> m = 6)"
  shows "to_jd calendar y m 1 = 0"
proof -
  note entry = cal_entry_def cal_ids cal_conversion_table_def
  consider (g) "cal = CAL_GREGORIAN" | (j) "cal = CAL_JULIAN" | (h) "cal = CAL_JEWISH" | (f) "cal = CAL_FRENCH"
    using assms(2) by (force simp: cal_entry_def cal_ids split: if_splits)
  then show ?thesis
  proof cases
    case g
    then have "GregorianToSdn y m 1 = 0" using assms(1)
      by (auto simp: calendar_month_def date_exists_def month_length_def GregorianToSdn_def cal_ids split: if_splits)
    then show ?thesis using g assms(2) by (auto simp: entry)
  next
    case j
    then have "JulianToSdn y m 1 = 0" using assms(1)
      by (auto simp: calendar_month_def date_exists_def month_length_def JulianToSdn_def cal_ids split: if_splits)
    then show ?thesis using j assms(2) by (auto simp: entry)
  next
    case h
    have "JewishToSdn y m 1 = 0"
    proof (cases "1 \<le> y")
      case True
      then have "\<not> (1 \<le> m \<and> m \<le> 13)" using month_cases [of m] h assms(1,3)
        by (auto simp: calendar_month_def cal_ids jewish_month_def split: if_splits)
      then have "m \<notin> {1, 2, 3, 4, 5, 6, 7, 8, 9, 10, 11, 12, 13}" by auto
      then show ?thesis by (simp add: JewishToSdn_def split: prod.splits)
    qed (simp add: JewishToSdn_def)
    then show ?thesis using h assms(2) by (auto simp: entry)
  next
    case f
    then have "FrenchToSdn y m 1 = 0" using assms(1)
      by (auto simp: calendar_month_def french_exists_def FrenchToSdn_def cal_ids split: if_splits)
    then show ?thesis using f assms(2) by (auto simp: entry)
  qed
qed

end
