(* ===== verification/CalDates.thy ===== *)
theory CalDates
  imports CalMonths
begin

text \<open>
  Properties across the calendar functions: \<open>cal_from_jd\<close> and \<open>cal_to_jd\<close> are inverse to each other and look up
  only names that exist; no Jewish year begins on a Sunday, a Wednesday or a Friday; and the sixth month of
  a Jewish year without one.
\<close>

subsection \<open>Jewish years\<close>

lemma delay_weekday:
  assumes "r = 0 \<or> r = 1 \<or> r = 2 \<or> r = 3 \<or> r = 4 \<or> r = 5 \<or> r = 6"
  shows "(r + delay l a r n p q) mod 7 \<notin> {0, 3, 5}"
  using assms by (elim disjE; cases l; cases a; cases n; cases p; cases q; simp add: delay_def Let_def)

lemma new_year_weekday:
  assumes "0 \<le> k"
  shows "new_year k mod 7 \<notin> {0, 3, 5}"
  unfolding new_year_delay [OF assms] delay_at_def mod_add_left_eq [of "molad_day k" 7, symmetric]
  by (rule delay_weekday [OF mod7_cases])

lemma first_of_tishri:
  assumes "1 \<le> y" "y < 2 ^ 22 - 1"
  shows "JewishToSdn y 1 1 = 347997 + new_year (y - 1)"
  using jewish_to_sdn [of y 1 1] assms by (simp add: jewish_exists_def jewish_day_def jewish_month_def)

lemma day_of_week_mod: "0 \<le> sdn \<Longrightarrow> DayOfWeek sdn = (sdn + 1) mod 7"
proof -
  assume s: "0 \<le> sdn"
  have "sdn smod 7 = sdn mod 7" using s by (cases "sdn = 0") (simp_all add: signed_modulo_int_def)
  moreover have "0 \<le> sdn mod 7" "sdn mod 7 < 7" by simp_all
  moreover have "(sdn mod 7 + 8) smod 7 = (sdn mod 7 + 8) mod 7" using s by (simp add: signed_modulo_int_def)
  moreover have "(sdn mod 7 + 8) mod 7 = (sdn + 1) mod 7"
  proof -
    have "(sdn mod 7 + 8) mod 7 = (sdn + 8) mod 7" by (rule mod_add_left_eq)
    also have "sdn + 8 = sdn + 1 + 7" by simp
    also have "(sdn + 1 + 7) mod 7 = (sdn + 1) mod 7" by (simp only: mod_add_self2)
    finally show ?thesis .
  qed
  ultimately show ?thesis by (simp add: DayOfWeek_def to_int_id)
qed

lemma jewish_years:
  assumes "1 \<le> y" "y < 2 ^ 22 - 2"
  shows "JewishToSdn (y + 1) 1 1 - JewishToSdn y 1 1 \<in> (if monthsPerYear ! nat ((y - 1) mod 19) = 13 then {383, 384, 385} else {353, 354, 355})"
    and "DayOfWeek (JewishToSdn y 1 1) \<notin> {0, 3, 5}"
proof -
  have t: "JewishToSdn y 1 1 = 347997 + new_year (y - 1)" "JewishToSdn (y + 1) 1 1 = 347997 + new_year y"
    using first_of_tishri [of y] first_of_tishri [of "y + 1"] assms by simp_all
  show "JewishToSdn (y + 1) 1 1 - JewishToSdn y 1 1 \<in> (if monthsPerYear ! nat ((y - 1) mod 19) = 13 then {383, 384, 385} else {353, 354, 355})"
    using year_length [of "y - 1"] assms unfolding t by (simp add: year_months_def)
  have n: "0 \<le> new_year (y - 1)" using new_year_delay [of "y - 1"] molad_day_nonneg [of "y - 1"] delay_bounds(1) assms by simp
  have "347997 + new_year (y - 1) + 1 = new_year (y - 1) + 49714 * 7" by simp
  then have "(347997 + new_year (y - 1) + 1) mod 7 = new_year (y - 1) mod 7" by (simp only: mod_mult_self1)
  then show "DayOfWeek (JewishToSdn y 1 1) \<notin> {0, 3, 5}"
    using day_of_week_mod [of "347997 + new_year (y - 1)"] n new_year_weekday [of "y - 1"] assms unfolding t by simp
qed

text \<open>A year of twelve months has no sixth month; the code places it on the seventh.\<close>

lemma no_sixth_month:
  assumes "1 \<le> y" "y < 2 ^ 22 - 2" "monthsPerYear ! nat ((y - 1) mod 19) = 12"
  shows "cal_days_in_month CAL_JEWISH 6 y = Inr 0"
proof -
  have len: "year_days y \<noteq> 0" "jewish_month (year_days y) 7 = Some (year_days y - 206, 29)" "353 \<le> year_days y"
    using year_days_cases [OF assms(1)] by (auto simp: jewish_month_def)
  have i: "to_int y = y" "to_int 6 = 6" "to_int (1 + 6) = 7" using assms by (simp_all add: to_int_small)
  have c: "cal_entry CAL_JEWISH 1 = Inr (cal_conversion_table ! 2)" "to_jd (cal_conversion_table ! 2) = JewishToSdn"
    by (simp_all add: cal_entry_def cal_ids cal_conversion_table_def)
  have "(y - 1) smod 19 = (y - 1) mod 19" using assms by (cases "y = 1") (simp_all add: signed_modulo_int_def)
  then have s: "JewishToSdn y 6 1 = JewishToSdn y 7 1" using assms
    by (simp add: JewishToSdn_def split: prod.splits)
  have n: "0 \<le> new_year (y - 1)" using new_year_delay [of "y - 1"] molad_day_nonneg [of "y - 1"] delay_bounds(1) assms by simp
  have "JewishToSdn y 7 1 = 347997 + new_year (y - 1) + (year_days y - 206)"
    using jewish_to_sdn [of y 7 1] assms len(2) by (simp add: jewish_exists_def jewish_day_def)
  then have "JewishToSdn y 7 1 \<noteq> 0" using n len(3) by simp
  then show ?thesis using i c s by (simp add: cal_days_in_month_def Let_def)
qed

text \<open>The days of every month, and of none.\<close>

lemma days_in_month_total:
  assumes "CINT_MIN \<le> y" "y \<le> 2147478846" "CINT_MIN \<le> m" "m \<le> CINT_MAX" "cal = CAL_JEWISH \<Longrightarrow> y < 2 ^ 22 - 2"
  shows "cal_days_in_month cal m y =
    (if cal < 0 \<or> 4 \<le> cal then Inl (cal_argument_error 1 ''must be a valid calendar ID'')
     else case calendar_month cal y m of
       Some n \<Rightarrow> Inr n
     | None \<Rightarrow> if cal = CAL_JEWISH \<and> 1 \<le> y \<and> m = 6 then Inr 0 else Inl (cal_value_error ''Invalid date''))"
proof (cases "cal < 0 \<or> 4 \<le> cal")
  case True
  then show ?thesis using days_in_month_errors(1) [of cal m y] by simp
next
  case False
  then have entry: "cal_entry cal 1 = Inr (cal_conversion_table ! nat cal)" by (simp add: cal_entry_def cal_ids)
  have i: "to_int y = y" "to_int m = m" using assms(1-4) by (simp_all add: to_int_id cal_simps)
  show ?thesis
  proof (cases "calendar_month cal y m")
    case (Some n)
    then show ?thesis using False days_in_month_correct [OF Some assms(2,5)] by simp
  next
    case None
    show ?thesis
    proof (cases "cal = CAL_JEWISH \<and> 1 \<le> y \<and> m = 6")
      case True
      have "year_months (y - 1) \<noteq> 13" using None True year_days_cases [of y]
        by (auto simp: calendar_month_def cal_ids jewish_month_def)
      then have "monthsPerYear ! nat ((y - 1) mod 19) = 12" using year_months_cases [of "y - 1"] True by (simp add: year_months_def)
      then show ?thesis using True None False no_sixth_month [of y] assms(5) by simp
    next
      case ok: False
      have "to_jd (cal_conversion_table ! nat cal) (to_int y) (to_int m) 1 = 0" unfolding i by (rule missing_month [OF None entry ok])
      from days_in_month_errors(2) [OF entry this] show ?thesis using None False ok by simp
    qed
  qed
qed

subsection \<open>\<open>cal_from_jd\<close> and \<open>cal_to_jd\<close>\<close>

lemma gregorian_year_range:
  assumes "date_exists gregorian_leap (y, m, d)" "GregorianToSdn y m d = sdn" "0 < sdn" "sdn \<le> 784000000000"
  shows "- 4714 \<le> y" "y \<le> 2147000000"
proof -
  show y: "- 4714 \<le> y" using assms by (auto simp: GregorianToSdn_def split: if_splits)
  obtain year mon where my: "march_year y m = (year, mon)" by fastforce
  define c q where "c = year div 100" and "q = year mod 100"
  have cq: "year = 100 * c + q" "0 \<le> q" by (simp_all add: c_def q_def)
  have b: "y + 4799 \<le> year" "0 \<le> year" "0 \<le> mon" using march_yearD [OF my] y assms(1) by (cases "y < 0"; auto simp: date_exists_def split: if_splits)+
  have "0 \<le> c" using b(2) by (simp add: c_def pos_imp_zdiv_nonneg_iff)
  then have "c * 146097 div 4 \<ge> 36524 * c" "q * 1461 div 4 \<ge> 365 * q" using cq(2) by linarith+
  moreover have "0 \<le> (mon * 153 + 2) div 5" "1 \<le> d" using b(3) assms(1) by (auto simp: pos_imp_zdiv_nonneg_iff date_exists_def)
  moreover have "sdn = c * 146097 div 4 + q * 1461 div 4 + (mon * 153 + 2) div 5 + d - 32045"
    using assms(2,3) by (auto simp: GregorianToSdn_def my cal_simps c_def q_def split: if_splits)
  ultimately have "36524 * c + 365 * q - 32044 \<le> sdn" by linarith
  moreover have "q \<le> 99" by (simp add: q_def)
  ultimately show "y \<le> 2147000000" using cq b \<open>0 \<le> c\<close> assms(4) by linarith
qed

lemma julian_year_range:
  assumes "date_exists julian_leap (y, m, d)" "JulianToSdn y m d = sdn" "0 < sdn" "sdn \<le> 784000000000"
  shows "- 4714 \<le> y" "y \<le> 2147000000"
proof -
  show y: "- 4714 \<le> y" using assms by (auto simp: JulianToSdn_def split: if_splits)
  obtain year mon where my: "march_year y m = (year, mon)" by fastforce
  have b: "y + 4799 \<le> year" "0 \<le> year" "0 \<le> mon" using march_yearD [OF my] y assms(1) by (cases "y < 0"; auto simp: date_exists_def split: if_splits)+
  have "4 * (year * 1461 div 4) \<ge> 1461 * year - 3" using b(2) by linarith
  moreover have "0 \<le> (mon * 153 + 2) div 5" "1 \<le> d" using b(3) assms(1) by (auto simp: pos_imp_zdiv_nonneg_iff date_exists_def)
  moreover have "sdn = year * 1461 div 4 + (mon * 153 + 2) div 5 + d - 32083"
    using assms(2,3) by (auto simp: JulianToSdn_def my cal_simps split: if_splits)
  ultimately have "1461 * year - 128331 \<le> 4 * sdn" by linarith
  then show "y \<le> 2147000000" using b assms(4) by linarith
qed

text \<open>
  The day numbers of each calendar: up to \<open>784000000000\<close> in the Gregorian and the Julian calendar, where the
  years approach the end of \<open>int\<close>; the Jewish and the French conversions have limits of their own.
\<close>

definition calendar_range :: "int \<Rightarrow> int \<Rightarrow> bool" where
  "calendar_range cal jd \<longleftrightarrow>
     (if cal = CAL_GREGORIAN \<or> cal = CAL_JULIAN then 0 < jd \<and> jd \<le> 784000000000
      else if cal = CAL_JEWISH then JEWISH_SDN_OFFSET < jd \<and> jd \<le> JEWISH_SDN_MAX
      else cal = CAL_FRENCH \<and> FIRST_VALID \<le> jd \<and> jd \<le> LAST_VALID)"

text \<open>The months of a year and their short names: only the Gregorian and the Julian calendar have these.\<close>

definition months_of :: "int \<Rightarrow> int \<Rightarrow> string list" where
  "months_of cal y = (if cal = CAL_JEWISH then JEWISH_MONTH_NAME y else if cal = CAL_FRENCH then FrenchMonthName else MonthNameLong)"

definition short_months_of :: "int \<Rightarrow> int \<Rightarrow> string list" where
  "short_months_of cal y = (if cal = CAL_GREGORIAN \<or> cal = CAL_JULIAN then MonthNameShort else months_of cal y)"

definition name_of :: "string list \<Rightarrow> int \<Rightarrow> string \<Rightarrow> bool" where
  "name_of table m s \<longleftrightarrow> 1 \<le> m \<and> m < int (length table) \<and> s = table ! nat m \<and> s \<noteq> []"

text \<open>Every name that is looked up is the name of the month or of the day: in its table, and not an empty filler.\<close>

definition jd_info_ok :: "int \<Rightarrow> int \<Rightarrow> jd_info \<Rightarrow> bool" where
  "jd_info_ok cal jd i \<longleftrightarrow> cal_to_jd cal (jd_month i) (jd_day i) (jd_year i) = Inr jd \<and>
     jd_date i = print_date (jd_year i, jd_month i, jd_day i) \<and>
     dow i = Some ((jd + 1) mod 7) \<and> abbrevdayname i = DayNameShort ! nat ((jd + 1) mod 7) \<and> dayname i = DayNameLong ! nat ((jd + 1) mod 7) \<and>
     name_of (months_of cal (jd_year i)) (jd_month i) (monthname i) \<and>
     name_of (short_months_of cal (jd_year i)) (jd_month i) (abbrevmonth i)"

lemma month_names:
  "1 \<le> m \<Longrightarrow> m \<le> 12 \<Longrightarrow> MonthNameLong ! nat m \<noteq> [] \<and> MonthNameShort ! nat m \<noteq> []"
  "1 \<le> m \<Longrightarrow> m \<le> 13 \<Longrightarrow> FrenchMonthName ! nat m \<noteq> []"
  "1 \<le> m \<Longrightarrow> m \<le> 13 \<Longrightarrow> JewishMonthNameLeap ! nat m \<noteq> []"
  "1 \<le> m \<Longrightarrow> m \<le> 13 \<Longrightarrow> m \<noteq> 6 \<Longrightarrow> JewishMonthName ! nat m \<noteq> []"
proof -
  have "list_all (\<lambda>i. MonthNameLong ! i \<noteq> [] \<and> MonthNameShort ! i \<noteq> []) [1..<13]" by code_simp
  moreover have "list_all (\<lambda>i. FrenchMonthName ! i \<noteq> [] \<and> JewishMonthNameLeap ! i \<noteq> [] \<and> (i \<noteq> 6 \<longrightarrow> JewishMonthName ! i \<noteq> [])) [1..<14]" by code_simp
  moreover have "nat m \<in> set [1..<13]" if "1 \<le> m" "m \<le> 12" for m :: int using that by auto
  moreover have "nat m \<in> set [1..<14]" if "1 \<le> m" "m \<le> 13" for m :: int using that by auto
  moreover have "nat m = 6 \<longleftrightarrow> m = 6" for m :: int by auto
  ultimately show "1 \<le> m \<Longrightarrow> m \<le> 12 \<Longrightarrow> MonthNameLong ! nat m \<noteq> [] \<and> MonthNameShort ! nat m \<noteq> []"
    "1 \<le> m \<Longrightarrow> m \<le> 13 \<Longrightarrow> FrenchMonthName ! nat m \<noteq> []"
    "1 \<le> m \<Longrightarrow> m \<le> 13 \<Longrightarrow> JewishMonthNameLeap ! nat m \<noteq> []"
    "1 \<le> m \<Longrightarrow> m \<le> 13 \<Longrightarrow> m \<noteq> 6 \<Longrightarrow> JewishMonthName ! nat m \<noteq> []"
    unfolding list_all_iff by blast+
qed

lemma name_counts: "length MonthNameLong = 13" "length MonthNameShort = 13" "length FrenchMonthName = 14" "length JewishMonthNameLeap = 14" "length JewishMonthName = 14"
  by (simp_all add: MonthNameLong_def MonthNameShort_def FrenchMonthName_def JewishMonthNameLeap_def JewishMonthName_def)

lemma civil_names:
  "1 \<le> m \<Longrightarrow> m \<le> 12 \<Longrightarrow> name_of MonthNameLong m (MonthNameLong ! nat m)"
  "1 \<le> m \<Longrightarrow> m \<le> 12 \<Longrightarrow> name_of MonthNameShort m (MonthNameShort ! nat m)"
  by (simp_all add: name_of_def name_counts month_names)

lemma french_names: "1 \<le> m \<Longrightarrow> m \<le> 13 \<Longrightarrow> name_of FrenchMonthName m (FrenchMonthName ! nat m)"
  by (simp add: name_of_def name_counts month_names)

text \<open>The general case, for a calendar whose date is known.\<close>

lemma cal_from_jd_entry:
  assumes "cal_entry cal 2 = Inr calendar" "cal_entry cal 1 = Inr calendar" "from_jd calendar jd = Some (y, m, d)" "to_jd calendar y m d = jd"
    "0 \<le> jd" "cal = CAL_JEWISH \<Longrightarrow> 0 < y" "- 4714 \<le> y" "y \<le> 2147000000" "1 \<le> m" "m \<le> 13" "1 \<le> d" "d \<le> 31"
    and long: "cal \<noteq> CAL_JEWISH \<Longrightarrow> month_name_long calendar = months_of cal y" "name_of (months_of cal y) m s"
    and short: "cal \<noteq> CAL_JEWISH \<Longrightarrow> month_name_short calendar = short_months_of cal y" "name_of (short_months_of cal y) m t"
  shows "\<exists>i. cal_from_jd jd cal = Some (Inr i) \<and> jd_info_ok cal jd i"
proof -
  have i: "to_int y = y" "to_int m = m" "to_int d = d" using assms(7-12) by (simp_all add: to_int_small)
  have w: "DayOfWeek jd = (jd + 1) mod 7" by (rule day_of_week_mod [OF assms(5)])
  have c: "cal_to_jd cal m d y = Inr jd" using assms(2,4) i by (simp add: cal_to_jd_def)
  show ?thesis
  proof (cases "cal = CAL_JEWISH")
    case True
    then have "months_of cal y = JEWISH_MONTH_NAME y" "short_months_of cal y = JEWISH_MONTH_NAME y"
      by (simp_all add: months_of_def short_months_of_def cal_ids)
    then show ?thesis using assms(1,3,6,9) True long(2) w c by (auto simp: cal_from_jd_def jd_info_ok_def name_of_def Let_def)
  next
    case False
    then show ?thesis using assms(1,3,9) long short w c by (auto simp: cal_from_jd_def jd_info_ok_def name_of_def Let_def)
  qed
qed

lemma cal_from_jd_correct:
  assumes "calendar_range cal jd"
  shows "\<exists>i. cal_from_jd jd cal = Some (Inr i) \<and> jd_info_ok cal jd i"
proof -
  note entries = cal_entry_def cal_ids cal_conversion_table_def
  consider (g) "cal = CAL_GREGORIAN" "0 < jd" "jd \<le> 784000000000" | (j) "cal = CAL_JULIAN" "0 < jd" "jd \<le> 784000000000"
    | (h) "cal = CAL_JEWISH" "347997 < jd" "jd \<le> 324542846" | (f) "cal = CAL_FRENCH" "FIRST_VALID \<le> jd" "jd \<le> LAST_VALID"
    using assms by (auto simp: calendar_range_def JEWISH_SDN_OFFSET_def JEWISH_SDN_MAX_def split: if_splits)
  then show ?thesis
  proof cases
    case g
    obtain y m d where r: "SdnToGregorian jd = (y, m, d)" "date_exists gregorian_leap (y, m, d)" "GregorianToSdn y m d = jd"
      using gregorian_to_date [of jd] g by (auto split: prod.splits)
    have e: "1 \<le> m" "m \<le> 12" "1 \<le> d" "d \<le> 31" using r(2) by (auto simp: date_exists_def month_length_def split: if_splits)
    show ?thesis
      by (rule cal_from_jd_entry [where calendar = "cal_conversion_table ! 0" and y = y and m = m and d = d],
        use gregorian_year_range [OF r(2,3) g(2,3)] g r e civil_names [OF e(1,2)] in
        \<open>simp_all add: entries months_of_def short_months_of_def\<close>)
  next
    case j
    obtain y m d where r: "SdnToJulian jd = (y, m, d)" "date_exists julian_leap (y, m, d)" "JulianToSdn y m d = jd"
      using julian_to_date [of jd] j by (auto split: prod.splits)
    have e: "1 \<le> m" "m \<le> 12" "1 \<le> d" "d \<le> 31" using r(2) by (auto simp: date_exists_def month_length_def split: if_splits)
    show ?thesis
      by (rule cal_from_jd_entry [where calendar = "cal_conversion_table ! 1" and y = y and m = m and d = d],
        use julian_year_range [OF r(2,3) j(2,3)] j r e civil_names [OF e(1,2)] in
        \<open>simp_all add: entries months_of_def short_months_of_def\<close>)
  next
    case f
    obtain y m d where r: "SdnToFrench jd = (y, m, d)" "french_exists (y, m, d)" "FrenchToSdn y m d = jd"
      using french_to_date [of jd] f by (auto split: prod.splits)
    have e: "1 \<le> m" "m \<le> 13" "1 \<le> d" "d \<le> 30" "1 \<le> y" "y \<le> 14" using r(2) by (auto simp: french_exists_def split: if_splits)
    show ?thesis
      by (rule cal_from_jd_entry [where calendar = "cal_conversion_table ! 3" and y = y and m = m and d = d],
        use f r e french_names [OF e(1,2)] in \<open>simp_all add: entries months_of_def short_months_of_def FIRST_VALID_def\<close>)
  next
    case h
    obtain y m d where r: "SdnToJewish jd = Some (y, m, d)" "jewish_exists (y, m, d)" "y < 2 ^ 22 - 1"
      "new_year (y - 1) + jewish_day (y, m, d) = jd - 347997" by (rule sdn_to_jewish [OF h(2,3)])
    have jd: "JewishToSdn y m d = jd" using jewish_to_sdn [OF r(2,3)] r(4) by simp
    have y: "1 \<le> y" using r(2) by (simp add: jewish_exists_def)
    have e: "1 \<le> m" "m \<le> 13" "1 \<le> d" "d \<le> 30" using jewish_day_range [OF r(2)] by simp_all
    have s: "(y - 1) smod 19 = (y - 1) mod 19" using y by (cases "y = 1") (simp_all add: signed_modulo_int_def)
    have six: "year_months (y - 1) = 13" if "m = 6"
      using year_days_cases [OF y] r(2) that by (auto simp: jewish_exists_def jewish_month_def)
    have t: "name_of (JEWISH_MONTH_NAME y) m (JEWISH_MONTH_NAME y ! nat m)"
      using month_names(3,4) [OF e(1,2)] six e s name_counts by (auto simp: name_of_def JEWISH_MONTH_NAME_def year_months_def)
    show ?thesis
      by (rule cal_from_jd_entry [where calendar = "cal_conversion_table ! 2" and y = y and m = m and d = d],
        use h r(1,3) jd y e t in \<open>simp_all add: entries months_of_def short_months_of_def\<close>)
  qed
qed

end
