(* ===== verification/CalHebrew.thy ===== *)
theory CalHebrew
  imports CalFunctions
begin

text \<open>
  Hebrew numerals: the letters written by \<open>heb_number_to_chars\<close> add up to the number they stand for, and
  the text fits into the buffer of 18 bytes for all flags.
\<close>

definition letter_value :: "char \<Rightarrow> int" where
  "letter_value c = (case map_of (zip alef_bet [0..<23]) c of
     None \<Rightarrow> 0 | Some i \<Rightarrow> int (if i \<le> 9 then i else if i \<le> 18 then (i - 9) * 10 else (i - 18) * 100))"

definition hebrew_value :: "string \<Rightarrow> int" where "hebrew_value s = sum_list (map letter_value s)"

lemma letter_values:
  "list_all (\<lambda>i. letter_value (alef_bet ! i) = int (if i \<le> 9 then i else if i \<le> 18 then (i - 9) * 10 else (i - 18) * 100)) [0..<23]"
  by code_simp

lemma mark_values: "letter_value (CHR 0x27) = 0" "letter_value (CHR 0x22) = 0" by code_simp+

lemma letter:
  "0 \<le> i \<Longrightarrow> i \<le> 9 \<Longrightarrow> letter_value (alef_bet ! nat i) = i"
  "1 \<le> i \<Longrightarrow> i \<le> 9 \<Longrightarrow> letter_value (alef_bet ! nat (9 + i)) = i * 10"
  "1 \<le> i \<Longrightarrow> i \<le> 4 \<Longrightarrow> letter_value (alef_bet ! nat (18 + i)) = i * 100"
proof -
  have v: "letter_value (alef_bet ! i) = int (if i \<le> 9 then i else if i \<le> 18 then (i - 9) * 10 else (i - 18) * 100)" if "i < 23" for i
    using letter_values that by (simp add: list_all_iff)
  show "0 \<le> i \<Longrightarrow> i \<le> 9 \<Longrightarrow> letter_value (alef_bet ! nat i) = i" using v [of "nat i"] by (simp add: nat_le_iff)
  show "1 \<le> i \<Longrightarrow> i \<le> 9 \<Longrightarrow> letter_value (alef_bet ! nat (9 + i)) = i * 10"
    using v [of "nat (9 + i)"] by (simp add: nat_le_iff nat_add_distrib)
  show "1 \<le> i \<Longrightarrow> i \<le> 4 \<Longrightarrow> letter_value (alef_bet ! nat (18 + i)) = i * 100"
    using v [of "nat (18 + i)"] by (simp add: nat_le_iff nat_add_distrib)
qed

lemma hebrew_value_simps [simp]:
  "hebrew_value [] = 0" "hebrew_value (c # s) = letter_value c + hebrew_value s" "hebrew_value (s @ t) = hebrew_value s + hebrew_value t"
  by (simp_all add: hebrew_value_def)

text \<open>The stages of the function after the thousands each append letters.\<close>

lemma heb_tav_appends:
  assumes "0 \<le> n" "n < 1000"
  obtains t where "heb_tav n old = (n mod 400, old @ t)" "hebrew_value t = n - n mod 400" "length t \<le> 2"
proof -
  have v: "letter_value (alef_bet ! 22) = 400" using letter(3) [of 4] by simp
  consider "n < 400" | "400 \<le> n" "n < 800" | "800 \<le> n" by linarith
  then show ?thesis
  proof cases
    case 1
    then have "heb_tav n old = (n, old @ [])" by (simp add: heb_tav.simps)
    then show ?thesis using that [of "[]"] 1 assms by simp
  next
    case 2
    then have "n mod 400 = n - 400" using minus_mult_div_eq_mod [of n 400] div_is [of 400 1 n] by simp
    moreover have "heb_tav n old = (n - 400, old @ [alef_bet ! 22])" using 2 by (simp add: heb_tav.simps)
    ultimately show ?thesis using that [of "[alef_bet ! 22]"] v by simp
  next
    case 3
    then have "n mod 400 = n - 800" using minus_mult_div_eq_mod [of n 400] div_is [of 400 2 n] assms by simp
    moreover have "heb_tav n old = (n - 800, old @ [alef_bet ! 22, alef_bet ! 22])"
      using 3 assms by (subst heb_tav.simps, subst heb_tav.simps, subst heb_tav.simps) simp
    ultimately show ?thesis using that [of "[alef_bet ! 22, alef_bet ! 22]"] v by simp
  qed
qed

lemma pos_int_div: "0 \<le> x \<Longrightarrow> 0 < m \<Longrightarrow> x sdiv m = x div (m::int)" "0 \<le> x \<Longrightarrow> 0 < m \<Longrightarrow> x smod m = x mod (m::int)"
  using pos_sdiv [of x m] by (cases "x = 0"; simp)+

lemma hundreds_append:
  assumes "0 \<le> n" "n < 400"
  obtains t where "(if n \<ge> 100 then (n smod 100, old @ [alef_bet ! nat (18 + n sdiv 100)]) else (n, old)) = (n mod 100, old @ t)"
    "hebrew_value t = n - n mod 100" "length t \<le> 1"
proof (cases "100 \<le> n")
  case True
  have "1 \<le> n div 100" "n div 100 \<le> 4" using div_bounds [of 100 n] True assms by linarith+
  then have "hebrew_value [alef_bet ! nat (18 + n div 100)] = n - n mod 100"
    using letter(3) [of "n div 100"] minus_mod_eq_div_mult [of n 100] by simp
  then show ?thesis using that [of "[alef_bet ! nat (18 + n div 100)]"] True assms by (simp add: pos_int_div)
qed (use that [of "[]"] assms in simp)

lemma rest_append:
  assumes "0 \<le> n" "n < 100"
  obtains t where "(if n = 15 \<or> n = 16 then old @ [alef_bet ! 9] @ [alef_bet ! nat (n - 9)]
      else (let (n, old) = (if n \<ge> 10 then (n smod 10, old @ [alef_bet ! nat (9 + n sdiv 10)]) else (n, old))
            in if n > 0 then old @ [alef_bet ! nat n] else old)) = old @ t"
    "hebrew_value t = n" "length t \<le> 2"
proof -
  consider "n = 15 \<or> n = 16" | "\<not> (n = 15 \<or> n = 16)" "10 \<le> n" | "n < 10" by linarith
  then show ?thesis
  proof cases
    case 1
    then show ?thesis using that [of "[alef_bet ! 9, alef_bet ! nat (n - 9)]"] letter(1) [of 9] letter(1) [of "n - 9"] by auto
  next
    case 2
    have d: "1 \<le> n div 10" "n div 10 \<le> 9" "0 \<le> n mod 10" "n mod 10 \<le> 9" "n div 10 * 10 + n mod 10 = n"
      using div_bounds [of 10 n] pos_mod_bound [of 10 n] 2 assms by simp_all
    show ?thesis
    proof (cases "n mod 10 > 0")
      case True
      then show ?thesis
        using that [of "[alef_bet ! nat (9 + n div 10), alef_bet ! nat (n mod 10)]"] 2 d letter(2) [OF d(1,2)] letter(1) [OF d(3,4)] assms
        by (simp add: pos_int_div)
    next
      case False
      then show ?thesis using that [of "[alef_bet ! nat (9 + n div 10)]"] 2 d letter(2) [OF d(1,2)] assms by (simp add: pos_int_div)
    qed
  next
    case 3
    then show ?thesis using that [of "if n > 0 then [alef_bet ! nat n] else []"] letter(1) [of n] assms by (simp split: if_splits)
  qed
qed

lemma gershayim:
  "hebrew_value (butlast t @ [CHR 0x22] @ [last t]) = hebrew_value t" if "t \<noteq> []"
  using append_butlast_last_id [OF that] that
  by (metis append.assoc hebrew_value_simps mark_values(2) add_0 append_Cons append_Nil)

lemma heb_number_correct:
  assumes "1 \<le> n" "n \<le> 9999"
  obtains before t where "heb_number_to_chars n fl = Some (before @ t)" "hebrew_value t = n mod 1000" "length (before @ t) + 1 \<le> 18"
    "if n < 1000 then before = [] else before \<noteq> [] \<and> hd before = alef_bet ! nat (n div 1000)"
proof -
  note result = that
  define start where "start = (if n sdiv 1000 \<noteq> 0
                   then ([alef_bet ! nat (n sdiv 1000)] @
                         (if CAL_JEWISH_ADD_ALAFIM_GERESH AND fl \<noteq> 0 then [CHR 0x27] else []) @
                         (if CAL_JEWISH_ADD_ALAFIM AND fl \<noteq> 0
                          then [CHR 0x20, CHR 0xE0, CHR 0xEC, CHR 0xF4, CHR 0xE9, CHR 0xED, CHR 0x20] else []),
                         n smod 1000)
                   else ([], n))"
  obtain before k where s: "start = (before, k)" by fastforce
  have k: "k = n mod 1000" "length before \<le> 9" "if n < 1000 then before = [] else before \<noteq> [] \<and> hd before = alef_bet ! nat (n div 1000)"
    using s assms by (auto simp: start_def pos_int_div split: if_splits)
  have kb: "0 \<le> k" "k < 1000" using k(1) by simp_all
  obtain t1 where t1: "heb_tav k before = (k mod 400, before @ t1)" "hebrew_value t1 = k - k mod 400" "length t1 \<le> 2"
    by (rule heb_tav_appends [OF kb])
  define a where "a = k mod 400"
  have ab: "0 \<le> a" "a < 400" by (simp_all add: a_def)
  obtain t2 where t2: "(if a \<ge> 100 then (a smod 100, (before @ t1) @ [alef_bet ! nat (18 + a sdiv 100)]) else (a, before @ t1)) =
      (a mod 100, (before @ t1) @ t2)" "hebrew_value t2 = a - a mod 100" "length t2 \<le> 1" by (rule hundreds_append [OF ab])
  define b where "b = a mod 100"
  have bb: "0 \<le> b" "b < 100" by (simp_all add: b_def)
  obtain t3 where t3: "(if b = 15 \<or> b = 16 then ((before @ t1) @ t2) @ [alef_bet ! 9] @ [alef_bet ! nat (b - 9)]
      else (let (n, old) = (if b \<ge> 10 then (b smod 10, ((before @ t1) @ t2) @ [alef_bet ! nat (9 + b sdiv 10)]) else (b, (before @ t1) @ t2))
            in if n > 0 then old @ [alef_bet ! nat n] else old)) = ((before @ t1) @ t2) @ t3"
    "hebrew_value t3 = b" "length t3 \<le> 2" by (rule rest_append [OF bb])
  define t where "t = t1 @ t2 @ t3"
  have t: "((before @ t1) @ t2) @ t3 = before @ t" "hebrew_value t = k" "length t \<le> 5"
    using t1(2,3) t2(2,3) t3(2,3) by (simp_all add: t_def a_def b_def)
  have run: "heb_number_to_chars n fl = Some
      (if CAL_JEWISH_ADD_GERESHAYIM AND fl \<noteq> 0
       then if length (before @ t) - length before = 0 then before @ t
            else if length (before @ t) - length before = 1 then (before @ t) @ [CHR 0x27]
            else butlast (before @ t) @ [CHR 0x22] @ [last (before @ t)]
       else before @ t)"
  proof -
    have g: "\<not> (n > 9999 \<or> n < 1)" using assms by simp
    show ?thesis
      unfolding heb_number_to_chars_def if_not_P [OF g] start_def [symmetric] s Let_def prod.case t1(1) a_def [symmetric] t2(1) b_def [symmetric]
        t3(1) [unfolded Let_def] t(1) ..
  qed
  have res: thesis if "heb_number_to_chars n fl = Some (before @ u)" "hebrew_value u = k" "length u \<le> length t + 1" for u
    using that(1-3) k t(3) by (intro result [of before u]) simp_all
  consider "t = []" | c where "t = [c]" | "2 \<le> length t" by (cases t; cases "tl t") auto
  then show thesis
  proof cases
    case 1
    then show ?thesis using run t(2) by (intro res [of t]) simp_all
  next
    case (2 c)
    show ?thesis
    proof (cases "CAL_JEWISH_ADD_GERESHAYIM AND fl \<noteq> 0")
      case True
      then show ?thesis using run t(2) 2 by (intro res [of "t @ [CHR 0x27]"]) (simp_all add: mark_values)
    next
      case False
      then show ?thesis using run t(2) by (intro res [of t]) simp_all
    qed
  next
    case 3
    then have ne: "t \<noteq> []" by auto
    show ?thesis
    proof (cases "CAL_JEWISH_ADD_GERESHAYIM AND fl \<noteq> 0")
      case True
      have "length (butlast t @ [CHR 0x22] @ [last t]) = length t + 1" using ne by (cases t rule: rev_cases) simp_all
      then show ?thesis using run t(2) 3 ne True gershayim [OF ne] by (intro res [of "butlast t @ [CHR 0x22] @ [last t]"]) (simp_all add: butlast_append)
    next
      case False
      then show ?thesis using run t(2) by (intro res [of t]) simp_all
    qed
  qed
qed

end
