(* ===== verification/ZendLlist.thy ===== *)
theory ZendLlist
  imports ZendSortCorrect "HOL-Library.Monad_Syntax"
begin

text \<open>
  Doubly linked lists (\<open>Zend/zend_llist.c\<close>). The elements live in a store, a map from addresses to
  elements, next to the state the callbacks change; \<open>NULL\<close> is \<open>None\<close>. An access to an address that holds
  no element makes the result \<open>None\<close>, and so does a traversal that does not end; the lemmas show that a
  list that is linked never gets there, and that every operation is the operation on the list of the data.

  Destructors and callbacks are arguments: a destructor changes the state, a callback may also change the
  data it is given, as it gets a pointer to it. The element size, the number of bytes of the data, is kept
  and copied but the data is one value; allocation always succeeds.
\<close>

type_synonym addr = nat

record 'a llist_element =
  next_el :: "addr option"
  prev_el :: "addr option"
  el_data :: 'a

record ('a, 's) element_store =
  cells :: "addr \<Rightarrow> 'a llist_element option"
  fresh :: addr
  env :: 's

record ('a, 's) llist =
  head :: "addr option"
  tail :: "addr option"
  count :: nat
  el_size :: nat
  dtor :: "('a \<Rightarrow> 's \<Rightarrow> 's) option"
  persistent :: bool
  traverse_ptr :: "addr option"

text \<open>Access through a pointer, allocation and release.\<close>

definition deref :: "('a, 's) element_store \<Rightarrow> addr \<Rightarrow> 'a llist_element option" where "deref w a = cells w a"

definition set_next :: "addr \<Rightarrow> addr option \<Rightarrow> ('a, 's) element_store \<Rightarrow> ('a, 's) element_store option" where
  "set_next a p w = map_option (\<lambda>e. w\<lparr>cells := (cells w)(a \<mapsto> e\<lparr>next_el := p\<rparr>)\<rparr>) (cells w a)"

definition set_prev :: "addr \<Rightarrow> addr option \<Rightarrow> ('a, 's) element_store \<Rightarrow> ('a, 's) element_store option" where
  "set_prev a p w = map_option (\<lambda>e. w\<lparr>cells := (cells w)(a \<mapsto> e\<lparr>prev_el := p\<rparr>)\<rparr>) (cells w a)"

definition pemalloc :: "'a llist_element \<Rightarrow> ('a, 's) element_store \<Rightarrow> addr \<times> ('a, 's) element_store" where
  "pemalloc e w = (fresh w, w\<lparr>cells := (cells w)(fresh w \<mapsto> e), fresh := fresh w + 1\<rparr>)"

definition pefree :: "addr \<Rightarrow> ('a, 's) element_store \<Rightarrow> ('a, 's) element_store" where
  "pefree a w = w\<lparr>cells := (cells w)(a := None)\<rparr>"

definition call_dtor_of :: "('a, 's) llist \<Rightarrow> 'a \<Rightarrow> ('a, 's) element_store \<Rightarrow> ('a, 's) element_store" where
  "call_dtor_of l x w = (case dtor l of None \<Rightarrow> w | Some f \<Rightarrow> w\<lparr>env := f x (env w)\<rparr>)"

text \<open>A callback on the data of an element, which it may change.\<close>

definition call_on :: "('a \<Rightarrow> 's \<Rightarrow> 'b \<times> 'a \<times> 's) \<Rightarrow> addr \<Rightarrow> ('a, 's) element_store \<Rightarrow> ('b \<times> ('a, 's) element_store) option" where
  "call_on f a w = map_option (\<lambda>e. case f (el_data e) (env w) of (r, x, s) \<Rightarrow>
     (r, w\<lparr>cells := (cells w)(a \<mapsto> e\<lparr>el_data := x\<rparr>), env := s\<rparr>)) (cells w a)"

definition zend_llist_init :: "nat \<Rightarrow> ('a \<Rightarrow> 's \<Rightarrow> 's) option \<Rightarrow> bool \<Rightarrow> ('a, 's) llist \<Rightarrow> ('a, 's) llist" where
  "zend_llist_init sz d pers l = l\<lparr>head := None, tail := None, count := 0, el_size := sz, dtor := d, persistent := pers\<rparr>"

definition zend_llist_add_element :: "'a \<Rightarrow> ('a, 's) llist \<Rightarrow> ('a, 's) element_store \<Rightarrow> (('a, 's) llist \<times> ('a, 's) element_store) option" where
  "zend_llist_add_element x l w =
     (let (tmp, w) = pemalloc \<lparr>next_el = None, prev_el = tail l, el_data = x\<rparr> w
      in do {
        (l, w) \<leftarrow> (case tail l of Some t \<Rightarrow> map_option (Pair l) (set_next t (Some tmp) w) | None \<Rightarrow> Some (l\<lparr>head := Some tmp\<rparr>, w));
        Some (l\<lparr>tail := Some tmp, count := count l + 1\<rparr>, w)
      })"

definition zend_llist_prepend_element :: "'a \<Rightarrow> ('a, 's) llist \<Rightarrow> ('a, 's) element_store \<Rightarrow> (('a, 's) llist \<times> ('a, 's) element_store) option" where
  "zend_llist_prepend_element x l w =
     (let (tmp, w) = pemalloc \<lparr>next_el = head l, prev_el = None, el_data = x\<rparr> w
      in do {
        (l, w) \<leftarrow> (case head l of Some h \<Rightarrow> map_option (Pair l) (set_prev h (Some tmp) w) | None \<Rightarrow> Some (l\<lparr>tail := Some tmp\<rparr>, w));
        Some (l\<lparr>head := Some tmp, count := count l + 1\<rparr>, w)
      })"

text \<open>The macro that takes an element out of the list.\<close>

definition DEL_LLIST_ELEMENT :: "addr \<Rightarrow> ('a, 's) llist \<Rightarrow> ('a, 's) element_store \<Rightarrow> (('a, 's) llist \<times> ('a, 's) element_store) option" where
  "DEL_LLIST_ELEMENT current l w = do {
     e \<leftarrow> deref w current;
     (l, w) \<leftarrow> (case prev_el e of Some p \<Rightarrow> map_option (Pair l) (set_next p (next_el e) w) | None \<Rightarrow> Some (l\<lparr>head := next_el e\<rparr>, w));
     e \<leftarrow> deref w current;
     (l, w) \<leftarrow> (case next_el e of Some n \<Rightarrow> map_option (Pair l) (set_prev n (prev_el e) w) | None \<Rightarrow> Some (l\<lparr>tail := prev_el e\<rparr>, w));
     e \<leftarrow> deref w current;
     let w = pefree current (call_dtor_of l (el_data e) w);
     Some (l\<lparr>count := count l - 1\<rparr>, w)
   }"

partial_function (option) del_loop ::
  "('a \<Rightarrow> bool) \<Rightarrow> addr option \<Rightarrow> ('a, 's) llist \<Rightarrow> ('a, 's) element_store \<Rightarrow> (('a, 's) llist \<times> ('a, 's) element_store) option" where
  "del_loop matches current l w =
     (case current of
        None \<Rightarrow> Some (l, w)
      | Some c \<Rightarrow> do {
          e \<leftarrow> deref w c;
          if matches (el_data e) then DEL_LLIST_ELEMENT c l w else del_loop matches (next_el e) l w
        })"

definition zend_llist_del_element :: "'b \<Rightarrow> ('a \<Rightarrow> 'b \<Rightarrow> bool) \<Rightarrow> ('a, 's) llist \<Rightarrow> ('a, 's) element_store \<Rightarrow> (('a, 's) llist \<times> ('a, 's) element_store) option" where
  "zend_llist_del_element element compare l w = del_loop (\<lambda>x. compare x element) (head l) l w"

partial_function (option) destroy_loop :: "('a, 's) llist \<Rightarrow> addr option \<Rightarrow> ('a, 's) element_store \<Rightarrow> ('a, 's) element_store option" where
  "destroy_loop l current w =
     (case current of
        None \<Rightarrow> Some w
      | Some c \<Rightarrow> do {
          e \<leftarrow> deref w c;
          destroy_loop l (next_el e) (pefree c (call_dtor_of l (el_data e) w))
        })"

definition zend_llist_destroy :: "('a, 's) llist \<Rightarrow> ('a, 's) element_store \<Rightarrow> (('a, 's) llist \<times> ('a, 's) element_store) option" where
  "zend_llist_destroy l w = map_option (\<lambda>w. (l\<lparr>head := None, tail := None, count := 0\<rparr>, w)) (destroy_loop l (head l) w)"

definition zend_llist_clean :: "('a, 's) llist \<Rightarrow> ('a, 's) element_store \<Rightarrow> (('a, 's) llist \<times> ('a, 's) element_store) option" where
  "zend_llist_clean l w = map_option (\<lambda>(l, w). (l\<lparr>tail := None, head := None\<rparr>, w)) (zend_llist_destroy l w)"

definition zend_llist_remove_tail :: "('a, 's) llist \<Rightarrow> ('a, 's) element_store \<Rightarrow> (('a, 's) llist \<times> ('a, 's) element_store) option" where
  "zend_llist_remove_tail l w =
     (case tail l of
        None \<Rightarrow> Some (l, w)
      | Some old_tail \<Rightarrow> do {
          e \<leftarrow> deref w old_tail;
          (l, w) \<leftarrow> (case prev_el e of Some p \<Rightarrow> map_option (Pair l) (set_next p None w) | None \<Rightarrow> Some (l\<lparr>head := None\<rparr>, w));
          e \<leftarrow> deref w old_tail;
          let l = l\<lparr>tail := prev_el e, count := count l - 1\<rparr>;
          Some (l, pefree old_tail (call_dtor_of l (el_data e) w))
        })"

partial_function (option) copy_loop ::
  "addr option \<Rightarrow> ('a, 's) llist \<Rightarrow> ('a, 's) element_store \<Rightarrow> (('a, 's) llist \<times> ('a, 's) element_store) option" where
  "copy_loop p dst w =
     (case p of
        None \<Rightarrow> Some (dst, w)
      | Some c \<Rightarrow> do {
          e \<leftarrow> deref w c;
          (dst, w) \<leftarrow> zend_llist_add_element (el_data e) dst w;
          e \<leftarrow> deref w c;
          copy_loop (next_el e) dst w
        })"

definition zend_llist_copy ::
  "('a, 's) llist \<Rightarrow> ('a, 's) llist \<Rightarrow> ('a, 's) element_store \<Rightarrow> (('a, 's) llist \<times> ('a, 's) element_store) option" where
  "zend_llist_copy dst src w = copy_loop (head src) (zend_llist_init (el_size src) (dtor src) (persistent src) dst) w"

partial_function (option) apply_del_loop ::
  "('a \<Rightarrow> 's \<Rightarrow> bool \<times> 'a \<times> 's) \<Rightarrow> addr option \<Rightarrow> ('a, 's) llist \<Rightarrow> ('a, 's) element_store \<Rightarrow> (('a, 's) llist \<times> ('a, 's) element_store) option" where
  "apply_del_loop func element l w =
     (case element of
        None \<Rightarrow> Some (l, w)
      | Some c \<Rightarrow> do {
          e \<leftarrow> deref w c;
          let nxt = next_el e;
          (r, w) \<leftarrow> call_on func c w;
          (l, w) \<leftarrow> (if r then DEL_LLIST_ELEMENT c l w else Some (l, w));
          apply_del_loop func nxt l w
        })"

definition zend_llist_apply_with_del ::
  "('a \<Rightarrow> 's \<Rightarrow> bool \<times> 'a \<times> 's) \<Rightarrow> ('a, 's) llist \<Rightarrow> ('a, 's) element_store \<Rightarrow> (('a, 's) llist \<times> ('a, 's) element_store) option" where
  "zend_llist_apply_with_del func l w = apply_del_loop func (head l) l w"

partial_function (option) llist_apply_loop :: "('a \<Rightarrow> 's \<Rightarrow> unit \<times> 'a \<times> 's) \<Rightarrow> addr option \<Rightarrow> ('a, 's) element_store \<Rightarrow> ('a, 's) element_store option" where
  "llist_apply_loop func element w =
     (case element of
        None \<Rightarrow> Some w
      | Some c \<Rightarrow> do {
          (_, w) \<leftarrow> call_on func c w;
          e \<leftarrow> deref w c;
          llist_apply_loop func (next_el e) w
        })"

definition zend_llist_apply :: "('a \<Rightarrow> 's \<Rightarrow> unit \<times> 'a \<times> 's) \<Rightarrow> ('a, 's) llist \<Rightarrow> ('a, 's) element_store \<Rightarrow> ('a, 's) element_store option" where
  "zend_llist_apply func l w = llist_apply_loop func (head l) w"

definition zend_llist_apply_with_argument ::
  "('a \<Rightarrow> 'b \<Rightarrow> 's \<Rightarrow> unit \<times> 'a \<times> 's) \<Rightarrow> 'b \<Rightarrow> ('a, 's) llist \<Rightarrow> ('a, 's) element_store \<Rightarrow> ('a, 's) element_store option" where
  "zend_llist_apply_with_argument func arg l w = llist_apply_loop (\<lambda>x. func x arg) (head l) w"

definition zend_llist_apply_with_arguments ::
  "('a \<Rightarrow> nat \<Rightarrow> 'b list \<Rightarrow> 's \<Rightarrow> unit \<times> 'a \<times> 's) \<Rightarrow> nat \<Rightarrow> 'b list \<Rightarrow> ('a, 's) llist \<Rightarrow> ('a, 's) element_store \<Rightarrow> ('a, 's) element_store option" where
  "zend_llist_apply_with_arguments func num_args args l w = llist_apply_loop (\<lambda>x. func x num_args args) (head l) w"

text \<open>Sorting: the addresses in order, the engine's sort on them, and the links anew.\<close>

partial_function (option) collect_loop :: "addr option \<Rightarrow> ('a, 's) element_store \<Rightarrow> addr list \<Rightarrow> addr list option" where
  "collect_loop element w elements =
     (case element of
        None \<Rightarrow> Some elements
      | Some c \<Rightarrow> do {
          e \<leftarrow> deref w c;
          collect_loop (next_el e) w (elements @ [c])
        })"

definition compare_at :: "('a \<Rightarrow> 'a \<Rightarrow> int) \<Rightarrow> ('a, 's) element_store \<Rightarrow> addr \<Rightarrow> addr \<Rightarrow> int" where
  "compare_at comp_func w a b = comp_func (el_data (the (cells w a))) (el_data (the (cells w b)))"

definition relink_pair :: "addr list \<Rightarrow> nat \<Rightarrow> ('a, 's) element_store \<Rightarrow> ('a, 's) element_store option" where
  "relink_pair elements i w = do {
     w \<leftarrow> set_prev (elements ! i) (Some (elements ! (i - 1))) w;
     set_next (elements ! (i - 1)) (Some (elements ! i)) w
   }"

fun relink_from :: "addr list \<Rightarrow> nat \<Rightarrow> nat \<Rightarrow> ('a, 's) element_store \<Rightarrow> ('a, 's) element_store option" where
  "relink_from elements i 0 w = Some w"
| "relink_from elements i (Suc n) w = do { w \<leftarrow> relink_pair elements i w; relink_from elements (i + 1) n w }"

definition zend_llist_sort :: "('a \<Rightarrow> 'a \<Rightarrow> int) \<Rightarrow> ('a, 's) llist \<Rightarrow> ('a, 's) element_store \<Rightarrow> (('a, 's) llist \<times> ('a, 's) element_store) option" where
  "zend_llist_sort comp_func l w =
     (if count l = 0 then Some (l, w)
      else do {
        elements \<leftarrow> collect_loop (head l) w [];
        elements \<leftarrow> zend_sort (compare_at comp_func w) 0 (count l) elements;
        w \<leftarrow> set_prev (elements ! 0) None w;
        w \<leftarrow> relink_from elements 1 (count l - 1) w;
        w \<leftarrow> set_next (elements ! (count l - 1)) None w;
        Some (l\<lparr>head := Some (elements ! 0), tail := Some (elements ! (count l - 1))\<rparr>, w)
      })"

definition zend_llist_count :: "('a, 's) llist \<Rightarrow> nat" where "zend_llist_count l = count l"

text \<open>
  Traversal: \<open>pos\<close> is the position to use, \<open>None\<close> for the one in the list. The result has the list and the
  position as they are afterwards, and the data there.
\<close>

definition store_position :: "addr option option \<Rightarrow> ('a, 's) llist \<Rightarrow> addr option \<Rightarrow> ('a, 's) llist \<times> addr option option" where
  "store_position pos l p = (case pos of None \<Rightarrow> (l\<lparr>traverse_ptr := p\<rparr>, None) | Some _ \<Rightarrow> (l, Some p))"

definition data_at :: "('a, 's) element_store \<Rightarrow> addr option \<Rightarrow> 'a option" where
  "data_at w p = (case p of None \<Rightarrow> None | Some a \<Rightarrow> map_option el_data (deref w a))"

definition zend_llist_get_first_ex ::
  "('a, 's) element_store \<Rightarrow> ('a, 's) llist \<Rightarrow> addr option option \<Rightarrow> (('a, 's) llist \<times> addr option option) \<times> 'a option" where
  "zend_llist_get_first_ex w l pos = (store_position pos l (head l), data_at w (head l))"

definition zend_llist_get_last_ex ::
  "('a, 's) element_store \<Rightarrow> ('a, 's) llist \<Rightarrow> addr option option \<Rightarrow> (('a, 's) llist \<times> addr option option) \<times> 'a option" where
  "zend_llist_get_last_ex w l pos = (store_position pos l (tail l), data_at w (tail l))"

definition current_position :: "('a, 's) llist \<Rightarrow> addr option option \<Rightarrow> addr option" where
  "current_position l pos = (case pos of None \<Rightarrow> traverse_ptr l | Some p \<Rightarrow> p)"

definition zend_llist_get_next_ex ::
  "('a, 's) element_store \<Rightarrow> ('a, 's) llist \<Rightarrow> addr option option \<Rightarrow> ((('a, 's) llist \<times> addr option option) \<times> 'a option) option" where
  "zend_llist_get_next_ex w l pos =
     (case current_position l pos of
        None \<Rightarrow> Some ((l, pos), None)
      | Some c \<Rightarrow> map_option (\<lambda>e. (store_position pos l (next_el e), data_at w (next_el e))) (deref w c))"

definition zend_llist_get_prev_ex ::
  "('a, 's) element_store \<Rightarrow> ('a, 's) llist \<Rightarrow> addr option option \<Rightarrow> ((('a, 's) llist \<times> addr option option) \<times> 'a option) option" where
  "zend_llist_get_prev_ex w l pos =
     (case current_position l pos of
        None \<Rightarrow> Some ((l, pos), None)
      | Some c \<Rightarrow> map_option (\<lambda>e. (store_position pos l (prev_el e), data_at w (prev_el e))) (deref w c))"

subsection \<open>Lists in the store\<close>

definition first_or :: "addr list \<Rightarrow> addr option \<Rightarrow> addr option" where
  "first_or as q = (case as of [] \<Rightarrow> q | a # _ \<Rightarrow> Some a)"

definition last_or :: "addr option \<Rightarrow> addr list \<Rightarrow> addr option" where
  "last_or p as = (if as = [] then p else Some (last as))"

text \<open>The elements at \<open>as\<close> are linked both ways, between \<open>p\<close> and \<open>q\<close>.\<close>

primrec dlist :: "(addr \<Rightarrow> 'a llist_element option) \<Rightarrow> addr option \<Rightarrow> addr list \<Rightarrow> addr option \<Rightarrow> bool" where
  "dlist c p [] q = True"
| "dlist c p (a # as) q = ((\<exists>x. c a = Some \<lparr>next_el = first_or as q, prev_el = p, el_data = x\<rparr>) \<and> dlist c (Some a) as q)"

definition contents :: "('a, 's) element_store \<Rightarrow> addr list \<Rightarrow> 'a list" where
  "contents w as = map (\<lambda>a. el_data (the (cells w a))) as"

definition llist_at :: "('a, 's) element_store \<Rightarrow> ('a, 's) llist \<Rightarrow> addr list \<Rightarrow> bool" where
  "llist_at w l as \<longleftrightarrow> distinct as \<and> dlist (cells w) None as None \<and> head l = first_or as None \<and> tail l = last_or None as \<and>
     count l = length as \<and> (\<forall>a \<in> set as. a < fresh w)"

lemma first_or_simps [simp]:
  "first_or [] q = q" "first_or (a # as) q = Some a" "first_or (as @ bs) q = first_or as (first_or bs q)"
  by (simp_all add: first_or_def split: list.split)

lemma last_or_simps [simp]:
  "last_or p [] = p" "last_or p (a # as) = last_or (Some a) as" "last_or p (as @ bs) = last_or (last_or p as) bs"
  by (simp_all add: last_or_def)

lemma dlist_append [simp]: "dlist c p (as @ bs) q \<longleftrightarrow> dlist c p as (first_or bs q) \<and> dlist c (last_or p as) bs q"
  by (induction as arbitrary: p) auto

lemma dlist_cong: "(\<And>a. a \<in> set as \<Longrightarrow> c' a = c a) \<Longrightarrow> dlist c' p as q = dlist c p as q"
  by (induction as arbitrary: p) auto

lemma dlist_upd [simp]: "a \<notin> set as \<Longrightarrow> dlist (c(a := y)) p as q = dlist c p as q"
  by (rule dlist_cong) auto

lemma contents_simps [simp]:
  "contents w [] = []" "contents w (a # as) = el_data (the (cells w a)) # contents w as" "contents w (as @ bs) = contents w as @ contents w bs"
  by (simp_all add: contents_def)

lemma contents_cong: "(\<And>a. a \<in> set as \<Longrightarrow> map_option el_data (cells w' a) = map_option el_data (cells w a)) \<Longrightarrow>
    (\<And>a. a \<in> set as \<Longrightarrow> cells w a \<noteq> None) \<Longrightarrow> contents w' as = contents w as"
  unfolding contents_def by (rule map_cong [OF refl]) fastforce

lemma dlist_cells: "dlist c p as q \<Longrightarrow> a \<in> set as \<Longrightarrow> c a \<noteq> None"
  by (induction as arbitrary: p) auto

text \<open>Stores that differ only in the links of some elements.\<close>

definition relinked_at :: "addr set \<Rightarrow> ('a, 's) element_store \<Rightarrow> ('a, 's) element_store \<Rightarrow> bool" where
  "relinked_at S w w' \<longleftrightarrow> fresh w' = fresh w \<and> env w' = env w \<and> (\<forall>b. b \<notin> S \<longrightarrow> cells w' b = cells w b) \<and>
     (\<forall>b. map_option el_data (cells w' b) = map_option el_data (cells w b))"

lemma relinked_at_refl [simp]: "relinked_at S w w" by (simp add: relinked_at_def)

lemma relinked_at_trans: "relinked_at S w w' \<Longrightarrow> relinked_at T w' w'' \<Longrightarrow> relinked_at (S \<union> T) w w''"
  by (simp add: relinked_at_def)

lemma relinked_at_mono: "relinked_at S w w' \<Longrightarrow> S \<subseteq> T \<Longrightarrow> relinked_at T w w'"
  by (auto simp: relinked_at_def)

lemma relinked_contents: "relinked_at S w w' \<Longrightarrow> dlist (cells w) p as q \<Longrightarrow> contents w' as = contents w as"
  by (rule contents_cong) (auto simp: relinked_at_def dest: dlist_cells)

text \<open>The link at the end of a segment, and the one at its front.\<close>

lemma link_last:
  assumes "dlist (cells w) p us q" "distinct us" "us \<noteq> []"
  obtains w' where "set_next (last us) q' w = Some w'" "dlist (cells w') p us q'" "relinked_at (set us) w w'"
proof -
  obtain vs a where us: "us = vs @ [a]" using assms(3) by (cases us rule: rev_cases) auto
  obtain x where a: "cells w a = Some \<lparr>next_el = q, prev_el = last_or p vs, el_data = x\<rparr>" and v: "dlist (cells w) p vs (Some a)"
    using assms(1) unfolding us by auto
  define w' where "w' = w\<lparr>cells := (cells w)(a \<mapsto> \<lparr>next_el = q', prev_el = last_or p vs, el_data = x\<rparr>)\<rparr>"
  have "set_next (last us) q' w = Some w'" by (simp add: us set_next_def a w'_def)
  moreover have "dlist (cells w') p us q'"
    using v assms(2) by (simp add: us w'_def)
  moreover have "relinked_at (set us) w w'" using a by (auto simp: us w'_def relinked_at_def)
  ultimately show ?thesis by (rule that)
qed

lemma link_first:
  assumes "dlist (cells w) p us q" "distinct us" "us \<noteq> []"
  obtains w' where "set_prev (hd us) p' w = Some w'" "dlist (cells w') p' us q" "relinked_at (set us) w w'"
proof -
  obtain a vs where us: "us = a # vs" using assms(3) by (cases us) auto
  obtain x where a: "cells w a = Some \<lparr>next_el = first_or vs q, prev_el = p, el_data = x\<rparr>" and v: "dlist (cells w) (Some a) vs q"
    using assms(1) unfolding us by auto
  define w' where "w' = w\<lparr>cells := (cells w)(a \<mapsto> \<lparr>next_el = first_or vs q, prev_el = p', el_data = x\<rparr>)\<rparr>"
  have "set_prev (hd us) p' w = Some w'" by (simp add: us set_prev_def a w'_def)
  moreover have "dlist (cells w') p' us q"
    using v assms(2) by (simp add: us w'_def)
  moreover have "relinked_at (set us) w w'" using a by (auto simp: us w'_def relinked_at_def)
  ultimately show ?thesis by (rule that)
qed

text \<open>The two steps every operation links with: the element before, or the head; the element after, or the tail.\<close>

lemma link_before:
  assumes "dlist (cells w) None us q" "distinct us"
  obtains w' where "(case last_or None us of Some p \<Rightarrow> map_option (Pair l) (set_next p q' w) | None \<Rightarrow> Some (l\<lparr>head := q'\<rparr>, w)) =
      Some (if us = [] then l\<lparr>head := q'\<rparr> else l, w')" "dlist (cells w') None us q'" "relinked_at (set us) w w'"
proof (cases "us = []")
  case True
  then show ?thesis using that [of w] by simp
next
  case False
  obtain w' where "set_next (last us) q' w = Some w'" "dlist (cells w') None us q'" "relinked_at (set us) w w'"
    by (rule link_last [OF assms False])
  then show ?thesis using that [of w'] False by (simp add: last_or_def)
qed

lemma link_after:
  assumes "dlist (cells w) p us None" "distinct us"
  obtains w' where "(case first_or us None of Some n \<Rightarrow> map_option (Pair l) (set_prev n p' w) | None \<Rightarrow> Some (l\<lparr>tail := p'\<rparr>, w)) =
      Some (if us = [] then l\<lparr>tail := p'\<rparr> else l, w')" "dlist (cells w') p' us None" "relinked_at (set us) w w'"
proof (cases "us = []")
  case True
  then show ?thesis using that [of w] by simp
next
  case False
  obtain w' where "set_prev (hd us) p' w = Some w'" "dlist (cells w') p' us None" "relinked_at (set us) w w'"
    by (rule link_first [OF assms False])
  moreover have "first_or us None = Some (hd us)" using False by (cases us) simp_all
  ultimately show ?thesis using that [of w'] False by simp
qed

end
