(* ===== verification/ZendLlistOps.thy ===== *)
theory ZendLlistOps
  imports ZendLlist
begin

text \<open>
  What the operations of \<open>zend_llist.c\<close> do to the list of the data. Each lemma says that the operation
  returns, that the list is linked afterwards, which data it holds and which state the callbacks leave, and
  that no element of the store outside the list is touched.
\<close>

definition llist_step ::
  "('a, 's) element_store \<Rightarrow> ('a, 's) llist \<Rightarrow> addr list \<Rightarrow> ('a, 's) element_store \<Rightarrow> ('a, 's) llist \<Rightarrow> addr list \<Rightarrow> bool" where
  "llist_step w l as w' l' as' \<longleftrightarrow> llist_at w' l' as' \<and> fresh w \<le> fresh w' \<and> set as' \<subseteq> set as \<union> {fresh w..<fresh w'} \<and>
     (\<forall>b. b \<notin> set as \<union> {fresh w..<fresh w'} \<longrightarrow> cells w' b = cells w b) \<and> dtor l' = dtor l"

definition run_list_dtor :: "('a \<Rightarrow> 's \<Rightarrow> 's) option \<Rightarrow> 'a \<Rightarrow> 's \<Rightarrow> 's" where
  "run_list_dtor d x s = (case d of None \<Rightarrow> s | Some f \<Rightarrow> f x s)"

lemma llist_atD:
  assumes "llist_at w l as"
  shows "distinct as" "dlist (cells w) None as None" "head l = first_or as None" "tail l = last_or None as" "count l = length as"
    "a \<in> set as \<Longrightarrow> a < fresh w"
  using assms by (simp_all add: llist_at_def)

lemma llist_step_refl: "llist_at w l as \<Longrightarrow> llist_step w l as w l as"
  by (simp add: llist_step_def)

lemma llist_step_trans: "llist_step w l as w' l' as' \<Longrightarrow> llist_step w' l' as' w'' l'' as'' \<Longrightarrow> llist_step w l as w'' l'' as''"
  unfolding llist_step_def by (intro conjI; fastforce)

lemma deref_cells [simp]: "deref w a = cells w a" by (simp add: deref_def)

lemma call_dtor_of_simps [simp]:
  "cells (call_dtor_of l x w) = cells w" "fresh (call_dtor_of l x w) = fresh w" "env (call_dtor_of l x w) = run_list_dtor (dtor l) x (env w)"
  by (simp_all add: call_dtor_of_def run_list_dtor_def split: option.split)

lemma pefree_simps [simp]:
  "cells (pefree a w) = (cells w)(a := None)" "fresh (pefree a w) = fresh w" "env (pefree a w) = env w"
  by (simp_all add: pefree_def)

lemma first_or_ne: "as \<noteq> [] \<Longrightarrow> first_or as q = Some (hd as)"
  by (cases as) simp_all

subsection \<open>Adding\<close>

lemma add_element:
  assumes "llist_at w l as"
  obtains l' w' where "zend_llist_add_element x l w = Some (l', w')" "llist_step w l as w' l' (as @ [fresh w])"
    "contents w' (as @ [fresh w]) = contents w as @ [x]" "env w' = env w"
proof -
  note A = llist_atD [OF assms]
  define w0 where "w0 = w\<lparr>cells := (cells w)(fresh w \<mapsto> \<lparr>next_el = None, prev_el = tail l, el_data = x\<rparr>), fresh := fresh w + 1\<rparr>"
  have f: "fresh w \<notin> set as" using A(6) by auto
  have d0: "dlist (cells w0) None as None" using A(2) f by (simp add: w0_def)
  obtain w' where w': "(case last_or None as of Some p \<Rightarrow> map_option (Pair l) (set_next p (Some (fresh w)) w0) | None \<Rightarrow> Some (l\<lparr>head := Some (fresh w)\<rparr>, w0)) =
      Some (if as = [] then l\<lparr>head := Some (fresh w)\<rparr> else l, w')" "dlist (cells w') None as (Some (fresh w))" "relinked_at (set as) w0 w'"
    by (rule link_before [OF d0 A(1)])
  define l' where "l' = (if as = [] then l\<lparr>head := Some (fresh w)\<rparr> else l)\<lparr>tail := Some (fresh w), count := count l + 1\<rparr>"
  have c: "cells w' (fresh w) = Some \<lparr>next_el = None, prev_el = tail l, el_data = x\<rparr>" "fresh w' = fresh w + 1" "env w' = env w"
    "\<And>b. b \<notin> set as \<Longrightarrow> b \<noteq> fresh w \<Longrightarrow> cells w' b = cells w b"
    using w'(3) f by (simp_all add: relinked_at_def w0_def)
  have "zend_llist_add_element x l w = Some (l', w')"
    unfolding zend_llist_add_element_def pemalloc_def Let_def prod.case w0_def [symmetric] unfolding A(4) w'(1) by (simp add: l'_def)
  moreover have "llist_at w' l' (as @ [fresh w])"
    using A f w'(2) c first_or_ne [of as] by (auto simp: llist_at_def l'_def less_Suc_eq)
  then have "llist_step w l as w' l' (as @ [fresh w])" using c by (auto simp: llist_step_def l'_def)
  moreover have "contents w' as = contents w as"
  proof -
    have "contents w0 as = contents w as" using f by (auto simp: contents_def w0_def)
    then show ?thesis using relinked_contents [OF w'(3) d0] by simp
  qed
  ultimately show ?thesis using that c by simp
qed

lemma prepend_element:
  assumes "llist_at w l as"
  obtains l' w' where "zend_llist_prepend_element x l w = Some (l', w')" "llist_step w l as w' l' (fresh w # as)"
    "contents w' (fresh w # as) = x # contents w as" "env w' = env w"
proof -
  note A = llist_atD [OF assms]
  define w0 where "w0 = w\<lparr>cells := (cells w)(fresh w \<mapsto> \<lparr>next_el = head l, prev_el = None, el_data = x\<rparr>), fresh := fresh w + 1\<rparr>"
  have f: "fresh w \<notin> set as" using A(6) by auto
  have d0: "dlist (cells w0) None as None" using A(2) f by (simp add: w0_def)
  obtain w' where w': "(case first_or as None of Some p \<Rightarrow> map_option (Pair l) (set_prev p (Some (fresh w)) w0) | None \<Rightarrow> Some (l\<lparr>tail := Some (fresh w)\<rparr>, w0)) =
      Some (if as = [] then l\<lparr>tail := Some (fresh w)\<rparr> else l, w')" "dlist (cells w') (Some (fresh w)) as None" "relinked_at (set as) w0 w'"
    by (rule link_after [OF d0 A(1)])
  define l' where "l' = (if as = [] then l\<lparr>tail := Some (fresh w)\<rparr> else l)\<lparr>head := Some (fresh w), count := count l + 1\<rparr>"
  have c: "cells w' (fresh w) = Some \<lparr>next_el = head l, prev_el = None, el_data = x\<rparr>" "fresh w' = fresh w + 1" "env w' = env w"
    "\<And>b. b \<notin> set as \<Longrightarrow> b \<noteq> fresh w \<Longrightarrow> cells w' b = cells w b"
    using w'(3) f by (simp_all add: relinked_at_def w0_def)
  have "zend_llist_prepend_element x l w = Some (l', w')"
    unfolding zend_llist_prepend_element_def pemalloc_def Let_def prod.case w0_def [symmetric] unfolding A(3) w'(1) by (simp add: l'_def)
  moreover have "llist_at w' l' (fresh w # as)"
    using A f w'(2) c by (auto simp: llist_at_def l'_def less_Suc_eq last_or_def)
  then have "llist_step w l as w' l' (fresh w # as)" using c by (auto simp: llist_step_def l'_def)
  moreover have "contents w' as = contents w as"
  proof -
    have "contents w0 as = contents w as" using f by (auto simp: contents_def w0_def)
    then show ?thesis using relinked_contents [OF w'(3) d0] by simp
  qed
  ultimately show ?thesis using that c by simp
qed

subsection \<open>Deleting\<close>

lemma del_llist_element:
  assumes "llist_at w l (us @ a # vs)"
  obtains l' w' where "DEL_LLIST_ELEMENT a l w = Some (l', w')" "llist_step w l (us @ a # vs) w' l' (us @ vs)"
    "contents w' (us @ vs) = contents w (us @ vs)" "env w' = run_list_dtor (dtor l) (el_data (the (cells w a))) (env w)" "fresh w' = fresh w"
proof -
  note A = llist_atD [OF assms]
  have dj: "distinct us" "distinct vs" "a \<notin> set us" "a \<notin> set vs" "set us \<inter> set vs = {}" using A(1) by auto
  obtain x where a: "cells w a = Some \<lparr>next_el = first_or vs None, prev_el = last_or None us, el_data = x\<rparr>"
    and d: "dlist (cells w) None us (Some a)" "dlist (cells w) (Some a) vs None" using A(2) by auto
  obtain w1 where w1: "(case last_or None us of Some p \<Rightarrow> map_option (Pair l) (set_next p (first_or vs None) w) | None \<Rightarrow> Some (l\<lparr>head := first_or vs None\<rparr>, w)) =
      Some (if us = [] then l\<lparr>head := first_or vs None\<rparr> else l, w1)" "dlist (cells w1) None us (first_or vs None)" "relinked_at (set us) w w1"
    by (rule link_before [OF d(1) dj(1)])
  define l1 where "l1 = (if us = [] then l\<lparr>head := first_or vs None\<rparr> else l)"
  have b1: "cells w1 b = cells w b" if "b \<in> insert a (set vs)" for b using w1(3) dj that by (auto simp: relinked_at_def)
  then have a1: "cells w1 a = cells w a" and v1: "dlist (cells w1) (Some a) vs None"
    using dlist_cong [of vs "cells w1" "cells w"] d(2) by auto
  obtain w2 where w2: "(case first_or vs None of Some n \<Rightarrow> map_option (Pair l1) (set_prev n (last_or None us) w1) | None \<Rightarrow> Some (l1\<lparr>tail := last_or None us\<rparr>, w1)) =
      Some (if vs = [] then l1\<lparr>tail := last_or None us\<rparr> else l1, w2)" "dlist (cells w2) (last_or None us) vs None" "relinked_at (set vs) w1 w2"
    by (rule link_after [OF v1 dj(2)])
  define l2 where "l2 = (if vs = [] then l1\<lparr>tail := last_or None us\<rparr> else l1)"
  have b2: "cells w2 b = cells w1 b" if "b \<in> insert a (set us)" for b using w2(3) dj that by (auto simp: relinked_at_def)
  then have a2: "cells w2 a = cells w a" and u2: "dlist (cells w2) None us (first_or vs None)"
    using dlist_cong [of us "cells w2" "cells w1"] w1(2) a1 by auto
  have r: "relinked_at (set us \<union> set vs) w w2" by (rule relinked_at_trans [OF w1(3) w2(3)])
  define w' where "w' = pefree a (call_dtor_of l2 x w2)"
  define l' where "l' = l2\<lparr>count := count l2 - 1\<rparr>"
  have "DEL_LLIST_ELEMENT a l w = Some (l', w')"
    using w1(1) w2(1) a a1 a2 by (simp add: DEL_LLIST_ELEMENT_def l1_def [symmetric] l2_def [symmetric] w'_def l'_def Let_def cong: option.case_cong)
  moreover have "llist_at w' l' (us @ vs)"
    using A dj u2 w2(2) r by (auto simp: first_or_ne llist_at_def w'_def l'_def l2_def l1_def relinked_at_def last_or_def)
  then have "llist_step w l (us @ a # vs) w' l' (us @ vs)"
    using r by (auto simp: llist_step_def w'_def l'_def l2_def l1_def relinked_at_def)
  moreover have "contents w' (us @ vs) = contents w (us @ vs)"
  proof -
    have "contents w' (us @ vs) = contents w2 (us @ vs)" using dj by (auto simp: contents_def w'_def)
    then show ?thesis using relinked_contents [OF r d(1)] relinked_contents [OF r d(2)] by simp
  qed
  moreover have "env w' = run_list_dtor (dtor l) x (env w)" "fresh w' = fresh w"
    using r by (simp_all add: w'_def l2_def l1_def relinked_at_def)
  ultimately show ?thesis using that a by simp
qed

lemma head_next: "dlist c p (a # as) q \<Longrightarrow> \<exists>x. c a = Some \<lparr>next_el = first_or as q, prev_el = p, el_data = x\<rparr>"
  by simp

lemma del_loop_correct:
  assumes "llist_at w l (us @ vs)"
  shows "\<exists>l' w' as'. del_loop P (first_or vs None) l w = Some (l', w') \<and> llist_step w l (us @ vs) w' l' as' \<and>
    (case dropWhile (\<lambda>x. \<not> P x) (contents w vs) of
       [] \<Rightarrow> contents w' as' = contents w (us @ vs) \<and> env w' = env w
     | x # _ \<Rightarrow> contents w' as' = contents w us @ takeWhile (\<lambda>x. \<not> P x) (contents w vs) @ tl (dropWhile (\<lambda>x. \<not> P x) (contents w vs)) \<and>
         env w' = run_list_dtor (dtor l) x (env w))"
  using assms
proof (induction vs arbitrary: us)
  case Nil
  then show ?case using llist_step_refl [of w l us] by (auto simp: del_loop.simps intro!: exI [of _ us])
next
  case (Cons a vs)
  obtain x where a: "cells w a = Some \<lparr>next_el = first_or vs None, prev_el = last_or None us, el_data = x\<rparr>"
    using llist_atD(2) [OF Cons.prems] by auto
  show ?case
  proof (cases "P x")
    case True
    obtain l' w' where "DEL_LLIST_ELEMENT a l w = Some (l', w')" "llist_step w l (us @ a # vs) w' l' (us @ vs)"
      "contents w' (us @ vs) = contents w (us @ vs)" "env w' = run_list_dtor (dtor l) (el_data (the (cells w a))) (env w)"
      by (rule del_llist_element [OF Cons.prems])
    then show ?thesis using True a by (subst del_loop.simps) auto
  next
    case False
    then have "del_loop P (first_or (a # vs) None) l w = del_loop P (first_or vs None) l w"
      using a by (subst del_loop.simps) simp
    then show ?thesis using Cons.IH [of "us @ [a]"] Cons.prems False a by (auto split: list.splits)
  qed
qed

lemma destroy_loop_correct:
  assumes "dlist (cells w) p as None" "distinct as"
  shows "\<exists>w'. destroy_loop l (first_or as None) w = Some w' \<and> (\<forall>b. cells w' b = (if b \<in> set as then None else cells w b)) \<and>
    fresh w' = fresh w \<and> env w' = fold (run_list_dtor (dtor l)) (contents w as) (env w)"
  using assms
proof (induction as arbitrary: p w)
  case Nil
  then show ?case by (simp add: destroy_loop.simps)
next
  case (Cons a as)
  obtain x where a: "cells w a = Some \<lparr>next_el = first_or as None, prev_el = p, el_data = x\<rparr>" using Cons.prems(1) by auto
  define w1 where "w1 = pefree a (call_dtor_of l x w)"
  have d: "dlist (cells w1) (Some a) as None" using Cons.prems by (simp add: w1_def)
  have c: "contents w1 as = contents w as" using Cons.prems(2) by (auto simp: contents_def w1_def)
  have "destroy_loop l (first_or (a # as) None) w = destroy_loop l (first_or as None) w1"
    using a by (subst destroy_loop.simps) (simp add: w1_def)
  then show ?case using Cons.IH [OF d] Cons.prems(2) a c by (auto simp: w1_def)
qed

lemma llist_destroy_correct:
  assumes "llist_at w l as"
  obtains l' w' where "zend_llist_destroy l w = Some (l', w')" "llist_step w l as w' l' []" "\<forall>a \<in> set as. cells w' a = None"
    "env w' = fold (run_list_dtor (dtor l)) (contents w as) (env w)" "head l' = None" "tail l' = None"
proof -
  note A = llist_atD [OF assms]
  obtain w' where w': "destroy_loop l (first_or as None) w = Some w'" "\<forall>b. cells w' b = (if b \<in> set as then None else cells w b)"
    "fresh w' = fresh w" "env w' = fold (run_list_dtor (dtor l)) (contents w as) (env w)"
    using destroy_loop_correct [OF A(2,1)] by blast
  show ?thesis
    by (rule that [of "l\<lparr>head := None, tail := None, count := 0\<rparr>" w'])
      (use w' in \<open>simp_all add: zend_llist_destroy_def A(3) llist_step_def llist_at_def\<close>)
qed

lemma remove_tail_correct:
  assumes "llist_at w l as"
  obtains l' w' where "zend_llist_remove_tail l w = Some (l', w')" "llist_step w l as w' l' (butlast as)"
    "contents w' (butlast as) = butlast (contents w as)"
    "env w' = (if as = [] then env w else run_list_dtor (dtor l) (last (contents w as)) (env w))"
proof (cases as rule: rev_cases)
  case Nil
  then show ?thesis using that [of l w] assms llist_atD(4) [OF assms] by (simp add: zend_llist_remove_tail_def llist_step_refl)
next
  case (snoc us a)
  note A = llist_atD [OF assms [unfolded snoc]]
  have dj: "distinct us" "a \<notin> set us" using A(1) by auto
  obtain x where a: "cells w a = Some \<lparr>next_el = None, prev_el = last_or None us, el_data = x\<rparr>" and d: "dlist (cells w) None us (Some a)"
    using A(2) by auto
  obtain w1 where w1: "(case last_or None us of Some p \<Rightarrow> map_option (Pair l) (set_next p None w) | None \<Rightarrow> Some (l\<lparr>head := None\<rparr>, w)) =
      Some (if us = [] then l\<lparr>head := None\<rparr> else l, w1)" "dlist (cells w1) None us None" "relinked_at (set us) w w1"
    by (rule link_before [OF d dj(1)])
  define l1 where "l1 = (if us = [] then l\<lparr>head := None\<rparr> else l)"
  define l' where "l' = l1\<lparr>tail := last_or None us, count := count l1 - 1\<rparr>"
  define w' where "w' = pefree a (call_dtor_of l' x w1)"
  have a1: "cells w1 a = cells w a" using w1(3) dj by (simp add: relinked_at_def)
  have "zend_llist_remove_tail l w = Some (l', w')"
    using w1(1) a a1 A(4) by (simp add: zend_llist_remove_tail_def l1_def [symmetric] l'_def w'_def Let_def cong: option.case_cong)
  moreover have "llist_at w' l' us"
    using A dj w1(2,3) by (auto simp: first_or_ne llist_at_def l'_def l1_def w'_def relinked_at_def)
  then have "llist_step w l as w' l' us"
    using w1(3) snoc by (auto simp: llist_step_def w'_def l'_def l1_def relinked_at_def)
  moreover have "contents w' us = contents w us"
  proof -
    have "contents w' us = contents w1 us" using dj by (auto simp: contents_def w'_def)
    then show ?thesis using relinked_contents [OF w1(3) d] by simp
  qed
  moreover have "env w' = run_list_dtor (dtor l) x (env w)" using w1(3) by (simp add: w'_def l'_def l1_def relinked_at_def)
  ultimately show ?thesis using that a snoc by simp
qed

subsection \<open>Callbacks\<close>

text \<open>What a pass does to the data and the state, without deletions and with them.\<close>

fun pass_over :: "('a \<Rightarrow> 's \<Rightarrow> unit \<times> 'a \<times> 's) \<Rightarrow> 'a list \<Rightarrow> 's \<Rightarrow> 'a list \<times> 's" where
  "pass_over f [] s = ([], s)"
| "pass_over f (x # xs) s = (case f x s of (_, y, s) \<Rightarrow> case pass_over f xs s of (ys, s) \<Rightarrow> (y # ys, s))"

fun pass_deleting :: "('a \<Rightarrow> 's \<Rightarrow> 's) option \<Rightarrow> ('a \<Rightarrow> 's \<Rightarrow> bool \<times> 'a \<times> 's) \<Rightarrow> 'a list \<Rightarrow> 's \<Rightarrow> 'a list \<times> 's" where
  "pass_deleting d f [] s = ([], s)"
| "pass_deleting d f (x # xs) s =
     (case f x s of (r, y, s) \<Rightarrow>
        if r then pass_deleting d f xs (run_list_dtor d y s)
        else (case pass_deleting d f xs s of (ys, s) \<Rightarrow> (y # ys, s)))"

text \<open>A callback leaves the links as they are.\<close>

lemma call_on_correct:
  assumes "llist_at w l (us @ a # vs)" "f (el_data (the (cells w a))) (env w) = (r, y, s)"
  obtains w' where "call_on f a w = Some (r, w')" "llist_step w l (us @ a # vs) w' l (us @ a # vs)"
    "el_data (the (cells w' a)) = y" "contents w' us = contents w us" "contents w' vs = contents w vs" "env w' = s" "fresh w' = fresh w"
    "map_option next_el (cells w' a) = Some (first_or vs None)"
proof -
  note A = llist_atD [OF assms(1)]
  obtain x where a: "cells w a = Some \<lparr>next_el = first_or vs None, prev_el = last_or None us, el_data = x\<rparr>"
    and d: "dlist (cells w) None us (Some a)" "dlist (cells w) (Some a) vs None" using A(2) by auto
  have dj: "a \<notin> set us" "a \<notin> set vs" using A(1) by auto
  define w' where "w' = w\<lparr>cells := (cells w)(a \<mapsto> \<lparr>next_el = first_or vs None, prev_el = last_or None us, el_data = y\<rparr>), env := s\<rparr>"
  have "call_on f a w = Some (r, w')" using assms(2) a by (simp add: call_on_def w'_def)
  moreover have "llist_at w' l (us @ a # vs)" using A d dj by (simp add: llist_at_def w'_def)
  then have "llist_step w l (us @ a # vs) w' l (us @ a # vs)" by (auto simp: llist_step_def w'_def)
  moreover have "contents w' us = contents w us" "contents w' vs = contents w vs" using dj by (auto simp: contents_def w'_def)
  ultimately show ?thesis using that [of w'] by (simp add: w'_def)
qed

lemma llist_apply_loop_correct:
  assumes "llist_at w l (us @ vs)"
  shows "\<exists>w'. llist_apply_loop f (first_or vs None) w = Some w' \<and> llist_step w l (us @ vs) w' l (us @ vs) \<and>
    contents w' us = contents w us \<and> pass_over f (contents w vs) (env w) = (contents w' vs, env w')"
  using assms
proof (induction vs arbitrary: us w)
  case Nil
  then show ?case by (auto simp: llist_apply_loop.simps llist_step_refl)
next
  case (Cons a vs)
  obtain r y s where f: "f (el_data (the (cells w a))) (env w) = (r, y, s)" by (metis prod_cases3)
  obtain w1 where w1: "call_on f a w = Some (r, w1)" "llist_step w l (us @ a # vs) w1 l (us @ a # vs)"
    "el_data (the (cells w1 a)) = y" "contents w1 us = contents w us" "contents w1 vs = contents w vs" "env w1 = s" "fresh w1 = fresh w"
    "map_option next_el (cells w1 a) = Some (first_or vs None)"
    by (rule call_on_correct [where f = f, OF Cons.prems f])
  have l1: "llist_at w1 l ((us @ [a]) @ vs)" using w1(2) by (simp add: llist_step_def)
  obtain w' where w': "llist_apply_loop f (first_or vs None) w1 = Some w'" "llist_step w1 l (us @ a # vs) w' l (us @ a # vs)"
    "contents w' (us @ [a]) = contents w1 (us @ [a])" "pass_over f (contents w1 vs) (env w1) = (contents w' vs, env w')"
    using Cons.IH [OF l1] by auto
  have "llist_apply_loop f (first_or (a # vs) None) w = Some w'"
    using w1(1,8) w'(1) by (subst llist_apply_loop.simps) auto
  moreover have "contents w' us = contents w us" "el_data (the (cells w' a)) = y" using w'(3) w1(3,4) by simp_all
  ultimately show ?case using llist_step_trans [OF w1(2) w'(2)] w'(4) w1(5,6) f by auto
qed

lemma apply_del_loop_correct:
  assumes "llist_at w l (us @ vs)"
  shows "\<exists>l' w' vs'. apply_del_loop f (first_or vs None) l w = Some (l', w') \<and> llist_step w l (us @ vs) w' l' (us @ vs') \<and>
    contents w' us = contents w us \<and> pass_deleting (dtor l) f (contents w vs) (env w) = (contents w' vs', env w')"
  using assms
proof (induction vs arbitrary: us l w)
  case Nil
  then show ?case using llist_step_refl [of w l us] by (auto simp: apply_del_loop.simps intro!: exI [of _ "[]"])
next
  case (Cons a vs)
  obtain r y s where f: "f (el_data (the (cells w a))) (env w) = (r, y, s)" by (metis prod_cases3)
  obtain w1 where w1: "call_on f a w = Some (r, w1)" "llist_step w l (us @ a # vs) w1 l (us @ a # vs)"
    "el_data (the (cells w1 a)) = y" "contents w1 us = contents w us" "contents w1 vs = contents w vs" "env w1 = s" "fresh w1 = fresh w"
    "map_option next_el (cells w1 a) = Some (first_or vs None)"
    by (rule call_on_correct [where f = f, OF Cons.prems f])
  have a: "\<exists>e. cells w a = Some e \<and> next_el e = first_or vs None" using llist_atD(2) [OF Cons.prems] by auto
  have l1: "llist_at w1 l (us @ a # vs)" using w1(2) by (simp add: llist_step_def)
  show ?case
  proof (cases r)
    case True
    obtain l2 w2 where w2: "DEL_LLIST_ELEMENT a l w1 = Some (l2, w2)" "llist_step w1 l (us @ a # vs) w2 l2 (us @ vs)"
      "contents w2 (us @ vs) = contents w1 (us @ vs)" "env w2 = run_list_dtor (dtor l) (el_data (the (cells w1 a))) (env w1)"
      by (rule del_llist_element [OF l1])
    have l2: "llist_at w2 l2 (us @ vs)" "dtor l2 = dtor l" using w2(2) by (simp_all add: llist_step_def)
    have c2: "contents w2 us = contents w us" "contents w2 vs = contents w vs"
      using w2(3) w1(4,5) by (simp_all add: contents_def append_eq_append_conv)
    obtain l' w' vs' where w': "apply_del_loop f (first_or vs None) l2 w2 = Some (l', w')" "llist_step w2 l2 (us @ vs) w' l' (us @ vs')"
      "contents w' us = contents w2 us" "pass_deleting (dtor l2) f (contents w2 vs) (env w2) = (contents w' vs', env w')"
      using Cons.IH [OF l2(1)] by blast
    have "apply_del_loop f (first_or (a # vs) None) l w = Some (l', w')"
      using a w1(1) w2(1) w'(1) True by (subst apply_del_loop.simps) auto
    moreover have "llist_step w l (us @ a # vs) w' l' (us @ vs')"
      by (rule llist_step_trans [OF w1(2) llist_step_trans [OF w2(2) w'(2)]])
    ultimately show ?thesis using w'(3,4) c2 l2(2) w2(4) w1(3,6) f True by (intro exI [of _ l'] exI [of _ w'] exI [of _ vs']) auto
  next
    case False
    have "llist_at w1 l ((us @ [a]) @ vs)" using l1 by simp
    from Cons.IH [OF this] obtain l' w' vs' where w': "apply_del_loop f (first_or vs None) l w1 = Some (l', w')"
      "llist_step w1 l (us @ a # vs) w' l' (us @ a # vs')" "contents w' (us @ [a]) = contents w1 (us @ [a])"
      "pass_deleting (dtor l) f (contents w1 vs) (env w1) = (contents w' vs', env w')" by auto
    have "apply_del_loop f (first_or (a # vs) None) l w = Some (l', w')"
      using a w1(1) w'(1) False by (subst apply_del_loop.simps) auto
    moreover have "contents w' us = contents w us" "el_data (the (cells w' a)) = y" using w'(3) w1(3,4) by simp_all
    ultimately show ?thesis using llist_step_trans [OF w1(2) w'(2)] w'(4) w1(5,6) f False by (intro exI [of _ l'] exI [of _ w'] exI [of _ "a # vs'"]) auto
  qed
qed

subsection \<open>Copying\<close>

lemma copy_loop_correct:
  assumes "llist_at w dst ds" "dlist (cells w) p as None" "set as \<inter> set ds = {}" "\<forall>a \<in> set as. a < fresh w"
  shows "\<exists>dst' w' ds'. copy_loop (first_or as None) dst w = Some (dst', w') \<and> llist_step w dst ds w' dst' ds' \<and>
    set ds' \<inter> set as = {} \<and> contents w' ds' = contents w ds @ contents w as \<and> env w' = env w"
  using assms
proof (induction as arbitrary: p dst ds w)
  case Nil
  then show ?case using llist_step_refl [of w dst ds] by (auto simp: copy_loop.simps intro!: exI [of _ ds])
next
  case (Cons a as)
  obtain x where a: "cells w a = Some \<lparr>next_el = first_or as None, prev_el = p, el_data = x\<rparr>" using Cons.prems(2) by auto
  obtain d1 w1 where w1: "zend_llist_add_element x dst w = Some (d1, w1)" "llist_step w dst ds w1 d1 (ds @ [fresh w])"
    "contents w1 (ds @ [fresh w]) = contents w ds @ [x]" "env w1 = env w"
    by (rule add_element [OF Cons.prems(1)])
  have same: "cells w1 b = cells w b" if "b \<in> set (a # as)" for b
  proof -
    have "b \<notin> set ds" "b < fresh w" using Cons.prems(3,4) that by auto
    then show ?thesis using w1(2) by (simp add: llist_step_def)
  qed
  have c: "contents w1 as = contents w as" using same by (auto simp: contents_def)
  have "\<exists>dst' w' ds'. copy_loop (first_or as None) d1 w1 = Some (dst', w') \<and> llist_step w1 d1 (ds @ [fresh w]) w' dst' ds' \<and>
    set ds' \<inter> set as = {} \<and> contents w' ds' = contents w1 (ds @ [fresh w]) @ contents w1 as \<and> env w' = env w1"
  proof (rule Cons.IH)
    show "llist_at w1 d1 (ds @ [fresh w])" using w1(2) by (simp add: llist_step_def)
    show "dlist (cells w1) (Some a) as None" using Cons.prems(2) dlist_cong [of as "cells w1" "cells w"] same by simp
    show "set as \<inter> set (ds @ [fresh w]) = {}" using Cons.prems(3,4) by auto
    show "\<forall>a \<in> set as. a < fresh w1" using Cons.prems(4) w1(2) by (auto simp: llist_step_def)
  qed
  then obtain dst' w' ds' where w': "copy_loop (first_or as None) d1 w1 = Some (dst', w')" "llist_step w1 d1 (ds @ [fresh w]) w' dst' ds'"
    "set ds' \<inter> set as = {}" "contents w' ds' = contents w1 (ds @ [fresh w]) @ contents w1 as" "env w' = env w1" by blast
  have "copy_loop (first_or (a # as) None) dst w = Some (dst', w')"
    using a same [of a] w1(1) w'(1) by (subst copy_loop.simps) simp
  moreover note s = llist_step_trans [OF w1(2) w'(2)]
  have "a \<notin> set ds'"
  proof
    assume "a \<in> set ds'"
    then have "a \<in> set ds \<union> {fresh w..<fresh w'}" using s by (auto simp: llist_step_def)
    then show False using Cons.prems(3,4) by auto
  qed
  ultimately show ?case using s w'(3-5) w1(3,4) c a by auto
qed

text \<open>The copy shares nothing with the original, which stays as it is.\<close>

lemma llist_copy_correct:
  assumes "llist_at w src as"
  obtains dst' w' ds' where "zend_llist_copy dst src w = Some (dst', w')" "llist_at w' dst' ds'" "contents w' ds' = contents w as"
    "llist_at w' src as" "contents w' as = contents w as" "set ds' \<inter> set as = {}" "env w' = env w" "dtor dst' = dtor src"
proof -
  note A = llist_atD [OF assms]
  define d where "d = zend_llist_init (el_size src) (dtor src) (persistent src) dst"
  have d: "llist_at w d []" "dtor d = dtor src" by (simp_all add: d_def zend_llist_init_def llist_at_def)
  obtain dst' w' ds' where w': "copy_loop (first_or as None) d w = Some (dst', w')" "llist_step w d [] w' dst' ds'"
    "set ds' \<inter> set as = {}" "contents w' ds' = contents w as" "env w' = env w"
    using copy_loop_correct [OF d(1) A(2)] A(6) by auto
  have same: "cells w' b = cells w b" if "b \<in> set as" for b using w'(2) A(6) [OF that] by (auto simp: llist_step_def)
  have "llist_at w' src as"
    using A w'(2) same dlist_cong [of as "cells w'" "cells w"] unfolding llist_at_def llist_step_def by fastforce
  moreover have "contents w' as = contents w as" using same by (auto simp: contents_def)
  ultimately show ?thesis using that [of dst' w' ds'] w' d(2) by (simp add: zend_llist_copy_def d_def [symmetric] A(3) llist_step_def)
qed

subsection \<open>Sorting\<close>

lemma collect_loop_correct: "dlist (cells w) p as None \<Longrightarrow> collect_loop (first_or as None) w es = Some (es @ as)"
proof (induction as arbitrary: p es)
  case Nil
  then show ?case by (simp add: collect_loop.simps)
next
  case (Cons a as)
  then show ?case by (subst collect_loop.simps) auto
qed

lemma set_prev_link:
  assumes "cells w a \<noteq> None"
  obtains w' e where "set_prev a p w = Some w'" "relinked_at {a} w w'" "cells w' a = Some (e\<lparr>prev_el := p\<rparr>)"
  using assms by (auto simp: set_prev_def relinked_at_def)

lemma relinked_cells: "relinked_at S w w' \<Longrightarrow> cells w' a = None \<longleftrightarrow> cells w a = None"
  unfolding relinked_at_def by (metis option.map_disc_iff)

text \<open>The loop links each element to the one before; \<open>i\<close> elements are linked so far.\<close>

lemma relink_from_correct:
  assumes "dlist (cells w) None (take i es) q" "distinct es" "\<forall>a \<in> set es. cells w a \<noteq> None" "0 < i" "i + n = length es"
  shows "\<exists>w' q'. relink_from es i n w = Some w' \<and> dlist (cells w') None es q' \<and> relinked_at (set es) w w'"
  using assms
proof (induction n arbitrary: i w q)
  case 0
  then show ?case by auto
next
  case (Suc n)
  have i: "i < length es" "i - 1 < length es" "es ! i \<noteq> es ! (i - 1)" using Suc.prems(2,4,5) by (auto simp: nth_eq_iff_index_eq)
  have ne: "take i es \<noteq> []" using Suc.prems(4) i(1) by auto
  have "last (take i es) = take i es ! (i - 1)" using last_conv_nth [OF ne] i(1) by (simp add: min_def)
  then have t: "take i es \<noteq> []" "last (take i es) = es ! (i - 1)" "es ! i \<notin> set (take i es)" "distinct (take i es)"
    using ne Suc.prems(2,4) i by (auto simp: in_set_conv_nth nth_eq_iff_index_eq)
  have "cells w (es ! i) \<noteq> None" using Suc.prems(3) i(1) by simp
  then obtain w1 e where w1: "set_prev (es ! i) (Some (es ! (i - 1))) w = Some w1" "relinked_at {es ! i} w w1"
    "cells w1 (es ! i) = Some (e\<lparr>prev_el := Some (es ! (i - 1))\<rparr>)" by (rule set_prev_link)
  have d1: "dlist (cells w1) None (take i es) q"
  proof -
    have "cells w1 b = cells w b" if "b \<in> set (take i es)" for b
      using w1(2) t(3) that by (cases "b = es ! i") (auto simp: relinked_at_def)
    from dlist_cong [OF this] show ?thesis using Suc.prems(1) by simp
  qed
  obtain w2 where w2: "set_next (es ! (i - 1)) (Some (es ! i)) w1 = Some w2" "dlist (cells w2) None (take i es) (Some (es ! i))"
    "relinked_at (set (take i es)) w1 w2"
    using link_last [OF d1 t(4,1), of "Some (es ! i)"] unfolding t(2) by blast
  have r: "relinked_at (set es) w w2"
    using relinked_at_trans [OF w1(2) w2(3)] by (rule relinked_at_mono) (use i(1) in \<open>auto dest: in_set_takeD\<close>)
  have "cells w2 (es ! i) = cells w1 (es ! i)" using w2(3) t(3) by (simp add: relinked_at_def)
  then obtain q1 x where c: "cells w2 (es ! i) = Some \<lparr>next_el = q1, prev_el = Some (es ! (i - 1)), el_data = x\<rparr>"
    using w1(3) by (cases e) simp
  have d2: "dlist (cells w2) None (take (i + 1) es) q1"
    using w2(2) c t(1,2) i(1) by (simp add: take_Suc_conv_app_nth last_or_def)
  have "\<exists>w' q'. relink_from es (i + 1) n w2 = Some w' \<and> dlist (cells w') None es q' \<and> relinked_at (set es) w2 w'"
    by (rule Suc.IH [OF d2 Suc.prems(2)]) (use Suc.prems(3,5) relinked_cells [OF r] in auto)
  then obtain w' q' where "relink_from es (i + 1) n w2 = Some w'" "dlist (cells w') None es q'" and r': "relinked_at (set es) w2 w'" by blast
  moreover have "relinked_at (set es) w w'" using relinked_at_trans [OF r r'] by simp
  ultimately show ?case using w1(1) w2(1) by (auto simp: relink_pair_def)
qed

lemma sort_correct:
  assumes "llist_at w l as"
  obtains l' w' as' where "zend_llist_sort cmp l w = Some (l', w')" "llist_step w l as w' l' as'" "mset as' = mset as"
    "mset (contents w' as') = mset (contents w as)" "env w' = env w"
    "comparator cmp \<Longrightarrow> sorted_seg cmp 0 (length as) (contents w' as')"
proof (cases "as = []")
  case True
  then show ?thesis
    using that [of l w "[]"] assms llist_atD(5) [OF assms] llist_step_refl [OF assms] by (simp add: zend_llist_sort_def sorted_seg_def)
next
  case False
  note A = llist_atD [OF assms]
  define n where "n = length as"
  have n: "0 < n" "count l = n" using False A(5) by (simp_all add: n_def)
  obtain es where es: "zend_sort (compare_at cmp w) 0 n as = Some es" "permutes 0 n as es"
    "comparator (compare_at cmp w) \<longrightarrow> sorted_seg (compare_at cmp w) 0 n es"
    using zend_sort_correct [of 0 n as "compare_at cmp w"] by (auto simp: n_def)
  have m: "mset es = mset as" using es(2) by (simp add: permutes_def)
  then have s: "set es = set as" "length es = n" "distinct es"
    using A(1) by (auto simp: n_def dest: mset_eq_setD mset_eq_length intro: mset_eq_imp_distinct_iff [THEN iffD2])
  have live: "\<forall>a \<in> set es. cells w a \<noteq> None" using dlist_cells [OF A(2)] s(1) by blast
  have e0: "es ! 0 \<in> set es" using n(1) s(2) by simp
  have "cells w (es ! 0) \<noteq> None" using live e0 by simp
  then obtain w1 e where w1: "set_prev (es ! 0) None w = Some w1" "relinked_at {es ! 0} w w1"
    "cells w1 (es ! 0) = Some (e\<lparr>prev_el := None\<rparr>)" by (rule set_prev_link)
  obtain q1 x where c: "cells w1 (es ! 0) = Some \<lparr>next_el = q1, prev_el = None, el_data = x\<rparr>"
    using w1(3) by (cases e) simp
  have "take 1 es = [es ! 0]" using n(1) s(2) by (cases es) auto
  then have d1: "dlist (cells w1) None (take 1 es) q1" using c by simp
  obtain w2 q2 where w2: "relink_from es 1 (n - 1) w1 = Some w2" "dlist (cells w2) None es q2" "relinked_at (set es) w1 w2"
    using relink_from_correct [OF d1 s(3), of "n - 1"] live relinked_cells [OF w1(2)] n(1) s(2) by auto
  have ne: "es \<noteq> []" and le: "last es = es ! (n - 1)" using n(1) s(2) by (auto simp: last_conv_nth)
  obtain w' where w': "set_next (last es) None w2 = Some w'" "dlist (cells w') None es None" "relinked_at (set es) w2 w'"
    by (rule link_last [OF w2(2) s(3) ne])
  have r: "relinked_at (set es) w w'"
    using relinked_at_trans [OF relinked_at_trans [OF w1(2) w2(3)] w'(3)] by (rule relinked_at_mono) (use e0 in auto)
  define l' where "l' = l\<lparr>head := Some (es ! 0), tail := Some (es ! (n - 1))\<rparr>"
  have run: "zend_llist_sort cmp l w = Some (l', w')"
    using n es(1) w1(1) w2(1) w'(1) collect_loop_correct [OF A(2), of "[]"]
    by (simp add: zend_llist_sort_def A(3) l'_def le)
  have "llist_at w' l' es"
    using A s n w'(2) r ne le by (auto simp: llist_at_def l'_def relinked_at_def first_or_ne hd_conv_nth last_or_def n_def)
  then have st: "llist_step w l as w' l' es" using r s(1) by (auto simp: llist_step_def relinked_at_def l'_def)
  have ce: "contents w' es = map (\<lambda>a. el_data (the (cells w a))) es"
    using contents_cong [of es w' w] r live by (simp add: relinked_at_def contents_def)
  have mc: "mset (contents w' es) = mset (contents w as)" unfolding ce unfolding contents_def by (simp add: m)
  have "sorted_seg cmp 0 n (contents w' es)" if "comparator cmp"
  proof -
    have "comparator (compare_at cmp w)"
      using that unfolding comparator_def compare_at_def by blast
    then show ?thesis using es(3) s(2) unfolding ce sorted_seg_def compare_at_def by auto
  qed
  then show ?thesis using that [OF run st m mc] r by (simp add: relinked_at_def n_def)
qed

subsection \<open>Traversal\<close>

lemma dlist_nth:
  assumes "dlist c p as q" "i < length as"
  shows "\<exists>x. c (as ! i) = Some \<lparr>next_el = if i + 1 < length as then Some (as ! (i + 1)) else q,
    prev_el = if i = 0 then p else Some (as ! (i - 1)), el_data = x\<rparr>"
  using assms
proof (induction as arbitrary: p i)
  case (Cons a as)
  show ?case
  proof (cases i)
    case 0
    then show ?thesis using Cons.prems by (cases as) auto
  next
    case (Suc j)
    then show ?thesis using Cons.IH [of "Some a" j] Cons.prems by (cases j) auto
  qed
qed simp

lemma traversal_correct:
  assumes "llist_at w l as" "i < length as"
  shows "zend_llist_get_next_ex w l (Some (Some (as ! i))) =
      Some ((l, Some (if i + 1 < length as then Some (as ! (i + 1)) else None)), if i + 1 < length as then Some (contents w as ! (i + 1)) else None)"
    and "zend_llist_get_prev_ex w l (Some (Some (as ! i))) =
      Some ((l, Some (if 0 < i then Some (as ! (i - 1)) else None)), if 0 < i then Some (contents w as ! (i - 1)) else None)"
    and "zend_llist_get_first_ex w l (Some p) = ((l, Some (Some (hd as))), Some (hd (contents w as)))"
    and "zend_llist_get_last_ex w l (Some p) = ((l, Some (Some (last as))), Some (last (contents w as)))"
proof -
  note A = llist_atD [OF assms(1)]
  have live: "\<exists>e. cells w (as ! j) = Some e \<and> el_data e = contents w as ! j" if "j < length as" for j
    using dlist_nth [OF A(2) that] that by (auto simp: contents_def)
  obtain x where x: "cells w (as ! i) = Some \<lparr>next_el = if i + 1 < length as then Some (as ! (i + 1)) else None,
    prev_el = if i = 0 then None else Some (as ! (i - 1)), el_data = x\<rparr>" using dlist_nth [OF A(2) assms(2)] by blast
  show "zend_llist_get_next_ex w l (Some (Some (as ! i))) =
      Some ((l, Some (if i + 1 < length as then Some (as ! (i + 1)) else None)), if i + 1 < length as then Some (contents w as ! (i + 1)) else None)"
    using x live [of "i + 1"] by (auto simp: zend_llist_get_next_ex_def current_position_def store_position_def data_at_def)
  show "zend_llist_get_prev_ex w l (Some (Some (as ! i))) =
      Some ((l, Some (if 0 < i then Some (as ! (i - 1)) else None)), if 0 < i then Some (contents w as ! (i - 1)) else None)"
    using x live [of "i - 1"] assms(2) by (auto simp: zend_llist_get_prev_ex_def current_position_def store_position_def data_at_def)
  have ne: "as \<noteq> []" using assms(2) by auto
  show "zend_llist_get_first_ex w l (Some p) = ((l, Some (Some (hd as))), Some (hd (contents w as)))"
    using live [of 0] ne A(3) by (auto simp: zend_llist_get_first_ex_def store_position_def data_at_def first_or_ne hd_conv_nth contents_def)
  show "zend_llist_get_last_ex w l (Some p) = ((l, Some (Some (last as))), Some (last (contents w as)))"
    using live [of "length as - 1"] ne A(4)
    by (auto simp: zend_llist_get_last_ex_def store_position_def data_at_def last_or_def last_conv_nth contents_def)
qed

subsection \<open>Sequences of calls refine operations on lists\<close>

datatype ('a, 's) list_op =
    call_add 'a
  | call_prepend 'a
  | call_del "'a \<Rightarrow> bool"
  | call_remove_tail
  | call_clean
  | call_apply "'a \<Rightarrow> 's \<Rightarrow> unit \<times> 'a \<times> 's"
  | call_apply_del "'a \<Rightarrow> 's \<Rightarrow> bool \<times> 'a \<times> 's"
  | call_sort "'a \<Rightarrow> 'a \<Rightarrow> int"

fun llist_call :: "('a, 's) list_op \<Rightarrow> ('a, 's) llist \<Rightarrow> ('a, 's) element_store \<Rightarrow> (('a, 's) llist \<times> ('a, 's) element_store) option" where
  "llist_call (call_add x) l w = zend_llist_add_element x l w"
| "llist_call (call_prepend x) l w = zend_llist_prepend_element x l w"
| "llist_call (call_del P) l w = zend_llist_del_element () (\<lambda>x _. P x) l w"
| "llist_call call_remove_tail l w = zend_llist_remove_tail l w"
| "llist_call call_clean l w = zend_llist_clean l w"
| "llist_call (call_apply f) l w = map_option (Pair l) (zend_llist_apply f l w)"
| "llist_call (call_apply_del f) l w = zend_llist_apply_with_del f l w"
| "llist_call (call_sort cmp) l w = zend_llist_sort cmp l w"

fun llist_calls :: "('a, 's) list_op list \<Rightarrow> ('a, 's) llist \<Rightarrow> ('a, 's) element_store \<Rightarrow> (('a, 's) llist \<times> ('a, 's) element_store) option" where
  "llist_calls [] l w = Some (l, w)"
| "llist_calls (c # cs) l w = (case llist_call c l w of None \<Rightarrow> None | Some (l, w) \<Rightarrow> llist_calls cs l w)"

text \<open>The specification: the data in order, and the state; only the order of equal data after a sort is left open.\<close>

fun list_spec :: "('a \<Rightarrow> 's \<Rightarrow> 's) option \<Rightarrow> ('a, 's) list_op \<Rightarrow> 'a list \<times> 's \<Rightarrow> 'a list \<times> 's \<Rightarrow> bool" where
  "list_spec d (call_add x) (xs, s) (ys, t) = (ys = xs @ [x] \<and> t = s)"
| "list_spec d (call_prepend x) (xs, s) (ys, t) = (ys = x # xs \<and> t = s)"
| "list_spec d (call_del P) (xs, s) (ys, t) =
     (case dropWhile (\<lambda>x. \<not> P x) xs of
        [] \<Rightarrow> ys = xs \<and> t = s
      | x # rest \<Rightarrow> ys = takeWhile (\<lambda>x. \<not> P x) xs @ rest \<and> t = run_list_dtor d x s)"
| "list_spec d call_remove_tail (xs, s) (ys, t) = (ys = butlast xs \<and> t = (if xs = [] then s else run_list_dtor d (last xs) s))"
| "list_spec d call_clean (xs, s) (ys, t) = (ys = [] \<and> t = fold (run_list_dtor d) xs s)"
| "list_spec d (call_apply f) (xs, s) (ys, t) = (pass_over f xs s = (ys, t))"
| "list_spec d (call_apply_del f) (xs, s) (ys, t) = (pass_deleting d f xs s = (ys, t))"
| "list_spec d (call_sort cmp) (xs, s) (ys, t) =
     (mset ys = mset xs \<and> t = s \<and> (comparator cmp \<longrightarrow> (\<forall>i j. i < j \<and> j < length ys \<longrightarrow> \<not> cmp (ys ! i) (ys ! j) > 0)))"

fun list_specs :: "('a \<Rightarrow> 's \<Rightarrow> 's) option \<Rightarrow> ('a, 's) list_op list \<Rightarrow> 'a list \<times> 's \<Rightarrow> 'a list \<times> 's \<Rightarrow> bool" where
  "list_specs d [] a b = (a = b)"
| "list_specs d (c # cs) a b = (\<exists>m. list_spec d c a m \<and> list_specs d cs m b)"

lemma clean_correct_list:
  assumes "llist_at w l as"
  obtains l' w' where "zend_llist_clean l w = Some (l', w')" "llist_step w l as w' l' []"
    "env w' = fold (run_list_dtor (dtor l)) (contents w as) (env w)"
proof -
  obtain l' w' where d: "zend_llist_destroy l w = Some (l', w')" "llist_step w l as w' l' []"
    "env w' = fold (run_list_dtor (dtor l)) (contents w as) (env w)" "head l' = None" "tail l' = None" by (rule llist_destroy_correct [OF assms])
  have "l'\<lparr>tail := None, head := None\<rparr> = l'" using d(4,5) by simp
  then show ?thesis using that [of l' w'] d(1-3) by (simp add: zend_llist_clean_def)
qed

lemma llist_call_refines:
  assumes "llist_at w l as"
  shows "\<exists>l' w' as'. llist_call c l w = Some (l', w') \<and> llist_step w l as w' l' as' \<and>
    list_spec (dtor l) c (contents w as, env w) (contents w' as', env w')"
proof (cases c)
  case (call_add x)
  then show ?thesis using add_element [OF assms, of x] by (metis list_spec.simps(1) llist_call.simps(1))
next
  case (call_prepend x)
  then show ?thesis using prepend_element [OF assms, of x] by (metis list_spec.simps(2) llist_call.simps(2))
next
  case (call_del P)
  have "llist_at w l ([] @ as)" using assms by simp
  from del_loop_correct [OF this, of P] show ?thesis using llist_atD(3) [OF assms]
    by (auto simp: call_del zend_llist_del_element_def split: list.splits)
next
  case call_remove_tail
  show ?thesis by (rule remove_tail_correct [OF assms]) (auto simp: call_remove_tail contents_def)
next
  case call_clean
  show ?thesis by (rule clean_correct_list [OF assms]) (auto simp: call_clean contents_def)
next
  case (call_apply f)
  have "llist_at w l ([] @ as)" using assms by simp
  from llist_apply_loop_correct [OF this, of f] show ?thesis using llist_atD(3) [OF assms]
    by (auto simp: call_apply zend_llist_apply_def)
next
  case (call_apply_del f)
  have "llist_at w l ([] @ as)" using assms by simp
  from apply_del_loop_correct [OF this, of f] show ?thesis using llist_atD(3) [OF assms]
    by (auto simp: call_apply_del zend_llist_apply_with_del_def)
next
  case (call_sort cmp)
  show ?thesis
  proof (rule sort_correct [OF assms, of cmp])
    fix l' w' as'
    assume a: "zend_llist_sort cmp l w = Some (l', w')" "llist_step w l as w' l' as'" "mset as' = mset as"
      "mset (contents w' as') = mset (contents w as)" "env w' = env w" "comparator cmp \<Longrightarrow> sorted_seg cmp 0 (length as) (contents w' as')"
    have "length (contents w' as') = length as" using mset_eq_length [OF a(3)] by (simp add: contents_def)
    then show ?thesis using a by (intro exI [of _ l'] exI [of _ w'] exI [of _ as']) (auto simp: call_sort sorted_seg_def)
  qed
qed

lemma llist_calls_refine:
  assumes "llist_at w l as"
  shows "\<exists>l' w' as'. llist_calls cs l w = Some (l', w') \<and> llist_step w l as w' l' as' \<and>
    list_specs (dtor l) cs (contents w as, env w) (contents w' as', env w')"
  using assms
proof (induction cs arbitrary: w l as)
  case Nil
  then show ?case using llist_step_refl [of w l as] by auto
next
  case (Cons c cs)
  obtain l1 w1 as1 where s1: "llist_call c l w = Some (l1, w1)" "llist_step w l as w1 l1 as1"
    "list_spec (dtor l) c (contents w as, env w) (contents w1 as1, env w1)" using llist_call_refines [OF Cons.prems] by blast
  have l1: "llist_at w1 l1 as1" "dtor l1 = dtor l" using s1(2) by (simp_all add: llist_step_def)
  obtain l' w' as' where s2: "llist_calls cs l1 w1 = Some (l', w')" "llist_step w1 l1 as1 w' l' as'"
    "list_specs (dtor l1) cs (contents w1 as1, env w1) (contents w' as', env w')" using Cons.IH [OF l1(1)] by blast
  then show ?case using s1 l1(2) llist_step_trans [OF s1(2) s2(2)]
    by (intro exI [of _ l'] exI [of _ w'] exI [of _ as']) auto
qed

end
