(* ===== verification/ZendStack.thy ===== *)
theory ZendStack
  imports PhpPrelude "HOL-Library.Monad_Syntax"
begin

text \<open>
  The growing stacks of the engine: \<open>Zend/zend_stack.c\<close>, whose elements are copied in, and
  \<open>Zend/zend_ptr_stack.c\<close>, which holds pointers and keeps a pointer to its top. The allocated block is the
  list of its cells, \<open>NULL\<close> the empty one, and a cell nothing was written to is \<open>None\<close>; an access out of
  the block or to such a cell makes the result \<open>None\<close>. Counts are integers; allocation always succeeds.

  Both keep the same contract, the locale \<open>stack\<close>: what is proved there from the laws of push and pop holds
  of both.
\<close>

subsection \<open>Blocks of cells\<close>

definition read_cell :: "'a option list \<Rightarrow> int \<Rightarrow> 'a option" where
  "read_cell cs i = (if 0 \<le> i \<and> i < int (length cs) then cs ! nat i else None)"

definition write_cell :: "int \<Rightarrow> 'a \<Rightarrow> 'a option list \<Rightarrow> 'a option list option" where
  "write_cell i x cs = (if 0 \<le> i \<and> i < int (length cs) then Some (cs[nat i := Some x]) else None)"

text \<open>Reallocation keeps what fits, and the cells it adds are not written.\<close>

definition realloc :: "int \<Rightarrow> 'a option list \<Rightarrow> 'a option list" where
  "realloc n cs = take (nat n) cs @ replicate (nat n - length cs) None"

subsection \<open>\<open>zend_stack.c\<close>\<close>

definition STACK_BLOCK_SIZE :: int where "STACK_BLOCK_SIZE = 16"

datatype zend_stack_apply_direction = ZEND_STACK_APPLY_TOPDOWN | ZEND_STACK_APPLY_BOTTOMUP

record 'a zend_stack =
  st_size :: int
  st_top :: int
  st_max :: int
  st_elements :: "'a option list"

definition zend_stack_init :: "int \<Rightarrow> 'a zend_stack" where
  "zend_stack_init sz = \<lparr>st_size = sz, st_top = 0, st_max = 0, st_elements = []\<rparr>"

text \<open>The result of the push is the index of the element.\<close>

definition zend_stack_push :: "'a \<Rightarrow> 'a zend_stack \<Rightarrow> (int \<times> 'a zend_stack) option" where
  "zend_stack_push element s =
     (let s = (if st_top s \<ge> st_max s
               then s\<lparr>st_max := st_max s + STACK_BLOCK_SIZE, st_elements := realloc (st_max s + STACK_BLOCK_SIZE) (st_elements s)\<rparr>
               else s)
      in map_option (\<lambda>cs. (st_top s, s\<lparr>st_elements := cs, st_top := st_top s + 1\<rparr>)) (write_cell (st_top s) element (st_elements s)))"

text \<open>A pointer to an element is its index.\<close>

definition zend_stack_top :: "'a zend_stack \<Rightarrow> int option" where
  "zend_stack_top s = (if st_top s > 0 then Some (st_top s - 1) else None)"

definition zend_stack_del_top :: "'a zend_stack \<Rightarrow> 'a zend_stack" where
  "zend_stack_del_top s = s\<lparr>st_top := st_top s - 1\<rparr>"

definition FAILURE :: int where "FAILURE = - 1"

definition zend_stack_int_top :: "int zend_stack \<Rightarrow> int option" where
  "zend_stack_int_top s = (case zend_stack_top s of Some e \<Rightarrow> read_cell (st_elements s) e | None \<Rightarrow> Some FAILURE)"

definition zend_stack_is_empty :: "'a zend_stack \<Rightarrow> bool" where "zend_stack_is_empty s \<longleftrightarrow> st_top s = 0"

definition zend_stack_destroy :: "'a zend_stack \<Rightarrow> 'a zend_stack" where
  "zend_stack_destroy s = (if st_elements s \<noteq> [] then s\<lparr>st_elements := []\<rparr> else s)"

definition zend_stack_base :: "'a zend_stack \<Rightarrow> 'a option list" where "zend_stack_base s = st_elements s"

definition zend_stack_count :: "'a zend_stack \<Rightarrow> int" where "zend_stack_count s = st_top s"

text \<open>A callback gets a pointer to an element: it may change it, and the state.\<close>

definition call_cell :: "('a \<Rightarrow> 's \<Rightarrow> bool \<times> 'a \<times> 's) \<Rightarrow> int \<Rightarrow> 'a option list \<times> 's \<Rightarrow> (bool \<times> 'a option list \<times> 's) option" where
  "call_cell f i = (\<lambda>(cs, s). do {
     x \<leftarrow> read_cell cs i;
     let (r, y, s) = f x s;
     cs \<leftarrow> write_cell i y cs;
     Some (r, cs, s)
   })"

function stack_topdown :: "('a \<Rightarrow> 's \<Rightarrow> bool \<times> 'a \<times> 's) \<Rightarrow> int \<Rightarrow> 'a option list \<times> 's \<Rightarrow> ('a option list \<times> 's) option" where
  "stack_topdown f i m =
     (if i \<ge> 0 then do { (r, m) \<leftarrow> call_cell f i m; if r then Some m else stack_topdown f (i - 1) m } else Some m)"
  by pat_completeness auto
termination by (relation "measure (\<lambda>(_, i, _). nat (i + 1))") auto

function stack_bottomup :: "('a \<Rightarrow> 's \<Rightarrow> bool \<times> 'a \<times> 's) \<Rightarrow> int \<Rightarrow> int \<Rightarrow> 'a option list \<times> 's \<Rightarrow> ('a option list \<times> 's) option" where
  "stack_bottomup f i n m =
     (if i < n then do { (r, m) \<leftarrow> call_cell f i m; if r then Some m else stack_bottomup f (i + 1) n m } else Some m)"
  by pat_completeness auto
termination by (relation "measure (\<lambda>(_, i, n, _). nat (n - i))") auto

declare stack_topdown.simps [simp del] stack_bottomup.simps [simp del]

definition zend_stack_apply ::
  "zend_stack_apply_direction \<Rightarrow> ('a \<Rightarrow> 's \<Rightarrow> bool \<times> 'a \<times> 's) \<Rightarrow> 'a zend_stack \<Rightarrow> 's \<Rightarrow> ('a zend_stack \<times> 's) option" where
  "zend_stack_apply type apply_function s st =
     map_option (\<lambda>(cs, st). (s\<lparr>st_elements := cs\<rparr>, st))
       (case type of
          ZEND_STACK_APPLY_TOPDOWN \<Rightarrow> stack_topdown apply_function (st_top s - 1) (st_elements s, st)
        | ZEND_STACK_APPLY_BOTTOMUP \<Rightarrow> stack_bottomup apply_function 0 (st_top s) (st_elements s, st))"

definition zend_stack_apply_with_argument ::
  "zend_stack_apply_direction \<Rightarrow> ('a \<Rightarrow> 'b \<Rightarrow> 's \<Rightarrow> bool \<times> 'a \<times> 's) \<Rightarrow> 'b \<Rightarrow> 'a zend_stack \<Rightarrow> 's \<Rightarrow> ('a zend_stack \<times> 's) option" where
  "zend_stack_apply_with_argument type apply_function arg s st = zend_stack_apply type (\<lambda>x. apply_function x arg) s st"

definition zend_stack_clean :: "('a \<Rightarrow> 's \<Rightarrow> 'a \<times> 's) option \<Rightarrow> bool \<Rightarrow> 'a zend_stack \<Rightarrow> 's \<Rightarrow> ('a zend_stack \<times> 's) option" where
  "zend_stack_clean func free_elements s st = do {
     (cs, st) \<leftarrow> (case func of
        None \<Rightarrow> Some (st_elements s, st)
      | Some f \<Rightarrow> stack_bottomup (\<lambda>x st. (False, f x st)) 0 (st_top s) (st_elements s, st));
     let s = s\<lparr>st_elements := cs\<rparr>;
     let s = (if free_elements then s\<lparr>st_elements := [], st_top := 0, st_max := 0\<rparr> else s);
     Some (s, st)
   }"

subsection \<open>\<open>zend_ptr_stack.c\<close>\<close>

definition PTR_STACK_BLOCK_SIZE :: int where "PTR_STACK_BLOCK_SIZE = 64"

text \<open>\<open>top_element\<close> is a pointer into the block: the index of the first free cell.\<close>

record 'a zend_ptr_stack =
  ps_top :: int
  ps_max :: int
  ps_elements :: "'a option list"
  top_element :: int
  ps_persistent :: bool

definition zend_ptr_stack_init_ex :: "bool \<Rightarrow> 'a zend_ptr_stack" where
  "zend_ptr_stack_init_ex pers = \<lparr>ps_top = 0, ps_max = 0, ps_elements = [], top_element = 0, ps_persistent = pers\<rparr>"

definition zend_ptr_stack_init :: "'a zend_ptr_stack" where "zend_ptr_stack_init = zend_ptr_stack_init_ex False"

text \<open>The macro that makes room: the bound grows block by block until the elements fit.\<close>

function grow_max :: "int \<Rightarrow> int \<Rightarrow> int" where
  "grow_max needed m = (let m = m + PTR_STACK_BLOCK_SIZE in if needed > m then grow_max needed m else m)"
  by pat_completeness auto
termination by (relation "measure (\<lambda>(needed, m). nat (needed - m))") (auto simp: PTR_STACK_BLOCK_SIZE_def)

declare grow_max.simps [simp del]

definition RESIZE_IF_NEEDED :: "int \<Rightarrow> 'a zend_ptr_stack \<Rightarrow> 'a zend_ptr_stack" where
  "RESIZE_IF_NEEDED n s =
     (if ps_top s + n > ps_max s
      then (let m = grow_max (ps_top s + n) (ps_max s)
            in s\<lparr>ps_max := m, ps_elements := realloc m (ps_elements s), top_element := ps_top s\<rparr>)
      else s)"

text \<open>\<open>*(stack->top_element++) = x\<close> and \<open>*(--stack->top_element)\<close>.\<close>

definition put_top :: "'a \<Rightarrow> 'a zend_ptr_stack \<Rightarrow> 'a zend_ptr_stack option" where
  "put_top x s = map_option (\<lambda>cs. s\<lparr>ps_elements := cs, top_element := top_element s + 1\<rparr>) (write_cell (top_element s) x (ps_elements s))"

definition take_top :: "'a zend_ptr_stack \<Rightarrow> ('a \<times> 'a zend_ptr_stack) option" where
  "take_top s = map_option (\<lambda>x. (x, s\<lparr>top_element := top_element s - 1\<rparr>)) (read_cell (ps_elements s) (top_element s - 1))"

definition zend_ptr_stack_push :: "'a \<Rightarrow> 'a zend_ptr_stack \<Rightarrow> 'a zend_ptr_stack option" where
  "zend_ptr_stack_push ptr s = (let s = RESIZE_IF_NEEDED 1 s in put_top ptr (s\<lparr>ps_top := ps_top s + 1\<rparr>))"

definition zend_ptr_stack_pop :: "'a zend_ptr_stack \<Rightarrow> ('a \<times> 'a zend_ptr_stack) option" where
  "zend_ptr_stack_pop s = take_top (s\<lparr>ps_top := ps_top s - 1\<rparr>)"

definition zend_ptr_stack_top :: "'a zend_ptr_stack \<Rightarrow> 'a option" where
  "zend_ptr_stack_top s = read_cell (ps_elements s) (ps_top s - 1)"

definition zend_ptr_stack_2_push :: "'a \<Rightarrow> 'a \<Rightarrow> 'a zend_ptr_stack \<Rightarrow> 'a zend_ptr_stack option" where
  "zend_ptr_stack_2_push a b s = (let s = RESIZE_IF_NEEDED 2 s; s = s\<lparr>ps_top := ps_top s + 2\<rparr>
     in do { s \<leftarrow> put_top a s; put_top b s })"

definition zend_ptr_stack_3_push :: "'a \<Rightarrow> 'a \<Rightarrow> 'a \<Rightarrow> 'a zend_ptr_stack \<Rightarrow> 'a zend_ptr_stack option" where
  "zend_ptr_stack_3_push a b c s = (let s = RESIZE_IF_NEEDED 3 s; s = s\<lparr>ps_top := ps_top s + 3\<rparr>
     in do { s \<leftarrow> put_top a s; s \<leftarrow> put_top b s; put_top c s })"

definition zend_ptr_stack_2_pop :: "'a zend_ptr_stack \<Rightarrow> ('a \<times> 'a \<times> 'a zend_ptr_stack) option" where
  "zend_ptr_stack_2_pop s = do {
     (a, s) \<leftarrow> take_top s; (b, s) \<leftarrow> take_top s;
     Some (a, b, s\<lparr>ps_top := ps_top s - 2\<rparr>)
   }"

definition zend_ptr_stack_3_pop :: "'a zend_ptr_stack \<Rightarrow> ('a \<times> 'a \<times> 'a \<times> 'a zend_ptr_stack) option" where
  "zend_ptr_stack_3_pop s = do {
     (a, s) \<leftarrow> take_top s; (b, s) \<leftarrow> take_top s; (c, s) \<leftarrow> take_top s;
     Some (a, b, c, s\<lparr>ps_top := ps_top s - 3\<rparr>)
   }"

text \<open>The loops over the variable arguments: \<open>count\<close> of them are taken.\<close>

fun n_push_loop :: "nat \<Rightarrow> 'a list \<Rightarrow> 'a zend_ptr_stack \<Rightarrow> 'a zend_ptr_stack option" where
  "n_push_loop 0 args s = Some s"
| "n_push_loop (Suc n) [] s = None"
| "n_push_loop (Suc n) (elem # args) s = do { s \<leftarrow> put_top elem (s\<lparr>ps_top := ps_top s + 1\<rparr>); n_push_loop n args s }"

definition zend_ptr_stack_n_push :: "int \<Rightarrow> 'a list \<Rightarrow> 'a zend_ptr_stack \<Rightarrow> 'a zend_ptr_stack option" where
  "zend_ptr_stack_n_push cnt args s = n_push_loop (nat cnt) args (RESIZE_IF_NEEDED cnt s)"

fun n_pop_loop :: "nat \<Rightarrow> 'a zend_ptr_stack \<Rightarrow> ('a list \<times> 'a zend_ptr_stack) option" where
  "n_pop_loop 0 s = Some ([], s)"
| "n_pop_loop (Suc n) s = do {
     (x, s) \<leftarrow> take_top s;
     (xs, s) \<leftarrow> n_pop_loop n (s\<lparr>ps_top := ps_top s - 1\<rparr>);
     Some (x # xs, s)
   }"

text \<open>The values stored through the pointers that are passed, in order.\<close>

definition zend_ptr_stack_n_pop :: "int \<Rightarrow> 'a zend_ptr_stack \<Rightarrow> ('a list \<times> 'a zend_ptr_stack) option" where
  "zend_ptr_stack_n_pop cnt s = n_pop_loop (nat cnt) s"

text \<open>The pointer is not reset: it dangles, which the model writes as a block without cells, since no cell of
  it may be read or written again.\<close>

definition zend_ptr_stack_destroy :: "'a zend_ptr_stack \<Rightarrow> 'a zend_ptr_stack" where
  "zend_ptr_stack_destroy s = (if ps_elements s \<noteq> [] then s\<lparr>ps_elements := []\<rparr> else s)"

text \<open>Here the callback gets the pointer that is stored, by value.\<close>

fun ptr_stack_down :: "('a \<Rightarrow> 's \<Rightarrow> 's) \<Rightarrow> 'a option list \<Rightarrow> nat \<Rightarrow> 's \<Rightarrow> 's option" where
  "ptr_stack_down f cs 0 st = Some st"
| "ptr_stack_down f cs (Suc i) st = do { x \<leftarrow> read_cell cs (int i); ptr_stack_down f cs i (f x st) }"

definition zend_ptr_stack_apply :: "('a \<Rightarrow> 's \<Rightarrow> 's) \<Rightarrow> 'a zend_ptr_stack \<Rightarrow> 's \<Rightarrow> 's option" where
  "zend_ptr_stack_apply func s st = ptr_stack_down func (ps_elements s) (nat (ps_top s)) st"

fun ptr_stack_up :: "('a \<Rightarrow> 's \<Rightarrow> 's) \<Rightarrow> 'a option list \<Rightarrow> nat \<Rightarrow> nat \<Rightarrow> 's \<Rightarrow> 's option" where
  "ptr_stack_up f cs i 0 st = Some st"
| "ptr_stack_up f cs i (Suc n) st = do { x \<leftarrow> read_cell cs (int i); ptr_stack_up f cs (i + 1) n (f x st) }"

definition zend_ptr_stack_reverse_apply :: "('a \<Rightarrow> 's \<Rightarrow> 's) \<Rightarrow> 'a zend_ptr_stack \<Rightarrow> 's \<Rightarrow> 's option" where
  "zend_ptr_stack_reverse_apply func s st = ptr_stack_up func (ps_elements s) 0 (nat (ps_top s)) st"

text \<open>\<open>pefree\<close> of an element, an argument, changes the state like the callback does.\<close>

definition zend_ptr_stack_clean ::
  "('a \<Rightarrow> 's \<Rightarrow> 's) \<Rightarrow> ('a \<Rightarrow> 's \<Rightarrow> 's) \<Rightarrow> bool \<Rightarrow> 'a zend_ptr_stack \<Rightarrow> 's \<Rightarrow> ('a zend_ptr_stack \<times> 's) option" where
  "zend_ptr_stack_clean pefree func free_elements s st = do {
     st \<leftarrow> zend_ptr_stack_apply func s st;
     st \<leftarrow> (if free_elements then ptr_stack_down pefree (ps_elements s) (nat (ps_top s)) st else Some st);
     Some (s\<lparr>ps_top := 0, top_element := 0\<rparr>, st)
   }"

definition zend_ptr_stack_num_elements :: "'a zend_ptr_stack \<Rightarrow> int" where "zend_ptr_stack_num_elements s = ps_top s"

subsection \<open>Blocks that hold a list\<close>

text \<open>A block of \<open>m\<close> cells whose first cells hold the items \<open>xs\<close>.\<close>

definition block_holds :: "'a option list \<Rightarrow> int \<Rightarrow> 'a list \<Rightarrow> bool" where
  "block_holds cs m xs \<longleftrightarrow> 0 \<le> m \<and> length cs = nat m \<and> (\<exists>rest. cs = map Some xs @ rest)"

lemma read_cell_app: "read_cell (map Some xs @ rest) i = (if 0 \<le> i \<and> i < int (length xs) then Some (xs ! nat i)
    else if 0 \<le> i \<and> i < int (length xs + length rest) then rest ! (nat i - length xs) else None)"
  by (auto simp: read_cell_def nth_append)

lemma write_cell_at: "i = int (length pre) \<Longrightarrow> write_cell i x (map Some pre @ y # rest) = Some (map Some (pre @ [x]) @ rest)"
  by (simp add: write_cell_def list_update_append)

lemma block_read: "block_holds cs m (xs @ [x]) \<Longrightarrow> read_cell cs (int (length xs)) = Some x"
  by (auto simp: block_holds_def read_cell_app nth_append simp del: map_append)

lemma block_write:
  assumes "block_holds cs m xs" and "int (length xs) < m"
  shows "\<exists>cs'. write_cell (int (length xs)) x cs = Some cs' \<and> block_holds cs' m (xs @ [x])"
proof -
  obtain rest where r: "cs = map Some xs @ rest" "0 \<le> m" "length cs = nat m" using assms(1) by (auto simp: block_holds_def)
  moreover obtain y rest' where "rest = y # rest'" using r assms(2) by (cases rest) (auto split: if_splits)
  ultimately show ?thesis by (auto simp: write_cell_at block_holds_def)
qed

lemma block_room: "block_holds cs m xs \<Longrightarrow> int (length xs) \<le> m" by (auto simp: block_holds_def)

lemma block_realloc: "block_holds cs m xs \<Longrightarrow> m \<le> n \<Longrightarrow> block_holds (realloc n cs) n xs"
  by (auto simp: block_holds_def realloc_def)

lemma block_butlast: "block_holds cs m (xs @ ys) \<Longrightarrow> block_holds cs m xs" by (auto simp: block_holds_def)

subsection \<open>The contract of a stack\<close>

text \<open>All pushes of a list, and a number of pops, with the operations as arguments.\<close>

fun push_all :: "('a \<Rightarrow> 's \<Rightarrow> 's option) \<Rightarrow> 'a list \<Rightarrow> 's \<Rightarrow> 's option" where
  "push_all push [] s = Some s"
| "push_all push (x # xs) s = (case push x s of None \<Rightarrow> None | Some s \<Rightarrow> push_all push xs s)"

fun pop_all :: "('s \<Rightarrow> ('a \<times> 's) option) \<Rightarrow> nat \<Rightarrow> 's \<Rightarrow> ('a list \<times> 's) option" where
  "pop_all pop 0 s = Some ([], s)"
| "pop_all pop (Suc n) s = (case pop s of None \<Rightarrow> None | Some (x, s) \<Rightarrow> map_option (apfst (Cons x)) (pop_all pop n s))"

locale stack =
  fixes holds :: "'s \<Rightarrow> 'a list \<Rightarrow> bool"
    and push :: "'a \<Rightarrow> 's \<Rightarrow> 's option" and pop :: "'s \<Rightarrow> ('a \<times> 's) option" and size_of :: "'s \<Rightarrow> int"
  assumes push_law: "holds s xs \<Longrightarrow> \<exists>s'. push x s = Some s' \<and> holds s' (xs @ [x])"
    and pop_law: "holds s (xs @ [x]) \<Longrightarrow> \<exists>s'. pop s = Some (x, s') \<and> holds s' xs"
    and size_law: "holds s xs \<Longrightarrow> size_of s = int (length xs)"
begin

lemma push_all: "holds s ys \<Longrightarrow> \<exists>s'. push_all push xs s = Some s' \<and> holds s' (ys @ xs)"
proof (induction xs arbitrary: s ys)
  case (Cons x xs)
  obtain s1 where "push x s = Some s1" "holds s1 (ys @ [x])" using push_law [OF Cons.prems] by blast
  then show ?case using Cons.IH [of s1 "ys @ [x]"] by auto
qed auto

lemma pop_all: "holds s (ys @ xs) \<Longrightarrow> \<exists>s'. pop_all pop (length xs) s = Some (rev xs, s') \<and> holds s' ys"
proof (induction xs arbitrary: s rule: rev_induct)
  case (snoc x xs)
  obtain s1 where "pop s = Some (x, s1)" "holds s1 (ys @ xs)" using pop_law [of s "ys @ xs" x] snoc.prems by auto
  then show ?case using snoc.IH [of s1] by auto
qed auto

text \<open>Last in, first out: what is pushed comes back in reverse, and the stack holds what it held.\<close>

lemma lifo:
  assumes "holds s ys"
  shows "\<exists>s1 s2. push_all push xs s = Some s1 \<and> size_of s1 = int (length ys) + int (length xs) \<and>
    pop_all pop (length xs) s1 = Some (rev xs, s2) \<and> holds s2 ys"
proof -
  obtain s1 where s1: "push_all push xs s = Some s1" "holds s1 (ys @ xs)" using push_all [OF assms] by blast
  then show ?thesis using pop_all [OF s1(2)] size_law [OF s1(2)] by auto
qed

end

subsection \<open>\<open>zend_stack\<close> keeps the contract\<close>

definition stack_at :: "'a zend_stack \<Rightarrow> 'a list \<Rightarrow> bool" where
  "stack_at s xs \<longleftrightarrow> st_top s = int (length xs) \<and> block_holds (st_elements s) (st_max s) xs"

lemma init_at: "stack_at (zend_stack_init sz) []"
  by (simp add: stack_at_def zend_stack_init_def block_holds_def)

lemma stack_push:
  assumes "stack_at s xs"
  shows "\<exists>s'. zend_stack_push x s = Some (int (length xs), s') \<and> stack_at s' (xs @ [x])"
proof -
  have top: "st_top s = int (length xs)" and b: "block_holds (st_elements s) (st_max s) xs" using assms by (auto simp: stack_at_def)
  show ?thesis
  proof (cases "st_top s \<ge> st_max s")
    case True
    have "block_holds (realloc (st_max s + STACK_BLOCK_SIZE) (st_elements s)) (st_max s + STACK_BLOCK_SIZE) xs"
      using block_realloc [OF b] by (simp add: STACK_BLOCK_SIZE_def)
    from block_write [OF this, of x] show ?thesis
      using True top block_room [OF b] by (auto simp: zend_stack_push_def stack_at_def STACK_BLOCK_SIZE_def)
  next
    case False
    then show ?thesis using block_write [OF b, of x] top by (auto simp: zend_stack_push_def stack_at_def)
  qed
qed

text \<open>The callers pop with \<open>zend_stack_top\<close>, a read of the element, and \<open>zend_stack_del_top\<close>.\<close>

definition stack_pop :: "'a zend_stack \<Rightarrow> ('a \<times> 'a zend_stack) option" where
  "stack_pop s = do { i \<leftarrow> zend_stack_top s; x \<leftarrow> read_cell (st_elements s) i; Some (x, zend_stack_del_top s) }"

lemma stack_pop: "stack_at s (xs @ [x]) \<Longrightarrow> \<exists>s'. stack_pop s = Some (x, s') \<and> stack_at s' xs"
  using block_read [of "st_elements s" "st_max s" xs x] block_butlast [of "st_elements s" "st_max s" xs "[x]"]
  by (auto simp: stack_at_def stack_pop_def zend_stack_top_def zend_stack_del_top_def)

lemma stack_count: "stack_at s xs \<Longrightarrow> zend_stack_count s = int (length xs)" by (simp add: stack_at_def zend_stack_count_def)

interpretation zs: stack stack_at "\<lambda>x s. map_option snd (zend_stack_push x s)" stack_pop zend_stack_count
  using stack_push stack_pop stack_count by unfold_locales fastforce+

lemma stack_top_value: "stack_at s (xs @ [x]) \<Longrightarrow> zend_stack_top s = Some (int (length xs)) \<and> read_cell (st_elements s) (int (length xs)) = Some x"
  using block_read by (auto simp: stack_at_def zend_stack_top_def)

lemma stack_int_top: "stack_at s xs \<Longrightarrow> zend_stack_int_top s = Some (if xs = [] then FAILURE else last xs)"
  by (cases xs rule: rev_cases) (auto simp: zend_stack_int_top_def stack_top_value, simp add: stack_at_def zend_stack_top_def)

lemma stack_empty: "stack_at s xs \<Longrightarrow> zend_stack_is_empty s \<longleftrightarrow> xs = []"
  by (auto simp: stack_at_def zend_stack_is_empty_def)

text \<open>A traversal that ends after the first element the callback answers non-zero for.\<close>

fun apply_until :: "('a \<Rightarrow> 's \<Rightarrow> bool \<times> 'a \<times> 's) \<Rightarrow> 'a list \<Rightarrow> 's \<Rightarrow> 'a list \<times> 's" where
  "apply_until f [] st = ([], st)"
| "apply_until f (x # xs) st =
     (let (r, y, st) = f x st in if r then (y # xs, st) else apfst (Cons y) (apply_until f xs st))"

lemma length_apply_until [simp]: "length (fst (apply_until f xs st)) = length xs"
  by (induction f xs st rule: apply_until.induct) (auto split: prod.splits)

lemma call_cell_at: "i = int (length pre) \<Longrightarrow>
    call_cell f i (map Some pre @ Some x # rest, st) = (let (r, y, st') = f x st in Some (r, map Some pre @ Some y # rest, st'))"
  by (auto simp: call_cell_def read_cell_app write_cell_at split: prod.splits)

lemma stack_bottomup_step: "i < n \<Longrightarrow> call_cell f i m = Some (r, m') \<Longrightarrow>
    stack_bottomup f i n m = (if r then Some m' else stack_bottomup f (i + 1) n m')"
  by (subst stack_bottomup.simps) simp

lemma stack_topdown_step: "0 \<le> i \<Longrightarrow> call_cell f i m = Some (r, m') \<Longrightarrow>
    stack_topdown f i m = (if r then Some m' else stack_topdown f (i - 1) m')"
  by (subst stack_topdown.simps) simp

lemma stack_bottomup_list:
  "i = int (length pre) \<Longrightarrow> n = int (length pre + length xs) \<Longrightarrow>
   stack_bottomup f i n (map Some (pre @ xs) @ rest, st) = (let (ys, st') = apply_until f xs st in Some (map Some (pre @ ys) @ rest, st'))"
proof (induction xs arbitrary: pre i st)
  case Nil
  then show ?case by (subst stack_bottomup.simps) simp
next
  case (Cons x xs)
  obtain r y st' where f: "f x st = (r, y, st')" by (cases "f x st") auto
  have c: "call_cell f i (map Some (pre @ x # xs) @ rest, st) = Some (r, map Some ((pre @ [y]) @ xs) @ rest, st')"
    using call_cell_at [OF Cons.prems(1), of f x "map Some xs @ rest" st] by (simp add: f)
  have i: "i < n" using Cons.prems by simp
  show ?case
    unfolding stack_bottomup_step [OF i c]
    using Cons.IH [of "i + 1" "pre @ [y]" st'] Cons.prems by (auto simp: f split: prod.splits)
qed

lemma stack_topdown_list:
  "i = int (length xs) - 1 \<Longrightarrow>
   stack_topdown f i (map Some xs @ rest, st) = (let (ys, st') = apply_until f (rev xs) st in Some (map Some (rev ys) @ rest, st'))"
proof (induction xs arbitrary: i st rest rule: rev_induct)
  case Nil
  then show ?case by (subst stack_topdown.simps) simp
next
  case (snoc x xs)
  obtain r y st' where f: "f x st = (r, y, st')" by (cases "f x st") auto
  have c: "call_cell f i (map Some (xs @ [x]) @ rest, st) = Some (r, map Some xs @ Some y # rest, st')"
    using call_cell_at [of i xs f x rest st] snoc.prems by (simp add: f)
  have i: "0 \<le> i" using snoc.prems by simp
  show ?case
    unfolding stack_topdown_step [OF i c]
    using snoc.IH [of "i - 1" "Some y # rest" st'] snoc.prems by (auto simp: f split: prod.splits)
qed

definition stack_order :: "zend_stack_apply_direction \<Rightarrow> 'a list \<Rightarrow> 'a list" where
  "stack_order type xs = (case type of ZEND_STACK_APPLY_TOPDOWN \<Rightarrow> rev xs | ZEND_STACK_APPLY_BOTTOMUP \<Rightarrow> xs)"

lemma stack_apply:
  assumes "stack_at s xs" and "apply_until f (stack_order type xs) st = (ys, st')"
  shows "\<exists>s'. zend_stack_apply type f s st = Some (s', st') \<and> stack_at s' (stack_order type ys)"
proof -
  obtain rest where r: "st_elements s = map Some xs @ rest" "length (map Some xs @ rest) = nat (st_max s)" "0 \<le> st_max s" "st_top s = int (length xs)"
    using assms(1) by (auto simp: stack_at_def block_holds_def)
  have "length ys = length (stack_order type xs)" using length_apply_until [of f "stack_order type xs" st] assms(2) by simp
  also have "\<dots> = length xs" by (cases type) (simp_all add: stack_order_def)
  finally have "length ys = length xs" .
  then show ?thesis
    using assms(2) r stack_bottomup_list [of 0 "[]" "int (length xs)" xs f rest st] stack_topdown_list [of "int (length xs) - 1" xs f rest st]
    by (cases type) (auto simp: zend_stack_apply_def stack_order_def stack_at_def block_holds_def)
qed

fun map_state :: "('a \<Rightarrow> 's \<Rightarrow> 'a \<times> 's) \<Rightarrow> 'a list \<Rightarrow> 's \<Rightarrow> 'a list \<times> 's" where
  "map_state f [] st = ([], st)"
| "map_state f (x # xs) st = (let (y, st) = f x st in apfst (Cons y) (map_state f xs st))"

lemma apply_until_never: "apply_until (\<lambda>x st. (False, f x st)) xs st = map_state f xs st"
  by (induction f xs st rule: map_state.induct) (auto split: prod.splits)

lemma stack_clean:
  assumes "stack_at s xs" and "map_state f xs st = (ys, st')"
  shows "\<exists>s'. zend_stack_clean (Some f) free s st = Some (s', st') \<and> stack_at s' (if free then [] else ys)"
proof -
  obtain rest where r: "st_elements s = map Some xs @ rest" "length (map Some xs @ rest) = nat (st_max s)" "0 \<le> st_max s" "st_top s = int (length xs)"
    using assms(1) by (auto simp: stack_at_def block_holds_def)
  have "length ys = length xs" using length_apply_until [of "\<lambda>x st. (False, f x st)" xs st] assms(2) by (simp add: apply_until_never)
  then show ?thesis
    using assms(2) r stack_bottomup_list [of 0 "[]" "int (length xs)" xs "\<lambda>x st. (False, f x st)" rest st]
    by (auto simp: zend_stack_clean_def apply_until_never stack_at_def block_holds_def)
qed

text \<open>Destroyed, a stack that had room keeps its counts: the next push writes through the null pointer.\<close>

lemma destroyed_push: "st_top s < st_max s \<Longrightarrow> zend_stack_push x (zend_stack_destroy s) = None"
  by (auto simp: zend_stack_destroy_def zend_stack_push_def write_cell_def Let_def)

subsection \<open>\<open>zend_ptr_stack\<close> keeps the contract\<close>

definition ptr_stack_at :: "'a zend_ptr_stack \<Rightarrow> 'a list \<Rightarrow> bool" where
  "ptr_stack_at s xs \<longleftrightarrow> ps_top s = int (length xs) \<and> top_element s = ps_top s \<and> block_holds (ps_elements s) (ps_max s) xs"

lemma ptr_init_at: "ptr_stack_at (zend_ptr_stack_init_ex p) []"
  by (simp add: ptr_stack_at_def zend_ptr_stack_init_ex_def block_holds_def)

lemma grow_max_fits: "needed \<le> grow_max needed m \<and> m < grow_max needed m"
proof (induction needed m rule: grow_max.induct)
  case (1 needed m)
  then show ?case by (auto simp: grow_max.simps [of needed m] Let_def PTR_STACK_BLOCK_SIZE_def)
qed

lemma resize_at: "ptr_stack_at s xs \<Longrightarrow> ptr_stack_at (RESIZE_IF_NEEDED n s) xs \<and> int (length xs) + n \<le> ps_max (RESIZE_IF_NEEDED n s)"
  using grow_max_fits [of "ps_top s + n" "ps_max s"] block_realloc [of "ps_elements s" "ps_max s" xs]
  by (auto simp: RESIZE_IF_NEEDED_def ptr_stack_at_def Let_def)

text \<open>Writing through the top pointer; the count is adjusted before or after.\<close>

lemma put_top_at:
  assumes "top_element s = int (length xs)" "block_holds (ps_elements s) (ps_max s) xs" "int (length xs) < ps_max s"
  obtains cs where "put_top x s = Some (s\<lparr>ps_elements := cs, top_element := int (length xs) + 1\<rparr>)"
    and "block_holds cs (ps_max s) (xs @ [x])"
  using block_write [OF assms(2,3), of x] assms(1) by (auto simp: put_top_def)

lemma n_push_loop_at:
  "ptr_stack_at s xs \<Longrightarrow> int (length xs + length ys) \<le> ps_max s \<Longrightarrow>
   \<exists>s'. n_push_loop (length ys) (ys @ zs) s = Some s' \<and> ptr_stack_at s' (xs @ ys)"
proof (induction ys arbitrary: s xs)
  case Nil
  then show ?case by simp
next
  case (Cons y ys)
  let ?s = "s\<lparr>ps_top := ps_top s + 1\<rparr>"
  have a: "top_element ?s = int (length xs)" "block_holds (ps_elements ?s) (ps_max ?s) xs" "int (length xs) < ps_max ?s"
    using Cons.prems by (auto simp: ptr_stack_at_def)
  obtain cs where p: "put_top y ?s = Some (?s\<lparr>ps_elements := cs, top_element := int (length xs) + 1\<rparr>)"
      "block_holds cs (ps_max ?s) (xs @ [y])"
    by (rule put_top_at [OF a, of y])
  have "ptr_stack_at (?s\<lparr>ps_elements := cs, top_element := int (length xs) + 1\<rparr>) (xs @ [y])"
    using p(2) Cons.prems by (simp add: ptr_stack_at_def)
  then show ?case using Cons.IH [of _ "xs @ [y]"] Cons.prems(2) p(1) by simp
qed

lemma ptr_n_push:
  assumes "ptr_stack_at s xs"
  shows "\<exists>s'. zend_ptr_stack_n_push (int (length ys)) (ys @ zs) s = Some s' \<and> ptr_stack_at s' (xs @ ys)"
  using n_push_loop_at [of "RESIZE_IF_NEEDED (int (length ys)) s" xs ys zs] resize_at [OF assms, of "int (length ys)"]
  by (simp add: zend_ptr_stack_n_push_def)

lemma n_push_none: "n_push_loop 0 args = Some"
  by (rule ext) simp

text \<open>The pushes of one, of two and of three are pushes of a list.\<close>

lemma ptr_push_n_push: "zend_ptr_stack_push x s = zend_ptr_stack_n_push 1 [x] s"
  by (simp add: zend_ptr_stack_push_def zend_ptr_stack_n_push_def Let_def n_push_none)

lemma ptr_2_push_n_push: "zend_ptr_stack_2_push a b s = zend_ptr_stack_n_push 2 [a, b] s"
proof -
  let ?s = "RESIZE_IF_NEEDED 2 s"
  show ?thesis
    by (cases "write_cell (top_element ?s) a (ps_elements ?s)")
      (simp_all add: zend_ptr_stack_2_push_def zend_ptr_stack_n_push_def Let_def numeral_2_eq_2 n_push_none put_top_def add.commute [of _ "2::int"])
qed

lemma ptr_3_push_n_push: "zend_ptr_stack_3_push a b c s = zend_ptr_stack_n_push 3 [a, b, c] s"
proof -
  let ?s = "RESIZE_IF_NEEDED 3 s"
  show ?thesis
  proof (cases "write_cell (top_element ?s) a (ps_elements ?s)")
    case (Some cs)
    then show ?thesis
      by (cases "write_cell (top_element ?s + 1) b cs")
        (simp_all add: zend_ptr_stack_3_push_def zend_ptr_stack_n_push_def Let_def numeral_3_eq_3 n_push_none put_top_def add.commute [of _ "3::int"] add.commute [of _ "2::int"])
  qed (simp add: zend_ptr_stack_3_push_def zend_ptr_stack_n_push_def Let_def numeral_3_eq_3 put_top_def)
qed

lemma ptr_push: "ptr_stack_at s xs \<Longrightarrow> \<exists>s'. zend_ptr_stack_push x s = Some s' \<and> ptr_stack_at s' (xs @ [x])"
  using ptr_n_push [of s xs "[x]" "[]"] by (simp add: ptr_push_n_push)

lemma take_top_at: "block_holds (ps_elements s) m (xs @ [x]) \<Longrightarrow> top_element s = int (length xs) + 1 \<Longrightarrow>
    take_top s = Some (x, s\<lparr>top_element := int (length xs)\<rparr>)"
  using block_read [of "ps_elements s" m xs x] by (simp add: take_top_def)

lemma ptr_pop: "ptr_stack_at s (xs @ [x]) \<Longrightarrow> \<exists>s'. zend_ptr_stack_pop s = Some (x, s') \<and> ptr_stack_at s' xs"
  using take_top_at [of "s\<lparr>ps_top := ps_top s - 1\<rparr>" "ps_max s" xs x] block_butlast [of "ps_elements s" "ps_max s" xs "[x]"]
  by (auto simp: ptr_stack_at_def zend_ptr_stack_pop_def)

lemma ptr_num: "ptr_stack_at s xs \<Longrightarrow> zend_ptr_stack_num_elements s = int (length xs)"
  by (simp add: ptr_stack_at_def zend_ptr_stack_num_elements_def)

interpretation ps: stack ptr_stack_at zend_ptr_stack_push zend_ptr_stack_pop zend_ptr_stack_num_elements
  by unfold_locales (erule ptr_push ptr_pop ptr_num)+

lemma ptr_top: "ptr_stack_at s (xs @ [x]) \<Longrightarrow> zend_ptr_stack_top s = Some x"
  using block_read by (auto simp: ptr_stack_at_def zend_ptr_stack_top_def)

lemma ptr_n_pop:
  assumes "ptr_stack_at s (ys @ xs)"
  shows "\<exists>s'. zend_ptr_stack_n_pop (int (length xs)) s = Some (rev xs, s') \<and> ptr_stack_at s' ys"
  using assms
proof (induction xs arbitrary: s rule: rev_induct)
  case Nil
  then show ?case by (simp add: zend_ptr_stack_n_pop_def)
next
  case (snoc x xs)
  have b: "block_holds (ps_elements s) (ps_max s) ((ys @ xs) @ [x])" "top_element s = int (length (ys @ xs)) + 1" "ps_top s = top_element s"
    using snoc.prems by (auto simp: ptr_stack_at_def)
  let ?s = "s\<lparr>top_element := int (length (ys @ xs)), ps_top := ps_top s - 1\<rparr>"
  have t: "take_top s = Some (x, s\<lparr>top_element := int (length (ys @ xs))\<rparr>)" by (rule take_top_at [OF b(1,2)])
  have "ptr_stack_at ?s (ys @ xs)" using b(2,3) block_butlast [OF b(1)] by (simp add: ptr_stack_at_def)
  from snoc.IH [OF this] obtain s' where "n_pop_loop (length xs) ?s = Some (rev xs, s')" "ptr_stack_at s' ys"
    by (auto simp: zend_ptr_stack_n_pop_def)
  moreover have "nat (int (length (xs @ [x]))) = Suc (length xs)" by simp
  ultimately show ?case unfolding zend_ptr_stack_n_pop_def using t by (simp del: of_nat_Suc)
qed

text \<open>The pops of two and of three, whose count is adjusted at the end.\<close>

lemma ptr_2_pop:
  assumes "ptr_stack_at s (xs @ [b, a])"
  shows "\<exists>s'. zend_ptr_stack_2_pop s = Some (a, b, s') \<and> ptr_stack_at s' xs"
proof -
  have t: "top_element s = int (length xs) + 2" "ps_top s = top_element s" and h: "block_holds (ps_elements s) (ps_max s) (xs @ [b, a])"
    using assms by (auto simp: ptr_stack_at_def)
  have a: "take_top s = Some (a, s\<lparr>top_element := int (length xs) + 1\<rparr>)"
    using take_top_at [of s "ps_max s" "xs @ [b]" a] t h by simp
  have b: "take_top (s\<lparr>top_element := int (length xs) + 1\<rparr>) = Some (b, s\<lparr>top_element := int (length xs)\<rparr>)"
    using take_top_at [of "s\<lparr>top_element := int (length xs) + 1\<rparr>" "ps_max s" xs b] block_butlast [of _ _ "xs @ [b]" "[a]"] h by simp
  show ?thesis using a b t block_butlast [OF h] by (simp add: zend_ptr_stack_2_pop_def ptr_stack_at_def)
qed

lemma ptr_3_pop:
  assumes "ptr_stack_at s (xs @ [c, b, a])"
  shows "\<exists>s'. zend_ptr_stack_3_pop s = Some (a, b, c, s') \<and> ptr_stack_at s' xs"
proof -
  have t: "top_element s = int (length xs) + 3" "ps_top s = top_element s" and h: "block_holds (ps_elements s) (ps_max s) (xs @ [c, b, a])"
    using assms by (auto simp: ptr_stack_at_def)
  have a: "take_top s = Some (a, s\<lparr>top_element := int (length xs) + 2\<rparr>)"
    using take_top_at [of s "ps_max s" "xs @ [c, b]" a] t h by simp
  have b: "take_top (s\<lparr>top_element := int (length xs) + 2\<rparr>) = Some (b, s\<lparr>top_element := int (length xs) + 1\<rparr>)"
    using take_top_at [of "s\<lparr>top_element := int (length xs) + 2\<rparr>" "ps_max s" "xs @ [c]" b] block_butlast [of _ _ "xs @ [c, b]" "[a]"] h by simp
  have c: "take_top (s\<lparr>top_element := int (length xs) + 1\<rparr>) = Some (c, s\<lparr>top_element := int (length xs)\<rparr>)"
    using take_top_at [of "s\<lparr>top_element := int (length xs) + 1\<rparr>" "ps_max s" xs c] block_butlast [of _ _ "xs @ [c]" "[b, a]"] h by simp
  show ?thesis using a b c t block_butlast [OF h] by (simp add: zend_ptr_stack_3_pop_def ptr_stack_at_def)
qed

lemma ptr_stack_down_list: "ptr_stack_down f (map Some xs @ rest) (length xs) st = Some (fold f (rev xs) st)"
proof (induction xs arbitrary: rest st rule: rev_induct)
  case (snoc x xs)
  then show ?case using snoc.IH [of "Some x # rest" "f x st"] by (simp add: read_cell_app)
qed simp

lemma ptr_stack_up_list: "ptr_stack_up f (map Some (pre @ xs) @ rest) (length pre) (length xs) st = Some (fold f xs st)"
proof (induction xs arbitrary: pre st)
  case (Cons x xs)
  have "read_cell (map Some (pre @ x # xs) @ rest) (int (length pre)) = Some x" by (simp add: read_cell_app nth_append del: map_append)
  then show ?case using Cons.IH [of "pre @ [x]" "f x st"] by simp
qed simp

lemma ptr_apply: "ptr_stack_at s xs \<Longrightarrow> zend_ptr_stack_apply f s st = Some (fold f (rev xs) st)"
  by (auto simp: ptr_stack_at_def block_holds_def zend_ptr_stack_apply_def ptr_stack_down_list)

lemma ptr_reverse_apply: "ptr_stack_at s xs \<Longrightarrow> zend_ptr_stack_reverse_apply f s st = Some (fold f xs st)"
  using ptr_stack_up_list [of f "[]" xs] by (auto simp: ptr_stack_at_def block_holds_def zend_ptr_stack_reverse_apply_def)

lemma ptr_clean:
  assumes "ptr_stack_at s xs"
  shows "\<exists>s'. zend_ptr_stack_clean fr f free s st = Some (s', if free then fold fr (rev xs) (fold f (rev xs) st) else fold f (rev xs) st) \<and>
    ptr_stack_at s' []"
  using assms ptr_apply [OF assms, of f st]
  by (auto simp: zend_ptr_stack_clean_def ptr_stack_at_def block_holds_def ptr_stack_down_list)

end
