(* ===== verification/ZendSearch.thy ===== *)
theory ZendSearch
  imports PhpPrelude "HOL-Library.Monad_Syntax"
begin

text \<open>
  Searching for a byte string in another (\<open>zend_operators.h\<close>, \<open>zend_operators.c\<close>): \<open>zend_memnstr\<close> for the first
  occurrence and \<open>zend_memnrstr\<close> for the last, each with a loop over the candidates \<open>memchr\<close> finds for short
  texts and Sunday's algorithm, with a table of shifts, for long ones.

  Pointers into the haystack are positions. The outer \<open>None\<close> of a result is a read outside of the two strings or
  a loop that does not end; the inner one is \<open>NULL\<close>. \<open>memchr\<close> and \<open>memcmp\<close> of the C library are modelled by what
  they promise, for reads within bounds.
\<close>

subsection \<open>Reading\<close>

definition byte_at :: "u8 list \<Rightarrow> nat \<Rightarrow> u8 option" where
  "byte_at s i = (if i < length s then Some (s ! i) else None)"

definition memchr :: "u8 list \<Rightarrow> nat \<Rightarrow> u8 \<Rightarrow> nat \<Rightarrow> nat option option" where
  "memchr s p c n = (if p + n \<le> length s then Some (find (\<lambda>i. s ! i = c) [p..<p + n]) else None)"

definition same_bytes :: "u8 list \<Rightarrow> nat \<Rightarrow> u8 list \<Rightarrow> nat \<Rightarrow> nat \<Rightarrow> bool option" where
  "same_bytes s p t q n = (if p + n \<le> length s \<and> q + n \<le> length t then Some (take n (drop p s) = take n (drop q t)) else None)"

fun memrchr_loop :: "u8 list \<Rightarrow> u8 \<Rightarrow> nat \<Rightarrow> nat option option" where
  "memrchr_loop s c 0 = Some None"
| "memrchr_loop s c (Suc e) = do { b \<leftarrow> byte_at s e; if b = c then Some (Some e) else memrchr_loop s c e }"

definition zend_memrchr :: "u8 list \<Rightarrow> u8 \<Rightarrow> nat \<Rightarrow> nat option option" where
  "zend_memrchr s c n = (if n = 0 then Some None else memrchr_loop s c n)"

subsection \<open>Sunday's algorithm\<close>

text \<open>The table of shifts; the loop that fills it backwards has an \<open>int\<close> as its counter.\<close>

definition zend_memnstr_ex_pre :: "u8 list \<Rightarrow> bool \<Rightarrow> u8 \<Rightarrow> u32" where
  "zend_memnstr_ex_pre needle reverse =
     (let td = (\<lambda>_. word_of_nat (length needle + 1))
      in if reverse
         then fold (\<lambda>i td. td(needle ! i := word_of_nat (i + 1))) (rev [0..<nat (sint (word_of_nat (length needle - 1) :: u32) + 1)]) td
         else fold (\<lambda>i td. td(needle ! i := word_of_nat (length needle - i))) [0..<length needle] td)"

text \<open>The number of bytes of the needle that agree from \<open>p\<close> on.\<close>

function equal_prefix :: "u8 list \<Rightarrow> nat \<Rightarrow> u8 list \<Rightarrow> nat \<Rightarrow> nat option" where
  "equal_prefix hay p needle i =
     (if i < length needle
      then do { b \<leftarrow> byte_at hay (p + i); if needle ! i \<noteq> b then Some i else equal_prefix hay p needle (i + 1) }
      else Some i)"
  by pat_completeness auto
termination by (relation "measure (\<lambda>(_, _, needle, i). length needle - i)") auto

declare equal_prefix.simps [simp del]

partial_function (option) memnstr_ex_loop :: "u8 list \<Rightarrow> u8 list \<Rightarrow> (u8 \<Rightarrow> u32) \<Rightarrow> nat \<Rightarrow> nat \<Rightarrow> nat option option" where
  "memnstr_ex_loop hay needle td end p =
     (if p \<le> end
      then do {
        i \<leftarrow> equal_prefix hay p needle 0;
        if i = length needle then Some (Some p)
        else if p = end then Some None
        else do { b \<leftarrow> byte_at hay (p + length needle); memnstr_ex_loop hay needle td end (p + unat (td b)) }
      }
      else Some None)"

definition zend_memnstr_ex :: "u8 list \<Rightarrow> u8 list \<Rightarrow> nat option option" where
  "zend_memnstr_ex hay needle =
     (if length needle = 0 \<or> length hay < length needle then Some None
      else memnstr_ex_loop hay needle (zend_memnstr_ex_pre needle False) (length hay - length needle) 0)"

partial_function (option) memnrstr_ex_loop :: "u8 list \<Rightarrow> u8 list \<Rightarrow> (u8 \<Rightarrow> u32) \<Rightarrow> int \<Rightarrow> nat option option" where
  "memnrstr_ex_loop hay needle td p =
     (if p \<ge> 0
      then do {
        i \<leftarrow> equal_prefix hay (nat p) needle 0;
        if i = length needle then Some (Some (nat p))
        else if p = 0 then Some None
        else do { b \<leftarrow> byte_at hay (nat (p - 1)); memnrstr_ex_loop hay needle td (p - uint (td b)) }
      }
      else Some None)"

definition zend_memnrstr_ex :: "u8 list \<Rightarrow> u8 list \<Rightarrow> nat option option" where
  "zend_memnrstr_ex hay needle =
     (if length needle = 0 \<or> length hay < length needle then Some None
      else memnrstr_ex_loop hay needle (zend_memnstr_ex_pre needle True) (int (length hay) - int (length needle)))"

subsection \<open>The entry points\<close>

text \<open>A candidate at \<open>p\<close>, whose first byte agrees: the last byte, then those between.\<close>

definition candidate :: "u8 list \<Rightarrow> u8 list \<Rightarrow> nat \<Rightarrow> bool option" where
  "candidate hay needle p = do {
     b \<leftarrow> byte_at hay (p + length needle - 1);
     if needle ! (length needle - 1) = b then same_bytes needle 1 hay (p + 1) (length needle - 2) else Some False
   }"

partial_function (option) memnstr_loop :: "u8 list \<Rightarrow> u8 list \<Rightarrow> nat \<Rightarrow> nat \<Rightarrow> nat option option" where
  "memnstr_loop hay needle end p =
     (if p \<le> end
      then do {
        r \<leftarrow> memchr hay p (needle ! 0) (end - p + 1);
        case r of
          None \<Rightarrow> Some None
        | Some p \<Rightarrow> do { ok \<leftarrow> candidate hay needle p; if ok then Some (Some p) else memnstr_loop hay needle end (p + 1) }
      }
      else Some None)"

definition zend_memnstr :: "u8 list \<Rightarrow> u8 list \<Rightarrow> nat option option" where
  "zend_memnstr hay needle =
     (if length needle = 1 then memchr hay 0 (needle ! 0) (length hay)
      else if length needle = 0 then Some (Some 0)
      else if length needle > length hay then Some None
      else if length hay < 1024 \<or> length needle < 9 then memnstr_loop hay needle (length hay - length needle) 0
      else zend_memnstr_ex hay needle)"

partial_function (option) memnrstr_loop :: "u8 list \<Rightarrow> u8 list \<Rightarrow> int \<Rightarrow> nat option option" where
  "memnrstr_loop hay needle p = do {
     r \<leftarrow> zend_memrchr hay (needle ! 0) (nat (p + 1));
     case r of
       None \<Rightarrow> Some None
     | Some p \<Rightarrow> do {
         ok \<leftarrow> candidate hay needle p;
         if ok then Some (Some p) else if int p \<ge> 0 then memnrstr_loop hay needle (int p - 1) else Some None
       }
   }"

definition zend_memnrstr :: "u8 list \<Rightarrow> u8 list \<Rightarrow> nat option option" where
  "zend_memnrstr hay needle =
     (if length needle = 0 then Some (Some (length hay))
      else if length needle = 1 then zend_memrchr hay (needle ! 0) (length hay)
      else if length needle > length hay then Some None
      else if length hay < 1024 \<or> length needle < 3 then memnrstr_loop hay needle (int (length hay) - int (length needle))
      else zend_memnrstr_ex hay needle)"

subsection \<open>The specification: the first and the last occurrence\<close>

definition occurs :: "u8 list \<Rightarrow> u8 list \<Rightarrow> nat \<Rightarrow> bool" where
  "occurs hay needle i \<longleftrightarrow> i + length needle \<le> length hay \<and> take (length needle) (drop i hay) = needle"

definition first_occurrence :: "u8 list \<Rightarrow> u8 list \<Rightarrow> nat option" where
  "first_occurrence hay needle = find (occurs hay needle) [0..<length hay + 1]"

definition last_occurrence :: "u8 list \<Rightarrow> u8 list \<Rightarrow> nat option" where
  "last_occurrence hay needle = find (occurs hay needle) (rev [0..<length hay + 1])"

lemma occurs_nth: "occurs hay needle i \<longleftrightarrow> i + length needle \<le> length hay \<and> (\<forall>k < length needle. hay ! (i + k) = needle ! k)"
  by (auto simp: occurs_def list_eq_iff_nth_eq)

lemma occurs_range: "occurs hay needle i \<Longrightarrow> i + length needle \<le> length hay" by (simp add: occurs_def)

lemma find_app: "find P (xs @ ys) = (case find P xs of None \<Rightarrow> find P ys | Some x \<Rightarrow> Some x)"
  by (induction xs) auto

lemma upt_at: "p \<le> i \<Longrightarrow> i < n \<Longrightarrow> [p..<n] = [p..<i] @ i # [i + 1..<n]"
  by (metis Suc_eq_plus1 le_add_diff_inverse less_imp_le_nat upt_add_eq_append upt_conv_Cons)

lemma find_first:
  assumes "P i" "\<And>j. j < i \<Longrightarrow> \<not> P j" "p \<le> i" "i < n"
  shows "find P [p..<n] = Some i"
proof -
  note upt_at [OF assms(3,4)]
  moreover have "find P [p..<i] = None" using assms(2) by (auto simp: find_None_iff)
  ultimately show ?thesis using assms(1) by (simp add: find_app split: option.splits)
qed

lemma find_last:
  assumes "P i" "\<And>j. i < j \<Longrightarrow> j < n \<Longrightarrow> \<not> P j" "i < n"
  shows "find P (rev [0..<n]) = Some i"
proof -
  note upt_at [OF le0 assms(3)]
  moreover have "find P (rev [i + 1..<n]) = None" using assms(2) by (auto simp: find_None_iff)
  ultimately show ?thesis using assms(1) by (simp add: find_app split: option.splits)
qed

lemma first_occurrence_at: "occurs hay needle i \<Longrightarrow> \<forall>j < i. \<not> occurs hay needle j \<Longrightarrow> first_occurrence hay needle = Some i"
  unfolding first_occurrence_def by (rule find_first) (auto dest: occurs_range)

lemma first_occurrence_none: "\<forall>j. \<not> occurs hay needle j \<Longrightarrow> first_occurrence hay needle = None"
  by (simp add: first_occurrence_def find_None_iff)

lemma last_occurrence_at: "occurs hay needle i \<Longrightarrow> \<forall>j > i. \<not> occurs hay needle j \<Longrightarrow> last_occurrence hay needle = Some i"
  unfolding last_occurrence_def by (rule find_last) (auto dest: occurs_range)

lemma last_occurrence_none: "\<forall>j. \<not> occurs hay needle j \<Longrightarrow> last_occurrence hay needle = None"
  by (simp add: last_occurrence_def find_None_iff)

subsection \<open>The parts\<close>

lemma equal_prefix_step:
  "i < length needle \<Longrightarrow> p + i < length hay \<Longrightarrow>
     equal_prefix hay p needle i = (if needle ! i \<noteq> hay ! (p + i) then Some i else equal_prefix hay p needle (i + 1))"
  "\<not> i < length needle \<Longrightarrow> equal_prefix hay p needle i = Some i"
  by (subst equal_prefix.simps, simp add: byte_at_def)+

lemma equal_prefix_correct:
  assumes "p + length needle \<le> length hay" "i \<le> length needle" "\<forall>k < i. hay ! (p + k) = needle ! k"
  shows "\<exists>j. equal_prefix hay p needle i = Some j \<and> (j = length needle \<longleftrightarrow> occurs hay needle p)"
  using assms(2,3)
proof (induction "length needle - i" arbitrary: i)
  case 0
  then have "i = length needle" "occurs hay needle p" using assms(1) by (auto simp: occurs_nth)
  then show ?case by (simp add: equal_prefix_step(2))
next
  case (Suc m)
  have i: "i < length needle" "p + i < length hay" using Suc.hyps(2) assms(1) by linarith+
  show ?case
  proof (cases "needle ! i = hay ! (p + i)")
    case True
    then have "\<forall>k < i + 1. hay ! (p + k) = needle ! k" using Suc.prems(2) by (auto simp: less_Suc_eq)
    moreover have "m = length needle - (i + 1)" "i + 1 \<le> length needle" using Suc.hyps(2) by simp_all
    ultimately show ?thesis using Suc.hyps(1) [of "i + 1"] True i by (simp add: equal_prefix_step(1))
  next
    case False
    then have "\<not> occurs hay needle p" using i(1) by (auto simp: occurs_nth)
    then show ?thesis using False i by (simp add: equal_prefix_step(1))
  qed
qed

lemma candidate_correct:
  assumes "2 \<le> length needle" "p + length needle \<le> length hay" "hay ! p = needle ! 0"
  shows "candidate hay needle p = Some (occurs hay needle p)"
proof -
  define n where "n = length needle - 2"
  have n: "length needle = n + 2" using assms(1) by (simp add: n_def)
  have "occurs hay needle p \<longleftrightarrow> hay ! p = needle ! 0 \<and> (\<forall>k < n. hay ! (p + 1 + k) = needle ! (1 + k)) \<and> hay ! (p + n + 1) = needle ! (n + 1)"
  proof -
    have "(\<forall>k < n + 2. P k) \<longleftrightarrow> P 0 \<and> (\<forall>k < n. P (1 + k)) \<and> P (n + 1)" for P
    proof -
      have "(\<forall>k < n + 2. P k) \<longleftrightarrow> (\<forall>k < Suc n. P k) \<and> P (Suc n)" by (auto simp: less_Suc_eq)
      then show ?thesis by (simp add: All_less_Suc2)
    qed
    from this [of "\<lambda>k. hay ! (p + k) = needle ! k"] show ?thesis using assms(2) by (simp add: occurs_nth n add.assoc)
  qed
  moreover have "take n (drop 1 needle) = take n (drop (p + 1) hay) \<longleftrightarrow> (\<forall>k < n. hay ! (p + 1 + k) = needle ! (1 + k))"
    using assms(2) n by (auto simp: list_eq_iff_nth_eq)
  ultimately show ?thesis using assms(2,3) n by (auto simp: candidate_def byte_at_def same_bytes_def)
qed

lemma memrchr_correct: "n \<le> length s \<Longrightarrow> zend_memrchr s c n = Some (find (\<lambda>i. s ! i = c) (rev [0..<n]))"
proof (induction n)
  case (Suc n)
  then show ?case by (cases n) (auto simp: zend_memrchr_def byte_at_def)
qed (simp add: zend_memrchr_def)

subsection \<open>The table of shifts\<close>

lemma unat_u32: "n < 2 ^ 32 \<Longrightarrow> unat (word_of_nat n :: u32) = n"
  by (simp add: unsigned_of_nat take_bit_nat_eq_self)

lemma sint_u32: "n < 2 ^ 31 \<Longrightarrow> sint (word_of_nat n :: u32) = int n"
  by (simp add: signed_of_nat signed_take_bit_int_eq_self)

lemma shift_forward:
  assumes "length needle < 2 ^ 32 - 1"
  shows "unat (zend_memnstr_ex_pre needle False b) = length needle + 1 \<and> b \<notin> set needle \<or>
    (\<exists>i < length needle. needle ! i = b \<and> unat (zend_memnstr_ex_pre needle False b) = length needle - i \<and>
      (\<forall>k < length needle. needle ! k = b \<longrightarrow> k \<le> i))"
proof -
  define td where "td m = fold (\<lambda>i td. td(needle ! i := (word_of_nat (length needle - i) :: u32))) [0..<m] (\<lambda>_. word_of_nat (length needle + 1))" for m
  have "m \<le> length needle \<Longrightarrow> unat (td m b) = length needle + 1 \<and> (\<forall>k < m. needle ! k \<noteq> b) \<or>
    (\<exists>i < m. needle ! i = b \<and> unat (td m b) = length needle - i \<and> (\<forall>k < m. needle ! k = b \<longrightarrow> k \<le> i))" for m
  proof (induction m)
    case 0
    have "unat (word_of_nat (length needle + 1) :: u32) = length needle + 1" using assms by (intro unat_u32) simp
    then show ?case by (simp add: td_def)
  next
    case (Suc m)
    have s: "td (Suc m) = (td m)(needle ! m := word_of_nat (length needle - m))" by (simp add: td_def)
    have w: "unat (word_of_nat (length needle - m) :: u32) = length needle - m" using assms by (intro unat_u32) simp
    show ?case
    proof (cases "needle ! m = b")
      case True
      then show ?thesis using s w by (intro disjI2 exI [of _ m]) auto
    next
      case False
      then have e: "td (Suc m) b = td m b" using s by simp
      show ?thesis unfolding e using Suc False by (auto simp: less_Suc_eq)
    qed
  qed
  from this [of "length needle"] show ?thesis
    by (auto simp: zend_memnstr_ex_pre_def td_def Let_def in_set_conv_nth)
qed

lemma shift_backward:
  assumes "1 \<le> length needle" "length needle \<le> 2 ^ 31"
  shows "unat (zend_memnstr_ex_pre needle True b) = length needle + 1 \<and> b \<notin> set needle \<or>
    (\<exists>i < length needle. needle ! i = b \<and> unat (zend_memnstr_ex_pre needle True b) = i + 1 \<and>
      (\<forall>k < length needle. needle ! k = b \<longrightarrow> i \<le> k))"
proof -
  define n where "n = length needle"
  define td where "td m = fold (\<lambda>i td. td(needle ! i := (word_of_nat (i + 1) :: u32))) (rev [m..<n]) (\<lambda>_. word_of_nat (n + 1))" for m
  have "m \<le> n \<Longrightarrow> unat (td (n - m) b) = n + 1 \<and> (\<forall>k < n. n - m \<le> k \<longrightarrow> needle ! k \<noteq> b) \<or>
    (\<exists>i < n. n - m \<le> i \<and> needle ! i = b \<and> unat (td (n - m) b) = i + 1 \<and> (\<forall>k < n. n - m \<le> k \<and> needle ! k = b \<longrightarrow> i \<le> k))" for m
  proof (induction m)
    case 0
    have "unat (word_of_nat (n + 1) :: u32) = n + 1" using assms by (intro unat_u32) (simp add: n_def)
    then show ?case by (simp add: td_def)
  next
    case (Suc m)
    define j where "j = n - Suc m"
    have j: "n - m = Suc j" "j < n" using Suc.prems by (auto simp: j_def)
    have "[j..<n] = j # [Suc j..<n]" using j(2) by (rule upt_conv_Cons)
    then have s: "td j = (td (Suc j))(needle ! j := word_of_nat (j + 1))" by (simp add: td_def)
    have w: "unat (word_of_nat (j + 1) :: u32) = j + 1" using assms j(2) by (intro unat_u32) (simp add: n_def)
    show ?case
    proof (cases "needle ! j = b")
      case True
      then show ?thesis using s w j unfolding j_def [symmetric] by (intro disjI2 exI [of _ j]) auto
    next
      case False
      then have e: "td j b = td (Suc j) b" using s by simp
      have k: "(j \<le> k \<and> needle ! k = b) = (Suc j \<le> k \<and> needle ! k = b)" for k using False by (cases "k = j") auto
      show ?thesis unfolding j_def [symmetric] e using Suc j(1) k by (metis Suc_leD)
    qed
  qed
  from this [of n] have "unat (td 0 b) = n + 1 \<and> (\<forall>k < n. needle ! k \<noteq> b) \<or>
    (\<exists>i < n. needle ! i = b \<and> unat (td 0 b) = i + 1 \<and> (\<forall>k < n. needle ! k = b \<longrightarrow> i \<le> k))" by simp
  moreover have "nat (sint (word_of_nat (length needle - 1) :: u32) + 1) = n"
  proof -
    have "sint (word_of_nat (length needle - 1) :: u32) = int (length needle - 1)"
      using assms by (intro sint_u32) simp
    then show ?thesis using assms(1) by (simp only: n_def)
  qed
  ultimately show ?thesis
    by (auto simp: zend_memnstr_ex_pre_def td_def Let_def in_set_conv_nth n_def)
qed

text \<open>No occurrence is skipped by a shift.\<close>

lemma shift_skips:
  assumes "length needle < 2 ^ 32 - 1" "p + length needle < length hay" "needle \<noteq> []"
    and "s = unat (zend_memnstr_ex_pre needle False (hay ! (p + length needle)))"
  shows "1 \<le> s" "p < j \<Longrightarrow> j < p + s \<Longrightarrow> \<not> occurs hay needle j"
proof -
  define b where "b = hay ! (p + length needle)"
  note S = shift_forward [OF assms(1), of b, folded assms(4) [folded b_def]]
  show "1 \<le> s" using S by auto
  show "\<not> occurs hay needle j" if j: "p < j" "j < p + s"
  proof
    assume o: "occurs hay needle j"
    define k where "k = p + length needle - j"
    have "s \<le> length needle + 1" using S by auto
    then have k: "k < length needle" "j + k = p + length needle" using j by (auto simp: k_def)
    then have "needle ! k = b" using o by (auto simp: occurs_nth b_def)
    then have "s \<le> length needle - k" using S k(1) by (auto simp: in_set_conv_nth)
    then show False using j k by simp
  qed
qed

lemma shift_skips_back:
  assumes "1 \<le> length needle" "length needle \<le> 2 ^ 31" "0 < p" "p \<le> length hay"
    and "s = unat (zend_memnstr_ex_pre needle True (hay ! (p - 1)))"
  shows "1 \<le> s" "j < p \<Longrightarrow> p < j + s \<Longrightarrow> \<not> occurs hay needle j"
proof -
  define b where "b = hay ! (p - 1)"
  note S = shift_backward [OF assms(1,2), of b, folded assms(5) [folded b_def]]
  show "1 \<le> s" using S by auto
  show "\<not> occurs hay needle j" if j: "j < p" "p < j + s"
  proof
    assume o: "occurs hay needle j"
    define k where "k = p - 1 - j"
    have "s \<le> length needle + 1" using S by auto
    then have k: "k < length needle" "j + k = p - 1" using j by (auto simp: k_def)
    then have "needle ! k = b" using o by (auto simp: occurs_nth b_def)
    then have "s \<le> k + 1" using S k(1) by (auto simp: in_set_conv_nth)
    then show False using j k by simp
  qed
qed

subsection \<open>The searches\<close>

lemma memnstr_ex_loop_correct:
  assumes "length needle < 2 ^ 32 - 1" "needle \<noteq> []" "length needle \<le> length hay" "\<forall>j < p. \<not> occurs hay needle j"
  shows "memnstr_ex_loop hay needle (zend_memnstr_ex_pre needle False) (length hay - length needle) p = Some (first_occurrence hay needle)"
  using assms(4)
proof (induction "length hay - p" arbitrary: p rule: less_induct)
  case less
  let ?e = "length hay - length needle"
  show ?case
  proof (cases "p \<le> ?e")
    case True
    then have r: "p + length needle \<le> length hay" using assms(3) by simp
    obtain i where i: "equal_prefix hay p needle 0 = Some i" "i = length needle \<longleftrightarrow> occurs hay needle p"
      using equal_prefix_correct [OF r, of 0] by auto
    show ?thesis
    proof (cases "occurs hay needle p")
      case o: True
      then show ?thesis using True i first_occurrence_at [OF o less.prems] by (simp add: memnstr_ex_loop.simps [of hay needle _ ?e p])
    next
      case o: False
      show ?thesis
      proof (cases "p = ?e")
        case e: True
        have "\<forall>j. \<not> occurs hay needle j"
        proof
          fix j show "\<not> occurs hay needle j" using less.prems o e occurs_range [of hay needle j] by (cases "j < p"; cases "j = p") auto
        qed
        then show ?thesis using True i o first_occurrence_none [of hay needle]
          unfolding memnstr_ex_loop.simps [of hay needle _ ?e p] by (simp add: e)
      next
        case e: False
        have lt: "p + length needle < length hay" using True e r by simp
        define s where "s = unat (zend_memnstr_ex_pre needle False (hay ! (p + length needle)))"
        note S = shift_skips [OF assms(1) lt assms(2) s_def]
        have n: "\<forall>j < p + s. \<not> occurs hay needle j"
        proof (intro allI impI)
          fix j assume "j < p + s"
          then show "\<not> occurs hay needle j" using less.prems o S(2) [of j] by (cases "j < p"; cases "j = p") auto
        qed
        have "length hay - (p + s) < length hay - p" using S(1) lt by simp
        from less.hyps [OF this n] show ?thesis using True i o e lt
          by (simp add: memnstr_ex_loop.simps [of hay needle _ ?e p] byte_at_def s_def)
      qed
    qed
  next
    case False
    have "\<forall>j. \<not> occurs hay needle j"
    proof
      fix j show "\<not> occurs hay needle j" using less.prems False occurs_range [of hay needle j] by (cases "j < p") auto
    qed
    then show ?thesis using False first_occurrence_none by (simp add: memnstr_ex_loop.simps [of hay needle _ ?e p])
  qed
qed

lemma memnrstr_ex_loop_correct:
  assumes "1 \<le> length needle" "length needle \<le> 2 ^ 31" "p + int (length needle) \<le> int (length hay)" "\<forall>j. p < int j \<longrightarrow> \<not> occurs hay needle j"
  shows "memnrstr_ex_loop hay needle (zend_memnstr_ex_pre needle True) p = Some (last_occurrence hay needle)"
  using assms(3,4)
proof (induction "nat (p + 1)" arbitrary: p rule: less_induct)
  case less
  show ?case
  proof (cases "0 \<le> p")
    case True
    define q where "q = nat p"
    have q: "p = int q" "q + length needle \<le> length hay" using True less.prems(1) by (simp_all add: q_def)
    obtain i where i: "equal_prefix hay q needle 0 = Some i" "i = length needle \<longleftrightarrow> occurs hay needle q"
      using equal_prefix_correct [OF q(2), of 0] by auto
    have late: "\<forall>j > q. \<not> occurs hay needle j" using less.prems(2) q(1) by simp
    show ?thesis
    proof (cases "occurs hay needle q")
      case o: True
      then show ?thesis using i last_occurrence_at [OF o late] by (simp add: q(1) memnrstr_ex_loop.simps [of hay needle _ "int q"])
    next
      case o: False
      show ?thesis
      proof (cases "q = 0")
        case z: True
        have "\<forall>j. \<not> occurs hay needle j" using late o z by (metis gr0I)
        then show ?thesis using i o last_occurrence_none [of hay needle]
          unfolding memnrstr_ex_loop.simps [of hay needle _ p] by (simp add: q(1) z)
      next
        case z: False
        define s where "s = unat (zend_memnstr_ex_pre needle True (hay ! (q - 1)))"
        have q0: "0 < q" "q \<le> length hay" using z q(2) by auto
        note S = shift_skips_back [OF assms(1,2) q0 s_def]
        have n: "\<forall>j. p - int s < int j \<longrightarrow> \<not> occurs hay needle j"
        proof (intro allI impI)
          fix j assume "p - int s < int j"
          then have "q < j + s" using q(1) by linarith
          then show "\<not> occurs hay needle j" using late o S(2) [of j] by (cases "q < j"; cases "j = q") auto
        qed
        have m: "nat (p - int s + 1) < nat (p + 1)" "p - int s + int (length needle) \<le> int (length hay)" using S(1) True less.prems(1) by auto
        have b: "byte_at hay (nat (p - 1)) = Some (hay ! (q - 1))" "uint (zend_memnstr_ex_pre needle True (hay ! (q - 1))) = int s"
          using q0 by (simp_all add: byte_at_def q(1) s_def nat_diff_distrib')
        from less.hyps [OF m n] show ?thesis using i o z b
          by (simp add: q(1) memnrstr_ex_loop.simps [of hay needle _ "int q"])
      qed
    qed
  next
    case False
    then have "\<forall>j. \<not> occurs hay needle j" using less.prems(2) by auto
    then show ?thesis using False last_occurrence_none by (simp add: memnrstr_ex_loop.simps [of hay needle _ p])
  qed
qed

lemma memnstr_loop_correct:
  assumes "2 \<le> length needle" "length needle \<le> length hay" "\<forall>j < p. \<not> occurs hay needle j"
  shows "memnstr_loop hay needle (length hay - length needle) p = Some (first_occurrence hay needle)"
  using assms(3)
proof (induction "length hay - p" arbitrary: p rule: less_induct)
  case less
  let ?e = "length hay - length needle"
  have none: "first_occurrence hay needle = None" if "\<And>j. p \<le> j \<Longrightarrow> j \<le> ?e \<Longrightarrow> \<not> occurs hay needle j"
  proof (rule first_occurrence_none, rule)
    fix j
    have "j \<le> ?e" if "occurs hay needle j" using occurs_range [OF that] by simp
    then show "\<not> occurs hay needle j" using less.prems that [of j] by (cases "j < p") auto
  qed
  show ?case
  proof (cases "p \<le> ?e")
    case True
    have m: "memchr hay p (needle ! 0) (?e - p + 1) = Some (find (\<lambda>i. hay ! i = needle ! 0) [p..<?e + 1])"
      using True assms(1,2) by (simp add: memchr_def)
    have first: "hay ! j = needle ! 0" if "occurs hay needle j" for j using that assms(1) by (auto simp: occurs_nth dest: spec [of _ 0])
    show ?thesis
    proof (cases "find (\<lambda>i. hay ! i = needle ! 0) [p..<?e + 1]")
      case None
      then have "first_occurrence hay needle = None" using first by (intro none) (auto simp: find_None_iff)
      then show ?thesis using True m None by (simp add: memnstr_loop.simps [of hay needle ?e p])
    next
      case (Some q)
      define e where "e = ?e + 1"
      obtain i where i: "i < length [p..<e]" "hay ! ([p..<e] ! i) = needle ! 0" "q = [p..<e] ! i"
        "\<forall>j < i. hay ! ([p..<e] ! j) \<noteq> needle ! 0" using Some unfolding e_def [symmetric] by (auto simp: find_Some_iff)
      have q: "p \<le> q" "q \<le> ?e" "hay ! q = needle ! 0" "q = p + i" "q < e" using i by (auto simp: e_def [symmetric]) (simp add: e_def)
      have before: "\<forall>j < q. \<not> occurs hay needle j"
      proof (intro allI impI)
        fix j assume j: "j < q"
        show "\<not> occurs hay needle j"
        proof (cases "j < p")
          case False
          then have "j - p < i" "[p..<e] ! (j - p) = j" using j q(4,5) by auto
          then show ?thesis using i(4) first [of j] by metis
        qed (use less.prems in simp)
      qed
      have c: "candidate hay needle q = Some (occurs hay needle q)"
        using q assms by (intro candidate_correct) auto
      show ?thesis
      proof (cases "occurs hay needle q")
        case o: True
        then show ?thesis using True m Some c first_occurrence_at [OF o before] by (simp add: memnstr_loop.simps [of hay needle ?e p])
      next
        case o: False
        have n: "\<forall>j < q + 1. \<not> occurs hay needle j" using before o by (auto simp: less_Suc_eq)
        have "length hay - (q + 1) < length hay - p" using q assms(1,2) by auto
        from less.hyps [OF this n] show ?thesis using True m Some c o by (simp add: memnstr_loop.simps [of hay needle ?e p])
      qed
    qed
  next
    case False
    then show ?thesis using none by (simp add: memnstr_loop.simps [of hay needle ?e p])
  qed
qed

lemma memnrstr_loop_correct:
  assumes "2 \<le> length needle" "- 1 \<le> p" "p + int (length needle) \<le> int (length hay)" "\<forall>j. p < int j \<longrightarrow> \<not> occurs hay needle j"
  shows "memnrstr_loop hay needle p = Some (last_occurrence hay needle)"
  using assms(2-4)
proof (induction "nat (p + 1)" arbitrary: p rule: less_induct)
  case less
  let ?m = "nat (p + 1)"
  have m: "zend_memrchr hay (needle ! 0) ?m = Some (find (\<lambda>i. hay ! i = needle ! 0) (rev [0..<?m]))"
    using less.prems assms(1) by (intro memrchr_correct) linarith
  have first: "hay ! j = needle ! 0" if "occurs hay needle j" for j using that assms(1) by (auto simp: occurs_nth dest: spec [of _ 0])
  show ?case
  proof (cases "find (\<lambda>i. hay ! i = needle ! 0) (rev [0..<?m])")
    case None
    have "last_occurrence hay needle = None"
    proof (rule last_occurrence_none, rule)
      fix j show "\<not> occurs hay needle j"
        using None first [of j] less.prems(3) by (cases "j < ?m") (auto simp: find_None_iff)
    qed
    then show ?thesis using m None by (simp add: memnrstr_loop.simps [of hay needle p])
  next
    case (Some q)
    then obtain i where i: "i < ?m" "hay ! (rev [0..<?m] ! i) = needle ! 0" "q = rev [0..<?m] ! i"
      "\<forall>j < i. hay ! (rev [0..<?m] ! j) \<noteq> needle ! 0" by (auto simp: find_Some_iff)
    have qi: "q = ?m - Suc i" using i(1,3) by (simp add: rev_nth)
    have q: "q < ?m" "hay ! q = needle ! 0" using i qi by auto
    have after: "\<forall>j > q. \<not> occurs hay needle j"
    proof (intro allI impI)
      fix j assume j: "q < j"
      show "\<not> occurs hay needle j"
      proof (cases "j < ?m")
        case True
        then have "?m - Suc j < i" "rev [0..<?m] ! (?m - Suc j) = j" using j qi i(1) by (auto simp: rev_nth)
        then show ?thesis using i(4) first [of j] by metis
      next
        case False
        then show ?thesis using less.prems(3) by auto
      qed
    qed
    have c: "candidate hay needle q = Some (occurs hay needle q)"
      using q less.prems(2) by (intro candidate_correct assms(1)) linarith+
    show ?thesis
    proof (cases "occurs hay needle q")
      case o: True
      then show ?thesis using m Some c last_occurrence_at [OF o after] by (simp add: memnrstr_loop.simps [of hay needle p])
    next
      case o: False
      have n: "\<forall>j. int q - 1 < int j \<longrightarrow> \<not> occurs hay needle j"
      proof (intro allI impI)
        fix j assume "int q - 1 < int j"
        then show "\<not> occurs hay needle j" using after o by (cases "j = q") auto
      qed
      have "nat (int q - 1 + 1) < ?m" "- 1 \<le> int q - 1" "int q - 1 + int (length needle) \<le> int (length hay)"
        using q(1) less.prems(2) by linarith+
      from less.hyps [OF this n] show ?thesis using m Some c o by (simp add: memnrstr_loop.simps [of hay needle p])
    qed
  qed
qed

lemma memnstr_ex_correct:
  assumes "length needle < 2 ^ 32 - 1" "needle \<noteq> []"
  shows "zend_memnstr_ex hay needle = Some (first_occurrence hay needle)"
proof (cases "length hay < length needle")
  case True
  then have "\<forall>j. \<not> occurs hay needle j" by (auto dest: occurs_range)
  then show ?thesis using True first_occurrence_none [of hay needle] by (simp add: zend_memnstr_ex_def)
next
  case False
  then show ?thesis using memnstr_ex_loop_correct [OF assms, of hay 0] assms(2) by (simp add: zend_memnstr_ex_def)
qed

lemma memnrstr_ex_correct:
  assumes "length needle \<le> 2 ^ 31" "needle \<noteq> []"
  shows "zend_memnrstr_ex hay needle = Some (last_occurrence hay needle)"
proof (cases "length hay < length needle")
  case True
  then have "\<forall>j. \<not> occurs hay needle j" by (auto dest: occurs_range)
  then show ?thesis using True last_occurrence_none [of hay needle] by (simp add: zend_memnrstr_ex_def)
next
  case False
  have n: "1 \<le> length needle" using assms(2) by (cases needle) simp_all
  define p where "p = int (length hay) - int (length needle)"
  have p: "p + int (length needle) \<le> int (length hay)" by (simp add: p_def)
  have "\<forall>j. p < int j \<longrightarrow> \<not> occurs hay needle j" by (auto simp: p_def dest!: occurs_range)
  from memnrstr_ex_loop_correct [OF n assms(1) p this] show ?thesis
    using False assms(2) by (simp add: zend_memnrstr_ex_def p_def)
qed

lemma single_occurs: "occurs hay [c] i \<longleftrightarrow> i < length hay \<and> hay ! i = c"
  by (auto simp: occurs_nth)

lemma find_cong_set: "(\<And>x. x \<in> set xs \<Longrightarrow> P x = Q x) \<Longrightarrow> find P xs = find Q xs"
  by (induction xs) auto

lemma memnstr_correct:
  assumes "length needle < 2 ^ 32 - 1"
  shows "zend_memnstr hay needle = Some (first_occurrence hay needle)"
proof -
  consider "needle = []" | c where "needle = [c]" | "2 \<le> length needle" by (cases needle; cases "tl needle") auto
  then show ?thesis
  proof cases
    case 1
    then have "first_occurrence hay needle = Some 0" by (intro first_occurrence_at) (simp_all add: occurs_def)
    then show ?thesis using 1 by (simp add: zend_memnstr_def)
  next
    case (2 c)
    have "find (\<lambda>i. hay ! i = c) [0..<length hay] = find (occurs hay [c]) [0..<length hay]" by (rule find_cong_set) (simp add: single_occurs)
    then show ?thesis using 2 by (simp add: zend_memnstr_def memchr_def first_occurrence_def find_app single_occurs split: option.splits)
  next
    case 3
    show ?thesis
    proof (cases "length needle > length hay")
      case True
      then have "\<forall>j. \<not> occurs hay needle j" by (auto dest: occurs_range)
      then show ?thesis using 3 True first_occurrence_none [of hay needle] by (auto simp: zend_memnstr_def)
    next
      case False
      have "needle \<noteq> []" using 3 by auto
      then show ?thesis
        using 3 False memnstr_loop_correct [OF 3, of hay 0] memnstr_ex_correct [OF assms, of hay]
        by (auto simp: zend_memnstr_def)
    qed
  qed
qed

lemma memnrstr_correct:
  assumes "length needle \<le> 2 ^ 31"
  shows "zend_memnrstr hay needle = Some (last_occurrence hay needle)"
proof -
  consider "needle = []" | c where "needle = [c]" | "2 \<le> length needle" by (cases needle; cases "tl needle") auto
  then show ?thesis
  proof cases
    case 1
    then have "last_occurrence hay needle = Some (length hay)" by (intro last_occurrence_at) (auto simp: occurs_def)
    then show ?thesis using 1 by (simp add: zend_memnrstr_def)
  next
    case (2 c)
    have "find (\<lambda>i. hay ! i = c) (rev [0..<length hay]) = find (occurs hay [c]) (rev [0..<length hay])" by (rule find_cong_set) (simp add: single_occurs)
    then show ?thesis using 2 by (simp add: zend_memnrstr_def memrchr_correct last_occurrence_def single_occurs)
  next
    case 3
    show ?thesis
    proof (cases "length needle > length hay")
      case True
      then have "\<forall>j. \<not> occurs hay needle j" by (auto dest: occurs_range)
      then show ?thesis using 3 True last_occurrence_none [of hay needle] by (auto simp: zend_memnrstr_def)
    next
      case False
      define p where "p = int (length hay) - int (length needle)"
      have p: "- 1 \<le> p" "p + int (length needle) \<le> int (length hay)" using False by (simp_all add: p_def)
      have l: "\<forall>j. p < int j \<longrightarrow> \<not> occurs hay needle j" by (auto simp: p_def dest!: occurs_range)
      have "needle \<noteq> []" using 3 by auto
      then show ?thesis
        using 3 False memnrstr_loop_correct [OF 3 p l] memnrstr_ex_correct [OF assms, of hay]
        by (auto simp: zend_memnrstr_def p_def)
    qed
  qed
qed

end
