(* ===== verification/Spec2Isabelle.thy ===== *)
theory Spec2Isabelle
  imports ZendHashDemo ZendHashReach BcSqrt CalEaster CalDates CalHebrew ZendLlistOps ZendStack ZendSearch
begin

text \<open>
  A verification library for the run-time core of PHP 8.3.13, the C program vendored in this
  repository under \<open>src/php-8.3.13\<close>. The program's central data structure is the hash table of
  \<open>Zend/zend_hash.c\<close>: every PHP array, symbol table, property table and the engine's own tables
  (constants, functions, classes, INI directives) are one. The development follows that file function
  by function, together with the sort it calls, the string functions its keys need, and the small
  containers and string routines beside it.

  \<^bold>\<open>Conventions.\<close> Hash values, masks and integer keys are words (\<open>u64\<close>, \<open>u32\<close>, \<open>i64\<close>) with the C
  wrap-around; indices and counts, which the invariant bounds by \<open>HT_MAX_SIZE\<close>, are natural numbers.
  A function of the model that can meet an assertion, an invalid index or a size overflow of the
  code returns an option; the theorems show the option is \<open>Some\<close>. Loops over a collision chain may in
  principle not end: they are \<open>partial_function (option)\<close>, and each theorem about them proves that
  they do. The globals of the executor the tables touch (iterators, indirect value cells, the log
  of destructor calls, the reference counts of string keys) are the record \<open>eg\<close>, passed along.
  Memory allocation always succeeds. Destructors, callbacks, comparison functions and reference
  handling of values, which are function pointers or virtual-machine code, are parameters.

  \<^bold>\<open>Theories.\<close>
  \<^item> \<open>PhpPrelude\<close>: type names, the collections of simplification facts, lemmas on lists, words and
    the option monad.
  \<^item> \<open>ZendString\<close> (\<open>zend_string.h\<close>, \<open>zend_operators.c\<close>, \<open>zend_hash.c\<close>): strings, the hash function in
    two variants, printing of integers and the recognition of numeric string keys.
  \<^item> \<open>ZendHash\<close>, \<open>ZendHashCore\<close> (\<open>zend_types.h\<close>, \<open>zend_hash.h\<close>, \<open>zend_hash.c\<close>): the records \<open>bucket\<close>,
    \<open>hashtable\<close>, \<open>iterator\<close>, initialisation, growth, rehashing, bucket search.
  \<^item> \<open>ZendHashInv\<close>: the invariant \<open>wf_ht\<close> (chains, slots, sizes, counters, keys) and the abstraction
    \<open>elems\<close> of a table to the ordered list of its elements.
  \<^item> \<open>ZendHashRehash\<close>, \<open>ZendHashFind\<close>, \<open>ZendHashAdd\<close>, \<open>ZendHashInsert\<close>, \<open>ZendHashIndex\<close>,
    \<open>ZendHashDel\<close>, \<open>ZendHashWalk\<close>, \<open>ZendHashApply\<close>: each operation of \<open>zend_hash.c\<close> with the lemma
    that says what it does to \<open>elems\<close> and that it keeps \<open>wf_ht\<close>.
  \<^item> \<open>ZendHashDup\<close>, \<open>ZendHashStore\<close>, \<open>ZendHashCopy\<close>, \<open>ZendHashMerge\<close>, \<open>ZendHashConvert\<close>: operations
    on whole tables. They are loops of insertions; the locale \<open>keyed_fold\<close> of \<open>ZendHashStore\<close> states
    what a loop needs of the insertion, and is interpreted on each of the table's operations.
  \<^item> \<open>ZendSort\<close>, \<open>ZendSortPerm\<close>, \<open>ZendSortSorted\<close>, \<open>ZendSortCorrect\<close> (\<open>zend_sort.c\<close>): the hybrid sort, for
    arbitrary comparison functions (permutation, bounds) and for total preorders (sortedness).
  \<^item> \<open>ZendCase\<close> (\<open>zend_operators.c\<close>): ASCII case conversion and byte string comparison.
  \<^item> \<open>ZendHashSort\<close>, \<open>ZendHashCompare\<close>: sorting a table through any routine that meets the locale
    \<open>sort_func\<close>, the INI directives as its client (\<open>zend_ini.c\<close>), comparison, extremes.
  \<^item> \<open>ZendHashReach\<close>: calls of the interface as labels with their arguments, the specification of each label on
    lists and the simulation for calls and sequences of calls; the step relation and the tables
    reachable from initialisation.
  \<^item> \<open>ZendHashDemo\<close>: concrete tables on which the properties are applied.
  \<^item> \<open>BcNum\<close>, \<open>BcAdd\<close>, \<open>BcMul\<close>, \<open>BcDiv\<close> (\<open>ext/bcmath/libbcmath/src\<close>): decimal numbers with their digits and
    scale, their value as a rational number, comparison, addition, subtraction, multiplication
    with its recursive splitting, long division, and division with remainder.
  \<^item> \<open>BcText\<close>, \<open>BcRaise\<close>, \<open>BcMath\<close>, \<open>BcSqrt\<close>: the parser and the printer of decimal numbers, powers, powers
    modulo a number, the square root, and the functions of \<open>ext/bcmath/bcmath.c\<close> from texts to texts.
    Loops without a bound are partial functions whose result is proved to exist; the outer \<open>None\<close> of an
    operation is a failed assertion, an access out of a buffer or an overflow, and is proved not to occur in the
    range of lengths each theorem states.
  \<^item> \<open>CalSolar\<close>, \<open>CalEaster\<close> (\<open>ext/calendar\<close>: \<open>gregor.c\<close>, \<open>julian.c\<close>, \<open>french.c\<close>, \<open>dow.c\<close>, \<open>easter.c\<close>): conversions
    between day numbers and dates, the day of the week, with the dates that exist as the specification, and
    Easter, with Meeus's rules for the Julian and the Gregorian calendar as the specification.
  \<^item> \<open>CalJewish\<close>, \<open>CalJewishDates\<close> (\<open>jewish.c\<close>): molads, postponements and the conversions of the Jewish
    calendar, with the lengths of its years and months; the loop over cycles is a partial function, proved to end.
  \<^item> \<open>CalFunctions\<close>, \<open>CalMonths\<close>, \<open>CalHebrew\<close>, \<open>CalDates\<close> (\<open>calendar.c\<close>, \<open>cal_unix.c\<close>): the functions of the extension,
    the days of a month (the locale \<open>civil_calendar\<close>, interpreted on the Gregorian and the Julian calendar), Hebrew
    numerals, and the dates \<open>cal_from_jd\<close> and \<open>cal_to_jd\<close> exchange.
  \<^item> \<open>ZendLlist\<close>, \<open>ZendLlistOps\<close> (\<open>zend_llist.c\<close>): doubly linked lists in a store of elements, and their refinement of
    lists; sorting goes through the model of \<open>zend_sort\<close>.
  \<^item> \<open>ZendStack\<close> (\<open>zend_stack.c\<close>, \<open>zend_ptr_stack.c\<close>): the growing stacks, with the locale \<open>stack\<close> interpreted on both.
  \<^item> \<open>ZendSearch\<close> (\<open>zend_operators.h\<close>, \<open>zend_operators.c\<close>): the first and the last occurrence of a byte string, with
    Sunday's algorithm.

  \<^bold>\<open>Bounds and fuel.\<close> Tables hold at most \<open>HT_MAX_SIZE\<close> (2 to the 30th) cells; operations that may
  grow a table assume room for that. \<open>walk\<close> takes fuel, and the number of elements suffices. Every
  other loop is structural, has a termination measure, or is proved to return. Where a signed or
  unsigned width of the decimal division (\<open>divide_widths\<close>), a buffer of it (\<open>divide_in_bounds\<close>, \<open>store_digits\<close>)
  or \<open>zend_long\<close> in the computation of Easter (\<open>in_long\<close>) would be left, the model has no result; the
  theorems state the range in which it has one. The division needs the digits of its operands and the
  scale to stay 8 below \<open>INT_MAX\<close> (\<open>has_room\<close>, \<open>when_room\<close>), a power also that the product of scale and
  exponent fits in \<open>size_t\<close> (\<open>to_size\<close>, \<open>when_power_fits\<close>). The lengths and shifts of the recursive
  multiplication are \<open>int\<close> in \<open>recmul.c\<close> and natural numbers here, and the counts of the stacks are integers: they
  differ only from 2 to the 31st digits or entries on.

  \<^bold>\<open>Not modelled.\<close> The compiler and the virtual machine, objects, memory management, the optimizer
  and opcode cache, the extensions that wrap libraries or services, and the generated tables of
  mbstring, fileinfo, date and pcre; the PHP application beside the interpreter. Of the hash
  tables: interning of strings, the aarch64 variant of the hash function, and the debug-build
  consistency checks (\<open>IS_CONSISTENT\<close>, \<open>HT_ASSERT_RC1\<close>).
\<close>

section \<open>Hash tables: insertion, lookup, deletion\<close>

text \<open>
  C1. Updating by string. On every well-formed table that can still grow, \<open>zend_hash_update\<close> and
  \<open>zend_hash_str_update\<close> return normally with a well-formed table whose ordered elements are the old
  ones with the key's value replaced in place, or the new pair appended; the result points to the new
  value, and the destructor runs exactly on the value replaced.
\<close>

theorem hash_update_is_map_update:
  assumes "wf_ht ht" "nTableSize ht < HT_MAX_SIZE" "proper v"
  shows "(\<exists>g' ht' r. zend_hash_update g ht key v = Some (g', ht', Some r) \<and> wf_ht ht' \<and>
      elems ht' = AList.update (KStr (zs_val key)) v (elems ht) \<and> zref_val g' ht' r = v \<and>
      dtor_log g' = dtor_log g @ dtor_calls ht (KStr (zs_val key))) \<and>
    (\<exists>g' ht' r. zend_hash_str_update g ht (zs_val key) v = Some (g', ht', Some r) \<and> wf_ht ht' \<and>
      elems ht' = AList.update (KStr (zs_val key)) v (elems ht) \<and> zref_val g' ht' r = v \<and>
      dtor_log g' = dtor_log g @ dtor_calls ht (KStr (zs_val key)))"
  using update_i_correct(1) [OF assms, of g key] update_i_correct(2) [OF assms, of g "zs_val key"]
  by (auto simp: updates_def zend_hash_update_def zend_hash_str_update_def Let_def)

theorem hash_update_is_map_update_witness:
  "\<exists>g' ht' r. zend_hash_update demo_eg demo_mixed foo_key (ZVAL 9) = Some (g', ht', Some r) \<and> wf_ht ht' \<and>
      elems ht' = [(KInt 5, ZVAL 50), (KStr [102, 111, 111], ZVAL 9), (KInt 21, ZVAL 52)] \<and>
      dtor_log g' = [ZVAL 51]"
  using hash_update_is_map_update [OF demo_mixed_wf, of "ZVAL 9" demo_eg foo_key] demo_small
  by (auto simp: demo_simps)

text \<open>
  C2. Adding by string. \<open>zend_hash_add\<close> leaves a table that has the key unchanged and returns \<open>NULL\<close>;
  otherwise it appends the pair, keeps well-formedness, runs no destructor, and the result is the
  value cell of the new element. \<open>zend_hash_lookup\<close> returns the element's cell, after appending a
  null value when the key was absent.
\<close>

theorem hash_add_and_lookup:
  assumes "wf_ht ht" "nTableSize ht < HT_MAX_SIZE" "proper v"
  shows "(if KStr (zs_val key) \<in> fst ` set (elems ht) then zend_hash_add g ht key v = Some (g, ht, None)
          else inserted g ht (KStr (zs_val key)) v (zend_hash_add g ht key v)) \<and>
    (if KStr (zs_val key) \<in> fst ` set (elems ht)
     then \<exists>r. zend_hash_lookup g ht key = Some (g, ht, Some r) \<and> abs_find ht (KStr (zs_val key)) = Some (zref_val g ht r)
     else inserted g ht (KStr (zs_val key)) IS_NULL (zend_hash_lookup g ht key))"
  using present_add(1,3) [OF assms(1), of key g] add_or_update_new [OF assms(1,2), of HASH_ADD v key g]
    add_or_update_new [OF assms(1,2), of HASH_LOOKUP UNINIT key g] assms(3)
  by (simp add: zend_hash_add_def zend_hash_lookup_def)

theorem hash_add_and_lookup_witness:
  "zend_hash_add demo_eg demo_mixed foo_key (ZVAL 9) = Some (demo_eg, demo_mixed, None) \<and>
   inserted demo_eg demo_mixed (KStr [98, 97, 114]) IS_NULL (zend_hash_lookup demo_eg demo_mixed bar_key)"
  using hash_add_and_lookup [OF demo_mixed_wf, of "ZVAL 9" foo_key demo_eg]
    hash_add_and_lookup [OF demo_mixed_wf, of "ZVAL 9" bar_key demo_eg] demo_small
  by (simp add: demo_simps)

text \<open>
  C3. Numeric keys. On every well-formed table that can grow, packed or not, \<open>zend_hash_index_update\<close>
  replaces or appends the pair (with the destructor run on the value replaced), and
  \<open>zend_hash_index_add\<close> appends it or refuses a key that is present.
\<close>

theorem hash_index_insertions:
  assumes "wf_ht ht" "nTableSize ht < HT_MAX_SIZE" "proper v"
  shows "updates g ht (KInt h) v (zend_hash_index_update g ht h v) \<and>
    (if KInt h \<in> fst ` set (elems ht) then zend_hash_index_add g ht h v = Some (g, ht, None)
     else inserted g ht (KInt h) v (zend_hash_index_add g ht h v))"
  using index_update_correct [OF assms, of g h] index_add_correct [OF assms, of h g] by simp

theorem hash_index_insertions_witness:
  "updates demo_eg demo_packed (KInt 1) (ZVAL 9) (zend_hash_index_update demo_eg demo_packed 1 (ZVAL 9)) \<and>
   zend_hash_index_add demo_eg demo_packed 2 (ZVAL 9) = Some (demo_eg, demo_packed, None)"
  using hash_index_insertions [OF demo_packed_wf, of "ZVAL 9" demo_eg 1]
    hash_index_insertions [OF demo_packed_wf, of "ZVAL 9" demo_eg 2] demo_small
  by (simp add: demo_simps)

text \<open>
  C4. Appending. \<open>zend_hash_next_index_insert\<close> stores under the next free number (0 for a table that
  never had a number), which is a new key unless the counter has reached \<open>ZEND_LONG_MAX\<close> and that
  number is taken; then it fails and changes nothing.
\<close>

theorem hash_next_insert_appends:
  assumes "wf_ht ht" "nTableSize ht < HT_MAX_SIZE" "proper v"
  shows "(if KInt (next_key ht) \<in> fst ` set (elems ht)
          then zend_hash_next_index_insert g ht v = Some (g, ht, None)
          else inserted g ht (KInt (next_key ht)) v (zend_hash_next_index_insert g ht v)) \<and>
    (KInt (next_key ht) \<in> fst ` set (elems ht) \<longrightarrow> nNextFreeElement ht = ZEND_LONG_MAX)"
  using next_index_insert_correct [OF assms, of g] next_key_fresh [OF assms(1)] by auto

theorem hash_next_insert_appends_witness:
  "inserted demo_eg demo_packed (KInt 3) (ZVAL 9) (zend_hash_next_index_insert demo_eg demo_packed (ZVAL 9))"
  using hash_next_insert_appends [OF demo_packed_wf, of "ZVAL 9" demo_eg] demo_small
  by (simp add: demo_simps next_key_def ZEND_LONG_MIN_def)

text \<open>
  C5. Lookups. On every well-formed table the three lookups end and return the value the element list
  gives the key, or \<open>NULL\<close> when it has none.
\<close>

theorem hash_find_is_map_lookup:
  assumes "wf_ht ht"
  shows "(\<exists>r. zend_hash_find ht key = Some r \<and> map_option (zref_val g ht) r = map_of (elems ht) (KStr (zs_val key))) \<and>
    (\<exists>r. zend_hash_str_find ht s = Some r \<and> map_option (zref_val g ht) r = map_of (elems ht) (KStr s)) \<and>
    (\<exists>r. zend_hash_index_find ht h = Some r \<and> map_option (zref_val g ht) r = map_of (elems ht) (KInt h))"
  using find_correct(1) [OF assms, of key g] find_correct(2) [OF assms, of s g] find_correct(3) [OF assms, of h g]
  by (simp add: abs_find_def)

theorem hash_find_is_map_lookup_witness:
  "\<exists>r. zend_hash_find demo_mixed foo_key = Some r \<and> map_option (zref_val demo_eg demo_mixed) r = Some (ZVAL 51)"
  using hash_find_is_map_lookup [OF demo_mixed_wf, of foo_key demo_eg] by (simp add: demo_simps)

text \<open>
  C6. Deletion by key. The three deletions remove the pair of the key and nothing else, run the
  destructor on its value, leave a well-formed table, and report a missing key without any change.
\<close>

theorem hash_del_is_map_delete:
  assumes "wf_ht ht"
  shows "deletes_key g ht (KStr (zs_val key)) (zend_hash_del g ht key) \<and>
    deletes_key g ht (KStr s) (zend_hash_str_del g ht s) \<and>
    deletes_key g ht (KInt h) (zend_hash_index_del g ht h)"
  using del_correct [OF assms] str_del_correct [OF assms] index_del_correct [OF assms] by blast

theorem hash_del_is_map_delete_witness:
  "\<exists>g' ht'. zend_hash_del demo_eg demo_mixed foo_key = Some (g', ht', True) \<and>
     elems ht' = [(KInt 5, ZVAL 50), (KInt 21, ZVAL 52)] \<and> dtor_log g' = [ZVAL 51]"
  using hash_del_is_map_delete [OF demo_mixed_wf, of demo_eg foo_key "[]" 0]
  by (auto simp: deletes_key_def deletes_def demo_simps)

text \<open>
  C7. Deletion by position. \<open>zend_hash_del_bucket\<close> on a live bucket finds its predecessor in the
  collision chain, unlinks it, and removes exactly that element.
\<close>

theorem hash_del_bucket_unlinks:
  assumes "wf_ht ht" "\<not> f_uninitialized ht" "\<not> f_packed ht" "idx < nNumUsed ht" "live (arData ht ! idx)"
  shows "\<exists>res. zend_hash_del_bucket g ht idx = Some res \<and> deletes g ht (bucket_key (arData ht ! idx)) res"
  by (rule del_bucket_correct [OF assms])

theorem hash_del_bucket_unlinks_witness:
  "\<exists>g' ht'. zend_hash_del_bucket demo_eg demo_mixed 0 = Some (g', ht') \<and>
     elems ht' = [(KStr [102, 111, 111], ZVAL 51), (KInt 21, ZVAL 52)]"
proof -
  have d: "live (arData demo_mixed ! 0)" "bucket_key (arData demo_mixed ! 0) = KInt 5"
    by (simp_all add: demo_mixed_def live_def bucket_key_def)
  show ?thesis
    using hash_del_bucket_unlinks [OF demo_mixed_wf, of 0 demo_eg] d by (auto simp: deletes_def demo_simps)
qed

text \<open>
  C8. Reorganisation. Rebuilding the hash part compacts the buckets: the table keeps its elements in
  order, has no holes left, and is well formed. The same holds for turning a packed table into a
  mixed one.
\<close>

theorem hash_reorganise_keeps_elements:
  assumes "wf_ht ht" "\<not> f_uninitialized ht"
  shows "\<exists>g' ht'. (if f_packed ht then zend_hash_packed_to_hash g ht else zend_hash_rehash g ht) = Some (g', ht') \<and>
    wf_ht ht' \<and> \<not> f_packed ht' \<and> elems ht' = elems ht \<and> nNumUsed ht' = length (elems ht) \<and>
    nTableSize ht' = nTableSize ht"
proof -
  note W = wf_htD [OF assms(1)] and n = elems_count [OF assms(1)]
  show ?thesis
  proof (cases "f_packed ht")
    case True
    then show ?thesis
      using packed_to_hash_wf [OF assms(1) True, of g] n by (metis reorganised_def)
  next
    case False
    then show ?thesis
      using rehash_reorganised [OF W(1) W(5) [OF assms(2) False] assms(2) W(2), of g] n by (metis reorganised_def)
  qed
qed

theorem hash_reorganise_keeps_elements_witness:
  "\<exists>g' ht'. zend_hash_rehash demo_eg demo_mixed = Some (g', ht') \<and> nNumUsed ht' = 3 \<and>
     elems ht' = [(KInt 5, ZVAL 50), (KStr [102, 111, 111], ZVAL 51), (KInt 21, ZVAL 52)]"
  using hash_reorganise_keeps_elements [OF demo_mixed_wf, of demo_eg] by (auto simp: demo_simps)

text \<open>
  C9. Iteration. Reading the current element and moving forward, from the position
  \<open>zend_hash_internal_pointer_reset_ex\<close> gives, visits every element once and in order, skipping holes.
\<close>

theorem hash_walk_visits_all:
  assumes "wf_ht ht" "length (elems ht) \<le> fuel"
  shows "map (\<lambda>(k, r). (k, zref_val g ht r)) (walk fuel ht (zend_hash_internal_pointer_reset_ex ht)) = elems ht"
proof -
  have "rank ht (zend_hash_internal_pointer_reset_ex ht) = 0"
    using get_valid_pos_correct(1) [OF assms(1) refl, of 0] by (simp add: zend_hash_internal_pointer_reset_ex_def)
  then show ?thesis using walk_from [OF assms(1), of "zend_hash_internal_pointer_reset_ex ht" fuel g] assms(2) by simp
qed

theorem hash_walk_visits_all_witness:
  "map (\<lambda>(k, r). (k, zref_val demo_eg demo_packed r)) (walk 2 demo_packed (zend_hash_internal_pointer_reset_ex demo_packed)) =
     [(KInt 0, ZVAL 10), (KInt 2, ZVAL 12)]"
  using hash_walk_visits_all [OF demo_packed_wf, of 2 demo_eg] by (simp add: demo_simps)

text \<open>
  C10. Callbacks. A pass of \<open>zend_hash_apply\<close> calls the callback on the elements in order, deletes those
  it answers \<open>ZEND_HASH_APPLY_REMOVE\<close> for (with their destructor), and ends at the first
  \<open>ZEND_HASH_APPLY_STOP\<close>, as the reference \<open>apply_spec\<close> does on the element list; the reverse pass does
  the same from the end.
\<close>

theorem hash_apply_is_list_pass:
  assumes "wf_ht ht" "apply_spec (\<lambda>k. f) s (elems ht) = (s1, kept1, removed1)"
    and "apply_spec (\<lambda>k. f) s (rev (elems ht)) = (s2, kept2, removed2)"
  shows "(\<exists>g' ht'. zend_hash_apply f s g ht = Some (s1, g', ht') \<and> wf_ht ht' \<and> elems ht' = kept1 \<and>
      dtor_log g' = dtor_log g @ (if pDestructor ht then map snd removed1 else [])) \<and>
    (\<exists>g' ht'. zend_hash_reverse_apply f s g ht = Some (s2, g', ht') \<and> wf_ht ht' \<and> elems ht' = rev kept2 \<and>
      dtor_log g' = dtor_log g @ (if pDestructor ht then map snd removed2 else []))"
  using apply_correct [OF assms(1,2), of g] reverse_apply_correct [OF assms(1,3), of g]
  unfolding zend_hash_apply_def zend_hash_reverse_apply_def by metis

definition demo_callback :: "nat zval \<Rightarrow> nat \<Rightarrow> u32 \<times> nat" where
  "demo_callback v n = (if v = ZVAL 51 then (ZEND_HASH_APPLY_REMOVE OR ZEND_HASH_APPLY_STOP, n + 1) else (ZEND_HASH_APPLY_KEEP, n + 1))"

theorem hash_apply_is_list_pass_witness:
  "(\<exists>g' ht'. zend_hash_apply demo_callback 0 demo_eg demo_mixed = Some (2, g', ht') \<and>
      elems ht' = [(KInt 5, ZVAL 50), (KInt 21, ZVAL 52)] \<and> dtor_log g' = [ZVAL 51])"
proof -
  have "apply_spec (\<lambda>k. demo_callback) 0 (elems demo_mixed) =
      (2, [(KInt 5, ZVAL 50), (KInt 21, ZVAL 52)], [(KStr [102, 111, 111], ZVAL 51)])"
    "apply_spec (\<lambda>k. demo_callback) 0 (rev (elems demo_mixed)) =
      (2, [(KInt 21, ZVAL 52), (KInt 5, ZVAL 50)], [(KStr [102, 111, 111], ZVAL 51)])"
    by (simp_all add: demo_simps demo_callback_def ZEND_HASH_APPLY_REMOVE_def ZEND_HASH_APPLY_STOP_def ZEND_HASH_APPLY_KEEP_def)
  from hash_apply_is_list_pass [OF demo_mixed_wf this, of demo_eg] show ?thesis by (auto simp: demo_simps)
qed

text \<open>
  C11. Destruction. Destroying a table runs the destructor once on every element, in order, and gives
  back exactly the references its string keys hold; cleaning does the same and leaves a well-formed
  empty table that counts from the beginning again.
\<close>

theorem hash_destroy_and_clean:
  assumes "wf_ht ht"
  shows "dtor_log (zend_hash_destroy g ht) = dtor_log g @ (if pDestructor ht then map snd (elems ht) else []) \<and>
    key_refs (zend_hash_destroy g ht) s = key_refs g s - held_refs ht s \<and>
    (\<exists>g' ht'. zend_hash_clean g ht = (g', ht') \<and> wf_ht ht' \<and> elems ht' = [] \<and>
      dtor_log g' = dtor_log g @ (if pDestructor ht then map snd (elems ht) else []) \<and>
      (\<forall>s. key_refs g' s = key_refs g s - held_refs ht s) \<and> nNextFreeElement ht' = ZEND_LONG_MIN)"
  using destroy_correct [OF assms, of g] clean_correct [OF assms, of g] by metis

theorem hash_destroy_and_clean_witness:
  "dtor_log (zend_hash_destroy demo_eg demo_mixed) = [ZVAL 50, ZVAL 51, ZVAL 52] \<and>
   (\<exists>g' ht'. zend_hash_clean demo_eg demo_mixed = (g', ht') \<and> wf_ht ht' \<and> elems ht' = [])"
  using hash_destroy_and_clean [OF demo_mixed_wf, of demo_eg foo_key] by (auto simp: demo_simps)

text \<open>
  C12. Duplication. \<open>zend_array_dup\<close> returns a new well-formed table with the elements of the source,
  \<open>IS_INDIRECT\<close> values resolved and dropped when their target is undefined, and the same next free
  number; no destructor runs.
\<close>

theorem array_dup_copies_content:
  fixes source :: "'v hashtable"
  assumes "wf_ht source" "unref_ok unref g"
  shows "\<exists>g' t. zend_array_dup unref immutable i g source = Some (g', t) \<and> wf_ht t \<and> ht_id t = i \<and>
     elems t = (if immutable then elems source else dup_content unref g source) \<and>
     nNextFreeElement t = nNextFreeElement source \<and> dtor_log g' = dtor_log g"
  using array_dup_correct [OF assms, of immutable i] by blast

theorem array_dup_copies_content_witness:
  "\<exists>g' t. zend_array_dup id False 2 demo_eg demo_mixed = Some (g', t) \<and> wf_ht t \<and> elems t = elems demo_mixed"
proof -
  have "unref_ok id demo_eg" by (simp add: unref_ok_def demo_eg_def)
  then show ?thesis
    using array_dup_copies_content [OF demo_mixed_wf, of id demo_eg False 2]
    by (auto simp: dup_content_def dup_spec_def List.map_filter_simps demo_simps)
qed

text \<open>
  Copying. \<open>zend_hash_copy\<close> updates the target with every element of the source, in order, after
  the copy constructor; so a key of the source has the source's value and the others keep theirs.
\<close>

theorem hash_copy_overrides:
  fixes source :: "'v hashtable"
  assumes "wf_ht source" "slots_ok g" "ctor_ok ctor" "hash_room target (length (dup_content id g source))"
  shows "\<exists>g' t. zend_hash_copy ctor source (g, target) = Some (g', t) \<and> wf_ht t \<and>
    (\<forall>k. abs_find t k = (map_of (elems target) ++
       map_of (rev (map (\<lambda>(k, v). (k, store ctor v)) (dup_content id g source)))) k)"
  using copy_correct [OF assms] copy_map_of [of "store ctor" "dup_content id g source" "elems target"]
  by (auto simp: abs_find_def)

theorem hash_copy_overrides_witness:
  "\<exists>g' t. zend_hash_copy None demo_packed (demo_eg, demo_mixed) = Some (g', t) \<and> wf_ht t \<and>
     abs_find t (KInt 0) = Some (ZVAL 10) \<and> abs_find t (KInt 5) = Some (ZVAL 50)"
proof -
  have d: "dup_content id demo_eg demo_packed = [(KInt 0, ZVAL 10), (KInt 2, ZVAL 12)]"
    by (simp add: dup_content_def List.map_filter_simps demo_simps)
  have h: "slots_ok demo_eg" "ctor_ok (None :: nat ctor)" "hash_room demo_mixed (Suc (Suc 0))"
    using demo_mixed_wf
    by (simp_all add: slots_ok_def demo_eg_def ctor_ok_def store_def hash_room_def HT_MAX_SIZE_def demo_simps)
  show ?thesis
    using hash_copy_overrides [OF demo_packed_wf, of demo_eg None demo_mixed] h
    by (auto simp: d store_def demo_simps)
qed

text \<open>
  C13. Merging. \<open>zend_hash_merge\<close> with \<open>overwrite\<close> updates, without it adds only the missing keys; on
  tables without indirect values the result is the fold of \<open>merge_elem\<close> over the source's elements.
\<close>

theorem hash_merge_elements:
  fixes source :: "'v hashtable"
  assumes "wf_ht source" "slots_ok g" "ctor_ok ctor" "hash_room target (length (dup_content id g source))"
    and "all_direct (elems target)" "all_direct (map (\<lambda>(k, v). (k, store ctor v)) (dup_content id g source))"
  shows "\<exists>g' t. zend_hash_merge ctor overwrite source (g, target) = Some (g', t) \<and> wf_ht t \<and>
    elems t = fold (\<lambda>(k, v). merge_elem overwrite k (store ctor v)) (dup_content id g source) (elems target)"
  using merge_correct [OF assms(1-5), of overwrite] assms(6) by (fastforce simp: all_direct_def)

theorem hash_merge_elements_witness:
  "\<exists>g' t. zend_hash_merge None False demo_packed (demo_eg, demo_mixed) = Some (g', t) \<and> wf_ht t \<and>
     elems t = [(KInt 5, ZVAL 50), (KStr [102, 111, 111], ZVAL 51), (KInt 21, ZVAL 52), (KInt 0, ZVAL 10), (KInt 2, ZVAL 12)]"
proof -
  have d: "dup_content id demo_eg demo_packed = [(KInt 0, ZVAL 10), (KInt 2, ZVAL 12)]"
    by (simp add: dup_content_def List.map_filter_simps demo_simps)
  have h: "slots_ok demo_eg" "ctor_ok (None :: nat ctor)" "hash_room demo_mixed (Suc (Suc 0))"
    using demo_mixed_wf
    by (simp_all add: slots_ok_def demo_eg_def ctor_ok_def store_def hash_room_def HT_MAX_SIZE_def demo_simps)
  show ?thesis
    using hash_merge_elements [OF demo_packed_wf, of demo_eg None demo_mixed False] h
    by (auto simp: d store_def all_direct_def direct_def merge_elem_def demo_simps)
qed

text \<open>
  C14. Property tables. Turning a symbol table into a property table leaves the caller with a
  well-formed table of the same values in the same order, in which every integer key is replaced by
  its printed digits and every string key is as it was. Turning that table back gives exactly the elements there were
  before, integer keys as integers again: a string key that a symbol table can hold is never a
  printed integer. (The values are not references: the unwrapping of a reference is a parameter that
  leaves them as they are.)
\<close>

theorem property_table_round_trip:
  fixes ht :: "'v hashtable"
  assumes "wf_ht ht" "slots_ok g" "unref_proper unref" "symtable ht" "16 * length (elems ht) \<le> HT_MAX_SIZE"
    and "all_direct (elems ht)" "\<forall>(k, v) \<in> set (elems ht). unref v = v"
  shows "\<exists>g1 r1 g2 r2. zend_symtable_to_proptable unref i g ht = Some (g1, r1) \<and>
    wf_ht (result_table ht r1) \<and>
    elems (result_table ht r1) =
      map (\<lambda>(k, v). (case k of KInt n \<Rightarrow> KStr (zend_long_to_str n) | KStr s \<Rightarrow> KStr s, v)) (elems ht) \<and>
    zend_proptable_to_symtable unref immutable j g1 (result_table ht r1) False = Some (g2, r2) \<and>
    wf_ht (result_table (result_table ht r1) r2) \<and> elems (result_table (result_table ht r1) r2) = elems ht"
  using conversion_round_trip [OF assms] unfolding prop_key_def .

theorem property_table_round_trip_witness:
  "\<exists>g1 r1 g2 r2. zend_symtable_to_proptable id 2 demo_eg demo_mixed = Some (g1, r1) \<and>
     elems (result_table demo_mixed r1) = [(KStr [53], ZVAL 50), (KStr [102, 111, 111], ZVAL 51), (KStr [50, 49], ZVAL 52)] \<and>
     zend_proptable_to_symtable id False 3 g1 (result_table demo_mixed r1) False = Some (g2, r2) \<and>
     elems (result_table (result_table demo_mixed r1) r2) = elems demo_mixed"
proof -
  have "zend_handle_numeric_str [102, 111, 111] = None"
    by (simp add: zend_handle_numeric_str_def char_at_def Let_def word_sless_alt)
  then have "symtable demo_mixed" by (simp add: symtable_def symtable_key_def demo_simps)
  moreover have "zend_long_to_str 5 = [53]" "zend_long_to_str 21 = [50, 49]" by code_simp+
  ultimately show ?thesis
    using property_table_round_trip [OF demo_mixed_wf, of demo_eg id 2 False 3]
    by (auto simp: slots_ok_def demo_eg_def unref_proper_def all_direct_def direct_def HT_MAX_SIZE_def demo_simps)
qed

text \<open>
  Lists. \<open>zend_array_to_list\<close> returns a packed table with the values of the source under the
  numbers from zero, and \<open>zend_array_is_list\<close> tells whether a table's keys already are these numbers
  in this order.
\<close>

theorem array_lists:
  fixes source :: "'v hashtable"
  assumes "wf_ht source" "slots_ok g" "unref_proper unref" "16 * length (elems source) \<le> HT_MAX_SIZE"
  shows "(\<exists>t. zend_array_to_list unref i g source = Some t \<and> wf_ht t \<and> f_packed t \<and>
      elems t = map (\<lambda>n. (KInt (of_nat n), unref (snd (elems source ! n)))) [0..<length (elems source)]) \<and>
    (zend_array_is_list g source \<longleftrightarrow>
      map fst (elems source) = map (\<lambda>n. KInt (of_nat n)) [0..<length (elems source)])"
  using array_to_list_correct [OF assms, of i] is_list_correct [OF assms(1), of g] by blast

theorem array_lists_witness:
  "(\<exists>t. zend_array_to_list id 2 demo_eg demo_packed = Some t \<and> elems t = [(KInt 0, ZVAL 10), (KInt 1, ZVAL 12)]) \<and>
   \<not> zend_array_is_list demo_eg demo_packed"
  using array_lists [OF demo_packed_wf, of demo_eg id 2]
  by (auto simp: slots_ok_def demo_eg_def unref_proper_def HT_MAX_SIZE_def upt_rec demo_simps)

text \<open>
  C15. The engine's sort. Whatever the comparison function answers, \<open>zend_sort\<close> returns, permutes its
  segment and touches nothing outside it; when the comparison is a total preorder the segment is
  sorted.
\<close>

theorem zend_sort_sorts:
  assumes "b + n \<le> length xs"
  shows "\<exists>ys. zend_sort cmp b n xs = Some ys \<and> mset ys = mset xs \<and>
    (\<forall>k < length xs. k < b \<or> b + n \<le> k \<longrightarrow> ys ! k = xs ! k) \<and>
    (comparator cmp \<longrightarrow> (\<forall>i j. i < j \<and> j < n \<longrightarrow> \<not> cmp (ys ! (b + i)) (ys ! (b + j)) > 0))"
  using zend_sort_correct [OF assms, of cmp] by (auto simp: permutes_def sorted_seg_def)

theorem zend_sort_sorts_witness:
  "\<exists>ys. zend_sort (\<lambda>x y. x - y) 1 2 [5, 3, 2, 9 :: int] = Some ys \<and> ys ! 0 = 5 \<and> ys ! 3 = 9 \<and> \<not> ys ! 1 > ys ! 2"
proof -
  have c: "comparator (\<lambda>x y :: int. x - y)" by unfold_locales auto
  obtain ys where ys: "zend_sort (\<lambda>x y. x - y) 1 2 [5, 3, 2, 9 :: int] = Some ys"
    "\<forall>k < length [5, 3, 2, 9 :: int]. k < 1 \<or> 1 + 2 \<le> k \<longrightarrow> ys ! k = [5, 3, 2, 9] ! k"
    "\<forall>i j. i < j \<and> j < 2 \<longrightarrow> \<not> ys ! (1 + i) - ys ! (1 + j) > 0"
    using zend_sort_sorts [of 1 2 "[5, 3, 2, 9 :: int]" "\<lambda>x y. x - y"] c by auto
  then show ?thesis using ys(2) [rule_format, of 0] ys(2) [rule_format, of 3] ys(3) [rule_format, of 0 1]
    by (auto simp: numeral_2_eq_2)
qed

text \<open>
  C16. Sorting a table. For every sort routine that meets its contract and every comparison function,
  \<open>zend_hash_sort_ex\<close> returns a well-formed table with the same elements; when the comparison is a
  total preorder on elements they come out in order. The engine's routine meets the contract.
\<close>

theorem hash_sort_orders:
  assumes "sort_func sort_fn" "wf_ht ht"
  shows "\<exists>g' ht'. zend_hash_sort_ex g ht sort_fn compar False = Some (g', ht') \<and> wf_ht ht' \<and>
    mset (elems ht') = mset (elems ht) \<and> sorted_elems compar cmp (elems ht') \<and>
    nNextFreeElement ht' = nNextFreeElement ht"
  by (rule sort_ex_correct [OF assms])

theorem hash_sort_orders_witness:
  "\<exists>g' ht'. zend_hash_sort demo_eg demo_mixed ini_key_compare False = Some (g', ht') \<and> wf_ht ht' \<and>
     mset (elems ht') = mset (elems demo_mixed)"
  using hash_sort_orders [OF engine_sort.sort_func_axioms demo_mixed_wf, of demo_eg ini_key_compare "\<lambda>_ _. 0"]
  by (auto simp: zend_hash_sort_def)

text \<open>
  Sorting with renumbering. The result is a packed list numbered from zero whose values are a
  permutation of the old ones, in order when the comparison is a total preorder on values; the next
  free number is the count.
\<close>

theorem hash_sort_renumbers:
  assumes "sort_func sort_fn" "wf_ht ht" "0 < nNumOfElements ht"
  shows "\<exists>g' ht'. zend_hash_sort_ex g ht sort_fn compar True = Some (g', ht') \<and> wf_ht ht' \<and> f_packed ht' \<and>
    map fst (elems ht') = map (\<lambda>i. KInt (of_nat i)) [0..<nNumOfElements ht] \<and>
    mset (map snd (elems ht')) = mset (map snd (elems ht)) \<and>
    (comparator compar \<and> (\<forall>p q. compar p q > 0 \<longleftrightarrow> cmp (bval p) (bval q) > 0) \<longrightarrow>
       sorted_wrt (\<lambda>x y. \<not> cmp x y > 0) (map snd (elems ht'))) \<and>
    nNextFreeElement ht' = of_nat (nNumOfElements ht)"
  using sort_renumber_correct [OF assms, of g compar cmp] by blast

theorem hash_sort_renumbers_witness:
  "\<exists>g' ht'. zend_hash_sort demo_eg demo_mixed (\<lambda>p q. 0) True = Some (g', ht') \<and> f_packed ht' \<and>
     map fst (elems ht') = [KInt 0, KInt 1, KInt 2] \<and> mset (map snd (elems ht')) = {#ZVAL 50, ZVAL 51, ZVAL 52#}"
  using hash_sort_renumbers [OF engine_sort.sort_func_axioms demo_mixed_wf, of demo_eg "\<lambda>p q. 0" "\<lambda>_ _. 0"]
    elems_count [OF demo_mixed_wf]
  by (auto simp: zend_hash_sort_def upt_rec demo_simps)

text \<open>
  INI directives. Sorting them orders the keys: numbers first, largest first, then the names by
  the lexicographic order of their lower-case forms.
\<close>

theorem ini_entries_sorted:
  fixes ht :: "'v hashtable"
  assumes "wf_ht ht"
  shows "\<exists>g' ht'. zend_ini_sort_entries g ht = Some (g', ht') \<and> wf_ht ht' \<and> mset (elems ht') = mset (elems ht) \<and>
    sorted_wrt ini_key_le (map fst (elems ht'))"
  by (rule ini_sort_correct [OF assms])

theorem ini_entries_sorted_witness:
  "\<exists>g' ht'. zend_ini_sort_entries demo_eg demo_mixed = Some (g', ht') \<and> sorted_wrt ini_key_le (map fst (elems ht')) \<and>
     mset (elems ht') = {#(KInt 5, ZVAL 50), (KStr [102, 111, 111], ZVAL 51), (KInt 21, ZVAL 52)#}"
  using ini_entries_sorted [OF demo_mixed_wf, of demo_eg] by (auto simp: demo_simps)

text \<open>
  C17. Comparison. \<open>zend_hash_compare\<close> on two well-formed tables is the comparison of their element
  lists: first the counts, then, ordered, the keys and values pairwise, or, unordered, each value of
  the first with the value the second has under the same key. The assertion that the second table
  does not run out holds. The result is zero exactly when the lists agree.
\<close>

theorem hash_compare_is_list_compare:
  assumes "wf_ht ht1" "wf_ht ht2" "ht_id ht1 \<noteq> ht_id ht2"
  shows "zend_hash_compare g False ht1 ht2 compar ordered = Some (elems_cmp g compar ordered ht1 ht2) \<and>
    (elems_cmp g compar ordered ht1 ht2 = 0 \<longleftrightarrow> length (elems ht1) = length (elems ht2) \<and>
       (if ordered then list_all2 (\<lambda>(k, v) (l, w). k = l \<and> data_cmp g compar v w = 0) (elems ht1) (elems ht2)
        else (\<forall>(k, v) \<in> set (elems ht1). \<exists>w. abs_find ht2 k = Some w \<and> data_cmp g compar v w = 0)))"
  using compare_impl_correct [OF assms(1,2)] assms(3) by (simp add: zend_hash_compare_def elems_cmp_0)

theorem hash_compare_is_list_compare_witness:
  "\<exists>g t. zend_array_dup id False 2 demo_eg demo_packed = Some (g, t) \<and>
     zend_hash_compare demo_eg False demo_packed t (\<lambda>_ _. 0) True = Some 0"
proof -
  have "unref_ok id demo_eg" by (simp add: unref_ok_def demo_eg_def)
  then obtain g t where t: "zend_array_dup id False 2 demo_eg demo_packed = Some (g, t)" "wf_ht t" "ht_id t = 2"
    "elems t = elems demo_packed"
    using array_dup_correct [OF demo_packed_wf, of id demo_eg False 2]
    by (auto simp: dup_content_def List.map_filter_simps demo_simps)
  have "ht_id demo_packed \<noteq> ht_id t" using t(3) by (simp add: demo_packed_def)
  from hash_compare_is_list_compare [OF demo_packed_wf t(2) this, of demo_eg "\<lambda>_ _. 0" True] t show ?thesis
    by (auto simp: data_cmp_def compare_data_def deref_indirect_def demo_simps)
qed

text \<open>
  Extremes. When the comparison is a total preorder, \<open>zend_hash_minmax\<close> returns a cell of the table
  whose value no other value is beyond, and \<open>NULL\<close> only for an empty table.
\<close>

theorem hash_minmax_is_extreme:
  assumes "wf_ht ht" "comparator cmp"
    and "\<And>v w. (if flag then compar v w < 0 else compar v w > 0) \<longleftrightarrow> cmp v w > 0"
  shows "case zend_hash_minmax ht compar flag of
      None \<Rightarrow> elems ht = []
    | Some r \<Rightarrow> zref_val g ht r \<in> snd ` set (elems ht) \<and> (\<forall>v \<in> snd ` set (elems ht). \<not> cmp (zref_val g ht r) v > 0)"
  by (rule minmax_correct [OF assms])

theorem hash_minmax_is_extreme_witness:
  "\<exists>r. zend_hash_minmax demo_mixed (\<lambda>v w. 0) False = Some r \<and>
     zref_val demo_eg demo_mixed r \<in> {ZVAL 50, ZVAL 51, ZVAL 52}"
proof -
  have "comparator (\<lambda>v w :: nat zval. 0)" by unfold_locales auto
  from hash_minmax_is_extreme [OF demo_mixed_wf this, of False "\<lambda>v w. 0" demo_eg] show ?thesis
    by (auto simp: demo_simps split: option.splits)
qed

text \<open>
  C18. Numeric string keys. \<open>ZEND_HANDLE_NUMERIC_STR\<close> recognises a string as the integer \<open>n\<close> exactly
  when \<open>zend_long_to_str\<close> prints \<open>n\<close> as that string: no leading zeros, no \<open>-0\<close>, nothing outside the
  range of \<open>zend_long\<close>.
\<close>

theorem numeric_keys_are_printed_integers:
  "zend_handle_numeric_str key = Some n \<longleftrightarrow> key = zend_long_to_str n"
  by (rule handle_numeric_iff_printed)

text \<open>
  C19. The hash function. The unrolled x86-64 multiplications and the portable shift-and-add loop both
  compute DJBX33A from 5381 over the sign-extended bytes, with the top bit set, so that no string
  hashes to 0, the mark of a hash not yet computed.
\<close>

theorem hash_function_is_djbx33a:
  "zend_inline_hash_func str = djbx33a 5381 str OR 0x8000000000000000 \<and>
   zend_inline_hash_func_portable str = zend_inline_hash_func str \<and> zend_inline_hash_func str \<noteq> 0"
  using zend_inline_hash_func_eq portable_hash_eq zend_hash_nonzero by metis

text \<open>
  Table sizes. \<open>zend_hash_check_size\<close> returns the least power of two that is at least 8 and at
  least the size asked for, in the portable and in the count-leading-zeros variant, and fails exactly
  above \<open>HT_MAX_SIZE\<close>.
\<close>

theorem check_size_least_power:
  "zend_hash_check_size nSize = zend_hash_check_size_clz nSize \<and>
   (zend_hash_check_size nSize = None \<longleftrightarrow> HT_MAX_SIZE < unat nSize) \<and>
   (case zend_hash_check_size nSize of None \<Rightarrow> True
    | Some n \<Rightarrow> (\<exists>k. n = 2 ^ k) \<and> unat nSize \<le> n \<and> 8 \<le> n \<and> (n = 8 \<or> n div 2 < unat nSize))"
proof -
  have c: "unat (of_nat HT_MIN_SIZE :: u32) = 8" "unat (of_nat HT_MAX_SIZE :: u32) = HT_MAX_SIZE"
    by (simp_all add: HT_MIN_SIZE_def HT_MAX_SIZE_def)
  consider "nSize \<le> of_nat HT_MIN_SIZE" | "\<not> nSize \<le> of_nat HT_MIN_SIZE" "nSize > of_nat HT_MAX_SIZE"
    | "\<not> nSize \<le> of_nat HT_MIN_SIZE" "\<not> nSize > of_nat HT_MAX_SIZE" by blast
  then show ?thesis
  proof cases
    case 1
    then have "unat nSize \<le> 8" using c by (simp add: word_le_nat_alt)
    then show ?thesis using 1
      by (auto simp: zend_hash_check_size_def zend_hash_check_size_clz_def HT_MIN_SIZE_def HT_MAX_SIZE_def intro!: exI [of _ 3])
  next
    case 2
    then show ?thesis using c by (simp add: zend_hash_check_size_def zend_hash_check_size_clz_def word_less_nat_alt)
  next
    case 3
    obtain k where k: "2 ^ k < unat nSize" "unat nSize \<le> 2 ^ Suc k" "3 \<le> k"
      "zend_hash_check_size nSize = Some (2 ^ Suc k)" "zend_hash_check_size_clz nSize = Some (2 ^ Suc k)"
      using check_size_middle [OF 3] by blast
    have "(2::nat) ^ 3 \<le> 2 ^ k" using k(3) by (intro power_increasing) auto
    moreover have "\<exists>j. (2::nat) * 2 ^ k = 2 ^ j" by (rule exI [of _ "Suc k"]) simp
    ultimately show ?thesis using 3 k c by (simp add: word_less_nat_alt)
  qed
qed

text \<open>
  C20. Case conversion. Converting sixteen bytes at a time with a biased signed comparison, with the
  rest byte by byte, gives what the tables give for every byte: letters move between \<open>A-Z\<close> and \<open>a-z\<close>
  and no other byte changes. The variants that avoid a copy agree, and answer \<open>NULL\<close> or the string
  itself exactly when there is nothing to convert.
\<close>

theorem case_conversion_is_bytewise:
  "zend_str_tolower s = map (\<lambda>c. if 65 \<le> c \<and> c \<le> 90 then c + 32 else c) s \<and>
   zend_str_toupper s = map (\<lambda>c. if 97 \<le> c \<and> c \<le> 122 then c - 32 else c) s \<and>
   zend_str_tolower_dup_ex s = (if zend_str_tolower s = s then None else Some (zend_str_tolower_dup s)) \<and>
   zs_val (zend_string_tolower_ex z) = zend_str_tolower (zs_val z) \<and>
   zs_val (zend_string_toupper_ex z) = zend_str_toupper (zs_val z)"
proof -
  have "zend_str_tolower_impl = map zend_tolower_ascii" by (simp add: fun_eq_iff tolower_impl_map)
  then have d: "zend_str_tolower_dup_ex s = (if zend_str_tolower s = s then None else Some (zend_str_tolower_dup s))"
    unfolding zend_str_tolower_dup_ex_def zend_str_tolower_def zend_str_tolower_dup_def zend_str_tolower_copy_def
    by (metis append_Nil str_dup_from_eq)
  show ?thesis
    using d by (simp add: zend_str_tolower_def zend_str_toupper_def tolower_impl_map toupper_impl_map string_tolower_val
        string_toupper_val zend_tolower_ascii_eq zend_toupper_ascii_eq)
qed

text \<open>
  C21. String comparison. The sign of \<open>zend_binary_strcmp\<close> is the lexicographic order of the two byte
  strings, and that of \<open>zend_binary_strcasecmp\<close> the order of their lower-case forms, the \<open>n\<close> variants
  on prefixes, when equal pointers come with equal lengths.
\<close>

theorem string_compare_is_lexicographic:
  assumes "same \<longrightarrow> s1 = s2"
  shows "sgn (zend_binary_strcmp same s1 s2) = (if s1 < s2 then -1 else if s2 < s1 then 1 else 0) \<and>
    sgn (zend_binary_strncmp same s1 s2 n) = (if take n s1 < take n s2 then -1 else if take n s2 < take n s1 then 1 else 0) \<and>
    sgn (zend_binary_strcasecmp same s1 s2) =
      (if map zend_tolower_ascii s1 < map zend_tolower_ascii s2 then -1
       else if map zend_tolower_ascii s2 < map zend_tolower_ascii s1 then 1 else 0) \<and>
    sgn (zend_binary_strncasecmp same s1 s2 n) = sgn (zend_binary_strcasecmp same (take n s1) (take n s2))"
  using strcasecmp_lex [OF assms] strcasecmp_lex [of same "take n s1" "take n s2"] assms
  by (simp add: strcmp_lex strncmp_lex strncasecmp_lex lex_cmp_less)

theorem string_compare_is_lexicographic_witness:
  "sgn (zend_binary_strcasecmp False [70, 111] [102, 79]) = 0 \<and> sgn (zend_binary_strcmp False [70, 111] [102, 79]) = -1"
proof -
  have "map zend_tolower_ascii [70, 111] = [102, 111]" "map zend_tolower_ascii [102, 79] = [102, 111]" "[70, 111] < [102, 79 :: u8]"
    by (simp_all add: zend_tolower_ascii_eq)
  then show ?thesis using string_compare_is_lexicographic [of False "[70, 111]" "[102, 79]" 0] by simp
qed






section \<open>Decimal arithmetic\<close>

text \<open>
  Comparison of decimals. On numbers without leading zeros and without a negative zero,
  \<open>bc_compare\<close> answers -1, 0 or 1 as the first value is less than, equal to or greater than the second,
  whatever the two scales are.
\<close>

theorem bc_compare_orders_values:
  assumes "bc_canonical n1" "bc_canonical n2" "proper_sign n1" "proper_sign n2"
  shows "bc_compare n1 n2 = (if num_val n1 < num_val n2 then - 1 else if num_val n2 < num_val n1 then 1 else 0)"
  by (rule bc_compare_correct [OF assms])

definition demo_num :: "sign \<Rightarrow> int list \<Rightarrow> nat \<Rightarrow> bc_num" where
  "demo_num s ds scale = \<lparr>n_sign = s, n_len = length ds - scale, n_scale = scale, n_value = ds\<rparr>"

theorem bc_compare_orders_values_witness:
  "bc_compare (demo_num PLUS [1, 2, 5] 2) (demo_num PLUS [1, 2, 5, 0] 3) = 0 \<and> bc_compare (demo_num MINUS [9] 0) (demo_num PLUS [3] 0) = - 1"
proof -
  note d = demo_num_def bc_canonical_def bc_ok_def stripped_def proper_sign_def num_val_def bc_mag_def bc_digits_def mval_def
  show ?thesis
    using bc_compare_orders_values [of "demo_num PLUS [1, 2, 5] 2" "demo_num PLUS [1, 2, 5, 0] 3"]
      bc_compare_orders_values [of "demo_num MINUS [9] 0" "demo_num PLUS [3] 0"] by (simp add: d)
qed

text \<open>
  Addition and subtraction. \<open>bc_add\<close> and \<open>bc_sub\<close> are exact: the result has the value of the sum or
  difference, no leading zeros, and the largest of the two scales and the scale asked for.
\<close>

theorem bc_add_sub_exact:
  assumes "bc_canonical n1" "bc_canonical n2"
  shows "result_is (bc_add n1 n2 scale_min) (num_val n1 + num_val n2) (max (max (n_scale n1) (n_scale n2)) scale_min) \<and>
    result_is (bc_sub n1 n2 scale_min) (num_val n1 - num_val n2) (max (max (n_scale n1) (n_scale n2)) scale_min)"
  using add_correct [of n1 n2] sub_correct [of n1 n2] assms by simp

theorem bc_add_sub_exact_witness:
  "num_val (bc_add (demo_num PLUS [9, 9, 5] 2) (demo_num PLUS [7] 0) 0) = 1695 / 100 \<and>
   num_val (bc_sub (demo_num PLUS [9, 9, 5] 2) (demo_num PLUS [1, 7] 0) 4) = - 705 / 100"
proof -
  note d = demo_num_def bc_canonical_def bc_ok_def stripped_def num_val_def bc_mag_def bc_digits_def mval_def
  have c: "bc_canonical (demo_num PLUS [9, 9, 5] 2)" "bc_canonical (demo_num PLUS [7] 0)" "bc_canonical (demo_num PLUS [1, 7] 0)"
    by (simp_all add: d)
  have v: "num_val (demo_num PLUS [9, 9, 5] 2) = 995 / 100" "num_val (demo_num PLUS [7] 0) = 7" "num_val (demo_num PLUS [1, 7] 0) = 17"
    by (simp_all add: d)
  show ?thesis
    using bc_add_sub_exact [OF c(1,2), of 0] bc_add_sub_exact [OF c(1,3), of 4] by (simp add: result_is_def v)
qed




text \<open>
  C25. Division. For a divisor that is not zero \<open>bc_divide\<close>, the long division with normalised operands and guessed
  digits, returns the quotient cut towards zero at \<open>scale\<close> digits after the point, whatever the scales
  of its operands, with no leading zeros and no negative zero, as long as the digits of the operands and \<open>scale\<close>
  together number at most \<open>INT_MAX - 8\<close>. To return it must not have read or written outside
  \<open>num1\<close>, \<open>num2\<close>, \<open>mval\<close> and the \<open>qdigits\<close> digits of the quotient, and no \<open>int\<close> or \<open>unsigned int\<close> may have overflowed: all of
  these are \<open>None\<close>. When \<open>scale - scale1\<close> is beyond \<open>INT_MAX\<close>, as for \<open>1 / 0.3\<close> at the largest scale, it does overflow.
\<close>

theorem bc_divide_is_quotient:
  assumes "bc_ok n1" "bc_ok n2" "num_val n2 \<noteq> 0"
  shows "(int (n_len n1 + n_scale n1 + n_len n2 + n_scale n2 + scale) + 8 \<le> INT_MAX \<longrightarrow>
      (\<exists>q. bc_divide n1 n2 scale = Some (Some q) \<and> proper_sign q \<and>
        result_is q (bc_trunc (num_val n1 / num_val n2) scale) scale)) \<and>
    (INT_MAX < int scale - (int (n_scale n1) - int (skip_zeros (rev (bc_digits n2)) (n_scale n2))) \<longrightarrow>
      bc_divide n1 n2 scale = None)"
proof -
  have nz: "bc_mag n2 \<noteq> 0" using assms(3) by (auto simp: num_val_def)
  show ?thesis
    using divide_correct [OF assms(1,2) nz, of scale] divide_overflows [OF assms(2) nz, of scale n1] unfolding has_room_def by blast
qed

theorem bc_divide_is_quotient_witness:
  "(\<exists>q. bc_divide (demo_num MINUS [2, 2] 0) (demo_num PLUS [7, 0, 0] 2) 3 = Some (Some q) \<and> num_val q = - 3142 / 1000 \<and> n_scale q = 3) \<and>
   bc_divide (demo_num PLUS [1] 0) (demo_num PLUS [0, 3] 1) 2147483647 = None"
proof -
  note d = demo_num_def bc_ok_def num_val_def bc_mag_def bc_digits_def mval_def
  have "bc_ok (demo_num MINUS [2, 2] 0)" "bc_ok (demo_num PLUS [7, 0, 0] 2)" "num_val (demo_num PLUS [7, 0, 0] 2) \<noteq> 0"
    "bc_ok (demo_num PLUS [1] 0)" "bc_ok (demo_num PLUS [0, 3] 1)" "num_val (demo_num PLUS [0, 3] 1) \<noteq> 0" by (simp_all add: d)
  moreover have "bc_trunc (- 22 / 7) 3 = - 3142 / 1000" unfolding bc_trunc_def by (simp add: floor_eq_iff)
  ultimately show ?thesis
    using bc_divide_is_quotient [of "demo_num MINUS [2, 2] 0" "demo_num PLUS [7, 0, 0] 2" 3]
      bc_divide_is_quotient [of "demo_num PLUS [1] 0" "demo_num PLUS [0, 3] 1" 2147483647]
    by (auto simp: result_is_def d INT_MAX_def)
qed

text \<open>
  C26. Division with remainder and division by zero. \<open>bc_divide\<close>, \<open>bc_divmod\<close> and \<open>bc_modulo\<close> answer \<open>false\<close>
  exactly for a divisor of value zero. Otherwise \<open>bc_divmod\<close> gives the quotient cut to an integer and
  a remainder with \<open>num1 = quot * num2 + rem\<close> exactly, smaller than the divisor and with the sign of the
  dividend, and \<open>bc_modulo\<close> gives that remainder. (For a divisor that is not zero the digits of the
  operands number at most \<open>INT_MAX - 8\<close>, so that the lengths of the division are \<open>int\<close>.)
\<close>

theorem bc_divmod_or_error:
  assumes "bc_canonical num1" "bc_canonical num2"
    "num_val num2 \<noteq> 0 \<Longrightarrow> int (n_len num1 + n_scale num1 + n_len num2 + n_scale num2) + 8 \<le> INT_MAX"
  shows "if num_val num2 = 0
    then bc_divide num1 num2 scale = Some None \<and> bc_divmod num1 num2 scale = Some None \<and> bc_modulo num1 num2 scale = Some None
    else \<exists>quot rem. bc_divmod num1 num2 scale = Some (Some (quot, rem)) \<and> bc_modulo num1 num2 scale = Some (Some rem) \<and>
      result_is quot (bc_trunc (num_val num1 / num_val num2) 0) 0 \<and> bc_canonical rem \<and>
      n_scale rem = max (n_scale num1) (n_scale num2 + scale) \<and>
      num_val num1 = num_val quot * num_val num2 + num_val rem \<and>
      \<bar>num_val rem\<bar> < \<bar>num_val num2\<bar> \<and> 0 \<le> num_val num1 * num_val rem"
proof (cases "num_val num2 = 0")
  case True
  then have "bc_is_zero num2" using is_zero_iff [of num2] assms by (simp add: num_val_def)
  then show ?thesis using True by (simp add: divide_by_zero divmod_by_zero bc_modulo_def)
next
  case False
  then have "bc_mag num2 \<noteq> 0" by (simp add: num_val_def)
  from divmod_correct [OF canonical_norm [OF assms(1)] canonical_ok [OF assms(2)] this assms(3) [OF False, folded has_room_def], of scale] show ?thesis
    using False trunc_remainder [OF False, of "num_val num1"] by (auto simp: result_is_def bc_modulo_def)
qed

theorem bc_divmod_or_error_witness:
  "bc_modulo (demo_num PLUS [7] 0) (demo_num PLUS [0, 0] 1) 2 = Some None \<and>
   (\<exists>quot rem. bc_divmod (demo_num MINUS [7, 5] 1) (demo_num PLUS [2] 0) 0 = Some (Some (quot, rem)) \<and>
      num_val quot = - 3 \<and> num_val rem = - 3 / 2)"
proof -
  note d = demo_num_def bc_canonical_def bc_ok_def stripped_def num_val_def bc_mag_def bc_digits_def mval_def
  have c: "bc_canonical (demo_num PLUS [7] 0)" "bc_canonical (demo_num PLUS [0, 0] 1)" "bc_canonical (demo_num MINUS [7, 5] 1)"
    "bc_canonical (demo_num PLUS [2] 0)" by (simp_all add: d)
  have v: "num_val (demo_num PLUS [0, 0] 1) = 0" "num_val (demo_num MINUS [7, 5] 1) = - 75 / 10" "num_val (demo_num PLUS [2] 0) = 2"
    by (simp_all add: d)
  have "bc_trunc (- 75 / 10 / 2) 0 = - 3" by (simp add: bc_trunc_def floor_eq_iff)
  then show ?thesis
    using bc_divmod_or_error [OF c(1,2), of 2] bc_divmod_or_error [OF c(3,4), of 0] v
    by (auto simp: result_is_def INT_MAX_def demo_num_def)
qed



lemmas text_eval = text_val_def text_sign_def text_body_def text_whole_def text_fraction_def text_after_def after_point_def
  decimal_text_def is_decimal_def CH_VAL_def mval_def at_ptr_def




text \<open>
  C29. Parser and printer. \<open>bc_str2num\<close> accepts exactly the texts of an optional sign, digits, an
  optional point and digits, and its number has the value of the text cut to the scale, no leading
  zeros and no negative zero. What \<open>bc_num2str_ex\<close> prints is such a text, and reading it back gives the
  number cut to the scale.
\<close>

theorem decimal_text_round_trip:
  assumes "CHR 0x00 \<notin> set str" "bc_ok num"
  shows "(\<exists>n. bc_str2num str scale = (n, decimal_text str) \<and> bc_canonical n \<and> proper_sign n \<and> n_scale n \<le> scale \<and>
      num_val n = (if decimal_text str then bc_trunc (text_val str) scale else 0)) \<and>
    (\<exists>n. bc_str2num (bc_num2str_ex num scale) scale = (n, True) \<and> bc_canonical n \<and> proper_sign n \<and>
      num_val n = bc_trunc (num_val num) scale)"
proof -
  note T = num2str_text [OF assms(2), of scale]
  show ?thesis using str2num_correct [OF assms(1), of scale] str2num_correct [OF T(1), of scale] T(2,3) by (auto simp: trunc_idem)
qed

theorem decimal_text_round_trip_witness:
  "(\<exists>n. bc_str2num ''+.50'' 3 = (n, True) \<and> num_val n = 1 / 2) \<and> snd (bc_str2num ''1.2.3'' 3) = False \<and>
   (\<exists>n. bc_str2num (bc_num2str_ex (demo_num MINUS [0, 1, 2, 5] 2) 1) 1 = (n, True) \<and> num_val n = - 12 / 10)"
proof -
  have v: "decimal_text ''+.50''" "text_val ''+.50'' = 1 / 2" "\<not> decimal_text ''1.2.3''" by (simp_all add: text_eval)
  have ok: "bc_ok (demo_num MINUS [0, 1, 2, 5] 2)" "num_val (demo_num MINUS [0, 1, 2, 5] 2) = - 5 / 4"
    by (simp_all add: demo_num_def bc_ok_def num_val_def bc_mag_def bc_digits_def mval_def)
  have t: "bc_trunc (1 / 2) 3 = 1 / 2" "bc_trunc (- 5 / 4) 1 = - 12 / 10" by (simp_all add: bc_trunc_def floor_eq_iff)
  have n: "CHR 0x00 \<notin> set ''+.50''" "CHR 0x00 \<notin> set ''1.2.3''" by simp_all
  show ?thesis
    using decimal_text_round_trip [OF n(1) ok(1), of 3] decimal_text_round_trip [OF n(2) ok(1), of 3]
      decimal_text_round_trip [OF n(1) ok(1), of 1] v t ok(2) by auto
qed

text \<open>
  C30. Square roots. The loop of \<open>bc_sqrt\<close> has no bound, and it ends: for every number that is not
  negative \<open>bc_sqrt\<close> answers true with the largest number of \<open>max scale (n_scale num)\<close> places after the
  point whose square does not exceed the number; for a negative one it answers false. The lengths and
  scales of the guesses, up to \<open>rscale + 1\<close> places and one digit more than the number, go to \<open>bc_divide\<close> as \<open>int\<close>:
  the digits of the number and \<open>scale\<close>, twice over, stay at least 16 below \<open>INT_MAX\<close>.
\<close>

theorem bc_sqrt_returns_root:
  assumes "bc_canonical num" "proper_sign num"
    "int (2 * n_len num + n_scale num + 2 * max scale (n_scale num)) + 15 \<le> INT_MAX"
  shows "if num_val num < 0 then bc_sqrt num scale = Some (num, False)
    else \<exists>r. bc_sqrt num scale = Some (r, True) \<and> bc_canonical r \<and> n_scale r \<le> max scale (n_scale num) \<and>
      is_root (num_val r) (num_val num) (max scale (n_scale num))"
proof -
  have "has_room (2 * n_len num + n_scale num + 2 * max scale (n_scale num) + 7)" using assms(3) by (simp add: has_room_def)
  from sqrt_correct [OF assms(1,2) this] show ?thesis by simp
qed

theorem bc_sqrt_returns_root_witness:
  "(\<exists>r. bc_sqrt (demo_num PLUS [2] 0) 3 = Some (r, True) \<and> num_val r * num_val r \<le> 2 \<and> 2 < (num_val r + 1 / 1000) * (num_val r + 1 / 1000)) \<and>
   bc_sqrt (demo_num MINUS [2] 0) 3 = Some (demo_num MINUS [2] 0, False)"
proof -
  note d = demo_num_def bc_canonical_def bc_ok_def stripped_def proper_sign_def num_val_def bc_mag_def bc_digits_def mval_def INT_MAX_def
  have c: "bc_canonical (demo_num PLUS [2] 0)" "proper_sign (demo_num PLUS [2] 0)"
    "bc_canonical (demo_num MINUS [2] 0)" "proper_sign (demo_num MINUS [2] 0)"
    "num_val (demo_num PLUS [2] 0) = 2" "num_val (demo_num MINUS [2] 0) = - 2" "n_scale (demo_num PLUS [2] 0) = 0"
    by (simp_all add: d)
  show ?thesis
    using bc_sqrt_returns_root [OF c(1,2), of 3] bc_sqrt_returns_root [OF c(3,4), of 3] c(5-7)
    by (auto simp: is_root_def INT_MAX_def demo_num_def)
qed


text \<open>
  C31. The conversions between serial day numbers and dates are inverse to each other. Every day number
  (up to 784000000000; the years stay within an \<open>int\<close>) is a date that exists in the Gregorian and in the
  Julian calendar, with leap years by the rule of each, and converting it back gives the number; every date
  that exists and whose number is positive (the code refuses those before day 1) comes back from its number.
  The days and dates of the French republican calendar correspond in the same way, within its years 1 to 14.
\<close>

theorem calendar_round_trips:
  assumes "0 < sdn" "sdn \<le> 784000000000" "y \<le> 2146000000"
  shows "(case SdnToGregorian sdn of (y, m, d) \<Rightarrow> date_exists gregorian_leap (y, m, d) \<and> GregorianToSdn y m d = sdn) \<and>
    (case SdnToJulian sdn of (y, m, d) \<Rightarrow> date_exists julian_leap (y, m, d) \<and> JulianToSdn y m d = sdn) \<and>
    (FIRST_VALID \<le> sdn \<and> sdn \<le> LAST_VALID \<longrightarrow> (case SdnToFrench sdn of (y, m, d) \<Rightarrow> french_exists (y, m, d) \<and> FrenchToSdn y m d = sdn)) \<and>
    (date_exists gregorian_leap (y, m, d) \<and> 0 < GregorianToSdn y m d \<longrightarrow> SdnToGregorian (GregorianToSdn y m d) = (y, m, d)) \<and>
    (date_exists julian_leap (y, m, d) \<and> 0 < JulianToSdn y m d \<longrightarrow> SdnToJulian (JulianToSdn y m d) = (y, m, d)) \<and>
    (french_exists (y, m, d) \<longrightarrow> SdnToFrench (FrenchToSdn y m d) = (y, m, d))"
  using gregorian_to_date [OF assms(1,2)] julian_to_date [OF assms(1,2)] french_to_date [of sdn]
    gregorian_from_date [OF _ assms(3), of m d] julian_from_date [OF _ assms(3), of m d] french_from_date(3) [of y m d]
  by (intro conjI impI) (elim conjE, assumption | fast)+

theorem calendar_round_trips_witness:
  "(case SdnToGregorian 2376296 of (y, m, d) \<Rightarrow> GregorianToSdn y m d = 2376296) \<and>
   (case SdnToJulian 2376296 of (y, m, d) \<Rightarrow> JulianToSdn y m d = 2376296) \<and>
   (case SdnToFrench 2376296 of (y, m, d) \<Rightarrow> FrenchToSdn y m d = 2376296) \<and>
   SdnToGregorian (GregorianToSdn 2000 2 29) = (2000, 2, 29) \<and> SdnToJulian (JulianToSdn 1900 2 29) = (1900, 2, 29) \<and>
   SdnToFrench (FrenchToSdn 3 13 6) = (3, 13, 6)"
proof -
  have d: "(0::int) < 2376296" "(2376296::int) \<le> 784000000000" "(2000::int) \<le> 2146000000" "(1900::int) \<le> 2146000000" "(3::int) \<le> 2146000000"
    "FIRST_VALID \<le> 2376296" "2376296 \<le> LAST_VALID" by (simp_all add: FIRST_VALID_def LAST_VALID_def)
  have g: "date_exists gregorian_leap (2000, 2, 29)" "0 < GregorianToSdn 2000 2 29"
    by (simp_all add: date_exists_def gregorian_leap_def astronomical_def month_length_def GregorianToSdn_def march_year_def cal_simps Let_def)
  have j: "date_exists julian_leap (1900, 2, 29)" "0 < JulianToSdn 1900 2 29"
    by (simp_all add: date_exists_def julian_leap_def astronomical_def month_length_def JulianToSdn_def march_year_def cal_simps Let_def)
  have f: "french_exists (3, 13, 6)" by (simp add: french_exists_def)
  show ?thesis
    using calendar_round_trips [OF d(1-3), of 2 29] calendar_round_trips [OF d(1,2,4), of 2 29] calendar_round_trips [OF d(1,2,5), of 13 6]
      d(6,7) g j f by (auto split: prod.splits)
qed

text \<open>
  C32. Easter. \<open>easter_days\<close> reports an error exactly for the years outside 1 to the limit. Otherwise its answer is the date
  of the calendar that the year and the second argument choose: by Meeus's rule for the Julian calendar, and from 1583 on by
  his rule for the Gregorian calendar, with the golden number, the corrections of the century and the full moon. It lies
  within 1 to 35 days after March 21, and that day is a Sunday in that calendar. The last two years of the Julian
  branch overflow \<open>zend_long\<close>.
\<close>

theorem easter_is_a_sunday:
  "let y = (case year of None \<Rightarrow> now | Some y \<Rightarrow> y) in
    if y \<notin> {1 .. 7378697629483820644}
      then easter_days now year how = Some (Inl (year_error ''must be between 1 and 7378697629483820644''))
    else if easter_in_julian y how \<and> y > 7378697629483820642 then easter_days now year how = None
    else \<exists>n. easter_days now year how = Some (Inr n) \<and> n \<in> {1 .. 35} \<and>
      DayOfWeek ((if easter_in_julian y how then JulianToSdn y 3 21 else GregorianToSdn y 3 21) + n) = 0 \<and>
      n = (if easter_in_julian y how then julian_easter y else if 1583 \<le> y then gregorian_easter y else n)"
  unfolding Let_def by (rule easter_days_correct) (rule refl)

theorem easter_is_a_sunday_witness:
  "easter_days 0 (Some 2024) CAL_EASTER_DEFAULT = Some (Inr 10) \<and> easter_days 0 (Some 1492) CAL_EASTER_DEFAULT = Some (Inr 32) \<and>
   easter_days 0 (Some 7378697629483820643) CAL_EASTER_ALWAYS_JULIAN = None"
proof -
  have "gregorian_easter 2024 = 10" "julian_easter 1492 = 32" by (simp_all add: gregorian_easter_def julian_easter_def Let_def)
  then show ?thesis
    using easter_is_a_sunday [of 0 "Some 2024" CAL_EASTER_DEFAULT] easter_is_a_sunday [of 0 "Some 1492" CAL_EASTER_DEFAULT]
      easter_is_a_sunday [of 0 "Some 7378697629483820643" CAL_EASTER_ALWAYS_JULIAN]
    by (auto simp: easter_in_julian_def CAL_EASTER_DEFAULT_def CAL_EASTER_ALWAYS_GREGORIAN_def CAL_EASTER_ROMAN_def CAL_EASTER_ALWAYS_JULIAN_def)
qed


text \<open>
  C33. The Jewish calendar. Every day number the code converts is a date that exists in the calendar (its
  years begin with the molad and the four postponements), and converting it back gives the number; every date
  that exists, up to the last day number, comes back from its number. The unbounded search for the cycle of the
  molad returns.
\<close>

theorem jewish_calendar_round_trip:
  assumes "JEWISH_SDN_OFFSET < sdn" "sdn \<le> JEWISH_SDN_MAX"
    and "jewish_exists (y, m, d)" "y < 2 ^ 22 - 1" "JewishToSdn y m d \<le> JEWISH_SDN_MAX"
  shows "(case SdnToJewish sdn of None \<Rightarrow> False | Some (y, m, d) \<Rightarrow> jewish_exists (y, m, d) \<and> JewishToSdn y m d = sdn) \<and>
    SdnToJewish (JewishToSdn y m d) = Some (y, m, d)"
  using jewish_to_date [of sdn] jewish_from_date [OF assms(3,4)] assms(1,2,5) by (simp add: JEWISH_SDN_OFFSET_def JEWISH_SDN_MAX_def)

theorem jewish_calendar_round_trip_witness:
  "(case SdnToJewish 2459112 of None \<Rightarrow> False | Some (y, m, d) \<Rightarrow> JewishToSdn y m d = 2459112) \<and>
   SdnToJewish (JewishToSdn 5781 1 1) = Some (5781, 1, 1)"
proof -
  have e: "jewish_exists (5781, 1, 1)" by (simp add: jewish_exists_def jewish_month_def)
  have n: "new_year 5780 = 2111115" by code_simp
  have "JewishToSdn 5781 1 1 = 2459112" using first_of_tishri [of 5781] n by simp
  then show ?thesis
    using jewish_calendar_round_trip [of 2459112, OF _ _ e] by (auto simp: JEWISH_SDN_OFFSET_def JEWISH_SDN_MAX_def split: option.splits)
qed

text \<open>
  C34. Jewish years. From one first of Tishri to the next there are 383 to 385 days in a leap year and 353 to
  355 in an ordinary one, and no year begins on a Sunday, a Wednesday or a Friday.
\<close>

theorem jewish_years_well_placed:
  assumes "1 \<le> y" "y < 2 ^ 22 - 2"
  shows "JewishToSdn (y + 1) 1 1 - JewishToSdn y 1 1 \<in>
      (if monthsPerYear ! nat ((y - 1) mod 19) = 13 then {383, 384, 385} else {353, 354, 355}) \<and>
    DayOfWeek (JewishToSdn y 1 1) \<notin> {0, 3, 5}"
  using jewish_years [OF assms] by blast

theorem jewish_years_well_placed_witness:
  "JewishToSdn 5782 1 1 - JewishToSdn 5781 1 1 \<in> {353, 354, 355} \<and> DayOfWeek (JewishToSdn 5781 1 1) \<notin> {0, 3, 5}"
  using jewish_years_well_placed [of 5781] by (simp add: monthsPerYear_def)

text \<open>
  C35. Dates as \<open>cal_from_jd\<close> gives them: from day number 1 to 784000000000 of the Gregorian and the Julian calendar (beyond, the year
  approaches the end of \<open>int\<close>), from 347998 to 324542846 of the Jewish one and from 2375840 to 2380952 of the French one. The
  conversion returns; \<open>dow\<close> and both names of the day are those of the day number modulo 7; the month's name and its
  abbreviation are those of the month in the calendar's own tables, within the table and never one of the empty fillers;
  \<open>date\<close> is the month, day and year printed; and \<open>cal_to_jd\<close> takes them back to the day number.
\<close>

theorem calendar_dates_well_formed:
  assumes "calendar_range cal jd"
  shows "\<exists>i. cal_from_jd jd cal = Some (Inr i) \<and> jd_info_ok cal jd i"
  by (rule cal_from_jd_correct [OF assms])

theorem calendar_dates_well_formed_witness:
  "(\<exists>i. cal_from_jd 2459112 CAL_JEWISH = Some (Inr i) \<and> cal_to_jd CAL_JEWISH (jd_month i) (jd_day i) (jd_year i) = Inr 2459112 \<and>
      dayname i = ''Saturday'') \<and>
   (\<exists>i. cal_from_jd 784000000000 CAL_GREGORIAN = Some (Inr i) \<and> abbrevmonth i = MonthNameShort ! nat (jd_month i) \<and> abbrevmonth i \<noteq> [])"
proof -
  have r: "calendar_range CAL_JEWISH 2459112" "calendar_range CAL_GREGORIAN 784000000000"
    by (simp_all add: calendar_range_def cal_ids JEWISH_SDN_OFFSET_def JEWISH_SDN_MAX_def FIRST_VALID_def LAST_VALID_def)
  have "DayNameLong ! nat ((2459112 + 1) mod 7) = ''Saturday''" by code_simp
  then show ?thesis using calendar_dates_well_formed [OF r(1)] calendar_dates_well_formed [OF r(2)]
    by (auto simp: jd_info_ok_def name_of_def short_months_of_def)
qed

text \<open>
  C36. The days of a month. For every calendar number, every month that is an \<open>int\<close> and every year from \<open>INT_MIN\<close> to 2147478846 (of
  the Jewish calendar, below 4194302), \<open>cal_days_in_month\<close> answers exactly this: an unknown calendar is refused; a month that exists
  in the calendar has the days of its rules, leap years, the years before and after the missing year 0 and the
  partial first years included; a month that does not is an invalid date, with one exception, the sixth month of a
  Jewish year of twelve months, for which the code answers 0 days.
\<close>

theorem days_in_month_of_calendars:
  assumes "CINT_MIN \<le> y" "y \<le> 2147478846" "CINT_MIN \<le> m" "m \<le> CINT_MAX" "cal = CAL_JEWISH \<Longrightarrow> y < 2 ^ 22 - 2"
  shows "cal_days_in_month cal m y =
    (if cal < 0 \<or> 4 \<le> cal then Inl (cal_argument_error 1 ''must be a valid calendar ID'')
     else case calendar_month cal y m of
       Some n \<Rightarrow> Inr n
     | None \<Rightarrow> if cal = CAL_JEWISH \<and> 1 \<le> y \<and> m = 6 then Inr 0 else Inl (cal_value_error ''Invalid date''))"
  by (rule days_in_month_total [OF assms])

theorem days_in_month_of_calendars_witness:
  "cal_days_in_month CAL_JULIAN 2 1900 = Inr 29 \<and> cal_days_in_month CAL_FRENCH 13 3 = Inr 6 \<and>
   cal_days_in_month CAL_GREGORIAN 11 (- 4714) = Inl (cal_value_error ''Invalid date'') \<and>
   cal_days_in_month CAL_GREGORIAN 12 (- 4714) = Inr 31 \<and>
   cal_days_in_month 4 1 2000 = Inl (cal_argument_error 1 ''must be a valid calendar ID'') \<and>
   cal_days_in_month CAL_GREGORIAN 13 2000 = Inl (cal_value_error ''Invalid date'')"
proof -
  have c: "calendar_month CAL_JULIAN 1900 2 = Some 29" "calendar_month CAL_FRENCH 3 13 = Some 6"
    "calendar_month CAL_GREGORIAN (- 4714) 11 = None" "calendar_month CAL_GREGORIAN (- 4714) 12 = Some 31"
    "calendar_month CAL_GREGORIAN 2000 13 = None"
    by (simp_all add: calendar_month_def cal_ids date_exists_def julian_leap_def gregorian_leap_def astronomical_def month_length_def
      french_exists_def)
  show ?thesis
    using days_in_month_of_calendars [of 1900 2 CAL_JULIAN] days_in_month_of_calendars [of 3 13 CAL_FRENCH]
      days_in_month_of_calendars [of "- 4714" 11 CAL_GREGORIAN] days_in_month_of_calendars [of "- 4714" 12 CAL_GREGORIAN]
      days_in_month_of_calendars [of 2000 1 4] days_in_month_of_calendars [of 2000 13 CAL_GREGORIAN] c
    by (simp add: CINT_MIN_def CINT_MAX_def cal_ids)
qed

text \<open>
  C37. Hebrew numerals. \<open>heb_number_to_chars\<close> writes the numbers from 1 to 9999 and refuses the others. With
  every flag the text and its NUL fit into the buffer of 18 bytes; behind the letter of the thousands, the values
  of the letters add up to the rest of the number.
\<close>

theorem hebrew_numerals_add_up:
  "if 1 \<le> n \<and> n \<le> 9999
   then \<exists>before t. heb_number_to_chars n fl = Some (before @ t) \<and> hebrew_value t = n mod 1000 \<and> length (before @ t) + 1 \<le> 18 \<and>
     (if n < 1000 then before = [] else before \<noteq> [] \<and> hd before = alef_bet ! nat (n div 1000))
   else heb_number_to_chars n fl = None"
proof (cases "1 \<le> n \<and> n \<le> 9999")
  case True
  then obtain before t where "heb_number_to_chars n fl = Some (before @ t)" "hebrew_value t = n mod 1000" "length (before @ t) + 1 \<le> 18"
    "if n < 1000 then before = [] else before \<noteq> [] \<and> hd before = alef_bet ! nat (n div 1000)" by (elim conjE heb_number_correct [of n fl])
  then show ?thesis unfolding if_P [OF True] by blast
next
  case False
  then show ?thesis by (auto simp: heb_number_to_chars_def)
qed

section \<open>Lists and stacks\<close>

text \<open>
  C38. Linked lists. Every sequence of calls on a linked list returns, whatever the destructor and the callbacks
  do to the data and the state: the list stays linked both ways with a right count, no element outside of it is
  touched, and data and state are those of the same operations on the list of the data (a sort leaves open only the
  order of equal data).
\<close>

theorem llist_calls_refine_lists:
  assumes "llist_at w l as"
  shows "\<exists>l' w' as'. llist_calls cs l w = Some (l', w') \<and> llist_step w l as w' l' as' \<and>
    list_specs (dtor l) cs (contents w as, env w) (contents w' as', env w')"
  by (rule llist_calls_refine [OF assms])

definition demo_store :: "(nat, nat list) element_store" where "demo_store = \<lparr>cells = Map.empty, fresh = 0, env = []\<rparr>"

definition demo_llist :: "(nat, nat list) llist" where
  "demo_llist = zend_llist_init 8 (Some (\<lambda>x s. s @ [x])) False
     \<lparr>head = None, tail = None, count = 0, el_size = 0, dtor = None, persistent = False, traverse_ptr = None\<rparr>"

theorem llist_calls_refine_lists_witness:
  "\<exists>l' w' as'. llist_calls [call_add 2, call_prepend 1, call_add 3, call_del (\<lambda>x. x = 2), call_add 5, call_remove_tail] demo_llist demo_store =
      Some (l', w') \<and> llist_at w' l' as' \<and> contents w' as' = [1, 3] \<and> env w' = [2, 5]"
proof -
  have l: "llist_at demo_store demo_llist []" by (simp add: llist_at_def demo_store_def demo_llist_def zend_llist_init_def)
  have e: "dtor demo_llist = Some (\<lambda>x s. s @ [x])" "contents demo_store [] = []" "env demo_store = []"
    by (simp_all add: demo_store_def demo_llist_def zend_llist_init_def)
  show ?thesis
    using llist_calls_refine_lists [OF l, of "[call_add 2, call_prepend 1, call_add 3, call_del (\<lambda>x. x = 2), call_add 5, call_remove_tail]"]
    by (auto simp: e llist_step_def run_list_dtor_def split del: if_split)
qed



section \<open>Searching in strings\<close>

text \<open>
  C40. Substring search. With every needle of at most 2 to the 31st bytes the searches return, read only bytes of
  the two strings, and find the first occurrence (\<open>zend_memnstr\<close>) and the last one (\<open>zend_memnrstr\<close>), or \<open>NULL\<close> when
  there is none: whichever of the loop over candidates and Sunday's algorithm with its shift table is chosen.
\<close>

theorem substring_search_correct:
  assumes "length needle \<le> 2 ^ 31"
  shows "zend_memnstr hay needle = Some (first_occurrence hay needle) \<and>
    zend_memnrstr hay needle = Some (last_occurrence hay needle) \<and>
    (needle \<noteq> [] \<longrightarrow> zend_memnstr_ex hay needle = Some (first_occurrence hay needle) \<and>
      zend_memnrstr_ex hay needle = Some (last_occurrence hay needle))"
  using memnstr_correct [of needle hay] memnrstr_correct [of needle hay] memnstr_ex_correct [of needle hay] memnrstr_ex_correct [of needle hay] assms
  by simp

theorem substring_search_correct_witness:
  "zend_memnstr [97, 98, 114, 97, 99, 97, 100, 97, 98, 114, 97] [97, 98, 114, 97] = Some (Some 0) \<and>
   zend_memnrstr [97, 98, 114, 97, 99, 97, 100, 97, 98, 114, 97] [97, 98, 114, 97] = Some (Some 7) \<and>
   zend_memnstr_ex [97, 98, 114, 97, 99, 97, 100, 97, 98, 114, 97] [100, 97] = Some (Some 6) \<and>
   zend_memnrstr_ex [97, 98, 114, 97, 99, 97, 100, 97, 98, 114, 97] [98, 97] = Some None"
proof -
  have "first_occurrence [97, 98, 114, 97, 99, 97, 100, 97, 98, 114, 97] [97, 98, 114, 97] = Some 0"
    "last_occurrence [97, 98, 114, 97, 99, 97, 100, 97, 98, 114, 97] [97, 98, 114, 97] = Some 7"
    "first_occurrence [97, 98, 114, 97, 99, 97, 100, 97, 98, 114, 97] [100, 97] = Some 6"
    "last_occurrence [97, 98, 114, 97, 99, 97, 100, 97, 98, 114, 97] [98, 97] = None" by code_simp+
  then show ?thesis
    using substring_search_correct [of "[97, 98, 114, 97]" "[97, 98, 114, 97, 99, 97, 100, 97, 98, 114, 97]"]
      substring_search_correct [of "[100, 97]" "[97, 98, 114, 97, 99, 97, 100, 97, 98, 114, 97]"]
      substring_search_correct [of "[98, 97]" "[97, 98, 114, 97, 99, 97, 100, 97, 98, 114, 97]"] by simp
qed

end
